(* ===== verification/Go_Prelude.thy ===== *)
theory Go_Prelude
  imports Main "HOL-Library.AList" "HOL-Library.Word"
begin

text \<open>
  Shared vocabulary of the development: the outcome of a Go call that can return an
  error or panic, Go's maps (\<^verbatim>\<open>map\<close> and \<^verbatim>\<open>sync.Map\<close>) as association lists behind
  a locale of map laws, machine integers, and the generic list and option lemmas the
  component theories use.

  A Go map has no iteration order. The model iterates an association list from left to
  right; every list with distinct keys and the same entries represents the same map, and
  the component theorems are stated for an arbitrary representing list, through sets,
  multisets and lookups, so no theorem depends on the order.
\<close>

named_theorems go_map_simps \<open>lookups and key sets of Go maps after an operation\<close>
named_theorems go_wf \<open>operations keep the keys of a Go map distinct\<close>


section \<open>Machine integers\<close>

type_synonym int64 = "64 word"   \<comment> \<open>Go's \<open>int64\<close> and \<open>atomic.Int64\<close>; read with \<open>sint\<close>\<close>
type_synonym int32 = "32 word"   \<comment> \<open>\<open>atomic.Int32\<close>; read with \<open>sint\<close>\<close>
type_synonym uint64 = "64 word"  \<comment> \<open>read with \<open>uint\<close>\<close>
type_synonym uint32 = "32 word"
type_synonym uint16 = "16 word"
type_synonym byte = "8 word"

lemma sint_int64_bounds: "- (2 ^ 63) \<le> sint (w :: int64)" "sint (w :: int64) < 2 ^ 63"
  using sint_ge [of w] sint_lt [of w] by simp_all

lemma sint_pos_eq_uint: "0 \<le> sint (w :: int64) \<Longrightarrow> sint w = uint w"
  using uint_sint [of w] sint_int64_bounds [of w] by (simp add: take_bit_int_eq_self)

lemma sint_pos_less: "0 \<le> sint (w :: int64) \<Longrightarrow> uint w < 2 ^ 63"
  using sint_pos_eq_uint sint_int64_bounds by metis

lemma sint_small32: "n < 2 ^ 31 \<Longrightarrow> sint (word_of_nat n :: int32) = int n"
  by (simp add: signed_of_nat signed_take_bit_int_eq_self)


section \<open>Outcomes\<close>

text \<open>A call returns a value, returns an error, or panics.\<close>

datatype ('e, 'a) res = Ok 'a | Err 'e | Panic

definition res_bind :: "('e, 'a) res \<Rightarrow> ('a \<Rightarrow> ('e, 'b) res) \<Rightarrow> ('e, 'b) res" where
  "res_bind r f = (case r of Ok a \<Rightarrow> f a | Err e \<Rightarrow> Err e | Panic \<Rightarrow> Panic)"

lemma res_bind_simps [simp]:
  "res_bind (Ok a) f = f a" "res_bind (Err e) f = Err e" "res_bind Panic f = Panic"
  by (simp_all add: res_bind_def)

lemma res_bind_eq_Ok: "res_bind r f = Ok b \<longleftrightarrow> (\<exists>a. r = Ok a \<and> f a = Ok b)"
  by (cases r) simp_all

text \<open>A slice access \<open>xs[i]\<close>: out of range it panics.\<close>

definition index :: "'a list \<Rightarrow> nat \<Rightarrow> ('e, 'a) res" where
  "index xs i = (if i < length xs then Ok (xs ! i) else Panic)"

lemma index_Ok_iff: "index xs i = Ok x \<longleftrightarrow> i < length xs \<and> xs ! i = x"
  by (simp add: index_def)

text \<open>A slice expression \<open>xs[i:j]\<close> with constant bounds: it panics past the capacity,
  which is the length for the slices used here.\<close>

definition slice :: "'a list \<Rightarrow> nat \<Rightarrow> nat \<Rightarrow> ('e, 'a list) res" where
  "slice xs i j = (if i \<le> j \<and> j \<le> length xs then Ok (take (j - i) (drop i xs)) else Panic)"


section \<open>Go maps\<close>

type_synonym ('k, 'v) gomap = "('k \<times> 'v) list"

abbreviation gm_get :: "('k, 'v) gomap \<Rightarrow> 'k \<Rightarrow> 'v option" where
  "gm_get m k \<equiv> map_of m k"

definition gm_set :: "'k \<Rightarrow> 'v \<Rightarrow> ('k, 'v) gomap \<Rightarrow> ('k, 'v) gomap" where
  "gm_set k v m = AList.update k v m"

definition gm_del :: "'k \<Rightarrow> ('k, 'v) gomap \<Rightarrow> ('k, 'v) gomap" where
  "gm_del k m = filter (\<lambda>p. fst p \<noteq> k) m"

definition gm_keys :: "('k, 'v) gomap \<Rightarrow> 'k list" where
  "gm_keys m = map fst m"

definition gm_has :: "('k, 'v) gomap \<Rightarrow> 'k \<Rightarrow> bool" where
  "gm_has m k = (map_of m k \<noteq> None)"

definition gm_wf :: "('k, 'v) gomap \<Rightarrow> bool" where
  "gm_wf m = distinct (map fst m)"

text \<open>
  The laws of a map, as an interface: what a read returns after a store, a delete or a
  run of them, and that well-formedness is kept. The component theories use the facts of
  the interpretation on association lists below.
\<close>

locale go_map =
  fixes get :: "'m \<Rightarrow> 'k \<Rightarrow> 'v option"
    and put :: "'k \<Rightarrow> 'v \<Rightarrow> 'm \<Rightarrow> 'm"
    and del :: "'k \<Rightarrow> 'm \<Rightarrow> 'm"
    and keys :: "'m \<Rightarrow> 'k list"
    and wf :: "'m \<Rightarrow> bool"
  assumes get_put: "get (put k v m) k' = (if k' = k then Some v else get m k')"
    and get_del: "get (del k m) k' = (if k' = k then None else get m k')"
    and keys_get: "k \<in> set (keys m) \<longleftrightarrow> get m k \<noteq> None"
    and wf_put: "wf m \<Longrightarrow> wf (put k v m)"
    and wf_del: "wf m \<Longrightarrow> wf (del k m)"
    and wf_keys: "wf m \<Longrightarrow> distinct (keys m)"
begin

lemma get_fold_put:
  "get (fold (\<lambda>(k, v). put k v) kvs m) x =
     (case map_of (rev kvs) x of Some v \<Rightarrow> Some v | None \<Rightarrow> get m x)"
proof (induction kvs arbitrary: m)
  case Nil
  then show ?case by simp
next
  case (Cons kv kvs)
  then show ?case
    by (cases kv) (auto simp: get_put map_add_def split: option.splits)
qed

lemma get_fold_del:
  "get (fold del ks m) x = (if x \<in> set ks then None else get m x)"
  by (induction ks arbitrary: m) (auto simp: get_del)

lemma wf_fold_put: "wf m \<Longrightarrow> wf (fold (\<lambda>(k, v). put k v) kvs m)"
  by (induction kvs arbitrary: m) (auto simp: wf_put)

lemma wf_fold_del: "wf m \<Longrightarrow> wf (fold del ks m)"
  by (induction ks arbitrary: m) (auto simp: wf_del)

lemma keys_put: "set (keys (put k v m)) = insert k (set (keys m))"
  by (auto simp: keys_get get_put split: if_splits)

lemma keys_del: "set (keys (del k m)) = set (keys m) - {k}"
  by (auto simp: keys_get get_del split: if_splits)

lemma length_keys_put_new:
  assumes "wf m" and "get m k = None"
  shows "length (keys (put k v m)) = Suc (length (keys m))"
proof -
  have "length (keys (put k v m)) = card (set (keys (put k v m)))"
    using assms(1) by (simp add: distinct_card wf_keys wf_put)
  also have "\<dots> = Suc (card (set (keys m)))"
    using assms(2) by (simp add: keys_put card_insert_if) (metis keys_get)
  finally show ?thesis
    using assms(1) by (simp add: distinct_card wf_keys)
qed

lemma length_keys_del_old:
  assumes "wf m" and "get m k \<noteq> None"
  shows "Suc (length (keys (del k m))) = length (keys m)"
proof -
  have "k \<in> set (keys m)" using assms(2) by (simp add: keys_get)
  then have "card (set (keys m)) = Suc (card (set (keys m) - {k}))"
    by (metis List.finite_set card_Suc_Diff1)
  then show ?thesis
    using assms(1) by (metis distinct_card wf_keys wf_del keys_del)
qed

end

lemma gm_get_set: "gm_get (gm_set k v m) k' = (if k' = k then Some v else gm_get m k')"
  by (simp add: gm_set_def update_conv')

lemma gm_get_del: "gm_get (gm_del k m) k' = (if k' = k then None else gm_get m k')"
  by (induction m) (auto simp: gm_del_def)

lemma gm_keys_get: "k \<in> set (gm_keys m) \<longleftrightarrow> gm_get m k \<noteq> None"
  by (simp add: gm_keys_def map_of_eq_None_iff)

interpretation gm: go_map gm_get gm_set gm_del gm_keys gm_wf
proof unfold_locales
  fix k v and m :: "('k, 'v) gomap"
  show "gm_wf m \<Longrightarrow> gm_wf (gm_set k v m)"
    by (simp add: gm_wf_def gm_set_def distinct_update)
  show "gm_wf m \<Longrightarrow> gm_wf (gm_del k m)"
    by (simp add: gm_wf_def gm_del_def distinct_map_filter)
  show "gm_wf m \<Longrightarrow> distinct (gm_keys m)"
    by (simp add: gm_wf_def gm_keys_def)
qed (simp_all add: gm_get_set gm_get_del gm_keys_get)

lemmas [go_map_simps] = gm.get_put gm.get_del gm.keys_put gm.keys_del
  gm.get_fold_put gm.get_fold_del
lemmas [go_wf] = gm.wf_put gm.wf_del gm.wf_fold_put gm.wf_fold_del

lemma gm_wf_Nil [simp, go_wf]: "gm_wf []"
  by (simp add: gm_wf_def)

lemma gm_has_iff: "gm_has m k \<longleftrightarrow> k \<in> set (gm_keys m)"
  by (simp add: gm_has_def gm_keys_get)

lemma gm_wf_get: "gm_wf m \<Longrightarrow> (k, v) \<in> set m \<longleftrightarrow> gm_get m k = Some v"
  by (simp add: gm_wf_def)

lemma gm_wf_filter [go_wf]: "gm_wf m \<Longrightarrow> gm_wf (filter P m)"
  by (simp add: gm_wf_def distinct_map_filter)

lemma length_gm_keys [simp]: "length (gm_keys m) = length m"
  by (simp add: gm_keys_def)

lemma gm_get_filter:
  assumes "gm_wf m"
  shows "gm_get (filter P m) k =
    (case gm_get m k of None \<Rightarrow> None | Some v \<Rightarrow> if P (k, v) then Some v else None)"
  using assms
  by (induction m) (auto simp: gm_wf_def map_of_eq_None_iff image_iff split: option.splits)


section \<open>Lists and options\<close>

lemma fold_invariant_set:
  assumes "P s" and "\<And>x s. x \<in> set xs \<Longrightarrow> P s \<Longrightarrow> P (f x s)"
  shows "P (fold f xs s)"
  using assms by (induction xs arbitrary: s) auto

lemma fold_field:
  assumes "\<And>x s. g (f x s) = g s"
  shows "g (fold f xs s) = g s"
  using assms by (induction xs arbitrary: s) auto

lemma map_filter_eq_map: "(\<And>x. x \<in> set xs \<Longrightarrow> f x \<noteq> None) \<Longrightarrow>
  List.map_filter f xs = map (the \<circ> f) xs"
  by (induction xs) (auto simp: List.map_filter_def)

end
