(* ===== verification/Go_Strings.thy ===== *)
theory Go_Strings
  imports Go_Prelude
begin

text \<open>
  What the sources use of Go's \<^verbatim>\<open>strings\<close> and \<^verbatim>\<open>strconv\<close> packages. A Go string is a
  byte sequence and so is \<^typ>\<open>string\<close>. \<open>strings.ToLower\<close>, \<open>strings.TrimSpace\<close> and
  \<open>strings.EqualFold\<close> treat ASCII text bytewise and consult the Unicode tables for
  anything else; those tables are a parameter, the record \<open>unicode\<close>.
\<close>

section \<open>Splitting and joining\<close>

fun split_on :: "char \<Rightarrow> string \<Rightarrow> string list" where
  "split_on c [] = [[]]"
| "split_on c (x # xs) =
     (if x = c then [] # split_on c xs
      else (case split_on c xs of [] \<Rightarrow> [[x]] | w # ws \<Rightarrow> (x # w) # ws))"

fun join_with :: "string \<Rightarrow> string list \<Rightarrow> string" where
  "join_with sep [] = []"
| "join_with sep [w] = w"
| "join_with sep (w # v # ws) = w @ sep @ join_with sep (v # ws)"

lemma split_on_nonempty [simp]: "split_on c s \<noteq> []"
  by (induction s) (auto split: list.splits)

lemma length_split_on_pos [simp]: "0 < length (split_on c s)"
  by simp

lemma join_with_Cons: "ws \<noteq> [] \<Longrightarrow> join_with sep (w # ws) = w @ sep @ join_with sep ws"
  by (cases ws) simp_all

lemma join_split: "join_with [c] (split_on c s) = s"
proof (induction s)
  case Nil
  then show ?case by simp
next
  case (Cons x xs)
  obtain w ws where sp: "split_on c xs = w # ws" by (cases "split_on c xs") auto
  with Cons show ?case by (cases ws) (auto simp: join_with_Cons)
qed

lemma split_on_no_sep: "w \<in> set (split_on c s) \<Longrightarrow> c \<notin> set w"
  by (induction s arbitrary: w) (auto split: list.splits if_splits)

lemma split_on_id: "c \<notin> set s \<Longrightarrow> split_on c s = [s]"
  by (induction s) auto

lemma split_on_append: "c \<notin> set w \<Longrightarrow> split_on c (w @ c # s) = w # split_on c s"
  by (induction w) auto

lemma split_join:
  "ws \<noteq> [] \<Longrightarrow> (\<And>w. w \<in> set ws \<Longrightarrow> c \<notin> set w) \<Longrightarrow> split_on c (join_with [c] ws) = ws"
proof (induction ws)
  case Nil
  then show ?case by simp
next
  case (Cons w ws)
  then show ?case
    by (cases ws) (auto simp: split_on_id split_on_append join_with_Cons)
qed

lemma length_split_on: "length (split_on c s) = Suc (length (filter ((=) c) s))"
  by (induction s) (auto split: list.splits)


section \<open>Case and white space\<close>

record unicode =
  uni_lower :: "string \<Rightarrow> string"             \<comment> \<open>\<open>ToLower\<close> of a string with a non-ASCII byte\<close>
  uni_trim :: "string \<Rightarrow> string"              \<comment> \<open>\<open>TrimSpace\<close> of such a string\<close>
  uni_fold :: "string \<Rightarrow> string \<Rightarrow> bool"  \<comment> \<open>\<open>EqualFold\<close> when either has such a byte\<close>

definition ascii :: "string \<Rightarrow> bool" where
  "ascii s = list_all (\<lambda>c. (of_char c :: nat) < 128) s"

definition lower_byte :: "char \<Rightarrow> char" where
  "lower_byte c = (let n = (of_char c :: nat) in
     if 65 \<le> n \<and> n \<le> 90 then char_of (n + 32) else c)"

definition space_byte :: "char \<Rightarrow> bool" where
  "space_byte c = (let n = (of_char c :: nat) in 9 \<le> n \<and> n \<le> 13 \<or> n = 32)"

definition toLower :: "unicode \<Rightarrow> string \<Rightarrow> string" where
  "toLower u s = (if ascii s then map lower_byte s else uni_lower u s)"

definition trim_ascii :: "string \<Rightarrow> string" where
  "trim_ascii s = rev (dropWhile space_byte (rev (dropWhile space_byte s)))"

definition trimSpace :: "unicode \<Rightarrow> string \<Rightarrow> string" where
  "trimSpace u s = (if ascii s then trim_ascii s else uni_trim u s)"

definition equalFold :: "unicode \<Rightarrow> string \<Rightarrow> string \<Rightarrow> bool" where
  "equalFold u s t = (if ascii s \<and> ascii t then map lower_byte s = map lower_byte t
                      else uni_fold u s t)"

definition trimPrefix :: "string \<Rightarrow> string \<Rightarrow> string" where
  "trimPrefix s p = (if take (length p) s = p then drop (length p) s else s)"

definition trimRight_byte :: "char \<Rightarrow> string \<Rightarrow> string" where
  "trimRight_byte c s = rev (dropWhile ((=) c) (rev s))"

lemma ascii_simps [simp]: "ascii []" "ascii (c # s) \<longleftrightarrow> (of_char c :: nat) < 128 \<and> ascii s"
  by (simp_all add: ascii_def)

lemma lower_byte_idem [simp]: "lower_byte (lower_byte c) = lower_byte c"
proof -
  have "(of_char c :: nat) < 256" by simp
  then show ?thesis by (auto simp: lower_byte_def Let_def)
qed

lemma ascii_lower: "ascii s \<Longrightarrow> ascii (map lower_byte s)"
  by (induction s) (auto simp: lower_byte_def Let_def)

lemma toLower_idem: "ascii s \<Longrightarrow> toLower u (toLower u s) = toLower u s"
  by (simp add: toLower_def ascii_lower)

lemma trim_ascii_clean:
  assumes "s = [] \<or> \<not> space_byte (hd s) \<and> \<not> space_byte (last s)"
  shows "trim_ascii s = s"
proof (cases "s = []")
  case True
  then show ?thesis by (simp add: trim_ascii_def)
next
  case False
  with assms have "\<not> space_byte (hd s)" "\<not> space_byte (last s)" by auto
  then have "dropWhile space_byte s = s" "dropWhile space_byte (rev s) = rev s"
    by (simp_all add: dropWhile_eq_self_iff hd_rev)
  then show ?thesis by (simp add: trim_ascii_def)
qed


section \<open>Decimal numbers\<close>

definition digit_val :: "char \<Rightarrow> nat option" where
  "digit_val c = (let n = (of_char c :: nat) in
     if 48 \<le> n \<and> n \<le> 57 then Some (n - 48) else None)"

definition digit_char :: "nat \<Rightarrow> char" where
  "digit_char d = char_of (d + 48)"

lemma digit_val_char [simp]: "d < 10 \<Longrightarrow> digit_val (digit_char d) = Some d"
  by (simp add: digit_val_def digit_char_def Let_def)

fun dec_acc :: "nat \<Rightarrow> string \<Rightarrow> nat option" where
  "dec_acc a [] = Some a"
| "dec_acc a (c # cs) =
     (case digit_val c of None \<Rightarrow> None | Some d \<Rightarrow> dec_acc (10 * a + d) cs)"

lemma dec_acc_append:
  "dec_acc a (s @ t) = (case dec_acc a s of None \<Rightarrow> None | Some b \<Rightarrow> dec_acc b t)"
  by (induction s arbitrary: a) (auto split: option.splits)

text \<open>\<open>strconv.ParseUint(s, 10, bits)\<close> and \<open>strconv.ParseInt(s, 10, bits)\<close>: \<open>None\<close> is a
  syntax or range error.\<close>

definition parseUint :: "nat \<Rightarrow> string \<Rightarrow> nat option" where
  "parseUint bits s = (if s = [] then None else
     (case dec_acc 0 s of None \<Rightarrow> None | Some n \<Rightarrow> if n < 2 ^ bits then Some n else None))"

definition parseInt :: "nat \<Rightarrow> string \<Rightarrow> int option" where
  "parseInt bits s =
     (case s of
        [] \<Rightarrow> None
      | c # cs \<Rightarrow>
          (let neg = (c = CHR ''-''); body = (if c = CHR ''-'' \<or> c = CHR ''+'' then cs else s)
           in case parseUint 64 body of
                None \<Rightarrow> None
              | Some n \<Rightarrow>
                  if \<not> neg \<and> n < 2 ^ (bits - 1) then Some (int n)
                  else if neg \<and> n \<le> 2 ^ (bits - 1) then Some (- int n)
                  else None))"

lemma parseInt_bounds:
  assumes "parseInt bits s = Some z"
  shows "- (2 ^ (bits - 1)) \<le> z \<and> z < 2 ^ (bits - 1)"
proof -
  have cast: "n < 2 ^ k \<Longrightarrow> - (2 ^ k) \<le> int n \<and> int n < 2 ^ k"
    "n \<le> 2 ^ k \<Longrightarrow> - (2 ^ k) \<le> - int n \<and> - int n < 2 ^ k" for n k :: nat
    by (simp_all add: le_less_trans [of _ 0] order_trans [of _ 0])
  from assms show ?thesis
    by (auto simp: parseInt_def Let_def cast split: list.splits option.splits if_splits)
qed

fun show_nat :: "nat \<Rightarrow> string" where
  "show_nat n = (if n < 10 then [digit_char n] else show_nat (n div 10) @ [digit_char (n mod 10)])"

declare show_nat.simps [simp del]

definition show_int :: "int \<Rightarrow> string" where
  "show_int z = (if z < 0 then CHR ''-'' # show_nat (nat (- z)) else show_nat (nat z))"

lemma dec_acc_show_nat: "dec_acc 0 (show_nat n) = Some n"
proof (induction n rule: show_nat.induct)
  case (1 n)
  show ?case
  proof (cases "n < 10")
    case True
    then show ?thesis by (subst show_nat.simps) simp
  next
    case False
    with 1 have "dec_acc 0 (show_nat (n div 10)) = Some (n div 10)" by simp
    with False show ?thesis by (subst show_nat.simps) (simp add: dec_acc_append)
  qed
qed

lemma show_nat_nonempty [simp]: "show_nat n \<noteq> []"
  by (subst show_nat.simps) simp

lemma show_nat_inject: "show_nat m = show_nat n \<longleftrightarrow> m = n"
  by (metis dec_acc_show_nat option.inject)

lemma show_nat_digits: "c \<in> set (show_nat n) \<Longrightarrow> digit_val c \<noteq> None"
proof (induction n rule: show_nat.induct)
  case (1 n)
  then show ?case
    by (subst (asm) show_nat.simps) (auto split: if_splits)
qed

lemma hd_show_nat_neq_minus: "hd (show_nat n) \<noteq> CHR ''-''"
proof
  assume "hd (show_nat n) = CHR ''-''"
  then have "digit_val (CHR ''-'') \<noteq> None" by (metis hd_in_set show_nat_digits show_nat_nonempty)
  then show False by (simp add: digit_val_def)
qed

lemma show_int_inject: "show_int a = show_int b \<longleftrightarrow> a = b"
proof -
  have "show_nat m \<noteq> CHR ''-'' # s" for m s
    using hd_show_nat_neq_minus [of m] by auto
  then show ?thesis
    by (auto simp: show_int_def show_nat_inject split: if_splits) (metis+)
qed

text \<open>Parsing what \<open>%d\<close> printed gives the number back.\<close>

lemma parseUint_show: "n < 2 ^ bits \<Longrightarrow> parseUint bits (show_nat n) = Some n"
  by (simp add: parseUint_def dec_acc_show_nat)

lemma parseInt_show_nat:
  assumes "n < 2 ^ (bits - 1)" "n < 2 ^ 64"
  shows "parseInt bits (show_nat n) = Some (int n)"
proof -
  obtain c cs where sn: "show_nat n = c # cs" by (cases "show_nat n") auto
  have "digit_val c \<noteq> None" using show_nat_digits [of c n] sn by simp
  then have "c \<noteq> CHR ''-''" "c \<noteq> CHR ''+''" by (auto simp: digit_val_def)
  with sn assms parseUint_show [of n 64] show ?thesis
    by (simp add: parseInt_def Let_def)
qed

end
