(* ===== verification/Go_Float.thy ===== *)
theory Go_Float
  imports Go_Prelude "HOL-Library.Log_Nat"
begin

text \<open>
  The \<^verbatim>\<open>float64\<close> arithmetic of the speed limits: the panel gives megabits per second as a
  \<^verbatim>\<open>float64\<close> and the code computes \<open>uint64((x * 1000000) / 8)\<close>. A finite double is a pair
  of a mantissa and a binary exponent, and a product is rounded to 53 significant bits,
  ties to even, as IEEE 754 prescribes. The exponent is unbounded, so overflow to infinity
  and subnormal results, which no speed limit reaches, are outside the model. Converting a
  value outside the range of \<^verbatim>\<open>uint64\<close> is implementation-dependent in Go and is the
  parameter \<open>oor\<close>.
\<close>

datatype f64 = F64 (mant: int) (expo: int)

definition f64_positive :: "f64 \<Rightarrow> bool" where
  "f64_positive x = (0 < mant x)"

definition f64_one :: f64 where
  "f64_one = F64 1 0"

definition round_half_even :: "int \<Rightarrow> nat \<Rightarrow> int" where
  "round_half_even m k =
     (let q = m div 2 ^ k; r = m mod 2 ^ k; half = 2 ^ (k - 1)
      in if r < half then q else if half < r then q + 1 else if even q then q else q + 1)"

definition f64_norm :: "int \<Rightarrow> int \<Rightarrow> f64" where
  "f64_norm m e =
     (if \<bar>m\<bar> < 2 ^ 53 then F64 m e
      else (let k = nat (bitlen \<bar>m\<bar> - 53) in F64 (round_half_even m k) (e + int k)))"

definition f64_of_int :: "int \<Rightarrow> f64" where
  "f64_of_int z = f64_norm z 0"

definition f64_mul_int :: "f64 \<Rightarrow> int \<Rightarrow> f64" where
  "f64_mul_int x n = f64_norm (mant x * n) (expo x)"

definition f64_div8 :: "f64 \<Rightarrow> f64" where
  "f64_div8 x = F64 (mant x) (expo x - 3)"

definition f64_trunc :: "f64 \<Rightarrow> int" where
  "f64_trunc x =
     (if 0 \<le> expo x then mant x * 2 ^ nat (expo x)
      else sgn (mant x) * (\<bar>mant x\<bar> div 2 ^ nat (- expo x)))"

definition f64_to_uint64 :: "(f64 \<Rightarrow> uint64) \<Rightarrow> f64 \<Rightarrow> uint64" where
  "f64_to_uint64 oor x =
     (let t = f64_trunc x in if 0 \<le> t \<and> t < 2 ^ 64 then word_of_int t else oor x)"

text \<open>The conversion every parser writes out: megabits per second to bytes per second.\<close>

definition mbps_to_Bps :: "(f64 \<Rightarrow> uint64) \<Rightarrow> f64 \<Rightarrow> uint64" where
  "mbps_to_Bps oor x = f64_to_uint64 oor (f64_div8 (f64_mul_int x 1000000))"

text \<open>A whole number of megabits below nine billion is converted exactly.\<close>

lemma mbps_to_Bps_exact:
  assumes "0 \<le> n" and "n < 9000000000"
  shows "mbps_to_Bps oor (F64 n 0) = word_of_int (n * 125000)"
proof -
  have small: "\<bar>n * 1000000\<bar> < 2 ^ 53" using assms by simp
  have eight: "n * 1000000 div 8 = n * 125000" by simp
  have tr: "f64_trunc (F64 (n * 1000000) (- 3)) = n * 125000"
    using assms(1) eight by (cases "n = 0") (simp_all add: f64_trunc_def)
  show ?thesis
    using small tr assms by (simp add: mbps_to_Bps_def f64_mul_int_def f64_norm_def
        f64_div8_def f64_to_uint64_def)
qed

lemma mbps_to_Bps_zero: "mbps_to_Bps oor (F64 0 e) = 0"
  by (simp add: mbps_to_Bps_def f64_mul_int_def f64_norm_def f64_div8_def
        f64_to_uint64_def f64_trunc_def)

lemma f64_of_int_exact: "\<bar>z\<bar> < 2 ^ 53 \<Longrightarrow> f64_trunc (f64_of_int z) = z"
  by (simp add: f64_of_int_def f64_norm_def f64_trunc_def)


section \<open>Durations in seconds\<close>

text \<open>The quotient of two integers, rounded to the nearest double: enough bits of it and a bit that says whether the rest is zero.\<close>

definition f64_quotient :: "int \<Rightarrow> int \<Rightarrow> f64" where
  "f64_quotient a b =
     (let e = nat (bitlen b) + 55
      in f64_norm (2 * (a * 2 ^ e div b) + (if a * 2 ^ e mod b = 0 then 0 else 1)) (- int (Suc e)))"

text \<open>The sum of an integer below \<open>2\<^sup>5\<^sup>3\<close> and a double without integral bits.\<close>

definition f64_add_fraction :: "int \<Rightarrow> f64 \<Rightarrow> f64" where
  "f64_add_fraction z x = f64_norm (z * 2 ^ nat (- expo x) + mant x) (expo x)"

text \<open>\<open>Duration.Seconds\<close> of a duration in nanoseconds that is not negative.\<close>

definition Seconds :: "int \<Rightarrow> f64" where
  "Seconds d = f64_add_fraction (d div 1000000000) (f64_quotient (d mod 1000000000) 1000000000)"

lemma round_half_even_le: "m \<le> c * 2 ^ k \<Longrightarrow> round_half_even m k \<le> c"
proof -
  assume m: "m \<le> c * 2 ^ k"
  then have q: "m div 2 ^ k \<le> c" by (metis nonzero_mult_div_cancel_right power_not_zero zdiv_mono1 zero_less_numeral zero_less_power zero_neq_numeral)
  show ?thesis
  proof (cases "m div 2 ^ k = c")
    case True
    then have "m mod 2 ^ k = 0" using m by (metis add.right_neutral add_le_cancel_left mult_div_mod_eq mult.commute order_antisym pos_mod_sign zero_less_numeral zero_less_power)
    then show ?thesis using True by (simp add: round_half_even_def)
  next
    case False
    then show ?thesis using q by (auto simp: round_half_even_def Let_def)
  qed
qed

lemma round_half_even_ge: "c * 2 ^ k \<le> m \<Longrightarrow> c \<le> round_half_even m k"
proof -
  assume "c * 2 ^ k \<le> m"
  then have "c \<le> m div 2 ^ k" by (metis nonzero_mult_div_cancel_right power_not_zero zdiv_mono1 zero_less_numeral zero_less_power zero_neq_numeral)
  then show ?thesis by (auto simp: round_half_even_def Let_def)
qed

text \<open>Rounding keeps a value between two integers.\<close>

lemma f64_norm_between:
  assumes "e \<le> 0" "0 \<le> l" "l * 2 ^ nat (- e) \<le> m" "m \<le> n * 2 ^ nat (- e)" "n < 2 ^ 53"
  shows "expo (f64_norm m e) \<le> 0 \<and> l * 2 ^ nat (- expo (f64_norm m e)) \<le> mant (f64_norm m e) \<and>
    mant (f64_norm m e) \<le> n * 2 ^ nat (- expo (f64_norm m e))"
proof (cases "\<bar>m\<bar> < 2 ^ 53")
  case True
  then show ?thesis using assms by (simp add: f64_norm_def)
next
  case False
  have m: "0 \<le> m" using assms(2,3) by (meson order_trans zero_le_mult_iff zero_le_numeral zero_le_power)
  then have big: "2 ^ 53 \<le> m" using False by simp
  let ?k = "nat (bitlen \<bar>m\<bar> - 53)"
  have "n * 2 ^ nat (- e) < 2 ^ 53 * 2 ^ nat (- e)" using assms(5) by simp
  then have "m < 2 ^ 53 * 2 ^ nat (- e)" using assms(4) by (rule le_less_trans [rotated])
  then have "m < 2 ^ (53 + nat (- e))" by (simp only: power_add)
  then have b: "bitlen m \<le> int (53 + nat (- e))" by (metis bitlen_le_iff_power m nat_int of_nat_0_le_iff zero_le_power zero_le_numeral order_less_imp_le)
  then have k: "?k \<le> nat (- e)" using m assms(1) by simp
  have sp: "2 ^ nat (- e) = (2 ^ (nat (- e) - ?k) * 2 ^ ?k :: int)" using k by (simp add: power_add [symmetric])
  have ex: "nat (- (e + int ?k)) = nat (- e) - ?k" using k assms(1) by linarith
  have "l * 2 ^ (nat (- e) - ?k) \<le> round_half_even m ?k" using assms(3) sp by (intro round_half_even_ge) (simp add: mult.assoc)
  moreover have "round_half_even m ?k \<le> n * 2 ^ (nat (- e) - ?k)" using assms(4) sp by (intro round_half_even_le) (simp add: mult.assoc)
  moreover have "e + int ?k \<le> 0" using k assms(1) by linarith
  moreover have "f64_norm m e = F64 (round_half_even m ?k) (e + int ?k)" using False by (simp only: f64_norm_def Let_def if_False)
  ultimately show ?thesis by (simp only: f64.sel ex simp_thms)
qed

lemma f64_quotient_fraction:
  assumes "0 \<le> a" "a < b"
  shows "expo (f64_quotient a b) \<le> 0 \<and> 0 \<le> mant (f64_quotient a b) \<and> mant (f64_quotient a b) \<le> 2 ^ nat (- expo (f64_quotient a b))"
proof -
  let ?e = "nat (bitlen b) + 55"
  let ?m = "2 * (a * 2 ^ ?e div b) + (if a * 2 ^ ?e mod b = 0 then 0 else 1)"
  have "a * 2 ^ ?e < b * 2 ^ ?e" using assms by simp
  moreover have "b * (a * 2 ^ ?e div b) \<le> a * 2 ^ ?e"
    using mult_div_mod_eq [of b "a * 2 ^ ?e"] pos_mod_sign [of b "a * 2 ^ ?e"] assms by linarith
  ultimately have "b * (a * 2 ^ ?e div b) < b * 2 ^ ?e" by linarith
  then have "a * 2 ^ ?e div b < 2 ^ ?e" using assms by (simp only: mult_less_cancel_left_pos)
  then have "2 * (a * 2 ^ ?e div b) + 1 \<le> 2 * 2 ^ ?e" by linarith
  then have up: "?m \<le> 1 * 2 ^ nat (- (- int (Suc ?e)))" by (simp only: minus_minus nat_int power_Suc mult_1) (simp split: if_split)
  have "0 \<le> a * 2 ^ ?e div b" using assms by (simp add: pos_imp_zdiv_nonneg_iff)
  then have "0 * 2 ^ nat (- (- int (Suc ?e))) \<le> ?m" by (simp split: if_split)
  from f64_norm_between [OF _ _ this up] show ?thesis unfolding f64_quotient_def Let_def by simp
qed

lemma f64_trunc_between:
  assumes "expo x \<le> 0" "0 \<le> l" "l * 2 ^ nat (- expo x) \<le> mant x" "mant x \<le> n * 2 ^ nat (- expo x)"
  shows "l \<le> f64_trunc x \<and> f64_trunc x \<le> n"
proof -
  let ?p = "2 ^ nat (- expo x) :: int"
  have m: "0 \<le> mant x" using assms(2,3) by (meson order_trans zero_le_mult_iff zero_le_numeral zero_le_power)
  then have "f64_trunc x = mant x div ?p" using assms(1) by (auto simp: f64_trunc_def sgn_if)
  moreover have "l \<le> mant x div ?p" "mant x div ?p \<le> n"
    using assms(3,4) by (metis nonzero_mult_div_cancel_right power_not_zero zdiv_mono1 zero_less_numeral zero_less_power zero_neq_numeral)+
  ultimately show ?thesis by simp
qed

text \<open>Truncated to whole seconds a duration is rounded down, or, when it is so long that the fraction is lost, up.\<close>

lemma Seconds_bounds:
  assumes "0 \<le> d" "d < 2 ^ 52 * 1000000000"
  shows "d div 1000000000 \<le> f64_trunc (Seconds d) \<and> f64_trunc (Seconds d) \<le> (d + 999999999) div 1000000000"
proof -
  let ?s = "d div 1000000000" and ?x = "f64_quotient (d mod 1000000000) 1000000000"
  define c where "c = (if d mod 1000000000 = 0 then 0 else 1 :: int)"
  have x: "expo ?x \<le> 0" "0 \<le> mant ?x" "mant ?x \<le> c * 2 ^ nat (- expo ?x)"
  proof -
    show "expo ?x \<le> 0" "0 \<le> mant ?x" using f64_quotient_fraction [of "d mod 1000000000" 1000000000] by simp_all
    show "mant ?x \<le> c * 2 ^ nat (- expo ?x)"
    proof (cases "d mod 1000000000 = 0")
      case True
      have "mant (f64_quotient 0 1000000000) = 0" by (simp add: f64_quotient_def f64_norm_def)
      then show ?thesis unfolding True c_def by simp
    next
      case False
      then show ?thesis using f64_quotient_fraction [of "d mod 1000000000" 1000000000] unfolding c_def by simp
    qed
  qed
  have s: "0 \<le> ?s" "?s < 2 ^ 52" using assms by auto
  have e: "(d + 999999999) div 1000000000 = ?s + c"
  proof (cases "d mod 1000000000 = 0")
    case True
    then have "d + 999999999 = 999999999 + ?s * 1000000000" by (simp add: dvd_eq_mod_eq_0)
    then have "(d + 999999999) div 1000000000 = (999999999 + ?s * 1000000000) div 1000000000" by (rule arg_cong)
    also have "\<dots> = ?s" by simp
    finally show ?thesis using True unfolding c_def by simp
  next
    case False
    then have "1 \<le> d mod 1000000000" "d mod 1000000000 < 1000000000" using pos_mod_sign [of 1000000000 d] pos_mod_bound [of 1000000000 d] by linarith+
    then have "(d mod 1000000000 + 999999999) div 1000000000 = 1" by (intro div_pos_geq [THEN trans]) simp_all
    moreover have "d + 999999999 = d mod 1000000000 + 999999999 + ?s * 1000000000" using mod_div_mult_eq [of d 1000000000] by linarith
    then have "(d + 999999999) div 1000000000 = (d mod 1000000000 + 999999999 + ?s * 1000000000) div 1000000000" by (rule arg_cong)
    then have "(d + 999999999) div 1000000000 = ?s + (d mod 1000000000 + 999999999) div 1000000000" by (simp only: div_mult_self1 zero_neq_numeral)
    ultimately have "(d + 999999999) div 1000000000 = ?s + 1" by (simp only:)
    then show ?thesis using False unfolding c_def by simp
  qed
  have "?s * 2 ^ nat (- expo ?x) \<le> ?s * 2 ^ nat (- expo ?x) + mant ?x" "?s * 2 ^ nat (- expo ?x) + mant ?x \<le> (?s + c) * 2 ^ nat (- expo ?x)"
    using x by (simp_all add: distrib_right)
  note f64_norm_between [OF x(1) s(1) this]
  moreover have "?s + c < 2 ^ 53" using s by (simp add: c_def)
  ultimately show ?thesis
    unfolding e Seconds_def f64_add_fraction_def using s(1) by (intro f64_trunc_between) simp_all
qed

end
