(* ===== verification/Panel_Api.thy ===== *)
theory Panel_Api
  imports Go_Strings Go_Float
begin

text \<open>
  The panel model of \<^verbatim>\<open>poet/api\<close>: the data a panel exchanges with a node
  (\<^verbatim>\<open>apimodel.go\<close>), the \<^verbatim>\<open>API\<close> interface (\<^verbatim>\<open>api.go\<close>) as a record of operations over the
  state of a client, and the node-type error (\<^verbatim>\<open>nodetype.go\<close>). Errors are values of
  \<open>api_error\<close>; the three sentinel messages the controller compares against are
  constructors, and so is every other error the modelled code returns.
\<close>

datatype api_error =
    UserNotModified
  | NodeNotModified
  | RuleNotModified
  | RequestFailed                 \<comment> \<open>transport error\<close>
  | EmptyResponse
  | HttpStatus int
  | RetInvalid
  | UnmarshalFailed
  | NoServerInfo
  | InvalidServerInfo string
  | StrconvFailed string
  | InvalidRelayPort string
  | MarshalHeader
  | PluginPort
  | CustomConfigEmpty
  | CustomConfigFormat
  | UnsupportedNodeType string
  | ParseNodeFailed api_error
  | CompileRule int
  | ServerPortZero
  | HashExists string
  | HashNotFound string
  | UserNotInMap string
  | TypeMismatch string string
  | InvalidListenPort string uint32
  | NoUserRefresh
  | TlsRequired
  | TlsBuild
  | TlsStart
  | ListenFailed uint16
  | ServiceFailed
  | UnknownObfs string

record reality_config =
  rc_Dest :: string
  rc_ProxyProtocolVer :: uint64
  rc_ServerNames :: "string list"
  rc_PrivateKey :: string
  rc_MinClientVer :: string
  rc_MaxClientVer :: string
  rc_MaxTimeDiff :: uint64
  rc_ShortIds :: "string list"

text \<open>\<open>api.Config\<close>.\<close>

record api_config =
  ac_APIHost :: string
  ac_NodeID :: int
  ac_Key :: string
  ac_InTag :: string
  ac_NodeType :: string
  ac_EnableVless :: bool
  ac_VlessFlow :: string
  ac_Timeout :: int
  ac_SpeedLimit :: f64
  ac_DeviceLimit :: int
  ac_RuleListPath :: string
  ac_DisableCustomConfig :: bool

record node_status =
  ns_CPU :: f64
  ns_Mem :: f64
  ns_Disk :: f64
  ns_Uptime :: uint64

record node_info =
  ni_NodeType :: string
  ni_PanelNodeType :: string
  ni_NodeID :: int
  ni_Port :: uint32
  ni_SpeedLimit :: uint64
  ni_AlterID :: uint16
  ni_TransportProtocol :: string
  ni_FakeType :: string
  ni_Host :: string
  ni_Path :: string
  ni_EnableTLS :: bool
  ni_EnableVless :: bool
  ni_VlessFlow :: string
  ni_CypherMethod :: string
  ni_ServerKey :: string
  ni_ServiceName :: string
  ni_Header :: string
  ni_TrafficRate :: f64
  ni_EnableREALITY :: bool
  ni_REALITYConfig :: "reality_config option"
  ni_RelayServer :: string
  ni_RelayPort :: uint32

text \<open>The zero value of \<open>NodeInfo\<close>: the fields a composite literal leaves out.\<close>

definition zero_node_info :: node_info where
  "zero_node_info =
     \<lparr>ni_NodeType = [], ni_PanelNodeType = [], ni_NodeID = 0, ni_Port = 0, ni_SpeedLimit = 0,
      ni_AlterID = 0, ni_TransportProtocol = [], ni_FakeType = [], ni_Host = [], ni_Path = [],
      ni_EnableTLS = False, ni_EnableVless = False, ni_VlessFlow = [], ni_CypherMethod = [],
      ni_ServerKey = [], ni_ServiceName = [], ni_Header = [], ni_TrafficRate = F64 0 0,
      ni_EnableREALITY = False, ni_REALITYConfig = None, ni_RelayServer = [], ni_RelayPort = 0\<rparr>"

record user_info =
  ui_UID :: int
  ui_Email :: string
  ui_UUID :: string
  ui_Passwd :: string
  ui_Port :: uint32
  ui_AlterID :: uint16
  ui_Flow :: string
  ui_Method :: string
  ui_SpeedLimit :: uint64
  ui_DeviceLimit :: int

record online_user =
  ou_UID :: int
  ou_IP :: string

record user_traffic =
  ut_UID :: int
  ut_Email :: string
  ut_Upload :: int64
  ut_Download :: int64

record client_info =
  ci_APIHost :: string
  ci_NodeID :: int
  ci_Key :: string
  ci_NodeType :: string

text \<open>A detect rule's pattern is a compiled \<open>regexp\<close>, known by its \<open>MatchString\<close>; the
  pointer may be nil.\<close>

record detect_rule =
  dr_ID :: int
  dr_Pattern :: "(string \<Rightarrow> bool) option"

record detect_result =
  de_UID :: int
  de_RuleID :: int

text \<open>
  \<open>api.API\<close>: each call may change the state of the client (and of the panel behind it).
  \<open>GetNodeRule\<close> may return a nil list without an error.
\<close>

record 'w api =
  GetNodeInfo :: "'w \<Rightarrow> (api_error, node_info) res \<times> 'w"
  GetUserList :: "'w \<Rightarrow> (api_error, user_info list) res \<times> 'w"
  ReportNodeStatus :: "node_status \<Rightarrow> 'w \<Rightarrow> (api_error, unit) res \<times> 'w"
  ReportNodeOnlineUsers :: "online_user list \<Rightarrow> 'w \<Rightarrow> (api_error, unit) res \<times> 'w"
  ReportUserTraffic :: "user_traffic list \<Rightarrow> 'w \<Rightarrow> (api_error, unit) res \<times> 'w"
  Describe :: "'w \<Rightarrow> client_info"
  GetNodeRule :: "'w \<Rightarrow> (api_error, detect_rule list option) res \<times> 'w"
  ReportIllegal :: "detect_result list \<Rightarrow> 'w \<Rightarrow> (api_error, unit) res \<times> 'w"

definition NodeTypeMismatch :: "string \<Rightarrow> string \<Rightarrow> api_error" where
  "NodeTypeMismatch inboundType panelNodeType =
     TypeMismatch inboundType (if panelNodeType = [] then ''(empty)'' else panelNodeType)"

text \<open>The runtime name of a user, \<open>fmt.Sprintf("u%d", uid)\<close>, used by the controller and by
  every inbound.\<close>

definition user_name :: "int \<Rightarrow> string" where
  "user_name uid = CHR ''u'' # show_int uid"

lemma user_name_inject: "user_name a = user_name b \<longleftrightarrow> a = b"
  by (simp add: user_name_def show_int_inject)

lemma inj_user_name: "inj user_name"
  by (simp add: inj_def user_name_inject)

lemma user_name_nonempty [simp]: "user_name a \<noteq> []"
  by (simp add: user_name_def)

end
