(* ===== verification/SSPanel_Parse.thy ===== *)
theory SSPanel_Parse
  imports Panel_Api
begin

text \<open>
  \<^verbatim>\<open>poet/api/sspanel\<close>: the wire data of \<^verbatim>\<open>model.go\<close> and the parsers of \<^verbatim>\<open>sspanel.go\<close> that
  turn a panel response into a \<open>node_info\<close> or a user list. What the parsers take from
  \<^verbatim>\<open>encoding/json\<close>, \<^verbatim>\<open>regexp\<close> (compiling panel rules) and the Unicode tables is the record
  \<open>std_env\<close>. The three fixed patterns of the Trojan parser are written out as matchers.
\<close>

section \<open>Wire data\<close>

record node_info_response =
  nr_Group :: int
  nr_Class :: int
  nr_SpeedLimit :: f64
  nr_TrafficRate :: f64
  nr_Sort :: int
  nr_RawServerString :: string
  nr_Type :: string
  nr_CustomConfig :: string
  nr_Version :: string

record custom_config =
  cc_OffsetPortNode :: string
  cc_Host :: string
  cc_Method :: string
  cc_TLS :: string
  cc_EnableVless :: string
  cc_Network :: string
  cc_Security :: string
  cc_Path :: string
  cc_VerifyCert :: bool
  cc_Obfs :: string
  cc_Header :: string
  cc_AllowInsecure :: string
  cc_Servicename :: string
  cc_EnableXtls :: string
  cc_Flow :: string
  cc_EnableREALITY :: bool
  cc_RealityOpts :: "reality_config option"

record user_response =
  ur_ID :: int
  ur_Email :: string
  ur_Passwd :: string
  ur_Port :: uint32
  ur_Method :: string
  ur_SpeedLimit :: f64
  ur_DeviceLimit :: int
  ur_NodeConnector :: int
  ur_UUID :: string
  ur_AliveIP :: int

record rule_item =
  ri_ID :: int
  ri_Content :: string

text \<open>\<open>Response\<close>: the common envelope; \<open>Data\<close> is raw JSON.\<close>

record response =
  rs_Ret :: nat
  rs_Data :: string

record std_env =
  se_unicode :: unicode
  se_oor :: "f64 \<Rightarrow> uint64"                            \<comment> \<open>out-of-range \<open>uint64(f)\<close>\<close>
  se_node :: "string \<Rightarrow> node_info_response option"      \<comment> \<open>\<open>json.Unmarshal\<close>, by target type\<close>
  se_custom :: "string \<Rightarrow> custom_config option"
  se_users :: "string \<Rightarrow> user_response list option"
  se_rules :: "string \<Rightarrow> rule_item list option"
  se_header :: "string \<Rightarrow> string option"               \<comment> \<open>\<open>json.Marshal\<close> of the header map\<close>
  se_compile :: "string \<Rightarrow> (string \<Rightarrow> bool) option"   \<comment> \<open>\<open>regexp.Compile\<close>, as its matcher\<close>

text \<open>\<open>APIClient\<close>, without the HTTP client it sends through.\<close>

record api_client =
  cl_APIHost :: string
  cl_NodeID :: int
  cl_Key :: string
  cl_NodeType :: string
  cl_EnableVless :: bool
  cl_VlessFlow :: string
  cl_SpeedLimit :: f64
  cl_DeviceLimit :: int
  cl_DisableCustomConfig :: bool
  cl_LocalRuleList :: "detect_rule list"
  cl_LastReportOnline :: "(int, int) gomap"
  cl_version :: string
  cl_eTags :: "(string, string) gomap"
  cl_expiredWarned :: bool


section \<open>Node types and path aliases\<close>

definition normalizeNodeType :: "unicode \<Rightarrow> string \<Rightarrow> string" where
  "normalizeNodeType u nodeType = toLower u (trimSpace u nodeType)"

definition normalizeAnyTLSPath :: "unicode \<Rightarrow> string \<Rightarrow> string" where
  "normalizeAnyTLSPath u path = trimPrefix (toLower u (trimSpace u path)) ''/''"

definition isAnyTLSAlias :: "unicode \<Rightarrow> string \<Rightarrow> string \<Rightarrow> bool" where
  "isAnyTLSAlias u transportProtocol path =
     (equalFold u (trimSpace u transportProtocol) ''ws'' \<and> normalizeAnyTLSPath u path = ''anytls'')"

definition isHysteria2Alias :: "unicode \<Rightarrow> string \<Rightarrow> string \<Rightarrow> bool" where
  "isHysteria2Alias u transportProtocol path =
     (equalFold u (trimSpace u transportProtocol) ''ws'' \<and> normalizeAnyTLSPath u path = ''hy2'')"

definition isNaiveAlias :: "unicode \<Rightarrow> string \<Rightarrow> string \<Rightarrow> bool" where
  "isNaiveAlias u transportProtocol path =
     (equalFold u (trimSpace u transportProtocol) ''ws'' \<and> normalizeAnyTLSPath u path = ''naive'')"

text \<open>The alias chain of both node parsers: the effective node type and transport.\<close>

definition resolve_alias :: "unicode \<Rightarrow> string \<Rightarrow> string \<Rightarrow> string \<Rightarrow> string \<times> string" where
  "resolve_alias u nodeType transportProtocol path =
     (if isAnyTLSAlias u transportProtocol path then (''anytls'', ''tcp'')
      else if isHysteria2Alias u transportProtocol path then (''hysteria2'', ''udp'')
      else if isNaiveAlias u transportProtocol path then (''naive'', ''tcp'')
      else (nodeType, transportProtocol))"

text \<open>The speed limit of every parser: a positive local setting wins over the panel's.\<close>

definition speed_limit :: "std_env \<Rightarrow> api_client \<Rightarrow> f64 \<Rightarrow> uint64" where
  "speed_limit e c panel =
     (if f64_positive (cl_SpeedLimit c) then mbps_to_Bps (se_oor e) (cl_SpeedLimit c)
      else mbps_to_Bps (se_oor e) panel)"


section \<open>Versions\<close>

text \<open>One component of a version: bytes up to the next dot, \<open>x = x*10 + int(b - '0')\<close> with
  the subtraction on bytes and the sum on \<open>int\<close>.\<close>

fun read_component :: "int64 \<Rightarrow> string \<Rightarrow> int64 \<times> string" where
  "read_component x [] = (x, [])"
| "read_component x (c # cs) =
     (if c = CHR ''.'' then (x, cs)
      else read_component (x * 10 + word_of_nat ((of_char c + 208) mod 256)) cs)"

lemma read_component_le: "length (snd (read_component x s)) \<le> length s"
  by (induction x s rule: read_component.induct) auto

lemma read_component_less: "s \<noteq> [] \<Longrightarrow> length (snd (read_component x s)) < length s"
  by (cases s) (auto simp: le_imp_less_Suc read_component_le)

function compareVersion :: "string \<Rightarrow> string \<Rightarrow> int" where
  "compareVersion v w =
     (if v = [] \<and> w = [] then 0
      else (let (x, v') = read_component 0 v; (y, w') = read_component 0 w
            in if sint y < sint x then 1 else if sint x < sint y then -1
               else compareVersion v' w'))"
  by pat_completeness auto
termination
proof (relation "measure (\<lambda>(v, w). length v + length w)", goal_cases)
  case 1
  then show ?case by simp
next
  case (2 v w p x v' q y w')
  then have v': "v' = snd (read_component 0 v)" and w': "w' = snd (read_component 0 w)"
    by (metis snd_conv)+
  have "length v' \<le> length v" "length w' \<le> length w"
    unfolding v' w' by (rule read_component_le)+
  moreover have "v \<noteq> [] \<Longrightarrow> length v' < length v" "w \<noteq> [] \<Longrightarrow> length w' < length w"
    unfolding v' w' by (rule read_component_less, assumption)+
  ultimately show ?case using 2(1) by auto
qed

declare compareVersion.simps [simp del]


section \<open>V2ray nodes: the old address format\<close>

definition v2ray_transport :: "unicode \<Rightarrow> string \<Rightarrow> bool \<times> string \<Rightarrow> bool \<times> string" where
  "v2ray_transport u field = (\<lambda>(enableTLS, transportProtocol).
     (let value = toLower u (trimSpace u field)
      in if value = ''tls'' then (True, transportProtocol)
         else if value \<noteq> [] then (enableTLS, value) else (enableTLS, transportProtocol)))"

record extra_conf =
  xc_path :: string
  xc_host :: string
  xc_serviceName :: string
  xc_headerType :: string
  xc_relayServer :: string
  xc_relayPort :: nat

definition no_extra :: extra_conf where
  "no_extra = \<lparr>xc_path = [], xc_host = [], xc_serviceName = [], xc_headerType = [],
     xc_relayServer = [], xc_relayPort = 0\<rparr>"

definition v2ray_extra :: "unicode \<Rightarrow> string \<Rightarrow> extra_conf \<Rightarrow> (api_error, extra_conf) res" where
  "v2ray_extra u item x =
     (let conf = split_on (CHR ''='') item; key = toLower u (trimSpace u (hd conf))
      in if key = [] then Ok x
         else if length conf < 2 then Ok x
         else (let value = trimSpace u (conf ! 1)
               in if key = ''path'' then Ok (x\<lparr>xc_path := trimSpace u (join_with ''='' (tl conf))\<rparr>)
                  else if key = ''host'' then Ok (x\<lparr>xc_host := value\<rparr>)
                  else if key = ''servicename'' then Ok (x\<lparr>xc_serviceName := value\<rparr>)
                  else if key = ''headertype'' then Ok (x\<lparr>xc_headerType := value\<rparr>)
                  else if key = ''relay_server'' then Ok (x\<lparr>xc_relayServer := value\<rparr>)
                  else if key = ''relay_port'' then
                    (case parseUint 32 value of
                       None \<Rightarrow> Err (InvalidRelayPort value)
                     | Some p \<Rightarrow> Ok (x\<lparr>xc_relayPort := p\<rparr>))
                  else Ok x))"

fun v2ray_extras :: "unicode \<Rightarrow> string list \<Rightarrow> extra_conf \<Rightarrow> (api_error, extra_conf) res" where
  "v2ray_extras u [] x = Ok x"
| "v2ray_extras u (item # items) x = res_bind (v2ray_extra u item x) (v2ray_extras u items)"

definition v2ray_header :: "std_env \<Rightarrow> string \<Rightarrow> (api_error, string) res" where
  "v2ray_header e headerType =
     (if headerType = [] then Ok []
      else case se_header e headerType of None \<Rightarrow> Err MarshalHeader | Some h \<Rightarrow> Ok h)"

definition traffic_rate :: "f64 \<Rightarrow> f64" where
  "traffic_rate r = (if f64_positive r then r else f64_one)"

definition ParseV2rayNodeResponse ::
  "std_env \<Rightarrow> api_client \<Rightarrow> node_info_response \<Rightarrow> (api_error, node_info) res" where
  "ParseV2rayNodeResponse e c r =
     (let u = se_unicode e; raw = nr_RawServerString r; serverConf = split_on (CHR '';'') raw
      in if raw = [] then Err NoServerInfo
      else if length serverConf < 6 then Err (InvalidServerInfo raw)
      else case parseInt 32 (serverConf ! 1) of
        None \<Rightarrow> Err (StrconvFailed (serverConf ! 1))
      | Some parsedPort \<Rightarrow>
          (case parseInt 16 (serverConf ! 2) of
             None \<Rightarrow> Err (StrconvFailed (serverConf ! 2))
           | Some parsedAlterID \<Rightarrow>
               (let (enableTLS, transportProtocol) =
                      fold (v2ray_transport u) (take 2 (drop 3 serverConf)) (False, [])
                in res_bind (v2ray_extras u (split_on (CHR ''|'') (serverConf ! 5)) no_extra) (\<lambda>x.
                   res_bind (v2ray_header e (xc_headerType x)) (\<lambda>header.
                   (let (nodeType, effectiveTransport) =
                          resolve_alias u (cl_NodeType c) transportProtocol (xc_path x)
                    in Ok (zero_node_info
                         \<lparr>ni_NodeType := nodeType,
                          ni_PanelNodeType := cl_NodeType c,
                          ni_NodeID := cl_NodeID c,
                          ni_Port := word_of_int parsedPort,
                          ni_SpeedLimit := speed_limit e c (nr_SpeedLimit r),
                          ni_AlterID := word_of_int parsedAlterID,
                          ni_TransportProtocol := effectiveTransport,
                          ni_EnableTLS := enableTLS,
                          ni_Path := xc_path x,
                          ni_Host := xc_host x,
                          ni_EnableVless := cl_EnableVless c,
                          ni_VlessFlow := cl_VlessFlow c,
                          ni_ServiceName := xc_serviceName x,
                          ni_Header := header,
                          ni_TrafficRate := traffic_rate (nr_TrafficRate r),
                          ni_RelayServer := xc_relayServer x,
                          ni_RelayPort := word_of_nat (xc_relayPort x)\<rparr>)))))))"


section \<open>Shadowsocks plugin nodes\<close>

definition plugin_transport :: "string \<Rightarrow> bool \<times> string \<Rightarrow> bool \<times> string" where
  "plugin_transport value = (\<lambda>(enableTLS, transportProtocol).
     (if value = ''tls'' then (True, transportProtocol)
      else if value = ''ws'' then (enableTLS, ''ws'')
      else if value = ''obfs'' then (enableTLS, ''tcp'')
      else (enableTLS, transportProtocol)))"

fun plugin_extras :: "string list \<Rightarrow> string \<times> string \<Rightarrow> (api_error, string \<times> string) res" where
  "plugin_extras [] ph = Ok ph"
| "plugin_extras (item # items) ph =
     (let conf = split_on (CHR ''='') item; key = hd conf
      in if key = [] then plugin_extras items ph
         else res_bind (index conf 1) (\<lambda>value.
           if key = ''path'' then plugin_extras items (join_with ''='' (tl conf), snd ph)
           else if key = ''host'' then plugin_extras items (fst ph, value)
           else plugin_extras items ph))"

definition ParseSSPluginNodeResponse ::
  "std_env \<Rightarrow> api_client \<Rightarrow> node_info_response \<Rightarrow> (api_error, node_info) res" where
  "ParseSSPluginNodeResponse e c r =
     (let serverConf = split_on (CHR '';'') (nr_RawServerString r)
      in res_bind (index serverConf 1) (\<lambda>portField.
         case parseInt 32 portField of
           None \<Rightarrow> Err (StrconvFailed portField)
         | Some parsedPort \<Rightarrow>
             (let port = (word_of_int parsedPort :: uint32) - 1
              in if port \<le> 0 then Err PluginPort
              else res_bind (slice serverConf 3 5) (\<lambda>fields.
                let (enableTLS, transportProtocol) = fold plugin_transport fields (False, [])
                in res_bind (index serverConf 5) (\<lambda>extra.
                   res_bind (plugin_extras (split_on (CHR ''|'') extra) ([], [])) (\<lambda>(path, host).
                   Ok (zero_node_info
                       \<lparr>ni_NodeType := cl_NodeType c,
                        ni_NodeID := cl_NodeID c,
                        ni_Port := port,
                        ni_SpeedLimit := speed_limit e c (nr_SpeedLimit r),
                        ni_TransportProtocol := transportProtocol,
                        ni_EnableTLS := enableTLS,
                        ni_Path := path,
                        ni_Host := host\<rparr>)))))))"


section \<open>Trojan nodes\<close>

definition is_digit :: "char \<Rightarrow> bool" where
  "is_digit c = (let n = (of_char c :: nat) in 48 \<le> n \<and> n \<le> 57)"

definition is_word_or_dot :: "char \<Rightarrow> bool" where
  "is_word_or_dot c = (let n = (of_char c :: nat)
     in is_digit c \<or> 65 \<le> n \<and> n \<le> 90 \<or> 97 \<le> n \<and> n \<le> 122 \<or> n = 95 \<or> n = 46)"

text \<open>\<open>FindStringSubmatch\<close>: the leftmost position where the pattern matches.\<close>

fun find_first :: "(string \<Rightarrow> 'a option) \<Rightarrow> string \<Rightarrow> 'a option" where
  "find_first m s = (case m s of Some x \<Rightarrow> Some x
     | None \<Rightarrow> (case s of [] \<Rightarrow> None | c # cs \<Rightarrow> find_first m cs))"

text \<open>\<open>port=(\d+)#?\<close>, \<open>port=\d+#(\d+)\<close> and \<open>host=([\w.]+)\|?\<close> at the start of a string.\<close>

definition match_keyed :: "string \<Rightarrow> (char \<Rightarrow> bool) \<Rightarrow> string \<Rightarrow> (string \<times> string) option" where
  "match_keyed key p s =
     (if take (length key) s = key
      then (let rest = drop (length key) s; w = takeWhile p rest
            in if w = [] then None else Some (w, dropWhile p rest))
      else None)"

definition firstPortRe :: "string \<Rightarrow> string option" where
  "firstPortRe = find_first (\<lambda>s. map_option fst (match_keyed ''port='' is_digit s))"

definition secondPortRe :: "string \<Rightarrow> string option" where
  "secondPortRe = find_first (\<lambda>s. case match_keyed ''port='' is_digit s of
     Some (_, CHR ''#'' # t) \<Rightarrow> (let w = takeWhile is_digit t in if w = [] then None else Some w)
   | _ \<Rightarrow> None)"

definition hostRe :: "string \<Rightarrow> string option" where
  "hostRe = find_first (\<lambda>s. map_option fst (match_keyed ''host='' is_word_or_dot s))"

fun trojan_extras :: "string list \<Rightarrow> string \<times> string \<Rightarrow> (api_error, string \<times> string) res" where
  "trojan_extras [] ts = Ok ts"
| "trojan_extras (item # items) ts =
     (let conf = split_on (CHR ''='') item; key = hd conf
      in if key = [] then trojan_extras items ts
         else res_bind (index conf 1) (\<lambda>value.
           if key = ''grpc'' then trojan_extras items (''grpc'', snd ts)
           else if key = ''servicename'' then trojan_extras items (fst ts, value)
           else trojan_extras items ts))"

definition ParseTrojanNodeResponse ::
  "std_env \<Rightarrow> api_client \<Rightarrow> node_info_response \<Rightarrow> (api_error, node_info) res" where
  "ParseTrojanNodeResponse e c r =
     (let raw = nr_RawServerString r
      in if raw = [] then Err NoServerInfo
      else (let outsidePort = (case firstPortRe raw of Some w \<Rightarrow> w | None \<Rightarrow> []);
                insidePort = (case secondPortRe raw of Some w \<Rightarrow> w | None \<Rightarrow> []);
                host = (case hostRe raw of Some w \<Rightarrow> w | None \<Rightarrow> []);
                p = (if insidePort \<noteq> [] then insidePort else outsidePort)
            in case parseInt 32 p of
                 None \<Rightarrow> Err (StrconvFailed p)
               | Some parsedPort \<Rightarrow>
                   res_bind (index (split_on (CHR '';'') raw) 1) (\<lambda>extra.
                   res_bind (trojan_extras (split_on (CHR ''|'') extra) (''tcp'', [])) (\<lambda>(transportProtocol, serviceName).
                   Ok (zero_node_info
                       \<lparr>ni_NodeType := cl_NodeType c,
                        ni_NodeID := cl_NodeID c,
                        ni_Port := word_of_int parsedPort,
                        ni_SpeedLimit := speed_limit e c (nr_SpeedLimit r),
                        ni_TransportProtocol := transportProtocol,
                        ni_EnableTLS := True,
                        ni_Host := host,
                        ni_ServiceName := serviceName\<rparr>)))))"


section \<open>Nodes with a custom configuration\<close>

text \<open>The \<open>switch\<close> on the node type: node type, transport, TLS and VLESS.\<close>

definition custom_transport ::
  "unicode \<Rightarrow> string \<Rightarrow> custom_config \<Rightarrow> string \<times> string \<times> bool \<times> bool" where
  "custom_transport u nodeType k =
     (let t = normalizeNodeType u nodeType
      in if t = ''shadowsocks'' then (nodeType, ''tcp'', False, False)
         else if t = ''v2ray'' \<or> t = ''vmess'' then
           (let (nodeType', transport) = resolve_alias u nodeType (cc_Network k) (cc_Path k)
            in (nodeType', transport,
                cc_Security k = ''tls'' \<or> cc_Security k = ''xtls'', cc_EnableVless k = ''1''))
         else if t = ''trojan'' then
           (nodeType, (if cc_Network k \<noteq> [] then cc_Network k else ''tcp''), True, False)
         else if t = ''tuic'' then (nodeType, ''udp'', False, False)
         else if t = ''hysteria'' \<or> t = ''hysteria2'' then (nodeType, ''udp'', False, False)
         else (nodeType, [], False, False))"

definition zero_reality :: reality_config where
  "zero_reality = \<lparr>rc_Dest = [], rc_ProxyProtocolVer = 0, rc_ServerNames = [], rc_PrivateKey = [],
     rc_MinClientVer = [], rc_MaxClientVer = [], rc_MaxTimeDiff = 0, rc_ShortIds = []\<rparr>"

definition ParseSSPanelNodeInfo ::
  "std_env \<Rightarrow> api_client \<Rightarrow> node_info_response \<Rightarrow> (api_error, node_info) res" where
  "ParseSSPanelNodeInfo e c r =
     (if nr_CustomConfig r = [] then Err CustomConfigEmpty
      else case se_custom e (nr_CustomConfig r) of
        None \<Rightarrow> Err CustomConfigFormat
      | Some k \<Rightarrow>
          (case parseInt 32 (cc_OffsetPortNode k) of
             None \<Rightarrow> Err (StrconvFailed (cc_OffsetPortNode k))
           | Some parsedPort \<Rightarrow>
               (let (nodeType, transportProtocol, enableTLS, enableVless) =
                      custom_transport (se_unicode e) (cl_NodeType c) k
                in Ok (zero_node_info
                     \<lparr>ni_NodeType := nodeType,
                      ni_PanelNodeType := cl_NodeType c,
                      ni_NodeID := cl_NodeID c,
                      ni_Port := word_of_int parsedPort,
                      ni_SpeedLimit := speed_limit e c (nr_SpeedLimit r),
                      ni_AlterID := 0,
                      ni_TransportProtocol := transportProtocol,
                      ni_Host := cc_Host k,
                      ni_Path := cc_Path k,
                      ni_EnableTLS := enableTLS,
                      ni_EnableVless := enableVless,
                      ni_VlessFlow := cc_Flow k,
                      ni_CypherMethod := cc_Method k,
                      ni_ServiceName := cc_Servicename k,
                      ni_Header := cc_Header k,
                      ni_EnableREALITY := cc_EnableREALITY k,
                      ni_REALITYConfig :=
                        Some (case cc_RealityOpts k of None \<Rightarrow> zero_reality | Some ro \<Rightarrow> ro),
                      ni_TrafficRate := traffic_rate (nr_TrafficRate r)\<rparr>))))"


section \<open>The user list\<close>

text \<open>The device limit a user gets: \<open>None\<close> drops the user from the list.\<close>

definition user_device_limit :: "api_client \<Rightarrow> user_response \<Rightarrow> int option" where
  "user_device_limit c user =
     (let deviceLimit =
            (if 0 < cl_DeviceLimit c then cl_DeviceLimit c
             else if ur_DeviceLimit user = 0 then ur_NodeConnector user else ur_DeviceLimit user)
      in if 0 < deviceLimit \<and> 0 < ur_AliveIP user then
           (let lastOnline = (case gm_get (cl_LastReportOnline c) (ur_ID user) of Some v \<Rightarrow> v | None \<Rightarrow> 0);
                localDeviceLimit = deviceLimit - ur_AliveIP user + lastOnline
            in if 0 < localDeviceLimit then Some localDeviceLimit
               else if 0 < lastOnline then Some lastOnline
               else None)
         else Some deviceLimit)"

fun parse_users :: "std_env \<Rightarrow> api_client \<Rightarrow> user_response list \<Rightarrow> user_info list" where
  "parse_users e c [] = []"
| "parse_users e c (user # users) =
     (case user_device_limit c user of
        None \<Rightarrow> parse_users e c users
      | Some deviceLimit \<Rightarrow>
          \<lparr>ui_UID = ur_ID user, ui_Email = ur_Email user, ui_UUID = ur_UUID user,
           ui_Passwd = ur_Passwd user, ui_Port = ur_Port user, ui_AlterID = 0, ui_Flow = [],
           ui_Method = ur_Method user, ui_SpeedLimit = speed_limit e c (ur_SpeedLimit user),
           ui_DeviceLimit = deviceLimit\<rparr> # parse_users e c users)"

definition ParseUserListResponse ::
  "std_env \<Rightarrow> api_client \<Rightarrow> user_response list \<Rightarrow> user_info list \<times> api_client" where
  "ParseUserListResponse e c users = (parse_users e c users, c\<lparr>cl_LastReportOnline := []\<rparr>)"


section \<open>Sample values for witnesses\<close>

definition example_env :: std_env where
  "example_env = \<lparr>se_unicode = \<lparr>uni_lower = id, uni_trim = id, uni_fold = (=)\<rparr>, se_oor = (\<lambda>_. 0),
     se_node = (\<lambda>_. None), se_custom = (\<lambda>_. None), se_users = (\<lambda>_. None),
     se_rules = (\<lambda>_. None), se_header = Some, se_compile = (\<lambda>_. None)\<rparr>"

definition example_client :: api_client where
  "example_client = \<lparr>cl_APIHost = ''https://panel'', cl_NodeID = 44, cl_Key = ''k'', cl_NodeType = ''V2ray'',
     cl_EnableVless = False, cl_VlessFlow = [], cl_SpeedLimit = F64 0 0, cl_DeviceLimit = 0,
     cl_DisableCustomConfig = False, cl_LocalRuleList = [], cl_LastReportOnline = [], cl_version = [],
     cl_eTags = [], cl_expiredWarned = False\<rparr>"

definition example_node :: node_info_response where
  "example_node = \<lparr>nr_Group = 0, nr_Class = 0, nr_SpeedLimit = F64 100 0, nr_TrafficRate = F64 1 0,
     nr_Sort = 0, nr_RawServerString = [], nr_Type = [], nr_CustomConfig = [], nr_Version = ''2021.10''\<rparr>"

definition example_user :: user_response where
  "example_user = \<lparr>ur_ID = 7, ur_Email = ''a@b.c'', ur_Passwd = ''pw'', ur_Port = 0, ur_Method = [],
     ur_SpeedLimit = F64 0 0, ur_DeviceLimit = 0, ur_NodeConnector = 0, ur_UUID = ''id-7'', ur_AliveIP = 0\<rparr>"


section \<open>Version comparison against its specification\<close>

text \<open>
  The reference: the numbers between the dots, compared from left to right, a missing one
  counting as 0.
\<close>

definition component_value :: "string \<Rightarrow> int" where
  "component_value s = sint (fst (read_component 0 s))"

definition version_components :: "string \<Rightarrow> int list" where
  "version_components v = map component_value (split_on (CHR ''.'') v)"

fun padded_compare :: "int list \<Rightarrow> int list \<Rightarrow> int" where
  "padded_compare [] [] = 0"
| "padded_compare (x # xs) [] = (if 0 < x then 1 else if x < 0 then -1 else padded_compare xs [])"
| "padded_compare [] (y # ys) = (if y < 0 then 1 else if 0 < y then -1 else padded_compare [] ys)"
| "padded_compare (x # xs) (y # ys) =
     (if y < x then 1 else if x < y then -1 else padded_compare xs ys)"

lemma read_component_no_dot: "CHR ''.'' \<notin> set w \<Longrightarrow>
  read_component x (w @ CHR ''.'' # s) = (fst (read_component x w), s)"
  by (induction x w rule: read_component.induct) auto

lemma read_component_end: "CHR ''.'' \<notin> set w \<Longrightarrow> snd (read_component x w) = []"
  by (induction x w rule: read_component.induct) auto

lemma component_value_Nil [simp]: "component_value [] = 0"
  by (simp add: component_value_def)

lemma version_components_read:
  "version_components v =
     sint (fst (read_component 0 v)) #
       (if CHR ''.'' \<in> set v then version_components (snd (read_component 0 v)) else [])"
proof (cases "CHR ''.'' \<in> set v")
  case True
  then obtain w s where v: "v = w @ CHR ''.'' # s" and w: "CHR ''.'' \<notin> set w"
    by (metis split_list_first)
  show ?thesis
    using w by (simp add: version_components_def v split_on_append read_component_no_dot component_value_def)
next
  case False
  then show ?thesis by (simp add: version_components_def split_on_id component_value_def)
qed

text \<open>An empty rest has the single component 0, which padding makes equal to no component.\<close>

lemma padded_compare_nil_zero [simp]:
  "padded_compare [0] ys = padded_compare [] ys" "padded_compare xs [0] = padded_compare xs []"
  by (cases ys; simp) (cases xs; simp)

lemma version_rest_zero:
  "CHR ''.'' \<notin> set v \<Longrightarrow> version_components (snd (read_component 0 v)) = [0]"
  by (simp add: read_component_end version_components_def)

lemma compareVersion_components:
  "compareVersion v w = padded_compare (version_components v) (version_components w)"
proof (induction v w rule: compareVersion.induct)
  case (1 v w)
  obtain x v' where v: "read_component 0 v = (x, v')" by fastforce
  obtain y w' where w: "read_component 0 w = (y, w')" by fastforce
  have zv: "CHR ''.'' \<notin> set v \<Longrightarrow> version_components v' = [0]"
    using version_rest_zero [of v] v by simp
  have zw: "CHR ''.'' \<notin> set w \<Longrightarrow> version_components w' = [0]"
    using version_rest_zero [of w] w by simp
  show ?case
  proof (cases "v = [] \<and> w = []")
    case True
    then show ?thesis by (simp add: compareVersion.simps [of "[]" "[]"] version_components_def)
  next
    case False
    have rest: "sint x = sint y \<Longrightarrow> compareVersion v' w' =
        padded_compare (version_components v') (version_components w')"
      using "1.IH" [OF False v [symmetric] refl w [symmetric] refl] by simp
    show ?thesis
      using False rest zv zw
      by (auto simp: compareVersion.simps [of v w] version_components_read [of v]
          version_components_read [of w] v w)
  qed
qed


lemma padded_compare_antisym: "padded_compare xs ys = - padded_compare ys xs"
  by (induction xs ys rule: padded_compare.induct) auto

text \<open>The version gate of the panel API. \<open>compareVersion\<close> compares the numbers between the
  dots from left to right, a missing one counting as 0 (so 2021.11 and 2021.11.0 are equal),
  and swapping its arguments negates its result.
\<close>

theorem compareVersion_spec:
  "compareVersion v w = padded_compare (version_components v) (version_components w)
   \<and> compareVersion w v = - compareVersion v w"
  by (simp add: compareVersion_components padded_compare_antisym [of "version_components w"])


section \<open>The old address format selects the protocol\<close>

text \<open>\<open>domain;port;0;ws;;path=P|host=SNI\<close>, the address a node has in the panel.\<close>

definition panel_address :: "string \<Rightarrow> nat \<Rightarrow> string \<Rightarrow> string \<Rightarrow> string" where
  "panel_address domain port path host =
     join_with '';'' [domain, show_nat port, ''0'', ''ws'', [], ''path='' @ path @ ''|host='' @ host]"

text \<open>A field with no separator and no blank at either end.\<close>

definition clean_field :: "string \<Rightarrow> bool" where
  "clean_field s = (ascii s \<and> list_all (\<lambda>c. c \<noteq> CHR '';'' \<and> c \<noteq> CHR ''|'' \<and> c \<noteq> CHR ''='') s
     \<and> (s = [] \<or> \<not> space_byte (hd s) \<and> \<not> space_byte (last s)))"

lemma clean_fieldD:
  assumes "clean_field s"
  shows "ascii s" "CHR '';'' \<notin> set s" "CHR ''|'' \<notin> set s" "CHR ''='' \<notin> set s" "trim_ascii s = s"
  using assms by (auto simp: clean_field_def list_all_iff trim_ascii_clean)

lemma clean_trimSpace: "clean_field s \<Longrightarrow> trimSpace u s = s"
  by (simp add: trimSpace_def clean_fieldD)

lemma sep_not_in_show_nat: "CHR '';'' \<notin> set (show_nat n)"
proof
  assume "CHR '';'' \<in> set (show_nat n)"
  then have "digit_val (CHR '';'') \<noteq> None" by (rule show_nat_digits)
  then show False by (simp add: digit_val_def)
qed

lemma split_panel_address:
  assumes "CHR '';'' \<notin> set domain" and "CHR '';'' \<notin> set path" and "CHR '';'' \<notin> set host"
  shows "split_on (CHR '';'') (panel_address domain port path host) =
    [domain, show_nat port, ''0'', ''ws'', [], ''path='' @ path @ ''|host='' @ host]"
  unfolding panel_address_def using assms sep_not_in_show_nat [of port] by (subst split_join) auto

lemma literal_keys:
  "toLower u (trimSpace u ''path'') = ''path''" "toLower u (trimSpace u ''host'') = ''host''"
  "toLower u (trimSpace u ''ws'') = ''ws''" "toLower u (trimSpace u []) = []"
  "trimSpace u ''ws'' = ''ws''" "toLower u ''ws'' = ''ws''"
  by (simp_all add: toLower_def trimSpace_def trim_ascii_def space_byte_def lower_byte_def)

lemma v2ray_extra_path:
  assumes "clean_field path"
  shows "v2ray_extra u (''path='' @ path) x = Ok (x\<lparr>xc_path := path\<rparr>)"
proof -
  have "split_on (CHR ''='') (''path='' @ path) = [''path'', path]"
    using split_on_append [of "CHR ''=''" "''path''" path] clean_fieldD(4) [OF assms]
    by (simp add: split_on_id)
  then show ?thesis
    by (simp add: v2ray_extra_def Let_def clean_trimSpace [OF assms] literal_keys)
qed

lemma v2ray_extra_host:
  assumes "clean_field host"
  shows "v2ray_extra u (''host='' @ host) x = Ok (x\<lparr>xc_host := host\<rparr>)"
proof -
  have "split_on (CHR ''='') (''host='' @ host) = [''host'', host]"
    using split_on_append [of "CHR ''=''" "''host''" host] clean_fieldD(4) [OF assms]
    by (simp add: split_on_id)
  then show ?thesis
    by (simp add: v2ray_extra_def Let_def clean_trimSpace [OF assms] literal_keys)
qed

lemma v2ray_extras_path_host:
  assumes "clean_field path" and "clean_field host"
  shows "v2ray_extras u (split_on (CHR ''|'') (''path='' @ path @ ''|host='' @ host)) no_extra =
    Ok (no_extra\<lparr>xc_path := path, xc_host := host\<rparr>)"
proof -
  have "split_on (CHR ''|'') (''path='' @ path @ ''|host='' @ host) = [''path='' @ path, ''host='' @ host]"
    using split_on_append [of "CHR ''|''" "''path='' @ path" "''host='' @ host"]
      clean_fieldD(3) [OF assms(1)] clean_fieldD(3) [OF assms(2)]
    by (simp add: split_on_id)
  then show ?thesis
    using v2ray_extra_path [OF assms(1)] v2ray_extra_host [OF assms(2)] by simp
qed

text \<open>The three paths and what they select.\<close>

definition path_protocols :: "(string \<times> string \<times> string) list" where
  "path_protocols = [(''/anytls'', ''anytls'', ''tcp''), (''/hy2'', ''hysteria2'', ''udp''),
     (''/naive'', ''naive'', ''tcp'')]"

lemma normalize_paths:
  "normalizeAnyTLSPath u ''/anytls'' = ''anytls''" "normalizeAnyTLSPath u ''/hy2'' = ''hy2''"
  "normalizeAnyTLSPath u ''/naive'' = ''naive''"
  by (simp_all add: normalizeAnyTLSPath_def toLower_def trimSpace_def trim_ascii_def space_byte_def
      lower_byte_def trimPrefix_def)

lemma clean_paths: "clean_field ''/anytls''" "clean_field ''/hy2''" "clean_field ''/naive''"
  by (simp_all add: clean_field_def space_byte_def)

lemma resolve_alias_paths:
  assumes "(path, nodeType, transport) \<in> set path_protocols"
  shows "resolve_alias u t ''ws'' path = (nodeType, transport)" and "clean_field path"
proof -
  have ws: "equalFold u ''ws'' ''ws''" by (simp add: equalFold_def)
  show "resolve_alias u t ''ws'' path = (nodeType, transport)"
    using assms ws
    by (auto simp: path_protocols_def resolve_alias_def isAnyTLSAlias_def isHysteria2Alias_def
        isNaiveAlias_def normalize_paths literal_keys)
  show "clean_field path" using assms clean_paths by (auto simp: path_protocols_def)
qed

text \<open>A node address of the documented form, with a port below \<open>2^31\<close> and a clean domain and
  SNI, is parsed without an error into the protocol its path names, with the port and the SNI
  of the address and the speed limit of the panel or of the local configuration.
\<close>

theorem v2ray_address_selects_protocol:
  assumes "nr_RawServerString r = panel_address domain port path host"
    and "CHR '';'' \<notin> set domain" and "port < 2 ^ 31" and "clean_field host"
    and "(path, nodeType, transport) \<in> set path_protocols"
  shows "\<exists>ni. ParseV2rayNodeResponse e c r = Ok ni \<and> ni_NodeType ni = nodeType
    \<and> ni_TransportProtocol ni = transport \<and> ni_Port ni = word_of_nat port \<and> ni_Host ni = host
    \<and> ni_PanelNodeType ni = cl_NodeType c \<and> ni_NodeID ni = cl_NodeID c \<and> \<not> ni_EnableTLS ni
    \<and> ni_SpeedLimit ni = speed_limit e c (nr_SpeedLimit r)"
proof -
  have cp: "clean_field path" using resolve_alias_paths(2) [OF assms(5)] .
  have sp: "split_on (CHR '';'') (nr_RawServerString r) =
      [domain, show_nat port, ''0'', ''ws'', [], ''path='' @ path @ ''|host='' @ host]"
    unfolding assms(1) by (rule split_panel_address)
      (use assms(2) clean_fieldD(2) [OF cp] clean_fieldD(2) [OF assms(4)] in auto)
  have raw: "nr_RawServerString r \<noteq> []"
    using sp by auto
  have port: "parseInt 32 (show_nat port) = Some (int port)"
    using assms(3) by (intro parseInt_show_nat) simp_all
  have zero: "parseInt 16 ''0'' = Some 0"
    by (simp add: parseInt_def parseUint_def digit_val_def)
  have tr: "fold (v2ray_transport (se_unicode e)) [''ws'', []] (False, []) = (False, ''ws'')"
    by (simp add: v2ray_transport_def literal_keys)
  show ?thesis
    using raw port zero tr v2ray_extras_path_host [OF cp assms(4), of "se_unicode e"]
      resolve_alias_paths(1) [OF assms(5), of "se_unicode e" "cl_NodeType c"]
    by (simp add: ParseV2rayNodeResponse_def Let_def sp v2ray_header_def no_extra_def)
qed

theorem v2ray_address_selects_protocol_witness:
  "\<exists>ni. ParseV2rayNodeResponse example_env example_client
       (example_node\<lparr>nr_RawServerString := panel_address ''sa.example.com'' 14556 ''/hy2'' ''example.com''\<rparr>) = Ok ni
     \<and> ni_NodeType ni = ''hysteria2'' \<and> ni_Port ni = 14556"
proof -
  have "clean_field ''example.com''" by (simp add: clean_field_def space_byte_def)
  moreover have "(''/hy2'', ''hysteria2'', ''udp'') \<in> set path_protocols" by (simp add: path_protocols_def)
  ultimately show ?thesis
    using v2ray_address_selects_protocol
      [of "example_node\<lparr>nr_RawServerString := panel_address ''sa.example.com'' 14556 ''/hy2'' ''example.com''\<rparr>"
        "''sa.example.com''" 14556 "''/hy2''" "''example.com''" "''hysteria2''" "''udp''" example_env example_client]
    by auto
qed


section \<open>Robustness of the parsers\<close>

lemma v2ray_extra_no_panic: "v2ray_extra u item x \<noteq> Panic"
  by (simp add: v2ray_extra_def Let_def split: option.splits)

lemma v2ray_extras_no_panic: "v2ray_extras u items x \<noteq> Panic"
proof (induction items arbitrary: x)
  case Nil
  then show ?case by simp
next
  case (Cons item items)
  then show ?case using v2ray_extra_no_panic [of u item x] by (cases "v2ray_extra u item x") auto
qed

text \<open>Whatever server string the panel sends, the V2ray parser does not panic: it returns a
  node or an error. The other two string parsers do panic on a panel string: the Trojan parser
  on an option without \<open>=\<close>, the Shadowsocks-plugin parser on a string with too few fields.
\<close>

theorem parsers_panic_behaviour:
  "ParseV2rayNodeResponse e c r \<noteq> Panic
   \<and> ParseTrojanNodeResponse e c (r\<lparr>nr_RawServerString := ''a.com;port=443|grpc''\<rparr>) = Panic
   \<and> ParseSSPluginNodeResponse e c (r\<lparr>nr_RawServerString := ''a.com;443;0''\<rparr>) = Panic"
proof (intro conjI)
  show "ParseV2rayNodeResponse e c r \<noteq> Panic"
    using v2ray_extras_no_panic
    by (auto simp: ParseV2rayNodeResponse_def Let_def v2ray_header_def res_bind_def
        split: option.splits prod.splits res.splits)
  have "firstPortRe ''a.com;port=443|grpc'' = Some ''443''"
    by (simp add: firstPortRe_def match_keyed_def is_digit_def)
  moreover have "secondPortRe ''a.com;port=443|grpc'' = None"
    by (simp add: secondPortRe_def match_keyed_def is_digit_def)
  moreover have "hostRe ''a.com;port=443|grpc'' = None"
    by (simp add: hostRe_def match_keyed_def)
  moreover have "parseInt 32 ''443'' = Some 443"
    by (simp add: parseInt_def parseUint_def digit_val_def)
  ultimately show "ParseTrojanNodeResponse e c (r\<lparr>nr_RawServerString := ''a.com;port=443|grpc''\<rparr>) = Panic"
    by (simp add: ParseTrojanNodeResponse_def index_def)
  show "ParseSSPluginNodeResponse e c (r\<lparr>nr_RawServerString := ''a.com;443;0''\<rparr>) = Panic"
    by (simp add: ParseSSPluginNodeResponse_def parseInt_def parseUint_def digit_val_def
        index_def slice_def)
qed

text \<open>The port guard of the Shadowsocks-plugin parser works on an unsigned difference: port 1
  is refused, but port 0, for which \<open>port - 1\<close> wraps around, passes the guard and yields the
  port 4294967295.
\<close>

theorem plugin_port_zero_wraps:
  "ParseSSPluginNodeResponse e c (r\<lparr>nr_RawServerString := ''a.com;1;0;ws;;path=/x''\<rparr>) = Err PluginPort
   \<and> (\<exists>ni. ParseSSPluginNodeResponse e c (r\<lparr>nr_RawServerString := ''a.com;0;0;ws;;path=/x''\<rparr>) = Ok ni
        \<and> ni_Port ni = 4294967295)"
  by (simp add: ParseSSPluginNodeResponse_def parseInt_def parseUint_def digit_val_def index_def
      slice_def plugin_transport_def)


section \<open>Which users a node serves\<close>

lemma parse_users_filter:
  "map ui_UID (parse_users e c us) = map ur_ID (filter (\<lambda>u. user_device_limit c u \<noteq> None) us)"
  by (induction us) (auto split: option.splits)

lemma user_device_limit_None:
  "user_device_limit c u = None \<longleftrightarrow>
     (let limit = (if 0 < cl_DeviceLimit c then cl_DeviceLimit c
                   else if ur_DeviceLimit u = 0 then ur_NodeConnector u else ur_DeviceLimit u);
          reported = (case gm_get (cl_LastReportOnline c) (ur_ID u) of Some v \<Rightarrow> v | None \<Rightarrow> 0)
      in 0 < limit \<and> 0 < ur_AliveIP u \<and> reported \<le> 0 \<and> limit + reported \<le> ur_AliveIP u)"
  by (auto simp: user_device_limit_def Let_def)

text \<open>The user list of a node is the panel's list, in its order, without exactly the users
  who have a positive device limit, addresses alive elsewhere, none reported by this node in
  the last period, and no device left under the limit; a kept user with a positive limit
  keeps a positive one; and the record of last reported addresses is cleared.
\<close>

theorem parse_user_list:
  assumes "ParseUserListResponse e c us = (list, c')"
  shows "map ui_UID list = map ur_ID (filter (\<lambda>u. user_device_limit c u \<noteq> None) us)
    \<and> list_all (\<lambda>u. user_device_limit c u = None \<longleftrightarrow>
        (let limit = (if 0 < cl_DeviceLimit c then cl_DeviceLimit c
                      else if ur_DeviceLimit u = 0 then ur_NodeConnector u else ur_DeviceLimit u);
             reported = (case gm_get (cl_LastReportOnline c) (ur_ID u) of Some v \<Rightarrow> v | None \<Rightarrow> 0)
         in 0 < limit \<and> 0 < ur_AliveIP u \<and> reported \<le> 0 \<and> limit + reported \<le> ur_AliveIP u)) us
    \<and> (0 < cl_DeviceLimit c \<longrightarrow> list_all (\<lambda>i. 0 < ui_DeviceLimit i) list)
    \<and> cl_LastReportOnline c' = []"
proof -
  have "0 < cl_DeviceLimit c \<Longrightarrow> list_all (\<lambda>i. 0 < ui_DeviceLimit i) (parse_users e c us)"
    by (induction us) (auto simp: user_device_limit_def Let_def split: option.splits if_splits)
  with assms parse_users_filter [of e c us] show ?thesis
    by (auto simp: ParseUserListResponse_def user_device_limit_None list_all_iff)
qed

theorem parse_user_list_witness:
  "map ui_UID (fst (ParseUserListResponse example_env (example_client\<lparr>cl_DeviceLimit := 2\<rparr>)
     [example_user\<lparr>ur_AliveIP := 2\<rparr>, example_user\<lparr>ur_ID := 8, ur_AliveIP := 1\<rparr>])) = [8]"
proof -
  let ?c = "example_client\<lparr>cl_DeviceLimit := 2\<rparr>"
  let ?us = "[example_user\<lparr>ur_AliveIP := 2\<rparr>, example_user\<lparr>ur_ID := 8, ur_AliveIP := 1\<rparr>]"
  obtain list c' where eq: "ParseUserListResponse example_env ?c ?us = (list, c')" by fastforce
  have "filter (\<lambda>u. user_device_limit ?c u \<noteq> None) ?us = [example_user\<lparr>ur_ID := 8, ur_AliveIP := 1\<rparr>]"
    by (simp add: user_device_limit_def example_client_def example_user_def)
  with parse_user_list [OF eq] eq show ?thesis by simp
qed

end
