(* ===== verification/SSPanel_Client.thy ===== *)
theory SSPanel_Client
  imports SSPanel_Parse
begin

text \<open>
  \<^verbatim>\<open>poet/api/sspanel/sspanel.go\<close>, the calls to the panel. \<^verbatim>\<open>resty\<close> and the panel behind it
  are the parameter \<open>send\<close>: it takes a request and a panel state to a reply and a new panel
  state. A reply carries what the code reads of it: that the transport failed, that there is
  no response, or the status, the ETag header and the decoded envelope.
\<close>

datatype http_method = GET | POST

text \<open>Request bodies, by the payload each call posts.\<close>

datatype post_body =
    NoBody
  | BodyStatus node_status
  | BodyOnline "(int \<times> string) list"           \<comment> \<open>\<open>user_id\<close>, \<open>ip\<close>\<close>
  | BodyTraffic "(int \<times> int64 \<times> int64) list"  \<comment> \<open>\<open>user_id\<close>, \<open>u\<close>, \<open>d\<close>\<close>
  | BodyIllegal "(int \<times> int) list"             \<comment> \<open>\<open>list_id\<close>, \<open>user_id\<close>\<close>

record request =
  rq_Method :: http_method
  rq_Path :: string
  rq_NodeID :: "int option"
  rq_IfNoneMatch :: "string option"
  rq_Body :: post_body

datatype http_reply = TransportError | NilResponse | Reply int string response

text \<open>The retry condition installed in \<open>New\<close>, on what the transport error is: nothing, an
  exceeded deadline, a timeout, or another connection failure.\<close>

datatype transport_result = NoError | DeadlineExceeded | NetTimeout | ConnectionError

definition retry_condition :: "transport_result \<Rightarrow> bool" where
  "retry_condition t = (case t of NoError \<Rightarrow> False | DeadlineExceeded \<Rightarrow> False
     | NetTimeout \<Rightarrow> False | ConnectionError \<Rightarrow> True)"

definition readLocalRuleList :: "string \<Rightarrow> detect_rule list" where
  "readLocalRuleList path = []"

definition NewClient :: "api_config \<Rightarrow> api_client" where
  "NewClient k =
     \<lparr>cl_APIHost = ac_APIHost k, cl_NodeID = ac_NodeID k, cl_Key = ac_Key k,
      cl_NodeType = ac_NodeType k, cl_EnableVless = ac_EnableVless k, cl_VlessFlow = ac_VlessFlow k,
      cl_SpeedLimit = ac_SpeedLimit k, cl_DeviceLimit = ac_DeviceLimit k,
      cl_DisableCustomConfig = ac_DisableCustomConfig k,
      cl_LocalRuleList = readLocalRuleList (ac_RuleListPath k),
      cl_LastReportOnline = [], cl_version = [], cl_eTags = [], cl_expiredWarned = False\<rparr>"

definition client_timeout :: "api_config \<Rightarrow> int" where
  "client_timeout k = (if 0 < ac_Timeout k then ac_Timeout k else 20)"

definition DescribeClient :: "api_client \<Rightarrow> client_info" where
  "DescribeClient c = \<lparr>ci_APIHost = cl_APIHost c, ci_NodeID = cl_NodeID c, ci_Key = cl_Key c,
     ci_NodeType = cl_NodeType c\<rparr>"

definition assembleURL :: "api_client \<Rightarrow> string \<Rightarrow> string" where
  "assembleURL c path = cl_APIHost c @ path"

definition parseResponse :: "http_reply \<Rightarrow> (api_error, response) res" where
  "parseResponse reply =
     (case reply of
        TransportError \<Rightarrow> Err RequestFailed
      | NilResponse \<Rightarrow> Err EmptyResponse
      | Reply status etag response \<Rightarrow>
          if 400 < status then Err (HttpStatus status)
          else if rs_Ret response \<noteq> 1 then Err RetInvalid
          else Ok response)"

definition eTag :: "api_client \<Rightarrow> string \<Rightarrow> string" where
  "eTag c key = (case gm_get (cl_eTags c) key of Some t \<Rightarrow> t | None \<Rightarrow> [])"

definition reply_etag :: "http_reply \<Rightarrow> string" where
  "reply_etag reply = (case reply of Reply _ etag _ \<Rightarrow> etag | _ \<Rightarrow> [])"

definition not_modified :: "http_reply \<Rightarrow> bool" where
  "not_modified reply = (case reply of Reply status _ _ \<Rightarrow> status = 304 | _ \<Rightarrow> False)"

definition commit_etag :: "string \<Rightarrow> http_reply \<Rightarrow> api_client \<Rightarrow> api_client" where
  "commit_etag key reply c =
     (if reply_etag reply \<noteq> [] then c\<lparr>cl_eTags := gm_set key (reply_etag reply) (cl_eTags c)\<rparr> else c)"

definition node_path :: "api_client \<Rightarrow> string" where
  "node_path c = ''/mod_mu/nodes/'' @ show_int (cl_NodeID c) @ ''/info''"

definition get_request :: "string \<Rightarrow> int option \<Rightarrow> string option \<Rightarrow> request" where
  "get_request path node tag = \<lparr>rq_Method = GET, rq_Path = path, rq_NodeID = node,
     rq_IfNoneMatch = tag, rq_Body = NoBody\<rparr>"

definition post_request :: "string \<Rightarrow> int option \<Rightarrow> post_body \<Rightarrow> request" where
  "post_request path node body = \<lparr>rq_Method = POST, rq_Path = path, rq_NodeID = node,
     rq_IfNoneMatch = None, rq_Body = body\<rparr>"


definition node_request :: "api_client \<Rightarrow> request" where
  "node_request c = get_request (node_path c) None (Some (eTag c ''node''))"

definition users_request :: "api_client \<Rightarrow> request" where
  "users_request c = get_request ''/mod_mu/users'' (Some (cl_NodeID c)) (Some (eTag c ''users''))"

definition rules_request :: "api_client \<Rightarrow> request" where
  "rules_request c = get_request ''/mod_mu/func/detect_rules'' None (Some (eTag c ''rules''))"


section \<open>Node information\<close>

type_synonym 'p sender = "request \<Rightarrow> 'p \<Rightarrow> http_reply \<times> 'p"

text \<open>The Shadowsocks parser fetches the user list and only checks that it decodes.\<close>

definition ParseSSNodeResponse ::
  "std_env \<Rightarrow> 'p sender \<Rightarrow> api_client \<Rightarrow> node_info_response \<Rightarrow> 'p \<Rightarrow> (api_error, node_info) res \<times> 'p" where
  "ParseSSNodeResponse e send c r p =
     (let (reply, p') = send (get_request ''/mod_mu/users'' (Some (cl_NodeID c)) None) p
      in (res_bind (parseResponse reply) (\<lambda>response.
            case se_users e (rs_Data response) of
              None \<Rightarrow> Err UnmarshalFailed
            | Some _ \<Rightarrow> Ok (zero_node_info
                \<lparr>ni_NodeType := cl_NodeType c,
                 ni_NodeID := cl_NodeID c,
                 ni_Port := 0,
                 ni_SpeedLimit := speed_limit e c (nr_SpeedLimit r),
                 ni_TransportProtocol := ''tcp'',
                 ni_CypherMethod := []\<rparr>)), p'))"

text \<open>The dispatch of \<open>GetNodeInfo\<close> on the panel version and the node type; \<open>None\<close> is the
  unsupported type, whose error is returned unwrapped.\<close>

definition parse_node ::
  "std_env \<Rightarrow> 'p sender \<Rightarrow> api_client \<Rightarrow> node_info_response \<Rightarrow> 'p \<Rightarrow>
     (api_error, node_info) res option \<times> 'p" where
  "parse_node e send c r p =
     (if cl_DisableCustomConfig c \<or> compareVersion (cl_version c) ''2021.11'' = -1 then
        (let t = normalizeNodeType (se_unicode e) (cl_NodeType c)
         in if t = ''v2ray'' \<or> t = ''vmess'' then (Some (ParseV2rayNodeResponse e c r), p)
            else if t = ''trojan'' then (Some (ParseTrojanNodeResponse e c r), p)
            else if t = ''shadowsocks'' then
              (let (res, p') = ParseSSNodeResponse e send c r p in (Some res, p'))
            else if t = ''shadowsocks-plugin'' then (Some (ParseSSPluginNodeResponse e c r), p)
            else (None, p))
      else (Some (ParseSSPanelNodeInfo e c r), p))"

definition GetNodeInfo_client ::
  "std_env \<Rightarrow> 'p sender \<Rightarrow> api_client \<times> 'p \<Rightarrow> (api_error, node_info) res \<times> (api_client \<times> 'p)" where
  "GetNodeInfo_client e send = (\<lambda>(c, p).
     (let (reply, p1) = send (node_request c) p
      in if not_modified reply then (Err NodeNotModified, (c, p1))
         else case parseResponse reply of
           Err err \<Rightarrow> (Err err, (c, p1))
         | Panic \<Rightarrow> (Panic, (c, p1))
         | Ok response \<Rightarrow>
             (case se_node e (rs_Data response) of
                None \<Rightarrow> (Err UnmarshalFailed, (c, p1))
              | Some r \<Rightarrow>
                  (let c1 = c\<lparr>cl_version := nr_Version r\<rparr>;
                       isExpired = (compareVersion (cl_version c1) ''2021.11'' = -1);
                       c2 = (if isExpired then c1\<lparr>cl_expiredWarned := True\<rparr> else c1);
                       (parsed, p2) = parse_node e send c2 r p1
                   in case parsed of
                        None \<Rightarrow> (Err (UnsupportedNodeType (cl_NodeType c2)), (c2, p2))
                      | Some (Err err) \<Rightarrow> (Err (ParseNodeFailed err), (c2, p2))
                      | Some Panic \<Rightarrow> (Panic, (c2, p2))
                      | Some (Ok nodeInfo) \<Rightarrow> (Ok nodeInfo, (commit_etag ''node'' reply c2, p2))))))"


section \<open>Users, rules and reports\<close>

definition GetUserList_client ::
  "std_env \<Rightarrow> 'p sender \<Rightarrow> api_client \<times> 'p \<Rightarrow> (api_error, user_info list) res \<times> (api_client \<times> 'p)" where
  "GetUserList_client e send = (\<lambda>(c, p).
     (let (reply, p1) = send (users_request c) p
      in if not_modified reply then (Err UserNotModified, (c, p1))
         else case parseResponse reply of
           Err err \<Rightarrow> (Err err, (c, p1))
         | Panic \<Rightarrow> (Panic, (c, p1))
         | Ok response \<Rightarrow>
             (case se_users e (rs_Data response) of
                None \<Rightarrow> (Err UnmarshalFailed, (c, p1))
              | Some users \<Rightarrow>
                  (let (userList, c1) = ParseUserListResponse e c users
                   in (Ok userList, (commit_etag ''users'' reply c1, p1))))))"

definition post_report ::
  "'p sender \<Rightarrow> request \<Rightarrow> api_client \<times> 'p \<Rightarrow> (api_error, unit) res \<times> (api_client \<times> 'p)" where
  "post_report send rq = (\<lambda>(c, p).
     (let (reply, p1) = send rq p
      in (res_bind (parseResponse reply) (\<lambda>_. Ok ()), (c, p1))))"

definition ReportNodeStatus_client ::
  "'p sender \<Rightarrow> node_status \<Rightarrow> api_client \<times> 'p \<Rightarrow> (api_error, unit) res \<times> (api_client \<times> 'p)" where
  "ReportNodeStatus_client send status = (\<lambda>(c, p).
     (if compareVersion (cl_version c) ''2023.2'' = -1
      then post_report send (post_request (node_path c) None (BodyStatus status)) (c, p)
      else (Ok (), (c, p))))"

definition count_online :: "online_user list \<Rightarrow> (int, int) gomap" where
  "count_online users = fold (\<lambda>user m.
     (case gm_get m (ou_UID user) of
        Some val \<Rightarrow> gm_set (ou_UID user) (val + 1) m
      | None \<Rightarrow> gm_set (ou_UID user) 1 m)) users []"

definition ReportNodeOnlineUsers_client ::
  "'p sender \<Rightarrow> online_user list \<Rightarrow> api_client \<times> 'p \<Rightarrow> (api_error, unit) res \<times> (api_client \<times> 'p)" where
  "ReportNodeOnlineUsers_client send onlineUserList = (\<lambda>(c, p).
     post_report send
       (post_request ''/mod_mu/users/aliveip'' (Some (cl_NodeID c))
          (BodyOnline (map (\<lambda>user. (ou_UID user, ou_IP user)) onlineUserList)))
       (c\<lparr>cl_LastReportOnline := count_online onlineUserList\<rparr>, p))"

definition ReportUserTraffic_client ::
  "'p sender \<Rightarrow> user_traffic list \<Rightarrow> api_client \<times> 'p \<Rightarrow> (api_error, unit) res \<times> (api_client \<times> 'p)" where
  "ReportUserTraffic_client send userTraffic = (\<lambda>(c, p).
     post_report send
       (post_request ''/mod_mu/users/traffic'' (Some (cl_NodeID c))
          (BodyTraffic (map (\<lambda>t. (ut_UID t, ut_Upload t, ut_Download t)) userTraffic)))
       (c, p))"

fun compile_rules :: "std_env \<Rightarrow> rule_item list \<Rightarrow> detect_rule list \<Rightarrow> (api_error, detect_rule list) res" where
  "compile_rules e [] ruleList = Ok ruleList"
| "compile_rules e (r # rs) ruleList =
     (case se_compile e (ri_Content r) of
        None \<Rightarrow> Err (CompileRule (ri_ID r))
      | Some pattern \<Rightarrow> compile_rules e rs (ruleList @ [\<lparr>dr_ID = ri_ID r, dr_Pattern = Some pattern\<rparr>]))"

definition GetNodeRule_client ::
  "std_env \<Rightarrow> 'p sender \<Rightarrow> api_client \<times> 'p \<Rightarrow>
     (api_error, detect_rule list option) res \<times> (api_client \<times> 'p)" where
  "GetNodeRule_client e send = (\<lambda>(c, p).
     (let (reply, p1) = send (rules_request c) p
      in if not_modified reply then (Err RuleNotModified, (c, p1))
         else case parseResponse reply of
           Err err \<Rightarrow> (Err err, (c, p1))
         | Panic \<Rightarrow> (Panic, (c, p1))
         | Ok response \<Rightarrow>
             (case se_rules e (rs_Data response) of
                None \<Rightarrow> (Err UnmarshalFailed, (c, p1))
              | Some rules \<Rightarrow>
                  (case compile_rules e rules (cl_LocalRuleList c) of
                     Err err \<Rightarrow> (Err err, (c, p1))
                   | Panic \<Rightarrow> (Panic, (c, p1))
                   | Ok ruleList \<Rightarrow> (Ok (Some ruleList), (commit_etag ''rules'' reply c, p1))))))"

definition ReportIllegal_client ::
  "'p sender \<Rightarrow> detect_result list \<Rightarrow> api_client \<times> 'p \<Rightarrow> (api_error, unit) res \<times> (api_client \<times> 'p)" where
  "ReportIllegal_client send detectResultList = (\<lambda>(c, p).
     post_report send
       (post_request ''/mod_mu/users/detectlog'' (Some (cl_NodeID c))
          (BodyIllegal (map (\<lambda>r. (de_RuleID r, de_UID r)) detectResultList)))
       (c, p))"

text \<open>The client as an \<open>api.API\<close>.\<close>

definition sspanel_api :: "std_env \<Rightarrow> 'p sender \<Rightarrow> (api_client \<times> 'p) api" where
  "sspanel_api e send =
     \<lparr>GetNodeInfo = GetNodeInfo_client e send,
      GetUserList = GetUserList_client e send,
      ReportNodeStatus = ReportNodeStatus_client send,
      ReportNodeOnlineUsers = ReportNodeOnlineUsers_client send,
      ReportUserTraffic = ReportUserTraffic_client send,
      Describe = (\<lambda>(c, p). DescribeClient c),
      GetNodeRule = GetNodeRule_client e send,
      ReportIllegal = ReportIllegal_client send\<rparr>"


section \<open>Properties\<close>

definition succeeded :: "('e, 'a) res \<Rightarrow> bool" where
  "succeeded r = (case r of Ok _ \<Rightarrow> True | _ \<Rightarrow> False)"

definition tags_after :: "string \<Rightarrow> http_reply \<Rightarrow> bool \<Rightarrow> api_client \<Rightarrow> (string, string) gomap" where
  "tags_after key reply ok c =
     (if ok \<and> reply_etag reply \<noteq> [] then gm_set key (reply_etag reply) (cl_eTags c) else cl_eTags c)"

lemmas fetch_defs = succeeded_def tags_after_def commit_etag_def ParseUserListResponse_def Let_def

lemma GetNodeInfo_tags:
  "cl_eTags (fst (snd (GetNodeInfo_client e send (c, p)))) =
     tags_after ''node'' (fst (send (node_request c) p)) (succeeded (fst (GetNodeInfo_client e send (c, p)))) c"
  by (auto simp: GetNodeInfo_client_def fetch_defs split: prod.splits res.splits option.splits)

lemma GetUserList_tags:
  "cl_eTags (fst (snd (GetUserList_client e send (c, p)))) =
     tags_after ''users'' (fst (send (users_request c) p)) (succeeded (fst (GetUserList_client e send (c, p)))) c"
  by (auto simp: GetUserList_client_def fetch_defs split: prod.splits res.splits option.splits)

lemma GetNodeRule_tags:
  "cl_eTags (fst (snd (GetNodeRule_client e send (c, p)))) =
     tags_after ''rules'' (fst (send (rules_request c) p)) (succeeded (fst (GetNodeRule_client e send (c, p)))) c"
  by (auto simp: GetNodeRule_client_def fetch_defs split: prod.splits res.splits option.splits)

text \<open>A conditional fetch commits the ETag of its reply exactly when it succeeds: after a
  failed or not-modified fetch of the node, the users or the rules, the stored ETags are the
  old ones, so the next request asks for the same version again; after a success the stored
  tag of that resource is the reply's, when it has one, and the tags of the other resources
  are untouched.
\<close>

theorem etag_committed_on_success_only:
  "cl_eTags (fst (snd (GetNodeInfo_client e send (c, p)))) =
     tags_after ''node'' (fst (send (node_request c) p)) (succeeded (fst (GetNodeInfo_client e send (c, p)))) c
   \<and> cl_eTags (fst (snd (GetUserList_client e send (c, p)))) =
     tags_after ''users'' (fst (send (users_request c) p)) (succeeded (fst (GetUserList_client e send (c, p)))) c
   \<and> cl_eTags (fst (snd (GetNodeRule_client e send (c, p)))) =
     tags_after ''rules'' (fst (send (rules_request c) p)) (succeeded (fst (GetNodeRule_client e send (c, p)))) c"
  by (intro conjI GetNodeInfo_tags GetUserList_tags GetNodeRule_tags)

text \<open>A panel that honours \<open>If-None-Match\<close> for its user list.\<close>

definition honest_users :: "'p sender \<Rightarrow> 'p \<Rightarrow> string \<Rightarrow> string \<Rightarrow> bool" where
  "honest_users send p tag data \<longleftrightarrow> (\<forall>node m.
     send (get_request ''/mod_mu/users'' node m) p =
       (if m = Some tag then Reply 304 tag \<lparr>rs_Ret = 0, rs_Data = []\<rparr>
        else Reply 200 tag \<lparr>rs_Ret = 1, rs_Data = data\<rparr>, p))"

text \<open>Against a panel that honours \<open>If-None-Match\<close>, fetching the user list twice with no
  change on the panel returns the list once: the first fetch of a client that does not hold
  the current tag returns the parsed list, the second returns the not-modified error, and so
  does every fetch of a client that holds the tag.
\<close>

theorem users_fetched_once:
  assumes "honest_users send p tag data" and "tag \<noteq> []" and "se_users e data = Some users"
  shows "if eTag c ''users'' = tag then GetUserList_client e send (c, p) = (Err UserNotModified, (c, p))
    else (\<exists>c'. GetUserList_client e send (c, p) = (Ok (parse_users e c users), (c', p))
            \<and> GetUserList_client e send (c', p) = (Err UserNotModified, (c', p)))"
proof -
  have hit: "GetUserList_client e send (d, p) = (Err UserNotModified, (d, p))" if "eTag d ''users'' = tag" for d
    using assms(1) that by (simp add: GetUserList_client_def honest_users_def users_request_def not_modified_def)
  show ?thesis
  proof (cases "eTag c ''users'' = tag")
    case True
    with hit show ?thesis by simp
  next
    case False
    let ?c' = "commit_etag ''users'' (Reply 200 tag \<lparr>rs_Ret = 1, rs_Data = data\<rparr>) (c\<lparr>cl_LastReportOnline := []\<rparr>)"
    have "GetUserList_client e send (c, p) = (Ok (parse_users e c users), (?c', p))"
      using assms False by (simp add: GetUserList_client_def honest_users_def users_request_def
          not_modified_def parseResponse_def ParseUserListResponse_def)
    moreover have "eTag ?c' ''users'' = tag"
      using assms(2) by (simp add: eTag_def commit_etag_def reply_etag_def go_map_simps)
    ultimately show ?thesis using False hit by auto
  qed
qed

theorem users_fetched_once_witness:
  "honest_users (\<lambda>rq (p :: unit). (if rq_IfNoneMatch rq = Some ''v1'' then Reply 304 ''v1'' \<lparr>rs_Ret = 0, rs_Data = []\<rparr>
        else Reply 200 ''v1'' \<lparr>rs_Ret = 1, rs_Data = ''d''\<rparr>, p)) () ''v1'' ''d''
   \<and> (\<exists>c'. GetUserList_client (example_env\<lparr>se_users := (\<lambda>_. Some [example_user])\<rparr>)
        (\<lambda>rq (p :: unit). (if rq_IfNoneMatch rq = Some ''v1'' then Reply 304 ''v1'' \<lparr>rs_Ret = 0, rs_Data = []\<rparr>
        else Reply 200 ''v1'' \<lparr>rs_Ret = 1, rs_Data = ''d''\<rparr>, p)) (c', ()) = (Err UserNotModified, (c', ())))"
proof -
  let ?send = "\<lambda>rq (p :: unit). (if rq_IfNoneMatch rq = Some ''v1'' then Reply 304 ''v1'' \<lparr>rs_Ret = 0, rs_Data = []\<rparr>
        else Reply 200 ''v1'' \<lparr>rs_Ret = 1, rs_Data = ''d''\<rparr>, p)"
  have h: "honest_users ?send () ''v1'' ''d''"
    by (simp add: honest_users_def get_request_def)
  have tag: "eTag example_client ''users'' \<noteq> ''v1''" by (simp add: eTag_def example_client_def)
  show ?thesis
    using h users_fetched_once [OF h, of "example_env\<lparr>se_users := (\<lambda>_. Some [example_user])\<rparr>" "[example_user]" example_client]
      tag by auto
qed

text \<open>The old Shadowsocks path never learns a port: whatever the panel answers, the node that
  \<open>ParseSSNodeResponse\<close> returns has port 0, which the controller refuses.
\<close>

theorem shadowsocks_port_is_zero:
  assumes "ParseSSNodeResponse e send c r p = (Ok ni, p')"
  shows "ni_Port ni = 0 \<and> ni_TransportProtocol ni = ''tcp'' \<and> ni_CypherMethod ni = []"
  using assms
  by (auto simp: ParseSSNodeResponse_def res_bind_eq_Ok split: prod.splits option.splits)

theorem shadowsocks_port_is_zero_witness:
  "\<exists>ni. fst (ParseSSNodeResponse (example_env\<lparr>se_users := (\<lambda>_. Some [])\<rparr>)
       (\<lambda>rq (p :: unit). (Reply 200 [] \<lparr>rs_Ret = 1, rs_Data = []\<rparr>, p)) example_client example_node ()) = Ok ni
     \<and> ni_Port ni = 0"
proof -
  let ?e = "example_env\<lparr>se_users := (\<lambda>_. Some [])\<rparr>"
  let ?send = "\<lambda>rq (p :: unit). (Reply 200 [] \<lparr>rs_Ret = 1, rs_Data = []\<rparr>, p)"
  obtain ni where eq: "ParseSSNodeResponse ?e ?send example_client example_node () = (Ok ni, ())"
    by (simp add: ParseSSNodeResponse_def parseResponse_def)
  with shadowsocks_port_is_zero [OF eq] show ?thesis by simp
qed

end
