(* ===== verification/User_Account.thy ===== *)
theory User_Account
  imports Panel_Api
begin

text \<open>
  \<^verbatim>\<open>poet/controller/user.go\<close>, type \<open>User\<close>: the byte counters, the table of source
  addresses with its limit, and the speed limiter shared by both directions. A method that
  mutates its receiver returns the new user. \<^verbatim>\<open>golang.org/x/time/rate\<close> is the parameter
  \<open>rate_api\<close>; a limiter is a value of the type \<open>'l\<close>.
\<close>

record 'l rate_api =
  rt_NewLimiter :: "f64 \<Rightarrow> int \<Rightarrow> 'l"
  rt_Limit :: "'l \<Rightarrow> f64"
  rt_Burst :: "'l \<Rightarrow> int"

record 'l user =
  u_sent :: int64
  u_recv :: int64
  u_lastSent :: int64
  u_lastRecv :: int64
  u_sendSpeed :: int64
  u_recvSpeed :: int64
  u_hash :: string
  u_UID :: int
  u_Email :: string
  u_UUID :: string
  u_Passwd :: string
  u_ipTable :: "(string, bool) gomap"
  u_ipNum :: int32
  u_counterSeen :: bool
  u_maxIPNum :: int
  u_limiter :: "'l option"
  u_cancelled :: bool

text \<open>The value \<open>AddUser\<close> allocates: a composite literal with the hash and the UID, everything
  else zero.\<close>

definition new_user :: "string \<Rightarrow> int \<Rightarrow> 'l user" where
  "new_user hash uid =
     \<lparr>u_sent = 0, u_recv = 0, u_lastSent = 0, u_lastRecv = 0, u_sendSpeed = 0, u_recvSpeed = 0,
      u_hash = hash, u_UID = uid, u_Email = [], u_UUID = [], u_Passwd = [], u_ipTable = [],
      u_ipNum = 0, u_counterSeen = False, u_maxIPNum = 0, u_limiter = None, u_cancelled = False\<rparr>"


section \<open>Byte counters\<close>

definition SetTraffic :: "int64 \<Rightarrow> int64 \<Rightarrow> 'l user \<Rightarrow> 'l user" where
  "SetTraffic send recv u = u\<lparr>u_sent := send, u_recv := recv\<rparr>"

definition GetTraffic :: "'l user \<Rightarrow> int64 \<times> int64" where
  "GetTraffic u = (u_sent u, u_recv u)"

text \<open>\<open>GetTrafficPointer\<close> hands the two counters to the connection wrappers, which add the
  bytes of each read and write to them.\<close>

definition count_sent :: "int64 \<Rightarrow> 'l user \<Rightarrow> 'l user" where
  "count_sent n u = u\<lparr>u_sent := u_sent u + n\<rparr>"

definition count_recv :: "int64 \<Rightarrow> 'l user \<Rightarrow> 'l user" where
  "count_recv n u = u\<lparr>u_recv := u_recv u + n\<rparr>"

definition ResetTraffic :: "'l user \<Rightarrow> (int64 \<times> int64) \<times> 'l user" where
  "ResetTraffic u =
     ((u_sent u, u_recv u), u\<lparr>u_sent := 0, u_recv := 0, u_lastSent := 0, u_lastRecv := 0\<rparr>)"

definition User_Close :: "'l user \<Rightarrow> 'l user" where
  "User_Close u = (snd (ResetTraffic u))\<lparr>u_cancelled := True\<rparr>"

definition GetSpeed :: "'l user \<Rightarrow> int64 \<times> int64" where
  "GetSpeed u = (u_sendSpeed u, u_recvSpeed u)"

definition MarkCounterAttached :: "'l user \<Rightarrow> bool \<times> 'l user" where
  "MarkCounterAttached u = (\<not> u_counterSeen u, u\<lparr>u_counterSeen := True\<rparr>)"


section \<open>Source addresses\<close>

definition AddIP :: "string \<Rightarrow> 'l user \<Rightarrow> bool \<times> 'l user" where
  "AddIP ip u =
     (case gm_get (u_ipTable u) ip of
        Some _ \<Rightarrow> (True, u)
      | None \<Rightarrow>
          if 0 < u_maxIPNum u \<and> u_maxIPNum u < sint (u_ipNum u) + 1 then (False, u)
          else (True, u\<lparr>u_ipTable := gm_set ip True (u_ipTable u), u_ipNum := u_ipNum u + 1\<rparr>))"

definition DelIP :: "string \<Rightarrow> 'l user \<Rightarrow> bool \<times> 'l user" where
  "DelIP ip u =
     (case gm_get (u_ipTable u) ip of
        None \<Rightarrow> (False, u)
      | Some _ \<Rightarrow> (True, u\<lparr>u_ipTable := gm_del ip (u_ipTable u), u_ipNum := u_ipNum u - 1\<rparr>))"

definition GetIPNumber :: "'l user \<Rightarrow> int" where
  "GetIPNumber u = sint (u_ipNum u)"

definition SetIPLimit :: "int \<Rightarrow> 'l user \<Rightarrow> 'l user" where
  "SetIPLimit n u = u\<lparr>u_maxIPNum := n\<rparr>"

definition GetIPLimit :: "'l user \<Rightarrow> int" where
  "GetIPLimit u = u_maxIPNum u"

text \<open>\<open>ResetIPTable\<close> ranges over the table, deleting each address as it is collected.\<close>

definition reset_ip :: "string \<Rightarrow> string list \<times> 'l user \<Rightarrow> string list \<times> 'l user" where
  "reset_ip ip = (\<lambda>(iplist, u). (iplist @ [ip],
     u\<lparr>u_ipTable := gm_del ip (u_ipTable u), u_ipNum := u_ipNum u - 1\<rparr>))"

definition ResetIPTable :: "'l user \<Rightarrow> string list \<times> 'l user" where
  "ResetIPTable u = fold reset_ip (gm_keys (u_ipTable u)) ([], u)"


section \<open>Speed limit\<close>

definition SetSpeedLimit :: "'l rate_api \<Rightarrow> int64 \<Rightarrow> 'l user \<Rightarrow> 'l user" where
  "SetSpeedLimit rt bytesPerSec u =
     (if sint bytesPerSec \<le> 0 then u\<lparr>u_limiter := None\<rparr>
      else u\<lparr>u_limiter := Some (rt_NewLimiter rt (f64_of_int (sint bytesPerSec)) (sint bytesPerSec))\<rparr>)"

definition GetSpeedLimit :: "'l rate_api \<Rightarrow> 'l user \<Rightarrow> int" where
  "GetSpeedLimit rt u =
     (case u_limiter u of None \<Rightarrow> 0 | Some l \<Rightarrow> f64_trunc (rt_Limit rt l))"

text \<open>
  \<open>rate.Limiter.WaitN\<close> is the parameter \<open>waitN\<close>: it may fail, and it moves on a state
  (the clock, the bucket, the context).
\<close>

function wait_loop ::
  "('l \<Rightarrow> int \<Rightarrow> 's \<Rightarrow> 'e option \<times> 's) \<Rightarrow> 'l \<Rightarrow> int \<Rightarrow> int \<Rightarrow> 's \<Rightarrow> 'e option \<times> 's"
where
  "wait_loop waitN l burst n s =
     (if n \<le> 0 \<or> burst \<le> 0 then (None, s)
      else (let chunk = (if burst < n then burst else n)
            in case waitN l chunk s of
                 (Some e, s') \<Rightarrow> (Some e, s')
               | (None, s') \<Rightarrow> wait_loop waitN l burst (n - chunk) s'))"
  by pat_completeness auto
termination
  by (relation "measure (\<lambda>(waitN, l, burst, n, s). nat n)") (auto split: if_splits)

declare wait_loop.simps [simp del]

definition waitChunked :: "'l rate_api \<Rightarrow> ('l \<Rightarrow> int \<Rightarrow> 's \<Rightarrow> 'e option \<times> 's) \<Rightarrow>
    'l \<Rightarrow> int \<Rightarrow> 's \<Rightarrow> 'e option \<times> 's" where
  "waitChunked rt waitN l n s =
     (if rt_Burst rt l \<le> 0 then (None, s) else wait_loop waitN l (rt_Burst rt l) n s)"

definition WaitN :: "'l rate_api \<Rightarrow> ('l \<Rightarrow> int \<Rightarrow> 's \<Rightarrow> 'e option \<times> 's) \<Rightarrow>
    'l user \<Rightarrow> int \<Rightarrow> 's \<Rightarrow> 'e option \<times> 's" where
  "WaitN rt waitN u n s =
     (if n \<le> 0 then (None, s)
      else case u_limiter u of None \<Rightarrow> (None, s) | Some l \<Rightarrow> waitChunked rt waitN l n s)"


section \<open>The address table and its count\<close>

text \<open>The type invariant: the table has distinct addresses and the counter is their number.\<close>

definition user_wf :: "'l user \<Rightarrow> bool" where
  "user_wf u = (gm_wf (u_ipTable u) \<and> u_ipNum u = word_of_nat (length (u_ipTable u)))"

lemma user_wf_new_user: "user_wf (new_user h uid)"
  by (simp add: user_wf_def new_user_def)

lemma u_hash_new_user [simp]: "u_hash (new_user h uid) = h"
  by (simp add: new_user_def)

lemma length_gm_set_new: "gm_wf m \<Longrightarrow> gm_get m k = None \<Longrightarrow> length (gm_set k v m) = Suc (length m)"
  using gm.length_keys_put_new [of m k v] by simp

lemma length_gm_del_old: "gm_wf m \<Longrightarrow> gm_get m k \<noteq> None \<Longrightarrow> Suc (length (gm_del k m)) = length m"
  using gm.length_keys_del_old [of m k] by simp

lemma user_wf_counts: "user_wf u \<Longrightarrow> user_wf (u\<lparr>u_sent := n, u_recv := m\<rparr>)"
  by (simp add: user_wf_def)

lemma user_wf_AddIP: "user_wf u \<Longrightarrow> user_wf (snd (AddIP ip u))"
  by (auto simp: user_wf_def AddIP_def go_wf length_gm_set_new split: option.splits)

lemma user_wf_DelIP: "user_wf u \<Longrightarrow> user_wf (snd (DelIP ip u))"
  by (auto simp: user_wf_def DelIP_def go_wf length_gm_del_old [symmetric] split: option.splits)

lemma reset_ip_run:
  assumes "distinct ips" and "set ips \<subseteq> set (gm_keys (u_ipTable u))" and "user_wf u"
  shows "fst (fold reset_ip ips (acc, u)) = acc @ ips
    \<and> user_wf (snd (fold reset_ip ips (acc, u)))
    \<and> set (gm_keys (u_ipTable (snd (fold reset_ip ips (acc, u))))) =
        set (gm_keys (u_ipTable u)) - set ips"
  using assms
proof (induction ips arbitrary: acc u)
  case Nil
  then show ?case by simp
next
  case (Cons ip ips)
  define u' where "u' = u\<lparr>u_ipTable := gm_del ip (u_ipTable u), u_ipNum := u_ipNum u - 1\<rparr>"
  have has: "gm_get (u_ipTable u) ip \<noteq> None"
    using Cons.prems(2) by (simp add: gm_keys_get)
  then have "u' = snd (DelIP ip u)" by (auto simp: u'_def DelIP_def)
  then have wf': "user_wf u'" using Cons.prems(3) user_wf_DelIP by metis
  have keys': "set (gm_keys (u_ipTable u')) = set (gm_keys (u_ipTable u)) - {ip}"
    by (simp add: u'_def go_map_simps)
  have "fold reset_ip (ip # ips) (acc, u) = fold reset_ip ips (acc @ [ip], u')"
    by (simp add: reset_ip_def u'_def)
  moreover have "set ips \<subseteq> set (gm_keys (u_ipTable u'))"
    using Cons.prems(1,2) keys' by auto
  ultimately show ?case
    using Cons.IH [of u' "acc @ [ip]"] Cons.prems(1) wf' keys' by auto
qed

lemma ResetIPTable_result:
  assumes "user_wf u"
  shows "fst (ResetIPTable u) = gm_keys (u_ipTable u)"
    and "user_wf (snd (ResetIPTable u))"
    and "u_ipTable (snd (ResetIPTable u)) = []"
    and "u_ipNum (snd (ResetIPTable u)) = 0"
proof -
  have d: "distinct (gm_keys (u_ipTable u))"
    using assms by (simp add: user_wf_def gm.wf_keys)
  note run = reset_ip_run [OF d order_refl assms, of "[]"]
  show "fst (ResetIPTable u) = gm_keys (u_ipTable u)"
    using run by (simp add: ResetIPTable_def)
  show wf: "user_wf (snd (ResetIPTable u))"
    using run by (simp add: ResetIPTable_def)
  have "set (gm_keys (u_ipTable (snd (ResetIPTable u)))) = {}"
    using run by (simp add: ResetIPTable_def)
  then show empty: "u_ipTable (snd (ResetIPTable u)) = []"
    by (simp add: gm_keys_def)
  show "u_ipNum (snd (ResetIPTable u)) = 0"
    using wf empty by (simp add: user_wf_def)
qed

lemma ResetIPTable_keeps:
  assumes "\<And>v t n. g (v\<lparr>u_ipTable := t, u_ipNum := n\<rparr>) = g v"
  shows "g (snd (ResetIPTable u)) = g u"
proof -
  have "g (snd (reset_ip ip p)) = g (snd p)" for ip p
    using assms by (simp add: reset_ip_def split: prod.splits)
  then show ?thesis
    using fold_field [where g = "\<lambda>p. g (snd p)" and f = reset_ip] by (simp add: ResetIPTable_def)
qed

lemma ResetIPTable_frame [simp]:
  "u_sent (snd (ResetIPTable u)) = u_sent u" "u_recv (snd (ResetIPTable u)) = u_recv u"
  "u_UID (snd (ResetIPTable u)) = u_UID u" "u_hash (snd (ResetIPTable u)) = u_hash u"
  "u_Email (snd (ResetIPTable u)) = u_Email u"
  "u_maxIPNum (snd (ResetIPTable u)) = u_maxIPNum u" "u_limiter (snd (ResetIPTable u)) = u_limiter u"
  by (rule ResetIPTable_keeps, simp)+


section \<open>Properties\<close>

lemma sint_ipNum:
  "user_wf u \<Longrightarrow> length (u_ipTable u) < 2 ^ 31 \<Longrightarrow> sint (u_ipNum u) = int (length (u_ipTable u))"
  by (simp add: user_wf_def sint_small32)

text \<open>The device limit as \<open>AddIP\<close> decides it, on a well-formed user: an address is accepted
  exactly when it is already known, or no limit is set, or fewer addresses than the limit are
  known; an accepted address is in the table afterwards; a rejected one leaves the user
  unchanged; and a table within its limit stays within it.
\<close>

theorem AddIP_device_limit:
  assumes wf: "user_wf u" and small: "length (u_ipTable u) < 2 ^ 31"
    and res: "AddIP ip u = (ok, u')"
  shows "ok = (gm_has (u_ipTable u) ip \<or> u_maxIPNum u \<le> 0
               \<or> int (length (u_ipTable u)) < u_maxIPNum u)
    \<and> ok = gm_has (u_ipTable u') ip
    \<and> (ok \<or> u' = u)
    \<and> user_wf u'
    \<and> int (length (u_ipTable u')) \<le> max (int (length (u_ipTable u)))
         (if 0 < u_maxIPNum u then u_maxIPNum u else int (length (u_ipTable u)) + 1)"
proof -
  have num: "sint (u_ipNum u) = int (length (u_ipTable u))" by (rule sint_ipNum [OF wf small])
  have gwf: "gm_wf (u_ipTable u)" using wf by (simp add: user_wf_def)
  have "user_wf u'" using user_wf_AddIP [OF wf, of ip] res by simp
  with res show ?thesis
    by (auto simp: AddIP_def gm_has_def num go_map_simps length_gm_set_new [OF gwf]
        split: option.splits if_splits)
qed

theorem AddIP_device_limit_witness:
  "user_wf (SetIPLimit 1 (snd (AddIP ''10.0.0.1'' (new_user ''u7'' 7 :: nat user))))
   \<and> \<not> fst (AddIP ''10.0.0.2'' (SetIPLimit 1 (snd (AddIP ''10.0.0.1'' (new_user ''u7'' 7 :: nat user)))))"
proof -
  let ?u = "SetIPLimit 1 (snd (AddIP ''10.0.0.1'' (new_user ''u7'' 7 :: nat user)))"
  have wf: "user_wf ?u" and len: "u_ipTable ?u = [(''10.0.0.1'', True)]" and mx: "u_maxIPNum ?u = 1"
    by (simp_all add: user_wf_def gm_wf_def SetIPLimit_def AddIP_def new_user_def gm_set_def)
  show ?thesis
    using wf AddIP_device_limit [OF wf, of "''10.0.0.2''"] len mx
    by (cases "AddIP ''10.0.0.2'' ?u") (simp add: gm_has_def)
qed

text \<open>The chunks in which \<open>waitChunked\<close> spends \<open>n\<close> bytes: whole bursts, then the rest.\<close>

definition chunks :: "int \<Rightarrow> int \<Rightarrow> int list" where
  "chunks burst n = replicate (nat (n div burst)) burst @ (if n mod burst = 0 then [] else [n mod burst])"

fun run_waits :: "('l \<Rightarrow> int \<Rightarrow> 's \<Rightarrow> 'e option \<times> 's) \<Rightarrow> 'l \<Rightarrow> int list \<Rightarrow> 's \<Rightarrow> 'e option \<times> 's"
where
  "run_waits waitN l [] s = (None, s)"
| "run_waits waitN l (c # cs) s =
     (case waitN l c s of (Some e, s') \<Rightarrow> (Some e, s') | (None, s') \<Rightarrow> run_waits waitN l cs s')"

lemma chunks_small: "0 < n \<Longrightarrow> n \<le> burst \<Longrightarrow> chunks burst n = [n]"
  by (cases "n = burst") (auto simp: chunks_def)

lemma chunks_large:
  assumes "0 < burst" and "burst < n"
  shows "chunks burst n = burst # chunks burst (n - burst)"
proof -
  have d: "n div burst = (n - burst) div burst + 1" and m: "(n - burst) mod burst = n mod burst"
    using assms div_pos_geq [of burst n] mod_pos_geq [of burst n] by (metis less_imp_le)+
  have "0 \<le> (n - burst) div burst" using assms by (simp add: pos_imp_zdiv_nonneg_iff)
  then have "nat (n div burst) = Suc (nat ((n - burst) div burst))" unfolding d by simp
  then show ?thesis unfolding chunks_def m by (simp only: replicate_Suc append_Cons)
qed

lemma wait_loop_chunks:
  "0 < burst \<Longrightarrow> 0 \<le> n \<Longrightarrow> wait_loop waitN l burst n s = run_waits waitN l (chunks burst n) s"
proof (induction waitN l burst n s rule: wait_loop.induct)
  case (1 waitN l burst n s)
  consider "n = 0" | "0 < n" "n \<le> burst" | "burst < n" using "1.prems" by linarith
  then show ?case
  proof cases
    case 1
    then show ?thesis by (subst wait_loop.simps) (simp add: chunks_def)
  next
    case 2
    then show ?thesis
      by (subst wait_loop.simps)
         (auto simp: chunks_small Let_def wait_loop.simps [of _ _ _ 0] split: prod.splits option.splits)
  next
    case 3
    with "1.prems" "1.IH" [OF _ refl] show ?thesis
      by (subst wait_loop.simps) (auto simp: chunks_large Let_def split: prod.splits option.splits)
  qed
qed

lemma chunks_sum: "0 < burst \<Longrightarrow> 0 \<le> n \<Longrightarrow> sum_list (chunks burst n) = n"
  using div_mult_mod_eq [of n burst]
  by (auto simp: chunks_def sum_list_replicate pos_imp_zdiv_nonneg_iff simp del: div_mult_mod_eq)

lemma chunks_bound: "0 < burst \<Longrightarrow> c \<in> set (chunks burst n) \<Longrightarrow> 0 < c \<and> c \<le> burst"
  using pos_mod_bound [of burst n] pos_mod_sign [of burst n]
  unfolding chunks_def by (auto split: if_splits simp del: pos_mod_bound pos_mod_sign)

text \<open>The limiter is charged for exactly the bytes of a call and never refuses a call for its
  size: when the burst is positive, \<open>WaitN\<close> with \<open>n\<close> bytes behaves as a sequence of waits
  that stops at the first error, whose sizes add up to \<open>n\<close> and each lie between 1 and the
  burst.
\<close>

theorem WaitN_chunks:
  assumes "u_limiter u = Some l" and "0 < rt_Burst rt l" and "0 < n"
  shows "WaitN rt waitN u n s = run_waits waitN l (chunks (rt_Burst rt l) n) s
    \<and> sum_list (chunks (rt_Burst rt l) n) = n
    \<and> list_all (\<lambda>c. 0 < c \<and> c \<le> rt_Burst rt l) (chunks (rt_Burst rt l) n)"
  using assms wait_loop_chunks [of "rt_Burst rt l" n] chunks_bound [of "rt_Burst rt l" _ n]
  by (auto simp: WaitN_def waitChunked_def chunks_sum list_all_iff)

theorem WaitN_chunks_witness:
  "WaitN \<lparr>rt_NewLimiter = (\<lambda>r b. b), rt_Limit = f64_of_int, rt_Burst = id\<rparr>
     (\<lambda>l c log. (None :: unit option, log @ [c])) (SetSpeedLimit \<lparr>rt_NewLimiter = (\<lambda>r b. b), rt_Limit = f64_of_int, rt_Burst = id\<rparr> 1000 (new_user ''u7'' 7)) 2500 []
   = (None, [1000, 1000, 500])"
proof -
  let ?rt = "\<lparr>rt_NewLimiter = (\<lambda>r b. b), rt_Limit = f64_of_int, rt_Burst = id\<rparr> :: int rate_api"
  let ?u = "SetSpeedLimit ?rt 1000 (new_user ''u7'' 7)"
  have l: "u_limiter ?u = Some 1000" by (simp add: SetSpeedLimit_def)
  have c: "chunks 1000 2500 = [1000, 1000, 500]"
    by (simp add: chunks_def numeral_2_eq_2)
  show ?thesis
    using WaitN_chunks [OF l, of ?rt 2500 "\<lambda>l c log. (None :: unit option, log @ [c])" "[]"] c by simp
qed

end
