(* ===== verification/Authenticator.thy ===== *)
theory Authenticator
  imports User_Account
begin

text \<open>
  \<^verbatim>\<open>poet/controller/user.go\<close>, type \<open>Authenticator\<close>: the users by canonical hash and the
  aliases (UUID, password, e-mail) that lead to them. Users are shared objects: a live
  connection keeps the pointer it got from \<open>LoadUser\<close> after the user is deleted, so the
  model has an explicit heap, a list of users indexed by address, and both maps hold what
  the code's maps hold: addresses and hashes.
\<close>

record 'l auth =
  a_heap :: "'l user list"
  a_users :: "(string, nat) gomap"
  a_aliases :: "(string, string) gomap"

definition NewAuthenticator :: "'l auth" where
  "NewAuthenticator = \<lparr>a_heap = [], a_users = [], a_aliases = []\<rparr>"

definition upd_user :: "nat \<Rightarrow> ('l user \<Rightarrow> 'l user) \<Rightarrow> 'l auth \<Rightarrow> 'l auth" where
  "upd_user a f s = s\<lparr>a_heap := (a_heap s)[a := f (a_heap s ! a)]\<rparr>"

definition AddUser :: "string \<Rightarrow> int \<Rightarrow> 'l auth \<Rightarrow> api_error option \<times> 'l auth" where
  "AddUser hash uid s =
     (case gm_get (a_users s) hash of
        Some _ \<Rightarrow> (Some (HashExists hash), s)
      | None \<Rightarrow> (None, s\<lparr>a_heap := a_heap s @ [new_user hash uid],
                       a_users := gm_set hash (length (a_heap s)) (a_users s)\<rparr>))"

definition deleteAliases :: "string \<Rightarrow> 'l auth \<Rightarrow> 'l auth" where
  "deleteAliases hash s = s\<lparr>a_aliases := filter (\<lambda>(_, canonical). canonical \<noteq> hash) (a_aliases s)\<rparr>"

definition DelUser :: "string \<Rightarrow> 'l auth \<Rightarrow> api_error option \<times> 'l auth" where
  "DelUser hash s =
     (case gm_get (a_users s) hash of
        None \<Rightarrow> (Some (HashNotFound hash), s)
      | Some a \<Rightarrow>
          (None, deleteAliases hash
                   ((upd_user a User_Close s)\<lparr>a_users := gm_del hash (a_users s)\<rparr>)))"

definition LoadUser :: "'l auth \<Rightarrow> string \<Rightarrow> nat option" where
  "LoadUser s hash =
     (case gm_get (a_users s) hash of
        Some a \<Rightarrow> Some a
      | None \<Rightarrow> (case gm_get (a_aliases s) hash of
                  None \<Rightarrow> None
                | Some canonical \<Rightarrow> gm_get (a_users s) canonical))"

definition store_alias :: "string \<Rightarrow> string \<Rightarrow> 'l auth \<Rightarrow> 'l auth" where
  "store_alias hash alias s =
     (if alias = [] \<or> alias = hash then s else s\<lparr>a_aliases := gm_set alias hash (a_aliases s)\<rparr>)"

definition SetUserAliases :: "string \<Rightarrow> string list \<Rightarrow> 'l auth \<Rightarrow> 'l auth" where
  "SetUserAliases hash aliases s = fold (store_alias hash) aliases (deleteAliases hash s)"

definition SetUserProfile :: "string \<Rightarrow> user_info \<Rightarrow> 'l auth \<Rightarrow> 'l auth" where
  "SetUserProfile hash userInfo s =
     (case LoadUser s hash of
        None \<Rightarrow> s
      | Some a \<Rightarrow> upd_user a (\<lambda>u. u\<lparr>u_Email := ui_Email userInfo, u_UUID := ui_UUID userInfo,
                                    u_Passwd := ui_Passwd userInfo\<rparr>) s)"

definition SetUserSpeedLimit :: "'l rate_api \<Rightarrow> string \<Rightarrow> uint64 \<Rightarrow> 'l auth \<Rightarrow> bool \<times> 'l auth" where
  "SetUserSpeedLimit rt hash bytesPerSec s =
     (case LoadUser s hash of
        None \<Rightarrow> (False, s)
      | Some a \<Rightarrow> (True, upd_user a (SetSpeedLimit rt bytesPerSec) s))"

definition SetUserDeviceLimit :: "string \<Rightarrow> int \<Rightarrow> 'l auth \<Rightarrow> bool \<times> 'l auth" where
  "SetUserDeviceLimit hash maxDevices s =
     (case LoadUser s hash of
        None \<Rightarrow> (False, s)
      | Some a \<Rightarrow> (True, upd_user a (SetIPLimit maxDevices) s))"

definition ListUsers :: "'l auth \<Rightarrow> nat list" where
  "ListUsers s = map snd (a_users s)"


section \<open>The invariant\<close>

text \<open>
  Every registered user is an allocated object that carries its own hash (so two hashes
  never share an object), every object is well-formed, and every alias leads to a
  registered hash.
\<close>

definition auth_inv :: "'l auth \<Rightarrow> bool" where
  "auth_inv s \<longleftrightarrow> gm_wf (a_users s) \<and> gm_wf (a_aliases s)
     \<and> (\<forall>h a. gm_get (a_users s) h = Some a \<longrightarrow> a < length (a_heap s) \<and> u_hash (a_heap s ! a) = h)
     \<and> (\<forall>x h. gm_get (a_aliases s) x = Some h \<longrightarrow> gm_get (a_users s) h \<noteq> None)
     \<and> (\<forall>u \<in> set (a_heap s). user_wf u)"

lemma auth_invD:
  assumes "auth_inv s"
  shows "gm_wf (a_users s)" "gm_wf (a_aliases s)"
    "gm_get (a_users s) h = Some a \<Longrightarrow> a < length (a_heap s)"
    "gm_get (a_users s) h = Some a \<Longrightarrow> u_hash (a_heap s ! a) = h"
    "gm_get (a_aliases s) x = Some h \<Longrightarrow> gm_get (a_users s) h \<noteq> None"
    "a < length (a_heap s) \<Longrightarrow> user_wf (a_heap s ! a)"
  using assms by (auto simp: auth_inv_def)

lemma upd_user_sel [simp]:
  "a_users (upd_user a f s) = a_users s" "a_aliases (upd_user a f s) = a_aliases s"
  "length (a_heap (upd_user a f s)) = length (a_heap s)"
  by (simp_all add: upd_user_def)

lemma upd_user_nth:
  "b < length (a_heap s) \<Longrightarrow>
     a_heap (upd_user a f s) ! b = (if a = b then f (a_heap s ! b) else a_heap s ! b)"
  by (auto simp: upd_user_def)

lemma LoadUser_upd_user [simp]: "LoadUser (upd_user a f s) h = LoadUser s h"
  by (simp add: LoadUser_def split: option.splits)

lemma auth_inv_upd_user:
  assumes "auth_inv s" and "\<And>u. user_wf u \<Longrightarrow> user_wf (f u)" and "\<And>u. u_hash (f u) = u_hash u"
  shows "auth_inv (upd_user a f s)"
proof -
  have wf: "user_wf u" if u: "u \<in> set (a_heap (upd_user a f s))" for u
  proof -
    obtain b where b: "b < length (a_heap s)" "u = a_heap (upd_user a f s) ! b"
      using u by (metis in_set_conv_nth upd_user_sel(3))
    have "user_wf (a_heap s ! b)" using assms(1) b(1) by (simp add: auth_inv_def)
    then show ?thesis using assms(2) b by (simp add: upd_user_nth)
  qed
  have "u_hash (a_heap (upd_user a f s) ! b) = u_hash (a_heap s ! b)" if "b < length (a_heap s)" for b
    using that assms(3) by (simp add: upd_user_nth)
  with assms(1) wf show ?thesis by (auto simp: auth_inv_def)
qed

lemma auth_inv_New [simp]: "auth_inv NewAuthenticator"
  by (simp add: auth_inv_def NewAuthenticator_def)

lemma auth_inv_AddUser: "auth_inv s \<Longrightarrow> auth_inv (snd (AddUser h uid s))"
  by (auto simp: auth_inv_def AddUser_def go_map_simps go_wf nth_append user_wf_new_user
        less_Suc_eq split: option.splits if_splits)

lemma gm_get_delete_aliases:
  "gm_wf (a_aliases s) \<Longrightarrow> gm_get (a_aliases (deleteAliases h s)) x =
     (if gm_get (a_aliases s) x = Some h then None else gm_get (a_aliases s) x)"
  by (auto simp: deleteAliases_def gm_get_filter split: option.splits)

lemma deleteAliases_sel [simp]:
  "a_users (deleteAliases h s) = a_users s" "a_heap (deleteAliases h s) = a_heap s"
  by (simp_all add: deleteAliases_def)

lemma auth_inv_deleteAliases: "auth_inv s \<Longrightarrow> auth_inv (deleteAliases h s)"
  by (auto simp: auth_inv_def gm_get_delete_aliases split: if_splits) (simp add: deleteAliases_def go_wf)

lemma user_wf_Close: "user_wf u \<Longrightarrow> user_wf (User_Close u)"
  by (simp add: user_wf_def User_Close_def ResetTraffic_def)

lemma u_hash_Close [simp]: "u_hash (User_Close u) = u_hash u"
  by (simp add: User_Close_def ResetTraffic_def)

lemma auth_inv_DelUser:
  assumes "auth_inv s"
  shows "auth_inv (snd (DelUser h s))"
proof (cases "gm_get (a_users s) h")
  case None
  with assms show ?thesis by (simp add: DelUser_def)
next
  case (Some a)
  define s1 where "s1 = upd_user a User_Close s"
  have i1: "auth_inv s1"
    unfolding s1_def by (rule auth_inv_upd_user [OF assms]) (simp_all add: user_wf_Close)
  have res: "snd (DelUser h s) = deleteAliases h (s1\<lparr>a_users := gm_del h (a_users s)\<rparr>)"
    using Some by (simp add: DelUser_def s1_def)
  have "a_users s1 = a_users s" by (simp add: s1_def)
  with i1 show ?thesis
    unfolding res auth_inv_def
    by (auto simp: go_map_simps go_wf deleteAliases_def gm_get_filter split: option.splits if_splits)
qed

lemma store_alias_sel [simp]:
  "a_users (store_alias h x s) = a_users s" "a_heap (store_alias h x s) = a_heap s"
  by (simp_all add: store_alias_def)

lemma auth_inv_store_alias:
  "auth_inv s \<Longrightarrow> gm_get (a_users s) h \<noteq> None \<Longrightarrow> auth_inv (store_alias h x s)"
  by (auto simp: auth_inv_def store_alias_def go_map_simps go_wf split: if_splits)

lemma SetUserAliases_sel [simp]:
  "a_users (SetUserAliases h xs s) = a_users s" "a_heap (SetUserAliases h xs s) = a_heap s"
  by (simp_all add: SetUserAliases_def fold_field [where g = a_users] fold_field [where g = a_heap])

lemma auth_inv_SetUserAliases:
  assumes "auth_inv s" and "gm_get (a_users s) h \<noteq> None"
  shows "auth_inv (SetUserAliases h xs s)"
proof -
  have "auth_inv t \<and> a_users t = a_users s"
    if "t = fold (store_alias h) xs (deleteAliases h s)" for t
    unfolding that
    by (rule fold_invariant_set [where P = "\<lambda>t. auth_inv t \<and> a_users t = a_users s"])
       (auto simp: assms auth_inv_deleteAliases auth_inv_store_alias)
  then show ?thesis by (simp add: SetUserAliases_def)
qed

lemma auth_inv_SetUserProfile: "auth_inv s \<Longrightarrow> auth_inv (SetUserProfile h i s)"
  by (auto simp: SetUserProfile_def user_wf_def intro!: auth_inv_upd_user split: option.splits)

lemma auth_inv_SetUserSpeedLimit: "auth_inv s \<Longrightarrow> auth_inv (snd (SetUserSpeedLimit rt h b s))"
  by (auto simp: SetUserSpeedLimit_def user_wf_def SetSpeedLimit_def intro!: auth_inv_upd_user
        split: option.splits)

lemma auth_inv_SetUserDeviceLimit: "auth_inv s \<Longrightarrow> auth_inv (snd (SetUserDeviceLimit h n s))"
  by (auto simp: SetUserDeviceLimit_def user_wf_def SetIPLimit_def intro!: auth_inv_upd_user
        split: option.splits)

lemmas auth_inv_ops = auth_inv_AddUser auth_inv_DelUser auth_inv_SetUserAliases
  auth_inv_SetUserProfile auth_inv_SetUserSpeedLimit auth_inv_SetUserDeviceLimit

lemma LoadUser_valid: "auth_inv s \<Longrightarrow> LoadUser s h = Some a \<Longrightarrow> a < length (a_heap s)"
  by (auto simp: LoadUser_def dest: auth_invD split: option.splits)

lemma LoadUser_registered: "gm_get (a_users s) h = Some a \<Longrightarrow> LoadUser s h = Some a"
  by (simp add: LoadUser_def)

lemma users_inject:
  "auth_inv s \<Longrightarrow> gm_get (a_users s) h = Some a \<Longrightarrow> gm_get (a_users s) h' = Some a \<Longrightarrow> h = h'"
  by (metis auth_invD(4))

lemma distinct_ListUsers: "auth_inv s \<Longrightarrow> distinct (ListUsers s)"
proof -
  assume inv: "auth_inv s"
  then have wf: "gm_wf (a_users s)" by (rule auth_invD)
  have "inj_on snd (set (a_users s))"
  proof (rule inj_onI)
    fix p q assume "p \<in> set (a_users s)" "q \<in> set (a_users s)" and eq: "snd p = snd q"
    then have "gm_get (a_users s) (fst p) = Some (snd p)" "gm_get (a_users s) (fst q) = Some (snd q)"
      using wf by (metis gm_wf_get prod.collapse)+
    then have "fst p = fst q" using users_inject [OF inv] eq by metis
    with eq show "p = q" by (simp add: prod_eq_iff)
  qed
  with wf show "distinct (ListUsers s)"
    by (simp add: ListUsers_def distinct_map gm_wf_def)
qed

lemma set_ListUsers: "auth_inv s \<Longrightarrow> set (ListUsers s) = {a. \<exists>h. gm_get (a_users s) h = Some a}"
  by (force simp: ListUsers_def auth_invD(1) gm_wf_get [symmetric])


section \<open>What a lookup returns after an operation\<close>

lemma AddUser_users:
  "gm_get (a_users s) h = None \<Longrightarrow>
     gm_get (a_users (snd (AddUser h uid s))) h' = (if h' = h then Some (length (a_heap s)) else gm_get (a_users s) h')"
  by (simp add: AddUser_def go_map_simps)

lemma dom_AddUser:
  "gm_get (a_users (snd (AddUser h uid s))) h' \<noteq> None \<longleftrightarrow> h' = h \<or> gm_get (a_users s) h' \<noteq> None"
  by (auto simp: AddUser_def go_map_simps split: option.splits)

lemma dom_DelUser:
  "gm_get (a_users (snd (DelUser h s))) h' \<noteq> None \<longleftrightarrow> h' \<noteq> h \<and> gm_get (a_users s) h' \<noteq> None"
  by (auto simp: DelUser_def go_map_simps split: option.splits)

lemma SetUserAliases_get:
  assumes "gm_wf (a_aliases s)"
  shows "gm_get (a_aliases (SetUserAliases h xs s)) x =
    (if x \<in> set xs \<and> x \<noteq> [] \<and> x \<noteq> h then Some h
     else if gm_get (a_aliases s) x = Some h then None else gm_get (a_aliases s) x)"
proof -
  have "gm_get (a_aliases (fold (store_alias h) xs t)) x =
    (if x \<in> set xs \<and> x \<noteq> [] \<and> x \<noteq> h then Some h else gm_get (a_aliases t) x)" for t
    by (induction xs arbitrary: t) (auto simp: store_alias_def go_map_simps)
  from this [of "deleteAliases h s"] assms show ?thesis
    by (simp add: SetUserAliases_def gm_get_delete_aliases)
qed


section \<open>The accounts behind the heap\<close>

text \<open>
  The view of the authenticator without addresses: the identity of the user registered under a
  hash. Each operation is a function on this view and on the alias table.
\<close>

record identity =
  id_UID :: int
  id_Email :: string
  id_UUID :: string
  id_Passwd :: string

definition identity_of :: "'l user \<Rightarrow> identity" where
  "identity_of u = \<lparr>id_UID = u_UID u, id_Email = u_Email u, id_UUID = u_UUID u, id_Passwd = u_Passwd u\<rparr>"

definition account :: "'l auth \<Rightarrow> string \<Rightarrow> identity option" where
  "account s h = map_option (\<lambda>a. identity_of (a_heap s ! a)) (gm_get (a_users s) h)"

lemma account_None: "account s h = None \<longleftrightarrow> gm_get (a_users s) h = None"
  by (simp add: account_def)

lemma account_upd_user:
  assumes "auth_inv s" and "gm_get (a_users s) h = Some a"
  shows "account (upd_user a f s) h' =
    (if h' = h then Some (identity_of (f (a_heap s ! a))) else account s h')"
proof (cases "gm_get (a_users s) h'")
  case None
  with assms(2) show ?thesis by (auto simp: account_def)
next
  case (Some b)
  moreover have "b < length (a_heap s)" "a < length (a_heap s)" using assms Some by (auto dest: auth_invD)
  moreover have "a = b \<Longrightarrow> h = h'" using assms Some by (metis users_inject)
  ultimately show ?thesis using assms(2) by (auto simp: account_def upd_user_nth)
qed

lemma account_upd_user_same:
  assumes "auth_inv s" and "gm_get (a_users s) h = Some a"
    and "\<And>u. identity_of (f u) = identity_of u"
  shows "account (upd_user a f s) = account s"
  using assms by (auto simp: fun_eq_iff account_upd_user) (simp add: account_def)

lemma account_AddUser:
  assumes "auth_inv s" and "account s h = None"
  shows "account (snd (AddUser h uid s)) h' =
    (if h' = h then Some \<lparr>id_UID = uid, id_Email = [], id_UUID = [], id_Passwd = []\<rparr> else account s h')"
proof (cases "h' = h")
  case True
  with assms(2) show ?thesis
    by (simp add: account_None AddUser_def) (simp add: account_def go_map_simps identity_of_def new_user_def)
next
  case False
  have old: "b < length (a_heap s)" if "gm_get (a_users s) h' = Some b" for b
    using assms(1) that by (rule auth_invD)
  from False assms(2) have "account (snd (AddUser h uid s)) h' =
      map_option (\<lambda>a. identity_of ((a_heap s @ [new_user h uid]) ! a)) (gm_get (a_users s) h')"
    by (simp add: account_None AddUser_def) (simp add: account_def go_map_simps)
  also have "\<dots> = account s h'"
    using old by (cases "gm_get (a_users s) h'") (simp_all add: account_def nth_append)
  finally show ?thesis using False by simp
qed

lemma aliases_AddUser [simp]: "a_aliases (snd (AddUser h uid s)) = a_aliases s"
  by (simp add: AddUser_def split: option.splits)

lemma account_deleteAliases [simp]: "account (deleteAliases h s) = account s"
  by (simp add: account_def fun_eq_iff)

lemma account_DelUser:
  assumes "auth_inv s"
  shows "account (snd (DelUser h s)) h' = (if h' = h then None else account s h')"
proof (cases "gm_get (a_users s) h")
  case None
  then show ?thesis by (auto simp: DelUser_def account_def)
next
  case (Some a)
  have "account ((upd_user a User_Close s)\<lparr>a_users := gm_del h (a_users s)\<rparr>) h' =
      (if h' = h then None else account (upd_user a User_Close s) h')"
    by (simp add: account_def go_map_simps)
  then show ?thesis
    using Some by (simp add: DelUser_def account_upd_user [OF assms Some])
qed

lemma aliases_DelUser:
  assumes "auth_inv s"
  shows "gm_get (a_aliases (snd (DelUser h s))) x =
    (if gm_get (a_aliases s) x = Some h then None else gm_get (a_aliases s) x)"
proof (cases "gm_get (a_users s) h")
  case None
  then have "gm_get (a_aliases s) x \<noteq> Some h" using auth_invD(5) [OF assms] by blast
  with None show ?thesis by (simp add: DelUser_def)
next
  case (Some a)
  then show ?thesis using auth_invD(2) [OF assms] by (simp add: DelUser_def gm_get_delete_aliases)
qed

lemma account_SetUserAliases [simp]: "account (SetUserAliases h xs s) = account s"
  by (simp add: account_def fun_eq_iff)

lemma account_SetUserProfile:
  assumes "auth_inv s" and "account s h = Some i"
  shows "account (SetUserProfile h info s) h' =
    (if h' = h then Some (i\<lparr>id_Email := ui_Email info, id_UUID := ui_UUID info, id_Passwd := ui_Passwd info\<rparr>)
     else account s h')"
proof -
  obtain a where a: "gm_get (a_users s) h = Some a" "i = identity_of (a_heap s ! a)"
    using assms(2) by (auto simp: account_def)
  show ?thesis
    by (simp add: SetUserProfile_def LoadUser_registered [OF a(1)] account_upd_user [OF assms(1) a(1)])
       (simp add: a(2) identity_of_def)
qed

lemma aliases_SetUserProfile [simp]: "a_aliases (SetUserProfile h info s) = a_aliases s"
  by (simp add: SetUserProfile_def split: option.splits)

lemma account_limits:
  assumes "auth_inv s" and "account s h \<noteq> None"
  shows "account (snd (SetUserSpeedLimit rt h b s)) = account s"
    "account (snd (SetUserDeviceLimit h n s)) = account s"
proof -
  obtain a where a: "gm_get (a_users s) h = Some a" using assms(2) by (auto simp: account_def)
  show "account (snd (SetUserSpeedLimit rt h b s)) = account s"
    by (simp add: SetUserSpeedLimit_def LoadUser_registered [OF a])
       (rule account_upd_user_same [OF assms(1) a], simp add: SetSpeedLimit_def identity_of_def)
  show "account (snd (SetUserDeviceLimit h n s)) = account s"
    by (simp add: SetUserDeviceLimit_def LoadUser_registered [OF a])
       (rule account_upd_user_same [OF assms(1) a], simp add: SetIPLimit_def identity_of_def)
qed

lemma aliases_limits [simp]:
  "a_aliases (snd (SetUserSpeedLimit rt h b s)) = a_aliases s"
  "a_aliases (snd (SetUserDeviceLimit h n s)) = a_aliases s"
  by (simp_all add: SetUserSpeedLimit_def SetUserDeviceLimit_def split: option.splits)

lemma LoadUser_canonical: "LoadUser s x = Some a \<Longrightarrow> \<exists>h. gm_get (a_users s) h = Some a"
  by (auto simp: LoadUser_def split: option.splits)

text \<open>The phases of a synchronisation: a run of deletions and a run of additions.\<close>

lemma fold_DelUser:
  assumes "auth_inv s"
  shows "auth_inv (fold (\<lambda>h a. snd (DelUser h a)) ds s)"
    and "account (fold (\<lambda>h a. snd (DelUser h a)) ds s) x = (if x \<in> set ds then None else account s x)"
    and "gm_get (a_aliases (fold (\<lambda>h a. snd (DelUser h a)) ds s)) y = Some h \<longleftrightarrow>
      gm_get (a_aliases s) y = Some h \<and> h \<notin> set ds"
proof -
  have "auth_inv (fold (\<lambda>h a. snd (DelUser h a)) ds s) \<and>
    (\<forall>x. account (fold (\<lambda>h a. snd (DelUser h a)) ds s) x = (if x \<in> set ds then None else account s x)) \<and>
    (\<forall>y h. gm_get (a_aliases (fold (\<lambda>h a. snd (DelUser h a)) ds s)) y = Some h \<longleftrightarrow>
      gm_get (a_aliases s) y = Some h \<and> h \<notin> set ds)"
    using assms
  proof (induction ds arbitrary: s)
    case (Cons d ds)
    show ?case
      using Cons.IH [OF auth_inv_DelUser [OF Cons.prems], of d] Cons.prems
      by (auto simp: account_DelUser aliases_DelUser split: if_splits)
  qed simp
  then show "auth_inv (fold (\<lambda>h a. snd (DelUser h a)) ds s)"
    and "account (fold (\<lambda>h a. snd (DelUser h a)) ds s) x = (if x \<in> set ds then None else account s x)"
    and "gm_get (a_aliases (fold (\<lambda>h a. snd (DelUser h a)) ds s)) y = Some h \<longleftrightarrow>
      gm_get (a_aliases s) y = Some h \<and> h \<notin> set ds" by blast+
qed

text \<open>Deleting a user revokes every name that led to it: afterwards neither its hash nor any of
  its aliases loads it, while the object a live connection holds is closed with its counters at
  zero; every other name loads what it loaded before.\<close>

theorem DelUser_revokes:
  assumes "auth_inv s" and "gm_get (a_users s) h = Some a"
  shows "LoadUser (snd (DelUser h s)) x \<noteq> Some a
    \<and> (x \<noteq> h \<and> LoadUser s x \<noteq> Some a \<longrightarrow> LoadUser (snd (DelUser h s)) x = LoadUser s x)
    \<and> u_cancelled (a_heap (snd (DelUser h s)) ! a)
    \<and> GetTraffic (a_heap (snd (DelUser h s)) ! a) = (0, 0)"
proof -
  let ?s = "snd (DelUser h s)"
  have users: "gm_get (a_users ?s) y = (if y = h then None else gm_get (a_users s) y)" for y
    using assms(2) by (simp add: DelUser_def go_map_simps)
  have inj: "gm_get (a_users s) y = Some a \<Longrightarrow> y = h" for y
    using users_inject [OF assms] by simp
  have own: "gm_get (a_users s) c = Some a \<longleftrightarrow> c = h" for c using inj [of c] assms(2) by blast
  have gone: "LoadUser ?s x \<noteq> Some a"
    by (cases "gm_get (a_aliases s) x")
       (auto simp: LoadUser_def users aliases_DelUser [OF assms(1)] own split: option.splits)
  have kept: "LoadUser ?s x = LoadUser s x" if "x \<noteq> h" "LoadUser s x \<noteq> Some a"
    using that
    by (cases "gm_get (a_users s) x"; cases "gm_get (a_aliases s) x")
       (auto simp: LoadUser_def users aliases_DelUser [OF assms(1)] assms(2))
  have "a < length (a_heap s)" using assms by (rule auth_invD)
  then have obj: "a_heap ?s ! a = User_Close (a_heap s ! a)"
    using assms(2) by (simp add: DelUser_def upd_user_nth)
  from gone kept show ?thesis
    unfolding obj by (simp add: User_Close_def ResetTraffic_def GetTraffic_def)
qed

text \<open>An instance: the second of two users is deleted while its alias is in use.\<close>

theorem DelUser_revokes_witness:
  "let s = SetUserAliases ''u2'' [''uuid''] (snd (AddUser ''u2'' 2 (snd (AddUser ''u1'' 1 (NewAuthenticator :: nat auth)))))
   in LoadUser s ''uuid'' = Some 1 \<and> LoadUser (snd (DelUser ''u2'' s)) ''uuid'' \<noteq> Some 1"
proof -
  let ?s = "SetUserAliases ''u2'' [''uuid''] (snd (AddUser ''u2'' 2 (snd (AddUser ''u1'' 1 (NewAuthenticator :: nat auth)))))"
  have r: "gm_get (a_users ?s) ''u2'' = Some 1" by code_simp
  have "auth_inv ?s"
  proof (rule auth_inv_SetUserAliases)
    show "gm_get (a_users (snd (AddUser ''u2'' 2 (snd (AddUser ''u1'' 1 (NewAuthenticator :: nat auth)))))) ''u2'' \<noteq> None"
      by code_simp
  qed (intro auth_inv_AddUser auth_inv_New)
  from DelUser_revokes [OF this r, of "''uuid''"] have "LoadUser (snd (DelUser ''u2'' ?s)) ''uuid'' \<noteq> Some 1" by simp
  moreover have "LoadUser ?s ''uuid'' = Some 1" by code_simp
  ultimately show ?thesis by (simp add: Let_def)
qed

end
