(* ===== verification/Inbound_Users.thy ===== *)
theory Inbound_Users
  imports Panel_Api
begin

text \<open>
  The user tables of the panel-driven inbounds: \<^verbatim>\<open>protocol/naive/singr_users.go\<close> (the
  two-way password table), \<^verbatim>\<open>protocol/hysteria2/pinbound.go\<close> (the mirror of the QUIC
  service's users), \<^verbatim>\<open>protocol/anytls/pinbound.go\<close> and \<^verbatim>\<open>protocol/naive/pinbound.go\<close>, and
  the optional interfaces of \<^verbatim>\<open>adapter/pinbound.go\<close>. The contract the controller relies on
  is the locale \<open>user_runtime\<close>, interpreted on the naive table and on the hysteria2 mirror.
  The services of sing-anytls and sing-quic are parameters.
\<close>

section \<open>The optional interfaces of an inbound\<close>

text \<open>
  A type assertion \<open>in.(adapter.PIncrementalUserInbound)\<close> succeeds when the field is \<open>Some\<close>.
  An operation returns an error or none, and the new state of the inbound.
\<close>

record 'i incremental =
  inc_AddUsers :: "user_info list \<Rightarrow> node_info option \<Rightarrow> 'i \<Rightarrow> api_error option \<times> 'i"
  inc_RemoveUsers :: "string list \<Rightarrow> 'i \<Rightarrow> api_error option \<times> 'i"

record 'i inbound_ops =
  ib_incremental :: "'i incremental option"
  ib_RefreshUsers :: "(user_info list \<Rightarrow> node_info option \<Rightarrow> 'i \<Rightarrow> api_error option \<times> 'i) option"
  ib_Configure :: "(node_info option \<Rightarrow> 'i \<Rightarrow> api_error option \<times> 'i) option"


section \<open>Names and passwords\<close>

definition buildAnyTLSPassword :: "user_info \<Rightarrow> string" where
  "buildAnyTLSPassword user = (if ui_UUID user \<noteq> [] then ui_UUID user else ui_Passwd user)"

definition buildAnyTLSUsers :: "user_info list \<Rightarrow> (string \<times> string) list" where
  "buildAnyTLSUsers users = map (\<lambda>user. (user_name (ui_UID user), buildAnyTLSPassword user)) users"

definition buildHysteria2Password :: "user_info \<Rightarrow> string" where
  "buildHysteria2Password user = (if ui_UUID user \<noteq> [] then ui_UUID user else ui_Passwd user)"

definition buildHysteria2Users :: "user_info list \<Rightarrow> string list \<times> string list" where
  "buildHysteria2Users users =
     (map (\<lambda>user. user_name (ui_UID user)) users, map buildHysteria2Password users)"

definition buildNaivePassword :: "user_info \<Rightarrow> string" where
  "buildNaivePassword user = (if ui_UUID user \<noteq> [] then ui_UUID user else ui_Passwd user)"

definition buildNaiveUsers :: "user_info list \<Rightarrow> string list \<times> string list" where
  "buildNaiveUsers users =
     (map (\<lambda>user. user_name (ui_UID user)) users, map buildNaivePassword users)"

text \<open>The entries every inbound derives from a panel user list.\<close>

abbreviation panel_password :: "user_info \<Rightarrow> string" where
  "panel_password \<equiv> buildNaivePassword"

definition panel_entries :: "user_info list \<Rightarrow> (string \<times> string) list" where
  "panel_entries users = map (\<lambda>user. (user_name (ui_UID user), panel_password user)) users"

lemma passwords_agree:
  "buildAnyTLSPassword = panel_password" "buildHysteria2Password = panel_password"
  by (auto simp: buildAnyTLSPassword_def buildHysteria2Password_def buildNaivePassword_def)

lemma build_users_entries:
  "buildAnyTLSUsers us = panel_entries us"
  "(case buildHysteria2Users us of (ns, ps) \<Rightarrow> zip ns ps) = panel_entries us"
  "(case buildNaiveUsers us of (ns, ps) \<Rightarrow> zip ns ps) = panel_entries us"
  by (simp_all add: buildAnyTLSUsers_def buildHysteria2Users_def buildNaiveUsers_def
      panel_entries_def passwords_agree zip_map_map zip_same_conv_map)


section \<open>The naive user table\<close>

record user_table =
  tb_byPassword :: "(string, string) gomap"
  tb_byName :: "(string, string) gomap"

text \<open>The builders always pass as many passwords as names, so the paired loop over
  \<open>names[i]\<close>, \<open>passwords[i]\<close> is a loop over the zipped list.\<close>

definition table_replace :: "string list \<Rightarrow> string list \<Rightarrow> user_table \<Rightarrow> user_table" where
  "table_replace names passwords t =
     t\<lparr>tb_byPassword := fold (\<lambda>(name, password). gm_set password name) (zip names passwords) [],
       tb_byName := fold (\<lambda>(name, password). gm_set name password) (zip names passwords) []\<rparr>"

definition table_add1 :: "string \<times> string \<Rightarrow> user_table \<Rightarrow> user_table" where
  "table_add1 = (\<lambda>(name, password) t.
     (let byPassword = (case gm_get (tb_byName t) name of
            Some oldPassword \<Rightarrow>
              if oldPassword \<noteq> password then gm_del oldPassword (tb_byPassword t) else tb_byPassword t
          | None \<Rightarrow> tb_byPassword t);
          byName = (case gm_get byPassword password of
            Some oldName \<Rightarrow> if oldName \<noteq> name then gm_del oldName (tb_byName t) else tb_byName t
          | None \<Rightarrow> tb_byName t)
      in t\<lparr>tb_byPassword := gm_set password name byPassword, tb_byName := gm_set name password byName\<rparr>))"

definition table_add :: "string list \<Rightarrow> string list \<Rightarrow> user_table \<Rightarrow> user_table" where
  "table_add names passwords t =
     (if names = [] then t else fold table_add1 (zip names passwords) t)"

definition table_remove1 :: "string \<Rightarrow> user_table \<Rightarrow> user_table" where
  "table_remove1 name t =
     (case gm_get (tb_byName t) name of
        None \<Rightarrow> t
      | Some password \<Rightarrow> t\<lparr>tb_byPassword := gm_del password (tb_byPassword t),
                           tb_byName := gm_del name (tb_byName t)\<rparr>)"

definition table_remove :: "string list \<Rightarrow> user_table \<Rightarrow> user_table" where
  "table_remove names t = (if names = [] then t else fold table_remove1 names t)"

definition table_lookup :: "user_table \<Rightarrow> string \<Rightarrow> string option" where
  "table_lookup t password = gm_get (tb_byPassword t) password"

definition newUserTable :: "(string \<times> string) list \<Rightarrow> user_table" where
  "newUserTable users = table_add (map fst users) (map snd users) \<lparr>tb_byPassword = [], tb_byName = []\<rparr>"

definition naive_RefreshUsers :: "user_info list \<Rightarrow> user_table \<Rightarrow> user_table" where
  "naive_RefreshUsers users t = (case buildNaiveUsers users of (names, passwords) \<Rightarrow> table_replace names passwords t)"

definition naive_AddUsers :: "user_info list \<Rightarrow> user_table \<Rightarrow> user_table" where
  "naive_AddUsers users t = (case buildNaiveUsers users of (names, passwords) \<Rightarrow> table_add names passwords t)"

definition naive_RemoveUsers :: "string list \<Rightarrow> user_table \<Rightarrow> user_table" where
  "naive_RemoveUsers names t = table_remove names t"

text \<open>The two maps are inverse to each other.\<close>

definition table_inv :: "user_table \<Rightarrow> bool" where
  "table_inv t \<longleftrightarrow> gm_wf (tb_byPassword t) \<and> gm_wf (tb_byName t)
     \<and> (\<forall>n p. gm_get (tb_byName t) n = Some p \<longleftrightarrow> gm_get (tb_byPassword t) p = Some n)"

lemma table_invD:
  assumes "table_inv t"
  shows "gm_wf (tb_byPassword t)" "gm_wf (tb_byName t)"
    "gm_get (tb_byName t) n = Some p \<longleftrightarrow> gm_get (tb_byPassword t) p = Some n"
  using assms by (simp_all add: table_inv_def)

lemma table_inject:
  assumes "table_inv t" and "gm_get (tb_byPassword t) p = Some n" and "gm_get (tb_byPassword t) q = Some n"
  shows "p = q"
  using assms by (metis table_invD(3) option.inject)

lemma table_add1_wf:
  "gm_wf (tb_byPassword t) \<Longrightarrow> gm_wf (tb_byPassword (table_add1 np t))"
  "gm_wf (tb_byName t) \<Longrightarrow> gm_wf (tb_byName (table_add1 np t))"
  by (auto simp: table_add1_def Let_def go_wf split: prod.splits option.splits)

lemma table_add1_byPassword:
  assumes "table_inv t"
  shows "gm_get (tb_byPassword (table_add1 (n, p) t)) q =
    (if q = p then Some n else if gm_get (tb_byPassword t) q = Some n then None else gm_get (tb_byPassword t) q)"
  using table_invD(3) [OF assms, of n] table_inject [OF assms]
  by (auto simp: table_add1_def Let_def go_map_simps split: option.splits)

lemma table_add1_byName:
  assumes "table_inv t"
  shows "gm_get (tb_byName (table_add1 (n, p) t)) x =
    (if x = n then Some p else if gm_get (tb_byName t) x = Some p then None else gm_get (tb_byName t) x)"
  using table_invD(3) [OF assms, of n] table_invD(3) [OF assms, of x p]
  by (auto simp: table_add1_def Let_def go_map_simps split: option.splits if_splits)

lemma table_inv_add1:
  assumes "table_inv t"
  shows "table_inv (table_add1 np t)"
proof (cases np)
  case (Pair n p)
  then show ?thesis
    using assms table_invD [OF assms] table_inject [OF assms]
    by (auto simp: table_inv_def table_add1_wf table_add1_byPassword [OF assms] table_add1_byName [OF assms])
qed

lemma table_add_fold: "table_add names passwords = fold table_add1 (zip names passwords)"
  by (auto simp: table_add_def fun_eq_iff)

lemma table_inv_fold_add: "table_inv t \<Longrightarrow> table_inv (fold table_add1 nps t)"
  by (rule fold_invariant_set) (auto intro: table_inv_add1)

text \<open>
  Adding a batch with distinct names and distinct passwords: each of its users has its new
  password, and everybody else keeps theirs unless the batch takes it.
\<close>

lemma fold_table_add_byName:
  assumes "table_inv t" and "distinct (map fst nps)" and "distinct (map snd nps)"
  shows "gm_get (tb_byName (fold table_add1 nps t)) x =
    (case map_of nps x of
       Some p \<Rightarrow> Some p
     | None \<Rightarrow> (case gm_get (tb_byName t) x of
                  None \<Rightarrow> None
                | Some p \<Rightarrow> if p \<in> snd ` set nps then None else Some p))"
  using assms
proof (induction nps arbitrary: t)
  case Nil
  then show ?case by (simp split: option.splits)
next
  case (Cons np nps)
  obtain n p where np: "np = (n, p)" by (cases np)
  have inv': "table_inv (table_add1 np t)" by (rule table_inv_add1 [OF Cons.prems(1)])
  have p: "p \<notin> snd ` set nps" and n: "n \<notin> fst ` set nps" using Cons.prems(2,3) np by auto
  then have "map_of nps n = None" by (simp add: map_of_eq_None_iff)
  with Cons.IH [OF inv'] Cons.prems(2,3) p show ?case
    by (auto simp: np table_add1_byName [OF Cons.prems(1)] split: option.splits)
qed

lemma table_remove1_inv: "table_inv t \<Longrightarrow> table_inv (table_remove1 n t)"
  using table_inject [of t]
  by (auto simp: table_inv_def table_remove1_def go_wf go_map_simps split: option.splits)

lemma table_remove1_byName:
  "gm_get (tb_byName (table_remove1 n t)) x = (if x = n then None else gm_get (tb_byName t) x)"
  by (auto simp: table_remove1_def go_map_simps split: option.splits)

lemma table_remove_fold: "table_remove names = fold table_remove1 names"
  by (auto simp: table_remove_def fun_eq_iff)

lemma table_inv_remove: "table_inv t \<Longrightarrow> table_inv (table_remove names t)"
  unfolding table_remove_fold by (rule fold_invariant_set) (auto intro: table_remove1_inv)

lemma table_remove_byName:
  "gm_get (tb_byName (table_remove names t)) x = (if x \<in> set names then None else gm_get (tb_byName t) x)"
  unfolding table_remove_fold by (induction names arbitrary: t) (auto simp: table_remove1_byName)

lemma table_lookup_byName:
  "table_inv t \<Longrightarrow> table_lookup t p = Some n \<longleftrightarrow> gm_get (tb_byName t) n = Some p"
  by (simp add: table_lookup_def table_invD)

lemma table_inv_empty [simp]: "table_inv \<lparr>tb_byPassword = [], tb_byName = []\<rparr>"
  by (simp add: table_inv_def)

lemma table_inv_new [simp]: "table_inv (newUserTable users)"
  by (simp add: newUserTable_def table_add_fold table_inv_fold_add)


section \<open>The hysteria2 mirror\<close>

text \<open>The user operations of the QUIC service, a parameter.\<close>

record 's user_service =
  sv_UpdateUsers :: "string list \<Rightarrow> string list \<Rightarrow> 's \<Rightarrow> 's"
  sv_AddUsers :: "string list \<Rightarrow> string list \<Rightarrow> 's \<Rightarrow> 's"
  sv_RemoveUsers :: "string list \<Rightarrow> 's \<Rightarrow> 's"

record 's hy_users =
  hu_currentUsers :: "(string, string) gomap"
  hu_service :: 's

definition hy_RefreshUsers :: "'s user_service \<Rightarrow> user_info list \<Rightarrow> 's hy_users \<Rightarrow> 's hy_users" where
  "hy_RefreshUsers sv users h = (case buildHysteria2Users users of (names, passwords) \<Rightarrow>
     h\<lparr>hu_currentUsers := fold (\<lambda>(name, password). gm_set name password) (zip names passwords) [],
       hu_service := sv_UpdateUsers sv names passwords (hu_service h)\<rparr>)"

definition hy_AddUsers :: "'s user_service \<Rightarrow> user_info list \<Rightarrow> 's hy_users \<Rightarrow> 's hy_users" where
  "hy_AddUsers sv users h = (case buildHysteria2Users users of (names, passwords) \<Rightarrow>
     h\<lparr>hu_currentUsers := fold (\<lambda>(name, password). gm_set name password) (zip names passwords) (hu_currentUsers h),
       hu_service := sv_AddUsers sv names passwords (hu_service h)\<rparr>)"

definition hy_RemoveUsers :: "'s user_service \<Rightarrow> string list \<Rightarrow> 's hy_users \<Rightarrow> 's hy_users" where
  "hy_RemoveUsers sv names h =
     h\<lparr>hu_currentUsers := fold gm_del names (hu_currentUsers h),
       hu_service := sv_RemoveUsers sv names (hu_service h)\<rparr>"

text \<open>\<open>applyUsersLocked\<close>: the whole mirror pushed into a rebuilt service.\<close>

definition applyUsersLocked :: "'s user_service \<Rightarrow> (string, string) gomap \<Rightarrow> 's \<Rightarrow> 's" where
  "applyUsersLocked sv current service = sv_UpdateUsers sv (map fst current) (map snd current) service"


section \<open>The AnyTLS service\<close>

record 't anytls_service =
  at_UpdateUsers :: "(string \<times> string) list \<Rightarrow> 't \<Rightarrow> 't"
  at_AddUsers :: "(string \<times> string) list \<Rightarrow> 't \<Rightarrow> 't"
  at_RemoveUsers :: "string list \<Rightarrow> 't \<Rightarrow> 't"

definition any_RefreshUsers :: "'t anytls_service \<Rightarrow> user_info list \<Rightarrow> 't \<Rightarrow> 't" where
  "any_RefreshUsers sv users t = at_UpdateUsers sv (buildAnyTLSUsers users) t"

definition any_AddUsers :: "'t anytls_service \<Rightarrow> user_info list \<Rightarrow> 't \<Rightarrow> 't" where
  "any_AddUsers sv users t = at_AddUsers sv (buildAnyTLSUsers users) t"

definition any_RemoveUsers :: "'t anytls_service \<Rightarrow> string list \<Rightarrow> 't \<Rightarrow> 't" where
  "any_RemoveUsers sv names t = at_RemoveUsers sv names t"


section \<open>The contract with the controller\<close>

text \<open>
  What the controller assumes of an inbound's user table: \<open>table s\<close> is the password of each
  runtime name. A batch is admissible when its names and its passwords are distinct and no
  user outside it holds one of its passwords.
\<close>

definition fits :: "(string \<Rightarrow> string option) \<Rightarrow> (string \<times> string) list \<Rightarrow> bool" where
  "fits f es \<longleftrightarrow> distinct (map fst es) \<and> distinct (map snd es)
     \<and> (\<forall>x p. f x = Some p \<and> p \<in> snd ` set es \<longrightarrow> x \<in> fst ` set es)"

definition admissible :: "(string \<Rightarrow> string option) \<Rightarrow> user_info list \<Rightarrow> bool" where
  "admissible f us = fits f (panel_entries us)"

locale user_runtime =
  fixes table :: "'i \<Rightarrow> string \<Rightarrow> string option"
    and ok :: "'i \<Rightarrow> bool"
    and add :: "user_info list \<Rightarrow> 'i \<Rightarrow> 'i"
    and remove :: "string list \<Rightarrow> 'i \<Rightarrow> 'i"
    and refresh :: "user_info list \<Rightarrow> 'i \<Rightarrow> 'i"
  assumes add_ok: "ok s \<Longrightarrow> ok (add us s)"
    and remove_ok: "ok s \<Longrightarrow> ok (remove ns s)"
    and refresh_ok: "distinct (map fst (panel_entries us)) \<Longrightarrow> distinct (map snd (panel_entries us)) \<Longrightarrow>
      ok (refresh us s)"
    and add_table: "ok s \<Longrightarrow> admissible (table s) us \<Longrightarrow>
      table (add us s) x = (case map_of (panel_entries us) x of Some p \<Rightarrow> Some p | None \<Rightarrow> table s x)"
    and remove_table: "ok s \<Longrightarrow> table (remove ns s) x = (if x \<in> set ns then None else table s x)"
    and refresh_table: "distinct (map fst (panel_entries us)) \<Longrightarrow>
      table (refresh us s) x = map_of (panel_entries us) x"
begin

text \<open>Removing and then adding: the order in which the controller applies a delta.\<close>

lemma delta_table:
  assumes "ok s" and "admissible (\<lambda>x. if x \<in> set ns then None else table s x) us"
  shows "table (add us (remove ns s)) x =
    (case map_of (panel_entries us) x of
       Some p \<Rightarrow> Some p | None \<Rightarrow> if x \<in> set ns then None else table s x)"
proof -
  have "table (remove ns s) = (\<lambda>x. if x \<in> set ns then None else table s x)"
    using remove_table [OF assms(1)] by auto
  with assms show ?thesis by (simp add: add_table remove_ok split: option.splits)
qed

text \<open>Applying the same delta again changes nothing: a retry converges.\<close>

lemma delta_idem:
  assumes "ok s" and adm: "admissible (\<lambda>x. if x \<in> set ns then None else table s x) us"
    and disj: "set ns \<inter> fst ` set (panel_entries us) = {}"
  shows "table (add us (remove ns (add us (remove ns s)))) = table (add us (remove ns s))"
proof -
  let ?s1 = "add us (remove ns s)"
  have ok1: "ok ?s1" by (intro add_ok remove_ok assms(1))
  have "admissible (\<lambda>x. if x \<in> set ns then None else table ?s1 x) us"
    using adm unfolding admissible_def fits_def delta_table [OF assms(1) adm]
    by (auto split: option.splits if_splits simp: map_of_eq_None_iff dest!: map_of_SomeD)
       (metis image_eqI fst_conv)
  from delta_table [OF ok1 this] show ?thesis
    using delta_table [OF assms(1) adm] by (auto simp: fun_eq_iff split: option.splits)
qed

end

lemma naive_add_table:
  assumes "table_inv t" and "admissible (gm_get (tb_byName t)) us"
  shows "gm_get (tb_byName (naive_AddUsers us t)) x =
    (case map_of (panel_entries us) x of Some p \<Rightarrow> Some p | None \<Rightarrow> gm_get (tb_byName t) x)"
proof -
  have "zip (fst (buildNaiveUsers us)) (snd (buildNaiveUsers us)) = panel_entries us"
    using build_users_entries(3) [of us] by (simp add: split_beta)
  then have eq: "naive_AddUsers us t = fold table_add1 (panel_entries us) t"
    by (simp add: naive_AddUsers_def table_add_fold split_beta)
  then show ?thesis
  proof (cases "gm_get (panel_entries us) x")
    case None
    then have "x \<notin> fst ` set (panel_entries us)" by (simp add: map_of_eq_None_iff)
    with assms(2) have "gm_get (tb_byName t) x = Some p \<Longrightarrow> p \<notin> snd ` set (panel_entries us)" for p
      by (metis admissible_def fits_def)
    with None eq assms show ?thesis
      by (auto simp: admissible_def fits_def fold_table_add_byName split: option.splits)
  next
    case (Some p)
    with eq assms show ?thesis by (simp add: admissible_def fits_def fold_table_add_byName)
  qed
qed

lemma map_of_rev_distinct: "distinct (map fst ps) \<Longrightarrow> map_of (rev ps) = map_of ps"
  by (simp add: map_of_inject_set rev_map [symmetric])

lemma fold_set_map_of:
  "distinct (map fst ps) \<Longrightarrow> gm_get (fold (\<lambda>(k, v). gm_set k v) ps m) x =
     (case map_of ps x of Some v \<Rightarrow> Some v | None \<Rightarrow> gm_get m x)"
  by (simp add: gm.get_fold_put map_of_rev_distinct)

lemma naive_build_zip:
  "zip (fst (buildNaiveUsers us)) (snd (buildNaiveUsers us)) = panel_entries us"
  using build_users_entries(3) [of us] by (simp add: split_beta)

lemma hysteria2_build_zip:
  "zip (fst (buildHysteria2Users us)) (snd (buildHysteria2Users us)) = panel_entries us"
  using build_users_entries(2) [of us] by (simp add: split_beta)

lemma naive_refresh_maps:
  "tb_byName (naive_RefreshUsers us t) = fold (\<lambda>(n, p). gm_set n p) (panel_entries us) []"
  "tb_byPassword (naive_RefreshUsers us t) = fold (\<lambda>(p, n). gm_set p n) (map prod.swap (panel_entries us)) []"
  by (simp_all add: naive_RefreshUsers_def table_replace_def split_beta naive_build_zip fold_map comp_def
      case_prod_unfold)

lemma map_of_swap:
  assumes "distinct (map fst es)" and "distinct (map snd es)"
  shows "map_of (map prod.swap es) p = Some n \<longleftrightarrow> map_of es n = Some p"
proof -
  have "distinct (map fst (map prod.swap es))" using assms(2) by (simp add: comp_def)
  then show ?thesis using assms(1) by (force simp: map_of_eq_Some_iff)
qed

lemma naive_refresh_inv:
  assumes "distinct (map fst (panel_entries us))" and "distinct (map snd (panel_entries us))"
  shows "table_inv (naive_RefreshUsers us t)"
proof -
  have d: "distinct (map fst (map prod.swap (panel_entries us)))" using assms(2) by (simp add: comp_def)
  have n: "gm_get (tb_byName (naive_RefreshUsers us t)) x = map_of (panel_entries us) x" for x
    by (simp add: naive_refresh_maps fold_set_map_of [OF assms(1)] split: option.splits)
  have p: "gm_get (tb_byPassword (naive_RefreshUsers us t)) x = map_of (map prod.swap (panel_entries us)) x" for x
    by (simp add: naive_refresh_maps fold_set_map_of [OF d] split: option.splits)
  show ?thesis
    unfolding table_inv_def n p map_of_swap [OF assms] by (simp add: naive_refresh_maps go_wf)
qed

interpretation nv: user_runtime "\<lambda>t. gm_get (tb_byName t)" table_inv naive_AddUsers naive_RemoveUsers naive_RefreshUsers
proof unfold_locales
  fix us :: "user_info list" and ns :: "string list" and s x
  show "table_inv s \<Longrightarrow> table_inv (naive_AddUsers us s)"
    by (simp add: naive_AddUsers_def table_add_fold table_inv_fold_add split: prod.splits)
  show "table_inv s \<Longrightarrow> table_inv (naive_RemoveUsers ns s)"
    by (simp add: naive_RemoveUsers_def table_inv_remove)
  show "distinct (map fst (panel_entries us)) \<Longrightarrow>
      gm_get (tb_byName (naive_RefreshUsers us s)) x = map_of (panel_entries us) x"
    by (simp add: naive_refresh_maps fold_set_map_of split: option.splits)
qed (simp_all add: naive_refresh_inv naive_add_table naive_RemoveUsers_def table_remove_byName)

lemma hy_maps:
  "hu_currentUsers (hy_AddUsers sv us h) = fold (\<lambda>(n, p). gm_set n p) (panel_entries us) (hu_currentUsers h)"
  "hu_currentUsers (hy_RefreshUsers sv us h) = fold (\<lambda>(n, p). gm_set n p) (panel_entries us) []"
  "hu_currentUsers (hy_RemoveUsers sv ns h) = fold gm_del ns (hu_currentUsers h)"
  by (simp_all add: hy_AddUsers_def hy_RemoveUsers_def hy_RefreshUsers_def split_beta hysteria2_build_zip)

interpretation hy: user_runtime "\<lambda>h. gm_get (hu_currentUsers h)" "\<lambda>h. gm_wf (hu_currentUsers h)"
  "hy_AddUsers sv" "hy_RemoveUsers sv" "hy_RefreshUsers sv" for sv
  by unfold_locales
     (simp_all add: hy_maps admissible_def fits_def fold_set_map_of go_wf gm.get_fold_del split: option.splits)


section \<open>Properties\<close>

text \<open>C7. A delta of the controller applied to the naive table, removals first: the two maps
  stay inverse, and the passwords that authenticate are exactly those of the batch plus those of
  the users that are neither removed nor in the batch.\<close>

theorem naive_delta_lookup:
  assumes "table_inv t"
    and "admissible (\<lambda>x. if x \<in> set ns then None else gm_get (tb_byName t) x) us"
  shows "table_inv (naive_AddUsers us (naive_RemoveUsers ns t)) \<and>
    (table_lookup (naive_AddUsers us (naive_RemoveUsers ns t)) p = Some n \<longleftrightarrow>
       (n, p) \<in> set (panel_entries us) \<or>
       n \<notin> fst ` set (panel_entries us) \<and> n \<notin> set ns \<and> table_lookup t p = Some n)"
proof -
  have inv: "table_inv (naive_AddUsers us (naive_RemoveUsers ns t))"
    by (intro nv.add_ok nv.remove_ok assms(1))
  have d: "distinct (map fst (panel_entries us))" using assms(2) by (simp add: admissible_def fits_def)
  from inv d show ?thesis
    by (auto simp: table_lookup_byName [OF inv] table_lookup_byName [OF assms(1)] nv.delta_table [OF assms]
        map_of_eq_None_iff rev_image_eqI intro: eq_key_imp_eq_value [OF d] split: option.splits)
qed

definition example_panel_user :: "int \<Rightarrow> string \<Rightarrow> user_info" where
  "example_panel_user uid uuid =
     \<lparr>ui_UID = uid, ui_Email = ''e'', ui_UUID = uuid, ui_Passwd = ''pw'', ui_Port = 0, ui_AlterID = 0,
      ui_Flow = [], ui_Method = [], ui_SpeedLimit = 0, ui_DeviceLimit = 0\<rparr>"

text \<open>Witness of C7: user 1 leaves, user 2 rotates its password and user 3 joins.\<close>

theorem naive_delta_lookup_witness:
  "table_lookup (naive_AddUsers [example_panel_user 2 ''B2'', example_panel_user 3 ''C'']
      (naive_RemoveUsers [''u1''] (newUserTable [(''u1'', ''A''), (''u2'', ''B'')]))) ''C'' = Some ''u3''"
proof -
  let ?us = "[example_panel_user 2 ''B2'', example_panel_user 3 ''C'']"
  let ?t = "newUserTable [(''u1'', ''A''), (''u2'', ''B'')]"
  have e: "panel_entries ?us = [(''u2'', ''B2''), (''u3'', ''C'')]" by code_simp
  have t: "tb_byName ?t = [(''u1'', ''A''), (''u2'', ''B'')]" by code_simp
  have "admissible (\<lambda>x. if x \<in> set [''u1''] then None else gm_get (tb_byName ?t) x) ?us"
    unfolding admissible_def fits_def e t by (auto split: if_splits)
  from naive_delta_lookup [OF table_inv_new this, of "''C''" "''u3''"] show ?thesis by (simp add: e)
qed

text \<open>Two panel users with one password (the panel sends no UUID and equal passwords): after a
  full refresh the password authenticates the later one only, and removing that one locks the
  other out although its entry is still in the table.\<close>

theorem shared_password_lockout:
  "let t' = table_replace [''u1'', ''u2''] [p, p] t
   in table_lookup t' p = Some ''u2'' \<and> table_lookup (table_remove [''u2''] t') p = None
      \<and> gm_get (tb_byName (table_remove [''u2''] t')) ''u1'' = Some p \<and> \<not> table_inv t'"
  by (simp add: table_replace_def table_lookup_def table_remove_def table_remove1_def table_inv_def
      gm_get_set gm_get_del)

text \<open>
  The QUIC service is code of sing-quic: what the inbound relies on is that its user table, read
  with \<open>tab\<close>, follows the three operations for batches that fit it.
\<close>

definition service_laws :: "'s user_service \<Rightarrow> ('s \<Rightarrow> string \<Rightarrow> string option) \<Rightarrow> bool" where
  "service_laws sv tab \<longleftrightarrow>
     (\<forall>es s x. distinct (map fst es) \<and> distinct (map snd es) \<longrightarrow>
        tab (sv_UpdateUsers sv (map fst es) (map snd es) s) x = map_of es x) \<and>
     (\<forall>es s x. fits (tab s) es \<longrightarrow>
        tab (sv_AddUsers sv (map fst es) (map snd es) s) x =
          (case map_of es x of Some p \<Rightarrow> Some p | None \<Rightarrow> tab s x)) \<and>
     (\<forall>ns s x. tab (sv_RemoveUsers sv ns s) x = (if x \<in> set ns then None else tab s x))"

text \<open>What happens to the users of a hysteria2 inbound: the three panel operations, and a hot
  reload that installs a fresh service and pushes the mirror into it.\<close>

datatype 's hy_op = HRefresh "user_info list" | HAdd "user_info list" | HRemove "string list" | HRebuild 's

fun hy_apply :: "'s user_service \<Rightarrow> 's hy_op \<Rightarrow> 's hy_users \<Rightarrow> 's hy_users" where
  "hy_apply sv (HRefresh us) h = hy_RefreshUsers sv us h"
| "hy_apply sv (HAdd us) h = hy_AddUsers sv us h"
| "hy_apply sv (HRemove ns) h = hy_RemoveUsers sv ns h"
| "hy_apply sv (HRebuild fresh) h = h\<lparr>hu_service := applyUsersLocked sv (hu_currentUsers h) fresh\<rparr>"

text \<open>The batches of a run fit the mirror they meet (the panel's passwords are unique).\<close>

fun hy_op_fits :: "'s hy_op \<Rightarrow> 's hy_users \<Rightarrow> bool" where
  "hy_op_fits (HRefresh us) h = fits (\<lambda>_. None) (panel_entries us)"
| "hy_op_fits (HAdd us) h = fits (gm_get (hu_currentUsers h)) (panel_entries us)"
| "hy_op_fits _ h = True"

fun hy_run_fits :: "'s user_service \<Rightarrow> 's hy_op list \<Rightarrow> 's hy_users \<Rightarrow> bool" where
  "hy_run_fits sv [] h = True"
| "hy_run_fits sv (op # ops) h =
     (hy_op_fits op h \<and> hy_run_fits sv ops (hy_apply sv op h))"

definition mirror_ok :: "('s \<Rightarrow> string \<Rightarrow> string option) \<Rightarrow> 's hy_users \<Rightarrow> bool" where
  "mirror_ok tab h \<longleftrightarrow> gm_wf (hu_currentUsers h) \<and> inj_on (gm_get (hu_currentUsers h)) (dom (gm_get (hu_currentUsers h)))
     \<and> tab (hu_service h) = gm_get (hu_currentUsers h)"

lemma inj_on_map_of:
  "distinct (map fst es) \<Longrightarrow> distinct (map snd es) \<Longrightarrow> inj_on (map_of es) (dom (map_of es))"
  by (rule inj_onI) (metis (no_types, lifting) domD map_of_swap option.inject)

lemma distinct_snd_mirror:
  assumes "gm_wf m" and "inj_on (gm_get m) (dom (gm_get m))"
  shows "distinct (map snd m)"
  unfolding distinct_map
proof
  show "distinct m" using assms(1) by (auto simp: gm_wf_def distinct_map)
  show "inj_on snd (set m)"
  proof (rule inj_onI)
    fix a b assume ab: "a \<in> set m" "b \<in> set m" "snd a = snd b"
    then have "gm_get m (fst a) = Some (snd a)" "gm_get m (fst b) = Some (snd b)"
      by (metis assms(1) gm_wf_get prod.collapse)+
    with ab(3) assms(2) have "fst a = fst b" by (metis domI inj_onD)
    with ab(3) show "a = b" by (simp add: prod_eq_iff)
  qed
qed

lemma build_lists:
  "buildHysteria2Users us = (map fst (panel_entries us), map snd (panel_entries us))"
  by (simp add: buildHysteria2Users_def panel_entries_def passwords_agree comp_def)

lemma inj_on_fits:
  assumes "inj_on f (dom f)" and "fits f es"
  shows "inj_on (\<lambda>x. case map_of es x of Some p \<Rightarrow> Some p | None \<Rightarrow> f x)
           (dom (\<lambda>x. case map_of es x of Some p \<Rightarrow> Some p | None \<Rightarrow> f x))"
proof (rule inj_onI)
  fix x y
  let ?g = "\<lambda>x. case map_of es x of Some p \<Rightarrow> Some p | None \<Rightarrow> f x"
  assume "x \<in> dom ?g" "y \<in> dom ?g" and eq: "?g x = ?g y"
  then obtain p where p: "?g x = Some p" "?g y = Some p" by (metis domD)
  have d: "distinct (map fst es)" "distinct (map snd es)" using assms(2) by (simp_all add: fits_def)
  have out: False if "map_of es a = Some p" "map_of es b = None" "f b = Some p" for a b
    using that assms(2) by (metis fits_def map_of_SomeD map_of_eq_None_iff image_eqI snd_conv)
  show "x = y"
  proof (cases "map_of es x"; cases "map_of es y")
    assume "map_of es x = None" "map_of es y = None"
    with p assms(1) show ?thesis by (simp add: inj_on_def domI)
  next
    fix a b assume "map_of es x = Some a" "map_of es y = Some b"
    with p show ?thesis by (metis map_of_swap [OF d] option.case(2) option.inject)
  qed (use p out in auto)
qed

lemma mirror_step:
  assumes "service_laws sv tab" and "mirror_ok tab h" and "hy_op_fits op h"
  shows "mirror_ok tab (hy_apply sv op h)"
proof -
  let ?m = "hu_currentUsers h"
  note m = assms(2) [unfolded mirror_ok_def]
  show ?thesis
  proof (cases op)
    case (HRefresh us)
    then have d: "distinct (map fst (panel_entries us))" "distinct (map snd (panel_entries us))"
      using assms(3) by (simp_all add: fits_def)
    have "gm_get (hu_currentUsers (hy_RefreshUsers sv us h)) = map_of (panel_entries us)"
      using hy.refresh_table [OF d(1)] by (rule ext)
    with assms(1) d HRefresh show ?thesis
      by (simp add: mirror_ok_def inj_on_map_of hy.refresh_ok fun_eq_iff)
         (simp add: hy_RefreshUsers_def build_lists service_laws_def)
  next
    case (HAdd us)
    then have f: "fits (gm_get ?m) (panel_entries us)" using assms(3) by simp
    then have t: "gm_get (hu_currentUsers (hy_AddUsers sv us h)) =
        (\<lambda>x. case map_of (panel_entries us) x of Some p \<Rightarrow> Some p | None \<Rightarrow> gm_get ?m x)"
      using m by (intro ext hy.add_table) (simp_all add: admissible_def)
    have "tab (sv_AddUsers sv (map fst (panel_entries us)) (map snd (panel_entries us)) (hu_service h)) =
        (\<lambda>x. case map_of (panel_entries us) x of Some p \<Rightarrow> Some p | None \<Rightarrow> gm_get ?m x)"
    proof
      fix x
      have eq: "tab (hu_service h) = gm_get ?m" using m by simp
      then have "fits (tab (hu_service h)) (panel_entries us)" using f by simp
      then show "tab (sv_AddUsers sv (map fst (panel_entries us)) (map snd (panel_entries us)) (hu_service h)) x =
          (case map_of (panel_entries us) x of Some p \<Rightarrow> Some p | None \<Rightarrow> gm_get ?m x)"
        using assms(1) unfolding service_laws_def eq [symmetric] by blast
    qed
    with t inj_on_fits [OF _ f] m HAdd show ?thesis
      by (simp add: mirror_ok_def hy.add_ok) (simp add: hy_AddUsers_def build_lists)
  next
    case (HRemove ns)
    have t: "gm_get (hu_currentUsers (hy_RemoveUsers sv ns h)) = (\<lambda>x. if x \<in> set ns then None else gm_get ?m x)"
      using m by (intro ext hy.remove_table) simp
    have "tab (sv_RemoveUsers sv ns (hu_service h)) = (\<lambda>x. if x \<in> set ns then None else tab (hu_service h) x)"
      using assms(1) by (auto simp: service_laws_def)
    with m HRemove t show ?thesis
      by (auto simp: mirror_ok_def hy.remove_ok inj_on_def dom_def split: if_splits)
         (auto simp: hy_RemoveUsers_def)
  next
    case (HRebuild fresh)
    have "distinct (map fst ?m)" "distinct (map snd ?m)"
      using m by (simp_all add: distinct_snd_mirror) (simp add: gm_wf_def)
    with assms(1) m HRebuild show ?thesis
      by (simp add: mirror_ok_def applyUsersLocked_def service_laws_def fun_eq_iff)
  qed
qed

text \<open>C8. As long as names and passwords are unique (within each list the panel sends, and among the users an addition
  meets: \<open>hy_run_fits\<close>), the hysteria2 mirror does not diverge from the QUIC service: after any such sequence of user
  deltas and hot reloads the users the service authenticates are the ones in \<open>currentUsers\<close>, so a rebuilt service
  loses nobody. Without unique passwords it does diverge, as \<open>shared_password_diverges\<close> shows.\<close>

theorem hysteria2_mirror_in_sync:
  assumes "service_laws sv tab" and "mirror_ok tab h" and "hy_run_fits sv ops h"
  shows "tab (hu_service (fold (hy_apply sv) ops h)) = gm_get (hu_currentUsers (fold (hy_apply sv) ops h))"
proof -
  have "mirror_ok tab (fold (hy_apply sv) ops h)"
    using assms(2,3) by (induction ops arbitrary: h) (auto intro: mirror_step [OF assms(1)])
  then show ?thesis by (simp add: mirror_ok_def)
qed

definition example_service :: "(string, string) gomap user_service" where
  "example_service =
     \<lparr>sv_UpdateUsers = \<lambda>ns ps s. zip ns ps,
      sv_AddUsers = \<lambda>ns ps s. fold (\<lambda>(n, p). gm_set n p) (zip ns ps) s,
      sv_RemoveUsers = \<lambda>ns s. fold gm_del ns s\<rparr>"

lemma example_service_laws: "service_laws example_service gm_get"
  by (simp add: service_laws_def example_service_def zip_map_fst_snd fits_def fold_set_map_of gm.get_fold_del
      split: option.splits)

text \<open>A service that is keyed by the password keeps one name of a shared password; the mirror keeps both.\<close>

definition keyed_service :: "(string, string) gomap user_service" where
  "keyed_service =
     \<lparr>sv_UpdateUsers = \<lambda>ns ps s. fold (\<lambda>(n, p). gm_set p n) (zip ns ps) [],
      sv_AddUsers = \<lambda>ns ps s. fold (\<lambda>(n, p). gm_set p n) (zip ns ps) s,
      sv_RemoveUsers = \<lambda>ns s. filter (\<lambda>(_, n). n \<notin> set ns) s\<rparr>"

lemma shared_password_diverges:
  "let h = fold (hy_apply keyed_service) [HRefresh [example_panel_user 1 ''A''], HAdd [example_panel_user 2 ''A'']]
       \<lparr>hu_currentUsers = [], hu_service = []\<rparr>
   in hu_currentUsers h = [(''u1'', ''A''), (''u2'', ''A'')] \<and> hu_service h = [(''A'', ''u2'')]
      \<and> hu_service (hy_apply keyed_service (HRemove [''u2'']) h) = []
      \<and> hu_currentUsers (hy_apply keyed_service (HRemove [''u2'']) h) = [(''u1'', ''A'')]"
  by code_simp

text \<open>Witness of C8: a refresh, a reload, a delta and a second reload.\<close>

theorem hysteria2_mirror_in_sync_witness:
  "gm_get (hu_service (fold (hy_apply example_service)
      [HRefresh [example_panel_user 1 ''A'', example_panel_user 2 ''B''], HRebuild [],
       HRemove [''u1''], HAdd [example_panel_user 2 ''A''], HRebuild [(''x'', ''y'')]]
      \<lparr>hu_currentUsers = [], hu_service = []\<rparr>)) =
   gm_get (hu_currentUsers (fold (hy_apply example_service)
      [HRefresh [example_panel_user 1 ''A'', example_panel_user 2 ''B''], HRebuild [],
       HRemove [''u1''], HAdd [example_panel_user 2 ''A''], HRebuild [(''x'', ''y'')]]
      \<lparr>hu_currentUsers = [], hu_service = []\<rparr>))"
proof (rule hysteria2_mirror_in_sync [OF example_service_laws])
  show "mirror_ok gm_get \<lparr>hu_currentUsers = [], hu_service = []\<rparr>" by (simp add: mirror_ok_def)
  have e: "panel_entries [example_panel_user 1 ''A'', example_panel_user 2 ''B''] = [(''u1'', ''A''), (''u2'', ''B'')]"
    "panel_entries [example_panel_user 2 ''A''] = [(''u2'', ''A'')]" by code_simp+
  show "hy_run_fits example_service
      [HRefresh [example_panel_user 1 ''A'', example_panel_user 2 ''B''], HRebuild [],
       HRemove [''u1''], HAdd [example_panel_user 2 ''A''], HRebuild [(''x'', ''y'')]]
      \<lparr>hu_currentUsers = [], hu_service = []\<rparr>"
    by (simp add: fits_def e hy_maps gm_get_del gm_get_set)
qed

end
