(* ===== verification/Controller_Sync.thy ===== *)
theory Controller_Sync
  imports Authenticator Inbound_Users "HOL-Library.Extended_Nat"
begin

text \<open>
  \<^verbatim>\<open>poet/controller/control.go\<close> and \<^verbatim>\<open>userbuilder.go\<close>: the controller's state, the user diff
  and the synchronisation of the panel's user list with the protocol runtime and the
  authenticator, the speed and device limits and the counters a routed connection gets. The
  panel client, the inbound and the token bucket are the operations of \<open>deps\<close> over states
  the controller carries.

  The calls of \<open>syncUserList\<close> run on the monitor goroutine only; a call is one function on the
  controller state. \<open>c.log\<close> reads \<open>c.nodeInfo.NodeID\<close>, so a log line panics while the node
  information is nil: \<open>logged\<close> is that check.
\<close>

section \<open>State\<close>

record ctl_config =
  cc_PanelType :: string
  cc_UpdatePeriodic :: int
  cc_ListenIP :: string
  cc_SendIP :: string
  cc_EnableDeviceLimit :: bool

type_synonym users_map = "(string, user_info option) gomap"

record ('w, 'i, 'l) controller =
  c_config :: ctl_config
  c_clientInfo :: client_info
  c_api :: 'w
  c_nodeInfo :: "node_info option"
  c_Tag :: string
  c_usersMap :: users_map
  c_tasks :: "string list"
  c_panelType :: string
  c_startAt :: int
  c_inbound :: 'i
  c_author :: "'l auth"
  c_detectRules :: "detect_rule list option"
  c_detectResults :: "detect_result list"
  c_detectDedup :: "(int \<times> int, int) gomap"
  c_detectGetWarns :: int
  c_reloadPending :: bool
  c_userSyncPending :: bool
  c_lastUserList :: "user_info list"
  c_env :: string

record ('w, 'i, 'l) deps =
  d_api :: "'w api"
  d_ops :: "'i inbound_ops"
  d_rate :: "'l rate_api"

text \<open>\<open>New\<close>: an empty users map and authenticator, everything else at its zero value.\<close>

definition NewController :: "ctl_config \<Rightarrow> 'i \<Rightarrow> 'w \<Rightarrow> int \<Rightarrow> ('w, 'i, 'l) controller" where
  "NewController config inbound apiClient now =
     \<lparr>c_config = config,
      c_clientInfo = \<lparr>ci_APIHost = [], ci_NodeID = 0, ci_Key = [], ci_NodeType = []\<rparr>,
      c_api = apiClient, c_nodeInfo = None, c_Tag = [], c_usersMap = [], c_tasks = [],
      c_panelType = cc_PanelType config, c_startAt = now, c_inbound = inbound, c_author = NewAuthenticator,
      c_detectRules = None, c_detectResults = [], c_detectDedup = [], c_detectGetWarns = 0,
      c_reloadPending = False, c_userSyncPending = False, c_lastUserList = [], c_env = []\<rparr>"

type_synonym ('w, 'i, 'l) outcome = "(api_error, unit) res \<times> ('w, 'i, 'l) controller"

definition logged :: "('w, 'i, 'l) controller \<Rightarrow> ('w, 'i, 'l) outcome \<Rightarrow> ('w, 'i, 'l) outcome" where
  "logged c k = (case c_nodeInfo c of None \<Rightarrow> (Panic, c) | Some _ \<Rightarrow> k)"


section \<open>The user diff\<close>

definition buildUserHash :: "string \<Rightarrow> user_info \<Rightarrow> string" where
  "buildUserHash panelType user =
     (if panelType = ''SSpanel'' then user_name (ui_UID user) else ui_UUID user)"

definition userMaterialChanged :: "user_info \<Rightarrow> user_info \<Rightarrow> bool" where
  "userMaterialChanged a b \<longleftrightarrow> ui_UUID a \<noteq> ui_UUID b \<or> ui_Passwd a \<noteq> ui_Passwd b \<or> ui_Email a \<noteq> ui_Email b
     \<or> ui_Port a \<noteq> ui_Port b \<or> ui_SpeedLimit a \<noteq> ui_SpeedLimit b \<or> ui_DeviceLimit a \<noteq> ui_DeviceLimit b"

definition diff_user :: "users_map \<Rightarrow> (user_info \<Rightarrow> string) \<Rightarrow> user_info \<Rightarrow>
    users_map \<times> string list \<times> string list \<Rightarrow> users_map \<times> string list \<times> string list" where
  "diff_user old hashFn u = (\<lambda>(nxt, added, changed).
     (let hash = hashFn u
      in if gm_has nxt hash then (nxt, added, changed)
         else (gm_set hash (Some u) nxt,
               case gm_get old hash of None \<Rightarrow> added @ [hash] | Some _ \<Rightarrow> added,
               case gm_get old hash of
                 None \<Rightarrow> changed
               | Some None \<Rightarrow> changed @ [hash]
               | Some (Some oldUser) \<Rightarrow> if userMaterialChanged oldUser u then changed @ [hash] else changed)))"

definition diffUsers :: "users_map \<Rightarrow> user_info list \<Rightarrow> (user_info \<Rightarrow> string) \<Rightarrow>
    users_map \<times> string list \<times> string list \<times> string list" where
  "diffUsers old newList hashFn =
     (case fold (diff_user old hashFn) newList ([], [], []) of
        (nxt, added, changed) \<Rightarrow>
          (nxt, added, filter (\<lambda>hash. \<not> gm_has nxt hash) (gm_keys old), changed))"

definition usersFromMap :: "users_map \<Rightarrow> user_info list" where
  "usersFromMap users = List.map_filter snd users"

definition usersForHashes :: "users_map \<Rightarrow> string list \<Rightarrow> user_info list" where
  "usersForHashes users hashes =
     List.map_filter (\<lambda>hash. case gm_get users hash of None \<Rightarrow> None | Some user \<Rightarrow> user) hashes"


section \<open>Runtime users, traffic of deleted users, limits\<close>

definition applyRuntimeUserDelta :: "'i inbound_ops \<Rightarrow> node_info option \<Rightarrow> string list \<Rightarrow>
    user_info list \<Rightarrow> user_info list \<Rightarrow> 'i \<Rightarrow> api_error option \<times> 'i" where
  "applyRuntimeUserDelta ops nodeInfo deleted deltaAddedChangedUsers runtimeUsers i =
     (case ib_incremental ops of
        Some incremental \<Rightarrow>
          (case (if deleted \<noteq> [] then inc_RemoveUsers incremental deleted i else (None, i)) of
             (Some e, i') \<Rightarrow> (Some e, i')
           | (None, i') \<Rightarrow>
               if deltaAddedChangedUsers \<noteq> [] then inc_AddUsers incremental deltaAddedChangedUsers nodeInfo i'
               else (None, i'))
      | None \<Rightarrow>
          (case ib_RefreshUsers ops of
             None \<Rightarrow> (Some NoUserRefresh, i)
           | Some refresh \<Rightarrow> refresh runtimeUsers nodeInfo i))"

definition trafficForSSPanel :: "int64 \<Rightarrow> int64 \<Rightarrow> int64 \<times> int64" where
  "trafficForSSPanel sent recv = (sent, recv)"

definition dump_user :: "string \<Rightarrow> user_traffic list \<times> 'l auth \<Rightarrow> user_traffic list \<times> 'l auth" where
  "dump_user hash = (\<lambda>(report, author).
     (case LoadUser author hash of
        None \<Rightarrow> (report, author)
      | Some a \<Rightarrow>
          (let u = a_heap author ! a; (sent, recv) = fst (ResetTraffic u);
               author' = upd_user a (\<lambda>u. snd (ResetTraffic u)) author
           in if sent = 0 \<and> recv = 0 then (report, author')
              else (let (up, down) = trafficForSSPanel sent recv
                    in (report @ [\<lparr>ut_UID = u_UID u, ut_Email = u_Email u, ut_Upload = up, ut_Download = down\<rparr>],
                        author')))))"

definition dumpTrafficForDeleted ::
  "('w, 'i, 'l) deps \<Rightarrow> string list \<Rightarrow> ('w, 'i, 'l) controller \<Rightarrow> ('w, 'i, 'l) outcome" where
  "dumpTrafficForDeleted d deleted c =
     (case fold dump_user deleted ([], c_author c) of
        (report, author) \<Rightarrow>
          (let c' = c\<lparr>c_author := author\<rparr>
           in if report = [] then (Ok (), c')
              else logged c' (case ReportUserTraffic (d_api d) report (c_api c') of
                                (r, w) \<Rightarrow> (r, c'\<lparr>c_api := w\<rparr>))))"

definition determineRate :: "uint64 \<Rightarrow> uint64 \<Rightarrow> uint64" where
  "determineRate nodeLimit userLimit =
     (if nodeLimit = 0 \<or> userLimit = 0 then if userLimit < nodeLimit then nodeLimit else userLimit
      else if nodeLimit < userLimit then nodeLimit else userLimit)"

definition ApplyUserLimits ::
  "('w, 'i, 'l) deps \<Rightarrow> string \<Rightarrow> user_info \<Rightarrow> ('w, 'i, 'l) controller \<Rightarrow> ('w, 'i, 'l) controller" where
  "ApplyUserLimits d hash info c =
     (let nodeLimit = (case c_nodeInfo c of None \<Rightarrow> 0 | Some ni \<Rightarrow> ni_SpeedLimit ni);
          author1 = snd (SetUserSpeedLimit (d_rate d) hash (determineRate nodeLimit (ui_SpeedLimit info)) (c_author c));
          author2 = (if cc_EnableDeviceLimit (c_config c)
                     then snd (SetUserDeviceLimit hash (ui_DeviceLimit info) author1) else author1)
      in c\<lparr>c_author := author2\<rparr>)"

definition refreshAllSpeedLimits ::
  "('w, 'i, 'l) deps \<Rightarrow> ('w, 'i, 'l) controller \<Rightarrow> ('w, 'i, 'l) controller" where
  "refreshAllSpeedLimits d c =
     fold (\<lambda>(hash, u) c'. case u of None \<Rightarrow> c' | Some info \<Rightarrow> ApplyUserLimits d hash info c') (c_usersMap c) c"


section \<open>Synchronisation\<close>

definition refresh_author ::
  "('w, 'i, 'l) deps \<Rightarrow> users_map \<Rightarrow> string \<Rightarrow> ('w, 'i, 'l) controller \<Rightarrow> ('w, 'i, 'l) controller" where
  "refresh_author d nextMap hash c =
     (case gm_get nextMap hash of
        Some (Some u) \<Rightarrow>
          ApplyUserLimits d hash u
            (c\<lparr>c_author := SetUserAliases hash [ui_UUID u, ui_Passwd u, ui_Email u]
                             (SetUserProfile hash u (c_author c))\<rparr>)
      | _ \<Rightarrow> c)"

definition add_author :: "users_map \<Rightarrow> string \<Rightarrow> 'l auth \<Rightarrow> 'l auth" where
  "add_author nextMap hash a =
     (case gm_get nextMap hash of Some (Some u) \<Rightarrow> snd (AddUser hash (ui_UID u) a) | _ \<Rightarrow> a)"

text \<open>What \<open>syncUserList\<close> commits once the runtime has the delta.\<close>

definition commit_users :: "('w, 'i, 'l) deps \<Rightarrow> users_map \<Rightarrow> string list \<Rightarrow> string list \<Rightarrow> string list \<Rightarrow>
    ('w, 'i, 'l) controller \<Rightarrow> ('w, 'i, 'l) controller" where
  "commit_users d nextMap added deleted changed c =
     (let c1 = c\<lparr>c_userSyncPending := False, c_lastUserList := []\<rparr>;
          author1 = fold (\<lambda>hash a. snd (DelUser hash a)) deleted (c_author c1);
          author2 = fold (add_author nextMap) added author1;
          c2 = c1\<lparr>c_author := author2, c_usersMap := nextMap\<rparr>;
          c3 = fold (refresh_author d nextMap) added c2
      in fold (refresh_author d nextMap) changed c3)"

definition sync_list :: "('w, 'i, 'l) deps \<Rightarrow> user_info list \<Rightarrow> ('w, 'i, 'l) controller \<Rightarrow> ('w, 'i, 'l) outcome" where
  "sync_list d userInfo c =
     (case diffUsers (c_usersMap c) userInfo (buildUserHash (c_panelType c)) of
        (nextMap, added, deleted, changed) \<Rightarrow>
          (case (if deleted \<noteq> [] then dumpTrafficForDeleted d deleted c else (Ok (), c)) of
             (Panic, c1) \<Rightarrow> (Panic, c1)
           | (_, c1) \<Rightarrow>
               logged c1
                 (if added \<noteq> [] \<or> deleted \<noteq> [] \<or> changed \<noteq> [] then
                    (case applyRuntimeUserDelta (d_ops d) (c_nodeInfo c1) deleted
                            (usersForHashes nextMap (added @ changed)) (usersFromMap nextMap) (c_inbound c1) of
                       (Some e, i) \<Rightarrow>
                         (Err e, c1\<lparr>c_inbound := i, c_userSyncPending := True, c_lastUserList := userInfo\<rparr>)
                     | (None, i) \<Rightarrow> (Ok (), commit_users d nextMap added deleted changed (c1\<lparr>c_inbound := i\<rparr>)))
                  else (Ok (), commit_users d nextMap added deleted changed c1))))"

definition syncUserList :: "('w, 'i, 'l) deps \<Rightarrow> ('w, 'i, 'l) controller \<Rightarrow> ('w, 'i, 'l) outcome" where
  "syncUserList d c =
     (case GetUserList (d_api d) (c_api c) of
        (Panic, w) \<Rightarrow> (Panic, c\<lparr>c_api := w\<rparr>)
      | (Ok userInfo, w) \<Rightarrow> sync_list d userInfo (c\<lparr>c_api := w\<rparr>)
      | (Err e, w) \<Rightarrow>
          (let c1 = c\<lparr>c_api := w\<rparr>
           in if e \<noteq> UserNotModified then (Err e, c1)
              else logged c1
                (if \<not> c_userSyncPending c1 then (Ok (), c1) else sync_list d (c_lastUserList c1) c1)))"


section \<open>Counters of a routed connection\<close>

text \<open>The connection of user name \<open>user\<close> from \<open>source\<close>: the address of the account whose
  counters it gets. The result of \<open>AddIP\<close> is not looked at.\<close>

definition LoadOrCreateUserCounter ::
  "string \<Rightarrow> string \<Rightarrow> ('w, 'i, 'l) controller \<Rightarrow> (api_error, nat) res \<times> ('w, 'i, 'l) controller" where
  "LoadOrCreateUserCounter user source c =
     (case LoadUser (c_author c) user of
        None \<Rightarrow> (Err (UserNotInMap user), c)
      | Some a \<Rightarrow>
          if c_nodeInfo c = None \<and> user \<noteq> u_hash (a_heap (c_author c) ! a) then (Panic, c)
          else (let (first, u) = MarkCounterAttached (a_heap (c_author c) ! a);
                    c' = c\<lparr>c_author := upd_user a (\<lambda>_. u) (c_author c)\<rparr>
                in if c_nodeInfo c = None \<and> first then (Panic, c')
                   else (Ok a, c'\<lparr>c_author := upd_user a (\<lambda>u. snd (AddIP source u)) (c_author c')\<rparr>)))"


section \<open>What the diff computes\<close>

lemma gm_set_new: "gm_get m k = None \<Longrightarrow> gm_set k v m = m @ [(k, v)]"
  by (induction m) (auto simp: gm_set_def split: if_splits)

lemma find_snoc:
  "List.find P (xs @ [x]) = (case List.find P xs of Some y \<Rightarrow> Some y | None \<Rightarrow> if P x then Some x else None)"
  by (induction xs) auto

definition material_diff :: "users_map \<Rightarrow> users_map \<Rightarrow> string \<Rightarrow> bool" where
  "material_diff old nxt h =
     (case gm_get old h of
        None \<Rightarrow> False
      | Some None \<Rightarrow> True
      | Some (Some a) \<Rightarrow> (case gm_get nxt h of Some (Some b) \<Rightarrow> userMaterialChanged a b | _ \<Rightarrow> False))"

lemma material_diff_set_other:
  "h \<noteq> k \<Longrightarrow> material_diff old (gm_set k v m) h = material_diff old m h"
  by (simp add: material_diff_def go_map_simps split: option.splits)

lemma diff_user_dup:
  "gm_get nxt (hashFn u) \<noteq> None \<Longrightarrow> diff_user old hashFn u (nxt, added, changed) = (nxt, added, changed)"
  by (simp add: diff_user_def gm_has_def)

lemma diff_user_new:
  "gm_get nxt (hashFn u) = None \<Longrightarrow> diff_user old hashFn u (nxt, added, changed) =
     (gm_set (hashFn u) (Some u) nxt,
      added @ filter (\<lambda>h. gm_get old h = None) [hashFn u],
      changed @ filter (material_diff old (gm_set (hashFn u) (Some u) nxt)) [hashFn u])"
  by (auto simp: diff_user_def Let_def gm_has_def material_diff_def gm_get_set split: option.splits)

lemma diff_fold:
  "\<exists>nxt. fold (diff_user old hashFn) us ([], [], []) =
       (nxt, filter (\<lambda>h. gm_get old h = None) (gm_keys nxt), filter (material_diff old nxt) (gm_keys nxt))
     \<and> gm_wf nxt \<and> (\<forall>h. gm_get nxt h = map_option Some (List.find (\<lambda>u. hashFn u = h) us))"
proof (induction us rule: rev_induct)
  case Nil
  then show ?case by (auto simp: gm_keys_def)
next
  case (snoc u us)
  then obtain nxt where IH: "fold (diff_user old hashFn) us ([], [], []) =
       (nxt, filter (\<lambda>h. gm_get old h = None) (gm_keys nxt), filter (material_diff old nxt) (gm_keys nxt))"
    and wf: "gm_wf nxt" and get: "\<And>h. gm_get nxt h = map_option Some (List.find (\<lambda>u. hashFn u = h) us)"
    by auto
  let ?h = "hashFn u"
  show ?case
  proof (cases "gm_get nxt ?h")
    case (Some v)
    have g: "gm_get nxt h = map_option Some (List.find (\<lambda>v. hashFn v = h) (us @ [u]))" for h
    proof (cases "h = ?h")
      case True
      from Some get [of ?h] obtain w where "List.find (\<lambda>v. hashFn v = ?h) us = Some w" by auto
      with True get show ?thesis by (simp add: find_snoc)
    next
      case False
      with get show ?thesis by (simp add: find_snoc split: option.splits)
    qed
    have "diff_user old hashFn u (nxt, a, c) = (nxt, a, c)" for a c
      by (rule diff_user_dup) (simp add: Some)
    then show ?thesis by (intro exI [of _ nxt] conjI allI g) (simp_all add: IH wf)
  next
    case None
    let ?nxt = "gm_set ?h (Some u) nxt"
    have keys: "gm_keys ?nxt = gm_keys nxt @ [?h]" using None by (simp add: gm_keys_def gm_set_new)
    have fresh: "?h \<notin> set (gm_keys nxt)" using None by (simp add: gm_keys_get)
    have md: "filter (material_diff old ?nxt) (gm_keys nxt) = filter (material_diff old nxt) (gm_keys nxt)"
      using fresh by (intro filter_cong refl) (metis material_diff_set_other)
    have none: "List.find (\<lambda>v. hashFn v = ?h) us = None" using get [of ?h] None by simp
    have "gm_get ?nxt h = map_option Some (List.find (\<lambda>v. hashFn v = h) (us @ [u]))" for h
      using none by (simp add: go_map_simps find_snoc get split: option.splits)
    with None IH wf show ?thesis
      by (intro exI [of _ ?nxt]) (simp add: diff_user_new keys md go_wf)
  qed
qed

text \<open>The four results, as the components use them.\<close>

lemma diffUsersD:
  assumes "diffUsers old us hashFn = (nxt, added, deleted, changed)"
  shows "gm_wf nxt"
    and "gm_get nxt h = map_option Some (List.find (\<lambda>u. hashFn u = h) us)"
    and "added = filter (\<lambda>h. gm_get old h = None) (gm_keys nxt)"
    and "deleted = filter (\<lambda>h. gm_get nxt h = None) (gm_keys old)"
    and "changed = filter (material_diff old nxt) (gm_keys nxt)"
  using assms diff_fold [of old hashFn us] by (auto simp: diffUsers_def gm_has_def)

text \<open>C6. \<open>diffUsers\<close> partitions the two user sets: the next map holds the first user of each
  hash of the panel list; added are its hashes the old map lacks, deleted the old hashes it
  lacks, changed the common ones whose authentication, accounting or limit data differ; no
  hash is in two lists or twice in one.\<close>

theorem diffUsers_spec:
  assumes "gm_wf old"
  shows "case diffUsers old us hashFn of (nxt, added, deleted, changed) \<Rightarrow>
    (\<forall>h. gm_get nxt h = map_option Some (List.find (\<lambda>u. hashFn u = h) us)) \<and>
    set added = dom (gm_get nxt) - dom (gm_get old) \<and>
    set deleted = dom (gm_get old) - dom (gm_get nxt) \<and>
    set changed = {h. \<exists>b. gm_get nxt h = Some (Some b) \<and>
       (gm_get old h = Some None \<or> (\<exists>a. gm_get old h = Some (Some a) \<and> userMaterialChanged a b))} \<and>
    distinct (added @ deleted @ changed)"
proof -
  obtain nxt added deleted changed where eq: "diffUsers old us hashFn = (nxt, added, deleted, changed)"
    by (cases "diffUsers old us hashFn") auto
  note D = diffUsersD [OF eq]
  have nn: "gm_get nxt h \<noteq> Some None" for h by (auto simp: D(2))
  have a: "set added = dom (gm_get nxt) - dom (gm_get old)" by (auto simp: D(3) gm_keys_get)
  have d: "set deleted = dom (gm_get old) - dom (gm_get nxt)" by (auto simp: D(4) gm_keys_get)
  have c: "set changed = {h. \<exists>b. gm_get nxt h = Some (Some b) \<and>
       (gm_get old h = Some None \<or> (\<exists>a. gm_get old h = Some (Some a) \<and> userMaterialChanged a b))}"
  proof (rule set_eqI)
    fix h
    show "h \<in> set changed \<longleftrightarrow> h \<in> {h. \<exists>b. gm_get nxt h = Some (Some b) \<and>
       (gm_get old h = Some None \<or> (\<exists>a. gm_get old h = Some (Some a) \<and> userMaterialChanged a b))}"
    proof (cases "gm_get nxt h")
      case None
      then show ?thesis by (simp add: D(5) gm_keys_get)
    next
      case (Some v)
      with nn [of h] obtain b where "gm_get nxt h = Some (Some b)" by (cases v) auto
      then show ?thesis by (auto simp: D(5) gm_keys_get material_diff_def split: option.splits)
    qed
  qed
  have "distinct (gm_keys nxt)" "distinct (gm_keys old)" using D(1) assms by (simp_all add: gm.wf_keys)
  then have "distinct added" "distinct deleted" "distinct changed" by (simp_all add: D(3) D(4) D(5))
  then have "distinct (added @ deleted @ changed)" by (auto simp: a d c)
  with a d c D(2) show ?thesis unfolding eq prod.case by blast
qed

definition example_old :: users_map where
  "example_old = [(''u1'', Some (example_panel_user 1 ''A'')), (''u2'', Some (example_panel_user 2 ''B'')),
     (''u3'', Some (example_panel_user 3 ''C''))]"

definition example_list :: "user_info list" where
  "example_list = [example_panel_user 4 ''D'', example_panel_user 1 ''A'', example_panel_user 4 ''X'',
     example_panel_user 2 ''E'']"

lemma example_old_wf: "gm_wf example_old"
  by (simp add: gm_wf_def example_old_def)

text \<open>Witness of C6: user 1 stays, user 2 changes its password, user 3 leaves and user 4 joins
  (listed twice).\<close>

theorem diffUsers_spec_witness:
  "(case diffUsers example_old example_list (buildUserHash ''SSpanel'') of
      (nxt, added, deleted, changed) \<Rightarrow> distinct (added @ deleted @ changed))
   \<and> snd (diffUsers example_old example_list (buildUserHash ''SSpanel'')) = ([''u4''], [''u3''], [''u2''])"
proof
  show "case diffUsers example_old example_list (buildUserHash ''SSpanel'') of
      (nxt, added, deleted, changed) \<Rightarrow> distinct (added @ deleted @ changed)"
    using diffUsers_spec [OF example_old_wf, of "buildUserHash ''SSpanel''" example_list]
    by (auto split: prod.splits)
qed code_simp


section \<open>Limits\<close>

text \<open>A limit of 0 means unlimited.\<close>

definition limit :: "uint64 \<Rightarrow> enat" where
  "limit w = (if w = 0 then \<infinity> else enat (unat w))"

text \<open>The speed limit of a user is the stricter of the node's and its own, where 0 stands for
  no limit.\<close>

theorem determineRate_stricter: "limit (determineRate nodeLimit userLimit) = min (limit nodeLimit) (limit userLimit)"
  by (auto simp: limit_def determineRate_def min_def word_less_nat_alt word_le_nat_alt not_less
      unat_eq_zero)


section \<open>The controller's invariant\<close>

definition credentials :: "user_info \<Rightarrow> string set" where
  "credentials u = {ui_UUID u, ui_Passwd u, ui_Email u}"

definition describes :: "string \<Rightarrow> user_info \<Rightarrow> identity \<Rightarrow> bool" where
  "describes panelType u i \<longleftrightarrow> id_Email i = ui_Email u \<and> id_UUID i = ui_UUID u \<and> id_Passwd i = ui_Passwd u
     \<and> (panelType = ''SSpanel'' \<longrightarrow> id_UID i = ui_UID u)"

text \<open>
  The authenticator has exactly the users of \<open>usersMap\<close>, each under its own hash with the
  panel's current data, and an alias is a current credential of the user it leads to.
\<close>

definition accounts_match :: "string \<Rightarrow> users_map \<Rightarrow> 'l auth \<Rightarrow> bool" where
  "accounts_match panelType users author \<longleftrightarrow>
     (\<forall>h. case gm_get users h of
            None \<Rightarrow> account author h = None
          | Some None \<Rightarrow> False
          | Some (Some u) \<Rightarrow> buildUserHash panelType u = h \<and>
              (\<exists>i. account author h = Some i \<and> describes panelType u i))"

definition aliases_match :: "users_map \<Rightarrow> 'l auth \<Rightarrow> bool" where
  "aliases_match users author \<longleftrightarrow>
     (\<forall>x h. gm_get (a_aliases author) x = Some h \<longrightarrow>
        (\<exists>u. gm_get users h = Some (Some u) \<and> x \<in> credentials u))"

definition ctl_inv :: "('w, 'i, 'l) controller \<Rightarrow> bool" where
  "ctl_inv c \<longleftrightarrow> auth_inv (c_author c) \<and> gm_wf (c_usersMap c)
     \<and> accounts_match (c_panelType c) (c_usersMap c) (c_author c)
     \<and> aliases_match (c_usersMap c) (c_author c)"

text \<open>One user refreshed: its profile, its aliases and its limits.\<close>

lemma ApplyUserLimits_keeps:
  assumes "auth_inv (c_author c)" and "account (c_author c) h \<noteq> None"
  shows "auth_inv (c_author (ApplyUserLimits d h u c))"
    and "account (c_author (ApplyUserLimits d h u c)) = account (c_author c)"
    and "a_aliases (c_author (ApplyUserLimits d h u c)) = a_aliases (c_author c)"
    and "c_usersMap (ApplyUserLimits d h u c) = c_usersMap c"
    and "c_panelType (ApplyUserLimits d h u c) = c_panelType c"
  using assms auth_inv_SetUserSpeedLimit [OF assms(1)]
  by (simp_all add: ApplyUserLimits_def Let_def auth_inv_SetUserDeviceLimit account_limits)

definition with_profile :: "user_info \<Rightarrow> identity \<Rightarrow> identity" where
  "with_profile u i = i\<lparr>id_Email := ui_Email u, id_UUID := ui_UUID u, id_Passwd := ui_Passwd u\<rparr>"

lemma refresh_author_step:
  assumes "auth_inv (c_author c)" and "account (c_author c) h = Some i" and "gm_get nxt h = Some (Some u)"
    and eq: "c' = refresh_author d nxt h c"
  shows "auth_inv (c_author c')"
    and "account (c_author c') x = (if x = h
           then Some (with_profile u i)
           else account (c_author c) x)"
    and "gm_get (a_aliases (c_author c')) y =
           (if y \<in> credentials u \<and> y \<noteq> [] \<and> y \<noteq> h then Some h
            else if gm_get (a_aliases (c_author c)) y = Some h then None else gm_get (a_aliases (c_author c)) y)"
proof -
  let ?s1 = "SetUserProfile h u (c_author c)"
  let ?s2 = "SetUserAliases h [ui_UUID u, ui_Passwd u, ui_Email u] ?s1"
  have i1: "auth_inv ?s1" by (rule auth_inv_SetUserProfile [OF assms(1)])
  have acc1: "account ?s1 x = (if x = h
      then Some (with_profile u i)
      else account (c_author c) x)" for x
    unfolding with_profile_def by (rule account_SetUserProfile [OF assms(1,2)])
  then have "gm_get (a_users ?s1) h \<noteq> None" by (metis account_None option.distinct(1))
  then have i2: "auth_inv ?s2" by (rule auth_inv_SetUserAliases [OF i1])
  have c': "c' = ApplyUserLimits d h u (c\<lparr>c_author := ?s2\<rparr>)"
    by (simp add: eq refresh_author_def assms(3))
  have n: "account (c_author (c\<lparr>c_author := ?s2\<rparr>)) h \<noteq> None" using acc1 by simp
  have i2': "auth_inv (c_author (c\<lparr>c_author := ?s2\<rparr>))" using i2 by simp
  note k = ApplyUserLimits_keeps [OF i2' n]
  show "auth_inv (c_author c')" unfolding c' by (rule k)
  show "account (c_author c') x = (if x = h
       then Some (with_profile u i)
       else account (c_author c) x)"
    unfolding c' k using acc1 by simp
  show "gm_get (a_aliases (c_author c')) y =
       (if y \<in> credentials u \<and> y \<noteq> [] \<and> y \<noteq> h then Some h
        else if gm_get (a_aliases (c_author c)) y = Some h then None else gm_get (a_aliases (c_author c)) y)"
    unfolding c' k using SetUserAliases_get [OF auth_invD(2) [OF i1], of h _ y]
    by (simp add: credentials_def)
qed

lemma refresh_author_sel [simp]:
  "c_usersMap (refresh_author d nxt h c) = c_usersMap c"
  "c_panelType (refresh_author d nxt h c) = c_panelType c"
  "c_inbound (refresh_author d nxt h c) = c_inbound c"
  "c_userSyncPending (refresh_author d nxt h c) = c_userSyncPending c"
  "c_nodeInfo (refresh_author d nxt h c) = c_nodeInfo c"
  "c_api (refresh_author d nxt h c) = c_api c"
  "c_reloadPending (refresh_author d nxt h c) = c_reloadPending c"
  "c_tasks (refresh_author d nxt h c) = c_tasks c"
  "c_config (refresh_author d nxt h c) = c_config c"
  by (simp_all add: refresh_author_def ApplyUserLimits_def Let_def split: option.splits)

lemma fold_refresh_sel [simp]:
  "c_usersMap (fold (refresh_author d nxt) hs c) = c_usersMap c"
  "c_panelType (fold (refresh_author d nxt) hs c) = c_panelType c"
  "c_inbound (fold (refresh_author d nxt) hs c) = c_inbound c"
  "c_userSyncPending (fold (refresh_author d nxt) hs c) = c_userSyncPending c"
  "c_nodeInfo (fold (refresh_author d nxt) hs c) = c_nodeInfo c"
  "c_api (fold (refresh_author d nxt) hs c) = c_api c"
  "c_reloadPending (fold (refresh_author d nxt) hs c) = c_reloadPending c"
  "c_tasks (fold (refresh_author d nxt) hs c) = c_tasks c"
  "c_config (fold (refresh_author d nxt) hs c) = c_config c"
  by (induction hs arbitrary: c) simp_all

lemma with_profile_idem [simp]: "with_profile u (with_profile u i) = with_profile u i"
  by (simp add: with_profile_def)

lemma fold_refresh:
  assumes "auth_inv (c_author c)"
    and "\<And>h. h \<in> set hs \<Longrightarrow> (\<exists>u. gm_get nxt h = Some (Some u)) \<and> account (c_author c) h \<noteq> None"
  shows "auth_inv (c_author (fold (refresh_author d nxt) hs c)) \<and>
    (\<forall>x. account (c_author (fold (refresh_author d nxt) hs c)) x =
       (if x \<in> set hs then map_option (with_profile (the (the (gm_get nxt x)))) (account (c_author c) x)
        else account (c_author c) x)) \<and>
    (\<forall>y h. gm_get (a_aliases (c_author (fold (refresh_author d nxt) hs c))) y = Some h \<longrightarrow>
       (if h \<in> set hs then y \<in> credentials (the (the (gm_get nxt h)))
        else gm_get (a_aliases (c_author c)) y = Some h))"
  using assms
proof (induction hs arbitrary: c)
  case (Cons k hs)
  obtain u where u: "gm_get nxt k = Some (Some u)" using Cons.prems(2) [of k] by auto
  obtain i where i: "account (c_author c) k = Some i" using Cons.prems(2) [of k] by auto
  define c' where "c' = refresh_author d nxt k c"
  note st = refresh_author_step [OF Cons.prems(1) i u c'_def]
  have pre: "(\<exists>u. gm_get nxt h = Some (Some u)) \<and> account (c_author c') h \<noteq> None" if "h \<in> set hs" for h
    using Cons.prems(2) [of h] that by (auto simp: st(2))
  note IH = Cons.IH [OF st(1) pre]
  have eq: "fold (refresh_author d nxt) (k # hs) c = fold (refresh_author d nxt) hs c'"
    by (simp add: c'_def)
  show ?case
    unfolding eq
  proof (intro conjI allI impI)
    show "auth_inv (c_author (fold (refresh_author d nxt) hs c'))" using IH by blast
  next
    fix x
    show "account (c_author (fold (refresh_author d nxt) hs c')) x =
        (if x \<in> set (k # hs) then map_option (with_profile (the (the (gm_get nxt x)))) (account (c_author c) x)
         else account (c_author c) x)"
      using IH u i by (auto simp: st(2))
  next
    fix y h
    assume "gm_get (a_aliases (c_author (fold (refresh_author d nxt) hs c'))) y = Some h"
    with IH have "if h \<in> set hs then y \<in> credentials (the (the (gm_get nxt h)))
        else gm_get (a_aliases (c_author c')) y = Some h" by blast
    then show "if h \<in> set (k # hs) then y \<in> credentials (the (the (gm_get nxt h)))
        else gm_get (a_aliases (c_author c)) y = Some h"
      using u by (auto simp: st(3) split: if_splits)
  qed
qed simp

lemma fold_add_author:
  assumes "auth_inv s" and "distinct hs"
    and "\<And>h. h \<in> set hs \<Longrightarrow> (\<exists>u. gm_get nxt h = Some (Some u)) \<and> account s h = None"
  shows "auth_inv (fold (add_author nxt) hs s) \<and>
    (\<forall>x. account (fold (add_author nxt) hs s) x =
       (if x \<in> set hs
        then Some \<lparr>id_UID = ui_UID (the (the (gm_get nxt x))), id_Email = [], id_UUID = [], id_Passwd = []\<rparr>
        else account s x)) \<and>
    a_aliases (fold (add_author nxt) hs s) = a_aliases s"
  using assms
proof (induction hs arbitrary: s)
  case (Cons k hs)
  obtain u where u: "gm_get nxt k = Some (Some u)" using Cons.prems(3) [of k] by auto
  have k: "account s k = None" using Cons.prems(3) [of k] by auto
  define s' where "s' = snd (AddUser k (ui_UID u) s)"
  have acc: "account s' x = (if x = k
      then Some \<lparr>id_UID = ui_UID u, id_Email = [], id_UUID = [], id_Passwd = []\<rparr> else account s x)" for x
    unfolding s'_def by (rule account_AddUser [OF Cons.prems(1) k])
  have inv: "auth_inv s'" unfolding s'_def by (rule auth_inv_AddUser [OF Cons.prems(1)])
  have pre: "(\<exists>u. gm_get nxt h = Some (Some u)) \<and> account s' h = None" if "h \<in> set hs" for h
    using Cons.prems(2,3) that by (auto simp: acc)
  have "fold (add_author nxt) (k # hs) s = fold (add_author nxt) hs s'"
    by (simp add: add_author_def u s'_def)
  with Cons.IH [OF inv _ pre] Cons.prems(2) show ?case
    by (auto simp: acc u) (simp_all add: s'_def)
qed simp

lemma accounts_matchD:
  assumes "accounts_match pt users author"
  shows "gm_get users h = None \<Longrightarrow> account author h = None"
    and "gm_get users h = Some v \<Longrightarrow> \<exists>u i. v = Some u \<and> buildUserHash pt u = h \<and>
      account author h = Some i \<and> describes pt u i"
  using assms by (auto simp: accounts_match_def split: option.splits) (metis option.inject option.distinct(1))+

lemma unchanged_user:
  assumes "\<not> userMaterialChanged a b"
  shows "ui_Email a = ui_Email b" "ui_UUID a = ui_UUID b" "ui_Passwd a = ui_Passwd b"
    "credentials a = credentials b" "panel_password a = panel_password b"
  using assms by (simp_all add: userMaterialChanged_def credentials_def buildNaivePassword_def)

lemma same_hash_uid:
  "buildUserHash pt a = buildUserHash pt b \<Longrightarrow> pt = ''SSpanel'' \<Longrightarrow> ui_UID a = ui_UID b"
  by (simp add: buildUserHash_def user_name_inject)

lemma next_user:
  assumes "diffUsers old us (buildUserHash pt) = (nxt, added, deleted, changed)" and "gm_get nxt h = Some v"
  shows "\<exists>u. v = Some u \<and> buildUserHash pt u = h \<and> u \<in> set us"
  using assms(2) by (auto simp: diffUsersD(2) [OF assms(1)] find_Some_iff)

text \<open>The accounts and aliases after a commit, hash by hash.\<close>

lemma commit_users_view:
  assumes inv: "ctl_inv c"
    and eq: "diffUsers (c_usersMap c) us (buildUserHash (c_panelType c)) = (nxt, added, deleted, changed)"
    and c': "c' = commit_users d nxt added deleted changed c"
  shows "auth_inv (c_author c')"
    and "account (c_author c') h =
      (let u = the (the (gm_get nxt h))
       in if h \<in> set added then
            Some (with_profile u \<lparr>id_UID = ui_UID u, id_Email = [], id_UUID = [], id_Passwd = []\<rparr>)
          else if h \<in> set changed then map_option (with_profile u) (account (c_author c) h)
          else if h \<in> set deleted then None else account (c_author c) h)"
    and "gm_get (a_aliases (c_author c')) x = Some h \<Longrightarrow>
      if h \<in> set (added @ changed) then x \<in> credentials (the (the (gm_get nxt h)))
      else gm_get (a_aliases (c_author c)) x = Some h \<and> h \<notin> set deleted"
proof -
  let ?old = "c_usersMap c"
  note D = diffUsersD [OF eq]
  have auth: "auth_inv (c_author c)" and acc: "accounts_match (c_panelType c) ?old (c_author c)"
    using inv by (simp_all add: ctl_inv_def)
  define s1 where "s1 = fold (\<lambda>h a. snd (DelUser h a)) deleted (c_author c)"
  define s2 where "s2 = fold (add_author nxt) added s1"
  define c2 where "c2 = c\<lparr>c_userSyncPending := False, c_lastUserList := [], c_author := s2, c_usersMap := nxt\<rparr>"
  have c3: "c' = fold (refresh_author d nxt) (added @ changed) c2"
    by (simp add: c' commit_users_def Let_def s1_def s2_def c2_def)
  note f1 = fold_DelUser [OF auth, of deleted, folded s1_def]
  have dis: "distinct added" using D(1) by (simp add: D(3) gm.wf_keys)
  have add_pre: "(\<exists>u. gm_get nxt h = Some (Some u)) \<and> account s1 h = None" if "h \<in> set added" for h
    using that next_user [OF eq, of h] accounts_matchD(1) [OF acc, of h] by (auto simp: D(3) gm_keys_get f1)
  note f2 = fold_add_author [OF f1(1) dis add_pre, folded s2_def]
  have c2: "c_author c2 = s2" by (simp add: c2_def)
  have ref_pre: "(\<exists>u. gm_get nxt h = Some (Some u)) \<and> account (c_author c2) h \<noteq> None"
    if h: "h \<in> set (added @ changed)" for h
  proof -
    have n: "gm_get nxt h \<noteq> None" using h by (auto simp: D(3) D(5) gm_keys_get)
    have "account s2 h \<noteq> None" if "h \<notin> set added"
      using that n accounts_matchD(2) [OF acc, of h] f2 by (auto simp: f1 D(3) D(4) gm_keys_get)
    with n next_user [OF eq, of h] f2 show ?thesis by (fastforce simp: c2)
  qed
  have "auth_inv (c_author c2)" using f2 by (simp add: c2)
  note f3 = fold_refresh [where d = d and nxt = nxt and c = c2 and hs = "added @ changed",
      OF this ref_pre, folded c3]
  have no: "h \<notin> set deleted" if "h \<in> set changed" using that by (auto simp: D(4) D(5) gm_keys_get)
  show "auth_inv (c_author c')" using f3 by blast
  show "account (c_author c') h =
      (let u = the (the (gm_get nxt h))
       in if h \<in> set added then
            Some (with_profile u \<lparr>id_UID = ui_UID u, id_Email = [], id_UUID = [], id_Passwd = []\<rparr>)
          else if h \<in> set changed then map_option (with_profile u) (account (c_author c) h)
          else if h \<in> set deleted then None else account (c_author c) h)"
    using f3 f2 no by (simp add: Let_def c2 f1)
  show "gm_get (a_aliases (c_author c')) x = Some h \<Longrightarrow>
      if h \<in> set (added @ changed) then x \<in> credentials (the (the (gm_get nxt h)))
      else gm_get (a_aliases (c_author c)) x = Some h \<and> h \<notin> set deleted"
    using f3 f2 by (auto simp: c2 f1 split: if_splits)
qed

lemma kept_user:
  assumes acc: "accounts_match pt old author"
    and eq: "diffUsers old us hashFn = (nxt, added, deleted, changed)"
    and "gm_get nxt h = Some (Some u)" "h \<notin> set added" "h \<notin> set changed"
  shows "\<exists>u0. gm_get old h = Some (Some u0) \<and> \<not> userMaterialChanged u0 u"
  using assms(3-) accounts_matchD(2) [OF acc, of h]
  by (auto simp: diffUsersD(3,5) [OF eq] gm_keys_get material_diff_def split: option.splits)

lemma commit_accounts:
  assumes inv: "ctl_inv c"
    and eq: "diffUsers (c_usersMap c) us (buildUserHash (c_panelType c)) = (nxt, added, deleted, changed)"
    and u: "gm_get nxt h = Some (Some u)" "buildUserHash (c_panelType c) u = h"
  shows "\<exists>i. account (c_author (commit_users d nxt added deleted changed c)) h = Some i
    \<and> describes (c_panelType c) u i"
proof (cases "h \<in> set added")
  case True
  with u show ?thesis
    by (simp add: commit_users_view [OF inv eq refl] with_profile_def describes_def)
next
  case False
  note D = diffUsersD [OF eq]
  have acc: "accounts_match (c_panelType c) (c_usersMap c) (c_author c)" using inv by (simp add: ctl_inv_def)
  obtain v0 where v0: "gm_get (c_usersMap c) h = Some v0" using u False by (auto simp: D(3) gm_keys_get)
  then obtain u0 i where u0: "gm_get (c_usersMap c) h = Some (Some u0)" "buildUserHash (c_panelType c) u0 = h"
    "account (c_author c) h = Some i" "describes (c_panelType c) u0 i"
    using accounts_matchD(2) [OF acc v0] by blast
  have del: "h \<notin> set deleted" using u by (simp add: D(4))
  have uid: "c_panelType c = ''SSpanel'' \<Longrightarrow> ui_UID u0 = ui_UID u" using same_hash_uid u u0 by metis
  show ?thesis
  proof (cases "h \<in> set changed")
    case True
    with False u u0 uid show ?thesis
      by (simp add: commit_users_view [OF inv eq refl] with_profile_def describes_def)
  next
    case unc: False
    with False kept_user [OF acc eq u(1)] u0 have "\<not> userMaterialChanged u0 u" by auto
    from unchanged_user [OF this] False unc del u0 uid show ?thesis
      by (simp add: commit_users_view [OF inv eq refl] describes_def)
  qed
qed

lemma commit_aliases:
  assumes inv: "ctl_inv c"
    and eq: "diffUsers (c_usersMap c) us (buildUserHash (c_panelType c)) = (nxt, added, deleted, changed)"
    and al: "gm_get (a_aliases (c_author (commit_users d nxt added deleted changed c))) x = Some h"
  shows "\<exists>u. gm_get nxt h = Some (Some u) \<and> x \<in> credentials u"
proof -
  note D = diffUsersD [OF eq]
  note x = commit_users_view(3) [OF inv eq refl al]
  have get: "\<exists>u. gm_get nxt h = Some (Some u)" if "gm_get nxt h \<noteq> None" using that next_user [OF eq] by blast
  show ?thesis
  proof (cases "h \<in> set (added @ changed)")
    case True
    moreover from this have "gm_get nxt h \<noteq> None" by (auto simp: D(3) D(5) gm_keys_get)
    ultimately show ?thesis using x get by auto
  next
    case False
    with x inv obtain u0 where u0: "gm_get (c_usersMap c) h = Some (Some u0)" "x \<in> credentials u0"
      by (auto simp: ctl_inv_def aliases_match_def)
    with x False get obtain u where u: "gm_get nxt h = Some (Some u)" by (auto simp: D(4) gm_keys_get)
    have "accounts_match (c_panelType c) (c_usersMap c) (c_author c)" using inv by (simp add: ctl_inv_def)
    from kept_user [OF this eq u] False u0 have "\<not> userMaterialChanged u0 u" by auto
    with u u0 show ?thesis by (simp add: unchanged_user)
  qed
qed

lemma commit_users_sel [simp]:
  "c_usersMap (commit_users d nxt added deleted changed c) = nxt"
  "c_panelType (commit_users d nxt added deleted changed c) = c_panelType c"
  "c_inbound (commit_users d nxt added deleted changed c) = c_inbound c"
  "c_userSyncPending (commit_users d nxt added deleted changed c) = False"
  "c_nodeInfo (commit_users d nxt added deleted changed c) = c_nodeInfo c"
  "c_reloadPending (commit_users d nxt added deleted changed c) = c_reloadPending c"
  "c_tasks (commit_users d nxt added deleted changed c) = c_tasks c"
  "c_config (commit_users d nxt added deleted changed c) = c_config c"
  by (simp_all add: commit_users_def Let_def)

lemma commit_users_inv:
  assumes inv: "ctl_inv c"
    and eq: "diffUsers (c_usersMap c) us (buildUserHash (c_panelType c)) = (nxt, added, deleted, changed)"
  shows "ctl_inv (commit_users d nxt added deleted changed c)"
proof -
  let ?c = "commit_users d nxt added deleted changed c"
  note D = diffUsersD [OF eq]
  have "case gm_get nxt h of None \<Rightarrow> account (c_author ?c) h = None | Some None \<Rightarrow> False
      | Some (Some u) \<Rightarrow> buildUserHash (c_panelType c) u = h
          \<and> (\<exists>i. account (c_author ?c) h = Some i \<and> describes (c_panelType c) u i)" for h
  proof (cases "gm_get nxt h")
    case None
    have "accounts_match (c_panelType c) (c_usersMap c) (c_author c)" using inv by (simp add: ctl_inv_def)
    then have "h \<notin> set deleted \<Longrightarrow> account (c_author c) h = None"
      using None accounts_matchD(1) by (auto simp: D(4) gm_keys_get)
    moreover have "h \<notin> set added" "h \<notin> set changed" using None by (auto simp: D(3) D(5) gm_keys_get)
    ultimately show ?thesis using None by (simp add: commit_users_view [OF inv eq refl])
  next
    case (Some v)
    then obtain u where u: "gm_get nxt h = Some (Some u)" "buildUserHash (c_panelType c) u = h"
      using next_user [OF eq] by blast
    with commit_accounts [OF inv eq u] show ?thesis by simp
  qed
  then show ?thesis
    using commit_users_view(1) [OF inv eq refl] commit_aliases [OF inv eq] D(1)
    by (simp add: ctl_inv_def accounts_match_def aliases_match_def)
qed


section \<open>Synchronisation keeps the invariant\<close>

lemma dump_user_keeps:
  assumes "auth_inv (snd ra)"
  shows "auth_inv (snd (dump_user h ra))" and "account (snd (dump_user h ra)) = account (snd ra)"
    and "a_aliases (snd (dump_user h ra)) = a_aliases (snd ra)"
proof -
  obtain r s where ra: "ra = (r, s)" by (cases ra)
  have "auth_inv (snd (dump_user h ra)) \<and> account (snd (dump_user h ra)) = account (snd ra)
      \<and> a_aliases (snd (dump_user h ra)) = a_aliases (snd ra)"
  proof (cases "LoadUser s h")
    case None
    with assms show ?thesis by (simp add: dump_user_def ra)
  next
    case (Some a)
    let ?s = "upd_user a (\<lambda>u. snd (ResetTraffic u)) s"
    obtain k where "gm_get (a_users s) k = Some a" using LoadUser_canonical [OF Some] by blast
    then have "account ?s = account s"
      using assms by (intro account_upd_user_same) (simp_all add: ra ResetTraffic_def identity_of_def)
    moreover have "auth_inv ?s"
      using assms by (intro auth_inv_upd_user) (simp_all add: ra ResetTraffic_def user_wf_def)
    moreover have "snd (dump_user h ra) = ?s"
      by (simp add: dump_user_def ra Some Let_def split: prod.splits)
    ultimately show ?thesis by (simp add: ra)
  qed
  then show "auth_inv (snd (dump_user h ra))" "account (snd (dump_user h ra)) = account (snd ra)"
    "a_aliases (snd (dump_user h ra)) = a_aliases (snd ra)" by auto
qed

lemma fold_dump_keeps:
  assumes "auth_inv s"
  shows "auth_inv (snd (fold dump_user hs (r, s))) \<and> account (snd (fold dump_user hs (r, s))) = account s
    \<and> a_aliases (snd (fold dump_user hs (r, s))) = a_aliases s"
  by (rule fold_invariant_set [where P = "\<lambda>ra. auth_inv (snd ra) \<and> account (snd ra) = account s
        \<and> a_aliases (snd ra) = a_aliases s"])
     (simp_all add: assms dump_user_keeps)

lemma dumpTraffic_sel:
  assumes "dumpTrafficForDeleted d ds c = (r, c')"
  shows "c_usersMap c' = c_usersMap c" "c_panelType c' = c_panelType c" "c_inbound c' = c_inbound c"
    "c_nodeInfo c' = c_nodeInfo c" "c_author c' = snd (fold dump_user ds ([], c_author c))"
    "c_config c' = c_config c" "c_userSyncPending c' = c_userSyncPending c"
    "c_reloadPending c' = c_reloadPending c" "c_tasks c' = c_tasks c"
  using assms by (auto simp: dumpTrafficForDeleted_def logged_def Let_def split: prod.splits if_splits option.splits)

lemma match_cong:
  "account s = account s' \<Longrightarrow> accounts_match pt m s = accounts_match pt m s'"
  "a_aliases s = a_aliases s' \<Longrightarrow> aliases_match m s = aliases_match m s'"
  unfolding accounts_match_def aliases_match_def by (erule ssubst, rule refl)+

lemma dumpTraffic_inv:
  assumes "ctl_inv c" and "dumpTrafficForDeleted d ds c = (r, c')"
  shows "ctl_inv c'"
  using assms(1) fold_dump_keeps [of "c_author c" ds "[]"]
    match_cong [of "snd (fold dump_user ds ([], c_author c))" "c_author c"]
  by (simp add: ctl_inv_def dumpTraffic_sel [OF assms(2)])

text \<open>What \<open>sync_list\<close> does, by cases: the traffic dump \<open>c1\<close> comes first, then either a log
  line panics, or the runtime refuses the delta, or everything is committed.\<close>

lemma sync_list_cases:
  assumes "sync_list d us c = (r, c')"
    and eq: "diffUsers (c_usersMap c) us (buildUserHash (c_panelType c)) = (nxt, added, deleted, changed)"
  obtains c1 where "c1 = c \<or> (\<exists>r1. dumpTrafficForDeleted d deleted c = (r1, c1))" and "r = Panic" "c' = c1"
  | c1 e i where "c1 = c \<or> (\<exists>r1. dumpTrafficForDeleted d deleted c = (r1, c1))"
      and "applyRuntimeUserDelta (d_ops d) (c_nodeInfo c1) deleted (usersForHashes nxt (added @ changed))
             (usersFromMap nxt) (c_inbound c1) = (Some e, i)"
      and "r = Err e" and "c' = c1\<lparr>c_inbound := i, c_userSyncPending := True, c_lastUserList := us\<rparr>"
      and "c_nodeInfo c1 \<noteq> None"
  | c1 i where "c1 = c \<or> (\<exists>r1. dumpTrafficForDeleted d deleted c = (r1, c1))"
      and "added = [] \<and> deleted = [] \<and> changed = [] \<and> i = c_inbound c1 \<or>
           applyRuntimeUserDelta (d_ops d) (c_nodeInfo c1) deleted (usersForHashes nxt (added @ changed))
             (usersFromMap nxt) (c_inbound c1) = (None, i)"
      and "r = Ok ()" and "c' = commit_users d nxt added deleted changed (c1\<lparr>c_inbound := i\<rparr>)"
proof -
  obtain r1 c1 where dump: "(if deleted \<noteq> [] then dumpTrafficForDeleted d deleted c else (Ok (), c)) = (r1, c1)"
    by (metis surj_pair)
  then have c1: "c1 = c \<or> (\<exists>r1. dumpTrafficForDeleted d deleted c = (r1, c1))" by (auto split: if_splits)
  have eqn: "sync_list d us c = (case (r1, c1) of (Panic, c1) \<Rightarrow> (Panic, c1) | (_, c1) \<Rightarrow>
      logged c1
        (if added \<noteq> [] \<or> deleted \<noteq> [] \<or> changed \<noteq> [] then
           (case applyRuntimeUserDelta (d_ops d) (c_nodeInfo c1) deleted
                   (usersForHashes nxt (added @ changed)) (usersFromMap nxt) (c_inbound c1) of
              (Some e, i) \<Rightarrow>
                (Err e, c1\<lparr>c_inbound := i, c_userSyncPending := True, c_lastUserList := us\<rparr>)
            | (None, i) \<Rightarrow> (Ok (), commit_users d nxt added deleted changed (c1\<lparr>c_inbound := i\<rparr>)))
         else (Ok (), commit_users d nxt added deleted changed c1)))"
    unfolding sync_list_def eq prod.case dump ..
  show thesis
  proof (cases "r1 = Panic \<or> c_nodeInfo c1 = None")
    case True
    then have "sync_list d us c = (Panic, c1)" unfolding eqn by (auto simp: logged_def split: res.splits)
    with assms(1) show thesis using that(1) [OF c1] by simp
  next
    case False
    obtain oe i where ap: "applyRuntimeUserDelta (d_ops d) (c_nodeInfo c1) deleted
        (usersForHashes nxt (added @ changed)) (usersFromMap nxt) (c_inbound c1) = (oe, i)" by (metis surj_pair)
    from False have "sync_list d us c =
        (if added \<noteq> [] \<or> deleted \<noteq> [] \<or> changed \<noteq> [] then
           (case oe of
              Some e \<Rightarrow> (Err e, c1\<lparr>c_inbound := i, c_userSyncPending := True, c_lastUserList := us\<rparr>)
            | None \<Rightarrow> (Ok (), commit_users d nxt added deleted changed (c1\<lparr>c_inbound := i\<rparr>)))
         else (Ok (), commit_users d nxt added deleted changed (c1\<lparr>c_inbound := c_inbound c1\<rparr>)))"
      unfolding eqn prod.case ap by (cases r1) (auto simp: logged_def split: option.splits)
    with assms(1) that(2) [OF c1] that(3) [OF c1] that(3) [OF c1, of "c_inbound c1"] ap False show thesis
      by (auto split: if_splits option.splits)
  qed
qed

lemma ctl_inv_update [simp]:
  "ctl_inv (c\<lparr>c_inbound := i\<rparr>) = ctl_inv c" "ctl_inv (c\<lparr>c_userSyncPending := b\<rparr>) = ctl_inv c"
  "ctl_inv (c\<lparr>c_lastUserList := us\<rparr>) = ctl_inv c" "ctl_inv (c\<lparr>c_api := w\<rparr>) = ctl_inv c"
  "ctl_inv (c\<lparr>c_nodeInfo := ni\<rparr>) = ctl_inv c"
  by (simp_all add: ctl_inv_def)

lemma diffUsers_cong:
  "c_usersMap c1 = c_usersMap c \<Longrightarrow> c_panelType c1 = c_panelType c \<Longrightarrow>
     diffUsers (c_usersMap c1) us (buildUserHash (c_panelType c1)) =
     diffUsers (c_usersMap c) us (buildUserHash (c_panelType c))"
  by simp

lemma sync_list_inv:
  assumes inv: "ctl_inv c" and run: "sync_list d us c = (r, c')"
  shows "ctl_inv c'"
proof -
  obtain nxt added deleted changed where
    eq: "diffUsers (c_usersMap c) us (buildUserHash (c_panelType c)) = (nxt, added, deleted, changed)"
    by (metis prod_cases4)
  have dumped: "ctl_inv c1 \<and> c_usersMap c1 = c_usersMap c \<and> c_panelType c1 = c_panelType c"
    if "c1 = c \<or> (\<exists>r1. dumpTrafficForDeleted d deleted c = (r1, c1))" for c1
    using that inv by (auto dest: dumpTraffic_inv dumpTraffic_sel)
  from run eq show ?thesis
  proof (cases rule: sync_list_cases)
    case (1 c1)
    with dumped show ?thesis by simp
  next
    case (2 c1 e i)
    with dumped [OF 2(1)] show ?thesis by simp
  next
    case (3 c1 i)
    have "diffUsers (c_usersMap (c1\<lparr>c_inbound := i\<rparr>)) us (buildUserHash (c_panelType (c1\<lparr>c_inbound := i\<rparr>))) =
        (nxt, added, deleted, changed)" using dumped [OF 3(1)] eq by simp
    with dumped [OF 3(1)] show ?thesis unfolding 3(4) by (intro commit_users_inv) simp_all
  qed
qed

lemma ctl_inv_New: "ctl_inv (NewController config inbound w now)"
  by (simp add: ctl_inv_def NewController_def accounts_match_def aliases_match_def account_def
      NewAuthenticator_def auth_inv_def)

lemma syncUserList_inv_step:
  assumes "ctl_inv c"
  shows "ctl_inv (snd (syncUserList d c))"
proof -
  have list: "ctl_inv (snd (sync_list d us c))" if "ctl_inv c" for us c
    using sync_list_inv [OF that] by (metis prod.collapse)
  show ?thesis
    using assms
    by (auto simp: syncUserList_def logged_def Let_def list split: prod.splits res.splits option.splits)
qed

text \<open>C1. Synchronising the users keeps the controller consistent whatever the panel answers and
  whatever the runtime does (errors and panics included): the authenticator has exactly the users of
  \<open>usersMap\<close>, with the panel's current UID, e-mail, UUID and password, and every alias is a
  current credential of the user it resolves to.\<close>

theorem syncUserList_inv:
  assumes "ctl_inv c"
  shows "ctl_inv (snd (syncUserList d c))"
  by (rule syncUserList_inv_step [OF assms])

text \<open>A panel that answers from a script, an inbound whose additions fail the given number of times,
  and a controller of one node.\<close>

definition scripted_api :: "(api_error, user_info list) res list api" where
  "scripted_api =
     \<lparr>GetNodeInfo = \<lambda>w. (Err NodeNotModified, w),
      GetUserList = \<lambda>w. case w of [] \<Rightarrow> (Err UserNotModified, []) | r # rs \<Rightarrow> (r, rs),
      ReportNodeStatus = \<lambda>_ w. (Ok (), w), ReportNodeOnlineUsers = \<lambda>_ w. (Ok (), w),
      ReportUserTraffic = \<lambda>_ w. (Ok (), w),
      Describe = \<lambda>w. \<lparr>ci_APIHost = [], ci_NodeID = 1, ci_Key = [], ci_NodeType = ''V2ray''\<rparr>,
      GetNodeRule = \<lambda>w. (Err RuleNotModified, w), ReportIllegal = \<lambda>_ w. (Ok (), w)\<rparr>"

definition flaky_ops :: "(nat \<times> string list) inbound_ops" where
  "flaky_ops =
     \<lparr>ib_incremental = Some
        \<lparr>inc_AddUsers = \<lambda>us _ (n, names). if 0 < n then (Some ServiceFailed, (n - 1, names))
           else (None, (0, names @ map (\<lambda>u. user_name (ui_UID u)) us)),
         inc_RemoveUsers = \<lambda>ns (n, names). (None, (n, filter (\<lambda>x. x \<notin> set ns) names))\<rparr>,
      ib_RefreshUsers = None, ib_Configure = None\<rparr>"

definition unit_rate :: "int rate_api" where
  "unit_rate = \<lparr>rt_NewLimiter = \<lambda>_ b. b, rt_Limit = \<lambda>l. f64_of_int l, rt_Burst = \<lambda>l. l\<rparr>"

definition example_config :: ctl_config where
  "example_config = \<lparr>cc_PanelType = ''SSpanel'', cc_UpdatePeriodic = 60, cc_ListenIP = ''0.0.0.0'', cc_SendIP = [],
     cc_EnableDeviceLimit = True\<rparr>"

definition example_node_info :: node_info where
  "example_node_info = zero_node_info\<lparr>ni_NodeType := ''naive'', ni_NodeID := 1, ni_Port := 443\<rparr>"

definition example_controller ::
  "(api_error, user_info list) res list \<Rightarrow> nat \<Rightarrow> ((api_error, user_info list) res list, nat \<times> string list, int) controller" where
  "example_controller script failures =
     (NewController example_config (failures, []) script 0)\<lparr>c_nodeInfo := Some example_node_info\<rparr>"

definition example_deps :: "((api_error, user_info list) res list, nat \<times> string list, int) deps" where
  "example_deps = \<lparr>d_api = scripted_api, d_ops = flaky_ops, d_rate = unit_rate\<rparr>"

lemma example_controller_inv: "ctl_inv (example_controller script failures)"
  by (simp add: example_controller_def ctl_inv_New)

text \<open>Witness of C1: two users join.\<close>

theorem syncUserList_inv_witness:
  "ctl_inv (snd (syncUserList example_deps
     (example_controller [Ok [example_panel_user 1 ''A'', example_panel_user 2 ''B'']] 0)))"
  by (rule syncUserList_inv [OF example_controller_inv])


section \<open>The runtime after a synchronisation\<close>

text \<open>The password table an inbound should have for a users map.\<close>

definition runtime_table :: "users_map \<Rightarrow> string \<Rightarrow> string option" where
  "runtime_table users x = (case gm_get users x of Some (Some u) \<Rightarrow> Some (panel_password u) | _ \<Rightarrow> None)"

definition unique_passwords :: "user_info list \<Rightarrow> bool" where
  "unique_passwords us \<longleftrightarrow> (\<forall>u \<in> set us. \<forall>v \<in> set us. panel_password u = panel_password v \<longrightarrow> ui_UID u = ui_UID v)"

lemma usersForHashes_entries:
  assumes eq: "diffUsers old us (buildUserHash ''SSpanel'') = (nxt, added, deleted, changed)"
    and "set hs \<subseteq> dom (gm_get nxt)"
  shows "panel_entries (usersForHashes nxt hs) = map (\<lambda>h. (h, the (runtime_table nxt h))) hs"
  using assms(2)
proof (induction hs)
  case (Cons h hs)
  then obtain v where "gm_get nxt h = Some v" by auto
  then obtain u where "gm_get nxt h = Some (Some u)" "buildUserHash ''SSpanel'' u = h"
    using next_user [OF eq] by blast
  with Cons show ?case
    by (simp add: usersForHashes_def panel_entries_def runtime_table_def buildUserHash_def List.map_filter_simps)
qed (simp add: usersForHashes_def panel_entries_def List.map_filter_simps)

lemma runtime_table_inject:
  assumes eq: "diffUsers old us (buildUserHash ''SSpanel'') = (nxt, added, deleted, changed)"
    and "unique_passwords us" and "runtime_table nxt h = Some p" and "runtime_table nxt k = Some p"
  shows "h = k"
proof -
  have "\<exists>u. u \<in> set us \<and> user_name (ui_UID u) = x \<and> panel_password u = p" if "runtime_table nxt x = Some p" for x
  proof -
    from that obtain u where u: "gm_get nxt x = Some (Some u)" "panel_password u = p"
      by (auto simp: runtime_table_def split: option.splits)
    with next_user [OF eq u(1)] show ?thesis by (auto simp: buildUserHash_def)
  qed
  with assms(2-) show ?thesis by (metis unique_passwords_def)
qed

lemma added_changed_dom:
  assumes eq: "diffUsers old us hashFn = (nxt, added, deleted, changed)"
  shows "set (added @ changed) \<subseteq> dom (gm_get nxt)" and "distinct (added @ changed)"
proof -
  note D = diffUsersD [OF eq]
  show "set (added @ changed) \<subseteq> dom (gm_get nxt)" by (auto simp: D(3) D(5) gm_keys_get)
  have "distinct (gm_keys nxt)" by (rule gm.wf_keys [OF D(1)])
  then show "distinct (added @ changed)" by (auto simp: D(3) D(5) material_diff_def)
qed

lemma kept_table:
  assumes eq: "diffUsers old us hashFn = (nxt, added, deleted, changed)"
    and "\<And>h. gm_get old h \<noteq> Some None" and "x \<notin> set (added @ changed)"
  shows "runtime_table nxt x = (if x \<in> set deleted then None else runtime_table old x)"
proof -
  note D = diffUsersD [OF eq]
  show ?thesis
  proof (cases "gm_get nxt x")
    case None
    then show ?thesis by (auto simp: runtime_table_def D(4) gm_keys_get split: option.splits)
  next
    case (Some v)
    then obtain u where u: "gm_get nxt x = Some (Some u)" by (auto simp: D(2))
    with assms(3) obtain v0 where "gm_get old x = Some v0" by (auto simp: D(3) gm_keys_get)
    with assms(2) [of x] obtain u0 where u0: "gm_get old x = Some (Some u0)" by (cases v0) auto
    with u assms(3) have "\<not> userMaterialChanged u0 u" by (auto simp: D(5) gm_keys_get material_diff_def)
    with u u0 show ?thesis by (simp add: runtime_table_def D(4) unchanged_user)
  qed
qed

lemma runtime_table_dom:
  assumes eq: "diffUsers old us (buildUserHash ''SSpanel'') = (nxt, added, deleted, changed)"
    and "h \<in> dom (gm_get nxt)"
  shows "\<exists>p. runtime_table nxt h = Some p"
  using assms(2) next_user [OF eq, of h] by (fastforce simp: runtime_table_def)

lemma batch_entries:
  assumes eq: "diffUsers old us (buildUserHash ''SSpanel'') = (nxt, added, deleted, changed)"
    and up: "unique_passwords us" and dom: "set hs \<subseteq> dom (gm_get nxt)" and "distinct hs"
  shows "distinct (map fst (panel_entries (usersForHashes nxt hs)))"
    and "distinct (map snd (panel_entries (usersForHashes nxt hs)))"
    and "fst ` set (panel_entries (usersForHashes nxt hs)) = set hs"
    and "map_of (panel_entries (usersForHashes nxt hs)) x = (if x \<in> set hs then runtime_table nxt x else None)"
    and "p \<in> snd ` set (panel_entries (usersForHashes nxt hs)) \<Longrightarrow> \<exists>h \<in> set hs. runtime_table nxt h = Some p"
proof -
  let ?f = "\<lambda>h. the (runtime_table nxt h)"
  have es: "panel_entries (usersForHashes nxt hs) = map (\<lambda>h. (h, ?f h)) hs"
    by (rule usersForHashes_entries [OF eq dom])
  have some: "Some (?f h) = runtime_table nxt h" if "h \<in> set hs" for h
    using runtime_table_dom [OF eq] that dom by (metis option.sel subsetD)
  have "inj_on ?f (set hs)"
    by (rule inj_onI) (metis some runtime_table_inject [OF eq up])
  with assms(4) show "distinct (map snd (panel_entries (usersForHashes nxt hs)))"
    by (simp add: es distinct_map comp_def)
  show "distinct (map fst (panel_entries (usersForHashes nxt hs)))" using assms(4) by (simp add: es comp_def)
  show "fst ` set (panel_entries (usersForHashes nxt hs)) = set hs" by (force simp: es)
  show "map_of (panel_entries (usersForHashes nxt hs)) x = (if x \<in> set hs then runtime_table nxt x else None)"
    using some by (simp add: es map_of_map_restrict restrict_map_def)
  show "\<exists>h \<in> set hs. runtime_table nxt h = Some p" if "p \<in> snd ` set (panel_entries (usersForHashes nxt hs))"
    using that some by (metis (no_types, lifting) es imageE list.set_map snd_conv)
qed

lemma usersFromMap_eq: "gm_wf m \<Longrightarrow> usersFromMap m = usersForHashes m (gm_keys m)"
proof -
  assume "gm_wf m"
  then have "gm_get m (fst p) = Some (snd p)" if "p \<in> set m" for p
    using that by (metis gm_wf_get prod.collapse)
  then have "List.map_filter snd xs = List.map_filter (\<lambda>h. case gm_get m h of None \<Rightarrow> None | Some user \<Rightarrow> user) (map fst xs)"
    if "set xs \<subseteq> set m" for xs
    using that
    by (induction xs) (auto simp: List.map_filter_simps split: option.splits)
  then show ?thesis by (simp add: usersFromMap_def usersForHashes_def gm_keys_def)
qed

context user_runtime
begin

lemma delta_matches:
  assumes "ok s" and tab: "table s = runtime_table old" and nn: "\<And>h. gm_get old h \<noteq> Some None"
    and eq: "diffUsers old us (buildUserHash ''SSpanel'') = (nxt, added, deleted, changed)"
    and up: "unique_passwords us" and hs: "hs = added @ changed"
  shows "admissible (\<lambda>x. if x \<in> set deleted then None else table s x) (usersForHashes nxt hs)"
    and "table (add (usersForHashes nxt hs) (remove deleted s)) = runtime_table nxt"
proof -
  let ?us = "usersForHashes nxt hs"
  note es = batch_entries [OF eq up added_changed_dom [OF eq, folded hs]]
  have "x \<in> set hs"
    if f: "(if x \<in> set deleted then None else table s x) = Some p" and p: "p \<in> snd ` set (panel_entries ?us)" for x p
  proof (rule ccontr)
    assume x: "x \<notin> set hs"
    have "runtime_table nxt x = Some p"
      using f unfolding tab kept_table [OF eq nn x [unfolded hs]] .
    moreover obtain h where "h \<in> set hs" "runtime_table nxt h = Some p" using es(5) [OF p] by blast
    ultimately show False using runtime_table_inject [OF eq up] x by blast
  qed
  with es(1-3) show adm: "admissible (\<lambda>x. if x \<in> set deleted then None else table s x) ?us"
    unfolding admissible_def fits_def by blast
  show "table (add ?us (remove deleted s)) = runtime_table nxt"
  proof
    fix x
    show "table (add ?us (remove deleted s)) x = runtime_table nxt x"
    proof (cases "x \<in> set hs")
      case True
      then obtain p where "runtime_table nxt x = Some p"
        using runtime_table_dom [OF eq] added_changed_dom(1) [OF eq, folded hs] by blast
      with True show ?thesis by (simp add: delta_table [OF assms(1) adm] es(4))
    next
      case False
      with kept_table [OF eq nn False [unfolded hs]] show ?thesis
        by (simp add: delta_table [OF assms(1) adm] es(4) tab)
    qed
  qed
qed

end

text \<open>
  A controller over such a runtime: its inbound offers the incremental interface, or only the
  full refresh, and neither fails.
\<close>

locale controlled_runtime = user_runtime +
  fixes ops :: "'a inbound_ops"
  assumes ops_kind:
    "ib_incremental ops = Some \<lparr>inc_AddUsers = \<lambda>us ni i. (None, add us i), inc_RemoveUsers = \<lambda>ns i. (None, remove ns i)\<rparr>
     \<or> ib_incremental ops = None \<and> ib_RefreshUsers ops = Some (\<lambda>us ni i. (None, refresh us i))"
begin

lemma skip_remove: "ok s \<Longrightarrow> table (remove [] s) = table s"
  by (rule ext) (simp add: remove_table)

lemma skip_add: "ok s \<Longrightarrow> table (add [] s) = table s"
  by (rule ext) (simp add: add_table admissible_def fits_def panel_entries_def)

lemma runtime_delta:
  assumes "ok s" and "table s = runtime_table old" and "\<And>h. gm_get old h \<noteq> Some None"
    and eq: "diffUsers old us (buildUserHash ''SSpanel'') = (nxt, added, deleted, changed)"
    and up: "unique_passwords us"
  shows "\<exists>s'. applyRuntimeUserDelta ops ni deleted (usersForHashes nxt (added @ changed)) (usersFromMap nxt) s = (None, s')
    \<and> ok s' \<and> table s' = runtime_table nxt"
proof -
  let ?us = "usersForHashes nxt (added @ changed)"
  note m = delta_matches [OF assms refl]
  show ?thesis
  proof (cases "ib_incremental ops")
    case None
    let ?s = "refresh (usersFromMap nxt) s"
    have wf: "gm_wf nxt" by (rule diffUsersD(1) [OF eq])
    have keys: "set (gm_keys nxt) \<subseteq> dom (gm_get nxt)" "distinct (gm_keys nxt)"
      by (auto simp: gm_keys_get gm.wf_keys [OF wf])
    note es = batch_entries [OF eq up keys, folded usersFromMap_eq [OF wf]]
    have "table ?s x = runtime_table nxt x" for x
      using refresh_table [OF es(1)] by (auto simp: es(4) gm_keys_get runtime_table_def)
    moreover have "ok ?s" by (rule refresh_ok [OF es(1,2)])
    ultimately show ?thesis using ops_kind None by (auto simp: applyRuntimeUserDelta_def)
  next
    case (Some inc)
    define s1 where "s1 = (if deleted \<noteq> [] then remove deleted s else s)"
    define s2 where "s2 = (if ?us \<noteq> [] then add ?us s1 else s1)"
    have ok1: "ok s1" using assms(1) remove_ok by (simp add: s1_def)
    have t1: "table s1 = table (remove deleted s)" using skip_remove [OF assms(1)] by (simp add: s1_def)
    also have "\<dots> = (\<lambda>x. if x \<in> set deleted then None else table s x)"
      using remove_table [OF assms(1)] by auto
    finally have adm: "admissible (table s1) ?us" using m(1) by simp
    have "table (add ?us s1) x = table (add ?us (remove deleted s)) x" for x
      using adm t1 by (simp add: add_table [OF ok1] add_table [OF remove_ok [OF assms(1)]] split: option.splits)
    then have "table s2 = runtime_table nxt" using m(2) skip_add [OF ok1] by (auto simp: s2_def)
    moreover have "ok s2" using ok1 add_ok by (simp add: s2_def)
    moreover have "applyRuntimeUserDelta ops ni deleted ?us (usersFromMap nxt) s = (None, s2)"
      using ops_kind Some by (simp add: applyRuntimeUserDelta_def s1_def s2_def)
    ultimately show ?thesis by blast
  qed
qed

lemma sync_list_runtime:
  assumes inv: "ctl_inv c" and pt: "c_panelType c = ''SSpanel''" and "d_ops d = ops"
    and "ok (c_inbound c)" and "table (c_inbound c) = runtime_table (c_usersMap c)"
    and up: "unique_passwords us" and run: "sync_list d us c = (r, c')"
  shows "ok (c_inbound c') \<and> table (c_inbound c') = runtime_table (c_usersMap c') \<and>
    (r = Ok () \<and> (\<forall>h. gm_get (c_usersMap c') h = map_option Some (List.find (\<lambda>u. user_name (ui_UID u) = h) us))
     \<or> r = Panic \<and> c_usersMap c' = c_usersMap c)"
proof -
  have hash: "buildUserHash (c_panelType c) = (\<lambda>u. user_name (ui_UID u))"
    by (simp add: pt buildUserHash_def fun_eq_iff)
  obtain nxt added deleted changed where
    eq: "diffUsers (c_usersMap c) us (buildUserHash (c_panelType c)) = (nxt, added, deleted, changed)"
    by (metis prod_cases4)
  have nn: "gm_get (c_usersMap c) h \<noteq> Some None" for h
    using inv by (metis ctl_inv_def accounts_matchD(2) option.distinct(1))
  have dumped: "c_usersMap c1 = c_usersMap c \<and> c_inbound c1 = c_inbound c"
    if "c1 = c \<or> (\<exists>r1. dumpTrafficForDeleted d deleted c = (r1, c1))" for c1
    using that by (auto dest: dumpTraffic_sel)
  note delta = runtime_delta [OF assms(4,5) nn eq [unfolded pt] up, folded assms(3)]
  from run eq show ?thesis
  proof (cases rule: sync_list_cases)
    case (1 c1)
    with dumped [OF 1(1)] assms(4,5) show ?thesis by simp
  next
    case (2 c1 e i)
    with dumped [OF 2(1)] delta [of "c_nodeInfo c1"] show ?thesis by auto
  next
    case (3 c1 i)
    have "ok i \<and> table i = runtime_table nxt"
    proof (cases "added = [] \<and> deleted = [] \<and> changed = [] \<and> i = c_inbound c1")
      case True
      then have "runtime_table nxt x = runtime_table (c_usersMap c) x" for x using kept_table [OF eq nn, of x] by simp
      with True dumped [OF 3(1)] assms(4,5) show ?thesis by auto
    next
      case False
      with 3(2) dumped [OF 3(1)] delta [of "c_nodeInfo c1"] show ?thesis by auto
    qed
    then show ?thesis by (simp add: 3 diffUsersD(2) [OF eq] hash)
  qed
qed

end

text \<open>C10. A runtime that refuses a user delta costs nothing but time: the users map and every account
  and alias stay as they were, the fetched list is kept, and when the panel answers \<open>304\<close> next
  time (its ETag is already committed) the very same list is applied again.\<close>

theorem failed_sync_is_retried:
  assumes "GetUserList (d_api d) (c_api c) = (Ok us, w)" and "ctl_inv c" and "syncUserList d c = (Err e, c')"
  shows "c_usersMap c' = c_usersMap c \<and> account (c_author c') = account (c_author c)
    \<and> a_aliases (c_author c') = a_aliases (c_author c) \<and> c_userSyncPending c' \<and> c_lastUserList c' = us
    \<and> (\<forall>w'. GetUserList (d_api d) (c_api c') = (Err UserNotModified, w') \<longrightarrow>
         syncUserList d c' = sync_list d us (c'\<lparr>c_api := w'\<rparr>))"
proof -
  let ?c = "c\<lparr>c_api := w\<rparr>"
  have run: "sync_list d us ?c = (Err e, c')" using assms(1,3) by (simp add: syncUserList_def)
  obtain nxt added deleted changed where
    eq: "diffUsers (c_usersMap ?c) us (buildUserHash (c_panelType ?c)) = (nxt, added, deleted, changed)"
    by (metis prod_cases4)
  have auth: "auth_inv (c_author ?c)" using assms(2) by (simp add: ctl_inv_def)
  obtain c1 i where c1: "c1 = ?c \<or> (\<exists>r1. dumpTrafficForDeleted d deleted ?c = (r1, c1))"
    and c': "c' = c1\<lparr>c_inbound := i, c_userSyncPending := True, c_lastUserList := us\<rparr>"
    and ni: "c_nodeInfo c1 \<noteq> None"
    using run eq by (cases rule: sync_list_cases) auto
  have "c_usersMap c1 = c_usersMap c \<and> account (c_author c1) = account (c_author c)
      \<and> a_aliases (c_author c1) = a_aliases (c_author c)"
    using c1 fold_dump_keeps [OF auth] by (auto simp: dumpTraffic_sel)
  with ni show ?thesis by (auto simp: c' syncUserList_def logged_def)
qed

text \<open>Witness of C10: the first attempt fails and the retry under a \<open>304\<close> adds the user.\<close>

theorem failed_sync_is_retried_witness:
  "let c = example_controller [Ok [example_panel_user 1 ''A'']] 1; c' = snd (syncUserList example_deps c)
   in c_userSyncPending c' \<and> c_usersMap c' = [] \<and> c_inbound (snd (syncUserList example_deps c')) = (0, [''u1''])"
proof -
  let ?c = "example_controller [Ok [example_panel_user 1 ''A'']] 1"
  let ?c' = "snd (syncUserList example_deps ?c)"
  have g: "GetUserList (d_api example_deps) (c_api ?c) = (Ok [example_panel_user 1 ''A''], [])" by code_simp
  have "fst (syncUserList example_deps ?c) = Err ServiceFailed" by code_simp
  then have e: "syncUserList example_deps ?c = (Err ServiceFailed, ?c')" by (metis prod.collapse)
  note r = failed_sync_is_retried [OF g example_controller_inv e]
  have "c_inbound (snd (syncUserList example_deps ?c')) = (0, [''u1''])" by code_simp
  moreover have "c_usersMap ?c = []" by code_simp
  ultimately show ?thesis using r by (simp add: Let_def)
qed


section \<open>Connections and the device limit\<close>

lemma user_wf_mark: "user_wf u \<Longrightarrow> user_wf (snd (MarkCounterAttached u))"
  by (simp add: user_wf_def MarkCounterAttached_def)

lemma AddIP_identity: "identity_of (snd (AddIP ip u)) = identity_of u" "u_hash (snd (AddIP ip u)) = u_hash u"
  by (simp_all add: AddIP_def identity_of_def split: option.splits)

lemma mark_identity: "identity_of (snd (MarkCounterAttached u)) = identity_of u"
  "u_hash (snd (MarkCounterAttached u)) = u_hash u"
  by (simp_all add: MarkCounterAttached_def identity_of_def)

lemma LoadOrCreateUserCounter_inv:
  assumes "ctl_inv c"
  shows "ctl_inv (snd (LoadOrCreateUserCounter name source c))"
proof (cases "LoadUser (c_author c) name")
  case None
  with assms show ?thesis by (simp add: LoadOrCreateUserCounter_def)
next
  case (Some a)
  obtain h where h: "gm_get (a_users (c_author c)) h = Some a" using LoadUser_canonical [OF Some] by blast
  define f where "f = (\<lambda>u :: 'c user. snd (MarkCounterAttached u))"
  define g where "g = (\<lambda>u :: 'c user. snd (AddIP source u))"
  define s1 where "s1 = upd_user a f (c_author c)"
  define s2 where "s2 = upd_user a g s1"
  have i0: "auth_inv (c_author c)" using assms by (simp add: ctl_inv_def)
  have i1: "auth_inv s1"
    unfolding s1_def by (rule auth_inv_upd_user [OF i0]) (simp_all add: f_def user_wf_mark mark_identity)
  have i2: "auth_inv s2"
    unfolding s2_def by (rule auth_inv_upd_user [OF i1]) (simp_all add: g_def user_wf_AddIP AddIP_identity)
  have a1: "account s1 = account (c_author c)"
    unfolding s1_def by (rule account_upd_user_same [OF i0 h]) (simp add: f_def mark_identity)
  have "account s2 = account s1"
    unfolding s2_def by (rule account_upd_user_same [OF i1, of h]) (simp_all add: g_def AddIP_identity s1_def h)
  then have cases: "auth_inv s \<and> account s = account (c_author c) \<and> a_aliases s = a_aliases (c_author c)"
    if "s = c_author c \<or> s = s1 \<or> s = s2" for s
    using that i0 i1 i2 a1 by (auto simp: s1_def s2_def)
  have one: "upd_user a (\<lambda>_. f (a_heap (c_author c) ! a)) (c_author c) = s1" by (simp add: s1_def upd_user_def)
  have "snd (LoadOrCreateUserCounter name source c) \<in> {c, c\<lparr>c_author := s1\<rparr>, c\<lparr>c_author := s2\<rparr>}"
    using one by (auto simp: LoadOrCreateUserCounter_def Some Let_def f_def g_def s2_def split: prod.splits)
  moreover have "c = c\<lparr>c_author := c_author c\<rparr>" by simp
  ultimately obtain s where "s = c_author c \<or> s = s1 \<or> s = s2"
    and "snd (LoadOrCreateUserCounter name source c) = c\<lparr>c_author := s\<rparr>" by (metis insertE singletonD)
  with cases [OF this(1)] match_cong [of s "c_author c"] assms show ?thesis by (simp add: ctl_inv_def)
qed

text \<open>\<open>LoadOrCreateUserCounter\<close> hands the counters of the account to a connection from a new
  address even when that account is at its device limit: \<open>AddIP\<close> refuses the address and leaves
  the account as it was, but its answer is not looked at, so the connection goes through.\<close>

theorem over_limit_connection_admitted:
  assumes "LoadUser (c_author c) name = Some a" and "c_nodeInfo c \<noteq> None" and "auth_inv (c_author c)"
    and "gm_get (u_ipTable (a_heap (c_author c) ! a)) source = None"
    and "0 < u_maxIPNum (a_heap (c_author c) ! a)"
    and "u_maxIPNum (a_heap (c_author c) ! a) = GetIPNumber (a_heap (c_author c) ! a)"
  shows "fst (AddIP source (a_heap (c_author c) ! a)) = False
    \<and> fst (LoadOrCreateUserCounter name source c) = Ok a
    \<and> a_heap (c_author (snd (LoadOrCreateUserCounter name source c))) ! a =
        snd (MarkCounterAttached (a_heap (c_author c) ! a))"
proof -
  have "a < length (a_heap (c_author c))" using assms(1,3) by (metis LoadUser_valid)
  then show ?thesis
    using assms(1,2,4-)
    by (simp add: LoadOrCreateUserCounter_def AddIP_def GetIPNumber_def MarkCounterAttached_def Let_def upd_user_def)
qed

definition limited_controller :: "((api_error, user_info list) res list, nat \<times> string list, int) controller" where
  "limited_controller = snd (LoadOrCreateUserCounter ''u1'' ''10.0.0.1''
     (snd (syncUserList example_deps (example_controller [Ok [(example_panel_user 1 ''A'')\<lparr>ui_DeviceLimit := 1\<rparr>]] 0))))"

text \<open>An instance: one device allowed, one connected, a second one arrives.\<close>

theorem over_limit_connection_admitted_witness:
  "fst (LoadOrCreateUserCounter ''u1'' ''10.0.0.2'' limited_controller) = Ok 0
   \<and> map fst (u_ipTable (a_heap (c_author (snd (LoadOrCreateUserCounter ''u1'' ''10.0.0.2'' limited_controller))) ! 0))
       = [''10.0.0.1'']"
proof -
  have inv: "auth_inv (c_author limited_controller)"
    using LoadOrCreateUserCounter_inv [OF syncUserList_inv_step [OF example_controller_inv]]
    by (simp add: limited_controller_def ctl_inv_def)
  have l: "LoadUser (c_author limited_controller) ''u1'' = Some 0" by code_simp
  have n: "c_nodeInfo limited_controller \<noteq> None" by code_simp
  have t: "map fst (u_ipTable (a_heap (c_author limited_controller) ! 0)) = [''10.0.0.1'']" by code_simp
  have g: "gm_get (u_ipTable (a_heap (c_author limited_controller) ! 0)) ''10.0.0.2'' = None" by code_simp
  have m: "u_maxIPNum (a_heap (c_author limited_controller) ! 0) = 1" by code_simp
  have k: "GetIPNumber (a_heap (c_author limited_controller) ! 0) = 1" by code_simp
  have r: "fst (LoadOrCreateUserCounter ''u1'' ''10.0.0.2'' limited_controller) = Ok 0
    \<and> a_heap (c_author (snd (LoadOrCreateUserCounter ''u1'' ''10.0.0.2'' limited_controller))) ! 0 =
        snd (MarkCounterAttached (a_heap (c_author limited_controller) ! 0))"
    using over_limit_connection_admitted [OF l n inv g] by (simp add: m k)
  then show ?thesis using t by (simp add: MarkCounterAttached_def)
qed

end
