(* ===== verification/Controller_Monitor.thy ===== *)
theory Controller_Monitor
  imports Controller_Sync
begin

text \<open>
  \<^verbatim>\<open>poet/controller/controller.go\<close>: the start of a node, the two periodic monitors, the audit
  rules and their hits. Times are nanoseconds; \<open>now\<close> is what \<open>time.Now()\<close> returns when the
  function is called. \<^verbatim>\<open>serverstatus.GetSystemInfo\<close> and the environment variables are arguments.
\<close>

section \<open>Audit rules\<close>

definition refreshDetectRules :: "('w, 'i, 'l) deps \<Rightarrow> ('w, 'i, 'l) controller \<Rightarrow> ('w, 'i, 'l) outcome" where
  "refreshDetectRules d c =
     (case GetNodeRule (d_api d) (c_api c) of
        (Panic, w) \<Rightarrow> (Panic, c\<lparr>c_api := w\<rparr>)
      | (Err e, w) \<Rightarrow>
          (let c1 = c\<lparr>c_api := w\<rparr>; c2 = c1\<lparr>c_detectGetWarns := c_detectGetWarns c1 + 1\<rparr>
           in if e = RuleNotModified then (Ok (), c1)
              else if c_detectGetWarns c1 = 0 then logged c1 (Ok (), c2) else (Ok (), c2))
      | (Ok rules, w) \<Rightarrow>
          (let c1 = c\<lparr>c_api := w, c_detectGetWarns := 0\<rparr>
           in case rules of
                None \<Rightarrow> (Ok (), c1\<lparr>c_detectRules := Some []\<rparr>)
              | Some rs \<Rightarrow> (Ok (), c1\<lparr>c_detectRules := Some rs\<rparr>)))"

definition detectDedupTTL :: int where
  "detectDedupTTL = 60 * 10 ^ 9"

text \<open>The part of \<open>recordDetect\<close> after the dedup check: store the expiry, append the hit and prune
  the expired entries once the map has more than 4096.\<close>

definition record_hit :: "int \<Rightarrow> int \<Rightarrow> int \<Rightarrow> ('w, 'i, 'l) controller \<Rightarrow> ('w, 'i, 'l) controller" where
  "record_hit now uid ruleID c =
     (let dedup = gm_set (uid, ruleID) (now + detectDedupTTL) (c_detectDedup c)
      in c\<lparr>c_detectResults := c_detectResults c @ [\<lparr>de_UID = uid, de_RuleID = ruleID\<rparr>],
           c_detectDedup := (if 4096 < length dedup then filter (\<lambda>(_, e). \<not> e < now) dedup else dedup)\<rparr>)"

definition recordDetect :: "int \<Rightarrow> int \<Rightarrow> int \<Rightarrow> ('w, 'i, 'l) controller \<Rightarrow> ('w, 'i, 'l) controller" where
  "recordDetect now uid ruleID c =
     (case gm_get (c_detectDedup c) (uid, ruleID) of
        Some e \<Rightarrow> if now < e then c else record_hit now uid ruleID c
      | None \<Rightarrow> record_hit now uid ruleID c)"

fun first_match :: "string \<Rightarrow> detect_rule list \<Rightarrow> int option" where
  "first_match host [] = None"
| "first_match host (rule # rules) =
     (case dr_Pattern rule of
        None \<Rightarrow> first_match host rules
      | Some matchString \<Rightarrow> if matchString host then Some (dr_ID rule) else first_match host rules)"

definition MatchAudit :: "int \<Rightarrow> int \<Rightarrow> string \<Rightarrow> ('w, 'i, 'l) controller \<Rightarrow> (bool \<times> int) \<times> ('w, 'i, 'l) controller" where
  "MatchAudit now uid host c =
     (if host = [] then ((False, 0), c)
      else case c_detectRules c of
             None \<Rightarrow> ((False, 0), c)
           | Some rules \<Rightarrow>
               (case first_match host rules of
                  None \<Rightarrow> ((False, 0), c)
                | Some ruleID \<Rightarrow> ((True, ruleID), recordDetect now uid ruleID c)))"

definition drainDetectResults :: "('w, 'i, 'l) controller \<Rightarrow> detect_result list \<times> ('w, 'i, 'l) controller" where
  "drainDetectResults c = (c_detectResults c, c\<lparr>c_detectResults := []\<rparr>)"

definition SetDetectRules :: "detect_rule list \<Rightarrow> ('w, 'i, 'l) controller \<Rightarrow> ('w, 'i, 'l) controller" where
  "SetDetectRules rules c = c\<lparr>c_detectRules := Some rules\<rparr>"

definition SetNodeInfo :: "node_info option \<Rightarrow> ('w, 'i, 'l) controller \<Rightarrow> ('w, 'i, 'l) controller" where
  "SetNodeInfo info c = c\<lparr>c_nodeInfo := info\<rparr>"


section \<open>Start\<close>

definition buildNodeTag :: "node_info \<Rightarrow> ctl_config \<Rightarrow> string" where
  "buildNodeTag ni config = ni_NodeType ni @ ''_'' @ cc_ListenIP config @ ''_'' @ show_nat (unat (ni_Port ni))"

definition Env :: "bool \<Rightarrow> ('w, 'i, 'l) controller \<Rightarrow> string \<times> ('w, 'i, 'l) controller" where
  "Env wsl c =
     (let c' = (if c_env c = [] then c\<lparr>c_env := if wsl then ''development'' else ''staging''\<rparr> else c)
      in (c_env c', c'))"

text \<open>The panel settings pushed into an inbound that supports it.\<close>

definition configure_inbound :: "('w, 'i, 'l) deps \<Rightarrow> ('w, 'i, 'l) controller \<Rightarrow> api_error option \<times> ('w, 'i, 'l) controller" where
  "configure_inbound d c =
     (case ib_Configure (d_ops d) of
        None \<Rightarrow> (None, c)
      | Some configure \<Rightarrow> (case configure (c_nodeInfo c) (c_inbound c) of (e, i) \<Rightarrow> (e, c\<lparr>c_inbound := i\<rparr>)))"

definition StartController :: "('w, 'i, 'l) deps \<Rightarrow> ('w, 'i, 'l) controller \<Rightarrow> ('w, 'i, 'l) outcome" where
  "StartController d c =
     (let c1 = c\<lparr>c_clientInfo := Describe (d_api d) (c_api c)\<rparr>
      in case GetNodeInfo (d_api d) (c_api c1) of
           (Panic, w) \<Rightarrow> (Panic, c1\<lparr>c_api := w\<rparr>)
         | (Err e, w) \<Rightarrow> (Err e, c1\<lparr>c_api := w\<rparr>)
         | (Ok newNodeInfo, w) \<Rightarrow>
             if ni_Port newNodeInfo = 0 then (Err ServerPortZero, c1\<lparr>c_api := w\<rparr>)
             else (let c2 = c1\<lparr>c_api := w, c_nodeInfo := Some newNodeInfo,
                               c_Tag := buildNodeTag newNodeInfo (c_config c1)\<rparr>
                   in case configure_inbound d c2 of
                        (Some e, c3) \<Rightarrow> (Err e, c3)
                      | (None, c3) \<Rightarrow>
                          (case syncUserList d c3 of
                             (Ok _, c4) \<Rightarrow> (Ok (), c4\<lparr>c_tasks := c_tasks c4 @ [''node monitor'', ''user monitor'']\<rparr>)
                           | (Err e, c4) \<Rightarrow> (Err e, c4)
                           | (Panic, c4) \<Rightarrow> (Panic, c4))))"


section \<open>The node monitor\<close>

definition started_long_ago :: "int \<Rightarrow> ('w, 'i, 'l) controller \<Rightarrow> bool" where
  "started_long_ago now c \<longleftrightarrow> \<not> now - c_startAt c < cc_UpdatePeriodic (c_config c) * 10 ^ 9"

text \<open>The end of a node tick: limits, audit rules and the hot reload.\<close>

definition node_tick_end :: "('w, 'i, 'l) deps \<Rightarrow> bool \<Rightarrow> uint64 \<Rightarrow> node_info \<Rightarrow> ('w, 'i, 'l) controller \<Rightarrow> ('w, 'i, 'l) outcome" where
  "node_tick_end d nodeInfoChanged prevNodeSpeedLimit newNodeInfo c =
     (let c1 = (if ni_SpeedLimit newNodeInfo \<noteq> prevNodeSpeedLimit then refreshAllSpeedLimits d c else c)
      in case refreshDetectRules d c1 of
           (Panic, c2) \<Rightarrow> (Panic, c2)
         | (_, c2) \<Rightarrow>
             if (nodeInfoChanged \<or> c_reloadPending c2) \<and> ib_Configure (d_ops d) \<noteq> None then
               (case configure_inbound d c2 of
                  (Some e, c3) \<Rightarrow> (Ok (), c3\<lparr>c_reloadPending := True\<rparr>)
                | (None, c3) \<Rightarrow> (Ok (), c3\<lparr>c_reloadPending := False\<rparr>))
             else (Ok (), c2))"

definition node_tick :: "('w, 'i, 'l) deps \<Rightarrow> bool \<Rightarrow> node_info \<Rightarrow> ('w, 'i, 'l) controller \<Rightarrow> ('w, 'i, 'l) outcome" where
  "node_tick d nodeInfoChanged newNodeInfo c =
     (if ni_Port newNodeInfo = 0 then (Err ServerPortZero, c)
      else (let prevNodeSpeedLimit = (case c_nodeInfo c of None \<Rightarrow> 0 | Some ni \<Rightarrow> ni_SpeedLimit ni)
            in case syncUserList d (c\<lparr>c_nodeInfo := Some newNodeInfo\<rparr>) of
                 (Panic, c2) \<Rightarrow> (Panic, c2)
               | (Err e, c2) \<Rightarrow> logged c2 (Ok (), c2)
               | (Ok _, c2) \<Rightarrow> node_tick_end d nodeInfoChanged prevNodeSpeedLimit newNodeInfo c2))"

definition nodeInfoMonitor :: "('w, 'i, 'l) deps \<Rightarrow> int \<Rightarrow> ('w, 'i, 'l) controller \<Rightarrow> ('w, 'i, 'l) outcome" where
  "nodeInfoMonitor d now c =
     (if \<not> started_long_ago now c then (Ok (), c)
      else case GetNodeInfo (d_api d) (c_api c) of
             (Panic, w) \<Rightarrow> (Panic, c\<lparr>c_api := w\<rparr>)
           | (Ok newNodeInfo, w) \<Rightarrow> node_tick d True newNodeInfo (c\<lparr>c_api := w\<rparr>)
           | (Err e, w) \<Rightarrow>
               (let c1 = c\<lparr>c_api := w\<rparr>
                in if e = NodeNotModified then
                     (case c_nodeInfo c1 of None \<Rightarrow> (Panic, c1) | Some ni \<Rightarrow> node_tick d False ni c1)
                   else logged c1 (Ok (), c1)))"


section \<open>The user monitor\<close>

definition collect_user :: "nat \<Rightarrow> user_traffic list \<times> online_user list \<times> 'l auth \<Rightarrow>
    user_traffic list \<times> online_user list \<times> 'l auth" where
  "collect_user a = (\<lambda>(userTraffic, onlineUsers, author).
     (let ((sent, recv), user) = ResetTraffic (a_heap author ! a)
      in if sent = 0 \<and> recv = 0 then (userTraffic, onlineUsers, upd_user a (\<lambda>_. user) author)
         else (let (up, down) = trafficForSSPanel sent recv; (iplist, user') = ResetIPTable user
               in (userTraffic @ [\<lparr>ut_UID = u_UID user, ut_Email = u_Email user, ut_Upload = up, ut_Download = down\<rparr>],
                   onlineUsers @ map (\<lambda>ip. \<lparr>ou_UID = u_UID user, ou_IP = ip\<rparr>) iplist,
                   upd_user a (\<lambda>_. user') author))))"

definition collect_traffic :: "'l auth \<Rightarrow> user_traffic list \<times> online_user list \<times> 'l auth" where
  "collect_traffic author = fold collect_user (ListUsers author) ([], [], author)"

text \<open>A report that is sent when there is something to report; its error is logged and dropped.\<close>

definition report_if :: "bool \<Rightarrow> ('w \<Rightarrow> (api_error, unit) res \<times> 'w) \<Rightarrow> ('w, 'i, 'l) outcome \<Rightarrow> ('w, 'i, 'l) outcome" where
  "report_if cond call rc =
     (case rc of
        (Ok _, c) \<Rightarrow>
          if \<not> cond then (Ok (), c)
          else (case call (c_api c) of
                  (Panic, w) \<Rightarrow> (Panic, c\<lparr>c_api := w\<rparr>)
                | (_, w) \<Rightarrow> (Ok (), c\<lparr>c_api := w\<rparr>))
      | other \<Rightarrow> other)"

definition userInfoMonitor :: "('w, 'i, 'l) deps \<Rightarrow> (api_error, node_status) res \<Rightarrow> int \<Rightarrow>
    ('w, 'i, 'l) controller \<Rightarrow> ('w, 'i, 'l) outcome" where
  "userInfoMonitor d systemInfo now c =
     (if \<not> started_long_ago now c then (Ok (), c)
      else case (case systemInfo of
                   Panic \<Rightarrow> (Panic, c)
                 | Err _ \<Rightarrow> (Ok (), c)
                 | Ok status \<Rightarrow> report_if True (ReportNodeStatus (d_api d) status) (Ok (), c)) of
             (Panic, c1) \<Rightarrow> (Panic, c1)
           | (_, c1) \<Rightarrow> logged c1
               (case collect_traffic (c_author c1) of
                  (userTraffic, onlineUsers, author) \<Rightarrow>
                    (case report_if (onlineUsers \<noteq> []) (ReportNodeOnlineUsers (d_api d) onlineUsers)
                            (report_if (userTraffic \<noteq> []) (ReportUserTraffic (d_api d) userTraffic)
                              (Ok (), c1\<lparr>c_author := author\<rparr>)) of
                       (Ok _, c2) \<Rightarrow>
                         (case drainDetectResults c2 of
                            (hits, c3) \<Rightarrow> report_if (hits \<noteq> []) (ReportIllegal (d_api d) hits) (Ok (), c3))
                     | other \<Rightarrow> other)))"


section \<open>What a user tick reports\<close>

definition idle :: "'l user \<Rightarrow> bool" where
  "idle u \<longleftrightarrow> u_sent u = 0 \<and> u_recv u = 0"

definition traffic_entry :: "'l user \<Rightarrow> user_traffic" where
  "traffic_entry u = \<lparr>ut_UID = u_UID u, ut_Email = u_Email u, ut_Upload = u_sent u, ut_Download = u_recv u\<rparr>"

definition online_entries :: "'l user \<Rightarrow> online_user list" where
  "online_entries u = map (\<lambda>ip. \<lparr>ou_UID = u_UID u, ou_IP = ip\<rparr>) (gm_keys (u_ipTable u))"

definition collected :: "'l user \<Rightarrow> 'l user" where
  "collected u = (if idle u then snd (ResetTraffic u) else snd (ResetIPTable (snd (ResetTraffic u))))"

lemma collect_user_eq:
  assumes "user_wf (a_heap s ! a)"
  shows "collect_user a (ts, os, s) =
    (let u = a_heap s ! a
     in (if idle u then ts else ts @ [traffic_entry u], if idle u then os else os @ online_entries u,
         upd_user a collected s))"
proof -
  have wf: "user_wf (snd (ResetTraffic (a_heap s ! a)))" using assms by (simp add: ResetTraffic_def user_wf_def)
  have "fst (ResetIPTable (snd (ResetTraffic (a_heap s ! a)))) = gm_keys (u_ipTable (a_heap s ! a))"
    using ResetIPTable_result(1) [OF wf] by (simp add: ResetTraffic_def)
  then show ?thesis
    by (auto simp: collect_user_def Let_def idle_def traffic_entry_def online_entries_def collected_def upd_user_def
        ResetTraffic_def trafficForSSPanel_def split: prod.splits)
qed

lemma collected_frame:
  "GetTraffic (collected u) = (0, 0)" "identity_of (collected u) = identity_of u"
  "u_hash (collected u) = u_hash u" "u_UID (collected u) = u_UID u"
proof -
  have "identity_of (snd (ResetIPTable v)) = identity_of v" for v :: "'a user"
    by (rule ResetIPTable_keeps) (simp add: identity_of_def)
  then show "identity_of (collected u) = identity_of u"
    by (simp add: collected_def) (simp add: identity_of_def ResetTraffic_def)
qed (simp_all add: collected_def GetTraffic_def, simp_all add: ResetTraffic_def)

lemma collected_wf:
  assumes "user_wf u"
  shows "user_wf (collected u)" and "u_ipTable (collected u) = (if idle u then u_ipTable u else [])"
proof -
  have wf: "user_wf (snd (ResetTraffic u))" using assms by (simp add: ResetTraffic_def user_wf_def)
  show "user_wf (collected u)" using wf ResetIPTable_result(2) [OF wf] by (simp add: collected_def)
  show "u_ipTable (collected u) = (if idle u then u_ipTable u else [])"
    using ResetIPTable_result(3) [OF wf] by (simp add: collected_def) (simp add: ResetTraffic_def)
qed

lemma auth_inv_collected: "auth_inv s \<Longrightarrow> auth_inv (upd_user a collected s)"
  by (rule auth_inv_upd_user) (simp_all add: collected_wf collected_frame)

lemma collect_fold:
  assumes "auth_inv s" and "distinct as" and "\<forall>a \<in> set as. a < length (a_heap s)"
  shows "fold collect_user as (ts, os, s) =
    (ts @ map traffic_entry (filter (\<lambda>u. \<not> idle u) (map ((!) (a_heap s)) as)),
     os @ concat (map online_entries (filter (\<lambda>u. \<not> idle u) (map ((!) (a_heap s)) as))),
     fold (\<lambda>a. upd_user a collected) as s)"
  using assms
proof (induction as arbitrary: ts os s)
  case (Cons a as)
  have wf: "user_wf (a_heap s ! a)" using Cons.prems by (simp add: auth_invD)
  have inv: "auth_inv (upd_user a collected s)" by (rule auth_inv_collected [OF Cons.prems(1)])
  have same: "map ((!) (a_heap (upd_user a collected s))) as = map ((!) (a_heap s)) as"
    using Cons.prems(2,3) by (auto simp: upd_user_nth)
  show ?case
    using Cons.IH [OF inv] Cons.prems(2,3) by (simp add: collect_user_eq [OF wf] Let_def same)
qed simp

lemma collected_nth:
  assumes "distinct as" and "b < length (a_heap s)" and "\<forall>a \<in> set as. a < length (a_heap s)"
  shows "a_heap (fold (\<lambda>a. upd_user a collected) as s) ! b = (if b \<in> set as then collected (a_heap s ! b) else a_heap s ! b)"
  using assms by (induction as arbitrary: s) (auto simp: upd_user_nth)

lemma collected_auth:
  assumes "auth_inv s" and "set as \<subseteq> set (ListUsers s)"
  shows "auth_inv (fold (\<lambda>a. upd_user a collected) as s)"
    and "a_users (fold (\<lambda>a. upd_user a collected) as s) = a_users s"
    and "a_aliases (fold (\<lambda>a. upd_user a collected) as s) = a_aliases s"
    and "account (fold (\<lambda>a. upd_user a collected) as s) = account s"
proof -
  show "auth_inv (fold (\<lambda>a. upd_user a collected) as s)"
    by (rule fold_invariant_set) (simp_all add: assms auth_inv_collected)
  show "a_users (fold (\<lambda>a. upd_user a collected) as s) = a_users s"
    "a_aliases (fold (\<lambda>a. upd_user a collected) as s) = a_aliases s"
    by (simp_all add: fold_field [where g = a_users] fold_field [where g = a_aliases])
  have acc: "account (upd_user a collected t) = account t" if "auth_inv t" "a \<in> set (ListUsers t)" for a and t :: "'a auth"
    using that by (auto simp: set_ListUsers collected_frame intro: account_upd_user_same)
  have mem: "a \<in> set (ListUsers t)" if "a \<in> set as" "a_users t = a_users s" for a and t :: "'a auth"
    using that assms(2) by (auto simp: ListUsers_def)
  have "account (fold (\<lambda>a. upd_user a collected) as s) = account s
      \<and> auth_inv (fold (\<lambda>a. upd_user a collected) as s) \<and> a_users (fold (\<lambda>a. upd_user a collected) as s) = a_users s"
    by (rule fold_invariant_set [where P = "\<lambda>t. account t = account s \<and> auth_inv t \<and> a_users t = a_users s"])
       (simp_all add: assms auth_inv_collected acc mem)
  then show "account (fold (\<lambda>a. upd_user a collected) as s) = account s" by blast
qed

lemma ListUsers_valid: "auth_inv s \<Longrightarrow> \<forall>a \<in> set (ListUsers s). a < length (a_heap s)"
  by (auto simp: set_ListUsers dest: auth_invD)

text \<open>C9. One user tick reports exactly the users that moved bytes, each once with its whole
  counters, and as online exactly their addresses; afterwards every counter is zero, the address
  tables of the reported users are empty and those of the idle ones untouched, and no account
  changed.\<close>

theorem user_tick_report:
  assumes "auth_inv s" and "collect_traffic s = (traffic, online, s')"
  shows "traffic = map traffic_entry (filter (\<lambda>u. \<not> idle u) (map ((!) (a_heap s)) (ListUsers s)))
    \<and> online = concat (map online_entries (filter (\<lambda>u. \<not> idle u) (map ((!) (a_heap s)) (ListUsers s))))
    \<and> auth_inv s' \<and> account s' = account s
    \<and> (\<forall>a \<in> set (ListUsers s). GetTraffic (a_heap s' ! a) = (0, 0)
         \<and> u_ipTable (a_heap s' ! a) = (if idle (a_heap s ! a) then u_ipTable (a_heap s ! a) else []))"
proof -
  note v = ListUsers_valid [OF assms(1)] and dl = distinct_ListUsers [OF assms(1)]
  have s': "s' = fold (\<lambda>a. upd_user a collected) (ListUsers s) s"
    and t: "traffic = map traffic_entry (filter (\<lambda>u. \<not> idle u) (map ((!) (a_heap s)) (ListUsers s)))"
    and on: "online = concat (map online_entries (filter (\<lambda>u. \<not> idle u) (map ((!) (a_heap s)) (ListUsers s))))"
    using assms(2) collect_fold [OF assms(1) dl v, of "[]" "[]"] by (auto simp: collect_traffic_def)
  have "GetTraffic (a_heap s' ! a) = (0, 0)
         \<and> u_ipTable (a_heap s' ! a) = (if idle (a_heap s ! a) then u_ipTable (a_heap s ! a) else [])"
    if "a \<in> set (ListUsers s)" for a
    using that v collected_nth [OF dl, of a s] collected_wf(2) [OF auth_invD(6) [OF assms(1)]] by (simp add: s' collected_frame)
  with t on collected_auth [OF assms(1) order_refl] show ?thesis by (simp add: s')
qed

definition example_accounts :: "nat auth" where
  "example_accounts =
     upd_user 1 (\<lambda>u. count_recv 7 (count_sent 5 (snd (AddIP ''10.0.0.1'' u))))
       (snd (AddUser ''u2'' 2 (snd (AddUser ''u1'' 1 NewAuthenticator))))"

lemma example_accounts_inv: "auth_inv example_accounts"
  unfolding example_accounts_def
  by (intro auth_inv_upd_user auth_inv_AddUser auth_inv_New)
     (simp_all add: count_sent_def count_recv_def AddIP_identity user_wf_AddIP user_wf_counts)

text \<open>Witness of C9: of two users one moved bytes from one address.\<close>

theorem user_tick_report_witness:
  "fst (collect_traffic example_accounts) = [\<lparr>ut_UID = 2, ut_Email = [], ut_Upload = 5, ut_Download = 7\<rparr>]
   \<and> (case collect_traffic example_accounts of (_, _, s') \<Rightarrow> GetTraffic (a_heap s' ! 1) = (0, 0))"
proof -
  obtain ts os s' where c: "collect_traffic example_accounts = (ts, os, s')" by (cases "collect_traffic example_accounts")
  have l: "ListUsers example_accounts = [0, 1]" by code_simp
  have e: "map traffic_entry (filter (\<lambda>u. \<not> idle u) (map ((!) (a_heap example_accounts)) [0, 1])) =
      [\<lparr>ut_UID = 2, ut_Email = [], ut_Upload = 5, ut_Download = 7\<rparr>]" by code_simp
  show ?thesis
    using user_tick_report [OF example_accounts_inv c] unfolding l e c by simp
qed


section \<open>Audit hits\<close>

text \<open>The calls \<open>(now, uid, ruleID)\<close> of a run that put a hit into the report buffer.\<close>

fun audit_log :: "(int \<times> int \<times> int) list \<Rightarrow> ('w, 'i, 'l) controller \<Rightarrow> (int \<times> int \<times> int) list" where
  "audit_log [] c = []"
| "audit_log ((now, uid, rule) # calls) c =
     (if c_detectResults (recordDetect now uid rule c) \<noteq> c_detectResults c then [(now, uid, rule)] else [])
     @ audit_log calls (recordDetect now uid rule c)"

lemma recordDetect_kept:
  assumes "gm_wf (c_detectDedup c)" and "gm_get (c_detectDedup c) k = Some e"
  shows "gm_get (c_detectDedup (recordDetect now uid rule c)) k = Some e
    \<or> gm_get (c_detectDedup (recordDetect now uid rule c)) k = Some (now + detectDedupTTL) \<and> e \<le> now
    \<or> gm_get (c_detectDedup (recordDetect now uid rule c)) k = None \<and> e < now"
  using assms
  by (auto simp: recordDetect_def record_hit_def Let_def gm_get_filter go_wf gm_get_set detectDedupTTL_def
      split: option.splits if_splits)

lemma recordDetect_fresh:
  assumes "gm_wf (c_detectDedup c)" and "c_detectResults (recordDetect now uid rule c) \<noteq> c_detectResults c"
  shows "gm_get (c_detectDedup (recordDetect now uid rule c)) (uid, rule) = Some (now + detectDedupTTL)"
  using assms
  by (auto simp: recordDetect_def record_hit_def Let_def gm_get_filter go_wf gm_get_set detectDedupTTL_def
      split: option.splits if_splits)

lemma recordDetect_wf: "gm_wf (c_detectDedup c) \<Longrightarrow> gm_wf (c_detectDedup (recordDetect now uid rule c))"
  by (auto simp: recordDetect_def record_hit_def Let_def go_wf split: option.splits)

lemma recordDetect_blocked:
  "c_detectResults (recordDetect now uid rule c) \<noteq> c_detectResults c \<Longrightarrow>
   gm_get (c_detectDedup c) (uid, rule) = Some e \<Longrightarrow> e \<le> now"
  by (auto simp: recordDetect_def split: if_splits)

lemma audit_log_times: "(t, k) \<in> set (audit_log calls c) \<Longrightarrow> (t, k) \<in> set calls"
  by (induction calls c rule: audit_log.induct) (auto split: if_splits)

lemma audit_log_after:
  assumes "sorted (map fst calls)" and "gm_wf (c_detectDedup c)"
    and "gm_get (c_detectDedup c) (uid, rule) = Some e" and "(t, uid, rule) \<in> set (audit_log calls c)"
  shows "e \<le> t"
  using assms
proof (induction calls c arbitrary: e rule: audit_log.induct)
  case (2 now u r calls c)
  let ?c = "recordDetect now u r c"
  show ?case
  proof (cases "(t, uid, rule) \<in> set (audit_log calls ?c)")
    case True
    then have late: "now \<le> t" using 2(2) audit_log_times by fastforce
    from recordDetect_kept [OF 2(3,4), of now u r] 2(1) [OF _ recordDetect_wf [OF 2(3)] _ True] 2(2) late
    show ?thesis by auto
  next
    case False
    with 2(5) have "t = now" "uid = u" "rule = r" "c_detectResults ?c \<noteq> c_detectResults c" by (auto split: if_splits)
    with recordDetect_blocked 2(4) show ?thesis by metis
  qed
qed simp

text \<open>Audit hits are rate limited per user and rule: whatever hosts a user visits, two hits of
  the same rule by the same user that reach the report are at least 60 seconds apart, also across
  the pruning of the dedup map.\<close>

theorem audit_hits_spaced:
  assumes "sorted (map fst calls)" and "gm_wf (c_detectDedup c)"
  shows "sorted_wrt (\<lambda>(t, k) (t', k'). k = k' \<longrightarrow> t + detectDedupTTL \<le> t') (audit_log calls c)"
  using assms
proof (induction calls c rule: audit_log.induct)
  case (2 now u r calls c)
  let ?c = "recordDetect now u r c"
  have "now + detectDedupTTL \<le> t" if "c_detectResults ?c \<noteq> c_detectResults c" "(t, u, r) \<in> set (audit_log calls ?c)" for t
    using audit_log_after [OF _ recordDetect_wf [OF 2(3)] recordDetect_fresh [OF 2(3) that(1)] that(2)] 2(2) by simp
  then show ?case using 2(1) recordDetect_wf [OF 2(3)] 2(2) by auto
qed simp

text \<open>An instance: three visits, the second within a minute of the first.\<close>

theorem audit_hits_spaced_witness:
  "audit_log [(0, 7, 1), (30 * 10 ^ 9, 7, 1), (60 * 10 ^ 9, 7, 1)] (example_controller [] 0) =
     [(0, 7, 1), (60 * 10 ^ 9, 7, 1)]
   \<and> sorted_wrt (\<lambda>(t, k) (t', k'). k = k' \<longrightarrow> t + detectDedupTTL \<le> t')
       (audit_log [(0, 7, 1), (30 * 10 ^ 9, 7, 1), (60 * 10 ^ 9, 7, 1)] (example_controller [] 0))"
proof
  have "gm_wf (c_detectDedup (example_controller [] 0))"
    by (simp add: example_controller_def NewController_def)
  then show "sorted_wrt (\<lambda>(t, k) (t', k'). k = k' \<longrightarrow> t + detectDedupTTL \<le> t')
       (audit_log [(0, 7, 1), (30 * 10 ^ 9, 7, 1), (60 * 10 ^ 9, 7, 1)] (example_controller [] 0))"
    by (intro audit_hits_spaced) simp_all
qed code_simp


section \<open>Hot reload\<close>

lemma sync_list_frame:
  "c_panelType (snd (sync_list d us c)) = c_panelType c \<and> c_nodeInfo (snd (sync_list d us c)) = c_nodeInfo c
   \<and> c_reloadPending (snd (sync_list d us c)) = c_reloadPending c
   \<and> c_tasks (snd (sync_list d us c)) = c_tasks c \<and> c_config (snd (sync_list d us c)) = c_config c"
proof -
  obtain r c' where run: "sync_list d us c = (r, c')" by (metis surj_pair)
  obtain nxt added deleted changed where
    eq: "diffUsers (c_usersMap c) us (buildUserHash (c_panelType c)) = (nxt, added, deleted, changed)"
    by (metis prod_cases4)
  have dumped: "c_panelType c1 = c_panelType c \<and> c_nodeInfo c1 = c_nodeInfo c \<and> c_reloadPending c1 = c_reloadPending c
      \<and> c_tasks c1 = c_tasks c \<and> c_config c1 = c_config c"
    if "c1 = c \<or> (\<exists>r1. dumpTrafficForDeleted d deleted c = (r1, c1))" for c1
    using that by (auto dest: dumpTraffic_sel)
  have "c_panelType c' = c_panelType c \<and> c_nodeInfo c' = c_nodeInfo c \<and> c_reloadPending c' = c_reloadPending c
      \<and> c_tasks c' = c_tasks c \<and> c_config c' = c_config c"
    using run eq
  proof (cases rule: sync_list_cases)
    case (1 c1)
    with dumped [OF 1(1)] show ?thesis by simp
  next
    case (2 c1 e i)
    with dumped [OF 2(1)] show ?thesis by simp
  next
    case (3 c1 i)
    with dumped [OF 3(1)] show ?thesis by simp
  qed
  then show ?thesis by (simp add: run)
qed

lemma syncUserList_frame:
  "c_panelType (snd (syncUserList d c)) = c_panelType c"
  "c_nodeInfo (snd (syncUserList d c)) = c_nodeInfo c"
  "c_reloadPending (snd (syncUserList d c)) = c_reloadPending c"
  "c_tasks (snd (syncUserList d c)) = c_tasks c"
  "c_config (snd (syncUserList d c)) = c_config c"
  by (auto simp: syncUserList_def logged_def Let_def sync_list_frame split: prod.splits res.splits option.splits)

lemma refreshDetectRules_frame:
  "c_inbound (snd (refreshDetectRules d c)) = c_inbound c" "c_nodeInfo (snd (refreshDetectRules d c)) = c_nodeInfo c"
  "c_reloadPending (snd (refreshDetectRules d c)) = c_reloadPending c"
  by (auto simp: refreshDetectRules_def logged_def Let_def split: prod.splits res.splits option.splits)

text \<open>A failed hot reload is retried on the next tick although the panel answers \<open>304\<close>: with the
  node information unchanged, the tick hands it to the inbound again and the flag is cleared exactly
  when that succeeds.\<close>

theorem failed_reload_is_retried:
  assumes "started_long_ago now c" and "c_reloadPending c" and "c_nodeInfo c = Some ni" and "ni_Port ni \<noteq> 0"
    and "GetNodeInfo (d_api d) (c_api c) = (Err NodeNotModified, w)" and "ib_Configure (d_ops d) = Some configure"
    and "syncUserList d (c\<lparr>c_api := w\<rparr>) = (Ok (), c1)" and "refreshDetectRules d c1 = (Ok (), c2)"
  shows "nodeInfoMonitor d now c =
    (Ok (), c2\<lparr>c_inbound := snd (configure (Some ni) (c_inbound c2)),
              c_reloadPending := fst (configure (Some ni) (c_inbound c2)) \<noteq> None\<rparr>)"
proof -
  have upd: "c\<lparr>c_api := w, c_nodeInfo := Some ni\<rparr> = c\<lparr>c_api := w\<rparr>" using assms(3) by simp
  have fr: "c_nodeInfo c2 = Some ni" "c_reloadPending c2"
    using syncUserList_frame [of d "c\<lparr>c_api := w\<rparr>"] refreshDetectRules_frame [of d c1] assms(2,3,7,8) by simp_all
  have "syncUserList d (c\<lparr>c_api := w, c_nodeInfo := Some ni\<rparr>) = (Ok (), c1)" unfolding upd by (rule assms(7))
  then show ?thesis
    using assms fr
    by (cases "configure (Some ni) (c_inbound c2)"; cases "fst (configure (Some ni) (c_inbound c2))")
       (simp_all add: nodeInfoMonitor_def node_tick_def node_tick_end_def configure_inbound_def)
qed

text \<open>What a tick does when the node is not modified, nothing is pending and the speed limit is the known one: it
  synchronises the users and refreshes the audit rules.\<close>

definition unchanged_tick :: "('w, 'i, 'l) deps \<Rightarrow> int \<Rightarrow> ('w, 'i, 'l) controller \<Rightarrow> ('w, 'i, 'l) controller" where
  "unchanged_tick d now c =
     (if \<not> started_long_ago now c then c
      else case syncUserList d (c\<lparr>c_api := snd (GetNodeInfo (d_api d) (c_api c))\<rparr>) of
             (Ok _, c1) \<Rightarrow> snd (refreshDetectRules d c1)
           | (_, c1) \<Rightarrow> c1)"

text \<open>A run of node ticks at the given times, and that the panel answers each of them with \<open>304\<close>.\<close>

fun node_ticks :: "('w, 'i, 'l) deps \<Rightarrow> int list \<Rightarrow> ('w, 'i, 'l) controller \<Rightarrow> ('w, 'i, 'l) controller" where
  "node_ticks d [] c = c"
| "node_ticks d (now # nows) c = node_ticks d nows (snd (nodeInfoMonitor d now c))"

fun answers_304 :: "('w, 'i, 'l) deps \<Rightarrow> int list \<Rightarrow> ('w, 'i, 'l) controller \<Rightarrow> bool" where
  "answers_304 d [] c = True"
| "answers_304 d (now # nows) c \<longleftrightarrow> fst (GetNodeInfo (d_api d) (c_api c)) = Err NodeNotModified
     \<and> answers_304 d nows (snd (nodeInfoMonitor d now c))"

lemma tick_not_modified:
  assumes "c_nodeInfo c = Some ni" and "ni_Port ni \<noteq> 0" and "\<not> c_reloadPending c"
    and "fst (GetNodeInfo (d_api d) (c_api c)) = Err NodeNotModified"
  shows "snd (nodeInfoMonitor d now c) = unchanged_tick d now c"
    and "c_nodeInfo (unchanged_tick d now c) = Some ni" and "\<not> c_reloadPending (unchanged_tick d now c)"
proof -
  obtain w where g: "GetNodeInfo (d_api d) (c_api c) = (Err NodeNotModified, w)" using assms(4) by (metis prod.collapse)
  have upd: "c\<lparr>c_api := w, c_nodeInfo := Some ni\<rparr> = c\<lparr>c_api := w\<rparr>" using assms(1) by simp
  obtain r c1 where s: "syncUserList d (c\<lparr>c_api := w\<rparr>) = (r, c1)" by (metis surj_pair)
  then have s': "syncUserList d (c\<lparr>c_api := w, c_nodeInfo := Some ni\<rparr>) = (r, c1)" by (simp only: upd)
  have f1: "\<not> c_reloadPending c1" "c_nodeInfo c1 = Some ni"
    using syncUserList_frame [of d "c\<lparr>c_api := w\<rparr>"] assms(1,3) s by simp_all
  obtain r2 c2 where t: "refreshDetectRules d c1 = (r2, c2)" by (metis surj_pair)
  have f2: "\<not> c_reloadPending c2" "c_nodeInfo c2 = Some ni"
    using refreshDetectRules_frame [of d c1] f1 t by simp_all
  have e: "snd (node_tick_end d False (ni_SpeedLimit ni) ni c1) = c2"
    using f2 by (cases r2) (simp_all add: node_tick_end_def t)
  show "snd (nodeInfoMonitor d now c) = unchanged_tick d now c"
    using g assms(1,2) f1 s s' t e
    by (cases r) (simp_all add: nodeInfoMonitor_def node_tick_def unchanged_tick_def logged_def)
  show "c_nodeInfo (unchanged_tick d now c) = Some ni" "\<not> c_reloadPending (unchanged_tick d now c)"
    using g assms(1,3) f1 f2 s t by (cases r; simp add: unchanged_tick_def)+
qed

lemma ticks_not_modified:
  assumes "c_nodeInfo c = Some ni" and "ni_Port ni \<noteq> 0" and "\<not> c_reloadPending c" and "answers_304 d nows c"
  shows "node_ticks d nows c = fold (unchanged_tick d) nows c \<and> c_nodeInfo (node_ticks d nows c) = Some ni
    \<and> \<not> c_reloadPending (node_ticks d nows c)"
  using assms
proof (induction nows arbitrary: c)
  case (Cons now nows)
  have g: "fst (GetNodeInfo (d_api d) (c_api c)) = Err NodeNotModified" using Cons.prems(4) by simp
  note t = tick_not_modified [OF Cons.prems(1-3) g, of now]
  have step: "node_ticks d (now # nows) c = node_ticks d nows (unchanged_tick d now c)" by (simp add: t(1))
  have "answers_304 d nows (unchanged_tick d now c)" using Cons.prems(4) by (simp add: t(1))
  from Cons.IH [OF t(2) Cons.prems(2) t(3) this] show ?case unfolding step by (metis fold_simps(2))
qed simp

text \<open>C40. A reload can be lost for good. When the node information changes in a tick whose user
  synchronisation fails, the new information is already committed but the inbound is not told and
  \<open>reloadPending\<close> stays clear; then, for any number of ticks that the panel answers with \<open>304\<close>, each tick does no more than
  synchronise the users and refresh the audit rules: the inbound is never configured with the new node, the speed limits of the
  users are not recomputed, and \<open>reloadPending\<close> is never set.\<close>

theorem reload_lost_after_failed_sync:
  assumes "started_long_ago now c" and "\<not> c_reloadPending c" and "ni_Port ni \<noteq> 0"
    and "GetNodeInfo (d_api d) (c_api c) = (Ok ni, w)"
    and "syncUserList d (c\<lparr>c_api := w, c_nodeInfo := Some ni\<rparr>) = (Err e, c1)" and "answers_304 d nows c1"
  shows "nodeInfoMonitor d now c = (Ok (), c1) \<and> c_nodeInfo c1 = Some ni
    \<and> node_ticks d nows c1 = fold (unchanged_tick d) nows c1
    \<and> c_nodeInfo (node_ticks d nows c1) = Some ni \<and> \<not> c_reloadPending (node_ticks d nows c1)"
proof -
  have fr: "c_nodeInfo c1 = Some ni" "\<not> c_reloadPending c1"
    using syncUserList_frame [of d "c\<lparr>c_api := w, c_nodeInfo := Some ni\<rparr>"] assms(2,5) by simp_all
  have "nodeInfoMonitor d now c = (Ok (), c1)"
    using assms fr by (simp add: nodeInfoMonitor_def node_tick_def Let_def logged_def)
  with fr ticks_not_modified [OF fr(1) assms(3) fr(2) assms(6)] show ?thesis by blast
qed

definition started_deps :: "((api_error, user_info list) res list, nat \<times> string list, int) deps" where
  "started_deps = example_deps\<lparr>d_api := scripted_api\<lparr>GetNodeInfo := \<lambda>w. (Ok example_node_info, w)\<rparr>\<rparr>"

text \<open>Witnesses: a node that has been running for an hour, over an inbound whose reconfiguration fails
  (the inbound state is the number of reconfigurations tried).\<close>

definition reload_ops :: "bool \<Rightarrow> nat inbound_ops" where
  "reload_ops fails =
     \<lparr>ib_incremental = None, ib_RefreshUsers = Some (\<lambda>_ _ n. (None, n)),
      ib_Configure = Some (\<lambda>_ n. (if fails then Some (ListenFailed 443) else None, n + 1))\<rparr>"

definition node_api :: "((api_error, node_info) res list \<times> (api_error, user_info list) res list) api" where
  "node_api =
     \<lparr>GetNodeInfo = \<lambda>(ns, us). case ns of [] \<Rightarrow> (Err NodeNotModified, ([], us)) | n # ns' \<Rightarrow> (n, (ns', us)),
      GetUserList = \<lambda>(ns, us). case us of [] \<Rightarrow> (Err UserNotModified, (ns, [])) | u # us' \<Rightarrow> (u, (ns, us')),
      ReportNodeStatus = \<lambda>_ w. (Ok (), w), ReportNodeOnlineUsers = \<lambda>_ w. (Ok (), w),
      ReportUserTraffic = \<lambda>_ w. (Ok (), w),
      Describe = \<lambda>w. \<lparr>ci_APIHost = [], ci_NodeID = 1, ci_Key = [], ci_NodeType = ''V2ray''\<rparr>,
      GetNodeRule = \<lambda>w. (Err RuleNotModified, w), ReportIllegal = \<lambda>_ w. (Ok (), w)\<rparr>"

definition reload_deps :: "bool \<Rightarrow> ((api_error, node_info) res list \<times> (api_error, user_info list) res list, nat, int) deps" where
  "reload_deps fails = \<lparr>d_api = node_api, d_ops = reload_ops fails, d_rate = unit_rate\<rparr>"

definition running_node :: "bool \<Rightarrow> (api_error, node_info) res list \<Rightarrow> (api_error, user_info list) res list \<Rightarrow>
    ((api_error, node_info) res list \<times> (api_error, user_info list) res list, nat, int) controller" where
  "running_node pending ns us =
     (NewController example_config 0 (ns, us) 0)\<lparr>c_nodeInfo := Some example_node_info, c_reloadPending := pending\<rparr>"

abbreviation hour :: int where
  "hour \<equiv> 3600 * 10 ^ 9"

text \<open>An instance: the second attempt succeeds and clears the flag.\<close>

theorem failed_reload_is_retried_witness:
  "c_inbound (snd (nodeInfoMonitor (reload_deps False) hour (running_node True [] []))) = 1
   \<and> \<not> c_reloadPending (snd (nodeInfoMonitor (reload_deps False) hour (running_node True [] [])))"
proof -
  let ?c = "running_node True [] []" and ?d = "reload_deps False"
  have "started_long_ago hour ?c" "c_reloadPending ?c" "c_nodeInfo ?c = Some example_node_info"
    "ni_Port example_node_info \<noteq> 0" "GetNodeInfo (d_api ?d) (c_api ?c) = (Err NodeNotModified, ([], []))"
    "ib_Configure (d_ops ?d) = Some (\<lambda>_ n. (None, n + 1))" "syncUserList ?d (?c\<lparr>c_api := ([], [])\<rparr>) = (Ok (), ?c)"
    "refreshDetectRules ?d ?c = (Ok (), ?c)"
    by (simp_all add: running_node_def reload_deps_def reload_ops_def NewController_def started_long_ago_def
        example_config_def example_node_info_def zero_node_info_def node_api_def syncUserList_def logged_def
        refreshDetectRules_def)
  from failed_reload_is_retried [OF this] show ?thesis
    by (simp add: running_node_def NewController_def)
qed

text \<open>Witness of C40: the port moves in a tick whose user list request fails; two ticks later the inbound has still not been
  configured once.\<close>

theorem reload_lost_after_failed_sync_witness:
  "let c = running_node False [Ok (example_node_info\<lparr>ni_Port := 8443\<rparr>)] [Err RequestFailed];
       c1 = snd (nodeInfoMonitor (reload_deps False) hour c);
       c2 = node_ticks (reload_deps False) [2 * hour, 3 * hour] c1
   in c_nodeInfo c2 = Some (example_node_info\<lparr>ni_Port := 8443\<rparr>) \<and> \<not> c_reloadPending c2 \<and> c_inbound c2 = 0"
proof -
  let ?ni = "example_node_info\<lparr>ni_Port := 8443\<rparr>" and ?d = "reload_deps False"
  let ?c = "running_node False [Ok ?ni] [Err RequestFailed]"
  let ?d1 = "?c\<lparr>c_api := ([], []), c_nodeInfo := Some ?ni\<rparr>"
  have h: "started_long_ago hour ?c" "\<not> c_reloadPending ?c" "ni_Port ?ni \<noteq> 0"
    "GetNodeInfo (d_api ?d) (c_api ?c) = (Ok ?ni, ([], [Err RequestFailed]))"
    "syncUserList ?d (?c\<lparr>c_api := ([], [Err RequestFailed]), c_nodeInfo := Some ?ni\<rparr>) = (Err RequestFailed, ?d1)"
    by (simp_all add: running_node_def reload_deps_def NewController_def started_long_ago_def example_config_def
        node_api_def syncUserList_def)
  have ans: "answers_304 ?d [2 * hour, 3 * hour] ?d1"
    by (simp add: running_node_def reload_deps_def NewController_def node_api_def nodeInfoMonitor_def node_tick_def
        node_tick_end_def started_long_ago_def example_config_def syncUserList_def logged_def refreshDetectRules_def
        example_node_info_def zero_node_info_def)
  note r = reload_lost_after_failed_sync [OF h ans]
  have "c_inbound (fold (unchanged_tick ?d) [2 * hour, 3 * hour] ?d1) = 0"
    by (simp add: running_node_def reload_deps_def NewController_def node_api_def unchanged_tick_def
        started_long_ago_def example_config_def syncUserList_def logged_def refreshDetectRules_def)
  then have "c_inbound (node_ticks ?d [2 * hour, 3 * hour] ?d1) = 0" using r by metis
  moreover have "snd (nodeInfoMonitor ?d hour ?c) = ?d1" using r by (metis snd_conv)
  ultimately show ?thesis using r unfolding Let_def by metis
qed

text \<open>Starting a node keeps the accounts consistent.\<close>

lemma ctl_inv_update2 [simp]:
  "ctl_inv (c\<lparr>c_detectRules := a\<rparr>) = ctl_inv c" "ctl_inv (c\<lparr>c_detectGetWarns := b\<rparr>) = ctl_inv c"
  "ctl_inv (c\<lparr>c_detectResults := r\<rparr>) = ctl_inv c" "ctl_inv (c\<lparr>c_detectDedup := m\<rparr>) = ctl_inv c"
  "ctl_inv (c\<lparr>c_reloadPending := f\<rparr>) = ctl_inv c" "ctl_inv (c\<lparr>c_tasks := t\<rparr>) = ctl_inv c"
  "ctl_inv (c\<lparr>c_Tag := g\<rparr>) = ctl_inv c" "ctl_inv (c\<lparr>c_clientInfo := i\<rparr>) = ctl_inv c"
  by (simp_all add: ctl_inv_def)

lemma configure_inbound_inv: "ctl_inv c \<Longrightarrow> ctl_inv (snd (configure_inbound d c))"
  by (auto simp: configure_inbound_def split: prod.splits option.splits)

lemma StartController_inv:
  assumes "ctl_inv c"
  shows "ctl_inv (snd (StartController d c))"
proof -
  define c1 where "c1 = c\<lparr>c_clientInfo := Describe (d_api d) (c_api c)\<rparr>"
  have c1: "ctl_inv c1" using assms by (simp add: c1_def)
  obtain r w where r: "GetNodeInfo (d_api d) (c_api c1) = (r, w)" by (metis surj_pair)
  show ?thesis
  proof (cases r)
    case (Ok ni)
    define c2 where "c2 = c1\<lparr>c_api := w, c_nodeInfo := Some ni, c_Tag := buildNodeTag ni (c_config c1)\<rparr>"
    obtain e c3 where e: "configure_inbound d c2 = (e, c3)" by (metis surj_pair)
    have "ctl_inv c2" using c1 by (simp add: c2_def)
    from configure_inbound_inv [OF this] e have c3: "ctl_inv c3" by (metis snd_conv)
    obtain s c4 where s: "syncUserList d c3 = (s, c4)" by (metis surj_pair)
    have c4: "ctl_inv c4" using syncUserList_inv_step [OF c3] s by (metis snd_conv)
    show ?thesis
      unfolding StartController_def Let_def c1_def [symmetric] r Ok prod.case res.case c2_def [symmetric] e s
      using c1 c3 c4 by (cases e; cases s) simp_all
  qed (use c1 in \<open>simp_all add: StartController_def Let_def c1_def [symmetric] r\<close>)
qed

end
