(* ===== verification/Controller_Interleaving.thy ===== *)
theory Controller_Interleaving
  imports Controller_Monitor
begin

text \<open>
  The controller between its own calls. Connections look accounts up and count bytes while the node
  monitor installs a new user list and the user monitor collects counters, so this theory cuts
  \<open>commit_users\<close> into its accesses to the shared tables (\<^verbatim>\<open>sync.Map\<close> operations, field writes and the
  assignment of \<open>usersMap\<close>) and the collection of traffic into its swaps, and lets everything else
  happen between any two of them.
\<close>

section \<open>A commit as a sequence of accesses\<close>

text \<open>
  What is left to do of a commit. A call of the authenticator (\<open>Call_Del\<close>, \<open>Call_Profile\<close>,
  \<open>Call_Aliases\<close>) is replaced, when it is entered, by the accesses it makes; the accesses of
  \<open>SetUserProfile\<close> write through the pointer that \<open>LoadUser\<close> returned.
\<close>

datatype sync_call =
    Set_Synced
  | Call_Del string
  | Unregister string
  | Drop_Aliases string
  | Call_Add string int
  | Install users_map
  | Call_Profile string user_info
  | Put_Email nat string
  | Put_UUID nat string
  | Put_Passwd nat string
  | Call_Aliases string "string list"
  | Store_Aliases string "string list"
  | Call_Limits string user_info

definition on_author :: "('l auth \<Rightarrow> 'l auth) \<Rightarrow> ('w, 'i, 'l) controller \<Rightarrow> ('w, 'i, 'l) controller" where
  "on_author f c = c\<lparr>c_author := f (c_author c)\<rparr>"

fun effect :: "('w, 'i, 'l) deps \<Rightarrow> sync_call \<Rightarrow> ('w, 'i, 'l) controller \<Rightarrow> ('w, 'i, 'l) controller" where
  "effect d Set_Synced c = c\<lparr>c_userSyncPending := False, c_lastUserList := []\<rparr>"
| "effect d (Call_Del h) c = on_author (\<lambda>s. snd (DelUser h s)) c"
| "effect d (Unregister h) c = on_author (\<lambda>s. s\<lparr>a_users := gm_del h (a_users s)\<rparr>) c"
| "effect d (Drop_Aliases h) c = on_author (deleteAliases h) c"
| "effect d (Call_Add h uid) c = on_author (\<lambda>s. snd (AddUser h uid s)) c"
| "effect d (Install m) c = c\<lparr>c_usersMap := m\<rparr>"
| "effect d (Call_Profile h u) c = on_author (SetUserProfile h u) c"
| "effect d (Put_Email a x) c = on_author (upd_user a (\<lambda>u. u\<lparr>u_Email := x\<rparr>)) c"
| "effect d (Put_UUID a x) c = on_author (upd_user a (\<lambda>u. u\<lparr>u_UUID := x\<rparr>)) c"
| "effect d (Put_Passwd a x) c = on_author (upd_user a (\<lambda>u. u\<lparr>u_Passwd := x\<rparr>)) c"
| "effect d (Call_Aliases h xs) c = on_author (SetUserAliases h xs) c"
| "effect d (Store_Aliases h xs) c = on_author (fold (store_alias h) xs) c"
| "effect d (Call_Limits h u) c = ApplyUserLimits d h u c"

text \<open>The calls of \<open>syncUserList\<close> once the runtime has the delta, in the order of the code.\<close>

definition add_calls :: "users_map \<Rightarrow> string \<Rightarrow> sync_call list" where
  "add_calls nextMap hash = (case gm_get nextMap hash of Some (Some u) \<Rightarrow> [Call_Add hash (ui_UID u)] | _ \<Rightarrow> [])"

definition refresh_calls :: "users_map \<Rightarrow> string \<Rightarrow> sync_call list" where
  "refresh_calls nextMap hash =
     (case gm_get nextMap hash of
        Some (Some u) \<Rightarrow> [Call_Profile hash u, Call_Aliases hash [ui_UUID u, ui_Passwd u, ui_Email u], Call_Limits hash u]
      | _ \<Rightarrow> [])"

definition commit_calls :: "users_map \<Rightarrow> string list \<Rightarrow> string list \<Rightarrow> string list \<Rightarrow> sync_call list" where
  "commit_calls nextMap added deleted changed =
     Set_Synced # map Call_Del deleted @ concat (map (add_calls nextMap) added) @ [Install nextMap]
     @ concat (map (refresh_calls nextMap) added) @ concat (map (refresh_calls nextMap) changed)"

text \<open>
  One access of the monitor goroutine. \<open>deleteAliases\<close> ranges over the table and deletes the keys it
  finds one by one, in any order.
\<close>

fun one_access :: "sync_call \<Rightarrow> bool" where
  "one_access (Call_Del _) = False"
| "one_access (Drop_Aliases _) = False"
| "one_access (Call_Profile _ _) = False"
| "one_access (Call_Aliases _ _) = False"
| "one_access (Store_Aliases _ _) = False"
| "one_access _ = True"

inductive sync_step :: "('w, 'i, 'l) deps \<Rightarrow> ('w, 'i, 'l) controller \<Rightarrow> sync_call list \<Rightarrow>
    ('w, 'i, 'l) controller \<Rightarrow> sync_call list \<Rightarrow> bool" for d where
  access: "one_access i \<Longrightarrow> sync_step d c (i # todo) (effect d i c) todo"
| del_missing: "gm_get (a_users (c_author c)) h = None \<Longrightarrow> sync_step d c (Call_Del h # todo) c todo"
| del_close: "gm_get (a_users (c_author c)) h = Some a \<Longrightarrow>
    sync_step d c (Call_Del h # todo) (on_author (upd_user a User_Close) c) (Unregister h # Drop_Aliases h # todo)"
| drop_one: "gm_get (a_aliases (c_author c)) x = Some h \<Longrightarrow>
    sync_step d c (Drop_Aliases h # todo)
      (on_author (\<lambda>s. s\<lparr>a_aliases := gm_del x (a_aliases s)\<rparr>) c) (Drop_Aliases h # todo)"
| drop_end: "(\<forall>p \<in> set (a_aliases (c_author c)). snd p \<noteq> h) \<Longrightarrow> sync_step d c (Drop_Aliases h # todo) c todo"
| profile_missing: "LoadUser (c_author c) h = None \<Longrightarrow> sync_step d c (Call_Profile h u # todo) c todo"
| profile: "LoadUser (c_author c) h = Some a \<Longrightarrow>
    sync_step d c (Call_Profile h u # todo) c
      (Put_Email a (ui_Email u) # Put_UUID a (ui_UUID u) # Put_Passwd a (ui_Passwd u) # todo)"
| aliases: "sync_step d c (Call_Aliases h xs # todo) c (Drop_Aliases h # Store_Aliases h xs # todo)"
| store_one: "sync_step d c (Store_Aliases h (x # xs) # todo) (on_author (store_alias h x) c) (Store_Aliases h xs # todo)"
| store_end: "sync_step d c (Store_Aliases h [] # todo) c todo"

text \<open>Without interference the accesses add up to \<open>commit_users\<close>.\<close>

lemma fold_add_calls: "fold (effect d) (concat (map (add_calls m) hs)) c = on_author (fold (add_author m) hs) c"
proof (induction hs arbitrary: c)
  case (Cons h hs)
  have "fold (effect d) (add_calls m h) c = on_author (add_author m h) c"
    by (simp add: add_calls_def add_author_def on_author_def split: option.splits)
  with Cons show ?case by (simp add: on_author_def)
qed (simp add: on_author_def)

lemma fold_refresh_calls: "fold (effect d) (concat (map (refresh_calls m) hs)) c = fold (refresh_author d m) hs c"
proof (induction hs arbitrary: c)
  case (Cons h hs)
  have "fold (effect d) (refresh_calls m h) c = refresh_author d m h c"
    by (simp add: refresh_calls_def refresh_author_def on_author_def split: option.splits)
  with Cons show ?case by simp
qed simp

lemma commit_calls_effect:
  "fold (effect d) (commit_calls nextMap added deleted changed) c = commit_users d nextMap added deleted changed c"
proof -
  have "fold (effect d) (map Call_Del deleted) c = on_author (fold (\<lambda>h s. snd (DelUser h s)) deleted) c" for c :: "('a, 'b, 'c) controller"
    by (induction deleted arbitrary: c) (simp_all add: on_author_def)
  then show ?thesis
    by (simp add: commit_calls_def commit_users_def fold_add_calls fold_refresh_calls Let_def) (simp add: on_author_def)
qed

lemma upd_user_upd_user: "upd_user a f (upd_user a g s) = upd_user a (\<lambda>u. f (g u)) s"
  by (cases "a < length (a_heap s)") (simp_all add: upd_user_def list_update_beyond)

lemma deleteAliases_done: "\<forall>p \<in> set (a_aliases s). snd p \<noteq> h \<Longrightarrow> deleteAliases h s = s"
  by (cases s) (auto simp: deleteAliases_def intro!: filter_True)

lemma deleteAliases_one:
  assumes "gm_wf (a_aliases s)" and "gm_get (a_aliases s) x = Some h"
  shows "deleteAliases h (s\<lparr>a_aliases := gm_del x (a_aliases s)\<rparr>) = deleteAliases h s"
proof -
  have "filter (\<lambda>p. fst p \<noteq> x \<and> snd p \<noteq> h) (a_aliases s) = filter (\<lambda>p. snd p \<noteq> h) (a_aliases s)"
    using assms by (intro filter_cong refl) (auto simp: gm_wf_get)
  then show ?thesis by (simp add: deleteAliases_def gm_del_def case_prod_unfold conj_commute)
qed

lemma sync_step_effect:
  assumes "sync_step d c todo c' todo'" and "gm_wf (a_aliases (c_author c))"
  shows "fold (effect d) todo' c' = fold (effect d) todo c"
  using assms
proof (cases rule: sync_step.cases)
  case (profile h a u rest)
  then have "SetUserProfile h u (c_author c) =
      upd_user a (\<lambda>v. v\<lparr>u_Passwd := ui_Passwd u\<rparr>) (upd_user a (\<lambda>v. v\<lparr>u_UUID := ui_UUID u\<rparr>)
        (upd_user a (\<lambda>v. v\<lparr>u_Email := ui_Email u\<rparr>) (c_author c)))"
    by (simp add: SetUserProfile_def upd_user_upd_user)
  with profile show ?thesis by (simp add: on_author_def)
next
  case (drop_one x h rest)
  then show ?thesis using assms(2) by (simp add: on_author_def deleteAliases_one)
qed (simp_all add: on_author_def DelUser_def SetUserProfile_def SetUserAliases_def deleteAliases_done)


section \<open>What happens between two accesses\<close>

text \<open>
  Everything else that touches the controller leaves the two tables, the users map and what identifies an
  account alone: connections, byte counts through any pointer ever handed out, the user monitor, traffic dumps, limits,
  audits, requests to the panel and changes of the inbound. Such a change is \<open>quiet\<close>.
\<close>

definition name_tag :: "'l user \<Rightarrow> string \<times> identity" where
  "name_tag u = (u_hash u, identity_of u)"

definition same_names :: "('w, 'i, 'l) controller \<Rightarrow> ('w, 'i, 'l) controller \<Rightarrow> bool" where
  "same_names c c' \<longleftrightarrow> a_users (c_author c') = a_users (c_author c) \<and> a_aliases (c_author c') = a_aliases (c_author c)
     \<and> map name_tag (a_heap (c_author c')) = map name_tag (a_heap (c_author c))
     \<and> c_usersMap c' = c_usersMap c \<and> c_panelType c' = c_panelType c"

definition heap_wf :: "('w, 'i, 'l) controller \<Rightarrow> bool" where
  "heap_wf c \<longleftrightarrow> (\<forall>u \<in> set (a_heap (c_author c)). user_wf u)"

definition quiet :: "('w, 'i, 'l) controller \<Rightarrow> ('w, 'i, 'l) controller \<Rightarrow> bool" where
  "quiet c c' \<longleftrightarrow> same_names c c' \<and> (heap_wf c \<longrightarrow> heap_wf c')"

lemma quiet_refl [simp]: "quiet c c"
  by (simp add: quiet_def same_names_def)

lemma quiet_trans: "quiet c c1 \<Longrightarrow> quiet c1 c2 \<Longrightarrow> quiet c c2"
  by (auto simp: quiet_def same_names_def)

lemma map_update_tag:
  assumes "\<And>u. t (f u) = g (t u)"
  shows "map t (xs[a := f (xs ! a)]) = (map t xs)[a := g (map t xs ! a)]"
proof (cases "a < length xs")
  case True
  then show ?thesis by (simp add: map_update assms)
qed (simp add: list_update_beyond)

lemma tags_upd_user:
  assumes "\<And>u. name_tag (f u) = g (name_tag u)"
  shows "map name_tag (a_heap (upd_user a f s)) =
    (map name_tag (a_heap s))[a := g (map name_tag (a_heap s) ! a)]"
  unfolding upd_user_def by (simp add: map_update_tag [where t = name_tag and f = f and g = g, OF assms])

lemma tags_upd_user_same:
  assumes "\<And>u. name_tag (f u) = name_tag u"
  shows "map name_tag (a_heap (upd_user a f s)) = map name_tag (a_heap s)"
  using tags_upd_user [of f id a s] assms by simp

lemma heap_wf_upd:
  assumes "\<And>u. user_wf u \<Longrightarrow> user_wf (f u)" and "\<forall>u \<in> set (a_heap s). user_wf u"
  shows "\<forall>u \<in> set (a_heap (upd_user a f s)). user_wf u"
proof (cases "a < length (a_heap s)")
  case True
  then show ?thesis
    using assms set_update_subset_insert [of "a_heap s" a "f (a_heap s ! a)"] by (auto simp: upd_user_def)
qed (use assms(2) in \<open>simp add: upd_user_def list_update_beyond\<close>)

lemma quiet_upd:
  assumes "\<And>u. name_tag (f u) = name_tag u" and "\<And>u. user_wf u \<Longrightarrow> user_wf (f u)"
  shows "quiet c (c\<lparr>c_author := upd_user a f (c_author c)\<rparr>)"
proof -
  have "same_names c (c\<lparr>c_author := upd_user a f (c_author c)\<rparr>)"
    using tags_upd_user_same [where f = f, OF assms(1)] by (simp add: same_names_def)
  with heap_wf_upd [where f = f and s = "c_author c" and a = a, OF assms(2)] show ?thesis
    by (simp add: quiet_def heap_wf_def)
qed

lemma quiet_fields [simp]:
  "quiet c (c\<lparr>c_api := x1\<rparr>)" "quiet c (c\<lparr>c_nodeInfo := x2\<rparr>)" "quiet c (c\<lparr>c_Tag := x3\<rparr>)"
  "quiet c (c\<lparr>c_tasks := x4\<rparr>)" "quiet c (c\<lparr>c_inbound := x5\<rparr>)" "quiet c (c\<lparr>c_detectRules := x6\<rparr>)"
  "quiet c (c\<lparr>c_detectResults := x7\<rparr>)" "quiet c (c\<lparr>c_detectDedup := x8\<rparr>)" "quiet c (c\<lparr>c_detectGetWarns := x9\<rparr>)"
  "quiet c (c\<lparr>c_reloadPending := b1\<rparr>)" "quiet c (c\<lparr>c_userSyncPending := b2\<rparr>)" "quiet c (c\<lparr>c_lastUserList := us\<rparr>)"
  "quiet c (c\<lparr>c_clientInfo := x10\<rparr>)"
  by (simp_all add: quiet_def same_names_def heap_wf_def)


section \<open>Reachable states\<close>

text \<open>
  A state of a running controller: the controller, what is left of a commit (nothing, outside one), the users map the
  commit started from and the one it installs. Commits are made by one goroutine, so a commit starts when
  none is running; the list \<open>us\<close> it installs is whatever the panel sent.
\<close>

inductive ctl_reachable :: "('w, 'i, 'l) deps \<Rightarrow> ('w, 'i, 'l) controller \<Rightarrow> ('w, 'i, 'l) controller \<Rightarrow>
    sync_call list \<Rightarrow> users_map \<Rightarrow> users_map \<Rightarrow> bool" for d c0 where
  init: "ctl_reachable d c0 c0 [] (c_usersMap c0) (c_usersMap c0)"
| between: "ctl_reachable d c0 c todo old nxt \<Longrightarrow> quiet c c' \<Longrightarrow> ctl_reachable d c0 c' todo old nxt"
| commit: "ctl_reachable d c0 c [] old0 nxt0 \<Longrightarrow>
    diffUsers (c_usersMap c) us (buildUserHash (c_panelType c)) = (nxt, added, deleted, changed) \<Longrightarrow>
    ctl_reachable d c0 c (commit_calls nxt added deleted changed) (c_usersMap c) nxt"
| step: "ctl_reachable d c0 c todo old nxt \<Longrightarrow> sync_step d c todo c' todo' \<Longrightarrow> ctl_reachable d c0 c' todo' old nxt"

text \<open>The names after the rest of a commit do not depend on what happens meanwhile.\<close>

lemma LoadUser_cong:
  "a_users s' = a_users s \<Longrightarrow> a_aliases s' = a_aliases s \<Longrightarrow> LoadUser s' h = LoadUser s h"
  by (simp add: LoadUser_def split: option.splits)

lemma same_names_upd:
  assumes "same_names c c'" and "\<And>u. name_tag (f u) = g (name_tag u)" and "\<And>u. name_tag (f' u) = g (name_tag u)"
  shows "same_names (on_author (upd_user a f) c) (on_author (upd_user a f') c')"
  using assms(1) tags_upd_user [where f = f and g = g, OF assms(2)] tags_upd_user [where f = f' and g = g, OF assms(3)]
  by (simp add: same_names_def on_author_def)

lemma name_tag_put [simp]:
  "name_tag (u\<lparr>u_Email := x\<rparr>) = (\<lambda>(h, i). (h, i\<lparr>id_Email := x\<rparr>)) (name_tag u)"
  "name_tag (u\<lparr>u_UUID := x\<rparr>) = (\<lambda>(h, i). (h, i\<lparr>id_UUID := x\<rparr>)) (name_tag u)"
  "name_tag (u\<lparr>u_Passwd := x\<rparr>) = (\<lambda>(h, i). (h, i\<lparr>id_Passwd := x\<rparr>)) (name_tag u)"
  by (simp_all add: name_tag_def identity_of_def)

lemma name_tag_same [simp]:
  "name_tag (User_Close u) = name_tag u" "name_tag (SetSpeedLimit rt n u) = name_tag u"
  "name_tag (SetIPLimit m u) = name_tag u" "name_tag (snd (ResetTraffic u)) = name_tag u"
  "name_tag (count_sent k u) = name_tag u" "name_tag (count_recv k u) = name_tag u"
  "name_tag (snd (MarkCounterAttached u)) = name_tag u" "name_tag (snd (AddIP ip u)) = name_tag u"
  "name_tag (collected u) = name_tag u"
  by (simp_all add: name_tag_def collected_frame)
     (auto simp: User_Close_def SetSpeedLimit_def SetIPLimit_def ResetTraffic_def count_sent_def count_recv_def
       MarkCounterAttached_def AddIP_def identity_of_def split: option.splits)

lemma ApplyUserLimits_quiet: "quiet c (ApplyUserLimits d h u c)"
proof -
  have lim: "quiet c (c\<lparr>c_author := snd (SetUserSpeedLimit rt h b (c_author c))\<rparr>)"
    "quiet c (c\<lparr>c_author := snd (SetUserDeviceLimit h n (c_author c))\<rparr>)" for rt b n and c :: "('a, 'b, 'c) controller"
    by (auto simp: SetUserSpeedLimit_def SetUserDeviceLimit_def user_wf_def SetSpeedLimit_def SetIPLimit_def
        intro!: quiet_upd split: option.splits)
      (simp_all add: name_tag_def identity_of_def)
  define c1 where "c1 = c\<lparr>c_author := snd (SetUserSpeedLimit (d_rate d) h
      (determineRate (case c_nodeInfo c of None \<Rightarrow> 0 | Some ni \<Rightarrow> ni_SpeedLimit ni) (ui_SpeedLimit u)) (c_author c))\<rparr>"
  have "quiet c c1" unfolding c1_def by (rule lim)
  moreover have "ApplyUserLimits d h u c =
      (if cc_EnableDeviceLimit (c_config c) then c1\<lparr>c_author := snd (SetUserDeviceLimit h (ui_DeviceLimit u) (c_author c1))\<rparr> else c1)"
    by (simp add: ApplyUserLimits_def Let_def c1_def)
  ultimately show ?thesis using lim(2) [of c1] quiet_trans by (metis (full_types))
qed

lemma same_names_sym: "same_names c c' \<Longrightarrow> same_names c' c"
  by (simp add: same_names_def)

lemma same_names_trans: "same_names c c1 \<Longrightarrow> same_names c1 c2 \<Longrightarrow> same_names c c2"
  by (simp add: same_names_def)

lemma store_alias_fold_aliases:
  "a_aliases s' = a_aliases s \<Longrightarrow> a_aliases (fold (store_alias h) xs s') = a_aliases (fold (store_alias h) xs s)"
  by (induction xs arbitrary: s s') (simp_all add: store_alias_def)

lemma store_alias_fold_sel [simp]:
  "a_users (fold (store_alias h) xs s) = a_users s" "a_heap (fold (store_alias h) xs s) = a_heap s"
  by (simp_all add: fold_field [where g = a_users] fold_field [where g = a_heap])

lemma same_names_effect:
  assumes "same_names c c'"
  shows "same_names (effect d i c) (effect d i c')"
proof -
  have u: "a_users (c_author c') = a_users (c_author c)" and al: "a_aliases (c_author c') = a_aliases (c_author c)"
    and tags: "map name_tag (a_heap (c_author c')) = map name_tag (a_heap (c_author c))"
    and len: "length (a_heap (c_author c')) = length (a_heap (c_author c))"
    using assms by (auto simp: same_names_def dest: map_eq_imp_length_eq)
  note ld = LoadUser_cong [OF u al]
  show ?thesis
  proof (cases i)
    case (Call_Del h)
    then show ?thesis
      using assms u al by (auto simp: same_names_def on_author_def DelUser_def deleteAliases_def tags_upd_user_same split: option.splits)
  next
    case (Call_Add h uid)
    then show ?thesis
      using assms u len by (auto simp: same_names_def on_author_def AddUser_def split: option.splits)
  next
    case (Call_Profile h u)
    define g where "g = (\<lambda>(k :: string, i :: identity). (k, i\<lparr>id_Email := ui_Email u, id_UUID := ui_UUID u, id_Passwd := ui_Passwd u\<rparr>))"
    have "same_names (on_author (upd_user a (\<lambda>v. v\<lparr>u_Email := ui_Email u, u_UUID := ui_UUID u, u_Passwd := ui_Passwd u\<rparr>)) c)
        (on_author (upd_user a (\<lambda>v. v\<lparr>u_Email := ui_Email u, u_UUID := ui_UUID u, u_Passwd := ui_Passwd u\<rparr>)) c')" for a
      by (rule same_names_upd [OF assms, where g = g]) (simp_all add: g_def name_tag_def identity_of_def)
    with Call_Profile assms show ?thesis by (simp add: SetUserProfile_def ld on_author_def split: option.splits)
  next
    case (Call_Aliases h xs)
    have "a_aliases (SetUserAliases h xs (c_author c')) = a_aliases (SetUserAliases h xs (c_author c))"
      unfolding SetUserAliases_def by (rule store_alias_fold_aliases) (simp add: deleteAliases_def al)
    with Call_Aliases assms show ?thesis by (simp add: same_names_def on_author_def)
  next
    case (Store_Aliases h xs)
    with assms store_alias_fold_aliases [OF al] show ?thesis by (simp add: same_names_def on_author_def)
  next
    case (Call_Limits h u)
    have "same_names c (effect d i c)" "same_names c' (effect d i c')"
      using ApplyUserLimits_quiet Call_Limits by (auto simp: quiet_def)
    with assms show ?thesis by (blast intro: same_names_trans same_names_sym)
  next
    case (Put_Email a x)
    then show ?thesis
      by (simp add: same_names_upd [OF assms, where g = "\<lambda>(h, i). (h, i\<lparr>id_Email := x\<rparr>)"])
  next
    case (Put_UUID a x)
    then show ?thesis
      by (simp add: same_names_upd [OF assms, where g = "\<lambda>(h, i). (h, i\<lparr>id_UUID := x\<rparr>)"])
  next
    case (Put_Passwd a x)
    then show ?thesis
      by (simp add: same_names_upd [OF assms, where g = "\<lambda>(h, i). (h, i\<lparr>id_Passwd := x\<rparr>)"])
  qed (use assms in \<open>simp_all add: same_names_def on_author_def deleteAliases_def\<close>)
qed

lemma same_names_fold: "same_names c c' \<Longrightarrow> same_names (fold (effect d) todo c) (fold (effect d) todo c')"
  by (induction todo arbitrary: c c') (simp_all add: same_names_effect)


section \<open>What a lookup can find during a commit\<close>

definition listed :: "users_map \<Rightarrow> users_map \<Rightarrow> string \<Rightarrow> user_info \<Rightarrow> bool" where
  "listed old nxt h u \<longleftrightarrow> gm_get old h = Some (Some u) \<or> gm_get nxt h = Some (Some u)"

text \<open>A field of an account holds the value of the old or of the new list; it can be blank only for a user
  that the new list adds.\<close>

definition field_ok :: "users_map \<Rightarrow> users_map \<Rightarrow> string \<Rightarrow> (user_info \<Rightarrow> string) \<Rightarrow> string \<Rightarrow> bool" where
  "field_ok old nxt h f x \<longleftrightarrow> (\<exists>u. listed old nxt h u \<and> x = f u) \<or> x = [] \<and> gm_get old h = None \<and> gm_get nxt h \<noteq> None"

definition acc_ok :: "string \<Rightarrow> users_map \<Rightarrow> users_map \<Rightarrow> string \<Rightarrow> identity \<Rightarrow> bool" where
  "acc_ok pt old nxt h i \<longleftrightarrow> (\<exists>u. listed old nxt h u) \<and> (pt = ''SSpanel'' \<longrightarrow> h = user_name (id_UID i))
     \<and> field_ok old nxt h ui_Email (id_Email i) \<and> field_ok old nxt h ui_UUID (id_UUID i)
     \<and> field_ok old nxt h ui_Passwd (id_Passwd i)"

definition entries_ok :: "string \<Rightarrow> users_map \<Rightarrow> users_map \<Rightarrow> 'l auth \<Rightarrow> bool" where
  "entries_ok pt old nxt s \<longleftrightarrow> gm_wf (a_users s) \<and> gm_wf (a_aliases s)
     \<and> (\<forall>h a. gm_get (a_users s) h = Some a \<longrightarrow> a < length (a_heap s) \<and> u_hash (a_heap s ! a) = h
          \<and> acc_ok pt old nxt h (identity_of (a_heap s ! a)))
     \<and> (\<forall>x h. gm_get (a_aliases s) x = Some h \<longrightarrow> (\<exists>u. listed old nxt h u \<and> x \<in> credentials u))"

text \<open>The rest of a commit belongs to the list it installs: \<open>hs\<close> are the hashes of the heap, \<open>R\<close> the registered ones.\<close>

definition put_ok :: "users_map \<Rightarrow> string list \<Rightarrow> nat \<Rightarrow> (user_info \<Rightarrow> string) \<Rightarrow> string \<Rightarrow> bool" where
  "put_ok nxt hs a f x \<longleftrightarrow> a < length hs \<and> (\<exists>u. gm_get nxt (hs ! a) = Some (Some u) \<and> x = f u)"

fun todo_ok :: "string \<Rightarrow> users_map \<Rightarrow> users_map \<Rightarrow> string list \<Rightarrow> string set \<Rightarrow> sync_call list \<Rightarrow> bool" where
  "todo_ok pt old nxt hs R [] = True"
| "todo_ok pt old nxt hs R (Call_Del h # p) = todo_ok pt old nxt hs (R - {h}) p"
| "todo_ok pt old nxt hs R (Unregister h # p) = todo_ok pt old nxt hs (R - {h}) p"
| "todo_ok pt old nxt hs R (Call_Add h uid # p) \<longleftrightarrow> gm_get old h = None \<and> (pt = ''SSpanel'' \<longrightarrow> h = user_name uid)
     \<and> (\<exists>u. gm_get nxt h = Some (Some u)) \<and> todo_ok pt old nxt hs (insert h R) p"
| "todo_ok pt old nxt hs R (Install m # p) \<longleftrightarrow> m = nxt \<and> todo_ok pt old nxt hs R p"
| "todo_ok pt old nxt hs R (Call_Profile h u # p) \<longleftrightarrow> h \<in> R \<and> gm_get nxt h = Some (Some u) \<and> todo_ok pt old nxt hs R p"
| "todo_ok pt old nxt hs R (Put_Email a x # p) \<longleftrightarrow> put_ok nxt hs a ui_Email x \<and> todo_ok pt old nxt hs R p"
| "todo_ok pt old nxt hs R (Put_UUID a x # p) \<longleftrightarrow> put_ok nxt hs a ui_UUID x \<and> todo_ok pt old nxt hs R p"
| "todo_ok pt old nxt hs R (Put_Passwd a x # p) \<longleftrightarrow> put_ok nxt hs a ui_Passwd x \<and> todo_ok pt old nxt hs R p"
| "todo_ok pt old nxt hs R (Call_Aliases h xs # p) \<longleftrightarrow>
     (\<exists>u. gm_get nxt h = Some (Some u) \<and> set xs \<subseteq> credentials u) \<and> todo_ok pt old nxt hs R p"
| "todo_ok pt old nxt hs R (Store_Aliases h xs # p) \<longleftrightarrow>
     (\<exists>u. gm_get nxt h = Some (Some u) \<and> set xs \<subseteq> credentials u) \<and> todo_ok pt old nxt hs R p"
| "todo_ok pt old nxt hs R (i # p) = todo_ok pt old nxt hs R p"

lemma todo_ok_heap: "todo_ok pt old nxt hs R p \<Longrightarrow> todo_ok pt old nxt (hs @ [h]) R p"
proof (induction p arbitrary: R)
  case (Cons i p)
  have put: "put_ok nxt (hs @ [h]) a f x" if "put_ok nxt hs a f x" for a f x
    using that by (auto simp: put_ok_def nth_append)
  from Cons show ?case by (cases i) (simp_all add: put)
qed simp

lemma todo_ok_dels: "todo_ok pt old nxt hs R (map Call_Del ds @ p) = todo_ok pt old nxt hs (R - set ds) p"
proof (induction ds arbitrary: R)
  case (Cons h ds)
  have "R - {h} - set ds = R - set (h # ds)" by auto
  with Cons [of "R - {h}"] show ?case by simp
qed simp

lemma todo_ok_adds:
  assumes "\<And>h. h \<in> set hs' \<Longrightarrow> gm_get old h = None
      \<and> (\<exists>u. gm_get nxt h = Some (Some u) \<and> (pt = ''SSpanel'' \<longrightarrow> h = user_name (ui_UID u)))"
  shows "todo_ok pt old nxt hs R (concat (map (add_calls nxt) hs') @ p) = todo_ok pt old nxt hs (R \<union> set hs') p"
  using assms
proof (induction hs' arbitrary: R)
  case (Cons h hs')
  obtain u where u: "gm_get nxt h = Some (Some u)" "gm_get old h = None" "pt = ''SSpanel'' \<longrightarrow> h = user_name (ui_UID u)"
    using Cons.prems [of h] by auto
  have "todo_ok pt old nxt hs R (add_calls nxt h @ q) = todo_ok pt old nxt hs (insert h R) q" for q
    using u by (simp add: add_calls_def)
  with Cons.IH [of "insert h R"] Cons.prems show ?case by simp
qed simp

lemma todo_ok_refresh:
  assumes "\<And>h. h \<in> set hs' \<Longrightarrow> h \<in> R \<and> (\<exists>u. gm_get nxt h = Some (Some u))"
  shows "todo_ok pt old nxt hs R (concat (map (refresh_calls nxt) hs') @ p) = todo_ok pt old nxt hs R p"
  using assms
proof (induction hs')
  case (Cons h hs')
  then obtain u where "gm_get nxt h = Some (Some u)" "h \<in> R" by fastforce
  with Cons show ?case by (simp add: refresh_calls_def credentials_def)
qed simp

definition live_inv :: "('w, 'i, 'l) deps \<Rightarrow> ('w, 'i, 'l) controller \<Rightarrow> sync_call list \<Rightarrow> users_map \<Rightarrow> users_map \<Rightarrow> bool" where
  "live_inv d c todo old nxt \<longleftrightarrow> entries_ok (c_panelType c) old nxt (c_author c) \<and> heap_wf c
     \<and> (c_usersMap c = old \<or> c_usersMap c = nxt)
     \<and> todo_ok (c_panelType c) old nxt (map u_hash (a_heap (c_author c))) {h. gm_get (a_users (c_author c)) h \<noteq> None} todo
     \<and> (\<exists>c'. ctl_inv c' \<and> c_usersMap c' = nxt \<and> same_names c' (fold (effect d) todo c))"

text \<open>Outside a commit the controller's invariant holds, and the other way round.\<close>

lemma same_namesD:
  assumes "same_names c c'"
  shows "map u_hash (a_heap (c_author c')) = map u_hash (a_heap (c_author c))"
    and "map identity_of (a_heap (c_author c')) = map identity_of (a_heap (c_author c))"
    and "length (a_heap (c_author c')) = length (a_heap (c_author c))"
proof -
  have t: "map name_tag (a_heap (c_author c')) = map name_tag (a_heap (c_author c))" using assms by (simp add: same_names_def)
  from arg_cong [OF this, of "map fst"] show "map u_hash (a_heap (c_author c')) = map u_hash (a_heap (c_author c))"
    by (simp add: name_tag_def comp_def)
  from arg_cong [OF t, of "map snd"] show "map identity_of (a_heap (c_author c')) = map identity_of (a_heap (c_author c))"
    by (simp add: name_tag_def comp_def)
  from t show "length (a_heap (c_author c')) = length (a_heap (c_author c))" by (rule map_eq_imp_length_eq)
qed

lemma same_names_nth:
  assumes "same_names c c'" and "a < length (a_heap (c_author c))"
  shows "u_hash (a_heap (c_author c') ! a) = u_hash (a_heap (c_author c) ! a)"
    and "identity_of (a_heap (c_author c') ! a) = identity_of (a_heap (c_author c) ! a)"
  using same_namesD [OF assms(1)] assms(2) by (metis nth_map)+

lemma ctl_inv_same_names:
  assumes "ctl_inv c" and "same_names c c'" and "heap_wf c'"
  shows "ctl_inv c'"
proof -
  have auth: "auth_inv (c_author c)" using assms(1) by (simp add: ctl_inv_def)
  have u: "a_users (c_author c') = a_users (c_author c)" and al: "a_aliases (c_author c') = a_aliases (c_author c)"
    using assms(2) by (simp_all add: same_names_def)
  note v = auth_invD(3) [OF auth] and n = same_names_nth [OF assms(2)]
  have "auth_inv (c_author c')"
    unfolding auth_inv_def u al using auth assms(3) n same_namesD(3) [OF assms(2)]
    by (auto simp: auth_inv_def heap_wf_def)
  moreover have "account (c_author c') h = account (c_author c) h" for h
    using v n by (cases "gm_get (a_users (c_author c)) h") (simp_all add: account_def u)
  then have "account (c_author c') = account (c_author c)" by blast
  ultimately show ?thesis
    using assms(1,2) match_cong [of "c_author c'" "c_author c"] by (simp add: ctl_inv_def same_names_def)
qed

lemma entries_ok_same_names:
  assumes "entries_ok pt old nxt (c_author c)" and "same_names c c'"
  shows "entries_ok pt old nxt (c_author c')"
  using assms same_names_nth [OF assms(2)] same_namesD(3) [OF assms(2)]
  by (auto simp: entries_ok_def same_names_def)

lemma describes_acc_ok:
  assumes "listed old nxt h u" and "describes pt u i" and "buildUserHash pt u = h"
  shows "acc_ok pt old nxt h i"
  using assms by (auto simp: acc_ok_def field_ok_def describes_def buildUserHash_def)

lemma ctl_inv_entries:
  assumes "ctl_inv c"
  shows "entries_ok (c_panelType c) (c_usersMap c) nxt (c_author c)"
proof -
  have auth: "auth_inv (c_author c)" and acc: "accounts_match (c_panelType c) (c_usersMap c) (c_author c)"
    and al: "aliases_match (c_usersMap c) (c_author c)" using assms by (simp_all add: ctl_inv_def)
  have "acc_ok (c_panelType c) (c_usersMap c) nxt h (identity_of (a_heap (c_author c) ! a))"
    if "gm_get (a_users (c_author c)) h = Some a" for h a
  proof -
    have i: "account (c_author c) h = Some (identity_of (a_heap (c_author c) ! a))" using that by (simp add: account_def)
    then obtain v where "gm_get (c_usersMap c) h = Some v" using accounts_matchD(1) [OF acc, of h] by fastforce
    from accounts_matchD(2) [OF acc this] i this show ?thesis
      by (auto simp: listed_def intro: describes_acc_ok)
  qed
  with auth al show ?thesis by (fastforce simp: entries_ok_def auth_inv_def aliases_match_def listed_def)
qed


section \<open>Every step keeps it\<close>

lemma live_inv_idle:
  assumes "ctl_inv c"
  shows "live_inv d c [] (c_usersMap c) (c_usersMap c)"
  using assms ctl_inv_entries [OF assms, of "c_usersMap c"]
  by (auto simp: live_inv_def ctl_inv_def auth_inv_def heap_wf_def same_names_def)

lemma live_inv_ctl_inv: "live_inv d c [] old nxt \<Longrightarrow> ctl_inv c \<and> c_usersMap c = nxt"
  by (auto simp: live_inv_def intro: ctl_inv_same_names) (simp add: same_names_def)

lemma live_inv_quiet:
  assumes "live_inv d c todo old nxt" and "quiet c c'"
  shows "live_inv d c' todo old nxt"
proof -
  have sn: "same_names c c'" and wf: "heap_wf c \<longrightarrow> heap_wf c'" using assms(2) by (simp_all add: quiet_def)
  note f = same_names_fold [OF sn, of d todo]
  from assms(1) sn wf f show ?thesis
    unfolding live_inv_def
    by (auto simp: same_namesD [OF sn] intro: same_names_trans entries_ok_same_names) (auto simp: same_names_def intro: entries_ok_same_names same_names_trans)
qed

lemma commit_starts:
  assumes "ctl_inv c"
    and eq: "diffUsers (c_usersMap c) us (buildUserHash (c_panelType c)) = (nxt, added, deleted, changed)"
  shows "live_inv d c (commit_calls nxt added deleted changed) (c_usersMap c) nxt"
proof -
  note D = diffUsersD [OF eq]
  have acc: "accounts_match (c_panelType c) (c_usersMap c) (c_author c)" using assms(1) by (simp add: ctl_inv_def)
  let ?R = "{h. gm_get (a_users (c_author c)) h \<noteq> None}"
  have new: "\<exists>u. gm_get nxt h = Some (Some u) \<and> (c_panelType c = ''SSpanel'' \<longrightarrow> h = user_name (ui_UID u))"
    if "gm_get nxt h \<noteq> None" for h
    using that next_user [OF eq] by (fastforce simp: buildUserHash_def)
  have add: "gm_get (c_usersMap c) h = None \<and>
      (\<exists>u. gm_get nxt h = Some (Some u) \<and> (c_panelType c = ''SSpanel'' \<longrightarrow> h = user_name (ui_UID u)))"
    if "h \<in> set added" for h using that new [of h] by (auto simp: D(3) gm_keys_get)
  have ref: "h \<in> (?R - set deleted) \<union> set added \<and> (\<exists>u. gm_get nxt h = Some (Some u))"
    if "h \<in> set added \<or> h \<in> set changed" for h
  proof -
    from that have n: "gm_get nxt h \<noteq> None" by (auto simp: D(3) D(5) gm_keys_get)
    have "h \<in> ?R" if "h \<notin> set added"
      using that n accounts_matchD(2) [OF acc, of h] by (fastforce simp: D(3) gm_keys_get account_def)
    with n new [OF n] show ?thesis by (auto simp: D(4))
  qed
  have "todo_ok (c_panelType c) (c_usersMap c) nxt hs ?R (commit_calls nxt added deleted changed)" for hs
    using todo_ok_refresh [of changed _ nxt _ _ _ "[]"] ref
    by (simp add: commit_calls_def todo_ok_dels todo_ok_adds [OF add] todo_ok_refresh)
  moreover have "\<exists>c'. ctl_inv c' \<and> c_usersMap c' = nxt
      \<and> same_names c' (fold (effect d) (commit_calls nxt added deleted changed) c)"
    using commit_users_inv [OF assms, of d] by (intro exI conjI) (auto simp: commit_calls_effect same_names_def)
  ultimately show ?thesis
    using ctl_inv_entries [OF assms(1)] assms(1) by (simp add: live_inv_def) (simp add: ctl_inv_def auth_inv_def heap_wf_def)
qed

text \<open>A field written through a pointer.\<close>

lemma entries_ok_put:
  assumes "entries_ok pt old nxt s" and "put_ok nxt (map u_hash (a_heap s)) a fld x"
    and "\<And>u. u_hash (f u) = u_hash u" and "\<And>h i. h = u_hash (a_heap s ! a) \<Longrightarrow> field_ok old nxt h fld x \<Longrightarrow>
      acc_ok pt old nxt h (identity_of (a_heap s ! a)) \<Longrightarrow> acc_ok pt old nxt h (identity_of (f (a_heap s ! a)))"
  shows "entries_ok pt old nxt (upd_user a f s)"
proof -
  have "field_ok old nxt (u_hash (a_heap s ! a)) fld x"
    using assms(2) by (auto simp: put_ok_def field_ok_def listed_def)
  with assms(1,3,4) show ?thesis by (auto simp: entries_ok_def upd_user_nth)
qed

lemma entries_ok_puts:
  assumes "entries_ok pt old nxt s"
  shows "put_ok nxt (map u_hash (a_heap s)) a ui_Email x \<Longrightarrow> entries_ok pt old nxt (upd_user a (\<lambda>u. u\<lparr>u_Email := x\<rparr>) s)"
    and "put_ok nxt (map u_hash (a_heap s)) a ui_UUID x \<Longrightarrow> entries_ok pt old nxt (upd_user a (\<lambda>u. u\<lparr>u_UUID := x\<rparr>) s)"
    and "put_ok nxt (map u_hash (a_heap s)) a ui_Passwd x \<Longrightarrow> entries_ok pt old nxt (upd_user a (\<lambda>u. u\<lparr>u_Passwd := x\<rparr>) s)"
  by (rule entries_ok_put [OF assms]; simp add: acc_ok_def identity_of_def)+

lemma entries_ok_add:
  assumes "entries_ok pt old nxt s" and "gm_get old h = None" and "gm_get nxt h = Some (Some u)"
    and "pt = ''SSpanel'' \<longrightarrow> h = user_name uid"
  shows "entries_ok pt old nxt (snd (AddUser h uid s))"
proof -
  have blank: "acc_ok pt old nxt h (identity_of (new_user h uid :: 'a user))"
    using assms(2-4) by (simp add: acc_ok_def field_ok_def listed_def identity_of_def new_user_def)
  have hash: "u_hash (new_user h uid :: 'a user) = h" by (simp add: new_user_def)
  show ?thesis
  proof (cases "gm_get (a_users s) h")
    case None
    then have eq: "snd (AddUser h uid s) = s\<lparr>a_heap := a_heap s @ [new_user h uid],
        a_users := gm_set h (length (a_heap s)) (a_users s)\<rparr>" by (simp add: AddUser_def)
    show ?thesis
      unfolding eq entries_ok_def
      using assms(1) blank hash by (auto simp: entries_ok_def go_map_simps go_wf nth_append less_Suc_eq split: if_splits)
  qed (simp add: AddUser_def assms(1))
qed

lemma entries_ok_shrink:
  assumes "entries_ok pt old nxt s"
  shows "entries_ok pt old nxt (s\<lparr>a_users := gm_del h (a_users s)\<rparr>)"
    and "entries_ok pt old nxt (s\<lparr>a_aliases := gm_del x (a_aliases s)\<rparr>)"
  using assms by (auto simp: entries_ok_def go_map_simps go_wf split: if_splits)

lemma entries_ok_store:
  assumes "entries_ok pt old nxt s" and "gm_get nxt h = Some (Some u)" and "x \<in> credentials u"
  shows "entries_ok pt old nxt (store_alias h x s)"
  using assms by (auto simp: entries_ok_def store_alias_def go_map_simps go_wf listed_def split: if_splits)


lemma heap_wf_on_upd:
  assumes "heap_wf c" and "\<And>u. user_wf u \<Longrightarrow> user_wf (f u)"
  shows "heap_wf (on_author (upd_user a f) c)"
  using heap_wf_upd [where f = f and s = "c_author c" and a = a, OF assms(2)] assms(1)
  by (simp add: heap_wf_def on_author_def)

lemma heap_wf_puts:
  assumes "heap_wf c"
  shows "heap_wf (on_author (upd_user a (\<lambda>u. u\<lparr>u_Email := x\<rparr>)) c)"
    and "heap_wf (on_author (upd_user a (\<lambda>u. u\<lparr>u_UUID := x\<rparr>)) c)"
    and "heap_wf (on_author (upd_user a (\<lambda>u. u\<lparr>u_Passwd := x\<rparr>)) c)"
    and "heap_wf (on_author (upd_user a User_Close) c)"
  by (rule heap_wf_on_upd [OF assms]; simp add: user_wf_def User_Close_def ResetTraffic_def)+

lemma heap_wf_AddUser: "heap_wf c \<Longrightarrow> heap_wf (on_author (\<lambda>s. snd (AddUser h uid s)) c)"
  by (auto simp: heap_wf_def on_author_def AddUser_def user_wf_new_user split: option.splits)

abbreviation step_inv :: "('w, 'i, 'l) controller \<Rightarrow> sync_call list \<Rightarrow> users_map \<Rightarrow> users_map \<Rightarrow> bool" where
  "step_inv c todo old nxt \<equiv> entries_ok (c_panelType c) old nxt (c_author c) \<and> heap_wf c
     \<and> (c_usersMap c = old \<or> c_usersMap c = nxt)
     \<and> todo_ok (c_panelType c) old nxt (map u_hash (a_heap (c_author c))) {h. gm_get (a_users (c_author c)) h \<noteq> None} todo"

lemma on_author_sel [simp]:
  "c_author (on_author f c) = f (c_author c)" "c_usersMap (on_author f c) = c_usersMap c"
  "c_panelType (on_author f c) = c_panelType c"
  by (simp_all add: on_author_def)

lemma hashes_upd_user:
  assumes "\<And>u. u_hash (f u) = u_hash u"
  shows "map u_hash (a_heap (upd_user a f s)) = map u_hash (a_heap s)"
proof -
  have "map u_hash (a_heap (upd_user a f s)) = (map u_hash (a_heap s))[a := id (map u_hash (a_heap s) ! a)]"
    unfolding upd_user_def using map_update_tag [where t = u_hash and f = f and g = id, of "a_heap s" a] assms by simp
  then show ?thesis by simp
qed

lemma access_inv:
  assumes "one_access i" and "step_inv c (i # todo) old nxt"
  shows "step_inv (effect d i c) todo old nxt"
proof (cases i)
  case (Unregister h)
  have "{k. gm_get (gm_del h (a_users (c_author c))) k \<noteq> None} = {k. gm_get (a_users (c_author c)) k \<noteq> None} - {h}"
    by (auto simp: go_map_simps)
  with Unregister assms(2) show ?thesis by (simp add: entries_ok_shrink heap_wf_def)
next
  case (Call_Add h uid)
  have R: "{k. gm_get (a_users (snd (AddUser h uid (c_author c)))) k \<noteq> None} = insert h {k. gm_get (a_users (c_author c)) k \<noteq> None}"
    by (auto simp: dom_AddUser simp del: not_None_eq)
  have hs: "map u_hash (a_heap (snd (AddUser h uid (c_author c)))) = map u_hash (a_heap (c_author c))
      \<or> map u_hash (a_heap (snd (AddUser h uid (c_author c)))) = map u_hash (a_heap (c_author c)) @ [h]"
    by (simp add: AddUser_def new_user_def split: option.splits)
  have pre: "gm_get old h = None" "c_panelType c = ''SSpanel'' \<longrightarrow> h = user_name uid"
    "todo_ok (c_panelType c) old nxt (map u_hash (a_heap (c_author c))) (insert h {k. gm_get (a_users (c_author c)) k \<noteq> None}) todo"
    using assms(2) unfolding Call_Add by simp_all
  obtain u where u: "gm_get nxt h = Some (Some u)" using assms(2) unfolding Call_Add by auto
  have "entries_ok (c_panelType c) old nxt (snd (AddUser h uid (c_author c)))"
    using entries_ok_add [OF _ pre(1) u pre(2)] assms(2) by blast
  moreover have "todo_ok (c_panelType c) old nxt (map u_hash (a_heap (snd (AddUser h uid (c_author c)))))
      (insert h {k. gm_get (a_users (c_author c)) k \<noteq> None}) todo"
    using hs pre(3) todo_ok_heap by metis
  ultimately show ?thesis
    unfolding Call_Add using assms(2) R by (simp add: heap_wf_AddUser del: not_None_eq)
next
  case (Call_Limits h u)
  have q: "quiet c (ApplyUserLimits d h u c)" by (rule ApplyUserLimits_quiet)
  then have sn: "same_names c (ApplyUserLimits d h u c)" and wf: "heap_wf c \<longrightarrow> heap_wf (ApplyUserLimits d h u c)"
    by (simp_all add: quiet_def)
  show ?thesis
    unfolding Call_Limits
    using assms(2) wf entries_ok_same_names [OF _ sn] Call_Limits by (auto simp: same_namesD [OF sn]) (auto simp: sn [unfolded same_names_def])
next
  case (Put_Email a x)
  with assms(2) show ?thesis
    by (simp add: entries_ok_puts hashes_upd_user heap_wf_puts)
next
  case (Put_UUID a x)
  with assms(2) show ?thesis
    by (simp add: entries_ok_puts hashes_upd_user heap_wf_puts)
next
  case (Put_Passwd a x)
  with assms(2) show ?thesis
    by (simp add: entries_ok_puts hashes_upd_user heap_wf_puts)
next
  case Set_Synced
  with assms(2) show ?thesis by (simp add: heap_wf_def)
next
  case (Install m)
  with assms(2) show ?thesis by (simp add: heap_wf_def)
qed (use assms(1) in simp_all)

lemma sync_step_inv:
  assumes "sync_step d c todo c' todo'" and "step_inv c todo old nxt"
  shows "step_inv c' todo' old nxt"
  using assms
proof (cases rule: sync_step.cases)
  case (access i)
  with assms(2) show ?thesis using access_inv by blast
next
  case (del_missing h)
  then have "{k. gm_get (a_users (c_author c)) k \<noteq> None} - {h} = {k. gm_get (a_users (c_author c)) k \<noteq> None}" by auto
  with del_missing assms(2) show ?thesis by (simp del: not_None_eq)
next
  case (del_close h a rest)
  have q: "quiet c (on_author (upd_user a User_Close) c)"
    unfolding on_author_def by (rule quiet_upd) (simp_all add: user_wf_Close)
  then have sn: "same_names c (on_author (upd_user a User_Close) c)" by (simp add: quiet_def)
  have "entries_ok (c_panelType c) old nxt (upd_user a User_Close (c_author c))"
    using entries_ok_same_names [OF _ sn] assms(2) by simp
  with del_close assms(2) show ?thesis by (simp add: hashes_upd_user heap_wf_puts)
next
  case (drop_one x h rest)
  with assms(2) show ?thesis by (simp add: entries_ok_shrink heap_wf_def)
next
  case (profile h a u rest)
  then have "gm_get (a_users (c_author c)) h \<noteq> None" using assms(2) by simp
  then have reg: "gm_get (a_users (c_author c)) h = Some a" using profile by (auto simp: LoadUser_def)
  then have "a < length (a_heap (c_author c)) \<and> u_hash (a_heap (c_author c) ! a) = h"
    using assms(2) by (auto simp: entries_ok_def)
  with profile assms(2) show ?thesis by (simp add: put_ok_def)
next
  case (store_one h x xs rest)
  then obtain u where u: "gm_get nxt h = Some (Some u)" "x \<in> credentials u" using assms(2) by auto
  have "entries_ok (c_panelType c) old nxt (store_alias h x (c_author c))"
    using entries_ok_store [OF _ u] assms(2) by blast
  with store_one assms(2) show ?thesis by (auto simp: heap_wf_def)
qed (use assms(2) in simp_all)

lemma live_inv_step:
  assumes "live_inv d c todo old nxt" and "sync_step d c todo c' todo'"
  shows "live_inv d c' todo' old nxt"
proof -
  have "gm_wf (a_aliases (c_author c))" using assms(1) by (simp add: live_inv_def entries_ok_def)
  note e = sync_step_effect [OF assms(2) this]
  show ?thesis
    using assms(1) sync_step_inv [OF assms(2), of old nxt] unfolding live_inv_def e by blast
qed

lemma sync_step_panelType: "sync_step d c todo c' todo' \<Longrightarrow> c_panelType c' = c_panelType c"
proof (induction rule: sync_step.induct)
  case (access i c todo)
  have "same_names c (ApplyUserLimits d h u c)" for h u using ApplyUserLimits_quiet [of c d h u] by (simp add: quiet_def)
  with access show ?case by (cases i) (simp_all add: same_names_def)
qed simp_all

lemma reachable_panelType: "ctl_reachable d c0 c todo old nxt \<Longrightarrow> c_panelType c = c_panelType c0"
  by (induction rule: ctl_reachable.induct) (auto simp: quiet_def same_names_def dest: sync_step_panelType)

lemma reachable_live:
  assumes "ctl_reachable d c0 c todo old nxt" and "ctl_inv c0"
  shows "live_inv d c todo old nxt"
  using assms
proof (induction rule: ctl_reachable.induct)
  case init
  then show ?case by (rule live_inv_idle)
next
  case (between c todo old nxt c')
  then show ?case by (blast intro: live_inv_quiet)
next
  case (commit c old0 nxt0 us nxt added deleted changed)
  then have "ctl_inv c" using live_inv_ctl_inv by blast
  then show ?case using commit(2) by (rule commit_starts)
next
  case (step c todo old nxt c' todo')
  then show ?case by (blast intro: live_inv_step)
qed


section \<open>The calls of the controller are runs of these steps\<close>

text \<open>
  Every call of a pending commit can be completed, and its accesses add up to the call; so the start, the ticks
  of both monitors, connections, byte counts and audits, taken as a whole, are runs of the relation above.
\<close>

lemma complete_Drop:
  assumes "ctl_reachable d c0 c (Drop_Aliases h # todo) old nxt" and "ctl_inv c0"
  shows "ctl_reachable d c0 (effect d (Drop_Aliases h) c) todo old nxt"
  using assms
proof (induction "length (a_aliases (c_author c))" arbitrary: c rule: less_induct)
  case less
  have wf: "gm_wf (a_aliases (c_author c))"
    using reachable_live [OF less(2,3)] by (simp add: live_inv_def entries_ok_def)
  show ?case
  proof (cases "\<forall>p \<in> set (a_aliases (c_author c)). snd p \<noteq> h")
    case True
    from ctl_reachable.step [OF less(2) drop_end [OF True]] deleteAliases_done [OF True] show ?thesis
      by (simp add: on_author_def)
  next
    case False
    then obtain x where x: "(x, h) \<in> set (a_aliases (c_author c))" by auto
    let ?c = "on_author (\<lambda>s. s\<lparr>a_aliases := gm_del x (a_aliases s)\<rparr>) c"
    have g: "gm_get (a_aliases (c_author c)) x = Some h" using x wf by (simp add: gm_wf_get)
    have "ctl_reachable d c0 ?c (Drop_Aliases h # todo) old nxt"
      by (rule ctl_reachable.step [OF less(2) drop_one [OF g]])
    moreover have "length (a_aliases (c_author ?c)) < length (a_aliases (c_author c))"
      using x by (auto simp: gm_del_def intro!: length_filter_less)
    ultimately have "ctl_reachable d c0 (effect d (Drop_Aliases h) ?c) todo old nxt" using less(1,3) by blast
    then show ?thesis by (simp add: on_author_def deleteAliases_one [OF wf g])
  qed
qed

lemma complete_access: "ctl_reachable d c0 c (i # todo) old nxt \<Longrightarrow> one_access i \<Longrightarrow>
    ctl_reachable d c0 (effect d i c) todo old nxt"
  by (rule ctl_reachable.step [OF _ access])

lemma complete_Store:
  "ctl_reachable d c0 c (Store_Aliases h xs # todo) old nxt \<Longrightarrow>
     ctl_reachable d c0 (effect d (Store_Aliases h xs) c) todo old nxt"
proof (induction xs arbitrary: c)
  case Nil
  from ctl_reachable.step [OF Nil store_end] show ?case by (simp add: on_author_def)
next
  case (Cons x xs)
  from Cons.IH [OF ctl_reachable.step [OF Cons.prems store_one]] show ?case by (simp add: on_author_def)
qed

lemma complete_call:
  assumes "ctl_reachable d c0 c (i # todo) old nxt" and "ctl_inv c0"
  shows "ctl_reachable d c0 (effect d i c) todo old nxt"
proof (cases i)
  case (Call_Del h)
  show ?thesis
  proof (cases "gm_get (a_users (c_author c)) h")
    case None
    with ctl_reachable.step [OF assms(1) [unfolded Call_Del] del_missing [OF None]] Call_Del show ?thesis
      by (simp add: DelUser_def on_author_def)
  next
    case (Some a)
    from complete_access [OF ctl_reachable.step [OF assms(1) [unfolded Call_Del] del_close [OF Some]]]
    have "ctl_reachable d c0 (effect d (Unregister h) (on_author (upd_user a User_Close) c)) (Drop_Aliases h # todo) old nxt"
      by simp
    from complete_Drop [OF this assms(2)] Some Call_Del show ?thesis by (simp add: DelUser_def on_author_def)
  qed
next
  case (Drop_Aliases h)
  with complete_Drop [OF _ assms(2)] assms(1) show ?thesis by simp
next
  case (Call_Profile h u)
  show ?thesis
  proof (cases "LoadUser (c_author c) h")
    case None
    with ctl_reachable.step [OF assms(1) [unfolded Call_Profile] profile_missing [OF None]] Call_Profile show ?thesis
      by (simp add: SetUserProfile_def on_author_def)
  next
    case (Some a)
    note r = ctl_reachable.step [OF assms(1) [unfolded Call_Profile] profile [OF Some]]
    from complete_access [OF complete_access [OF complete_access [OF r]]] Some Call_Profile show ?thesis
      by (simp add: SetUserProfile_def on_author_def upd_user_upd_user)
  qed
next
  case (Call_Aliases h xs)
  from complete_Store [OF complete_Drop [OF ctl_reachable.step [OF assms(1) [unfolded Call_Aliases] aliases] assms(2)]]
  show ?thesis by (simp add: Call_Aliases SetUserAliases_def on_author_def)
next
  case (Store_Aliases h xs)
  with complete_Store assms(1) show ?thesis by blast
qed (use complete_access [OF assms(1)] in simp_all)

lemma complete_commit:
  "ctl_reachable d c0 c todo old nxt \<Longrightarrow> ctl_inv c0 \<Longrightarrow> ctl_reachable d c0 (fold (effect d) todo c) [] old nxt"
  by (induction todo arbitrary: c) (auto dest: complete_call)

definition settled :: "('w, 'i, 'l) deps \<Rightarrow> ('w, 'i, 'l) controller \<Rightarrow> ('w, 'i, 'l) controller \<Rightarrow> bool" where
  "settled d c0 c \<longleftrightarrow> (\<exists>old nxt. ctl_reachable d c0 c [] old nxt)"

lemma settled_quiet: "settled d c0 c \<Longrightarrow> quiet c c' \<Longrightarrow> settled d c0 c'"
  unfolding settled_def by (blast intro: ctl_reachable.between)

lemma settled_inv: "settled d c0 c \<Longrightarrow> ctl_inv c0 \<Longrightarrow> ctl_inv c"
  unfolding settled_def using reachable_live live_inv_ctl_inv by blast

lemma settled_fields [intro]:
  assumes "settled d c0 c"
  shows "settled d c0 (c\<lparr>c_api := x1\<rparr>)" "settled d c0 (c\<lparr>c_nodeInfo := x2\<rparr>)" "settled d c0 (c\<lparr>c_Tag := x3\<rparr>)"
    "settled d c0 (c\<lparr>c_tasks := x4\<rparr>)" "settled d c0 (c\<lparr>c_inbound := x5\<rparr>)" "settled d c0 (c\<lparr>c_detectRules := x6\<rparr>)"
    "settled d c0 (c\<lparr>c_detectResults := x7\<rparr>)" "settled d c0 (c\<lparr>c_detectDedup := x8\<rparr>)"
    "settled d c0 (c\<lparr>c_detectGetWarns := x9\<rparr>)" "settled d c0 (c\<lparr>c_reloadPending := b1\<rparr>)"
    "settled d c0 (c\<lparr>c_userSyncPending := b2\<rparr>)" "settled d c0 (c\<lparr>c_lastUserList := us\<rparr>)"
    "settled d c0 (c\<lparr>c_clientInfo := x10\<rparr>)"
  by (rule settled_quiet [OF assms], simp)+

lemma dump_quiet:
  fixes c :: "('w, 'i, 'c) controller"
  shows "quiet c (c\<lparr>c_author := snd (fold dump_user hs ((r :: user_traffic list), c_author c))\<rparr>)"
proof (rule fold_invariant_set [where P = "\<lambda>ra. quiet c (c\<lparr>c_author := snd ra\<rparr>)"])
  fix h and ra :: "user_traffic list \<times> 'c auth"
  assume "quiet c (c\<lparr>c_author := snd ra\<rparr>)"
  moreover have "quiet (c\<lparr>c_author := snd ra\<rparr>) (c\<lparr>c_author := snd (dump_user h ra)\<rparr>)"
  proof (cases "LoadUser (snd ra) h")
    case (Some a)
    have "quiet (c\<lparr>c_author := snd ra\<rparr>)
        ((c\<lparr>c_author := snd ra\<rparr>)\<lparr>c_author := upd_user a (\<lambda>u. snd (ResetTraffic u)) (c_author (c\<lparr>c_author := snd ra\<rparr>))\<rparr>)"
      by (rule quiet_upd) (simp_all, simp add: ResetTraffic_def user_wf_def)
    moreover have "snd (dump_user h ra) = upd_user a (\<lambda>u. snd (ResetTraffic u)) (snd ra)"
      using Some by (cases ra) (simp add: dump_user_def Let_def split: prod.splits)
    ultimately show ?thesis by simp
  qed (cases ra, simp add: dump_user_def)
  ultimately show "quiet c (c\<lparr>c_author := snd (dump_user h ra)\<rparr>)" by (rule quiet_trans)
qed simp

lemma sync_list_settled:
  assumes "settled d c0 c" and "ctl_inv c0"
  shows "settled d c0 (snd (sync_list d us c))"
proof -
  obtain r c' where run: "sync_list d us c = (r, c')" by (metis surj_pair)
  obtain nxt added deleted changed where
    eq: "diffUsers (c_usersMap c) us (buildUserHash (c_panelType c)) = (nxt, added, deleted, changed)"
    by (metis prod_cases4)
  have dumped: "settled d c0 c1 \<and> c_usersMap c1 = c_usersMap c \<and> c_panelType c1 = c_panelType c"
    if "c1 = c \<or> (\<exists>r1. dumpTrafficForDeleted d deleted c = (r1, c1))" for c1
  proof -
    have "c1 = c \<or> (\<exists>w. c1 = c\<lparr>c_author := snd (fold dump_user deleted ([], c_author c)), c_api := w\<rparr>)
        \<or> c1 = c\<lparr>c_author := snd (fold dump_user deleted ([], c_author c))\<rparr>"
      using that by (auto simp: dumpTrafficForDeleted_def logged_def Let_def split: prod.splits if_splits option.splits)
    moreover note settled_quiet [OF assms(1) dump_quiet [of c deleted "[]"]]
    ultimately show ?thesis using assms(1) by auto
  qed
  have "settled d c0 c'"
    using run eq
  proof (cases rule: sync_list_cases)
    case (1 c1)
    with dumped [OF 1(1)] show ?thesis by simp
  next
    case (2 c1 e i)
    from dumped [OF 2(1)] have "settled d c0 c1" by simp
    then have "settled d c0 (c1\<lparr>c_inbound := i\<rparr>)" by blast
    then have "settled d c0 (c1\<lparr>c_inbound := i\<rparr>\<lparr>c_userSyncPending := True\<rparr>\<lparr>c_lastUserList := us\<rparr>)" by blast
    with 2 show ?thesis by simp
  next
    case (3 c1 i)
    from dumped [OF 3(1)] have "settled d c0 c1" by simp
    then have "settled d c0 (c1\<lparr>c_inbound := i\<rparr>)" by blast
    then obtain old0 nxt0 where r: "ctl_reachable d c0 (c1\<lparr>c_inbound := i\<rparr>) [] old0 nxt0" by (auto simp: settled_def)
    have "diffUsers (c_usersMap (c1\<lparr>c_inbound := i\<rparr>)) us (buildUserHash (c_panelType (c1\<lparr>c_inbound := i\<rparr>))) =
        (nxt, added, deleted, changed)" using eq dumped [OF 3(1)] by simp
    from complete_commit [OF ctl_reachable.commit [OF r this] assms(2)] 3 show ?thesis
      by (auto simp: settled_def commit_calls_effect)
  qed
  then show ?thesis by (simp add: run)
qed


lemma syncUserList_settled:
  assumes "settled d c0 c" and "ctl_inv c0"
  shows "settled d c0 (snd (syncUserList d c))"
proof -
  have "settled d c0 (c\<lparr>c_api := w\<rparr>)" for w using assms(1) by blast
  with sync_list_settled [OF _ assms(2)] show ?thesis
    by (auto simp: syncUserList_def Let_def logged_def split: prod.splits res.splits option.splits)
qed

lemma refreshAllSpeedLimits_quiet: "quiet c (refreshAllSpeedLimits d c)"
proof -
  have "quiet c (fold (\<lambda>(hash, u) c'. case u of None \<Rightarrow> c' | Some info \<Rightarrow> ApplyUserLimits d hash info c') us c)" for us
    by (rule fold_invariant_set) (auto intro: quiet_trans [OF _ ApplyUserLimits_quiet] split: option.splits)
  then show ?thesis by (simp add: refreshAllSpeedLimits_def)
qed

lemma refreshDetectRules_settled: "settled d c0 c \<Longrightarrow> settled d c0 (snd (refreshDetectRules d c))"
  by (auto simp: refreshDetectRules_def logged_def Let_def split: prod.splits res.splits option.splits)

lemma configure_inbound_settled: "settled d c0 c \<Longrightarrow> settled d c0 (snd (configure_inbound d c))"
  by (auto simp: configure_inbound_def split: prod.splits option.splits)

lemma node_tick_end_settled:
  assumes "settled d c0 c"
  shows "settled d c0 (snd (node_tick_end d b p ni c))"
proof -
  define c1 where "c1 = (if ni_SpeedLimit ni \<noteq> p then refreshAllSpeedLimits d c else c)"
  have "settled d c0 c1" using assms settled_quiet [OF assms refreshAllSpeedLimits_quiet] by (simp add: c1_def)
  moreover obtain r c2 where r: "refreshDetectRules d c1 = (r, c2)" by (metis surj_pair)
  ultimately have c2: "settled d c0 c2" by (metis refreshDetectRules_settled snd_conv)
  obtain e c3 where e: "configure_inbound d c2 = (e, c3)" by (metis surj_pair)
  have c3: "settled d c0 c3" using configure_inbound_settled [OF c2] e by (metis snd_conv)
  show ?thesis
    unfolding node_tick_end_def Let_def c1_def [symmetric] r prod.case e
    using c2 c3 by (cases r; cases e) auto
qed

lemma nodeInfoMonitor_settled:
  assumes "settled d c0 c" and "ctl_inv c0"
  shows "settled d c0 (snd (nodeInfoMonitor d now c))"
proof -
  have tick: "settled d c0 (snd (node_tick d b ni c))" if "settled d c0 c" for b ni c
  proof -
    have "settled d c0 (c\<lparr>c_nodeInfo := Some ni\<rparr>)" using that by blast
    from syncUserList_settled [OF this assms(2)] that show ?thesis
      by (auto simp: node_tick_def Let_def logged_def split: prod.splits res.splits option.splits dest: node_tick_end_settled)
  qed
  have "settled d c0 (c\<lparr>c_api := w\<rparr>)" for w using assms(1) by blast
  with assms(1) tick show ?thesis
    by (auto simp: nodeInfoMonitor_def Let_def logged_def split: prod.splits res.splits option.splits)
qed

lemma StartController_settled:
  assumes "settled d c0 c" and "ctl_inv c0"
  shows "settled d c0 (snd (StartController d c))"
proof -
  define c1 where "c1 = c\<lparr>c_clientInfo := Describe (d_api d) (c_api c)\<rparr>"
  have c1: "settled d c0 c1" using assms(1) by (auto simp: c1_def)
  obtain r w where r: "GetNodeInfo (d_api d) (c_api c1) = (r, w)" by (metis surj_pair)
  show ?thesis
  proof (cases r)
    case (Ok ni)
    define c2 where "c2 = c1\<lparr>c_api := w, c_nodeInfo := Some ni, c_Tag := buildNodeTag ni (c_config c1)\<rparr>"
    obtain e c3 where e: "configure_inbound d c2 = (e, c3)" by (metis surj_pair)
    have "settled d c0 (c1\<lparr>c_api := w\<rparr>\<lparr>c_nodeInfo := Some ni\<rparr>\<lparr>c_Tag := buildNodeTag ni (c_config c1)\<rparr>)" using c1 by blast
    then have "settled d c0 c2" by (simp add: c2_def)
    from configure_inbound_settled [OF this] e have c3: "settled d c0 c3" by (metis snd_conv)
    obtain s c4 where s: "syncUserList d c3 = (s, c4)" by (metis surj_pair)
    have c4: "settled d c0 c4" using syncUserList_settled [OF c3 assms(2)] s by (metis snd_conv)
    have w: "settled d c0 (c1\<lparr>c_api := w\<rparr>)" using c1 by blast
    show ?thesis
      unfolding StartController_def Let_def c1_def [symmetric] r Ok prod.case res.case c2_def [symmetric] e s
      using w c3 c4 by (cases e; cases s) auto
  qed (use c1 in \<open>auto simp: StartController_def Let_def c1_def [symmetric] r\<close>)
qed

lemma report_if_settled: "settled d c0 (snd rc) \<Longrightarrow> settled d c0 (snd (report_if b call rc))"
  by (auto simp: report_if_def split: prod.splits res.splits)

lemma collect_settled:
  assumes "settled d c0 c" and "ctl_inv c0" and "collect_traffic (c_author c) = (ts, os, s)"
  shows "settled d c0 (c\<lparr>c_author := s\<rparr>)"
proof -
  have auth: "auth_inv (c_author c)" using settled_inv [OF assms(1,2)] by (simp add: ctl_inv_def)
  have s: "s = fold (\<lambda>a. upd_user a collected) (ListUsers (c_author c)) (c_author c)"
    using assms(3) collect_fold [OF auth distinct_ListUsers [OF auth] ListUsers_valid [OF auth], of "[]" "[]"]
    by (auto simp: collect_traffic_def)
  have "quiet c (c\<lparr>c_author := fold (\<lambda>a. upd_user a collected) as (c_author c)\<rparr>)" for as
  proof (rule fold_invariant_set [where P = "\<lambda>t. quiet c (c\<lparr>c_author := t\<rparr>)"])
    fix a t assume "quiet c (c\<lparr>c_author := t\<rparr>)"
    moreover have "quiet (c\<lparr>c_author := t\<rparr>) (c\<lparr>c_author := t\<rparr>\<lparr>c_author := upd_user a collected (c_author (c\<lparr>c_author := t\<rparr>))\<rparr>)"
      by (rule quiet_upd) (simp_all add: collected_wf)
    ultimately show "quiet c (c\<lparr>c_author := upd_user a collected t\<rparr>)" using quiet_trans by fastforce
  qed simp
  from settled_quiet [OF assms(1) this] show ?thesis by (simp add: s)
qed

lemma userInfoMonitor_settled:
  assumes "settled d c0 c" and "ctl_inv c0"
  shows "settled d c0 (snd (userInfoMonitor d sys now c))"
proof -
  define rc where "rc = (case sys of Panic \<Rightarrow> (Panic, c) | Err _ \<Rightarrow> (Ok (), c)
      | Ok status \<Rightarrow> report_if True (ReportNodeStatus (d_api d) status) (Ok (), c))"
  have rc: "settled d c0 (snd rc)" using assms(1) by (auto simp: rc_def report_if_settled split: res.splits)
  obtain ts os s where c: "collect_traffic (c_author (snd rc)) = (ts, os, s)" by (metis prod_cases3)
  note i1 = collect_settled [OF rc assms(2) c]
  define rc2 where "rc2 = report_if (os \<noteq> []) (ReportNodeOnlineUsers (d_api d) os)
      (report_if (ts \<noteq> []) (ReportUserTraffic (d_api d) ts) (Ok (), (snd rc)\<lparr>c_author := s\<rparr>))"
  have i2: "settled d c0 (snd rc2)" unfolding rc2_def by (intro report_if_settled) (simp add: i1)
  have i3: "settled d c0 (snd (case rc2 of (Ok _, c2) \<Rightarrow> (case drainDetectResults c2 of
        (hits, c3) \<Rightarrow> report_if (hits \<noteq> []) (ReportIllegal (d_api d) hits) (Ok (), c3)) | other \<Rightarrow> other))"
    using i2 by (cases rc2; cases "fst rc2") (auto simp: drainDetectResults_def intro!: report_if_settled)
  show ?thesis
    unfolding userInfoMonitor_def rc_def [symmetric]
    using assms(1) rc c i3 by (cases rc; cases "fst rc") (auto simp: logged_def rc2_def split: option.splits)
qed

text \<open>Connections and audits do not wait for the end of a commit; a byte count may go through the pointer to an account that
  is no longer registered.\<close>

lemma connection_quiet: "quiet c (snd (LoadOrCreateUserCounter user source c))"
proof (cases "LoadUser (c_author c) user")
  case (Some a)
  define c1 where "c1 = c\<lparr>c_author := upd_user a (\<lambda>u. snd (MarkCounterAttached u)) (c_author c)\<rparr>"
  have q1: "quiet c c1" unfolding c1_def by (rule quiet_upd) (simp_all, simp add: MarkCounterAttached_def user_wf_def)
  have q2: "quiet c1 (c1\<lparr>c_author := upd_user a (\<lambda>u. snd (AddIP source u)) (c_author c1)\<rparr>)"
    by (rule quiet_upd) (simp_all add: user_wf_AddIP)
  have c1: "upd_user a (\<lambda>_. snd (MarkCounterAttached (a_heap (c_author c) ! a))) (c_author c) = c_author c1"
    by (simp add: c1_def upd_user_def)
  have "snd (LoadOrCreateUserCounter user source c) \<in>
      {c, c1, c1\<lparr>c_author := upd_user a (\<lambda>u. snd (AddIP source u)) (c_author c1)\<rparr>}"
    using Some by (auto simp: LoadOrCreateUserCounter_def Let_def c1_def upd_user_def split: prod.splits)
  then show ?thesis using q1 quiet_trans [OF q1 q2] by auto
qed (simp add: LoadOrCreateUserCounter_def)

lemma count_quiet: "quiet c (c\<lparr>c_author := upd_user a (\<lambda>u. count_recv m (count_sent n u)) (c_author c)\<rparr>)"
  by (rule quiet_upd) (simp_all, simp add: count_sent_def count_recv_def user_wf_def)

lemma audit_quiet: "quiet c (snd (MatchAudit now uid host c))"
  by (auto simp: MatchAudit_def recordDetect_def record_hit_def Let_def quiet_def same_names_def heap_wf_def split: option.splits)


section \<open>Loaded accounts\<close>

text \<open>C3. At every moment between two accesses to the shared tables, whatever the panel, the runtime and the clients do,
  a name or credential loads only the account of a user that is on the list being replaced or on the list being
  installed: hash and UID are that user's, each of e-mail, UUID and password is the one of either list (blank only while the
  account of an added user is being set up), and an alias is a credential of the user on one of the two lists. When no commit is
  running, the account is exactly that of a user of the current users map, whose hash or current credential
  the name is.\<close>

theorem loaded_account_is_current:
  assumes "ctl_reachable d (NewController config inbound w now) c todo old nxt" and "cc_PanelType config = ''SSpanel''"
    and "LoadUser (c_author c) name = Some a"
  shows "let i = identity_of (a_heap (c_author c) ! a); h = user_name (id_UID i) in
    u_hash (a_heap (c_author c) ! a) = h \<and> (c_usersMap c = old \<or> c_usersMap c = nxt)
    \<and> (\<exists>u. listed old nxt h u \<and> (name = h \<or> name \<in> credentials u))
    \<and> field_ok old nxt h ui_Email (id_Email i) \<and> field_ok old nxt h ui_UUID (id_UUID i)
    \<and> field_ok old nxt h ui_Passwd (id_Passwd i)
    \<and> (todo = [] \<longrightarrow> (\<exists>u. gm_get (c_usersMap c) h = Some (Some u)
         \<and> i = \<lparr>id_UID = ui_UID u, id_Email = ui_Email u, id_UUID = ui_UUID u, id_Passwd = ui_Passwd u\<rparr>
         \<and> (name = h \<or> name \<in> credentials u)))"
proof -
  let ?i = "identity_of (a_heap (c_author c) ! a)"
  have live: "live_inv d c todo old nxt" by (rule reachable_live [OF assms(1) ctl_inv_New])
  have pt: "c_panelType c = ''SSpanel''"
    using reachable_panelType [OF assms(1)] assms(2) by (simp add: NewController_def)
  have e: "entries_ok (c_panelType c) old nxt (c_author c)" and um: "c_usersMap c = old \<or> c_usersMap c = nxt"
    using live by (simp_all add: live_inv_def)
  obtain h where h: "gm_get (a_users (c_author c)) h = Some a"
    and nm: "name = h \<or> gm_get (a_aliases (c_author c)) name = Some h"
    using assms(3) by (auto simp: LoadUser_def split: option.splits)
  have acc: "u_hash (a_heap (c_author c) ! a) = h" "acc_ok ''SSpanel'' old nxt h ?i"
    using e h pt by (auto simp: entries_ok_def)
  then have uid: "user_name (id_UID ?i) = h" by (simp add: acc_ok_def)
  have al: "\<exists>u. listed old nxt h u \<and> (name = h \<or> name \<in> credentials u)"
  proof -
    from e have "gm_get (a_aliases (c_author c)) name = Some h \<Longrightarrow> \<exists>u. listed old nxt h u \<and> name \<in> credentials u"
      unfolding entries_ok_def by blast
    with nm acc(2) show ?thesis unfolding acc_ok_def by blast
  qed
  have idle: "\<exists>u. gm_get (c_usersMap c) h = Some (Some u)
      \<and> ?i = \<lparr>id_UID = ui_UID u, id_Email = ui_Email u, id_UUID = ui_UUID u, id_Passwd = ui_Passwd u\<rparr>
      \<and> (name = h \<or> name \<in> credentials u)" if "todo = []"
  proof -
    have inv: "ctl_inv c" using live that live_inv_ctl_inv by blast
    have "account (c_author c) h = Some ?i" using h by (simp add: account_def)
    moreover have am: "accounts_match (c_panelType c) (c_usersMap c) (c_author c)" using inv by (simp add: ctl_inv_def)
    ultimately obtain u where u: "gm_get (c_usersMap c) h = Some (Some u)" "describes (c_panelType c) u ?i"
      using accounts_matchD [OF am, of h] by (metis not_None_eq option.inject option.distinct(1))
    from nm inv u(1) have "name = h \<or> name \<in> credentials u" by (fastforce simp: ctl_inv_def aliases_match_def)
    with u pt show ?thesis by (intro exI [of _ u]) (simp add: describes_def)
  qed
  show ?thesis
    unfolding Let_def uid using acc(1) acc(2) [unfolded acc_ok_def] um al idle by blast
qed

text \<open>\<open>LoadUser\<close> makes up to three reads. When the alias is read at one moment and the account at another, the alias is a
  credential of its user on a list of the first moment, and the account is the one of that same user on a list of the second.\<close>

lemma lookup_in_two_reads:
  assumes "ctl_reachable d c0 c1 todo1 old1 nxt1" and "ctl_reachable d c0 c2 todo2 old2 nxt2" and "ctl_inv c0"
    and "gm_get (a_aliases (c_author c1)) name = Some h" and "gm_get (a_users (c_author c2)) h = Some a"
  shows "(\<exists>u. listed old1 nxt1 h u \<and> name \<in> credentials u) \<and> u_hash (a_heap (c_author c2) ! a) = h
    \<and> acc_ok (c_panelType c2) old2 nxt2 h (identity_of (a_heap (c_author c2) ! a))"
  using reachable_live [OF assms(1,3)] reachable_live [OF assms(2,3)] assms(4,5)
  by (simp add: live_inv_def entries_ok_def)

text \<open>Witness of C3: the moment after \<open>AddUser\<close>, when the account of a new user is registered but not yet filled in
  and its users map is not yet installed.\<close>

theorem loaded_account_is_current_witness:
  "let c = fold (effect example_deps) [Set_Synced, Call_Add ''u1'' 1] (NewController example_config (0, []) [] 0)
   in LoadUser (c_author c) ''u1'' = Some 0 \<and> c_usersMap c = []
     \<and> identity_of (a_heap (c_author c) ! 0) = \<lparr>id_UID = 1, id_Email = [], id_UUID = [], id_Passwd = []\<rparr>
     \<and> u_hash (a_heap (c_author c) ! 0) = user_name 1
     \<and> (\<exists>u. listed [] [(''u1'', Some (example_panel_user 1 ''A''))] (user_name 1) u)"
proof -
  let ?nxt = "[(''u1'', Some (example_panel_user 1 ''A''))]" and ?new = "NewController example_config (0, []) [] 0"
  let ?c = "fold (effect example_deps) [Set_Synced, Call_Add ''u1'' 1] ?new"
  let ?rest = "Install ?nxt # refresh_calls ?nxt ''u1''"
  have um: "c_usersMap ?new = []" by (simp add: NewController_def)
  have df: "diffUsers (c_usersMap ?new) [example_panel_user 1 ''A''] (buildUserHash (c_panelType ?new)) = (?nxt, [''u1''], [], [])"
    by code_simp
  have cc: "commit_calls ?nxt [''u1''] [] [] = Set_Synced # Call_Add ''u1'' 1 # ?rest"
    by (simp add: commit_calls_def add_calls_def example_panel_user_def)
  have r: "ctl_reachable example_deps ?new ?new (Set_Synced # Call_Add ''u1'' 1 # ?rest) [] ?nxt"
    using ctl_reachable.commit [OF ctl_reachable.init df] unfolding cc um .
  from complete_access [OF complete_access [OF r]] have rc: "ctl_reachable example_deps ?new ?c ?rest [] ?nxt" by simp
  have l: "LoadUser (c_author ?c) ''u1'' = Some 0" by code_simp
  have i: "identity_of (a_heap (c_author ?c) ! 0) = \<lparr>id_UID = 1, id_Email = [], id_UUID = [], id_Passwd = []\<rparr>" by code_simp
  have p: "cc_PanelType example_config = ''SSpanel''" by (simp add: example_config_def)
  have m: "c_usersMap ?c = []" by code_simp
  from loaded_account_is_current [OF rc p l] have
    "u_hash (a_heap (c_author ?c) ! 0) = user_name 1" "\<exists>u. listed [] ?nxt (user_name 1) u"
    unfolding Let_def i by auto
  with l i m show ?thesis unfolding Let_def by blast
qed



section \<open>Traffic: every byte counted is accounted for\<close>

text \<open>
  Connections add to the counters of an account, through a pointer they may keep after the account is
  deleted. Two goroutines collect: the user monitor and, for deleted users, the node monitor. \<open>ResetTraffic\<close> swaps the
  two counters one after the other; an entry is added to the report when either was not zero; \<open>ReportUserTraffic\<close>
  delivers the report, or fails, and then its bytes are given up. \<open>User.Close\<close> resets the counters once more and throws
  the result away.
\<close>

datatype collector = User_Monitor | Node_Monitor

datatype meter_event =
    Count_Sent nat int64
  | Count_Recv nat int64
  | Swap_Sent collector nat
  | Swap_Recv collector
  | Report collector "(api_error, unit) res"
  | Close_Sent nat
  | Close_Recv nat
  | Register string int

record 'l meter =
  m_author :: "'l auth"
  m_current :: "collector \<Rightarrow> (nat \<times> int64) option"
  m_report :: "collector \<Rightarrow> user_traffic list"
  m_delivered :: "user_traffic list"
  m_failed :: "user_traffic list"
  m_closed :: "user_traffic list"

definition swap_sent :: "'l user \<Rightarrow> int64 \<times> 'l user" where
  "swap_sent u = (u_sent u, u\<lparr>u_sent := 0\<rparr>)"

definition swap_recv :: "'l user \<Rightarrow> int64 \<times> 'l user" where
  "swap_recv u = (u_recv u, u\<lparr>u_recv := 0, u_lastSent := 0, u_lastRecv := 0\<rparr>)"

definition collect_entry :: "'l user \<Rightarrow> int64 \<Rightarrow> int64 \<Rightarrow> user_traffic list" where
  "collect_entry u sent recv =
     (if sent = 0 \<and> recv = 0 then []
      else case trafficForSSPanel sent recv of
             (up, down) \<Rightarrow> [\<lparr>ut_UID = u_UID u, ut_Email = u_Email u, ut_Upload = up, ut_Download = down\<rparr>])"

definition allocated :: "nat \<Rightarrow> 'l meter \<Rightarrow> bool" where
  "allocated a m \<longleftrightarrow> a < length (a_heap (m_author m))"

text \<open>One atomic step. An event that cannot happen (an address nobody has, a collector that is not at that point) changes
  nothing.\<close>

fun meter_step :: "meter_event \<Rightarrow> 'l meter \<Rightarrow> 'l meter" where
  "meter_step (Count_Sent a n) m = m\<lparr>m_author := upd_user a (count_sent n) (m_author m)\<rparr>"
| "meter_step (Count_Recv a n) m = m\<lparr>m_author := upd_user a (count_recv n) (m_author m)\<rparr>"
| "meter_step (Swap_Sent g a) m =
     (if allocated a m \<and> m_current m g = None then
        m\<lparr>m_current := (m_current m)(g := Some (a, fst (swap_sent (a_heap (m_author m) ! a)))),
          m_author := upd_user a (\<lambda>u. snd (swap_sent u)) (m_author m)\<rparr>
      else m)"
| "meter_step (Swap_Recv g) m =
     (case m_current m g of
        None \<Rightarrow> m
      | Some (a, sent) \<Rightarrow>
          (let u = a_heap (m_author m) ! a
           in m\<lparr>m_current := (m_current m)(g := None),
                m_report := (m_report m)(g := m_report m g @ collect_entry u sent (fst (swap_recv u))),
                m_author := upd_user a (\<lambda>u. snd (swap_recv u)) (m_author m)\<rparr>))"
| "meter_step (Report g r) m =
     (if m_current m g \<noteq> None then m
      else (case r of
              Ok _ \<Rightarrow> m\<lparr>m_delivered := m_delivered m @ m_report m g, m_report := (m_report m)(g := [])\<rparr>
            | _ \<Rightarrow> m\<lparr>m_failed := m_failed m @ m_report m g, m_report := (m_report m)(g := [])\<rparr>))"
| "meter_step (Close_Sent a) m =
     (if allocated a m then
        m\<lparr>m_closed := m_closed m @ collect_entry (a_heap (m_author m) ! a) (fst (swap_sent (a_heap (m_author m) ! a))) 0,
          m_author := upd_user a (\<lambda>u. snd (swap_sent u)) (m_author m)\<rparr>
      else m)"
| "meter_step (Close_Recv a) m =
     (if allocated a m then
        m\<lparr>m_closed := m_closed m @ collect_entry (a_heap (m_author m) ! a) 0 (fst (swap_recv (a_heap (m_author m) ! a))),
          m_author := upd_user a (\<lambda>u. (snd (swap_recv u))\<lparr>u_cancelled := True\<rparr>) (m_author m)\<rparr>
      else m)"
| "meter_step (Register h uid) m = m\<lparr>m_author := snd (AddUser h uid (m_author m))\<rparr>"

definition meter_run :: "meter_event list \<Rightarrow> 'l meter \<Rightarrow> 'l meter" where
  "meter_run es m = fold meter_step es m"

definition meter_of :: "'l auth \<Rightarrow> 'l meter" where
  "meter_of s = \<lparr>m_author = s, m_current = (\<lambda>_. None), m_report = (\<lambda>_. []), m_delivered = [], m_failed = [], m_closed = []\<rparr>"

text \<open>The bytes of a UID in one direction: in reports, in the hands of a collector, on the counters.\<close>

datatype direction = Upload | Download

fun entry_bytes :: "direction \<Rightarrow> user_traffic \<Rightarrow> int64" where
  "entry_bytes Upload t = ut_Upload t"
| "entry_bytes Download t = ut_Download t"

fun counter :: "direction \<Rightarrow> 'l user \<Rightarrow> int64" where
  "counter Upload u = u_sent u"
| "counter Download u = u_recv u"

definition reported :: "direction \<Rightarrow> int \<Rightarrow> user_traffic list \<Rightarrow> int64" where
  "reported dir uid ts = sum_list (map (entry_bytes dir) (filter (\<lambda>t. ut_UID t = uid) ts))"

definition on_counters :: "direction \<Rightarrow> int \<Rightarrow> 'l auth \<Rightarrow> int64" where
  "on_counters dir uid s = sum_list (map (\<lambda>u. if u_UID u = uid then counter dir u else 0) (a_heap s))"

definition in_hand :: "direction \<Rightarrow> int \<Rightarrow> 'l meter \<Rightarrow> collector \<Rightarrow> int64" where
  "in_hand dir uid m g =
     (case m_current m g of
        None \<Rightarrow> 0
      | Some (a, sent) \<Rightarrow> if dir = Upload \<and> u_UID (a_heap (m_author m) ! a) = uid then sent else 0)"

definition undelivered :: "direction \<Rightarrow> int \<Rightarrow> 'l meter \<Rightarrow> int64" where
  "undelivered dir uid m = on_counters dir uid (m_author m)
     + in_hand dir uid m User_Monitor + in_hand dir uid m Node_Monitor
     + reported dir uid (m_report m User_Monitor) + reported dir uid (m_report m Node_Monitor)"

definition given_up :: "direction \<Rightarrow> int \<Rightarrow> 'l meter \<Rightarrow> int64" where
  "given_up dir uid m = reported dir uid (m_failed m) + reported dir uid (m_closed m)"

fun count_of :: "direction \<Rightarrow> int \<Rightarrow> meter_event \<Rightarrow> 'l meter \<Rightarrow> int64" where
  "count_of dir uid (Count_Sent a n) m =
     (if dir = Upload \<and> allocated a m \<and> u_UID (a_heap (m_author m) ! a) = uid then n else 0)"
| "count_of dir uid (Count_Recv a n) m =
     (if dir = Download \<and> allocated a m \<and> u_UID (a_heap (m_author m) ! a) = uid then n else 0)"
| "count_of dir uid e m = 0"

fun counted :: "direction \<Rightarrow> int \<Rightarrow> meter_event list \<Rightarrow> 'l meter \<Rightarrow> int64" where
  "counted dir uid [] m = 0"
| "counted dir uid (e # es) m = count_of dir uid e m + counted dir uid es (meter_step e m)"

lemma reported_simps [simp]:
  "reported dir uid [] = 0" "reported dir uid (xs @ ys) = reported dir uid xs + reported dir uid ys"
  by (simp_all add: reported_def)

lemma reported_entry [simp]:
  "reported dir uid (collect_entry u sent recv) =
     (if u_UID u = uid then (case dir of Upload \<Rightarrow> sent | Download \<Rightarrow> recv) else 0)"
  by (cases dir) (auto simp: reported_def collect_entry_def trafficForSSPanel_def)

lemma sum_list_update:
  fixes f :: "'a \<Rightarrow> 'b :: ab_group_add"
  assumes "a < length xs"
  shows "sum_list (map f (xs[a := v])) = sum_list (map f xs) - f (xs ! a) + f v"
  using assms by (induction xs arbitrary: a) (auto split: nat.splits simp: algebra_simps)

lemma on_counters_upd:
  assumes "\<And>u. u_UID (f u) = u_UID u"
  shows "on_counters dir uid (upd_user a f s) = on_counters dir uid s +
    (if a < length (a_heap s) \<and> u_UID (a_heap s ! a) = uid
     then counter dir (f (a_heap s ! a)) - counter dir (a_heap s ! a) else 0)"
proof (cases "a < length (a_heap s)")
  case True
  then show ?thesis by (simp add: on_counters_def upd_user_def sum_list_update assms)
qed (simp add: upd_user_def list_update_beyond)

definition meter_ok :: "'l meter \<Rightarrow> bool" where
  "meter_ok m \<longleftrightarrow> (\<forall>g a sent. m_current m g = Some (a, sent) \<longrightarrow> allocated a m)"


definition accounted :: "direction \<Rightarrow> int \<Rightarrow> 'l meter \<Rightarrow> int64" where
  "accounted dir uid m = reported dir uid (m_delivered m) + given_up dir uid m + undelivered dir uid m"

lemmas accounted_defs = accounted_def given_up_def undelivered_def

lemma meter_ok_step: "meter_ok m \<Longrightarrow> meter_ok (meter_step e m)"
  by (cases e) (auto simp: meter_ok_def allocated_def Let_def AddUser_def split: option.splits res.splits intro: less_SucI)

lemma swap_UID [simp]:
  "u_UID (snd (swap_sent u)) = u_UID u" "u_UID (snd (swap_recv u)) = u_UID u"
  "u_UID (count_sent n u) = u_UID u" "u_UID (count_recv n u) = u_UID u"
  by (simp_all add: swap_sent_def swap_recv_def count_sent_def count_recv_def)

lemmas counter_defs = swap_sent_def swap_recv_def count_sent_def count_recv_def

lemma meter_step_accounted:
  assumes "meter_ok m"
  shows "accounted dir uid (meter_step e m) = accounted dir uid m + count_of dir uid e m"
proof -
  have cur: "allocated a m" if "m_current m g = Some (a, sent)" for g a sent
    using assms that by (auto simp: meter_ok_def)
  show ?thesis
  proof (cases e)
    case (Count_Sent a n)
    then have "in_hand dir uid (meter_step e m) g = in_hand dir uid m g" for g
      using cur by (auto simp: in_hand_def upd_user_nth allocated_def split: option.splits)
    with Count_Sent show ?thesis
      by (cases dir) (auto simp: accounted_defs on_counters_upd counter_defs allocated_def)
  next
    case (Count_Recv a n)
    then have "in_hand dir uid (meter_step e m) g = in_hand dir uid m g" for g
      using cur by (auto simp: in_hand_def upd_user_nth allocated_def split: option.splits)
    with Count_Recv show ?thesis
      by (cases dir) (auto simp: accounted_defs on_counters_upd counter_defs allocated_def)
  next
    case (Swap_Sent g a)
    have "in_hand dir uid (meter_step e m) g' = (if g' = g \<and> allocated a m \<and> m_current m g = None
          then (if dir = Upload \<and> u_UID (a_heap (m_author m) ! a) = uid then fst (swap_sent (a_heap (m_author m) ! a)) else 0)
          else in_hand dir uid m g')" for g'
      using Swap_Sent cur by (auto simp: in_hand_def upd_user_nth allocated_def split: option.splits)
    moreover have "in_hand dir uid m g = 0" if "m_current m g = None" using that by (simp add: in_hand_def)
    ultimately show ?thesis
      using Swap_Sent by (cases g; cases dir) (auto simp: accounted_defs on_counters_upd counter_defs allocated_def)
  next
    case (Swap_Recv g)
    show ?thesis
    proof (cases "m_current m g")
      case (Some p)
      obtain a sent where p: "p = (a, sent)" by (cases p)
      have al: "a < length (a_heap (m_author m))" using cur Some p by (auto simp: allocated_def)
      have "in_hand dir uid (meter_step e m) g' = (if g' = g then 0 else in_hand dir uid m g')" for g'
        using Swap_Recv Some p cur by (auto simp: in_hand_def upd_user_nth allocated_def Let_def split: option.splits)
      moreover have "in_hand dir uid m g = (if dir = Upload \<and> u_UID (a_heap (m_author m) ! a) = uid then sent else 0)"
        using Some p by (simp add: in_hand_def)
      ultimately show ?thesis
        using Swap_Recv Some p al
        by (cases g; cases dir) (auto simp: accounted_defs on_counters_upd counter_defs Let_def)
    qed (simp add: Swap_Recv)
  next
    case (Report g r)
    have "in_hand dir uid (meter_step e m) g' = in_hand dir uid m g'" for g'
      using Report by (cases "m_current m g'") (auto simp: in_hand_def split: res.splits)
    with Report show ?thesis by (cases g) (simp_all add: accounted_defs split: res.splits)
  next
    case (Close_Sent a)
    have "in_hand dir uid (meter_step e m) g = in_hand dir uid m g" for g
      using Close_Sent cur by (auto simp: in_hand_def upd_user_nth allocated_def split: option.splits)
    with Close_Sent show ?thesis
      by (cases dir) (auto simp: accounted_defs on_counters_upd counter_defs allocated_def)
  next
    case (Close_Recv a)
    have "in_hand dir uid (meter_step e m) g = in_hand dir uid m g" for g
      using Close_Recv cur by (auto simp: in_hand_def upd_user_nth allocated_def split: option.splits)
    with Close_Recv show ?thesis
      by (cases dir) (auto simp: accounted_defs on_counters_upd counter_defs allocated_def)
  next
    case (Register h u)
    have "on_counters dir uid (snd (AddUser h u (m_author m))) = on_counters dir uid (m_author m)"
      by (cases dir) (auto simp: on_counters_def AddUser_def new_user_def split: option.splits)
    moreover have "in_hand dir uid (meter_step e m) g = in_hand dir uid m g" for g
      using Register cur by (auto simp: in_hand_def AddUser_def nth_append allocated_def split: option.splits)
    ultimately show ?thesis using Register by (simp add: accounted_defs)
  qed
qed


lemma meter_run_accounted:
  "meter_ok m \<Longrightarrow> accounted dir uid (meter_run es m) = accounted dir uid m + counted dir uid es m"
proof (induction es arbitrary: m)
  case (Cons e es)
  from Cons.IH [OF meter_ok_step [OF Cons.prems]] meter_step_accounted [OF Cons.prems] show ?case
    by (simp add: meter_run_def algebra_simps)
qed (simp add: meter_run_def)

text \<open>The steps that give bytes up.\<close>

fun gives_up :: "meter_event \<Rightarrow> bool" where
  "gives_up (Report _ (Ok _)) = False"
| "gives_up (Report _ _) = True"
| "gives_up (Close_Sent _) = True"
| "gives_up (Close_Recv _) = True"
| "gives_up _ = False"

lemma given_up_step:
  "\<not> gives_up e \<Longrightarrow> m_failed (meter_step e m) = m_failed m \<and> m_closed (meter_step e m) = m_closed m"
  by (cases e) (auto simp: Let_def split: option.splits res.splits)

lemma given_up_run:
  "\<forall>e \<in> set es. \<not> gives_up e \<Longrightarrow> given_up dir uid (meter_run es m) = given_up dir uid m"
  by (induction es arbitrary: m) (simp_all add: meter_run_def given_up_def given_up_step)

text \<open>
  Taken without interruption the swaps are the collection of a user tick and the dump of the deleted users.
\<close>

definition reset_events :: "collector \<Rightarrow> nat list \<Rightarrow> meter_event list" where
  "reset_events g as = concat (map (\<lambda>a. [Swap_Sent g a, Swap_Recv g]) as)"

definition user_entry :: "'l user \<Rightarrow> user_traffic list" where
  "user_entry u = collect_entry u (u_sent u) (u_recv u)"

definition reset_at :: "collector \<Rightarrow> nat \<Rightarrow> 'l meter \<Rightarrow> 'l meter" where
  "reset_at g a m = m\<lparr>m_report := (m_report m)(g := m_report m g @ user_entry (a_heap (m_author m) ! a)),
     m_author := upd_user a (\<lambda>u. snd (ResetTraffic u)) (m_author m)\<rparr>"

lemma reset_pair:
  assumes "allocated a m" and "m_current m g = None"
  shows "meter_step (Swap_Recv g) (meter_step (Swap_Sent g a) m) = reset_at g a m"
proof -
  have al: "a < length (a_heap (m_author m))" using assms(1) by (simp add: allocated_def)
  have reset: "(\<lambda>u. snd (swap_recv (snd (swap_sent u)))) = (\<lambda>u. snd (ResetTraffic u))"
    by (simp add: fun_eq_iff swap_sent_def swap_recv_def ResetTraffic_def)
  have e: "collect_entry (snd (swap_sent u)) sent (fst (swap_recv (snd (swap_sent u)))) = collect_entry u sent (u_recv u)"
    for sent and u :: "'a user" by (simp add: collect_entry_def swap_sent_def swap_recv_def)
  have cur: "(m_current m)(g := None) = m_current m" using assms(2) by auto
  show ?thesis
    using assms al
    by (simp add: Let_def upd_user_upd_user reset upd_user_nth e reset_at_def user_entry_def cur)
       (simp add: swap_sent_def cur)
qed

lemma reset_at_sel [simp]:
  "m_current (reset_at g a m) = m_current m" "allocated b (reset_at g a m) = allocated b m"
  by (simp_all add: reset_at_def allocated_def)

lemma run_resets:
  assumes "m_current m g = None" and "\<forall>a \<in> set as. allocated a m"
  shows "meter_run (reset_events g as) m = fold (reset_at g) as m"
  using assms
proof (induction as arbitrary: m)
  case (Cons a as)
  have "fold meter_step (reset_events g (a # as)) m =
      fold meter_step (reset_events g as) (meter_step (Swap_Recv g) (meter_step (Swap_Sent g a) m))"
    by (simp add: reset_events_def del: meter_step.simps)
  also have "\<dots> = fold meter_step (reset_events g as) (reset_at g a m)" using reset_pair Cons.prems by fastforce
  finally show ?case using Cons.IH [of "reset_at g a m"] Cons.prems by (simp add: meter_run_def)
qed (simp add: meter_run_def reset_events_def)

lemma fold_reset_report:
  "distinct as \<Longrightarrow> \<forall>a \<in> set as. allocated a m \<Longrightarrow>
     m_report (fold (reset_at g) as m) g = m_report m g @ concat (map (\<lambda>a. user_entry (a_heap (m_author m) ! a)) as)"
proof (induction as arbitrary: m)
  case (Cons a as)
  have "user_entry (a_heap (m_author (reset_at g a m)) ! b) = user_entry (a_heap (m_author m) ! b)" if "b \<in> set as" for b
    using that Cons.prems by (auto simp: reset_at_def upd_user_nth allocated_def)
  then have "concat (map (\<lambda>b. user_entry (a_heap (m_author (reset_at g a m)) ! b)) as) =
      concat (map (\<lambda>b. user_entry (a_heap (m_author m) ! b)) as)"
    by (intro arg_cong [of _ _ concat] map_cong refl)
  moreover have "m_report (reset_at g a m) g = m_report m g @ user_entry (a_heap (m_author m) ! a)" by (simp add: reset_at_def)
  ultimately show ?case using Cons.IH [of "reset_at g a m"] Cons.prems by simp
qed simp

lemma fold_reset_author: "m_author (fold (reset_at g) as m) = fold (\<lambda>a. upd_user a (\<lambda>u. snd (ResetTraffic u))) as (m_author m)"
  by (induction as arbitrary: m) (simp_all add: reset_at_def)

lemma user_entry_eq: "user_entry u = (if idle u then [] else [traffic_entry u])"
  by (simp add: user_entry_def collect_entry_def idle_def traffic_entry_def trafficForSSPanel_def)

lemma user_tick_is_run:
  assumes "auth_inv s" and "collect_traffic s = (ts, os, s')"
  shows "m_report (meter_run (reset_events User_Monitor (ListUsers s)) (meter_of s)) User_Monitor = ts"
    and "map GetTraffic (a_heap (m_author (meter_run (reset_events User_Monitor (ListUsers s)) (meter_of s)))) =
      map GetTraffic (a_heap s')"
proof -
  let ?m = "meter_of s"
  note v = ListUsers_valid [OF assms(1)] and dl = distinct_ListUsers [OF assms(1)]
  have al: "\<forall>a \<in> set (ListUsers s). allocated a ?m" using v by (simp add: allocated_def meter_of_def)
  have run: "meter_run (reset_events User_Monitor (ListUsers s)) ?m = fold (reset_at User_Monitor) (ListUsers s) ?m"
    by (rule run_resets [OF _ al]) (simp add: meter_of_def)
  have cf: "ts = map traffic_entry (filter (\<lambda>u. \<not> idle u) (map ((!) (a_heap s)) (ListUsers s)))"
    "s' = fold (\<lambda>a. upd_user a collected) (ListUsers s) s"
    using assms(2) collect_fold [OF assms(1) dl v, of "[]" "[]"] by (auto simp: collect_traffic_def)
  have "concat (map (\<lambda>a. user_entry (a_heap s ! a)) as) = map traffic_entry (filter (\<lambda>u. \<not> idle u) (map ((!) (a_heap s)) as))" for as
    by (induction as) (simp_all add: user_entry_eq)
  with fold_reset_report [OF dl al] show "m_report (meter_run (reset_events User_Monitor (ListUsers s)) ?m) User_Monitor = ts"
    unfolding run cf(1) by (simp add: meter_of_def)
  have t: "map GetTraffic (a_heap (fold (\<lambda>a. upd_user a f) as t)) = map GetTraffic (a_heap (fold (\<lambda>a. upd_user a f') as t'))"
    if "\<And>u. GetTraffic (f u) = (0, 0)" "\<And>u. GetTraffic (f' u) = (0, 0)"
      and "map GetTraffic (a_heap t) = map GetTraffic (a_heap t')" for as t t' and f f' :: "'a user \<Rightarrow> 'a user"
    using that(3)
  proof (induction as arbitrary: t t')
    case (Cons a as)
    have "map GetTraffic (a_heap (upd_user a f t)) = map GetTraffic (a_heap (upd_user a f' t'))"
      unfolding upd_user_def using Cons.prems by (simp add: map_update that(1,2))
    from Cons.IH [OF this] show ?case by simp
  qed simp
  show "map GetTraffic (a_heap (m_author (meter_run (reset_events User_Monitor (ListUsers s)) ?m))) = map GetTraffic (a_heap s')"
    unfolding run fold_reset_author cf(2)
    by (rule t) (simp_all add: collected_frame meter_of_def, simp add: ResetTraffic_def GetTraffic_def)
qed

lemma dump_is_run:
  assumes "auth_inv s"
  shows "let m = meter_run (reset_events Node_Monitor (List.map_filter (LoadUser s) hs)) (meter_of s)
    in fold dump_user hs ([], s) = (m_report m Node_Monitor, m_author m)"
proof -
  have gen: "fold dump_user hs (m_report m Node_Monitor, m_author m) =
      (m_report (fold (reset_at Node_Monitor) (List.map_filter (LoadUser s) hs) m) Node_Monitor,
       m_author (fold (reset_at Node_Monitor) (List.map_filter (LoadUser s) hs) m))"
    if "\<And>h. LoadUser (m_author m) h = LoadUser s h" for m
    using that
  proof (induction hs arbitrary: m)
    case (Cons h hs)
    show ?case
    proof (cases "LoadUser s h")
      case (Some a)
      have "dump_user h (m_report m Node_Monitor, m_author m) =
          (m_report (reset_at Node_Monitor a m) Node_Monitor, m_author (reset_at Node_Monitor a m))"
        using Cons.prems Some
        by (auto simp: dump_user_def reset_at_def user_entry_def collect_entry_def Let_def ResetTraffic_def split: prod.splits)
      moreover have "LoadUser (m_author (reset_at Node_Monitor a m)) h' = LoadUser s h'" for h'
        by (simp add: reset_at_def Cons.prems)
      ultimately show ?thesis using Cons.IH [of "reset_at Node_Monitor a m"] Some by (simp add: map_filter_simps)
    qed (use Cons in \<open>simp add: dump_user_def map_filter_simps\<close>)
  qed (simp add: map_filter_simps)
  have "meter_run (reset_events Node_Monitor (List.map_filter (LoadUser s) hs)) (meter_of s) =
      fold (reset_at Node_Monitor) (List.map_filter (LoadUser s) hs) (meter_of s)"
    using LoadUser_valid [OF assms] by (intro run_resets) (auto simp: meter_of_def allocated_def List.map_filter_def)
  with gen [of "meter_of s"] show ?thesis by (simp add: Let_def meter_of_def)
qed


text \<open>C5. Traffic accounting over every interleaving of atomic steps: connections that add to the counters (also of
  accounts already deleted), the swaps of the two collecting goroutines, successful and failed reports,
  closing accounts and registering new ones. For each UID and direction, in 64-bit arithmetic, what the panel accepted,
  what was given up in failed reports and at closing, and what is still on counters or in the hands of a collector
  add up to what was there at the start plus every byte counted; and bytes are given up only by a failed
  report or by closing an account.\<close>

theorem traffic_conserved:
  "let m = meter_run es (meter_of s) in
     reported dir uid (m_delivered m) + given_up dir uid m + undelivered dir uid m
       = on_counters dir uid s + counted dir uid es (meter_of s)
     \<and> ((\<forall>e \<in> set es. \<not> gives_up e) \<longrightarrow> given_up dir uid m = 0)"
proof -
  have "meter_ok (meter_of s)" by (simp add: meter_ok_def meter_of_def)
  note r = meter_run_accounted [OF this, of dir uid es]
  have "accounted dir uid (meter_of s) = on_counters dir uid s" "given_up dir uid (meter_of s) = 0"
    by (simp_all add: accounted_defs meter_of_def in_hand_def)
  with r given_up_run [of es dir uid "meter_of s"] show ?thesis by (simp add: accounted_def Let_def)
qed

definition interleaved_cycle :: "meter_event list" where
  "interleaved_cycle = [Count_Sent 1 3, Swap_Sent User_Monitor 1, Count_Sent 1 4, Count_Recv 1 2, Swap_Recv User_Monitor,
     Report User_Monitor (Ok ()), Count_Sent 1 1]"

text \<open>Witness of C5: bytes counted between the two swaps of a cycle stay on the counter for the next one.\<close>

theorem traffic_conserved_witness:
  "let m = meter_run interleaved_cycle (meter_of example_accounts)
   in reported Upload 2 (m_delivered m) = 8 \<and> undelivered Upload 2 m = 5
     \<and> reported Upload 2 (m_delivered m) + undelivered Upload 2 m
       = on_counters Upload 2 example_accounts + counted Upload 2 interleaved_cycle (meter_of example_accounts)"
proof -
  have ng: "\<forall>e \<in> set interleaved_cycle. \<not> gives_up e" by (simp add: interleaved_cycle_def)
  have "reported Upload 2 (m_delivered (meter_run interleaved_cycle (meter_of example_accounts))) = 8"
    "undelivered Upload 2 (meter_run interleaved_cycle (meter_of example_accounts)) = 5" by code_simp+
  with traffic_conserved [where es = interleaved_cycle and s = example_accounts and dir = Upload and uid = 2] ng
  show ?thesis unfolding Let_def by (metis add_0_right)
qed

text \<open>What a connection moves between the dump of a deleted user and \<open>DelUser\<close> is in no report: \<open>Close\<close> throws it away.\<close>

theorem bytes_after_dump_are_dropped:
  "let m = meter_run [Swap_Sent Node_Monitor 1, Swap_Recv Node_Monitor, Report Node_Monitor (Ok ()), Count_Sent 1 9,
       Close_Sent 1, Close_Recv 1] (meter_of example_accounts)
   in reported Upload 2 (m_delivered m) = 5 \<and> reported Upload 2 (m_failed m) = 0 \<and> given_up Upload 2 m = 9
     \<and> undelivered Upload 2 m = 0"
  by code_simp

end
