(* ===== verification/Inbound_Reload.thy ===== *)
theory Inbound_Reload
  imports Inbound_Users
begin

text \<open>
  Panel hot reload of the three inbounds: \<open>ConfigureFromPanelNode\<close>, \<open>Start\<close> and \<open>Close\<close> of
  \<^verbatim>\<open>protocol/anytls/inbound.go\<close>, \<^verbatim>\<open>protocol/naive/singr_reload.go\<close> (with \<^verbatim>\<open>inbound.go\<close>) and
  \<^verbatim>\<open>protocol/hysteria2/inbound.go\<close>. Each runs under \<open>reloadMu\<close>, so a call is one function on the
  inbound and on the world it acquires resources from: the TLS configurations that were built and
  not closed and the sockets that are bound. Whether a fallible action (building or starting a TLS
  configuration, binding a socket, building or starting a service) succeeds is decided by \<open>w_fate\<close>,
  an arbitrary list of outcomes; a socket is never bound twice on a port.
\<close>

section \<open>The world\<close>

datatype tls_conf = TlsConf nat (tls_name: string)
datatype lis = Lis nat (lis_port: uint16)
datatype net = TCP | UDP

record world =
  w_next :: nat
  w_fate :: "bool list"
  w_tls :: "tls_conf list"
  w_socks :: "(net \<times> lis) list"

definition attempt :: "world \<Rightarrow> bool \<times> world" where
  "attempt w = (case w_fate w of [] \<Rightarrow> (True, w) | b # bs \<Rightarrow> (b, w\<lparr>w_fate := bs\<rparr>))"

definition tls_NewServer :: "string \<Rightarrow> world \<Rightarrow> tls_conf option \<times> world" where
  "tls_NewServer serverName w =
     (case attempt w of
        (False, w') \<Rightarrow> (None, w')
      | (True, w') \<Rightarrow>
          (let t = TlsConf (w_next w') serverName
           in (Some t, w'\<lparr>w_next := Suc (w_next w'), w_tls := t # w_tls w'\<rparr>)))"

definition tls_Close :: "tls_conf option \<Rightarrow> world \<Rightarrow> world" where
  "tls_Close t w = (case t of None \<Rightarrow> w | Some c \<Rightarrow> w\<lparr>w_tls := filter (\<lambda>x. x \<noteq> c) (w_tls w)\<rparr>)"

definition new_listener :: "uint16 \<Rightarrow> world \<Rightarrow> lis \<times> world" where
  "new_listener port w = (Lis (w_next w) port, w\<lparr>w_next := Suc (w_next w)\<rparr>)"

definition listen_on :: "net \<Rightarrow> lis \<Rightarrow> world \<Rightarrow> bool \<times> world" where
  "listen_on n l w =
     (if \<exists>(m, k) \<in> set (w_socks w). m = n \<and> lis_port k = lis_port l then (False, w)
      else case attempt w of
             (False, w') \<Rightarrow> (False, w')
           | (True, w') \<Rightarrow> (True, w'\<lparr>w_socks := (n, l) # w_socks w'\<rparr>))"

definition lis_Close :: "lis \<Rightarrow> world \<Rightarrow> world" where
  "lis_Close l w = w\<lparr>w_socks := filter (\<lambda>s. snd s \<noteq> l) (w_socks w)\<rparr>"


section \<open>Panel options\<close>

record tls_options =
  to_Enabled :: bool
  to_ServerName :: string

text \<open>The options that a panel node changes; \<open>io_rest\<close> stands for all the others.\<close>

record 'x inbound_options =
  io_ListenPort :: uint16
  io_TLS :: "tls_options option"
  io_rest :: 'x

definition option_sni :: "'x inbound_options \<Rightarrow> string" where
  "option_sni o' = (case io_TLS o' of None \<Rightarrow> [] | Some t \<Rightarrow> to_ServerName t)"

definition tls_on :: "'x inbound_options \<Rightarrow> bool" where
  "tls_on o' = (case io_TLS o' of None \<Rightarrow> False | Some t \<Rightarrow> to_Enabled t)"

definition check_node :: "string \<Rightarrow> node_info \<Rightarrow> api_error option" where
  "check_node inboundType nodeInfo =
     (if ni_NodeType nodeInfo \<noteq> inboundType then Some (NodeTypeMismatch inboundType (ni_NodeType nodeInfo))
      else if ni_Port nodeInfo = 0 \<or> 65535 < ni_Port nodeInfo
           then Some (InvalidListenPort inboundType (ni_Port nodeInfo))
      else None)"

definition panel_options :: "node_info \<Rightarrow> 'x inbound_options \<Rightarrow> 'x inbound_options" where
  "panel_options nodeInfo opts =
     opts\<lparr>io_ListenPort := ucast (ni_Port nodeInfo),
          io_TLS := (if ni_Host nodeInfo = [] then io_TLS opts
                     else Some (case io_TLS opts of
                                  None \<Rightarrow> \<lparr>to_Enabled = True, to_ServerName = ni_Host nodeInfo\<rparr>
                                | Some t \<Rightarrow> t\<lparr>to_ServerName := ni_Host nodeInfo\<rparr>))\<rparr>"


section \<open>AnyTLS\<close>

record ('t, 'x) anytls_inbound =
  at_tls :: "tls_conf option"
  at_listener :: lis
  at_service :: 't
  at_options :: "'x inbound_options"
  at_started :: bool

definition any_prestart :: "'x inbound_options \<Rightarrow> ('t, 'x) anytls_inbound \<Rightarrow> world \<Rightarrow>
    api_error option \<times> ('t, 'x) anytls_inbound \<times> world" where
  "any_prestart newOpts h w =
     (case (if tls_on newOpts then tls_NewServer (option_sni newOpts) w else (at_tls h, w)) of
        (t, w1) \<Rightarrow>
          if tls_on newOpts \<and> t = None then (Some TlsBuild, h, w1)
          else (let w2 = (if tls_on newOpts then tls_Close (at_tls h) w1 else w1);
                    (l, w3) = new_listener (io_ListenPort newOpts) w2
                in (None, h\<lparr>at_tls := t, at_listener := l, at_options := newOpts\<rparr>, w3)))"

text \<open>Building and starting the new TLS configuration of a hot reload; \<open>None\<close> when it failed.\<close>

definition reload_tls :: "bool \<Rightarrow> 'x inbound_options \<Rightarrow> world \<Rightarrow> (api_error, tls_conf option) res \<times> world" where
  "reload_tls sniChanged newOpts w =
     (if sniChanged \<and> tls_on newOpts then
        (case tls_NewServer (option_sni newOpts) w of
           (None, w1) \<Rightarrow> (Err TlsBuild, w1)
         | (Some t, w1) \<Rightarrow>
             (case attempt w1 of
                (False, w2) \<Rightarrow> (Err TlsStart, tls_Close (Some t) w2)
              | (True, w2) \<Rightarrow> (Ok (Some t), w2)))
      else (Ok None, w))"

definition any_hot_reload :: "bool \<Rightarrow> bool \<Rightarrow> 'x inbound_options \<Rightarrow> ('t, 'x) anytls_inbound \<Rightarrow> world \<Rightarrow>
    api_error option \<times> ('t, 'x) anytls_inbound \<times> world" where
  "any_hot_reload portChanged sniChanged newOpts h w =
     (case reload_tls sniChanged newOpts w of
        (Err e, w1) \<Rightarrow> (Some e, h, w1)
      | (Panic, w1) \<Rightarrow> (Some TlsBuild, h, w1)
      | (Ok newTLS, w1) \<Rightarrow>
          (let (newListener, w2) = new_listener (io_ListenPort newOpts) w1;
               (bound, w3) = (if portChanged then listen_on TCP newListener w2 else (True, w1))
           in if portChanged \<and> \<not> bound then
                (Some (ListenFailed (io_ListenPort newOpts)), h, tls_Close newTLS w3)
              else
                (let w4 = (if portChanged then lis_Close (at_listener h) w3 else w3);
                     h1 = (if portChanged then h\<lparr>at_listener := newListener\<rparr> else h);
                     w5 = (if newTLS \<noteq> None then tls_Close (at_tls h1) w4 else w4);
                     h2 = (if newTLS \<noteq> None then h1\<lparr>at_tls := newTLS\<rparr> else h1)
                 in (None, h2\<lparr>at_options := newOpts\<rparr>, w5))))"

definition any_ConfigureFromPanelNode :: "node_info option \<Rightarrow> ('t, 'x) anytls_inbound \<Rightarrow> world \<Rightarrow>
    api_error option \<times> ('t, 'x) anytls_inbound \<times> world" where
  "any_ConfigureFromPanelNode node h w =
     (case node of
        None \<Rightarrow> (None, h, w)
      | Some nodeInfo \<Rightarrow>
          (case check_node ''anytls'' nodeInfo of
             Some e \<Rightarrow> (Some e, h, w)
           | None \<Rightarrow>
               (let newOpts = panel_options nodeInfo (at_options h);
                    portChanged = (io_ListenPort newOpts \<noteq> io_ListenPort (at_options h));
                    sniChanged = (option_sni newOpts \<noteq> option_sni (at_options h))
                in if at_started h \<and> \<not> portChanged \<and> \<not> sniChanged then (None, h, w)
                   else if \<not> at_started h then any_prestart newOpts h w
                   else any_hot_reload portChanged sniChanged newOpts h w)))"

definition any_Start :: "('t, 'x) anytls_inbound \<Rightarrow> world \<Rightarrow> api_error option \<times> ('t, 'x) anytls_inbound \<times> world" where
  "any_Start h w =
     (case (if at_tls h \<noteq> None then attempt w else (True, w)) of
        (False, w1) \<Rightarrow> (Some TlsStart, h, w1)
      | (True, w1) \<Rightarrow>
          (case listen_on TCP (at_listener h) w1 of
             (False, w2) \<Rightarrow> (Some (ListenFailed (lis_port (at_listener h))), h, w2)
           | (True, w2) \<Rightarrow> (None, h\<lparr>at_started := True\<rparr>, w2)))"

definition any_Close :: "('t, 'x) anytls_inbound \<Rightarrow> world \<Rightarrow> world" where
  "any_Close h w = tls_Close (at_tls h) (lis_Close (at_listener h) w)"


section \<open>Naive\<close>

text \<open>The ALPN list of every server configuration: \<open>h2\<close> first when TCP is served, \<open>h3\<close> when QUIC is.\<close>

definition naive_protos :: "net list \<Rightarrow> string list \<Rightarrow> string list" where
  "naive_protos network protos =
     (let p1 = (if TCP \<in> set network then
                  if protos = [] then [''h2'', ''http/1.1'']
                  else if ''h2'' \<notin> set protos then ''h2'' # protos else protos
                else protos)
      in if UDP \<in> set network \<and> ''h3'' \<notin> set p1 then p1 @ [''h3''] else p1)"

record 'x naive_inbound =
  nv_options :: "'x inbound_options"
  nv_listener :: lis
  nv_network :: "net list"
  nv_users :: user_table
  nv_tls :: "tls_conf option"
  nv_httpServer :: bool
  nv_h3Server :: bool
  nv_started :: bool
  nv_closed :: bool

text \<open>\<open>serve\<close>: HTTP/2 on the TCP socket, HTTP/3 on the UDP socket of one listener; when HTTP/3
  fails the HTTP server is closed with its socket. The two results are whether each server runs.\<close>

definition naive_serve :: "net list \<Rightarrow> lis \<Rightarrow> world \<Rightarrow> (api_error, bool \<times> bool) res \<times> world" where
  "naive_serve network l w =
     (case (if TCP \<in> set network then listen_on TCP l w else (True, w)) of
        (False, w1) \<Rightarrow> (Err (ListenFailed (lis_port l)), w1)
      | (True, w1) \<Rightarrow>
          if UDP \<in> set network then
            (case listen_on UDP l w1 of
               (False, w2) \<Rightarrow> (Err ServiceFailed, w2\<lparr>w_socks := filter (\<lambda>s. s \<noteq> (TCP, l)) (w_socks w2)\<rparr>)
             | (True, w2) \<Rightarrow>
                 (case attempt w2 of
                    (False, w3) \<Rightarrow> (Err ServiceFailed, w3\<lparr>w_socks := filter (\<lambda>s. s \<noteq> (TCP, l)) (w_socks w3)\<rparr>)
                  | (True, w3) \<Rightarrow> (Ok (TCP \<in> set network, True), w3)))
          else (Ok (TCP \<in> set network, False), w1))"

definition naive_prestart :: "'x inbound_options \<Rightarrow> 'x naive_inbound \<Rightarrow> world \<Rightarrow>
    api_error option \<times> 'x naive_inbound \<times> world" where
  "naive_prestart newOpts n w =
     (case (if tls_on newOpts then tls_NewServer (option_sni newOpts) w else (nv_tls n, w)) of
        (t, w1) \<Rightarrow>
          if tls_on newOpts \<and> t = None then (Some TlsBuild, n, w1)
          else (let w2 = (if tls_on newOpts then tls_Close (nv_tls n) w1 else w1);
                    (l, w3) = new_listener (io_ListenPort newOpts) w2
                in (None, n\<lparr>nv_tls := t, nv_listener := l, nv_options := newOpts\<rparr>, w3)))"

definition naive_hot_reload :: "bool \<Rightarrow> bool \<Rightarrow> 'x inbound_options \<Rightarrow> 'x naive_inbound \<Rightarrow> world \<Rightarrow>
    api_error option \<times> 'x naive_inbound \<times> world" where
  "naive_hot_reload portChanged sniChanged newOpts n w =
     (case reload_tls sniChanged newOpts w of
        (Err e, w1) \<Rightarrow> (Some e, n, w1)
      | (Panic, w1) \<Rightarrow> (Some TlsBuild, n, w1)
      | (Ok newTLS, w1) \<Rightarrow>
          (let (newListener, w2) = new_listener (io_ListenPort newOpts) w1;
               (served, w3) = (if portChanged then naive_serve (nv_network n) newListener w2
                               else (Ok (nv_httpServer n, nv_h3Server n), w1))
           in case served of
                Ok (httpServer, h3Server) \<Rightarrow>
                  (let n1 = (if portChanged
                             then n\<lparr>nv_httpServer := httpServer, nv_h3Server := h3Server, nv_listener := newListener\<rparr>
                             else n);
                       w4 = (if portChanged then lis_Close (nv_listener n) w3 else w3);
                       w5 = (if newTLS \<noteq> None then tls_Close (nv_tls n1) w4 else w4);
                       n2 = (if newTLS \<noteq> None then n1\<lparr>nv_tls := newTLS\<rparr> else n1)
                   in (None, n2\<lparr>nv_options := newOpts\<rparr>, w5))
              | _ \<Rightarrow> (Some (ListenFailed (io_ListenPort newOpts)), n,
                      tls_Close newTLS (lis_Close newListener w3))))"

definition naive_ConfigureFromPanelNode :: "node_info option \<Rightarrow> 'x naive_inbound \<Rightarrow> world \<Rightarrow>
    api_error option \<times> 'x naive_inbound \<times> world" where
  "naive_ConfigureFromPanelNode node n w =
     (case node of
        None \<Rightarrow> (None, n, w)
      | Some nodeInfo \<Rightarrow>
          (case check_node ''naive'' nodeInfo of
             Some e \<Rightarrow> (Some e, n, w)
           | None \<Rightarrow>
               if nv_closed n then (None, n, w)
               else
                 (let newOpts = panel_options nodeInfo (nv_options n);
                      portChanged = (io_ListenPort newOpts \<noteq> io_ListenPort (nv_options n));
                      sniChanged = (option_sni newOpts \<noteq> option_sni (nv_options n))
                  in if nv_started n \<and> \<not> portChanged \<and> \<not> sniChanged then (None, n, w)
                     else if \<not> nv_started n then naive_prestart newOpts n w
                     else naive_hot_reload portChanged sniChanged newOpts n w)))"

definition naive_Start :: "'x naive_inbound \<Rightarrow> world \<Rightarrow> api_error option \<times> 'x naive_inbound \<times> world" where
  "naive_Start n w =
     (case (if nv_tls n \<noteq> None then attempt w else (True, w)) of
        (False, w1) \<Rightarrow> (Some TlsStart, n, w1)
      | (True, w1) \<Rightarrow>
          (case naive_serve (nv_network n) (nv_listener n) w1 of
             (Ok (httpServer, h3Server), w2) \<Rightarrow>
               (None, n\<lparr>nv_httpServer := httpServer, nv_h3Server := h3Server, nv_started := True\<rparr>, w2)
           | (Err e, w2) \<Rightarrow> (Some e, n, w2)
           | (Panic, w2) \<Rightarrow> (Some ServiceFailed, n, w2)))"

definition naive_Close :: "'x naive_inbound \<Rightarrow> world \<Rightarrow> 'x naive_inbound \<times> world" where
  "naive_Close n w =
     (if nv_closed n then (n, w)
      else (n\<lparr>nv_closed := True\<rparr>, tls_Close (nv_tls n) (lis_Close (nv_listener n) w)))"


section \<open>Hysteria2\<close>

text \<open>Hysteria2 options carry the obfuscation type and password.\<close>

type_synonym 'x hysteria2_options = "((string \<times> string) option \<times> 'x) inbound_options"

record ('s, 'x) hysteria2_inbound =
  hi_options :: "'x hysteria2_options"
  hi_listener :: lis
  hi_tls :: "tls_conf option"
  hi_users :: "'s hy_users"
  hi_started :: bool

definition salamanderPassword :: "'x hysteria2_options \<Rightarrow> string" where
  "salamanderPassword opts =
     (case fst (io_rest opts) of
        Some (t, password) \<Rightarrow>
          if t = ''salamander'' then if password = [] then option_sni opts else password else []
      | None \<Rightarrow> [])"

text \<open>
  \<open>buildComponents\<close>. The first attempt after the TLS configuration stands for the masquerade
  handler and the realm options, the second one for \<open>hysteria2.NewService\<close>, which gets the
  obfuscation password.
\<close>

definition buildComponents :: "'x hysteria2_options \<Rightarrow> world \<Rightarrow> (api_error, tls_conf \<times> lis) res \<times> world" where
  "buildComponents opts w =
     (if \<not> tls_on opts then (Err TlsRequired, w)
      else case tls_NewServer (option_sni opts) w of
             (None, w1) \<Rightarrow> (Err TlsBuild, w1)
           | (Some t, w1) \<Rightarrow>
               if (case fst (io_rest opts) of None \<Rightarrow> False | Some (ty, _) \<Rightarrow> ty \<noteq> ''salamander'' \<and> ty \<noteq> ''gecko'')
               then (Err (UnknownObfs (fst (the (fst (io_rest opts))))), w1)
               else
                 (case attempt w1 of
                    (False, w2) \<Rightarrow> (Err ServiceFailed, w2)
                  | (True, w2) \<Rightarrow>
                      (let (l, w3) = new_listener (io_ListenPort opts) w2
                       in case attempt w3 of
                            (False, w4) \<Rightarrow> (Err ServiceFailed, tls_Close (Some t) w4)
                          | (True, w4) \<Rightarrow> (Ok (t, l), w4))))"

definition startComponents :: "tls_conf option \<Rightarrow> lis \<Rightarrow> world \<Rightarrow> api_error option \<times> world" where
  "startComponents t l w =
     (case (if t \<noteq> None then attempt w else (True, w)) of
        (False, w1) \<Rightarrow> (Some TlsStart, w1)
      | (True, w1) \<Rightarrow>
          (case listen_on UDP l w1 of
             (False, w2) \<Rightarrow> (Some (ListenFailed (lis_port l)), w2)
           | (True, w2) \<Rightarrow> (case attempt w2 of (b, w3) \<Rightarrow> (if b then None else Some ServiceFailed, w3))))"

definition closeComponents :: "tls_conf option \<Rightarrow> lis \<Rightarrow> world \<Rightarrow> world" where
  "closeComponents t l w = tls_Close t (lis_Close l w)"

text \<open>\<open>fresh\<close> is the service \<open>hysteria2.NewService\<close> returned.\<close>

definition hy_ConfigureFromPanelNode :: "'s user_service \<Rightarrow> 's \<Rightarrow> node_info option \<Rightarrow> ('s, 'x) hysteria2_inbound \<Rightarrow> world \<Rightarrow>
    api_error option \<times> ('s, 'x) hysteria2_inbound \<times> world" where
  "hy_ConfigureFromPanelNode sv fresh node h w =
     (case node of
        None \<Rightarrow> (None, h, w)
      | Some nodeInfo \<Rightarrow>
          (case check_node ''hysteria2'' nodeInfo of
             Some e \<Rightarrow> (Some e, h, w)
           | None \<Rightarrow>
               (let newOpts = panel_options nodeInfo (hi_options h);
                    portChanged = (io_ListenPort newOpts \<noteq> io_ListenPort (hi_options h));
                    sniChanged = (option_sni newOpts \<noteq> option_sni (hi_options h))
                in if hi_started h \<and> \<not> portChanged \<and> \<not> sniChanged then (None, h, w)
                   else
                     (case buildComponents newOpts w of
                        (Err e, w1) \<Rightarrow> (Some e, h, w1)
                      | (Panic, w1) \<Rightarrow> (Some ServiceFailed, h, w1)
                      | (Ok (newTLS, newListener), w1) \<Rightarrow>
                          (let h' = h\<lparr>hi_users := (hi_users h)\<lparr>hu_service :=
                                        applyUsersLocked sv (hu_currentUsers (hi_users h)) fresh\<rparr>,
                                      hi_tls := Some newTLS, hi_listener := newListener, hi_options := newOpts\<rparr>
                           in if \<not> hi_started h then
                                (None, h', tls_Close (hi_tls h) (lis_Close (hi_listener h) w1))
                              else
                                (let w2 = (if portChanged then w1 else closeComponents None (hi_listener h) w1)
                                 in case startComponents (Some newTLS) newListener w2 of
                                      (Some e, w3) \<Rightarrow>
                                        (Some (ListenFailed (io_ListenPort newOpts)), h,
                                         closeComponents (Some newTLS) newListener w3)
                                    | (None, w3) \<Rightarrow>
                                        (None, h',
                                         if portChanged then closeComponents (hi_tls h) (hi_listener h) w3
                                         else tls_Close (hi_tls h) w3)))))))"

definition hy_Start :: "('s, 'x) hysteria2_inbound \<Rightarrow> world \<Rightarrow> api_error option \<times> ('s, 'x) hysteria2_inbound \<times> world" where
  "hy_Start h w =
     (case startComponents (hi_tls h) (hi_listener h) w of
        (Some e, w1) \<Rightarrow> (Some e, h, w1)
      | (None, w1) \<Rightarrow> (None, h\<lparr>hi_started := True\<rparr>, w1))"

definition hy_Close :: "('s, 'x) hysteria2_inbound \<Rightarrow> world \<Rightarrow> world" where
  "hy_Close h w = closeComponents (hi_tls h) (hi_listener h) w"


section \<open>Resources\<close>

text \<open>Handles are numbered: everything the world knows has a smaller number than the next one.\<close>

definition world_wf :: "world \<Rightarrow> bool" where
  "world_wf w \<longleftrightarrow> (\<forall>i x. TlsConf i x \<in> set (w_tls w) \<longrightarrow> i < w_next w) \<and>
     (\<forall>n i p. (n, Lis i p) \<in> set (w_socks w) \<longrightarrow> i < w_next w)"

definition same_resources :: "world \<Rightarrow> world \<Rightarrow> bool" where
  "same_resources w w' \<longleftrightarrow> w_tls w' = w_tls w \<and> w_socks w' = w_socks w"

lemma attempt_sel: "attempt w = (b, w') \<Longrightarrow> w_tls w' = w_tls w \<and> w_socks w' = w_socks w \<and> w_next w' = w_next w"
  by (auto simp: attempt_def split: list.splits)

lemma world_wf_fresh:
  assumes "world_wf w"
  shows "TlsConf (w_next w) x \<notin> set (w_tls w)" "(n, Lis (w_next w) p) \<notin> set (w_socks w)"
    "w_next w \<le> i \<Longrightarrow> (n, Lis i p) \<notin> set (w_socks w)"
  using assms by (auto simp: world_wf_def) (meson leD less_irrefl)+

lemma tls_NewServer_cases:
  assumes "tls_NewServer name w = (r, w')"
  shows "r = None \<and> same_resources w w' \<and> w_next w' = w_next w \<or>
    r = Some (TlsConf (w_next w) name) \<and> w_tls w' = TlsConf (w_next w) name # w_tls w
      \<and> w_socks w' = w_socks w \<and> w_next w' = Suc (w_next w)"
  using assms attempt_sel [of w]
  by (auto simp: tls_NewServer_def same_resources_def Let_def split: prod.splits bool.splits)

lemma filter_fresh: "x \<notin> set xs \<Longrightarrow> filter (\<lambda>y. y \<noteq> x) xs = xs"
  by (auto simp: filter_id_conv)

lemma reload_tls_cases:
  assumes "world_wf w" and "reload_tls b opts w = (r, w')"
  shows "(\<exists>e. r = Err e \<and> same_resources w w') \<or>
    r = Ok None \<and> w' = w \<and> \<not> (b \<and> tls_on opts) \<or>
    r = Ok (Some (TlsConf (w_next w) (option_sni opts))) \<and> b \<and> tls_on opts
      \<and> w_tls w' = TlsConf (w_next w) (option_sni opts) # w_tls w
      \<and> w_socks w' = w_socks w \<and> w_next w' = Suc (w_next w)"
proof (cases "b \<and> tls_on opts")
  case True
  obtain t w1 where t: "tls_NewServer (option_sni opts) w = (t, w1)" by (metis surj_pair)
  obtain c w2 where c: "attempt w1 = (c, w2)" by (metis surj_pair)
  note new = tls_NewServer_cases [OF t] and at = attempt_sel [OF c]
  show ?thesis
    using assms(2) True new at world_wf_fresh(1) [OF assms(1)]
    by (cases t; cases c)
       (auto simp: reload_tls_def t c tls_Close_def same_resources_def filter_fresh)
next
  case False
  with assms(2) show ?thesis by (auto simp: reload_tls_def)
qed

lemma listen_on_cases:
  assumes "listen_on n l w = (b, w')"
  shows "w_tls w' = w_tls w \<and> w_next w' = w_next w \<and> w_socks w' = (if b then (n, l) # w_socks w else w_socks w)"
  using assms attempt_sel [of w] by (auto simp: listen_on_def split: if_splits prod.splits bool.splits)

lemma new_listener_eq: "new_listener p w = (Lis (w_next w) p, w\<lparr>w_next := Suc (w_next w)\<rparr>)"
  by (simp add: new_listener_def)

lemma panel_options_simps [simp]:
  "io_ListenPort (panel_options ni opts) = ucast (ni_Port ni)" "io_rest (panel_options ni opts) = io_rest opts"
  by (simp_all add: panel_options_def)

text \<open>TLS is only ever switched on together with a new server name.\<close>

lemma tls_on_panel_options:
  "tls_on (panel_options ni opts) \<Longrightarrow> option_sni (panel_options ni opts) = option_sni opts \<Longrightarrow> tls_on opts"
  by (auto simp: tls_on_def option_sni_def panel_options_def split: option.splits if_splits)


section \<open>Reloads of AnyTLS and naive never interrupt service\<close>

definition any_serving :: "('t, 'x) anytls_inbound \<Rightarrow> world \<Rightarrow> bool" where
  "any_serving h w \<longleftrightarrow> (TCP, at_listener h) \<in> set (w_socks w) \<and> lis_port (at_listener h) = io_ListenPort (at_options h)
     \<and> (\<forall>t. at_tls h = Some t \<longrightarrow> t \<in> set (w_tls w))
     \<and> (tls_on (at_options h) \<longrightarrow> (\<exists>t. at_tls h = Some t \<and> tls_name t = option_sni (at_options h)))"

text \<open>A node whose port and server name are the current ones changes no option.\<close>

lemma panel_options_same:
  assumes "io_ListenPort (panel_options ni opts) = io_ListenPort opts"
    and "option_sni (panel_options ni opts) = option_sni opts"
  shows "panel_options ni opts = opts"
  using assms by (cases opts) (auto simp: panel_options_def option_sni_def split: if_splits option.splits)

lemma any_hot_reload_cases:
  assumes wf: "world_wf w" and serving: "any_serving h w"
    and port: "portChanged \<longleftrightarrow> io_ListenPort newOpts \<noteq> io_ListenPort (at_options h)"
    and sni: "sniChanged \<longleftrightarrow> option_sni newOpts \<noteq> option_sni (at_options h)"
    and on: "tls_on newOpts \<Longrightarrow> option_sni newOpts = option_sni (at_options h) \<Longrightarrow> tls_on (at_options h)"
    and run: "any_hot_reload portChanged sniChanged newOpts h w = (r, h', w')"
  shows "r = None \<and> at_options h' = newOpts \<and> any_serving h' w' \<or> r \<noteq> None \<and> h' = h \<and> same_resources w w'"
proof -
  obtain t w1 where t: "reload_tls sniChanged newOpts w = (t, w1)" by (metis surj_pair)
  let ?l = "Lis (w_next w1) (io_ListenPort newOpts)" and ?w2 = "w1\<lparr>w_next := Suc (w_next w1)\<rparr>"
  obtain b w3 where b: "listen_on TCP ?l ?w2 = (b, w3)" by (metis surj_pair)
  note L = listen_on_cases [OF b]
  have old: "at_listener h \<noteq> ?l" if "w_next w \<le> w_next w1"
    using serving world_wf_fresh(3) [OF wf that] by (cases "at_listener h") (auto simp: any_serving_def)
  from reload_tls_cases [OF wf t] consider
      (fail) e where "t = Err e" "same_resources w w1"
    | (keep) "t = Ok None" "w1 = w" "\<not> (sniChanged \<and> tls_on newOpts)"
    | (fresh) "t = Ok (Some (TlsConf (w_next w) (option_sni newOpts)))" "sniChanged" "tls_on newOpts"
      "w_tls w1 = TlsConf (w_next w) (option_sni newOpts) # w_tls w" "w_socks w1 = w_socks w" "w_next w1 = Suc (w_next w)"
    by blast
  then show ?thesis
  proof cases
    case fail
    with run t show ?thesis by (auto simp: any_hot_reload_def)
  next
    case keep
    with run t b L old serving port sni on show ?thesis
      by (cases portChanged; cases b)
         (auto simp: any_hot_reload_def new_listener_eq any_serving_def same_resources_def tls_Close_def lis_Close_def)
  next
    case fresh
    have tn: "TlsConf (w_next w) (option_sni newOpts) \<notin> set (w_tls w)" by (rule world_wf_fresh(1) [OF wf])
    with serving have "at_tls h \<noteq> Some (TlsConf (w_next w) (option_sni newOpts))" by (auto simp: any_serving_def)
    with fresh run t b L old serving port sni on tn show ?thesis
      by (cases portChanged; cases b; cases "at_tls h")
         (auto simp: any_hot_reload_def new_listener_eq any_serving_def same_resources_def tls_Close_def lis_Close_def
           filter_fresh)
  qed
qed

definition naive_serving :: "'x naive_inbound \<Rightarrow> world \<Rightarrow> bool" where
  "naive_serving n w \<longleftrightarrow> (\<forall>m \<in> set (nv_network n). (m, nv_listener n) \<in> set (w_socks w))
     \<and> lis_port (nv_listener n) = io_ListenPort (nv_options n)
     \<and> (\<forall>t. nv_tls n = Some t \<longrightarrow> t \<in> set (w_tls w))
     \<and> (tls_on (nv_options n) \<longrightarrow> (\<exists>t. nv_tls n = Some t \<and> tls_name t = option_sni (nv_options n)))"

lemma naive_serve_cases:
  assumes "naive_serve network l w = (r, w')" and "l \<notin> snd ` set (w_socks w)"
  shows "w_tls w' = w_tls w"
    and "(\<exists>a b. r = Ok (a, b)) \<and> set (w_socks w') = set (w_socks w) \<union> (\<lambda>m. (m, l)) ` set network
     \<or> (\<exists>e. r = Err e) \<and> filter (\<lambda>s. snd s \<noteq> l) (w_socks w') = w_socks w"
proof -
  define tcp where "tcp = (if TCP \<in> set network then listen_on TCP l w else (True, w))"
  obtain b1 w1 where l1: "tcp = (b1, w1)" by (metis surj_pair)
  have c1: "w_tls w1 = w_tls w" "w_socks w1 = (if TCP \<in> set network \<and> b1 then (TCP, l) # w_socks w else w_socks w)"
    "TCP \<notin> set network \<Longrightarrow> b1"
    using l1 listen_on_cases [of TCP l w b1 w1] by (auto simp: tcp_def split: if_splits)
  obtain b2 w2 where l2: "listen_on UDP l w1 = (b2, w2)" by (metis surj_pair)
  obtain b3 w3 where l3: "attempt w2 = (b3, w3)" by (metis surj_pair)
  note c2 = listen_on_cases [OF l2] and c3 = attempt_sel [OF l3]
  have f: "filter (\<lambda>s. snd s \<noteq> l) (w_socks w) = w_socks w" "filter (\<lambda>s. s \<noteq> (TCP, l)) (w_socks w) = w_socks w"
    using assms(2) by (force simp: filter_id_conv)+
  have nets: "set network = (if TCP \<in> set network then {TCP} else {}) \<union> (if UDP \<in> set network then {UDP} else {})"
    by (rule set_eqI, case_tac x) auto
  have eq: "(r, w') = (if \<not> b1 then (Err (ListenFailed (lis_port l)), w1)
      else if UDP \<notin> set network then (Ok (TCP \<in> set network, False), w1)
      else if \<not> b2 then (Err ServiceFailed, w2\<lparr>w_socks := filter (\<lambda>s. s \<noteq> (TCP, l)) (w_socks w2)\<rparr>)
      else if \<not> b3 then (Err ServiceFailed, w3\<lparr>w_socks := filter (\<lambda>s. s \<noteq> (TCP, l)) (w_socks w3)\<rparr>)
      else (Ok (TCP \<in> set network, True), w3))"
    using assms(1) unfolding naive_serve_def tcp_def [symmetric] l1 prod.case l2 l3 by (cases b1; cases b2; cases b3) auto
  show "w_tls w' = w_tls w" using eq c1 c2 c3 by (auto split: if_splits)
  show "(\<exists>a b. r = Ok (a, b)) \<and> set (w_socks w') = set (w_socks w) \<union> (\<lambda>m. (m, l)) ` set network
     \<or> (\<exists>e. r = Err e) \<and> filter (\<lambda>s. snd s \<noteq> l) (w_socks w') = w_socks w"
    using eq c1 c2 c3 f by (subst nets) (auto split: if_splits)
qed

text \<open>The state and the world a successful hot reload leaves.\<close>

lemma naive_hot_reload_eqs:
  assumes "reload_tls sniChanged newOpts w = (Ok t, w1)"
    and "naive_serve (nv_network n) (Lis (w_next w1) (io_ListenPort newOpts)) (w1\<lparr>w_next := Suc (w_next w1)\<rparr>) = (b, w3)"
  shows "b = Ok (x, y) \<Longrightarrow> naive_hot_reload True sniChanged newOpts n w =
      (None, n\<lparr>nv_httpServer := x, nv_h3Server := y, nv_listener := Lis (w_next w1) (io_ListenPort newOpts),
               nv_tls := (if t \<noteq> None then t else nv_tls n), nv_options := newOpts\<rparr>,
       if t \<noteq> None then tls_Close (nv_tls n) (lis_Close (nv_listener n) w3) else lis_Close (nv_listener n) w3)"
    and "b = Err e \<Longrightarrow> naive_hot_reload True sniChanged newOpts n w =
      (Some (ListenFailed (io_ListenPort newOpts)), n,
       tls_Close t (lis_Close (Lis (w_next w1) (io_ListenPort newOpts)) w3))"
    and "naive_hot_reload False sniChanged newOpts n w =
      (None, n\<lparr>nv_tls := (if t \<noteq> None then t else nv_tls n), nv_options := newOpts\<rparr>,
       if t \<noteq> None then tls_Close (nv_tls n) w1 else w1)"
  using assms by (auto simp: naive_hot_reload_def new_listener_eq)

lemma naive_hot_reload_cases:
  assumes wf: "world_wf w" and serving: "naive_serving n w"
    and port: "portChanged \<longleftrightarrow> io_ListenPort newOpts \<noteq> io_ListenPort (nv_options n)"
    and sni: "sniChanged \<longleftrightarrow> option_sni newOpts \<noteq> option_sni (nv_options n)"
    and on: "tls_on newOpts \<Longrightarrow> option_sni newOpts = option_sni (nv_options n) \<Longrightarrow> tls_on (nv_options n)"
    and run: "naive_hot_reload portChanged sniChanged newOpts n w = (r, n', w')"
  shows "nv_users n' = nv_users n \<and>
    (r = None \<and> nv_options n' = newOpts \<and> naive_serving n' w' \<or> r \<noteq> None \<and> n' = n \<and> same_resources w w')"
proof -
  obtain t w1 where t: "reload_tls sniChanged newOpts w = (t, w1)" by (metis surj_pair)
  show ?thesis
  proof (cases "\<exists>e. t = Err e")
    case True
    with run t reload_tls_cases [OF wf t] show ?thesis by (auto simp: naive_hot_reload_def)
  next
    case False
    let ?l = "Lis (w_next w1) (io_ListenPort newOpts)" and ?w2 = "w1\<lparr>w_next := Suc (w_next w1)\<rparr>"
    have w1: "w_socks w1 = w_socks w" "w_next w \<le> w_next w1" using reload_tls_cases [OF wf t] False by auto
    obtain t' where t': "t = Ok t'" using reload_tls_cases [OF wf t] False by auto
    have tls: "t' = None \<and> w_tls w1 = w_tls w \<and> \<not> (sniChanged \<and> tls_on newOpts) \<or>
        (\<exists>c. t' = Some c \<and> c \<notin> set (w_tls w) \<and> w_tls w1 = c # w_tls w \<and> tls_name c = option_sni newOpts \<and> tls_on newOpts)"
      using reload_tls_cases [OF wf t] t' world_wf_fresh(1) [OF wf] by auto
    have fresh: "?l \<notin> snd ` set (w_socks ?w2)" using world_wf_fresh(3) [OF wf w1(2)] w1(1) by auto
    have old: "nv_listener n \<noteq> ?l" if "m \<in> set (nv_network n)" for m
    proof
      assume "nv_listener n = ?l"
      moreover have "(m, nv_listener n) \<in> set (w_socks w)" using serving that by (simp add: naive_serving_def)
      ultimately show False using world_wf_fresh(3) [OF wf w1(2)] by simp
    qed
    obtain b w3 where b: "naive_serve (nv_network n) ?l ?w2 = (b, w3)" by (metis surj_pair)
    note S = naive_serve_cases [OF b fresh] and E = naive_hot_reload_eqs [OF t [unfolded t'] b]
    show ?thesis
    proof (cases portChanged)
      case False
      with run E(3) serving tls port sni on w1(1) show ?thesis
        by (auto simp: naive_serving_def tls_Close_def split: option.splits)
    next
      case True
      from S(2) consider x y where "b = Ok (x, y)" "set (w_socks w3) = set (w_socks w) \<union> (\<lambda>m. (m, ?l)) ` set (nv_network n)"
        | e where "b = Err e" "filter (\<lambda>s. snd s \<noteq> ?l) (w_socks w3) = w_socks w" using w1(1) by auto
      then show ?thesis
      proof cases
        case 1
        with run True E(1) have "r = None" and
          n': "n' = n\<lparr>nv_httpServer := x, nv_h3Server := y, nv_listener := ?l,
               nv_tls := (if t' \<noteq> None then t' else nv_tls n), nv_options := newOpts\<rparr>" and
          w': "w' = (if t' \<noteq> None then tls_Close (nv_tls n) (lis_Close (nv_listener n) w3) else lis_Close (nv_listener n) w3)"
          by simp_all
        have "(m, ?l) \<in> set (w_socks w')" if "m \<in> set (nv_network n)" for m
          using 1(2) that old [OF that] by (auto simp: w' tls_Close_def lis_Close_def split: option.splits)
        moreover have "w_tls w3 = w_tls w1" using S(1) by simp
        ultimately have "naive_serving n' w'"
          using serving tls sni on by (auto simp: n' w' naive_serving_def tls_Close_def lis_Close_def split: option.splits)
        with n' \<open>r = None\<close> show ?thesis by simp
      next
        case 2
        with run True E(2) have "r \<noteq> None" "n' = n" and w': "w' = tls_Close t' (lis_Close ?l w3)" by auto
        moreover have "same_resources w w'"
          using 2 S(1) tls by (auto simp: same_resources_def w' tls_Close_def lis_Close_def filter_fresh)
        ultimately show ?thesis by simp
      qed
    qed
  qed
qed

lemma same_resources_refl [simp]: "same_resources w w"
  by (simp add: same_resources_def)

lemma any_configure_cases:
  assumes "world_wf w" and "any_serving h w" and "at_started h" and "any_ConfigureFromPanelNode (Some ni) h w = (r, h', w')"
  shows "r = None \<and> at_options h' = panel_options ni (at_options h) \<and> any_serving h' w'
      \<or> r \<noteq> None \<and> h' = h \<and> same_resources w w'"
proof (cases "check_node ''anytls'' ni")
  case (Some e)
  with assms(4) show ?thesis by (auto simp: any_ConfigureFromPanelNode_def)
next
  case None
  let ?o = "panel_options ni (at_options h)"
  show ?thesis
  proof (cases "io_ListenPort ?o = io_ListenPort (at_options h) \<and> option_sni ?o = option_sni (at_options h)")
    case True
    with None assms panel_options_same [of ni "at_options h"] show ?thesis
      by (simp add: any_ConfigureFromPanelNode_def Let_def)
  next
    case False
    with None assms(3,4) have "any_hot_reload (io_ListenPort ?o \<noteq> io_ListenPort (at_options h))
        (option_sni ?o \<noteq> option_sni (at_options h)) ?o h w = (r, h', w')"
      by (auto simp: any_ConfigureFromPanelNode_def Let_def)
    from any_hot_reload_cases [OF assms(1,2) refl refl _ this] tls_on_panel_options show ?thesis by blast
  qed
qed

lemma naive_configure_cases:
  assumes "world_wf w" and "naive_serving n w" and "nv_started n" and "\<not> nv_closed n"
    and "naive_ConfigureFromPanelNode (Some ni) n w = (r, n', w')"
  shows "nv_users n' = nv_users n \<and> (r = None \<and> nv_options n' = panel_options ni (nv_options n) \<and> naive_serving n' w'
      \<or> r \<noteq> None \<and> n' = n \<and> same_resources w w')"
proof (cases "check_node ''naive'' ni")
  case (Some e)
  with assms(5) show ?thesis by (auto simp: naive_ConfigureFromPanelNode_def)
next
  case None
  let ?o = "panel_options ni (nv_options n)"
  show ?thesis
  proof (cases "io_ListenPort ?o = io_ListenPort (nv_options n) \<and> option_sni ?o = option_sni (nv_options n)")
    case True
    with None assms panel_options_same [of ni "nv_options n"] show ?thesis
      by (simp add: naive_ConfigureFromPanelNode_def Let_def)
  next
    case False
    with None assms(3-5) have "naive_hot_reload (io_ListenPort ?o \<noteq> io_ListenPort (nv_options n))
        (option_sni ?o \<noteq> option_sni (nv_options n)) ?o n w = (r, n', w')"
      by (auto simp: naive_ConfigureFromPanelNode_def Let_def)
    from naive_hot_reload_cases [OF assms(1,2) refl refl _ this] tls_on_panel_options show ?thesis by blast
  qed
qed

text \<open>C4. A panel reload never interrupts a running AnyTLS or naive inbound: whatever fails on the way
  (building or starting TLS, binding the new port, HTTP/3), the call either returns an error with the
  inbound, its sockets and its TLS configuration as they were, or succeeds with the panel's port and
  server name committed and served; the naive user table is never touched.\<close>

theorem reload_keeps_serving:
  assumes "world_wf w"
  shows "(at_started h \<and> any_serving h w \<and> any_ConfigureFromPanelNode (Some ni) h w = (r, h', w') \<longrightarrow>
      any_serving h' w' \<and>
      (r = None \<and> at_options h' = panel_options ni (at_options h) \<or> r \<noteq> None \<and> h' = h \<and> same_resources w w')) \<and>
    (nv_started n \<and> \<not> nv_closed n \<and> naive_serving n w \<and> naive_ConfigureFromPanelNode (Some ni) n w = (q, n', v') \<longrightarrow>
      naive_serving n' v' \<and> nv_users n' = nv_users n \<and>
      (q = None \<and> nv_options n' = panel_options ni (nv_options n) \<or> q \<noteq> None \<and> n' = n \<and> same_resources w v'))"
proof (intro conjI impI; elim conjE)
  assume a: "at_started h" "any_serving h w" "any_ConfigureFromPanelNode (Some ni) h w = (r, h', w')"
  have "r = None \<and> at_options h' = panel_options ni (at_options h) \<and> any_serving h' w'
      \<or> r \<noteq> None \<and> h' = h \<and> same_resources w w'" by (rule any_configure_cases [OF assms a(2,1,3)])
  then show "any_serving h' w'"
    and "r = None \<and> at_options h' = panel_options ni (at_options h) \<or> r \<noteq> None \<and> h' = h \<and> same_resources w w'"
    using a(2) by (auto simp: any_serving_def same_resources_def)
next
  assume a: "nv_started n" "\<not> nv_closed n" "naive_serving n w" "naive_ConfigureFromPanelNode (Some ni) n w = (q, n', v')"
  have "nv_users n' = nv_users n \<and> (q = None \<and> nv_options n' = panel_options ni (nv_options n) \<and> naive_serving n' v'
      \<or> q \<noteq> None \<and> n' = n \<and> same_resources w v')" by (rule naive_configure_cases [OF assms a(3,1,2,4)])
  then show "naive_serving n' v'" and "nv_users n' = nv_users n"
    and "q = None \<and> nv_options n' = panel_options ni (nv_options n) \<or> q \<noteq> None \<and> n' = n \<and> same_resources w v'"
    using a(3) by (auto simp: naive_serving_def same_resources_def)
qed

text \<open>Fixtures: an AnyTLS and a naive inbound that serve port 443 for \<open>a.example\<close>, and a world in
  which the given attempts succeed or fail.\<close>

definition example_options :: "unit inbound_options" where
  "example_options = \<lparr>io_ListenPort = 443, io_TLS = Some \<lparr>to_Enabled = True, to_ServerName = ''a.example''\<rparr>, io_rest = ()\<rparr>"

definition example_world :: "bool list \<Rightarrow> world" where
  "example_world fate = \<lparr>w_next = 4, w_fate = fate, w_tls = [TlsConf 0 ''a.example'', TlsConf 1 ''a.example''],
     w_socks = [(TCP, Lis 2 443), (UDP, Lis 3 443)]\<rparr>"

definition example_anytls :: "(unit, unit) anytls_inbound" where
  "example_anytls = \<lparr>at_tls = Some (TlsConf 0 ''a.example''), at_listener = Lis 2 443, at_service = (),
     at_options = example_options, at_started = True\<rparr>"

definition example_naive :: "unit naive_inbound" where
  "example_naive = \<lparr>nv_options = example_options, nv_listener = Lis 3 443, nv_network = [UDP],
     nv_users = \<lparr>tb_byPassword = [], tb_byName = []\<rparr>, nv_tls = Some (TlsConf 1 ''a.example''), nv_httpServer = False,
     nv_h3Server = True, nv_started = True, nv_closed = False\<rparr>"

definition example_node_of :: "string \<Rightarrow> uint32 \<Rightarrow> string \<Rightarrow> node_info" where
  "example_node_of typ port host = zero_node_info\<lparr>ni_NodeType := typ, ni_Port := port, ni_Host := host\<rparr>"

lemma example_world_wf: "world_wf (example_world fate)"
  by (auto simp: world_wf_def example_world_def)

lemma example_serving: "any_serving example_anytls (example_world fate)" "naive_serving example_naive (example_world fate)"
  by (simp_all add: any_serving_def naive_serving_def example_anytls_def example_naive_def example_world_def
      example_options_def option_sni_def)

text \<open>Witness of C4: the AnyTLS port moves although the new port cannot be bound, and naive gets a new
  server name.\<close>

theorem reload_keeps_serving_witness:
  "let fate = [False]; (r, h', w') = any_ConfigureFromPanelNode (Some (example_node_of ''anytls'' 8443 [])) example_anytls (example_world fate)
   in r = Some (ListenFailed 8443) \<and> any_serving h' w'"
proof -
  let ?w = "example_world [False]"
  obtain r h' w' where run: "any_ConfigureFromPanelNode (Some (example_node_of ''anytls'' 8443 [])) example_anytls ?w = (r, h', w')"
    by (metis prod_cases3)
  have "at_started example_anytls" by (simp add: example_anytls_def)
  with reload_keeps_serving [OF example_world_wf, of example_anytls "[False]" "example_node_of ''anytls'' 8443 []" r h' w'
      example_naive] run example_serving
  have "any_serving h' w'" by blast
  moreover have "fst (any_ConfigureFromPanelNode (Some (example_node_of ''anytls'' 8443 [])) example_anytls ?w) = Some (ListenFailed 8443)"
    by code_simp
  ultimately show ?thesis by (simp add: run)
qed

text \<open>A node of another type, or with a port outside 1 to 65535, changes nothing: every inbound
  answers with the error and keeps its configuration, its sockets and its TLS configuration.\<close>

theorem bad_node_rejected:
  assumes "ni_NodeType ni \<notin> {''anytls'', ''naive'', ''hysteria2''} \<or> ni_Port ni = 0 \<or> 65535 < ni_Port ni"
  shows "(\<exists>e. any_ConfigureFromPanelNode (Some ni) h w = (Some e, h, w)) \<and>
    (\<exists>e. naive_ConfigureFromPanelNode (Some ni) n w = (Some e, n, w)) \<and>
    (\<exists>e. hy_ConfigureFromPanelNode sv fresh (Some ni) k w = (Some e, k, w))"
proof -
  have ex: "\<exists>e. check_node t ni = Some e" if t: "t \<in> {''anytls'', ''naive'', ''hysteria2''}" for t
  proof (cases "check_node t ni")
    case None
    then have "ni_NodeType ni = t \<and> \<not> (ni_Port ni = 0 \<or> 65535 < ni_Port ni)"
      by (simp add: check_node_def split: if_splits)
    with assms t have False by simp
    then show ?thesis ..
  qed simp
  obtain e1 where "check_node ''anytls'' ni = Some e1" using ex [of "''anytls''"] by auto
  moreover obtain e2 where "check_node ''naive'' ni = Some e2" using ex [of "''naive''"] by auto
  moreover obtain e3 where "check_node ''hysteria2'' ni = Some e3" using ex [of "''hysteria2''"] by auto
  ultimately show ?thesis
    by (simp add: any_ConfigureFromPanelNode_def naive_ConfigureFromPanelNode_def hy_ConfigureFromPanelNode_def)
qed

text \<open>An instance: a node with port 0.\<close>

theorem bad_node_rejected_witness:
  "\<exists>e. any_ConfigureFromPanelNode (Some (example_node_of ''anytls'' 0 [])) example_anytls (example_world []) =
     (Some e, example_anytls, example_world [])"
proof -
  have "ni_Port (example_node_of ''anytls'' 0 []) = 0" by (simp add: example_node_of_def)
  from bad_node_rejected [OF disjI2 [OF disjI1 [OF this]], of example_anytls "example_world []"] show ?thesis by (rule conjunct1)
qed


section \<open>Hysteria2 reloads\<close>

definition hy_serving :: "('s, 'x) hysteria2_inbound \<Rightarrow> world \<Rightarrow> bool" where
  "hy_serving h w \<longleftrightarrow> (UDP, hi_listener h) \<in> set (w_socks w)"

lemma buildComponents_cases:
  assumes "world_wf w" and "buildComponents opts w = (r, w')"
  shows "w_socks w' = w_socks w \<and>
    ((\<exists>i. r = Ok (TlsConf (w_next w) (option_sni opts), Lis i (io_ListenPort opts)) \<and> w_next w \<le> i \<and>
        w_tls w' = TlsConf (w_next w) (option_sni opts) # w_tls w) \<or> (\<exists>e. r = Err e))"
proof -
  obtain t w1 where t: "tls_NewServer (option_sni opts) w = (t, w1)" by (metis surj_pair)
  obtain b2 w2 where a2: "attempt w1 = (b2, w2)" by (metis surj_pair)
  obtain b4 w4 where a4: "attempt (w2\<lparr>w_next := Suc (w_next w2)\<rparr>) = (b4, w4)" by (metis surj_pair)
  note c = tls_NewServer_cases [OF t] attempt_sel [OF a2] attempt_sel [OF a4]
  show ?thesis
  proof (cases t)
    case None
    with assms(2) c show ?thesis by (auto simp: buildComponents_def t same_resources_def split: if_splits)
  next
    case (Some tc)
    define bad where "bad = (case fst (io_rest opts) of None \<Rightarrow> False | Some (ty, _) \<Rightarrow> ty \<noteq> ''salamander'' \<and> ty \<noteq> ''gecko'')"
    have "(r, w') = (if \<not> tls_on opts then (Err TlsRequired, w)
        else if bad then (Err (UnknownObfs (fst (the (fst (io_rest opts))))), w1)
        else if \<not> b2 then (Err ServiceFailed, w2)
        else if \<not> b4 then (Err ServiceFailed, tls_Close (Some tc) w4)
        else (Ok (tc, Lis (w_next w2) (io_ListenPort opts)), w4))"
      using assms(2) unfolding buildComponents_def t Some prod.case option.case bad_def [symmetric] a2 new_listener_eq
        Let_def a4 by (cases b2; cases b4) auto
    with c Some show ?thesis by (auto simp: tls_Close_def split: if_splits)
  qed
qed

lemma startComponents_cases:
  assumes "startComponents (Some t) l w = (r, w')"
  shows "w_tls w' = w_tls w \<and> filter (\<lambda>s. snd s \<noteq> l) (w_socks w') = filter (\<lambda>s. snd s \<noteq> l) (w_socks w)
    \<and> (r = None \<longrightarrow> (UDP, l) \<in> set (w_socks w'))"
proof -
  obtain b1 w1 where a1: "attempt w = (b1, w1)" by (metis surj_pair)
  obtain b2 w2 where a2: "listen_on UDP l w1 = (b2, w2)" by (metis surj_pair)
  obtain b3 w3 where a3: "attempt w2 = (b3, w3)" by (metis surj_pair)
  have "(r, w') = (if \<not> b1 then (Some TlsStart, w1) else if \<not> b2 then (Some (ListenFailed (lis_port l)), w2)
      else (if b3 then None else Some ServiceFailed, w3))"
    using assms by (cases b1; cases b2; cases b3) (auto simp: startComponents_def a1 a2 a3)
  with attempt_sel [OF a1] listen_on_cases [OF a2] attempt_sel [OF a3] show ?thesis by (auto split: if_splits)
qed

text \<open>The live rebuild of a started inbound, by cases.\<close>

lemma hy_rebuild_cases:
  assumes wf: "world_wf w" and serving: "hy_serving h w" and started: "hi_started h"
    and check: "check_node ''hysteria2'' ni = None"
    and run: "hy_ConfigureFromPanelNode sv fresh (Some ni) h w = (r, h', w')"
  defines "opts \<equiv> panel_options ni (hi_options h)"
  shows "r = None \<and> hy_serving h' w' \<and> hi_options h' = opts
         \<and> hu_currentUsers (hi_users h') = hu_currentUsers (hi_users h)
    \<or> r \<noteq> None \<and> h' = h \<and> w_socks w' = w_socks w
    \<or> r \<noteq> None \<and> h' = h \<and> io_ListenPort opts = io_ListenPort (hi_options h) \<and>
        option_sni opts \<noteq> option_sni (hi_options h) \<and> w_socks w' = filter (\<lambda>s. snd s \<noteq> hi_listener h) (w_socks w)"
proof (cases "io_ListenPort opts = io_ListenPort (hi_options h) \<and> option_sni opts = option_sni (hi_options h)")
  case True
  then have "opts = hi_options h" using panel_options_same by (metis opts_def)
  with True run check started serving show ?thesis by (auto simp: hy_ConfigureFromPanelNode_def Let_def opts_def)
next
  case changed: False
  obtain b w1 where b: "buildComponents opts w = (b, w1)" by (metis surj_pair)
  note B = buildComponents_cases [OF wf b]
  show ?thesis
  proof (cases "\<exists>e. b = Err e")
    case True
    with run check changed B show ?thesis
      by (auto simp: hy_ConfigureFromPanelNode_def Let_def opts_def [symmetric] b)
  next
    case False
    then obtain i where i: "b = Ok (TlsConf (w_next w) (option_sni opts), Lis i (io_ListenPort opts))" "w_next w \<le> i"
      and w1: "w_socks w1 = w_socks w" using B by auto
    let ?t = "TlsConf (w_next w) (option_sni opts)" and ?l = "Lis i (io_ListenPort opts)"
    define port where "port = (io_ListenPort opts \<noteq> io_ListenPort (hi_options h))"
    define w2 where "w2 = (if port then w1 else closeComponents None (hi_listener h) w1)"
    obtain e w3 where st: "startComponents (Some ?t) ?l w2 = (e, w3)" by (metis surj_pair)
    note S = startComponents_cases [OF st]
    have l: "(n, ?l) \<notin> set (w_socks w)" for n by (rule world_wf_fresh(3) [OF wf i(2)])
    have ne: "hi_listener h \<noteq> ?l" using serving l [of UDP] by (auto simp: hy_serving_def)
    define h1 where "h1 = h\<lparr>hi_users := (hi_users h)\<lparr>hu_service := applyUsersLocked sv (hu_currentUsers (hi_users h)) fresh\<rparr>,
        hi_tls := Some ?t, hi_listener := ?l, hi_options := opts\<rparr>"
    have eq: "(r, h', w') = (case e of
        Some _ \<Rightarrow> (Some (ListenFailed (io_ListenPort opts)), h, closeComponents (Some ?t) ?l w3)
      | None \<Rightarrow> (None, h1, if port then closeComponents (hi_tls h) (hi_listener h) w3 else tls_Close (hi_tls h) w3))"
      using run check changed started
      by (auto simp: hy_ConfigureFromPanelNode_def Let_def opts_def [symmetric] b i port_def [symmetric] w2_def [symmetric]
          st h1_def [symmetric] split: option.splits)
    have w2: "w_socks w2 = (if port then w_socks w else filter (\<lambda>s. snd s \<noteq> hi_listener h) (w_socks w))"
      by (simp add: w2_def closeComponents_def tls_Close_def lis_Close_def w1)
    have nol: "filter (\<lambda>s. snd s \<noteq> ?l) (w_socks w2) = w_socks w2"
      using l by (auto simp: filter_id_conv w2 split: if_splits)
    show ?thesis
    proof (cases e)
      case None
      with eq S ne show ?thesis
        by (auto simp: h1_def hy_serving_def closeComponents_def tls_Close_def lis_Close_def split: option.splits if_splits)
    next
      case (Some x)
      with eq have "r \<noteq> None" "h' = h" and "w' = closeComponents (Some ?t) ?l w3" by auto
      moreover from this have "w_socks w' = w_socks w2"
        using S nol by (simp add: closeComponents_def tls_Close_def lis_Close_def)
      ultimately show ?thesis using changed by (auto simp: w2 port_def split: if_splits)
    qed
  qed
qed

text \<open>A failed hysteria2 reload commits nothing, so the same node is applied again on the next
  tick, and its users stay in the mirror; a port change that fails leaves every socket as it was,
  while a server name change that fails after the old service was closed leaves the inbound without
  its socket. A reload that succeeds serves the new options.\<close>

theorem hysteria2_reload:
  assumes "world_wf w" and "hy_serving h w" and "hi_started h"
    and "hy_ConfigureFromPanelNode sv fresh (Some ni) h w = (r, h', w')"
  shows "hu_currentUsers (hi_users h') = hu_currentUsers (hi_users h) \<and>
    (r = None \<longrightarrow> hy_serving h' w' \<and> hi_options h' = panel_options ni (hi_options h)) \<and>
    (r \<noteq> None \<longrightarrow> h' = h \<and>
       (w_socks w' = w_socks w \<or>
        ucast (ni_Port ni) = io_ListenPort (hi_options h) \<and> \<not> hy_serving h w'))"
proof (cases "check_node ''hysteria2'' ni")
  case None
  from hy_rebuild_cases [OF assms(1-3) None assms(4)] show ?thesis
    by (auto simp: hy_serving_def)
next
  case (Some e)
  with assms(4) show ?thesis by (auto simp: hy_ConfigureFromPanelNode_def)
qed

definition example_hysteria2 :: "((string, string) gomap, unit) hysteria2_inbound" where
  "example_hysteria2 = \<lparr>hi_options = \<lparr>io_ListenPort = 443, io_TLS = Some \<lparr>to_Enabled = True, to_ServerName = ''a.example''\<rparr>,
       io_rest = (Some (''salamander'', []), ())\<rparr>,
     hi_listener = Lis 3 443, hi_tls = Some (TlsConf 1 ''a.example''),
     hi_users = \<lparr>hu_currentUsers = [(''u1'', ''A'')], hu_service = [(''u1'', ''A'')]\<rparr>, hi_started = True\<rparr>"

text \<open>An instance: the server name changes and the new service does not start.\<close>

theorem hysteria2_reload_witness:
  "let (r, h', w') = hy_ConfigureFromPanelNode example_service [] (Some (example_node_of ''hysteria2'' 443 ''b.example''))
        example_hysteria2 (example_world [True, True, True, True, True, False])
   in r = Some (ListenFailed 443) \<and> h' = example_hysteria2 \<and> w_socks w' = [(TCP, Lis 2 443)]"
proof -
  let ?w = "example_world [True, True, True, True, True, False]" and ?ni = "example_node_of ''hysteria2'' 443 ''b.example''"
  obtain r h' w' where run: "hy_ConfigureFromPanelNode example_service [] (Some ?ni) example_hysteria2 ?w = (r, h', w')"
    by (metis prod_cases3)
  have s: "hy_serving example_hysteria2 ?w" "hi_started example_hysteria2"
    by (simp_all add: hy_serving_def example_hysteria2_def example_world_def)
  have "fst (hy_ConfigureFromPanelNode example_service [] (Some ?ni) example_hysteria2 ?w) = Some (ListenFailed 443)"
    "w_socks (snd (snd (hy_ConfigureFromPanelNode example_service [] (Some ?ni) example_hysteria2 ?w))) = [(TCP, Lis 2 443)]"
    by code_simp+
  with hysteria2_reload [OF example_world_wf s run] show ?thesis by (simp add: run)
qed

text \<open>A hysteria2 inbound that went down in a failed server name change stays down when the panel
  takes the change back: the node now matches the committed options, so
  \<open>ConfigureFromPanelNode\<close> returns success without doing anything and the controller stops
  retrying, although no socket is open.\<close>

theorem hysteria2_down_after_revert:
  assumes "world_wf w" and "hi_started h"
    and "hy_ConfigureFromPanelNode sv fresh (Some ni) h w = (Some e, h', w')" and "\<not> hy_serving h w'"
    and "hy_serving h w"
    and "check_node ''hysteria2'' ni0 = None"
    and "panel_options ni0 (hi_options h) = hi_options h"
  shows "hy_ConfigureFromPanelNode sv fresh' (Some ni0) h' w' = (None, h', w') \<and> \<not> hy_serving h' w'"
proof -
  have "h' = h" using hy_rebuild_cases [OF assms(1,5,2) _ assms(3)] assms(3)
    by (cases "check_node ''hysteria2'' ni") (auto simp: hy_ConfigureFromPanelNode_def)
  with assms show ?thesis by (simp add: hy_ConfigureFromPanelNode_def Let_def)
qed

text \<open>An instance: the panel moves to \<open>b.example\<close>, the restart fails, and the panel moves back.\<close>

theorem hysteria2_down_after_revert_witness:
  "let (r, h', w') = hy_ConfigureFromPanelNode example_service [] (Some (example_node_of ''hysteria2'' 443 ''b.example''))
        example_hysteria2 (example_world [True, True, True, True, True, False])
   in hy_ConfigureFromPanelNode example_service [] (Some (example_node_of ''hysteria2'' 443 ''a.example'')) h' w' = (None, h', w')
      \<and> \<not> hy_serving h' w'"
proof -
  let ?w = "example_world [True, True, True, True, True, False]" and ?ni = "example_node_of ''hysteria2'' 443 ''b.example''"
  obtain r h' w' where run: "hy_ConfigureFromPanelNode example_service [] (Some ?ni) example_hysteria2 ?w = (r, h', w')"
    by (metis prod_cases3)
  have s: "hy_serving example_hysteria2 ?w" "hi_started example_hysteria2"
    by (simp_all add: hy_serving_def example_hysteria2_def example_world_def)
  have "fst (hy_ConfigureFromPanelNode example_service [] (Some ?ni) example_hysteria2 ?w) = Some (ListenFailed 443)"
    and socks: "w_socks (snd (snd (hy_ConfigureFromPanelNode example_service [] (Some ?ni) example_hysteria2 ?w))) = [(TCP, Lis 2 443)]"
    by code_simp+
  then have r: "r = Some (ListenFailed 443)" and w': "w_socks w' = [(TCP, Lis 2 443)]" by (simp_all add: run)
  have c: "check_node ''hysteria2'' (example_node_of ''hysteria2'' 443 ''a.example'') = None" by code_simp
  have "panel_options (example_node_of ''hysteria2'' 443 ''a.example'') (hi_options example_hysteria2) = hi_options example_hysteria2"
    by code_simp
  moreover have "\<not> hy_serving example_hysteria2 w'" by (simp add: hy_serving_def w')
  ultimately show ?thesis
    using hysteria2_down_after_revert [OF example_world_wf s(2) run [unfolded r] _ s(1) c] by (simp add: run r)
qed


section \<open>Reloads of a closed inbound\<close>

text \<open>After \<open>Close\<close> a late panel tick cannot bring a naive inbound back, but it can bring an AnyTLS
  inbound back: AnyTLS keeps no closed flag, so a reload with a new port that is free binds and serves
  it although the inbound was closed.\<close>

theorem reload_after_close:
  assumes "at_started h" and "any_serving h w" and "world_wf w" and "w_fate w = []"
    and "check_node ''anytls'' ni = None" and "ucast (ni_Port ni) \<noteq> io_ListenPort (at_options h)" and "ni_Host ni = []"
    and "\<forall>(m, k) \<in> set (w_socks w). lis_port k \<noteq> ucast (ni_Port ni)"
  shows "(case naive_Close n v of (n', v') \<Rightarrow> \<forall>nj. snd (naive_ConfigureFromPanelNode (Some nj) n' v') = (n', v')) \<and>
    (case any_ConfigureFromPanelNode (Some ni) h (any_Close h w) of
       (r, h', w') \<Rightarrow> r = None \<and> (TCP, at_listener h') \<in> set (w_socks w') \<and> lis_port (at_listener h') = ucast (ni_Port ni))"
proof
  have "nv_closed (fst (naive_Close n v))" by (simp add: naive_Close_def)
  then show "case naive_Close n v of (n', v') \<Rightarrow> \<forall>nj. snd (naive_ConfigureFromPanelNode (Some nj) n' v') = (n', v')"
    by (auto simp: naive_ConfigureFromPanelNode_def split: prod.splits option.splits)
  define v where "v = any_Close h w"
  have v: "w_fate v = []" "w_next v = w_next w" "set (w_socks v) \<subseteq> set (w_socks w)" "(n, at_listener h) \<notin> set (w_socks v)" for n
    using assms(4) by (auto simp: v_def any_Close_def tls_Close_def lis_Close_def split: option.splits)
  have opts: "panel_options ni (at_options h) = (at_options h)\<lparr>io_ListenPort := ucast (ni_Port ni)\<rparr>"
    using assms(7) by (simp add: panel_options_def)
  have sni: "option_sni (panel_options ni (at_options h)) = option_sni (at_options h)"
    unfolding opts by (simp add: option_sni_def)
  have free: "\<not> (\<exists>(m, k) \<in> set (w_socks v). m = TCP \<and> lis_port k = ucast (ni_Port ni))"
    using assms(8) v(3) by auto
  let ?l = "Lis (w_next v) (ucast (ni_Port ni) :: 16 word)"
  show "case any_ConfigureFromPanelNode (Some ni) h (any_Close h w) of
       (r, h', w') \<Rightarrow> r = None \<and> (TCP, at_listener h') \<in> set (w_socks w') \<and> lis_port (at_listener h') = ucast (ni_Port ni)"
  proof -
    have ne: "?l \<noteq> at_listener h"
      using assms(2) world_wf_fresh(2) [OF assms(3), of TCP] unfolding any_serving_def v(2) by metis
    have listen: "listen_on TCP ?l (v\<lparr>w_next := Suc (w_next v)\<rparr>) =
        (True, v\<lparr>w_next := Suc (w_next v), w_socks := (TCP, ?l) # w_socks v\<rparr>)"
      using free v(1) by (auto simp: listen_on_def attempt_def)
    have "any_ConfigureFromPanelNode (Some ni) h v =
        (None, h\<lparr>at_listener := ?l, at_options := panel_options ni (at_options h)\<rparr>,
         lis_Close (at_listener h) (v\<lparr>w_next := Suc (w_next v), w_socks := (TCP, ?l) # w_socks v\<rparr>))"
      using assms(1,5,6) listen
      by (simp add: any_ConfigureFromPanelNode_def Let_def sni any_hot_reload_def reload_tls_def new_listener_eq)
    with ne show ?thesis unfolding v_def [symmetric] by (simp add: lis_Close_def)
  qed
qed

text \<open>An instance: the port moves to 8443 after the AnyTLS inbound of the example was closed.\<close>

theorem reload_after_close_witness:
  "case any_ConfigureFromPanelNode (Some (example_node_of ''anytls'' 8443 [])) example_anytls
      (any_Close example_anytls (example_world [])) of
     (r, h', w') \<Rightarrow> r = None \<and> (TCP, at_listener h') \<in> set (w_socks w')"
proof -
  have s: "at_started example_anytls" by (simp add: example_anytls_def)
  have f: "w_fate (example_world []) = []" by (simp add: example_world_def)
  have c: "check_node ''anytls'' (example_node_of ''anytls'' 8443 []) = None" by code_simp
  have p: "ucast (ni_Port (example_node_of ''anytls'' 8443 [])) \<noteq> io_ListenPort (at_options example_anytls)" by code_simp
  have h: "ni_Host (example_node_of ''anytls'' 8443 []) = []" by (simp add: example_node_of_def)
  have q: "\<forall>(m, k) \<in> set (w_socks (example_world [])). lis_port k \<noteq> ucast (ni_Port (example_node_of ''anytls'' 8443 []))"
    by code_simp
  from reload_after_close [OF s example_serving(1) example_world_wf f c p h q, of example_naive "example_world []"]
  show ?thesis by (auto split: prod.splits)
qed


section \<open>ALPN\<close>

text \<open>Every naive TLS configuration negotiates what the inbound serves: \<open>h2\<close> when TCP is served
  and \<open>h3\<close> when QUIC is, every protocol the operator configured is kept in its order, and applying the
  rule again changes nothing, so a reloaded configuration offers the same list.\<close>

theorem naive_alpn:
  "(TCP \<in> set network \<longrightarrow> ''h2'' \<in> set (naive_protos network ps)) \<and>
   (UDP \<in> set network \<longrightarrow> ''h3'' \<in> set (naive_protos network ps)) \<and>
   (\<exists>as bs. naive_protos network ps = as @ ps @ bs) \<and>
   naive_protos network (naive_protos network ps) = naive_protos network ps"
proof (intro conjI impI)
  show "\<exists>as bs. naive_protos network ps = as @ ps @ bs"
  proof -
    define p1 where "p1 = (if TCP \<in> set network then
        if ps = [] then [''h2'', ''http/1.1''] else if ''h2'' \<notin> set ps then ''h2'' # ps else ps else ps)"
    have "\<exists>as bs. p1 = as @ ps @ bs"
      by (auto simp: p1_def intro: exI [of _ "[]"] exI [of _ "[''h2'']"])
    moreover have "naive_protos network ps = p1 \<or> naive_protos network ps = p1 @ [''h3'']"
      by (simp add: naive_protos_def p1_def Let_def)
    ultimately show ?thesis by (metis append.assoc append_Nil2)
  qed
qed (auto simp: naive_protos_def Let_def)

text \<open>An instance: a configuration with its own list, served over both transports.\<close>

theorem naive_alpn_witness:
  "''h2'' \<in> set (naive_protos [TCP, UDP] [''http/1.1'']) \<and> naive_protos [TCP, UDP] [''http/1.1''] = [''h2'', ''http/1.1'', ''h3'']"
  using naive_alpn [of "[TCP, UDP]" "[''http/1.1'']"] by (simp add: naive_protos_def)

end
