(* ===== verification/Inbound_Ops.thy ===== *)
theory Inbound_Ops
  imports Inbound_Reload Controller_Sync
begin

text \<open>
  The naive and hysteria2 inbounds as the controller sees them: their operations in the form of the
  interfaces of \<^verbatim>\<open>adapter/pinbound.go\<close>, over the inbound and the world it acquires resources from, and
  the interpretations that give the controller's synchronisation lemmas on them.
\<close>

type_synonym 'x naive_node = "'x naive_inbound \<times> world"

definition naive_add :: "user_info list \<Rightarrow> 'x naive_node \<Rightarrow> 'x naive_node" where
  "naive_add us = (\<lambda>(n, w). (n\<lparr>nv_users := naive_AddUsers us (nv_users n)\<rparr>, w))"

definition naive_remove :: "string list \<Rightarrow> 'x naive_node \<Rightarrow> 'x naive_node" where
  "naive_remove names = (\<lambda>(n, w). (n\<lparr>nv_users := naive_RemoveUsers names (nv_users n)\<rparr>, w))"

definition naive_refresh :: "user_info list \<Rightarrow> 'x naive_node \<Rightarrow> 'x naive_node" where
  "naive_refresh us = (\<lambda>(n, w). (n\<lparr>nv_users := naive_RefreshUsers us (nv_users n)\<rparr>, w))"

definition naive_ops :: "'x naive_node inbound_ops" where
  "naive_ops =
     \<lparr>ib_incremental = Some \<lparr>inc_AddUsers = \<lambda>us ni i. (None, naive_add us i), inc_RemoveUsers = \<lambda>ns i. (None, naive_remove ns i)\<rparr>,
      ib_RefreshUsers = Some (\<lambda>us ni i. (None, naive_refresh us i)),
      ib_Configure = Some (\<lambda>ni (n, w). naive_ConfigureFromPanelNode ni n w)\<rparr>"

definition naive_table :: "'x naive_node \<Rightarrow> string \<Rightarrow> string option" where
  "naive_table i = gm_get (tb_byName (nv_users (fst i)))"

definition naive_ok :: "'x naive_node \<Rightarrow> bool" where
  "naive_ok i = table_inv (nv_users (fst i))"

interpretation nvc: controlled_runtime naive_table naive_ok naive_add naive_remove naive_refresh naive_ops
  by unfold_locales
     (simp_all add: naive_table_def naive_ok_def naive_add_def naive_remove_def naive_refresh_def naive_ops_def split_beta
        nv.add_ok nv.remove_ok nv.refresh_ok nv.add_table nv.remove_table nv.refresh_table split: option.splits)

type_synonym ('s, 'x) hysteria2_node = "('s, 'x) hysteria2_inbound \<times> world"

definition hysteria2_add :: "'s user_service \<Rightarrow> user_info list \<Rightarrow> ('s, 'x) hysteria2_node \<Rightarrow> ('s, 'x) hysteria2_node" where
  "hysteria2_add sv us = (\<lambda>(h, w). (h\<lparr>hi_users := hy_AddUsers sv us (hi_users h)\<rparr>, w))"

definition hysteria2_remove :: "'s user_service \<Rightarrow> string list \<Rightarrow> ('s, 'x) hysteria2_node \<Rightarrow> ('s, 'x) hysteria2_node" where
  "hysteria2_remove sv names = (\<lambda>(h, w). (h\<lparr>hi_users := hy_RemoveUsers sv names (hi_users h)\<rparr>, w))"

definition hysteria2_refresh :: "'s user_service \<Rightarrow> user_info list \<Rightarrow> ('s, 'x) hysteria2_node \<Rightarrow> ('s, 'x) hysteria2_node" where
  "hysteria2_refresh sv us = (\<lambda>(h, w). (h\<lparr>hi_users := hy_RefreshUsers sv us (hi_users h)\<rparr>, w))"

definition hysteria2_ops :: "'s user_service \<Rightarrow> 's \<Rightarrow> ('s, 'x) hysteria2_node inbound_ops" where
  "hysteria2_ops sv fresh =
     \<lparr>ib_incremental = Some \<lparr>inc_AddUsers = \<lambda>us ni i. (None, hysteria2_add sv us i),
                             inc_RemoveUsers = \<lambda>ns i. (None, hysteria2_remove sv ns i)\<rparr>,
      ib_RefreshUsers = Some (\<lambda>us ni i. (None, hysteria2_refresh sv us i)),
      ib_Configure = Some (\<lambda>ni (h, w). hy_ConfigureFromPanelNode sv fresh ni h w)\<rparr>"

definition hysteria2_table :: "('s, 'x) hysteria2_node \<Rightarrow> string \<Rightarrow> string option" where
  "hysteria2_table i = gm_get (hu_currentUsers (hi_users (fst i)))"

definition hysteria2_ok :: "('s, 'x) hysteria2_node \<Rightarrow> bool" where
  "hysteria2_ok i = gm_wf (hu_currentUsers (hi_users (fst i)))"

interpretation hyc: controlled_runtime hysteria2_table hysteria2_ok "hysteria2_add sv" "hysteria2_remove sv"
  "hysteria2_refresh sv" "hysteria2_ops sv fresh" for sv fresh
  by unfold_locales
     (simp_all add: hysteria2_table_def hysteria2_ok_def hysteria2_add_def hysteria2_remove_def hysteria2_refresh_def
        hysteria2_ops_def split_beta hy.add_ok hy.remove_ok hy.refresh_ok hy.add_table hy.remove_table hy.refresh_table
        split: option.splits)

text \<open>C2. After a synchronisation with a freshly fetched list whose passwords are unique, a naive node
  authenticates exactly the users of that list: a password resolves to \<open>u<UID>\<close> exactly when the first
  entry of the list with that UID has it, and the accounts of the controller are those users.\<close>

theorem naive_authenticates_panel_users:
  assumes "ctl_inv c" and "c_panelType c = ''SSpanel''" and "d_ops d = naive_ops"
    and "naive_ok (c_inbound c)" and "naive_table (c_inbound c) = runtime_table (c_usersMap c)"
    and "GetUserList (d_api d) (c_api c) = (Ok us, w)" and "unique_passwords us"
    and "syncUserList d c = (r, c')" and "r \<noteq> Panic"
  shows "r = Ok () \<and>
    (table_lookup (nv_users (fst (c_inbound c'))) p = Some name \<longleftrightarrow>
       (\<exists>u. List.find (\<lambda>u. user_name (ui_UID u) = name) us = Some u \<and> panel_password u = p)) \<and>
    (account (c_author c') name \<noteq> None \<longleftrightarrow> (\<exists>u \<in> set us. user_name (ui_UID u) = name))"
proof -
  let ?c = "c\<lparr>c_api := w\<rparr>"
  have run: "sync_list d us ?c = (r, c')" using assms(6,8) by (simp add: syncUserList_def)
  have pre: "ctl_inv ?c" "c_panelType ?c = ''SSpanel''" "naive_ok (c_inbound ?c)"
    "naive_table (c_inbound ?c) = runtime_table (c_usersMap ?c)" using assms by simp_all
  have res: "naive_ok (c_inbound c')" "naive_table (c_inbound c') = runtime_table (c_usersMap c')" "r = Ok ()"
    and nxt: "\<And>h. gm_get (c_usersMap c') h = map_option Some (List.find (\<lambda>u. user_name (ui_UID u) = h) us)"
    using nvc.sync_list_runtime [OF pre(1,2) assms(3) pre(3,4) assms(7) run] assms(9) by auto
  have lookup: "table_lookup (nv_users (fst (c_inbound c'))) p = Some name \<longleftrightarrow> naive_table (c_inbound c') name = Some p"
    using res(1) by (simp add: naive_table_def naive_ok_def table_lookup_byName)
  have "ctl_inv c'" using sync_list_inv [OF pre(1) run] .
  then have acc: "accounts_match (c_panelType c') (c_usersMap c') (c_author c')" by (simp add: ctl_inv_def)
  have "account (c_author c') name \<noteq> None \<longleftrightarrow> gm_get (c_usersMap c') name \<noteq> None"
    using accounts_matchD [OF acc, of name] by (cases "gm_get (c_usersMap c') name") auto
  also have "\<dots> \<longleftrightarrow> (\<exists>u \<in> set us. user_name (ui_UID u) = name)" by (auto simp: nxt find_None_iff)
  finally show ?thesis
    using res(3) unfolding lookup res(2) by (auto simp: runtime_table_def nxt split: option.splits)
qed

definition naive_deps :: "((api_error, user_info list) res list, unit naive_node, int) deps" where
  "naive_deps = \<lparr>d_api = scripted_api, d_ops = naive_ops, d_rate = unit_rate\<rparr>"

definition naive_controller :: "(api_error, user_info list) res list \<Rightarrow>
    ((api_error, user_info list) res list, unit naive_node, int) controller" where
  "naive_controller script =
     (NewController example_config (example_naive, example_world []) script 0)\<lparr>c_nodeInfo := Some example_node_info\<rparr>"

text \<open>Witness of C2: a first list with two users.\<close>

theorem naive_authenticates_panel_users_witness:
  "table_lookup (nv_users (fst (c_inbound (snd (syncUserList naive_deps
      (naive_controller [Ok [example_panel_user 1 ''A'', example_panel_user 2 ''B'']])))))) ''B'' = Some ''u2''"
proof -
  let ?us = "[example_panel_user 1 ''A'', example_panel_user 2 ''B'']"
  let ?c = "naive_controller [Ok ?us]"
  obtain r c' where run: "syncUserList naive_deps ?c = (r, c')" by (metis surj_pair)
  have "snd (snd (diffUsers [] ?us (buildUserHash ''SSpanel''))) = ([], [])" by code_simp
  then have r: "r \<noteq> Panic"
    using run by (auto simp: syncUserList_def naive_deps_def scripted_api_def naive_controller_def NewController_def
        example_config_def sync_list_def logged_def split: prod.splits option.splits if_splits)
  have inv: "ctl_inv ?c" by (simp add: naive_controller_def ctl_inv_New)
  have pt: "c_panelType ?c = ''SSpanel''" and ops: "d_ops naive_deps = naive_ops" and ok: "naive_ok (c_inbound ?c)"
    and tab: "naive_table (c_inbound ?c) = runtime_table (c_usersMap ?c)"
    and get: "GetUserList (d_api naive_deps) (c_api ?c) = (Ok ?us, [])"
    by (simp_all add: naive_controller_def NewController_def example_config_def naive_deps_def naive_ok_def example_naive_def
        naive_table_def runtime_table_def fun_eq_iff scripted_api_def)
  have up: "unique_passwords ?us" by code_simp
  have "List.find (\<lambda>u. user_name (ui_UID u) = ''u2'') ?us = Some (example_panel_user 2 ''B'')" by code_simp
  moreover have "panel_password (example_panel_user 2 ''B'') = ''B''" by code_simp
  ultimately have "table_lookup (nv_users (fst (c_inbound c'))) ''B'' = Some ''u2''"
    using naive_authenticates_panel_users [OF inv pt ops ok tab get up run r, of "''B''" "''u2''"] by blast
  then show ?thesis by (simp add: run)
qed

end
