(* ===== verification/Lockfree_Queue.thy ===== *)
theory Lockfree_Queue
  imports Go_Prelude "HOL-Library.Sublist"
begin

text \<open>
  The lock-free queue of \<^verbatim>\<open>poet/common/queue/lockfree.go\<close>. Nodes live in a memory that only grows (Go
  collects them when nothing refers to them, so an address is never reused while a call holds it).
  Every atomic load and every compare-and-swap of \<open>Enqueue\<close> and \<open>Dequeue\<close> is one step of the
  calling goroutine, and the steps of any number of goroutines interleave freely; a nil dereference
  is the state \<open>Crashed\<close>.
\<close>

section \<open>The queue and its atomic operations\<close>

type_synonym ptr = "nat option"   \<comment> \<open>a node pointer, \<open>None\<close> for \<open>nil\<close>\<close>

record 'v node =
  nd_value :: "'v option"   \<comment> \<open>an \<open>interface{}\<close>, \<open>None\<close> for the nil interface\<close>
  nd_next :: ptr

record 'v lkqueue =
  q_mem :: "'v node list"
  q_head :: ptr
  q_tail :: ptr

definition NewLKQueue :: "'v lkqueue" where
  "NewLKQueue = \<lparr>q_mem = [\<lparr>nd_value = None, nd_next = None\<rparr>], q_head = Some 0, q_tail = Some 0\<rparr>"

datatype cell = Head | Tail | Next nat   \<comment> \<open>\<open>&q.head\<close>, \<open>&q.tail\<close>, \<open>&n.next\<close>\<close>

fun load :: "cell \<Rightarrow> 'v lkqueue \<Rightarrow> ptr" where
  "load Head q = q_head q"
| "load Tail q = q_tail q"
| "load (Next a) q = nd_next (q_mem q ! a)"

fun store_ptr :: "cell \<Rightarrow> ptr \<Rightarrow> 'v lkqueue \<Rightarrow> 'v lkqueue" where
  "store_ptr Head p q = q\<lparr>q_head := p\<rparr>"
| "store_ptr Tail p q = q\<lparr>q_tail := p\<rparr>"
| "store_ptr (Next a) p q = q\<lparr>q_mem := (q_mem q)[a := (q_mem q ! a)\<lparr>nd_next := p\<rparr>]\<rparr>"

definition cas :: "cell \<Rightarrow> ptr \<Rightarrow> ptr \<Rightarrow> 'v lkqueue \<Rightarrow> bool \<times> 'v lkqueue" where
  "cas p old new q = (if load p q = old then (True, store_ptr p new q) else (False, q))"


section \<open>Enqueue and Dequeue, step by step\<close>

text \<open>Where a goroutine is; the arguments are its local variables.\<close>

datatype 'v pc =
    Idle
  | EnqNew "'v option"             \<comment> \<open>\<open>n := &node{value: v}\<close>\<close>
  | EnqTail nat                    \<comment> \<open>\<open>tail := load(&q.tail)\<close>\<close>
  | EnqNext nat ptr                \<comment> \<open>\<open>next := load(&tail.next)\<close>\<close>
  | EnqCheck nat ptr ptr           \<comment> \<open>\<open>if tail == load(&q.tail)\<close>\<close>
  | EnqLink nat ptr ptr            \<comment> \<open>\<open>if cas(&tail.next, next, n)\<close>\<close>
  | EnqSwing nat ptr               \<comment> \<open>\<open>cas(&q.tail, tail, n); return\<close>\<close>
  | EnqHelp nat ptr ptr            \<comment> \<open>\<open>cas(&q.tail, tail, next)\<close>\<close>
  | DeqHead                        \<comment> \<open>\<open>head := load(&q.head)\<close>\<close>
  | DeqTail ptr                    \<comment> \<open>\<open>tail := load(&q.tail)\<close>\<close>
  | DeqNext ptr ptr                \<comment> \<open>\<open>next := load(&head.next)\<close>\<close>
  | DeqCheck ptr ptr ptr           \<comment> \<open>\<open>if head == load(&q.head)\<close>, then \<open>v := next.value\<close>\<close>
  | DeqHelp ptr ptr                \<comment> \<open>\<open>cas(&q.tail, tail, next)\<close>\<close>
  | DeqTake ptr ptr "'v option"    \<comment> \<open>\<open>if cas(&q.head, head, next) { return v }\<close>\<close>
  | Returned "'v option"
  | Crashed

definition Enqueue :: "'v option \<Rightarrow> 'v pc" where
  "Enqueue v = EnqNew v"

definition Dequeue :: "'v pc" where
  "Dequeue = DeqHead"

fun enqueue_step :: "'v pc \<Rightarrow> 'v lkqueue \<Rightarrow> 'v pc \<times> 'v lkqueue" where
  "enqueue_step (EnqNew v) q =
     (EnqTail (length (q_mem q)), q\<lparr>q_mem := q_mem q @ [\<lparr>nd_value = v, nd_next = None\<rparr>]\<rparr>)"
| "enqueue_step (EnqTail n) q = (EnqNext n (load Tail q), q)"
| "enqueue_step (EnqNext n tail) q =
     (case tail of None \<Rightarrow> (Crashed, q) | Some t \<Rightarrow> (EnqCheck n tail (load (Next t) q), q))"
| "enqueue_step (EnqCheck n tail next) q =
     (if tail = load Tail q then (if next = None then EnqLink n tail next else EnqHelp n tail next, q)
      else (EnqTail n, q))"
| "enqueue_step (EnqLink n tail next) q =
     (case tail of
        None \<Rightarrow> (Crashed, q)
      | Some t \<Rightarrow> (case cas (Next t) next (Some n) q of
                    (ok, q') \<Rightarrow> (if ok then EnqSwing n tail else EnqTail n, q')))"
| "enqueue_step (EnqSwing n tail) q = (Returned None, snd (cas Tail tail (Some n) q))"
| "enqueue_step (EnqHelp n tail next) q = (EnqTail n, snd (cas Tail tail next q))"
| "enqueue_step pc q = (pc, q)"

fun dequeue_step :: "'v pc \<Rightarrow> 'v lkqueue \<Rightarrow> 'v pc \<times> 'v lkqueue" where
  "dequeue_step DeqHead q = (DeqTail (load Head q), q)"
| "dequeue_step (DeqTail head) q = (DeqNext head (load Tail q), q)"
| "dequeue_step (DeqNext head tail) q =
     (case head of None \<Rightarrow> (Crashed, q) | Some h \<Rightarrow> (DeqCheck head tail (load (Next h) q), q))"
| "dequeue_step (DeqCheck head tail next) q =
     (if head = load Head q then
        if head = tail then (if next = None then Returned None else DeqHelp tail next, q)
        else (case next of None \<Rightarrow> (Crashed, q) | Some a \<Rightarrow> (DeqTake head next (nd_value (q_mem q ! a)), q))
      else (DeqHead, q))"
| "dequeue_step (DeqHelp tail next) q = (DeqHead, snd (cas Tail tail next q))"
| "dequeue_step (DeqTake head next v) q =
     (case cas Head head next q of (ok, q') \<Rightarrow> (if ok then Returned v else DeqHead, q'))"
| "dequeue_step pc q = (pc, q)"

definition enqueuing :: "'v pc \<Rightarrow> bool" where
  "enqueuing pc = (case pc of EnqNew _ \<Rightarrow> True | EnqTail _ \<Rightarrow> True | EnqNext _ _ \<Rightarrow> True | EnqCheck _ _ _ \<Rightarrow> True
     | EnqLink _ _ _ \<Rightarrow> True | EnqSwing _ _ \<Rightarrow> True | EnqHelp _ _ _ \<Rightarrow> True | _ \<Rightarrow> False)"

definition pc_step :: "'v pc \<Rightarrow> 'v lkqueue \<Rightarrow> 'v pc \<times> 'v lkqueue" where
  "pc_step pc q = (if enqueuing pc then enqueue_step pc q else dequeue_step pc q)"


section \<open>Goroutines sharing a queue\<close>

record 'v sys =
  s_q :: "'v lkqueue"
  s_pc :: "nat \<Rightarrow> 'v pc"

datatype 'v event = CallEnq nat "'v option" | CallDeq nat | Step nat

definition at_rest :: "'v pc \<Rightarrow> bool" where
  "at_rest pc = (case pc of Idle \<Rightarrow> True | Returned _ \<Rightarrow> True | _ \<Rightarrow> False)"

fun exec :: "'v event \<Rightarrow> 'v sys \<Rightarrow> 'v sys" where
  "exec (CallEnq i v) s = (if at_rest (s_pc s i) then s\<lparr>s_pc := (s_pc s)(i := Enqueue v)\<rparr> else s)"
| "exec (CallDeq i) s = (if at_rest (s_pc s i) then s\<lparr>s_pc := (s_pc s)(i := Dequeue)\<rparr> else s)"
| "exec (Step i) s = (case pc_step (s_pc s i) (s_q s) of (pc, q) \<Rightarrow> \<lparr>s_q = q, s_pc = (s_pc s)(i := pc)\<rparr>)"

definition init :: "'v sys" where
  "init = \<lparr>s_q = NewLKQueue, s_pc = \<lambda>_. Idle\<rparr>"

definition run :: "'v event list \<Rightarrow> 'v sys" where
  "run es = fold exec es init"

text \<open>The values the queue holds: the nodes after the head. The memory bounds the walk.\<close>

fun follow :: "nat \<Rightarrow> 'v node list \<Rightarrow> ptr \<Rightarrow> nat list" where
  "follow (Suc k) mem (Some a) = a # follow k mem (nd_next (mem ! a))"
| "follow _ _ _ = []"

definition contents :: "'v lkqueue \<Rightarrow> 'v option list" where
  "contents q =
     (case q_head q of
        None \<Rightarrow> []
      | Some h \<Rightarrow> map (\<lambda>a. nd_value (q_mem q ! a)) (follow (length (q_mem q)) (q_mem q) (nd_next (q_mem q ! h))))"

text \<open>Where a call takes effect: the successful swap that links a node or takes one.\<close>

datatype 'v effect = Put "'v option" | Took "'v option"

definition effect_at :: "'v pc \<Rightarrow> 'v lkqueue \<Rightarrow> 'v effect list" where
  "effect_at pc q =
     (case pc of
        EnqLink n (Some t) next \<Rightarrow> if load (Next t) q = next then [Put (nd_value (q_mem q ! n))] else []
      | DeqTake head next v \<Rightarrow> if load Head q = head then [Took v] else []
      | _ \<Rightarrow> [])"

fun effect_of :: "'v event \<Rightarrow> 'v sys \<Rightarrow> 'v effect list" where
  "effect_of (Step i) s = effect_at (s_pc s i) (s_q s)"
| "effect_of _ _ = []"

fun effects :: "('e \<Rightarrow> 's \<Rightarrow> 'v effect list) \<Rightarrow> ('e \<Rightarrow> 's \<Rightarrow> 's) \<Rightarrow> 'e list \<Rightarrow> 's \<Rightarrow> 'v effect list" where
  "effects eff nxt [] s = []"
| "effects eff nxt (e # es) s = eff e s @ effects eff nxt es (nxt e s)"

fun puts :: "'v effect list \<Rightarrow> 'v option list" where
  "puts [] = []"
| "puts (Put v # xs) = v # puts xs"
| "puts (Took _ # xs) = puts xs"

fun takes :: "'v effect list \<Rightarrow> 'v option list" where
  "takes [] = []"
| "takes (Took v # xs) = v # takes xs"
| "takes (Put _ # xs) = takes xs"


section \<open>The invariant\<close>

text \<open>
  \<open>ch\<close> lists every node ever linked, oldest first; the head and the tail are at positions \<open>h\<close> and
  \<open>t\<close>. The head never overtakes the tail and the tail lags at most one node behind.
\<close>

definition chain_ok :: "nat list \<Rightarrow> nat \<Rightarrow> nat \<Rightarrow> 'v lkqueue \<Rightarrow> bool" where
  "chain_ok ch h t q \<longleftrightarrow> distinct ch \<and> set ch \<subseteq> {..<length (q_mem q)} \<and>
     (\<forall>i<length ch. nd_next (q_mem q ! (ch ! i)) = (if Suc i < length ch then Some (ch ! Suc i) else None)) \<and>
     h \<le> t \<and> t < length ch \<and> length ch \<le> t + 2 \<and> q_head q = Some (ch ! h) \<and> q_tail q = Some (ch ! t)"

text \<open>A node that is allocated and not yet linked belongs to one goroutine.\<close>

definition owned :: "'v pc \<Rightarrow> nat option" where
  "owned pc = (case pc of EnqTail n \<Rightarrow> Some n | EnqNext n _ \<Rightarrow> Some n | EnqCheck n _ _ \<Rightarrow> Some n
     | EnqLink n _ _ \<Rightarrow> Some n | EnqHelp n _ _ \<Rightarrow> Some n | _ \<Rightarrow> None)"

definition unlinked :: "nat list \<Rightarrow> 'v lkqueue \<Rightarrow> nat option \<Rightarrow> bool" where
  "unlinked ch q own \<longleftrightarrow>
     (\<forall>n. own = Some n \<longrightarrow> n < length (q_mem q) \<and> n \<notin> set ch \<and> nd_next (q_mem q ! n) = None)"

definition adjacent :: "nat list \<Rightarrow> nat \<Rightarrow> ptr \<Rightarrow> ptr \<Rightarrow> bool" where
  "adjacent ch i p p' \<longleftrightarrow> Suc i < length ch \<and> p = Some (ch ! i) \<and> p' = Some (ch ! Suc i)"

text \<open>What a goroutine knows from its local variables. \<open>seen\<close>: the queue was empty at some moment of
  its call.\<close>

fun pc_ok :: "nat list \<Rightarrow> nat \<Rightarrow> nat \<Rightarrow> 'v lkqueue \<Rightarrow> bool \<Rightarrow> 'v pc \<Rightarrow> bool" where
  "pc_ok ch h t q seen (EnqNext n tail) = (\<exists>i\<le>t. tail = Some (ch ! i))"
| "pc_ok ch h t q seen (EnqCheck n tail next) =
     (\<exists>i\<le>t. tail = Some (ch ! i) \<and> (next = None \<or> adjacent ch i tail next))"
| "pc_ok ch h t q seen (EnqLink n tail next) = (next = None \<and> (\<exists>i\<le>t. tail = Some (ch ! i)))"
| "pc_ok ch h t q seen (EnqSwing n tail) = (\<exists>i. adjacent ch i tail (Some n))"
| "pc_ok ch h t q seen (EnqHelp n tail next) = (\<exists>i. adjacent ch i tail next)"
| "pc_ok ch h t q seen (DeqTail head) = (\<exists>i\<le>h. head = Some (ch ! i))"
| "pc_ok ch h t q seen (DeqNext head tail) =
     (\<exists>i\<le>h. head = Some (ch ! i) \<and> (\<exists>j\<le>t. i \<le> j \<and> tail = Some (ch ! j)))"
| "pc_ok ch h t q seen (DeqCheck head tail next) =
     (\<exists>i\<le>h. head = Some (ch ! i) \<and> (next = None \<and> (i = h \<longrightarrow> seen) \<or> adjacent ch i head next) \<and>
        (\<exists>j\<le>t. i \<le> j \<and> tail = Some (ch ! j) \<and> (i < j \<longrightarrow> next \<noteq> None)))"
| "pc_ok ch h t q seen (DeqHelp tail next) = (\<exists>i. adjacent ch i tail next)"
| "pc_ok ch h t q seen (DeqTake head next v) =
     (\<exists>i\<le>h. Suc i \<le> t \<and> adjacent ch i head next \<and> v = nd_value (q_mem q ! (ch ! Suc i)))"
| "pc_ok ch h t q seen Crashed = False"
| "pc_ok ch h t q seen _ = True"

text \<open>What one step of a goroutine that owns \<open>own\<close> may do to the shared state.\<close>

definition grows :: "nat option \<Rightarrow> nat list \<Rightarrow> nat \<Rightarrow> nat \<Rightarrow> 'v lkqueue \<Rightarrow> nat list \<Rightarrow> nat \<Rightarrow> nat \<Rightarrow> 'v lkqueue \<Rightarrow> bool" where
  "grows own ch h t q ch' h' t' q' \<longleftrightarrow>
     (ch' = ch \<or> (\<exists>n. own = Some n \<and> ch' = ch @ [n])) \<and> h \<le> h' \<and> t \<le> t' \<and>
     length (q_mem q) \<le> length (q_mem q') \<and>
     (\<forall>a<length (q_mem q). nd_value (q_mem q' ! a) = nd_value (q_mem q ! a) \<and>
        (a \<notin> set ch \<longrightarrow> nd_next (q_mem q' ! a) = nd_next (q_mem q ! a)))"

lemma grows_refl: "grows own ch h t q ch h t q"
  by (simp add: grows_def)

lemma grows_chain: "grows own ch h t q ch' h' t' q' \<Longrightarrow> i < length ch \<Longrightarrow> ch' ! i = ch ! i \<and> i < length ch'"
  by (auto simp: grows_def nth_append)

lemma adjacent_grows: "grows own ch h t q ch' h' t' q' \<Longrightarrow> adjacent ch i p p' \<Longrightarrow> adjacent ch' i p p'"
  by (auto simp: adjacent_def grows_def nth_append)

lemma pc_ok_mono:
  assumes g: "grows own ch h t q ch' h' t' q'" and c: "chain_ok ch h t q" and ok: "pc_ok ch h t q seen pc"
    and sn: "seen \<longrightarrow> seen'"
  shows "pc_ok ch' h' t' q' seen' pc"
proof -
  have le: "h \<le> h'" "t \<le> t'" and ht: "h < length ch" "t < length ch" using g c by (auto simp: grows_def chain_ok_def)
  have nt: "ch' ! i = ch ! i" if "i \<le> t" for i using grows_chain[OF g] that ht by auto
  have nh: "ch' ! i = ch ! i" if "i \<le> h" for i using grows_chain[OF g] that ht by auto
  note adj = adjacent_grows[OF g]
  have pt: "\<exists>i\<le>t'. p = Some (ch' ! i)" if "\<exists>i\<le>t. p = Some (ch ! i)" for p
    using that le nt by (metis order_trans)
  have ph: "\<exists>i\<le>h'. p = Some (ch' ! i)" if "\<exists>i\<le>h. p = Some (ch ! i)" for p
    using that le nh by (metis order_trans)
  show ?thesis
  proof (cases pc)
    case (DeqCheck head tail nx)
    then obtain i j where "i \<le> h" "head = Some (ch ! i)" "nx = None \<and> (i = h \<longrightarrow> seen) \<or> adjacent ch i head nx"
      "j \<le> t" "i \<le> j" "tail = Some (ch ! j)" "i < j \<longrightarrow> nx \<noteq> None"
      using ok by auto
    then have "i \<le> h'" "head = Some (ch' ! i)" "nx = None \<and> (i = h' \<longrightarrow> seen') \<or> adjacent ch' i head nx"
      "j \<le> t'" "tail = Some (ch' ! j)"
      using le nt nh adj sn by auto
    then show ?thesis using DeqCheck \<open>i \<le> j\<close> \<open>i < j \<longrightarrow> nx \<noteq> None\<close> by auto
  next
    case (DeqTake head nx v)
    then obtain i where i: "i \<le> h" "Suc i \<le> t" "adjacent ch i head nx" "v = nd_value (q_mem q ! (ch ! Suc i))"
      using ok by auto
    have "ch ! Suc i < length (q_mem q)" using i(2) c by (auto simp: chain_ok_def subset_iff)
    then have "v = nd_value (q_mem q' ! (ch' ! Suc i))" using i nt[of "Suc i"] g by (auto simp: grows_def)
    then show ?thesis using DeqTake i le adj[OF i(3)] by (auto intro!: exI[of _ i])
  next
    case (EnqNext n tail)
    then show ?thesis using ok pt by simp
  next
    case (EnqCheck n tail nx)
    then obtain i where "i \<le> t" "tail = Some (ch ! i)" "nx = None \<or> adjacent ch i tail nx" using ok by auto
    then have "i \<le> t'" "tail = Some (ch' ! i)" "nx = None \<or> adjacent ch' i tail nx" using le nt adj by auto
    then show ?thesis using EnqCheck by auto
  next
    case (EnqLink n tail nx)
    then show ?thesis using ok pt by simp
  next
    case (DeqTail head)
    then show ?thesis using ok ph by simp
  next
    case (DeqNext head tail)
    then obtain i j where "i \<le> h" "head = Some (ch ! i)" "j \<le> t" "i \<le> j" "tail = Some (ch ! j)" using ok by auto
    then have "i \<le> h'" "head = Some (ch' ! i)" "j \<le> t'" "tail = Some (ch' ! j)" using le nt nh by auto
    then show ?thesis using DeqNext \<open>i \<le> j\<close> by auto
  qed (use ok adj in auto)
qed

lemma unlinked_mono:
  assumes "grows own ch h t q ch' h' t' q'" and "unlinked ch q own'" and "own = own' \<longrightarrow> own' = None \<or> ch' = ch"
  shows "unlinked ch' q' own'"
  using assms by (auto simp: grows_def unlinked_def)

text \<open>The contents are the nodes of the chain after the head.\<close>

lemma follow_chain:
  assumes "chain_ok ch h t q" and "i \<le> length ch" and "length ch \<le> i + k"
  shows "follow k (q_mem q) (if i < length ch then Some (ch ! i) else None) = drop i ch"
  using assms(2,3)
proof (induction k arbitrary: i)
  case 0
  then show ?case by auto
next
  case (Suc k)
  show ?case
  proof (cases "i < length ch")
    case True
    then have "nd_next (q_mem q ! (ch ! i)) = (if Suc i < length ch then Some (ch ! Suc i) else None)"
      using assms(1) by (simp add: chain_ok_def)
    then show ?thesis using Suc.IH[of "Suc i"] Suc.prems True by (simp add: Cons_nth_drop_Suc)
  qed (use Suc.prems in auto)
qed

lemma chain_length: "chain_ok ch h t q \<Longrightarrow> length ch \<le> length (q_mem q)"
  by (metis card_lessThan card_mono chain_ok_def distinct_card finite_lessThan)

lemma contents_chain:
  assumes "chain_ok ch h t q"
  shows "contents q = map (\<lambda>a. nd_value (q_mem q ! a)) (drop (Suc h) ch)"
proof -
  have h: "h < length ch" "q_head q = Some (ch ! h)" using assms by (auto simp: chain_ok_def)
  then have "nd_next (q_mem q ! (ch ! h)) = (if Suc h < length ch then Some (ch ! Suc h) else None)"
    using assms by (simp add: chain_ok_def)
  moreover have "length ch \<le> Suc h + length (q_mem q)" using chain_length[OF assms] by simp
  ultimately show ?thesis using follow_chain[OF assms, of "Suc h" "length (q_mem q)"] h by (simp add: contents_def)
qed


section \<open>Every step keeps the invariant\<close>

text \<open>The four steps that write.\<close>

lemma alloc_ok:
  assumes "chain_ok ch h t q" and q'_def: "q' = q\<lparr>q_mem := q_mem q @ [\<lparr>nd_value = v, nd_next = None\<rparr>]\<rparr>"
  shows "grows own ch h t q ch h t q'" and "chain_ok ch h t q'" and "contents q' = contents q"
    and "unlinked ch q' (Some (length (q_mem q)))"
proof -
  have ch: "ch ! i < length (q_mem q)" if "i < length ch" for i using assms(1) that by (auto simp: chain_ok_def subset_iff)
  have old: "q_mem q' ! a = q_mem q ! a" if "a < length (q_mem q)" for a
    using that by (simp add: q'_def nth_append)
  have sel: "q_head q' = q_head q" "q_tail q' = q_tail q" "length (q_mem q') = Suc (length (q_mem q))"
    by (simp_all add: q'_def)
  show g: "grows own ch h t q ch h t q'" using old sel by (simp add: grows_def)
  show c: "chain_ok ch h t q'" using assms(1) ch old sel by (auto simp: chain_ok_def)
  have "set (drop (Suc h) ch) \<subseteq> {..<length (q_mem q)}" using assms(1) set_drop_subset by (fastforce simp: chain_ok_def)
  then show "contents q' = contents q" using old by (auto simp: contents_chain[OF c] contents_chain[OF assms(1)])
  show "unlinked ch q' (Some (length (q_mem q)))"
    using assms(1) by (auto simp: unlinked_def q'_def chain_ok_def)
qed

lemma tail_cas_ok:
  assumes c: "chain_ok ch h t q" and a: "adjacent ch i p p'"
  shows "\<exists>t'. grows own ch h t q ch h t' (snd (cas Tail p p' q)) \<and> chain_ok ch h t' (snd (cas Tail p p' q))
    \<and> contents (snd (cas Tail p p' q)) = contents q \<and> q_mem (snd (cas Tail p p' q)) = q_mem q"
proof (cases "q_tail q = p")
  case True
  then have "i = t" using c a by (auto simp: chain_ok_def adjacent_def nth_eq_iff_index_eq)
  then have n: "chain_ok ch h (Suc t) (q\<lparr>q_tail := p'\<rparr>)" using c a by (auto simp: chain_ok_def adjacent_def)
  have "contents (q\<lparr>q_tail := p'\<rparr>) = contents q" by (simp add: contents_chain[OF n] contents_chain[OF c])
  then show ?thesis using True n by (auto simp: cas_def grows_def intro!: exI[of _ "Suc t"])
next
  case False
  then show ?thesis using c grows_refl by (force simp: cas_def)
qed

lemma link_ok:
  assumes c: "chain_ok ch h t q" and u: "unlinked ch q (Some n)" and i: "i \<le> t" and nx: "nd_next (q_mem q ! (ch ! i)) = None"
    and q'_def: "q' = store_ptr (Next (ch ! i)) (Some n) q"
  shows "grows (Some n) ch h t q (ch @ [n]) h t q'" and "chain_ok (ch @ [n]) h t q'"
    and "contents q' = contents q @ [nd_value (q_mem q ! n)]" and "adjacent (ch @ [n]) i (Some (ch ! i)) (Some n)"
proof -
  have it: "i = t" "Suc t = length ch"
    using c i nx unfolding chain_ok_def by (metis Suc_lessI le_less_trans nat_less_le option.distinct(1) Suc_le_eq)+
  have n: "n < length (q_mem q)" "n \<notin> set ch" "nd_next (q_mem q ! n) = None" using u by (auto simp: unlinked_def)
  have t: "ch ! t < length (q_mem q)" "ch ! t \<noteq> n" using c n it by (auto simp: chain_ok_def subset_iff)
  have inj: "ch ! k = ch ! t \<longleftrightarrow> k = t" if "k < length ch" for k
    using c that it by (auto simp: chain_ok_def nth_eq_iff_index_eq)
  have mem: "q_mem q' = (q_mem q)[ch ! t := (q_mem q ! (ch ! t))\<lparr>nd_next := Some n\<rparr>]" "q_head q' = q_head q" "q_tail q' = q_tail q"
    by (simp_all add: q'_def it)
  have val: "nd_value (q_mem q' ! a) = nd_value (q_mem q ! a)" for a
    using t by (cases "a = ch ! t") (simp_all add: mem)
  have next': "nd_next (q_mem q' ! a) = (if a = ch ! t then Some n else nd_next (q_mem q ! a))" for a
    using t by (simp add: mem nth_list_update)
  show "grows (Some n) ch h t q (ch @ [n]) h t q'" using val next' it by (auto simp: grows_def mem(1))
  have links: "nd_next (q_mem q' ! ((ch @ [n]) ! k)) = (if Suc k < length (ch @ [n]) then Some ((ch @ [n]) ! Suc k) else None)"
    if "k < length (ch @ [n])" for k
  proof (cases "k < length ch")
    case True
    then show ?thesis using c it inj[OF True] by (auto simp: next' nth_append chain_ok_def)
  next
    case False
    then show ?thesis using that n t by (auto simp: next' nth_append)
  qed
  show co: "chain_ok (ch @ [n]) h t q'"
    unfolding chain_ok_def using c n it links by (auto simp: chain_ok_def mem nth_append)
  have "drop (Suc h) (ch @ [n]) = drop (Suc h) ch @ [n]" using c by (simp add: chain_ok_def)
  then show "contents q' = contents q @ [nd_value (q_mem q ! n)]"
    by (simp add: contents_chain[OF co] contents_chain[OF c] val)
  show "adjacent (ch @ [n]) i (Some (ch ! i)) (Some n)" using it by (simp add: adjacent_def nth_append)
qed

lemma take_ok:
  assumes c: "chain_ok ch h t q" and "Suc h \<le> t" and "adjacent ch h p p'"
  shows "grows own ch h t q ch (Suc h) t (q\<lparr>q_head := p'\<rparr>)" and "chain_ok ch (Suc h) t (q\<lparr>q_head := p'\<rparr>)"
    and "contents q = nd_value (q_mem q ! (ch ! Suc h)) # contents (q\<lparr>q_head := p'\<rparr>)"
proof -
  show "grows own ch h t q ch (Suc h) t (q\<lparr>q_head := p'\<rparr>)" by (simp add: grows_def)
  show c': "chain_ok ch (Suc h) t (q\<lparr>q_head := p'\<rparr>)" using assms by (auto simp: chain_ok_def adjacent_def)
  show "contents q = nd_value (q_mem q ! (ch ! Suc h)) # contents (q\<lparr>q_head := p'\<rparr>)"
    using assms(3) by (simp only: contents_chain[OF c] contents_chain[OF c']) (simp add: adjacent_def Cons_nth_drop_Suc[symmetric])
qed


definition good_step :: "nat option \<Rightarrow> nat list \<Rightarrow> nat \<Rightarrow> nat \<Rightarrow> 'v lkqueue \<Rightarrow> bool \<Rightarrow> 'v effect list \<Rightarrow> 'v pc \<Rightarrow> 'v lkqueue \<Rightarrow> bool" where
  "good_step own ch h t q seen es pc' q' \<longleftrightarrow>
     (\<exists>ch' h' t'. grows own ch h t q ch' h' t' q' \<and> chain_ok ch' h' t' q' \<and> pc_ok ch' h' t' q' seen pc' \<and>
        unlinked ch' q' (owned pc') \<and>
        (owned pc' = None \<or> owned pc' = own \<and> ch' = ch \<or> owned pc' = Some (length (q_mem q)) \<and> ch' = ch)) \<and>
     takes es @ contents q' = contents q @ puts es"

text \<open>A step that only reads.\<close>

lemma read_ok:
  assumes "chain_ok ch h t q" and "pc_ok ch h t q seen pc'" and "unlinked ch q own" and "owned pc' = None \<or> owned pc' = own"
  shows "good_step own ch h t q seen [] pc' q"
proof -
  have "unlinked ch q (owned pc')" using assms by (auto simp: unlinked_def)
  then show ?thesis using assms grows_refl[of own ch h t q] by (fastforce simp: good_step_def)
qed

lemma swing_ok:
  assumes "chain_ok ch h t q" and "adjacent ch i p p'" and "unlinked ch q own" and "owned pc' = None \<or> owned pc' = own"
    and "\<And>t' q'. chain_ok ch h t' q' \<Longrightarrow> pc_ok ch h t' q' seen pc'"
  shows "good_step own ch h t q seen [] pc' (snd (cas Tail p p' q))"
proof -
  obtain t' where t': "grows own ch h t q ch h t' (snd (cas Tail p p' q))" "chain_ok ch h t' (snd (cas Tail p p' q))"
    "contents (snd (cas Tail p p' q)) = contents q" "q_mem (snd (cas Tail p p' q)) = q_mem q"
    using tail_cas_ok[OF assms(1,2)] by blast
  then have "unlinked ch (snd (cas Tail p p' q)) (owned pc')" using assms(3,4) by (auto simp: unlinked_def)
  then show ?thesis using t' assms(4,5) by (fastforce simp: good_step_def)
qed

lemma enqueue_step_ok:
  assumes c: "chain_ok ch h t q" and ok: "pc_ok ch h t q seen pc" and u: "unlinked ch q (owned pc)"
    and st: "enqueue_step pc q = (pc', q')" and en: "enqueuing pc"
  shows "good_step (owned pc) ch h t q seen' (effect_at pc q) pc' q'"
proof (cases pc)
  case (EnqNew v)
  then have "pc' = EnqTail (length (q_mem q))" "q' = q\<lparr>q_mem := q_mem q @ [\<lparr>nd_value = v, nd_next = None\<rparr>]\<rparr>"
    using st by auto
  then show ?thesis using alloc_ok[OF c, of q' v] EnqNew by (force simp: good_step_def owned_def effect_at_def)
next
  case (EnqTail n)
  then have "pc' = EnqNext n (Some (ch ! t))" "q' = q" using st c by (auto simp: chain_ok_def)
  then show ?thesis using u read_ok[OF c, of seen' pc' "owned pc"] EnqTail by (auto simp: owned_def effect_at_def)
next
  case (EnqNext n tail)
  then obtain i where i: "i \<le> t" "tail = Some (ch ! i)" using ok by auto
  then have "pc' = EnqCheck n tail (nd_next (q_mem q ! (ch ! i)))" "q' = q" using st EnqNext by auto
  moreover have "i < length ch" using i c by (simp add: chain_ok_def)
  then have "nd_next (q_mem q ! (ch ! i)) = None \<or> adjacent ch i tail (nd_next (q_mem q ! (ch ! i)))"
    using c i by (simp add: chain_ok_def adjacent_def)
  ultimately show ?thesis using read_ok[OF c, of seen' pc' "owned pc"] EnqNext i u by (auto simp: owned_def effect_at_def)
next
  case (EnqCheck n tail nx)
  then have "pc_ok ch h t q seen' pc'" "q' = q" using ok st by (fastforce split: if_splits)+
  then show ?thesis using EnqCheck u st read_ok[OF c, of seen' pc' "owned pc"]
    by (auto simp: owned_def effect_at_def split: if_splits)
next
  case (EnqLink n tail nx)
  then obtain i where i: "i \<le> t" "tail = Some (ch ! i)" "nx = None" using ok by auto
  show ?thesis
  proof (cases "nd_next (q_mem q ! (ch ! i)) = None")
    case True
    then have "pc' = EnqSwing n tail" and q': "q' = store_ptr (Next (ch ! i)) (Some n) q" using st EnqLink i by (auto simp: cas_def)
    then show ?thesis using link_ok[OF c _ i(1) True q'] u EnqLink i True
      by (fastforce simp: good_step_def effect_at_def owned_def unlinked_def)
  next
    case False
    then have "pc' = EnqTail n" "q' = q" using st EnqLink i by (auto simp: cas_def)
    then show ?thesis using read_ok[OF c, of seen' pc' "owned pc"] EnqLink i u False by (auto simp: owned_def effect_at_def)
  qed
next
  case (EnqSwing n tail)
  then obtain i where "adjacent ch i tail (Some n)" using ok by auto
  then show ?thesis using swing_ok[OF c, of i tail "Some n" "owned pc" pc' seen'] st EnqSwing u
    by (auto simp: owned_def effect_at_def)
next
  case (EnqHelp n tail nx)
  then obtain i where "adjacent ch i tail nx" using ok by auto
  then show ?thesis using swing_ok[OF c, of i tail nx "owned pc" pc' seen'] st EnqHelp u
    by (auto simp: owned_def effect_at_def)
qed (use en in \<open>simp_all add: enqueuing_def\<close>)

lemma dequeue_step_ok:
  assumes c: "chain_ok ch h t q" and ok: "pc_ok ch h t q seen pc" and u: "unlinked ch q (owned pc)"
    and st: "dequeue_step pc q = (pc', q')" and en: "\<not> enqueuing pc"
    and sn: "seen \<and> \<not> at_rest pc' \<or> contents q' = [] \<and> \<not> at_rest pc' \<longrightarrow> seen'"
  shows "good_step (owned pc) ch h t q seen' (effect_at pc q) pc' q'"
proof (cases pc)
  case DeqHead
  then have "pc' = DeqTail (Some (ch ! h))" "q' = q" using st c by (auto simp: chain_ok_def)
  then show ?thesis using u read_ok[OF c, of seen' pc' "owned pc"] DeqHead by (auto simp: owned_def effect_at_def)
next
  case (DeqTail head)
  then obtain i where i: "i \<le> h" "head = Some (ch ! i)" using ok by auto
  have t: "h \<le> t" "q_tail q = Some (ch ! t)" using c by (auto simp: chain_ok_def)
  then have s: "pc' = DeqNext head (Some (ch ! t))" "q' = q" using st DeqTail by auto
  have "pc_ok ch h t q seen' pc'" unfolding s(1) pc_ok.simps using i t
    by (intro exI[of _ i] conjI exI[of _ t]) auto
  then show ?thesis using read_ok[OF c, of seen' pc' "owned pc"] DeqTail u s by (simp add: owned_def effect_at_def)
next
  case (DeqNext head tail)
  then obtain i j where i: "i \<le> h" "head = Some (ch ! i)" "j \<le> t" "i \<le> j" "tail = Some (ch ! j)" using ok by auto
  then have s: "pc' = DeqCheck head tail (nd_next (q_mem q ! (ch ! i)))" "q' = q" using st DeqNext by auto
  have len: "h < length ch" "t < length ch" using c by (auto simp: chain_ok_def)
  then have nx: "nd_next (q_mem q ! (ch ! i)) = (if Suc i < length ch then Some (ch ! Suc i) else None)"
    using c i by (simp add: chain_ok_def)
  have "seen'" if "nd_next (q_mem q ! (ch ! i)) = None" "i = h"
    using that sn nx s len by (auto simp: contents_chain[OF c] at_rest_def split: if_splits)
  moreover have "i < j \<longrightarrow> nd_next (q_mem q ! (ch ! i)) \<noteq> None" using nx i len by auto
  ultimately have "pc_ok ch h t q seen' pc'" using nx i s by (force simp: adjacent_def)
  then show ?thesis using read_ok[OF c, of seen' pc' "owned pc"] DeqNext u s by (auto simp: owned_def effect_at_def)
next
  case (DeqCheck head tail nx)
  then obtain i j where i: "i \<le> h" "head = Some (ch ! i)" "nx = None \<or> adjacent ch i head nx"
     "j \<le> t" "i \<le> j" "tail = Some (ch ! j)" "i < j \<longrightarrow> nx \<noteq> None" using ok by auto
  have q: "q' = q" using st DeqCheck by (auto split: if_splits option.splits)
  have "pc_ok ch h t q seen' pc'"
  proof (cases "head = q_head q \<and> head \<noteq> tail")
    case True
    then have "i \<noteq> j" using i by auto
    then have ij: "Suc i \<le> t" "adjacent ch i head nx" using i by auto
    then have "nx = Some (ch ! Suc i)" by (simp add: adjacent_def)
    then have "pc' = DeqTake head nx (nd_value (q_mem q ! (ch ! Suc i)))" using st DeqCheck True by (auto split: if_splits)
    then show ?thesis using i(1) ij by auto
  next
    case False
    then show ?thesis using st DeqCheck i by (auto split: if_splits)
  qed
  then show ?thesis using read_ok[OF c, of seen' pc' "owned pc"] DeqCheck st q u
    by (auto simp: owned_def effect_at_def split: if_splits option.splits)
next
  case (DeqHelp tail nx)
  then obtain i where "adjacent ch i tail nx" using ok by auto
  then show ?thesis using swing_ok[OF c, of i tail nx "owned pc" pc' seen'] st DeqHelp u
    by (auto simp: owned_def effect_at_def)
next
  case (DeqTake head nx v)
  then obtain i where i: "i \<le> h" "Suc i \<le> t" "adjacent ch i head nx" "v = nd_value (q_mem q ! (ch ! Suc i))" using ok by auto
  show ?thesis
  proof (cases "q_head q = head")
    case True
    then have "i = h" using c i by (auto simp: chain_ok_def adjacent_def nth_eq_iff_index_eq)
    then show ?thesis using take_ok[OF c, of head nx] st DeqTake i True u
      by (fastforce simp: good_step_def effect_at_def owned_def unlinked_def cas_def)
  next
    case False
    then show ?thesis using read_ok[OF c, of seen' pc' "owned pc"] DeqTake st u by (auto simp: owned_def effect_at_def cas_def)
  qed
qed (use en ok u st read_ok[OF c, of seen' pc' "owned pc"] in \<open>auto simp: enqueuing_def owned_def effect_at_def\<close>)


section \<open>First in, first out\<close>

text \<open>
  The contract of a queue whose operations take effect one at a time: each event either leaves the
  contents alone, adds a value at the back or takes the one at the front.
\<close>

locale fifo_history =
  fixes ok :: "'s \<Rightarrow> bool" and nxt :: "'e \<Rightarrow> 's \<Rightarrow> 's" and eff :: "'e \<Rightarrow> 's \<Rightarrow> 'v effect list"
    and content :: "'s \<Rightarrow> 'v option list"
  assumes ok_next: "ok s \<Longrightarrow> ok (nxt e s)"
    and fifo: "ok s \<Longrightarrow> takes (eff e s) @ content (nxt e s) = content s @ puts (eff e s)"
begin

lemma ok_run: "ok s \<Longrightarrow> ok (fold nxt es s)"
  by (induction es arbitrary: s) (auto simp: ok_next)

lemma takes_append: "takes (xs @ ys) = takes xs @ takes ys"
  by (induction xs rule: takes.induct) auto

lemma puts_append: "puts (xs @ ys) = puts xs @ puts ys"
  by (induction xs rule: puts.induct) auto

lemma history:
  assumes "ok s"
  shows "takes (effects eff nxt es s) @ content (fold nxt es s) = content s @ puts (effects eff nxt es s)"
  using assms
proof (induction es arbitrary: s)
  case (Cons e es)
  have "takes (eff e s) @ takes (effects eff nxt es (nxt e s)) @ content (fold nxt es (nxt e s)) =
    (takes (eff e s) @ content (nxt e s)) @ puts (effects eff nxt es (nxt e s))"
    using Cons.IH[OF ok_next[OF Cons.prems]] by simp
  then show ?case using fifo[OF Cons.prems] by (simp add: takes_append puts_append)
qed simp

end

definition sys_ok :: "(nat \<Rightarrow> bool) \<Rightarrow> 'v sys \<Rightarrow> bool" where
  "sys_ok seen s \<longleftrightarrow> (\<exists>ch h t. chain_ok ch h t (s_q s) \<and>
     (\<forall>i. pc_ok ch h t (s_q s) (seen i) (s_pc s i) \<and> unlinked ch (s_q s) (owned (s_pc s i))) \<and>
     (\<forall>i j. i \<noteq> j \<and> owned (s_pc s i) = owned (s_pc s j) \<longrightarrow> owned (s_pc s i) = None))"

lemma pc_ok_rest: "at_rest pc \<Longrightarrow> pc_ok ch h t q seen pc \<and> owned pc = None"
  by (cases pc) (auto simp: at_rest_def owned_def)

lemma pc_step_ok:
  assumes "chain_ok ch h t q" and "pc_ok ch h t q seen pc" and "unlinked ch q (owned pc)"
    and "pc_step pc q = (pc', q')" and "(seen \<or> contents q' = []) \<and> \<not> at_rest pc' \<longrightarrow> seen'"
  shows "good_step (owned pc) ch h t q seen' (effect_at pc q) pc' q'"
proof (cases "enqueuing pc")
  case True
  then show ?thesis using enqueue_step_ok[OF assms(1,2,3) _ True] assms(4) by (simp add: pc_step_def)
next
  case False
  then show ?thesis using dequeue_step_ok[of ch h t q seen pc pc' q' seen'] assms by (auto simp: pc_step_def)
qed

lemma thread_step:
  assumes ok: "sys_ok seen s" and st: "pc_step (s_pc s i) (s_q s) = (pc', q')"
    and sn: "\<And>j. (seen j \<or> contents q' = []) \<and> \<not> at_rest (((s_pc s)(i := pc')) j) \<longrightarrow> seen' j"
  shows "sys_ok seen' \<lparr>s_q = q', s_pc = (s_pc s)(i := pc')\<rparr>"
    and "takes (effect_at (s_pc s i) (s_q s)) @ contents q' = contents (s_q s) @ puts (effect_at (s_pc s i) (s_q s))"
proof -
  obtain ch h t where c: "chain_ok ch h t (s_q s)" and each: "\<And>j. pc_ok ch h t (s_q s) (seen j) (s_pc s j)"
    and un: "\<And>j. unlinked ch (s_q s) (owned (s_pc s j))"
    and own: "\<And>j k. j \<noteq> k \<Longrightarrow> owned (s_pc s j) = owned (s_pc s k) \<Longrightarrow> owned (s_pc s j) = None"
    using ok by (auto simp: sys_ok_def)
  have g: "good_step (owned (s_pc s i)) ch h t (s_q s) (seen' i) (effect_at (s_pc s i) (s_q s)) pc' q'"
    using pc_step_ok[OF c each[of i] un[of i] st] sn[of i] by simp
  then show "takes (effect_at (s_pc s i) (s_q s)) @ contents q' = contents (s_q s) @ puts (effect_at (s_pc s i) (s_q s))"
    by (simp add: good_step_def)
  obtain ch' h' t' where gr: "grows (owned (s_pc s i)) ch h t (s_q s) ch' h' t' q'" and c': "chain_ok ch' h' t' q'"
    and p': "pc_ok ch' h' t' q' (seen' i) pc'" and u': "unlinked ch' q' (owned pc')"
    and o': "owned pc' = None \<or> owned pc' = owned (s_pc s i) \<and> ch' = ch \<or> owned pc' = Some (length (q_mem (s_q s))) \<and> ch' = ch"
    using g by (auto simp: good_step_def)
  have others: "pc_ok ch' h' t' q' (seen' j) (s_pc s j) \<and> unlinked ch' q' (owned (s_pc s j))
      \<and> (owned (s_pc s j) = owned pc' \<longrightarrow> owned pc' = None)" if "j \<noteq> i" for j
  proof (intro conjI)
    show "pc_ok ch' h' t' q' (seen' j) (s_pc s j)"
    proof (cases "at_rest (s_pc s j)")
      case False
      then show ?thesis using pc_ok_mono[OF gr c each[of j], of "seen' j"] sn[of j] that by simp
    qed (simp add: pc_ok_rest)
    show "unlinked ch' q' (owned (s_pc s j))" using unlinked_mono[OF gr un[of j]] own[of i j] that by auto
    have "owned (s_pc s j) \<noteq> Some (length (q_mem (s_q s)))" using un[of j] by (auto simp: unlinked_def)
    then show "owned (s_pc s j) = owned pc' \<longrightarrow> owned pc' = None" using o' own[of i j] that by auto
  qed
  have "\<forall>j k. j \<noteq> k \<and> owned (((s_pc s)(i := pc')) j) = owned (((s_pc s)(i := pc')) k) \<longrightarrow> owned (((s_pc s)(i := pc')) j) = None"
    using others own by (auto simp: fun_upd_def)
  then show "sys_ok seen' \<lparr>s_q = q', s_pc = (s_pc s)(i := pc')\<rparr>"
    unfolding sys_ok_def using c' p' u' others by (intro exI[of _ ch'] exI[of _ h'] exI[of _ t']) auto
qed

lemma call_ok:
  assumes "sys_ok seen s" and "at_rest (s_pc s i)" and "pc = Enqueue v \<or> pc = Dequeue"
    and "\<And>j. j \<noteq> i \<Longrightarrow> seen j \<and> \<not> at_rest (s_pc s j) \<longrightarrow> seen' j"
  shows "sys_ok seen' (s\<lparr>s_pc := (s_pc s)(i := pc)\<rparr>)"
proof -
  obtain ch h t where c: "chain_ok ch h t (s_q s)" and each: "\<And>j. pc_ok ch h t (s_q s) (seen j) (s_pc s j)"
    and un: "\<And>j. unlinked ch (s_q s) (owned (s_pc s j))"
    and own: "\<And>j k. j \<noteq> k \<Longrightarrow> owned (s_pc s j) = owned (s_pc s k) \<Longrightarrow> owned (s_pc s j) = None"
    using assms(1) by (auto simp: sys_ok_def)
  have "pc_ok ch h t (s_q s) (seen' j) (s_pc s j)" if "j \<noteq> i" for j
    using pc_ok_mono[OF grows_refl c each[of j]] assms(4)[OF that] pc_ok_rest[of "s_pc s j"] by blast
  moreover have "pc_ok ch h t (s_q s) (seen' i) pc \<and> owned pc = None"
    using assms(3) by (auto simp: Enqueue_def Dequeue_def owned_def)
  ultimately show ?thesis
    unfolding sys_ok_def using c un own
    by (intro exI[of _ ch] exI[of _ h] exI[of _ t]) (auto simp: unlinked_def)
qed

lemma exec_ok:
  assumes "sys_ok seen s"
    and "\<And>j. (seen j \<or> contents (s_q (exec e s)) = []) \<and> \<not> at_rest (s_pc (exec e s) j) \<longrightarrow> seen' j"
  shows "sys_ok seen' (exec e s)"
    and "takes (effect_of e s) @ contents (s_q (exec e s)) = contents (s_q s) @ puts (effect_of e s)"
proof -
  have same: "sys_ok seen' s" if "exec e s = s"
  proof -
    have "pc_ok ch h t q (seen j) (s_pc s j) \<Longrightarrow> chain_ok ch h t q \<Longrightarrow> pc_ok ch h t q (seen' j) (s_pc s j)" for ch h t q j
      using pc_ok_mono[OF grows_refl] pc_ok_rest[of "s_pc s j"] assms(2)[of j] that by metis
    then show ?thesis using assms(1) unfolding sys_ok_def by blast
  qed
  show "sys_ok seen' (exec e s)"
  proof (cases e)
    case (CallEnq i v)
    then show ?thesis using same call_ok[OF assms(1), of i "Enqueue v" v seen'] assms(2) by (cases "at_rest (s_pc s i)") auto
  next
    case (CallDeq i)
    then show ?thesis using same call_ok[OF assms(1), of i Dequeue undefined seen'] assms(2) by (cases "at_rest (s_pc s i)") auto
  next
    case (Step i)
    then show ?thesis using thread_step(1)[OF assms(1), of i _ _ seen'] assms(2) by (auto split: prod.splits)
  qed
  show "takes (effect_of e s) @ contents (s_q (exec e s)) = contents (s_q s) @ puts (effect_of e s)"
  proof (cases e)
    case (Step i)
    then show ?thesis using thread_step(2)[OF assms(1), of i] by (auto split: prod.splits)
  qed auto
qed

lemma init_ok: "sys_ok seen init"
  unfolding sys_ok_def init_def
  by (intro exI[of _ "[0]"] exI[of _ 0]) (auto simp: chain_ok_def NewLKQueue_def unlinked_def owned_def)

interpretation lkq: fifo_history "sys_ok (\<lambda>_. True)" exec effect_of "\<lambda>s. contents (s_q s)"
proof unfold_locales
  fix s :: "'v sys" and e
  assume ok: "sys_ok (\<lambda>_. True) s"
  show "sys_ok (\<lambda>_. True) (exec e s)" by (rule exec_ok(1)[OF ok]) simp
  show "takes (effect_of e s) @ contents (s_q (exec e s)) = contents (s_q s) @ puts (effect_of e s)"
    by (rule exec_ok(2)[OF ok, of e "\<lambda>_. True"]) simp
qed


text \<open>C26. However any number of goroutines interleave, the queue is first-in first-out and loses and
  duplicates nothing: the values taken so far, in the order the takes took effect, followed by what the
  queue holds, are exactly the values put in, in the order the puts took effect; and no goroutine ever
  dereferences a nil node.\<close>

theorem lkqueue_fifo:
  fixes es :: "'v event list"
  shows "takes (effects effect_of exec es init) @ contents (s_q (run es)) = puts (effects effect_of exec es init)
    \<and> s_pc (run es) i \<noteq> Crashed"
proof -
  have c: "contents (s_q (init :: 'v sys)) = []" by (simp add: init_def NewLKQueue_def contents_def)
  have "sys_ok (\<lambda>_. True) (run es)" unfolding run_def by (rule lkq.ok_run[OF init_ok])
  then have "s_pc (run es) i \<noteq> Crashed" unfolding sys_ok_def by (metis pc_ok.simps(11))
  then show ?thesis using lkq.history[OF init_ok, of es] c by (simp add: run_def)
qed


section \<open>An empty answer\<close>

text \<open>\<open>empty_during i es\<close>: since its current call began there was a moment with nothing in the queue.\<close>

definition empty_during :: "nat \<Rightarrow> 'v event list \<Rightarrow> bool" where
  "empty_during i es \<longleftrightarrow> (\<exists>es1 es2. es = es1 @ es2 \<and> contents (s_q (run es1)) = [] \<and>
     (\<forall>ps. prefix ps es2 \<longrightarrow> \<not> at_rest (s_pc (run (es1 @ ps)) i)))"

lemma run_snoc: "run (es @ [e]) = exec e (run es)"
  by (simp add: run_def)

lemma empty_during_snoc:
  assumes "empty_during i es \<or> contents (s_q (run (es @ [e]))) = []" and "\<not> at_rest (s_pc (run (es @ [e])) i)"
  shows "empty_during i (es @ [e])"
  using assms(1)
proof
  assume "empty_during i es"
  then obtain es1 es2 where "es = es1 @ es2" "contents (s_q (run es1)) = []"
    "\<forall>ps. prefix ps es2 \<longrightarrow> \<not> at_rest (s_pc (run (es1 @ ps)) i)" by (auto simp: empty_during_def)
  then show ?thesis unfolding empty_during_def using assms(2)
    by (intro exI[of _ es1] exI[of _ "es2 @ [e]"]) (auto simp: prefix_snoc)
next
  assume "contents (s_q (run (es @ [e]))) = []"
  then show ?thesis unfolding empty_during_def using assms(2)
    by (intro exI[of _ "es @ [e]"] exI[of _ "[]"]) auto
qed

lemma run_ok: "sys_ok (\<lambda>i. empty_during i es) (run es)"
proof (induction es rule: rev_induct)
  case Nil
  show ?case by (simp add: run_def init_ok)
next
  case (snoc e es)
  show ?case unfolding run_snoc
    by (rule exec_ok(1)[OF snoc.IH]) (use empty_during_snoc[of _ es e] in \<open>auto simp: run_snoc\<close>)
qed

text \<open>\<open>Dequeue\<close> says that the queue is empty only when it was: if the next step of a goroutine
  returns without having taken a node, then at some moment between the call and that step the queue
  held nothing.\<close>

theorem lkqueue_empty:
  assumes "s_pc (run es) i = DeqCheck head tail nx" and "s_pc (run (es @ [Step i])) i = Returned v"
  shows "v = None \<and> empty_during i es"
proof -
  have s: "dequeue_step (DeqCheck head tail nx) (s_q (run es)) = (Returned v, s_q (run (es @ [Step i])))"
    using assms by (auto simp: run_snoc pc_step_def enqueuing_def simp del: dequeue_step.simps split: prod.splits)
  then have hd: "head = q_head (s_q (run es))" "head = tail" "nx = None" "v = None"
    by (auto split: if_splits option.splits)
  obtain ch h t where "chain_ok ch h t (s_q (run es))" "pc_ok ch h t (s_q (run es)) (empty_during i es) (DeqCheck head tail nx)"
    using run_ok[of es] assms(1) unfolding sys_ok_def by metis
  then show ?thesis using hd by (auto simp: chain_ok_def adjacent_def nth_eq_iff_index_eq)
qed

text \<open>An instance.\<close>

theorem lkqueue_empty_witness:
  "empty_during 0 [CallDeq 0, Step 0, Step 0, Step 0 :: nat event]"
proof -
  have "s_pc (run [CallDeq 0, Step 0, Step 0, Step 0 :: nat event]) 0 = DeqCheck (Some 0) (Some 0) None"
    by (simp add: run_def init_def NewLKQueue_def at_rest_def Dequeue_def pc_step_def enqueuing_def)
  moreover have "s_pc (run ([CallDeq 0, Step 0, Step 0, Step 0 :: nat event] @ [Step 0])) 0 = Returned None"
    by (simp add: run_def init_def NewLKQueue_def at_rest_def Dequeue_def pc_step_def enqueuing_def)
  ultimately show ?thesis using lkqueue_empty by blast
qed


section \<open>A goroutine that runs alone returns\<close>

definition pc_inv :: "'v pc \<Rightarrow> 'v lkqueue \<Rightarrow> bool" where
  "pc_inv pc q \<longleftrightarrow> (\<exists>ch h t. chain_ok ch h t q \<and> pc_ok ch h t q True pc \<and> unlinked ch q (owned pc))"

definition returns_within :: "nat \<Rightarrow> 'v pc \<Rightarrow> 'v lkqueue \<Rightarrow> bool" where
  "returns_within k pc q \<longleftrightarrow> (\<exists>j\<le>k. at_rest (fst (((\<lambda>(pc, q). pc_step pc q) ^^ j) (pc, q))))"

lemma pc_inv_step: "pc_inv pc q \<Longrightarrow> pc_step pc q = (pc', q') \<Longrightarrow> pc_inv pc' q'"
  using pc_step_ok[of _ _ _ q True pc pc' q' True] unfolding pc_inv_def good_step_def by blast

lemma returns_rest: "at_rest pc \<Longrightarrow> returns_within k pc q"
  unfolding returns_within_def by (intro exI[of _ 0]) auto

lemma returns_step: "pc_step pc q = (pc', q') \<Longrightarrow> returns_within k pc' q' \<Longrightarrow> returns_within (Suc k) pc q"
  unfolding returns_within_def by (metis (no_types, lifting) Suc_le_mono case_prod_conv funpow_simps_right(2) o_apply)

lemma returns_mono: "returns_within k pc q \<Longrightarrow> k \<le> l \<Longrightarrow> returns_within l pc q"
  unfolding returns_within_def using order_trans by blast

lemmas steps = pc_step_def enqueuing_def at_rest_def cas_def

text \<open>With the tail on the last node an enqueue needs five steps.\<close>

lemma enqueue_returns_5:
  assumes "chain_ok ch h t q" and "Suc t = length ch"
  shows "returns_within 5 (EnqTail n) q"
proof -
  have "q_tail q = Some (ch ! t)" "nd_next (q_mem q ! (ch ! t)) = None" using assms by (auto simp: chain_ok_def)
  then have "returns_within (Suc (Suc (Suc (Suc (Suc 0))))) (EnqTail n) q"
    by (intro returns_step[OF prod.collapse[symmetric]] returns_rest) (simp add: steps)
  then show ?thesis by (simp add: numeral_eq_Suc)
qed

lemma enqueue_returns_9:
  assumes "pc_inv (EnqTail n) q"
  shows "returns_within 9 (EnqTail n) q"
proof -
  obtain ch h t where c: "chain_ok ch h t q" using assms by (auto simp: pc_inv_def)
  show ?thesis
  proof (cases "Suc t = length ch")
    case True
    show ?thesis by (rule returns_mono[OF enqueue_returns_5[OF c True]]) simp
  next
    case False
    then have t: "Suc (Suc t) = length ch" "q_tail q = Some (ch ! t)" using c by (auto simp: chain_ok_def)
    then have nx: "nd_next (q_mem q ! (ch ! t)) = Some (ch ! Suc t)" using c by (simp add: chain_ok_def)
    have "chain_ok ch h (Suc t) (q\<lparr>q_tail := Some (ch ! Suc t)\<rparr>)" using c t by (auto simp: chain_ok_def)
    then have "returns_within 5 (EnqTail n) (q\<lparr>q_tail := Some (ch ! Suc t)\<rparr>)" using enqueue_returns_5 t(1) by blast
    then have "returns_within (Suc (Suc (Suc (Suc 5)))) (EnqTail n) q"
      using t nx by (intro returns_step[OF prod.collapse[symmetric]]) (simp add: steps)
    then show ?thesis by simp
  qed
qed


text \<open>A dequeue on a head before the tail needs five steps, on the tail four or another round.\<close>

lemma dequeue_returns_5:
  assumes "chain_ok ch h t q" and "h < t"
  shows "returns_within 5 DeqHead q"
proof -
  have "q_head q = Some (ch ! h)" "q_tail q = Some (ch ! t)" "nd_next (q_mem q ! (ch ! h)) = Some (ch ! Suc h)" "ch ! h \<noteq> ch ! t"
    using assms by (auto simp: chain_ok_def nth_eq_iff_index_eq)
  then have "returns_within (Suc (Suc (Suc (Suc (Suc 0))))) DeqHead q"
    by (intro returns_step[OF prod.collapse[symmetric]] returns_rest) (simp add: steps)
  then show ?thesis by (simp add: numeral_eq_Suc)
qed

lemma dequeue_returns_10:
  assumes "pc_inv DeqHead q"
  shows "returns_within 10 DeqHead q"
proof -
  obtain ch h t where c: "chain_ok ch h t q" using assms by (auto simp: pc_inv_def)
  consider "h < t" | "h = t" "Suc t = length ch" | "h = t" "Suc (Suc t) = length ch" using c by (fastforce simp: chain_ok_def)
  then show ?thesis
  proof cases
    case 1
    show ?thesis by (rule returns_mono[OF dequeue_returns_5[OF c 1]]) simp
  next
    case 2
    then have "q_head q = Some (ch ! t)" "q_tail q = Some (ch ! t)" "nd_next (q_mem q ! (ch ! t)) = None"
      using c by (auto simp: chain_ok_def)
    then have "returns_within (Suc (Suc (Suc (Suc 6)))) DeqHead q"
      by (intro returns_step[OF prod.collapse[symmetric]] returns_rest) (simp add: steps)
    then show ?thesis by simp
  next
    case 3
    then have t: "q_head q = Some (ch ! t)" "q_tail q = Some (ch ! t)" "nd_next (q_mem q ! (ch ! t)) = Some (ch ! Suc t)"
      using c by (auto simp: chain_ok_def)
    have "chain_ok ch h (Suc t) (q\<lparr>q_tail := Some (ch ! Suc t)\<rparr>)" using c 3 by (auto simp: chain_ok_def)
    then have "returns_within 5 DeqHead (q\<lparr>q_tail := Some (ch ! Suc t)\<rparr>)" using dequeue_returns_5 3 by blast
    then have "returns_within (Suc (Suc (Suc (Suc (Suc 5))))) DeqHead q"
      using t by (intro returns_step[OF prod.collapse[symmetric]]) (simp add: steps)
    then show ?thesis by simp
  qed
qed

text \<open>Every other point of a call is a few steps away from one of these loops or from the return.\<close>

lemma EnqHelp_returns:
  assumes "pc_inv (EnqHelp n tail nx) q"
  shows "returns_within 10 (EnqHelp n tail nx) q"
proof -
  have s: "pc_step (EnqHelp n tail nx) q = (EnqTail n, snd (cas Tail tail nx q))" by (simp add: pc_step_def enqueuing_def)
  show ?thesis using returns_step[OF s enqueue_returns_9[OF pc_inv_step[OF assms s]]] by simp
qed

lemma EnqSwing_returns: "returns_within (Suc k) (EnqSwing n tail) q"
  using returns_step[of "EnqSwing n tail" q "Returned None" "snd (cas Tail tail (Some n) q)" k]
  by (simp add: pc_step_def enqueuing_def returns_rest at_rest_def)

lemma EnqLink_returns:
  assumes "pc_inv (EnqLink n tail nx) q"
  shows "returns_within 10 (EnqLink n tail nx) q"
proof -
  obtain pc' q' where s: "pc_step (EnqLink n tail nx) q = (pc', q')" by fastforce
  have "tail \<noteq> None" using assms by (auto simp: pc_inv_def)
  then have "pc' = EnqTail n \<or> pc' = EnqSwing n tail" using s by (auto simp: steps split: if_splits)
  then have "returns_within 9 pc' q'"
    using enqueue_returns_9 pc_inv_step[OF assms s] EnqSwing_returns[of 8 n tail q'] by auto
  then show ?thesis using returns_step[OF s, of 9] by simp
qed

lemma EnqCheck_returns:
  assumes "pc_inv (EnqCheck n tail nx) q"
  shows "returns_within 11 (EnqCheck n tail nx) q"
proof -
  obtain pc' q' where s: "pc_step (EnqCheck n tail nx) q = (pc', q')" by fastforce
  then have "pc' = EnqTail n \<or> pc' = EnqLink n tail nx \<or> pc' = EnqHelp n tail nx" by (auto simp: steps split: if_splits)
  moreover have "returns_within 10 (EnqTail n) q'" if "pc' = EnqTail n"
    by (rule returns_mono[OF enqueue_returns_9]) (use that pc_inv_step[OF assms s] in auto)
  ultimately have "returns_within 10 pc' q'" using pc_inv_step[OF assms s] EnqHelp_returns EnqLink_returns by blast
  then show ?thesis using returns_step[OF s, of 10] by simp
qed

lemma EnqNext_returns:
  assumes "pc_inv (EnqNext n tail) q"
  shows "returns_within 12 (EnqNext n tail) q"
proof -
  obtain a where "tail = Some a" using assms by (auto simp: pc_inv_def)
  then have s: "pc_step (EnqNext n tail) q = (EnqCheck n tail (load (Next a) q), q)" by (simp add: steps)
  show ?thesis using returns_step[OF s EnqCheck_returns[OF pc_inv_step[OF assms s]]] by simp
qed

lemma DeqHelp_returns:
  assumes "pc_inv (DeqHelp tail nx) q"
  shows "returns_within 11 (DeqHelp tail nx) q"
proof -
  have s: "pc_step (DeqHelp tail nx) q = (DeqHead, snd (cas Tail tail nx q))" by (simp add: pc_step_def enqueuing_def)
  show ?thesis using returns_step[OF s dequeue_returns_10[OF pc_inv_step[OF assms s]]] by simp
qed

lemma DeqTake_returns:
  assumes "pc_inv (DeqTake head nx v) q"
  shows "returns_within 11 (DeqTake head nx v) q"
proof -
  obtain pc' q' where s: "pc_step (DeqTake head nx v) q = (pc', q')" by fastforce
  then have "pc' = DeqHead \<or> at_rest pc'" by (auto simp: steps split: if_splits)
  then have "returns_within 10 pc' q'" using pc_inv_step[OF assms s] dequeue_returns_10 returns_rest by auto
  then show ?thesis using returns_step[OF s, of 10] by simp
qed

lemma DeqCheck_returns:
  assumes "pc_inv (DeqCheck head tail nx) q"
  shows "returns_within 12 (DeqCheck head tail nx) q"
proof -
  obtain pc' q' where s: "pc_step (DeqCheck head tail nx) q = (pc', q')" by fastforce
  have i: "pc_inv pc' q'" by (rule pc_inv_step[OF assms s])
  then have "pc' \<noteq> Crashed" by (auto simp: pc_inv_def)
  then consider "at_rest pc'" | "pc' = DeqHead" | "pc' = DeqHelp tail nx" | v where "pc' = DeqTake head nx v"
    using s by (auto simp: steps split: if_splits option.splits)
  then have "returns_within 11 pc' q'"
    by cases (use i dequeue_returns_10 DeqHelp_returns DeqTake_returns returns_rest returns_mono[of 10 pc' q' 11] in auto)
  then show ?thesis using returns_step[OF s, of 11] by simp
qed

lemma DeqNext_returns:
  assumes "pc_inv (DeqNext head tail) q"
  shows "returns_within 13 (DeqNext head tail) q"
proof -
  obtain a where "head = Some a" using assms by (auto simp: pc_inv_def)
  then have s: "pc_step (DeqNext head tail) q = (DeqCheck head tail (load (Next a) q), q)" by (simp add: steps)
  show ?thesis using returns_step[OF s DeqCheck_returns[OF pc_inv_step[OF assms s]]] by simp
qed

lemma DeqTail_returns:
  assumes "pc_inv (DeqTail head) q"
  shows "returns_within 14 (DeqTail head) q"
proof -
  have s: "pc_step (DeqTail head) q = (DeqNext head (load Tail q), q)" by (simp add: steps)
  show ?thesis using returns_step[OF s DeqNext_returns[OF pc_inv_step[OF assms s]]] by simp
qed

lemma EnqNew_returns:
  assumes "pc_inv (EnqNew v) q"
  shows "returns_within 10 (EnqNew v) q"
proof -
  obtain q' where s: "pc_step (EnqNew v) q = (EnqTail (length (q_mem q)), q')" by (simp add: steps)
  show ?thesis using returns_step[OF s enqueue_returns_9[OF pc_inv_step[OF assms s]]] by simp
qed

lemmas call_points = EnqNew_returns[THEN returns_mono] enqueue_returns_9[THEN returns_mono]
  EnqNext_returns[THEN returns_mono] EnqCheck_returns[THEN returns_mono] EnqLink_returns[THEN returns_mono]
  EnqHelp_returns[THEN returns_mono] dequeue_returns_10[THEN returns_mono] DeqTail_returns[THEN returns_mono]
  DeqNext_returns[THEN returns_mono] DeqCheck_returns[THEN returns_mono] DeqHelp_returns[THEN returns_mono]
  DeqTake_returns[THEN returns_mono]

lemma returns_14:
  assumes "pc_inv pc q"
  shows "returns_within 14 pc q"
proof (cases pc)
  case Crashed
  then show ?thesis using assms by (simp add: pc_inv_def)
next
  case (EnqSwing n tail)
  then show ?thesis using EnqSwing_returns[of 13] by simp
qed (use assms in \<open>auto intro: call_points returns_rest simp: at_rest_def\<close>)

lemma solo_run:
  "(s_pc (run (es @ replicate k (Step i))) i, s_q (run (es @ replicate k (Step i)))) =
   ((\<lambda>(pc, q). pc_step pc q) ^^ k) (s_pc (run es) i, s_q (run es))"
proof (induction k)
  case (Suc k)
  have "run (es @ replicate (Suc k) (Step i)) = exec (Step i) (run (es @ replicate k (Step i)))"
    using run_snoc[of "es @ replicate k (Step i)" "Step i"] by (simp add: replicate_append_same)
  then show ?case using Suc.IH by (auto split: prod.splits)
qed simp

text \<open>C37. Whatever the other goroutines were doing when they stopped, a goroutine that runs alone
  returns from its call within fourteen steps: no stalled goroutine can block the queue.\<close>

theorem lkqueue_obstruction_free:
  "\<exists>k\<le>14. at_rest (s_pc (run (es @ replicate k (Step i))) i)"
proof -
  have "sys_ok (\<lambda>_. True) (run es)" unfolding run_def by (rule lkq.ok_run[OF init_ok])
  then have "pc_inv (s_pc (run es) i) (s_q (run es))" by (auto simp: sys_ok_def pc_inv_def)
  then have "returns_within 14 (s_pc (run es) i) (s_q (run es))" by (rule returns_14)
  then show ?thesis unfolding returns_within_def solo_run[symmetric] by simp
qed

end
