(* ===== verification/Periodic_Task.thy ===== *)
theory Periodic_Task
  imports Go_Prelude
begin

text \<open>
  \<open>task.Periodic\<close> of \<^verbatim>\<open>poet/common/task/periodic.go\<close>, on which the controller runs its two monitors.
  The critical sections under \<open>access\<close> are atomic; between them the goroutines (the caller of
  \<open>Start\<close> and one per timer that fired) interleave freely, and each run of \<open>Execute\<close> takes as long as
  it likes and returns nil or an error.
\<close>

section \<open>The task\<close>

record periodic =
  p_running :: bool
  p_timer :: "nat option"

text \<open>Where a goroutine inside \<open>checkedExecute\<close> is. \<open>Leaving\<close>: back in \<open>Start\<close> with the error.\<close>

datatype 'e phase = Checking | Executing | Failed 'e | Succeeded | Leaving

record 'e task_sys =
  t_task :: periodic
  t_gor :: "(nat, bool \<times> 'e phase) gomap"   \<comment> \<open>goroutines; \<open>True\<close> for the caller of \<open>Start\<close>\<close>
  t_armed :: "nat list"                        \<comment> \<open>timers that have not fired and were not stopped\<close>
  t_next :: nat

definition new_task :: "'e task_sys" where
  "new_task = \<lparr>t_task = \<lparr>p_running = False, p_timer = None\<rparr>, t_gor = [], t_armed = [], t_next = 0\<rparr>"

definition hasClosed :: "periodic \<Rightarrow> bool" where
  "hasClosed t \<longleftrightarrow> \<not> p_running t"

definition set_stopped :: "'e task_sys \<Rightarrow> 'e task_sys" where
  "set_stopped s = s\<lparr>t_task := (t_task s)\<lparr>p_running := False\<rparr>\<rparr>"

definition Periodic_Start :: "'e task_sys \<Rightarrow> 'e task_sys" where
  "Periodic_Start s =
     (if p_running (t_task s) then s
      else s\<lparr>t_task := (t_task s)\<lparr>p_running := True\<rparr>,
             t_gor := gm_set (t_next s) (True, Checking) (t_gor s), t_next := Suc (t_next s)\<rparr>)"

definition Periodic_Close :: "'e task_sys \<Rightarrow> 'e task_sys" where
  "Periodic_Close s =
     (set_stopped s)\<lparr>t_task := (t_task (set_stopped s))\<lparr>p_timer := None\<rparr>,
                    t_armed := (case p_timer (t_task s) of None \<Rightarrow> t_armed s | Some k \<Rightarrow> removeAll k (t_armed s))\<rparr>"

text \<open>A timer fires: its function runs \<open>checkedExecute\<close> in a goroutine of its own.\<close>

definition fire :: "nat \<Rightarrow> 'e task_sys \<Rightarrow> 'e task_sys" where
  "fire k s =
     (if k \<in> set (t_armed s)
      then s\<lparr>t_armed := removeAll k (t_armed s), t_gor := gm_set (t_next s) (False, Checking) (t_gor s), t_next := Suc (t_next s)\<rparr>
      else s)"

text \<open>One step of goroutine \<open>g\<close> in \<open>checkedExecute\<close> (and, for its caller, at the end of \<open>Start\<close>);
  \<open>r\<close> is what \<open>Execute\<close> returns if this step is its return.\<close>

definition checkedExecute :: "nat \<Rightarrow> 'e option \<Rightarrow> 'e task_sys \<Rightarrow> 'e task_sys" where
  "checkedExecute g r s =
     (case gm_get (t_gor s) g of
        None \<Rightarrow> s
      | Some (start, Checking) \<Rightarrow>
          if hasClosed (t_task s) then s\<lparr>t_gor := gm_del g (t_gor s)\<rparr>
          else s\<lparr>t_gor := gm_set g (start, Executing) (t_gor s)\<rparr>
      | Some (start, Executing) \<Rightarrow>
          s\<lparr>t_gor := gm_set g (start, case r of None \<Rightarrow> Succeeded | Some e \<Rightarrow> Failed e) (t_gor s)\<rparr>
      | Some (start, Failed e) \<Rightarrow>
          (set_stopped s)\<lparr>t_gor := if start then gm_set g (start, Leaving) (t_gor s) else gm_del g (t_gor s)\<rparr>
      | Some (start, Leaving) \<Rightarrow> (set_stopped s)\<lparr>t_gor := gm_del g (t_gor s)\<rparr>
      | Some (start, Succeeded) \<Rightarrow>
          if hasClosed (t_task s) then s\<lparr>t_gor := gm_del g (t_gor s)\<rparr>
          else s\<lparr>t_task := (t_task s)\<lparr>p_timer := Some (t_next s)\<rparr>, t_gor := gm_del g (t_gor s),
                 t_armed := t_next s # t_armed s, t_next := Suc (t_next s)\<rparr>)"

datatype 'e task_event = Start | Close | Fire nat | Go nat "'e option"

fun task_exec :: "'e task_event \<Rightarrow> 'e task_sys \<Rightarrow> 'e task_sys" where
  "task_exec Start s = Periodic_Start s"
| "task_exec Close s = Periodic_Close s"
| "task_exec (Fire k) s = fire k s"
| "task_exec (Go g r) s = checkedExecute g r s"

definition task_run :: "'e task_event list \<Rightarrow> 'e task_sys" where
  "task_run es = fold task_exec es new_task"

text \<open>The goroutines that are inside \<open>Execute\<close>, and the runs of \<open>Execute\<close> that events begin.\<close>

definition executing :: "'e task_sys \<Rightarrow> nat list" where
  "executing s = map fst (filter (\<lambda>(_, _, ph). ph = Executing) (t_gor s))"

definition begins :: "'e task_event \<Rightarrow> 'e task_sys \<Rightarrow> bool" where
  "begins e s = (case e of
     Go g _ \<Rightarrow> (case gm_get (t_gor s) g of Some (_, Checking) \<Rightarrow> \<not> hasClosed (t_task s) | _ \<Rightarrow> False)
   | _ \<Rightarrow> False)"

fun executions :: "'e task_event list \<Rightarrow> 'e task_sys \<Rightarrow> nat" where
  "executions [] s = 0"
| "executions (e # es) s = (if begins e s then 1 else 0) + executions es (task_exec e s)"

definition starts :: "'e task_event list \<Rightarrow> nat" where
  "starts es = length (filter (\<lambda>e. case e of Start \<Rightarrow> True | _ \<Rightarrow> False) es)"


section \<open>One chain of executions\<close>

text \<open>Nothing, one goroutine or one armed timer.\<close>

definition quiet :: "'e task_sys \<Rightarrow> bool" where
  "quiet s \<longleftrightarrow> t_gor s = [] \<and> t_armed s = []"

definition single :: "'e task_sys \<Rightarrow> bool" where
  "single s \<longleftrightarrow> quiet s \<or> (\<exists>g p. t_gor s = [(g, p)] \<and> t_armed s = []) \<or> (\<exists>k. t_gor s = [] \<and> t_armed s = [k])"

definition alive :: "'e task_sys \<Rightarrow> bool" where
  "alive s \<longleftrightarrow> p_running (t_task s) \<and>
     ((\<exists>g st ph. t_gor s = [(g, st, ph)] \<and> ph \<in> {Checking, Executing, Succeeded} \<and> t_armed s = []) \<or>
      (\<exists>k. t_gor s = [] \<and> t_armed s = [k]))"

text \<open>No execution can begin any more.\<close>

definition ended :: "'e task_sys \<Rightarrow> bool" where
  "ended s \<longleftrightarrow> \<not> p_running (t_task s) \<or>
     (\<exists>g st ph. t_gor s = [(g, st, ph)] \<and> (\<exists>e. ph = Failed e) \<and> t_armed s = [])"

lemmas task_defs = task_exec.simps Periodic_Start_def Periodic_Close_def fire_def checkedExecute_def set_stopped_def
  hasClosed_def gm_set_def gm_del_def

lemma gor_cases:
  assumes "P None" and "\<And>st. P (Some (st, Checking))" and "\<And>st. P (Some (st, Executing))"
    and "\<And>st e. P (Some (st, Failed e))" and "\<And>st. P (Some (st, Succeeded))" and "\<And>st. P (Some (st, Leaving))"
  shows "P x"
proof (cases x)
  case (Some y)
  obtain st ph where "y = (st, ph)" by fastforce
  then show ?thesis using assms Some by (cases ph) auto
qed (simp add: assms)

lemma quiet_step: "quiet s \<Longrightarrow> e \<noteq> Start \<Longrightarrow> quiet (task_exec e s)"
  by (cases e) (auto simp: quiet_def task_defs split: option.splits)

lemma single_step:
  assumes "single s" and "e \<noteq> Start"
  shows "single (task_exec e s)"
proof -
  consider "quiet s" | g st ph where "t_gor s = [(g, st, ph)]" "t_armed s = []" | k where "t_gor s = []" "t_armed s = [k]"
    using assms(1) by (auto simp: single_def)
  then show ?thesis
  proof cases
    case 1
    then show ?thesis using quiet_step[OF 1 assms(2)] by (simp add: single_def)
  next
    case 2
    then show ?thesis using assms(2)
      by (cases e; cases ph) (auto simp: single_def quiet_def task_defs split: option.splits)
  next
    case 3
    then show ?thesis using assms(2) by (cases e) (auto simp: single_def quiet_def task_defs split: option.splits)
  qed
qed

lemma alive_step:
  assumes "alive s" and "e \<noteq> Start" and "e \<noteq> Close" and "\<And>g x. e \<noteq> Go g (Some x)"
  shows "alive (task_exec e s)"
proof -
  consider g st ph where "t_gor s = [(g, st, ph)]" "ph \<in> {Checking, Executing, Succeeded}" "t_armed s = []" "p_running (t_task s)"
    | k where "t_gor s = []" "t_armed s = [k]" "p_running (t_task s)"
    using assms(1) by (auto simp: alive_def)
  then show ?thesis
  proof cases
    case 1
    then show ?thesis using assms(2-4)
      by (cases e) (auto simp: alive_def task_defs split: option.splits)
  next
    case 2
    then show ?thesis using assms(2-4) by (cases e) (auto simp: alive_def task_defs)
  qed
qed

lemma ended_step:
  assumes "ended s" and "e \<noteq> Start"
  shows "ended (task_exec e s) \<and> \<not> begins e s"
proof (cases "p_running (t_task s)")
  case True
  then obtain g st err where "t_gor s = [(g, st, Failed err)]" "t_armed s = []" using assms(1) by (auto simp: ended_def)
  then show ?thesis using assms(2) by (cases e) (auto simp: ended_def task_defs begins_def split: option.splits)
next
  case False
  then have "\<not> p_running (t_task (task_exec e s))"
  proof (cases e)
    case (Go g r)
    show ?thesis using False unfolding Go task_exec.simps checkedExecute_def
      by (rule_tac x = "gm_get (t_gor s) g" in gor_cases) (auto simp: set_stopped_def hasClosed_def)
  qed (use assms(2) in \<open>auto simp: task_defs\<close>)
  then show ?thesis using False
    by (cases e) (auto simp: ended_def begins_def hasClosed_def split: option.splits phase.splits)
qed

lemma ended_no_executions: "ended s \<Longrightarrow> Start \<notin> set es \<Longrightarrow> executions es s = 0"
proof (induction es arbitrary: s)
  case (Cons e es)
  then show ?case using ended_step[of s e] by auto
qed simp

lemma starts_snoc: "starts (es @ [e]) = starts es + (if e = Start then 1 else 0)"
  by (cases e) (auto simp: starts_def)

lemma task_run_snoc: "task_run (es @ [e]) = task_exec e (task_run es)"
  by (simp add: task_run_def)

lemma quiet_before_start: "starts es = 0 \<Longrightarrow> quiet (task_run es)"
proof (induction es rule: rev_induct)
  case Nil
  show ?case by (simp add: task_run_def new_task_def quiet_def)
next
  case (snoc e es)
  then show ?case by (simp add: starts_snoc task_run_snoc quiet_step split: if_splits)
qed

lemma single_run: "starts es \<le> 1 \<Longrightarrow> single (task_run es)"
proof (induction es rule: rev_induct)
  case Nil
  show ?case by (simp add: task_run_def new_task_def quiet_def single_def)
next
  case (snoc e es)
  show ?case
  proof (cases "e = Start")
    case True
    then have "quiet (task_run es)" using snoc.prems quiet_before_start by (simp add: starts_snoc)
    then show ?thesis using True by (auto simp: task_run_snoc single_def quiet_def task_defs)
  next
    case False
    then show ?thesis using snoc by (simp add: starts_snoc task_run_snoc single_step)
  qed
qed

lemma alive_run:
  assumes "Close \<notin> set es" and "\<And>g e. Go g (Some e) \<notin> set es" and "Start \<notin> set es" and "alive s"
  shows "alive (fold task_exec es s)"
  using assms
proof (induction es arbitrary: s)
  case (Cons e es)
  have "alive (task_exec e s)" using Cons.prems by (intro alive_step) auto
  then show ?case using Cons by auto
qed simp

text \<open>C36. A task that is started once never runs \<open>Execute\<close> twice at a time: whatever the timers, the
  closes and the goroutines do, there is at most one goroutine or armed timer. And it never stops by
  itself: until it is closed or an execution fails, there is exactly one.\<close>

theorem periodic_single_chain:
  assumes "starts es \<le> 1"
  shows "length (executing (task_run es)) \<le> 1
    \<and> length (t_gor (task_run es)) + length (t_armed (task_run es)) \<le> 1
    \<and> (es = Start # es' \<and> Close \<notin> set es' \<and> (\<forall>g e. Go g (Some e) \<notin> set es') \<longrightarrow>
        p_running (t_task (task_run es)) \<and> length (t_gor (task_run es)) + length (t_armed (task_run es)) = 1)"
proof (intro conjI impI)
  have s: "single (task_run es)" by (rule single_run[OF assms])
  then show len: "length (t_gor (task_run es)) + length (t_armed (task_run es)) \<le> 1" by (auto simp: single_def quiet_def)
  have "length (executing (task_run es)) \<le> length (t_gor (task_run es))" by (simp add: executing_def)
  then show "length (executing (task_run es)) \<le> 1" using len by simp
  assume c: "es = Start # es' \<and> Close \<notin> set es' \<and> (\<forall>g e. Go g (Some e) \<notin> set es')"
  then have "Start \<notin> set es'" using assms by (force simp: starts_def filter_empty_conv)
  moreover have "alive (task_exec Start new_task)" by (auto simp: alive_def task_defs new_task_def)
  ultimately have a: "alive (task_run es)" using c alive_run by (auto simp: task_run_def)
  then show "p_running (t_task (task_run es))" by (simp add: alive_def)
  show "length (t_gor (task_run es)) + length (t_armed (task_run es)) = 1" using a by (auto simp: alive_def)
qed

text \<open>Witness of C36.\<close>

theorem periodic_single_chain_witness:
  "length (t_gor (task_run [Start, Go 0 None, Go 0 None, Go 0 None, Fire 1 :: nat task_event])) = 1"
  using periodic_single_chain[of "[Start, Go 0 None, Go 0 None, Go 0 None, Fire 1 :: nat task_event]"
    "[Go 0 None, Go 0 None, Go 0 None, Fire 1]"]
  by (simp add: starts_def) (simp add: task_run_def new_task_def task_defs)

lemma failed_execution_ends:
  assumes "starts es \<le> 1" and "g \<in> set (executing (task_run es))"
  shows "ended (task_run (es @ [Go g (Some e)]))"
proof -
  obtain st where "t_gor (task_run es) = [(g, st, Executing)]" "t_armed (task_run es) = []"
    using single_run[of es] assms by (auto simp: single_def quiet_def executing_def split: if_splits)
  then show ?thesis by (simp add: task_run_snoc task_defs ended_def)
qed

text \<open>Closing a task, or an error of \<open>Execute\<close> in a task that was started once, is final: until
  \<open>Start\<close> is called again no further execution begins, whatever goroutines and timers are left.\<close>

theorem periodic_stops:
  assumes "Start \<notin> set es'"
  shows "executions es' (task_run (es @ [Close])) = 0
    \<and> (starts es \<le> 1 \<and> g \<in> set (executing (task_run es)) \<longrightarrow> executions es' (task_run (es @ [Go g (Some e)])) = 0)"
proof (intro conjI impI)
  show "executions es' (task_run (es @ [Close])) = 0"
    by (rule ended_no_executions[OF _ assms]) (simp add: task_run_snoc ended_def task_defs)
  assume "starts es \<le> 1 \<and> g \<in> set (executing (task_run es))"
  then have "ended (task_run (es @ [Go g (Some e)]))" by (simp add: failed_execution_ends)
  then show "executions es' (task_run (es @ [Go g (Some e)])) = 0" by (rule ended_no_executions[OF _ assms])
qed

text \<open>An instance.\<close>

theorem periodic_stops_witness:
  "executions [Go 0 None, Go 0 None] (task_run ([Start, Go 0 None] @ [Go 0 (Some ''port'')])) = 0"
  using periodic_stops[of "[Go 0 None, Go 0 None]" "[Start, Go 0 None]" 0 "''port''"]
  by (simp add: starts_def executing_def task_run_def new_task_def task_defs)

text \<open>A task that is closed and started again while an execution is in flight runs twice at a time
  from then on: the old goroutine finds the task running and arms a timer of its own, so there are two
  chains, and \<open>Close\<close> stops only the timer that was armed last.\<close>

theorem periodic_restart_overlaps:
  "executing (task_run [Start, Go 0 None, Close, Start, Go 1 None :: 'e task_event]) = [0, 1]
   \<and> t_armed (task_run [Start, Go 0 None, Close, Start, Go 1 None, Go 0 None, Go 0 None, Go 1 None, Go 1 None :: 'e task_event]) = [3, 2]
   \<and> t_armed (task_run [Start, Go 0 None, Close, Start, Go 1 None, Go 0 None, Go 0 None, Go 1 None, Go 1 None, Close :: 'e task_event]) = [2]"
  by (simp add: executing_def task_run_def new_task_def task_defs)

end
