(* ===== verification/Panel_Runtime.thy ===== *)
theory Panel_Runtime
  imports Controller_Monitor Periodic_Task
begin

text \<open>
  The panel service: the registry of \<^verbatim>\<open>poet/shortcuts\<close>, the panel of \<^verbatim>\<open>poet/panel\<close>, \<open>Start\<close> and \<open>Stop\<close> of
  \<^verbatim>\<open>poet/poet.go\<close>, and what \<^verbatim>\<open>cmd/sing-box/cmd_run.go\<close> does with the panel configuration before the box
  is built. Controllers live in a heap, \<open>r_ctls\<close>, and the maps of the registry hold their addresses.
  The API client constructor, \<open>mergo.Merge\<close> and the configuration reader (viper) are parameters.
  \<open>log.Panic\<close> panics (\<^verbatim>\<open>log/observable.go\<close>), so what follows it is not reached.
\<close>

section \<open>Configuration\<close>

record nodes_config =
  nc_PanelType :: string
  nc_InTag :: string
  nc_OutTag :: string
  nc_ApiConfig :: "api_config option"
  nc_ControllerConfig :: "ctl_config option"

record panel_config =
  pc_Name :: string
  pc_NodesConfig :: "nodes_config option list"   \<comment> \<open>pointers, as decoded\<close>

definition getDefaultControllerConfig :: ctl_config where
  "getDefaultControllerConfig = \<lparr>cc_PanelType = [], cc_UpdatePeriodic = 60, cc_ListenIP = ''0.0.0.0'',
     cc_SendIP = ''0.0.0.0'', cc_EnableDeviceLimit = False\<rparr>"


section \<open>The registry\<close>

record panel =
  pl_panelConfig :: panel_config
  pl_Running :: bool
  pl_Nodes :: "nat list"

record ('w, 'i, 'l) registry =
  r_globalMap :: "(string, string) gomap"
  r_Inbounds :: "(string, 'i) gomap"
  r_InContrls :: "(string, nat) gomap"
  r_OutContrls :: "(string, nat) gomap"
  r_ctls :: "('w, 'i, 'l) controller list"
  r_tasks :: "(nat \<times> string \<times> api_error task_sys) list"   \<comment> \<open>the periodic tasks of controller \<open>a\<close>\<close>
  r_activePanel :: "panel option"

definition Singleton :: "('w, 'i, 'l) registry" where
  "Singleton = \<lparr>r_globalMap = [], r_Inbounds = [], r_InContrls = [], r_OutContrls = [], r_ctls = [], r_tasks = [],
     r_activePanel = None\<rparr>"

definition GetObject :: "string \<Rightarrow> ('w, 'i, 'l) registry \<Rightarrow> string option" where
  "GetObject k r = gm_get (r_globalMap r) k"

definition SetObject :: "string \<Rightarrow> string \<Rightarrow> ('w, 'i, 'l) registry \<Rightarrow> ('w, 'i, 'l) registry" where
  "SetObject k v r = r\<lparr>r_globalMap := gm_set k v (r_globalMap r)\<rparr>"

definition SetInboud :: "'i \<Rightarrow> string \<Rightarrow> ('w, 'i, 'l) registry \<Rightarrow> ('w, 'i, 'l) registry" where
  "SetInboud i tag r = r\<lparr>r_Inbounds := gm_set tag i (r_Inbounds r)\<rparr>"

definition GetInoud :: "string \<Rightarrow> ('w, 'i, 'l) registry \<Rightarrow> 'i option" where
  "GetInoud tag r = gm_get (r_Inbounds r) tag"

definition SetContrl :: "nat \<Rightarrow> string \<Rightarrow> string \<Rightarrow> ('w, 'i, 'l) registry \<Rightarrow> ('w, 'i, 'l) registry" where
  "SetContrl ct inTag outTag r =
     r\<lparr>r_InContrls := gm_set inTag ct (r_InContrls r), r_OutContrls := gm_set outTag ct (r_OutContrls r)\<rparr>"

definition GetContrlWithInTag :: "string \<Rightarrow> ('w, 'i, 'l) registry \<Rightarrow> nat option" where
  "GetContrlWithInTag inTag r = gm_get (r_InContrls r) inTag"

definition GetContrlWithOutTag :: "string \<Rightarrow> ('w, 'i, 'l) registry \<Rightarrow> nat option" where
  "GetContrlWithOutTag outTag r = gm_get (r_OutContrls r) outTag"


section \<open>The panel\<close>

definition NewPanel :: "panel_config \<Rightarrow> panel" where
  "NewPanel panelConfig = \<lparr>pl_panelConfig = panelConfig, pl_Running = False, pl_Nodes = []\<rparr>"

definition node_config :: "(ctl_config \<Rightarrow> ctl_config \<Rightarrow> ctl_config option) \<Rightarrow> nodes_config \<Rightarrow> ctl_config option" where
  "node_config merge nc =
     (let controllerConfig = getDefaultControllerConfig\<lparr>cc_PanelType := nc_PanelType nc\<rparr>
      in case nc_ControllerConfig nc of None \<Rightarrow> Some controllerConfig | Some k \<Rightarrow> merge controllerConfig k)"

text \<open>The body of the loop over the nodes; \<open>now\<close> is the clock that \<open>controller.New\<close> reads. A nil node
  or API configuration is dereferenced by the first log line.\<close>

definition register_node :: "(api_config \<Rightarrow> 'w) \<Rightarrow> (ctl_config \<Rightarrow> ctl_config \<Rightarrow> ctl_config option) \<Rightarrow> int \<Rightarrow> nodes_config option \<Rightarrow>
    panel \<times> ('w, 'i, 'l) registry \<Rightarrow> (api_error, panel \<times> ('w, 'i, 'l) registry) res" where
  "register_node newClient merge now nodeConfig = (\<lambda>(p, r).
     (case nodeConfig of
        None \<Rightarrow> Panic
      | Some nc \<Rightarrow>
     (case nc_ApiConfig nc of
        None \<Rightarrow> Panic
      | Some apiConfig \<Rightarrow>
     (case gm_get (r_Inbounds r) (nc_InTag nc) of
        None \<Rightarrow> Ok (p, r)
      | Some inbound \<Rightarrow>
          if nc_PanelType nc \<noteq> ''SSpanel'' then Panic
          else (case node_config merge nc of
                  None \<Rightarrow> Panic
                | Some controllerConfig \<Rightarrow>
                    (let a = length (r_ctls r);
                         service = NewController controllerConfig inbound (newClient apiConfig) now
                     in Ok (p\<lparr>pl_Nodes := pl_Nodes p @ [a]\<rparr>,
                            SetContrl a (nc_InTag nc) (nc_OutTag nc) (r\<lparr>r_ctls := r_ctls r @ [service]\<rparr>))))))))"

fun register_nodes :: "(api_config \<Rightarrow> 'w) \<Rightarrow> (ctl_config \<Rightarrow> ctl_config \<Rightarrow> ctl_config option) \<Rightarrow> int \<Rightarrow> nodes_config option list \<Rightarrow>
    panel \<times> ('w, 'i, 'l) registry \<Rightarrow> (api_error, panel \<times> ('w, 'i, 'l) registry) res" where
  "register_nodes newClient merge now [] pr = Ok pr"
| "register_nodes newClient merge now (nc # ncs) pr =
     res_bind (register_node newClient merge now nc pr) (register_nodes newClient merge now ncs)"

text \<open>\<open>node.Start()\<close>: the controller's start; its periodic tasks are then started in goroutines of
  their own, so they are idle when it returns.\<close>

definition start_node :: "('w, 'i, 'l) deps \<Rightarrow> nat \<Rightarrow> ('w, 'i, 'l) registry \<Rightarrow> (api_error, ('w, 'i, 'l) registry) res" where
  "start_node d a r =
     (case StartController d (r_ctls r ! a) of
        (Ok _, c) \<Rightarrow> Ok (r\<lparr>r_ctls := (r_ctls r)[a := c],
                          r_tasks := r_tasks r @ map (\<lambda>tag. (a, tag, new_task)) (c_tasks c)\<rparr>)
      | _ \<Rightarrow> Panic)"

fun start_nodes :: "('w, 'i, 'l) deps \<Rightarrow> nat list \<Rightarrow> ('w, 'i, 'l) registry \<Rightarrow> (api_error, ('w, 'i, 'l) registry) res" where
  "start_nodes d [] r = Ok r"
| "start_nodes d (a # as) r = res_bind (start_node d a r) (start_nodes d as)"

definition Panel_Start :: "('w, 'i, 'l) deps \<Rightarrow> (api_config \<Rightarrow> 'w) \<Rightarrow> (ctl_config \<Rightarrow> ctl_config \<Rightarrow> ctl_config option) \<Rightarrow> int \<Rightarrow>
    panel \<Rightarrow> ('w, 'i, 'l) registry \<Rightarrow> (api_error, panel \<times> ('w, 'i, 'l) registry) res" where
  "Panel_Start d newClient merge now p r =
     res_bind (register_nodes newClient merge now (pc_NodesConfig (pl_panelConfig p)) (p, r))
       (\<lambda>(p1, r1).
          if length (pl_Nodes p1) = length (pl_Nodes p) then Panic
          else res_bind (start_nodes d (pl_Nodes p1) r1) (\<lambda>r2. Ok (p1\<lparr>pl_Running := True\<rparr>, r2)))"

text \<open>\<open>Controller.Close\<close> closes each periodic task of the controller; that never fails.\<close>

definition Controller_Close :: "nat \<Rightarrow> ('w, 'i, 'l) registry \<Rightarrow> ('w, 'i, 'l) registry" where
  "Controller_Close a r =
     r\<lparr>r_tasks := map (\<lambda>(b, tag, t). (b, tag, if b = a then Periodic_Close t else t)) (r_tasks r)\<rparr>"

definition Panel_Close :: "panel \<Rightarrow> ('w, 'i, 'l) registry \<Rightarrow> panel \<times> ('w, 'i, 'l) registry" where
  "Panel_Close p r = (p\<lparr>pl_Running := False\<rparr>, fold Controller_Close (pl_Nodes p) r)"


section \<open>Start and Stop of the service\<close>

text \<open>\<open>loadPanelConfig\<close> reads and decodes the file; a missing configuration path exits the process.\<close>

definition Poet_Start :: "('w, 'i, 'l) deps \<Rightarrow> (api_config \<Rightarrow> 'w) \<Rightarrow> (ctl_config \<Rightarrow> ctl_config \<Rightarrow> ctl_config option) \<Rightarrow>
    (string \<Rightarrow> (api_error, panel_config) res) \<Rightarrow> int \<Rightarrow> ('w, 'i, 'l) registry \<Rightarrow> (api_error, ('w, 'i, 'l) registry) res" where
  "Poet_Start d newClient merge loadPanelConfig now r =
     (case GetObject ''poetConfigPath'' r of
        None \<Rightarrow> Panic
      | Some path \<Rightarrow>
          res_bind (loadPanelConfig path) (\<lambda>panelConfig.
          res_bind (Panel_Start d newClient merge now (NewPanel panelConfig) r) (\<lambda>(p, r1).
            Ok (let r2 = (case r_activePanel r1 of
                            Some old \<Rightarrow> if pl_Running old then snd (Panel_Close old r1) else r1
                          | None \<Rightarrow> r1)
                in r2\<lparr>r_activePanel := Some p\<rparr>))))"

definition Poet_Stop :: "('w, 'i, 'l) registry \<Rightarrow> ('w, 'i, 'l) registry" where
  "Poet_Stop r =
     (case r_activePanel r of
        None \<Rightarrow> r
      | Some p \<Rightarrow> (snd (Panel_Close p r))\<lparr>r_activePanel := None\<rparr>)"


section \<open>What the run command does with the panel configuration\<close>

text \<open>The certificate settings of an inbound that has TLS options.\<close>

record cert_options =
  co_Enabled :: bool
  co_Insecure :: bool
  co_Certificate :: "string list"
  co_CertificatePath :: string
  co_Key :: "string list"
  co_KeyPath :: string
  co_CertificateProvider :: bool   \<comment> \<open>set\<close>
  co_ACME :: bool                  \<comment> \<open>set\<close>
  co_Reality :: "bool option"      \<comment> \<open>its \<open>Enabled\<close> when set\<close>

record inbound_entry =
  ie_Type :: string
  ie_Tag :: string
  ie_TLS :: "cert_options option"   \<comment> \<open>\<open>None\<close>: no TLS options, or nil\<close>

definition wanted_tags :: "panel_config \<Rightarrow> string list" where
  "wanted_tags panelConfig = [nc_InTag nc. Some nc \<leftarrow> pc_NodesConfig panelConfig, nc_InTag nc \<noteq> []]"

definition filterInboundsByPanel :: "(string \<Rightarrow> (api_error, panel_config) res) \<Rightarrow> string \<Rightarrow> inbound_entry list \<Rightarrow> inbound_entry list" where
  "filterInboundsByPanel loadPanelConfig poetConfigPath inbounds =
     (if poetConfigPath = [] then inbounds
      else case loadPanelConfig poetConfigPath of
             Ok panelConfig \<Rightarrow>
               (let wanted = wanted_tags panelConfig
                in if wanted = [] then inbounds else filter (\<lambda>i. ie_Tag i \<in> set wanted) inbounds)
           | _ \<Rightarrow> inbounds)"

definition certificateUnset :: "cert_options \<Rightarrow> bool" where
  "certificateUnset t =
     (if co_CertificatePath t \<noteq> [] \<or> co_KeyPath t \<noteq> [] then False
      else if co_Certificate t \<noteq> [] \<or> co_Key t \<noteq> [] then False
      else if co_CertificateProvider t \<or> co_ACME t then False
      else if co_Reality t = Some True then False
      else \<not> co_Insecure t)"

definition defaultCertificateNames :: "string list" where
  "defaultCertificateNames = [''default.pem'', ''default.crt'']"

definition defaultKeyName :: string where
  "defaultKeyName = ''default.key''"

text \<open>\<open>filepath.Join\<close> of a cleaned absolute directory and a file name.\<close>

definition join_path :: "string \<Rightarrow> string \<Rightarrow> string" where
  "join_path dir name = (if dir = ''/'' then dir @ name else dir @ ''/'' @ name)"

text \<open>\<open>certDirectory\<close> is what \<open>filepath.Abs\<close> returned for \<open>certs\<close> beside the panel configuration;
  \<open>isFile\<close> is \<open>os.Stat\<close> succeeding on something that is not a directory.\<close>

definition default_certificate :: "(string \<Rightarrow> bool) \<Rightarrow> string \<Rightarrow> cert_options \<Rightarrow> cert_options" where
  "default_certificate isFile certDirectory t =
     (if \<not> co_Enabled t \<or> \<not> certificateUnset t then t
      else t\<lparr>co_CertificatePath :=
               (case List.find isFile (map (join_path certDirectory) defaultCertificateNames) of
                  Some candidate \<Rightarrow> candidate
                | None \<Rightarrow> join_path certDirectory (hd defaultCertificateNames)),
             co_KeyPath := join_path certDirectory defaultKeyName\<rparr>)"

definition applyDefaultCertificatePaths :: "(string \<Rightarrow> bool) \<Rightarrow> string option \<Rightarrow> string \<Rightarrow> inbound_entry list \<Rightarrow> inbound_entry list" where
  "applyDefaultCertificatePaths isFile certDirectory poetConfigPath inbounds =
     (if poetConfigPath = [] then inbounds
      else case certDirectory of
             None \<Rightarrow> inbounds
           | Some dir \<Rightarrow> map (\<lambda>i. i\<lparr>ie_TLS := map_option (default_certificate isFile dir) (ie_TLS i)\<rparr>) inbounds)"

definition prepare_inbounds where
  "prepare_inbounds loadPanelConfig isFile certDirectory poetConfigPath inbounds =
     applyDefaultCertificatePaths isFile certDirectory poetConfigPath
       (filterInboundsByPanel loadPanelConfig poetConfigPath inbounds)"


section \<open>A started panel\<close>

lemma res_bind_Ok: "res_bind m f = Ok y \<longleftrightarrow> (\<exists>x. m = Ok x \<and> f x = Ok y)"
  by (cases m) (auto simp: res_bind_def)

lemma StartController_Ok:
  assumes "StartController d c = (Ok x, c')"
  shows "\<exists>ni. c_nodeInfo c' = Some ni \<and> ni_Port ni \<noteq> 0" and "c_config c' = c_config c"
    and "c_tasks c' = c_tasks c @ [''node monitor'', ''user monitor'']"
proof -
  define c1 where "c1 = c\<lparr>c_clientInfo := Describe (d_api d) (c_api c)\<rparr>"
  obtain ni w where g: "GetNodeInfo (d_api d) (c_api c1) = (Ok ni, w)" and port: "ni_Port ni \<noteq> 0"
    using assms by (auto simp: StartController_def c1_def Let_def split: prod.splits res.splits if_splits)
  define c2 where "c2 = c1\<lparr>c_api := w, c_nodeInfo := Some ni, c_Tag := buildNodeTag ni (c_config c1)\<rparr>"
  obtain e c3 where e: "configure_inbound d c2 = (e, c3)" by (metis surj_pair)
  obtain s c4 where s: "syncUserList d c3 = (s, c4)" by (metis surj_pair)
  have c': "c' = c4\<lparr>c_tasks := c_tasks c4 @ [''node monitor'', ''user monitor'']\<rparr>"
    using assms port unfolding StartController_def Let_def c1_def[symmetric] g prod.case res.case c2_def[symmetric] e
    by (auto simp: s split: option.splits res.splits)
  have c3: "c_nodeInfo c3 = Some ni" "c_config c3 = c_config c" "c_tasks c3 = c_tasks c"
    using e by (auto simp: configure_inbound_def c2_def c1_def split: option.splits prod.splits)
  note f = syncUserList_frame[of d c3, unfolded s snd_conv]
  show "\<exists>ni. c_nodeInfo c' = Some ni \<and> ni_Port ni \<noteq> 0" "c_config c' = c_config c"
    "c_tasks c' = c_tasks c @ [''node monitor'', ''user monitor'']"
    using c' c3 f port by auto
qed

text \<open>What registering nodes adds: one new controller per node with a known inbound.\<close>

lemma register_node_cases:
  assumes "register_node newClient merge now nodeConfig (p, r) = Ok (p1, r1)"
  obtains nc where "nodeConfig = Some nc" "gm_get (r_Inbounds r) (nc_InTag nc) = None" "p1 = p" "r1 = r"
  | nc api inbound k where "nodeConfig = Some nc" "gm_get (r_Inbounds r) (nc_InTag nc) = Some inbound"
      "node_config merge nc = Some k" "p1 = p\<lparr>pl_Nodes := pl_Nodes p @ [length (r_ctls r)]\<rparr>"
      "r1 = SetContrl (length (r_ctls r)) (nc_InTag nc) (nc_OutTag nc)
              (r\<lparr>r_ctls := r_ctls r @ [NewController k inbound (newClient api) now]\<rparr>)"
proof -
  obtain nc where nc: "nodeConfig = Some nc" using assms by (cases nodeConfig) (simp_all add: register_node_def)
  obtain api where api: "nc_ApiConfig nc = Some api" using assms nc by (cases "nc_ApiConfig nc") (simp_all add: register_node_def)
  show ?thesis
  proof (cases "gm_get (r_Inbounds r) (nc_InTag nc)")
    case None
    have "p1 = p" "r1 = r" using assms unfolding register_node_def nc by (simp_all add: api None)
    then show ?thesis by (rule that(1)[OF nc None])
  next
    case (Some inbound)
    then obtain k where k: "node_config merge nc = Some k"
      using assms nc api by (cases "node_config merge nc") (simp_all add: register_node_def split: if_splits)
    moreover have "nc_PanelType nc = ''SSpanel''" using assms unfolding register_node_def nc by (auto simp: api Some split: if_splits)
    ultimately have "p1 = p\<lparr>pl_Nodes := pl_Nodes p @ [length (r_ctls r)]\<rparr>"
      "r1 = SetContrl (length (r_ctls r)) (nc_InTag nc) (nc_OutTag nc)
              (r\<lparr>r_ctls := r_ctls r @ [NewController k inbound (newClient api) now]\<rparr>)"
      using assms unfolding register_node_def nc by (simp_all add: api Some Let_def)
    then show ?thesis by (rule that(2)[OF nc Some k])
  qed
qed

definition in_tags :: "nodes_config option list \<Rightarrow> string list" where
  "in_tags ncs = [nc_InTag nc. Some nc \<leftarrow> ncs]"

lemma in_tags_simps [simp]: "in_tags [] = []" "in_tags (Some nc # ncs) = nc_InTag nc # in_tags ncs" "in_tags (None # ncs) = in_tags ncs"
  by (simp_all add: in_tags_def)

lemma in_tags_member: "Some nc \<in> set ncs \<Longrightarrow> nc_InTag nc \<in> set (in_tags ncs)"
  by (induction ncs) (auto simp: in_tags_def)

lemma register_nodes_frame:
  assumes "register_nodes newClient merge now ncs (p, r) = Ok (p1, r1)"
  shows "r_Inbounds r1 = r_Inbounds r \<and> r_tasks r1 = r_tasks r
    \<and> (\<exists>new. r_ctls r1 = r_ctls r @ new) \<and> pl_Nodes p1 = pl_Nodes p @ [length (r_ctls r)..<length (r_ctls r1)]
    \<and> (tag \<notin> set (in_tags ncs) \<longrightarrow> gm_get (r_InContrls r1) tag = gm_get (r_InContrls r) tag)"
  using assms
proof (induction ncs arbitrary: p r)
  case (Cons x ncs)
  obtain p2 r2 where x: "register_node newClient merge now x (p, r) = Ok (p2, r2)"
    and xs: "register_nodes newClient merge now ncs (p2, r2) = Ok (p1, r1)"
    using Cons.prems by (auto simp: res_bind_Ok)
  note IH = Cons.IH[OF xs]
  obtain new where new: "r_ctls r1 = r_ctls r2 @ new" using IH by blast
  from x show ?case
  proof (cases rule: register_node_cases)
    case (1 nc)
    then show ?thesis using IH by auto
  next
    case (2 nc api inbound k)
    then have "length (r_ctls r) < length (r_ctls r1)" using new by (simp add: SetContrl_def)
    then have u: "[length (r_ctls r)..<length (r_ctls r1)] = length (r_ctls r) # [Suc (length (r_ctls r))..<length (r_ctls r1)]"
      by (rule upt_conv_Cons)
    have "length (r_ctls r2) = Suc (length (r_ctls r))" "\<exists>new. r_ctls r1 = r_ctls r @ new" using 2 new by (auto simp: SetContrl_def)
    then show ?thesis unfolding u using IH 2 by (simp add: SetContrl_def gm_get_set)
  qed
qed auto

lemma register_nodes_found:
  assumes "register_nodes newClient merge now ncs (p, r) = Ok (p1, r1)" and "Some nc \<in> set ncs" and "distinct (in_tags ncs)"
    and "gm_get (r_Inbounds r) (nc_InTag nc) \<noteq> None"
  shows "\<exists>a \<in> set (pl_Nodes p1). \<exists>k inbound api. gm_get (r_InContrls r1) (nc_InTag nc) = Some a \<and> node_config merge nc = Some k
    \<and> length (r_ctls r) \<le> a \<and> a < length (r_ctls r1) \<and> r_ctls r1 ! a = NewController k inbound (newClient api) now"
  using assms
proof (induction ncs arbitrary: p r)
  case (Cons x ncs)
  obtain p2 r2 where x: "register_node newClient merge now x (p, r) = Ok (p2, r2)"
    and xs: "register_nodes newClient merge now ncs (p2, r2) = Ok (p1, r1)"
    using Cons.prems by (auto simp: res_bind_Ok)
  note fr = register_nodes_frame[OF xs]
  obtain new where new: "r_ctls r1 = r_ctls r2 @ new" using fr by blast
  have r2: "r_Inbounds r2 = r_Inbounds r" "length (r_ctls r) \<le> length (r_ctls r2)"
    using x by (cases rule: register_node_cases; simp add: SetContrl_def)+
  show ?case
  proof (cases "x = Some nc")
    case False
    then have "Some nc \<in> set ncs" "distinct (in_tags ncs)" using Cons.prems by (cases x; auto)+
    then show ?thesis using Cons.IH[OF xs] Cons.prems(4) r2 by fastforce
  next
    case True
    from x show ?thesis
    proof (cases rule: register_node_cases)
      case (1 nc')
      then show ?thesis using True Cons.prems(4) by auto
    next
      case (2 nc' api inbound k)
      have "nc_InTag nc \<notin> set (in_tags ncs)" using Cons.prems(3) True by simp
      then have "gm_get (r_InContrls r1) (nc_InTag nc) = Some (length (r_ctls r))"
        using fr 2 True by (simp add: SetContrl_def gm_get_set)
      moreover have "r_ctls r1 ! length (r_ctls r) = NewController k inbound (newClient api) now" "length (r_ctls r) < length (r_ctls r1)"
        using 2 new by (auto simp: SetContrl_def nth_append)
      moreover have "length (r_ctls r) \<in> set (pl_Nodes p1)" using fr 2 new by (simp add: SetContrl_def)
      ultimately show ?thesis using 2 True by blast
    qed
  qed
qed simp

lemma start_nodes_Ok:
  assumes "start_nodes d as r = Ok r'" and "distinct as" and "\<forall>a\<in>set as. a < length (r_ctls r)"
  shows "r_InContrls r' = r_InContrls r \<and> set (r_tasks r) \<subseteq> set (r_tasks r')
    \<and> (\<forall>a. a \<notin> set as \<longrightarrow> r_ctls r' ! a = r_ctls r ! a)
    \<and> (\<forall>a\<in>set as. \<exists>x. StartController d (r_ctls r ! a) = (Ok x, r_ctls r' ! a)
          \<and> (\<forall>tag\<in>set (c_tasks (r_ctls r' ! a)). (a, tag, new_task) \<in> set (r_tasks r')))"
  using assms
proof (induction as arbitrary: r)
  case (Cons b as)
  obtain r1 where b: "start_node d b r = Ok r1" and as: "start_nodes d as r1 = Ok r'" using Cons.prems(1) by (auto simp: res_bind_Ok)
  obtain x c where x: "StartController d (r_ctls r ! b) = (Ok x, c)" and r1: "r1 = r\<lparr>r_ctls := (r_ctls r)[b := c],
      r_tasks := r_tasks r @ map (\<lambda>tag. (b, tag, new_task)) (c_tasks c)\<rparr>"
    using b by (auto simp: start_node_def split: prod.splits res.splits)
  have lt: "b < length (r_ctls r)" "\<forall>a\<in>set as. a < length (r_ctls r1)" "distinct as" "b \<notin> set as"
    using Cons.prems r1 by auto
  note IH = Cons.IH[OF as lt(3,2)]
  have c: "r_ctls r' ! b = c" using IH lt r1 by simp
  have "\<forall>tag\<in>set (c_tasks c). (b, tag, new_task) \<in> set (r_tasks r')" using IH r1 by auto
  moreover have other: "r_ctls r1 ! a = r_ctls r ! a" if "a \<noteq> b" for a using that r1 by simp
  have "\<forall>a\<in>set as. \<exists>x. StartController d (r_ctls r ! a) = (Ok x, r_ctls r' ! a)
          \<and> (\<forall>tag\<in>set (c_tasks (r_ctls r' ! a)). (a, tag, new_task) \<in> set (r_tasks r'))"
    using IH other lt(4) by metis
  moreover have "r_InContrls r' = r_InContrls r" "set (r_tasks r) \<subseteq> set (r_tasks r')" using IH r1 by auto
  moreover have "\<forall>a. a \<notin> set (b # as) \<longrightarrow> r_ctls r' ! a = r_ctls r ! a" using IH other by simp
  ultimately show ?case using x c by auto
qed simp

text \<open>When a panel starts, each of its nodes is running: with distinct inbound tags, every configured
  node whose inbound exists is found under its tag as a controller with that node's configuration, a
  consistent user list, node information with a port, and its two monitors; at least one such node
  exists.\<close>

theorem panel_started:
  assumes "Panel_Start d newClient merge now (NewPanel cfg) r = Ok (p, r')" and "distinct (in_tags (pc_NodesConfig cfg))"
  shows "pl_Running p \<and> pl_Nodes p \<noteq> [] \<and>
    (\<forall>nc. Some nc \<in> set (pc_NodesConfig cfg) \<and> GetInoud (nc_InTag nc) r \<noteq> None \<longrightarrow>
      (\<exists>a \<in> set (pl_Nodes p). GetContrlWithInTag (nc_InTag nc) r' = Some a
        \<and> Some (c_config (r_ctls r' ! a)) = node_config merge nc \<and> ctl_inv (r_ctls r' ! a)
        \<and> (\<exists>ni. c_nodeInfo (r_ctls r' ! a) = Some ni \<and> ni_Port ni \<noteq> 0)
        \<and> (\<forall>tag \<in> {''node monitor'', ''user monitor''}. (a, tag, new_task) \<in> set (r_tasks r'))))"
proof -
  obtain p1 r1 where reg: "register_nodes newClient merge now (pc_NodesConfig cfg) (NewPanel cfg, r) = Ok (p1, r1)"
    and st: "start_nodes d (pl_Nodes p1) r1 = Ok r'" and p: "p = p1\<lparr>pl_Running := True\<rparr>" and ne: "pl_Nodes p1 \<noteq> []"
    using assms(1) by (auto simp: Panel_Start_def NewPanel_def res_bind_Ok split: if_splits)
  have nodes: "pl_Nodes p1 = [length (r_ctls r)..<length (r_ctls r1)]"
    using register_nodes_frame[OF reg] by (simp add: NewPanel_def)
  note started = start_nodes_Ok[OF st]
  have each: "\<exists>a \<in> set (pl_Nodes p). GetContrlWithInTag (nc_InTag nc) r' = Some a
        \<and> Some (c_config (r_ctls r' ! a)) = node_config merge nc \<and> ctl_inv (r_ctls r' ! a)
        \<and> (\<exists>ni. c_nodeInfo (r_ctls r' ! a) = Some ni \<and> ni_Port ni \<noteq> 0)
        \<and> (\<forall>tag \<in> {''node monitor'', ''user monitor''}. (a, tag, new_task) \<in> set (r_tasks r'))"
    if nc: "Some nc \<in> set (pc_NodesConfig cfg)" "GetInoud (nc_InTag nc) r \<noteq> None" for nc
  proof -
    obtain a k inbound api where a: "a \<in> set (pl_Nodes p1)" "gm_get (r_InContrls r1) (nc_InTag nc) = Some a"
      "node_config merge nc = Some k" "r_ctls r1 ! a = NewController k inbound (newClient api) now"
      using register_nodes_found[OF reg nc(1) assms(2)] nc(2) by (auto simp: GetInoud_def)
    obtain x where s: "StartController d (NewController k inbound (newClient api) now) = (Ok x, r_ctls r' ! a)"
      and t: "\<forall>tag\<in>set (c_tasks (r_ctls r' ! a)). (a, tag, new_task) \<in> set (r_tasks r')"
      using start_nodes_Ok[OF st, THEN conjunct2, THEN conjunct2, THEN conjunct2, rule_format, OF _ _ a(1)] a(4) nodes by auto
    note ok = StartController_Ok[OF s]
    have "ctl_inv (r_ctls r' ! a)" using StartController_inv[OF ctl_inv_New, of d k inbound "newClient api" now] s by simp
    moreover have "c_config (r_ctls r' ! a) = k" "c_tasks (r_ctls r' ! a) = [''node monitor'', ''user monitor'']"
      using ok(2,3) by (simp_all add: NewController_def)
    moreover have "GetContrlWithInTag (nc_InTag nc) r' = Some a" using a(2) started nodes by (simp add: GetContrlWithInTag_def)
    ultimately show ?thesis using a(1,3) ok(1) t p by auto
  qed
  then show ?thesis using ne p by simp
qed

definition example_panel :: panel_config where
  "example_panel = \<lparr>pc_Name = ''p'', pc_NodesConfig =
     [Some \<lparr>nc_PanelType = ''SSpanel'', nc_InTag = ''in'', nc_OutTag = ''out'', nc_ApiConfig =
        Some \<lparr>ac_APIHost = [], ac_NodeID = 1, ac_Key = [], ac_InTag = [], ac_NodeType = [], ac_EnableVless = False,
              ac_VlessFlow = [], ac_Timeout = 0, ac_SpeedLimit = f64_of_int 0, ac_DeviceLimit = 0, ac_RuleListPath = [],
              ac_DisableCustomConfig = False\<rparr>, nc_ControllerConfig = None\<rparr>]\<rparr>"

definition example_start :: "(api_error, panel \<times> ((api_error, user_info list) res list, nat \<times> string list, int) registry) res" where
  "example_start = Panel_Start started_deps (\<lambda>_. [Ok [example_panel_user 1 ''A'']]) (\<lambda>k _. Some k) 0
     (NewPanel example_panel) (SetInboud (0, []) ''in'' Singleton)"

text \<open>An instance: one node on the inbound \<open>in\<close>.\<close>

theorem panel_started_witness:
  "\<exists>p r'. example_start = Ok (p, r') \<and> pl_Running p \<and> GetContrlWithInTag ''in'' r' \<noteq> None"
proof -
  have "case example_start of Ok _ \<Rightarrow> True | _ \<Rightarrow> False" by code_simp
  then obtain y where "example_start = Ok y" by (auto split: res.splits)
  then obtain p r' where s: "example_start = Ok (p, r')" by (cases y) simp
  have "distinct (in_tags (pc_NodesConfig example_panel))" by (simp add: example_panel_def)
  from panel_started[OF s[unfolded example_start_def] this] show ?thesis
    using s by (auto simp: example_panel_def GetInoud_def SetInboud_def Singleton_def gm_get_set)
qed


section \<open>A stopped service\<close>

lemma fold_Controller_Close:
  "r_tasks (fold Controller_Close as r) =
     map (\<lambda>(b, tag, t). (b, tag, fold (\<lambda>a t. if b = a then Periodic_Close t else t) as t)) (r_tasks r)"
  by (induction as arbitrary: r) (auto simp: Controller_Close_def comp_def case_prod_unfold)

lemma closed_ended: "ended (Periodic_Close t)"
  by (simp add: ended_def Periodic_Close_def set_stopped_def)

lemma fold_close_ended:
  assumes "b \<in> set as"
  shows "ended (fold (\<lambda>a t. if b = a then Periodic_Close t else t) as t)"
proof -
  have keep: "ended t \<Longrightarrow> ended (fold (\<lambda>a t. if b = a then Periodic_Close t else t) as t)" for t as
    by (induction as arbitrary: t) (auto simp: closed_ended)
  show ?thesis using assms by (induction as arbitrary: t) (auto simp: keep closed_ended)
qed

text \<open>After \<open>Stop\<close> no monitor of the panel runs again, whatever timers and goroutines are left. The
  exception is a monitor whose goroutine had not reached \<open>Periodic.Start\<close> yet when it was closed: it
  starts afterwards and runs as if nothing had happened.\<close>

theorem poet_stop_quiet:
  assumes "r_activePanel r = Some p" and "a \<in> set (pl_Nodes p)" and "(a, tag, t) \<in> set (r_tasks (Poet_Stop r))"
    and "Start \<notin> set es"
  shows "executions es t = 0 \<and> r_activePanel (Poet_Stop r) = None
    \<and> executions [Start, Go 0 None] (Periodic_Close (new_task :: api_error task_sys)) = 1"
proof -
  have "ended t" using assms(1-3) fold_close_ended[of a "pl_Nodes p"]
    by (auto simp: Poet_Stop_def Panel_Close_def fold_Controller_Close)
  then have "executions es t = 0" by (rule ended_no_executions[OF _ assms(4)])
  moreover have "executions [Start, Go 0 None] (Periodic_Close (new_task :: api_error task_sys)) = 1"
    by (simp add: begins_def new_task_def task_defs)
  ultimately show ?thesis using assms(1) by (simp add: Poet_Stop_def)
qed

definition stopping_registry :: "(unit, unit, unit) registry" where
  "stopping_registry = Singleton\<lparr>r_tasks := [(0, ''node monitor'', task_run [Start, Go 0 None, Go 0 None, Go 0 None])],
     r_activePanel := Some ((NewPanel example_panel)\<lparr>pl_Running := True, pl_Nodes := [0]\<rparr>)\<rparr>"

text \<open>An instance: a monitor waiting for its next tick.\<close>

theorem poet_stop_quiet_witness:
  "executions [Fire 1, Go 2 None] (Periodic_Close (task_run [Start, Go 0 None, Go 0 None, Go 0 None] :: api_error task_sys)) = 0"
proof -
  have t: "(0, ''node monitor'', Periodic_Close (task_run [Start, Go 0 None, Go 0 None, Go 0 None]))
      \<in> set (r_tasks (Poet_Stop stopping_registry))"
    by (simp add: Poet_Stop_def stopping_registry_def Panel_Close_def Controller_Close_def NewPanel_def Singleton_def)
  have p: "r_activePanel stopping_registry = Some ((NewPanel example_panel)\<lparr>pl_Running := True, pl_Nodes := [0]\<rparr>)"
    by (simp add: stopping_registry_def)
  show ?thesis using poet_stop_quiet[OF p _ t, of "[Fire 1, Go 2 None]"] by (simp add: NewPanel_def del: executions.simps)
qed


section \<open>Prepared inbounds\<close>

lemma default_certificate_idem: "default_certificate f dir (default_certificate f dir t) = default_certificate f dir t"
  by (auto simp: default_certificate_def certificateUnset_def join_path_def defaultKeyName_def split: option.splits)

lemma default_certificate_set: "\<not> (co_Enabled (default_certificate f dir t) \<and> certificateUnset (default_certificate f dir t))"
  by (auto simp: default_certificate_def certificateUnset_def join_path_def defaultKeyName_def split: option.splits)

lemma filter_panel_idem: "filterInboundsByPanel load path (filterInboundsByPanel load path ibs) = filterInboundsByPanel load path ibs"
  by (auto simp: filterInboundsByPanel_def Let_def split: res.splits)

lemma filter_panel_keeps:
  assumes "load path = Ok cfg" and "Some nc \<in> set (pc_NodesConfig cfg)" and "nc_InTag nc \<noteq> []"
  shows "filter (\<lambda>i. ie_Tag i = nc_InTag nc) (filterInboundsByPanel load path ibs) = filter (\<lambda>i. ie_Tag i = nc_InTag nc) ibs"
proof -
  have "nc_InTag nc \<in> set (wanted_tags cfg)"
    using assms(2,3) by (auto simp: wanted_tags_def)
  then show ?thesis using assms(1) by (auto simp: filterInboundsByPanel_def Let_def intro!: filter_cong)
qed

lemma filter_apply_commute:
  "filterInboundsByPanel load path (applyDefaultCertificatePaths f dir path ibs) =
   applyDefaultCertificatePaths f dir path (filterInboundsByPanel load path ibs)"
  by (auto simp: filterInboundsByPanel_def applyDefaultCertificatePaths_def Let_def filter_map comp_def split: res.splits option.splits)

lemma apply_idem: "applyDefaultCertificatePaths f dir path (applyDefaultCertificatePaths f dir path ibs) = applyDefaultCertificatePaths f dir path ibs"
  by (auto simp: applyDefaultCertificatePaths_def comp_def option.map_comp default_certificate_idem split: option.splits)

lemma apply_filter_tag:
  "filter (\<lambda>i. ie_Tag i = tag) (applyDefaultCertificatePaths f dir path ibs) =
   applyDefaultCertificatePaths f dir path (filter (\<lambda>i. ie_Tag i = tag) ibs)"
  by (auto simp: applyDefaultCertificatePaths_def filter_map comp_def split: option.splits)

text \<open>Preparing the inbounds for a panel drops no inbound that a node refers to and reorders none,
  leaves no enabled TLS inbound without a certificate source, and is idempotent, so a reload of the
  process prepares the same inbounds again.\<close>

theorem prepared_inbounds:
  assumes "load path = Ok cfg" and "path \<noteq> []" and "Some nc \<in> set (pc_NodesConfig cfg)" and "nc_InTag nc \<noteq> []"
  shows "let prepare = prepare_inbounds load isFile (Some dir) path in
    filter (\<lambda>i. ie_Tag i = nc_InTag nc) (prepare ibs) =
      applyDefaultCertificatePaths isFile (Some dir) path (filter (\<lambda>i. ie_Tag i = nc_InTag nc) ibs)
    \<and> (\<forall>i \<in> set (prepare ibs). \<forall>t. ie_TLS i = Some t \<and> co_Enabled t \<longrightarrow> \<not> certificateUnset t)
    \<and> prepare (prepare ibs) = prepare ibs"
  unfolding Let_def
proof (intro conjI)
  show "filter (\<lambda>i. ie_Tag i = nc_InTag nc) (prepare_inbounds load isFile (Some dir) path ibs) =
      applyDefaultCertificatePaths isFile (Some dir) path (filter (\<lambda>i. ie_Tag i = nc_InTag nc) ibs)"
    using filter_panel_keeps[of load path cfg nc] assms(1,3,4) by (simp add: prepare_inbounds_def apply_filter_tag)
  show "\<forall>i \<in> set (prepare_inbounds load isFile (Some dir) path ibs). \<forall>t. ie_TLS i = Some t \<and> co_Enabled t \<longrightarrow> \<not> certificateUnset t"
    using assms(2) default_certificate_set
    by (fastforce simp: prepare_inbounds_def applyDefaultCertificatePaths_def)
  show "prepare_inbounds load isFile (Some dir) path (prepare_inbounds load isFile (Some dir) path ibs) = prepare_inbounds load isFile (Some dir) path ibs"
    by (simp add: prepare_inbounds_def filter_apply_commute filter_panel_idem apply_idem)
qed

definition bare_tls :: cert_options where
  "bare_tls = \<lparr>co_Enabled = True, co_Insecure = False, co_Certificate = [], co_CertificatePath = [], co_Key = [],
     co_KeyPath = [], co_CertificateProvider = False, co_ACME = False, co_Reality = None\<rparr>"

text \<open>An instance: of two inbounds the referenced one stays and gets the default certificate.\<close>

theorem prepared_inbounds_witness:
  "filter (\<lambda>i. ie_Tag i = ''in'') (prepare_inbounds (\<lambda>_. Ok example_panel) (\<lambda>_. False) (Some ''/c'') ''p''
      [\<lparr>ie_Type = [], ie_Tag = ''in'', ie_TLS = Some bare_tls\<rparr>, \<lparr>ie_Type = [], ie_Tag = ''other'', ie_TLS = None\<rparr>]) =
   [\<lparr>ie_Type = [], ie_Tag = ''in'',
     ie_TLS = Some (bare_tls\<lparr>co_CertificatePath := ''/c/default.pem'', co_KeyPath := ''/c/default.key''\<rparr>)\<rparr>]"
proof -
  let ?ibs = "[\<lparr>ie_Type = [], ie_Tag = ''in'', ie_TLS = Some bare_tls\<rparr>, \<lparr>ie_Type = [], ie_Tag = ''other'', ie_TLS = None\<rparr>]"
  obtain nc where nc: "Some nc \<in> set (pc_NodesConfig example_panel)" "nc_InTag nc = ''in''" by (auto simp: example_panel_def)
  have "filter (\<lambda>i. ie_Tag i = nc_InTag nc) (prepare_inbounds (\<lambda>_. Ok example_panel) (\<lambda>_. False) (Some ''/c'') ''p'' ?ibs) =
      applyDefaultCertificatePaths (\<lambda>_. False) (Some ''/c'') ''p'' (filter (\<lambda>i. ie_Tag i = nc_InTag nc) ?ibs)"
    using prepared_inbounds[where load = "\<lambda>_. Ok example_panel" and path = "''p''" and ibs = ?ibs and isFile = "\<lambda>_. False"
        and dir = "''/c''", OF refl _ nc(1)] nc(2) by (simp add: Let_def)
  then show ?thesis
    by (simp add: nc(2) applyDefaultCertificatePaths_def default_certificate_def certificateUnset_def bare_tls_def
        join_path_def defaultCertificateNames_def defaultKeyName_def)
qed

end
