(* ===== verification/Traffic_Routing.thy ===== *)
theory Traffic_Routing
  imports Panel_Runtime
begin

text \<open>
  The accounting layer of \<^verbatim>\<open>poet/poet.go\<close> that the router puts around every routed connection:
  \<open>RoutedConnection\<close> and \<open>RoutedPacketConnection\<close>, the rate limited connections, the audit block and
  the debug counters. The byte counting wrappers of sing's \<open>bufio\<close> are the parameter \<open>ev_count\<close>: what
  they do to a counter when the wrapped call moved \<open>n\<close> bytes. The token bucket is a parameter as in the
  user account.
\<close>

section \<open>Routed connections\<close>

record metadata =
  md_Inbound :: string
  md_User :: string
  md_Source :: string
  md_IsFqdn :: bool       \<comment> \<open>\<open>Destination.IsFqdn()\<close>\<close>
  md_Fqdn :: string

record logging_conn =
  lc_perRead :: int64
  lc_perWrite :: int64
  lc_closed :: bool
  lc_lines :: nat          \<comment> \<open>log lines written at close\<close>

text \<open>What the router gets back: the connection as it was, one that only answers \<open>errAuditBlocked\<close>, or
  one that counts and limits for user \<open>a\<close> of controller \<open>ct\<close>.\<close>

datatype routed = Raw | Blocked | Limited nat nat "logging_conn option"

definition new_logging :: "bool \<Rightarrow> logging_conn option" where
  "new_logging trafficDebug =
     (if trafficDebug then Some \<lparr>lc_perRead = 0, lc_perWrite = 0, lc_closed = False, lc_lines = 0\<rparr> else None)"

definition upd_ctl :: "nat \<Rightarrow> ('w, 'i, 'l) controller \<Rightarrow> ('w, 'i, 'l) registry \<Rightarrow> ('w, 'i, 'l) registry" where
  "upd_ctl ct c r = r\<lparr>r_ctls := (r_ctls r)[ct := c]\<rparr>"

definition RoutedConnection :: "bool \<Rightarrow> int \<Rightarrow> metadata \<Rightarrow> ('w, 'i, 'l) registry \<Rightarrow> (api_error, routed) res \<times> ('w, 'i, 'l) registry" where
  "RoutedConnection trafficDebug now md r =
     (case GetContrlWithInTag (md_Inbound md) r of
        None \<Rightarrow> (Ok Raw, r)
      | Some ct \<Rightarrow>
          (case LoadOrCreateUserCounter (md_User md) (md_Source md) (r_ctls r ! ct) of
             (Panic, c) \<Rightarrow> (Panic, upd_ctl ct c r)
           | (Err _, c) \<Rightarrow> (Ok Raw, upd_ctl ct c r)
           | (Ok a, c) \<Rightarrow>
               if md_IsFqdn md then
                 (case MatchAudit now (u_UID (a_heap (c_author c) ! a)) (md_Fqdn md) c of
                    ((True, _), c') \<Rightarrow> (Ok Blocked, upd_ctl ct c' r)
                  | ((False, _), c') \<Rightarrow> (Ok (Limited ct a (new_logging trafficDebug)), upd_ctl ct c' r))
               else (Ok (Limited ct a (new_logging trafficDebug)), upd_ctl ct c r)))"

definition RoutedPacketConnection :: "metadata \<Rightarrow> ('w, 'i, 'l) registry \<Rightarrow> (api_error, routed) res \<times> ('w, 'i, 'l) registry" where
  "RoutedPacketConnection md r =
     (case GetContrlWithInTag (md_Inbound md) r of
        None \<Rightarrow> (Ok Raw, r)
      | Some ct \<Rightarrow>
          (case LoadOrCreateUserCounter (md_User md) (md_Source md) (r_ctls r ! ct) of
             (Panic, c) \<Rightarrow> (Panic, upd_ctl ct c r)
           | (Err _, c) \<Rightarrow> (Ok Raw, upd_ctl ct c r)
           | (Ok a, c) \<Rightarrow> (Ok (Limited ct a None), upd_ctl ct c r)))"


section \<open>Input and output\<close>

record ('l, 's, 'e) io_env =
  ev_rate :: "'l rate_api"
  ev_waitN :: "'l \<Rightarrow> int \<Rightarrow> 's \<Rightarrow> 'e option \<times> 's"
  ev_count :: "int \<Rightarrow> int64 \<Rightarrow> int64"

text \<open>The counting wrappers add what the call moved, as documented.\<close>

definition counts_bytes :: "(int \<Rightarrow> int64 \<Rightarrow> int64) \<Rightarrow> bool" where
  "counts_bytes count \<longleftrightarrow> (\<forall>n c. count n c = c + word_of_int n)"

definition wait_user :: "('l, 's, 'e) io_env \<Rightarrow> 'l user \<Rightarrow> int \<Rightarrow> 's \<Rightarrow> 's" where
  "wait_user env u n s = (if 0 < n then snd (WaitN (ev_rate env) (ev_waitN env) u n s) else s)"

text \<open>\<open>rateLimitedConn.Read\<close> (and \<open>ReadPacket\<close>) when the inner call returned \<open>n\<close> bytes: they are counted
  first, then the bucket is charged.\<close>

definition limited_read :: "('l, 's, 'e) io_env \<Rightarrow> nat \<Rightarrow> int \<Rightarrow> 'l auth \<times> 's \<Rightarrow> 'l auth \<times> 's" where
  "limited_read env a n = (\<lambda>(author, s).
     (let author' = upd_user a (\<lambda>u. u\<lparr>u_sent := ev_count env n (u_sent u)\<rparr>) author
      in (author', wait_user env (a_heap author' ! a) n s)))"

text \<open>\<open>rateLimitedConn.Write\<close> (and \<open>WritePacket\<close>) of \<open>len\<close> bytes when the inner call then wrote \<open>n\<close>.\<close>

definition limited_write :: "('l, 's, 'e) io_env \<Rightarrow> nat \<Rightarrow> int \<Rightarrow> int \<Rightarrow> 'l auth \<times> 's \<Rightarrow> 'l auth \<times> 's" where
  "limited_write env a len n = (\<lambda>(author, s).
     (let s' = wait_user env (a_heap author ! a) len s
      in (upd_user a (\<lambda>u. u\<lparr>u_recv := ev_count env n (u_recv u)\<rparr>) author, s')))"

definition logging_Close :: "logging_conn \<Rightarrow> logging_conn" where
  "logging_Close c = (if lc_closed c then c else c\<lparr>lc_closed := True, lc_lines := Suc (lc_lines c)\<rparr>)"

datatype io = Read int | Write int int | CloseConn

text \<open>One call on a routed connection. A blocked connection answers every call with its error.\<close>

fun io_step :: "('l, 's, 'e) io_env \<Rightarrow> io \<Rightarrow> routed \<times> 'l auth \<times> 's \<Rightarrow> routed \<times> 'l auth \<times> 's" where
  "io_step env (Read n) (Limited ct a lg, st) =
     (Limited ct a (map_option (\<lambda>c. c\<lparr>lc_perRead := ev_count env n (lc_perRead c)\<rparr>) lg), limited_read env a n st)"
| "io_step env (Write len n) (Limited ct a lg, st) =
     (Limited ct a (map_option (\<lambda>c. c\<lparr>lc_perWrite := ev_count env n (lc_perWrite c)\<rparr>) lg), limited_write env a len n st)"
| "io_step env CloseConn (Limited ct a lg, st) = (Limited ct a (map_option logging_Close lg), st)"
| "io_step env _ (conn, st) = (conn, st)"

definition io_run :: "('l, 's, 'e) io_env \<Rightarrow> io list \<Rightarrow> routed \<times> 'l auth \<times> 's \<Rightarrow> routed \<times> 'l auth \<times> 's" where
  "io_run env ios = fold (io_step env) ios"

fun read_bytes :: "io list \<Rightarrow> int" where
  "read_bytes [] = 0"
| "read_bytes (Read n # xs) = n + read_bytes xs"
| "read_bytes (_ # xs) = read_bytes xs"

fun written_bytes :: "io list \<Rightarrow> int" where
  "written_bytes [] = 0"
| "written_bytes (Write _ n # xs) = n + written_bytes xs"
| "written_bytes (_ # xs) = written_bytes xs"

text \<open>The waits that a connection asks of the bucket: what it read and what it was asked to write.\<close>

fun amounts :: "io list \<Rightarrow> int list" where
  "amounts [] = []"
| "amounts (Read n # xs) = n # amounts xs"
| "amounts (Write len _ # xs) = len # amounts xs"
| "amounts (CloseConn # xs) = amounts xs"


section \<open>Counted and limited\<close>

lemma wait_user_limiter: "u_limiter u = u_limiter v \<Longrightarrow> wait_user env u = wait_user env v"
  by (auto simp: wait_user_def WaitN_def fun_eq_iff)

lemma limited_read_eq:
  assumes "counts_bytes (ev_count env)" and "a < length (a_heap author)"
  shows "limited_read env a n (author, s) =
    (upd_user a (count_sent (word_of_int n)) author, wait_user env (a_heap author ! a) n s)"
proof -
  have "ev_count env n c = c + word_of_int n" for c using assms(1) by (simp add: counts_bytes_def)
  then have "upd_user a (\<lambda>u. u\<lparr>u_sent := ev_count env n (u_sent u)\<rparr>) author = upd_user a (count_sent (word_of_int n)) author"
    by (simp add: upd_user_def count_sent_def)
  then show ?thesis using assms(2) wait_user_limiter[of "count_sent (word_of_int n) (a_heap author ! a)" "a_heap author ! a" env]
    by (simp add: limited_read_def Let_def upd_user_nth count_sent_def)
qed

lemma limited_write_eq:
  assumes "counts_bytes (ev_count env)"
  shows "limited_write env a len n (author, s) =
    (upd_user a (count_recv (word_of_int n)) author, wait_user env (a_heap author ! a) len s)"
  using assms by (simp add: limited_write_def Let_def counts_bytes_def upd_user_def count_recv_def)

text \<open>C27. On a limited connection every byte read from the client is added to the user's upload counter
  and every byte written to it to the download counter, whatever the limiter does, and no other account
  is touched; and the user's bucket is charged once per call for exactly the bytes that were read or
  offered for writing, in order and shared by both directions.\<close>

theorem routed_bytes_accounted:
  assumes "counts_bytes (ev_count env)" and "a < length (a_heap author)"
    and "io_run env ios (Limited ct a lg, author, s) = (conn, author', s')"
  shows "u_sent (a_heap author' ! a) = u_sent (a_heap author ! a) + word_of_int (read_bytes ios)
    \<and> u_recv (a_heap author' ! a) = u_recv (a_heap author ! a) + word_of_int (written_bytes ios)
    \<and> (\<forall>b < length (a_heap author). b \<noteq> a \<longrightarrow> a_heap author' ! b = a_heap author ! b)
    \<and> s' = fold (wait_user env (a_heap author ! a)) (amounts ios) s"
  using assms(2,3)
proof (induction ios arbitrary: lg author s)
  case Nil
  then show ?case by (simp add: io_run_def)
next
  case (Cons x ios)
  show ?case
  proof (cases x)
    case (Read n)
    define author1 where "author1 = upd_user a (count_sent (word_of_int n)) author"
    have a1: "a_heap author1 ! b = (if b = a then count_sent (word_of_int n) (a_heap author ! b) else a_heap author ! b)"
      if "b < length (a_heap author)" for b using that by (auto simp: author1_def upd_user_nth)
    have w: "wait_user env (a_heap author1 ! a) = wait_user env (a_heap author ! a)"
      by (rule wait_user_limiter) (simp add: a1[OF Cons.prems(1)] count_sent_def)
    have len: "length (a_heap author1) = length (a_heap author)" by (simp add: author1_def)
    have run: "io_run env ios (Limited ct a (map_option (\<lambda>c. c\<lparr>lc_perRead := ev_count env n (lc_perRead c)\<rparr>) lg),
        author1, wait_user env (a_heap author ! a) n s) = (conn, author', s')"
      using Cons.prems by (simp add: io_run_def Read limited_read_eq[OF assms(1)] author1_def)
    show ?thesis using Cons.IH[OF _ run, unfolded w len, OF Cons.prems(1)] Cons.prems(1) a1
      by (auto simp: Read count_sent_def algebra_simps)
  next
    case (Write l n)
    define author1 where "author1 = upd_user a (count_recv (word_of_int n)) author"
    have a1: "a_heap author1 ! b = (if b = a then count_recv (word_of_int n) (a_heap author ! b) else a_heap author ! b)"
      if "b < length (a_heap author)" for b using that by (auto simp: author1_def upd_user_nth)
    have w: "wait_user env (a_heap author1 ! a) = wait_user env (a_heap author ! a)"
      by (rule wait_user_limiter) (simp add: a1[OF Cons.prems(1)] count_recv_def)
    have len: "length (a_heap author1) = length (a_heap author)" by (simp add: author1_def)
    have run: "io_run env ios (Limited ct a (map_option (\<lambda>c. c\<lparr>lc_perWrite := ev_count env n (lc_perWrite c)\<rparr>) lg),
        author1, wait_user env (a_heap author ! a) l s) = (conn, author', s')"
      using Cons.prems by (simp add: io_run_def Write limited_write_eq[OF assms(1)] author1_def)
    show ?thesis using Cons.IH[OF _ run, unfolded w len, OF Cons.prems(1)] Cons.prems(1) a1
      by (auto simp: Write count_recv_def algebra_simps)
  next
    case CloseConn
    then show ?thesis using Cons by (simp add: io_run_def)
  qed
qed

definition example_env :: "(int, int list, unit) io_env" where
  "example_env = \<lparr>ev_rate = unit_rate, ev_waitN = \<lambda>l n s. (None, s @ [n]), ev_count = \<lambda>n c. c + word_of_int n\<rparr>"

definition example_author :: "int auth" where
  "example_author = snd (SetUserSpeedLimit unit_rate ''u1'' 100 (snd (AddUser ''u1'' 1 NewAuthenticator)))"

text \<open>Witness of C27: 30 bytes up and 250 of 300 bytes down against a bucket of 100.\<close>

theorem routed_bytes_accounted_witness:
  "case io_run example_env [Read 30, Write 300 250, CloseConn] (Limited 0 0 None, example_author, []) of
     (_, author', s') \<Rightarrow> u_sent (a_heap author' ! 0) = 30 \<and> u_recv (a_heap author' ! 0) = 250 \<and> s' = [30, 100, 100, 100]"
proof -
  obtain conn author' s' where run: "io_run example_env [Read 30, Write 300 250, CloseConn] (Limited 0 0 None, example_author, []) = (conn, author', s')"
    using prod_cases3 by blast
  have c: "counts_bytes (ev_count example_env)" by (simp add: example_env_def counts_bytes_def)
  have h: "0 < length (a_heap example_author)" by code_simp
  have z: "u_sent (a_heap example_author ! 0) = 0" "u_recv (a_heap example_author ! 0) = 0" by code_simp+
  have w: "fold (wait_user example_env (a_heap example_author ! 0)) [30, 300] [] = [30, 100, 100, 100]" by code_simp
  show ?thesis using routed_bytes_accounted[OF c h run] z w by (simp add: run)
qed


section \<open>Which connections are counted\<close>

text \<open>A connection of a known user on a known inbound is always counted and limited for that user's
  account, unless it is a TCP connection to a host that an audit rule forbids: that one is blocked and
  the hit recorded. A connection whose inbound has no controller or whose user has no account passes
  through as it is: uncounted, unlimited and unaudited. UDP is never audited.\<close>

theorem routed_connection:
  assumes "GetContrlWithInTag (md_Inbound md) r = Some ct" and "ct < length (r_ctls r)"
    and "c_nodeInfo (r_ctls r ! ct) \<noteq> None"
  shows "(LoadUser (c_author (r_ctls r ! ct)) (md_User md) = None \<longrightarrow>
      RoutedConnection dbg now md r = (Ok Raw, r) \<and> RoutedPacketConnection md r = (Ok Raw, r))
    \<and> (\<forall>a. LoadUser (c_author (r_ctls r ! ct)) (md_User md) = Some a \<longrightarrow>
      fst (RoutedPacketConnection md r) = Ok (Limited ct a None)
      \<and> fst (RoutedConnection dbg now md r) =
          Ok (if md_IsFqdn md \<and> (\<exists>rules rule. c_detectRules (r_ctls r ! ct) = Some rules \<and> md_Fqdn md \<noteq> [] \<and>
                first_match (md_Fqdn md) rules = Some rule)
              then Blocked else Limited ct a (new_logging dbg)))"
proof -
  let ?c = "r_ctls r ! ct"
  have same: "upd_ctl ct ?c r = r" by (simp add: upd_ctl_def)
  have rules: "c_detectRules (snd (LoadOrCreateUserCounter u src c)) = c_detectRules c" for u src and c :: "('a, 'b, 'c) controller"
    by (auto simp: LoadOrCreateUserCounter_def Let_def split: option.splits prod.splits)
  have none: "LoadUser (c_author ?c) (md_User md) = None \<Longrightarrow> LoadOrCreateUserCounter (md_User md) (md_Source md) ?c = (Err (UserNotInMap (md_User md)), ?c)"
    by (simp add: LoadOrCreateUserCounter_def)
  have some: "fst (LoadOrCreateUserCounter (md_User md) (md_Source md) ?c) = Ok a" if "LoadUser (c_author ?c) (md_User md) = Some a" for a
    using that assms(3) by (auto simp: LoadOrCreateUserCounter_def Let_def split: prod.splits)
  have audit: "fst (fst (MatchAudit now uid host c)) \<longleftrightarrow> (\<exists>rs rule. c_detectRules c = Some rs \<and> host \<noteq> [] \<and> first_match host rs = Some rule)"
    for uid host and c :: "('a, 'b, 'c) controller"
    by (auto simp: MatchAudit_def split: option.splits)
  show ?thesis
  proof (intro conjI impI allI)
    assume "LoadUser (c_author ?c) (md_User md) = None"
    then show "RoutedConnection dbg now md r = (Ok Raw, r)" "RoutedPacketConnection md r = (Ok Raw, r)"
      using none assms(1) same by (simp_all add: RoutedConnection_def RoutedPacketConnection_def)
  next
    fix a assume a: "LoadUser (c_author ?c) (md_User md) = Some a"
    obtain c1 where l: "LoadOrCreateUserCounter (md_User md) (md_Source md) ?c = (Ok a, c1)" using some[OF a] by (metis prod.collapse)
    have c1: "c_detectRules c1 = c_detectRules ?c" using rules[of "md_User md" "md_Source md" ?c] by (simp add: l)
    obtain b rid c2 where m: "MatchAudit now (u_UID (a_heap (c_author c1) ! a)) (md_Fqdn md) c1 = ((b, rid), c2)" by (metis prod.collapse)
    show "fst (RoutedPacketConnection md r) = Ok (Limited ct a None)" using assms(1) l by (simp add: RoutedPacketConnection_def)
    show "fst (RoutedConnection dbg now md r) =
          Ok (if md_IsFqdn md \<and> (\<exists>rules rule. c_detectRules ?c = Some rules \<and> md_Fqdn md \<noteq> [] \<and>
                first_match (md_Fqdn md) rules = Some rule)
              then Blocked else Limited ct a (new_logging dbg))"
      using assms(1) l m audit[of "u_UID (a_heap (c_author c1) ! a)" "md_Fqdn md" c1] c1
      by (cases b) (simp_all add: RoutedConnection_def)
  qed
qed

definition example_registry :: "((api_error, user_info list) res list, nat \<times> string list, int) registry" where
  "example_registry = (Singleton\<lparr>r_InContrls := [(''in'', 0)],
     r_ctls := [(snd (StartController started_deps (NewController example_config (0, []) [Ok [example_panel_user 1 ''A'']] 0)))
                 \<lparr>c_detectRules := Some [\<lparr>dr_ID = 5, dr_Pattern = Some (\<lambda>h. h = ''bad'')\<rparr>]\<rparr>]\<rparr>)"

text \<open>An instance: user \<open>u1\<close> visits a forbidden host.\<close>

theorem routed_connection_witness:
  "fst (RoutedConnection False 0 \<lparr>md_Inbound = ''in'', md_User = ''u1'', md_Source = ''1.2.3.4'', md_IsFqdn = True, md_Fqdn = ''bad''\<rparr>
     example_registry) = Ok Blocked"
proof -
  let ?md = "\<lparr>md_Inbound = ''in'', md_User = ''u1'', md_Source = ''1.2.3.4'', md_IsFqdn = True, md_Fqdn = ''bad''\<rparr>"
  have ct: "GetContrlWithInTag (md_Inbound ?md) example_registry = Some 0" "0 < length (r_ctls example_registry)"
    by (simp_all add: GetContrlWithInTag_def example_registry_def)
  have n: "c_nodeInfo (r_ctls example_registry ! 0) \<noteq> None" by code_simp
  have u: "LoadUser (c_author (r_ctls example_registry ! 0)) ''u1'' = Some 0" by code_simp
  have d: "c_detectRules (r_ctls example_registry ! 0) = Some [\<lparr>dr_ID = 5, dr_Pattern = Some (\<lambda>h. h = ''bad'')\<rparr>]"
    by (simp add: example_registry_def)
  show ?thesis using routed_connection[OF ct n, of False 0] u d by simp
qed

end
