(* ===== verification/Go_Binary.thy ===== *)
theory Go_Binary
  imports Go_Strings
begin

text \<open>
  What the binary formats use of Go's \<^verbatim>\<open>encoding/binary\<close> and \<^verbatim>\<open>io\<close>: a reader is the list of
  bytes still to come, a decoder returns a value and the rest, and a writer appends bytes. The functions
  of sing's \<^verbatim>\<open>varbin\<close> package are parameters, with the laws the formats rely on in the locale
  \<open>varbin_laws\<close>.
\<close>

datatype bin_error =
    EOF | UnexpectedEOF | VarintOverflow | ErrInvalid
  | UnknownVersion | InvalidMetadata string | CodeNotExists string
  | NotARuleSet | UnsupportedVersion nat | BadCompression | NestedTooDeep | UnknownRuleType nat
  | UnknownItemType nat nat | UnknownLogicalMode nat | BadPrefixString nat | BadRanges | VersionTooOld string

type_synonym 'a decoder = "byte list \<Rightarrow> (bin_error, 'a \<times> byte list) res"


section \<open>Strings as bytes\<close>

definition byte_of :: "char \<Rightarrow> byte" where
  "byte_of c = word_of_nat (of_char c)"

definition char_of_byte :: "byte \<Rightarrow> char" where
  "char_of_byte b = char_of (unat b)"

abbreviation bytes_of :: "string \<Rightarrow> byte list" where
  "bytes_of s \<equiv> map byte_of s"

abbreviation string_of :: "byte list \<Rightarrow> string" where
  "string_of bs \<equiv> map char_of_byte bs"

lemma unat_byte: "n < 256 \<Longrightarrow> unat (word_of_nat n :: byte) = n"
  by (simp add: unat_of_nat take_bit_nat_eq_self)

lemma char_of_byte_of [simp]: "char_of_byte (byte_of c) = c"
proof -
  have "(of_char c :: nat) < 2 ^ 8" by simp
  then show ?thesis by (simp add: char_of_byte_def byte_of_def unat_of_nat take_bit_nat_eq_self)
qed

lemma string_of_bytes_of [simp]: "string_of (bytes_of s) = s" "map (char_of_byte \<circ> byte_of) s = s"
  by (simp_all add: comp_def)


section \<open>Readers\<close>

definition ReadByte :: "byte decoder" where
  "ReadByte bs = (case bs of [] \<Rightarrow> Err EOF | b # rest \<Rightarrow> Ok (b, rest))"

definition ReadFull :: "nat \<Rightarrow> byte list decoder" where
  "ReadFull n bs =
     (if n = 0 then Ok ([], bs)
      else if bs = [] then Err EOF
      else if length bs < n then Err UnexpectedEOF
      else Ok (take n bs, drop n bs))"

text \<open>\<open>for range n\<close> over a decoder, collecting the values.\<close>

primrec repeat :: "nat \<Rightarrow> 'a decoder \<Rightarrow> 'a list decoder" where
  "repeat 0 d bs = Ok ([], bs)"
| "repeat (Suc n) d bs =
     res_bind (d bs) (\<lambda>(a, bs1). res_bind (repeat n d bs1) (\<lambda>(as, bs2). Ok (a # as, bs2)))"

lemma ReadByte_Cons [simp]: "ReadByte (b # bs) = Ok (b, bs)"
  by (simp add: ReadByte_def)

lemma repeat_ReadByte: "repeat (length bs) ReadByte (bs @ rest) = Ok (bs, rest)"
  by (induction bs) simp_all

lemma ReadFull_append: "length xs = n \<Longrightarrow> ReadFull n (xs @ bs) = Ok (xs, bs)"
  by (cases "n = 0") (auto simp: ReadFull_def)

text \<open>A decoder undoes an encoder when it gives the value back and leaves what follows.\<close>

definition undoes :: "'a decoder \<Rightarrow> ('a \<Rightarrow> byte list) \<Rightarrow> 'a \<Rightarrow> bool" where
  "undoes d e a = (\<forall>rest. d (e a @ rest) = Ok (a, rest))"

lemma undoesD: "undoes d e a \<Longrightarrow> d (e a @ rest) = Ok (a, rest)"
  by (simp add: undoes_def)

lemma repeat_undoes:
  assumes "\<And>a. a \<in> set as \<Longrightarrow> undoes d e a"
  shows "repeat (length as) d (concat (map e as) @ rest) = Ok (as, rest)"
  using assms by (induction as) (simp_all add: undoesD)

text \<open>A total decoder never panics and consumes its input from the front.\<close>

definition reader :: "'a decoder \<Rightarrow> bool" where
  "reader d = (\<forall>bs. d bs \<noteq> Panic \<and> (\<forall>a rest. d bs = Ok (a, rest) \<longrightarrow> length rest \<le> length bs))"

lemma reader_Ok: "reader d \<Longrightarrow> d bs = Ok (a, rest) \<Longrightarrow> length rest \<le> length bs"
  by (auto simp: reader_def)

lemma reader_no_panic: "reader d \<Longrightarrow> d bs \<noteq> Panic"
  by (simp add: reader_def)

lemma reader_bind:
  assumes "reader d" "\<And>a. reader (k a)"
  shows "reader (\<lambda>bs. res_bind (d bs) (\<lambda>(a, rest). k a rest))"
  unfolding reader_def
proof (intro allI conjI impI)
  fix bs
  show "res_bind (d bs) (\<lambda>(a, rest). k a rest) \<noteq> Panic"
    using assms by (cases "d bs") (auto simp: reader_def)
  fix b rest' assume "res_bind (d bs) (\<lambda>(a, rest). k a rest) = Ok (b, rest')"
  then obtain a rest where "d bs = Ok (a, rest)" "k a rest = Ok (b, rest')" by (auto simp: res_bind_eq_Ok)
  with assms show "length rest' \<le> length bs" using reader_Ok le_trans by metis
qed

lemma reader_if: "(c \<Longrightarrow> reader d) \<Longrightarrow> (\<not> c \<Longrightarrow> reader e) \<Longrightarrow> reader (if c then d else e)"
  by simp

lemma reader_if_applied: "(c \<Longrightarrow> reader d) \<Longrightarrow> (\<not> c \<Longrightarrow> reader e) \<Longrightarrow> reader (\<lambda>bs. if c then d bs else e bs)"
  by (cases c) simp_all

lemma reader_Ok_value: "reader (\<lambda>bs. Ok (a, bs))"
  by (simp add: reader_def)

lemma reader_Err: "reader (\<lambda>bs. Err e)"
  by (simp add: reader_def)

lemma reader_ReadByte: "reader ReadByte"
  by (auto simp: reader_def ReadByte_def split: list.splits)

lemma reader_ReadFull: "reader (ReadFull n)"
  by (auto simp: reader_def ReadFull_def)

lemma reader_repeat: "reader d \<Longrightarrow> reader (repeat n d)"
proof (induction n)
  case (Suc n)
  have "reader (\<lambda>bs. res_bind (d bs) (\<lambda>(a, bs1). res_bind (repeat n d bs1) (\<lambda>(as, bs2). Ok (a # as, bs2))))"
    by (intro reader_bind reader_Ok_value Suc)
  then show ?case by (simp add: reader_def)
qed (simp add: reader_def)

lemma repeat_or_fail:
  assumes "length bss = length xs"
    and "\<And>i rest. i < length xs \<Longrightarrow> d (bss ! i @ rest) = (if P (xs ! i) then Ok (f (xs ! i), rest) else Err e)"
  shows "repeat (length xs) d (concat bss @ rest) = (if list_all P xs then Ok (map f xs, rest) else Err e)"
  using assms
proof (induction xs arbitrary: bss)
  case (Cons x xs)
  then obtain b bs where b: "bss = b # bs" by (cases bss) auto
  have "repeat (length xs) d (concat bs @ rest) = (if list_all P xs then Ok (map f xs, rest) else Err e)"
    using Cons.prems(1) Cons.prems(2) [of "Suc i" for i] by (intro Cons.IH) (auto simp: b)
  with Cons.prems(2) [of 0] show ?case by (auto simp: b)
qed simp


section \<open>Variable-length integers\<close>

definition MaxVarintLen64 :: nat where
  "MaxVarintLen64 = 10"

fun uvarint_loop :: "nat \<Rightarrow> nat \<Rightarrow> nat decoder" where
  "uvarint_loop i x [] =
     (if MaxVarintLen64 \<le> i then Err VarintOverflow else Err (if 0 < i then UnexpectedEOF else EOF))"
| "uvarint_loop i x (b # bs) =
     (if MaxVarintLen64 \<le> i then Err VarintOverflow
      else if unat b < 0x80 then
        (if i = MaxVarintLen64 - 1 \<and> 1 < unat b then Err VarintOverflow
         else Ok (x + unat b * 2 ^ (7 * i), bs))
      else uvarint_loop (Suc i) (x + (unat b - 0x80) * 2 ^ (7 * i)) bs)"

definition ReadUvarint :: "nat decoder" where
  "ReadUvarint = uvarint_loop 0 0"

fun PutUvarint :: "nat \<Rightarrow> byte list" where
  "PutUvarint x = (if x < 0x80 then [word_of_nat x] else word_of_nat (x mod 0x80 + 0x80) # PutUvarint (x div 0x80))"

declare PutUvarint.simps [simp del]

lemma uvarint_loop_Put:
  "x * 2 ^ (7 * i) < 2 ^ 64 \<Longrightarrow> i < MaxVarintLen64 \<Longrightarrow>
     uvarint_loop i a (PutUvarint x @ rest) = Ok (a + x * 2 ^ (7 * i), rest)"
proof (induction x arbitrary: i a rule: PutUvarint.induct)
  case (1 x)
  show ?case
  proof (cases "x < 0x80")
    case True
    then have "unat (word_of_nat x :: byte) = x" by (simp add: unat_byte)
    moreover have "x \<le> 1" if "i = 9"
      using 1(2) that by simp
    ultimately show ?thesis
      using True 1(3) by (subst PutUvarint.simps) (auto simp: MaxVarintLen64_def)
  next
    case False
    have byte: "unat (word_of_nat (x mod 0x80 + 0x80) :: byte) = x mod 0x80 + 0x80"
      by (rule unat_byte) simp
    have "x div 0x80 * 2 ^ (7 * Suc i) \<le> x * 2 ^ (7 * i)"
      by (simp add: power_add)
    then have small: "x div 0x80 * 2 ^ (7 * Suc i) < 2 ^ 64" using 1(2) by linarith
    have "i < 9"
    proof (rule ccontr)
      assume "\<not> i < 9"
      then have i: "i = 9" using 1(3) by (simp add: MaxVarintLen64_def)
      show False using 1(2) False unfolding i by simp
    qed
    then have "uvarint_loop (Suc i) (a + x mod 0x80 * 2 ^ (7 * i)) (PutUvarint (x div 0x80) @ rest) =
        Ok (a + x mod 0x80 * 2 ^ (7 * i) + x div 0x80 * 2 ^ (7 * Suc i), rest)"
      using 1(1) [OF False small] by (simp add: MaxVarintLen64_def)
    moreover have "x mod 0x80 * 2 ^ (7 * i) + x div 0x80 * 2 ^ (7 * Suc i) = x * 2 ^ (7 * i)"
    proof -
      have "m * 2 ^ (7 * i) + q * 2 ^ (7 * Suc i) = (q * 0x80 + m) * 2 ^ (7 * i)" for q m :: nat
        by (simp add: power_add algebra_simps)
      from this [of "x mod 0x80" "x div 0x80"] show ?thesis by simp
    qed
    ultimately show ?thesis
      using False 1(3) byte by (subst PutUvarint.simps) (simp add: add.assoc)
  qed
qed

lemma ReadUvarint_Put: "x < 2 ^ 64 \<Longrightarrow> ReadUvarint (PutUvarint x @ rest) = Ok (x, rest)"
  using uvarint_loop_Put [of x 0 0 rest] by (simp add: ReadUvarint_def MaxVarintLen64_def)

text \<open>Every accepted integer fits 64 bits.\<close>

lemma uvarint_loop_bound:
  "uvarint_loop i x bs = Ok (n, rest) \<Longrightarrow> x < 2 ^ (7 * i) \<Longrightarrow> n < 2 ^ 64"
proof (induction i x bs rule: uvarint_loop.induct)
  case (2 i x b bs)
  have b: "unat b < 256" using unsigned_less [of b] by simp
  have step: "x + c * 2 ^ (7 * i) < 2 ^ (7 * Suc i)" if "c < 0x80" for c
  proof -
    have "x + c * 2 ^ (7 * i) < Suc c * 2 ^ (7 * i)" using 2(3) by simp
    also have "\<dots> \<le> 2 ^ 7 * 2 ^ (7 * i)" using that by (intro mult_le_mono1) simp
    finally show ?thesis by (simp add: power_add)
  qed
  show ?case
  proof (cases "unat b < 0x80")
    case True
    with 2(2) have n: "n = x + unat b * 2 ^ (7 * i)" "i < 10" "i = 9 \<longrightarrow> unat b \<le> 1"
      by (auto simp: MaxVarintLen64_def split: if_splits)
    show ?thesis
    proof (cases "i = 9")
      case True
      have "x < 2 ^ 63" using 2(3) True by simp
      moreover have "unat b * 2 ^ 63 \<le> 1 * 2 ^ 63" using n(3) True by (intro mult_le_mono1) simp
      ultimately have "n < 2 ^ 63 + 1 * 2 ^ 63" using n(1) True by simp
      then show ?thesis by simp
    next
      case False
      with n have "n < 2 ^ (7 * Suc i)" "7 * Suc i \<le> 64" using step [OF True] by auto
      then show ?thesis by (meson less_le_trans one_le_numeral power_increasing)
    qed
  next
    case False
    with 2(2) have i: "\<not> MaxVarintLen64 \<le> i"
      and eq: "uvarint_loop (Suc i) (x + (unat b - 0x80) * 2 ^ (7 * i)) bs = Ok (n, rest)"
      by (simp_all split: if_splits)
    show ?thesis by (rule 2(1) [OF i False eq step]) (use b in simp)
  qed
qed (auto split: if_splits)

lemma ReadUvarint_bound: "ReadUvarint bs = Ok (n, rest) \<Longrightarrow> n < 2 ^ 64"
  using uvarint_loop_bound [of 0 0 bs n rest] by (simp add: ReadUvarint_def)

lemma reader_uvarint: "reader (uvarint_loop i x)"
proof -
  have "uvarint_loop i x bs \<noteq> Panic \<and> (\<forall>a rest. uvarint_loop i x bs = Ok (a, rest) \<longrightarrow> length rest \<le> length bs)" for bs
    by (induction i x bs rule: uvarint_loop.induct) auto
  then show ?thesis by (simp add: reader_def)
qed

lemma reader_ReadUvarint: "reader ReadUvarint"
  by (simp add: ReadUvarint_def reader_uvarint)


section \<open>Fixed-width integers\<close>

text \<open>\<open>binary.BigEndian\<close> for \<open>uint16\<close> and \<open>uint64\<close>.\<close>

primrec be_bytes :: "nat \<Rightarrow> nat \<Rightarrow> byte list" where
  "be_bytes 0 n = []"
| "be_bytes (Suc k) n = be_bytes k (n div 256) @ [word_of_nat (n mod 256)]"

definition be_value :: "byte list \<Rightarrow> nat" where
  "be_value bs = foldl (\<lambda>a b. a * 256 + unat b) 0 bs"

lemma length_be_bytes [simp]: "length (be_bytes k n) = k"
  by (induction k arbitrary: n) simp_all

lemma be_value_bytes: "n < 256 ^ k \<Longrightarrow> be_value (be_bytes k n) = n"
proof (induction k arbitrary: n)
  case (Suc k)
  have "n div 256 < 256 ^ k" using Suc.prems by (simp add: less_mult_imp_div_less mult.commute)
  from Suc.IH [OF this] show ?case
    by (simp add: be_value_def unat_of_nat take_bit_nat_eq_self)
qed (simp add: be_value_def)

definition ReadUint16 :: "uint16 decoder" where
  "ReadUint16 bs = res_bind (ReadFull 2 bs) (\<lambda>(b, rest). Ok (word_of_nat (be_value b), rest))"

definition PutUint16 :: "uint16 \<Rightarrow> byte list" where
  "PutUint16 w = be_bytes 2 (unat w)"

definition ReadUint64 :: "nat decoder" where
  "ReadUint64 bs = res_bind (ReadFull 8 bs) (\<lambda>(b, rest). Ok (be_value b, rest))"

definition PutUint64 :: "nat \<Rightarrow> byte list" where
  "PutUint64 n = be_bytes 8 n"

lemma ReadUint16_Put: "ReadUint16 (PutUint16 w @ rest) = Ok (w, rest)"
proof -
  have "unat w < 256 ^ 2" using unsigned_less [of w] by simp
  then show ?thesis by (simp add: ReadUint16_def PutUint16_def ReadFull_append be_value_bytes)
qed

lemma ReadUint64_Put: "n < 2 ^ 64 \<Longrightarrow> ReadUint64 (PutUint64 n @ rest) = Ok (n, rest)"
  by (simp add: ReadUint64_def PutUint64_def ReadFull_append be_value_bytes)

text \<open>\<open>binary.Read\<close> and \<open>binary.Write\<close> of a \<open>bool\<close>: any nonzero byte is true.\<close>

definition ReadBool :: "bool decoder" where
  "ReadBool bs = res_bind (ReadByte bs) (\<lambda>(b, rest). Ok (b \<noteq> 0, rest))"

definition PutBool :: "bool \<Rightarrow> byte list" where
  "PutBool b = [if b then 1 else 0]"

lemma ReadBool_Put: "ReadBool (PutBool b @ rest) = Ok (b, rest)"
  by (simp add: ReadBool_def PutBool_def)

lemma reader_ReadUint16: "reader ReadUint16"
  unfolding ReadUint16_def by (intro reader_bind reader_ReadFull reader_Ok_value)

lemma reader_ReadUint64: "reader ReadUint64"
  unfolding ReadUint64_def by (intro reader_bind reader_ReadFull reader_Ok_value)

lemma reader_ReadBool: "reader ReadBool"
  unfolding ReadBool_def by (intro reader_bind reader_ReadByte reader_Ok_value)

lemmas reader_intros = reader_bind reader_if_applied reader_Ok_value reader_Err reader_ReadByte reader_ReadFull
  reader_repeat reader_ReadUvarint reader_ReadUint16 reader_ReadUint64 reader_ReadBool


section \<open>The varbin library\<close>

text \<open>\<open>varbin.WriteUvarint\<close> and \<open>varbin.ReadSlice\<close> at the element types the formats use.\<close>

record varbin =
  vb_WriteUvarint :: "nat \<Rightarrow> byte list"
  vb_ReadBytes :: "byte list decoder"     \<comment> \<open>\<open>ReadSlice[byte]\<close>, also for \<open>InterfaceType\<close>\<close>
  vb_ReadUint16s :: "uint16 list decoder" \<comment> \<open>\<open>ReadSlice[uint16]\<close>\<close>

text \<open>The laws: the varint of \<open>encoding/binary\<close>, and a slice as its length followed by its elements in
  the given byte order.\<close>

locale varbin_laws =
  fixes V :: varbin
  assumes WriteUvarint: "n < 2 ^ 64 \<Longrightarrow> vb_WriteUvarint V n = PutUvarint n"
    and ReadBytes: "length bs < 2 ^ 64 \<Longrightarrow> vb_ReadBytes V (PutUvarint (length bs) @ bs @ rest) = Ok (bs, rest)"
    and ReadUint16s: "length ws < 2 ^ 64 \<Longrightarrow>
      vb_ReadUint16s V (PutUvarint (length ws) @ concat (map PutUint16 ws) @ rest) = Ok (ws, rest)"
begin

lemma read_count: "n < 2 ^ 64 \<Longrightarrow> ReadUvarint (vb_WriteUvarint V n @ rest) = Ok (n, rest)"
  by (simp add: WriteUvarint ReadUvarint_Put)

lemma read_bytes: "length bs < 2 ^ 64 \<Longrightarrow> vb_ReadBytes V (vb_WriteUvarint V (length bs) @ bs @ rest) = Ok (bs, rest)"
  by (simp add: WriteUvarint ReadBytes)

lemma read_uint16s:
  "length ws < 2 ^ 64 \<Longrightarrow> vb_ReadUint16s V (vb_WriteUvarint V (length ws) @ concat (map PutUint16 ws) @ rest) = Ok (ws, rest)"
  by (simp add: WriteUvarint ReadUint16s)

end

text \<open>An implementation on top of the standard library.\<close>

definition std_varbin :: varbin where
  "std_varbin = \<lparr>vb_WriteUvarint = PutUvarint,
     vb_ReadBytes = (\<lambda>bs. res_bind (ReadUvarint bs) (\<lambda>(n, bs1). ReadFull n bs1)),
     vb_ReadUint16s = (\<lambda>bs. res_bind (ReadUvarint bs) (\<lambda>(n, bs1). repeat n ReadUint16 bs1))\<rparr>"

interpretation std: varbin_laws std_varbin
proof unfold_locales
  fix ws :: "uint16 list" and rest assume "length ws < 2 ^ 64"
  then show "vb_ReadUint16s std_varbin (PutUvarint (length ws) @ concat (map PutUint16 ws) @ rest) = Ok (ws, rest)"
    using repeat_undoes [of ws ReadUint16 PutUint16 rest]
    by (simp add: std_varbin_def ReadUvarint_Put undoes_def ReadUint16_Put)
qed (simp_all add: std_varbin_def ReadUvarint_Put ReadFull_append)

end
