(* ===== verification/Geosite.thy ===== *)
theory Geosite
  imports Go_Binary "HOL-Library.List_Lexorder" "HOL-Library.Char_ord"
begin

text \<open>
  The geosite database of \<^verbatim>\<open>common/geosite\<close>: the writer, the reader, and the rules made of its
  entries. A database maps a code to a list of domain items; the file has a table of codes with the offset
  and the number of their items, and then the items. The reader keeps the file and the table and decodes the
  items of a code on demand. A file is its bytes; input and output errors of the operating system are left
  out.
\<close>

section \<open>Data\<close>

record Item =
  it_Type :: byte
  it_Value :: string

definition RuleTypeDomain :: byte where "RuleTypeDomain = 0"
definition RuleTypeDomainSuffix :: byte where "RuleTypeDomainSuffix = 1"
definition RuleTypeDomainKeyword :: byte where "RuleTypeDomainKeyword = 2"
definition RuleTypeDomainRegex :: byte where "RuleTypeDomainRegex = 3"

definition MaxInt32 :: nat where
  "MaxInt32 = 2147483647"

text \<open>Reading a Go map of slices at an absent key gives the empty slice.\<close>

definition items_at :: "(string, Item list) gomap \<Rightarrow> string \<Rightarrow> Item list" where
  "items_at domains code = (case gm_get domains code of Some its \<Rightarrow> its | None \<Rightarrow> [])"


section \<open>Writer\<close>

definition writeString :: "varbin \<Rightarrow> string \<Rightarrow> byte list" where
  "writeString V value = vb_WriteUvarint V (length value) @ bytes_of value"

definition write_item :: "varbin \<Rightarrow> Item \<Rightarrow> byte list" where
  "write_item V item = it_Type item # writeString V (it_Value item)"

fun write_content :: "varbin \<Rightarrow> (string, Item list) gomap \<Rightarrow> string list \<Rightarrow> byte list \<Rightarrow> (string, nat) gomap \<Rightarrow>
    byte list \<times> (string, nat) gomap" where
  "write_content V domains [] content idx = (content, idx)"
| "write_content V domains (code # keys) content idx =
     write_content V domains keys
       (content @ concat (map (write_item V) (items_at domains code))) (gm_set code (length content) idx)"

definition write_entry :: "varbin \<Rightarrow> string \<times> nat \<times> nat \<Rightarrow> byte list" where
  "write_entry V e = (case e of (code, idx, count) \<Rightarrow>
     writeString V code @ vb_WriteUvarint V idx @ vb_WriteUvarint V count)"

definition Write :: "varbin \<Rightarrow> (string, Item list) gomap \<Rightarrow> byte list" where
  "Write V domains =
     (let keys = sort (gm_keys domains)
      in case write_content V domains keys [] [] of (content, idx) \<Rightarrow>
           0 # vb_WriteUvarint V (length keys) @
           concat (map (\<lambda>code. write_entry V (code, (case gm_get idx code of Some i \<Rightarrow> i | None \<Rightarrow> 0),
                                              length (items_at domains code))) keys) @ content)"


section \<open>Reader\<close>

record geosite_reader =
  gr_file :: "byte list"
  gr_metadataIndex :: nat
  gr_domainIndex :: "(string, nat) gomap"
  gr_domainLength :: "(string, nat) gomap"

definition readString :: "string decoder" where
  "readString bs = res_bind (ReadUvarint bs) (\<lambda>(n, bs1).
     res_bind (repeat n ReadByte bs1) (\<lambda>(v, bs2). Ok (string_of v, bs2)))"

definition read_entry :: "(string \<times> nat \<times> nat) decoder" where
  "read_entry bs = res_bind (readString bs) (\<lambda>(code, bs1).
     res_bind (ReadUvarint bs1) (\<lambda>(codeIndex, bs2).
     res_bind (ReadUvarint bs2) (\<lambda>(codeLength, bs3).
       if MaxInt32 < codeIndex \<or> MaxInt32 < codeLength then Err (InvalidMetadata code)
       else Ok ((code, codeIndex, codeLength), bs3))))"

definition readMetadata :: "byte list \<Rightarrow> (bin_error, geosite_reader) res" where
  "readMetadata file = res_bind (ReadByte file) (\<lambda>(version, bs).
     if version \<noteq> 0 then Err UnknownVersion
     else res_bind (ReadUvarint bs) (\<lambda>(entryLength, bs1).
       res_bind (repeat entryLength read_entry bs1) (\<lambda>(entries, rest).
         Ok \<lparr>gr_file = file, gr_metadataIndex = length file - length rest,
             gr_domainIndex = fold (\<lambda>(code, i). gm_set code i) (map (\<lambda>(code, i, n). (code, i)) entries) [],
             gr_domainLength = fold (\<lambda>(code, n). gm_set code n) (map (\<lambda>(code, i, n). (code, n)) entries) []\<rparr>)))"

definition NewReader :: "byte list \<Rightarrow> (bin_error, geosite_reader \<times> string list) res" where
  "NewReader file = res_bind (readMetadata file) (\<lambda>r. Ok (r, gm_keys (gr_domainIndex r)))"

definition read_item :: "Item decoder" where
  "read_item bs = res_bind (ReadByte bs) (\<lambda>(typeByte, bs1).
     res_bind (readString bs1) (\<lambda>(value, bs2). Ok (\<lparr>it_Type = typeByte, it_Value = value\<rparr>, bs2)))"

definition Read :: "geosite_reader \<Rightarrow> string \<Rightarrow> (bin_error, Item list) res" where
  "Read r code = (case gm_get (gr_domainIndex r) code of
     None \<Rightarrow> Err (CodeNotExists code)
   | Some idx \<Rightarrow>
       (let len = (case gm_get (gr_domainLength r) code of Some n \<Rightarrow> n | None \<Rightarrow> 0)
        in res_bind (repeat len read_item (drop (gr_metadataIndex r + idx) (gr_file r))) (\<lambda>(itemList, _). Ok itemList)))"


section \<open>Rules\<close>

record domain_rule =
  dr_Domain :: "string list"
  dr_DomainSuffix :: "string list"
  dr_DomainKeyword :: "string list"
  dr_DomainRegex :: "string list"

definition empty_rule :: domain_rule where
  "empty_rule = \<lparr>dr_Domain = [], dr_DomainSuffix = [], dr_DomainKeyword = [], dr_DomainRegex = []\<rparr>"

definition compile_item :: "Item \<Rightarrow> domain_rule \<Rightarrow> domain_rule" where
  "compile_item item r =
     (if it_Type item = RuleTypeDomain then r\<lparr>dr_Domain := dr_Domain r @ [it_Value item]\<rparr>
      else if it_Type item = RuleTypeDomainSuffix then r\<lparr>dr_DomainSuffix := dr_DomainSuffix r @ [it_Value item]\<rparr>
      else if it_Type item = RuleTypeDomainKeyword then r\<lparr>dr_DomainKeyword := dr_DomainKeyword r @ [it_Value item]\<rparr>
      else if it_Type item = RuleTypeDomainRegex then r\<lparr>dr_DomainRegex := dr_DomainRegex r @ [it_Value item]\<rparr>
      else r)"

definition Compile :: "Item list \<Rightarrow> domain_rule" where
  "Compile code = fold compile_item code empty_rule"

definition Merge :: "domain_rule list \<Rightarrow> domain_rule" where
  "Merge rules = fold (\<lambda>sub r. \<lparr>dr_Domain = dr_Domain r @ dr_Domain sub,
     dr_DomainSuffix = dr_DomainSuffix r @ dr_DomainSuffix sub,
     dr_DomainKeyword = dr_DomainKeyword r @ dr_DomainKeyword sub,
     dr_DomainRegex = dr_DomainRegex r @ dr_DomainRegex sub\<rparr>) rules empty_rule"

definition append_rule :: "domain_rule \<Rightarrow> domain_rule \<Rightarrow> domain_rule" where
  "append_rule r s = \<lparr>dr_Domain = dr_Domain r @ dr_Domain s, dr_DomainSuffix = dr_DomainSuffix r @ dr_DomainSuffix s,
     dr_DomainKeyword = dr_DomainKeyword r @ dr_DomainKeyword s, dr_DomainRegex = dr_DomainRegex r @ dr_DomainRegex s\<rparr>"

lemma append_rule_empty [simp]: "append_rule r empty_rule = r" "append_rule empty_rule r = r"
  by (simp_all add: append_rule_def empty_rule_def)

lemma append_rule_assoc: "append_rule (append_rule r s) t = append_rule r (append_rule s t)"
  by (simp add: append_rule_def)

lemma compile_fold: "fold compile_item code r = append_rule r (Compile code)"
proof (induction code arbitrary: r)
  case (Cons item code)
  have step: "compile_item item r = append_rule r (compile_item item empty_rule)" for r
    by (simp add: compile_item_def append_rule_def empty_rule_def)
  show ?case
    using Cons [of "compile_item item r"] Cons [of "compile_item item empty_rule"] step [of r]
    by (simp add: Compile_def append_rule_assoc)
qed (simp add: Compile_def)

text \<open>Merging the rules of several codes is compiling their items together.\<close>

lemma Merge_Compile: "Merge (map Compile codes) = Compile (concat codes)"
proof -
  have "fold (\<lambda>sub r. append_rule r sub) (map Compile codes) r = append_rule r (Compile (concat codes))" for r
  proof (induction codes arbitrary: r)
    case Nil
    then show ?case by (simp add: Compile_def)
  next
    case (Cons c cs)
    have "Compile (c @ concat cs) = append_rule (Compile c) (Compile (concat cs))"
      by (simp add: Compile_def [of "c @ concat cs"] fold_append compile_fold)
    with Cons show ?case by (simp add: append_rule_assoc)
  qed
  then show ?thesis by (simp add: Merge_def flip: append_rule_def)
qed


section \<open>Round trip\<close>

context varbin_laws
begin

lemma readString_write: "length s < 2 ^ 64 \<Longrightarrow> readString (writeString V s @ rest) = Ok (s, rest)"
  using repeat_ReadByte [of "bytes_of s" rest]
  by (simp add: readString_def writeString_def read_count)

lemma read_item_write: "length (it_Value i) < 2 ^ 64 \<Longrightarrow> read_item (write_item V i @ rest) = Ok (i, rest)"
  by (simp add: read_item_def write_item_def readString_write)

lemma read_entry_write:
  assumes "length code < 2 ^ 64" "idx \<le> MaxInt32" "count \<le> MaxInt32"
  shows "read_entry (write_entry V (code, idx, count) @ rest) = Ok ((code, idx, count), rest)"
proof -
  have "idx < 2 ^ 64" "count < 2 ^ 64" using assms(2,3) by (simp_all add: MaxInt32_def)
  then show ?thesis using assms by (simp add: read_entry_def write_entry_def readString_write read_count)
qed

end

abbreviation code_bytes :: "varbin \<Rightarrow> (string, Item list) gomap \<Rightarrow> string \<Rightarrow> byte list" where
  "code_bytes V domains code \<equiv> concat (map (write_item V) (items_at domains code))"

text \<open>The table points at the items of each code.\<close>

lemma write_content_spec:
  assumes "distinct keys" "write_content V domains keys c0 i0 = (c, i)"
  shows "c = c0 @ concat (map (code_bytes V domains) keys) \<and>
    (\<forall>k \<in> set keys. \<exists>off rest. gm_get i k = Some off \<and> off \<le> length c \<and> drop off c = code_bytes V domains k @ rest) \<and>
    (\<forall>k. k \<notin> set keys \<longrightarrow> gm_get i k = gm_get i0 k)"
  using assms
proof (induction keys arbitrary: c0 i0)
  case (Cons code keys)
  let ?c1 = "c0 @ code_bytes V domains code" and ?i1 = "gm_set code (length c0) i0"
  have "distinct keys" "write_content V domains keys ?c1 ?i1 = (c, i)" using Cons.prems by simp_all
  note ih = Cons.IH [OF this]
  have "gm_get i code = Some (length c0)" using ih Cons.prems(1) by (simp add: gm_get_set)
  then have "\<exists>off rest. gm_get i code = Some off \<and> off \<le> length c \<and> drop off c = code_bytes V domains code @ rest"
    using ih by auto
  moreover have "c = c0 @ concat (map (code_bytes V domains) (code # keys))" using ih by simp
  ultimately show ?case using ih unfolding set_simps ball_simps(7) by (metis gm_get_set insert_iff)
qed auto

text \<open>The sizes a file can have: offsets and counts below \<open>math.MaxInt32\<close>, and the lengths of Go values.\<close>

definition fits :: "varbin \<Rightarrow> (string, Item list) gomap \<Rightarrow> bool" where
  "fits V domains =
     (gm_wf domains \<and> length domains < 2 ^ 64 \<and>
      length (fst (write_content V domains (sort (gm_keys domains)) [] [])) \<le> MaxInt32 \<and>
      list_all (\<lambda>(code, items). length code < 2 ^ 64 \<and> length items \<le> MaxInt32 \<and>
        list_all (\<lambda>i. length (it_Value i) < 2 ^ 64) items) domains)"

lemma items_at_iff: "gm_wf domains \<Longrightarrow> code \<in> set (gm_keys domains) \<Longrightarrow> (code, items_at domains code) \<in> set domains"
  by (auto simp: items_at_def gm_keys_get gm_wf_get split: option.splits)

lemma get_fold_table:
  "gm_get (fold (\<lambda>(k, v). gm_set k v) (map (\<lambda>k. (k, f k)) ks) m) k = (if k \<in> set ks then Some (f k) else gm_get m k)"
  by (induction ks arbitrary: m) (auto simp: gm_get_set)

lemma written_table:
  assumes V: "varbin_laws V" and ok: "fits V domains"
  shows "\<exists>r. readMetadata (Write V domains) = Ok r \<and>
    (\<forall>code. if code \<in> set (gm_keys domains)
       then \<exists>off rest. gm_get (gr_domainIndex r) code = Some off \<and>
         gm_get (gr_domainLength r) code = Some (length (items_at domains code)) \<and>
         drop (gr_metadataIndex r + off) (gr_file r) = code_bytes V domains code @ rest
       else gm_get (gr_domainIndex r) code = None)"
proof -
  define keys where "keys = sort (gm_keys domains)"
  obtain content i where wc: "write_content V domains keys [] [] = (content, i)" by (cases "write_content V domains keys [] []")
  define off where "off code = (case gm_get i code of Some n \<Rightarrow> n | None \<Rightarrow> 0)" for code
  define entries where "entries = map (\<lambda>code. (code, off code, length (items_at domains code))) keys"
  have keys: "distinct keys" "set keys = set (gm_keys domains)" "length keys = length domains"
    using ok by (simp_all add: keys_def fits_def gm_wf_def gm_keys_def)
  note spec = write_content_spec [OF keys(1) wc]
  have at: "off code \<le> length content \<and> (\<exists>rest. drop (off code) content = code_bytes V domains code @ rest)"
    if "code \<in> set keys" for code
    using spec that by (auto simp: off_def)
  have "undoes read_entry (write_entry V) e" if "e \<in> set entries" for e
  proof -
    obtain code where code: "code \<in> set keys" "e = (code, off code, length (items_at domains code))"
      using \<open>e \<in> set entries\<close> by (auto simp: entries_def)
    have "(code, items_at domains code) \<in> set domains" using items_at_iff code(1) keys(2) ok by (simp add: fits_def)
    then have "length code < 2 ^ 64" "length (items_at domains code) \<le> MaxInt32" using ok by (auto simp: fits_def list_all_iff)
    moreover have "off code \<le> MaxInt32" using at [OF code(1)] ok wc by (simp add: fits_def keys_def)
    ultimately show ?thesis using varbin_laws.read_entry_write [OF V] code(2) by (simp add: undoes_def)
  qed
  then have "repeat (length keys) read_entry (concat (map (write_entry V) entries) @ content) = Ok (entries, content)"
    using repeat_undoes [of entries read_entry "write_entry V" content] by (simp add: entries_def)
  moreover have whole: "Write V domains = 0 # vb_WriteUvarint V (length keys) @ concat (map (write_entry V) entries) @ content"
    by (simp add: Write_def wc entries_def comp_def off_def flip: keys_def)
  moreover have "length keys < 2 ^ 64" using ok keys(3) by (simp add: fits_def)
  ultimately have read: "readMetadata (Write V domains) =
      Ok \<lparr>gr_file = Write V domains, gr_metadataIndex = length (Write V domains) - length content,
        gr_domainIndex = fold (\<lambda>(code, i). gm_set code i) (map (\<lambda>code. (code, off code)) keys) [],
        gr_domainLength = fold (\<lambda>(code, n). gm_set code n) (map (\<lambda>code. (code, length (items_at domains code))) keys) []\<rparr>"
    by (simp add: readMetadata_def varbin_laws.read_count [OF V] entries_def comp_def)
  have "drop (length (Write V domains) - length content + n) (Write V domains) = drop n content" for n
    using whole by simp
  then show ?thesis using read at keys(2) by (auto simp: get_fold_table)
qed

text \<open>C23. Geosite round trip. Whatever database is written, a reader opens the file, lists exactly its codes,
  returns for every code exactly the items that were written, in order, and reports an error for any other code.
  The hypotheses are the laws of the varbin library and the sizes: distinct codes, and offsets and item counts of
  at most \<open>math.MaxInt32\<close>.\<close>

theorem geosite_roundtrip:
  assumes "varbin_laws V" and "fits V domains"
  shows "\<exists>r codes. NewReader (Write V domains) = Ok (r, codes) \<and> set codes = set (gm_keys domains) \<and>
    (\<forall>code. Read r code = (case gm_get domains code of Some items \<Rightarrow> Ok items | None \<Rightarrow> Err (CodeNotExists code)))"
proof -
  obtain r where r: "readMetadata (Write V domains) = Ok r"
    and tab: "\<And>code. if code \<in> set (gm_keys domains)
       then \<exists>off rest. gm_get (gr_domainIndex r) code = Some off \<and>
         gm_get (gr_domainLength r) code = Some (length (items_at domains code)) \<and>
         drop (gr_metadataIndex r + off) (gr_file r) = code_bytes V domains code @ rest
       else gm_get (gr_domainIndex r) code = None"
    using written_table [OF assms] by blast
  have "code \<in> set (gm_keys (gr_domainIndex r)) \<longleftrightarrow> code \<in> set (gm_keys domains)" for code
    using tab [of code] by (auto simp: gm_keys_get split: if_splits)
  moreover have "Read r code = (case gm_get domains code of Some items \<Rightarrow> Ok items | None \<Rightarrow> Err (CodeNotExists code))" for code
  proof (cases "code \<in> set (gm_keys domains)")
    case False
    then show ?thesis using tab [of code] by (simp add: Read_def gm_keys_get)
  next
    case True
    then obtain off rest where o: "gm_get (gr_domainIndex r) code = Some off"
        "gm_get (gr_domainLength r) code = Some (length (items_at domains code))"
        "drop (gr_metadataIndex r + off) (gr_file r) = code_bytes V domains code @ rest"
      using tab [of code] by auto
    have "(code, items_at domains code) \<in> set domains" using items_at_iff True assms(2) by (simp add: fits_def)
    then have "undoes read_item (write_item V) it" if "it \<in> set (items_at domains code)" for it
      using that assms(2) varbin_laws.read_item_write [OF assms(1)] by (fastforce simp: fits_def list_all_iff undoes_def)
    then show ?thesis
      using True o repeat_undoes [of "items_at domains code" read_item "write_item V" rest]
      by (auto simp: Read_def items_at_def gm_keys_get)
  qed
  ultimately show ?thesis using r by (auto simp: NewReader_def)
qed

text \<open>Witness of C23.\<close>

definition example_domains :: "(string, Item list) gomap" where
  "example_domains = [(''google'', [\<lparr>it_Type = 1, it_Value = ''google.com''\<rparr>, \<lparr>it_Type = 0, it_Value = ''g.co''\<rparr>]),
     (''cn'', []), (''ads'', [\<lparr>it_Type = 2, it_Value = ''ads''\<rparr>])]"

theorem geosite_roundtrip_witness:
  "fits std_varbin example_domains \<and>
   (\<exists>r codes. NewReader (Write std_varbin example_domains) = Ok (r, codes) \<and> set codes = {''google'', ''cn'', ''ads''} \<and>
     Read r ''ads'' = Ok [\<lparr>it_Type = 2, it_Value = ''ads''\<rparr>])"
proof -
  have "sort (gm_keys example_domains) = [''ads'', ''cn'', ''google'']" by code_simp
  then have ok: "fits std_varbin example_domains"
    by (simp add: fits_def MaxInt32_def example_domains_def gm_wf_def items_at_def write_item_def writeString_def std_varbin_def PutUvarint.simps)
  obtain r codes where r: "NewReader (Write std_varbin example_domains) = Ok (r, codes)"
    "set codes = set (gm_keys example_domains)"
    "\<forall>code. Read r code = (case gm_get example_domains code of Some items \<Rightarrow> Ok items | None \<Rightarrow> Err (CodeNotExists code))"
    using geosite_roundtrip [OF std.varbin_laws_axioms ok] by blast
  then show ?thesis using ok by (simp add: example_domains_def gm_keys_def insert_commute)
qed

end
