(* ===== verification/Route_Items.thy ===== *)
theory Route_Items
  imports Go_Strings
begin

text \<open>
  The conditions of a route or DNS rule, \<^verbatim>\<open>route/rule/rule_item_*.go\<close>, over the connection
  metadata of \<^verbatim>\<open>adapter/inbound.go\<close>: one \<open>Match\<close> per item type, with the constructor that builds its
  lookup table.

  Not in the repository, so parameters: the domain matchers and address tests of the sing library
  (fields of an item or of \<open>route_env\<close>), compiled regular expressions and IP sets (predicates), and
  what the operating system reports of its interfaces (fields of \<open>route_env\<close>).
\<close>

section \<open>Addresses and prefixes\<close>

text \<open>\<open>netip.Addr\<close>: the zero value, an IPv4 address, or an IPv6 address with its zone.\<close>

datatype addr = ZeroAddr | IPv4 "32 word" | IPv6 "128 word" string

definition addr_IsValid :: "addr \<Rightarrow> bool" where
  "addr_IsValid a = (a \<noteq> ZeroAddr)"

definition addr_BitLen :: "addr \<Rightarrow> nat" where
  "addr_BitLen a = (case a of ZeroAddr \<Rightarrow> 0 | IPv4 _ \<Rightarrow> 32 | IPv6 _ _ \<Rightarrow> 128)"

definition addr_bits :: "addr \<Rightarrow> nat" where
  "addr_bits a = (case a of ZeroAddr \<Rightarrow> 0 | IPv4 w \<Rightarrow> unat w | IPv6 w _ \<Rightarrow> unat w)"

definition addr_zone :: "addr \<Rightarrow> string" where
  "addr_zone a = (case a of IPv6 _ z \<Rightarrow> z | _ \<Rightarrow> [])"

text \<open>\<open>Addr.Unmap\<close> turns \<open>::ffff:a.b.c.d\<close> into \<open>a.b.c.d\<close>.\<close>

definition addr_Unmap :: "addr \<Rightarrow> addr" where
  "addr_Unmap a = (case a of
     IPv6 w _ \<Rightarrow> if unat w div 2 ^ 32 = 0xFFFF then IPv4 (word_of_nat (unat w)) else a
   | _ \<Rightarrow> a)"

text \<open>\<open>netip.Prefix\<close>: \<open>Bits()\<close> is \<open>-1\<close> for the zero prefix.\<close>

record prefix =
  pf_Addr :: addr
  pf_Bits :: int

definition prefix_IsValid :: "prefix \<Rightarrow> bool" where
  "prefix_IsValid p = (pf_Addr p \<noteq> ZeroAddr \<and> 0 \<le> pf_Bits p \<and> pf_Bits p \<le> int (addr_BitLen (pf_Addr p)))"

text \<open>One range of \<open>netipx.IPSet\<close>.\<close>

record ip_range =
  ir_from :: addr
  ir_to :: addr

definition top_bits :: "nat \<Rightarrow> addr \<Rightarrow> nat" where
  "top_bits n a = addr_bits a div 2 ^ (addr_BitLen a - n)"

definition prefix_Contains :: "prefix \<Rightarrow> addr \<Rightarrow> bool" where
  "prefix_Contains p a =
     (prefix_IsValid p \<and> addr_zone a = [] \<and> a \<noteq> ZeroAddr \<and> addr_BitLen a = addr_BitLen (pf_Addr p) \<and>
      top_bits (nat (pf_Bits p)) a = top_bits (nat (pf_Bits p)) (pf_Addr p))"

definition prefix_Overlaps :: "prefix \<Rightarrow> prefix \<Rightarrow> bool" where
  "prefix_Overlaps p q =
     (prefix_IsValid p \<and> prefix_IsValid q \<and>
      (p = q \<or>
       addr_BitLen (pf_Addr p) = addr_BitLen (pf_Addr q) \<and>
       (let n = nat (min (pf_Bits p) (pf_Bits q)) in top_bits n (pf_Addr p) = top_bits n (pf_Addr q))))"


section \<open>Metadata\<close>

record socksaddr =
  sa_Addr :: addr
  sa_Port :: uint16
  sa_Fqdn :: string

record connection_owner =
  co_UserId :: int
  co_UserName :: string
  co_ProcessPath :: string
  co_AndroidPackageNames :: "string list"

text \<open>The records of a DNS answer, as far as the matcher tells them apart.\<close>

datatype svcb_value = SVCBIPv4Hint "byte list list" | SVCBIPv6Hint "byte list list" | SVCBOther string

datatype dns_rr = RR_A "byte list" | RR_AAAA "byte list" | RR_HTTPS "svcb_value list" | RR_Other string

record dns_msg =
  dm_Rcode :: int
  dm_Answer :: "dns_rr list"
  dm_Ns :: "dns_rr list"
  dm_Extra :: "dns_rr list"

text \<open>The fields of \<open>adapter.InboundContext\<close> that the rules read, and the rule cache they write.\<close>

record inbound_context =
  ic_Inbound :: string
  ic_IPVersion :: nat
  ic_Network :: string
  ic_Source :: socksaddr
  ic_Destination :: socksaddr
  ic_User :: string
  ic_Outbound :: string
  ic_Protocol :: string
  ic_Domain :: string
  ic_Client :: string
  ic_DestinationAddresses :: "addr list"
  ic_DNSResponse :: "dns_msg option"
  ic_NamedDNSResponses :: "(string, dns_msg) gomap"
  ic_DestinationAddressMatchFromResponse :: bool
  ic_ProcessInfo :: "connection_owner option"
  ic_SourceMACAddress :: "string option"       \<comment> \<open>\<open>SourceMACAddress.String()\<close>\<close>
  ic_SourceHostname :: string
  ic_QueryType :: uint16
  ic_QueryClientSubnet :: prefix
  ic_QueryDNSSEC :: bool
  ic_IPCIDRMatchSource :: bool
  ic_IPCIDRAcceptEmpty :: bool
  ic_SourceAddressMatch :: bool
  ic_SourcePortMatch :: bool
  ic_DestinationAddressMatch :: bool
  ic_DestinationPortMatch :: bool
  ic_DeferredIPCIDRMatchGroups :: "8 word"
  ic_IgnoreDestinationIPCIDRMatch :: bool

definition ResetRuleMatchCache :: "inbound_context \<Rightarrow> inbound_context" where
  "ResetRuleMatchCache c = c\<lparr>ic_SourceAddressMatch := False, ic_SourcePortMatch := False,
     ic_DestinationAddressMatch := False, ic_DestinationPortMatch := False,
     ic_DeferredIPCIDRMatchGroups := 0\<rparr>"

definition ResetRuleCache :: "inbound_context \<Rightarrow> inbound_context" where
  "ResetRuleCache c = ResetRuleMatchCache (c\<lparr>ic_IPCIDRMatchSource := False, ic_IPCIDRAcceptEmpty := False\<rparr>)"

record net_interface =
  ni_Name :: string
  ni_Addresses :: "prefix list"
  ni_Type :: nat
  ni_Expensive :: bool
  ni_Constrained :: bool

record route_env =
  re_unicode :: unicode
  re_IsIP :: "socksaddr \<Rightarrow> bool"             \<comment> \<open>\<open>Socksaddr.IsIP\<close>\<close>
  re_IsIPv6 :: "socksaddr \<Rightarrow> bool"           \<comment> \<open>\<open>Socksaddr.IsIPv6\<close>\<close>
  re_IsPublicAddr :: "addr \<Rightarrow> bool"          \<comment> \<open>\<open>N.IsPublicAddr\<close>\<close>
  re_AddrFromIP :: "byte list \<Rightarrow> addr"       \<comment> \<open>\<open>M.AddrFromIP\<close>\<close>
  re_IsDuplicate :: "dns_rr \<Rightarrow> dns_rr \<Rightarrow> bool"  \<comment> \<open>\<open>dns.IsDuplicate\<close>\<close>
  re_CanonicalName :: "string \<Rightarrow> string"       \<comment> \<open>\<open>dns.CanonicalName\<close>\<close>
  re_clashMode :: "string option"              \<comment> \<open>the mode of the clash manager, if there is one\<close>
  re_IsAndroid :: bool
  re_defaultInterface :: "net_interface option" \<comment> \<open>\<open>DefaultNetworkInterface()\<close>\<close>
  re_networkInterfaces :: "net_interface list"
  re_finderInterfaces :: "net_interface list"   \<comment> \<open>\<open>InterfaceFinder().Interfaces()\<close>\<close>
  re_myInterfaces :: "string list"
  re_monitorInterface :: "net_interface option" \<comment> \<open>\<open>InterfaceMonitor().DefaultInterface()\<close>\<close>
  re_SSID :: string
  re_BSSID :: string

definition svcb_addresses :: "route_env \<Rightarrow> svcb_value \<Rightarrow> addr list" where
  "svcb_addresses ev v = (case v of
     SVCBIPv4Hint ips \<Rightarrow> filter addr_IsValid (map (\<lambda>ip. addr_Unmap (re_AddrFromIP ev ip)) ips)
   | SVCBIPv6Hint ips \<Rightarrow> filter addr_IsValid (map (re_AddrFromIP ev) ips)
   | SVCBOther _ \<Rightarrow> [])"

definition rr_addresses :: "route_env \<Rightarrow> dns_rr \<Rightarrow> addr list" where
  "rr_addresses ev rr = (case rr of
     RR_A ip \<Rightarrow> filter addr_IsValid [re_AddrFromIP ev ip]
   | RR_AAAA ip \<Rightarrow> filter addr_IsValid [re_AddrFromIP ev ip]
   | RR_HTTPS vs \<Rightarrow> concat (map (svcb_addresses ev) vs)
   | RR_Other _ \<Rightarrow> [])"

definition DNSResponseAddresses :: "route_env \<Rightarrow> dns_msg option \<Rightarrow> addr list" where
  "DNSResponseAddresses ev response = (case response of
     None \<Rightarrow> []
   | Some m \<Rightarrow> if dm_Rcode m \<noteq> 0 then [] else concat (map (rr_addresses ev) (dm_Answer m)))"

definition DNSResponseAddressesForMatch :: "route_env \<Rightarrow> inbound_context \<Rightarrow> addr list" where
  "DNSResponseAddressesForMatch ev c = DNSResponseAddresses ev (ic_DNSResponse c)"


section \<open>Lookup tables\<close>

text \<open>The constructors fill a \<open>map[k]bool\<close> from a list; reading an absent key gives \<open>false\<close>.\<close>

definition bool_map :: "'k list \<Rightarrow> ('k, bool) gomap" where
  "bool_map ks = fold (\<lambda>k. gm_set k True) ks []"

definition has_key :: "('k, bool) gomap \<Rightarrow> 'k \<Rightarrow> bool" where
  "has_key m k = (gm_get m k = Some True)"

lemma has_key_fold: "has_key (fold (\<lambda>k. gm_set k True) ks m) k \<longleftrightarrow> k \<in> set ks \<or> has_key m k"
  by (induction ks arbitrary: m) (auto simp: has_key_def gm.get_put)

lemma has_key_bool_map [simp]: "has_key (bool_map ks) k \<longleftrightarrow> k \<in> set ks"
  by (simp add: bool_map_def has_key_fold) (simp add: has_key_def)


section \<open>Items\<close>

text \<open>The host a domain condition looks at: the sniffed domain, else the destination name.\<close>

definition domain_host :: "inbound_context \<Rightarrow> string" where
  "domain_host c = (if ic_Domain c \<noteq> [] then ic_Domain c else sa_Fqdn (ic_Destination c))"

definition host_Match :: "route_env \<Rightarrow> (string \<Rightarrow> bool) \<Rightarrow> inbound_context \<Rightarrow> bool" where
  "host_Match ev f c = (let h = domain_host c in if h = [] then False else f (toLower (re_unicode ev) h))"

subsection \<open>Domains\<close>

definition DomainItem_Match :: "route_env \<Rightarrow> (string \<Rightarrow> bool) \<Rightarrow> inbound_context \<Rightarrow> bool" where
  "DomainItem_Match ev matcher c = host_Match ev matcher c"

fun contains_sub :: "string \<Rightarrow> string \<Rightarrow> bool" where
  "contains_sub [] p = (p = [])"
| "contains_sub (x # xs) p = (take (length p) (x # xs) = p \<or> contains_sub xs p)"

definition DomainKeywordItem_Match :: "route_env \<Rightarrow> string list \<Rightarrow> inbound_context \<Rightarrow> bool" where
  "DomainKeywordItem_Match ev keywords c = host_Match ev (\<lambda>h. list_ex (contains_sub h) keywords) c"

definition DomainRegexItem_Match :: "route_env \<Rightarrow> (string \<Rightarrow> bool) list \<Rightarrow> inbound_context \<Rightarrow> bool" where
  "DomainRegexItem_Match ev matchers c = host_Match ev (\<lambda>h. list_ex (\<lambda>m. m h) matchers) c"

definition AdGuardDomainItem_Match :: "route_env \<Rightarrow> (string \<Rightarrow> bool) \<Rightarrow> inbound_context \<Rightarrow> bool" where
  "AdGuardDomainItem_Match ev matcher c = host_Match ev matcher c"

subsection \<open>Addresses\<close>

definition IPCIDRItem_Match :: "route_env \<Rightarrow> (addr \<Rightarrow> bool) \<Rightarrow> bool \<Rightarrow> inbound_context \<Rightarrow> bool" where
  "IPCIDRItem_Match ev ipSet isSource c =
     (if isSource \<or> ic_IPCIDRMatchSource c then ipSet (sa_Addr (ic_Source c))
      else if ic_DestinationAddressMatchFromResponse c then
        (let addresses = DNSResponseAddressesForMatch ev c
         in if addresses = [] then ic_IPCIDRAcceptEmpty c else list_ex ipSet addresses)
      else if re_IsIP ev (ic_Destination c) then ipSet (sa_Addr (ic_Destination c))
      else if ic_DestinationAddresses c \<noteq> [] then list_ex ipSet (ic_DestinationAddresses c)
      else ic_IPCIDRAcceptEmpty c)"

definition IPIsPrivateItem_Match :: "route_env \<Rightarrow> bool \<Rightarrow> inbound_context \<Rightarrow> bool" where
  "IPIsPrivateItem_Match ev isSource c =
     (if isSource then \<not> re_IsPublicAddr ev (sa_Addr (ic_Source c))
      else if ic_DestinationAddressMatchFromResponse c then
        list_ex (\<lambda>a. \<not> re_IsPublicAddr ev a) (DNSResponseAddressesForMatch ev c)
      else if addr_IsValid (sa_Addr (ic_Destination c)) then \<not> re_IsPublicAddr ev (sa_Addr (ic_Destination c))
      else list_ex (\<lambda>a. \<not> re_IsPublicAddr ev a) (ic_DestinationAddresses c))"

definition IPAcceptAnyItem_Match :: "route_env \<Rightarrow> inbound_context \<Rightarrow> bool" where
  "IPAcceptAnyItem_Match ev c =
     (if ic_DestinationAddressMatchFromResponse c then DNSResponseAddressesForMatch ev c \<noteq> []
      else ic_DestinationAddresses c \<noteq> [])"

definition IPVersionItem_Match :: "route_env \<Rightarrow> bool \<Rightarrow> inbound_context \<Rightarrow> bool" where
  "IPVersionItem_Match ev isIPv6 c =
     (ic_IPVersion c \<noteq> 0 \<and> (ic_IPVersion c = 6) = isIPv6 \<or>
      re_IsIP ev (ic_Destination c) \<and> re_IsIPv6 ev (ic_Destination c) = isIPv6)"

subsection \<open>Ports\<close>

definition item_port :: "bool \<Rightarrow> inbound_context \<Rightarrow> uint16" where
  "item_port isSource c = (if isSource then sa_Port (ic_Source c) else sa_Port (ic_Destination c))"

definition PortItem_Match :: "(uint16, bool) gomap \<Rightarrow> bool \<Rightarrow> inbound_context \<Rightarrow> bool" where
  "PortItem_Match portMap isSource c = has_key portMap (item_port isSource c)"

record rangeItem =
  ri_start :: uint16
  ri_end :: uint16

definition PortRangeItem_Match :: "bool \<Rightarrow> rangeItem list \<Rightarrow> inbound_context \<Rightarrow> bool" where
  "PortRangeItem_Match isSource portRangeList c =
     (let port = item_port isSource c in list_ex (\<lambda>r. ri_start r \<le> port \<and> port \<le> ri_end r) portRangeList)"

subsection \<open>Names\<close>

definition InboundItem_Match :: "(string, bool) gomap \<Rightarrow> inbound_context \<Rightarrow> bool" where
  "InboundItem_Match inboundMap c = has_key inboundMap (ic_Inbound c)"

definition NetworkItem_Match :: "(string, bool) gomap \<Rightarrow> inbound_context \<Rightarrow> bool" where
  "NetworkItem_Match networkMap c = has_key networkMap (ic_Network c)"

definition ProtocolItem_Match :: "(string, bool) gomap \<Rightarrow> inbound_context \<Rightarrow> bool" where
  "ProtocolItem_Match protocolMap c = has_key protocolMap (ic_Protocol c)"

definition ClientItem_Match :: "(string, bool) gomap \<Rightarrow> inbound_context \<Rightarrow> bool" where
  "ClientItem_Match clientMap c = has_key clientMap (ic_Client c)"

definition AuthUserItem_Match :: "(string, bool) gomap \<Rightarrow> inbound_context \<Rightarrow> bool" where
  "AuthUserItem_Match userMap c = has_key userMap (ic_User c)"

definition OutboundItem_Match :: "(string, bool) gomap \<Rightarrow> bool \<Rightarrow> inbound_context \<Rightarrow> bool" where
  "OutboundItem_Match outboundMap matchAny c =
     (if matchAny then ic_Outbound c \<noteq> [] else has_key outboundMap (ic_Outbound c))"

definition SourceHostnameItem_Match :: "(string, bool) gomap \<Rightarrow> inbound_context \<Rightarrow> bool" where
  "SourceHostnameItem_Match hostnameMap c =
     (if ic_SourceHostname c = [] then False else has_key hostnameMap (ic_SourceHostname c))"

definition SourceMACAddressItem_Match :: "(string, bool) gomap \<Rightarrow> inbound_context \<Rightarrow> bool" where
  "SourceMACAddressItem_Match addressMap c =
     (case ic_SourceMACAddress c of None \<Rightarrow> False | Some a \<Rightarrow> has_key addressMap a)"

definition ClashModeItem_Match :: "route_env \<Rightarrow> string \<Rightarrow> bool" where
  "ClashModeItem_Match ev mode =
     (case re_clashMode ev of None \<Rightarrow> False | Some m \<Rightarrow> equalFold (re_unicode ev) m mode)"

subsection \<open>Processes\<close>

text \<open>\<open>filepath.Base\<close> on a slash-separated path.\<close>

definition filepath_Base :: "string \<Rightarrow> string" where
  "filepath_Base path =
     (if path = [] then ''.''
      else let p = trimRight_byte (CHR ''/'') path
           in if p = [] then ''/'' else last (split_on (CHR ''/'') p))"

definition ProcessItem_Match :: "(string, bool) gomap \<Rightarrow> inbound_context \<Rightarrow> bool" where
  "ProcessItem_Match processMap c = (case ic_ProcessInfo c of
     None \<Rightarrow> False
   | Some p \<Rightarrow> if co_ProcessPath p = [] then False else has_key processMap (filepath_Base (co_ProcessPath p)))"

definition ProcessPathItem_Match :: "route_env \<Rightarrow> (string, bool) gomap \<Rightarrow> inbound_context \<Rightarrow> bool" where
  "ProcessPathItem_Match ev processMap c = (case ic_ProcessInfo c of
     None \<Rightarrow> False
   | Some p \<Rightarrow>
       if co_ProcessPath p \<noteq> [] \<and> has_key processMap (co_ProcessPath p) then True
       else if re_IsAndroid ev then list_ex (has_key processMap) (co_AndroidPackageNames p)
       else False)"

definition ProcessPathRegexItem_Match :: "(string \<Rightarrow> bool) list \<Rightarrow> inbound_context \<Rightarrow> bool" where
  "ProcessPathRegexItem_Match matchers c = (case ic_ProcessInfo c of
     None \<Rightarrow> False
   | Some p \<Rightarrow> if co_ProcessPath p = [] then False else list_ex (\<lambda>m. m (co_ProcessPath p)) matchers)"

definition PackageNameItem_Match :: "(string, bool) gomap \<Rightarrow> inbound_context \<Rightarrow> bool" where
  "PackageNameItem_Match packageMap c = (case ic_ProcessInfo c of
     None \<Rightarrow> False
   | Some p \<Rightarrow> list_ex (has_key packageMap) (co_AndroidPackageNames p))"

definition PackageNameRegexItem_Match :: "(string \<Rightarrow> bool) list \<Rightarrow> inbound_context \<Rightarrow> bool" where
  "PackageNameRegexItem_Match matchers c = (case ic_ProcessInfo c of
     None \<Rightarrow> False
   | Some p \<Rightarrow> list_ex (\<lambda>m. list_ex m (co_AndroidPackageNames p)) matchers)"

definition UserItem_Match :: "(string, bool) gomap \<Rightarrow> inbound_context \<Rightarrow> bool" where
  "UserItem_Match userMap c = (case ic_ProcessInfo c of
     None \<Rightarrow> False
   | Some p \<Rightarrow> if co_UserName p = [] then False else has_key userMap (co_UserName p))"

definition UserIdItem_Match :: "(int, bool) gomap \<Rightarrow> inbound_context \<Rightarrow> bool" where
  "UserIdItem_Match userIdMap c = (case ic_ProcessInfo c of
     None \<Rightarrow> False
   | Some p \<Rightarrow> if co_UserId p = -1 then False else has_key userIdMap (co_UserId p))"

subsection \<open>Networks\<close>

definition NetworkTypeItem_Match :: "route_env \<Rightarrow> nat list \<Rightarrow> bool" where
  "NetworkTypeItem_Match ev networkType = (case re_defaultInterface ev of
     None \<Rightarrow> False | Some i \<Rightarrow> ni_Type i \<in> set networkType)"

definition NetworkIsExpensiveItem_Match :: "route_env \<Rightarrow> bool" where
  "NetworkIsExpensiveItem_Match ev = (case re_defaultInterface ev of
     None \<Rightarrow> False | Some i \<Rightarrow> ni_Expensive i)"

definition NetworkIsConstrainedItem_Match :: "route_env \<Rightarrow> bool" where
  "NetworkIsConstrainedItem_Match ev = (case re_defaultInterface ev of
     None \<Rightarrow> False | Some i \<Rightarrow> ni_Constrained i)"

definition WIFISSIDItem_Match :: "route_env \<Rightarrow> (string, bool) gomap \<Rightarrow> bool" where
  "WIFISSIDItem_Match ev ssidMap = has_key ssidMap (re_SSID ev)"

definition WIFIBSSIDItem_Match :: "route_env \<Rightarrow> (string, bool) gomap \<Rightarrow> bool" where
  "WIFIBSSIDItem_Match ev bssidMap = has_key bssidMap (re_BSSID ev)"

text \<open>\<open>common.Find\<close> gives the zero interface, with an empty name, when there is none.\<close>

definition InterfaceAddressItem_Match :: "route_env \<Rightarrow> (string, prefix list) gomap \<Rightarrow> bool" where
  "InterfaceAddressItem_Match ev interfaceAddresses =
     list_all (\<lambda>(ifName, addresses).
        (case List.find (\<lambda>i. ni_Name i = ifName) (re_finderInterfaces ev) of
           None \<Rightarrow> False
         | Some i \<Rightarrow>
             ni_Name i \<noteq> [] \<and>
             \<not> list_all (\<lambda>a. list_all (\<lambda>it. \<not> prefix_Overlaps a it) (ni_Addresses i)) addresses))
       interfaceAddresses"

definition DefaultInterfaceAddressItem_Match :: "route_env \<Rightarrow> prefix list \<Rightarrow> bool" where
  "DefaultInterfaceAddressItem_Match ev interfaceAddresses = (case re_monitorInterface ev of
     None \<Rightarrow> False
   | Some i \<Rightarrow>
       list_all (\<lambda>a. \<not> list_all (\<lambda>it. \<not> prefix_Overlaps a it) (ni_Addresses i)) interfaceAddresses)"

definition NetworkInterfaceAddressItem_Match :: "route_env \<Rightarrow> (nat, prefix list) gomap \<Rightarrow> bool" where
  "NetworkInterfaceAddressItem_Match ev interfaceAddresses =
     list_all (\<lambda>(ifType, addresses).
        list_ex (\<lambda>i. ni_Name i \<notin> set (re_myInterfaces ev) \<and> ni_Type i = ifType \<and>
                     list_ex (\<lambda>it. list_ex (\<lambda>p. prefix_Overlaps p it) addresses) (ni_Addresses i))
          (re_networkInterfaces ev))
       interfaceAddresses"

subsection \<open>DNS queries and responses\<close>

definition QueryTypeItem_Match :: "(uint16, bool) gomap \<Rightarrow> inbound_context \<Rightarrow> bool" where
  "QueryTypeItem_Match typeMap c = (if ic_QueryType c = 0 then False else has_key typeMap (ic_QueryType c))"

definition QueryClientSubnetItem_Match :: "prefix list \<Rightarrow> inbound_context \<Rightarrow> bool" where
  "QueryClientSubnetItem_Match prefixes c =
     (let cs = ic_QueryClientSubnet c
      in if \<not> prefix_IsValid cs then False
         else list_ex (\<lambda>p. pf_Bits p \<le> pf_Bits cs \<and> prefix_Contains p (pf_Addr cs)) prefixes)"

definition DNSResponseRCodeItem_Match :: "int \<Rightarrow> inbound_context \<Rightarrow> bool" where
  "DNSResponseRCodeItem_Match rcode c = (case ic_DNSResponse c of
     None \<Rightarrow> False | Some m \<Rightarrow> dm_Rcode m = rcode)"

datatype dns_section = SecAnswer | SecNs | SecExtra

definition section_records :: "dns_section \<Rightarrow> dns_msg \<Rightarrow> dns_rr list" where
  "section_records sec m = (case sec of SecAnswer \<Rightarrow> dm_Answer m | SecNs \<Rightarrow> dm_Ns m | SecExtra \<Rightarrow> dm_Extra m)"

text \<open>\<open>DNSRecordOptions.Match\<close>; an option without a record matches nothing.\<close>

definition DNSRecordOptions_Match :: "route_env \<Rightarrow> dns_rr option \<Rightarrow> dns_rr \<Rightarrow> bool" where
  "DNSRecordOptions_Match ev o' record = (case o' of None \<Rightarrow> False | Some rr \<Rightarrow> re_IsDuplicate ev rr record)"

definition DNSResponseRecordItem_Match :: "route_env \<Rightarrow> dns_rr option list \<Rightarrow> dns_section \<Rightarrow> inbound_context \<Rightarrow> bool" where
  "DNSResponseRecordItem_Match ev records selector c = (case ic_DNSResponse c of
     None \<Rightarrow> False
   | Some m \<Rightarrow> list_ex (\<lambda>e. list_ex (DNSRecordOptions_Match ev e) (section_records selector m)) records)"

text \<open>An outbound with preferred routes: the two tests of \<open>adapter.OutboundWithPreferredRoutes\<close>. None of
  the implementations in \<^verbatim>\<open>protocol/\<close> looks at the metadata it is passed, so it is left out.\<close>

type_synonym preferred = "(string \<Rightarrow> bool) \<times> (addr \<Rightarrow> bool)"

definition PreferredByItem_Match :: "route_env \<Rightarrow> preferred list \<Rightarrow> inbound_context \<Rightarrow> bool" where
  "PreferredByItem_Match ev outbounds c =
     (let h = domain_host c
      in (h \<noteq> [] \<and> list_ex (\<lambda>(dom, _). dom h) outbounds) \<or>
         (re_IsIP ev (ic_Destination c) \<and> list_ex (\<lambda>(_, ad). ad (sa_Addr (ic_Destination c))) outbounds) \<or>
         list_ex (\<lambda>a. list_ex (\<lambda>(_, ad). ad a) outbounds) (ic_DestinationAddresses c))"

text \<open>For a DNS server with preferred domains, the name is first made canonical.\<close>

definition PreferredByDNSItem_Match :: "route_env \<Rightarrow> (string \<Rightarrow> bool) list \<Rightarrow> inbound_context \<Rightarrow> bool" where
  "PreferredByDNSItem_Match ev transports c =
     (let h = domain_host c
      in if h = [] then False else list_ex (\<lambda>t. t (re_CanonicalName ev h)) transports)"


section \<open>The item interface\<close>

text \<open>\<open>RuleItem\<close> with the implementations of the package, and its dynamic dispatch.\<close>

datatype (plugins only: code) RuleItem =
    DomainItem "string \<Rightarrow> bool"
  | DomainKeywordItem "string list"
  | DomainRegexItem "(string \<Rightarrow> bool) list"
  | AdGuardDomainItem "string \<Rightarrow> bool"
  | IPCIDRItem "addr \<Rightarrow> bool" bool
  | IPIsPrivateItem bool
  | IPAcceptAnyItem
  | IPVersionItem bool
  | PortItem "(uint16, bool) gomap" bool
  | PortRangeItem bool "rangeItem list"
  | InboundItem "(string, bool) gomap"
  | NetworkItem "(string, bool) gomap"
  | ProtocolItem "(string, bool) gomap"
  | ClientItem "(string, bool) gomap"
  | AuthUserItem "(string, bool) gomap"
  | OutboundItem "(string, bool) gomap" bool
  | SourceHostnameItem "(string, bool) gomap"
  | SourceMACAddressItem "(string, bool) gomap"
  | ClashModeItem string
  | ProcessItem "(string, bool) gomap"
  | ProcessPathItem "(string, bool) gomap"
  | ProcessPathRegexItem "(string \<Rightarrow> bool) list"
  | PackageNameItem "(string, bool) gomap"
  | PackageNameRegexItem "(string \<Rightarrow> bool) list"
  | UserItem "(string, bool) gomap"
  | UserIdItem "(int, bool) gomap"
  | NetworkTypeItem "nat list"
  | NetworkIsExpensiveItem
  | NetworkIsConstrainedItem
  | WIFISSIDItem "(string, bool) gomap"
  | WIFIBSSIDItem "(string, bool) gomap"
  | InterfaceAddressItem "(string, prefix list) gomap"
  | DefaultInterfaceAddressItem "prefix list"
  | NetworkInterfaceAddressItem "(nat, prefix list) gomap"
  | QueryTypeItem "(uint16, bool) gomap"
  | QueryClientSubnetItem "prefix list"
  | QueryDNSSECItem
  | DNSResponseRCodeItem int
  | DNSResponseRecordItem "dns_rr option list" dns_section
  | PreferredByItem "preferred list"
  | PreferredByDNSItem "(string \<Rightarrow> bool) list"

definition item_Match :: "route_env \<Rightarrow> inbound_context \<Rightarrow> RuleItem \<Rightarrow> bool" where
  "item_Match ev c it = (case it of
     DomainItem m \<Rightarrow> DomainItem_Match ev m c
   | DomainKeywordItem ks \<Rightarrow> DomainKeywordItem_Match ev ks c
   | DomainRegexItem ms \<Rightarrow> DomainRegexItem_Match ev ms c
   | AdGuardDomainItem m \<Rightarrow> AdGuardDomainItem_Match ev m c
   | IPCIDRItem s src \<Rightarrow> IPCIDRItem_Match ev s src c
   | IPIsPrivateItem src \<Rightarrow> IPIsPrivateItem_Match ev src c
   | IPAcceptAnyItem \<Rightarrow> IPAcceptAnyItem_Match ev c
   | IPVersionItem six \<Rightarrow> IPVersionItem_Match ev six c
   | PortItem m src \<Rightarrow> PortItem_Match m src c
   | PortRangeItem src rs \<Rightarrow> PortRangeItem_Match src rs c
   | InboundItem m \<Rightarrow> InboundItem_Match m c
   | NetworkItem m \<Rightarrow> NetworkItem_Match m c
   | ProtocolItem m \<Rightarrow> ProtocolItem_Match m c
   | ClientItem m \<Rightarrow> ClientItem_Match m c
   | AuthUserItem m \<Rightarrow> AuthUserItem_Match m c
   | OutboundItem m any \<Rightarrow> OutboundItem_Match m any c
   | SourceHostnameItem m \<Rightarrow> SourceHostnameItem_Match m c
   | SourceMACAddressItem m \<Rightarrow> SourceMACAddressItem_Match m c
   | ClashModeItem mode \<Rightarrow> ClashModeItem_Match ev mode
   | ProcessItem m \<Rightarrow> ProcessItem_Match m c
   | ProcessPathItem m \<Rightarrow> ProcessPathItem_Match ev m c
   | ProcessPathRegexItem ms \<Rightarrow> ProcessPathRegexItem_Match ms c
   | PackageNameItem m \<Rightarrow> PackageNameItem_Match m c
   | PackageNameRegexItem ms \<Rightarrow> PackageNameRegexItem_Match ms c
   | UserItem m \<Rightarrow> UserItem_Match m c
   | UserIdItem m \<Rightarrow> UserIdItem_Match m c
   | NetworkTypeItem ts \<Rightarrow> NetworkTypeItem_Match ev ts
   | NetworkIsExpensiveItem \<Rightarrow> NetworkIsExpensiveItem_Match ev
   | NetworkIsConstrainedItem \<Rightarrow> NetworkIsConstrainedItem_Match ev
   | WIFISSIDItem m \<Rightarrow> WIFISSIDItem_Match ev m
   | WIFIBSSIDItem m \<Rightarrow> WIFIBSSIDItem_Match ev m
   | InterfaceAddressItem m \<Rightarrow> InterfaceAddressItem_Match ev m
   | DefaultInterfaceAddressItem ps \<Rightarrow> DefaultInterfaceAddressItem_Match ev ps
   | NetworkInterfaceAddressItem m \<Rightarrow> NetworkInterfaceAddressItem_Match ev m
   | QueryTypeItem m \<Rightarrow> QueryTypeItem_Match m c
   | QueryClientSubnetItem ps \<Rightarrow> QueryClientSubnetItem_Match ps c
   | QueryDNSSECItem \<Rightarrow> ic_QueryDNSSEC c
   | DNSResponseRCodeItem rc \<Rightarrow> DNSResponseRCodeItem_Match rc c
   | DNSResponseRecordItem rs sec \<Rightarrow> DNSResponseRecordItem_Match ev rs sec c
   | PreferredByItem os \<Rightarrow> PreferredByItem_Match ev os c
   | PreferredByDNSItem ts \<Rightarrow> PreferredByDNSItem_Match ev ts c)"

definition matchAnyItem :: "route_env \<Rightarrow> RuleItem list \<Rightarrow> inbound_context \<Rightarrow> bool" where
  "matchAnyItem ev its c = list_ex (item_Match ev c) its"


section \<open>Constructors\<close>

datatype rule_error =
    EmptyDomain | EmptyDomainSuffix | BadRegex nat | BadPrefix nat | BadIPSet | BadPortRange string
  | MissingConditions | MissingOutbound | UnknownRuleType string | UnknownLogicalMode string
  | InvalidIPVersion int | DeprecatedField string | BadAction | SubRule nat rule_error
  | RuleSetNotFound string

text \<open>Library code the constructors call: the sing domain matcher and the AdGuard matcher, compilation
  of a regular expression, and reading a list of prefixes or addresses into an IP set (the error is the
  position of the first string that is neither).\<close>

record item_lib =
  il_NewMatcher :: "string list \<Rightarrow> string list \<Rightarrow> bool \<Rightarrow> string \<Rightarrow> bool"
  il_NewAdGuardMatcher :: "string list \<Rightarrow> string \<Rightarrow> bool"
  il_Compile :: "string \<Rightarrow> (string \<Rightarrow> bool) option"
  il_ParsePrefix :: "string \<Rightarrow> prefix option"
  il_ParseAddr :: "string \<Rightarrow> addr option"
  il_IPSet :: "prefix list \<Rightarrow> addr list \<Rightarrow> ip_range list option"  \<comment> \<open>\<open>IPSetBuilder.IPSet\<close>\<close>
  il_Contains :: "ip_range list \<Rightarrow> addr \<Rightarrow> bool"                    \<comment> \<open>\<open>IPSet.Contains\<close>\<close>
  il_ParseMAC :: "string \<Rightarrow> string option"        \<comment> \<open>\<open>net.ParseMAC(s).String()\<close>\<close>
  il_NormalizeWIFIBSSID :: "string \<Rightarrow> string"

definition NewDomainItem :: "item_lib \<Rightarrow> string list \<Rightarrow> string list \<Rightarrow> (rule_error, RuleItem) res" where
  "NewDomainItem L domains domainSuffixes =
     (if [] \<in> set domains then Err EmptyDomain
      else if [] \<in> set domainSuffixes then Err EmptyDomainSuffix
      else Ok (DomainItem (il_NewMatcher L domains domainSuffixes False)))"

fun compile_from :: "item_lib \<Rightarrow> nat \<Rightarrow> string list \<Rightarrow> (rule_error, (string \<Rightarrow> bool) list) res" where
  "compile_from L i [] = Ok []"
| "compile_from L i (e # es) = (case il_Compile L e of
     None \<Rightarrow> Err (BadRegex i)
   | Some m \<Rightarrow> res_bind (compile_from L (Suc i) es) (\<lambda>ms. Ok (m # ms)))"

definition NewDomainRegexItem :: "item_lib \<Rightarrow> string list \<Rightarrow> (rule_error, RuleItem) res" where
  "NewDomainRegexItem L expressions = res_bind (compile_from L 0 expressions) (\<lambda>ms. Ok (DomainRegexItem ms))"

definition NewProcessPathRegexItem :: "item_lib \<Rightarrow> string list \<Rightarrow> (rule_error, RuleItem) res" where
  "NewProcessPathRegexItem L expressions = res_bind (compile_from L 0 expressions) (\<lambda>ms. Ok (ProcessPathRegexItem ms))"

definition NewPackageNameRegexItem :: "item_lib \<Rightarrow> string list \<Rightarrow> (rule_error, RuleItem) res" where
  "NewPackageNameRegexItem L expressions = res_bind (compile_from L 0 expressions) (\<lambda>ms. Ok (PackageNameRegexItem ms))"

text \<open>The loop over the strings: prefixes and single addresses, or the position of a string that is neither.\<close>

fun parse_cidrs :: "item_lib \<Rightarrow> nat \<Rightarrow> string list \<Rightarrow> prefix list \<Rightarrow> addr list \<Rightarrow> (nat, prefix list \<times> addr list) res" where
  "parse_cidrs L i [] ps as = Ok (ps, as)"
| "parse_cidrs L i (s # ss) ps as = (case il_ParsePrefix L s of
     Some p \<Rightarrow> parse_cidrs L (Suc i) ss (ps @ [p]) as
   | None \<Rightarrow> (case il_ParseAddr L s of
       Some a \<Rightarrow> parse_cidrs L (Suc i) ss ps (as @ [a])
     | None \<Rightarrow> Err i))"

definition NewRawIPCIDRItem :: "item_lib \<Rightarrow> bool \<Rightarrow> ip_range list \<Rightarrow> RuleItem" where
  "NewRawIPCIDRItem L isSource ipSet = IPCIDRItem (il_Contains L ipSet) isSource"

definition NewIPCIDRItem :: "item_lib \<Rightarrow> bool \<Rightarrow> string list \<Rightarrow> (rule_error, RuleItem) res" where
  "NewIPCIDRItem L isSource prefixStrings = (case parse_cidrs L 0 prefixStrings [] [] of
     Err i \<Rightarrow> Err (BadPrefix i)
   | Panic \<Rightarrow> Panic
   | Ok (ps, as) \<Rightarrow> (case il_IPSet L ps as of
       None \<Rightarrow> Err BadIPSet
     | Some ipSet \<Rightarrow> Ok (IPCIDRItem (il_Contains L ipSet) isSource)))"

definition NewPortItem :: "bool \<Rightarrow> uint16 list \<Rightarrow> RuleItem" where
  "NewPortItem isSource ports = PortItem (bool_map ports) isSource"

definition NewOutboundRule :: "string list \<Rightarrow> RuleItem" where
  "NewOutboundRule outbounds =
     OutboundItem (bool_map (filter (\<lambda>x. x \<noteq> ''any'') outbounds)) (''any'' \<in> set outbounds)"

definition NewSourceMACAddressItem :: "item_lib \<Rightarrow> string list \<Rightarrow> RuleItem" where
  "NewSourceMACAddressItem L addressList =
     SourceMACAddressItem (bool_map (map (\<lambda>a. case il_ParseMAC L a of Some p \<Rightarrow> p | None \<Rightarrow> a) addressList))"

definition NewWIFIBSSIDItem :: "item_lib \<Rightarrow> string list \<Rightarrow> RuleItem" where
  "NewWIFIBSSIDItem L bssidList = WIFIBSSIDItem (bool_map (map (il_NormalizeWIFIBSSID L) bssidList))"

text \<open>\<open>NewPortRangeItem\<close>: \<open>a:b\<close>, \<open>:b\<close>, \<open>a:\<close> or \<open>:\<close>; the first colon separates.\<close>

definition parse_range :: "string \<Rightarrow> (rule_error, rangeItem) res" where
  "parse_range portRange =
     (if CHR '':'' \<notin> set portRange then Err (BadPortRange portRange)
      else
        let before = takeWhile (\<lambda>c. c \<noteq> CHR '':'') portRange;
            after = drop (Suc (length before)) portRange
        in case (if before = [] then Some 0 else parseUint 16 before) of
             None \<Rightarrow> Err (BadPortRange portRange)
           | Some start \<Rightarrow>
               (case (if after = [] then Some 0xFFFF else parseUint 16 after) of
                  None \<Rightarrow> Err (BadPortRange portRange)
                | Some end' \<Rightarrow> Ok \<lparr>ri_start = word_of_nat start, ri_end = word_of_nat end'\<rparr>))"

fun parse_ranges :: "string list \<Rightarrow> (rule_error, rangeItem list) res" where
  "parse_ranges [] = Ok []"
| "parse_ranges (s # ss) = res_bind (parse_range s) (\<lambda>r. res_bind (parse_ranges ss) (\<lambda>rs. Ok (r # rs)))"

definition NewPortRangeItem :: "bool \<Rightarrow> string list \<Rightarrow> (rule_error, RuleItem) res" where
  "NewPortRangeItem isSource rangeList =
     res_bind (parse_ranges rangeList) (\<lambda>rs. Ok (PortRangeItem isSource rs))"


section \<open>What the items accept\<close>

lemma PortItem_member: "PortItem_Match (bool_map ports) src c \<longleftrightarrow> item_port src c \<in> set ports"
  by (simp add: PortItem_Match_def)

lemma host_Match_iff:
  "host_Match ev f c \<longleftrightarrow> domain_host c \<noteq> [] \<and> f (toLower (re_unicode ev) (domain_host c))"
  by (simp add: host_Match_def Let_def)

lemma contains_sub_iff: "contains_sub h p \<longleftrightarrow> (\<exists>u v. h = u @ p @ v)"
proof (induction h)
  case Nil
  then show ?case by auto
next
  case (Cons x xs)
  have "(\<exists>u v. x # xs = u @ p @ v) \<longleftrightarrow> (\<exists>v. x # xs = p @ v) \<or> (\<exists>u v. xs = u @ p @ v)"
    by (metis append_Cons append_Nil append_eq_Cons_conv list.inject)
  moreover have "take (length p) (x # xs) = p \<longleftrightarrow> (\<exists>v. x # xs = p @ v)"
    by (metis append_eq_conv_conj append_take_drop_id)
  ultimately show ?case using Cons by auto
qed

text \<open>No item reads the match cache.\<close>

lemmas item_defs = DomainItem_Match_def DomainKeywordItem_Match_def DomainRegexItem_Match_def
  AdGuardDomainItem_Match_def host_Match_def domain_host_def IPCIDRItem_Match_def IPIsPrivateItem_Match_def
  IPAcceptAnyItem_Match_def IPVersionItem_Match_def PortItem_Match_def PortRangeItem_Match_def item_port_def
  InboundItem_Match_def NetworkItem_Match_def ProtocolItem_Match_def ClientItem_Match_def
  AuthUserItem_Match_def OutboundItem_Match_def SourceHostnameItem_Match_def SourceMACAddressItem_Match_def
  ProcessItem_Match_def ProcessPathItem_Match_def ProcessPathRegexItem_Match_def PackageNameItem_Match_def
  PackageNameRegexItem_Match_def UserItem_Match_def UserIdItem_Match_def QueryTypeItem_Match_def
  QueryClientSubnetItem_Match_def DNSResponseRCodeItem_Match_def DNSResponseRecordItem_Match_def
  PreferredByItem_Match_def PreferredByDNSItem_Match_def DNSResponseAddressesForMatch_def

lemma item_Match_base: "item_Match ev (ResetRuleMatchCache c) it = item_Match ev c it"
  by (cases it) (simp_all add: item_Match_def item_defs ResetRuleMatchCache_def)

text \<open>A port range is written with optional bounds. The printed form is the parser's inverse image.\<close>

definition show_bound :: "nat option \<Rightarrow> string" where
  "show_bound b = (case b of None \<Rightarrow> [] | Some n \<Rightarrow> show_nat n)"

definition show_range :: "nat option \<times> nat option \<Rightarrow> string" where
  "show_range r = show_bound (fst r) @ CHR '':'' # show_bound (snd r)"

definition in_range :: "nat option \<times> nat option \<Rightarrow> nat \<Rightarrow> bool" where
  "in_range r p = ((case fst r of None \<Rightarrow> True | Some a \<Rightarrow> a \<le> p) \<and>
                   (case snd r of None \<Rightarrow> True | Some b \<Rightarrow> p \<le> b))"

definition range_ok :: "nat option \<times> nat option \<Rightarrow> bool" where
  "range_ok r = ((case fst r of None \<Rightarrow> True | Some a \<Rightarrow> a < 2 ^ 16) \<and>
                 (case snd r of None \<Rightarrow> True | Some b \<Rightarrow> b < 2 ^ 16))"

lemma colon_not_in_bound: "CHR '':'' \<notin> set (show_bound b)"
proof (cases b)
  case (Some n)
  have "digit_val (CHR '':'') = None" by (simp add: digit_val_def)
  then show ?thesis using show_nat_digits [of "CHR '':''" n] Some by (auto simp: show_bound_def)
qed (simp add: show_bound_def)

lemma bound_parse:
  "(case b of None \<Rightarrow> True | Some n \<Rightarrow> n < 2 ^ 16) \<Longrightarrow>
   (if show_bound b = [] then Some d else parseUint 16 (show_bound b)) = Some (case b of None \<Rightarrow> d | Some n \<Rightarrow> n)"
  by (cases b) (simp_all add: show_bound_def parseUint_show)

lemma parse_range_show:
  assumes "range_ok (a, b)"
  shows "parse_range (show_range (a, b)) =
    Ok \<lparr>ri_start = word_of_nat (case a of None \<Rightarrow> 0 | Some n \<Rightarrow> n),
        ri_end = word_of_nat (case b of None \<Rightarrow> 0xFFFF | Some n \<Rightarrow> n)\<rparr>"
proof -
  have tw: "takeWhile (\<lambda>c. c \<noteq> CHR '':'') (show_range (a, b)) = show_bound a"
    using colon_not_in_bound [of a] by (simp add: show_range_def takeWhile_append)
  have dr: "drop (Suc (length (show_bound a))) (show_range (a, b)) = show_bound b"
    by (simp add: show_range_def)
  have mem: "CHR '':'' \<in> set (show_range (a, b))" by (simp add: show_range_def)
  have b: "(if show_bound a = [] then Some 0 else parseUint 16 (show_bound a)) = Some (case a of None \<Rightarrow> 0 | Some n \<Rightarrow> n)"
    "(if show_bound b = [] then Some 0xFFFF else parseUint 16 (show_bound b)) = Some (case b of None \<Rightarrow> 0xFFFF | Some n \<Rightarrow> n)"
    using assms by (simp_all add: range_ok_def bound_parse)
  show ?thesis
    by (simp only: parse_range_def Let_def tw dr mem b option.case simp_thms if_False)
qed

lemma parse_ranges_show:
  assumes "list_all range_ok rs"
  shows "\<exists>items. parse_ranges (map show_range rs) = Ok items \<and>
    (\<forall>p :: uint16. list_ex (\<lambda>r. ri_start r \<le> p \<and> p \<le> ri_end r) items \<longleftrightarrow> list_ex (\<lambda>r. in_range r (unat p)) rs)"
  using assms
proof (induction rs)
  case Nil
  then show ?case by simp
next
  case (Cons r rs)
  obtain a b where r: "r = (a, b)" by (cases r)
  from Cons obtain items where items: "parse_ranges (map show_range rs) = Ok items"
    "\<And>p :: uint16. list_ex (\<lambda>r. ri_start r \<le> p \<and> p \<le> ri_end r) items \<longleftrightarrow> list_ex (\<lambda>r. in_range r (unat p)) rs"
    by auto
  let ?lo = "case a of None \<Rightarrow> 0 | Some n \<Rightarrow> n" and ?hi = "case b of None \<Rightarrow> 0xFFFF | Some n \<Rightarrow> n"
  have ok: "range_ok (a, b)" using Cons.prems r by simp
  have bounds: "?lo < 2 ^ 16" "?hi < 2 ^ 16" using ok by (auto simp: range_ok_def split: option.splits)
  have "word_of_nat ?lo \<le> p \<and> p \<le> word_of_nat ?hi \<longleftrightarrow> in_range (a, b) (unat p)" for p :: uint16
  proof -
    have "unat p < 2 ^ 16" using unsigned_less [of p] by simp
    then show ?thesis using bounds
      by (auto simp: word_le_nat_alt unat_of_nat in_range_def take_bit_nat_eq_self split: option.splits)
  qed
  with items parse_range_show [OF ok] show ?case by (simp add: r)
qed

text \<open> Port ranges. Every list of ranges \<open>a:b\<close>, \<open>a:\<close>, \<open>:b\<close> and \<open>:\<close> with bounds below 65536, written in
  decimal, is accepted by \<open>NewPortRangeItem\<close>, and the item matches exactly the ports that lie in one of the
  ranges, bounds included and missing bounds open.\<close>

theorem port_ranges_roundtrip:
  assumes "list_all range_ok rs"
  shows "\<exists>item. NewPortRangeItem isSource (map show_range rs) = Ok item \<and>
    (\<forall>ev c. item_Match ev c item \<longleftrightarrow> list_ex (\<lambda>r. in_range r (unat (item_port isSource c))) rs)"
proof -
  obtain items where "parse_ranges (map show_range rs) = Ok items"
    "\<And>p :: uint16. list_ex (\<lambda>r. ri_start r \<le> p \<and> p \<le> ri_end r) items \<longleftrightarrow> list_ex (\<lambda>r. in_range r (unat p)) rs"
    using parse_ranges_show [OF assms] by auto
  then show ?thesis
    by (simp add: NewPortRangeItem_def item_Match_def PortRangeItem_Match_def Let_def)
qed

text \<open>An instance.\<close>

theorem port_ranges_roundtrip_witness:
  "list_all range_ok [(Some 80, Some 90), (None, Some 7), (Some 60000, None)] \<and>
   (\<exists>item. NewPortRangeItem False [''80:90'', '':7'', ''60000:''] = Ok item \<and>
      (\<forall>ev c. item_Match ev c item \<longleftrightarrow>
         list_ex (\<lambda>r. in_range r (unat (item_port False c))) [(Some 80, Some 90), (None, Some 7), (Some 60000, None)]))"
proof -
  have ok: "list_all range_ok [(Some 80, Some 90), (None, Some 7), (Some 60000, None)]"
    by (simp add: range_ok_def)
  have "map show_range [(Some 80, Some 90), (None, Some 7), (Some 60000, None)] = [''80:90'', '':7'', ''60000:'']"
    by (simp add: show_range_def show_bound_def show_nat.simps digit_char_def char_of_def bit_0)
  with port_ranges_roundtrip [OF ok, of False] ok show ?thesis by simp
qed

end
