(* ===== verification/Route_Rules.thy ===== *)
theory Route_Rules
  imports Route_Items
begin

unbundle bit_operations_syntax

text \<open>
  The rule engine of \<^verbatim>\<open>route/rule\<close>: the match state of \<^verbatim>\<open>match_state.go\<close>, default and logical
  rules of \<^verbatim>\<open>rule_abstract.go\<close>, rule-set references and rule sets of \<^verbatim>\<open>rule_item_rule_set.go\<close>. A
  match reads and writes the rule cache of the metadata, so every function passes the metadata on.

  The documentation (\<^verbatim>\<open>docs/configuration/route/rule.md\<close>) describes a rule as a formula over its
  fields, with the fields of a single-rule rule-set merged into it. \<open>doc_rule\<close> is that formula. The code departs from it
  in one place, logical rules inside a set referenced with flags: \<open>sem_rule\<close> is the formula with this departure, and the
  engine is proved equal to it always, and to the documented formula wherever the departure has no effect.
\<close>

section \<open>Match state\<close>

type_synonym ruleMatchState = "8 word"

abbreviation ruleMatchSourceAddress :: ruleMatchState where "ruleMatchSourceAddress \<equiv> 1"
abbreviation ruleMatchSourcePort :: ruleMatchState where "ruleMatchSourcePort \<equiv> 2"
abbreviation ruleMatchDestinationAddress :: ruleMatchState where "ruleMatchDestinationAddress \<equiv> 4"
abbreviation ruleMatchDestinationPort :: ruleMatchState where "ruleMatchDestinationPort \<equiv> 8"

record ruleGroupMatch =
  g_required :: ruleMatchState
  g_satisfied :: ruleMatchState

definition and_not :: "ruleMatchState \<Rightarrow> ruleMatchState \<Rightarrow> ruleMatchState" where
  "and_not a b = a AND NOT b"

definition has :: "ruleMatchState \<Rightarrow> ruleMatchState \<Rightarrow> bool" where
  "has s target = (s AND target \<noteq> 0)"

definition g_done :: "ruleGroupMatch \<Rightarrow> bool" where
  "g_done g = (and_not (g_required g) (g_satisfied g) = 0)"

definition mergeWith :: "ruleGroupMatch \<Rightarrow> ruleGroupMatch \<Rightarrow> ruleGroupMatch" where
  "mergeWith g other = \<lparr>g_required = g_required g OR g_required other,
                        g_satisfied = g_satisfied g OR g_satisfied other\<rparr>"

record ruleMatchSnapshot =
  s_ipCidrMatchSource :: bool
  s_ipCidrAcceptEmpty :: bool
  s_deferredIPCIDRMatchGroups :: "8 word"

definition snapshotRuleMatch :: "inbound_context \<Rightarrow> ruleMatchSnapshot" where
  "snapshotRuleMatch c = \<lparr>s_ipCidrMatchSource = ic_IPCIDRMatchSource c,
     s_ipCidrAcceptEmpty = ic_IPCIDRAcceptEmpty c,
     s_deferredIPCIDRMatchGroups = ic_DeferredIPCIDRMatchGroups c\<rparr>"

definition restore :: "ruleMatchSnapshot \<Rightarrow> inbound_context \<Rightarrow> inbound_context" where
  "restore s c = c\<lparr>ic_IPCIDRMatchSource := s_ipCidrMatchSource s,
     ic_IPCIDRAcceptEmpty := s_ipCidrAcceptEmpty s,
     ic_DeferredIPCIDRMatchGroups := s_deferredIPCIDRMatchGroups s\<rparr>"

abbreviation deferred :: "inbound_context \<Rightarrow> 8 word" where
  "deferred c \<equiv> ic_DeferredIPCIDRMatchGroups c"

definition set_deferred :: "8 word \<Rightarrow> inbound_context \<Rightarrow> inbound_context" where
  "set_deferred d c = c\<lparr>ic_DeferredIPCIDRMatchGroups := d\<rparr>"


section \<open>Rules\<close>

text \<open>
  The items of a default rule by group. \<open>allItems\<close> of the source is the concatenation of the groups and
  the rule-set item in the order of the options; the engine only asks whether it is empty.
\<close>

record rule_items =
  r_items :: "RuleItem list"
  r_sourceAddressItems :: "RuleItem list"
  r_sourcePortItems :: "RuleItem list"
  r_destinationAddressItems :: "RuleItem list"
  r_destinationIPCIDRItems :: "RuleItem list"
  r_destinationPortItems :: "RuleItem list"

definition no_items :: "rule_items \<Rightarrow> bool" where
  "no_items r = (r_items r = [] \<and> r_sourceAddressItems r = [] \<and> r_sourcePortItems r = [] \<and>
     r_destinationAddressItems r = [] \<and> r_destinationIPCIDRItems r = [] \<and> r_destinationPortItems r = [])"

datatype logical_mode = LogicalTypeAnd | LogicalTypeOr

text \<open>
  A rule of any of the types that embed \<open>abstractDefaultRule\<close> or \<open>abstractLogicalRule\<close>. The kind of
  a default rule is its Go type: \<open>*DefaultHeadlessRule\<close>, which \<open>mergeableRuleIn\<close> tests for,
  \<open>*DefaultRule\<close>, or \<open>*DefaultDNSRule\<close> with its \<open>matchResponse\<close> and \<open>matchResponseTag\<close>. A rule-set item
  has the sets its tags were resolved to.
\<close>

datatype rule_kind = HeadlessKind | RouteKind | DNSKind bool string

datatype rule =
    DefaultRule rule_kind rule_items "rule_set_item option" bool
  | LogicalRule "rule list" logical_mode bool
and rule_set_item = RuleSetItem (setList: "rule_set list") (ipCidrMatchSource: bool) (ipCidrAcceptEmpty: bool)
and rule_set = RuleSet (set_rules: "rule list")


section \<open>Evaluation of a default rule\<close>

definition destinationIPCIDRMatchesSource :: "rule_items \<Rightarrow> inbound_context \<Rightarrow> bool" where
  "destinationIPCIDRMatchesSource r c = (ic_IPCIDRMatchSource c \<and> r_destinationIPCIDRItems r \<noteq> [])"

definition destinationIPCIDRMatchesDestination :: "rule_items \<Rightarrow> inbound_context \<Rightarrow> bool" where
  "destinationIPCIDRMatchesDestination r c =
     (\<not> ic_IgnoreDestinationIPCIDRMatch c \<and> \<not> ic_IPCIDRMatchSource c \<and> r_destinationIPCIDRItems r \<noteq> [])"

definition require :: "ruleMatchState \<Rightarrow> ruleGroupMatch \<Rightarrow> ruleGroupMatch" where
  "require b g = g\<lparr>g_required := g_required g OR b\<rparr>"

definition satisfy :: "ruleMatchState \<Rightarrow> ruleGroupMatch \<Rightarrow> ruleGroupMatch" where
  "satisfy b g = g\<lparr>g_satisfied := g_satisfied g OR b\<rparr>"

text \<open>One \<open>if len(items) > 0\<close> block of \<open>evaluateGroups\<close>.\<close>

definition group_block :: "route_env \<Rightarrow> inbound_context \<Rightarrow> RuleItem list \<Rightarrow> ruleMatchState \<Rightarrow> ruleGroupMatch \<Rightarrow> ruleGroupMatch" where
  "group_block ev c its b g =
     (if its \<noteq> [] then
        (let g1 = require b g in if matchAnyItem ev its c then satisfy b g1 else g1)
      else g)"

text \<open>One of the two \<open>ip_cidr\<close> blocks, guarded by \<open>cond\<close>.\<close>

definition cidr_block :: "route_env \<Rightarrow> inbound_context \<Rightarrow> bool \<Rightarrow> RuleItem list \<Rightarrow> ruleMatchState \<Rightarrow> ruleGroupMatch \<Rightarrow> ruleGroupMatch" where
  "cidr_block ev c cond its b g =
     (if cond then
        (let g1 = require b g
         in if \<not> has (g_satisfied g1) b \<and> matchAnyItem ev its c then satisfy b g1 else g1)
      else g)"

definition evaluateGroups :: "route_env \<Rightarrow> rule_items \<Rightarrow> inbound_context \<Rightarrow> ruleGroupMatch \<times> inbound_context" where
  "evaluateGroups ev r c =
     (let g0 = \<lparr>g_required = 0, g_satisfied = 0\<rparr>;
          g1 = group_block ev c (r_sourceAddressItems r) ruleMatchSourceAddress g0;
          g2 = cidr_block ev c (destinationIPCIDRMatchesSource r c) (r_destinationIPCIDRItems r) ruleMatchSourceAddress g1;
          g3 = group_block ev c (r_sourcePortItems r) ruleMatchSourcePort g2;
          g4 = group_block ev c (r_destinationAddressItems r) ruleMatchDestinationAddress g3;
          g5 = cidr_block ev c (destinationIPCIDRMatchesDestination r c) (r_destinationIPCIDRItems r) ruleMatchDestinationAddress g4;
          g6 = group_block ev c (r_destinationPortItems r) ruleMatchDestinationPort g5
      in (g6,
          if ic_IgnoreDestinationIPCIDRMatch c \<and> \<not> ic_IPCIDRMatchSource c \<and>
             r_destinationIPCIDRItems r \<noteq> [] \<and> r_destinationAddressItems r = []
          then set_deferred (deferred c OR ruleMatchDestinationAddress) c else c))"

definition all_items :: "route_env \<Rightarrow> rule_items \<Rightarrow> inbound_context \<Rightarrow> bool" where
  "all_items ev r c = list_all (item_Match ev c) (r_items r)"

definition evaluateForMerge :: "route_env \<Rightarrow> rule_items \<Rightarrow> inbound_context \<Rightarrow> ruleGroupMatch option \<times> inbound_context" where
  "evaluateForMerge ev r c =
     (case evaluateGroups ev r c of (groups, c1) \<Rightarrow>
        (if all_items ev r c1 then Some groups else None, c1))"

definition prepareNestedMatch :: "bool \<Rightarrow> bool \<Rightarrow> inbound_context \<Rightarrow> inbound_context" where
  "prepareNestedMatch src emp c =
     (ResetRuleMatchCache c)\<lparr>ic_IPCIDRMatchSource := src, ic_IPCIDRAcceptEmpty := emp\<rparr>"

fun mergeableRuleIn :: "rule list \<Rightarrow> rule_items option" where
  "mergeableRuleIn [DefaultRule HeadlessKind its None False] = Some its"
| "mergeableRuleIn _ = None"


section \<open>Matching\<close>

definition response_for :: "string \<Rightarrow> inbound_context \<Rightarrow> dns_msg option" where
  "response_for tag c = (if tag \<noteq> [] then gm_get (ic_NamedDNSResponses c) tag else ic_DNSResponse c)"

definition with_response :: "dns_msg option \<Rightarrow> inbound_context \<Rightarrow> inbound_context" where
  "with_response m c = c\<lparr>ic_DNSResponse := m, ic_DestinationAddressMatchFromResponse := True\<rparr>"

text \<open>The end of the loops of \<open>matchWithOuterGroups\<close> and \<open>matchAnyHeadlessRule\<close>: the cache as it was,
  plus the groups left open by the branches that matched.\<close>

definition leave_loop :: "ruleMatchSnapshot \<Rightarrow> bool \<Rightarrow> 8 word \<Rightarrow> inbound_context \<Rightarrow> bool \<times> inbound_context" where
  "leave_loop snap matched deferredGroups c =
     (let c1 = restore snap c
      in (matched, if matched then set_deferred (deferred c1 OR deferredGroups) c1 else c1))"

definition invert_default :: "bool \<times> inbound_context \<Rightarrow> bool \<times> inbound_context" where
  "invert_default r = (case r of (matched, c) \<Rightarrow>
     if \<not> matched then (True, set_deferred 0 c) else (deferred c \<noteq> 0, c))"

definition finish_inner :: "ruleGroupMatch \<Rightarrow> bool \<times> inbound_context \<Rightarrow> bool \<times> inbound_context" where
  "finish_inner groups r = (case r of (matched, c) \<Rightarrow>
     (matched, if matched then set_deferred (and_not (deferred c) (g_satisfied groups)) c else c))"

text \<open>The end of \<open>abstractLogicalRule.Match\<close>.\<close>

definition finish_logical :: "bool \<Rightarrow> ruleMatchSnapshot \<Rightarrow> bool \<times> 8 word \<times> inbound_context \<Rightarrow> bool \<times> inbound_context" where
  "finish_logical neg snap r = (case r of (matched, deferredGroups, c) \<Rightarrow>
     (let c1 = restore snap c;
          c2 = (if matched then set_deferred (deferred c1 OR deferredGroups) c1 else c1)
      in (if neg then (if \<not> matched then True else deferredGroups \<noteq> 0) else matched, c2)))"

text \<open>
  A rule set seen by a reference: its mergeable rule, if any, and its \<open>Match\<close>. The loops take the
  \<open>Match\<close> of the rules they run over, so that the recursion through rules, references and sets is
  structural.
\<close>

type_synonym matcher = "inbound_context \<Rightarrow> bool \<times> inbound_context"

fun and_loop :: "matcher list \<Rightarrow> 8 word \<Rightarrow> inbound_context \<Rightarrow> bool \<times> 8 word \<times> inbound_context" where
  "and_loop [] dg c = (True, dg, c)"
| "and_loop (r # rules) dg c =
     (case r (ResetRuleCache c) of (m, c1) \<Rightarrow>
        if \<not> m then (False, 0, c1) else and_loop rules (dg OR deferred c1) c1)"

fun or_loop :: "matcher list \<Rightarrow> bool \<Rightarrow> 8 word \<Rightarrow> inbound_context \<Rightarrow> bool \<times> 8 word \<times> inbound_context" where
  "or_loop [] matched dg c = (matched, dg, c)"
| "or_loop (r # rules) matched dg c =
     (case r (ResetRuleCache c) of (m, c1) \<Rightarrow>
        if m then
          (if deferred c1 = 0 then (True, 0, c1)
           else or_loop rules True (dg OR deferred c1) c1)
        else or_loop rules matched dg c1)"

definition logical_Match :: "matcher list \<Rightarrow> logical_mode \<Rightarrow> bool \<Rightarrow> matcher" where
  "logical_Match rules mode neg c =
     finish_logical neg (snapshotRuleMatch c)
       (if mode = LogicalTypeAnd then and_loop rules 0 c else or_loop rules False 0 c)"

fun any_loop :: "ruleMatchSnapshot \<Rightarrow> matcher list \<Rightarrow> bool \<Rightarrow> 8 word \<Rightarrow> inbound_context \<Rightarrow> bool \<times> inbound_context" where
  "any_loop snap [] matched dg c = leave_loop snap matched dg c"
| "any_loop snap (r # rules) matched dg c =
     (case r (ResetRuleMatchCache c) of (m, c1) \<Rightarrow>
        if m then
          (if deferred c1 = 0 then (True, restore snap c1)
           else any_loop snap rules True (dg OR deferred c1) c1)
        else any_loop snap rules matched dg c1)"

definition matchAnyHeadlessRule :: "matcher list \<Rightarrow> matcher" where
  "matchAnyHeadlessRule rules c = any_loop (snapshotRuleMatch c) rules False 0 c"

fun outer_loop :: "route_env \<Rightarrow> bool \<Rightarrow> bool \<Rightarrow> ruleGroupMatch \<Rightarrow> ruleMatchSnapshot \<Rightarrow> (rule_items option \<times> matcher) list \<Rightarrow>
    bool \<Rightarrow> 8 word \<Rightarrow> inbound_context \<Rightarrow> bool \<times> inbound_context" where
  "outer_loop ev src emp outerGroups snap [] matched dg c = leave_loop snap matched dg c"
| "outer_loop ev src emp outerGroups snap ((mergeable, match) # sets) matched dg c =
     (let c0 = prepareNestedMatch src emp c
      in case mergeable of
           Some branch \<Rightarrow>
             (case evaluateForMerge ev branch c0 of
                (None, c1) \<Rightarrow> outer_loop ev src emp outerGroups snap sets matched dg c1
              | (Some branchGroups, c1) \<Rightarrow>
                  (let merged = mergeWith outerGroups branchGroups
                   in if g_done merged then
                        (let bd = and_not (deferred c1) (g_satisfied merged)
                         in if bd = 0 then
                              (True, let c2 = restore snap c1
                                     in set_deferred (and_not (deferred c2) (g_satisfied merged)) c2)
                            else outer_loop ev src emp outerGroups snap sets True (dg OR bd) c1)
                      else outer_loop ev src emp outerGroups snap sets matched dg c1))
         | None \<Rightarrow>
             if g_done outerGroups then
               (case match c0 of (m, c1) \<Rightarrow>
                  if m then
                    (if deferred c1 = 0 then (True, restore snap c1)
                     else outer_loop ev src emp outerGroups snap sets True (dg OR deferred c1) c1)
                  else outer_loop ev src emp outerGroups snap sets matched dg c1)
             else outer_loop ev src emp outerGroups snap sets matched dg c0)"

definition matchWithOuterGroups :: "route_env \<Rightarrow> (rule_items option \<times> matcher) list \<Rightarrow> bool \<Rightarrow> bool \<Rightarrow> ruleGroupMatch \<Rightarrow> matcher" where
  "matchWithOuterGroups ev sets src emp outerGroups c =
     outer_loop ev src emp outerGroups (snapshotRuleMatch c) sets False 0 c"

definition matchInner :: "route_env \<Rightarrow> rule_items \<Rightarrow> (ruleGroupMatch \<Rightarrow> matcher) option \<Rightarrow> matcher" where
  "matchInner ev its ruleSetItem c =
     (case evaluateGroups ev its c of (groups, c1) \<Rightarrow>
        if \<not> all_items ev its c1 then (False, c1)
        else finish_inner groups
          (case ruleSetItem of
             Some withOuter \<Rightarrow> withOuter groups c1
           | None \<Rightarrow> (g_done groups, c1)))"

definition default_Match :: "route_env \<Rightarrow> rule_items \<Rightarrow> (ruleGroupMatch \<Rightarrow> matcher) option \<Rightarrow> bool \<Rightarrow> matcher" where
  "default_Match ev its ruleSetItem neg c =
     (if no_items its \<and> ruleSetItem = None then (True, c)
      else if neg then invert_default (matchInner ev its ruleSetItem c)
      else matchInner ev its ruleSetItem c)"

text \<open>\<open>DefaultDNSRule.Match\<close>: with \<open>match_response\<close> it runs on a copy of the metadata.\<close>

definition matchForMatch :: "rule_kind \<Rightarrow> bool \<Rightarrow> matcher \<Rightarrow> matcher" where
  "matchForMatch k neg match c = (case k of
     DNSKind True tag \<Rightarrow>
       (case response_for tag c of
          None \<Rightarrow> (neg, c)
        | Some m \<Rightarrow> (fst (match (with_response (Some m) c)), c))
   | _ \<Rightarrow> match c)"

primrec rule_Match :: "route_env \<Rightarrow> rule \<Rightarrow> matcher"
and item_withOuter :: "route_env \<Rightarrow> rule_set_item \<Rightarrow> ruleGroupMatch \<Rightarrow> matcher"
and rule_set_Match :: "route_env \<Rightarrow> rule_set \<Rightarrow> rule_items option \<times> matcher" where
  "rule_Match ev (DefaultRule k its rsi neg) =
     matchForMatch k neg (default_Match ev its (map_option (item_withOuter ev) rsi) neg)"
| "rule_Match ev (LogicalRule rules mode neg) = logical_Match (map (rule_Match ev) rules) mode neg"
| "item_withOuter ev (RuleSetItem sets src emp) = matchWithOuterGroups ev (map (rule_set_Match ev) sets) src emp"
| "rule_set_Match ev (RuleSet rules) =
     (mergeableRuleIn rules, matchAnyHeadlessRule (map (rule_Match ev) rules))"


section \<open>The documented meaning of a rule\<close>

text \<open>The fields of a rule by group. \<open>ip_cidr\<close> counts as a source address field inside a rule set
  referenced with \<open>rule_set_ip_cidr_match_source\<close>.\<close>

definition source_address_fields :: "rule_items \<Rightarrow> inbound_context \<Rightarrow> RuleItem list" where
  "source_address_fields r c =
     r_sourceAddressItems r @ (if ic_IPCIDRMatchSource c then r_destinationIPCIDRItems r else [])"

definition destination_address_fields :: "rule_items \<Rightarrow> inbound_context \<Rightarrow> RuleItem list" where
  "destination_address_fields r c =
     r_destinationAddressItems r @ (if ic_IPCIDRMatchSource c then [] else r_destinationIPCIDRItems r)"

text \<open>A group holds when it has no field or one of its fields matches; merged rules share their groups.
  Each rule is read in its own context, which carries the flags of the reference.\<close>

definition group_ok :: "route_env \<Rightarrow> (rule_items \<Rightarrow> inbound_context \<Rightarrow> RuleItem list) \<Rightarrow> (rule_items \<times> inbound_context) list \<Rightarrow> bool" where
  "group_ok ev sel parts =
     (list_all (\<lambda>(r, c). sel r c = []) parts \<or>
      list_ex (\<lambda>(r, c). list_ex (item_Match ev c) (sel r c)) parts)"

definition formula :: "route_env \<Rightarrow> (rule_items \<times> inbound_context) list \<Rightarrow> bool" where
  "formula ev parts =
     (group_ok ev destination_address_fields parts \<and>
      group_ok ev (\<lambda>r c. r_destinationPortItems r) parts \<and>
      group_ok ev source_address_fields parts \<and>
      group_ok ev (\<lambda>r c. r_sourcePortItems r) parts \<and>
      list_all (\<lambda>(r, c). all_items ev r c) parts)"

definition under :: "bool \<Rightarrow> bool \<Rightarrow> inbound_context \<Rightarrow> inbound_context" where
  "under src emp c = c\<lparr>ic_IPCIDRMatchSource := src, ic_IPCIDRAcceptEmpty := emp\<rparr>"

definition sem_default :: "route_env \<Rightarrow> rule_items \<Rightarrow> (rule_items \<Rightarrow> inbound_context \<Rightarrow> bool) option \<Rightarrow> bool \<Rightarrow> inbound_context \<Rightarrow> bool" where
  "sem_default ev its ref neg c =
     (if no_items its \<and> ref = None then True
      else neg \<noteq> (case ref of None \<Rightarrow> formula ev [(its, c)] | Some f \<Rightarrow> f its c))"

definition sem_kind :: "rule_kind \<Rightarrow> bool \<Rightarrow> (inbound_context \<Rightarrow> bool) \<Rightarrow> inbound_context \<Rightarrow> bool" where
  "sem_kind k neg s c = (case k of
     DNSKind True tag \<Rightarrow>
       (case response_for tag c of None \<Rightarrow> neg | Some m \<Rightarrow> s (with_response (Some m) c))
   | _ \<Rightarrow> s c)"

text \<open>One of the sets of a reference: the single rule of a mergeable set is merged into the outer rule,
  any other set is a condition of its own.\<close>

definition sem_branch :: "route_env \<Rightarrow> bool \<Rightarrow> bool \<Rightarrow> rule_items \<Rightarrow> inbound_context \<Rightarrow>
    rule_items option \<times> (inbound_context \<Rightarrow> bool) \<Rightarrow> bool" where
  "sem_branch ev src emp outer c s = (case fst s of
     Some branch \<Rightarrow> formula ev [(outer, c), (branch, under src emp c)]
   | None \<Rightarrow> formula ev [(outer, c)] \<and> snd s (under src emp c))"

primrec doc_rule :: "route_env \<Rightarrow> rule \<Rightarrow> inbound_context \<Rightarrow> bool"
and doc_ref :: "route_env \<Rightarrow> rule_set_item \<Rightarrow> rule_items \<Rightarrow> inbound_context \<Rightarrow> bool"
and doc_set :: "route_env \<Rightarrow> rule_set \<Rightarrow> rule_items option \<times> (inbound_context \<Rightarrow> bool)" where
  "doc_rule ev (DefaultRule k its rsi neg) =
     sem_kind k neg (sem_default ev its (map_option (doc_ref ev) rsi) neg)"
| "doc_rule ev (LogicalRule rules mode neg) = (\<lambda>c.
     neg \<noteq> (if mode = LogicalTypeAnd then list_all (\<lambda>s. s c) (map (doc_rule ev) rules)
            else list_ex (\<lambda>s. s c) (map (doc_rule ev) rules)))"
| "doc_ref ev (RuleSetItem sets src emp) = (\<lambda>outer c. list_ex (sem_branch ev src emp outer c) (map (doc_set ev) sets))"
| "doc_set ev (RuleSet rules) =
     (mergeableRuleIn rules, \<lambda>c. list_ex (\<lambda>s. s c) (map (doc_rule ev) rules))"

text \<open>
  The reading of the code: \<open>abstractLogicalRule.Match\<close> resets the rule cache before each of its rules, and with it the two
  flags of the reference to the rule set it is in.
\<close>

primrec sem_rule :: "route_env \<Rightarrow> rule \<Rightarrow> inbound_context \<Rightarrow> bool"
and sem_ref :: "route_env \<Rightarrow> rule_set_item \<Rightarrow> rule_items \<Rightarrow> inbound_context \<Rightarrow> bool"
and sem_set :: "route_env \<Rightarrow> rule_set \<Rightarrow> rule_items option \<times> (inbound_context \<Rightarrow> bool)" where
  "sem_rule ev (DefaultRule k its rsi neg) =
     sem_kind k neg (sem_default ev its (map_option (sem_ref ev) rsi) neg)"
| "sem_rule ev (LogicalRule rules mode neg) = (\<lambda>c.
     neg \<noteq> (if mode = LogicalTypeAnd
            then list_all (\<lambda>s. s (under False False c)) (map (sem_rule ev) rules)
            else list_ex (\<lambda>s. s (under False False c)) (map (sem_rule ev) rules)))"
| "sem_ref ev (RuleSetItem sets src emp) = (\<lambda>outer c. list_ex (sem_branch ev src emp outer c) (map (sem_set ev) sets))"
| "sem_set ev (RuleSet rules) =
     (mergeableRuleIn rules, \<lambda>c. list_ex (\<lambda>s. s c) (map (sem_rule ev) rules))"


section \<open>The groups\<close>

text \<open>What \<open>evaluateGroups\<close> puts into group \<open>n\<close>.\<close>

definition engine_group :: "nat \<Rightarrow> rule_items \<Rightarrow> inbound_context \<Rightarrow> RuleItem list" where
  "engine_group n r c =
     (if n = 0 then source_address_fields r c
      else if n = 1 then r_sourcePortItems r
      else if n = 2 then r_destinationAddressItems r @
        (if ic_IPCIDRMatchSource c \<or> ic_IgnoreDestinationIPCIDRMatch c then [] else r_destinationIPCIDRItems r)
      else if n = 3 then r_destinationPortItems r else [])"

lemma bit_state:
  "bit (1 :: 8 word) n \<longleftrightarrow> n = 0" "bit (2 :: 8 word) n \<longleftrightarrow> n = 1"
  "bit (4 :: 8 word) n \<longleftrightarrow> n = 2" "bit (8 :: 8 word) n \<longleftrightarrow> n = 3"
proof -
  have "bit (2 ^ k :: 8 word) n \<longleftrightarrow> n = k" if "k < 8" for k
    using that by (auto simp: bit_exp_iff)
  from this [of 0] this [of 1] this [of 2] this [of 3]
  show "bit (1 :: 8 word) n \<longleftrightarrow> n = 0" "bit (2 :: 8 word) n \<longleftrightarrow> n = 1"
    "bit (4 :: 8 word) n \<longleftrightarrow> n = 2" "bit (8 :: 8 word) n \<longleftrightarrow> n = 3"
    by simp_all
qed

lemma state_eq_0: "(w :: 8 word) = 0 \<longleftrightarrow> (\<forall>n. \<not> bit w n)"
  by (auto intro!: bit_word_eqI)

lemma bit_and_not: "bit (and_not a b) n \<longleftrightarrow> bit a n \<and> \<not> bit b n"
  using bit_imp_le_length [of a n] by (auto simp: and_not_def bit_and_iff bit_not_iff)

lemma g_done_iff: "g_done g \<longleftrightarrow> (\<forall>n. bit (g_required g) n \<longrightarrow> bit (g_satisfied g) n)"
  by (auto simp: g_done_def state_eq_0 bit_and_not)

lemma has_single: "has s 1 \<longleftrightarrow> bit s 0" "has s 4 \<longleftrightarrow> bit s 2"
  unfolding has_def state_eq_0 bit_and_iff bit_state by auto

lemma bit_require: "bit (g_required (require b g)) n \<longleftrightarrow> bit (g_required g) n \<or> bit b n"
  "g_satisfied (require b g) = g_satisfied g"
  by (simp_all add: require_def bit_or_iff)

lemma bit_satisfy: "bit (g_satisfied (satisfy b g)) n \<longleftrightarrow> bit (g_satisfied g) n \<or> bit b n"
  "g_required (satisfy b g) = g_required g"
  by (simp_all add: satisfy_def bit_or_iff)

lemma group_block_bits:
  "bit (g_required (group_block ev c its b g)) n \<longleftrightarrow> bit (g_required g) n \<or> its \<noteq> [] \<and> bit b n"
  "bit (g_satisfied (group_block ev c its b g)) n \<longleftrightarrow>
     bit (g_satisfied g) n \<or> list_ex (item_Match ev c) its \<and> bit b n"
  by (auto simp: group_block_def Let_def matchAnyItem_def bit_require bit_satisfy)

lemma cidr_block_bits:
  assumes "has (g_satisfied g) b \<longleftrightarrow> (\<exists>n. bit b n \<and> bit (g_satisfied g) n)" and "\<And>n m. bit b n \<Longrightarrow> bit b m \<Longrightarrow> n = m"
  shows "bit (g_required (cidr_block ev c cond its b g)) n \<longleftrightarrow> bit (g_required g) n \<or> cond \<and> bit b n"
    and "bit (g_satisfied (cidr_block ev c cond its b g)) n \<longleftrightarrow>
      bit (g_satisfied g) n \<or> cond \<and> list_ex (item_Match ev c) its \<and> bit b n"
  using assms by (auto simp: cidr_block_def Let_def matchAnyItem_def bit_require bit_satisfy)

lemma cidr_block_source:
  "bit (g_required (cidr_block ev c cond its 1 g)) n \<longleftrightarrow> bit (g_required g) n \<or> cond \<and> n = 0"
  "bit (g_satisfied (cidr_block ev c cond its 1 g)) n \<longleftrightarrow>
     bit (g_satisfied g) n \<or> cond \<and> list_ex (item_Match ev c) its \<and> n = 0"
  using cidr_block_bits [of g 1] by (simp_all only: has_single bit_state) auto

lemma cidr_block_destination:
  "bit (g_required (cidr_block ev c cond its 4 g)) n \<longleftrightarrow> bit (g_required g) n \<or> cond \<and> n = 2"
  "bit (g_satisfied (cidr_block ev c cond its 4 g)) n \<longleftrightarrow>
     bit (g_satisfied g) n \<or> cond \<and> list_ex (item_Match ev c) its \<and> n = 2"
  using cidr_block_bits [of g 4] by (simp_all only: has_single bit_state) auto

lemma evaluateGroups_bits:
  "bit (g_required (fst (evaluateGroups ev r c))) n \<longleftrightarrow> engine_group n r c \<noteq> []"
  "bit (g_satisfied (fst (evaluateGroups ev r c))) n \<longleftrightarrow> list_ex (item_Match ev c) (engine_group n r c)"
  unfolding evaluateGroups_def Let_def fst_conv group_block_bits cidr_block_source cidr_block_destination bit_state
  by (auto simp: engine_group_def source_address_fields_def destinationIPCIDRMatchesSource_def
      destinationIPCIDRMatchesDestination_def)

definition open_group :: "rule_items \<Rightarrow> inbound_context \<Rightarrow> bool" where
  "open_group r c = (ic_IgnoreDestinationIPCIDRMatch c \<and> \<not> ic_IPCIDRMatchSource c \<and>
     r_destinationIPCIDRItems r \<noteq> [] \<and> r_destinationAddressItems r = [])"

lemma evaluateGroups_context:
  "snd (evaluateGroups ev r c) = (if open_group r c then set_deferred (deferred c OR 4) c else c)"
  by (simp add: evaluateGroups_def Let_def open_group_def)


section \<open>Contexts\<close>

text \<open>Two contexts with the same \<open>base\<close> differ in the match cache only.\<close>

abbreviation base :: "inbound_context \<Rightarrow> inbound_context" where
  "base \<equiv> ResetRuleMatchCache"

abbreviation ignoring :: "inbound_context \<Rightarrow> bool" where
  "ignoring \<equiv> ic_IgnoreDestinationIPCIDRMatch"

named_theorems route_ctx \<open>how the operations on the context act on its base and on the deferred groups\<close>

lemma base_simps [route_ctx]:
  "base (base c) = base c"
  "base (set_deferred d c) = base c"
  "base (ResetRuleCache c) = under False False (base c)"
  "base (prepareNestedMatch src emp c) = under src emp (base c)"
  "base (under src emp c) = under src emp (base c)"
  "base (restore (snapshotRuleMatch x) c) = under (ic_IPCIDRMatchSource x) (ic_IPCIDRAcceptEmpty x) (base c)"
  "base (with_response m c) = with_response m (base c)"
  by (simp_all add: ResetRuleMatchCache_def set_deferred_def ResetRuleCache_def prepareNestedMatch_def
      under_def restore_def snapshotRuleMatch_def with_response_def)

lemma under_simps [route_ctx]:
  "under s e (under s' e' c) = under s e c"
  "under (ic_IPCIDRMatchSource c) (ic_IPCIDRAcceptEmpty c) c = c"
  "ic_IPCIDRMatchSource (under s e c) = s" "ic_IPCIDRAcceptEmpty (under s e c) = e"
  "ignoring (under s e c) = ignoring c"
  "ic_DestinationAddresses (under s e c) = ic_DestinationAddresses c"
  "ic_DNSResponse (under s e c) = ic_DNSResponse c"
  "ic_DestinationAddressMatchFromResponse (under s e c) = ic_DestinationAddressMatchFromResponse c"
  by (simp_all add: under_def)

lemma base_fields [route_ctx]:
  "ic_IPCIDRMatchSource (base c) = ic_IPCIDRMatchSource c" "ic_IPCIDRAcceptEmpty (base c) = ic_IPCIDRAcceptEmpty c"
  "ignoring (base c) = ignoring c" "deferred (base c) = 0"
  by (simp_all add: ResetRuleMatchCache_def)

lemma deferred_simps [route_ctx]:
  "deferred (set_deferred d c) = d" "deferred (ResetRuleCache c) = 0" "deferred (prepareNestedMatch src emp c) = 0"
  "deferred (under src emp c) = deferred c" "deferred (restore (snapshotRuleMatch x) c) = deferred x"
  "deferred (with_response m c) = deferred c"
  by (simp_all add: set_deferred_def ResetRuleCache_def ResetRuleMatchCache_def prepareNestedMatch_def
      under_def restore_def snapshotRuleMatch_def with_response_def)

lemma item_base: "base c = base c' \<Longrightarrow> item_Match ev c = item_Match ev c'"
  by (rule ext) (metis item_Match_base)

lemma base_eq_fields:
  assumes "base c = base c'"
  shows "ic_IPCIDRMatchSource c = ic_IPCIDRMatchSource c'" "ic_IPCIDRAcceptEmpty c = ic_IPCIDRAcceptEmpty c'"
    "ignoring c = ignoring c'"
  using base_fields(1) [of c] base_fields(1) [of c'] base_fields(2) [of c] base_fields(2) [of c']
    base_fields(3) [of c] base_fields(3) [of c'] assms by simp_all

lemma engine_base:
  assumes "base c = base c'"
  shows "engine_group n r c = engine_group n r c'" "open_group r c = open_group r c'" "all_items ev r c = all_items ev r c'"
    "fst (evaluateGroups ev r c) = fst (evaluateGroups ev r c')"
proof -
  note f = base_eq_fields [OF assms] item_base [OF assms]
  show eg: "engine_group n r c = engine_group n r c'" for n using f by (simp add: engine_group_def source_address_fields_def)
  show "open_group r c = open_group r c'" "all_items ev r c = all_items ev r c'"
    using f by (simp_all add: open_group_def all_items_def)
  show "fst (evaluateGroups ev r c) = fst (evaluateGroups ev r c')"
    by (rule ruleGroupMatch.equality) (auto intro!: bit_word_eqI simp: evaluateGroups_bits eg f(4))
qed

text \<open>A context that ignores destination addresses stands for every context that may follow it once an
  address or a response is known; any other stands for itself.\<close>

definition known :: "addr list \<Rightarrow> dns_msg option \<Rightarrow> bool \<Rightarrow> inbound_context \<Rightarrow> inbound_context" where
  "known as m f x = x\<lparr>ic_IgnoreDestinationIPCIDRMatch := False, ic_DestinationAddresses := as,
     ic_DNSResponse := m, ic_DestinationAddressMatchFromResponse := f\<rparr>"

definition completes :: "inbound_context \<Rightarrow> inbound_context \<Rightarrow> bool" where
  "completes x c \<longleftrightarrow> (if ignoring x then \<exists>as m f. base c = known as m f (base x) else base c = base x)"

lemma known_simps [route_ctx]:
  "under s e (known as m f x) = known as m f (under s e x)" "\<not> ignoring (known as m f x)"
  "ic_IPCIDRMatchSource (known as m f x) = ic_IPCIDRMatchSource x"
  "base (known as m f x) = known as m f (base x)"
  by (simp_all add: known_def under_def ResetRuleMatchCache_def)

lemma completes_fields:
  assumes "completes x c"
  shows "\<not> ignoring c" "ic_IPCIDRMatchSource c = ic_IPCIDRMatchSource x"
proof -
  have "\<not> ignoring (base c) \<and> ic_IPCIDRMatchSource (base c) = ic_IPCIDRMatchSource (base x)"
  proof (cases "ignoring x")
    case True
    with assms obtain as m f where "base c = known as m f (base x)" by (auto simp: completes_def)
    then show ?thesis by (simp add: known_simps)
  next
    case False
    with assms have "base c = base x" by (simp add: completes_def)
    with False show ?thesis by (simp add: base_fields)
  qed
  then show "\<not> ignoring c" "ic_IPCIDRMatchSource c = ic_IPCIDRMatchSource x" by (simp_all add: base_fields)
qed

lemma completes_under: "completes x c \<Longrightarrow> completes (under s e x) (under s e c)"
  unfolding completes_def by (auto simp: route_ctx split: if_splits) blast

lemma completes_response: "\<not> ignoring x \<Longrightarrow> completes x c \<Longrightarrow> completes (with_response m x) (with_response m c)"
  unfolding completes_def by (auto simp: base_simps) (simp_all add: with_response_def)

lemma completes_base: "completes (base x) c \<longleftrightarrow> completes x c"
  by (simp add: completes_def route_ctx)

lemma completes_self: "\<not> ignoring x \<Longrightarrow> completes x x"
  by (simp add: completes_def)


section \<open>Rules that can be judged before the lookup\<close>

text \<open>An item whose verdict does not depend on resolved addresses or on a response.\<close>

definition lookup_free :: "RuleItem \<Rightarrow> bool" where
  "lookup_free it = (case it of
     IPCIDRItem _ isSource \<Rightarrow> isSource
   | IPIsPrivateItem isSource \<Rightarrow> isSource
   | IPAcceptAnyItem \<Rightarrow> False
   | DNSResponseRCodeItem _ \<Rightarrow> False
   | DNSResponseRecordItem _ _ \<Rightarrow> False
   | PreferredByItem _ \<Rightarrow> False
   | _ \<Rightarrow> True)"

definition is_cidr :: "RuleItem \<Rightarrow> bool" where
  "is_cidr it = (case it of IPCIDRItem _ _ \<Rightarrow> True | _ \<Rightarrow> False)"

lemma lookup_free_known: "lookup_free it \<Longrightarrow> item_Match ev (known as m f x) it = item_Match ev x it"
  by (cases it) (simp_all add: lookup_free_def item_Match_def item_defs known_def)

lemma is_cidr_known: "is_cidr it \<Longrightarrow> ic_IPCIDRMatchSource x \<Longrightarrow> item_Match ev (known as m f x) it = item_Match ev x it"
  by (cases it) (simp_all add: is_cidr_def item_Match_def item_defs known_def)

text \<open>The groups other than \<open>ip_cidr\<close> are lookup free, and \<open>ip_cidr\<close> itself where it looks at the source.\<close>

definition items_ok :: "bool \<Rightarrow> rule_items \<Rightarrow> bool" where
  "items_ok src r =
     (list_all lookup_free (r_items r @ r_sourceAddressItems r @ r_sourcePortItems r @
        r_destinationAddressItems r @ r_destinationPortItems r) \<and>
      (src \<longrightarrow> list_all is_cidr (r_destinationIPCIDRItems r)))"

definition part_ok :: "inbound_context \<Rightarrow> rule_items \<Rightarrow> bool" where
  "part_ok x r = (ignoring x \<longrightarrow> items_ok (ic_IPCIDRMatchSource x) r)"

lemma stable:
  assumes "completes x c" and "ignoring x \<longrightarrow> lookup_free it \<or> is_cidr it \<and> ic_IPCIDRMatchSource x"
  shows "item_Match ev c it = item_Match ev x it"
proof (cases "ignoring x")
  case True
  with assms obtain as m f where "base c = known as m f (base x)" by (auto simp: completes_def)
  then have "item_Match ev c it = item_Match ev (known as m f (base x)) it" by (metis item_Match_base)
  also have "\<dots> = item_Match ev (base x) it"
    using True assms(2) lookup_free_known is_cidr_known by (metis base_fields(1))
  finally show ?thesis by (simp add: item_Match_base)
next
  case False
  with assms(1) show ?thesis using item_base [of c x] by (simp add: completes_def)
qed

lemma stable_all_items:
  assumes "completes x c" "part_ok x r" shows "all_items ev r c = all_items ev r x"
  using stable [OF assms(1)] assms(2)
  by (auto simp: all_items_def part_ok_def items_ok_def list_all_iff)

lemma stable_group:
  assumes "completes x c" "part_ok x r" "it \<in> set (engine_group n r x)"
  shows "it \<in> set (engine_group n r c)" "item_Match ev c it = item_Match ev x it"
proof -
  show "it \<in> set (engine_group n r c)"
    using assms(3) completes_fields [OF assms(1)]
    by (auto simp: engine_group_def source_address_fields_def split: if_splits)
  have "ignoring x \<longrightarrow> lookup_free it \<or> is_cidr it \<and> ic_IPCIDRMatchSource x"
    using assms(2,3)
    by (auto simp: engine_group_def source_address_fields_def part_ok_def items_ok_def list_all_iff split: if_splits)
  then show "item_Match ev c it = item_Match ev x it" by (rule stable [OF assms(1)])
qed

lemma engine_group_completed:
  assumes "completes x c" "n \<noteq> 2 \<or> \<not> ignoring x \<or> ic_IPCIDRMatchSource x \<or> r_destinationIPCIDRItems r = []"
  shows "engine_group n r c = engine_group n r x"
proof (cases "ignoring x")
  case True
  with assms(2) completes_fields [OF assms(1)] show ?thesis
    by (auto simp: engine_group_def source_address_fields_def)
next
  case False
  with assms(1) have "base c = base x" by (simp add: completes_def)
  then show ?thesis by (rule engine_base(1))
qed

lemma group_ok_iff: "group_ok ev sel parts \<longleftrightarrow>
    ((\<exists>(r, c) \<in> set parts. sel r c \<noteq> []) \<longrightarrow> (\<exists>(r, c) \<in> set parts. list_ex (item_Match ev c) (sel r c)))"
  by (auto simp: group_ok_def list_all_iff list_ex_iff)

lemma formula_engine:
  assumes "\<And>r c. (r, c) \<in> set parts \<Longrightarrow> \<not> ignoring c"
  shows "formula ev parts \<longleftrightarrow>
    (\<forall>n. (\<exists>(r, c) \<in> set parts. engine_group n r c \<noteq> []) \<longrightarrow>
         (\<exists>(r, c) \<in> set parts. list_ex (item_Match ev c) (engine_group n r c))) \<and>
    (\<forall>(r, c) \<in> set parts. all_items ev r c)"
proof -
  define ok where "ok n \<longleftrightarrow> (\<exists>(r, c) \<in> set parts. engine_group n r c \<noteq> []) \<longrightarrow>
         (\<exists>(r, c) \<in> set parts. list_ex (item_Match ev c) (engine_group n r c))" for n
  have "ok n" if "n \<noteq> 0 \<and> n \<noteq> 1 \<and> n \<noteq> 2 \<and> n \<noteq> 3" for n
    using that by (simp add: ok_def engine_group_def)
  then have all: "(\<forall>n. ok n) \<longleftrightarrow> ok 0 \<and> ok 1 \<and> ok 2 \<and> ok 3" by metis
  have groups: "ok 0 = group_ok ev source_address_fields parts"
    "ok 1 = group_ok ev (\<lambda>r c. r_sourcePortItems r) parts"
    "ok 3 = group_ok ev (\<lambda>r c. r_destinationPortItems r) parts"
    by (simp_all add: ok_def group_ok_iff engine_group_def)
  have "engine_group 2 r c = destination_address_fields r c" if "(r, c) \<in> set parts" for r c
    using assms [OF that] by (simp add: engine_group_def destination_address_fields_def)
  then have "ok 2 = group_ok ev destination_address_fields parts"
    unfolding ok_def group_ok_iff by (intro arg_cong2 [where f = "(\<longrightarrow>)"] bex_cong refl) auto
  with all groups show ?thesis
    by (auto simp: formula_def list_all_iff simp flip: ok_def)
qed


section \<open>Merged groups\<close>

type_synonym parts = "(rule_items \<times> inbound_context) list"

definition satisfied_at :: "route_env \<Rightarrow> nat \<Rightarrow> parts \<Rightarrow> bool" where
  "satisfied_at ev n ps = (\<exists>(r, x) \<in> set ps. list_ex (item_Match ev x) (engine_group n r x))"

definition parts_done :: "route_env \<Rightarrow> parts \<Rightarrow> bool" where
  "parts_done ev ps = (\<forall>n. (\<exists>(r, x) \<in> set ps. engine_group n r x \<noteq> []) \<longrightarrow> satisfied_at ev n ps)"

definition completed :: "parts \<Rightarrow> parts \<Rightarrow> bool" where
  "completed ps qs = list_all2 (\<lambda>(r, x) (r', c). r' = r \<and> completes x c \<and> part_ok x r) ps qs"

text \<open>Domain fields and deferred \<open>ip_cidr\<close> fields do not share a destination group.\<close>

definition parts_separate :: "parts \<Rightarrow> bool" where
  "parts_separate ps = ((\<exists>(r, x) \<in> set ps. r_destinationAddressItems r \<noteq> []) \<longrightarrow>
     (\<forall>(r, x) \<in> set ps. ignoring x \<longrightarrow> ic_IPCIDRMatchSource x \<or> r_destinationIPCIDRItems r = []))"

lemma done_single: "g_done (fst (evaluateGroups ev r x)) \<longleftrightarrow> parts_done ev [(r, x)]"
  by (simp add: g_done_iff evaluateGroups_bits parts_done_def satisfied_at_def)

lemma done_merged:
  "g_done (mergeWith (fst (evaluateGroups ev r x)) (fst (evaluateGroups ev b y))) \<longleftrightarrow> parts_done ev [(r, x), (b, y)]"
  by (simp add: g_done_iff mergeWith_def bit_or_iff evaluateGroups_bits parts_done_def satisfied_at_def)

lemma satisfied_merged:
  "bit (g_satisfied (mergeWith (fst (evaluateGroups ev r x)) (fst (evaluateGroups ev b y)))) n \<longleftrightarrow>
   satisfied_at ev n [(r, x), (b, y)]"
  by (simp add: mergeWith_def bit_or_iff evaluateGroups_bits satisfied_at_def)

lemma completedD:
  assumes "completed ps qs"
  shows "(r, x) \<in> set ps \<Longrightarrow> \<exists>c. (r, c) \<in> set qs \<and> completes x c \<and> part_ok x r"
    and "(r, c) \<in> set qs \<Longrightarrow> \<exists>x. (r, x) \<in> set ps \<and> completes x c \<and> part_ok x r"
proof -
  show "(r, x) \<in> set ps \<Longrightarrow> \<exists>c. (r, c) \<in> set qs \<and> completes x c \<and> part_ok x r"
    using assms by (fastforce simp: completed_def list_all2_conv_all_nth in_set_conv_nth)
  show "(r, c) \<in> set qs \<Longrightarrow> \<exists>x. (r, x) \<in> set ps \<and> completes x c \<and> part_ok x r"
    using assms by (fastforce simp: completed_def list_all2_conv_all_nth in_set_conv_nth)
qed

lemma completed_formula:
  assumes "completed ps qs"
  shows "formula ev qs \<longleftrightarrow>
    (\<forall>n. (\<exists>(r, c) \<in> set qs. engine_group n r c \<noteq> []) \<longrightarrow> satisfied_at ev n qs) \<and>
    (\<forall>(r, x) \<in> set ps. all_items ev r x)"
proof -
  have "\<not> ignoring c" if "(r, c) \<in> set qs" for r c
    using completedD(2) [OF assms that] completes_fields(1) by blast
  moreover have "(\<forall>(r, c) \<in> set qs. all_items ev r c) \<longleftrightarrow> (\<forall>(r, x) \<in> set ps. all_items ev r x)"
    using completedD [OF assms] stable_all_items by fastforce
  ultimately show ?thesis by (simp add: formula_engine satisfied_at_def)
qed

lemma satisfied_completed:
  assumes "completed ps qs" "satisfied_at ev n ps" shows "satisfied_at ev n qs"
proof -
  from assms(2) obtain r x it where "(r, x) \<in> set ps" "it \<in> set (engine_group n r x)" "item_Match ev x it"
    by (auto simp: satisfied_at_def list_ex_iff)
  moreover obtain c where "(r, c) \<in> set qs" "completes x c" "part_ok x r"
    using completedD(1) [OF assms(1)] calculation(1) by blast
  ultimately show ?thesis using stable_group by (fastforce simp: satisfied_at_def list_ex_iff)
qed

lemma parts_false:
  assumes "completed ps qs" "parts_separate ps"
    and all_same: "\<And>r x r' x'. (r, x) \<in> set ps \<Longrightarrow> (r', x') \<in> set ps \<Longrightarrow> ignoring x = ignoring x'"
    and "\<not> (parts_done ev ps \<and> (\<forall>(r, x) \<in> set ps. all_items ev r x))"
  shows "\<not> formula ev qs"
proof (cases "\<forall>(r, x) \<in> set ps. all_items ev r x")
  case False
  then show ?thesis by (simp add: completed_formula [OF assms(1)])
next
  case True
  with assms(4) obtain n r x where n: "(r, x) \<in> set ps" "engine_group n r x \<noteq> []" "\<not> satisfied_at ev n ps"
    by (auto simp: parts_done_def)
  obtain c where c: "(r, c) \<in> set qs" "completes x c" "part_ok x r" using completedD(1) [OF assms(1) n(1)] by blast
  have "engine_group n r c \<noteq> []"
    using stable_group(1) [OF c(2,3)] n(2) by (metis list.set_intros(1) neq_Nil_conv set_empty empty_iff)
  moreover have "\<not> satisfied_at ev n qs"
  proof
    assume "satisfied_at ev n qs"
    then obtain r' c' it where it: "(r', c') \<in> set qs" "it \<in> set (engine_group n r' c')" "item_Match ev c' it"
      by (auto simp: satisfied_at_def list_ex_iff)
    obtain x' where x': "(r', x') \<in> set ps" "completes x' c'" "part_ok x' r'"
      using completedD(2) [OF assms(1) it(1)] by blast
    have "n \<noteq> 2 \<or> \<not> ignoring x' \<or> ic_IPCIDRMatchSource x' \<or> r_destinationIPCIDRItems r' = []"
    proof (rule ccontr)
      assume "\<not> ?thesis"
      then have bad: "n = 2" "ignoring x'" "\<not> ic_IPCIDRMatchSource x'" "r_destinationIPCIDRItems r' \<noteq> []" by auto
      then have none: "r_destinationAddressItems r'' = []" if "(r'', y) \<in> set ps" for r'' y
        using assms(2) x'(1) that by (fastforce simp: parts_separate_def)
      then have "\<not> ignoring x" using n bad(1) by (auto simp: engine_group_def split: if_splits)
      then show False using all_same [OF n(1) x'(1)] bad(2) by simp
    qed
    then have "engine_group n r' c' = engine_group n r' x'" by (rule engine_group_completed [OF x'(2)])
    then have "satisfied_at ev n ps"
      using it x' stable_group(2) [OF x'(2,3)] by (fastforce simp: satisfied_at_def list_ex_iff)
    then show False using n(3) by simp
  qed
  ultimately show ?thesis using c(1) by (auto simp: completed_formula [OF assms(1)])
qed

lemma parts_true:
  assumes "completed ps qs" "parts_done ev ps" "\<forall>(r, x) \<in> set ps. all_items ev r x"
    and "satisfied_at ev 2 ps \<or> (\<forall>(r, x) \<in> set ps. \<not> open_group r x)"
  shows "formula ev qs"
proof -
  have "satisfied_at ev n qs" if in_qs: "(r, c) \<in> set qs" and nonempty: "engine_group n r c \<noteq> []" for n r c
  proof -
    obtain x where x: "(r, x) \<in> set ps" "completes x c" "part_ok x r" using completedD(2) [OF assms(1) in_qs] by blast
    have "satisfied_at ev n ps"
    proof (cases "n = 2 \<and> satisfied_at ev 2 ps")
      case False
      have "engine_group n r x \<noteq> []"
      proof (cases "n \<noteq> 2 \<or> \<not> ignoring x \<or> ic_IPCIDRMatchSource x \<or> r_destinationIPCIDRItems r = []")
        case True
        then show ?thesis using engine_group_completed [OF x(2) True] nonempty by simp
      next
        case no: False
        then have "\<not> open_group r x" using assms(4) x(1) False by auto
        with no show ?thesis by (auto simp: open_group_def engine_group_def)
      qed
      then show ?thesis using assms(2) x(1) by (auto simp: parts_done_def)
    qed simp
    then show ?thesis by (rule satisfied_completed [OF assms(1)])
  qed
  then show ?thesis using assms(3) by (auto simp: completed_formula [OF assms(1)])
qed


section \<open>Verdicts\<close>

text \<open>A verdict about a context: a refusal and a match without deferred groups hold for every context
  it stands for; a match with the destination group deferred says nothing.\<close>

definition settles :: "inbound_context \<Rightarrow> (inbound_context \<Rightarrow> bool) \<Rightarrow> bool \<Rightarrow> bool \<Rightarrow> 8 word \<Rightarrow> bool" where
  "settles x s md b d \<longleftrightarrow>
     (b \<longrightarrow> d = 0 \<or> d = 4 \<and> ignoring x \<and> md) \<and>
     (\<not> b \<longrightarrow> (\<forall>c. completes x c \<longrightarrow> \<not> s c)) \<and>
     (b \<and> d = 0 \<longrightarrow> (\<forall>c. completes x c \<longrightarrow> s c))"

definition decides :: "inbound_context \<Rightarrow> bool \<Rightarrow> matcher \<Rightarrow> (inbound_context \<Rightarrow> bool) \<Rightarrow> bool" where
  "decides x md m s \<longleftrightarrow> (\<forall>y. base y = x \<longrightarrow> deferred y = 0 \<longrightarrow>
     base (snd (m y)) = x \<and> settles x s md (fst (m y)) (deferred (snd (m y))))"

lemma decidesD:
  assumes "decides x md m s" "base y = x" "deferred y = 0" "m y = (b, y')"
  shows "base y' = x" "settles x s md b (deferred y')"
  using assms unfolding decides_def by force+

lemma under_eqD: "under False False a = under False False b \<Longrightarrow> under s e a = under s e b"
  by (metis under_simps(1))

lemma four_or_four: "(4 :: 8 word) OR 4 = 4" "(4 :: 8 word) \<noteq> 0"
  by simp_all

lemma and_loop_settles:
  assumes "list_all2 (decides x md) ms ss"
    and "under False False (base y) = x" and "dg = 0 \<or> dg = 4 \<and> ignoring x \<and> md"
    and "and_loop ms dg y = (b, d, y')"
  shows "under False False (base y') = x \<and> (\<not> b \<longrightarrow> d = 0) \<and> (b \<and> d = 0 \<longrightarrow> dg = 0) \<and>
    settles x (\<lambda>c. list_all (\<lambda>s. s c) ss) md b d"
  using assms
proof (induction ms ss arbitrary: dg y rule: list_all2_induct)
  case Nil
  then show ?case by (auto simp: settles_def)
next
  case (Cons m ms s ss)
  obtain b1 y1 where m: "m (ResetRuleCache y) = (b1, y1)" by (cases "m (ResetRuleCache y)")
  have y1: "base y1 = x" "settles x s md b1 (deferred y1)"
    using decidesD [OF Cons.hyps(1) _ _ m] Cons.prems(1) by (simp_all add: route_ctx)
  have x: "under False False x = x" using Cons.prems(1) by (metis under_simps(1))
  show ?case
  proof (cases b1)
    case False
    with m Cons.prems y1 x show ?thesis by (auto simp: settles_def)
  next
    case True
    have "dg OR deferred y1 = 0 \<or> dg OR deferred y1 = 4 \<and> ignoring x \<and> md"
      using Cons.prems(2) y1(2) True by (auto simp: settles_def)
    moreover have "and_loop ms (dg OR deferred y1) y1 = (b, d, y')" using Cons.prems(3) m True by simp
    ultimately have "under False False (base y') = x \<and> (\<not> b \<longrightarrow> d = 0) \<and> (b \<and> d = 0 \<longrightarrow> dg OR deferred y1 = 0) \<and>
        settles x (\<lambda>c. list_all (\<lambda>s. s c) ss) md b d"
      using Cons.IH [of y1 "dg OR deferred y1"] y1 x by simp
    then show ?thesis using y1(2) True Cons.prems(2) by (auto simp: settles_def)
  qed
qed

lemma or_loop_settles:
  assumes "list_all2 (decides x md) ms ss"
    and "under False False (base y) = x" and "if matched then dg = 4 \<and> ignoring x \<and> md else dg = 0"
    and "or_loop ms matched dg y = (b, d, y')"
  shows "under False False (base y') = x \<and> (\<not> b \<longrightarrow> d = 0) \<and> (matched \<longrightarrow> b) \<and>
    settles x (\<lambda>c. list_ex (\<lambda>s. s c) ss) md b d"
  using assms
proof (induction ms ss arbitrary: matched dg y rule: list_all2_induct)
  case Nil
  then show ?case by (auto simp: settles_def split: if_splits)
next
  case (Cons m ms s ss)
  obtain b1 y1 where m: "m (ResetRuleCache y) = (b1, y1)" by (cases "m (ResetRuleCache y)")
  have y1: "base y1 = x" "settles x s md b1 (deferred y1)"
    using decidesD [OF Cons.hyps(1) _ _ m] Cons.prems(1) by (simp_all add: route_ctx)
  have x: "under False False x = x" using Cons.prems(1) by (metis under_simps(1))
  consider "b1" "deferred y1 = 0" | "b1" "deferred y1 = 4 \<and> ignoring x \<and> md" | "\<not> b1"
    using y1(2) by (auto simp: settles_def)
  then show ?case
  proof cases
    case 1
    with m Cons.prems y1 x show ?thesis by (auto simp: settles_def)
  next
    case 2
    then have "or_loop ms True 4 y1 = (b, d, y')"
      using Cons.prems(2,3) m by (cases matched) auto
    then have "under False False (base y') = x \<and> (\<not> b \<longrightarrow> d = 0) \<and> b \<and> settles x (\<lambda>c. list_ex (\<lambda>s. s c) ss) md b d"
      using Cons.IH [of y1 True 4] 2 y1 x by auto
    then show ?thesis by (auto simp: settles_def)
  next
    case 3
    then have "or_loop ms matched dg y1 = (b, d, y')" using Cons.prems(3) m by simp
    then have "under False False (base y') = x \<and> (\<not> b \<longrightarrow> d = 0) \<and> (matched \<longrightarrow> b) \<and>
        settles x (\<lambda>c. list_ex (\<lambda>s. s c) ss) md b d"
      using Cons.IH [of y1 matched dg] Cons.prems(2) y1 x by simp
    then show ?thesis using y1(2) 3 by (auto simp: settles_def)
  qed
qed

lemma settles_invert:
  assumes "settles x s md b d"
  shows "settles x (\<lambda>c. neg \<noteq> s c) md (if neg then \<not> b \<or> d \<noteq> 0 else b) (if b then d else 0)"
  using assms by (cases neg; cases b) (auto simp: settles_def)

lemma settles_under: "settles (under s e x) f md b d \<Longrightarrow> settles x (\<lambda>c. f (under s e c)) md b d"
  unfolding settles_def using completes_under [of x _ s e] by (simp add: under_simps)

lemma logical_decides:
  assumes "list_all2 (decides (under False False x) md) ms ss" and "base x = x"
  shows "decides x md (logical_Match ms mode neg)
    (\<lambda>c. neg \<noteq> (if mode = LogicalTypeAnd then list_all (\<lambda>s. s (under False False c)) ss
                else list_ex (\<lambda>s. s (under False False c)) ss))"
  unfolding decides_def
proof (intro allI impI)
  fix y assume y: "base y = x" "deferred y = 0"
  let ?s = "\<lambda>c. if mode = LogicalTypeAnd then list_all (\<lambda>s. s c) ss else list_ex (\<lambda>s. s c) ss"
  obtain b d y' where l: "(if mode = LogicalTypeAnd then and_loop ms 0 y else or_loop ms False 0 y) = (b, d, y')"
    by (cases "if mode = LogicalTypeAnd then and_loop ms 0 y else or_loop ms False 0 y")
  have s: "under False False (base y') = under False False x \<and> (\<not> b \<longrightarrow> d = 0) \<and> settles (under False False x) ?s md b d"
    using and_loop_settles [OF assms(1), of y 0] or_loop_settles [OF assms(1), of y False 0] l y
    by (cases "mode = LogicalTypeAnd") simp_all
  have flags: "ic_IPCIDRMatchSource y = ic_IPCIDRMatchSource x" "ic_IPCIDRAcceptEmpty y = ic_IPCIDRAcceptEmpty x"
    using y(1) base_fields(1,2) [of y] by simp_all
  have "under (ic_IPCIDRMatchSource x) (ic_IPCIDRAcceptEmpty x) (base y') = x"
    using under_eqD [of "base y'" x "ic_IPCIDRMatchSource x" "ic_IPCIDRAcceptEmpty x"] s by (metis under_simps(2))
  moreover have "settles x (\<lambda>c. ?s (under False False c)) md b d"
    using settles_under [of False False x ?s md b d] s by blast
  moreover have "logical_Match ms mode neg y =
      (if neg then \<not> b \<or> d \<noteq> 0 else b,
       if b then set_deferred (deferred y OR d) (restore (snapshotRuleMatch y) y') else restore (snapshotRuleMatch y) y')"
    using l by (simp add: logical_Match_def finish_logical_def Let_def route_ctx)
  ultimately show "base (snd (logical_Match ms mode neg y)) = x \<and>
      settles x (\<lambda>c. neg \<noteq> (if mode = LogicalTypeAnd then list_all (\<lambda>s. s (under False False c)) ss
                else list_ex (\<lambda>s. s (under False False c)) ss)) md
        (fst (logical_Match ms mode neg y)) (deferred (snd (logical_Match ms mode neg y)))"
    using settles_invert [of x "\<lambda>c. ?s (under False False c)" md b d neg] flags y(2)
    by (cases b) (simp_all add: route_ctx)
qed

lemma restore_base:
  assumes "under s e (base y) = under s e (base z)"
  shows "base (restore (snapshotRuleMatch z) y) = base z"
proof -
  have "base (restore (snapshotRuleMatch z) y) = under (ic_IPCIDRMatchSource z) (ic_IPCIDRAcceptEmpty z) (under s e (base y))"
    by (simp add: route_ctx)
  also have "\<dots> = under (ic_IPCIDRMatchSource (base z)) (ic_IPCIDRAcceptEmpty (base z)) (base z)"
    by (simp only: assms under_simps base_fields)
  finally show ?thesis by (simp only: under_simps)
qed

lemma any_loop_settles:
  assumes "list_all2 (decides x md) ms ss" and "base z = x" "deferred z = 0"
    and "base y = x" and "if matched then dg = 4 \<and> ignoring x \<and> md else dg = 0"
    and "any_loop (snapshotRuleMatch z) ms matched dg y = (b, y')"
  shows "base y' = x \<and> (matched \<longrightarrow> b) \<and> settles x (\<lambda>c. list_ex (\<lambda>s. s c) ss) md b (deferred y')"
  using assms
proof (induction ms ss arbitrary: matched dg y rule: list_all2_induct)
  case Nil
  then have "base (restore (snapshotRuleMatch z) y) = x" using restore_base [of _ _ y z] by simp
  with Nil show ?case
    by (auto simp: leave_loop_def Let_def settles_def base_simps(2) deferred_simps split: if_splits)
next
  case (Cons m ms s ss)
  obtain b1 y1 where m: "m (ResetRuleMatchCache y) = (b1, y1)" by (cases "m (ResetRuleMatchCache y)")
  have y1: "base y1 = x" "settles x s md b1 (deferred y1)"
    using decidesD [OF Cons.hyps(1) _ _ m] Cons.prems(3) base_simps(1) [of y] base_fields(4) [of y] by simp_all
  have r: "base (restore (snapshotRuleMatch z) y1) = x" "deferred (restore (snapshotRuleMatch z) y1) = 0"
    using y1(1) Cons.prems(1,2) restore_base [of _ _ y1 z] by (simp_all add: deferred_simps)
  consider "b1" "deferred y1 = 0" | "b1" "deferred y1 = 4 \<and> ignoring x \<and> md" | "\<not> b1"
    using y1(2) by (auto simp: settles_def)
  then show ?case
  proof cases
    case 1
    with m Cons.prems(5) r y1 show ?thesis by (auto simp: settles_def)
  next
    case 2
    then have "any_loop (snapshotRuleMatch z) ms True 4 y1 = (b, y')"
      using Cons.prems(4,5) m by (cases matched) auto
    then have "base y' = x \<and> b \<and> settles x (\<lambda>c. list_ex (\<lambda>s. s c) ss) md b (deferred y')"
      using Cons.IH [of y1 True 4] 2 y1 Cons.prems(1,2) by auto
    then show ?thesis by (auto simp: settles_def)
  next
    case 3
    then have "any_loop (snapshotRuleMatch z) ms matched dg y1 = (b, y')" using Cons.prems(5) m by simp
    then have "base y' = x \<and> (matched \<longrightarrow> b) \<and> settles x (\<lambda>c. list_ex (\<lambda>s. s c) ss) md b (deferred y')"
      using Cons.IH [of y1 matched dg] Cons.prems(1,2,4) y1 by simp
    then show ?thesis using y1(2) 3 by (auto simp: settles_def)
  qed
qed

lemma any_decides:
  assumes "list_all2 (decides x md) ms ss"
  shows "decides x md (matchAnyHeadlessRule ms) (\<lambda>c. list_ex (\<lambda>s. s c) ss)"
  unfolding decides_def
proof (intro allI impI)
  fix y assume y: "base y = x" "deferred y = 0"
  obtain b y' where l: "matchAnyHeadlessRule ms y = (b, y')" by (cases "matchAnyHeadlessRule ms y")
  with any_loop_settles [OF assms y y(1), of False 0 b y']
  show "base (snd (matchAnyHeadlessRule ms y)) = x \<and>
      settles x (\<lambda>c. list_ex (\<lambda>s. s c) ss) md (fst (matchAnyHeadlessRule ms y)) (deferred (snd (matchAnyHeadlessRule ms y)))"
    by (simp add: matchAnyHeadlessRule_def)
qed


subsection \<open>References to rule sets\<close>

text \<open>The outer rule in context \<open>x\<close>, and one of the sets it refers to, seen in context \<open>under src emp x\<close>.\<close>

definition branch_ok :: "inbound_context \<Rightarrow> rule_items \<Rightarrow> bool \<Rightarrow> bool \<Rightarrow> bool \<Rightarrow>
    rule_items option \<times> matcher \<Rightarrow> rule_items option \<times> (inbound_context \<Rightarrow> bool) \<Rightarrow> bool" where
  "branch_ok x outer src emp md p q \<longleftrightarrow> fst p = fst q \<and>
     (case fst p of
        Some b \<Rightarrow> part_ok (under src emp x) b \<and> parts_separate [(outer, x), (b, under src emp x)] \<and>
          (open_group b (under src emp x) \<longrightarrow> md)
      | None \<Rightarrow> decides (under src emp x) (md \<and> r_destinationAddressItems outer = []) (snd p) (snd q))"

text \<open>What \<open>matchInner\<close> makes of the result of a reference.\<close>

definition ref_settles :: "route_env \<Rightarrow> inbound_context \<Rightarrow> rule_items \<Rightarrow> (inbound_context \<Rightarrow> bool) \<Rightarrow> bool \<Rightarrow> bool \<times> inbound_context \<Rightarrow> bool" where
  "ref_settles ev x outer s md r \<longleftrightarrow> base (snd r) = x \<and>
     settles x s md (fst r) (and_not (deferred (snd r)) (g_satisfied (fst (evaluateGroups ev outer x))))"

lemma completed_single: "completes x c \<Longrightarrow> part_ok x r \<Longrightarrow> completed [(r, x)] [(r, c)]"
  by (simp add: completed_def)

lemma completed_pair: "completes x c \<Longrightarrow> part_ok x r \<Longrightarrow> part_ok (under s e x) b \<Longrightarrow>
    completed [(r, x), (b, under s e x)] [(r, c), (b, under s e c)]"
  by (simp add: completed_def completes_under)

lemma outer_false:
  assumes "completes x c" "part_ok x r" "parts_separate [(r, x)]"
    and "\<not> (g_done (fst (evaluateGroups ev r x)) \<and> all_items ev r x)"
  shows "\<not> formula ev [(r, c)]"
  using parts_false [OF completed_single [OF assms(1,2)] assms(3)] assms(4) by (auto simp: done_single)

lemma outer_true:
  assumes "completes x c" "part_ok x r" "g_done (fst (evaluateGroups ev r x))" "all_items ev r x"
    and "bit (g_satisfied (fst (evaluateGroups ev r x))) 2 \<or> \<not> open_group r x"
  shows "formula ev [(r, c)]"
  using parts_true [OF completed_single [OF assms(1,2)]] assms(3-5)
  by (simp add: done_single satisfied_at_def evaluateGroups_bits)

lemma merged_false:
  assumes "completes x c" "part_ok x r" "part_ok (under s e x) b" "parts_separate [(r, x), (b, under s e x)]"
    and "\<not> (g_done (mergeWith (fst (evaluateGroups ev r x)) (fst (evaluateGroups ev b (under s e x)))) \<and> all_items ev b (under s e x))"
  shows "\<not> formula ev [(r, c), (b, under s e c)]"
proof (rule parts_false [OF completed_pair [OF assms(1-3)] assms(4)])
  show "ignoring y = ignoring y'" if "(r', y) \<in> set [(r, x), (b, under s e x)]" "(r'', y') \<in> set [(r, x), (b, under s e x)]" for r' y r'' y'
    using that by (auto simp: under_simps)
qed (use assms(5) in \<open>auto simp: done_merged\<close>)

lemma merged_true:
  assumes "completes x c" "part_ok x r" "part_ok (under s e x) b" "all_items ev r x" "all_items ev b (under s e x)"
    and "g_done (mergeWith (fst (evaluateGroups ev r x)) (fst (evaluateGroups ev b (under s e x))))"
    and "bit (g_satisfied (mergeWith (fst (evaluateGroups ev r x)) (fst (evaluateGroups ev b (under s e x))))) 2 \<or>
      \<not> open_group r x \<and> \<not> open_group b (under s e x)"
  shows "formula ev [(r, c), (b, under s e c)]"
  using parts_true [OF completed_pair [OF assms(1-3)]] assms(4-7)
  by (simp add: done_merged satisfied_merged)

lemma and_not_four:
  "and_not 0 w = 0" "and_not 4 w = (if bit w 2 then 0 else 4)"
proof -
  have "and_not 4 w = (if bit w 2 then 0 else (4 :: 8 word))"
    by (rule bit_word_eqI) (auto simp: bit_and_not bit_state simp del: bit_numeral_word_iff)
  then show "and_not 0 w = 0" "and_not 4 w = (if bit w 2 then 0 else 4)"
    by (simp_all add: and_not_def)
qed

lemma evaluateForMerge_eq:
  assumes "base y = x" "deferred y = 0"
  shows "evaluateForMerge ev b y =
    (if all_items ev b x then Some (fst (evaluateGroups ev b x)) else None,
     if open_group b x then set_deferred 4 y else y)"
proof -
  have e: "base y = base x" using assms by (metis base_simps(1))
  have "evaluateGroups ev b y = (fst (evaluateGroups ev b x), if open_group b x then set_deferred 4 y else y)"
    using engine_base(2) [OF e, of b] engine_base(4) [OF e, of ev b] evaluateGroups_context [of ev b y] assms(2)
    by (cases "evaluateGroups ev b y") auto
  moreover have "all_items ev b y = all_items ev b x" "all_items ev b (set_deferred 4 y) = all_items ev b x"
    using engine_base(3) [of y x ev b] engine_base(3) [of "set_deferred 4 y" x ev b] e by (simp_all add: base_simps)
  ultimately show ?thesis by (simp add: evaluateForMerge_def)
qed

lemma satisfied_2: "ignoring x \<Longrightarrow> r_destinationAddressItems r = [] \<Longrightarrow> \<not> bit (g_satisfied (fst (evaluateGroups ev r x))) 2"
  by (simp add: evaluateGroups_bits engine_group_def)

lemma open_ignoring: "open_group r x \<Longrightarrow> ignoring x"
  by (simp add: open_group_def)

definition loop_state :: "inbound_context \<Rightarrow> bool \<Rightarrow> ruleGroupMatch \<Rightarrow> bool \<Rightarrow> 8 word \<Rightarrow> bool" where
  "loop_state x md groups matched dg =
     (if matched then dg = 4 \<and> ignoring x \<and> md \<and> \<not> bit (g_satisfied groups) 2 else dg = 0)"

definition loop_ok :: "route_env \<Rightarrow> inbound_context \<Rightarrow> rule_items \<Rightarrow> bool \<Rightarrow> bool \<Rightarrow> bool \<Rightarrow>
    (rule_items option \<times> (inbound_context \<Rightarrow> bool)) list \<Rightarrow> bool \<Rightarrow> bool \<times> inbound_context \<Rightarrow> bool" where
  "loop_ok ev x outer src emp md qs matched r \<longleftrightarrow>
     ref_settles ev x outer (\<lambda>c. list_ex (sem_branch ev src emp outer c) qs) md r \<and> (matched \<longrightarrow> fst r)"

definition outer_ok :: "route_env \<Rightarrow> inbound_context \<Rightarrow> rule_items \<Rightarrow> bool \<Rightarrow> inbound_context \<Rightarrow> bool" where
  "outer_ok ev x outer md z \<longleftrightarrow> base z = x \<and> deferred z = (if open_group outer x then 4 else 0) \<and>
     part_ok x outer \<and> parts_separate [(outer, x)] \<and> all_items ev outer x \<and> (open_group outer x \<longrightarrow> md)"

lemma outer_okD:
  assumes "outer_ok ev x outer md z"
  shows "base z = x" "deferred z = (if open_group outer x then 4 else 0)" "part_ok x outer" "parts_separate [(outer, x)]"
    "all_items ev outer x" "open_group outer x \<Longrightarrow> md"
  using assms by (simp_all add: outer_ok_def)

lemma loop_ok_simps:
  "(\<forall>c. completes x c \<longrightarrow> \<not> sem_branch ev src emp outer c q) \<Longrightarrow> loop_ok ev x outer src emp md qs matched r \<Longrightarrow>
     loop_ok ev x outer src emp md (q # qs) matched r"
  "loop_ok ev x outer src emp md qs True r \<Longrightarrow> loop_ok ev x outer src emp md (q # qs) matched r"
  by (simp_all add: loop_ok_def ref_settles_def settles_def)

lemma nested_return:
  assumes "base c1 = under src emp x" "base z = x"
  shows "base (restore (snapshotRuleMatch z) c1) = x" "under src emp (base c1) = under src emp x"
  using restore_base [of src emp c1 z] assms by (simp_all add: under_simps)

lemma plain_head:
  fixes ev x outer src emp
  defines "groups \<equiv> fst (evaluateGroups ev outer x)" and "nested \<equiv> under src emp x"
  assumes outer_ok: "outer_ok ev x outer md z" and head: "branch_ok x outer src emp md (None, m) q"
    and y: "under src emp (base y) = nested" and st: "loop_state x md groups matched dg"
    and ih: "\<And>matched dg c. base c = nested \<Longrightarrow> loop_state x md groups matched dg \<Longrightarrow>
      loop_ok ev x outer src emp md qs matched (outer_loop ev src emp groups (snapshotRuleMatch z) ps matched dg c)"
  shows "loop_ok ev x outer src emp md (q # qs) matched
    (outer_loop ev src emp groups (snapshotRuleMatch z) ((None, m) # ps) matched dg y)"
proof -
  note outer = outer_okD [OF outer_ok]
  define c0 where "c0 = prepareNestedMatch src emp y"
  have c0: "base c0 = nested" "deferred c0 = 0"
    using y by (simp_all add: c0_def base_simps deferred_simps)
  have dg_or: "dg OR 4 = 4" using st by (auto simp: loop_state_def split: if_splits)
  have dec: "decides nested (md \<and> r_destinationAddressItems outer = []) m (snd q)" and q: "fst q = None"
    using head by (simp_all add: branch_ok_def nested_def)
  show ?thesis
  proof (cases "g_done groups")
    case False
    have "\<forall>c. completes x c \<longrightarrow> \<not> sem_branch ev src emp outer c q"
      using outer_false [OF _ outer(3,4)] False q by (simp add: sem_branch_def groups_def)
    then show ?thesis
      using ih [OF c0(1) st] False loop_ok_simps(1) by (simp add: Let_def flip: c0_def)
  next
    case True
    obtain b1 c1 where m: "m c0 = (b1, c1)" by (cases "m c0")
    note c1 = decidesD [OF dec c0 m]
    have c1': "settles x (\<lambda>c. snd q (under src emp c)) (md \<and> r_destinationAddressItems outer = []) b1 (deferred c1)"
      using settles_under c1(2) nested_def by blast
    consider "b1" "deferred c1 = 0" | "b1" "deferred c1 = 4" "ignoring x \<and> md \<and> r_destinationAddressItems outer = []" | "\<not> b1"
      using c1' by (auto simp: settles_def)
    then show ?thesis
    proof cases
      case 1
      have "formula ev [(outer, c)]" if "completes x c" "\<not> open_group outer x \<or> bit (g_satisfied groups) 2" for c
        using outer_true [OF that(1) outer(3) _ outer(5)] True that(2) by (auto simp: groups_def)
      then have "settles x (\<lambda>c. list_ex (sem_branch ev src emp outer c) (q # qs)) md True (and_not (deferred z) (g_satisfied groups))"
        using 1 c1' outer(6) open_ignoring outer(2) q
        by (auto simp: settles_def and_not_four sem_branch_def split: if_splits)
      then show ?thesis
        using 1 True m nested_return(1) [of c1, OF _ outer(1)] c1(1)
        by (simp add: Let_def loop_ok_def ref_settles_def deferred_simps nested_def flip: c0_def groups_def)
    next
      case 2
      then have "loop_state x md groups True 4" using satisfied_2 by (simp add: loop_state_def groups_def)
      then show ?thesis
        using ih [OF c1(1)] 2 True m dg_or loop_ok_simps(2) by (simp add: Let_def flip: c0_def)
    next
      case 3
      have "\<forall>c. completes x c \<longrightarrow> \<not> sem_branch ev src emp outer c q"
        using c1' 3 q by (simp add: settles_def sem_branch_def)
      then show ?thesis
        using ih [OF c1(1) st] 3 True m loop_ok_simps(1) by (simp add: Let_def flip: c0_def)
    qed
  qed
qed

lemma merged_head:
  fixes ev x outer src emp
  defines "groups \<equiv> fst (evaluateGroups ev outer x)" and "nested \<equiv> under src emp x"
  assumes outer_ok: "outer_ok ev x outer md z" and head: "branch_ok x outer src emp md (Some b, m) q"
    and y: "under src emp (base y) = nested" and st: "loop_state x md groups matched dg"
    and ih: "\<And>matched dg c. base c = nested \<Longrightarrow> loop_state x md groups matched dg \<Longrightarrow>
      loop_ok ev x outer src emp md qs matched (outer_loop ev src emp groups (snapshotRuleMatch z) ps matched dg c)"
  shows "loop_ok ev x outer src emp md (q # qs) matched
    (outer_loop ev src emp groups (snapshotRuleMatch z) ((Some b, m) # ps) matched dg y)"
proof -
  note outer = outer_okD [OF outer_ok]
  define c0 where "c0 = prepareNestedMatch src emp y"
  define merged where "merged = mergeWith groups (fst (evaluateGroups ev b nested))"
  define c1 where "c1 = (if open_group b nested then set_deferred 4 c0 else c0)"
  have c0: "base c0 = nested" "deferred c0 = 0"
    using y by (simp_all add: c0_def base_simps deferred_simps)
  have c1: "base c1 = nested" "deferred c1 = (if open_group b nested then 4 else 0)"
    using c0 by (simp_all add: c1_def route_ctx)
  have b: "part_ok nested b" "parts_separate [(outer, x), (b, nested)]" "open_group b nested \<longrightarrow> md" "fst q = Some b"
    using head by (auto simp: branch_ok_def nested_def)
  have sat: "bit (g_satisfied groups) 2 \<Longrightarrow> bit (g_satisfied merged) 2"
    by (simp add: merged_def mergeWith_def bit_or_iff)
  note ev_merge = evaluateForMerge_eq [OF c0, of ev b, folded c1_def]
  consider (no) "\<not> (all_items ev b nested \<and> g_done merged)"
    | (op) "all_items ev b nested" "g_done merged" "open_group b nested" "\<not> bit (g_satisfied merged) 2"
    | (shut) "all_items ev b nested" "g_done merged" "\<not> open_group b nested \<or> bit (g_satisfied merged) 2" by blast
  then show ?thesis
  proof cases
    case no
    have "\<forall>c. completes x c \<longrightarrow> \<not> sem_branch ev src emp outer c q"
      using merged_false [OF _ outer(3)] b no by (auto simp: sem_branch_def nested_def merged_def groups_def)
    then show ?thesis
      using ih [OF c1(1) st] no loop_ok_simps(1) by (auto simp: Let_def ev_merge simp flip: c0_def merged_def)
  next
    case op
    have "ignoring x" using op open_ignoring [of b nested] by (simp add: nested_def under_simps)
    then have "loop_state x md groups True 4" using op b(3) sat by (auto simp: loop_state_def)
    moreover have "dg OR 4 = 4" using st by (auto simp: loop_state_def split: if_splits)
    ultimately show ?thesis
      using ih [OF c1(1)] op c1 loop_ok_simps(2) by (simp add: Let_def ev_merge and_not_four flip: c0_def merged_def)
  next
    case shut
    have "formula ev [(outer, c), (b, under src emp c)]"
      if "completes x c" "\<not> open_group outer x \<or> bit (g_satisfied merged) 2" for c
      using merged_true [OF that(1) outer(3) _ outer(5)] shut b(1) that(2) by (auto simp: nested_def merged_def groups_def)
    with sat have "settles x (\<lambda>c. list_ex (sem_branch ev src emp outer c) (q # qs)) md True
        (and_not (and_not (deferred z) (g_satisfied merged)) (g_satisfied groups))"
      using outer(6) open_ignoring outer(2) b(4)
      by (auto simp: settles_def and_not_four sem_branch_def split: if_splits)
    moreover have "outer_loop ev src emp groups (snapshotRuleMatch z) ((Some b, m) # ps) matched dg y =
        (True, set_deferred (and_not (deferred z) (g_satisfied merged)) (restore (snapshotRuleMatch z) c1))"
      using shut c1 by (auto simp: Let_def ev_merge and_not_four deferred_simps simp flip: c0_def merged_def)
    ultimately show ?thesis
      using nested_return(1) [of c1, OF _ outer(1)] c1(1)
      by (auto simp: loop_ok_def ref_settles_def base_simps(2) deferred_simps(1) nested_def simp flip: groups_def)
  qed
qed

lemma outer_loop_settles:
  fixes ev x outer src emp
  defines "groups \<equiv> fst (evaluateGroups ev outer x)"
  assumes "list_all2 (branch_ok x outer src emp md) ps qs" and outer: "outer_ok ev x outer md z"
    and "under src emp (base y) = under src emp x" and "loop_state x md groups matched dg"
  shows "loop_ok ev x outer src emp md qs matched (outer_loop ev src emp groups (snapshotRuleMatch z) ps matched dg y)"
  using assms(2,4,5)
proof (induction ps qs arbitrary: matched dg y rule: list_all2_induct)
  case Nil
  note outer = outer_okD [OF outer]
  have "base (restore (snapshotRuleMatch z) y) = x" using restore_base [of src emp y z] Nil outer(1) by simp
  moreover have "deferred z OR 4 = 4" by (simp add: outer(2))
  ultimately show ?case using Nil(2)
    by (auto simp: loop_ok_def loop_state_def ref_settles_def leave_loop_def Let_def settles_def route_ctx and_not_four
        simp flip: groups_def split: if_splits)
next
  case (Cons p ps q qs)
  have ih: "loop_ok ev x outer src emp md qs matched (outer_loop ev src emp groups (snapshotRuleMatch z) ps matched dg c)"
    if "base c = under src emp x" "loop_state x md groups matched dg" for matched dg c
    using Cons.IH [of c matched dg] that by (simp add: under_simps)
  obtain mb m where p: "p = (mb, m)" by (cases p)
  show ?case
    using plain_head [OF outer _ Cons.prems(1) Cons.prems(2) [unfolded groups_def] ih [unfolded groups_def], of m q]
      merged_head [OF outer _ Cons.prems(1) Cons.prems(2) [unfolded groups_def] ih [unfolded groups_def], of _ m q]
      Cons.hyps(1) p by (cases mb) (simp_all only: groups_def)
qed


subsection \<open>Default rules\<close>

lemma formula_items:
  assumes "(r, c) \<in> set parts" "formula ev parts" shows "all_items ev r c"
  using assms by (auto simp: formula_def list_all_iff)

lemma invert_decides:
  assumes "decides x md m s"
  shows "decides x md (\<lambda>c. if neg then invert_default (m c) else m c) (\<lambda>c. neg \<noteq> s c)"
  unfolding decides_def
proof (intro allI impI)
  fix y assume y: "base y = x" "deferred y = 0"
  obtain b y' where m: "m y = (b, y')" by (cases "m y")
  note y' = decidesD [OF assms y m]
  show "base (snd (if neg then invert_default (m y) else m y)) = x \<and>
      settles x (\<lambda>c. neg \<noteq> s c) md (fst (if neg then invert_default (m y) else m y))
        (deferred (snd (if neg then invert_default (m y) else m y)))"
    using settles_invert [OF y'(2), of neg] y' m
    by (cases neg; cases b) (auto simp: invert_default_def base_simps deferred_simps settles_def)
qed

lemma inner_decides:
  assumes x: "base x = x" and part: "part_ok x its" "parts_separate [(its, x)]" "open_group its x \<Longrightarrow> md"
    and ref: "\<And>z. outer_ok ev x its md z \<Longrightarrow> ref_settles ev x its s md
      (case w of Some withOuter \<Rightarrow> withOuter (fst (evaluateGroups ev its x)) z | None \<Rightarrow> (g_done (fst (evaluateGroups ev its x)), z))"
    and needs: "\<And>c. s c \<Longrightarrow> all_items ev its c"
  shows "decides x md (matchInner ev its w) s"
  unfolding decides_def
proof (intro allI impI)
  fix y assume y: "base y = x" "deferred y = 0"
  let ?g = "fst (evaluateGroups ev its x)" and ?c = "if open_group its x then set_deferred 4 y else y"
  have "base y = base x" using x y by simp
  then have eval: "evaluateGroups ev its y = (?g, ?c)"
    using engine_base(2) [of y x its] engine_base(4) [of y x ev its] evaluateGroups_context [of ev its y] y(2)
    by (cases "evaluateGroups ev its y") auto
  have c: "base ?c = x" "deferred ?c = (if open_group its x then 4 else 0)" using y by (simp_all add: base_simps deferred_simps)
  then have items: "all_items ev its ?c = all_items ev its x" using x by (metis engine_base(3))
  show "base (snd (matchInner ev its w y)) = x \<and>
      settles x s md (fst (matchInner ev its w y)) (deferred (snd (matchInner ev its w y)))"
  proof (cases "all_items ev its x")
    case False
    then have "\<forall>c. completes x c \<longrightarrow> \<not> s c" using needs stable_all_items [OF _ part(1)] by blast
    with False items c(1) show ?thesis by (simp add: matchInner_def eval settles_def)
  next
    case True
    obtain b c' where r: "(case w of Some withOuter \<Rightarrow> withOuter ?g ?c | None \<Rightarrow> (g_done ?g, ?c)) = (b, c')"
      by (cases "case w of Some withOuter \<Rightarrow> withOuter ?g ?c | None \<Rightarrow> (g_done ?g, ?c)")
    have "outer_ok ev x its md ?c" using True c part by (simp add: outer_ok_def)
    from ref [OF this] have b: "base c' = x" "settles x s md b (and_not (deferred c') (g_satisfied ?g))"
      unfolding r ref_settles_def by simp_all
    have "matchInner ev its w y = finish_inner ?g (b, c')"
      using True items r by (simp only: matchInner_def eval prod.case simp_thms if_False)
    then show ?thesis using b
      by (cases b) (simp_all add: finish_inner_def base_simps deferred_simps settles_def)
  qed
qed

lemma plain_decides:
  assumes x: "base x = x" and part: "part_ok x its" "parts_separate [(its, x)]" "open_group its x \<Longrightarrow> md"
  shows "decides x md (default_Match ev its None neg) (sem_default ev its None neg)"
proof (cases "no_items its")
  case True
  then show ?thesis by (auto simp: decides_def default_Match_def sem_default_def settles_def)
next
  case False
  have "decides x md (matchInner ev its None) (\<lambda>c. formula ev [(its, c)])"
  proof (rule inner_decides [OF x part])
    fix z assume "outer_ok ev x its md z"
    note z = outer_okD [OF this]
    have "settles x (\<lambda>c. formula ev [(its, c)]) md (g_done (fst (evaluateGroups ev its x)))
        (and_not (deferred z) (g_satisfied (fst (evaluateGroups ev its x))))"
      using outer_false [OF _ part(1,2)] outer_true [OF _ part(1) _ z(5)] z(2) part(3) open_ignoring
      by (auto simp: settles_def and_not_four split: if_splits)
    then show "ref_settles ev x its (\<lambda>c. formula ev [(its, c)]) md
        (case None of Some withOuter \<Rightarrow> withOuter (fst (evaluateGroups ev its x)) z | None \<Rightarrow> (g_done (fst (evaluateGroups ev its x)), z))"
      using z(1) by (simp add: ref_settles_def)
  qed (auto intro: formula_items [of its _ "[(its, _)]"])
  from invert_decides [OF this, of neg] False show ?thesis
    by (simp add: default_Match_def sem_default_def [abs_def] decides_def)
qed

lemma reference_decides:
  assumes x: "base x = x" and part: "part_ok x its" "parts_separate [(its, x)]" "open_group its x \<Longrightarrow> md"
    and sets: "list_all2 (branch_ok x its src emp md) ps qs"
  shows "decides x md (default_Match ev its (Some (matchWithOuterGroups ev ps src emp)) neg)
    (sem_default ev its (Some (\<lambda>outer c. list_ex (sem_branch ev src emp outer c) qs)) neg)"
proof -
  have "decides x md (matchInner ev its (Some (matchWithOuterGroups ev ps src emp)))
      (\<lambda>c. list_ex (sem_branch ev src emp its c) qs)"
  proof (rule inner_decides [OF x part])
    fix z assume z: "outer_ok ev x its md z"
    have "loop_state x md (fst (evaluateGroups ev its x)) False 0" by (simp add: loop_state_def)
    from outer_loop_settles [OF sets z _ this, of z] outer_okD(1) [OF z]
    show "ref_settles ev x its (\<lambda>c. list_ex (sem_branch ev src emp its c) qs) md
        (case Some (matchWithOuterGroups ev ps src emp) of
           Some withOuter \<Rightarrow> withOuter (fst (evaluateGroups ev its x)) z
         | None \<Rightarrow> (g_done (fst (evaluateGroups ev its x)), z))"
      by (simp add: loop_ok_def matchWithOuterGroups_def)
  next
    fix c assume "list_ex (sem_branch ev src emp its c) qs"
    then show "all_items ev its c"
      by (auto simp: list_ex_iff sem_branch_def dest!: formula_items [rotated] split: option.splits)
  qed
  from invert_decides [OF this, of neg] show ?thesis
    by (simp add: default_Match_def sem_default_def [abs_def] decides_def)
qed


section \<open>The engine implements the documented meaning\<close>

text \<open>Whether a rule can leave the destination group open before the lookup: it has an \<open>ip_cidr\<close> field
  that looks at the destination.\<close>

primrec may_defer :: "rule \<Rightarrow> bool \<Rightarrow> bool"
and ref_may_defer :: "rule_set_item \<Rightarrow> bool"
and set_may_defer :: "rule_set \<Rightarrow> bool \<Rightarrow> bool" where
  "may_defer (DefaultRule k its rsi neg) = (\<lambda>src.
     \<not> src \<and> r_destinationIPCIDRItems its \<noteq> [] \<or> (case map_option ref_may_defer rsi of None \<Rightarrow> False | Some b \<Rightarrow> b))"
| "may_defer (LogicalRule rules mode neg) = (\<lambda>src. list_ex (\<lambda>f. f False) (map may_defer rules))"
| "ref_may_defer (RuleSetItem sets src emp) = list_ex (\<lambda>f. f src) (map set_may_defer sets)"
| "set_may_defer (RuleSet rules) = (\<lambda>src. list_ex (\<lambda>f. f src) (map may_defer rules))"

text \<open>A rule that keeps domain fields and destination \<open>ip_cidr\<close> fields apart. An outer rule with domain
  fields refers to no set that may defer, a merged rule brings no domain fields to an outer
  \<open>ip_cidr\<close> rule, and all other items are lookup free. DNS rules on a response are excluded.\<close>

definition apart :: "bool \<Rightarrow> rule_items \<Rightarrow> bool \<Rightarrow> rule_items \<Rightarrow> bool" where
  "apart src its src' b =
     (r_destinationAddressItems its \<noteq> [] \<or> r_destinationAddressItems b \<noteq> [] \<longrightarrow>
      (src \<or> r_destinationIPCIDRItems its = []) \<and> (src' \<or> r_destinationIPCIDRItems b = []))"

primrec separated :: "rule \<Rightarrow> bool \<Rightarrow> bool"
and ref_separated :: "rule_set_item \<Rightarrow> bool \<Rightarrow> rule_items \<Rightarrow> bool"
and set_separated :: "rule_set \<Rightarrow> bool \<Rightarrow> bool \<Rightarrow> rule_items \<Rightarrow> bool" where
  "separated (DefaultRule k its rsi neg) = (\<lambda>src.
     (case k of DNSKind True _ \<Rightarrow> False | _ \<Rightarrow> True) \<and> items_ok src its \<and> apart src its src its \<and>
     (case map_option ref_separated rsi of None \<Rightarrow> True | Some f \<Rightarrow> f src its))"
| "separated (LogicalRule rules mode neg) = (\<lambda>src. list_all (\<lambda>f. f False) (map separated rules))"
| "ref_separated (RuleSetItem sets src' emp) = (\<lambda>src its.
     (r_destinationAddressItems its \<noteq> [] \<longrightarrow> \<not> list_ex (\<lambda>s. set_may_defer s src') sets) \<and>
     list_all (\<lambda>f. f src' src its) (map set_separated sets))"
| "set_separated (RuleSet rules) = (\<lambda>src' src its.
     (case mergeableRuleIn rules of
        Some b \<Rightarrow> items_ok src' b \<and> apart src its src' b
      | None \<Rightarrow> list_all (\<lambda>f. f src') (map separated rules)))"

lemma decides_mono: "decides x md m s \<Longrightarrow> (ignoring x \<and> md \<longrightarrow> md') \<Longrightarrow> decides x md' m s"
  by (auto simp: decides_def settles_def)

lemma response_for_base: "response_for tag (base c) = response_for tag c"
  by (simp add: response_for_def ResetRuleMatchCache_def)

lemma kind_decides:
  assumes "\<And>x'. base x' = x' \<Longrightarrow> (ignoring x' \<longrightarrow> ignoring x \<and> x' = x) \<Longrightarrow> decides x' md m s" and "base x = x"
    and "ignoring x \<longrightarrow> (case k of DNSKind True _ \<Rightarrow> False | _ \<Rightarrow> True)"
  shows "decides x md (matchForMatch k neg m) (sem_kind k neg s)"
proof (cases "\<exists>tag. k = DNSKind True tag")
  case False
  then have "matchForMatch k neg m = m" "sem_kind k neg s = s"
    by (cases k; auto simp: matchForMatch_def sem_kind_def fun_eq_iff split: bool.splits)+
  then show ?thesis using assms(1) [OF assms(2)] by simp
next
  case True
  then obtain tag where k: "k = DNSKind True tag" by blast
  with assms(3) have no: "\<not> ignoring x" by simp
  show ?thesis
    unfolding decides_def
  proof (intro allI impI)
    fix y assume y: "base y = x" "deferred y = 0"
    have same: "response_for tag c = response_for tag y" if "completes x c" for c
    proof -
      have "base c = base y" using that no assms(2) y by (simp add: completes_def)
      then show ?thesis by (metis response_for_base)
    qed
    show "base (snd (matchForMatch k neg m y)) = x \<and>
        settles x (sem_kind k neg s) md (fst (matchForMatch k neg m y)) (deferred (snd (matchForMatch k neg m y)))"
    proof (cases "response_for tag y")
      case None
      then show ?thesis using y same by (simp add: k matchForMatch_def sem_kind_def settles_def)
    next
      case (Some r)
      let ?x = "with_response (Some r) x" and ?y = "with_response (Some r) y"
      have "base ?x = ?x" "base ?y = ?x" "\<not> ignoring ?x" "deferred ?y = 0"
        using assms(2) y no by (simp_all add: base_simps deferred_simps) (simp add: with_response_def)
      then have "settles ?x s md (fst (m ?y)) (deferred (snd (m ?y)))" "\<not> ignoring ?x"
        using assms(1) [of ?x] by (simp_all add: decides_def)
      moreover have "completes ?x (with_response (Some r) c)" if "completes x c" for c
        using completes_response [OF no that] .
      ultimately show ?thesis using Some y same
        by (auto simp: k matchForMatch_def sem_kind_def settles_def)
    qed
  qed
qed

lemma set_branch_ok:
  assumes rules: "\<And>r y. r \<in> set rules \<Longrightarrow> base y = y \<Longrightarrow> (ignoring y \<longrightarrow> separated r (ic_IPCIDRMatchSource y)) \<Longrightarrow>
      decides y (may_defer r (ic_IPCIDRMatchSource y)) (rule_Match ev r) (sem_rule ev r)"
    and x: "base x = x" and sep: "ignoring x \<longrightarrow> set_separated (RuleSet rules) src (ic_IPCIDRMatchSource x) outer"
    and md: "set_may_defer (RuleSet rules) src \<longrightarrow> md"
    and no: "ignoring x \<and> r_destinationAddressItems outer \<noteq> [] \<longrightarrow> \<not> set_may_defer (RuleSet rules) src"
  shows "branch_ok x outer src emp md (rule_set_Match ev (RuleSet rules)) (sem_set ev (RuleSet rules))"
proof (cases "mergeableRuleIn rules")
  case None
  have nested: "base (under src emp x) = under src emp x" using x by (simp add: base_simps)
  have "decides (under src emp x) (md \<and> r_destinationAddressItems outer = []) (rule_Match ev r) (sem_rule ev r)"
    if "r \<in> set rules" for r
  proof (rule decides_mono)
    show "decides (under src emp x) (may_defer r src) (rule_Match ev r) (sem_rule ev r)"
      using rules [OF that nested] sep None that by (simp add: under_simps list_all_iff)
    show "ignoring (under src emp x) \<and> may_defer r src \<longrightarrow> md \<and> r_destinationAddressItems outer = []"
      using md no that by (auto simp: under_simps list_ex_iff)
  qed
  then have "list_all2 (decides (under src emp x) (md \<and> r_destinationAddressItems outer = []))
      (map (rule_Match ev) rules) (map (sem_rule ev) rules)"
    by (simp add: list_all2_map1 list_all2_map2 list_all2_same)
  from any_decides [OF this] None show ?thesis by (simp add: branch_ok_def)
next
  case (Some b)
  then have rules_eq: "rules = [DefaultRule HeadlessKind b None False]"
    by (cases rules rule: mergeableRuleIn.cases) auto
  have "part_ok (under src emp x) b" "parts_separate [(outer, x), (b, under src emp x)]"
    using sep Some by (auto simp: part_ok_def parts_separate_def apart_def under_simps)
  moreover have "open_group b (under src emp x) \<longrightarrow> md"
    using md by (simp add: rules_eq open_group_def under_simps)
  ultimately show ?thesis using Some by (simp add: branch_ok_def)
qed

lemma default_rule_decides:
  assumes x: "base x = x" and sep: "ignoring x \<longrightarrow> separated (DefaultRule k its rsi neg) (ic_IPCIDRMatchSource x)"
    and ref: "\<And>i y md. rsi = Some i \<Longrightarrow> base y = y \<Longrightarrow> (ignoring y \<longrightarrow> ref_separated i (ic_IPCIDRMatchSource y) its) \<Longrightarrow>
      (ref_may_defer i \<longrightarrow> md) \<Longrightarrow>
      list_all2 (branch_ok y its (ipCidrMatchSource i) (ipCidrAcceptEmpty i) md) (map (rule_set_Match ev) (setList i)) (map (sem_set ev) (setList i))"
  shows "decides x (may_defer (DefaultRule k its rsi neg) (ic_IPCIDRMatchSource x))
    (rule_Match ev (DefaultRule k its rsi neg)) (sem_rule ev (DefaultRule k its rsi neg))"
  unfolding rule_Match.simps sem_rule.simps
proof (rule kind_decides [OF _ x])
  show "ignoring x \<longrightarrow> (case k of DNSKind True _ \<Rightarrow> False | _ \<Rightarrow> True)" using sep by simp
next
  fix y assume y: "base y = y" "ignoring y \<longrightarrow> ignoring x \<and> y = x"
  define md where "md = may_defer (DefaultRule k its rsi neg) (ic_IPCIDRMatchSource x)"
  have part: "part_ok y its" "parts_separate [(its, y)]" "open_group its y \<Longrightarrow> md"
    using y sep by (auto simp: part_ok_def parts_separate_def apart_def md_def open_group_def)
  have "decides y md (default_Match ev its (map_option (item_withOuter ev) rsi) neg)
      (sem_default ev its (map_option (sem_ref ev) rsi) neg)"
  proof (cases rsi)
    case None
    then show ?thesis using plain_decides [OF y(1) part] by simp
  next
    case (Some i)
    obtain sets src emp where i: "i = RuleSetItem sets src emp" by (cases i)
    have "list_all2 (branch_ok y its src emp md) (map (rule_set_Match ev) sets) (map (sem_set ev) sets)"
    proof -
      have "ignoring y \<longrightarrow> ref_separated i (ic_IPCIDRMatchSource y) its" using y(2) sep Some by auto
      moreover have "ref_may_defer i \<longrightarrow> md" by (simp add: md_def Some)
      ultimately show ?thesis using ref [OF Some y(1), of md] i by simp
    qed
    from reference_decides [OF y(1) part this] show ?thesis by (simp add: Some i)
  qed
  then show "decides y (may_defer (DefaultRule k its rsi neg) (ic_IPCIDRMatchSource x))
      (default_Match ev its (map_option (item_withOuter ev) rsi) neg) (sem_default ev its (map_option (sem_ref ev) rsi) neg)"
    by (simp add: md_def)
qed

lemma rule_decides:
  fixes ev and r :: rule and i :: rule_set_item and st :: rule_set
  shows "\<forall>x. base x = x \<longrightarrow> (ignoring x \<longrightarrow> separated r (ic_IPCIDRMatchSource x)) \<longrightarrow>
      decides x (may_defer r (ic_IPCIDRMatchSource x)) (rule_Match ev r) (sem_rule ev r)"
    and "\<forall>x its md. base x = x \<longrightarrow> (ignoring x \<longrightarrow> ref_separated i (ic_IPCIDRMatchSource x) its) \<longrightarrow> (ref_may_defer i \<longrightarrow> md) \<longrightarrow>
      list_all2 (branch_ok x its (ipCidrMatchSource i) (ipCidrAcceptEmpty i) md) (map (rule_set_Match ev) (setList i)) (map (sem_set ev) (setList i))"
    and "\<forall>x src emp md outer. base x = x \<longrightarrow> (ignoring x \<longrightarrow> set_separated st src (ic_IPCIDRMatchSource x) outer) \<longrightarrow>
      (set_may_defer st src \<longrightarrow> md) \<longrightarrow> (ignoring x \<and> r_destinationAddressItems outer \<noteq> [] \<longrightarrow> \<not> set_may_defer st src) \<longrightarrow>
      branch_ok x outer src emp md (rule_set_Match ev st) (sem_set ev st)"
proof (induction r and i and st)
  case (DefaultRule k its rsi neg)
  show ?case
  proof (intro allI impI)
    fix x assume "base x = x" "ignoring x \<longrightarrow> separated (DefaultRule k its rsi neg) (ic_IPCIDRMatchSource x)"
    then show "decides x (may_defer (DefaultRule k its rsi neg) (ic_IPCIDRMatchSource x))
        (rule_Match ev (DefaultRule k its rsi neg)) (sem_rule ev (DefaultRule k its rsi neg))"
      by (rule default_rule_decides) (use DefaultRule in auto)
  qed
next
  case (LogicalRule rules mode neg)
  show ?case
  proof (intro allI impI)
    fix x assume x: "base x = x" "ignoring x \<longrightarrow> separated (LogicalRule rules mode neg) (ic_IPCIDRMatchSource x)"
    let ?md = "may_defer (LogicalRule rules mode neg) (ic_IPCIDRMatchSource x)"
    have "decides (under False False x) ?md (rule_Match ev r) (sem_rule ev r)" if "r \<in> set rules" for r
    proof (rule decides_mono)
      show "decides (under False False x) (may_defer r False) (rule_Match ev r) (sem_rule ev r)"
        using LogicalRule [OF that, rule_format, of "under False False x"] x that
        by (simp add: base_simps under_simps list_all_iff)
      show "ignoring (under False False x) \<and> may_defer r False \<longrightarrow> ?md" using that by (auto simp: list_ex_iff)
    qed
    then have "list_all2 (decides (under False False x) ?md) (map (rule_Match ev) rules) (map (sem_rule ev) rules)"
      by (simp add: list_all2_map1 list_all2_map2 list_all2_same)
    from logical_decides [OF this x(1)] show "decides x ?md (rule_Match ev (LogicalRule rules mode neg)) (sem_rule ev (LogicalRule rules mode neg))"
      by simp
  qed
next
  case (RuleSetItem sets src emp)
  then show ?case
    by (auto simp: list_all2_map1 list_all2_map2 list_all2_same list_all_iff list_ex_iff)
next
  case (RuleSet rules)
  then show ?case by (intro allI impI set_branch_ok) auto
qed


section \<open>DNS rules before and after the lookup\<close>

text \<open>\<open>LegacyPreMatch\<close>, and \<open>MatchAddressLimit\<close> on the response; both act on the embedded rule.\<close>

definition embedded_Match :: "route_env \<Rightarrow> rule \<Rightarrow> matcher" where
  "embedded_Match ev r = (case r of
     DefaultRule k its rsi neg \<Rightarrow> default_Match ev its (map_option (item_withOuter ev) rsi) neg
   | LogicalRule rules mode neg \<Rightarrow> rule_Match ev r)"

definition match_response :: "rule \<Rightarrow> bool" where
  "match_response r = (case r of DefaultRule (DNSKind True _) _ _ _ \<Rightarrow> True | _ \<Rightarrow> False)"

definition ignore_addresses :: "bool \<Rightarrow> inbound_context \<Rightarrow> inbound_context" where
  "ignore_addresses b c = c\<lparr>ic_IgnoreDestinationIPCIDRMatch := b\<rparr>"

definition LegacyPreMatch :: "route_env \<Rightarrow> rule \<Rightarrow> matcher" where
  "LegacyPreMatch ev r c =
     (if match_response r then (False, c)
      else case embedded_Match ev r (ignore_addresses True c) of (b, c') \<Rightarrow> (b, ignore_addresses False c'))"

definition MatchAddressLimit :: "route_env \<Rightarrow> rule \<Rightarrow> inbound_context \<Rightarrow> dns_msg option \<Rightarrow> bool" where
  "MatchAddressLimit ev r c response = fst (embedded_Match ev r (with_response response (ResetRuleCache c)))"

text \<open>The step of the legacy DNS router for one rule: it resets the cache and the response flag, and
  pre-matches.\<close>

definition legacy_candidate :: "route_env \<Rightarrow> rule \<Rightarrow> inbound_context \<Rightarrow> bool" where
  "legacy_candidate ev r c =
     fst (LegacyPreMatch ev r ((ResetRuleCache c)\<lparr>ic_DestinationAddressMatchFromResponse := False\<rparr>))"

lemma embedded_rule_Match: "\<not> match_response r \<Longrightarrow> embedded_Match ev r = rule_Match ev r"
  by (auto simp: embedded_Match_def match_response_def matchForMatch_def fun_eq_iff split: rule.splits rule_kind.splits bool.splits)

lemma separated_not_response: "separated r src \<Longrightarrow> \<not> match_response r"
  by (auto simp: match_response_def split: rule.splits rule_kind.splits bool.splits)

lemma base_ResetRuleCache: "base (ResetRuleCache c) = ResetRuleCache c"
  by (simp add: ResetRuleCache_def base_simps)

lemma plain_context:
  assumes "\<not> ignoring c"
  shows "fst (rule_Match ev r (ResetRuleCache c)) = sem_rule ev r (ResetRuleCache c)"
    "base (snd (rule_Match ev r (ResetRuleCache c))) = ResetRuleCache c"
    "fst (rule_Match ev r (ResetRuleCache c)) \<Longrightarrow> deferred (snd (rule_Match ev r (ResetRuleCache c))) = 0"
proof -
  let ?x = "ResetRuleCache c"
  have x: "base ?x = ?x" "\<not> ignoring ?x" "deferred ?x = 0"
    using assms by (simp_all add: base_ResetRuleCache deferred_simps) (simp add: ResetRuleCache_def ResetRuleMatchCache_def)
  then have "decides ?x (may_defer r (ic_IPCIDRMatchSource ?x)) (rule_Match ev r) (sem_rule ev r)"
    using rule_decides(1) [rule_format, of ?x r ev] by simp
  with x show "fst (rule_Match ev r ?x) = sem_rule ev r ?x" "base (snd (rule_Match ev r ?x)) = ?x"
    "fst (rule_Match ev r ?x) \<Longrightarrow> deferred (snd (rule_Match ev r ?x)) = 0"
    using completes_self [of ?x] by (auto simp: decides_def settles_def)
qed

text \<open>The rules in which no logical rule lies in a set that is referenced with \<open>rule_set_ip_cidr_match_source\<close> or
  \<open>rule_set_ip_cidr_accept_empty\<close>; \<open>f\<close> tells whether a flag is set where the rule stands.\<close>

primrec flags_kept :: "rule \<Rightarrow> bool \<Rightarrow> bool"
and flags_kept_ref :: "rule_set_item \<Rightarrow> bool"
and flags_kept_set :: "rule_set \<Rightarrow> bool \<Rightarrow> bool" where
  "flags_kept (DefaultRule k its rsi neg) = (\<lambda>f. case map_option flags_kept_ref rsi of None \<Rightarrow> True | Some b \<Rightarrow> b)"
| "flags_kept (LogicalRule rules mode neg) = (\<lambda>f. \<not> f \<and> list_all (\<lambda>k. k False) (map flags_kept rules))"
| "flags_kept_ref (RuleSetItem sets src emp) = list_all (\<lambda>k. k (src \<or> emp)) (map flags_kept_set sets)"
| "flags_kept_set (RuleSet rules) = (\<lambda>f. list_all (\<lambda>k. k f) (map flags_kept rules))"

definition has_flag :: "inbound_context \<Rightarrow> bool" where
  "has_flag c \<longleftrightarrow> ic_IPCIDRMatchSource c \<or> ic_IPCIDRAcceptEmpty c"

lemma under_no_flag: "\<not> has_flag c \<Longrightarrow> under False False c = c"
  by (cases c) (simp add: has_flag_def under_def)

lemma has_flag_simps [simp]:
  "has_flag (under src emp c) \<longleftrightarrow> src \<or> emp" "has_flag (with_response m c) = has_flag c"
  by (simp_all add: has_flag_def under_def with_response_def)

lemma sem_default_cong:
  assumes "\<And>ref ref' outer. rsi = Some ref \<Longrightarrow> rsi' = Some ref' \<Longrightarrow> ref outer c = ref' outer c" and "(rsi = None) = (rsi' = None)"
  shows "sem_default ev its rsi neg c = sem_default ev its rsi' neg c"
  using assms by (cases rsi; cases rsi') (auto simp: sem_default_def)

lemma sem_doc_logical:
  assumes "\<not> has_flag c" and "\<And>r. r \<in> set rules \<Longrightarrow> sem_rule ev r c = doc_rule ev r c"
  shows "sem_rule ev (LogicalRule rules mode neg) c = doc_rule ev (LogicalRule rules mode neg) c"
  using assms by (auto simp: under_no_flag list_all_iff list_ex_iff)

lemma sem_is_doc:
  "\<forall>f c. flags_kept r f \<and> (has_flag c \<longrightarrow> f) \<longrightarrow> sem_rule ev r c = doc_rule ev r c"
  "\<forall>outer c. flags_kept_ref i \<longrightarrow> sem_ref ev i outer c = doc_ref ev i outer c"
  "\<forall>f c. flags_kept_set st f \<and> (has_flag c \<longrightarrow> f) \<longrightarrow> fst (sem_set ev st) = fst (doc_set ev st)
     \<and> snd (sem_set ev st) c = snd (doc_set ev st) c"
proof (induction r and i and st)
  case (DefaultRule k its rsi neg)
  have "sem_rule ev (DefaultRule k its rsi neg) c = doc_rule ev (DefaultRule k its rsi neg) c"
    if "flags_kept (DefaultRule k its rsi neg) f" for f c
  proof -
    have "sem_default ev its (map_option (sem_ref ev) rsi) neg c' = sem_default ev its (map_option (doc_ref ev) rsi) neg c'" for c'
      using DefaultRule that by (intro sem_default_cong) (auto split: option.splits)
    then show ?thesis by (simp add: sem_kind_def split: rule_kind.splits bool.splits option.splits)
  qed
  then show ?case by blast
next
  case (LogicalRule rules mode neg)
  have "sem_rule ev (LogicalRule rules mode neg) c = doc_rule ev (LogicalRule rules mode neg) c"
    if "flags_kept (LogicalRule rules mode neg) f" "has_flag c \<longrightarrow> f" for f c
  proof (rule sem_doc_logical)
    show "\<not> has_flag c" using that by simp
    then show "sem_rule ev r c = doc_rule ev r c" if "r \<in> set rules" for r
      using LogicalRule that \<open>flags_kept (LogicalRule rules mode neg) f\<close> by (auto simp: list_all_iff)
  qed
  then show ?case by blast
next
  case (RuleSetItem sets src emp)
  have "sem_branch ev src emp outer c (sem_set ev st) = sem_branch ev src emp outer c (doc_set ev st)"
    if "st \<in> set sets" "flags_kept_ref (RuleSetItem sets src emp)" for st outer c
  proof -
    have "flags_kept_set st (src \<or> emp)" using that by (simp add: list_all_iff)
    moreover have "has_flag (under src emp c) \<longrightarrow> src \<or> emp" by simp
    ultimately have "fst (sem_set ev st) = fst (doc_set ev st)"
      "snd (sem_set ev st) (under src emp c) = snd (doc_set ev st) (under src emp c)"
      using RuleSetItem that(1) by blast+
    then show ?thesis by (simp add: sem_branch_def split: option.splits)
  qed
  then show ?case by (simp add: list_ex_iff)
next
  case (RuleSet rules)
  then show ?case by (fastforce simp: list_all_iff list_ex_iff)
qed

text \<open>C11. Rules mean what the documentation says. For every route, headless or DNS rule, however nested, in which no
  logical rule lies inside a rule set referenced with \<open>rule_set_ip_cidr_match_source\<close> or \<open>rule_set_ip_cidr_accept_empty\<close> (there the
  code differs, see \<open>logical_rules_ignore_match_source\<close>), and every connection outside a legacy pre-match, a match on the
  reset rule cache returns the documented formula: the destination address fields or-ed, and-ed with the port, source and other fields, the single rule of a
  mergeable rule set merged into the rule that refers to it, other sets as conditions of their own, \<open>invert\<close> as
  negation. The match changes nothing but the match cache and leaves no group deferred.\<close>

theorem rule_matches_documentation:
  assumes "\<not> ic_IgnoreDestinationIPCIDRMatch c" and "flags_kept r False"
  shows "fst (rule_Match ev r (ResetRuleCache c)) = doc_rule ev r (ResetRuleCache c) \<and>
    ResetRuleMatchCache (snd (rule_Match ev r (ResetRuleCache c))) = ResetRuleCache c \<and>
    (fst (rule_Match ev r (ResetRuleCache c)) \<longrightarrow> ic_DeferredIPCIDRMatchGroups (snd (rule_Match ev r (ResetRuleCache c))) = 0)"
proof -
  have "\<not> has_flag (ResetRuleCache c)" by (simp add: has_flag_def ResetRuleCache_def ResetRuleMatchCache_def)
  then have "sem_rule ev r (ResetRuleCache c) = doc_rule ev r (ResetRuleCache c)"
    using sem_is_doc(1) [rule_format, of r False "ResetRuleCache c" ev] assms(2) by blast
  with plain_context [OF assms(1)] show ?thesis by simp
qed

lemma prematch_settles:
  fixes c ev r
  defines "x \<equiv> ignore_addresses True ((ResetRuleCache c)\<lparr>ic_DestinationAddressMatchFromResponse := False\<rparr>)"
  assumes "separated r False"
  shows "\<exists>d. settles x (sem_rule ev r) (may_defer r False) (legacy_candidate ev r c) d"
proof -
  have x: "base x = x" "ignoring x" "deferred x = 0" "\<not> ic_IPCIDRMatchSource x"
    by (simp_all add: x_def ignore_addresses_def ResetRuleCache_def ResetRuleMatchCache_def)
  have "decides x (may_defer r False) (rule_Match ev r) (sem_rule ev r)"
    using rule_decides(1) [rule_format, of x r ev] assms(2) x by simp
  then have "settles x (sem_rule ev r) (may_defer r False) (fst (rule_Match ev r x)) (deferred (snd (rule_Match ev r x)))"
    using x by (simp add: decides_def)
  moreover have "legacy_candidate ev r c = fst (rule_Match ev r x)"
    using separated_not_response [OF assms(2)]
    by (simp add: legacy_candidate_def LegacyPreMatch_def embedded_rule_Match x_def split: prod.splits)
  ultimately show ?thesis by auto
qed

lemma limit_context:
  fixes c response
  defines "y \<equiv> with_response response (ResetRuleCache c)"
  assumes "\<not> ignoring c"
  shows "base y = y" "\<not> ignoring y" "deferred y = 0"
    "completes (ignore_addresses True ((ResetRuleCache c)\<lparr>ic_DestinationAddressMatchFromResponse := False\<rparr>)) y"
proof -
  let ?x = "ignore_addresses True ((ResetRuleCache c)\<lparr>ic_DestinationAddressMatchFromResponse := False\<rparr>)"
  have "base y = known (ic_DestinationAddresses c) response True (base ?x)"
    using assms by (cases c) (simp add: y_def with_response_def known_def ignore_addresses_def ResetRuleCache_def ResetRuleMatchCache_def)
  moreover have "ignoring ?x" by (simp add: ignore_addresses_def)
  ultimately show "completes ?x y" by (auto simp: completes_def)
  show "base y = y" "\<not> ignoring y" "deferred y = 0"
    using assms by (simp_all add: y_def with_response_def ResetRuleCache_def ResetRuleMatchCache_def)
qed

lemma limit_sem:
  assumes "\<not> ignoring c" "\<not> match_response r"
  shows "MatchAddressLimit ev r c response = sem_rule ev r (with_response response (ResetRuleCache c))"
proof -
  let ?y = "with_response response (ResetRuleCache c)"
  note y = limit_context(1-3) [OF assms(1), of response]
  have "decides ?y (may_defer r (ic_IPCIDRMatchSource ?y)) (rule_Match ev r) (sem_rule ev r)"
    using rule_decides(1) [rule_format, of ?y r ev] y by simp
  then show ?thesis
    using y completes_self [of ?y] assms(2)
    by (auto simp: MatchAddressLimit_def embedded_rule_Match decides_def settles_def)
qed

text \<open>C13. The pre-match loses no separated rule. For a DNS rule that keeps domain and address fields apart through all its
  references, does not match on a response itself and has no other field that needs a lookup (\<open>separated\<close>; an inverted rule that mixes
  domain and address fields can be lost, see \<open>prematch_drops_inverted_rule\<close>), whatever the response, a rule that accepts the response was a candidate before the lookup: ignoring the destination
  addresses and deferring them through nested, inverted and referenced rules never rejects too much. When the
  rule has no address field at all, the pre-match already gives the verdict.\<close>

theorem prematch_keeps_candidates:
  assumes "separated r False" and "\<not> ic_IgnoreDestinationIPCIDRMatch c"
  shows "(MatchAddressLimit ev r c response \<longrightarrow> legacy_candidate ev r c) \<and>
    (\<not> may_defer r False \<longrightarrow> legacy_candidate ev r c = MatchAddressLimit ev r c response)"
proof -
  obtain d where "settles (ignore_addresses True ((ResetRuleCache c)\<lparr>ic_DestinationAddressMatchFromResponse := False\<rparr>))
      (sem_rule ev r) (may_defer r False) (legacy_candidate ev r c) d"
    using prematch_settles [OF assms(1)] by blast
  then show ?thesis
    using limit_context(4) [OF assms(2)] limit_sem [OF assms(2) separated_not_response [OF assms(1)]]
    by (auto simp: settles_def)
qed

section \<open>Examples and deviations\<close>

definition ascii_only :: unicode where
  "ascii_only = \<lparr>uni_lower = id, uni_trim = id, uni_fold = (=)\<rparr>"

definition example_env :: route_env where
  "example_env = \<lparr>re_unicode = ascii_only, re_IsIP = (\<lambda>s. sa_Addr s \<noteq> ZeroAddr), re_IsIPv6 = (\<lambda>s. addr_BitLen (sa_Addr s) = 128),
     re_IsPublicAddr = (\<lambda>_. True), re_AddrFromIP = (\<lambda>bs. IPv4 (word_of_nat (length bs))), re_IsDuplicate = (=),
     re_CanonicalName = id, re_clashMode = None, re_IsAndroid = False, re_defaultInterface = None,
     re_networkInterfaces = [], re_finderInterfaces = [], re_myInterfaces = [], re_monitorInterface = None,
     re_SSID = [], re_BSSID = []\<rparr>"

definition zero_socksaddr :: socksaddr where
  "zero_socksaddr = \<lparr>sa_Addr = ZeroAddr, sa_Port = 0, sa_Fqdn = []\<rparr>"

text \<open>A connection from \<open>10.0.0.1\<close> to port 443 of the given host.\<close>

definition example_context :: "string \<Rightarrow> inbound_context" where
  "example_context host = \<lparr>ic_Inbound = [], ic_IPVersion = 4, ic_Network = ''tcp'',
     ic_Source = zero_socksaddr\<lparr>sa_Addr := IPv4 0x0A000001\<rparr>,
     ic_Destination = \<lparr>sa_Addr = ZeroAddr, sa_Port = 443, sa_Fqdn = host\<rparr>,
     ic_User = [], ic_Outbound = [], ic_Protocol = [], ic_Domain = [], ic_Client = [],
     ic_DestinationAddresses = [], ic_DNSResponse = None, ic_NamedDNSResponses = [],
     ic_DestinationAddressMatchFromResponse = False, ic_ProcessInfo = None, ic_SourceMACAddress = None,
     ic_SourceHostname = [], ic_QueryType = 1, ic_QueryClientSubnet = \<lparr>pf_Addr = ZeroAddr, pf_Bits = -1\<rparr>,
     ic_QueryDNSSEC = False, ic_IPCIDRMatchSource = False, ic_IPCIDRAcceptEmpty = False,
     ic_SourceAddressMatch = False, ic_SourcePortMatch = False, ic_DestinationAddressMatch = False,
     ic_DestinationPortMatch = False, ic_DeferredIPCIDRMatchGroups = 0, ic_IgnoreDestinationIPCIDRMatch = False\<rparr>"

definition empty_items :: rule_items where
  "empty_items = \<lparr>r_items = [], r_sourceAddressItems = [], r_sourcePortItems = [],
     r_destinationAddressItems = [], r_destinationIPCIDRItems = [], r_destinationPortItems = []\<rparr>"

definition domain_items :: "string \<Rightarrow> rule_items" where
  "domain_items d = empty_items\<lparr>r_destinationAddressItems := [DomainItem ((=) d)]\<rparr>"

definition cidr_items :: "(addr \<Rightarrow> bool) \<Rightarrow> rule_items" where
  "cidr_items p = empty_items\<lparr>r_destinationIPCIDRItems := [IPCIDRItem p False]\<rparr>"

text \<open>A response with one address record; \<open>example_env\<close> reads its bytes as the number of them.\<close>

definition example_response :: dns_msg where
  "example_response = \<lparr>dm_Rcode = 0, dm_Answer = [RR_A [0, 0, 0, 0]], dm_Ns = [], dm_Extra = []\<rparr>"

text \<open>Two sets of addresses behind a port condition, as a rule set of two rules.\<close>

definition example_rule :: "bool \<Rightarrow> (addr \<Rightarrow> bool) \<Rightarrow> rule" where
  "example_rule neg p =
     DefaultRule (DNSKind False []) (empty_items\<lparr>r_destinationPortItems := [PortItem (bool_map [443]) False]\<rparr>)
       (Some (RuleSetItem [RuleSet [DefaultRule HeadlessKind (cidr_items p) None False, LogicalRule [] LogicalTypeOr False]] False False)) neg"

lemmas example_defs = example_env_def example_context_def zero_socksaddr_def empty_items_def domain_items_def
  cidr_items_def example_response_def example_rule_def ascii_only_def

text \<open>Witness of C11: a logical rule over a domain and a rule set whose \<open>ip_cidr\<close> is read as the source address, for a
  connection from \<open>10.0.0.1\<close>.\<close>

definition source_set_rule :: rule where
  "source_set_rule = LogicalRule
     [DefaultRule RouteKind (domain_items ''a'') None False,
      DefaultRule RouteKind empty_items
        (Some (RuleSetItem [RuleSet [DefaultRule HeadlessKind (cidr_items ((=) (IPv4 0x0A000001))) None False]] True False)) False]
     LogicalTypeAnd False"

theorem rule_matches_documentation_witness:
  "flags_kept source_set_rule False \<and> \<not> ic_IgnoreDestinationIPCIDRMatch (example_context ''a'') \<and>
   doc_rule example_env source_set_rule (ResetRuleCache (example_context ''a'')) \<and>
   fst (rule_Match example_env source_set_rule (ResetRuleCache (example_context ''a'')))"
proof -
  have i: "\<not> ic_IgnoreDestinationIPCIDRMatch (example_context ''a'')" by (simp add: example_defs)
  have k: "flags_kept source_set_rule False" by (simp add: source_set_rule_def)
  have "doc_rule example_env source_set_rule (ResetRuleCache (example_context ''a''))" by code_simp
  with i k rule_matches_documentation [OF i k, of example_env] show ?thesis by blast
qed

text \<open>Witness of C13.\<close>

theorem prematch_keeps_candidates_witness:
  "separated (example_rule True ((=) (IPv4 9))) False \<and> \<not> ic_IgnoreDestinationIPCIDRMatch (example_context ''a'') \<and>
   MatchAddressLimit example_env (example_rule True ((=) (IPv4 9))) (example_context ''a'') (Some example_response) \<and>
   legacy_candidate example_env (example_rule True ((=) (IPv4 9))) (example_context ''a'')"
proof -
  have s: "separated (example_rule True ((=) (IPv4 9))) False"
    by (simp add: example_defs items_ok_def apart_def lookup_free_def)
  have c: "\<not> ic_IgnoreDestinationIPCIDRMatch (example_context ''a'')" by (simp add: example_defs)
  have "MatchAddressLimit example_env (example_rule True ((=) (IPv4 9))) (example_context ''a'') (Some example_response)"
    by code_simp
  with s c prematch_keeps_candidates [OF s c] show ?thesis by blast
qed

text \<open>Two deviations. The reset of the rule cache in a logical rule also clears the flag of the reference, so
  \<open>rule_set_ip_cidr_match_source\<close> has no effect on the logical rules of a rule set.\<close>

lemma logical_rules_ignore_match_source:
  assumes "\<not> ic_IgnoreDestinationIPCIDRMatch c"
  shows "fst (rule_Match ev (DefaultRule k its (Some (RuleSetItem [RuleSet [LogicalRule rules mode m]] True emp)) neg) (ResetRuleCache c)) =
    fst (rule_Match ev (DefaultRule k its (Some (RuleSetItem [RuleSet [LogicalRule rules mode m]] False emp)) neg) (ResetRuleCache c))"
proof -
  have doc: "fst (rule_Match ev r (ResetRuleCache c)) = sem_rule ev r (ResetRuleCache c)" for r
    by (rule plain_context(1) [OF assms])
  show ?thesis
    unfolding doc by (simp add: sem_kind_def sem_default_def sem_branch_def under_simps split: rule_kind.splits bool.splits option.splits)
qed

text \<open>An instance: a logical rule with the address of the client, in a set referenced with the flag. The documented
  formula holds, the engine refuses.\<close>

lemma logical_rule_departs:
  "let r = DefaultRule RouteKind empty_items (Some (RuleSetItem
        [RuleSet [LogicalRule [DefaultRule HeadlessKind (cidr_items ((=) (IPv4 0x0A000001))) None False] LogicalTypeOr False]] True False)) False
   in doc_rule example_env r (ResetRuleCache (example_context ''a'')) \<and>
      \<not> fst (rule_Match example_env r (ResetRuleCache (example_context ''a'')))"
  by code_simp

text \<open>A satisfied domain field clears the destination group that a rule set left open. The pre-match of an
  inverted rule with both is then a definite refusal, although the rule accepts responses outside the set.\<close>

definition inverted_rule :: "(addr \<Rightarrow> bool) \<Rightarrow> rule" where
  "inverted_rule p =
     DefaultRule (DNSKind False []) (domain_items ''a'')
       (Some (RuleSetItem [RuleSet [DefaultRule HeadlessKind (cidr_items p) None False, LogicalRule [] LogicalTypeOr False]] False False)) True"

lemma prematch_drops_inverted_rule:
  "MatchAddressLimit example_env (inverted_rule ((=) (IPv4 9))) (example_context ''a'') (Some example_response)"
  "\<not> legacy_candidate example_env (inverted_rule ((=) (IPv4 9))) (example_context ''a'')"
  by code_simp+

end
