(* ===== verification/Rule_Options.thy ===== *)
theory Rule_Options
  imports Route_Rules
begin

text \<open>
  The options of headless rules, \<^verbatim>\<open>option/rule_set.go\<close>, and the rules made from them,
  \<^verbatim>\<open>route/rule/rule_headless.go\<close>. A slice is a list; Go also tells a nil slice from an empty one, which matters only where a
  rule is compared with the zero rule: \<open>ho_EmptySlices\<close> says whether some slice of the options is empty without being nil, as
  \<open>"domain": []\<close> in a source file leaves it. The domain matchers of the sing library are values of the type parameters.
\<close>

section \<open>Options\<close>

record ('m, 'g) headless_options =
  ho_QueryType :: "uint16 list"
  ho_Network :: "string list"
  ho_Domain :: "string list"
  ho_DomainSuffix :: "string list"
  ho_DomainKeyword :: "string list"
  ho_DomainRegex :: "string list"
  ho_SourceIPCIDR :: "string list"
  ho_IPCIDR :: "string list"
  ho_SourcePort :: "uint16 list"
  ho_SourcePortRange :: "string list"
  ho_Port :: "uint16 list"
  ho_PortRange :: "string list"
  ho_ProcessName :: "string list"
  ho_ProcessPath :: "string list"
  ho_ProcessPathRegex :: "string list"
  ho_PackageName :: "string list"
  ho_PackageNameRegex :: "string list"
  ho_NetworkType :: "byte list"
  ho_NetworkIsExpensive :: bool
  ho_NetworkIsConstrained :: bool
  ho_WIFISSID :: "string list"
  ho_WIFIBSSID :: "string list"
  ho_NetworkInterfaceAddress :: "(byte, prefix list) gomap option"
  ho_DefaultInterfaceAddress :: "prefix list"
  ho_Invert :: bool
  ho_DomainMatcher :: "'m option"
  ho_SourceIPSet :: "ip_range list option"
  ho_IPSet :: "ip_range list option"
  ho_AdGuardDomain :: "string list"
  ho_AdGuardDomainMatcher :: "'g option"
  ho_EmptySlices :: bool       \<comment> \<open>some slice is empty but not nil\<close>

definition zero_headless :: "('m, 'g) headless_options" where
  "zero_headless = \<lparr>ho_QueryType = [], ho_Network = [], ho_Domain = [], ho_DomainSuffix = [], ho_DomainKeyword = [],
     ho_DomainRegex = [], ho_SourceIPCIDR = [], ho_IPCIDR = [], ho_SourcePort = [], ho_SourcePortRange = [],
     ho_Port = [], ho_PortRange = [], ho_ProcessName = [], ho_ProcessPath = [], ho_ProcessPathRegex = [],
     ho_PackageName = [], ho_PackageNameRegex = [], ho_NetworkType = [], ho_NetworkIsExpensive = False,
     ho_NetworkIsConstrained = False, ho_WIFISSID = [], ho_WIFIBSSID = [], ho_NetworkInterfaceAddress = None,
     ho_DefaultInterfaceAddress = [], ho_Invert = False, ho_DomainMatcher = None, ho_SourceIPSet = None,
     ho_IPSet = None, ho_AdGuardDomain = [], ho_AdGuardDomainMatcher = None, ho_EmptySlices = False\<rparr>"

text \<open>\<open>option.HeadlessRule\<close>: the type, the options of a default rule, and mode, rules and inversion of a
  logical one.\<close>

datatype ('m, 'g) headless_rule =
  HeadlessRule (hr_Type: string) (hr_DefaultOptions: "('m, 'g) headless_options")
    (hr_Mode: string) (hr_Rules: "('m, 'g) headless_rule list") (hr_Invert: bool)

definition default_rule :: "('m, 'g) headless_options \<Rightarrow> ('m, 'g) headless_rule" where
  "default_rule o' = HeadlessRule ''default'' o' [] [] False"

definition logical_rule :: "string \<Rightarrow> ('m, 'g) headless_rule list \<Rightarrow> bool \<Rightarrow> ('m, 'g) headless_rule" where
  "logical_rule mode rules neg = HeadlessRule ''logical'' zero_headless mode rules neg"

text \<open>\<open>DefaultHeadlessRule.IsValid\<close>: \<open>reflect.DeepEqual\<close> with the rule that has only the same \<open>invert\<close>. An empty slice that is not
  nil makes the rule valid.\<close>

definition default_IsValid :: "('m, 'g) headless_options \<Rightarrow> bool" where
  "default_IsValid r = (r \<noteq> zero_headless\<lparr>ho_Invert := ho_Invert r\<rparr>)"

text \<open>\<open>HeadlessRule.IsValid\<close> panics on an unknown type, here \<open>None\<close>; \<open>common.All\<close> stops at the first invalid rule.\<close>

fun all_valid :: "bool option list \<Rightarrow> bool option" where
  "all_valid [] = Some True"
| "all_valid (v # vs) = (case v of None \<Rightarrow> None | Some False \<Rightarrow> Some False | Some True \<Rightarrow> all_valid vs)"

primrec headless_IsValid :: "('m, 'g) headless_rule \<Rightarrow> bool option" where
  "headless_IsValid (HeadlessRule t d mode rules neg) =
     (if t = ''default'' \<or> t = [] then Some (default_IsValid d)
      else if t = ''logical'' then (if rules = [] then Some False else all_valid (map headless_IsValid rules))
      else None)"


section \<open>Construction\<close>

record ('m, 'g) headless_lib =
  hl_items :: item_lib
  hl_Match :: "'m \<Rightarrow> string \<Rightarrow> bool"
  hl_AdGuardMatch :: "'g \<Rightarrow> string \<Rightarrow> bool"
  hl_networkManager :: bool       \<comment> \<open>whether the context has a network manager\<close>

definition opt_item :: "bool \<Rightarrow> ('e, RuleItem) res \<Rightarrow> ('e, RuleItem list) res" where
  "opt_item cond r = (if cond then res_bind r (\<lambda>it. Ok [it]) else Ok [])"

abbreviation item_if :: "bool \<Rightarrow> RuleItem \<Rightarrow> RuleItem list" where
  "item_if cond it \<equiv> if cond then [it] else []"

definition network_items :: "('m, 'g) headless_lib \<Rightarrow> ('m, 'g) headless_options \<Rightarrow> RuleItem list" where
  "network_items H opts =
     item_if (ho_NetworkType opts \<noteq> []) (NetworkTypeItem (map unat (ho_NetworkType opts))) @
     item_if (ho_NetworkIsExpensive opts) NetworkIsExpensiveItem @
     item_if (ho_NetworkIsConstrained opts) NetworkIsConstrainedItem @
     item_if (ho_WIFISSID opts \<noteq> []) (WIFISSIDItem (bool_map (ho_WIFISSID opts))) @
     item_if (ho_WIFIBSSID opts \<noteq> []) (NewWIFIBSSIDItem (hl_items H) (ho_WIFIBSSID opts)) @
     (case ho_NetworkInterfaceAddress opts of
        Some m \<Rightarrow> item_if (m \<noteq> []) (NetworkInterfaceAddressItem (map (\<lambda>(k, ps). (unat k, ps)) m))
      | None \<Rightarrow> []) @
     item_if (ho_DefaultInterfaceAddress opts \<noteq> []) (DefaultInterfaceAddressItem (ho_DefaultInterfaceAddress opts))"

text \<open>The groups of the rule, from the items whose construction can fail and the options.\<close>

definition headless_items :: "('m, 'g) headless_lib \<Rightarrow> ('m, 'g) headless_options \<Rightarrow> RuleItem list \<Rightarrow> RuleItem list \<Rightarrow>
    RuleItem list \<Rightarrow> RuleItem list \<Rightarrow> RuleItem list \<Rightarrow> RuleItem list \<Rightarrow> RuleItem list \<Rightarrow> RuleItem list \<Rightarrow> rule_items" where
  "headless_items H opts domain domainRegex sourceCIDR cidr sourcePortRange portRange processPathRegex packageNameRegex =
     (let L = hl_items H in
          \<lparr>r_items =
             item_if (ho_QueryType opts \<noteq> []) (QueryTypeItem (bool_map (ho_QueryType opts))) @
             item_if (ho_Network opts \<noteq> []) (NetworkItem (bool_map (ho_Network opts))) @
             item_if (ho_ProcessName opts \<noteq> []) (ProcessItem (bool_map (ho_ProcessName opts))) @
             item_if (ho_ProcessPath opts \<noteq> []) (ProcessPathItem (bool_map (ho_ProcessPath opts))) @
             processPathRegex @
             item_if (ho_PackageName opts \<noteq> []) (PackageNameItem (bool_map (ho_PackageName opts))) @
             packageNameRegex @
             (if hl_networkManager H then network_items H opts else []),
           r_sourceAddressItems = sourceCIDR @
             (case ho_SourceIPSet opts of Some st \<Rightarrow> item_if (ho_SourceIPCIDR opts = []) (NewRawIPCIDRItem L True st) | None \<Rightarrow> []),
           r_sourcePortItems =
             item_if (ho_SourcePort opts \<noteq> []) (NewPortItem True (ho_SourcePort opts)) @ sourcePortRange,
           r_destinationAddressItems = domain @
             (case ho_DomainMatcher opts of
                Some m \<Rightarrow> item_if (ho_Domain opts = [] \<and> ho_DomainSuffix opts = []) (DomainItem (hl_Match H m))
              | None \<Rightarrow> []) @
             item_if (ho_DomainKeyword opts \<noteq> []) (DomainKeywordItem (ho_DomainKeyword opts)) @
             domainRegex @
             item_if (ho_AdGuardDomain opts \<noteq> []) (AdGuardDomainItem (il_NewAdGuardMatcher L (ho_AdGuardDomain opts))) @
             (case ho_AdGuardDomainMatcher opts of
                Some m \<Rightarrow> item_if (ho_AdGuardDomain opts = []) (AdGuardDomainItem (hl_AdGuardMatch H m))
              | None \<Rightarrow> []),
           r_destinationIPCIDRItems = cidr @
             (case ho_IPSet opts of Some st \<Rightarrow> item_if (ho_IPCIDR opts = []) (NewRawIPCIDRItem L False st) | None \<Rightarrow> []),
           r_destinationPortItems =
             item_if (ho_Port opts \<noteq> []) (NewPortItem False (ho_Port opts)) @ portRange\<rparr>)"

definition NewDefaultHeadlessRule :: "('m, 'g) headless_lib \<Rightarrow> ('m, 'g) headless_options \<Rightarrow> (rule_error, rule) res" where
  "NewDefaultHeadlessRule H opts =
     (let L = hl_items H in
      res_bind (opt_item (ho_Domain opts \<noteq> [] \<or> ho_DomainSuffix opts \<noteq> []) (NewDomainItem L (ho_Domain opts) (ho_DomainSuffix opts))) (\<lambda>domain.
      res_bind (opt_item (ho_DomainRegex opts \<noteq> []) (NewDomainRegexItem L (ho_DomainRegex opts))) (\<lambda>domainRegex.
      res_bind (opt_item (ho_SourceIPCIDR opts \<noteq> []) (NewIPCIDRItem L True (ho_SourceIPCIDR opts))) (\<lambda>sourceCIDR.
      res_bind (opt_item (ho_IPCIDR opts \<noteq> []) (NewIPCIDRItem L False (ho_IPCIDR opts))) (\<lambda>cidr.
      res_bind (opt_item (ho_SourcePortRange opts \<noteq> []) (NewPortRangeItem True (ho_SourcePortRange opts))) (\<lambda>sourcePortRange.
      res_bind (opt_item (ho_PortRange opts \<noteq> []) (NewPortRangeItem False (ho_PortRange opts))) (\<lambda>portRange.
      res_bind (opt_item (ho_ProcessPathRegex opts \<noteq> []) (NewProcessPathRegexItem L (ho_ProcessPathRegex opts))) (\<lambda>processPathRegex.
      res_bind (opt_item (ho_PackageNameRegex opts \<noteq> []) (NewPackageNameRegexItem L (ho_PackageNameRegex opts))) (\<lambda>packageNameRegex.
        Ok (DefaultRule HeadlessKind
          (headless_items H opts domain domainRegex sourceCIDR cidr sourcePortRange portRange processPathRegex packageNameRegex)
          None (ho_Invert opts)))))))))))"

text \<open>\<open>NewHeadlessRule\<close> and \<open>NewLogicalHeadlessRule\<close>; the first failing sub rule is reported with its position.\<close>

fun sub_rules :: "nat \<Rightarrow> (rule_error, rule) res list \<Rightarrow> (rule_error, rule list) res" where
  "sub_rules i [] = Ok []"
| "sub_rules i (r # rs) = (case r of
     Err e \<Rightarrow> Err (SubRule i e)
   | Panic \<Rightarrow> Panic
   | Ok rule \<Rightarrow> res_bind (sub_rules (Suc i) rs) (\<lambda>rules. Ok (rule # rules)))"

definition logical_mode_of :: "string \<Rightarrow> logical_mode option" where
  "logical_mode_of mode = (if mode = ''and'' then Some LogicalTypeAnd else if mode = ''or'' then Some LogicalTypeOr else None)"

primrec NewHeadlessRule :: "('m, 'g) headless_lib \<Rightarrow> ('m, 'g) headless_rule \<Rightarrow> (rule_error, rule) res" where
  "NewHeadlessRule H (HeadlessRule t d mode rules neg) =
     (if t = [] \<or> t = ''default'' then
        (if \<not> default_IsValid d then Err MissingConditions else NewDefaultHeadlessRule H d)
      else if t = ''logical'' then
        (case headless_IsValid (HeadlessRule t d mode rules neg) of
           None \<Rightarrow> Panic
         | Some False \<Rightarrow> Err MissingConditions
         | Some True \<Rightarrow>
             (case logical_mode_of mode of
                None \<Rightarrow> Err (UnknownLogicalMode mode)
              | Some m \<Rightarrow> res_bind (sub_rules 0 (map (NewHeadlessRule H) rules)) (\<lambda>rs. Ok (LogicalRule rs m neg))))
      else Err (UnknownRuleType t))"


section \<open>Typing of the built rules\<close>

text \<open>The group an item belongs to.\<close>

datatype item_group = SourceAddress | SourcePort | DestinationAddress | DestinationIPCIDR | DestinationPort | OtherField

definition group_of :: "RuleItem \<Rightarrow> item_group" where
  "group_of it = (case it of
     DomainItem _ \<Rightarrow> DestinationAddress | DomainKeywordItem _ \<Rightarrow> DestinationAddress
   | DomainRegexItem _ \<Rightarrow> DestinationAddress | AdGuardDomainItem _ \<Rightarrow> DestinationAddress
   | IPCIDRItem _ src \<Rightarrow> if src then SourceAddress else DestinationIPCIDR
   | IPIsPrivateItem src \<Rightarrow> if src then SourceAddress else DestinationIPCIDR
   | IPAcceptAnyItem \<Rightarrow> DestinationIPCIDR
   | PortItem _ src \<Rightarrow> if src then SourcePort else DestinationPort
   | PortRangeItem src _ \<Rightarrow> if src then SourcePort else DestinationPort
   | _ \<Rightarrow> OtherField)"

definition well_grouped :: "rule_items \<Rightarrow> bool" where
  "well_grouped r =
     (list_all (\<lambda>it. group_of it = OtherField) (r_items r) \<and>
      list_all (\<lambda>it. group_of it = SourceAddress) (r_sourceAddressItems r) \<and>
      list_all (\<lambda>it. group_of it = SourcePort) (r_sourcePortItems r) \<and>
      list_all (\<lambda>it. group_of it = DestinationAddress) (r_destinationAddressItems r) \<and>
      list_all (\<lambda>it. group_of it = DestinationIPCIDR) (r_destinationIPCIDRItems r) \<and>
      list_all (\<lambda>it. group_of it = DestinationPort) (r_destinationPortItems r))"

text \<open>A headless rule: typed items without a lookup in the other fields, \<open>ip_cidr\<close> sets only in their group, no
  reference to rule sets, and logical rules over at least one headless rule.\<close>

primrec headless_typed :: "rule \<Rightarrow> bool" where
  "headless_typed (DefaultRule k its rsi neg) =
     (k = HeadlessKind \<and> rsi = None \<and> well_grouped its \<and> items_ok True its)"
| "headless_typed (LogicalRule rules mode neg) = (rules \<noteq> [] \<and> list_all id (map headless_typed rules))"

definition typed_item :: "item_group \<Rightarrow> RuleItem \<Rightarrow> bool" where
  "typed_item g it = (group_of it = g \<and> (if g = DestinationIPCIDR then is_cidr it else lookup_free it))"

lemma opt_item_typed:
  assumes "opt_item cond r = Ok its" and "\<And>it. r = Ok it \<Longrightarrow> typed_item g it"
  shows "list_all (typed_item g) its"
  using assms by (auto simp: opt_item_def res_bind_eq_Ok split: if_splits)

lemmas typed_simps = typed_item_def group_of_def lookup_free_def is_cidr_def

lemma new_items_typed:
  "NewDomainItem L a b = Ok it \<Longrightarrow> typed_item DestinationAddress it"
  "NewDomainRegexItem L es = Ok it \<Longrightarrow> typed_item DestinationAddress it"
  "NewIPCIDRItem L True ss = Ok it \<Longrightarrow> typed_item SourceAddress it"
  "NewIPCIDRItem L False ss = Ok it \<Longrightarrow> typed_item DestinationIPCIDR it"
  "NewPortRangeItem True ss = Ok it \<Longrightarrow> typed_item SourcePort it"
  "NewPortRangeItem False ss = Ok it \<Longrightarrow> typed_item DestinationPort it"
  "NewProcessPathRegexItem L es = Ok it \<Longrightarrow> typed_item OtherField it"
  "NewPackageNameRegexItem L es = Ok it \<Longrightarrow> typed_item OtherField it"
  by (auto simp: NewDomainItem_def NewDomainRegexItem_def NewIPCIDRItem_def NewPortRangeItem_def
      NewProcessPathRegexItem_def NewPackageNameRegexItem_def res_bind_eq_Ok typed_simps
      split: if_splits res.splits option.splits)

lemma network_items_typed: "list_all (typed_item OtherField) (network_items H opts)"
  by (auto simp: network_items_def NewWIFIBSSIDItem_def typed_simps split: option.splits)

lemma typed_items:
  assumes "list_all (typed_item OtherField) (r_items r)" "list_all (typed_item SourceAddress) (r_sourceAddressItems r)"
    "list_all (typed_item SourcePort) (r_sourcePortItems r)" "list_all (typed_item DestinationAddress) (r_destinationAddressItems r)"
    "list_all (typed_item DestinationIPCIDR) (r_destinationIPCIDRItems r)" "list_all (typed_item DestinationPort) (r_destinationPortItems r)"
  shows "well_grouped r \<and> items_ok True r"
  using assms by (auto simp: well_grouped_def items_ok_def typed_item_def list_all_iff)

definition headless_parts :: "('m, 'g) headless_lib \<Rightarrow> ('m, 'g) headless_options \<Rightarrow> RuleItem list \<Rightarrow> RuleItem list \<Rightarrow>
    RuleItem list \<Rightarrow> RuleItem list \<Rightarrow> RuleItem list \<Rightarrow> RuleItem list \<Rightarrow> RuleItem list \<Rightarrow> RuleItem list \<Rightarrow> bool" where
  "headless_parts H opts d dr sc ci sp pr pp pn \<longleftrightarrow>
     opt_item (ho_Domain opts \<noteq> [] \<or> ho_DomainSuffix opts \<noteq> []) (NewDomainItem (hl_items H) (ho_Domain opts) (ho_DomainSuffix opts)) = Ok d \<and>
     opt_item (ho_DomainRegex opts \<noteq> []) (NewDomainRegexItem (hl_items H) (ho_DomainRegex opts)) = Ok dr \<and>
     opt_item (ho_SourceIPCIDR opts \<noteq> []) (NewIPCIDRItem (hl_items H) True (ho_SourceIPCIDR opts)) = Ok sc \<and>
     opt_item (ho_IPCIDR opts \<noteq> []) (NewIPCIDRItem (hl_items H) False (ho_IPCIDR opts)) = Ok ci \<and>
     opt_item (ho_SourcePortRange opts \<noteq> []) (NewPortRangeItem True (ho_SourcePortRange opts)) = Ok sp \<and>
     opt_item (ho_PortRange opts \<noteq> []) (NewPortRangeItem False (ho_PortRange opts)) = Ok pr \<and>
     opt_item (ho_ProcessPathRegex opts \<noteq> []) (NewProcessPathRegexItem (hl_items H) (ho_ProcessPathRegex opts)) = Ok pp \<and>
     opt_item (ho_PackageNameRegex opts \<noteq> []) (NewPackageNameRegexItem (hl_items H) (ho_PackageNameRegex opts)) = Ok pn"

lemma headless_partsD:
  assumes "headless_parts H opts d dr sc ci sp pr pp pn"
  shows "opt_item (ho_Domain opts \<noteq> [] \<or> ho_DomainSuffix opts \<noteq> []) (NewDomainItem (hl_items H) (ho_Domain opts) (ho_DomainSuffix opts)) = Ok d"
    "opt_item (ho_DomainRegex opts \<noteq> []) (NewDomainRegexItem (hl_items H) (ho_DomainRegex opts)) = Ok dr"
    "opt_item (ho_SourceIPCIDR opts \<noteq> []) (NewIPCIDRItem (hl_items H) True (ho_SourceIPCIDR opts)) = Ok sc"
    "opt_item (ho_IPCIDR opts \<noteq> []) (NewIPCIDRItem (hl_items H) False (ho_IPCIDR opts)) = Ok ci"
    "opt_item (ho_SourcePortRange opts \<noteq> []) (NewPortRangeItem True (ho_SourcePortRange opts)) = Ok sp"
    "opt_item (ho_PortRange opts \<noteq> []) (NewPortRangeItem False (ho_PortRange opts)) = Ok pr"
    "opt_item (ho_ProcessPathRegex opts \<noteq> []) (NewProcessPathRegexItem (hl_items H) (ho_ProcessPathRegex opts)) = Ok pp"
    "opt_item (ho_PackageNameRegex opts \<noteq> []) (NewPackageNameRegexItem (hl_items H) (ho_PackageNameRegex opts)) = Ok pn"
  using assms by (simp_all add: headless_parts_def)

lemma NewDefaultHeadlessRule_Ok:
  "NewDefaultHeadlessRule H opts = Ok r \<longleftrightarrow> (\<exists>d dr sc ci sp pr pp pn. headless_parts H opts d dr sc ci sp pr pp pn \<and>
     r = DefaultRule HeadlessKind (headless_items H opts d dr sc ci sp pr pp pn) None (ho_Invert opts))"
  by (auto simp: NewDefaultHeadlessRule_def Let_def res_bind_eq_Ok headless_parts_def)

lemma default_headless_typed:
  assumes "NewDefaultHeadlessRule H opts = Ok r"
  shows "headless_typed r"
proof -
  from assms obtain d dr sc ci sp pr pp pn where ok: "headless_parts H opts d dr sc ci sp pr pp pn"
    and r: "r = DefaultRule HeadlessKind (headless_items H opts d dr sc ci sp pr pp pn) None (ho_Invert opts)"
    by (auto simp: NewDefaultHeadlessRule_Ok)
  note parts = headless_partsD [OF ok]
  have "list_all (typed_item DestinationAddress) d" "list_all (typed_item DestinationAddress) dr"
    "list_all (typed_item SourceAddress) sc" "list_all (typed_item DestinationIPCIDR) ci" "list_all (typed_item SourcePort) sp"
    "list_all (typed_item DestinationPort) pr" "list_all (typed_item OtherField) pp" "list_all (typed_item OtherField) pn"
    by (rule opt_item_typed [OF parts(1) new_items_typed(1)] opt_item_typed [OF parts(2) new_items_typed(2)]
        opt_item_typed [OF parts(3) new_items_typed(3)] opt_item_typed [OF parts(4) new_items_typed(4)]
        opt_item_typed [OF parts(5) new_items_typed(5)] opt_item_typed [OF parts(6) new_items_typed(6)]
        opt_item_typed [OF parts(7) new_items_typed(7)] opt_item_typed [OF parts(8) new_items_typed(8)]; assumption)+
  then have "well_grouped (headless_items H opts d dr sc ci sp pr pp pn) \<and> items_ok True (headless_items H opts d dr sc ci sp pr pp pn)"
    by (intro typed_items) (simp_all add: headless_items_def Let_def network_items_typed NewRawIPCIDRItem_def NewPortItem_def
        typed_simps split: option.splits)
  then show ?thesis by (simp add: r)
qed

lemma sub_rules_Ok:
  "sub_rules i rs = Ok rules \<Longrightarrow> length rules = length rs \<and> (\<forall>r \<in> set rules. Ok r \<in> set rs)"
  by (induction rs arbitrary: i rules) (auto simp: res_bind_eq_Ok split: res.splits)

lemma new_headless_typed: "NewHeadlessRule H o' = Ok r \<Longrightarrow> headless_typed r"
proof (induction o' arbitrary: r)
  case (HeadlessRule t d mode rules neg)
  show ?case
  proof (cases "t = [] \<or> t = ''default''")
    case True
    with HeadlessRule.prems show ?thesis by (auto dest: default_headless_typed split: if_splits)
  next
    case False
    with HeadlessRule.prems obtain rs m where r: "sub_rules 0 (map (NewHeadlessRule H) rules) = Ok rs" "r = LogicalRule rs m neg"
        "rules \<noteq> []"
      by (auto simp: res_bind_eq_Ok split: if_splits option.splits bool.splits)
    from sub_rules_Ok [OF r(1)] have "headless_typed x" if "x \<in> set rs" for x
      using HeadlessRule.IH that by fastforce
    moreover have "rs \<noteq> []" using sub_rules_Ok [OF r(1)] r(3) by auto
    ultimately show ?thesis by (auto simp: r(2) list_all_iff)
  qed
qed

text \<open>A rule has conditions when it has an item or is a logical rule over rules with conditions.\<close>

primrec constrained :: "rule \<Rightarrow> bool" where
  "constrained (DefaultRule k its rsi neg) = (\<not> no_items its \<or> rsi \<noteq> None)"
| "constrained (LogicalRule rules mode neg) = list_all id (map constrained rules)"

text \<open>No options of the rule have a slice or a map that is empty without being nil.\<close>

primrec no_empty :: "('m, 'g) headless_rule \<Rightarrow> bool" where
  "no_empty (HeadlessRule t d mode rules neg) =
     (ho_NetworkInterfaceAddress d \<noteq> Some [] \<and> \<not> ho_EmptySlices d \<and> list_all id (map no_empty rules))"

lemma opt_item_empty: "opt_item cond r = Ok [] \<Longrightarrow> \<not> cond"
  by (auto simp: opt_item_def res_bind_eq_Ok split: if_splits)

lemma default_headless_constrained:
  assumes "NewDefaultHeadlessRule H opts = Ok r" "default_IsValid opts" "hl_networkManager H"
    "ho_NetworkInterfaceAddress opts \<noteq> Some []" "\<not> ho_EmptySlices opts"
  shows "constrained r"
proof (rule ccontr)
  assume no: "\<not> constrained r"
  from assms(1) obtain d dr sc ci sp pr pp pn where ok: "headless_parts H opts d dr sc ci sp pr pp pn"
    and r: "r = DefaultRule HeadlessKind (headless_items H opts d dr sc ci sp pr pp pn) None (ho_Invert opts)"
    by (auto simp: NewDefaultHeadlessRule_Ok)
  have "no_items (headless_items H opts d dr sc ci sp pr pp pn)" using no r by simp
  then have none: "ho_QueryType opts = []" "ho_Network opts = []" "ho_ProcessName opts = []" "ho_ProcessPath opts = []"
      "ho_PackageName opts = []" "network_items H opts = []" "ho_SourcePort opts = []" "ho_DomainKeyword opts = []"
      "ho_AdGuardDomain opts = []" "ho_Port opts = []"
      "d = []" "dr = []" "sc = []" "ci = []" "sp = []" "pr = []" "pp = []" "pn = []"
    and sets: "ho_SourceIPSet opts \<noteq> None \<longrightarrow> ho_SourceIPCIDR opts \<noteq> []" "ho_IPSet opts \<noteq> None \<longrightarrow> ho_IPCIDR opts \<noteq> []"
      "ho_DomainMatcher opts \<noteq> None \<longrightarrow> ho_Domain opts \<noteq> [] \<or> ho_DomainSuffix opts \<noteq> []"
      "ho_AdGuardDomainMatcher opts \<noteq> None \<longrightarrow> ho_AdGuardDomain opts \<noteq> []"
    using assms(3) by (auto simp: no_items_def headless_items_def Let_def split: if_splits option.splits)
  have lists: "ho_Domain opts = []" "ho_DomainSuffix opts = []" "ho_DomainRegex opts = []" "ho_SourceIPCIDR opts = []" "ho_IPCIDR opts = []"
    "ho_SourcePortRange opts = []" "ho_PortRange opts = []" "ho_ProcessPathRegex opts = []" "ho_PackageNameRegex opts = []"
    using ok none by (auto simp: headless_parts_def dest!: opt_item_empty)
  have network: "ho_NetworkType opts = []" "\<not> ho_NetworkIsExpensive opts" "\<not> ho_NetworkIsConstrained opts" "ho_WIFISSID opts = []"
    "ho_WIFIBSSID opts = []" "ho_NetworkInterfaceAddress opts = None" "ho_DefaultInterfaceAddress opts = []"
    using none(6) assms(4) by (auto simp: network_items_def split: if_splits option.splits)
  have "opts = zero_headless\<lparr>ho_Invert := ho_Invert opts\<rparr>"
    using none lists network sets assms(5) by (intro headless_options.equality) (simp_all add: zero_headless_def)
  with assms(2) show False by (simp add: default_IsValid_def)
qed

lemma new_headless_constrained:
  assumes "hl_networkManager H"
  shows "NewHeadlessRule H o' = Ok r \<Longrightarrow> no_empty o' \<Longrightarrow> constrained r"
proof (induction o' arbitrary: r)
  case (HeadlessRule t d mode rules neg)
  show ?case
  proof (cases "t = [] \<or> t = ''default''")
    case True
    with HeadlessRule.prems show ?thesis
      using default_headless_constrained [OF _ _ assms, of d r] by (auto split: if_splits)
  next
    case False
    with HeadlessRule.prems obtain rs m where r: "sub_rules 0 (map (NewHeadlessRule H) rules) = Ok rs" "r = LogicalRule rs m neg"
      by (auto simp: res_bind_eq_Ok split: if_splits option.splits bool.splits)
    from sub_rules_Ok [OF r(1)] have "constrained x" if "x \<in> set rs" for x
      using HeadlessRule.IH HeadlessRule.prems(2) that by (fastforce simp: list_all_iff)
    then show ?thesis by (auto simp: r(2) list_all_iff)
  qed
qed

text \<open>C24. Built rules are well typed. Every rule that \<open>NewHeadlessRule\<close> returns, at any nesting depth, is headless,
  refers to no rule set, has each item in the group its kind belongs to, keeps only address sets among the fields that
  \<open>rule_set_ip_cidr_match_source\<close> redirects, and has no empty logical rule. Where the context has a network manager and the options have no
  slice or map that is empty without being nil, no default rule of it is without conditions, so none matches everything by accident;
  without these conditions one can (\<open>network_rule_matches_all\<close>, \<open>empty_slice_matches_all\<close>).\<close>

theorem headless_rules_typed:
  assumes "NewHeadlessRule H o' = Ok r"
  shows "headless_typed r \<and> (hl_networkManager H \<and> no_empty o' \<longrightarrow> constrained r)"
  using new_headless_typed [OF assms] new_headless_constrained [OF _ assms] by blast

definition example_item_lib :: item_lib where
  "example_item_lib = \<lparr>il_NewMatcher = (\<lambda>ds ss _ h. h \<in> set ds), il_NewAdGuardMatcher = (\<lambda>ls h. h \<in> set ls),
     il_Compile = (\<lambda>e. Some ((=) e)), il_ParsePrefix = (\<lambda>_. None), il_ParseAddr = (\<lambda>_. Some (IPv4 0x7F000001)),
     il_IPSet = (\<lambda>ps as. Some (map (\<lambda>a. \<lparr>ir_from = a, ir_to = a\<rparr>) as)), il_Contains = (\<lambda>rs a. list_ex (\<lambda>r. ir_from r = a) rs),
     il_ParseMAC = (\<lambda>_. None), il_NormalizeWIFIBSSID = id\<rparr>"

definition example_headless_lib :: "bool \<Rightarrow> (unit, unit) headless_lib" where
  "example_headless_lib nm = \<lparr>hl_items = example_item_lib, hl_Match = (\<lambda>_ _. False), hl_AdGuardMatch = (\<lambda>_ _. False),
     hl_networkManager = nm\<rparr>"

definition example_headless :: "(unit, unit) headless_rule" where
  "example_headless = logical_rule ''and'' [default_rule (zero_headless\<lparr>ho_WIFISSID := [''home'']\<rparr>),
     default_rule (zero_headless\<lparr>ho_DomainSuffix := [''example.org''], ho_Port := [443]\<rparr>)] True"

text \<open>Witness of C24.\<close>

theorem headless_rules_typed_witness:
  "\<exists>r. NewHeadlessRule (example_headless_lib True) example_headless = Ok r \<and> headless_typed r \<and> constrained r"
proof -
  obtain r where r: "NewHeadlessRule (example_headless_lib True) example_headless = Ok r"
    by (simp add: example_headless_def logical_rule_def default_rule_def default_IsValid_def zero_headless_def
        NewDefaultHeadlessRule_def headless_items_def opt_item_def example_headless_lib_def NewDomainItem_def logical_mode_of_def)
  have "hl_networkManager (example_headless_lib True)" "no_empty example_headless"
    by (simp_all add: example_headless_lib_def example_headless_def logical_rule_def default_rule_def zero_headless_def)
  with r headless_rules_typed [OF r] show ?thesis by blast
qed

text \<open>Without a network manager the network conditions are dropped, and a rule that has no other matches every
  connection.\<close>

lemma network_rule_matches_all:
  assumes "NewHeadlessRule H (default_rule (zero_headless\<lparr>ho_WIFISSID := ssids\<rparr>)) = Ok r" "\<not> hl_networkManager H"
  shows "fst (rule_Match ev r c)"
  using assms
  by (auto simp: default_rule_def NewDefaultHeadlessRule_def headless_items_def Let_def opt_item_def zero_headless_def matchForMatch_def
      default_Match_def no_items_def split: if_splits)


text \<open>A source rule such as \<open>{"domain": []}\<close>, with or without \<open>invert\<close>, passes the check for conditions, is built without an
  item and matches every connection.\<close>

lemma empty_slice_matches_all:
  "\<exists>r. NewHeadlessRule H (default_rule (zero_headless\<lparr>ho_EmptySlices := True, ho_Invert := neg\<rparr>)) = Ok r \<and> fst (rule_Match ev r c)"
  by (simp add: default_rule_def default_IsValid_def NewDefaultHeadlessRule_def headless_items_def Let_def opt_item_def
      zero_headless_def matchForMatch_def default_Match_def no_items_def network_items_def)

end
