(* ===== verification/Rule_Set_Binary.thy ===== *)
theory Rule_Set_Binary
  imports Rule_Options Go_Binary
begin

text \<open>
  The binary rule-set format, \<^verbatim>\<open>common/srs/binary.go\<close>, \<^verbatim>\<open>ip_set.go\<close> and \<^verbatim>\<open>ip_cidr.go\<close>. A writer is the
  bytes it appends or the error it returns; a decoder is as in \<open>Go_Binary\<close>.

  Parameters are the domain matchers and the address conversion of the sing library, and the zlib stream:
  \<open>sl_decompress\<close> gives the bytes that can be read from a stream, and a failure in the middle of it is the end
  of these bytes. The text that \<open>E.Cause\<close> puts around an error is left out. The options read have no slice that is empty without
  being nil: \<open>Write\<close> writes an item only for a slice that has elements, and an item read with no elements counts as nil here.
\<close>

section \<open>Library code\<close>

record ('m, 'g) srs_lib =
  sl_items :: item_lib
  sl_varbin :: varbin
  sl_NewMatcher :: "string list \<Rightarrow> string list \<Rightarrow> bool \<Rightarrow> 'm"
  sl_WriteMatcher :: "'m \<Rightarrow> byte list"
  sl_ReadMatcher :: "'m decoder"
  sl_Dump :: "'m \<Rightarrow> string list \<times> string list"
  sl_NewAdGuardMatcher :: "string list \<Rightarrow> 'g"
  sl_WriteAdGuardMatcher :: "'g \<Rightarrow> byte list"
  sl_ReadAdGuardMatcher :: "'g decoder"
  sl_DumpAdGuard :: "'g \<Rightarrow> string list"
  sl_Prefixes :: "ip_range list \<Rightarrow> string list"   \<comment> \<open>\<open>IPSet.Prefixes\<close>, printed\<close>
  sl_AddrFromIP :: "byte list \<Rightarrow> addr"
  sl_compress :: "byte list \<Rightarrow> byte list"
  sl_decompress :: "byte list \<Rightarrow> (bin_error, byte list) res"

text \<open>\<open>netip.Addr.AsSlice\<close> and \<open>netip.PrefixFrom\<close> of the standard library.\<close>

definition addr_AsSlice :: "addr \<Rightarrow> byte list" where
  "addr_AsSlice a = (case a of ZeroAddr \<Rightarrow> [] | IPv4 w \<Rightarrow> be_bytes 4 (unat w) | IPv6 w _ \<Rightarrow> be_bytes 16 (unat w))"

definition without_zone :: "addr \<Rightarrow> addr" where
  "without_zone a = (case a of IPv6 w _ \<Rightarrow> IPv6 w [] | _ \<Rightarrow> a)"

definition PrefixFrom :: "addr \<Rightarrow> int \<Rightarrow> prefix" where
  "PrefixFrom a bits = \<lparr>pf_Addr = without_zone a,
     pf_Bits = (if a \<noteq> ZeroAddr \<and> 0 \<le> bits \<and> bits \<le> int (addr_BitLen a) then bits else -1)\<rparr>"


section \<open>Addresses\<close>

definition readIPSetAddr :: "('m, 'g) srs_lib \<Rightarrow> addr decoder" where
  "readIPSetAddr L bs =
     res_bind (ReadUvarint bs) (\<lambda>(addrLen, bs1).
       if addrLen \<noteq> 4 \<and> addrLen \<noteq> 16 then Err ErrInvalid
       else res_bind (ReadFull addrLen bs1) (\<lambda>(addrBytes, bs2). Ok (sl_AddrFromIP L addrBytes, bs2)))"

definition write_addr :: "('m, 'g) srs_lib \<Rightarrow> addr \<Rightarrow> byte list" where
  "write_addr L a = vb_WriteUvarint (sl_varbin L) (length (addr_AsSlice a)) @ addr_AsSlice a"

definition read_range :: "('m, 'g) srs_lib \<Rightarrow> ip_range decoder" where
  "read_range L bs =
     res_bind (readIPSetAddr L bs) (\<lambda>(lo, bs1).
     res_bind (readIPSetAddr L bs1) (\<lambda>(hi, bs2). Ok (\<lparr>ir_from = lo, ir_to = hi\<rparr>, bs2)))"

definition readIPSet :: "('m, 'g) srs_lib \<Rightarrow> ip_range list decoder" where
  "readIPSet L bs =
     res_bind (ReadByte bs) (\<lambda>(version, bs1).
       if version \<noteq> 1 then Err ErrInvalid
       else res_bind (ReadUint64 bs1) (\<lambda>(len, bs2). repeat len (read_range L) bs2))"

definition write_range :: "('m, 'g) srs_lib \<Rightarrow> ip_range \<Rightarrow> byte list" where
  "write_range L r = write_addr L (ir_from r) @ write_addr L (ir_to r)"

definition writeIPSet :: "('m, 'g) srs_lib \<Rightarrow> ip_range list \<Rightarrow> byte list" where
  "writeIPSet L st = [1] @ PutUint64 (length st) @ concat (map (write_range L) st)"

definition readPrefix :: "('m, 'g) srs_lib \<Rightarrow> prefix decoder" where
  "readPrefix L bs =
     res_bind (ReadUvarint bs) (\<lambda>(addrLen, bs1).
       if addrLen \<noteq> 4 \<and> addrLen \<noteq> 16 then Err ErrInvalid
       else res_bind (ReadFull addrLen bs1) (\<lambda>(addrBytes, bs2).
            res_bind (ReadByte bs2) (\<lambda>(prefixBits, bs3).
              Ok (PrefixFrom (sl_AddrFromIP L addrBytes) (int (unat prefixBits)), bs3))))"

definition writePrefix :: "('m, 'g) srs_lib \<Rightarrow> prefix \<Rightarrow> byte list" where
  "writePrefix L p = write_addr L (pf_Addr p) @ [word_of_int (pf_Bits p)]"


section \<open>Rule items\<close>

abbreviation (input) ruleItemQueryType :: byte where "ruleItemQueryType \<equiv> 0"
abbreviation (input) ruleItemNetwork :: byte where "ruleItemNetwork \<equiv> 1"
abbreviation (input) ruleItemDomain :: byte where "ruleItemDomain \<equiv> 2"
abbreviation (input) ruleItemDomainKeyword :: byte where "ruleItemDomainKeyword \<equiv> 3"
abbreviation (input) ruleItemDomainRegex :: byte where "ruleItemDomainRegex \<equiv> 4"
abbreviation (input) ruleItemSourceIPCIDR :: byte where "ruleItemSourceIPCIDR \<equiv> 5"
abbreviation (input) ruleItemIPCIDR :: byte where "ruleItemIPCIDR \<equiv> 6"
abbreviation (input) ruleItemSourcePort :: byte where "ruleItemSourcePort \<equiv> 7"
abbreviation (input) ruleItemSourcePortRange :: byte where "ruleItemSourcePortRange \<equiv> 8"
abbreviation (input) ruleItemPort :: byte where "ruleItemPort \<equiv> 9"
abbreviation (input) ruleItemPortRange :: byte where "ruleItemPortRange \<equiv> 10"
abbreviation (input) ruleItemProcessName :: byte where "ruleItemProcessName \<equiv> 11"
abbreviation (input) ruleItemProcessPath :: byte where "ruleItemProcessPath \<equiv> 12"
abbreviation (input) ruleItemPackageName :: byte where "ruleItemPackageName \<equiv> 13"
abbreviation (input) ruleItemWIFISSID :: byte where "ruleItemWIFISSID \<equiv> 14"
abbreviation (input) ruleItemWIFIBSSID :: byte where "ruleItemWIFIBSSID \<equiv> 15"
abbreviation (input) ruleItemAdGuardDomain :: byte where "ruleItemAdGuardDomain \<equiv> 16"
abbreviation (input) ruleItemProcessPathRegex :: byte where "ruleItemProcessPathRegex \<equiv> 17"
abbreviation (input) ruleItemNetworkType :: byte where "ruleItemNetworkType \<equiv> 18"
abbreviation (input) ruleItemNetworkIsExpensive :: byte where "ruleItemNetworkIsExpensive \<equiv> 19"
abbreviation (input) ruleItemNetworkIsConstrained :: byte where "ruleItemNetworkIsConstrained \<equiv> 20"
abbreviation (input) ruleItemNetworkInterfaceAddress :: byte where "ruleItemNetworkInterfaceAddress \<equiv> 21"
abbreviation (input) ruleItemDefaultInterfaceAddress :: byte where "ruleItemDefaultInterfaceAddress \<equiv> 22"
abbreviation (input) ruleItemPackageNameRegex :: byte where "ruleItemPackageNameRegex \<equiv> 23"
abbreviation (input) ruleItemFinal :: byte where "ruleItemFinal \<equiv> 0xFF"

abbreviation (input) RuleSetVersionCurrent :: byte where "RuleSetVersionCurrent \<equiv> 5"

definition readRuleItemString :: "('m, 'g) srs_lib \<Rightarrow> string list decoder" where
  "readRuleItemString L bs =
     res_bind (ReadUvarint bs) (\<lambda>(len, bs1).
     res_bind (repeat len (vb_ReadBytes (sl_varbin L)) bs1) (\<lambda>(values, bs2). Ok (map string_of values, bs2)))"

definition write_string :: "('m, 'g) srs_lib \<Rightarrow> string \<Rightarrow> byte list" where
  "write_string L s = vb_WriteUvarint (sl_varbin L) (length s) @ bytes_of s"

definition writeRuleItemString :: "('m, 'g) srs_lib \<Rightarrow> byte \<Rightarrow> string list \<Rightarrow> byte list" where
  "writeRuleItemString L itemType value =
     itemType # vb_WriteUvarint (sl_varbin L) (length value) @ concat (map (write_string L) value)"

definition writeRuleItemUint8 :: "('m, 'g) srs_lib \<Rightarrow> byte \<Rightarrow> byte list \<Rightarrow> byte list" where
  "writeRuleItemUint8 L itemType value = itemType # vb_WriteUvarint (sl_varbin L) (length value) @ value"

definition writeRuleItemUint16 :: "('m, 'g) srs_lib \<Rightarrow> byte \<Rightarrow> uint16 list \<Rightarrow> byte list" where
  "writeRuleItemUint16 L itemType value =
     itemType # vb_WriteUvarint (sl_varbin L) (length value) @ concat (map PutUint16 value)"

definition build_set :: "('m, 'g) srs_lib \<Rightarrow> string list \<Rightarrow> (bin_error, ip_range list) res" where
  "build_set L value = (case parse_cidrs (sl_items L) 0 value [] [] of
     Err i \<Rightarrow> Err (BadPrefixString i)
   | Panic \<Rightarrow> Panic
   | Ok (ps, as) \<Rightarrow> (case il_IPSet (sl_items L) ps as of None \<Rightarrow> Err BadRanges | Some st \<Rightarrow> Ok st))"

definition writeRuleItemCIDR :: "('m, 'g) srs_lib \<Rightarrow> byte \<Rightarrow> string list \<Rightarrow> (bin_error, byte list) res" where
  "writeRuleItemCIDR L itemType value = res_bind (build_set L value) (\<lambda>st. Ok (itemType # writeIPSet L st))"

definition read_prefixes :: "('m, 'g) srs_lib \<Rightarrow> prefix list decoder" where
  "read_prefixes L bs = res_bind (ReadUvarint bs) (\<lambda>(prefixCount, bs1). repeat prefixCount (readPrefix L) bs1)"

definition write_prefixes :: "('m, 'g) srs_lib \<Rightarrow> prefix list \<Rightarrow> byte list" where
  "write_prefixes L ps = vb_WriteUvarint (sl_varbin L) (length ps) @ concat (map (writePrefix L) ps)"

definition read_entry :: "('m, 'g) srs_lib \<Rightarrow> (byte \<times> prefix list) decoder" where
  "read_entry L bs =
     res_bind (ReadByte bs) (\<lambda>(key, bs1). res_bind (read_prefixes L bs1) (\<lambda>(value, bs2). Ok ((key, value), bs2)))"

definition write_entry :: "('m, 'g) srs_lib \<Rightarrow> byte \<times> prefix list \<Rightarrow> byte list" where
  "write_entry L e = fst e # write_prefixes L (snd e)"

definition read_interface_map :: "('m, 'g) srs_lib \<Rightarrow> (byte, prefix list) gomap decoder" where
  "read_interface_map L bs =
     res_bind (ReadUvarint bs) (\<lambda>(size, bs1).
     res_bind (repeat size (read_entry L) bs1) (\<lambda>(entries, bs2). Ok (fold (\<lambda>(k, v). gm_set k v) entries [], bs2)))"

definition write_interface_map :: "('m, 'g) srs_lib \<Rightarrow> (byte, prefix list) gomap \<Rightarrow> byte list" where
  "write_interface_map L m = vb_WriteUvarint (sl_varbin L) (length m) @ concat (map (write_entry L) m)"


section \<open>Default rules\<close>

text \<open>One round of the loop of \<open>readDefaultRule\<close>, for every item type but \<open>ruleItemFinal\<close>.\<close>

definition assign :: "'a decoder \<Rightarrow> ('a \<Rightarrow> 'o \<Rightarrow> 'o) \<Rightarrow> 'o \<Rightarrow> 'o decoder" where
  "assign d upd rule bs = res_bind (d bs) (\<lambda>(v, rest). Ok (upd v rule, rest))"

definition read_item :: "('m, 'g) srs_lib \<Rightarrow> bool \<Rightarrow> byte \<Rightarrow> byte \<Rightarrow> ('m, 'g) headless_options \<Rightarrow> ('m, 'g) headless_options decoder" where
  "read_item L rcv lastItemType itemType rule =
     (let strs = readRuleItemString L; u16s = vb_ReadUint16s (sl_varbin L) in
      if itemType = ruleItemQueryType then assign u16s (\<lambda>v. ho_QueryType_update (\<lambda>_. v)) rule
      else if itemType = ruleItemNetwork then assign strs (\<lambda>v. ho_Network_update (\<lambda>_. v)) rule
      else if itemType = ruleItemDomain then assign (sl_ReadMatcher L) (\<lambda>m r.
        (if rcv then r\<lparr>ho_DomainMatcher := Some m, ho_Domain := fst (sl_Dump L m), ho_DomainSuffix := snd (sl_Dump L m)\<rparr>
         else r\<lparr>ho_DomainMatcher := Some m\<rparr>)) rule
      else if itemType = ruleItemDomainKeyword then assign strs (\<lambda>v. ho_DomainKeyword_update (\<lambda>_. v)) rule
      else if itemType = ruleItemDomainRegex then assign strs (\<lambda>v. ho_DomainRegex_update (\<lambda>_. v)) rule
      else if itemType = ruleItemSourceIPCIDR then assign (readIPSet L) (\<lambda>st r.
        (if rcv then r\<lparr>ho_SourceIPSet := Some st, ho_SourceIPCIDR := sl_Prefixes L st\<rparr> else r\<lparr>ho_SourceIPSet := Some st\<rparr>)) rule
      else if itemType = ruleItemIPCIDR then assign (readIPSet L) (\<lambda>st r.
        (if rcv then r\<lparr>ho_IPSet := Some st, ho_IPCIDR := sl_Prefixes L st\<rparr> else r\<lparr>ho_IPSet := Some st\<rparr>)) rule
      else if itemType = ruleItemSourcePort then assign u16s (\<lambda>v. ho_SourcePort_update (\<lambda>_. v)) rule
      else if itemType = ruleItemSourcePortRange then assign strs (\<lambda>v. ho_SourcePortRange_update (\<lambda>_. v)) rule
      else if itemType = ruleItemPort then assign u16s (\<lambda>v. ho_Port_update (\<lambda>_. v)) rule
      else if itemType = ruleItemPortRange then assign strs (\<lambda>v. ho_PortRange_update (\<lambda>_. v)) rule
      else if itemType = ruleItemProcessName then assign strs (\<lambda>v. ho_ProcessName_update (\<lambda>_. v)) rule
      else if itemType = ruleItemProcessPath then assign strs (\<lambda>v. ho_ProcessPath_update (\<lambda>_. v)) rule
      else if itemType = ruleItemProcessPathRegex then assign strs (\<lambda>v. ho_ProcessPathRegex_update (\<lambda>_. v)) rule
      else if itemType = ruleItemPackageName then assign strs (\<lambda>v. ho_PackageName_update (\<lambda>_. v)) rule
      else if itemType = ruleItemPackageNameRegex then assign strs (\<lambda>v. ho_PackageNameRegex_update (\<lambda>_. v)) rule
      else if itemType = ruleItemWIFISSID then assign strs (\<lambda>v. ho_WIFISSID_update (\<lambda>_. v)) rule
      else if itemType = ruleItemWIFIBSSID then assign strs (\<lambda>v. ho_WIFIBSSID_update (\<lambda>_. v)) rule
      else if itemType = ruleItemAdGuardDomain then assign (sl_ReadAdGuardMatcher L) (\<lambda>m r.
        (if rcv then r\<lparr>ho_AdGuardDomainMatcher := Some m, ho_AdGuardDomain := sl_DumpAdGuard L m\<rparr>
         else r\<lparr>ho_AdGuardDomainMatcher := Some m\<rparr>)) rule
      else if itemType = ruleItemNetworkType then assign (vb_ReadBytes (sl_varbin L)) (\<lambda>v. ho_NetworkType_update (\<lambda>_. v)) rule
      else if itemType = ruleItemNetworkIsExpensive then (\<lambda>bs. Ok (rule\<lparr>ho_NetworkIsExpensive := True\<rparr>, bs))
      else if itemType = ruleItemNetworkIsConstrained then (\<lambda>bs. Ok (rule\<lparr>ho_NetworkIsConstrained := True\<rparr>, bs))
      else if itemType = ruleItemNetworkInterfaceAddress
        then assign (read_interface_map L) (\<lambda>v. ho_NetworkInterfaceAddress_update (\<lambda>_. Some v)) rule
      else if itemType = ruleItemDefaultInterfaceAddress
        then assign (read_prefixes L) (\<lambda>v. ho_DefaultInterfaceAddress_update (\<lambda>_. v)) rule
      else (\<lambda>bs. Err (UnknownItemType (unat itemType) (unat lastItemType))))"

text \<open>The loop. Every round reads at least the type of an item, so the length of the input is enough fuel
  (\<open>item_loop_fuel\<close> below).\<close>

primrec item_loop :: "('m, 'g) srs_lib \<Rightarrow> bool \<Rightarrow> nat \<Rightarrow> byte \<Rightarrow> ('m, 'g) headless_options \<Rightarrow> ('m, 'g) headless_options decoder" where
  "item_loop L rcv 0 lastItemType rule bs = Panic"
| "item_loop L rcv (Suc fuel) lastItemType rule bs =
     res_bind (ReadByte bs) (\<lambda>(itemType, bs1).
       if itemType = ruleItemFinal then assign ReadBool (\<lambda>v. ho_Invert_update (\<lambda>_. v)) rule bs1
       else res_bind (read_item L rcv lastItemType itemType rule bs1) (\<lambda>(rule', bs2).
         item_loop L rcv fuel itemType rule' bs2))"

definition readDefaultRule :: "('m, 'g) srs_lib \<Rightarrow> bool \<Rightarrow> ('m, 'g) headless_options decoder" where
  "readDefaultRule L rcv bs = item_loop L rcv (Suc (length bs)) 0 zero_headless bs"

text \<open>Writing one item after the other stops at the first error.\<close>

fun write_all :: "(bin_error, byte list) res list \<Rightarrow> (bin_error, byte list) res" where
  "write_all [] = Ok []"
| "write_all (r # rs) = res_bind r (\<lambda>b. res_bind (write_all rs) (\<lambda>bs. Ok (b @ bs)))"

definition write_if :: "bool \<Rightarrow> (bin_error, byte list) res \<Rightarrow> (bin_error, byte list) res" where
  "write_if cond r = (if cond then r else Ok [])"

definition since :: "byte \<Rightarrow> byte \<Rightarrow> string \<Rightarrow> byte list \<Rightarrow> (bin_error, byte list) res" where
  "since version generateVersion name bs = (if generateVersion < version then Err (VersionTooOld name) else Ok bs)"

abbreviation has_domain :: "('m, 'g) headless_options \<Rightarrow> bool" where
  "has_domain rule \<equiv> ho_Domain rule \<noteq> [] \<or> ho_DomainSuffix rule \<noteq> []"

definition new_matcher :: "('m, 'g) srs_lib \<Rightarrow> byte \<Rightarrow> ('m, 'g) headless_options \<Rightarrow> 'm" where
  "new_matcher L gv rule = sl_NewMatcher L (ho_Domain rule) (ho_DomainSuffix rule) (gv = 1)"

definition item_chunks :: "('m, 'g) srs_lib \<Rightarrow> byte \<Rightarrow> ('m, 'g) headless_options \<Rightarrow> (bin_error, byte list) res list" where
  "item_chunks L gv rule =
     (let strs = (\<lambda>tag v. write_if (v \<noteq> []) (Ok (writeRuleItemString L tag v)));
          u16s = (\<lambda>tag v. write_if (v \<noteq> []) (Ok (writeRuleItemUint16 L tag v))) in
      [u16s ruleItemQueryType (ho_QueryType rule),
       strs ruleItemNetwork (ho_Network rule),
       write_if (has_domain rule) (Ok (ruleItemDomain # sl_WriteMatcher L (new_matcher L gv rule))),
       strs ruleItemDomainKeyword (ho_DomainKeyword rule),
       strs ruleItemDomainRegex (ho_DomainRegex rule),
       write_if (ho_SourceIPCIDR rule \<noteq> []) (writeRuleItemCIDR L ruleItemSourceIPCIDR (ho_SourceIPCIDR rule)),
       write_if (ho_IPCIDR rule \<noteq> []) (writeRuleItemCIDR L ruleItemIPCIDR (ho_IPCIDR rule)),
       u16s ruleItemSourcePort (ho_SourcePort rule),
       strs ruleItemSourcePortRange (ho_SourcePortRange rule),
       u16s ruleItemPort (ho_Port rule),
       strs ruleItemPortRange (ho_PortRange rule),
       strs ruleItemProcessName (ho_ProcessName rule),
       strs ruleItemProcessPath (ho_ProcessPath rule),
       strs ruleItemProcessPathRegex (ho_ProcessPathRegex rule),
       strs ruleItemPackageName (ho_PackageName rule),
       write_if (ho_PackageNameRegex rule \<noteq> [])
         (since 5 gv ''package_name_regex'' (writeRuleItemString L ruleItemPackageNameRegex (ho_PackageNameRegex rule))),
       write_if (ho_NetworkType rule \<noteq> [])
         (since 3 gv ''network_type'' (writeRuleItemUint8 L ruleItemNetworkType (ho_NetworkType rule))),
       write_if (ho_NetworkIsExpensive rule) (since 3 gv ''network_is_expensive'' [ruleItemNetworkIsExpensive]),
       write_if (ho_NetworkIsConstrained rule) (since 3 gv ''network_is_constrained'' [ruleItemNetworkIsConstrained]),
       (case ho_NetworkInterfaceAddress rule of
          None \<Rightarrow> Ok []
        | Some m \<Rightarrow> write_if (m \<noteq> [])
            (since 4 gv ''network_interface_address'' (ruleItemNetworkInterfaceAddress # write_interface_map L m))),
       write_if (ho_DefaultInterfaceAddress rule \<noteq> [])
         (since 4 gv ''default_interface_address''
            (ruleItemDefaultInterfaceAddress # write_prefixes L (ho_DefaultInterfaceAddress rule))),
       strs ruleItemWIFISSID (ho_WIFISSID rule),
       strs ruleItemWIFIBSSID (ho_WIFIBSSID rule),
       write_if (ho_AdGuardDomain rule \<noteq> [])
         (since 2 gv ''AdGuard'' (ruleItemAdGuardDomain # sl_WriteAdGuardMatcher L (sl_NewAdGuardMatcher L (ho_AdGuardDomain rule))))])"

definition writeDefaultRule :: "('m, 'g) srs_lib \<Rightarrow> byte \<Rightarrow> ('m, 'g) headless_options \<Rightarrow> (bin_error, byte list) res" where
  "writeDefaultRule L gv rule =
     write_all ([Ok [0]] @ item_chunks L gv rule @ [Ok [ruleItemFinal], Ok (PutBool (ho_Invert rule))])"


section \<open>Rules and rule sets\<close>

definition maxLogicalRuleDepth :: nat where
  "maxLogicalRuleDepth = 100"

definition readLogicalRule :: "('m, 'g) headless_rule decoder \<Rightarrow> ('m, 'g) headless_rule decoder" where
  "readLogicalRule sub bs =
     res_bind (ReadByte bs) (\<lambda>(mode, bs1).
     if mode \<noteq> 0 \<and> mode \<noteq> 1 then Err (bin_error.UnknownLogicalMode (unat mode))
     else res_bind (ReadUvarint bs1) (\<lambda>(len, bs2).
          res_bind (repeat len sub bs2) (\<lambda>(rules, bs3).
          res_bind (ReadBool bs3) (\<lambda>(neg, bs4).
            Ok (logical_rule (if mode = 0 then ''and'' else ''or'') rules neg, bs4)))))"

text \<open>\<open>readRule\<close>, by the number of levels that are left: \<open>maxLogicalRuleDepth + 1 - depth\<close>.\<close>

primrec readRule :: "('m, 'g) srs_lib \<Rightarrow> bool \<Rightarrow> nat \<Rightarrow> ('m, 'g) headless_rule decoder" where
  "readRule L rcv 0 = (\<lambda>bs. Err NestedTooDeep)"
| "readRule L rcv (Suc levels) = (\<lambda>bs.
     res_bind (ReadByte bs) (\<lambda>(ruleType, bs1).
       if ruleType = 0 then res_bind (readDefaultRule L rcv bs1) (\<lambda>(d, bs2). Ok (default_rule d, bs2))
       else if ruleType = 1 then readLogicalRule (readRule L rcv levels) bs1
       else Err (bin_error.UnknownRuleType (unat ruleType))))"

definition writeLogicalRule :: "('m, 'g) srs_lib \<Rightarrow> string \<Rightarrow> (bin_error, byte list) res list \<Rightarrow> bool \<Rightarrow> (bin_error, byte list) res" where
  "writeLogicalRule L mode rules neg = write_all
     [Ok [1],
      (if mode = ''and'' then Ok [0] else if mode = ''or'' then Ok [1] else Panic),
      Ok (vb_WriteUvarint (sl_varbin L) (length rules)),
      write_all rules,
      Ok (PutBool neg)]"

primrec writeRule :: "('m, 'g) srs_lib \<Rightarrow> byte \<Rightarrow> ('m, 'g) headless_rule \<Rightarrow> (bin_error, byte list) res" where
  "writeRule L gv (HeadlessRule t d mode rules neg) =
     (if t = ''default'' then writeDefaultRule L gv d
      else if t = ''logical'' then writeLogicalRule L mode (map (writeRule L gv) rules) neg
      else Panic)"

definition MagicBytes :: "byte list" where
  "MagicBytes = [0x53, 0x52, 0x53]"

definition Write :: "('m, 'g) srs_lib \<Rightarrow> ('m, 'g) headless_rule list \<Rightarrow> byte \<Rightarrow> (bin_error, byte list) res" where
  "Write L rules generateVersion =
     res_bind (write_all (Ok (vb_WriteUvarint (sl_varbin L) (length rules)) # map (writeRule L generateVersion) rules)) (\<lambda>body.
       Ok (MagicBytes @ [generateVersion] @ sl_compress L body))"

definition Read :: "('m, 'g) srs_lib \<Rightarrow> bool \<Rightarrow> byte list \<Rightarrow> (bin_error, byte \<times> ('m, 'g) headless_rule list) res" where
  "Read L rcv bs =
     res_bind (ReadFull 3 bs) (\<lambda>(magicBytes, bs1).
     if magicBytes \<noteq> MagicBytes then Err NotARuleSet
     else res_bind (ReadByte bs1) (\<lambda>(version, bs2).
       if RuleSetVersionCurrent < version then Err (UnsupportedVersion (unat version))
       else res_bind (sl_decompress L bs2) (\<lambda>body.
            res_bind (ReadUvarint body) (\<lambda>(len, bs3).
            res_bind (repeat len (readRule L rcv (Suc maxLogicalRuleDepth)) bs3) (\<lambda>(rules, _).
              Ok (version, rules))))))"


section \<open>Totality\<close>

text \<open>The decoders of the libraries do not panic and do not give bytes back.\<close>

locale srs_readers =
  fixes L :: "('m, 'g) srs_lib"
  assumes readers: "reader (vb_ReadBytes (sl_varbin L))" "reader (vb_ReadUint16s (sl_varbin L))"
      "reader (sl_ReadMatcher L)" "reader (sl_ReadAdGuardMatcher L)"
    and decompress_no_panic: "sl_decompress L bs \<noteq> Panic"
begin

lemma reader_assign: "reader d \<Longrightarrow> reader (assign d upd rule)"
  unfolding assign_def by (rule reader_bind) (auto simp: reader_def)

lemma reader_addr: "reader (readIPSetAddr L)"
  unfolding readIPSetAddr_def by (intro reader_intros)

lemma reader_set: "reader (readIPSet L)"
  unfolding readIPSet_def read_range_def by (intro reader_intros reader_addr)

lemma reader_prefixes: "reader (read_prefixes L)"
  unfolding read_prefixes_def readPrefix_def by (intro reader_intros)

lemma reader_interface_map: "reader (read_interface_map L)"
  unfolding read_interface_map_def read_entry_def by (intro reader_intros reader_prefixes)

lemma reader_strings: "reader (readRuleItemString L)"
  unfolding readRuleItemString_def by (intro reader_intros readers)

lemmas item_readers = reader_assign reader_set reader_prefixes reader_interface_map reader_strings readers reader_intros

lemma reader_item: "reader (read_item L rcv lst itemType rule)"
  unfolding read_item_def Let_def by (intro reader_if item_readers)

lemma item_loop_total:
  "length bs < fuel \<Longrightarrow> item_loop L rcv fuel lst rule bs \<noteq> Panic \<and>
     (\<forall>r rest. item_loop L rcv fuel lst rule bs = Ok (r, rest) \<longrightarrow> length rest \<le> length bs)"
proof (induction fuel arbitrary: lst rule bs)
  case (Suc fuel)
  show ?case
  proof (cases bs)
    case (Cons itemType bs1)
    have fin: "assign ReadBool (\<lambda>v. ho_Invert_update (\<lambda>_. v)) rule bs1 \<noteq> Panic"
      "assign ReadBool (\<lambda>v. ho_Invert_update (\<lambda>_. v)) rule bs1 = Ok (r, rest) \<Longrightarrow> length rest \<le> length bs1" for r rest
      by (rule reader_no_panic [OF reader_assign [OF reader_ReadBool]],
          rule reader_Ok [OF reader_assign [OF reader_ReadBool]])
    have more: "item_loop L rcv fuel itemType r' bs2 \<noteq> Panic"
        "item_loop L rcv fuel itemType r' bs2 = Ok (r, rest) \<Longrightarrow> length rest \<le> length bs1"
      if "read_item L rcv lst itemType rule bs1 = Ok (r', bs2)" for r' bs2 r rest
    proof -
      have "length bs2 \<le> length bs1" by (rule reader_Ok [OF reader_item that])
      moreover from this have "length bs2 < fuel" using Suc.prems Cons by simp
      ultimately show "item_loop L rcv fuel itemType r' bs2 \<noteq> Panic"
        "item_loop L rcv fuel itemType r' bs2 = Ok (r, rest) \<Longrightarrow> length rest \<le> length bs1"
        using Suc.IH by (blast, meson le_trans)
    qed
    show ?thesis
    proof (cases "itemType = ruleItemFinal")
      case True
      with fin Cons show ?thesis by (auto intro: le_SucI)
    next
      case False
      with more reader_no_panic [OF reader_item] Cons show ?thesis
        by (cases "read_item L rcv lst itemType rule bs1") (auto intro: le_SucI)
    qed
  qed (simp add: ReadByte_def)
qed simp

lemma item_loop_fuel:
  "length bs < fuel \<Longrightarrow> item_loop L rcv (fuel + k) lst rule bs = item_loop L rcv fuel lst rule bs"
proof (induction fuel arbitrary: lst rule bs)
  case (Suc fuel)
  show ?case
  proof (cases bs)
    case (Cons itemType bs1)
    have "item_loop L rcv (fuel + k) itemType r' rest = item_loop L rcv fuel itemType r' rest"
      if "read_item L rcv lst itemType rule bs1 = Ok (r', rest)" for r' rest
      using Suc reader_Ok [OF reader_item that] Cons by simp
    then show ?thesis using Cons by (cases "read_item L rcv lst itemType rule bs1") auto
  qed (simp add: ReadByte_def)
qed simp

lemma reader_default: "reader (readDefaultRule L rcv)"
  using item_loop_total [OF lessI] unfolding reader_def readDefaultRule_def by blast

lemma reader_rule: "reader (readRule L rcv levels)"
proof (induction levels)
  case (Suc levels)
  show ?case unfolding readRule.simps readLogicalRule_def by (intro reader_intros reader_default Suc.IH)
qed (simp add: reader_def)

lemma Read_no_panic: "Read L rcv bs \<noteq> Panic"
  using reader_no_panic [OF reader_ReadFull] reader_no_panic [OF reader_ReadByte] reader_no_panic [OF reader_ReadUvarint]
    decompress_no_panic reader_no_panic [OF reader_repeat [OF reader_rule]]
  unfolding Read_def res_bind_def by (auto simp del: readRule.simps split: res.splits prod.splits)

end


lemma update_new: "k \<notin> set (map fst m) \<Longrightarrow> gm_set k v m = m @ [(k, v)]"
  by (induction m) (auto simp: gm_set_def)

lemma fold_gm_set_append: "gm_wf (acc @ m) \<Longrightarrow> fold (\<lambda>(k, v). gm_set k v) m acc = acc @ m"
proof (induction m arbitrary: acc)
  case (Cons e m)
  then have "gm_set (fst e) (snd e) acc = acc @ [e]" by (simp add: update_new gm_wf_def)
  with Cons show ?case by (cases e) (simp add: gm_wf_def)
qed simp

lemma fold_gm_set: "gm_wf m \<Longrightarrow> fold (\<lambda>(k, v). gm_set k v) m [] = m"
  using fold_gm_set_append [of "[]" m] by simp


section \<open>Round trip of the parts\<close>

text \<open>An address that keeps its form in four or sixteen bytes: no zone, and not an IPv4 address in IPv6 clothes.\<close>

definition plain_addr :: "addr \<Rightarrow> bool" where
  "plain_addr a = (a \<noteq> ZeroAddr \<and> addr_zone a = [] \<and> addr_Unmap a = a)"

definition plain_prefix :: "prefix \<Rightarrow> bool" where
  "plain_prefix p = (plain_addr (pf_Addr p) \<and> - 1 \<le> pf_Bits p \<and> pf_Bits p \<le> int (addr_BitLen (pf_Addr p)))"

definition plain_range :: "ip_range \<Rightarrow> bool" where
  "plain_range r = (plain_addr (ir_from r) \<and> plain_addr (ir_to r))"

text \<open>A list of strings whose sizes fit a Go slice.\<close>

definition sized :: "string list \<Rightarrow> bool" where
  "sized ss = (length ss < 2 ^ 64 \<and> list_all (\<lambda>s. length s < 2 ^ 64) ss)"

text \<open>The laws of the libraries: what is written is read back.\<close>

locale srs_laws = srs_readers L for L :: "('m, 'g) srs_lib" +
  assumes varbin: "varbin_laws (sl_varbin L)"
    and ReadMatcher: "d \<noteq> [] \<or> s \<noteq> [] \<Longrightarrow> [] \<notin> set d \<union> set s \<Longrightarrow> sized d \<Longrightarrow> sized s \<Longrightarrow>
      sl_ReadMatcher L (sl_WriteMatcher L (sl_NewMatcher L d s legacy) @ rest) = Ok (sl_NewMatcher L d s legacy, rest)"
    and ReadAdGuardMatcher: "ls \<noteq> [] \<Longrightarrow> sized ls \<Longrightarrow>
      sl_ReadAdGuardMatcher L (sl_WriteAdGuardMatcher L (sl_NewAdGuardMatcher L ls) @ rest) = Ok (sl_NewAdGuardMatcher L ls, rest)"
    and AddrFromIP: "plain_addr a \<Longrightarrow> sl_AddrFromIP L (addr_AsSlice a) = a"
    and decompress: "sl_decompress L (sl_compress L bs) = Ok bs"
begin

lemmas read_count = varbin_laws.read_count [OF varbin]

lemma addr_length: "plain_addr a \<Longrightarrow> length (addr_AsSlice a) = 4 \<or> length (addr_AsSlice a) = 16"
  by (cases a) (simp_all add: plain_addr_def addr_AsSlice_def)

lemma read_addr: "plain_addr a \<Longrightarrow> readIPSetAddr L (write_addr L a @ rest) = Ok (a, rest)"
  using addr_length [of a] read_count [of "length (addr_AsSlice a)"]
  by (auto simp: readIPSetAddr_def write_addr_def AddrFromIP ReadFull_append)

lemma read_write_set:
  assumes "list_all plain_range st" "length st < 2 ^ 64"
  shows "readIPSet L (writeIPSet L st @ rest) = Ok (st, rest)"
proof -
  have "undoes (read_range L) (write_range L) r" if "r \<in> set st" for r
    using assms(1) that by (auto simp: undoes_def read_range_def write_range_def read_addr plain_range_def list_all_iff)
  then show ?thesis
    using repeat_undoes [of st "read_range L" "write_range L" rest] assms(2)
    by (simp add: readIPSet_def writeIPSet_def ReadUint64_Put)
qed

lemma read_prefix: "plain_prefix p \<Longrightarrow> readPrefix L (writePrefix L p @ rest) = Ok (p, rest)"
proof -
  assume p: "plain_prefix p"
  then have a: "plain_addr (pf_Addr p)" by (simp add: plain_prefix_def)
  have len: "addr_BitLen (pf_Addr p) \<le> 128" by (auto simp: addr_BitLen_def split: addr.splits)
  have "unat (word_of_int (pf_Bits p) :: byte) = (if pf_Bits p = - 1 then 255 else nat (pf_Bits p))"
  proof (cases "pf_Bits p = - 1")
    case False
    with p len have "0 \<le> pf_Bits p" "pf_Bits p < 2 ^ 8" by (auto simp: plain_prefix_def)
    with False show ?thesis by (simp add: unat_eq_nat_uint uint_word_of_int)
  qed (simp add: unsigned_minus_1_eq_mask mask_eq_exp_minus_1)
  moreover have "without_zone (pf_Addr p) = pf_Addr p" "pf_Addr p \<noteq> ZeroAddr"
    using a by (auto simp: without_zone_def plain_addr_def addr_zone_def split: addr.splits)
  ultimately have "PrefixFrom (pf_Addr p) (int (unat (word_of_int (pf_Bits p) :: byte))) = p"
    using p len by (auto simp: PrefixFrom_def plain_prefix_def)
  then show ?thesis
    using addr_length [OF a] read_count [of "length (addr_AsSlice (pf_Addr p))"]
    by (auto simp: readPrefix_def writePrefix_def write_addr_def AddrFromIP a ReadFull_append)
qed

lemma read_write_prefixes:
  assumes "list_all plain_prefix ps" "length ps < 2 ^ 64"
  shows "read_prefixes L (write_prefixes L ps @ rest) = Ok (ps, rest)"
  using assms repeat_undoes [of ps "readPrefix L" "writePrefix L" rest]
  by (simp add: read_prefixes_def write_prefixes_def read_count undoes_def read_prefix list_all_iff)

lemma read_write_map:
  assumes "list_all (\<lambda>(k, ps). list_all plain_prefix ps \<and> length ps < 2 ^ 64) m" "length m < 2 ^ 64" "gm_wf m"
  shows "read_interface_map L (write_interface_map L m @ rest) = Ok (m, rest)"
proof -
  have "undoes (read_entry L) (write_entry L) e" if "e \<in> set m" for e
    using assms(1) that by (cases e) (auto simp: undoes_def read_entry_def write_entry_def read_write_prefixes list_all_iff)
  then have "read_interface_map L (write_interface_map L m @ rest) = Ok (fold (\<lambda>(k, v). gm_set k v) m [], rest)"
    using repeat_undoes [of m "read_entry L" "write_entry L" rest] assms(2)
    by (simp add: read_interface_map_def write_interface_map_def read_count)
  then show ?thesis by (simp add: fold_gm_set assms(3))
qed

lemma read_write_strings:
  assumes "list_all (\<lambda>s. length s < 2 ^ 64) ss" "length ss < 2 ^ 64"
  shows "readRuleItemString L (vb_WriteUvarint (sl_varbin L) (length ss) @ concat (map (write_string L) ss) @ rest) = Ok (ss, rest)"
proof -
  have "repeat (length ss) (vb_ReadBytes (sl_varbin L)) (concat (map (write_string L) ss) @ rest) = Ok (map bytes_of ss, rest)"
    using assms(1)
  proof (induction ss)
    case (Cons s ss)
    have "vb_ReadBytes (sl_varbin L) (vb_WriteUvarint (sl_varbin L) (length s) @ bytes_of s @ x) = Ok (bytes_of s, x)" for x
      using varbin_laws.read_bytes [OF varbin, of "bytes_of s" x] Cons.prems by simp
    with Cons show ?case by (simp add: write_string_def)
  qed simp
  then show ?thesis using assms(2) by (simp add: readRuleItemString_def read_count comp_def)
qed

lemma read_write_uint16s:
  "length ws < 2 ^ 64 \<Longrightarrow>
    vb_ReadUint16s (sl_varbin L) (vb_WriteUvarint (sl_varbin L) (length ws) @ concat (map PutUint16 ws) @ rest) = Ok (ws, rest)"
  by (rule varbin_laws.read_uint16s [OF varbin])

lemma read_write_uint8s:
  "length ws < 2 ^ 64 \<Longrightarrow> vb_ReadBytes (sl_varbin L) (vb_WriteUvarint (sl_varbin L) (length ws) @ ws @ rest) = Ok (ws, rest)"
  by (rule varbin_laws.read_bytes [OF varbin])

end


section \<open>Round trip of default rules\<close>

text \<open>What a rule is after it was written and read: domains and address lists have become matchers and sets, with
  the lists recovered from these if asked for.\<close>

definition kept_set :: "('m, 'g) srs_lib \<Rightarrow> string list \<Rightarrow> ip_range list option" where
  "kept_set L ss = (if ss = [] then None else case build_set L ss of Ok st \<Rightarrow> Some st | _ \<Rightarrow> None)"

definition recovered :: "('m, 'g) srs_lib \<Rightarrow> bool \<Rightarrow> string list \<Rightarrow> string list" where
  "recovered L rcv ss = (case kept_set L ss of Some st \<Rightarrow> if rcv then sl_Prefixes L st else [] | None \<Rightarrow> [])"

definition stored_default :: "('m, 'g) srs_lib \<Rightarrow> bool \<Rightarrow> byte \<Rightarrow> ('m, 'g) headless_options \<Rightarrow> ('m, 'g) headless_options" where
  "stored_default L rcv gv rule = rule\<lparr>
     ho_Domain := (if has_domain rule \<and> rcv then fst (sl_Dump L (new_matcher L gv rule)) else []),
     ho_DomainSuffix := (if has_domain rule \<and> rcv then snd (sl_Dump L (new_matcher L gv rule)) else []),
     ho_DomainMatcher := (if has_domain rule then Some (new_matcher L gv rule) else None),
     ho_SourceIPCIDR := recovered L rcv (ho_SourceIPCIDR rule),
     ho_SourceIPSet := kept_set L (ho_SourceIPCIDR rule),
     ho_IPCIDR := recovered L rcv (ho_IPCIDR rule),
     ho_IPSet := kept_set L (ho_IPCIDR rule),
     ho_NetworkInterfaceAddress :=
       (if ho_NetworkInterfaceAddress rule = Some [] then None else ho_NetworkInterfaceAddress rule),
     ho_AdGuardDomain := (if ho_AdGuardDomain rule \<noteq> [] \<and> rcv
       then sl_DumpAdGuard L (sl_NewAdGuardMatcher L (ho_AdGuardDomain rule)) else []),
     ho_AdGuardDomainMatcher := (if ho_AdGuardDomain rule \<noteq> []
       then Some (sl_NewAdGuardMatcher L (ho_AdGuardDomain rule)) else None),
     ho_EmptySlices := False\<rparr>"

text \<open>The conditions: sizes that fit a Go slice, no empty domain, and addresses that keep their form.\<close>

definition plain_set :: "('m, 'g) srs_lib \<Rightarrow> string list \<Rightarrow> bool" where
  "plain_set L ss = (case build_set L ss of Ok st \<Rightarrow> list_all plain_range st \<and> length st < 2 ^ 64 | _ \<Rightarrow> True)"

definition plain_prefixes :: "prefix list \<Rightarrow> bool" where
  "plain_prefixes ps = (list_all plain_prefix ps \<and> length ps < 2 ^ 64)"

definition storable_default :: "('m, 'g) srs_lib \<Rightarrow> ('m, 'g) headless_options \<Rightarrow> bool" where
  "storable_default L rule =
     (list_all sized [ho_Network rule, ho_DomainKeyword rule, ho_DomainRegex rule, ho_SourcePortRange rule, ho_PortRange rule,
        ho_ProcessName rule, ho_ProcessPath rule, ho_ProcessPathRegex rule, ho_PackageName rule, ho_PackageNameRegex rule,
        ho_WIFISSID rule, ho_WIFIBSSID rule, ho_Domain rule, ho_DomainSuffix rule, ho_AdGuardDomain rule] \<and>
      list_all (\<lambda>ws. length ws < 2 ^ 64) [ho_QueryType rule, ho_SourcePort rule, ho_Port rule] \<and>
      length (ho_NetworkType rule) < 2 ^ 64 \<and>
      [] \<notin> set (ho_Domain rule) \<union> set (ho_DomainSuffix rule) \<and>
      plain_set L (ho_SourceIPCIDR rule) \<and> plain_set L (ho_IPCIDR rule) \<and>
      (case ho_NetworkInterfaceAddress rule of
         None \<Rightarrow> True
       | Some m \<Rightarrow> gm_wf m \<and> length m < 2 ^ 64 \<and> list_all (\<lambda>(k, ps). plain_prefixes ps) m) \<and>
      plain_prefixes (ho_DefaultInterfaceAddress rule))"

text \<open>Reading the bytes of an item is a number of rounds of the loop that update the rule.\<close>

definition steps :: "('m, 'g) srs_lib \<Rightarrow> bool \<Rightarrow> nat \<Rightarrow> byte list \<Rightarrow>
    (('m, 'g) headless_options \<Rightarrow> ('m, 'g) headless_options) \<Rightarrow> bool" where
  "steps L rcv n bs upd = (\<forall>fuel lst rule rest. \<exists>lst'.
     item_loop L rcv (n + fuel) lst rule (bs @ rest) = item_loop L rcv fuel lst' (upd rule) rest)"

definition chunk_ok :: "('m, 'g) srs_lib \<Rightarrow> bool \<Rightarrow> (bin_error, byte list) res \<Rightarrow>
    (('m, 'g) headless_options \<Rightarrow> ('m, 'g) headless_options) \<Rightarrow> bool" where
  "chunk_ok L rcv r upd = (\<forall>bs. r = Ok bs \<longrightarrow> (\<exists>n \<le> length bs. steps L rcv n bs upd))"

lemma steps_append:
  assumes "steps L rcv m bs f" "steps L rcv n cs g"
  shows "steps L rcv (m + n) (bs @ cs) (\<lambda>r. g (f r))"
  unfolding steps_def
proof (intro allI)
  fix fuel lst rule rest
  obtain l1 where "item_loop L rcv (m + (n + fuel)) lst rule (bs @ cs @ rest) = item_loop L rcv (n + fuel) l1 (f rule) (cs @ rest)"
    using assms(1) unfolding steps_def by blast
  moreover obtain l2 where "item_loop L rcv (n + fuel) l1 (f rule) (cs @ rest) = item_loop L rcv fuel l2 (g (f rule)) rest"
    using assms(2) unfolding steps_def by blast
  ultimately show "\<exists>lst'. item_loop L rcv (m + n + fuel) lst rule ((bs @ cs) @ rest) = item_loop L rcv fuel lst' (g (f rule)) rest"
    by (auto simp: add.assoc)
qed

lemma chunks_ok:
  assumes "list_all2 (chunk_ok L rcv) rs us" "write_all rs = Ok bs"
  shows "\<exists>n \<le> length bs. steps L rcv n bs (fold (\<lambda>u. u) us)"
  using assms
proof (induction arbitrary: bs rule: list_all2_induct)
  case Nil
  then show ?case by (auto simp: steps_def)
next
  case (Cons r rs u us)
  then obtain b cs where b: "r = Ok b" "write_all rs = Ok cs" "bs = b @ cs" by (auto simp: res_bind_eq_Ok)
  with Cons obtain m n where "m \<le> length b" "steps L rcv m b u" "n \<le> length cs" "steps L rcv n cs (fold (\<lambda>u. u) us)"
    unfolding chunk_ok_def by blast
  then have "m + n \<le> length bs" "steps L rcv (m + n) bs (\<lambda>r. fold (\<lambda>u. u) us (u r))"
    using b(3) by (auto intro: steps_append)
  then show ?case by (auto simp: comp_def)
qed

lemma chunk_item:
  assumes "r = Ok (tag # payload)" "tag \<noteq> ruleItemFinal"
    and "\<And>lst rule rest. read_item L rcv lst tag rule (payload @ rest) = Ok (upd rule, rest)"
  shows "chunk_ok L rcv r upd"
proof -
  have "steps L rcv 1 (tag # payload) upd" using assms(2,3) by (auto simp: steps_def)
  then show ?thesis using assms(1) by (auto simp: chunk_ok_def intro!: exI [of _ 1])
qed

lemma chunk_none: "upd = (\<lambda>r. r) \<Longrightarrow> chunk_ok L rcv (Ok []) upd"
  by (auto simp: chunk_ok_def steps_def)

lemma chunk_if:
  assumes "c \<Longrightarrow> chunk_ok L rcv r upd" "\<not> c \<Longrightarrow> upd = (\<lambda>r. r)"
  shows "chunk_ok L rcv (write_if c r) upd"
  using assms by (auto simp: write_if_def chunk_none)

lemma chunk_since: "chunk_ok L rcv (Ok bs) upd \<Longrightarrow> chunk_ok L rcv (since v gv name bs) upd"
  by (simp add: since_def chunk_ok_def)

definition domain_update :: "('m, 'g) srs_lib \<Rightarrow> bool \<Rightarrow> 'm option \<Rightarrow> ('m, 'g) headless_options \<Rightarrow> ('m, 'g) headless_options" where
  "domain_update L rcv mo r = (case mo of None \<Rightarrow> r | Some m \<Rightarrow> r\<lparr>ho_DomainMatcher := Some m,
     ho_Domain := if rcv then fst (sl_Dump L m) else ho_Domain r,
     ho_DomainSuffix := if rcv then snd (sl_Dump L m) else ho_DomainSuffix r\<rparr>)"

definition source_set_update :: "('m, 'g) srs_lib \<Rightarrow> bool \<Rightarrow> ip_range list option \<Rightarrow> ('m, 'g) headless_options \<Rightarrow> ('m, 'g) headless_options" where
  "source_set_update L rcv so r = (case so of None \<Rightarrow> r | Some st \<Rightarrow> r\<lparr>ho_SourceIPSet := Some st,
     ho_SourceIPCIDR := if rcv then sl_Prefixes L st else ho_SourceIPCIDR r\<rparr>)"

definition set_update :: "('m, 'g) srs_lib \<Rightarrow> bool \<Rightarrow> ip_range list option \<Rightarrow> ('m, 'g) headless_options \<Rightarrow> ('m, 'g) headless_options" where
  "set_update L rcv so r = (case so of None \<Rightarrow> r | Some st \<Rightarrow> r\<lparr>ho_IPSet := Some st,
     ho_IPCIDR := if rcv then sl_Prefixes L st else ho_IPCIDR r\<rparr>)"

definition adguard_update :: "('m, 'g) srs_lib \<Rightarrow> bool \<Rightarrow> 'g option \<Rightarrow> ('m, 'g) headless_options \<Rightarrow> ('m, 'g) headless_options" where
  "adguard_update L rcv go r = (case go of None \<Rightarrow> r | Some m \<Rightarrow> r\<lparr>ho_AdGuardDomainMatcher := Some m,
     ho_AdGuardDomain := if rcv then sl_DumpAdGuard L m else ho_AdGuardDomain r\<rparr>)"

abbreviation keep :: "'a list \<Rightarrow> 'a list \<Rightarrow> 'a list" where
  "keep v \<equiv> (\<lambda>old. if v \<noteq> [] then v else old)"

definition kept_matcher :: "('m, 'g) srs_lib \<Rightarrow> byte \<Rightarrow> ('m, 'g) headless_options \<Rightarrow> 'm option" where
  "kept_matcher L gv rule = (if has_domain rule then Some (new_matcher L gv rule) else None)"

definition kept_adguard :: "('m, 'g) srs_lib \<Rightarrow> ('m, 'g) headless_options \<Rightarrow> 'g option" where
  "kept_adguard L rule = (if ho_AdGuardDomain rule \<noteq> [] then Some (sl_NewAdGuardMatcher L (ho_AdGuardDomain rule)) else None)"

text \<open>The updates of the items, in the order in which they are written.\<close>

definition item_updates :: "('m, 'g) srs_lib \<Rightarrow> bool \<Rightarrow> byte \<Rightarrow> ('m, 'g) headless_options \<Rightarrow>
    (('m, 'g) headless_options \<Rightarrow> ('m, 'g) headless_options) list" where
  "item_updates L rcv gv rule =
     [ho_QueryType_update (keep (ho_QueryType rule)),
      ho_Network_update (keep (ho_Network rule)),
      domain_update L rcv (kept_matcher L gv rule),
      ho_DomainKeyword_update (keep (ho_DomainKeyword rule)),
      ho_DomainRegex_update (keep (ho_DomainRegex rule)),
      source_set_update L rcv (kept_set L (ho_SourceIPCIDR rule)),
      set_update L rcv (kept_set L (ho_IPCIDR rule)),
      ho_SourcePort_update (keep (ho_SourcePort rule)),
      ho_SourcePortRange_update (keep (ho_SourcePortRange rule)),
      ho_Port_update (keep (ho_Port rule)),
      ho_PortRange_update (keep (ho_PortRange rule)),
      ho_ProcessName_update (keep (ho_ProcessName rule)),
      ho_ProcessPath_update (keep (ho_ProcessPath rule)),
      ho_ProcessPathRegex_update (keep (ho_ProcessPathRegex rule)),
      ho_PackageName_update (keep (ho_PackageName rule)),
      ho_PackageNameRegex_update (keep (ho_PackageNameRegex rule)),
      ho_NetworkType_update (keep (ho_NetworkType rule)),
      ho_NetworkIsExpensive_update (\<lambda>old. ho_NetworkIsExpensive rule \<or> old),
      ho_NetworkIsConstrained_update (\<lambda>old. ho_NetworkIsConstrained rule \<or> old),
      ho_NetworkInterfaceAddress_update (\<lambda>old.
        if ho_NetworkInterfaceAddress rule \<in> {None, Some []} then old else ho_NetworkInterfaceAddress rule),
      ho_DefaultInterfaceAddress_update (keep (ho_DefaultInterfaceAddress rule)),
      ho_WIFISSID_update (keep (ho_WIFISSID rule)),
      ho_WIFIBSSID_update (keep (ho_WIFIBSSID rule)),
      adguard_update L rcv (kept_adguard L rule)]"

lemma item_updates_stored:
  "fold (\<lambda>u. u) (item_updates L rcv gv rule) zero_headless = (stored_default L rcv gv rule)\<lparr>ho_Invert := False\<rparr>"
  by (rule headless_options.equality)
    (auto simp: item_updates_def stored_default_def zero_headless_def domain_update_def source_set_update_def set_update_def
      adguard_update_def kept_matcher_def kept_adguard_def recovered_def split: option.splits)

lemma read_item_sets:
  "read_item L rcv lst ruleItemSourceIPCIDR rule = assign (readIPSet L) (\<lambda>st. source_set_update L rcv (Some st)) rule"
  "read_item L rcv lst ruleItemIPCIDR rule = assign (readIPSet L) (\<lambda>st. set_update L rcv (Some st)) rule"
  by (cases rcv; simp add: read_item_def source_set_update_def [abs_def] set_update_def [abs_def])+

lemma update_same:
  "ho_QueryType_update (\<lambda>x. x) = (\<lambda>r. r)" "ho_Network_update (\<lambda>x. x) = (\<lambda>r. r)" "ho_DomainKeyword_update (\<lambda>x. x) = (\<lambda>r. r)"
  "ho_DomainRegex_update (\<lambda>x. x) = (\<lambda>r. r)" "ho_SourcePort_update (\<lambda>x. x) = (\<lambda>r. r)" "ho_SourcePortRange_update (\<lambda>x. x) = (\<lambda>r. r)"
  "ho_Port_update (\<lambda>x. x) = (\<lambda>r. r)" "ho_PortRange_update (\<lambda>x. x) = (\<lambda>r. r)" "ho_ProcessName_update (\<lambda>x. x) = (\<lambda>r. r)"
  "ho_ProcessPath_update (\<lambda>x. x) = (\<lambda>r. r)" "ho_ProcessPathRegex_update (\<lambda>x. x) = (\<lambda>r. r)" "ho_PackageName_update (\<lambda>x. x) = (\<lambda>r. r)"
  "ho_PackageNameRegex_update (\<lambda>x. x) = (\<lambda>r. r)" "ho_NetworkType_update (\<lambda>x. x) = (\<lambda>r. r)" "ho_WIFISSID_update (\<lambda>x. x) = (\<lambda>r. r)"
  "ho_WIFIBSSID_update (\<lambda>x. x) = (\<lambda>r. r)" "ho_DefaultInterfaceAddress_update (\<lambda>x. x) = (\<lambda>r. r)"
  "ho_NetworkIsExpensive_update (\<lambda>x. x) = (\<lambda>r. r)" "ho_NetworkIsConstrained_update (\<lambda>x. x) = (\<lambda>r. r)"
  "ho_NetworkInterfaceAddress_update (\<lambda>x. x) = (\<lambda>r. r)"
  by (rule ext; simp)+

lemma write_all_append: "write_all (rs @ ss) = res_bind (write_all rs) (\<lambda>b. res_bind (write_all ss) (\<lambda>c. Ok (b @ c)))"
  by (induction rs) (auto simp: res_bind_def split: res.splits)

lemma write_all_Ok: "write_all rs = Ok bs \<Longrightarrow> \<exists>bss. rs = map Ok bss \<and> bs = concat bss"
proof (induction rs arbitrary: bs)
  case (Cons r rs)
  then obtain b cs where "r = Ok b" "write_all rs = Ok cs" "bs = b @ cs" by (auto simp: res_bind_eq_Ok)
  with Cons.IH obtain bss where "r # rs = map Ok (b # bss)" "bs = concat (b # bss)" by auto
  then show ?case by (intro exI conjI)
qed simp

context srs_laws
begin

lemma chunk_strings:
  assumes "sized v" "tag \<noteq> ruleItemFinal" "upd (\<lambda>x. x) = (\<lambda>r. r)"
    and "\<And>lst rule. read_item L rcv lst tag rule = assign (readRuleItemString L) (\<lambda>v. upd (\<lambda>_. v)) rule"
  shows "chunk_ok L rcv (write_if (v \<noteq> []) (Ok (writeRuleItemString L tag v))) (upd (\<lambda>old. if v \<noteq> [] then v else old))"
  using assms read_write_strings [of v]
  by (intro chunk_if chunk_item [where tag = tag]) (auto simp: writeRuleItemString_def assign_def sized_def)

lemma chunk_uint16s:
  assumes "length v < 2 ^ 64" "tag \<noteq> ruleItemFinal" "upd (\<lambda>x. x) = (\<lambda>r. r)"
    and "\<And>lst rule. read_item L rcv lst tag rule = assign (vb_ReadUint16s (sl_varbin L)) (\<lambda>v. upd (\<lambda>_. v)) rule"
  shows "chunk_ok L rcv (write_if (v \<noteq> []) (Ok (writeRuleItemUint16 L tag v))) (upd (\<lambda>old. if v \<noteq> [] then v else old))"
  using assms read_write_uint16s [of v]
  by (intro chunk_if chunk_item [where tag = tag]) (auto simp: writeRuleItemUint16_def assign_def)

lemma chunk_cidr:
  assumes "plain_set L ss" "tag \<noteq> ruleItemFinal" "\<And>r. upd None r = r"
    and "\<And>lst rule. read_item L rcv lst tag rule = assign (readIPSet L) (\<lambda>st. upd (Some st)) rule"
  shows "chunk_ok L rcv (write_if (ss \<noteq> []) (writeRuleItemCIDR L tag ss)) (upd (kept_set L ss))"
proof (rule chunk_if)
  assume "ss \<noteq> []"
  show "chunk_ok L rcv (writeRuleItemCIDR L tag ss) (upd (kept_set L ss))"
  proof (cases "build_set L ss")
    case (Ok st)
    then have "kept_set L ss = Some st" "readIPSet L (writeIPSet L st @ rest) = Ok (st, rest)" for rest
      using \<open>ss \<noteq> []\<close> assms(1) by (simp_all add: kept_set_def plain_set_def read_write_set)
    then show ?thesis
      using assms(2,4) Ok by (intro chunk_item [where tag = tag]) (auto simp: writeRuleItemCIDR_def assign_def)
  qed (simp_all add: writeRuleItemCIDR_def chunk_ok_def)
qed (use assms(3) in \<open>auto simp: kept_set_def\<close>)

lemma chunks_updates:
  assumes "storable_default L rule"
  shows "list_all2 (chunk_ok L rcv) (item_chunks L gv rule) (item_updates L rcv gv rule)"
proof -
  have ok: "list_all sized [ho_Network rule, ho_DomainKeyword rule, ho_DomainRegex rule, ho_SourcePortRange rule, ho_PortRange rule,
        ho_ProcessName rule, ho_ProcessPath rule, ho_ProcessPathRegex rule, ho_PackageName rule, ho_PackageNameRegex rule,
        ho_WIFISSID rule, ho_WIFIBSSID rule, ho_Domain rule, ho_DomainSuffix rule, ho_AdGuardDomain rule]"
      "list_all (\<lambda>ws. length ws < 2 ^ 64) [ho_QueryType rule, ho_SourcePort rule, ho_Port rule]"
      "length (ho_NetworkType rule) < 2 ^ 64" "[] \<notin> set (ho_Domain rule) \<union> set (ho_DomainSuffix rule)"
      "plain_set L (ho_SourceIPCIDR rule)" "plain_set L (ho_IPCIDR rule)" "plain_prefixes (ho_DefaultInterfaceAddress rule)"
      "\<And>m. ho_NetworkInterfaceAddress rule = Some m \<Longrightarrow> gm_wf m \<and> length m < 2 ^ 64 \<and> list_all (\<lambda>(k, ps). plain_prefixes ps) m"
    using assms unfolding storable_default_def by (auto split: option.splits)
  have domain: "chunk_ok L rcv (write_if (has_domain rule) (Ok (ruleItemDomain # sl_WriteMatcher L (new_matcher L gv rule))))
      (domain_update L rcv (kept_matcher L gv rule))"
    by (intro chunk_if chunk_item [where tag = 2])
      (use ok(1,4) ReadMatcher in \<open>auto simp: kept_matcher_def domain_update_def read_item_def assign_def new_matcher_def\<close>)
  have regex: "chunk_ok L rcv (write_if (ho_PackageNameRegex rule \<noteq> [])
      (since 5 gv name (writeRuleItemString L ruleItemPackageNameRegex (ho_PackageNameRegex rule))))
      (ho_PackageNameRegex_update (keep (ho_PackageNameRegex rule)))" for name
    using chunk_strings [of "ho_PackageNameRegex rule" 23 ho_PackageNameRegex_update rcv] ok(1)
    by (intro chunk_if chunk_since) (auto simp: update_same read_item_def write_if_def)
  have types: "chunk_ok L rcv (write_if (ho_NetworkType rule \<noteq> [])
      (since 3 gv name (writeRuleItemUint8 L ruleItemNetworkType (ho_NetworkType rule)))) (ho_NetworkType_update (keep (ho_NetworkType rule)))" for name
    by (intro chunk_if chunk_since chunk_item [where tag = 18])
      (use ok(3) in \<open>auto simp: update_same read_item_def assign_def writeRuleItemUint8_def read_write_uint8s\<close>)
  have expensive: "chunk_ok L rcv (write_if (ho_NetworkIsExpensive rule) (since 3 gv name [ruleItemNetworkIsExpensive]))
      (ho_NetworkIsExpensive_update (\<lambda>old. ho_NetworkIsExpensive rule \<or> old))" for name
    by (intro chunk_if chunk_since chunk_item [where tag = 19]) (auto simp: update_same read_item_def)
  have constr: "chunk_ok L rcv (write_if (ho_NetworkIsConstrained rule) (since 3 gv name [ruleItemNetworkIsConstrained]))
      (ho_NetworkIsConstrained_update (\<lambda>old. ho_NetworkIsConstrained rule \<or> old))" for name
    by (intro chunk_if chunk_since chunk_item [where tag = 20]) (auto simp: update_same read_item_def)
  have imap: "chunk_ok L rcv (case ho_NetworkInterfaceAddress rule of None \<Rightarrow> Ok []
        | Some m \<Rightarrow> write_if (m \<noteq> []) (since 4 gv name (ruleItemNetworkInterfaceAddress # write_interface_map L m)))
      (ho_NetworkInterfaceAddress_update (\<lambda>old.
        if ho_NetworkInterfaceAddress rule \<in> {None, Some []} then old else ho_NetworkInterfaceAddress rule))" for name
  proof (cases "ho_NetworkInterfaceAddress rule")
    case (Some m)
    with ok(8) have "read_interface_map L (write_interface_map L m @ rest) = Ok (m, rest)" for rest
      by (intro read_write_map) (auto simp: plain_prefixes_def)
    with Some show ?thesis
      by (auto intro!: chunk_if chunk_since chunk_item [where tag = 21] simp: update_same read_item_def assign_def)
  qed (simp add: chunk_none update_same)
  have dflt: "chunk_ok L rcv (write_if (ho_DefaultInterfaceAddress rule \<noteq> [])
      (since 4 gv name (ruleItemDefaultInterfaceAddress # write_prefixes L (ho_DefaultInterfaceAddress rule))))
      (ho_DefaultInterfaceAddress_update (keep (ho_DefaultInterfaceAddress rule)))" for name
    by (intro chunk_if chunk_since chunk_item [where tag = 22])
      (use ok(7) in \<open>auto simp: update_same read_item_def assign_def plain_prefixes_def read_write_prefixes\<close>)
  have adguard: "chunk_ok L rcv (write_if (ho_AdGuardDomain rule \<noteq> []) (since 2 gv name
        (ruleItemAdGuardDomain # sl_WriteAdGuardMatcher L (sl_NewAdGuardMatcher L (ho_AdGuardDomain rule)))))
      (adguard_update L rcv (kept_adguard L rule))" for name
    by (intro chunk_if chunk_since chunk_item [where tag = 16])
      (use ok(1) in \<open>auto simp: kept_adguard_def adguard_update_def read_item_def assign_def ReadAdGuardMatcher\<close>)
  show ?thesis
    unfolding item_chunks_def item_updates_def Let_def
    by (intro list.rel_intros
      chunk_strings [where upd = ho_Network_update] chunk_strings [where upd = ho_DomainKeyword_update]
      chunk_strings [where upd = ho_DomainRegex_update] chunk_strings [where upd = ho_SourcePortRange_update]
      chunk_strings [where upd = ho_PortRange_update] chunk_strings [where upd = ho_ProcessName_update]
      chunk_strings [where upd = ho_ProcessPath_update] chunk_strings [where upd = ho_ProcessPathRegex_update]
      chunk_strings [where upd = ho_PackageName_update] chunk_strings [where upd = ho_WIFISSID_update]
      chunk_strings [where upd = ho_WIFIBSSID_update] chunk_uint16s [where upd = ho_QueryType_update]
      chunk_uint16s [where upd = ho_SourcePort_update] chunk_uint16s [where upd = ho_Port_update]
      chunk_cidr [where upd = "source_set_update L rcv"] chunk_cidr [where upd = "set_update L rcv"] domain regex types
      expensive constr imap dflt adguard)
      (use ok in \<open>simp_all add: update_same read_item_sets, simp_all add: read_item_def source_set_update_def set_update_def\<close>)
qed

lemma read_default:
  assumes "storable_default L rule" "writeDefaultRule L gv rule = Ok bs"
  shows "\<exists>cs. bs = 0 # cs \<and> (\<forall>rest. readDefaultRule L rcv (cs @ rest) = Ok (stored_default L rcv gv rule, rest))"
proof -
  from assms(2) obtain cs where cs: "write_all (item_chunks L gv rule) = Ok cs"
      "bs = 0 # cs @ [ruleItemFinal] @ PutBool (ho_Invert rule)"
    by (auto simp: writeDefaultRule_def write_all_append res_bind_eq_Ok)
  obtain n where n: "n \<le> length cs" "steps L rcv n cs (fold (\<lambda>u. u) (item_updates L rcv gv rule))"
    using chunks_ok [OF chunks_updates [OF assms(1)] cs(1)] by blast
  have "readDefaultRule L rcv ((cs @ [ruleItemFinal] @ PutBool (ho_Invert rule)) @ rest) = Ok (stored_default L rcv gv rule, rest)" for rest
  proof -
    let ?tl = "ruleItemFinal # PutBool (ho_Invert rule) @ rest"
    obtain k where k: "Suc (length (cs @ ?tl)) = n + Suc k"
      using n(1) le_Suc_ex by (metis add_Suc_right length_append trans_le_add1)
    obtain l where "item_loop L rcv (n + Suc k) 0 zero_headless (cs @ ?tl) =
        item_loop L rcv (Suc k) l ((stored_default L rcv gv rule)\<lparr>ho_Invert := False\<rparr>) ?tl"
      using n(2) unfolding steps_def item_updates_stored [symmetric] by blast
    then show ?thesis using k
      by (simp add: readDefaultRule_def ReadBool_Put assign_def stored_default_def del: item_loop.simps(2))
        (simp add: ReadBool_Put assign_def)
  qed
  with cs(2) show ?thesis by auto
qed

end


section \<open>Round trip of rule sets\<close>

text \<open>The levels of logical rules above the deepest default rule.\<close>

primrec nesting :: "('m, 'g) headless_rule \<Rightarrow> nat" where
  "nesting (HeadlessRule t d mode rules neg) = (if t = ''logical'' then foldr (\<lambda>n. max (Suc n)) (map nesting rules) 0 else 0)"

primrec storable :: "('m, 'g) srs_lib \<Rightarrow> ('m, 'g) headless_rule \<Rightarrow> bool" where
  "storable L (HeadlessRule t d mode rules neg) =
     (if t = ''logical'' then length rules < 2 ^ 64 \<and> list_all id (map (storable L) rules) else storable_default L d)"

primrec stored :: "('m, 'g) srs_lib \<Rightarrow> bool \<Rightarrow> byte \<Rightarrow> ('m, 'g) headless_rule \<Rightarrow> ('m, 'g) headless_rule" where
  "stored L rcv gv (HeadlessRule t d mode rules neg) =
     (if t = ''logical'' then logical_rule mode (map (stored L rcv gv) rules) neg
      else default_rule (stored_default L rcv gv d))"

lemma nesting_less: "foldr (\<lambda>n. max (Suc n)) (map nesting rules) 0 \<le> k \<longleftrightarrow> list_all (\<lambda>r. nesting r < k) rules"
  by (induction rules) auto

context srs_laws
begin

lemma read_rules:
  assumes "write_all (map (writeRule L gv) rules) = Ok bs"
    and "\<And>x b rest. x \<in> set rules \<Longrightarrow> writeRule L gv x = Ok b \<Longrightarrow>
      d (b @ rest) = (if P x then Ok (stored L rcv gv x, rest) else Err NestedTooDeep)"
  shows "repeat (length rules) d (bs @ rest) = (if list_all P rules then Ok (map (stored L rcv gv) rules, rest) else Err NestedTooDeep)"
proof -
  obtain bss where bss: "map (writeRule L gv) rules = map Ok bss" "bs = concat bss" using write_all_Ok [OF assms(1)] by blast
  have len: "length bss = length rules" using bss(1) map_eq_imp_length_eq by fastforce
  have "writeRule L gv (rules ! i) = Ok (bss ! i)" if "i < length rules" for i
    using bss(1) len that by (metis nth_map)
  then show ?thesis unfolding bss(2) by (intro repeat_or_fail) (use assms(2) len in auto)
qed

lemma read_rule:
  "storable L x \<Longrightarrow> writeRule L gv x = Ok bs \<Longrightarrow>
     readRule L rcv levels (bs @ rest) = (if nesting x < levels then Ok (stored L rcv gv x, rest) else Err NestedTooDeep)"
proof (induction x arbitrary: bs levels rest)
  case (HeadlessRule t d mode rules neg)
  show ?case
  proof (cases levels)
    case (Suc k)
    consider "t = ''default''" | "t = ''logical''" using HeadlessRule.prems(2) by (auto split: if_splits)
    then show ?thesis
    proof cases
      case 1
      with HeadlessRule.prems obtain cs where "bs = 0 # cs" "\<And>rest. readDefaultRule L rcv (cs @ rest) = Ok (stored_default L rcv gv d, rest)"
        using read_default [of d gv bs rcv] by auto
      then show ?thesis by (simp add: Suc 1)
    next
      case 2
      with HeadlessRule.prems obtain b cs where cs: "write_all (map (writeRule L gv) rules) = Ok cs"
          "bs = 1 # b # vb_WriteUvarint (sl_varbin L) (length rules) @ cs @ PutBool neg" "mode = ''and'' \<and> b = 0 \<or> mode = ''or'' \<and> b = 1"
        by (auto simp: writeLogicalRule_def res_bind_eq_Ok split: if_splits)
      have "repeat (length rules) (readRule L rcv k) (cs @ PutBool neg @ rest) =
          (if list_all (\<lambda>r. nesting r < k) rules then Ok (map (stored L rcv gv) rules, PutBool neg @ rest) else Err NestedTooDeep)"
        by (rule read_rules [OF cs(1)], rule HeadlessRule.IH)
          (use HeadlessRule.prems(1) 2 in \<open>auto simp: list_all_iff\<close>)
      then show ?thesis
        using HeadlessRule.prems(1) cs(2,3) 2
        by (auto simp: Suc readLogicalRule_def read_count ReadBool_Put nesting_less less_Suc_eq_le)
    qed
  qed simp
qed

lemma read_written:
  assumes "Write L rules gv = Ok bs" "list_all (storable L) rules" "length rules < 2 ^ 64" "gv \<le> RuleSetVersionCurrent"
  shows "Read L rcv bs = (if list_all (\<lambda>r. nesting r \<le> maxLogicalRuleDepth) rules
    then Ok (gv, map (stored L rcv gv) rules) else Err NestedTooDeep)"
proof -
  from assms(1) obtain cs where cs: "write_all (map (writeRule L gv) rules) = Ok cs"
      "bs = MagicBytes @ gv # sl_compress L (vb_WriteUvarint (sl_varbin L) (length rules) @ cs)"
    by (auto simp: Write_def res_bind_eq_Ok)
  have "repeat (length rules) (readRule L rcv (Suc maxLogicalRuleDepth)) (cs @ []) =
      (if list_all (\<lambda>r. nesting r < Suc maxLogicalRuleDepth) rules then Ok (map (stored L rcv gv) rules, []) else Err NestedTooDeep)"
    by (rule read_rules [OF cs(1)], rule read_rule) (use assms(2) in \<open>auto simp: list_all_iff\<close>)
  moreover have "ReadFull 3 bs = Ok (MagicBytes, gv # sl_compress L (vb_WriteUvarint (sl_varbin L) (length rules) @ cs))"
    unfolding cs(2) by (rule ReadFull_append) (simp add: MagicBytes_def)
  ultimately show ?thesis
    using assms(3,4) read_count [of "length rules" cs]
    by (auto simp: Read_def decompress less_Suc_eq_le not_less simp del: readRule.simps)
qed

end


section \<open>The same rules\<close>

text \<open>The context that builds the rules uses the same libraries as the writer.\<close>

definition same_lib :: "('m, 'g) headless_lib \<Rightarrow> ('m, 'g) srs_lib \<Rightarrow> bool" where
  "same_lib H L \<longleftrightarrow> hl_items H = sl_items L \<and>
     (\<forall>d s. hl_Match H (sl_NewMatcher L d s False) = il_NewMatcher (hl_items H) d s False) \<and>
     (\<forall>ls. hl_AdGuardMatch H (sl_NewAdGuardMatcher L ls) = il_NewAdGuardMatcher (hl_items H) ls)"

text \<open>A rule as the configuration gives it: the compiled fields are not set, and no slice and no map of addresses is empty
  without being nil.\<close>

definition source_default :: "('m, 'g) headless_options \<Rightarrow> bool" where
  "source_default rule = (ho_DomainMatcher rule = None \<and> ho_SourceIPSet rule = None \<and> ho_IPSet rule = None \<and>
     ho_AdGuardDomainMatcher rule = None \<and> ho_NetworkInterfaceAddress rule \<noteq> Some [] \<and> \<not> ho_EmptySlices rule)"

primrec source_rule :: "('m, 'g) headless_rule \<Rightarrow> bool" where
  "source_rule (HeadlessRule t d mode rules neg) = (source_default d \<and> list_all id (map source_rule rules))"

lemma kept_set_item:
  assumes "hl_items H = sl_items L" "NewIPCIDRItem (hl_items H) src ss = Ok it" "ss \<noteq> []"
  shows "\<exists>st. kept_set L ss = Some st \<and> it = NewRawIPCIDRItem (hl_items H) src st"
  using assms
  by (auto simp: NewIPCIDRItem_def kept_set_def build_set_def NewRawIPCIDRItem_def split: res.splits option.splits)

lemma cidr_kept:
  assumes "hl_items H = sl_items L" "opt_item (ss \<noteq> []) (NewIPCIDRItem (hl_items H) src ss) = Ok its"
  shows "its = (case kept_set L ss of Some st \<Rightarrow> [NewRawIPCIDRItem (hl_items H) src st] | None \<Rightarrow> [])"
proof (cases "ss = []")
  case False
  with assms(2) obtain it where "NewIPCIDRItem (hl_items H) src ss = Ok it" "its = [it]"
    by (auto simp: opt_item_def res_bind_eq_Ok)
  with kept_set_item [OF assms(1) _ False] show ?thesis by fastforce
qed (use assms(2) in \<open>simp add: opt_item_def kept_set_def\<close>)

lemma kept_set_None:
  assumes "hl_items H = sl_items L" "opt_item (ss \<noteq> []) (NewIPCIDRItem (hl_items H) src ss) = Ok its" "kept_set L ss = None"
  shows "ss = []"
  using cidr_kept [OF assms(1,2)] assms(2,3) opt_item_empty by fastforce

lemma default_same:
  assumes "same_lib H L" "source_default rule" "gv \<noteq> 1" "NewDefaultHeadlessRule H rule = Ok r"
  shows "NewDefaultHeadlessRule H (stored_default L False gv rule) = Ok r"
    and "default_IsValid rule \<Longrightarrow> default_IsValid (stored_default L False gv rule)"
proof -
  let ?s = "stored_default L False gv rule"
  have lib: "hl_items H = sl_items L" using assms(1) by (simp add: same_lib_def)
  obtain d dr sc ci sp pr pp pn where parts: "headless_parts H rule d dr sc ci sp pr pp pn"
    and r: "r = DefaultRule HeadlessKind (headless_items H rule d dr sc ci sp pr pp pn) None (ho_Invert rule)"
    using assms(4) by (auto simp: NewDefaultHeadlessRule_Ok)
  note ok = headless_partsD [OF parts]
  have parts': "headless_parts H ?s [] dr [] [] sp pr pp pn"
    using ok by (simp add: headless_parts_def stored_default_def recovered_def opt_item_def split: option.splits)
  have d: "d = (if has_domain rule then [DomainItem (hl_Match H (new_matcher L gv rule))] else [])"
    using ok(1) assms(1,3) by (auto simp: opt_item_def NewDomainItem_def new_matcher_def same_lib_def res_bind_eq_Ok split: if_splits)
  have cleared: "ho_Domain ?s = []" "ho_DomainSuffix ?s = []" "ho_AdGuardDomain ?s = []" "ho_SourceIPCIDR ?s = []" "ho_IPCIDR ?s = []"
    by (simp_all add: stored_default_def recovered_def split: option.splits)
  have kept: "ho_QueryType ?s = ho_QueryType rule" "ho_Network ?s = ho_Network rule" "ho_ProcessName ?s = ho_ProcessName rule"
    "ho_ProcessPath ?s = ho_ProcessPath rule" "ho_PackageName ?s = ho_PackageName rule" "ho_SourcePort ?s = ho_SourcePort rule"
    "ho_DomainKeyword ?s = ho_DomainKeyword rule" "ho_Port ?s = ho_Port rule" "network_items H ?s = network_items H rule"
    using assms(2) by (simp_all add: stored_default_def network_items_def source_default_def)
  have compiled: "ho_DomainMatcher ?s = (if has_domain rule then Some (new_matcher L gv rule) else None)"
    "ho_AdGuardDomainMatcher ?s = (if ho_AdGuardDomain rule \<noteq> [] then Some (sl_NewAdGuardMatcher L (ho_AdGuardDomain rule)) else None)"
    "ho_SourceIPSet ?s = kept_set L (ho_SourceIPCIDR rule)" "ho_IPSet ?s = kept_set L (ho_IPCIDR rule)"
    by (simp_all add: stored_default_def)
  have adguard: "hl_AdGuardMatch H (sl_NewAdGuardMatcher L ls) = il_NewAdGuardMatcher (hl_items H) ls" for ls
    using assms(1) by (simp add: same_lib_def)
  have unset: "ho_DomainMatcher rule = None" "ho_SourceIPSet rule = None" "ho_IPSet rule = None" "ho_AdGuardDomainMatcher rule = None"
    using assms(2) by (simp_all add: source_default_def)
  have "headless_items H ?s [] dr [] [] sp pr pp pn = headless_items H rule d dr sc ci sp pr pp pn"
    unfolding headless_items_def cleared kept compiled unset d cidr_kept [OF lib ok(3)] cidr_kept [OF lib ok(4)] Let_def
    by (cases "kept_set L (ho_SourceIPCIDR rule)"; cases "kept_set L (ho_IPCIDR rule)"; cases "has_domain rule"; cases "ho_AdGuardDomain rule")
      (simp_all add: adguard split del: if_split)
  moreover have "ho_Invert ?s = ho_Invert rule" by (simp add: stored_default_def)
  ultimately show "NewDefaultHeadlessRule H ?s = Ok r"
    unfolding NewDefaultHeadlessRule_Ok r by (metis parts')
  assume valid: "default_IsValid rule"
  show "default_IsValid ?s"
  proof (rule ccontr)
    assume "\<not> default_IsValid ?s"
    then have eq: "?s = zero_headless\<lparr>ho_Invert := ho_Invert rule\<rparr>" by (simp add: default_IsValid_def stored_default_def)
    have "ho_DomainMatcher ?s = None" "ho_AdGuardDomainMatcher ?s = None" "ho_SourceIPSet ?s = None" "ho_IPSet ?s = None"
      by (simp_all add: eq zero_headless_def)
    then have none: "ho_Domain rule = []" "ho_DomainSuffix rule = []" "ho_AdGuardDomain rule = []"
        "ho_SourceIPCIDR rule = []" "ho_IPCIDR rule = []"
      using kept_set_None [OF lib ok(3)] kept_set_None [OF lib ok(4)] by (auto simp: stored_default_def split: if_splits)
    have "rule = ?s"
      using assms(2) none by (intro headless_options.equality) (simp_all add: stored_default_def source_default_def kept_set_def recovered_def)
    with eq valid show False by (simp add: default_IsValid_def)
  qed
qed

lemma sub_rules_map:
  "sub_rules i (map f xs) = Ok rs \<longleftrightarrow> list_all2 (\<lambda>x r. f x = Ok r) xs rs"
  by (induction xs arbitrary: i rs) (auto simp: res_bind_eq_Ok list_all2_Cons1 split: res.splits)

lemma all_valid_map: "all_valid (map f xs) = Some True \<longleftrightarrow> (\<forall>x \<in> set xs. f x = Some True)"
  by (induction xs) (auto split: option.splits bool.splits)

lemma rule_same:
  assumes "same_lib H L" "gv \<noteq> 1"
  shows "source_rule x \<Longrightarrow> NewHeadlessRule H x = Ok r \<Longrightarrow>
    headless_IsValid x = Some True \<and> headless_IsValid (stored L False gv x) = Some True \<and>
    NewHeadlessRule H (stored L False gv x) = Ok r"
proof (induction x arbitrary: r)
  case (HeadlessRule t d mode rules neg)
  show ?case
  proof (cases "t = ''logical''")
    case False
    with HeadlessRule.prems have t: "t = [] \<or> t = ''default''" "default_IsValid d" "NewDefaultHeadlessRule H d = Ok r" "source_default d"
      by (auto split: if_splits)
    with default_same [OF assms(1) t(4) assms(2) t(3)] False show ?thesis by (auto simp: default_rule_def)
  next
    case True
    from HeadlessRule.prems True obtain m rs where rs: "rules \<noteq> []" "all_valid (map headless_IsValid rules) = Some True"
        "logical_mode_of mode = Some m" "sub_rules 0 (map (NewHeadlessRule H) rules) = Ok rs" "r = LogicalRule rs m neg"
      by (auto simp: res_bind_eq_Ok split: if_splits option.splits bool.splits)
    have sub: "list_all2 (\<lambda>x r. NewHeadlessRule H x = Ok r) rules rs" using rs(4) by (simp add: sub_rules_map)
    have IH: "headless_IsValid (stored L False gv x) = Some True \<and> NewHeadlessRule H (stored L False gv x) = Ok r'"
      if "x \<in> set rules" "NewHeadlessRule H x = Ok r'" for x r'
      using HeadlessRule.IH [OF that(1) _ that(2)] HeadlessRule.prems(1) that(1) by (auto simp: list_all_iff)
    have "list_all2 (\<lambda>x r. NewHeadlessRule H (stored L False gv x) = Ok r) rules rs"
      using sub IH by (auto intro: list.rel_mono_strong)
    then have "sub_rules 0 (map (NewHeadlessRule H) (map (stored L False gv) rules)) = Ok rs"
      by (simp add: sub_rules_map list.rel_map)
    moreover have "headless_IsValid (stored L False gv x) = Some True" if "x \<in> set rules" for x
    proof -
      obtain i where i: "i < length rules" "x = rules ! i" using \<open>x \<in> set rules\<close> by (auto simp: in_set_conv_nth)
      show ?thesis using IH [OF that, of "rs ! i"] list_all2_nthD [OF sub i(1)] i(2) by simp
    qed
    then have "all_valid (map headless_IsValid (map (stored L False gv) rules)) = Some True"
      by (simp add: all_valid_map)
    ultimately show ?thesis using True rs by (simp add: logical_rule_def del: map_map)
  qed
qed


section \<open>An implementation of the libraries\<close>

text \<open>The parameters can be met: matchers kept as their lists, and a compression that stores.\<close>

definition plain_write :: "string list \<Rightarrow> byte list" where
  "plain_write ss = PutUvarint (length ss) @ concat (map (\<lambda>s. PutUvarint (length s) @ bytes_of s) ss)"

definition plain_read :: "string list decoder" where
  "plain_read bs = res_bind (ReadUvarint bs) (\<lambda>(n, bs1).
     res_bind (repeat n (vb_ReadBytes std_varbin) bs1) (\<lambda>(vs, bs2). Ok (map string_of vs, bs2)))"

type_synonym plain_matcher = "string list \<times> string list \<times> bool"

definition plain_lib :: "(plain_matcher, string list) srs_lib" where
  "plain_lib = \<lparr>sl_items = example_item_lib, sl_varbin = std_varbin,
     sl_NewMatcher = (\<lambda>d s l. (d, s, l)),
     sl_WriteMatcher = (\<lambda>(d, s, l). plain_write d @ plain_write s @ PutBool l),
     sl_ReadMatcher = (\<lambda>bs. res_bind (plain_read bs) (\<lambda>(d, bs1). res_bind (plain_read bs1) (\<lambda>(s, bs2).
       res_bind (ReadBool bs2) (\<lambda>(l, bs3). Ok ((d, s, l), bs3))))),
     sl_Dump = (\<lambda>(d, s, l). (d, s)),
     sl_NewAdGuardMatcher = (\<lambda>ls. ls), sl_WriteAdGuardMatcher = plain_write, sl_ReadAdGuardMatcher = plain_read,
     sl_DumpAdGuard = (\<lambda>ls. ls), sl_Prefixes = (\<lambda>st. map (\<lambda>_. ''127.0.0.1/32'') st),
     sl_AddrFromIP = (\<lambda>bs. if length bs = 4 then IPv4 (word_of_nat (be_value bs)) else IPv6 (word_of_nat (be_value bs)) []),
     sl_compress = (\<lambda>bs. bs), sl_decompress = Ok\<rparr>"

lemma plain_read_write:
  assumes "sized ss"
  shows "plain_read (plain_write ss @ rest) = Ok (ss, rest)"
proof -
  have "repeat (length ss) (vb_ReadBytes std_varbin) (concat (map (\<lambda>s. PutUvarint (length s) @ bytes_of s) ss) @ rest) = Ok (map bytes_of ss, rest)"
    using assms unfolding sized_def
  proof (induction ss)
    case (Cons s ss)
    have "vb_ReadBytes std_varbin (PutUvarint (length s) @ bytes_of s @ x) = Ok (bytes_of s, x)" for x
      using std.ReadBytes [of "bytes_of s" x] Cons.prems by simp
    with Cons show ?case by simp
  qed simp
  then show ?thesis using assms by (simp add: plain_read_def plain_write_def ReadUvarint_Put sized_def comp_def)
qed

lemma reader_std: "reader (vb_ReadBytes std_varbin)" "reader (vb_ReadUint16s std_varbin)"
  unfolding std_varbin_def by (simp_all, intro reader_intros, intro reader_intros)

lemma reader_plain: "reader plain_read"
  unfolding plain_read_def by (intro reader_intros reader_std)

lemma plain_addr_bytes:
  assumes "plain_addr a"
  shows "sl_AddrFromIP plain_lib (addr_AsSlice a) = a"
proof (cases a)
  case (IPv4 w)
  moreover have "unat w < 256 ^ 4" using unsigned_less [of w] by simp
  ultimately show ?thesis by (simp add: plain_lib_def addr_AsSlice_def be_value_bytes)
next
  case (IPv6 w z)
  moreover have "unat w < 256 ^ 16" using unsigned_less [of w] by simp
  ultimately show ?thesis using assms by (simp add: plain_lib_def addr_AsSlice_def be_value_bytes plain_addr_def addr_zone_def)
qed (use assms in \<open>simp add: plain_addr_def\<close>)

interpretation plain: srs_laws plain_lib
proof unfold_locales
  show "reader (sl_ReadMatcher plain_lib)"
    unfolding plain_lib_def srs_lib.simps by (intro reader_intros reader_plain)
qed (simp_all add: plain_lib_def reader_std reader_plain plain_read_write ReadBool_Put plain_addr_bytes [unfolded plain_lib_def, simplified]
    std.WriteUvarint std.ReadBytes std.ReadUint16s)


section \<open>Properties\<close>

definition example_rules :: "(plain_matcher, string list) headless_rule list" where
  "example_rules = [logical_rule ''or''
     [default_rule (zero_headless\<lparr>ho_DomainSuffix := [''example.org''], ho_Port := [443], ho_Invert := True\<rparr>),
      default_rule (zero_headless\<lparr>ho_IPCIDR := [''127.0.0.1''], ho_NetworkIsExpensive := True\<rparr>)] False]"

lemmas example_rule_simps = example_rules_def logical_rule_def default_rule_def zero_headless_def

lemma build_example:
  "build_set plain_lib [s] = Ok [\<lparr>ir_from = IPv4 0x7F000001, ir_to = IPv4 0x7F000001\<rparr>]" "build_set plain_lib [] = Ok []"
  by (simp_all add: build_set_def plain_lib_def example_item_lib_def)

lemma example_storable: "list_all (storable plain_lib) example_rules"
  by (simp add: example_rule_simps storable_default_def sized_def plain_set_def build_example plain_range_def plain_addr_def
      addr_zone_def addr_Unmap_def plain_prefixes_def)

lemma example_written: "\<exists>bs. Write plain_lib example_rules 3 = Ok bs"
  by (simp add: Write_def example_rule_simps writeLogicalRule_def writeDefaultRule_def item_chunks_def write_if_def since_def
      writeRuleItemCIDR_def build_example)

text \<open>C12. A rule set survives its binary form. What \<open>Write\<close> produced for a known version, \<open>Read\<close> gives back with that
  version: every rule with the same conditions, its domains and address lists as the matcher and the set made of them
  (and, for decompiling, the lists dumped from these), at every nesting depth up to \<open>maxLogicalRuleDepth\<close>. A set with a
  deeper rule is refused, although \<open>Write\<close> accepts it.\<close>

theorem srs_roundtrip:
  assumes "srs_laws L" and "Write L rules gv = Ok bs" and "list_all (storable L) rules" and "length rules < 2 ^ 64"
    and "gv \<le> RuleSetVersionCurrent"
  shows "Read L rcv bs = (if list_all (\<lambda>r. nesting r \<le> maxLogicalRuleDepth) rules
    then Ok (gv, map (stored L rcv gv) rules) else Err NestedTooDeep)"
  by (rule srs_laws.read_written [OF assms])

text \<open>Witness of C12.\<close>

theorem srs_roundtrip_witness:
  "\<exists>bs. Write plain_lib example_rules 3 = Ok bs \<and> Read plain_lib True bs = Ok (3, map (stored plain_lib True 3) example_rules)"
proof -
  obtain bs where bs: "Write plain_lib example_rules 3 = Ok bs" using example_written by blast
  have len: "length example_rules < 2 ^ 64" "(3 :: byte) \<le> 5" by (simp_all add: example_rules_def)
  have "list_all (\<lambda>r. nesting r \<le> maxLogicalRuleDepth) example_rules"
    by (simp add: example_rule_simps maxLogicalRuleDepth_def)
  then show ?thesis using bs srs_roundtrip [OF plain.srs_laws_axioms bs example_storable len, of True] by auto
qed

text \<open>Reading is total. Whatever the bytes are, \<open>Read\<close> returns a rule set or an error and never panics, and the loop
  over the items of a rule ends within one round per byte: more rounds change nothing.\<close>

theorem srs_read_total:
  assumes "srs_readers L"
  shows "Read L rcv bs \<noteq> Panic \<and>
    (length bs < fuel \<longrightarrow> item_loop L rcv fuel 0 zero_headless bs = readDefaultRule L rcv bs \<and> readDefaultRule L rcv bs \<noteq> Panic)"
proof -
  have "item_loop L rcv fuel 0 zero_headless bs = readDefaultRule L rcv bs" if "length bs < fuel"
  proof -
    obtain k where "fuel = Suc (length bs) + k" using \<open>length bs < fuel\<close> by (auto simp: less_iff_Suc_add)
    then show ?thesis
      using srs_readers.item_loop_fuel [OF assms, of bs "Suc (length bs)" rcv k] by (simp add: readDefaultRule_def del: item_loop.simps)
  qed
  then show ?thesis
    using srs_readers.Read_no_panic [OF assms] reader_no_panic [OF srs_readers.reader_default [OF assms]] by blast
qed

text \<open>An instance: a file that ends after the version.\<close>

theorem srs_read_total_witness: "Read plain_lib False [0x53, 0x52, 0x53, 5] = Err EOF \<and> Read plain_lib False [0x53, 0x52, 0x53, 5] \<noteq> Panic"
  using srs_read_total [OF plain.srs_readers_axioms, of False "[0x53, 0x52, 0x53, 5]"]
  by (simp add: Read_def ReadFull_def MagicBytes_def plain_lib_def ReadUvarint_def MaxVarintLen64_def)

text \<open>C14. A binary rule set decides as its source. The rules built from what was read are the rules built from the
  source, one by one and equal in every item, so every connection is matched alike. The conditions: the libraries are those of the
  writer, the version is known and not 1 (whose matchers read domain suffixes differently), no rule is nested deeper than
  \<open>maxLogicalRuleDepth\<close>, and the source has no compiled field and no slice or address map that is empty without being nil. With
  such an empty slice it fails: see \<open>empty_slice_lost\<close>.\<close>

theorem srs_same_rules:
  assumes "srs_laws L" and "Write L rules gv = Ok bs" and "list_all (storable L) rules" and "length rules < 2 ^ 64"
    and "gv \<le> RuleSetVersionCurrent" and "gv \<noteq> 1" and "list_all (\<lambda>r. nesting r \<le> maxLogicalRuleDepth) rules"
    and "same_lib H L" and "list_all source_rule rules" and "list_all2 (\<lambda>x r. NewHeadlessRule H x = Ok r) rules built"
  shows "\<exists>rules'. Read L False bs = Ok (gv, rules') \<and> list_all2 (\<lambda>x r. NewHeadlessRule H x = Ok r) rules' built"
proof -
  have "list_all2 (\<lambda>x r. NewHeadlessRule H (stored L False gv x) = Ok r) rules built"
    using assms(9,10) rule_same [OF assms(8,6)] by (auto intro: list.rel_mono_strong simp: list_all_iff)
  then show ?thesis
    using srs_laws.read_written [OF assms(1-5), of False] assms(7) by (simp add: list.rel_map)
qed

text \<open>A source rule \<open>{"domain": []}\<close> is built (and matches everything), its binary form is the zero rule, which is refused.\<close>

lemma empty_slice_lost:
  "\<exists>r. NewHeadlessRule H (default_rule (zero_headless\<lparr>ho_EmptySlices := True\<rparr>)) = Ok r"
  "NewHeadlessRule H (stored L False gv (default_rule (zero_headless\<lparr>ho_EmptySlices := True\<rparr>))) = Err MissingConditions"
  using empty_slice_matches_all [of H False] by (auto simp: zero_headless_def)
    (simp add: default_rule_def stored_default_def default_IsValid_def zero_headless_def kept_set_def recovered_def)

definition plain_headless_lib :: "(plain_matcher, string list) headless_lib" where
  "plain_headless_lib = \<lparr>hl_items = example_item_lib, hl_Match = (\<lambda>(d, s, l). il_NewMatcher example_item_lib d s l),
     hl_AdGuardMatch = il_NewAdGuardMatcher example_item_lib, hl_networkManager = True\<rparr>"

text \<open>Witness of C14.\<close>

theorem srs_same_rules_witness:
  "\<exists>bs rules' built. Write plain_lib example_rules 3 = Ok bs \<and> Read plain_lib False bs = Ok (3, rules') \<and>
     list_all2 (\<lambda>x r. NewHeadlessRule plain_headless_lib x = Ok r) rules' built \<and> length built = 1"
proof -
  obtain bs where bs: "Write plain_lib example_rules 3 = Ok bs" using example_written by blast
  have len: "length example_rules < 2 ^ 64" "(3 :: byte) \<le> 5" "(3 :: byte) \<noteq> 1" by (simp_all add: example_rules_def)
  have deep: "list_all (\<lambda>r. nesting r \<le> maxLogicalRuleDepth) example_rules"
    by (simp add: example_rule_simps maxLogicalRuleDepth_def)
  have lib: "same_lib plain_headless_lib plain_lib" by (simp add: same_lib_def plain_headless_lib_def plain_lib_def)
  have src: "list_all source_rule example_rules" by (simp add: example_rule_simps source_default_def)
  obtain r where r: "list_all2 (\<lambda>x r. NewHeadlessRule plain_headless_lib x = Ok r) example_rules [r]"
    by (simp add: example_rule_simps default_IsValid_def NewDefaultHeadlessRule_def opt_item_def plain_headless_lib_def NewDomainItem_def
        NewIPCIDRItem_def example_item_lib_def logical_mode_of_def)
  from srs_same_rules [OF plain.srs_laws_axioms bs example_storable len deep lib src r] bs show ?thesis by fastforce
qed

end
