(* ===== verification/TLS_Fragment.thy ===== *)
theory TLS_Fragment
  imports Go_Binary
begin

text \<open>
  Fragmentation of the TLS handshake, \<^verbatim>\<open>common/tlsfragment\<close>: finding the server name in a client hello
  (\<^verbatim>\<open>index.go\<close>) and writing the first packet in pieces cut inside the labels of the name (\<^verbatim>\<open>conn.go\<close>).

  A parser result is an \<open>option\<close> of an outcome: \<open>None\<close> is a loop that does not end. Slice and index
  expressions panic out of range. The offset of the next extension is computed in \<open>uint16\<close>, as in the code.
  Parameters are the public suffix list, the random numbers, and the outcomes of the socket operations; a
  failing write may have written a part.
\<close>

section \<open>The server name\<close>

record MyServerName =
  sn_Index :: nat
  sn_Length :: nat
  sn_ServerName :: string
  sn_ExtensionsListLengthIndex :: nat

definition u16_at :: "byte list \<Rightarrow> nat \<Rightarrow> (unit, nat) res" where
  "u16_at xs i = res_bind (index xs i) (\<lambda>a. res_bind (index xs (Suc i)) (\<lambda>b. Ok (unat a * 256 + unat b)))"

definition slice_from :: "byte list \<Rightarrow> nat \<Rightarrow> (unit, byte list) res" where
  "slice_from xs i = slice xs i (length xs)"

text \<open>The body of a server name extension \<open>sex\<close> that starts at \<open>currentIndex + extensionHeaderLen\<close>.\<close>

definition sni_extension :: "nat \<Rightarrow> byte list \<Rightarrow> (unit, MyServerName option) res" where
  "sni_extension currentIndex sex =
     (if length sex < 5 then Ok None
      else res_bind (index sex 2) (\<lambda>sniType.
        if sniType \<noteq> 0 then Ok None
        else res_bind (u16_at sex 3) (\<lambda>sniLen.
             res_bind (slice_from sex 5) (\<lambda>name.
               Ok (Some \<lparr>sn_Index = currentIndex + 4 + 5, sn_Length = sniLen, sn_ServerName = string_of name,
                         sn_ExtensionsListLengthIndex = 0\<rparr>)))))"

text \<open>One round of the loop over the extensions: a result, or the next index and what is left.\<close>

definition ext_step :: "nat \<Rightarrow> byte list \<Rightarrow> (unit, MyServerName option) res + nat \<times> byte list" where
  "ext_step currentIndex exs =
     (if exs = [] then Inl (Ok None)
      else if length exs < 4 then Inl (Ok None)
      else case res_bind (u16_at exs 0) (\<lambda>exType. res_bind (u16_at exs 2) (\<lambda>exLen. Ok (exType, exLen))) of
        Err e \<Rightarrow> Inl (Err e)
      | Panic \<Rightarrow> Inl Panic
      | Ok (exType, exLen) \<Rightarrow>
          if length exs < 4 + exLen then Inl (Ok None)
          else if exType = 0 then Inl (res_bind (slice exs 4 (4 + exLen)) (sni_extension currentIndex))
          else (case slice_from exs ((4 + exLen) mod 2 ^ 16) of
                  Ok exs' \<Rightarrow> Inr (currentIndex + 4 + exLen, exs')
                | Err e \<Rightarrow> Inl (Err e)
                | Panic \<Rightarrow> Inl Panic))"

partial_function (option) ext_loop :: "nat \<Rightarrow> byte list \<Rightarrow> (unit, MyServerName option) res option" where
  [code]: "ext_loop currentIndex exs =
     (let s = ext_step currentIndex exs
      in if isl s then Some (projl s) else ext_loop (fst (projr s)) (snd (projr s)))"

definition and_then :: "(unit, 'a) res \<Rightarrow> ('a \<Rightarrow> (unit, 'b) res option) \<Rightarrow> (unit, 'b) res option" where
  "and_then r f = (case r of Ok a \<Rightarrow> f a | Err e \<Rightarrow> Some (Err e) | Panic \<Rightarrow> Some Panic)"

definition map_found :: "('a \<Rightarrow> 'a) \<Rightarrow> (unit, 'a option) res option \<Rightarrow> (unit, 'a option) res option" where
  "map_found f r = map_option (map_res id (map_option f)) r"

definition indexTLSServerNameFromExtensions :: "byte list \<Rightarrow> (unit, MyServerName option) res option" where
  "indexTLSServerNameFromExtensions exs =
     (if exs = [] then Some (Ok None)
      else if length exs < 2 then Some (Ok None)
      else and_then (u16_at exs 0) (\<lambda>exsLen. and_then (slice_from exs 2) (\<lambda>exs'.
        if length exs' < exsLen then Some (Ok None) else ext_loop 2 exs')))"

definition indexTLSServerNameFromHandshake :: "byte list \<Rightarrow> (unit, MyServerName option) res option" where
  "indexTLSServerNameFromHandshake handshake =
     (if length handshake < 6 + 32 + 1 then Some (Ok None)
      else and_then (index handshake 0) (\<lambda>ty.
      if ty \<noteq> 1 then Some (Ok None)
      else and_then (index handshake 1) (\<lambda>l1. and_then (u16_at handshake 2) (\<lambda>l2. and_then (slice_from handshake 4) (\<lambda>rest.
      if length rest \<noteq> unat l1 * 2 ^ 16 + l2 then Some (Ok None)
      else and_then (u16_at handshake 4) (\<lambda>tlsVersion.
      if tlsVersion div 4 \<noteq> 0x0300 div 4 \<and> tlsVersion \<noteq> 0x0304 then Some (Ok None)
      else and_then (index handshake 38) (\<lambda>sessionIDLen.
      let currentIndex = 6 + 32 + 1 + unat sessionIDLen in
      if length handshake < currentIndex then Some (Ok None)
      else and_then (slice_from handshake currentIndex) (\<lambda>cipherSuites.
      if length cipherSuites < 2 then Some (Ok None)
      else and_then (u16_at cipherSuites 0) (\<lambda>csLen.
      if length cipherSuites < 2 + csLen + 1 then Some (Ok None)
      else and_then (index cipherSuites (2 + csLen)) (\<lambda>compressMethodLen.
      let currentIndex' = currentIndex + 2 + csLen + 1 + unat compressMethodLen in
      if length handshake < currentIndex' then Some (Ok None)
      else and_then (slice_from handshake currentIndex') (\<lambda>exs.
        map_found (\<lambda>sn. sn\<lparr>sn_Index := sn_Index sn + currentIndex', sn_ExtensionsListLengthIndex := currentIndex'\<rparr>)
          (indexTLSServerNameFromExtensions exs))))))))))))"

definition IndexTLSServerName :: "byte list \<Rightarrow> (unit, MyServerName option) res option" where
  "IndexTLSServerName payload =
     (if length payload < 5 then Some (Ok None)
      else and_then (index payload 0) (\<lambda>ty.
        if ty \<noteq> 22 then Some (Ok None)
        else and_then (u16_at payload 3) (\<lambda>segmentLen.
          if length payload < 5 + segmentLen then Some (Ok None)
          else and_then (slice_from payload 5) (\<lambda>handshake.
            map_found (\<lambda>sn. sn\<lparr>sn_Index := sn_Index sn + 5, sn_ExtensionsListLengthIndex := sn_ExtensionsListLengthIndex sn + 5\<rparr>)
              (indexTLSServerNameFromHandshake handshake)))))"


section \<open>Correctness of the search\<close>

lemma byte_of_char_of [simp]: "byte_of (char_of_byte b) = b"
proof -
  have "unat b < 256" using unsigned_less [of b] by simp
  then have "of_char (char_of (unat b) :: char) = unat b" by (simp add: of_char_of)
  then show ?thesis by (simp add: byte_of_def char_of_byte_def)
qed

lemma bytes_of_string_of [simp]: "bytes_of (string_of bs) = bs"
  by (simp add: comp_def)

lemma u16_at_Ok [simp]: "Suc i < length xs \<Longrightarrow> u16_at xs i = Ok (unat (xs ! i) * 256 + unat (xs ! Suc i))"
  by (simp add: u16_at_def index_def)

lemma slice_from_Ok [simp]: "i \<le> length xs \<Longrightarrow> slice_from xs i = Ok (drop i xs)"
  by (simp add: slice_from_def slice_def)

lemma and_then_simps [simp]: "and_then (Ok a) f = f a" "and_then (Err e) f = Some (Err e)" "and_then Panic f = Some Panic"
  by (simp_all add: and_then_def)

lemma map_found_simps [simp]:
  "map_found f None = None" "map_found f (Some (Ok x)) = Some (Ok (map_option f x))"
  "map_found f (Some (Err e)) = Some (Err e)" "map_found f (Some Panic) = Some Panic"
  by (simp_all add: map_found_def)

lemma map_found_map_found: "map_found f (map_found g r) = map_found (\<lambda>x. f (g x)) r"
proof (cases r)
  case (Some x)
  then show ?thesis by (cases x) (simp_all add: option.map_comp comp_def)
qed simp

text \<open>The name is in the payload at its index.\<close>

definition found_at :: "byte list \<Rightarrow> nat \<Rightarrow> string \<Rightarrow> bool" where
  "found_at bs i name = (i + length name \<le> length bs \<and> take (length name) (drop i bs) = bytes_of name)"

lemma found_at_drop: "found_at (drop k bs) i name \<Longrightarrow> k \<le> length bs \<Longrightarrow> found_at bs (k + i) name"
  by (auto simp: found_at_def add.commute)

lemma found_at_take: "found_at (take k bs) i name \<Longrightarrow> found_at bs i name"
  by (auto simp: found_at_def drop_take)

lemma sni_extension_Ok:
  "\<exists>r. sni_extension k sex = Ok r \<and> (\<forall>sn. r = Some sn \<longrightarrow> sn_Index sn = k + 9 \<and> found_at sex 5 (sn_ServerName sn))"
  by (auto simp: sni_extension_def index_def found_at_def comp_def)

text \<open>A round ends with a proper result or moves on, by the length of the extension modulo the range of \<open>uint16\<close>.\<close>

lemma ext_step_cases:
  obtains (stop) "ext_step k exs = Inl (Ok None)"
  | (found) sn where "ext_step k exs = Inl (Ok (Some sn))" "k \<le> sn_Index sn" "found_at exs (sn_Index sn - k) (sn_ServerName sn)"
  | (more) n where "ext_step k exs = Inr (k + n, drop (n mod 2 ^ 16) exs)" "4 \<le> n" "n \<le> length exs"
proof -
  consider "length exs < 4" | "4 \<le> length exs" by linarith
  then show thesis
  proof cases
    case 1 then show thesis by (intro stop) (simp add: ext_step_def)
  next
    case 2
    define t where "t = unat (exs ! 0) * 256 + unat (exs ! Suc 0)"
    define l where "l = unat (exs ! 2) * 256 + unat (exs ! Suc 2)"
    have step: "ext_step k exs =
        (if length exs < 4 + l then Inl (Ok None)
         else if t = 0 then Inl (res_bind (slice exs 4 (4 + l)) (sni_extension k))
         else (case slice_from exs ((4 + l) mod 2 ^ 16) of Ok exs' \<Rightarrow> Inr (k + 4 + l, exs') | Err e \<Rightarrow> Inl (Err e) | Panic \<Rightarrow> Inl Panic))"
      using 2 by (auto simp: ext_step_def t_def l_def)
    consider "length exs < 4 + l" | "4 + l \<le> length exs" "t = 0" | "4 + l \<le> length exs" "t \<noteq> 0" by linarith
    then show thesis
    proof cases
      case 1 then show thesis by (intro stop) (simp add: step)
    next
      case 2
      let ?sex = "take l (drop 4 exs)"
      have sl: "slice exs 4 (4 + l) = (Ok ?sex :: (unit, byte list) res)" using 2(1) by (simp add: slice_def)
      obtain r where r: "sni_extension k ?sex = Ok r" "\<And>sn. r = Some sn \<Longrightarrow> sn_Index sn = k + 9 \<and> found_at ?sex 5 (sn_ServerName sn)"
        using sni_extension_Ok by blast
      show thesis
      proof (cases r)
        case None then show thesis using 2 sl r(1) by (intro stop) (simp add: step)
      next
        case (Some sn)
        have "found_at exs (4 + 5) (sn_ServerName sn)"
          using r(2) [OF Some] 2(1) by (intro found_at_drop) (auto dest: found_at_take)
        then show thesis using 2 sl r Some by (intro found [of sn]) (simp_all add: step)
      qed
    next
      case 3
      have "(4 + l) mod 2 ^ 16 \<le> length exs" using 3(1) mod_less_eq_dividend le_trans by blast
      then show thesis using 3 by (intro more [of "4 + l"]) (simp_all add: step)
    qed
  qed
qed

lemma ext_loop_Ok:
  assumes "ext_loop k exs = Some r"
  shows "\<exists>x. r = Ok x"
proof (rule ext_loop.raw_induct [where P = "\<lambda>k exs r. \<exists>x. r = Ok x", OF _ assms])
  fix f :: "nat \<Rightarrow> byte list \<Rightarrow> (unit, MyServerName option) res option" and k exs r
  assume IH: "\<And>k exs y. f k exs = Some y \<Longrightarrow> \<exists>x. y = Ok x"
    and eq: "(let s = ext_step k exs in if isl s then Some (projl s) else f (fst (projr s)) (snd (projr s))) = Some r"
  show "\<exists>x. r = Ok x"
    by (rule ext_step_cases [of k exs]) (use eq IH in \<open>auto simp: Let_def\<close>)
qed

lemma ext_loop_short:
  "length exs < 2 ^ 16 \<Longrightarrow> \<exists>r. ext_loop k exs = Some (Ok r) \<and>
     (\<forall>sn. r = Some sn \<longrightarrow> k \<le> sn_Index sn \<and> found_at exs (sn_Index sn - k) (sn_ServerName sn))"
proof (induction "length exs" arbitrary: k exs rule: less_induct)
  case less
  show ?case
  proof (rule ext_step_cases [of k exs])
    fix n assume n: "ext_step k exs = Inr (k + n, drop (n mod 2 ^ 16) exs)" "4 \<le> n" "n \<le> length exs"
    then have mod: "n mod 2 ^ 16 = n" using less.prems by simp
    obtain r where r: "ext_loop (k + n) (drop n exs) = Some (Ok r)"
        "\<And>sn. r = Some sn \<Longrightarrow> k + n \<le> sn_Index sn \<and> found_at (drop n exs) (sn_Index sn - (k + n)) (sn_ServerName sn)"
    proof -
      have "length (drop n exs) < length exs" using n by simp
      from less.hyps [OF this] less.prems n(3) show thesis using that by fastforce
    qed
    have "found_at exs (sn_Index sn - k) (sn_ServerName sn)" if "r = Some sn" for sn
      using found_at_drop [of n exs "sn_Index sn - (k + n)"] r(2) [OF that] n(3) by simp
    then show ?thesis using r n mod by (subst ext_loop.simps) (auto simp: Let_def)
  qed (subst ext_loop.simps, simp add: Let_def)+
qed

lemma extensions_Ok:
  "indexTLSServerNameFromExtensions exs = Some r \<Longrightarrow> \<exists>x. r = Ok x"
  using ext_loop_Ok by (auto simp: indexTLSServerNameFromExtensions_def split: if_splits)

lemma extensions_short:
  assumes "length exs < 2 ^ 16"
  shows "\<exists>r. indexTLSServerNameFromExtensions exs = Some (Ok r) \<and> (\<forall>sn. r = Some sn \<longrightarrow> found_at exs (sn_Index sn) (sn_ServerName sn))"
proof (cases "length exs < 2")
  case False
  then have "length (drop 2 exs) < 2 ^ 16" using assms by simp
  from ext_loop_short [OF this, of 2] obtain r where r: "ext_loop 2 (drop 2 exs) = Some (Ok r)"
    "\<And>sn. r = Some sn \<Longrightarrow> 2 \<le> sn_Index sn \<and> found_at (drop 2 exs) (sn_Index sn - 2) (sn_ServerName sn)" by blast
  have "found_at exs (sn_Index sn) (sn_ServerName sn)" if "r = Some sn" for sn
  proof -
    have "found_at exs (2 + (sn_Index sn - 2)) (sn_ServerName sn)"
      by (rule found_at_drop) (use r(2) [OF that] False in auto)
    then show ?thesis using r(2) [OF that] by (metis le_add_diff_inverse)
  qed
  with r(1) False show ?thesis by (auto simp: indexTLSServerNameFromExtensions_def)
qed (auto simp: indexTLSServerNameFromExtensions_def)

lemma handshake_Ok:
  "indexTLSServerNameFromHandshake h = Some r \<Longrightarrow> \<exists>x. r = Ok x"
  by (auto simp: indexTLSServerNameFromHandshake_def index_def Let_def map_found_def dest!: extensions_Ok split: if_splits)

lemma handshake_short:
  assumes "length h < 2 ^ 16"
  shows "\<exists>r. indexTLSServerNameFromHandshake h = Some (Ok r) \<and> (\<forall>sn. r = Some sn \<longrightarrow> found_at h (sn_Index sn) (sn_ServerName sn))"
proof -
  have ext: "\<exists>r. map_found (\<lambda>sn. sn\<lparr>sn_Index := sn_Index sn + k, sn_ExtensionsListLengthIndex := k\<rparr>)
        (indexTLSServerNameFromExtensions (drop k h)) = Some (Ok r) \<and> (\<forall>sn. r = Some sn \<longrightarrow> found_at h (sn_Index sn) (sn_ServerName sn))"
    if "k \<le> length h" for k
  proof -
    have "length (drop k h) < 2 ^ 16" using assms by simp
    from extensions_short [OF this] obtain r where r: "indexTLSServerNameFromExtensions (drop k h) = Some (Ok r)"
      "\<And>sn. r = Some sn \<Longrightarrow> found_at (drop k h) (sn_Index sn) (sn_ServerName sn)" by blast
    then show ?thesis using found_at_drop [OF _ that] by (auto simp: add.commute [of _ k])
  qed
  show ?thesis using ext by (auto simp: indexTLSServerNameFromHandshake_def index_def Let_def)
qed

lemma IndexTLSServerName_Ok: "IndexTLSServerName payload = Some r \<Longrightarrow> \<exists>x. r = Ok x"
  by (auto simp: IndexTLSServerName_def index_def map_found_def dest!: handshake_Ok split: if_splits)

lemma IndexTLSServerName_short:
  assumes "length payload < 2 ^ 16"
  shows "\<exists>r. IndexTLSServerName payload = Some (Ok r) \<and>
    (\<forall>sn. r = Some sn \<longrightarrow> 5 \<le> sn_Index sn \<and> found_at payload (sn_Index sn) (sn_ServerName sn))"
proof (cases "length payload < 5")
  case False
  have "length (drop 5 payload) < 2 ^ 16" using assms by simp
  from handshake_short [OF this] obtain r where r: "indexTLSServerNameFromHandshake (drop 5 payload) = Some (Ok r)"
    "\<And>sn. r = Some sn \<Longrightarrow> found_at (drop 5 payload) (sn_Index sn) (sn_ServerName sn)" by blast
  have "found_at payload (sn_Index sn + 5) (sn_ServerName sn)" if "r = Some sn" for sn
    using found_at_drop [OF r(2) [OF that]] False by (simp add: add.commute)
  with r(1) False show ?thesis by (auto simp: IndexTLSServerName_def index_def)
qed (simp add: IndexTLSServerName_def)

text \<open>An extension whose length is 65532 sends the loop back to where it was.\<close>

lemma ext_loop_hangs:
  assumes "ext_step k exs = Inr (k + 65536, exs)"
  shows "ext_loop k exs = None"
proof (rule ccontr)
  assume "ext_loop k exs \<noteq> None"
  then obtain r where "ext_loop k exs = Some r" by auto
  then have "ext_step k exs \<noteq> Inr (k + 65536, exs)"
  proof (rule ext_loop.raw_induct [where P = "\<lambda>k exs r. ext_step k exs \<noteq> Inr (k + 65536, exs)", rotated])
    fix f :: "nat \<Rightarrow> byte list \<Rightarrow> (unit, MyServerName option) res option" and k exs r
    assume IH: "\<And>k exs y. f k exs = Some y \<Longrightarrow> ext_step k exs \<noteq> Inr (k + 65536, exs)"
      and eq: "(let s = ext_step k exs in if isl s then Some (projl s) else f (fst (projr s)) (snd (projr s))) = Some r"
    show "ext_step k exs \<noteq> Inr (k + 65536, exs)"
    proof
      assume same: "ext_step k exs = Inr (k + 65536, exs)"
      with eq have "f (k + 65536) exs = Some r" by (simp add: Let_def)
      from IH [OF this] show False
        using same by (auto simp: ext_step_def split: if_splits res.splits)
    qed
  qed
  with assms show False by simp
qed


section \<open>Writing in pieces\<close>

record Conn =
  fc_tcpConn :: bool                \<comment> \<open>\<open>tcpConn != nil\<close>\<close>
  fc_firstPacketWritten :: bool
  fc_splitPacket :: bool
  fc_splitRecord :: bool

definition NewConn :: "bool \<Rightarrow> bool \<Rightarrow> bool \<Rightarrow> Conn" where
  "NewConn tcpConn splitPacket splitRecord =
     \<lparr>fc_tcpConn = tcpConn, fc_firstPacketWritten = False, fc_splitPacket = splitPacket, fc_splitRecord = splitRecord\<rparr>"

text \<open>What was written, packet by packet, and the outcomes of the coming socket operations: a failure has an
  error and, for a write, the number of bytes that went out before it.\<close>

record 'e wire =
  w_out :: "byte list list"
  w_outcomes :: "('e \<times> nat) option list"

definition next_outcome :: "'e wire \<Rightarrow> ('e \<times> nat) option \<times> 'e wire" where
  "next_outcome w = (case w_outcomes w of [] \<Rightarrow> (None, w) | o' # os \<Rightarrow> (o', w\<lparr>w_outcomes := os\<rparr>))"

text \<open>\<open>Conn.Write\<close> of the connection below and \<open>writeAndWaitAck\<close>, which writes and then waits.\<close>

definition put :: "byte list \<Rightarrow> 'e wire \<Rightarrow> 'e option \<times> 'e wire" where
  "put bs w = (case next_outcome w of
     (None, w') \<Rightarrow> (None, w'\<lparr>w_out := w_out w' @ [bs]\<rparr>)
   | (Some (e, n), w') \<Rightarrow> (Some e, w'\<lparr>w_out := w_out w' @ [take n bs]\<rparr>))"

definition set_no_delay :: "bool \<Rightarrow> 'e wire \<Rightarrow> 'e option \<times> 'e wire" where
  "set_no_delay cond w = (if cond then (case next_outcome w of (o', w') \<Rightarrow> (map_option fst o', w')) else (None, w))"

fun put_all :: "byte list list \<Rightarrow> 'e wire \<Rightarrow> 'e option \<times> 'e wire" where
  "put_all [] w = (None, w)"
| "put_all (p # ps) w = (case put p w of (None, w') \<Rightarrow> put_all ps w' | (Some e, w') \<Rightarrow> (Some e, w'))"

text \<open>The labels to cut. With a public suffix, \<open>splits[:len(splits)-strings.Count(serverName, ".")]\<close>.\<close>

definition cut_labels :: "(string \<Rightarrow> string) \<Rightarrow> string \<Rightarrow> string list" where
  "cut_labels PublicSuffix name =
     (let splits = split_on (CHR ''.'') name
      in if PublicSuffix name \<noteq> [] then take (length splits - length (filter ((=) (CHR ''.'')) name)) splits else splits)"

definition skip_dots :: "nat \<Rightarrow> string list \<Rightarrow> nat \<times> string list" where
  "skip_dots currentIndex splits =
     (if 1 < length splits \<and> hd splits = ''...'' then (currentIndex + length (hd splits) + 1, tl splits) else (currentIndex, splits))"

text \<open>One index inside every label; \<open>rand.Intn(0)\<close> panics.\<close>

fun split_indexes :: "nat list \<Rightarrow> nat \<Rightarrow> string list \<Rightarrow> (unit, nat list) res" where
  "split_indexes rnd currentIndex [] = Ok []"
| "split_indexes rnd currentIndex (split # splits) =
     (if split = [] then Panic
      else res_bind (split_indexes (tl rnd) (currentIndex + length split + (if splits = [] then 0 else 1)) splits)
        (\<lambda>is. Ok ((currentIndex + (if rnd = [] then 0 else hd rnd mod length split)) # is)))"

text \<open>The pieces between the indexes. The first record piece is without the header of the original record.\<close>

fun pieces :: "byte list \<Rightarrow> nat \<Rightarrow> nat list \<Rightarrow> (unit, byte list list) res" where
  "pieces b p [] = res_bind (slice_from b p) (\<lambda>x. Ok [x])"
| "pieces b p (i # is) = res_bind (slice b p i) (\<lambda>x. res_bind (pieces b i is) (\<lambda>xs. Ok (x # xs)))"

definition record_of :: "byte list \<Rightarrow> byte list \<Rightarrow> byte list" where
  "record_of b payload = take 3 b @ be_bytes 2 (length payload mod 2 ^ 16) @ payload"

definition fragments :: "bool \<Rightarrow> byte list \<Rightarrow> nat list \<Rightarrow> (unit, byte list list) res" where
  "fragments splitRecord b is =
     (if is = [] then Panic
      else if splitRecord then res_bind (pieces b 5 is) (\<lambda>ps. Ok (map (record_of b) ps)) else pieces b 0 is)"

text \<open>The writes of a found server name, in the order of the code: \<open>n\<close> is 0 when an error returns early.\<close>

definition send_fragments :: "Conn \<Rightarrow> byte list \<Rightarrow> byte list list \<Rightarrow> 'e wire \<Rightarrow> (nat \<times> 'e option) \<times> 'e wire" where
  "send_fragments c b fs w =
     (case (if fc_splitPacket c then put_all fs w else if fc_splitRecord c then put (concat fs) w else (None, w)) of
        (Some e, w1) \<Rightarrow> ((0, Some e), w1)
      | (None, w1) \<Rightarrow>
          (case set_no_delay (fc_tcpConn c) w1 of
             (Some e, w2) \<Rightarrow> ((0, Some e), w2)
           | (None, w2) \<Rightarrow> ((length b, None), w2)))"

definition plain_write :: "byte list \<Rightarrow> 'e wire \<Rightarrow> (nat \<times> 'e option) \<times> 'e wire" where
  "plain_write b w = (case w_outcomes w of
     Some (e, n) # _ \<Rightarrow> ((min n (length b), Some e), snd (put b w))
   | _ \<Rightarrow> ((length b, None), snd (put b w)))"

definition fragment_plan :: "(string \<Rightarrow> string) \<Rightarrow> nat list \<Rightarrow> Conn \<Rightarrow> byte list \<Rightarrow> MyServerName \<Rightarrow> (unit, byte list list) res" where
  "fragment_plan PublicSuffix rnd c b serverName =
     (case skip_dots (sn_Index serverName) (cut_labels PublicSuffix (sn_ServerName serverName)) of
        (currentIndex, splits) \<Rightarrow>
          res_bind (split_indexes rnd currentIndex splits) (fragments (fc_splitRecord c) b))"

definition write_fragments :: "(string \<Rightarrow> string) \<Rightarrow> nat list \<Rightarrow> Conn \<Rightarrow> byte list \<Rightarrow> MyServerName \<Rightarrow> 'e wire \<Rightarrow> Conn \<Rightarrow>
    (unit, (nat \<times> 'e option) \<times> Conn \<times> 'e wire) res" where
  "write_fragments PublicSuffix rnd c b serverName w c' =
     (case set_no_delay (fc_splitPacket c \<and> fc_tcpConn c) w of
        (Some e, w1) \<Rightarrow> Ok ((0, Some e), c', w1)
      | (None, w1) \<Rightarrow> res_bind (fragment_plan PublicSuffix rnd c b serverName) (\<lambda>fs.
          case send_fragments c b fs w1 of (r, w2) \<Rightarrow> Ok (r, c', w2)))"

definition and_then_found :: "(unit, 'a option) res option \<Rightarrow> (unit, 'b) res \<Rightarrow> ('a \<Rightarrow> (unit, 'b) res) \<Rightarrow> (unit, 'b) res option" where
  "and_then_found r none f =
     map_option (\<lambda>x. res_bind x (\<lambda>found. case found of None \<Rightarrow> none | Some a \<Rightarrow> f a)) r"

definition Write :: "(string \<Rightarrow> string) \<Rightarrow> nat list \<Rightarrow> Conn \<Rightarrow> byte list \<Rightarrow> 'e wire \<Rightarrow>
    (unit, (nat \<times> 'e option) \<times> Conn \<times> 'e wire) res option" where
  "Write PublicSuffix rnd c b w =
     (if \<not> fc_firstPacketWritten c \<and> b \<noteq> [] then
        (let c' = c\<lparr>fc_firstPacketWritten := True\<rparr> in
         and_then_found (IndexTLSServerName b)
           (case plain_write b w of (r, w') \<Rightarrow> Ok (r, c', w'))
           (\<lambda>serverName. write_fragments PublicSuffix rnd c b serverName w c'))
      else (case plain_write b w of (r, w') \<Rightarrow> Some (Ok (r, c, w'))))"


section \<open>The pieces carry the packet\<close>

lemma split_indexes_Ok:
  assumes "[] \<notin> set splits"
  shows "\<exists>is. split_indexes rnd k splits = Ok is \<and> sorted (k # is) \<and> (\<forall>i \<in> set is. i \<le> k + length (join_with [c] splits))"
  using assms
proof (induction splits arbitrary: rnd k)
  case (Cons x xs)
  let ?k = "k + length x + (if xs = [] then 0 else 1)"
  let ?i = "k + (if rnd = [] then 0 else hd rnd mod length x)"
  obtain "is" where "is": "split_indexes (tl rnd) ?k xs = Ok is" "sorted (?k # is)" "\<forall>i \<in> set is. i \<le> ?k + length (join_with [c] xs)"
    using Cons by (metis list.set_intros(2))
  have x: "length x > 0" using Cons.prems by auto
  then have i: "?i < k + length x" by simp
  have len: "length (join_with [c] (x # xs)) = length x + (if xs = [] then 0 else 1) + length (join_with [c] xs)"
    by (cases xs) (simp_all add: join_with_Cons)
  have "sorted (k # ?i # is)" using "is"(2) i by (auto split: if_splits)
  moreover have "\<forall>j \<in> set (?i # is). j \<le> k + length (join_with [c] (x # xs))"
    using "is"(3) i len by auto
  ultimately show ?case using Cons.prems "is"(1) by auto
qed simp

lemma split_indexes_Panic: "[] \<in> set splits \<Longrightarrow> split_indexes rnd k splits = Panic"
  by (induction rnd k splits rule: split_indexes.induct) auto

lemma length_join_take: "length (join_with [c] (take k ws)) \<le> length (join_with [c] ws)"
proof (induction ws arbitrary: k)
  case (Cons w ws)
  show ?case
  proof (cases k)
    case (Suc j)
    have "length (join_with [c] (w # xs)) = length w + (if xs = [] then 0 else 1) + length (join_with [c] xs)" for xs
      by (cases xs) (simp_all add: join_with_Cons)
    then show ?thesis using Cons.IH [of j] Suc by auto
  qed simp
qed simp

lemma cut_labels_bound: "length (join_with ''.'' (cut_labels PS name)) \<le> length name"
  using length_join_take [of "CHR ''.''" _ "split_on (CHR ''.'') name"] by (auto simp: cut_labels_def Let_def join_split)

text \<open>With a public suffix the slice keeps the first label alone, whatever the suffix is.\<close>

lemma cut_labels_first: "PS name \<noteq> [] \<Longrightarrow> cut_labels PS name = [hd (split_on (CHR ''.'') name)]"
  using length_split_on [of "CHR ''.''" name] by (cases "split_on (CHR ''.'') name") (auto simp: cut_labels_def Let_def)

lemma skip_dots_id: "skip_dots k (cut_labels PS name) = (k, cut_labels PS name)"
proof -
  have sub: "set (cut_labels PS name) \<subseteq> set (split_on (CHR ''.'') name)"
    by (simp add: cut_labels_def Let_def set_take_subset)
  have "hd (cut_labels PS name) \<noteq> ''...''" if "1 < length (cut_labels PS name)"
  proof
    assume "hd (cut_labels PS name) = ''...''"
    moreover have "cut_labels PS name \<noteq> []" using that by auto
    ultimately have "''...'' \<in> set (split_on (CHR ''.'') name)" using sub hd_in_set by fastforce
    from split_on_no_sep [OF this] show False by simp
  qed
  then show ?thesis by (auto simp: skip_dots_def)
qed

lemma pieces_Ok:
  assumes "sorted (p # is)" "\<forall>i \<in> set (p # is). i \<le> length b"
  shows "\<exists>ps. pieces b p is = Ok ps \<and> concat ps = drop p b \<and> (\<forall>x \<in> set ps. length x \<le> length b)"
  using assms
proof (induction "is" arbitrary: p)
  case (Cons i "is")
  have "sorted (i # is)" "\<forall>j \<in> set (i # is). j \<le> length b" using Cons.prems by simp_all
  from Cons.IH [OF this] obtain ps where ps: "pieces b i is = Ok ps" "concat ps = drop i b" "\<forall>x \<in> set ps. length x \<le> length b" by blast
  have "take (i - p) (drop p b) @ drop i b = drop p b"
    using Cons.prems append_take_drop_id [of "i - p" "drop p b"] by simp
  with ps Cons.prems show ?case by (auto simp: slice_def)
qed simp

lemma cut_labels_nonempty [simp]: "cut_labels PS name \<noteq> []"
  using length_split_on [of "CHR ''.''" name] by (auto simp: cut_labels_def Let_def)

lemma split_indexes_length: "split_indexes rnd k ws = Ok is \<Longrightarrow> length is = length ws"
  by (induction rnd k ws arbitrary: "is" rule: split_indexes.induct) (auto simp: res_bind_eq_Ok split: if_splits)

lemma plan_Ok:
  assumes "found_at b (sn_Index sn) (sn_ServerName sn)" "5 \<le> sn_Index sn" "[] \<notin> set (cut_labels PS (sn_ServerName sn))"
  shows "\<exists>ps. fragment_plan PS rnd c b sn = Ok (if fc_splitRecord c then map (record_of b) ps else ps) \<and>
    concat ps = drop (if fc_splitRecord c then 5 else 0) b \<and> (\<forall>x \<in> set ps. length x \<le> length b)"
proof -
  let ?labels = "cut_labels PS (sn_ServerName sn)"
  obtain "is" where "is": "split_indexes rnd (sn_Index sn) ?labels = Ok is" "sorted (sn_Index sn # is)"
      "\<forall>i \<in> set is. i \<le> sn_Index sn + length (join_with ''.'' ?labels)"
    using split_indexes_Ok [OF assms(3)] by blast
  have le: "\<forall>i \<in> set is. i \<le> length b"
    using "is"(3) cut_labels_bound [of PS "sn_ServerName sn"] assms(1) by (fastforce simp: found_at_def)
  have b5: "5 \<le> length b" using assms(1,2) by (simp add: found_at_def)
  have ne: "is \<noteq> []" using split_indexes_length [OF "is"(1)] by auto
  have "sorted (5 # is)" "sorted (0 # is)" using "is"(2) assms(2) by auto
  with pieces_Ok [of 5 "is" b] pieces_Ok [of 0 "is" b] le b5 "is"(1) ne show ?thesis
    by (auto simp: fragment_plan_def skip_dots_id fragments_def)
qed

lemma plan_Panic: "[] \<in> set (cut_labels PS (sn_ServerName sn)) \<Longrightarrow> fragment_plan PS rnd c b sn = Panic"
  by (simp add: fragment_plan_def skip_dots_id split_indexes_Panic)

lemma next_outcome_out [simp]: "next_outcome w = (o', w') \<Longrightarrow> w_out w' = w_out w"
  by (auto simp: next_outcome_def split: list.splits)

lemma put_None: "put bs w = (None, w') \<Longrightarrow> w_out w' = w_out w @ [bs]"
  by (auto simp: put_def split: prod.splits option.splits)

lemma put_all_None: "put_all ps w = (None, w') \<Longrightarrow> w_out w' = w_out w @ ps"
  by (induction ps arbitrary: w) (auto dest!: put_None split: prod.splits option.splits)

lemma set_no_delay_out: "set_no_delay cond w = (r, w') \<Longrightarrow> w_out w' = w_out w"
  by (auto simp: set_no_delay_def split: if_splits prod.splits)

lemma send_fragments_Ok:
  assumes "send_fragments c b fs w = ((n, None), w')" "fc_splitPacket c \<or> fc_splitRecord c"
  shows "n = length b \<and> (\<exists>new. w_out w' = w_out w @ new \<and> concat new = concat fs)"
proof -
  obtain e w1 where e: "(if fc_splitPacket c then put_all fs w else if fc_splitRecord c then put (concat fs) w else (None, w)) = (e, w1)"
    by fastforce
  obtain e' w2 where e': "set_no_delay (fc_tcpConn c) w1 = (e', w2)" by fastforce
  have none: "e = None" "e' = None" "n = length b" "w' = w2"
    using assms(1) by (auto simp: send_fragments_def e e' split: option.splits)
  have "\<exists>new. w_out w1 = w_out w @ new \<and> concat new = concat fs"
  proof (cases "fc_splitPacket c")
    case True
    with e none(1) have "put_all fs w = (None, w1)" by simp
    from put_all_None [OF this] show ?thesis by blast
  next
    case False
    with e none(1) assms(2) have "put (concat fs) w = (None, w1)" by simp
    from put_None [OF this] show ?thesis by auto
  qed
  then show ?thesis using none set_no_delay_out [OF e'] by simp
qed

lemma plain_write_Ok:
  assumes "TLS_Fragment.plain_write b w = ((n, None), w')"
  shows "n = length b \<and> w_out w' = w_out w @ [b]"
proof (cases "w_outcomes w")
  case (Cons x xs)
  then show ?thesis using assms by (cases x) (auto simp: plain_write_def put_def next_outcome_def)
qed (use assms in \<open>auto simp: plain_write_def put_def next_outcome_def\<close>)

text \<open>A reader of TLS records: the first three bytes and the payload of each.\<close>

function tls_records :: "byte list \<Rightarrow> (byte list \<times> byte list) list option" where
  "tls_records bs =
     (if bs = [] then Some []
      else if length bs < 5 then None
      else let len = unat (bs ! 3) * 256 + unat (bs ! 4)
           in if length bs < 5 + len then None
              else map_option ((#) (take 3 bs, take len (drop 5 bs))) (tls_records (drop (5 + len) bs)))"
  by pat_completeness auto
termination by (relation "measure length") auto

declare tls_records.simps [simp del]

lemma be2: "n < 2 ^ 16 \<Longrightarrow> \<exists>x y. be_bytes 2 n = [x, y] \<and> unat x * 256 + unat y = n"
proof -
  assume n: "n < 2 ^ 16"
  have "be_bytes 2 n = [word_of_nat (n div 256 mod 256), word_of_nat (n mod 256)]"
    by (simp add: numeral_2_eq_2)
  moreover have "n div 256 < 256" using n by simp
  ultimately show ?thesis by (auto simp: unat_byte)
qed

lemma tls_records_record:
  assumes "length p < 2 ^ 16" "3 \<le> length b"
  shows "tls_records (record_of b p @ rest) = map_option ((#) (take 3 b, p)) (tls_records rest)"
proof -
  obtain x y where xy: "be_bytes 2 (length p) = [x, y]" "unat x * 256 + unat y = length p" using be2 assms(1) by blast
  obtain a1 a2 a3 where b3: "take 3 b = [a1, a2, a3]"
  proof -
    from assms(2) obtain a1 a2 a3 r where "b = a1 # a2 # a3 # r" by (auto simp: numeral_3_eq_3 Suc_le_length_iff)
    then show thesis using that [of a1 a2 a3] by simp
  qed
  have rec: "record_of b p @ rest = a1 # a2 # a3 # x # y # p @ rest"
    using assms(1) by (simp add: record_of_def b3 xy)
  have "drop (5 + n) (a1 # a2 # a3 # x # y # p @ rest) = drop n (p @ rest)" for n by (simp add: numeral_eq_Suc)
  then show ?thesis unfolding rec b3 by (subst tls_records.simps) (simp add: Let_def xy(2))
qed

lemma tls_records_concat:
  assumes "\<forall>p \<in> set ps. length p < 2 ^ 16" "3 \<le> length b"
  shows "tls_records (concat (map (record_of b) ps)) = Some (map (Pair (take 3 b)) ps)"
  using assms by (induction ps) (simp_all add: tls_records_record, simp add: tls_records.simps)


section \<open>Properties\<close>

text \<open>The first packet of a connection that fragments.\<close>

lemma Write_first:
  assumes "\<not> fc_firstPacketWritten c" "b \<noteq> []" "IndexTLSServerName b = Some (Ok r)"
  shows "Write PS rnd c b w = Some (case r of
      None \<Rightarrow> (case TLS_Fragment.plain_write b w of (x, w') \<Rightarrow> Ok (x, c\<lparr>fc_firstPacketWritten := True\<rparr>, w'))
    | Some sn \<Rightarrow> write_fragments PS rnd c b sn w (c\<lparr>fc_firstPacketWritten := True\<rparr>))"
  using assms by (simp add: Write_def and_then_found_def Let_def split: option.splits)

lemma write_fragments_Ok:
  assumes "write_fragments PS rnd c b sn w c' = Ok ((n, None), c'', w')" "fc_splitPacket c \<or> fc_splitRecord c"
  shows "\<exists>fs new. fragment_plan PS rnd c b sn = Ok fs \<and> n = length b \<and> c'' = c' \<and> w_out w' = w_out w @ new \<and> concat new = concat fs"
proof -
  obtain e w1 where e: "set_no_delay (fc_splitPacket c \<and> fc_tcpConn c) w = (e, w1)" by fastforce
  with assms(1) have "e = None" by (auto simp: write_fragments_def split: option.splits)
  with assms(1) e obtain fs where fs0: "fragment_plan PS rnd c b sn = Ok fs"
      "(case send_fragments c b fs w1 of (r, w2) \<Rightarrow> Ok (r, c', w2)) = (Ok ((n, None), c'', w') :: (unit, _) res)"
    by (auto simp: write_fragments_def res_bind_eq_Ok)
  then have fs: "fragment_plan PS rnd c b sn = Ok fs" "c'' = c'" "send_fragments c b fs w1 = ((n, None), w')"
    by (cases "send_fragments c b fs w1"; simp)+
  from send_fragments_Ok [OF fs(3) assms(2)] set_no_delay_out [OF e] fs show ?thesis by auto
qed

text \<open>C21 Fragmentation loses no byte. When the write of a first packet of less than 64 KiB reports success, the packets
  that went out hold exactly its bytes; with record splitting and a server name in it, they are TLS records of the
  original type and version whose payloads, put together, are the payload of the original.\<close>

theorem fragments_carry_packet:
  assumes "Write PS rnd c b w = Some (Ok ((n, None), c', w'))" and "\<not> fc_firstPacketWritten c" and "b \<noteq> []"
    and "length b < 2 ^ 16" and "fc_splitPacket c \<or> fc_splitRecord c"
  shows "n = length b \<and> fc_firstPacketWritten c' \<and> (\<exists>new. w_out w' = w_out w @ new \<and>
    (if fc_splitRecord c \<and> IndexTLSServerName b \<noteq> Some (Ok None)
     then \<exists>recs. tls_records (concat new) = Some recs \<and> (\<forall>rec \<in> set recs. fst rec = take 3 b) \<and> concat (map snd recs) = drop 5 b
     else concat new = b))"
proof -
  obtain r where r: "IndexTLSServerName b = Some (Ok r)"
      "\<And>sn. r = Some sn \<Longrightarrow> 5 \<le> sn_Index sn \<and> found_at b (sn_Index sn) (sn_ServerName sn)"
    using IndexTLSServerName_short [OF assms(4)] by blast
  show ?thesis
  proof (cases r)
    case None
    then show ?thesis using assms(1) Write_first [OF assms(2,3) r(1), of PS rnd w]
      by (auto simp: r(1) dest!: plain_write_Ok split: prod.splits)
  next
    case (Some sn)
    then have "write_fragments PS rnd c b sn w (c\<lparr>fc_firstPacketWritten := True\<rparr>) = Ok ((n, None), c', w')"
      using assms(1) Write_first [OF assms(2,3) r(1), of PS rnd w] by simp
    from write_fragments_Ok [OF this assms(5)] obtain fs new where fs: "fragment_plan PS rnd c b sn = Ok fs" "n = length b"
        "c' = c\<lparr>fc_firstPacketWritten := True\<rparr>" "w_out w' = w_out w @ new" "concat new = concat fs" by blast
    have "[] \<notin> set (cut_labels PS (sn_ServerName sn))" using plan_Panic fs(1) by force
    from plan_Ok [OF _ _ this, of b rnd c] r(2) [OF Some] fs(1) obtain ps where
        ps: "fs = (if fc_splitRecord c then map (record_of b) ps else ps)" "concat ps = drop (if fc_splitRecord c then 5 else 0) b"
          "\<forall>x \<in> set ps. length x \<le> length b" by auto
    have "tls_records (concat (map (record_of b) ps)) = Some (map (Pair (take 3 b)) ps)"
      by (rule tls_records_concat) (use ps(3) assms(4) r(2) [OF Some] in \<open>auto simp: found_at_def\<close>)
    then show ?thesis using fs ps r(1) Some by (auto simp: comp_def)
  qed
qed

text \<open>C25 A write of less than 64 KiB returns. The search for the server name ends, stays inside the packet and finds
  the name where it says; and the write panics only on the first packet, only if a label to cut is empty.\<close>

theorem fragment_write_returns:
  assumes "length b < 2 ^ 16"
  shows "\<exists>r. Write PS rnd c b w = Some r \<and>
    (r = Panic \<longrightarrow> (\<exists>sn. IndexTLSServerName b = Some (Ok (Some sn)) \<and> [] \<in> set (cut_labels PS (sn_ServerName sn)))) \<and>
    (\<forall>sn. IndexTLSServerName b = Some (Ok (Some sn)) \<longrightarrow>
       take (length (sn_ServerName sn)) (drop (sn_Index sn) b) = bytes_of (sn_ServerName sn))"
proof -
  obtain r where r: "IndexTLSServerName b = Some (Ok r)"
      "\<And>sn. r = Some sn \<Longrightarrow> 5 \<le> sn_Index sn \<and> found_at b (sn_Index sn) (sn_ServerName sn)"
    using IndexTLSServerName_short [OF assms] by blast
  have frag: "write_fragments PS rnd c b sn w c' \<noteq> Panic" if "r = Some sn" "[] \<notin> set (cut_labels PS (sn_ServerName sn))" for sn c'
    using plan_Ok [of b sn PS rnd c] r(2) [OF that(1)] that(2)
    by (auto simp: write_fragments_def split: prod.splits option.splits)
  show ?thesis
  proof (cases "\<not> fc_firstPacketWritten c \<and> b \<noteq> []")
    case True
    then show ?thesis using r frag Write_first [of c b r PS rnd w]
      by (cases r) (auto simp: found_at_def split: prod.splits)
  next
    case False
    then have "\<exists>x. Write PS rnd c b w = Some (Ok x)" by (auto simp: Write_def split: prod.splits)
    then show ?thesis using r by (auto simp: found_at_def)
  qed
qed

text \<open>A client hello with the given extensions, at most 16 MiB of them.\<close>

definition client_hello :: "byte list \<Rightarrow> byte list" where
  "client_hello exs = [22, 3, 1] @ be_bytes 2 ((length exs + 44) mod 2 ^ 16) @ 1 # be_bytes 3 (length exs + 40) @ [3, 3] @
     replicate 32 0 @ [0, 0, 0, 0] @ be_bytes 2 (length exs mod 2 ^ 16) @ exs"

lemma be3: "n < 2 ^ 24 \<Longrightarrow> \<exists>x y z. be_bytes 3 n = [x, y, z] \<and> unat x * 65536 + (unat y * 256 + unat z) = n"
proof -
  assume n: "n < 2 ^ 24"
  have "be_bytes 3 n = [word_of_nat (n div 256 div 256 mod 256), word_of_nat (n div 256 mod 256), word_of_nat (n mod 256)]"
    by (simp add: numeral_3_eq_3)
  moreover have "n div 256 div 256 < 256" using n by (simp add: div_mult2_eq [symmetric])
  moreover have "n div 65536 * 65536 + (n div 256 mod 256 * 256 + n mod 256) = n"
  proof -
    have "n div 65536 * 256 + n div 256 mod 256 = n div 256"
      using div_mult_mod_eq [of "n div 256" 256] by (simp add: div_mult2_eq [symmetric])
    then have "(n div 65536 * 256 + n div 256 mod 256) * 256 + n mod 256 = n" by simp
    then show ?thesis by (simp add: algebra_simps)
  qed
  ultimately show ?thesis by (auto simp: unat_byte div_mult2_eq [symmetric])
qed

lemma hello_extensions:
  assumes "length exs + 40 < 2 ^ 24" "exs \<noteq> []"
  shows "IndexTLSServerName (client_hello exs) =
    map_found (\<lambda>sn. sn\<lparr>sn_Index := sn_Index sn + 47, sn_ExtensionsListLengthIndex := 47\<rparr>) (ext_loop 2 exs)"
proof -
  obtain x y z where l: "be_bytes 3 (length exs + 40) = [x, y, z]" "unat x * 65536 + (unat y * 256 + unat z) = length exs + 40"
    using be3 [OF assms(1)] by blast
  have r16: "n mod 65536 < 2 ^ 16" for n :: nat by simp
  obtain r1 r2 where r: "be_bytes 2 ((length exs + 44) mod 65536) = [r1, r2]" "unat r1 * 256 + unat r2 = (length exs + 44) mod 65536"
    using be2 [OF r16] by blast
  obtain e1 e2 where e: "be_bytes 2 (length exs mod 65536) = [e1, e2]" "unat e1 * 256 + unat e2 = length exs mod 65536"
    using be2 [OF r16] by blast
  let ?h = "1 # [x, y, z] @ [3, 3] @ replicate 32 0 @ [0, 0, 0, 0] @ [e1, e2] @ exs"
  have h: "client_hello exs = 22 # 3 # 1 # r1 # r2 # ?h" using l(1) r(1) e(1) by (simp add: client_hello_def)
  have rep: "replicate 32 (0 :: byte) = [0,0,0,0,0,0,0,0,0,0,0,0,0,0,0,0,0,0,0,0,0,0,0,0,0,0,0,0,0,0,0,0]"
    by (simp add: numeral_eq_Suc)
  have "\<not> 44 + length exs < (length exs + 44) mod 65536"
    using mod_less_eq_dividend [of "length exs + 44" 65536] by linarith
  moreover have "indexTLSServerNameFromExtensions (e1 # e2 # exs) = ext_loop 2 exs"
  proof -
    have "\<not> length exs < length exs mod 65536" using mod_less_eq_dividend not_less by blast
    then show ?thesis using e(2) by (simp add: indexTLSServerNameFromExtensions_def)
  qed
  then have "indexTLSServerNameFromHandshake ?h = map_found (\<lambda>sn. sn\<lparr>sn_Index := sn_Index sn + 42, sn_ExtensionsListLengthIndex := 42\<rparr>) (ext_loop 2 exs)"
    unfolding rep using l(2) by (simp add: indexTLSServerNameFromHandshake_def index_def)
  ultimately show ?thesis
    unfolding h using r(2) l(2)
    by (simp add: IndexTLSServerName_def index_def map_found_map_found add.commute)
qed

text \<open>An extension that claims 65532 bytes, and has them, keeps the search in its loop for ever.\<close>

definition endless_extension :: "byte list" where
  "endless_extension = [0, 1, 0xFF, 0xFC] @ replicate 65532 0"

lemma long_extension_hangs: "IndexTLSServerName (client_hello endless_extension) = None"
proof -
  have "ext_step 2 endless_extension = Inr (2 + 65536, endless_extension)"
    by (simp add: ext_step_def endless_extension_def)
  from ext_loop_hangs [OF this] show ?thesis
    by (subst hello_extensions) (simp_all add: endless_extension_def)
qed

text \<open>An empty server name makes the first write panic, whatever its outcome on the socket.\<close>

definition sni_extension_bytes :: "string \<Rightarrow> byte list" where
  "sni_extension_bytes name = [0, 0] @ be_bytes 2 (length name + 5) @ be_bytes 2 (length name + 3) @ [0] @ be_bytes 2 (length name) @ bytes_of name"

lemma hello_name:
  assumes "length name < 2 ^ 15"
  shows "IndexTLSServerName (client_hello (sni_extension_bytes name)) =
    Some (Ok (Some \<lparr>sn_Index = 58, sn_Length = length name, sn_ServerName = name, sn_ExtensionsListLengthIndex = 47\<rparr>))"
proof -
  obtain a b where a: "be_bytes 2 (length name + 5) = [a, b]" "unat a * 256 + unat b = length name + 5" using be2 [of "length name + 5"] assms by auto
  obtain c d where c: "be_bytes 2 (length name) = [c, d]" "unat c * 256 + unat d = length name" using be2 [of "length name"] assms by auto
  obtain e f where e: "be_bytes 2 (length name + 3) = [e, f]" using be2 [of "length name + 3"] assms by auto
  have exs: "sni_extension_bytes name = 0 # 0 # a # b # e # f # 0 # c # d # bytes_of name"
    by (simp add: sni_extension_bytes_def a c e)
  have "ext_loop 2 (sni_extension_bytes name) =
      Some (Ok (Some \<lparr>sn_Index = 11, sn_Length = length name, sn_ServerName = name, sn_ExtensionsListLengthIndex = 0\<rparr>))"
    using a(2) c(2)
    by (subst ext_loop.simps) (simp add: exs ext_step_def slice_def sni_extension_def index_def)
  then show ?thesis by (subst hello_extensions) (use assms in \<open>simp_all add: exs\<close>)
qed

lemma empty_name_panics:
  assumes "\<not> fc_firstPacketWritten c" "\<not> fc_splitPacket c"
  shows "Write PS rnd c (client_hello (sni_extension_bytes [])) w = Some Panic"
proof -
  have "client_hello exs \<noteq> []" for exs by (simp add: client_hello_def)
  moreover have "[] \<in> set (cut_labels PS [])" by (simp add: cut_labels_def Let_def)
  ultimately show ?thesis
    using Write_first [OF assms(1) _ hello_name [of "[]"], of PS rnd w] assms(2)
    by (simp add: write_fragments_def set_no_delay_def plan_Panic)
qed

definition example_conn :: Conn where
  "example_conn = \<lparr>fc_tcpConn = True, fc_firstPacketWritten = False, fc_splitPacket = True, fc_splitRecord = True\<rparr>"

definition example_wire :: "unit wire" where
  "example_wire = \<lparr>w_out = [], w_outcomes = []\<rparr>"

definition example_hello :: "byte list" where
  "example_hello = client_hello (sni_extension_bytes ''www.example.org'')"

lemma example_hello_length: "length example_hello = 73" "example_hello \<noteq> []"
  by (simp_all add: example_hello_def client_hello_def sni_extension_bytes_def)

text \<open>Witness of C25.\<close>

theorem fragment_write_returns_witness: "\<exists>r. Write (\<lambda>_. ''org'') [1] example_conn example_hello example_wire = Some r"
  using fragment_write_returns [of example_hello "\<lambda>_. ''org''" "[1]" example_conn example_wire] example_hello_length by auto

text \<open>Witness of C21.\<close>

theorem fragments_carry_packet_witness:
  "\<exists>n c' w' new recs. Write (\<lambda>_. ''org'') [1] example_conn example_hello example_wire = Some (Ok ((n, None), c', w')) \<and>
     w_out w' = new \<and> tls_records (concat new) = Some recs \<and> concat (map snd recs) = drop 5 example_hello"
proof -
  let ?sn = "\<lparr>sn_Index = 58, sn_Length = 15, sn_ServerName = ''www.example.org'', sn_ExtensionsListLengthIndex = 47\<rparr>"
  have ix: "IndexTLSServerName example_hello = Some (Ok (Some ?sn))"
    using hello_name [of "''www.example.org''"] by (simp add: example_hello_def)
  have "\<exists>fs. fragment_plan (\<lambda>_. ''org'') [1] example_conn example_hello ?sn = Ok fs"
    using example_hello_length
    by (simp add: fragment_plan_def skip_dots_def cut_labels_def fragments_def example_conn_def slice_def)
  moreover have "put_all fs w = (None, w\<lparr>w_out := w_out w @ fs\<rparr>)" if "w_outcomes w = []" for fs and w :: "unit wire"
    using that by (induction fs arbitrary: w) (simp_all add: put_def next_outcome_def)
  ultimately obtain n c' w' where ok: "Write (\<lambda>_. ''org'') [1] example_conn example_hello example_wire = Some (Ok ((n, None), c', w'))"
    using Write_first [OF _ example_hello_length(2) ix, of example_conn "\<lambda>_. ''org''" "[1]" example_wire]
    by (fastforce simp: example_conn_def example_wire_def write_fragments_def send_fragments_def set_no_delay_def next_outcome_def)
  show ?thesis
    using fragments_carry_packet [OF ok _ example_hello_length(2)] example_hello_length(1) ok ix
    by (auto simp: example_conn_def example_wire_def)
qed

end
