(* ===== verification/DNS_Messages.thy ===== *)
theory DNS_Messages
  imports Route_Items Go_Binary
begin

text \<open>
  DNS messages as \<^verbatim>\<open>dns/client.go\<close> and \<^verbatim>\<open>dns/extension_edns0_subnet.go\<close> handle them: the records of the
  \<^verbatim>\<open>miekg/dns\<close> package, their times to live, the client subnet option and the responses the program makes
  itself. Copying a message is the identity on values; a function that changes a message in place returns it.
\<close>

section \<open>Messages\<close>

record question =
  q_Name :: string
  q_Qtype :: uint16
  q_Qclass :: uint16

record edns0_subnet =
  es_Family :: uint16
  es_SourceNetmask :: byte
  es_SourceScope :: byte
  es_Address :: "byte list"

text \<open>An option of an OPT record: \<open>*dns.EDNS0_SUBNET\<close>, or another type with its code and contents.\<close>

datatype edns0 = EDNS0_SUBNET edns0_subnet | EDNS0_Other uint16 "byte list"

definition edns0_Option :: "edns0 \<Rightarrow> uint16" where
  "edns0_Option e = (case e of EDNS0_SUBNET _ \<Rightarrow> 8 | EDNS0_Other code _ \<Rightarrow> code)"

datatype rdata =
    RD_A "byte list"
  | RD_AAAA "byte list"
  | RD_HTTPS "svcb_value list"
  | RD_SOA uint32                     \<comment> \<open>\<open>Minttl\<close>\<close>
  | RD_CNAME string
  | RD_TXT "string list"
  | RD_MX uint16 string
  | RD_OPT "edns0 list"
  | RD_Other string

record rr =
  hd_Name :: string
  hd_Rrtype :: uint16
  hd_Class :: uint16
  hd_Ttl :: uint32
  rr_Data :: rdata

definition TypeA :: uint16 where "TypeA = 1"
definition TypeCNAME :: uint16 where "TypeCNAME = 5"
definition TypeAAAA :: uint16 where "TypeAAAA = 28"
definition TypeOPT :: uint16 where "TypeOPT = 41"
definition TypeHTTPS :: uint16 where "TypeHTTPS = 65"
definition ClassINET :: uint16 where "ClassINET = 1"

lemmas dns_types = TypeA_def TypeCNAME_def TypeAAAA_def TypeOPT_def TypeHTTPS_def ClassINET_def

record Msg =
  m_Id :: uint16
  m_Response :: bool
  m_Authoritative :: bool
  m_RecursionDesired :: bool
  m_RecursionAvailable :: bool
  m_Rcode :: int
  m_Question :: "question list"
  m_Answer :: "rr list"
  m_Ns :: "rr list"
  m_Extra :: "rr list"

definition sections :: "Msg \<Rightarrow> rr list" where
  "sections m = m_Answer m @ m_Ns m @ m_Extra m"

text \<open>What the rule items see of a message, and the addresses it carries.\<close>

definition rr_view :: "rr \<Rightarrow> dns_rr" where
  "rr_view r = (case rr_Data r of
     RD_A ip \<Rightarrow> RR_A ip | RD_AAAA ip \<Rightarrow> RR_AAAA ip | RD_HTTPS vs \<Rightarrow> RR_HTTPS vs | _ \<Rightarrow> RR_Other (hd_Name r))"

definition msg_view :: "Msg \<Rightarrow> dns_msg" where
  "msg_view m = \<lparr>dm_Rcode = m_Rcode m, dm_Answer = map rr_view (m_Answer m), dm_Ns = map rr_view (m_Ns m),
     dm_Extra = map rr_view (m_Extra m)\<rparr>"

definition MessageToAddresses :: "route_env \<Rightarrow> Msg \<Rightarrow> addr list" where
  "MessageToAddresses ev response = DNSResponseAddresses ev (Some (msg_view response))"

definition FqdnToDomain :: "(string \<Rightarrow> bool) \<Rightarrow> string \<Rightarrow> string" where
  "FqdnToDomain IsFqdn fqdn = (if IsFqdn fqdn then butlast fqdn else fqdn)"


section \<open>Times to live\<close>

fun extractNegativeTTL :: "rr list \<Rightarrow> uint32 option" where
  "extractNegativeTTL [] = None"
| "extractNegativeTTL (record # ns) = (case rr_Data record of
     RD_SOA soaMinimum \<Rightarrow> Some (if hd_Ttl record < soaMinimum then hd_Ttl record else soaMinimum)
   | _ \<Rightarrow> extractNegativeTTL ns)"

fun min_ttl :: "rr list \<Rightarrow> uint32 \<Rightarrow> uint32" where
  "min_ttl [] timeToLive = timeToLive"
| "min_ttl (record # rs) timeToLive =
     min_ttl rs (if hd_Rrtype record = TypeOPT then timeToLive
       else if timeToLive = 0 \<or> 0 < hd_Ttl record \<and> hd_Ttl record < timeToLive then hd_Ttl record
       else timeToLive)"

definition computeTimeToLive :: "Msg \<Rightarrow> uint32" where
  "computeTimeToLive response = (case (if m_Answer response = [] then extractNegativeTTL (m_Ns response) else None) of
     Some soaTTL \<Rightarrow> soaTTL
   | None \<Rightarrow> min_ttl (sections response) 0)"

definition set_ttl :: "uint32 \<Rightarrow> rr \<Rightarrow> rr" where
  "set_ttl timeToLive record = (if hd_Rrtype record = TypeOPT then record else record\<lparr>hd_Ttl := timeToLive\<rparr>)"

definition normalizeTTL :: "Msg \<Rightarrow> uint32 \<Rightarrow> Msg" where
  "normalizeTTL response timeToLive = response\<lparr>
     m_Answer := map (set_ttl timeToLive) (m_Answer response),
     m_Ns := map (set_ttl timeToLive) (m_Ns response),
     m_Extra := map (set_ttl timeToLive) (m_Extra response)\<rparr>"


section \<open>The client subnet\<close>

text \<open>\<open>netip.AddrFromSlice\<close>, \<open>Addr.AsSlice\<close> and \<open>netip.PrefixFrom\<close>, which drops the zone and gives an
  invalid prefix for too many bits.\<close>

definition AddrFromSlice :: "byte list \<Rightarrow> addr option" where
  "AddrFromSlice bs =
     (if length bs = 4 then Some (IPv4 (word_of_nat (be_value bs)))
      else if length bs = 16 then Some (IPv6 (word_of_nat (be_value bs)) []) else None)"

definition AsSlice :: "addr \<Rightarrow> byte list" where
  "AsSlice a = (case a of ZeroAddr \<Rightarrow> [] | IPv4 w \<Rightarrow> be_bytes 4 (unat w) | IPv6 w _ \<Rightarrow> be_bytes 16 (unat w))"

definition PrefixFrom :: "addr \<Rightarrow> int \<Rightarrow> prefix" where
  "PrefixFrom a bits =
     \<lparr>pf_Addr = (case a of IPv6 w _ \<Rightarrow> IPv6 w [] | _ \<Rightarrow> a),
      pf_Bits = (if a = ZeroAddr \<or> bits < 0 \<or> int (addr_BitLen a) < bits then -1 else bits)\<rparr>"

definition zero_prefix :: prefix where
  "zero_prefix = \<lparr>pf_Addr = ZeroAddr, pf_Bits = -1\<rparr>"

fun first_subnet :: "edns0 list \<Rightarrow> edns0_subnet option" where
  "first_subnet [] = None"
| "first_subnet (EDNS0_SUBNET s # _) = Some s"
| "first_subnet (EDNS0_Other _ _ # os) = first_subnet os"

fun subnet_of_records :: "rr list \<Rightarrow> edns0_subnet option" where
  "subnet_of_records [] = None"
| "subnet_of_records (record # rs) = (case rr_Data record of
     RD_OPT os \<Rightarrow> (case first_subnet os of Some s \<Rightarrow> Some s | None \<Rightarrow> subnet_of_records rs)
   | _ \<Rightarrow> subnet_of_records rs)"

definition clientSubnetFromMessage :: "Msg \<Rightarrow> prefix" where
  "clientSubnetFromMessage message = (case subnet_of_records (m_Extra message) of
     None \<Rightarrow> zero_prefix
   | Some subnetOption \<Rightarrow> (case AddrFromSlice (es_Address subnetOption) of
       None \<Rightarrow> zero_prefix
     | Some address \<Rightarrow> PrefixFrom (addr_Unmap address) (uint (es_SourceNetmask subnetOption))))"

definition drop_subnet :: "rr \<Rightarrow> rr" where
  "drop_subnet record = (case rr_Data record of
     RD_OPT os \<Rightarrow> record\<lparr>rr_Data := RD_OPT (filter (\<lambda>e. edns0_Option e \<noteq> 8) os)\<rparr>
   | _ \<Rightarrow> record)"

definition removeClientSubnet :: "Msg \<Rightarrow> Msg" where
  "removeClientSubnet message =
     (if list_ex (\<lambda>record. case rr_Data record of RD_OPT os \<Rightarrow> list_ex (\<lambda>e. edns0_Option e = 8) os | _ \<Rightarrow> False) (m_Extra message)
      then message\<lparr>m_Extra := map drop_subnet (m_Extra message)\<rparr> else message)"

text \<open>The search \<open>findExists\<close>: the position of the OPT record and of the subnet option in it. The variable
  \<open>optRecord\<close> is assigned by every type assertion, also by one that fails.\<close>

fun find_subnet :: "edns0 list \<Rightarrow> nat \<Rightarrow> nat option" where
  "find_subnet [] j = None"
| "find_subnet (EDNS0_SUBNET _ # _) j = Some j"
| "find_subnet (EDNS0_Other _ _ # os) j = find_subnet os (Suc j)"

fun find_opt :: "rr list \<Rightarrow> nat \<Rightarrow> nat option \<Rightarrow> nat option \<times> nat option" where
  "find_opt [] i optRecord = (optRecord, None)"
| "find_opt (record # rs) i optRecord = (case rr_Data record of
     RD_OPT os \<Rightarrow> (case find_subnet os 0 of Some j \<Rightarrow> (Some i, Some j) | None \<Rightarrow> find_opt rs (Suc i) (Some i))
   | _ \<Rightarrow> find_opt rs (Suc i) None)"

definition new_subnet :: edns0_subnet where
  "new_subnet = \<lparr>es_Family = 0, es_SourceNetmask = 0, es_SourceScope = 0, es_Address = []\<rparr>"

definition fill_subnet :: "prefix \<Rightarrow> edns0_subnet \<Rightarrow> edns0_subnet" where
  "fill_subnet clientSubnet s = s\<lparr>es_Family := (case pf_Addr clientSubnet of IPv4 _ \<Rightarrow> 1 | _ \<Rightarrow> 2),
     es_SourceNetmask := word_of_int (pf_Bits clientSubnet), es_Address := AsSlice (pf_Addr clientSubnet)\<rparr>"

definition put_option :: "prefix \<Rightarrow> nat option \<Rightarrow> edns0 list \<Rightarrow> edns0 list" where
  "put_option clientSubnet subnetOption os = (case subnetOption of
     None \<Rightarrow> os @ [EDNS0_SUBNET (fill_subnet clientSubnet new_subnet)]
   | Some j \<Rightarrow> os[j := (case os ! j of EDNS0_SUBNET s \<Rightarrow> EDNS0_SUBNET (fill_subnet clientSubnet s) | e \<Rightarrow> e)])"

definition put_subnet :: "prefix \<Rightarrow> nat option \<Rightarrow> rr \<Rightarrow> rr" where
  "put_subnet clientSubnet subnetOption record = (case rr_Data record of
     RD_OPT os \<Rightarrow> record\<lparr>rr_Data := RD_OPT (put_option clientSubnet subnetOption os)\<rparr>
   | _ \<Rightarrow> record)"

definition new_opt :: rr where
  "new_opt = \<lparr>hd_Name = ''.'', hd_Rrtype = TypeOPT, hd_Class = 0, hd_Ttl = 0, rr_Data = RD_OPT []\<rparr>"

definition SetClientSubnet :: "Msg \<Rightarrow> prefix \<Rightarrow> Msg" where
  "SetClientSubnet message clientSubnet = (case find_opt (m_Extra message) 0 None of
     (None, _) \<Rightarrow> message\<lparr>m_Extra := m_Extra message @ [put_subnet clientSubnet None new_opt]\<rparr>
   | (Some i, subnetOption) \<Rightarrow>
       message\<lparr>m_Extra := (m_Extra message)[i := put_subnet clientSubnet subnetOption (m_Extra message ! i)]\<rparr>)"

definition is_padding :: "edns0 \<Rightarrow> bool" where
  "is_padding e = (edns0_Option e = 12)"

definition stripDNSPadding :: "Msg \<Rightarrow> Msg" where
  "stripDNSPadding response = response\<lparr>m_Extra := map (\<lambda>record. case rr_Data record of
     RD_OPT os \<Rightarrow> record\<lparr>rr_Data := RD_OPT (filter (\<lambda>e. \<not> is_padding e) os)\<rparr> | _ \<Rightarrow> record) (m_Extra response)\<rparr>"


section \<open>Responses made by the program\<close>

definition FixedResponseStatus :: "Msg \<Rightarrow> int \<Rightarrow> Msg" where
  "FixedResponseStatus message rcode =
     \<lparr>m_Id = m_Id message, m_Response = True, m_Authoritative = True, m_RecursionDesired = True,
      m_RecursionAvailable = True, m_Rcode = rcode, m_Question = m_Question message, m_Answer = [], m_Ns = [], m_Extra = []\<rparr>"

definition fixed :: "uint16 \<Rightarrow> question \<Rightarrow> rr list \<Rightarrow> Msg" where
  "fixed ident question answer =
     \<lparr>m_Id = ident, m_Response = True, m_Authoritative = True, m_RecursionDesired = True, m_RecursionAvailable = True,
      m_Rcode = 0, m_Question = [question], m_Answer = answer, m_Ns = [], m_Extra = []\<rparr>"

definition address_record :: "question \<Rightarrow> uint32 \<Rightarrow> addr \<Rightarrow> rr list" where
  "address_record question timeToLive address = (case address of
     IPv4 _ \<Rightarrow> if q_Qtype question = TypeA
       then [\<lparr>hd_Name = q_Name question, hd_Rrtype = TypeA, hd_Class = ClassINET, hd_Ttl = timeToLive, rr_Data = RD_A (AsSlice address)\<rparr>] else []
   | IPv6 _ _ \<Rightarrow> if q_Qtype question = TypeAAAA
       then [\<lparr>hd_Name = q_Name question, hd_Rrtype = TypeAAAA, hd_Class = ClassINET, hd_Ttl = timeToLive, rr_Data = RD_AAAA (AsSlice address)\<rparr>] else []
   | ZeroAddr \<Rightarrow> [])"

definition FixedResponse :: "uint16 \<Rightarrow> question \<Rightarrow> addr list \<Rightarrow> uint32 \<Rightarrow> Msg" where
  "FixedResponse ident question addresses timeToLive = fixed ident question (concat (map (address_record question timeToLive) addresses))"

definition FixedResponseCNAME :: "uint16 \<Rightarrow> question \<Rightarrow> string \<Rightarrow> uint32 \<Rightarrow> Msg" where
  "FixedResponseCNAME ident question record timeToLive = fixed ident question
     [\<lparr>hd_Name = q_Name question, hd_Rrtype = TypeCNAME, hd_Class = ClassINET, hd_Ttl = timeToLive, rr_Data = RD_CNAME record\<rparr>]"

definition FixedResponseTXT :: "uint16 \<Rightarrow> question \<Rightarrow> string list \<Rightarrow> uint32 \<Rightarrow> Msg" where
  "FixedResponseTXT ident question records timeToLive = fixed ident question
     [\<lparr>hd_Name = q_Name question, hd_Rrtype = TypeA, hd_Class = ClassINET, hd_Ttl = timeToLive, rr_Data = RD_TXT records\<rparr>]"

definition FixedResponseMX :: "uint16 \<Rightarrow> question \<Rightarrow> (uint16 \<times> string) list \<Rightarrow> uint32 \<Rightarrow> Msg" where
  "FixedResponseMX ident question records timeToLive = fixed ident question
     (map (\<lambda>(pref, host). \<lparr>hd_Name = q_Name question, hd_Rrtype = TypeA, hd_Class = ClassINET, hd_Ttl = timeToLive, rr_Data = RD_MX pref host\<rparr>) records)"


section \<open>What the times to live mean\<close>

text \<open>The records that count: not an OPT record, whose field of that name holds flags.\<close>

definition rr_ttls :: "rr list \<Rightarrow> uint32 list" where
  "rr_ttls rs = map hd_Ttl (filter (\<lambda>r. hd_Rrtype r \<noteq> TypeOPT) rs)"

lemma rr_ttls_simps [simp]: "rr_ttls [] = []" "rr_ttls (r # rs) = (if hd_Rrtype r = TypeOPT then rr_ttls rs else hd_Ttl r # rr_ttls rs)"
  by (simp_all add: rr_ttls_def)

lemma min_ttl_zero: "min_ttl rs t = 0 \<longleftrightarrow> t = 0 \<and> (\<forall>x \<in> set (rr_ttls rs). x = 0)"
  by (induction rs t rule: min_ttl.induct) (auto simp: word_gt_0)

lemma min_ttl_le: "x \<in> insert t (set (rr_ttls rs)) \<Longrightarrow> 0 < x \<Longrightarrow> min_ttl rs t \<le> x"
proof (induction rs t arbitrary: x rule: min_ttl.induct)
  case (2 r rs t)
  let ?t = "if hd_Rrtype r = TypeOPT then t else if t = 0 \<or> 0 < hd_Ttl r \<and> hd_Ttl r < t then hd_Ttl r else t"
  show ?case
  proof (cases "x \<in> set (rr_ttls rs)")
    case True
    then show ?thesis using "2.IH" [of x] "2.prems" by simp
  next
    case False
    then have x: "x = t \<or> hd_Rrtype r \<noteq> TypeOPT \<and> x = hd_Ttl r" using "2.prems" by (auto split: if_splits)
    then have "0 < ?t" "?t \<le> x" using "2.prems"(2) by (auto simp: word_gt_0)
    then show ?thesis using "2.IH" [of ?t] by (simp del: if_split)
  qed
qed simp

lemma min_ttl_in: "min_ttl rs t \<in> insert t (set (rr_ttls rs))"
  by (induction rs t rule: min_ttl.induct) (auto split: if_splits)

text \<open>The time to live of a response with answers is the smallest positive one among its records, and zero when there is
  none; the OPT record does not count. After \<open>normalizeTTL\<close> every record has the time to live that was set.
\<close>

theorem computeTimeToLive_spec:
  "m_Answer response \<noteq> [] \<Longrightarrow>
     (computeTimeToLive response = 0 \<longleftrightarrow> (\<forall>t \<in> set (rr_ttls (sections response)). t = 0)) \<and>
     (\<forall>t \<in> set (rr_ttls (sections response)). 0 < t \<longrightarrow> computeTimeToLive response \<le> t) \<and>
     (0 < computeTimeToLive response \<longrightarrow> computeTimeToLive response \<in> set (rr_ttls (sections response))) \<and>
     (\<forall>t \<in> set (rr_ttls (sections (normalizeTTL response ttl))). t = ttl)"
proof -
  assume a: "m_Answer response \<noteq> []"
  then have c: "computeTimeToLive response = min_ttl (sections response) 0" by (simp add: computeTimeToLive_def)
  have "\<forall>t \<in> set (rr_ttls (sections (normalizeTTL response ttl))). t = ttl"
    by (auto simp: rr_ttls_def sections_def normalizeTTL_def set_ttl_def)
  then show ?thesis
    using min_ttl_zero [of "sections response" 0] min_ttl_in [of "sections response" 0] min_ttl_le [of _ 0 "sections response"]
    unfolding c by auto
qed


text \<open>An instance: an address record, one that must not be kept, and the flags of an OPT record.\<close>

theorem computeTimeToLive_spec_witness:
  "let r = (\<lambda>ty t. \<lparr>hd_Name = ''a.'', hd_Rrtype = ty, hd_Class = 1, hd_Ttl = t, rr_Data = RD_Other []\<rparr>);
       m = (fixed 7 \<lparr>q_Name = ''a.'', q_Qtype = 1, q_Qclass = 1\<rparr> [r 1 300, r 5 0])\<lparr>m_Extra := [r 41 1]\<rparr>
   in computeTimeToLive m \<le> 300 \<and> computeTimeToLive m \<noteq> 0"
proof -
  let ?r = "\<lambda>ty t. \<lparr>hd_Name = ''a.'', hd_Rrtype = ty, hd_Class = 1, hd_Ttl = t, rr_Data = RD_Other []\<rparr>"
  let ?m = "(fixed 7 \<lparr>q_Name = ''a.'', q_Qtype = 1, q_Qclass = 1\<rparr> [?r 1 300, ?r 5 0])\<lparr>m_Extra := [?r 41 1]\<rparr>"
  have "m_Answer ?m \<noteq> []" by (simp add: fixed_def)
  from computeTimeToLive_spec [OF this, of 1]
  show ?thesis by (simp add: fixed_def sections_def dns_types)
qed


section \<open>The client subnet round trip\<close>

lemma subnet_of_records_append:
  "subnet_of_records (xs @ ys) = (case subnet_of_records xs of None \<Rightarrow> subnet_of_records ys | Some s \<Rightarrow> Some s)"
  by (induction xs) (auto split: rdata.splits option.splits)

lemma first_subnet_None: "first_subnet os = None \<longleftrightarrow> find_subnet os j = None"
  by (induction os j rule: find_subnet.induct) simp_all

lemma find_subnet_Some:
  "find_subnet os k = Some j \<Longrightarrow> k \<le> j \<and> j - k < length os \<and> (\<exists>s. os ! (j - k) = EDNS0_SUBNET s) \<and> first_subnet (take (j - k) os) = None"
proof (induction os k rule: find_subnet.induct)
  case (3 a b os k)
  then have "Suc k \<le> j" "j - k = Suc (j - Suc k)" by auto
  then show ?case using 3 by simp
qed auto

lemma first_subnet_append: "first_subnet (xs @ ys) = (case first_subnet xs of None \<Rightarrow> first_subnet ys | Some s \<Rightarrow> Some s)"
  by (induction xs rule: first_subnet.induct) simp_all

lemma find_opt_None:
  "find_opt xs k cur = (opt, None) \<Longrightarrow> subnet_of_records xs = None \<and>
     (opt = None \<or> opt = cur \<or> (\<exists>i os. opt = Some (k + i) \<and> i < length xs \<and> rr_Data (xs ! i) = RD_OPT os))"
proof (induction xs k cur rule: find_opt.induct)
  case (2 r rs k cur)
  show ?case
  proof (cases "\<exists>os. rr_Data r = RD_OPT os")
    case True
    then obtain os where os: "rr_Data r = RD_OPT os" ..
    then have n: "find_subnet os 0 = None" and f: "find_opt rs (Suc k) (Some k) = (opt, None)" using "2.prems" by (auto split: option.splits)
    have "subnet_of_records rs = None \<and> (opt = None \<or> opt = Some k \<or> (\<exists>i os. opt = Some (Suc k + i) \<and> i < length rs \<and> rr_Data (rs ! i) = RD_OPT os))"
      using os n f "2.IH" by auto
    then show ?thesis
      using os n first_subnet_None [of os 0] by (fastforce intro: exI [of _ "Suc _"] exI [of _ "0 :: nat"])
  next
    case False
    then have f: "find_opt rs (Suc k) None = (opt, None)" and s: "subnet_of_records (r # rs) = subnet_of_records rs"
      using "2.prems" by (auto split: rdata.splits)
    have "subnet_of_records rs = None \<and> (opt = None \<or> (\<exists>i os. opt = Some (Suc k + i) \<and> i < length rs \<and> rr_Data (rs ! i) = RD_OPT os))"
      using False f "2.IH" by (cases "rr_Data r") auto
    then show ?thesis unfolding s by (fastforce intro: exI [of _ "Suc _"])
  qed
qed simp

lemma find_opt_Some:
  "find_opt xs k cur = (opt, Some j) \<Longrightarrow> \<exists>i os. opt = Some (k + i) \<and> i < length xs \<and> rr_Data (xs ! i) = RD_OPT os \<and>
     find_subnet os 0 = Some j \<and> subnet_of_records (take i xs) = None"
proof (induction xs k cur rule: find_opt.induct)
  case (2 r rs k cur)
  show ?case
  proof (cases "\<exists>os. rr_Data r = RD_OPT os \<and> find_subnet os 0 = Some j \<and> opt = Some k")
    case True
    then show ?thesis by (intro exI [of _ "0 :: nat"]) auto
  next
    case False
    have sk: "subnet_of_records (r # xs) = subnet_of_records xs" for xs
    proof (cases "\<exists>os. rr_Data r = RD_OPT os")
      case True
      then obtain os where os: "rr_Data r = RD_OPT os" ..
      then have "find_subnet os 0 = None" using "2.prems" False by (auto split: option.splits)
      then show ?thesis using os first_subnet_None [of os 0] by simp
    qed (simp split: rdata.splits)
    obtain cur' where "find_opt rs (Suc k) cur' = (opt, Some j)"
      "\<exists>i os. opt = Some (Suc k + i) \<and> i < length rs \<and> rr_Data (rs ! i) = RD_OPT os \<and> find_subnet os 0 = Some j \<and> subnet_of_records (take i rs) = None"
      using "2.prems" "2.IH" False by (auto split: rdata.splits option.splits)
    then obtain i os where "opt = Some (Suc k + i)" "i < length rs" "rr_Data (rs ! i) = RD_OPT os" "find_subnet os 0 = Some j" "subnet_of_records (take i rs) = None" by blast
    then show ?thesis using sk by (intro exI [of _ "Suc i"]) auto
  qed
qed simp

lemma subnet_of_put:
  assumes "i < length xs" "rr_Data (xs ! i) = RD_OPT os" "subnet_of_records (take i xs) = None" "first_subnet os' = Some s"
  shows "subnet_of_records (xs[i := (xs ! i)\<lparr>rr_Data := RD_OPT os'\<rparr>]) = Some s"
  using assms by (simp add: upd_conv_take_nth_drop subnet_of_records_append)

lemma subnet_None_take: "subnet_of_records xs = None \<Longrightarrow> subnet_of_records (take i xs) = None"
  by (metis append_take_drop_id option.case_eq_if option.distinct(1) subnet_of_records_append option.collapse)

text \<open>After \<open>SetClientSubnet\<close> the first subnet option of the message is the one that was filled in.\<close>

lemma subnet_of_SetClientSubnet: "\<exists>s. subnet_of_records (m_Extra (SetClientSubnet m p)) = Some (fill_subnet p s)"
proof (cases "find_opt (m_Extra m) 0 None")
  case (Pair opt sub)
  show ?thesis
  proof (cases sub)
    case None
    note n = find_opt_None [OF Pair [unfolded None]]
    show ?thesis
    proof (cases opt)
      case opt: None
      then show ?thesis using n Pair by (auto simp: SetClientSubnet_def subnet_of_records_append put_subnet_def new_opt_def put_option_def)
    next
      case (Some i)
      then obtain os where os: "i < length (m_Extra m)" "rr_Data (m_Extra m ! i) = RD_OPT os" using n by auto
      have "subnet_of_records (take (Suc i) (m_Extra m)) = None" using n subnet_None_take by blast
      then have f: "first_subnet os = None" "subnet_of_records (take i (m_Extra m)) = None"
        using os n subnet_None_take by (auto simp: take_Suc_conv_app_nth subnet_of_records_append split: option.splits)
      from subnet_of_put [OF os f(2), of "os @ [EDNS0_SUBNET (fill_subnet p new_subnet)]" "fill_subnet p new_subnet"]
      show ?thesis using f(1) Some Pair None os by (auto simp: SetClientSubnet_def put_subnet_def put_option_def first_subnet_append)
    qed
  next
    case (Some j)
    from find_opt_Some [OF Pair [unfolded Some]] obtain i os where i: "opt = Some i" "i < length (m_Extra m)" "rr_Data (m_Extra m ! i) = RD_OPT os"
      "find_subnet os 0 = Some j" "subnet_of_records (take i (m_Extra m)) = None" by auto
    from find_subnet_Some [OF i(4)] obtain s where s: "j < length os" "os ! j = EDNS0_SUBNET s" "first_subnet (take j os) = None" by auto
    have "first_subnet (put_option p (Some j) os) = Some (fill_subnet p s)"
      using s by (simp add: put_option_def upd_conv_take_nth_drop first_subnet_append)
    from subnet_of_put [OF i(2,3,5) this] show ?thesis
      using i Pair Some by (auto simp: SetClientSubnet_def put_subnet_def)
  qed
qed

lemma AddrFromSlice_AsSlice:
  assumes "a \<noteq> ZeroAddr" "addr_zone a = []"
  shows "AddrFromSlice (AsSlice a) = Some a"
proof (cases a)
  case (IPv4 w)
  have "unat w < 256 ^ 4" using unsigned_less [of w, where 'a = nat] by simp
  then show ?thesis using IPv4 be_value_bytes [of "unat w" 4] by (simp add: AddrFromSlice_def AsSlice_def)
next
  case (IPv6 w z)
  have "unat w < 256 ^ 16" using unsigned_less [of w, where 'a = nat] by simp
  then show ?thesis using IPv6 assms(2) be_value_bytes [of "unat w" 16] by (simp add: AddrFromSlice_def AsSlice_def addr_zone_def)
qed (use assms in simp)

lemma subnet_set_get:
  assumes "prefix_IsValid p" "addr_zone (pf_Addr p) = []" "addr_Unmap (pf_Addr p) = pf_Addr p"
  shows "clientSubnetFromMessage (SetClientSubnet m p) = p"
proof -
  from subnet_of_SetClientSubnet obtain s where s: "subnet_of_records (m_Extra (SetClientSubnet m p)) = Some (fill_subnet p s)" by blast
  have v: "pf_Addr p \<noteq> ZeroAddr" "0 \<le> pf_Bits p" "pf_Bits p \<le> int (addr_BitLen (pf_Addr p))" using assms(1) by (simp_all add: prefix_IsValid_def)
  then have "pf_Bits p < 256" by (simp add: addr_BitLen_def split: addr.splits)
  then have u: "uint (word_of_int (pf_Bits p) :: byte) = pf_Bits p" using v(2) by (simp add: uint_word_of_int)
  have "PrefixFrom (pf_Addr p) (pf_Bits p) = p" using v assms(2) by (cases p, cases "pf_Addr p") (auto simp: PrefixFrom_def addr_zone_def)
  then show ?thesis
    using AddrFromSlice_AsSlice [OF v(1) assms(2)] assms(3) u by (simp add: clientSubnetFromMessage_def s fill_subnet_def)
qed

lemma subnet_removed: "clientSubnetFromMessage (removeClientSubnet m) = zero_prefix"
proof -
  have f: "first_subnet (filter (\<lambda>e. edns0_Option e \<noteq> 8) os) = None" for os
    by (induction os) (auto simp: edns0_Option_def split: edns0.splits)
  have n: "(\<forall>e \<in> set os. edns0_Option e \<noteq> 8) \<Longrightarrow> first_subnet os = None" for os
    by (induction os rule: first_subnet.induct) (simp_all add: edns0_Option_def)
  have "subnet_of_records (map drop_subnet xs) = None" for xs
    by (induction xs) (auto simp: drop_subnet_def f split: rdata.splits)
  moreover have "(\<forall>r \<in> set xs. \<forall>os. rr_Data r = RD_OPT os \<longrightarrow> (\<forall>e \<in> set os. edns0_Option e \<noteq> 8)) \<Longrightarrow> subnet_of_records xs = None" for xs
    by (induction xs) (auto simp: n split: rdata.splits)
  ultimately have "subnet_of_records (m_Extra (removeClientSubnet m)) = None"
    by (auto simp: removeClientSubnet_def list_ex_iff split: rdata.splits)
  then show ?thesis by (simp add: clientSubnetFromMessage_def)
qed

text \<open>The subnet that \<open>SetClientSubnet\<close> puts into a message, whatever options and records the message has, is the one that
  \<open>clientSubnetFromMessage\<close> reads back, and after \<open>removeClientSubnet\<close> there is none.
\<close>

theorem client_subnet_roundtrip:
  assumes "prefix_IsValid p" "addr_zone (pf_Addr p) = []" "addr_Unmap (pf_Addr p) = pf_Addr p"
  shows "clientSubnetFromMessage (SetClientSubnet m p) = p \<and> clientSubnetFromMessage (removeClientSubnet m) = zero_prefix"
  using subnet_set_get [OF assms] subnet_removed by simp

lemma subnet_keeps_rest [simp]:
  "m_Question (SetClientSubnet m p) = m_Question m" "m_Question (removeClientSubnet m) = m_Question m"
  "m_Id (SetClientSubnet m p) = m_Id m" "m_Id (removeClientSubnet m) = m_Id m"
  by (auto simp: SetClientSubnet_def removeClientSubnet_def split: prod.splits option.splits)

text \<open>An instance: the subnet 192.0.2.0/24 in a message with an OPT record.\<close>

theorem client_subnet_roundtrip_witness:
  "clientSubnetFromMessage (SetClientSubnet ((fixed 1 \<lparr>q_Name = ''a.'', q_Qtype = 1, q_Qclass = 1\<rparr> [])\<lparr>m_Extra := [new_opt]\<rparr>)
     \<lparr>pf_Addr = IPv4 0xC0000200, pf_Bits = 24\<rparr>) = \<lparr>pf_Addr = IPv4 0xC0000200, pf_Bits = 24\<rparr>"
  using client_subnet_roundtrip [of "\<lparr>pf_Addr = IPv4 0xC0000200, pf_Bits = 24\<rparr>"]
  by (simp add: prefix_IsValid_def addr_BitLen_def addr_zone_def addr_Unmap_def)

text \<open>An OPT record that is not the last additional record is overlooked, and the message gets a second one.\<close>

lemma subnet_second_opt:
  assumes "m_Extra m = [opt, r]" "rr_Data opt = RD_OPT os" "first_subnet os = None" "\<nexists>os'. rr_Data r = RD_OPT os'"
  shows "m_Extra (SetClientSubnet m p) = [opt, r, put_subnet p None new_opt]"
  using assms first_subnet_None [of os 0] by (auto simp: SetClientSubnet_def split: rdata.splits)

text \<open>The answers of \<open>FixedResponseTXT\<close> and \<open>FixedResponseMX\<close> carry the type of an address record.\<close>

lemma fixed_text_has_type_A: "\<forall>r \<in> set (m_Answer (FixedResponseTXT i q ts t) @ m_Answer (FixedResponseMX i q ms t)). hd_Rrtype r = TypeA"
  by (auto simp: FixedResponseTXT_def FixedResponseMX_def fixed_def)

end
