(* ===== verification/FakeIP.thy ===== *)
theory FakeIP
  imports DNS_Messages
begin

unbundle bit_operations_syntax

text \<open>
  The fake address store of the DNS server type \<open>fakeip\<close>, \<^verbatim>\<open>dns/transport/fakeip\<close>: the in-memory
  storage (\<^verbatim>\<open>memory.go\<close>), the allocator (\<^verbatim>\<open>store.go\<close>) and the transport's answer (\<^verbatim>\<open>fakeip.go\<close>). The
  allocator uses a storage through the interface \<open>adapter.FakeIPStorage\<close>, here a record of operations with
  the laws of the locale \<open>fakeip_storage\<close>, which the in-memory storage meets. Each call is one step: the
  mutex of the store covers the allocation.
\<close>

section \<open>Addresses\<close>

definition addr_Is4 :: "addr \<Rightarrow> bool" where
  "addr_Is4 a = (case a of IPv4 _ \<Rightarrow> True | _ \<Rightarrow> False)"

text \<open>\<open>netip.Addr.Next\<close>: the zero address after the last one.\<close>

definition addr_Next :: "addr \<Rightarrow> addr" where
  "addr_Next a = (case a of
     ZeroAddr \<Rightarrow> ZeroAddr
   | IPv4 w \<Rightarrow> if w = - 1 then ZeroAddr else IPv4 (w + 1)
   | IPv6 w z \<Rightarrow> if w = - 1 then ZeroAddr else IPv6 (w + 1) z)"

definition addr_As16 :: "addr \<Rightarrow> 128 word" where
  "addr_As16 a = (case a of ZeroAddr \<Rightarrow> 0 | IPv4 w \<Rightarrow> 0xFFFF00000000 OR ucast w | IPv6 w _ \<Rightarrow> w)"

text \<open>The loop sets the bits from the prefix length on; bit \<open>i\<close> of the byte array is bit \<open>127 - i\<close> of the word.\<close>

definition set_bits_from :: "nat \<Rightarrow> 128 word \<Rightarrow> 128 word" where
  "set_bits_from bits raw = fold (\<lambda>i raw. raw OR push_bit (127 - i) 1) [bits..<128] raw"

definition broadcastAddress :: "prefix \<Rightarrow> addr" where
  "broadcastAddress p =
     (let a = pf_Addr p;
          bits = (if addr_Is4 a then nat (pf_Bits p) + 96 else nat (pf_Bits p));
          raw = set_bits_from bits (addr_As16 a)
      in if addr_Is4 a then IPv4 (ucast raw) else IPv6 raw [])"


section \<open>Storage\<close>

record FakeIPMetadata =
  fm_Inet4Range :: prefix
  fm_Inet6Range :: prefix
  fm_Inet4Current :: addr
  fm_Inet6Current :: addr

text \<open>\<open>adapter.FakeIPStorage\<close>. Storing reports whether it succeeded.\<close>

record 's storage =
  st_Metadata :: "'s \<Rightarrow> FakeIPMetadata option \<times> 's"
  st_SaveMetadata :: "FakeIPMetadata \<Rightarrow> 's \<Rightarrow> bool \<times> 's"
  st_SaveMetadataAsync :: "FakeIPMetadata \<Rightarrow> 's \<Rightarrow> 's"
  st_Store :: "addr \<Rightarrow> string \<Rightarrow> 's \<Rightarrow> bool \<times> 's"
  st_Load :: "'s \<Rightarrow> addr \<Rightarrow> string option"
  st_LoadDomain :: "'s \<Rightarrow> string \<Rightarrow> bool \<Rightarrow> addr option"
  st_Reset :: "'s \<Rightarrow> 's"

record MemoryStorage =
  ms_addressCache :: "(addr, string) gomap"
  ms_domainCache4 :: "(string, addr) gomap"
  ms_domainCache6 :: "(string, addr) gomap"

definition NewMemoryStorage :: MemoryStorage where
  "NewMemoryStorage = \<lparr>ms_addressCache = [], ms_domainCache4 = [], ms_domainCache6 = []\<rparr>"

definition mem_Store :: "addr \<Rightarrow> string \<Rightarrow> MemoryStorage \<Rightarrow> bool \<times> MemoryStorage" where
  "mem_Store address domain s =
     (let s1 = (case gm_get (ms_addressCache s) address of
            None \<Rightarrow> s
          | Some oldDomain \<Rightarrow>
              if addr_Is4 address then s\<lparr>ms_domainCache4 := gm_del oldDomain (ms_domainCache4 s)\<rparr>
              else s\<lparr>ms_domainCache6 := gm_del oldDomain (ms_domainCache6 s)\<rparr>);
          s2 = s1\<lparr>ms_addressCache := gm_set address domain (ms_addressCache s1)\<rparr>
      in (True,
          if addr_Is4 address then s2\<lparr>ms_domainCache4 := gm_set domain address (ms_domainCache4 s2)\<rparr>
          else s2\<lparr>ms_domainCache6 := gm_set domain address (ms_domainCache6 s2)\<rparr>))"

definition mem_Load :: "MemoryStorage \<Rightarrow> addr \<Rightarrow> string option" where
  "mem_Load s address = gm_get (ms_addressCache s) address"

definition mem_LoadDomain :: "MemoryStorage \<Rightarrow> string \<Rightarrow> bool \<Rightarrow> addr option" where
  "mem_LoadDomain s domain isIPv6 =
     (if \<not> isIPv6 then gm_get (ms_domainCache4 s) domain else gm_get (ms_domainCache6 s) domain)"

definition mem_Reset :: "MemoryStorage \<Rightarrow> MemoryStorage" where
  "mem_Reset s = NewMemoryStorage"

definition memory_storage :: "MemoryStorage storage" where
  "memory_storage = \<lparr>st_Metadata = (\<lambda>s. (None, s)), st_SaveMetadata = (\<lambda>_ s. (True, s)), st_SaveMetadataAsync = (\<lambda>_ s. s),
     st_Store = mem_Store, st_Load = mem_Load, st_LoadDomain = mem_LoadDomain, st_Reset = mem_Reset\<rparr>"


section \<open>The store\<close>

record 's Store =
  fs_inet4Range :: prefix
  fs_inet6Range :: prefix
  fs_inet4Last :: addr
  fs_inet6Last :: addr
  fs_storage :: "'s option"
  fs_inet4Current :: addr
  fs_inet6Current :: addr

definition NewStore :: "prefix \<Rightarrow> prefix \<Rightarrow> 's Store" where
  "NewStore inet4Range inet6Range =
     \<lparr>fs_inet4Range = inet4Range, fs_inet6Range = inet6Range,
      fs_inet4Last = (if prefix_IsValid inet4Range then broadcastAddress inet4Range else ZeroAddr),
      fs_inet6Last = (if prefix_IsValid inet6Range then broadcastAddress inet6Range else ZeroAddr),
      fs_storage = None, fs_inet4Current = ZeroAddr, fs_inet6Current = ZeroAddr\<rparr>"

definition start_fresh :: "'s storage \<Rightarrow> 's \<Rightarrow> 's Store \<Rightarrow> 's Store" where
  "start_fresh S storage s = s\<lparr>
     fs_inet4Current := (if prefix_IsValid (fs_inet4Range s) then addr_Next (pf_Addr (fs_inet4Range s)) else fs_inet4Current s),
     fs_inet6Current := (if prefix_IsValid (fs_inet6Range s) then addr_Next (pf_Addr (fs_inet6Range s)) else fs_inet6Current s),
     fs_storage := Some (st_Reset S storage)\<rparr>"

text \<open>\<open>Start\<close> on the storage it chose: the cache file if there is one that keeps fake addresses, else a new
  in-memory one.\<close>

definition Start :: "'s storage \<Rightarrow> 's \<Rightarrow> 's Store \<Rightarrow> 's Store" where
  "Start S storage s =
     (case st_Metadata S storage of (metadata, storage1) \<Rightarrow>
        (case metadata of
           Some m \<Rightarrow>
             if fm_Inet4Range m = fs_inet4Range s \<and> fm_Inet6Range m = fs_inet6Range s
             then s\<lparr>fs_inet4Current := fm_Inet4Current m, fs_inet6Current := fm_Inet6Current m, fs_storage := Some storage1\<rparr>
             else start_fresh S storage1 s
         | None \<Rightarrow> start_fresh S storage1 s))"

definition Contains :: "'s Store \<Rightarrow> addr \<Rightarrow> bool" where
  "Contains s address = (prefix_Contains (fs_inet4Range s) address \<or> prefix_Contains (fs_inet6Range s) address)"

definition metadata_of :: "'s Store \<Rightarrow> FakeIPMetadata" where
  "metadata_of s = \<lparr>fm_Inet4Range = fs_inet4Range s, fm_Inet6Range = fs_inet6Range s,
     fm_Inet4Current = fs_inet4Current s, fm_Inet6Current = fs_inet6Current s\<rparr>"

definition Close :: "'s storage \<Rightarrow> 's Store \<Rightarrow> bool \<times> 's Store" where
  "Close S s = (case fs_storage s of
     None \<Rightarrow> (True, s)
   | Some storage \<Rightarrow> (case st_SaveMetadata S (metadata_of s) storage of (ok, storage') \<Rightarrow> (ok, s\<lparr>fs_storage := Some storage'\<rparr>)))"

datatype fakeip_error = MissingIPv4Range | MissingIPv6Range | OnlyIPQueries | DomainTooLong | MissingRange

definition next_address :: "prefix \<Rightarrow> addr \<Rightarrow> addr \<Rightarrow> addr" where
  "next_address rng lst current =
     (let nextAddress = addr_Next current
      in if nextAddress = lst \<or> \<not> prefix_Contains rng nextAddress then addr_Next (addr_Next (pf_Addr rng)) else nextAddress)"

text \<open>The rest of \<open>Create\<close> once an address is chosen. A failed store is only logged.\<close>

definition remember :: "'s storage \<Rightarrow> 's \<Rightarrow> addr \<Rightarrow> string \<Rightarrow> 's Store \<Rightarrow> (fakeip_error, addr) res \<times> 's Store" where
  "remember S storage address domain s =
     (case st_Store S address domain storage of (_, storage') \<Rightarrow>
        (Ok address, s\<lparr>fs_storage := Some (st_SaveMetadataAsync S (metadata_of s) storage')\<rparr>))"

definition Create :: "'s storage \<Rightarrow> string \<Rightarrow> bool \<Rightarrow> 's Store \<Rightarrow> (fakeip_error, addr) res \<times> 's Store" where
  "Create S domain isIPv6 s = (case fs_storage s of
     None \<Rightarrow> (Panic, s)
   | Some storage \<Rightarrow> (case st_LoadDomain S storage domain isIPv6 of
       Some address \<Rightarrow> (Ok address, s)
     | None \<Rightarrow>
         if \<not> isIPv6 then
           (if \<not> addr_IsValid (fs_inet4Current s) then (Err MissingIPv4Range, s)
            else let nextAddress = next_address (fs_inet4Range s) (fs_inet4Last s) (fs_inet4Current s)
                 in remember S storage nextAddress domain (s\<lparr>fs_inet4Current := nextAddress\<rparr>))
         else
           (if \<not> addr_IsValid (fs_inet6Current s) then (Err MissingIPv6Range, s)
            else let nextAddress = next_address (fs_inet6Range s) (fs_inet6Last s) (fs_inet6Current s)
                 in remember S storage nextAddress domain (s\<lparr>fs_inet6Current := nextAddress\<rparr>))))"

definition Lookup :: "'s storage \<Rightarrow> addr \<Rightarrow> 's Store \<Rightarrow> (fakeip_error, string option) res" where
  "Lookup S address s = (case fs_storage s of None \<Rightarrow> Panic | Some storage \<Rightarrow> Ok (st_Load S storage address))"

definition Reset :: "'s storage \<Rightarrow> 's Store \<Rightarrow> (fakeip_error, 's Store) res" where
  "Reset S s = (case fs_storage s of None \<Rightarrow> Panic | Some storage \<Rightarrow> Ok (s\<lparr>fs_storage := Some (st_Reset S storage)\<rparr>))"


section \<open>The transport\<close>

record 's Transport =
  ft_store :: "'s Store"
  ft_inet4Enabled :: bool
  ft_inet6Enabled :: bool

definition NewTransport :: "prefix \<Rightarrow> prefix \<Rightarrow> (fakeip_error, 's Transport) res" where
  "NewTransport inet4Range inet6Range =
     (if \<not> prefix_IsValid inet4Range \<and> \<not> prefix_IsValid inet6Range then Err MissingRange
      else Ok \<lparr>ft_store = NewStore inet4Range inet6Range, ft_inet4Enabled = prefix_IsValid inet4Range,
               ft_inet6Enabled = prefix_IsValid inet6Range\<rparr>)"

text \<open>The answer to a question of type A (1), AAAA (28) or another: no address, or one.\<close>

definition Exchange :: "'s storage \<Rightarrow> (string \<Rightarrow> bool) \<Rightarrow> uint16 \<Rightarrow> string \<Rightarrow> 's Transport \<Rightarrow> (fakeip_error, addr list) res \<times> 's Transport" where
  "Exchange S IsFqdn qtype name t =
     (if qtype \<noteq> 1 \<and> qtype \<noteq> 28 then (Err OnlyIPQueries, t)
      else if qtype = 1 \<and> \<not> ft_inet4Enabled t \<or> qtype = 28 \<and> \<not> ft_inet6Enabled t then (Ok [], t)
      else let domain = FqdnToDomain IsFqdn name in
        if 255 < length domain then (Err DomainTooLong, t)
        else (case Create S domain (qtype = 28) (ft_store t) of (r, store) \<Rightarrow>
          (res_bind r (\<lambda>address. Ok [address]), t\<lparr>ft_store := store\<rparr>)))"


section \<open>Address arithmetic\<close>

definition lo :: "prefix \<Rightarrow> nat" where
  "lo p = addr_bits (pf_Addr p)"

definition size_of :: "prefix \<Rightarrow> nat" where
  "size_of p = 2 ^ (addr_BitLen (pf_Addr p) - nat (pf_Bits p))"

definition hi :: "prefix \<Rightarrow> nat" where
  "hi p = lo p div size_of p * size_of p + (size_of p - 1)"

text \<open>The address of the family of a range with a given number.\<close>

definition nth_addr :: "prefix \<Rightarrow> nat \<Rightarrow> addr" where
  "nth_addr p n = (case pf_Addr p of IPv4 _ \<Rightarrow> IPv4 (word_of_nat n) | _ \<Rightarrow> IPv6 (word_of_nat n) [])"

text \<open>A range with an address to hand out: two above its base and below its last.\<close>

definition roomy :: "prefix \<Rightarrow> bool" where
  "roomy p = (prefix_IsValid p \<and> addr_zone (pf_Addr p) = [] \<and> lo p + 2 < hi p)"

lemma or_mask_nat: "n OR mask m = n div 2 ^ m * 2 ^ m + (2 ^ m - 1)" for n :: nat
proof -
  have "n OR mask m = push_bit m (drop_bit m n) OR mask m"
    by (rule bit_eqI) (auto simp: bit_or_iff bit_mask_iff bit_push_bit_iff bit_drop_bit_eq)
  also have "\<dots> = push_bit m (drop_bit m n) + mask m"
    by (rule disjunctive_add_eq_or [symmetric]) (auto simp: bit_eq_iff bit_and_iff bit_mask_iff bit_push_bit_iff)
  also have "\<dots> = n div 2 ^ m * 2 ^ m + (2 ^ m - 1)"
    by (simp add: push_bit_eq_mult drop_bit_eq_div mask_eq_exp_minus_1)
  finally show ?thesis .
qed

lemma unat_or_mask: "unat (w OR mask m :: 'a::len word) = unat w div 2 ^ m * 2 ^ m + (2 ^ m - 1)" if "m \<le> LENGTH('a)"
proof -
  have "unat (w OR mask m :: 'a word) = unat w OR mask m"
    using that by (intro bit_eqI) (auto simp: bit_or_iff bit_unsigned_iff bit_mask_iff dest: bit_imp_le_length)
  then show ?thesis by (simp add: or_mask_nat)
qed

lemma fold_or_bits: "bit (fold (\<lambda>i raw. raw OR push_bit (127 - i) 1) is w) k \<longleftrightarrow> bit w k \<or> (\<exists>i \<in> set is. k = 127 - i)"
  for w :: "128 word"
  by (induction "is" arbitrary: w) (auto simp: bit_or_iff bit_exp_iff)

lemma broadcast_bits:
  fixes w :: "128 word"
  assumes "b \<le> 128"
  shows "set_bits_from b w = w OR mask (128 - b)" (is "?l = ?r")
proof (rule bit_word_eqI)
  fix n assume "n < LENGTH(128)"
  then have n: "n < 128" by simp
  have "(\<exists>i \<in> set [b..<128]. n = 127 - i) \<longleftrightarrow> n < 128 - b"
    using n by (auto intro!: bexI [of _ "127 - n"])
  then show "bit ?l n = bit ?r n" using n unfolding set_bits_from_def by (simp only: fold_or_bits) (simp add: bit_or_iff bit_mask_iff)
qed

lemma broadcast_bits4:
  assumes "b \<le> 32"
  shows "(ucast (((0xFFFF00000000 :: 128 word) OR ucast w) OR mask (32 - b)) :: 32 word) = w OR mask (32 - b)"
proof (rule bit_word_eqI)
  fix n assume "n < LENGTH(32)"
  then have n: "n < 32" by simp
  have "(0xFFFF00000000 :: 128 word) = push_bit 32 0xFFFF" by simp
  then have "\<not> bit (0xFFFF00000000 :: 128 word) n" using n by (simp only: bit_push_bit_iff) simp
  then show "bit (ucast (((0xFFFF00000000 :: 128 word) OR ucast w) OR mask (32 - b)) :: 32 word) n = bit (w OR mask (32 - b)) n"
    using n by (auto simp: bit_or_iff bit_mask_iff bit_ucast_iff simp del: bit_numeral_word_iff)
qed

lemma broadcast_hi:
  assumes "prefix_IsValid p" "addr_zone (pf_Addr p) = []"
  shows "broadcastAddress p = nth_addr p (hi p)"
proof (cases "pf_Addr p")
  case (IPv4 w)
  let ?b = "nat (pf_Bits p)"
  have b: "?b \<le> 32" using assms(1) IPv4 by (simp add: prefix_IsValid_def addr_BitLen_def nat_le_iff)
  have "broadcastAddress p = IPv4 (w OR mask (32 - ?b))"
    using b by (simp add: broadcastAddress_def IPv4 addr_Is4_def Let_def broadcast_bits addr_As16_def broadcast_bits4)
  moreover have hi: "unat (w OR mask (32 - ?b)) = hi p"
    by (subst unat_or_mask) (simp_all add: hi_def lo_def size_of_def IPv4 addr_bits_def addr_BitLen_def)
  ultimately show ?thesis by (simp add: nth_addr_def IPv4 flip: hi)
next
  case (IPv6 w z)
  let ?b = "nat (pf_Bits p)"
  have b: "?b \<le> 128" using assms(1) IPv6 by (simp add: prefix_IsValid_def addr_BitLen_def nat_le_iff)
  have "broadcastAddress p = IPv6 (w OR mask (128 - ?b)) []"
    using b by (simp add: broadcastAddress_def IPv6 addr_Is4_def Let_def broadcast_bits addr_As16_def)
  moreover have hi: "unat (w OR mask (128 - ?b)) = hi p"
    by (subst unat_or_mask) (simp_all add: hi_def lo_def size_of_def IPv6 addr_bits_def addr_BitLen_def)
  ultimately show ?thesis by (simp add: nth_addr_def IPv6 flip: hi)
qed (use assms in \<open>simp add: prefix_IsValid_def\<close>)

abbreviation addr_limit :: "prefix \<Rightarrow> nat" where
  "addr_limit p \<equiv> 2 ^ addr_BitLen (pf_Addr p)"

lemma addr_bits_nth [simp]: "pf_Addr p \<noteq> ZeroAddr \<Longrightarrow> n < addr_limit p \<Longrightarrow> addr_bits (nth_addr p n) = n"
  by (cases "pf_Addr p") (simp_all add: nth_addr_def addr_bits_def addr_BitLen_def unat_of_nat take_bit_nat_eq_self)

lemma nth_addr_inj: "pf_Addr p \<noteq> ZeroAddr \<Longrightarrow> m < addr_limit p \<Longrightarrow> n < addr_limit p \<Longrightarrow> nth_addr p m = nth_addr p n \<longleftrightarrow> m = n"
  by (metis addr_bits_nth)

lemma addr_BitLen_nth [simp]: "pf_Addr p \<noteq> ZeroAddr \<Longrightarrow> addr_BitLen (nth_addr p n) = addr_BitLen (pf_Addr p)"
  by (cases "pf_Addr p") (simp_all add: nth_addr_def addr_BitLen_def)

lemma nth_addr_valid [simp]: "nth_addr p n \<noteq> ZeroAddr" "addr_zone (nth_addr p n) = []"
  by (simp_all add: nth_addr_def addr_zone_def split: addr.splits)

lemma nth_addr_lo: "pf_Addr p \<noteq> ZeroAddr \<Longrightarrow> addr_zone (pf_Addr p) = [] \<Longrightarrow> nth_addr p (lo p) = pf_Addr p"
  by (cases "pf_Addr p") (simp_all add: nth_addr_def lo_def addr_bits_def addr_zone_def)

lemma of_nat_not_last: "Suc n < 2 ^ LENGTH('a) \<Longrightarrow> (word_of_nat n :: 'a::len word) \<noteq> - 1"
proof
  assume lt: "Suc n < 2 ^ LENGTH('a)" and "(word_of_nat n :: 'a word) = - 1"
  then have "unat (word_of_nat n :: 'a word) = 2 ^ LENGTH('a) - 1" by (simp add: unsigned_minus_1_eq_mask mask_eq_exp_minus_1)
  then show False using lt by (simp add: unat_of_nat take_bit_nat_eq_self)
qed

lemma Next_nth:
  assumes "pf_Addr p \<noteq> ZeroAddr" "Suc n < addr_limit p"
  shows "addr_Next (nth_addr p n) = nth_addr p (Suc n)"
proof (cases "pf_Addr p")
  case (IPv4 w)
  have "(word_of_nat n :: 32 word) \<noteq> - 1" using assms(2) by (intro of_nat_not_last) (simp add: IPv4 addr_BitLen_def)
  then show ?thesis by (simp add: IPv4 nth_addr_def addr_Next_def add.commute)
next
  case (IPv6 w z)
  have "(word_of_nat n :: 128 word) \<noteq> - 1" using assms(2) by (intro of_nat_not_last) (simp add: IPv6 addr_BitLen_def)
  then show ?thesis by (simp add: IPv6 nth_addr_def addr_Next_def add.commute)
qed (use assms in simp)

lemma Contains_nth:
  assumes "prefix_IsValid p" "n < addr_limit p"
  shows "prefix_Contains p (nth_addr p n) \<longleftrightarrow> n div size_of p = lo p div size_of p"
  using assms by (simp add: prefix_Contains_def top_bits_def size_of_def lo_def prefix_IsValid_def)

lemma hi_props:
  assumes "prefix_IsValid p"
  shows "0 < size_of p" "lo p \<le> hi p" "hi p < addr_limit p" "hi p div size_of p = lo p div size_of p"
    "lo p \<le> n \<Longrightarrow> n \<le> hi p \<Longrightarrow> n div size_of p = lo p div size_of p"
proof -
  show pos: "0 < size_of p" by (simp add: size_of_def)
  have "lo p mod size_of p \<le> size_of p - 1" using pos mod_less_divisor [of "size_of p" "lo p"] by linarith
  then show le: "lo p \<le> hi p" using div_mult_mod_eq [of "lo p" "size_of p"] unfolding hi_def by linarith
  show div: "hi p div size_of p = lo p div size_of p" using pos unfolding hi_def by (intro div_nat_eqI) (auto simp: algebra_simps)
  show "n div size_of p = lo p div size_of p" if "lo p \<le> n" "n \<le> hi p"
    using div_le_mono [OF that(1), of "size_of p"] div_le_mono [OF that(2), of "size_of p"] div by simp
  have lim: "lo p < addr_limit p"
    using unsigned_less [where 'a = nat and 'b = 32] unsigned_less [where 'a = nat and 'b = 128]
    by (cases "pf_Addr p") (simp_all add: lo_def addr_bits_def addr_BitLen_def)
  have "size_of p dvd addr_limit p" by (simp add: size_of_def le_imp_power_dvd)
  then obtain k where k: "addr_limit p = size_of p * k" by blast
  have "lo p div size_of p < k" using lim pos unfolding k by (simp add: less_mult_imp_div_less mult.commute)
  then have "(lo p div size_of p + 1) * size_of p \<le> k * size_of p" by (intro mult_le_mono1) simp
  then show "hi p < addr_limit p" using pos unfolding k hi_def by (simp add: algebra_simps)
qed

text \<open>The step of the allocator on numbers.\<close>

definition next_number :: "prefix \<Rightarrow> nat \<Rightarrow> nat" where
  "next_number p n = (if Suc n = hi p then lo p + 2 else Suc n)"

lemma next_address_nth:
  assumes "roomy p" "lo p < n" "n < hi p"
  shows "next_address p (broadcastAddress p) (nth_addr p n) = nth_addr p (next_number p n)"
proof -
  have v: "prefix_IsValid p" "addr_zone (pf_Addr p) = []" "lo p + 2 < hi p" "pf_Addr p \<noteq> ZeroAddr"
    using assms(1) by (simp_all add: roomy_def prefix_IsValid_def)
  have lim: "hi p < addr_limit p" by (rule hi_props(3) [OF v(1)])
  have nx: "addr_Next (nth_addr p n) = nth_addr p (Suc n)" using assms lim v(4) by (intro Next_nth) auto
  have "addr_Next (addr_Next (nth_addr p (lo p))) = nth_addr p (lo p + 2)"
    using v lim by (simp add: Next_nth)
  then have base: "addr_Next (addr_Next (pf_Addr p)) = nth_addr p (lo p + 2)" using nth_addr_lo [OF v(4,2)] by simp
  have "prefix_Contains p (nth_addr p (Suc n))"
    using assms lim hi_props(5) [OF v(1), of "Suc n"] by (subst Contains_nth [OF v(1)]) auto
  moreover have "nth_addr p (Suc n) = nth_addr p (hi p) \<longleftrightarrow> Suc n = hi p"
    using assms lim v(4) by (intro nth_addr_inj) auto
  ultimately show ?thesis
    by (simp add: next_address_def Let_def nx base broadcast_hi [OF v(1,2)] next_number_def)
qed

text \<open>The numbers handed out form a cycle of \<open>room p\<close> numbers.\<close>

definition room :: "prefix \<Rightarrow> nat" where
  "room p = hi p - lo p - 2"

lemma next_number_range: "roomy p \<Longrightarrow> lo p < n \<Longrightarrow> n < hi p \<Longrightarrow> lo p + 2 \<le> next_number p n \<and> next_number p n < hi p"
  by (auto simp: next_number_def roomy_def)

lemma next_number_iter:
  assumes "roomy p" "lo p + 2 \<le> n" "n < hi p"
  shows "(next_number p ^^ k) n = lo p + 2 + (n - (lo p + 2) + k) mod room p"
proof (induction k)
  case 0
  then show ?case using assms by (simp add: room_def)
next
  case (Suc k)
  let ?m = "n - (lo p + 2) + k"
  have "?m mod room p < room p" using assms by (simp add: room_def)
  moreover have "hi p = lo p + 2 + room p" using assms by (simp add: room_def)
  ultimately have "next_number p (lo p + 2 + ?m mod room p) = lo p + 2 + Suc ?m mod room p"
    by (auto simp: next_number_def mod_Suc)
  then show ?case using Suc by simp
qed

lemma next_number_fresh:
  assumes "roomy p" "lo p + 2 \<le> n" "n < hi p" "0 < k" "k < room p"
  shows "(next_number p ^^ k) n \<noteq> n"
proof -
  let ?m = "n - (lo p + 2)"
  have m: "?m < room p" using assms by (simp add: room_def)
  have "(?m + k) mod room p \<noteq> ?m"
  proof (cases "?m + k < room p")
    case False
    then have "(?m + k) mod room p = ?m + k - room p" using m assms(5) by (simp add: mod_if)
    then show ?thesis using assms(5) False by simp
  qed (use assms in simp)
  then show ?thesis using next_number_iter [OF assms(1-3), of k] assms(2) by simp
qed


section \<open>The storage interface\<close>

text \<open>What the allocator needs of a storage that does not fail: the two directions are updated together, the
  domain an address had before is forgotten, and the metadata does not touch the addresses.\<close>

locale fakeip_storage =
  fixes S :: "'s storage"
  assumes stores: "fst (st_Store S a d s)"
    and load_store: "st_Load S (snd (st_Store S a d s)) = (st_Load S s)(a \<mapsto> d)"
    and domain_store: "st_LoadDomain S (snd (st_Store S a d s)) d' v6 =
      (if v6 = (\<not> addr_Is4 a) \<and> d' = d then Some a
       else if v6 = (\<not> addr_Is4 a) \<and> st_Load S s a = Some d' then None
       else st_LoadDomain S s d' v6)"
    and save_keeps: "st_Load S (st_SaveMetadataAsync S m s) = st_Load S s"
      "st_LoadDomain S (st_SaveMetadataAsync S m s) = st_LoadDomain S s"
    and reset_empty: "st_Load S (st_Reset S s) a = None" "st_LoadDomain S (st_Reset S s) d v6 = None"

interpretation memory: fakeip_storage memory_storage
  by unfold_locales
    (auto simp: memory_storage_def mem_Store_def mem_Load_def mem_LoadDomain_def mem_Reset_def NewMemoryStorage_def
       Let_def gm_get_set gm_get_del fun_eq_iff split: option.splits)


section \<open>The two families\<close>

definition range_of :: "bool \<Rightarrow> 's Store \<Rightarrow> prefix" where
  "range_of v6 s = (if v6 then fs_inet6Range s else fs_inet4Range s)"

definition last_of :: "bool \<Rightarrow> 's Store \<Rightarrow> addr" where
  "last_of v6 s = (if v6 then fs_inet6Last s else fs_inet4Last s)"

definition current_of :: "bool \<Rightarrow> 's Store \<Rightarrow> addr" where
  "current_of v6 s = (if v6 then fs_inet6Current s else fs_inet4Current s)"

definition set_current :: "bool \<Rightarrow> addr \<Rightarrow> 's Store \<Rightarrow> 's Store" where
  "set_current v6 a s = (if v6 then s\<lparr>fs_inet6Current := a\<rparr> else s\<lparr>fs_inet4Current := a\<rparr>)"

lemmas family_defs = range_of_def last_of_def current_of_def set_current_def

lemma set_current_simps [simp]:
  "range_of v6' (set_current v6 a s) = range_of v6' s"
  "last_of v6' (set_current v6 a s) = last_of v6' s"
  "current_of v6' (set_current v6 a s) = (if v6' = v6 then a else current_of v6' s)"
  "fs_storage (set_current v6 a s) = fs_storage s"
  "range_of v6 (s\<lparr>fs_storage := st\<rparr>) = range_of v6 s"
  "last_of v6 (s\<lparr>fs_storage := st\<rparr>) = last_of v6 s"
  "current_of v6 (s\<lparr>fs_storage := st\<rparr>) = current_of v6 s"
  by (auto simp: family_defs)

lemma Create_family:
  "Create S domain v6 s = (case fs_storage s of
     None \<Rightarrow> (Panic, s)
   | Some storage \<Rightarrow> (case st_LoadDomain S storage domain v6 of
       Some address \<Rightarrow> (Ok address, s)
     | None \<Rightarrow>
         if \<not> addr_IsValid (current_of v6 s) then (Err (if v6 then MissingIPv6Range else MissingIPv4Range), s)
         else let a = next_address (range_of v6 s) (last_of v6 s) (current_of v6 s)
              in remember S storage a domain (set_current v6 a s)))"
  by (auto simp: Create_def family_defs Let_def split: option.splits)

text \<open>A range is either absent or of its family and with room.\<close>

definition pool_ok :: "bool \<Rightarrow> prefix \<Rightarrow> bool" where
  "pool_ok v6 p = (prefix_IsValid p \<longrightarrow> roomy p \<and> addr_Is4 (pf_Addr p) = (\<not> v6))"

definition handed :: "prefix \<Rightarrow> addr \<Rightarrow> bool" where
  "handed p a = (\<exists>n. lo p + 2 \<le> n \<and> n < hi p \<and> a = nth_addr p n)"

definition family_ok :: "'s storage \<Rightarrow> 's \<Rightarrow> 's Store \<Rightarrow> bool \<Rightarrow> bool" where
  "family_ok S st s v6 =
     (let p = range_of v6 s in
      pool_ok v6 p \<and>
      (if prefix_IsValid p
       then last_of v6 s = broadcastAddress p \<and>
         (\<exists>n. lo p < n \<and> n < hi p \<and> current_of v6 s = nth_addr p n) \<and>
         (\<forall>d a. st_LoadDomain S st d v6 = Some a \<longrightarrow> handed p a \<and> st_Load S st a = Some d) \<and>
         (\<forall>a d. addr_Is4 a = (\<not> v6) \<longrightarrow> st_Load S st a = Some d \<longrightarrow> st_LoadDomain S st d v6 = Some a)
       else current_of v6 s = ZeroAddr \<and> (\<forall>d. st_LoadDomain S st d v6 = None)))"

definition store_ok :: "'s storage \<Rightarrow> 's Store \<Rightarrow> bool" where
  "store_ok S s = (\<exists>st. fs_storage s = Some st \<and> family_ok S st s False \<and> family_ok S st s True)"

lemma nth_addr_Is4: "pf_Addr p \<noteq> ZeroAddr \<Longrightarrow> addr_Is4 (nth_addr p n) = addr_Is4 (pf_Addr p)"
  by (cases "pf_Addr p") (simp_all add: nth_addr_def addr_Is4_def)

lemma handed_facts:
  assumes "roomy p" "handed p a"
  shows "prefix_Contains p a" "addr_Is4 a = addr_Is4 (pf_Addr p)" "a \<noteq> pf_Addr p" "a \<noteq> broadcastAddress p"
proof -
  obtain n where n: "lo p + 2 \<le> n" "n < hi p" "a = nth_addr p n" using assms(2) by (auto simp: handed_def)
  have v: "prefix_IsValid p" "addr_zone (pf_Addr p) = []" "pf_Addr p \<noteq> ZeroAddr"
    using assms(1) by (simp_all add: roomy_def prefix_IsValid_def)
  have lim: "hi p < addr_limit p" by (rule hi_props(3) [OF v(1)])
  show "prefix_Contains p a"
    using n lim hi_props(5) [OF v(1), of n] by (simp add: Contains_nth [OF v(1)])
  show "addr_Is4 a = addr_Is4 (pf_Addr p)" using n v by (simp add: nth_addr_Is4)
  show "a \<noteq> pf_Addr p" using n lim v by (subst nth_addr_lo [OF v(3,2), symmetric]) (simp add: nth_addr_inj)
  show "a \<noteq> broadcastAddress p" using n lim v by (simp add: broadcast_hi nth_addr_inj)
qed

lemma family_okD:
  assumes "family_ok S st s v6" "prefix_IsValid (range_of v6 s)" "p = range_of v6 s"
  shows "roomy p" "addr_Is4 (pf_Addr p) = (\<not> v6)" "last_of v6 s = broadcastAddress p"
    "\<exists>n. lo p < n \<and> n < hi p \<and> current_of v6 s = nth_addr p n"
    "st_LoadDomain S st d v6 = Some a \<Longrightarrow> handed p a \<and> st_Load S st a = Some d"
    "addr_Is4 a = (\<not> v6) \<Longrightarrow> st_Load S st a = Some d \<Longrightarrow> st_LoadDomain S st d v6 = Some a"
proof -
  have v: "prefix_IsValid p" using assms(2,3) by simp
  note ok = assms(1) [unfolded family_ok_def Let_def pool_ok_def assms(3) [symmetric] if_P [OF v]]
  show "roomy p" "addr_Is4 (pf_Addr p) = (\<not> v6)" "last_of v6 s = broadcastAddress p"
    "\<exists>n. lo p < n \<and> n < hi p \<and> current_of v6 s = nth_addr p n"
    using ok v by blast+
  show "st_LoadDomain S st d v6 = Some a \<Longrightarrow> handed p a \<and> st_Load S st a = Some d"
    "addr_Is4 a = (\<not> v6) \<Longrightarrow> st_Load S st a = Some d \<Longrightarrow> st_LoadDomain S st d v6 = Some a"
    using ok by blast+
qed

lemma family_okI:
  assumes "prefix_IsValid p" "range_of v6 s = p" "roomy p" "addr_Is4 (pf_Addr p) = (\<not> v6)" "last_of v6 s = broadcastAddress p"
    and "lo p < n" "n < hi p" "current_of v6 s = nth_addr p n"
    and "\<And>d a. st_LoadDomain S st d v6 = Some a \<Longrightarrow> handed p a \<and> st_Load S st a = Some d"
    and "\<And>a d. addr_Is4 a = (\<not> v6) \<Longrightarrow> st_Load S st a = Some d \<Longrightarrow> st_LoadDomain S st d v6 = Some a"
  shows "family_ok S st s v6"
  unfolding family_ok_def Let_def pool_ok_def assms(2) if_P [OF assms(1)] using assms(3-) by blast

text \<open>A sequence of requests, each a domain and whether an IPv6 address is asked for.\<close>

definition creates :: "'s storage \<Rightarrow> (string \<times> bool) list \<Rightarrow> 's Store \<Rightarrow> 's Store" where
  "creates S requests s = fold (\<lambda>(d, v6) s. snd (Create S d v6 s)) requests s"

text \<open>A domain whose address was handed out \<open>k\<close> allocations ago.\<close>

definition held :: "'s storage \<Rightarrow> 's Store \<Rightarrow> bool \<Rightarrow> string \<Rightarrow> nat \<Rightarrow> nat \<Rightarrow> bool" where
  "held S s v6 d n k =
     (let p = range_of v6 s in
      store_ok S s \<and> prefix_IsValid p \<and> lo p + 2 \<le> n \<and> n < hi p \<and>
      (\<exists>st. fs_storage s = Some st \<and> st_LoadDomain S st d v6 = Some (nth_addr p n)) \<and>
      current_of v6 s = nth_addr p ((next_number p ^^ k) n))"

text \<open>A storage in which an address was just given to a domain.\<close>

definition now_stored :: "'s storage \<Rightarrow> 's \<Rightarrow> addr \<Rightarrow> string \<Rightarrow> 's \<Rightarrow> bool" where
  "now_stored S st a d st' \<longleftrightarrow>
     st_Load S st' = (st_Load S st)(a \<mapsto> d) \<and>
     (\<forall>d' v6. st_LoadDomain S st' d' v6 =
       (if v6 = (\<not> addr_Is4 a) \<and> d' = d then Some a
        else if v6 = (\<not> addr_Is4 a) \<and> st_Load S st a = Some d' then None
        else st_LoadDomain S st d' v6))"

lemma stored_load: "now_stored S st a d st' \<Longrightarrow> st_Load S st' b = (if b = a then Some d else st_Load S st b)"
  by (simp add: now_stored_def)

lemma stored_domain:
  "now_stored S st a d st' \<Longrightarrow> addr_Is4 a = (\<not> v6) \<Longrightarrow> st_LoadDomain S st' e v6 =
    (if e = d then Some a else if st_Load S st a = Some e then None else st_LoadDomain S st e v6)"
  by (simp add: now_stored_def)

lemma stored_domain_other:
  "now_stored S st a d st' \<Longrightarrow> addr_Is4 a = v6 \<Longrightarrow> st_LoadDomain S st' e v6 = st_LoadDomain S st e v6"
  by (simp add: now_stored_def)

context fakeip_storage
begin

lemma remember_stored:
  "\<exists>st'. remember S st a d s = (Ok a, s\<lparr>fs_storage := Some st'\<rparr>) \<and> now_stored S st a d st'"
proof -
  have "now_stored S st a d (st_SaveMetadataAsync S (metadata_of s) (snd (st_Store S a d st)))"
    by (simp only: now_stored_def save_keeps load_store domain_store simp_thms)
  then show ?thesis by (auto simp: remember_def case_prod_beta)
qed

lemma Create_known:
  "fs_storage s = Some st \<Longrightarrow> st_LoadDomain S st d v6 = Some a \<Longrightarrow> Create S d v6 s = (Ok a, s)"
  by (simp add: Create_family)

lemma Create_fresh:
  assumes "fs_storage s = Some st" "st_LoadDomain S st d v6 = None" "range_of v6 s = p"
    and "roomy p" "last_of v6 s = broadcastAddress p" "current_of v6 s = nth_addr p n" "lo p < n" "n < hi p"
    and "a = nth_addr p (next_number p n)"
  shows "\<exists>st'. Create S d v6 s = (Ok a, set_current v6 a s\<lparr>fs_storage := Some st'\<rparr>) \<and> now_stored S st a d st'"
  using remember_stored [of st a d "set_current v6 a s"] assms next_address_nth [of p n]
  by (simp add: Create_family addr_IsValid_def Let_def)

lemma family_ok_same:
  assumes ok: "family_ok S st s v6" "prefix_IsValid (range_of v6 s)" "p = range_of v6 s"
    and a: "handed p a" and new: "st_LoadDomain S st d v6 = None" and st: "now_stored S st a d st'"
    and s': "range_of v6 s' = p" "last_of v6 s' = last_of v6 s" "current_of v6 s' = a"
  shows "family_ok S st' s' v6"
proof -
  note f = family_okD [OF ok]
  have fam: "addr_Is4 a = (\<not> v6)" using handed_facts(2) [OF f(1) a] f(2) by simp
  note dom = stored_domain [OF st fam] and load = stored_load [OF st]
  obtain n where n: "lo p + 2 \<le> n" "n < hi p" "a = nth_addr p n" using a by (auto simp: handed_def)
  show ?thesis
  proof (rule family_okI [of p _ _ n])
    show "handed p b \<and> st_Load S st' b = Some e" if "st_LoadDomain S st' e v6 = Some b" for e b
      using that f(5) [of e b] a unfolding dom load by (auto split: if_splits)
    show "st_LoadDomain S st' e v6 = Some b" if "addr_Is4 b = (\<not> v6)" "st_Load S st' b = Some e" for e b
    proof (cases "b = a")
      case False
      then have e: "st_LoadDomain S st e v6 = Some b" using that f(6) [of b e] by (simp add: load)
      then have "st_Load S st a \<noteq> Some e" using f(6) [OF fam, of e] False by auto
      then show ?thesis using e new unfolding dom by auto
    qed (use that in \<open>simp add: load dom\<close>)
  qed (use ok(2,3) f(1-3) s' n in simp_all)
qed

lemma family_ok_other:
  assumes ok: "family_ok S st s v6" and a: "addr_Is4 a = v6" and st: "now_stored S st a d st'"
    and s': "range_of v6 s' = range_of v6 s" "last_of v6 s' = last_of v6 s" "current_of v6 s' = current_of v6 s"
  shows "family_ok S st' s' v6"
proof (cases "prefix_IsValid (range_of v6 s)")
  case True
  note f = family_okD [OF ok True refl] and dom = stored_domain_other [OF st a]
  have load: "st_Load S st' b = st_Load S st b" if "addr_Is4 b = (\<not> v6)" for b
    using a that by (auto simp: stored_load [OF st])
  obtain n where n: "lo (range_of v6 s) < n" "n < hi (range_of v6 s)" "current_of v6 s = nth_addr (range_of v6 s) n"
    using f(4) by blast
  show ?thesis
  proof (rule family_okI [of "range_of v6 s" _ _ n])
    fix e b assume "st_LoadDomain S st' e v6 = Some b"
    then have "handed (range_of v6 s) b" "st_Load S st b = Some e" using f(5) dom by metis+
    then show "handed (range_of v6 s) b \<and> st_Load S st' b = Some e"
      using load handed_facts(2) [OF f(1)] f(2) by simp
  next
    show "st_LoadDomain S st' d v6 = Some a" if "addr_Is4 a = (\<not> v6)" "st_Load S st' a = Some d" for a d
      using f(6) [OF that(1), of d] that load dom by simp
  qed (use True f(1-3) s' n in simp_all)
next
  case False
  then show ?thesis using ok s' stored_domain_other [OF st a] by (simp add: family_ok_def Let_def)
qed

text \<open>What a call of \<open>Create\<close> does for a family with a range: it returns the address of a known domain and
  changes nothing, or gives the next address of the cycle to the domain.\<close>

lemma Create_cases:
  assumes ok: "store_ok S s" and v: "prefix_IsValid (range_of v6 s)" and p: "p = range_of v6 s"
  obtains (known) st a where "fs_storage s = Some st" "st_LoadDomain S st d v6 = Some a" "Create S d v6 s = (Ok a, s)"
    "handed p a" "st_Load S st a = Some d"
  | (fresh) st n a st' where "fs_storage s = Some st" "st_LoadDomain S st d v6 = None"
    "current_of v6 s = nth_addr p n" "lo p < n" "n < hi p" "a = nth_addr p (next_number p n)" "handed p a"
    "Create S d v6 s = (Ok a, set_current v6 a s\<lparr>fs_storage := Some st'\<rparr>)" "now_stored S st a d st'"
    "store_ok S (set_current v6 a s\<lparr>fs_storage := Some st'\<rparr>)"
proof -
  obtain st where st: "fs_storage s = Some st" "family_ok S st s v6" "family_ok S st s (\<not> v6)"
    using ok by (cases v6) (auto simp: store_ok_def)
  note f = family_okD [OF st(2) v p]
  note ro = f(1-3)
  show ?thesis
  proof (cases "st_LoadDomain S st d v6")
    case (Some a)
    then have "handed p a" "st_Load S st a = Some d" using f(5) by blast+
    then show ?thesis using known st(1) Some Create_known by blast
  next
    case None
    obtain n where n: "current_of v6 s = nth_addr p n" "lo p < n" "n < hi p"
      using f(4) by blast
    define a where a: "a = nth_addr p (next_number p n)"
    have h: "handed p a" unfolding handed_def a using next_number_range [OF ro(1) n(2,3)] by blast
    obtain st' where c: "Create S d v6 s = (Ok a, set_current v6 a s\<lparr>fs_storage := Some st'\<rparr>)" "now_stored S st a d st'"
      using Create_fresh [OF st(1) None p [symmetric] ro(1,3) n a] by blast
    let ?s = "set_current v6 a s\<lparr>fs_storage := Some st'\<rparr>"
    have "addr_Is4 a = (\<not> v6)" using handed_facts(2) [OF ro(1) h] ro(2) by simp
    then have "family_ok S st' ?s (\<not> v6)" by (rule family_ok_other [OF st(3) _ c(2)]) simp_all
    moreover have "family_ok S st' ?s v6" by (rule family_ok_same [OF st(2) v p h None c(2)]) (simp_all add: p)
    ultimately have "store_ok S ?s" by (cases v6) (simp_all add: store_ok_def)
    then show ?thesis using fresh st(1) None n a h c by blast
  qed
qed

lemma Create_absent:
  assumes "store_ok S s" "\<not> prefix_IsValid (range_of v6 s)"
  shows "Create S d v6 s = (Err (if v6 then MissingIPv6Range else MissingIPv4Range), s)"
proof -
  obtain st where st: "fs_storage s = Some st" "family_ok S st s v6"
    using assms(1) by (cases v6) (auto simp: store_ok_def)
  have "current_of v6 s = ZeroAddr" "st_LoadDomain S st d v6 = None"
    using st(2) assms(2) by (simp_all add: family_ok_def Let_def)
  then show ?thesis using st(1) by (simp add: Create_family addr_IsValid_def)
qed

lemma Create_store_ok:
  assumes "store_ok S s"
  shows "store_ok S (snd (Create S d v6 s))"
proof (cases "prefix_IsValid (range_of v6 s)")
  case True
  from Create_cases [OF assms True refl, of d] show ?thesis by cases (simp_all add: assms)
qed (simp add: Create_absent assms)

lemma Create_ranges [simp]: "range_of v6' (snd (Create S d v6 s)) = range_of v6' s"
  by (simp add: Create_family remember_def Let_def case_prod_beta split: option.split)

lemma store_ok_family: "store_ok S s \<Longrightarrow> fs_storage s = Some st \<Longrightarrow> family_ok S st s v6"
  by (cases v6) (auto simp: store_ok_def)

lemma creates_store_ok: "store_ok S s \<Longrightarrow> store_ok S (creates S requests s)"
  unfolding creates_def by (induction requests arbitrary: s) (auto simp: Create_store_ok)

lemma creates_ranges: "range_of v6 (creates S requests s) = range_of v6 s"
  unfolding creates_def by (induction requests arbitrary: s) auto

lemma iter_range: "roomy p \<Longrightarrow> lo p + 2 \<le> n \<Longrightarrow> n < hi p \<Longrightarrow> (next_number p ^^ k) n < hi p"
  using next_number_iter [of p n k] mod_less_divisor [of "room p" "n - (lo p + 2) + k"] unfolding room_def by linarith

lemma held_same_family:
  assumes h: "held S s v6 d n k" and k: "Suc k < room (range_of v6 s)"
  shows "held S (snd (Create S d' v6 s)) v6 d n k \<or> held S (snd (Create S d' v6 s)) v6 d n (Suc k)"
proof -
  define p where p: "p = range_of v6 s"
  have v: "store_ok S s" "prefix_IsValid (range_of v6 s)" "lo p + 2 \<le> n" "n < hi p"
    and cur: "current_of v6 s = nth_addr p ((next_number p ^^ k) n)"
    using h by (auto simp: held_def Let_def p)
  show ?thesis
  proof (cases rule: Create_cases [OF v(1,2) p, of d', case_names known fresh])
    case (fresh st m a st')
    note f = family_okD [OF store_ok_family [OF v(1) fresh(1)] v(2) p]
    let ?next = "(next_number p ^^ Suc k) n"
    have lim: "hi p < addr_limit p" "pf_Addr p \<noteq> ZeroAddr" using hi_props(3) f(1) by (simp_all add: roomy_def prefix_IsValid_def)
    have "m = (next_number p ^^ k) n"
      using fresh(3,5) cur iter_range [OF f(1) v(3,4), of k] lim by (simp add: nth_addr_inj)
    then have a: "a = nth_addr p ?next" using fresh(6) by simp
    have dom: "st_LoadDomain S st d v6 = Some (nth_addr p n)" using h fresh(1) by (auto simp: held_def Let_def p)
    have new: "a \<noteq> nth_addr p n"
      unfolding a using lim v(4) iter_range [OF f(1) v(3,4), of "Suc k"] next_number_fresh [OF f(1) v(3,4), of "Suc k"] k p
      by (subst nth_addr_inj) auto
    have fam: "addr_Is4 a = (\<not> v6)" using handed_facts(2) [OF f(1) fresh(7)] f(2) by simp
    have "st_Load S st a \<noteq> Some d" using f(6) [OF fam, of d] dom new by auto
    then have "st_LoadDomain S st' d v6 = Some (nth_addr p n)"
      using dom fresh(2) by (auto simp: stored_domain [OF fresh(9) fam])
    then have "held S (snd (Create S d' v6 s)) v6 d n (Suc k)"
      using fresh(8,10) a v by (simp add: held_def Let_def flip: p)
    then show ?thesis ..
  qed (use h in simp)
qed

lemma held_other_family:
  assumes h: "held S s v6 d n k" and other: "v6' \<noteq> v6"
  shows "held S (snd (Create S d' v6' s)) v6 d n k"
proof (cases "prefix_IsValid (range_of v6' s)")
  case True
  have ok: "store_ok S s" using h by (simp add: held_def Let_def)
  show ?thesis
  proof (cases rule: Create_cases [OF ok True refl, of d', case_names known fresh])
    case (fresh st m a st')
    note f = family_okD [OF store_ok_family [OF ok fresh(1)] True refl]
    have "addr_Is4 a = v6" using handed_facts(2) [OF f(1) fresh(7)] f(2) other by auto
    note dom = stored_domain_other [OF fresh(9) this]
    show ?thesis using h fresh(1,8,10) other by (auto simp: held_def Let_def dom)
  qed (use h in simp)
next
  case False
  have "store_ok S s" using h by (simp add: held_def Let_def)
  then show ?thesis using h False by (simp add: Create_absent)
qed

lemma held_creates:
  "held S s v6 d n k \<Longrightarrow> k + length requests < room (range_of v6 s) \<Longrightarrow> \<exists>k'. held S (creates S requests s) v6 d n k'"
proof (induction requests arbitrary: s k)
  case (Cons r requests)
  obtain d' v6' where r: "r = (d', v6')" by fastforce
  let ?s = "snd (Create S d' v6' s)"
  have "held S ?s v6 d n k \<or> held S ?s v6 d n (Suc k)"
    using held_same_family [OF Cons.prems(1)] held_other_family [OF Cons.prems(1)] Cons.prems(2) by (cases "v6' = v6") auto
  then have "\<exists>k'. held S (creates S requests ?s) v6 d n k'" using Cons.IH [of ?s] Cons.prems(2) by auto
  then show ?case by (simp add: creates_def r)
qed (auto simp: creates_def)

lemma held_answers:
  assumes "held S s v6 d n k"
  shows "Lookup S (nth_addr (range_of v6 s) n) s = Ok (Some d)" "Create S d v6 s = (Ok (nth_addr (range_of v6 s) n), s)"
proof -
  obtain st where st: "fs_storage s = Some st" "st_LoadDomain S st d v6 = Some (nth_addr (range_of v6 s) n)"
    and ok: "store_ok S s" "prefix_IsValid (range_of v6 s)"
    using assms by (auto simp: held_def Let_def)
  show "Create S d v6 s = (Ok (nth_addr (range_of v6 s) n), s)" by (rule Create_known [OF st])
  show "Lookup S (nth_addr (range_of v6 s) n) s = Ok (Some d)"
    using family_okD(5) [OF store_ok_family [OF ok(1) st(1)] ok(2) refl st(2)] st(1) by (simp add: Lookup_def)
qed

lemma start_fresh_ok:
  assumes "pool_ok False p4" "pool_ok True p6"
  shows "store_ok S (start_fresh S st (NewStore p4 p6))"
proof -
  have next_base: "addr_Next (pf_Addr p) = nth_addr p (lo p + 1)" "Suc (lo p) < hi p" if "roomy p" for p
    using that hi_props(3) [of p] Next_nth [of p "lo p"] nth_addr_lo [of p] by (auto simp: roomy_def prefix_IsValid_def)
  have "family_ok S (st_Reset S st) (start_fresh S st (NewStore p4 p6)) v6" for v6
  proof (cases "prefix_IsValid (if v6 then p6 else p4)")
    case True
    then have "roomy (if v6 then p6 else p4)" using assms by (auto simp: pool_ok_def)
    note nb = next_base [OF this]
    show ?thesis using assms True
      by (intro family_okI [of "if v6 then p6 else p4" _ _ "lo (if v6 then p6 else p4) + 1"])
        (auto simp: start_fresh_def NewStore_def family_defs pool_ok_def next_base reset_empty split: if_splits)
  next
    case False
    then show ?thesis
      by (auto simp: family_ok_def Let_def pool_ok_def start_fresh_def NewStore_def family_defs reset_empty)
  qed
  then show ?thesis by (simp add: store_ok_def start_fresh_def)
qed

end


section \<open>The allocator on the in-memory storage\<close>

abbreviation fresh_store :: "prefix \<Rightarrow> prefix \<Rightarrow> MemoryStorage Store" where
  "fresh_store p4 p6 \<equiv> Start memory_storage NewMemoryStorage (NewStore p4 p6)"

abbreviation family_range :: "bool \<Rightarrow> prefix \<Rightarrow> prefix \<Rightarrow> prefix" where
  "family_range v6 p4 p6 \<equiv> (if v6 then p6 else p4)"

lemma fresh_store_ok: "pool_ok False p4 \<Longrightarrow> pool_ok True p6 \<Longrightarrow> store_ok memory_storage (fresh_store p4 p6)"
  using memory.start_fresh_ok by (simp add: Start_def memory_storage_def)

lemma fresh_store_range: "range_of v6 (creates memory_storage requests (fresh_store p4 p6)) = family_range v6 p4 p6"
  by (simp add: memory.creates_ranges) (simp add: Start_def memory_storage_def start_fresh_def NewStore_def range_of_def)

text \<open>
  C22. With ranges of the right family whose last address lies at least three above the base (\<open>pool_ok\<close>, \<open>roomy\<close>: so it is for every prefix up to /30 of IPv4
  and /126 of IPv6 that is written with its network address), after any sequence of requests, a request for a domain in a family that has a range gets an address of
  the range that is neither its base nor its last address, looking that address up gives the domain, and
  asking again gives the same address and changes nothing. A smaller range can hand out an address outside of it (\<open>small_range_leaves\<close>).
\<close>

theorem fakeip_create:
  assumes "pool_ok False p4" "pool_ok True p6" "prefix_IsValid (family_range v6 p4 p6)"
  shows "\<exists>a s'. Create memory_storage d v6 (creates memory_storage requests (fresh_store p4 p6)) = (Ok a, s') \<and>
    prefix_Contains (family_range v6 p4 p6) a \<and> a \<noteq> pf_Addr (family_range v6 p4 p6) \<and>
    a \<noteq> broadcastAddress (family_range v6 p4 p6) \<and>
    Lookup memory_storage a s' = Ok (Some d) \<and> Create memory_storage d v6 s' = (Ok a, s')"
proof -
  define s where s: "s = creates memory_storage requests (fresh_store p4 p6)"
  define p where p: "p = range_of v6 s"
  have ok: "store_ok memory_storage s" unfolding s using assms by (intro memory.creates_store_ok fresh_store_ok)
  have fp: "p = family_range v6 p4 p6" unfolding p s by (rule fresh_store_range)
  then have v: "prefix_IsValid (range_of v6 s)" and ro: "roomy p"
    using assms p by (auto simp: pool_ok_def split: if_splits)
  have "\<exists>a s'. Create memory_storage d v6 s = (Ok a, s') \<and> handed p a \<and>
    Lookup memory_storage a s' = Ok (Some d) \<and> Create memory_storage d v6 s' = (Ok a, s')"
  proof (cases rule: memory.Create_cases [OF ok v p, of d, case_names known fresh])
    case (known st a)
    then show ?thesis by (auto simp: Lookup_def)
  next
    case (fresh st n a st')
    note f = family_okD [OF memory.store_ok_family [OF ok fresh(1)] v p]
    have "addr_Is4 a = (\<not> v6)" using handed_facts(2) [OF f(1) fresh(7)] f(2) by simp
    then have "st_LoadDomain memory_storage st' d v6 = Some a" by (simp add: stored_domain [OF fresh(9)])
    then have "Create memory_storage d v6 (set_current v6 a s\<lparr>fs_storage := Some st'\<rparr>) =
      (Ok a, set_current v6 a s\<lparr>fs_storage := Some st'\<rparr>)" by (intro memory.Create_known) simp_all
    then show ?thesis using fresh(7,8) by (auto simp: Lookup_def stored_load [OF fresh(9)])
  qed
  then show ?thesis using handed_facts [OF ro] unfolding s fp by metis
qed

text \<open>
  C20. An address stays with its domain: once a new domain got an address, it keeps it through the next
  \<open>hi - lo - 3\<close> requests of any kind, one less than the number of addresses the range has to give: looking the
  address up still gives the domain and asking for the domain gives the address.
\<close>

theorem fakeip_window:
  assumes "pool_ok False p4" "pool_ok True p6" "prefix_IsValid (family_range v6 p4 p6)"
    and "s = creates memory_storage requests (fresh_store p4 p6)"
    and "(case fs_storage s of None \<Rightarrow> None | Some st \<Rightarrow> st_LoadDomain memory_storage st d v6) = None"
    and "Create memory_storage d v6 s = (Ok a, s')"
    and "length later < room (family_range v6 p4 p6)"
  shows "Lookup memory_storage a (creates memory_storage later s') = Ok (Some d) \<and>
    Create memory_storage d v6 (creates memory_storage later s') = (Ok a, creates memory_storage later s')"
proof -
  define p where p: "p = range_of v6 s"
  have ok: "store_ok memory_storage s" unfolding assms(4) using assms(1,2) by (intro memory.creates_store_ok fresh_store_ok)
  have fp: "p = family_range v6 p4 p6" unfolding p assms(4) by (rule fresh_store_range)
  then have v: "prefix_IsValid (range_of v6 s)" using assms p by simp
  have rng: "range_of v6 s' = p" using memory.Create_ranges [of v6 d v6 s] assms(6) p by simp
  have "\<exists>n. a = nth_addr p n \<and> held memory_storage s' v6 d n 0"
  proof (cases rule: memory.Create_cases [OF ok v p, of d, case_names known fresh])
    case (known st b)
    then show ?thesis using assms(5) by simp
  next
    case (fresh st n b st')
    note f = family_okD [OF memory.store_ok_family [OF ok fresh(1)] v p]
    have eq: "a = b" "s' = set_current v6 b s\<lparr>fs_storage := Some st'\<rparr>" using fresh(8) assms(6) by simp_all
    have "addr_Is4 b = (\<not> v6)" using handed_facts(2) [OF f(1) fresh(7)] f(2) by simp
    then have "st_LoadDomain memory_storage st' d v6 = Some b" by (simp add: stored_domain [OF fresh(9)])
    then have "held memory_storage s' v6 d (next_number p n) 0"
      using fresh(6,10) next_number_range [OF f(1) fresh(4,5)] v unfolding eq by (simp add: held_def Let_def flip: p)
    then show ?thesis using fresh(6) eq by blast
  qed
  then obtain n where a: "a = nth_addr p n" and h: "held memory_storage s' v6 d n 0" by blast
  obtain k where "held memory_storage (creates memory_storage later s') v6 d n k"
    using memory.held_creates [OF h, of later] assms(7) rng fp by auto
  from memory.held_answers [OF this] show ?thesis unfolding memory.creates_ranges rng a by simp
qed

text \<open>The default IPv4 range \<open>198.18.0.0/15\<close>, and no IPv6 range.\<close>

abbreviation default_range4 :: prefix where
  "default_range4 \<equiv> \<lparr>pf_Addr = IPv4 0xC6120000, pf_Bits = 15\<rparr>"

abbreviation no_range :: prefix where
  "no_range \<equiv> \<lparr>pf_Addr = ZeroAddr, pf_Bits = - 1\<rparr>"

lemma default_range4_ok:
  "pool_ok False default_range4" "pool_ok True no_range" "prefix_IsValid default_range4" "room default_range4 = 131069"
  by (simp_all add: pool_ok_def roomy_def prefix_IsValid_def addr_BitLen_def addr_Is4_def addr_zone_def hi_def lo_def
      size_of_def addr_bits_def room_def)

text \<open>Witness of C22: the first request.\<close>

theorem fakeip_create_witness:
  "\<exists>a s'. Create memory_storage ''example.org'' False (creates memory_storage [] (fresh_store default_range4 no_range)) = (Ok a, s') \<and>
    prefix_Contains default_range4 a \<and> a \<noteq> IPv4 0xC6120000 \<and> Lookup memory_storage a s' = Ok (Some ''example.org'')"
  using fakeip_create [of default_range4 no_range False "''example.org''" "[]"] default_range4_ok by auto

text \<open>Witness of C20: a domain keeps its address while two others get theirs.\<close>

theorem fakeip_window_witness:
  "\<exists>a s'. Create memory_storage ''a'' False (fresh_store default_range4 no_range) = (Ok a, s') \<and>
    Lookup memory_storage a (creates memory_storage [(''b'', False), (''c'', False)] s') = Ok (Some ''a'')"
proof -
  let ?s = "fresh_store default_range4 no_range"
  obtain a s' where c: "Create memory_storage ''a'' False ?s = (Ok a, s')"
    by (simp add: Create_def Start_def start_fresh_def memory_storage_def mem_Reset_def NewMemoryStorage_def mem_LoadDomain_def
        NewStore_def addr_Next_def addr_IsValid_def prefix_IsValid_def addr_BitLen_def remember_def Let_def case_prod_beta)
  have "fs_storage ?s = Some NewMemoryStorage"
    by (simp add: Start_def start_fresh_def memory_storage_def mem_Reset_def)
  then show ?thesis
    using fakeip_window [of default_range4 no_range False ?s "[]" "''a''" a s' "[(''b'', False), (''c'', False)]"] c default_range4_ok
    by (auto simp: creates_def memory_storage_def mem_LoadDomain_def NewMemoryStorage_def)
qed

text \<open>A range of two addresses hands out one outside of it: the wrap-around does not look at the range again.\<close>

lemma small_range_leaves:
  "fst (Create memory_storage ''a'' False (fresh_store \<lparr>pf_Addr = IPv4 0xC6120000, pf_Bits = 31\<rparr> no_range)) = Ok (IPv4 0xC6120002)"
  "\<not> prefix_Contains \<lparr>pf_Addr = IPv4 0xC6120000, pf_Bits = 31\<rparr> (IPv4 0xC6120002)"
  by (simp_all add: Create_def Start_def start_fresh_def memory_storage_def mem_Reset_def NewMemoryStorage_def mem_LoadDomain_def
      NewStore_def addr_Next_def addr_IsValid_def prefix_IsValid_def addr_BitLen_def remember_def Let_def case_prod_beta
      next_address_def prefix_Contains_def top_bits_def addr_zone_def addr_bits_def)

text \<open>A query of an enabled family is answered by \<open>Create\<close> for the name without its final dot.\<close>

lemma Exchange_create:
  assumes "qtype = 1 \<and> ft_inet4Enabled t \<or> qtype = 28 \<and> ft_inet6Enabled t" "length (FqdnToDomain IsFqdn name) \<le> 255"
    and "Create S (FqdnToDomain IsFqdn name) (qtype = 28) (ft_store t) = (Ok a, s')"
  shows "Exchange S IsFqdn qtype name t = (Ok [a], t\<lparr>ft_store := s'\<rparr>)"
  using assms by (auto simp: Exchange_def Let_def)

end
