(* ===== verification/Outbound_Manager.thy ===== *)
theory Outbound_Manager
  imports Go_Strings
begin

text \<open>
  The outbound manager, \<^verbatim>\<open>adapter/outbound/manager.go\<close>, with the part of the endpoint manager it calls
  (\<^verbatim>\<open>adapter/endpoint/manager.go\<close>), the check of tags in \<^verbatim>\<open>option/options.go\<close>, and the start of DNS servers,
  \<^verbatim>\<open>dns/transport_manager.go\<close>, which orders its servers the same way. What starting one outbound does is a
  parameter: it may depend on everything started before, and it may fail. The log lists the calls in order.
\<close>

section \<open>Data\<close>

text \<open>What the manager sees of an outbound. Endpoints are outbounds too.\<close>

record outbound =
  ob_Tag :: string
  ob_Dependencies :: "string list"
  ob_isEndpoint :: bool
  ob_isLifecycle :: bool

datatype 'e start_error =
    StartFailed 'e
  | CircularDependency "string list" string
  | DependencyNotFound string string
  | DefaultNotFound string
  | FallbackFailed 'e
  | InvalidTag
  | DuplicateTag string
  | CreateFailed 'e
  | DefaultFakeIP
  | MultipleFakeIP

type_synonym 'e starter = "outbound list \<Rightarrow> outbound \<Rightarrow> 'e option"

record Manager =
  om_defaultTag :: string
  om_outbounds :: "outbound list"
  om_outboundByTag :: "(string, outbound) gomap"
  om_defaultOutbound :: "outbound option"
  om_endpoints :: "outbound list"
  om_endpointByTag :: "(string, outbound) gomap"


section \<open>Starting in the order of dependencies\<close>

definition is_started :: "(string, bool) gomap \<Rightarrow> string \<Rightarrow> bool" where
  "is_started started tag = (gm_get started tag = Some True)"

text \<open>One pass over the outbounds: every outbound whose dependencies are started is started.\<close>

fun start_pass :: "'e starter \<Rightarrow> outbound list \<Rightarrow> (string, bool) gomap \<Rightarrow> bool \<Rightarrow> outbound list \<Rightarrow>
    'e option \<times> (string, bool) gomap \<times> bool \<times> outbound list" where
  "start_pass S [] started canContinue log = (None, started, canContinue, log)"
| "start_pass S (ob # rest) started canContinue log =
     (if is_started started (ob_Tag ob) \<or> (\<exists>d \<in> set (ob_Dependencies ob). \<not> is_started started d)
      then start_pass S rest started canContinue log
      else let started' = gm_set (ob_Tag ob) True started in
        if ob_isEndpoint ob \<or> ob_isLifecycle ob
        then (case S log ob of
                Some e \<Rightarrow> (Some e, started', True, log @ [ob])
              | None \<Rightarrow> start_pass S rest started' True (log @ [ob]))
        else start_pass S rest started' True log)"

text \<open>The search for the reason that nothing can be started: \<open>common.Find\<close> gives the empty string when every
  dependency is started.\<close>

definition first_problem :: "(string, bool) gomap \<Rightarrow> outbound \<Rightarrow> string" where
  "first_problem started ob = (case find (\<lambda>d. \<not> is_started started d) (ob_Dependencies ob) of Some d \<Rightarrow> d | None \<Rightarrow> [])"

function lint :: "(string, bool) gomap \<Rightarrow> (string \<times> outbound) list \<Rightarrow> string list \<Rightarrow> outbound \<Rightarrow> 'e start_error" where
  "lint started table oTree oCurrent =
     (let problem = first_problem started oCurrent in
      if problem \<in> set oTree then CircularDependency oTree problem
      else (case map_of table problem of
              None \<Rightarrow> DependencyNotFound problem (ob_Tag oCurrent)
            | Some ob \<Rightarrow> lint started table (oTree @ [problem]) ob))"
  by pat_completeness auto

termination
proof (relation "measure (\<lambda>(_, table, oTree, _). card (fst ` set table - set oTree))")
  show "wf (measure (\<lambda>(_, table, oTree, _). card (fst ` set table - set oTree)))" by simp
next
  fix started :: "(string, bool) gomap" and table :: "(string \<times> outbound) list" and oTree oCurrent problem ob
  assume "problem = first_problem started oCurrent" "problem \<notin> set oTree" "map_of table problem = Some ob"
  then have "problem \<in> fst ` set table - set oTree" using map_of_SomeD by force
  then have "card (fst ` set table - set oTree - {problem}) < card (fst ` set table - set oTree)" by (intro card_Diff1_less) simp_all
  then show "((started, table, oTree @ [problem], ob), started, table, oTree, oCurrent)
      \<in> measure (\<lambda>(_, table, oTree, _). card (fst ` set table - set oTree))"
    by (simp add: set_diff_eq conj_commute conj_left_commute)
qed

declare lint.simps [simp del]

definition waiting :: "outbound list \<Rightarrow> (string, bool) gomap \<Rightarrow> string set" where
  "waiting obs started = {t \<in> ob_Tag ` set obs. \<not> is_started started t}"

lemma is_started_set [simp]: "is_started (gm_set t True m) t' \<longleftrightarrow> t' = t \<or> is_started m t'"
  by (simp add: is_started_def gm_get_set)

lemma start_pass_grows:
  "start_pass S obs started can log = (r, started', can', log') \<Longrightarrow>
    (is_started started t \<longrightarrow> is_started started' t) \<and> (is_started started' t \<longrightarrow> is_started started t \<or> t \<in> ob_Tag ` set obs)"
  by (induction S obs started can log rule: start_pass.induct) (auto simp: Let_def split: if_splits option.splits)

lemma start_pass_progress:
  "start_pass S obs started can log = (r, started', can', log') \<Longrightarrow> can' \<Longrightarrow> \<not> can \<Longrightarrow>
    \<exists>t \<in> ob_Tag ` set obs. \<not> is_started started t \<and> is_started started' t"
proof (induction S obs started can log rule: start_pass.induct)
  case (2 S ob rest started can log)
  show ?case
  proof (cases "is_started started (ob_Tag ob) \<or> (\<exists>d \<in> set (ob_Dependencies ob). \<not> is_started started d)")
    case True
    then show ?thesis using 2 by auto
  next
    case False
    have "is_started started' (ob_Tag ob)"
      using 2(4) False start_pass_grows [of S rest "gm_set (ob_Tag ob) True started" True _ r started' can' log' "ob_Tag ob"]
      by (auto simp: Let_def split: if_splits option.splits)
    then show ?thesis using False by auto
  qed
qed simp

lemma waiting_less:
  assumes "start_pass S obs started False log = (r, started', True, log')"
  shows "card (waiting obs started') < card (waiting obs started)"
proof (rule psubset_card_mono)
  show "waiting obs started' \<subset> waiting obs started"
    using start_pass_progress [OF assms] start_pass_grows [OF assms] by (fastforce simp: waiting_def)
qed (simp add: waiting_def)

text \<open>Passes until everything is started or a pass starts nothing. \<open>common.Find\<close> gives nil when no outbound is
  left, and the tag of nil panics.\<close>

function start_rounds :: "'e starter \<Rightarrow> (string \<times> outbound) list \<Rightarrow> outbound list \<Rightarrow> (string, bool) gomap \<Rightarrow> outbound list \<Rightarrow>
    ('e start_error, unit) res \<times> outbound list" where
  "start_rounds S table obs started log =
     (case start_pass S obs started False log of
        (Some e, started', canContinue, log') \<Rightarrow> (Err (StartFailed e), log')
      | (None, started', canContinue, log') \<Rightarrow>
          if length started' = length obs then (Ok (), log')
          else if canContinue then start_rounds S table obs started' log'
          else (case find (\<lambda>ob. \<not> is_started started' (ob_Tag ob)) obs of
                  None \<Rightarrow> (Panic, log')
                | Some current \<Rightarrow> (Err (lint started' table [ob_Tag current] current), log')))"
  by pat_completeness auto

termination
  by (relation "measure (\<lambda>(_, _, obs, started, _). card (waiting obs started))") (auto dest: waiting_less [OF sym])

declare start_rounds.simps [simp del]

text \<open>\<open>startOutbounds\<close> looks a problem up in the list of outbounds, \<open>startTransports\<close> in the map of the manager.
  The interface of DNS servers includes \<open>Lifecycle\<close>, so \<open>ob_isLifecycle\<close> holds of each.\<close>

definition startOutbounds :: "'e starter \<Rightarrow> outbound list \<Rightarrow> ('e start_error, unit) res \<times> outbound list" where
  "startOutbounds S outbounds = start_rounds S (map (\<lambda>ob. (ob_Tag ob, ob)) outbounds) outbounds [] []"

definition startTransports :: "'e starter \<Rightarrow> (string, outbound) gomap \<Rightarrow> outbound list \<Rightarrow> ('e start_error, unit) res \<times> outbound list" where
  "startTransports S transportByTag transports = start_rounds S transportByTag transports [] []"


section \<open>The manager\<close>

definition NewManager :: "string \<Rightarrow> Manager" where
  "NewManager defaultTag = \<lparr>om_defaultTag = defaultTag, om_outbounds = [], om_outboundByTag = [], om_defaultOutbound = None,
     om_endpoints = [], om_endpointByTag = []\<rparr>"

definition Outbound :: "Manager \<Rightarrow> string \<Rightarrow> outbound option" where
  "Outbound m tag = (case gm_get (om_outboundByTag m) tag of Some ob \<Rightarrow> Some ob | None \<Rightarrow> gm_get (om_endpointByTag m) tag)"

text \<open>\<open>Create\<close> of the outbound manager, with the outbound the registry built.\<close>

definition Create :: "string \<Rightarrow> 'e + outbound \<Rightarrow> Manager \<Rightarrow> ('e start_error, unit) res \<times> Manager" where
  "Create tag built m =
     (if tag = [] then (Err InvalidTag, m)
      else (case built of
        Inl e \<Rightarrow> (Err (CreateFailed e), m)
      | Inr ob \<Rightarrow>
          if gm_has (om_outboundByTag m) tag then (Err (DuplicateTag tag), m)
          else let m1 = m\<lparr>om_outbounds := om_outbounds m @ [ob], om_outboundByTag := gm_set tag ob (om_outboundByTag m)\<rparr>
               in (Ok (), if tag = om_defaultTag m \<or> om_defaultTag m = [] \<and> om_defaultOutbound m = None
                          then m1\<lparr>om_defaultOutbound := Some ob\<rparr> else m1)))"

definition CreateEndpoint :: "string \<Rightarrow> 'e + outbound \<Rightarrow> Manager \<Rightarrow> ('e start_error, unit) res \<times> Manager" where
  "CreateEndpoint tag built m =
     (case built of
        Inl e \<Rightarrow> (Err (CreateFailed e), m)
      | Inr ob \<Rightarrow>
          if gm_has (om_endpointByTag m) tag then (Err (DuplicateTag tag), m)
          else (Ok (), m\<lparr>om_endpoints := om_endpoints m @ [ob], om_endpointByTag := gm_set tag ob (om_endpointByTag m)\<rparr>))"

text \<open>The stage \<open>StartStateInitialize\<close>: which outbound is the default one.\<close>

definition add_fallback :: "'e + outbound \<Rightarrow> Manager \<Rightarrow> ('e start_error, Manager) res" where
  "add_fallback fallback m =
     (case om_defaultOutbound m of
        Some _ \<Rightarrow> Ok m
      | None \<Rightarrow> (case fallback of
          Inl e \<Rightarrow> Err (FallbackFailed e)
        | Inr direct \<Rightarrow> Ok (m\<lparr>om_outbounds := om_outbounds m @ [direct],
            om_outboundByTag := gm_set (ob_Tag direct) direct (om_outboundByTag m), om_defaultOutbound := Some direct\<rparr>)))"

definition initialize_default :: "'e + outbound \<Rightarrow> Manager \<Rightarrow> ('e start_error, Manager) res" where
  "initialize_default fallback m =
     (if om_defaultTag m \<noteq> [] \<and> om_defaultOutbound m = None
      then (case gm_get (om_endpointByTag m) (om_defaultTag m) of
              None \<Rightarrow> Err (DefaultNotFound (om_defaultTag m))
            | Some ep \<Rightarrow> add_fallback fallback (m\<lparr>om_defaultOutbound := Some ep\<rparr>))
      else add_fallback fallback m)"

datatype StartStage = StartStateInitialize | StartStateStart | StartStatePostStart | StartStateStarted

text \<open>The stages other than \<open>StartStateStart\<close>, in the order of creation.\<close>

fun start_each :: "'e starter \<Rightarrow> outbound list \<Rightarrow> outbound list \<Rightarrow> ('e start_error, unit) res \<times> outbound list" where
  "start_each S [] log = (Ok (), log)"
| "start_each S (ob # rest) log =
     (if \<not> ob_isLifecycle ob then start_each S rest log
      else (case S log ob of Some e \<Rightarrow> (Err (StartFailed e), log @ [ob]) | None \<Rightarrow> start_each S rest (log @ [ob])))"

definition Start :: "'e starter \<Rightarrow> 'e + outbound \<Rightarrow> StartStage \<Rightarrow> Manager \<Rightarrow> (('e start_error, unit) res \<times> outbound list) \<times> Manager" where
  "Start S fallback stage m =
     (case (if stage = StartStateInitialize then initialize_default fallback m else Ok m) of
        Err e \<Rightarrow> ((Err e, []), m)
      | Panic \<Rightarrow> ((Panic, []), m)
      | Ok m' \<Rightarrow>
          if stage = StartStateStart then (startOutbounds S (om_outbounds m' @ om_endpoints m'), m')
          else (start_each S (om_outbounds m') [], m'))"

text \<open>\<open>checkOutbounds\<close> of the options: tags, or positions when there is no tag, are unique over both lists.\<close>

definition given_tag :: "nat \<Rightarrow> string \<Rightarrow> string" where
  "given_tag i tag = (if tag = [] then show_nat i else tag)"

fun check_tags :: "nat \<Rightarrow> string list \<Rightarrow> string list \<Rightarrow> (string, string list) res" where
  "check_tags i [] seen = Ok seen"
| "check_tags i (t # ts) seen =
     (let tag = given_tag i t in if tag \<in> set seen then Err tag else check_tags (Suc i) ts (tag # seen))"

definition checkOutbounds :: "string list \<Rightarrow> string list \<Rightarrow> (string, unit) res" where
  "checkOutbounds outbounds endpoints =
     res_bind (check_tags 0 outbounds []) (\<lambda>seen. res_bind (check_tags 0 endpoints seen) (\<lambda>_. Ok ()))"

text \<open>The loops of \<open>box.New\<close> that create the endpoints and the outbounds.\<close>

fun create_all :: "(string \<Rightarrow> 'e + outbound \<Rightarrow> Manager \<Rightarrow> ('e start_error, unit) res \<times> Manager) \<Rightarrow> (string \<Rightarrow> 'e + outbound) \<Rightarrow>
    nat \<Rightarrow> string list \<Rightarrow> Manager \<Rightarrow> ('e start_error, Manager) res" where
  "create_all create registry i [] m = Ok m"
| "create_all create registry i (t # ts) m =
     (case create (given_tag i t) (registry (given_tag i t)) m of
        (Ok _, m') \<Rightarrow> create_all create registry (Suc i) ts m'
      | (Err e, _) \<Rightarrow> Err e
      | (Panic, _) \<Rightarrow> Panic)"

definition create_endpoints_outbounds :: "(string \<Rightarrow> 'e + outbound) \<Rightarrow> (string \<Rightarrow> 'e + outbound) \<Rightarrow> string list \<Rightarrow> string list \<Rightarrow> string \<Rightarrow>
    ('e start_error, Manager) res" where
  "create_endpoints_outbounds endpointRegistry registry endpoints outbounds defaultTag =
     res_bind (create_all CreateEndpoint endpointRegistry 0 endpoints (NewManager defaultTag)) (create_all Create registry 0 outbounds)"


section \<open>Dependencies\<close>

definition depends :: "outbound list \<Rightarrow> (string \<times> string) set" where
  "depends obs = {(ob_Tag ob, d) | ob d. ob \<in> set obs \<and> d \<in> set (ob_Dependencies ob)}"

lemma depends_simps: "depends [] = {}" "depends (ob # obs) = Pair (ob_Tag ob) ` set (ob_Dependencies ob) \<union> depends obs"
  by (auto simp: depends_def)

definition startable :: "outbound \<Rightarrow> bool" where
  "startable ob = (ob_isEndpoint ob \<or> ob_isLifecycle ob)"

abbreviation tags :: "outbound list \<Rightarrow> string list" where
  "tags obs \<equiv> map ob_Tag obs"

lemma depends_tag: "distinct (tags obs) \<Longrightarrow> ob \<in> set obs \<Longrightarrow> (ob_Tag ob, d) \<in> depends obs \<longleftrightarrow> d \<in> set (ob_Dependencies ob)"
  by (auto simp: depends_def distinct_map dest: inj_onD)

text \<open>Tags in an order in which each comes after what it depends on.\<close>

inductive ordered :: "(string \<times> string) set \<Rightarrow> string list \<Rightarrow> bool" for r where
  ordered_Nil: "ordered r []"
| ordered_snoc: "ordered r ts \<Longrightarrow> t \<notin> set ts \<Longrightarrow> (\<And>d. (t, d) \<in> r \<Longrightarrow> d \<in> set ts) \<Longrightarrow> ordered r (ts @ [t])"

definition pos :: "'a list \<Rightarrow> 'a \<Rightarrow> nat" where
  "pos ts t = length (takeWhile (\<lambda>x. x \<noteq> t) ts)"

lemma pos_append: "pos (ts @ us) t = (if t \<in> set ts then pos ts t else length ts + pos us t)"
  by (auto simp: pos_def takeWhile_append)

lemma pos_less: "t \<in> set ts \<Longrightarrow> pos ts t < length ts"
  unfolding pos_def by (induction ts) auto

lemma ordered_closed: "ordered r ts \<Longrightarrow> t \<in> set ts \<Longrightarrow> (t, d) \<in> r \<Longrightarrow> d \<in> set ts"
  by (induction rule: ordered.induct) auto

lemma ordered_pos: "ordered r ts \<Longrightarrow> t \<in> set ts \<Longrightarrow> (t, d) \<in> r \<Longrightarrow> pos ts d < pos ts t"
proof (induction rule: ordered.induct)
  case (ordered_snoc ts t')
  then show ?case using ordered_closed [of r ts t d] pos_less [of d ts] by (auto simp: pos_append)
qed simp

lemma ordered_trancl: "(t, d) \<in> r\<^sup>+ \<Longrightarrow> ordered r ts \<Longrightarrow> t \<in> set ts \<Longrightarrow> d \<in> set ts"
  by (induction rule: trancl_induct) (auto dest: ordered_closed)

lemma ordered_acyclic:
  assumes "ordered r ts" "fst ` r \<subseteq> set ts"
  shows "acyclic r"
proof -
  have "r \<subseteq> (measure (pos ts))\<inverse>" using ordered_pos [OF assms(1)] assms(2) by force
  then have "acyclic (r\<inverse>)" by (intro wf_acyclic wf_subset [OF wf_measure [of "pos ts"]]) auto
  then show ?thesis by simp
qed

lemma ordered_distinct: "ordered r ts \<Longrightarrow> distinct ts"
  by (induction rule: ordered.induct) auto


section \<open>The order of the calls\<close>

definition before :: "outbound list \<Rightarrow> outbound list \<Rightarrow> outbound \<Rightarrow> bool" where
  "before obs log ob = (\<forall>p \<in> set obs. startable p \<longrightarrow> (ob_Tag ob, ob_Tag p) \<in> (depends obs)\<^sup>+ \<longrightarrow> p \<in> set log)"

definition calls_ok :: "outbound list \<Rightarrow> outbound list \<Rightarrow> bool" where
  "calls_ok obs log =
     (distinct log \<and> set log \<subseteq> {ob \<in> set obs. startable ob} \<and> (\<forall>xs ob ys. log = xs @ ob # ys \<longrightarrow> before obs xs ob))"

lemma calls_ok_snoc:
  assumes "calls_ok obs log" "ob \<in> set obs" "startable ob" "ob \<notin> set log" "before obs log ob"
  shows "calls_ok obs (log @ [ob])"
proof -
  have "before obs xs ob'" if "log @ [ob] = xs @ ob' # ys" for xs ob' ys
  proof (cases ys rule: rev_cases)
    case Nil
    then show ?thesis using that assms(5) by simp
  next
    case (snoc zs z)
    then have "log = xs @ ob' # zs" using that by simp
    then show ?thesis using assms(1) by (simp add: calls_ok_def)
  qed
  then show ?thesis using assms by (auto simp: calls_ok_def)
qed

definition run_ok :: "outbound list \<Rightarrow> (string, bool) gomap \<Rightarrow> outbound list \<Rightarrow> bool" where
  "run_ok obs started log =
     ((\<forall>b \<in> set (map snd started). b) \<and> ordered (depends obs) (map fst started) \<and> set (map fst started) \<subseteq> set (tags obs) \<and>
      calls_ok obs log \<and> (\<forall>ob \<in> set obs. startable ob \<longrightarrow> (ob \<in> set log \<longleftrightarrow> is_started started (ob_Tag ob))))"

lemma is_started_keys: "(\<forall>b \<in> set (map snd started). b) \<Longrightarrow> is_started started t \<longleftrightarrow> t \<in> set (map fst started)"
  unfolding is_started_def by (induction started) auto

lemma gm_set_fresh: "k \<notin> set (map fst m) \<Longrightarrow> gm_set k v m = m @ [(k, v)]"
  unfolding gm_set_def by (induction m) auto

lemma run_ok_step:
  assumes ok: "run_ok obs started log" and d: "distinct (tags obs)" and ob: "ob \<in> set obs"
    and new: "\<not> is_started started (ob_Tag ob)" "\<forall>d \<in> set (ob_Dependencies ob). is_started started d"
  shows "run_ok obs (gm_set (ob_Tag ob) True started) (if startable ob then log @ [ob] else log)"
proof -
  let ?ts = "map fst started"
  have st: "is_started started t \<longleftrightarrow> t \<in> set ?ts" for t using ok is_started_keys unfolding run_ok_def by blast
  have ord: "ordered (depends obs) ?ts" and co: "calls_ok obs log"
    and lg: "\<And>p. p \<in> set obs \<Longrightarrow> startable p \<Longrightarrow> p \<in> set log \<longleftrightarrow> is_started started (ob_Tag p)"
    using ok by (auto simp: run_ok_def)
  have set: "gm_set (ob_Tag ob) True started = started @ [(ob_Tag ob, True)]" using new(1) st by (intro gm_set_fresh) simp
  have deps: "(ob_Tag ob, t) \<in> depends obs \<Longrightarrow> t \<in> set ?ts" for t using depends_tag [OF d ob] new(2) st by auto
  have bf: "before obs log ob"
    unfolding before_def
  proof (intro ballI impI)
    fix p assume p: "p \<in> set obs" "startable p" "(ob_Tag ob, ob_Tag p) \<in> (depends obs)\<^sup>+"
    then obtain t where t: "(ob_Tag ob, t) \<in> depends obs" "(t, ob_Tag p) \<in> (depends obs)\<^sup>*" by (meson tranclD)
    then have "ob_Tag p \<in> set ?ts" using deps [OF t(1)] ordered_trancl [OF _ ord] by (metis rtrancl_eq_or_trancl)
    then show "p \<in> set log" using lg p st by simp
  qed
  have same: "ob_Tag p = ob_Tag ob \<longleftrightarrow> p = ob" if "p \<in> set obs" for p using d ob that by (auto simp: distinct_map dest: inj_onD)
  have "calls_ok obs (if startable ob then log @ [ob] else log)"
    using co bf ob lg new(1) by (auto intro: calls_ok_snoc)
  moreover have "ordered (depends obs) (?ts @ [ob_Tag ob])" using ord new(1) st deps by (intro ordered_snoc) auto
  ultimately show ?thesis using ok ob same unfolding run_ok_def set by (auto simp: is_started_keys)
qed

lemma start_pass_ok:
  assumes "run_ok obs started log" "distinct (tags obs)" "set rest \<subseteq> set obs"
    and "start_pass S rest started can log = (r, started', can', log')"
  shows "run_ok obs started' log'"
  using assms
proof (induction S rest started can log rule: start_pass.induct)
  case (2 S ob rest started can log)
  show ?case
  proof (cases "is_started started (ob_Tag ob) \<or> (\<exists>d \<in> set (ob_Dependencies ob). \<not> is_started started d)")
    case True
    then show ?thesis using "2.IH"(1) "2.prems" by simp
  next
    case False
    have step: "run_ok obs (gm_set (ob_Tag ob) True started) (if startable ob then log @ [ob] else log)"
      using run_ok_step [OF "2.prems"(1,2), of ob] "2.prems"(3) False by auto
    show ?thesis
    proof (cases "startable ob")
      case True
      then show ?thesis using "2.IH"(2) [OF False refl] "2.prems" False step
        by (cases "S log ob") (auto simp: startable_def)
    next
      case st: False
      then show ?thesis using "2.IH"(3) [OF False refl] "2.prems" False step by (auto simp: startable_def Let_def)
    qed
  qed
qed simp

lemma start_pass_can: "start_pass S rest started True log = (r, started', can', log') \<Longrightarrow> can'"
  by (induction S rest started True log rule: start_pass.induct) (simp_all add: Let_def split: if_splits option.splits)

lemma start_pass_stuck:
  "start_pass S rest started can log = (None, started', False, log') \<Longrightarrow>
    started' = started \<and> (\<forall>ob \<in> set rest. is_started started (ob_Tag ob) \<or> (\<exists>d \<in> set (ob_Dependencies ob). \<not> is_started started d))"
proof (induction rest arbitrary: can)
  case (Cons ob rest)
  have "is_started started (ob_Tag ob) \<or> (\<exists>d \<in> set (ob_Dependencies ob). \<not> is_started started d)"
    using Cons.prems start_pass_can by (fastforce simp: Let_def split: if_splits option.splits)
  then show ?case using Cons by simp
qed simp

lemma start_pass_failed:
  "start_pass S rest started can log = (r, started', can', log') \<Longrightarrow> r = Some e \<Longrightarrow> log' \<noteq> [] \<and> S (butlast log') (last log') = Some e"
proof (induction S rest started can log rule: start_pass.induct)
  case (2 S ob rest started can log)
  then show ?case by (cases "S log ob") (auto simp: Let_def split: if_splits)
qed simp

lemma run_ok_all:
  assumes "run_ok obs started log" "distinct (tags obs)" "length started = length obs"
  shows "set (map fst started) = set (tags obs)"
proof (rule card_subset_eq)
  show "set (map fst started) \<subseteq> set (tags obs)" using assms(1) by (simp add: run_ok_def)
  have "distinct (map fst started)" using assms(1) ordered_distinct by (auto simp: run_ok_def)
  then have "card (set (map fst started)) = length started" using distinct_card [of "map fst started"] by simp
  moreover have "card (set (tags obs)) = length obs" using assms(2) distinct_card [of "tags obs"] by simp
  ultimately show "card (set (map fst started)) = card (set (tags obs))" using assms(3) by simp
qed simp

text \<open>What the search for the reason finds is there.\<close>

definition blamed :: "outbound list \<Rightarrow> 'e start_error \<Rightarrow> bool" where
  "blamed obs e = (case e of
     CircularDependency oTree d \<Rightarrow> oTree \<noteq> [] \<and> successively (\<lambda>a b. (a, b) \<in> depends obs) (oTree @ [d]) \<and> d \<in> set oTree
   | DependencyNotFound d t \<Rightarrow> (t, d) \<in> depends obs \<and> d \<notin> set (tags obs)
   | _ \<Rightarrow> False)"

definition table_of :: "outbound list \<Rightarrow> (string \<times> outbound) list \<Rightarrow> bool" where
  "table_of obs table = (\<forall>t ob. map_of table t = Some ob \<longleftrightarrow> ob \<in> set obs \<and> ob_Tag ob = t)"

lemma table_of_None:
  assumes "table_of obs table" "map_of table t = None"
  shows "t \<notin> set (tags obs)"
proof
  assume "t \<in> set (tags obs)"
  then obtain ob where "ob \<in> set obs" "ob_Tag ob = t" by auto
  then have "map_of table t = Some ob" using assms(1) unfolding table_of_def by blast
  then show False using assms(2) by simp
qed

lemma lint_blamed:
  assumes "table_of obs table"
    and "\<forall>ob \<in> set obs. is_started started (ob_Tag ob) \<or> (\<exists>d \<in> set (ob_Dependencies ob). \<not> is_started started d)"
    and "oCurrent \<in> set obs" "\<not> is_started started (ob_Tag oCurrent)"
    and "oTree \<noteq> []" "last oTree = ob_Tag oCurrent" "successively (\<lambda>a b. (a, b) \<in> depends obs) oTree"
  shows "blamed obs (lint started table oTree oCurrent)"
  using assms
proof (induction started table oTree oCurrent rule: lint.induct)
  case (1 started table oTree oCurrent)
  let ?d = "first_problem started oCurrent"
  have "\<exists>x \<in> set (ob_Dependencies oCurrent). \<not> is_started started x" using "1.prems"(2-4) by auto
  then obtain x where "find (\<lambda>d. \<not> is_started started d) (ob_Dependencies oCurrent) = Some x"
    by (metis find_None_iff option.exhaust)
  then have d: "?d \<in> set (ob_Dependencies oCurrent)" "\<not> is_started started ?d"
    using find_Some_iff [of "\<lambda>d. \<not> is_started started d" "ob_Dependencies oCurrent" x] by (auto simp: first_problem_def)
  then have dep: "(ob_Tag oCurrent, ?d) \<in> depends obs" using "1.prems"(3) by (auto simp: depends_def)
  then have path: "successively (\<lambda>a b. (a, b) \<in> depends obs) (oTree @ [?d])"
    using "1.prems"(5-7) by (simp add: successively_append_iff)
  show ?case
  proof (cases "?d \<in> set oTree")
    case True
    then show ?thesis using path "1.prems"(5) by (subst lint.simps) (simp add: Let_def blamed_def)
  next
    case new: False
    show ?thesis
    proof (cases "map_of table ?d")
      case None
      from table_of_None [OF "1.prems"(1) this] have "?d \<notin> set (tags obs)" .
      then show ?thesis using None new dep by (subst lint.simps) (simp add: Let_def blamed_def)
    next
      case (Some ob)
      then have "ob \<in> set obs" "ob_Tag ob = ?d" using "1.prems"(1) by (auto simp: table_of_def)
      then show ?thesis using "1.IH" [OF refl new Some "1.prems"(1,2)] d(2) path new Some by (subst lint.simps) (simp add: Let_def)
    qed
  qed
qed

text \<open>The outcome of the passes: everything started, a start that failed, or a reason that is there.\<close>

definition outcome_ok :: "'e starter \<Rightarrow> outbound list \<Rightarrow> ('e start_error, unit) res \<times> outbound list \<Rightarrow> bool" where
  "outcome_ok S obs out = (case out of
     (Ok _, log) \<Rightarrow> calls_ok obs log \<and> set log = {ob \<in> set obs. startable ob} \<and> acyclic (depends obs) \<and> snd ` depends obs \<subseteq> set (tags obs) \<and>
       (\<exists>ts. ordered (depends obs) ts \<and> set ts = set (tags obs))
   | (Err e, log) \<Rightarrow> calls_ok obs log \<and> (blamed obs e \<or> (\<exists>x. e = StartFailed x \<and> log \<noteq> [] \<and> S (butlast log) (last log) = Some x))
   | (Panic, log) \<Rightarrow> False)"

lemma finished_outcome:
  assumes "run_ok obs started log" "distinct (tags obs)" "length started = length obs"
  shows "outcome_ok S obs (Ok (), log)"
proof -
  note all = run_ok_all [OF assms]
  have ord: "ordered (depends obs) (map fst started)" using assms(1) by (simp add: run_ok_def)
  have dom: "fst ` depends obs \<subseteq> set (map fst started)" unfolding all by (auto simp: depends_def)
  have "snd ` depends obs \<subseteq> set (tags obs)"
  proof
    fix d assume "d \<in> snd ` depends obs"
    then obtain t where t: "(t, d) \<in> depends obs" by force
    then have "t \<in> set (map fst started)" using dom by force
    then show "d \<in> set (tags obs)" using ordered_closed [OF ord _ t] all by simp
  qed
  moreover have "is_started started (ob_Tag ob)" if "ob \<in> set obs" for ob
    using that all assms(1) is_started_keys [of started "ob_Tag ob"] by (simp add: run_ok_def)
  moreover have "\<exists>ts. ordered (depends obs) ts \<and> set ts = set (tags obs)" using ord all by blast
  ultimately show ?thesis using assms(1) ordered_acyclic [OF ord dom]
    by (auto simp: outcome_ok_def run_ok_def calls_ok_def)
qed

lemma start_rounds_outcome:
  assumes "distinct (tags obs)" "table_of obs table" "run_ok obs started log"
  shows "outcome_ok S obs (start_rounds S table obs started log)"
  using assms
proof (induction S table obs started log rule: start_rounds.induct)
  case (1 S table obs started log)
  obtain r started' can log' where p: "start_pass S obs started False log = (r, started', can, log')" by (metis prod_cases4)
  have ok: "run_ok obs started' log'" using start_pass_ok [OF "1.prems"(3,1) _ p] by simp
  show ?case
  proof (cases r)
    case (Some e)
    then show ?thesis using start_pass_failed [OF p Some] p ok
      by (subst start_rounds.simps) (auto simp: outcome_ok_def run_ok_def)
  next
    case None
    show ?thesis
    proof (cases "length started' = length obs")
      case True
      then show ?thesis using finished_outcome [OF ok "1.prems"(1)] p None by (subst start_rounds.simps) simp
    next
      case len: False
      show ?thesis
      proof (cases can)
        case True
        then show ?thesis using "1.IH" p None len "1.prems"(1,2) ok by (subst start_rounds.simps) auto
      next
        case False
        have stuck: "\<forall>ob \<in> set obs. is_started started' (ob_Tag ob) \<or> (\<exists>d \<in> set (ob_Dependencies ob). \<not> is_started started' d)"
          using start_pass_stuck [of S obs started False log started' log'] p None False by auto
        have "\<exists>ob \<in> set obs. \<not> is_started started' (ob_Tag ob)"
        proof (rule ccontr)
          assume "\<not> (\<exists>ob \<in> set obs. \<not> is_started started' (ob_Tag ob))"
          then have "set (tags obs) \<subseteq> set (map fst started')" using ok is_started_keys [of started'] by (auto simp: run_ok_def)
          then have "set (map fst started') = set (tags obs)" using ok by (auto simp: run_ok_def)
          moreover have "distinct (map fst started')" using ok ordered_distinct by (auto simp: run_ok_def)
          ultimately have "length (map fst started') = length (tags obs)" using "1.prems"(1) distinct_card by metis
          then show False using len by simp
        qed
        then obtain current where f: "find (\<lambda>ob. \<not> is_started started' (ob_Tag ob)) obs = Some current"
          by (metis (mono_tags, lifting) find_None_iff option.exhaust)
        then have "current \<in> set obs" "\<not> is_started started' (ob_Tag current)" by (auto simp: find_Some_iff)
        then have "blamed obs (lint started' table [ob_Tag current] current)"
          by (intro lint_blamed [OF "1.prems"(2) stuck]) simp_all
        then show ?thesis using p None len False f ok by (subst start_rounds.simps) (auto simp: outcome_ok_def run_ok_def)
      qed
    qed
  qed
qed

lemma table_of_list: "distinct (tags obs) \<Longrightarrow> table_of obs (map (\<lambda>ob. (ob_Tag ob, ob)) obs)"
proof -
  assume d: "distinct (tags obs)"
  let ?table = "map (\<lambda>ob. (ob_Tag ob, ob)) obs"
  have "distinct (map fst ?table)" using d by (simp add: comp_def)
  then have "map_of ?table t = Some ob \<longleftrightarrow> (t, ob) \<in> set ?table" for t ob by (rule map_of_eq_Some_iff)
  then show ?thesis unfolding table_of_def by auto
qed

lemma run_ok_start: "run_ok obs [] []"
  by (simp add: run_ok_def calls_ok_def ordered_Nil is_started_def)

lemma startOutbounds_outcome: "distinct (tags obs) \<Longrightarrow> outcome_ok S obs (startOutbounds S obs)"
  unfolding startOutbounds_def by (intro start_rounds_outcome table_of_list run_ok_start)

lemma startOutbounds_ordered:
  assumes "distinct (tags obs)" "fst (startOutbounds S obs) = Ok ()"
  shows "\<exists>ts. ordered (depends obs) ts \<and> set ts = set (tags obs)"
  using startOutbounds_outcome [OF assms(1), of S] assms(2) by (cases "startOutbounds S obs") (auto simp: outcome_ok_def)

lemma blamed_cycle:
  assumes "blamed obs e"
  shows "\<not> (acyclic (depends obs) \<and> snd ` depends obs \<subseteq> set (tags obs))"
proof (cases e)
  case (CircularDependency oTree d)
  then have p: "successively (\<lambda>a b. (a, b) \<in> depends obs) (oTree @ [d])" "d \<in> set oTree" using assms by (auto simp: blamed_def)
  obtain xs ys where "oTree = xs @ d # ys" using p(2) split_list by metis
  then have "successively (\<lambda>a b. (a, b) \<in> depends obs) (d # ys @ [d])" using p(1) by (simp add: successively_append_iff)
  moreover have "successively (\<lambda>a b. (a, b) \<in> r) (x # zs @ [y]) \<Longrightarrow> (x, y) \<in> r\<^sup>+" for r and x y :: string and zs
    by (induction zs arbitrary: x) (auto intro: trancl_into_trancl2)
  ultimately have "(d, d) \<in> (depends obs)\<^sup>+" by blast
  then show ?thesis by (auto simp: acyclic_def)
qed (use assms in \<open>force simp: blamed_def\<close>)+

text \<open>
  C15. Outbounds and endpoints with distinct tags are started in the order of their dependencies, whatever the
  starts do: each at most once, and when one is started, everything it needs, directly or through others, has
  been started before. When the call succeeds every outbound has been started. The search for a problem always
  ends, the call never panics, and an error names a start that failed, a dependency that does not exist, or a
  path of dependencies that closes.
\<close>

theorem outbounds_start_order:
  assumes "distinct (tags obs)"
  shows "\<exists>r log. startOutbounds S obs = (r, log) \<and> r \<noteq> Panic \<and> distinct log \<and> set log \<subseteq> {ob \<in> set obs. startable ob} \<and>
    (\<forall>xs ob ys p. log = xs @ ob # ys \<and> p \<in> set obs \<and> startable p \<and> (ob_Tag ob, ob_Tag p) \<in> (depends obs)\<^sup>+ \<longrightarrow> p \<in> set xs) \<and>
    (r = Ok () \<longrightarrow> set log = {ob \<in> set obs. startable ob}) \<and>
    (\<forall>e. r = Err e \<longrightarrow> blamed obs e \<or> (\<exists>x. e = StartFailed x \<and> log \<noteq> [] \<and> S (butlast log) (last log) = Some x))"
proof -
  obtain r log where rl: "startOutbounds S obs = (r, log)" by fastforce
  have "outcome_ok S obs (r, log)" using startOutbounds_outcome [OF assms, of S] rl by simp
  then show ?thesis using rl by (cases r) (auto simp: outcome_ok_def calls_ok_def before_def)
qed

text \<open>
  C19. When no start fails, starting outbounds with distinct tags succeeds exactly when every dependency exists and
  the dependencies have no cycle.
\<close>

theorem outbounds_start_iff:
  assumes "distinct (tags obs)" "\<forall>log ob. S log ob = None"
  shows "fst (startOutbounds S obs) = Ok () \<longleftrightarrow> acyclic (depends obs) \<and> snd ` depends obs \<subseteq> set (tags obs)"
proof -
  obtain r log where rl: "startOutbounds S obs = (r, log)" by fastforce
  have "outcome_ok S obs (r, log)" using startOutbounds_outcome [OF assms(1), of S] rl by simp
  then show ?thesis using rl blamed_cycle assms(2) by (cases r) (auto simp: outcome_ok_def)
qed


section \<open>From the options to the start\<close>

fun given_tags :: "nat \<Rightarrow> string list \<Rightarrow> string list" where
  "given_tags i [] = []"
| "given_tags i (t # ts) = given_tag i t # given_tags (Suc i) ts"

lemma check_tags_iff:
  "check_tags i ts seen = Ok seen' \<longleftrightarrow>
    distinct (given_tags i ts) \<and> set (given_tags i ts) \<inter> set seen = {} \<and> seen' = rev (given_tags i ts) @ seen"
  by (induction i ts seen rule: check_tags.induct) (auto simp: Let_def)

lemma checkOutbounds_iff:
  "checkOutbounds outbounds endpoints = Ok () \<longleftrightarrow> distinct (given_tags 0 outbounds @ given_tags 0 endpoints)"
  by (auto simp: checkOutbounds_def res_bind_eq_Ok check_tags_iff)

lemma given_tag_nonempty: "given_tag i t \<noteq> []"
  using show_nat_nonempty by (simp add: given_tag_def)

definition built_as :: "(string \<Rightarrow> 'e + outbound) \<Rightarrow> bool" where
  "built_as registry = (\<forall>t. \<exists>ob. registry t = Inr ob \<and> ob_Tag ob = t)"

lemma create_endpoints_Ok:
  assumes "built_as reg" "distinct (given_tags i ts)" "set (given_tags i ts) \<inter> set (map fst (om_endpointByTag m)) = {}"
  shows "\<exists>m'. create_all CreateEndpoint reg i ts m = Ok m' \<and> om_defaultTag m' = om_defaultTag m \<and>
    om_defaultOutbound m' = om_defaultOutbound m \<and> om_outbounds m' = om_outbounds m \<and> om_outboundByTag m' = om_outboundByTag m \<and>
    tags (om_endpoints m') = tags (om_endpoints m) @ given_tags i ts"
  using assms
proof (induction i ts arbitrary: m rule: given_tags.induct)
  case (2 i t ts)
  obtain ob where ob: "reg (given_tag i t) = Inr ob" "ob_Tag ob = given_tag i t" using "2.prems"(1) by (auto simp: built_as_def)
  have new: "given_tag i t \<notin> set (map fst (om_endpointByTag m))" using "2.prems"(3) by auto
  let ?m = "m\<lparr>om_endpoints := om_endpoints m @ [ob], om_endpointByTag := gm_set (given_tag i t) ob (om_endpointByTag m)\<rparr>"
  have c: "CreateEndpoint (given_tag i t) (reg (given_tag i t)) m = (Ok (), ?m)"
    using ob new by (simp add: CreateEndpoint_def gm_has_iff gm_keys_get map_of_eq_None_iff)
  have "set (given_tags (Suc i) ts) \<inter> set (map fst (om_endpointByTag ?m)) = {}"
    using "2.prems"(2,3) new by (auto simp: gm_set_fresh)
  then show ?case using "2.IH" [of ?m] "2.prems" c ob by auto
qed simp

lemma create_outbounds_Ok:
  assumes "built_as reg" "distinct (given_tags i ts)" "set (given_tags i ts) \<inter> set (map fst (om_outboundByTag m)) = {}"
  shows "\<exists>m'. create_all Create reg i ts m = Ok m' \<and> om_defaultTag m' = om_defaultTag m \<and> om_endpoints m' = om_endpoints m \<and>
    tags (om_outbounds m') = tags (om_outbounds m) @ given_tags i ts \<and>
    (om_defaultTag m = [] \<and> (ts \<noteq> [] \<or> om_defaultOutbound m \<noteq> None) \<longrightarrow> om_defaultOutbound m' \<noteq> None)"
  using assms
proof (induction i ts arbitrary: m rule: given_tags.induct)
  case (2 i t ts)
  obtain ob where ob: "reg (given_tag i t) = Inr ob" "ob_Tag ob = given_tag i t" using "2.prems"(1) by (auto simp: built_as_def)
  have new: "given_tag i t \<notin> set (map fst (om_outboundByTag m))" using "2.prems"(3) by auto
  obtain m1 where c: "Create (given_tag i t) (reg (given_tag i t)) m = (Ok (), m1)"
    and m1: "om_outboundByTag m1 = om_outboundByTag m @ [(given_tag i t, ob)]" "om_outbounds m1 = om_outbounds m @ [ob]"
      "om_endpoints m1 = om_endpoints m" "om_defaultTag m1 = om_defaultTag m" "om_defaultTag m = [] \<longrightarrow> om_defaultOutbound m1 \<noteq> None"
    using ob new given_tag_nonempty [of i t] by (auto simp: Create_def Let_def gm_has_iff gm_keys_get map_of_eq_None_iff gm_set_fresh)
  have "set (given_tags (Suc i) ts) \<inter> set (map fst (om_outboundByTag m1)) = {}" using "2.prems"(2,3) m1 by auto
  then show ?case using "2.IH" [of m1] "2.prems" c ob m1 by auto
qed simp

text \<open>
  Options that pass the check give a manager whose start never panics, provided that there is an outbound or
  a default tag, or that no endpoint has the tag of the fallback outbound.
\<close>

lemma checked_options_start:
  fixes fallback :: "'e + outbound" and S :: "'e starter"
  assumes "fallback = Inr direct" and "checkOutbounds outbounds endpoints = Ok ()" "built_as eps" "built_as obs" "ob_Tag direct = ''direct''"
    and "outbounds \<noteq> [] \<or> defaultTag \<noteq> [] \<or> ''direct'' \<notin> set (given_tags 0 endpoints)"
  shows "\<exists>m. create_endpoints_outbounds eps obs endpoints outbounds defaultTag = Ok m \<and>
    (\<forall>m'. initialize_default fallback m = Ok m' \<longrightarrow> fst (fst (Start S fb StartStateStart m')) \<noteq> Panic)"
proof -
  have d: "distinct (given_tags 0 outbounds @ given_tags 0 endpoints)" using assms(2) checkOutbounds_iff by blast
  obtain m1 where m1: "create_all CreateEndpoint eps 0 endpoints (NewManager defaultTag) = Ok m1" "om_defaultTag m1 = defaultTag"
      "om_defaultOutbound m1 = None" "om_outbounds m1 = []" "om_outboundByTag m1 = []" "tags (om_endpoints m1) = given_tags 0 endpoints"
    using create_endpoints_Ok [OF assms(3), of 0 endpoints "NewManager defaultTag"] d by (auto simp: NewManager_def)
  have dis: "distinct (given_tags 0 outbounds)" "set (given_tags 0 outbounds) \<inter> set (map fst (om_outboundByTag m1)) = {}"
    using d m1(5) by auto
  obtain m where mm: "create_all Create obs 0 outbounds m1 = Ok m" "om_endpoints m = om_endpoints m1"
      "tags (om_outbounds m) = tags (om_outbounds m1) @ given_tags 0 outbounds" "om_defaultTag m = om_defaultTag m1"
      "om_defaultTag m1 = [] \<and> (outbounds \<noteq> [] \<or> om_defaultOutbound m1 \<noteq> None) \<longrightarrow> om_defaultOutbound m \<noteq> None"
    using create_outbounds_Ok [OF assms(4) dis] by blast
  have m: "create_all Create obs 0 outbounds m1 = Ok m" "tags (om_endpoints m) = given_tags 0 endpoints"
      "tags (om_outbounds m) = given_tags 0 outbounds" "outbounds \<noteq> [] \<and> defaultTag = [] \<longrightarrow> om_defaultOutbound m \<noteq> None"
      "om_defaultTag m = defaultTag"
    using mm m1(2,4,6) by simp_all
  have "distinct (tags (om_outbounds m' @ om_endpoints m'))" if "initialize_default fallback m = Ok m'" for m'
  proof (cases "om_defaultOutbound m = None \<and> defaultTag = []")
    case True
    then have "outbounds = []" "m' = m\<lparr>om_outbounds := [direct], om_outboundByTag := gm_set ''direct'' direct (om_outboundByTag m),
        om_defaultOutbound := Some direct\<rparr>"
      using that m assms(1,5) by (auto simp: initialize_default_def add_fallback_def)
    then show ?thesis using m(2) d assms(1,5,6) True by simp
  next
    case False
    then have "om_outbounds m' = om_outbounds m" "om_endpoints m' = om_endpoints m"
      using that m by (auto simp: initialize_default_def add_fallback_def split: if_splits option.splits)
    then show ?thesis using m(2,3) d by simp
  qed
  moreover have "fst (fst (Start S fb StartStateStart m')) \<noteq> Panic" if "distinct (tags (om_outbounds m' @ om_endpoints m'))" for m'
    using startOutbounds_outcome [OF that, of S]
    by (cases "startOutbounds S (om_outbounds m' @ om_endpoints m')") (auto simp: Start_def outcome_ok_def)
  ultimately have "fst (fst (Start S fb StartStateStart m')) \<noteq> Panic" if "initialize_default fallback m = Ok m'" for m'
    using that by blast
  then show ?thesis using m m1 by (simp add: create_endpoints_outbounds_def)
qed

text \<open>The remaining case: with a single endpoint tagged \<open>direct\<close> and no outbound, the fallback has the same tag;
  the second pass starts nothing, fewer tags than outbounds are started, and no outbound is left to blame.\<close>

lemma direct_endpoint_panics:
  fixes S :: "'e starter"
  assumes "ob_Tag direct = ''direct''" "ob_Dependencies direct = []" "\<forall>log ob. S log ob = None"
  shows "\<exists>m. create_endpoints_outbounds (\<lambda>t. Inr (direct\<lparr>ob_isEndpoint := True\<rparr>)) obs [''direct''] [] [] = (Ok m :: ('e start_error, Manager) res) \<and>
    (\<exists>m'. initialize_default (Inr direct) m = (Ok m' :: ('e start_error, Manager) res) \<and> fst (fst (Start S fb StartStateStart m')) = Panic)"
  using assms
  by (auto simp: create_endpoints_outbounds_def CreateEndpoint_def NewManager_def given_tag_def gm_has_iff gm_keys_get gm_set_fresh
      initialize_default_def add_fallback_def Start_def startOutbounds_def start_rounds.simps is_started_def Let_def)

text \<open>Outbounds for the witnesses: a group over two servers, one of which is reached through the other.\<close>

abbreviation example_outbounds :: "outbound list" where
  "example_outbounds \<equiv>
     [\<lparr>ob_Tag = ''auto'', ob_Dependencies = [''a'', ''b''], ob_isEndpoint = False, ob_isLifecycle = True\<rparr>,
      \<lparr>ob_Tag = ''a'', ob_Dependencies = [''b''], ob_isEndpoint = False, ob_isLifecycle = False\<rparr>,
      \<lparr>ob_Tag = ''b'', ob_Dependencies = [], ob_isEndpoint = False, ob_isLifecycle = True\<rparr>]"

text \<open>Witness of C15: the group comes last although it is listed first.\<close>

theorem outbounds_start_order_witness:
  "\<exists>log. startOutbounds (\<lambda>_ _. None :: unit option) example_outbounds = (Ok (), log) \<and>
    set log = {ob \<in> set example_outbounds. startable ob}"
proof -
  have "fst (startOutbounds (\<lambda>_ _. None :: unit option) example_outbounds) = Ok ()"
    by (simp add: startOutbounds_def start_rounds.simps is_started_def Let_def gm_set_def)
  then show ?thesis using outbounds_start_order [of example_outbounds "\<lambda>_ _. None :: unit option"] by auto
qed

text \<open>Witness of C19: two groups that contain each other are refused.\<close>

theorem outbounds_start_iff_witness:
  "fst (startOutbounds (\<lambda>_ _. None :: unit option)
     [\<lparr>ob_Tag = ''x'', ob_Dependencies = [''y''], ob_isEndpoint = False, ob_isLifecycle = True\<rparr>,
      \<lparr>ob_Tag = ''y'', ob_Dependencies = [''x''], ob_isEndpoint = False, ob_isLifecycle = True\<rparr>]) \<noteq> Ok ()" (is "fst (startOutbounds ?S ?obs) \<noteq> _")
proof -
  have "(''x'', ''y'') \<in> depends ?obs" "(''y'', ''x'') \<in> depends ?obs" by (simp_all add: depends_simps)
  then have "(''x'', ''x'') \<in> (depends ?obs)\<^sup>+" by (meson r_into_trancl trancl_into_trancl)
  then have "\<not> acyclic (depends ?obs)" by (auto simp: acyclic_def)
  then show ?thesis using outbounds_start_iff [of ?obs ?S] by auto
qed


section \<open>The manager of DNS servers\<close>

record TransportManager =
  tm_defaultTag :: string
  tm_transports :: "outbound list"
  tm_transportByTag :: "(string, outbound) gomap"
  tm_defaultTransport :: "outbound option"
  tm_fakeIPTransport :: "outbound option"

definition NewTransportManager :: "string \<Rightarrow> TransportManager" where
  "NewTransportManager defaultTag = \<lparr>tm_defaultTag = defaultTag, tm_transports = [], tm_transportByTag = [], tm_defaultTransport = None,
     tm_fakeIPTransport = None\<rparr>"

text \<open>\<open>TransportManager.Create\<close>. The two checks about fake addresses come after the server has been registered.\<close>

definition register_fakeip :: "outbound \<Rightarrow> bool \<Rightarrow> TransportManager \<Rightarrow> ('e start_error, unit) res \<times> TransportManager" where
  "register_fakeip tr isFakeIP m =
     (if \<not> isFakeIP then (Ok (), m)
      else if tm_fakeIPTransport m \<noteq> None then (Err MultipleFakeIP, m)
      else (Ok (), m\<lparr>tm_fakeIPTransport := Some tr\<rparr>))"

definition CreateTransport :: "string \<Rightarrow> 'e + outbound \<times> bool \<Rightarrow> TransportManager \<Rightarrow> ('e start_error, unit) res \<times> TransportManager" where
  "CreateTransport tag built m =
     (if tag = [] then (Err InvalidTag, m)
      else (case built of
        Inl e \<Rightarrow> (Err (CreateFailed e), m)
      | Inr (tr, isFakeIP) \<Rightarrow>
          if gm_has (tm_transportByTag m) tag then (Err (DuplicateTag tag), m)
          else let m1 = m\<lparr>tm_transports := tm_transports m @ [tr], tm_transportByTag := gm_set tag tr (tm_transportByTag m)\<rparr>
               in if tag = tm_defaultTag m \<or> tm_defaultTag m = [] \<and> tm_defaultTransport m = None
                  then (if isFakeIP then (Err DefaultFakeIP, m1)
                        else register_fakeip tr isFakeIP (m1\<lparr>tm_defaultTransport := Some tr\<rparr>))
                  else register_fakeip tr isFakeIP m1))"

definition initialize_transport :: "'e + outbound \<Rightarrow> TransportManager \<Rightarrow> ('e start_error, TransportManager) res" where
  "initialize_transport fallback m =
     (if tm_defaultTag m \<noteq> [] \<and> tm_defaultTransport m = None then Err (DefaultNotFound (tm_defaultTag m))
      else (case tm_defaultTransport m of
        Some _ \<Rightarrow> Ok m
      | None \<Rightarrow> (case fallback of
          Inl e \<Rightarrow> Err (FallbackFailed e)
        | Inr tr \<Rightarrow> Ok (m\<lparr>tm_transports := tm_transports m @ [tr], tm_transportByTag := gm_set (ob_Tag tr) tr (tm_transportByTag m),
            tm_defaultTransport := Some tr\<rparr>))))"

fun create_transports :: "(string \<times> ('e + outbound \<times> bool)) list \<Rightarrow> TransportManager \<Rightarrow> ('e start_error, TransportManager) res" where
  "create_transports [] m = Ok m"
| "create_transports ((tag, built) # rest) m =
     (case CreateTransport tag built m of
        (Ok _, m') \<Rightarrow> create_transports rest m'
      | (Err e, _) \<Rightarrow> Err e
      | (Panic, _) \<Rightarrow> Panic)"

definition transports_ok :: "TransportManager \<Rightarrow> bool" where
  "transports_ok m = (distinct (tags (tm_transports m)) \<and> tm_transportByTag m = map (\<lambda>tr. (ob_Tag tr, tr)) (tm_transports m) \<and>
     (tm_defaultTag m = [] \<longrightarrow> tm_defaultTransport m = None \<longrightarrow> tm_transports m = []))"

lemma CreateTransport_ok:
  assumes "transports_ok m" "CreateTransport tag built m = (Ok (), m')" "\<And>tr b. built = Inr (tr, b) \<Longrightarrow> ob_Tag tr = tag"
  shows "transports_ok m'"
proof -
  obtain tr b where b: "built = Inr (tr, b)" using assms(2) by (auto simp: CreateTransport_def split: if_splits sum.splits)
  then have t: "ob_Tag tr = tag" using assms(3) by simp
  have new: "\<not> gm_has (tm_transportByTag m) tag" using assms(2) b by (auto simp: CreateTransport_def split: if_splits)
  then have "tag \<notin> set (map fst (tm_transportByTag m))" by (simp add: gm_has_iff gm_keys_get map_of_eq_None_iff)
  moreover from this have "tag \<notin> set (tags (tm_transports m))" using assms(1) by (force simp: transports_ok_def)
  ultimately show ?thesis using assms(1,2) b t new
    by (auto simp: transports_ok_def CreateTransport_def register_fakeip_def Let_def gm_set_fresh split: if_splits)
qed

lemma create_transports_ok:
  assumes "transports_ok m" "create_transports built m = Ok m'" "\<forall>(tag, b) \<in> set built. \<forall>tr f. b = Inr (tr, f) \<longrightarrow> ob_Tag tr = tag"
  shows "transports_ok m'"
  using assms
proof (induction built m rule: create_transports.induct)
  case (2 tag b rest m)
  obtain m1 where m1: "CreateTransport tag b m = (Ok (), m1)" "create_transports rest m1 = Ok m'"
    using "2.prems"(2) by (auto split: prod.splits res.splits)
  then have "transports_ok m1" using CreateTransport_ok [OF "2.prems"(1) m1(1)] "2.prems"(3) by auto
  then show ?case using "2.IH" m1 "2.prems"(3) by auto
qed simp

text \<open>DNS servers that were created and initialised are started like outbounds, without a panic: the fallback server
  is only added when there is no other.\<close>

lemma transports_start:
  assumes "create_transports built (NewTransportManager defaultTag) = Ok m" "initialize_transport fallback m = Ok m'"
    and "\<forall>(tag, b) \<in> set built. \<forall>tr f. b = Inr (tr, f) \<longrightarrow> ob_Tag tr = tag"
  shows "outcome_ok S (tm_transports m') (startTransports S (tm_transportByTag m') (tm_transports m'))"
proof -
  have "transports_ok m" using create_transports_ok [OF _ assms(1,3)] by (simp add: transports_ok_def NewTransportManager_def)
  then have m': "distinct (tags (tm_transports m'))" "tm_transportByTag m' = map (\<lambda>tr. (ob_Tag tr, tr)) (tm_transports m')"
    using assms(2) by (auto simp: transports_ok_def initialize_transport_def gm_set_def split: if_splits option.splits sum.splits)
  show ?thesis unfolding startTransports_def m'(2) by (intro start_rounds_outcome m'(1) table_of_list run_ok_start)
qed

end
