(* ===== verification/Outbound_Groups.thy ===== *)
theory Outbound_Groups
  imports Outbound_Manager "HOL-Library.Word" "HOL-Library.Multiset"
begin

text \<open>
  Outbound groups: \<^verbatim>\<open>protocol/group/selector.go\<close>, \<^verbatim>\<open>protocol/group/urltest.go\<close>, the test history of
  \<^verbatim>\<open>common/urltest/urltest.go\<close> and the connections a group can interrupt, \<^verbatim>\<open>common/interrupt/group.go\<close>.
  An outbound is named by its tag, which is unique in the manager; the world maps tags to what they stand for.
  Delays are 16-bit words: the comparison with the tolerance wraps around as in the code. \<open>RealTag\<close> and
  \<open>Select\<close> call each other through nested groups; they take fuel, and the number of outbounds is enough of it
  when the outbounds could be started. The measurement of one outbound is a parameter.
\<close>

section \<open>Data\<close>

datatype network = TCP | UDP

text \<open>The connections of an interrupt group with the flag that they are external.\<close>

type_synonym conns = "(nat \<times> bool) list"

record Selector =
  sl_Tag :: string
  sl_tags :: "string list"
  sl_defaultTag :: string
  sl_outbounds :: "string list"
  sl_selected :: "string option"
  sl_interruptGroup :: conns
  sl_interruptExternalConnections :: bool

record URLTestGroup =
  ug_outbounds :: "string list"
  ug_tolerance :: "16 word"
  ug_interval :: nat
  ug_checking :: bool
  ug_selectedTCP :: "string option"
  ug_selectedUDP :: "string option"
  ug_interruptGroup :: conns
  ug_interruptExternalConnections :: bool

datatype detour = PlainOutbound "network list" | SelectorOutbound Selector | URLTestOutbound URLTestGroup

type_synonym world = "(string, detour) gomap"

record URLTestHistory =
  uh_Time :: nat
  uh_Delay :: "16 word"

type_synonym history = "(string, URLTestHistory) gomap"


section \<open>History and connections\<close>

definition LoadURLTestHistory :: "history \<Rightarrow> string \<Rightarrow> URLTestHistory option" where
  "LoadURLTestHistory h tag = gm_get h tag"

definition DeleteURLTestHistory :: "string \<Rightarrow> history \<Rightarrow> history" where
  "DeleteURLTestHistory tag h = gm_del tag h"

definition StoreURLTestHistory :: "string \<Rightarrow> URLTestHistory \<Rightarrow> history \<Rightarrow> history" where
  "StoreURLTestHistory tag x h = gm_set tag x h"

definition NewConn :: "nat \<Rightarrow> bool \<Rightarrow> conns \<Rightarrow> conns" where
  "NewConn conn isExternal g = g @ [(conn, isExternal)]"

text \<open>\<open>Interrupt\<close>: the connections it closes, in order, and those that stay.\<close>

definition Interrupt :: "bool \<Rightarrow> conns \<Rightarrow> nat list \<times> conns" where
  "Interrupt interruptExternalConnections g =
     (map fst (filter (\<lambda>(_, isExternal). \<not> isExternal \<or> interruptExternalConnections) g),
      filter (\<lambda>(_, isExternal). \<not> (\<not> isExternal \<or> interruptExternalConnections)) g)"


section \<open>Selection\<close>

definition selected_of :: "network \<Rightarrow> URLTestGroup \<Rightarrow> string option" where
  "selected_of net g = (case net of TCP \<Rightarrow> ug_selectedTCP g | UDP \<Rightarrow> ug_selectedUDP g)"

definition set_selected :: "network \<Rightarrow> string \<Rightarrow> URLTestGroup \<Rightarrow> URLTestGroup" where
  "set_selected net d g = (case net of TCP \<Rightarrow> g\<lparr>ug_selectedTCP := Some d\<rparr> | UDP \<Rightarrow> g\<lparr>ug_selectedUDP := Some d\<rparr>)"

text \<open>The loop of \<open>Select\<close> over the outbounds. \<open>real\<close> and \<open>nets\<close> are \<open>RealTag\<close> and \<open>Network\<close>, without a result
  when their fuel is used up.\<close>

fun select_loop :: "(string \<Rightarrow> string option) \<Rightarrow> (string \<Rightarrow> network list option) \<Rightarrow> history \<Rightarrow> network \<Rightarrow> 16 word \<Rightarrow>
    string list \<Rightarrow> 16 word \<Rightarrow> string option \<Rightarrow> (16 word \<times> string option) option" where
  "select_loop real nets h net tolerance [] minDelay minOutbound = Some (minDelay, minOutbound)"
| "select_loop real nets h net tolerance (d # ds) minDelay minOutbound =
     (case nets d of
        None \<Rightarrow> None
      | Some ns \<Rightarrow>
          if net \<notin> set ns then select_loop real nets h net tolerance ds minDelay minOutbound
          else (case real d of
            None \<Rightarrow> None
          | Some tag \<Rightarrow> (case LoadURLTestHistory h tag of
              None \<Rightarrow> select_loop real nets h net tolerance ds minDelay minOutbound
            | Some x \<Rightarrow>
                if minDelay = 0 \<or> uh_Delay x + tolerance < minDelay
                then select_loop real nets h net tolerance ds (uh_Delay x) (Some d)
                else select_loop real nets h net tolerance ds minDelay minOutbound)))"

fun first_supporting :: "(string \<Rightarrow> network list option) \<Rightarrow> network \<Rightarrow> string list \<Rightarrow> string option option" where
  "first_supporting nets net [] = Some None"
| "first_supporting nets net (d # ds) =
     (case nets d of None \<Rightarrow> None | Some ns \<Rightarrow> if net \<notin> set ns then first_supporting nets net ds else Some (Some d))"

definition select_start :: "(string \<Rightarrow> string option) \<Rightarrow> history \<Rightarrow> string option \<Rightarrow> (16 word \<times> string option) option" where
  "select_start real h sel = (case sel of
     None \<Rightarrow> Some (0, None)
   | Some s \<Rightarrow> (case real s of
       None \<Rightarrow> None
     | Some tag \<Rightarrow> (case LoadURLTestHistory h tag of None \<Rightarrow> Some (0, None) | Some x \<Rightarrow> Some (uh_Delay x, Some s))))"

definition Select_with :: "(string \<Rightarrow> string option) \<Rightarrow> (string \<Rightarrow> network list option) \<Rightarrow> history \<Rightarrow> network \<Rightarrow> URLTestGroup \<Rightarrow>
    (string option \<times> bool) option" where
  "Select_with real nets h net g =
     (case select_start real h (selected_of net g) of
        None \<Rightarrow> None
      | Some (minDelay, minOutbound) \<Rightarrow>
          (case select_loop real nets h net (ug_tolerance g) (ug_outbounds g) minDelay minOutbound of
             None \<Rightarrow> None
           | Some (_, Some d) \<Rightarrow> Some (Some d, True)
           | Some (_, None) \<Rightarrow> map_option (\<lambda>d. (d, False)) (first_supporting nets net (ug_outbounds g))))"

primrec Network :: "nat \<Rightarrow> world \<Rightarrow> string \<Rightarrow> network list option" where
  "Network 0 w t = None"
| "Network (Suc n) w t = (case gm_get w t of
     Some (PlainOutbound ns) \<Rightarrow> Some ns
   | Some (SelectorOutbound s) \<Rightarrow> (case sl_selected s of None \<Rightarrow> Some [TCP, UDP] | Some d \<Rightarrow> Network n w d)
   | Some (URLTestOutbound _) \<Rightarrow> Some [TCP, UDP]
   | None \<Rightarrow> Some [])"

text \<open>\<open>Selected\<close> of the two kinds of groups is part of \<open>RealTag\<close>. A tag that stands for nothing is its own.\<close>

primrec RealTag :: "nat \<Rightarrow> world \<Rightarrow> history \<Rightarrow> network \<Rightarrow> string \<Rightarrow> string option" where
  "RealTag 0 w h net t = None"
| "RealTag (Suc n) w h net t = (case gm_get w t of
     Some (SelectorOutbound s) \<Rightarrow> (case sl_selected s of None \<Rightarrow> Some [] | Some d \<Rightarrow> RealTag n w h net d)
   | Some (URLTestOutbound g) \<Rightarrow>
       (case selected_of net g of
          Some d \<Rightarrow> RealTag n w h net d
        | None \<Rightarrow> (case Select_with (RealTag n w h net) (Network n w) h net g of
            None \<Rightarrow> None
          | Some (None, _) \<Rightarrow> Some []
          | Some (Some d, _) \<Rightarrow> RealTag n w h net d))
   | _ \<Rightarrow> Some t)"

definition Select :: "nat \<Rightarrow> world \<Rightarrow> history \<Rightarrow> network \<Rightarrow> URLTestGroup \<Rightarrow> (string option \<times> bool) option" where
  "Select n w h net g = Select_with (RealTag n w h net) (Network n w) h net g"

definition Selected :: "nat \<Rightarrow> world \<Rightarrow> history \<Rightarrow> network \<Rightarrow> URLTestGroup \<Rightarrow> string option option" where
  "Selected n w h net g =
     (case selected_of net g of Some d \<Rightarrow> Some (Some d) | None \<Rightarrow> map_option fst (Select n w h net g))"

text \<open>\<open>performUpdateCheck\<close>: the new group, the connections it closes and whether it notifies.\<close>

definition update_one :: "nat \<Rightarrow> world \<Rightarrow> history \<Rightarrow> network \<Rightarrow> URLTestGroup \<times> bool \<times> bool \<Rightarrow> (URLTestGroup \<times> bool \<times> bool) option" where
  "update_one n w h net st = (case st of (g, updated, selected) \<Rightarrow>
     (case Select n w h net g of
        None \<Rightarrow> None
      | Some (None, _) \<Rightarrow> Some (g, updated, selected)
      | Some (Some d, exists) \<Rightarrow>
          if selected_of net g = None \<or> exists \<and> selected_of net g \<noteq> Some d
          then Some (set_selected net d g, updated \<or> selected_of net g \<noteq> None, True)
          else Some (g, updated, selected)))"

definition performUpdateCheck :: "nat \<Rightarrow> world \<Rightarrow> history \<Rightarrow> URLTestGroup \<Rightarrow> (URLTestGroup \<times> nat list \<times> bool) option" where
  "performUpdateCheck n w h g =
     (case update_one n w h TCP (g, False, False) of
        None \<Rightarrow> None
      | Some st \<Rightarrow> (case update_one n w h UDP st of
          None \<Rightarrow> None
        | Some (g', updated, selected) \<Rightarrow>
            if updated
            then (case Interrupt (ug_interruptExternalConnections g') (ug_interruptGroup g') of
                    (closed, rest) \<Rightarrow> Some (g'\<lparr>ug_interruptGroup := rest\<rparr>, closed, selected))
            else Some (g', [], selected)))"


section \<open>Selector\<close>

datatype 'e group_error =
    MissingTags
  | DuplicateOutboundTag string
  | OutboundNotFound nat string
  | DefaultOutboundNotFound string
  | IntervalTooLong
  | UnknownNetwork
  | MissingSupportedOutbound
  | DialFailed 'e

text \<open>The check both constructors make of their tags.\<close>

fun duplicate_tag :: "string list \<Rightarrow> string list \<Rightarrow> string option" where
  "duplicate_tag seen [] = None"
| "duplicate_tag seen (t # ts) = (if t \<in> set seen then Some t else duplicate_tag (seen @ [t]) ts)"

definition check_group_tags :: "string list \<Rightarrow> ('e group_error, unit) res" where
  "check_group_tags ts =
     (if ts = [] then Err MissingTags
      else (case duplicate_tag [] ts of Some t \<Rightarrow> Err (DuplicateOutboundTag t) | None \<Rightarrow> Ok ()))"

definition NewSelector :: "string \<Rightarrow> string list \<Rightarrow> string \<Rightarrow> bool \<Rightarrow> ('e group_error, Selector) res" where
  "NewSelector tag outbounds defaultTag interruptExist =
     res_bind (check_group_tags outbounds) (\<lambda>_.
       Ok \<lparr>sl_Tag = tag, sl_tags = outbounds, sl_defaultTag = defaultTag, sl_outbounds = [], sl_selected = None,
           sl_interruptGroup = [], sl_interruptExternalConnections = interruptExist\<rparr>)"

fun find_members :: "(string \<Rightarrow> bool) \<Rightarrow> nat \<Rightarrow> string list \<Rightarrow> ('e group_error, string list) res" where
  "find_members loaded i [] = Ok []"
| "find_members loaded i (t # ts) =
     (if \<not> loaded t then Err (OutboundNotFound i t)
      else res_bind (find_members loaded (Suc i) ts) (\<lambda>ms. Ok (t # ms)))"

text \<open>\<open>Start\<close> in the stage \<open>StartStateStart\<close>. The cache file keeps the selection of groups by tag.\<close>

definition SelectorStart :: "(string \<Rightarrow> bool) \<Rightarrow> (string, string) gomap option \<Rightarrow> Selector \<Rightarrow> ('e group_error, Selector) res" where
  "SelectorStart loaded cacheFile s =
     res_bind (find_members loaded 0 (sl_tags s)) (\<lambda>ms.
       let s1 = s\<lparr>sl_outbounds := ms\<rparr>;
           cached = (case cacheFile of
             Some c \<Rightarrow> if sl_Tag s = [] then None
                       else (case gm_get c (sl_Tag s) of Some sel \<Rightarrow> if sel \<noteq> [] \<and> sel \<in> set ms then Some sel else None | None \<Rightarrow> None)
           | None \<Rightarrow> None)
       in case cached of
            Some sel \<Rightarrow> Ok (s1\<lparr>sl_selected := Some sel\<rparr>)
          | None \<Rightarrow>
              if sl_defaultTag s \<noteq> [] then
                (if sl_defaultTag s \<in> set ms then Ok (s1\<lparr>sl_selected := Some (sl_defaultTag s)\<rparr>)
                 else Err (DefaultOutboundNotFound (sl_defaultTag s)))
              else if sl_tags s = [] then Panic
              else Ok (s1\<lparr>sl_selected := Some (hd (sl_tags s))\<rparr>))"

text \<open>\<open>SelectOutbound\<close>: whether the tag is a member, the selector, the cache, the connections closed and whether the
  history is notified. Storing in the cache may fail, which is only logged.\<close>

definition SelectOutbound :: "bool \<Rightarrow> string \<Rightarrow> (string, string) gomap option \<Rightarrow> Selector \<Rightarrow>
    bool \<times> Selector \<times> (string, string) gomap option \<times> nat list \<times> bool" where
  "SelectOutbound stores tag cacheFile s =
     (if tag \<notin> set (sl_outbounds s) then (False, s, cacheFile, [], False)
      else if sl_selected s = Some tag then (True, s, cacheFile, [], False)
      else (case Interrupt (sl_interruptExternalConnections s) (sl_interruptGroup s) of
              (closed, rest) \<Rightarrow>
                (True, s\<lparr>sl_selected := Some tag, sl_interruptGroup := rest\<rparr>,
                 if sl_Tag s \<noteq> [] \<and> stores then map_option (gm_set (sl_Tag s) tag) cacheFile else cacheFile, closed, True)))"

definition SelectorReferences :: "Selector \<Rightarrow> string list" where
  "SelectorReferences s = (case sl_selected s of None \<Rightarrow> take 1 (sl_tags s) | Some d \<Rightarrow> [d])"

definition SelectorDialContext :: "(string \<Rightarrow> 'e + nat) \<Rightarrow> bool \<Rightarrow> Selector \<Rightarrow> ('e group_error, nat) res \<times> Selector" where
  "SelectorDialContext dial external s = (case sl_selected s of
     None \<Rightarrow> (Panic, s)
   | Some d \<Rightarrow> (case dial d of
       Inl e \<Rightarrow> (Err (DialFailed e), s)
     | Inr conn \<Rightarrow> (Ok conn, s\<lparr>sl_interruptGroup := NewConn conn external (sl_interruptGroup s)\<rparr>)))"


section \<open>URL test\<close>

definition NewURLTestGroup :: "nat \<Rightarrow> nat \<Rightarrow> string list \<Rightarrow> nat \<Rightarrow> 16 word \<Rightarrow> nat \<Rightarrow> bool \<Rightarrow> ('e group_error, URLTestGroup) res" where
  "NewURLTestGroup DefaultURLTestInterval DefaultURLTestIdleTimeout outbounds interval tolerance idleTimeout interruptExist =
     (let interval = (if interval = 0 then DefaultURLTestInterval else interval);
          tolerance = (if tolerance = 0 then 50 else tolerance);
          idleTimeout = (if idleTimeout = 0 then DefaultURLTestIdleTimeout else idleTimeout)
      in if idleTimeout < interval then Err IntervalTooLong
         else Ok \<lparr>ug_outbounds = outbounds, ug_tolerance = tolerance, ug_interval = interval, ug_checking = False,
                  ug_selectedTCP = None, ug_selectedUDP = None, ug_interruptGroup = [], ug_interruptExternalConnections = interruptExist\<rparr>)"

definition URLTestReferences :: "URLTestGroup \<Rightarrow> string list" where
  "URLTestReferences g =
     (case ug_selectedTCP g of None \<Rightarrow> [] | Some d \<Rightarrow> [d]) @
     (case ug_selectedUDP g of None \<Rightarrow> [] | Some d \<Rightarrow> if ug_selectedUDP g = ug_selectedTCP g then [] else [d])"

text \<open>\<open>DialContext\<close>, and \<open>ListenPacket\<close> with UDP: a failure forgets the history of the outbound.\<close>

definition URLTestDialContext :: "nat \<Rightarrow> world \<Rightarrow> history \<Rightarrow> (string \<Rightarrow> 'e + nat) \<Rightarrow> network option \<Rightarrow> bool \<Rightarrow> URLTestGroup \<Rightarrow>
    (('e group_error, nat) res \<times> URLTestGroup \<times> history) option" where
  "URLTestDialContext n w h dial network external g = (case network of
     None \<Rightarrow> Some (Err UnknownNetwork, g, h)
   | Some net \<Rightarrow> (case Selected n w h net g of
       None \<Rightarrow> None
     | Some None \<Rightarrow> Some (Err MissingSupportedOutbound, g, h)
     | Some (Some d) \<Rightarrow> (case dial d of
         Inr conn \<Rightarrow> Some (Ok conn, g\<lparr>ug_interruptGroup := NewConn conn external (ug_interruptGroup g)\<rparr>, h)
       | Inl e \<Rightarrow> Some (Err (DialFailed e), g, DeleteURLTestHistory d h))))"

text \<open>The outbounds a test measures. \<open>urlTestBatch.test\<close> goes through a list and, at a selector, through its members
  before it goes on; here the members are put before the rest. Every submitted job is listed.\<close>

datatype job = TestOutbound string | TestGroup string

record urlTestBatch =
  tb_checked :: "string list"
  tb_groups :: "string list"
  tb_jobs :: "job list"

definition all_of :: "world \<Rightarrow> Selector \<Rightarrow> string list" where
  "all_of w s = filter (gm_has w) (sl_tags s)"

text \<open>A selector is entered once, so the walk below ends even on groups that contain each other.\<close>

lemma unchecked_less:
  assumes "gm_get w t = Some x" "t \<notin> set checked"
  shows "card (fst ` set w - insert t (set checked)) < card (fst ` set w - set checked)"
proof (rule psubset_card_mono)
  have "t \<in> fst ` set w" using assms(1) map_of_SomeD by force
  then show "fst ` set w - insert t (set checked) \<subset> fst ` set w - set checked" using assms(2) by auto
qed simp

lemma unchecked_le:
  "card (fst ` set w - insert t (set checked)) < card (fst ` set w - set checked) \<or>
   card (fst ` set w - insert t (set checked)) = card (fst ` set w - set checked)" for w :: world
  using card_mono [of "fst ` set w - set checked" "fst ` set w - insert t (set checked)"] by fastforce

function test :: "world \<Rightarrow> history \<Rightarrow> nat \<Rightarrow> nat \<Rightarrow> bool \<Rightarrow> string list \<Rightarrow> urlTestBatch \<Rightarrow> urlTestBatch" where
  "test w h now interval force [] b = b"
| "test w h now interval force (t # rest) b =
     (if t \<in> set (tb_checked b) then test w h now interval force rest b
      else (case gm_get w t of
        Some (URLTestOutbound _) \<Rightarrow>
          test w h now interval force rest
            (b\<lparr>tb_checked := t # tb_checked b, tb_groups := tb_groups b @ [t], tb_jobs := tb_jobs b @ [TestGroup t]\<rparr>)
      | Some (SelectorOutbound s) \<Rightarrow>
          test w h now interval force (all_of w s @ rest) (b\<lparr>tb_checked := t # tb_checked b, tb_groups := tb_groups b @ [t]\<rparr>)
      | _ \<Rightarrow>
          if \<not> force \<and> (case LoadURLTestHistory h t of None \<Rightarrow> False | Some x \<Rightarrow> now - uh_Time x < interval)
          then test w h now interval force rest b
          else test w h now interval force rest (b\<lparr>tb_checked := t # tb_checked b, tb_jobs := tb_jobs b @ [TestOutbound t]\<rparr>)))"
  by pat_completeness auto

termination
  by (relation "measures [\<lambda>(w, h, now, interval, force, ts, b). card (fst ` set w - set (tb_checked b)),
      \<lambda>(w, h, now, interval, force, ts, b). length ts]")
    (use unchecked_le in \<open>auto simp: unchecked_less\<close>)

text \<open>One measurement: \<open>measure\<close> gives the delay, or nothing when the outbound is not available; a test that was
  cancelled leaves the history alone.\<close>

record env =
  en_measure :: "string \<Rightarrow> 16 word option"
  en_now :: nat
  en_cancelled :: bool
  en_schedule :: "job list \<Rightarrow> job list"   \<comment> \<open>the order in which the batch runs its jobs\<close>

type_synonym results = "(string, 16 word) gomap"

definition run_test :: "env \<Rightarrow> string \<Rightarrow> history \<times> results \<Rightarrow> history \<times> results" where
  "run_test env t hr = (case hr of (h, result) \<Rightarrow>
     (case en_measure env t of
        None \<Rightarrow> (if en_cancelled env then h else DeleteURLTestHistory t h, result)
      | Some delay \<Rightarrow> (StoreURLTestHistory t \<lparr>uh_Time = en_now env, uh_Delay = delay\<rparr> h, gm_set t delay result)))"

fun run_jobs :: "(string \<Rightarrow> world \<times> history \<Rightarrow> (world \<times> history \<times> results) option) \<Rightarrow> env \<Rightarrow> job list \<Rightarrow> world \<times> history \<times> results \<Rightarrow>
    (world \<times> history \<times> results) option" where
  "run_jobs nested env [] st = Some st"
| "run_jobs nested env (TestOutbound t # jobs) (w, h, result) = run_jobs nested env jobs (w, run_test env t (h, result))"
| "run_jobs nested env (TestGroup t # jobs) (w, h, result) =
     (case nested t (w, h) of
        None \<Rightarrow> None
      | Some (w', h', nestedResult) \<Rightarrow> run_jobs nested env jobs (w', h', fold (\<lambda>(k, v). gm_set k v) nestedResult result))"

text \<open>The delays of groups, by the outbound they stand for.\<close>

fun group_results :: "nat \<Rightarrow> world \<Rightarrow> history \<Rightarrow> string list \<Rightarrow> results \<Rightarrow> results option" where
  "group_results n w h [] result = Some result"
| "group_results n w h (t # ts) result =
     (case RealTag n w h TCP t of
        None \<Rightarrow> None
      | Some tag \<Rightarrow> group_results n w h ts
          (case LoadURLTestHistory h tag of None \<Rightarrow> result | Some x \<Rightarrow> gm_set t (uh_Delay x) result))"

definition URLTestOutbounds :: "nat \<Rightarrow> (string \<Rightarrow> world \<times> history \<Rightarrow> (world \<times> history \<times> results) option) \<Rightarrow> env \<Rightarrow>
    string list \<Rightarrow> nat \<Rightarrow> bool \<Rightarrow> world \<times> history \<Rightarrow> (world \<times> history \<times> results) option" where
  "URLTestOutbounds n nested env outbounds interval force wh = (case wh of (w, h) \<Rightarrow>
     (let b = test w h (en_now env) interval force outbounds \<lparr>tb_checked = [], tb_groups = [], tb_jobs = []\<rparr>
      in case run_jobs nested env (en_schedule env (tb_jobs b)) (w, h, []) of
           None \<Rightarrow> None
         | Some (w', h', result) \<Rightarrow> map_option (\<lambda>result. (w', h', result)) (group_results n w' h' (tb_groups b) result)))"

text \<open>The end of \<open>urlTest\<close>: the selection of the group is brought up to date.\<close>

definition finish_test :: "nat \<Rightarrow> string \<Rightarrow> world \<times> history \<times> results \<Rightarrow> (world \<times> history \<times> results) option" where
  "finish_test n tag st = (case st of (w, h, result) \<Rightarrow>
     (case gm_get w tag of
        Some (URLTestOutbound g) \<Rightarrow>
          map_option (\<lambda>(g', _). (gm_set tag (URLTestOutbound (g'\<lparr>ug_checking := False\<rparr>)) w, h, result)) (performUpdateCheck n w h g)
      | _ \<Rightarrow> None))"

text \<open>\<open>urlTest\<close>, whose nested groups take the fuel \<open>k\<close>.\<close>

primrec urlTest :: "nat \<Rightarrow> nat \<Rightarrow> env \<Rightarrow> bool \<Rightarrow> string \<Rightarrow> world \<times> history \<Rightarrow> (world \<times> history \<times> results) option" where
  "urlTest 0 n env force tag wh = None"
| "urlTest (Suc k) n env force tag wh = (case wh of (w, h) \<Rightarrow>
     (case gm_get w tag of
        Some (URLTestOutbound g) \<Rightarrow>
          if ug_checking g then Some (w, h, [])
          else Option.bind
            (URLTestOutbounds n (urlTest k n env force) env (ug_outbounds g) (ug_interval g) force
              (gm_set tag (URLTestOutbound (g\<lparr>ug_checking := True\<rparr>)) w, h))
            (finish_test n tag)
      | _ \<Rightarrow> None))"


section \<open>What a selection means\<close>

text \<open>The delay of an outbound that supports the network and has been measured.\<close>

definition measured :: "(string \<Rightarrow> string option) \<Rightarrow> (string \<Rightarrow> network list option) \<Rightarrow> history \<Rightarrow> network \<Rightarrow> string \<Rightarrow> 16 word option" where
  "measured real nets h net d = (case nets d of
     Some ns \<Rightarrow> if net \<in> set ns then (case real d of Some tag \<Rightarrow> map_option uh_Delay (LoadURLTestHistory h tag) | None \<Rightarrow> None) else None
   | None \<Rightarrow> None)"

definition answers :: "(string \<Rightarrow> string option) \<Rightarrow> (string \<Rightarrow> network list option) \<Rightarrow> network \<Rightarrow> string list \<Rightarrow> bool" where
  "answers real nets net ds = (\<forall>d \<in> set ds. \<exists>ns. nets d = Some ns \<and> (net \<in> set ns \<longrightarrow> real d \<noteq> None))"

text \<open>Delays of at least a millisecond for which adding the tolerance does not wrap around.\<close>

definition sane :: "history \<Rightarrow> 16 word \<Rightarrow> bool" where
  "sane h tolerance = (\<forall>t x. LoadURLTestHistory h t = Some x \<longrightarrow> uh_Delay x \<noteq> 0 \<and> unat (uh_Delay x) + unat tolerance < 2 ^ 16)"

lemma measured_sane:
  assumes "sane h tolerance" "measured real nets h net d = Some y"
  shows "y \<noteq> 0" "unat (y + tolerance) = unat y + unat tolerance"
proof -
  obtain t x where "LoadURLTestHistory h t = Some x" "uh_Delay x = y"
    using assms(2) by (auto simp: measured_def split: option.splits if_splits)
  then have "y \<noteq> 0" "unat y + unat tolerance < 2 ^ 16" using assms(1) unfolding sane_def by blast+
  then show "y \<noteq> 0" "unat (y + tolerance) = unat y + unat tolerance" using unat_add_lem [of y tolerance] by simp_all
qed

lemma select_loop_measured:
  assumes "answers real nets net (d # ds)"
  shows "select_loop real nets h net tolerance (d # ds) m mo =
    (case measured real nets h net d of
       None \<Rightarrow> select_loop real nets h net tolerance ds m mo
     | Some y \<Rightarrow> if m = 0 \<or> y + tolerance < m then select_loop real nets h net tolerance ds y (Some d)
                 else select_loop real nets h net tolerance ds m mo)"
  using assms by (auto simp: answers_def measured_def split: option.splits)

text \<open>The outcome of the loop: no candidate is better by more than the tolerance, and each change gains more than it.\<close>

definition settled :: "(string \<Rightarrow> 16 word option) \<Rightarrow> 16 word \<Rightarrow> string list \<Rightarrow> 16 word \<Rightarrow> string option \<Rightarrow> 16 word \<Rightarrow> string option \<Rightarrow> bool" where
  "settled delay tolerance ds m mo m' mo' =
     ((m' = 0) = (mo' = None) \<and>
      (\<forall>c \<in> set ds. \<forall>y. delay c = Some y \<longrightarrow> m' \<noteq> 0 \<and> unat m' \<le> unat y + unat tolerance) \<and>
      (m' = m \<and> mo' = mo \<or>
       (\<exists>c \<in> set ds. mo' = Some c \<and> delay c = Some m' \<and> (m = 0 \<or> unat m' + unat tolerance < unat m))))"

lemma select_loop_settled:
  assumes "sane h tolerance" "answers real nets net ds" "(m = 0) = (mo = None)"
  shows "\<exists>m' mo'. select_loop real nets h net tolerance ds m mo = Some (m', mo') \<and>
    settled (measured real nets h net) tolerance ds m mo m' mo'"
  using assms(2,3)
proof (induction ds arbitrary: m mo)
  case (Cons d ds)
  have an: "answers real nets net ds" using Cons.prems(1) by (simp add: answers_def)
  show ?case
  proof (cases "measured real nets h net d")
    case None
    obtain m' mo' where "select_loop real nets h net tolerance ds m mo = Some (m', mo')"
      "settled (measured real nets h net) tolerance ds m mo m' mo'" using Cons.IH [OF an Cons.prems(2)] by blast
    then show ?thesis unfolding select_loop_measured [OF Cons.prems(1)] using None by (auto simp: settled_def)
  next
    case (Some y)
    note y = measured_sane [OF assms(1) Some]
    show ?thesis
    proof (cases "m = 0 \<or> y + tolerance < m")
      case True
      obtain m' mo' where r: "select_loop real nets h net tolerance ds y (Some d) = Some (m', mo')"
        "settled (measured real nets h net) tolerance ds y (Some d) m' mo'" using Cons.IH [OF an, of y "Some d"] y(1) by auto
      have "unat m' \<le> unat y" using r(2) y(1) by (auto simp: settled_def)
      moreover have "m = 0 \<or> unat y + unat tolerance < unat m" using True y(2) by (auto simp: word_less_nat_alt)
      ultimately have "settled (measured real nets h net) tolerance (d # ds) m mo m' mo'"
        using r(2) Some y(1) by (fastforce simp: settled_def)
      then show ?thesis unfolding select_loop_measured [OF Cons.prems(1)] using Some True r(1) by auto
    next
      case False
      obtain m' mo' where r: "select_loop real nets h net tolerance ds m mo = Some (m', mo')"
        "settled (measured real nets h net) tolerance ds m mo m' mo'" using Cons.IH [OF an Cons.prems(2)] by blast
      have le: "unat m \<le> unat y + unat tolerance" "m \<noteq> 0" using False y(2) by (auto simp: word_less_nat_alt)
      have "m' \<noteq> 0" "unat m' \<le> unat m" using r(2) le(2) by (auto simp: settled_def)
      then have "settled (measured real nets h net) tolerance (d # ds) m mo m' mo'"
        using r(2) Some le by (fastforce simp: settled_def)
      then show ?thesis unfolding select_loop_measured [OF Cons.prems(1)] using Some False r(1) by auto
    qed
  qed
qed (simp add: settled_def)


section \<open>Groups that could be started\<close>

definition is_group :: "world \<Rightarrow> string \<Rightarrow> bool" where
  "is_group w t = (case gm_get w t of Some (SelectorOutbound _) \<Rightarrow> True | Some (URLTestOutbound _) \<Rightarrow> True | _ \<Rightarrow> False)"

text \<open>The tags a group can select.\<close>

definition choices :: "world \<Rightarrow> string \<Rightarrow> string set" where
  "choices w t = (case gm_get w t of
     Some (SelectorOutbound s) \<Rightarrow> set_option (sl_selected s)
   | Some (URLTestOutbound g) \<Rightarrow> set (ug_outbounds g) \<union> set_option (ug_selectedTCP g) \<union> set_option (ug_selectedUDP g)
   | _ \<Rightarrow> {})"

text \<open>The groups of the world are outbounds whose dependencies are their members, and they select members.\<close>

definition groups_of :: "outbound list \<Rightarrow> world \<Rightarrow> bool" where
  "groups_of obs w = (\<forall>t. is_group w t \<longrightarrow> (\<exists>ob \<in> set obs. ob_Tag ob = t \<and> choices w t \<subseteq> set (ob_Dependencies ob)))"

definition layered :: "world \<Rightarrow> string list \<Rightarrow> bool" where
  "layered w ts = (\<forall>t \<in> set ts. \<forall>d \<in> choices w t. d \<in> set ts \<and> pos ts d < pos ts t)"

lemma started_layered:
  assumes "distinct (tags obs)" "fst (startOutbounds S obs) = Ok ()" "groups_of obs w"
  shows "\<exists>ts. layered w ts \<and> set ts = set (tags obs) \<and> length ts = length obs"
proof -
  obtain ts where ts: "ordered (depends obs) ts" "set ts = set (tags obs)" using startOutbounds_ordered [OF assms(1,2)] by blast
  have "(t, d) \<in> depends obs" if "d \<in> choices w t" for t d
  proof -
    have "is_group w t" using that by (auto simp: choices_def is_group_def split: option.splits detour.splits)
    then obtain ob where "ob \<in> set obs" "ob_Tag ob = t" "choices w t \<subseteq> set (ob_Dependencies ob)"
      using assms(3) unfolding groups_of_def by blast
    then show ?thesis using that by (auto simp: depends_def)
  qed
  then have "layered w ts" using ordered_pos [OF ts(1)] ordered_closed [OF ts(1)] unfolding layered_def by blast
  moreover have "length ts = length obs"
    using distinct_card [OF ordered_distinct [OF ts(1)]] distinct_card [OF assms(1)] ts(2) by simp
  ultimately show ?thesis using ts(2) by blast
qed

lemma select_loop_total:
  assumes "answers real nets net ds"
  shows "\<exists>m' mo'. select_loop real nets h net tolerance ds m mo = Some (m', mo') \<and> (mo' = mo \<or> mo' \<in> Some ` set ds)"
  using assms
proof (induction ds arbitrary: m mo)
  case (Cons d ds)
  have "answers real nets net ds" using Cons.prems by (simp add: answers_def)
  from Cons.IH [OF this] show ?case unfolding select_loop_measured [OF Cons.prems]
    by (fastforce split: option.splits)
qed simp

lemma first_supporting_total:
  "answers real nets net ds \<Longrightarrow> \<exists>r. first_supporting nets net ds = Some r \<and> (r = None \<or> r \<in> Some ` set ds)"
  by (induction ds) (auto simp: answers_def)

lemma select_start_total:
  "\<forall>s. sel = Some s \<longrightarrow> real s \<noteq> None \<Longrightarrow> \<exists>m mo. select_start real h sel = Some (m, mo) \<and> (mo = None \<or> mo = sel)"
  by (auto simp: select_start_def split: option.splits)

lemma Select_with_total:
  assumes "answers real nets net (ug_outbounds g)" "\<forall>s. selected_of net g = Some s \<longrightarrow> real s \<noteq> None"
  shows "\<exists>r ex. Select_with real nets h net g = Some (r, ex) \<and>
    (\<forall>d. r = Some d \<longrightarrow> d \<in> set (ug_outbounds g) \<or> selected_of net g = Some d)"
proof -
  obtain m mo where st: "select_start real h (selected_of net g) = Some (m, mo)" "mo = None \<or> mo = selected_of net g"
    using select_start_total [OF assms(2)] by blast
  obtain m' mo' where lp: "select_loop real nets h net (ug_tolerance g) (ug_outbounds g) m mo = Some (m', mo')"
    "mo' = mo \<or> mo' \<in> Some ` set (ug_outbounds g)" using select_loop_total [OF assms(1)] by blast
  obtain r where "first_supporting nets net (ug_outbounds g) = Some r" "r = None \<or> r \<in> Some ` set (ug_outbounds g)"
    using first_supporting_total [OF assms(1)] by blast
  then show ?thesis using st lp by (cases mo') (auto simp: Select_with_def)
qed

lemma selected_choice: "gm_get w t = Some (URLTestOutbound g) \<Longrightarrow> selected_of net g = Some d \<Longrightarrow> d \<in> choices w t"
  by (cases net) (auto simp: choices_def selected_of_def)

lemma Network_total: "layered w ts \<Longrightarrow> t \<in> set ts \<Longrightarrow> pos ts t < n \<Longrightarrow> Network n w t \<noteq> None"
proof (induction n arbitrary: t)
  case (Suc n)
  have "Network n w d \<noteq> None" if "d \<in> choices w t" for d using Suc that unfolding layered_def by fastforce
  then show ?case by (auto simp: choices_def split: option.splits detour.splits)
qed simp

lemma RealTag_total: "layered w ts \<Longrightarrow> t \<in> set ts \<Longrightarrow> pos ts t < n \<Longrightarrow> RealTag n w h net t \<noteq> None"
proof (induction n arbitrary: t)
  case (Suc n)
  have less: "d \<in> set ts" "pos ts d < n" if "d \<in> choices w t" for d using Suc.prems that unfolding layered_def by fastforce+
  then have sub: "RealTag n w h net d \<noteq> None" "Network n w d \<noteq> None" if "d \<in> choices w t" for d
    using Suc.IH [OF Suc.prems(1)] Network_total [OF Suc.prems(1)] that by blast+
  show ?case
  proof (cases "\<exists>g. gm_get w t = Some (URLTestOutbound g) \<and> selected_of net g = None")
    case True
    then obtain g where g: "gm_get w t = Some (URLTestOutbound g)" "selected_of net g = None" by blast
    have "answers (RealTag n w h net) (Network n w) net (ug_outbounds g)"
      using sub g(1) by (fastforce simp: answers_def choices_def)
    then obtain r ex where r: "Select_with (RealTag n w h net) (Network n w) h net g = Some (r, ex)"
      "\<forall>d. r = Some d \<longrightarrow> d \<in> set (ug_outbounds g)" using Select_with_total [of "RealTag n w h net" "Network n w" net g h] g(2) by auto
    then have "RealTag n w h net d \<noteq> None" if "r = Some d" for d using sub that g(1) by (auto simp: choices_def)
    then show ?thesis using g r(1) by (cases r) auto
  next
    case False
    then show ?thesis using sub selected_choice [of w t _ net] by (auto simp: choices_def split: option.splits detour.splits)
  qed
qed simp

text \<open>What \<open>Network\<close> answers, without fuel: a URL test group and an unset selector claim both networks.\<close>

inductive carries :: "world \<Rightarrow> network \<Rightarrow> string \<Rightarrow> bool" for w net where
  plain: "gm_get w t = Some (PlainOutbound ns) \<Longrightarrow> net \<in> set ns \<Longrightarrow> carries w net t"
| urltest: "gm_get w t = Some (URLTestOutbound g) \<Longrightarrow> carries w net t"
| unset: "gm_get w t = Some (SelectorOutbound s) \<Longrightarrow> sl_selected s = None \<Longrightarrow> carries w net t"
| selector: "gm_get w t = Some (SelectorOutbound s) \<Longrightarrow> sl_selected s = Some d \<Longrightarrow> carries w net d \<Longrightarrow> carries w net t"

lemma Network_carries: "Network n w t = Some ns \<Longrightarrow> net \<in> set ns \<longleftrightarrow> carries w net t"
proof (induction n arbitrary: t)
  case (Suc n)
  then show ?case
    by (subst carries.simps) (cases net; auto split: option.splits detour.splits)
qed simp

text \<open>A group that has nothing to select for the network: a selector that was never started, or a URL test group without a
  selection and without a member that carries the network.\<close>

definition dead_end :: "world \<Rightarrow> network \<Rightarrow> string \<Rightarrow> bool" where
  "dead_end w net t = (case gm_get w t of
     Some (SelectorOutbound s) \<Rightarrow> sl_selected s = None
   | Some (URLTestOutbound g) \<Rightarrow> selected_of net g = None \<and> (\<forall>c \<in> set (ug_outbounds g). \<not> carries w net c)
   | _ \<Rightarrow> False)"

definition members :: "world \<Rightarrow> (string \<times> string) set" where
  "members w = {(t, d). d \<in> choices w t}"

lemma first_supporting_None:
  "first_supporting nets net ds = Some None \<Longrightarrow> \<forall>d \<in> set ds. \<exists>ns. nets d = Some ns \<and> net \<notin> set ns"
  by (induction ds) (auto split: option.splits if_splits)

lemma Select_with_None:
  assumes "Select_with real (Network n w) h net g = Some (None, ex)"
  shows "\<forall>c \<in> set (ug_outbounds g). \<not> carries w net c"
proof -
  have "first_supporting (Network n w) net (ug_outbounds g) = Some None"
    using assms by (auto simp: Select_with_def split: option.splits prod.splits)
  from first_supporting_None [OF this] show ?thesis using Network_carries by blast
qed

definition ends_well :: "world \<Rightarrow> network \<Rightarrow> string \<Rightarrow> string \<Rightarrow> bool" where
  "ends_well w net t r \<longleftrightarrow> (t, r) \<in> (members w)\<^sup>* \<and> \<not> is_group w r \<or> r = [] \<and> (\<exists>g. (t, g) \<in> (members w)\<^sup>* \<and> dead_end w net g)"

lemma ends_well_step: "d \<in> choices w t \<Longrightarrow> ends_well w net d r \<Longrightarrow> ends_well w net t r"
  by (auto simp: ends_well_def members_def intro: converse_rtrancl_into_rtrancl)

lemma ends_well_dead: "dead_end w net t \<Longrightarrow> ends_well w net t []"
  by (auto simp: ends_well_def)

lemma RealTag_ends: "layered w ts \<Longrightarrow> t \<in> set ts \<Longrightarrow> pos ts t < n \<Longrightarrow> RealTag n w h net t = Some r \<Longrightarrow> ends_well w net t r"
proof (induction n arbitrary: t)
  case (Suc n)
  have sub: "ends_well w net t r" if "d \<in> choices w t" "RealTag n w h net d = Some r" for d
  proof (rule ends_well_step [OF that(1)])
    have "d \<in> set ts" "pos ts d < n" using Suc.prems(1-3) that(1) unfolding layered_def by fastforce+
    then show "ends_well w net d r" using Suc.IH [OF Suc.prems(1)] that(2) by blast
  qed
  show ?case
  proof (cases "gm_get w t")
    case None
    with Suc.prems(4) show ?thesis by (auto simp: ends_well_def is_group_def)
  next
    case (Some x)
    show ?thesis
    proof (cases x)
      case (PlainOutbound ns)
      with Some Suc.prems(4) show ?thesis by (auto simp: ends_well_def is_group_def)
    next
      case (SelectorOutbound s)
      with Some Suc.prems(4) sub show ?thesis
        by (auto simp: choices_def dead_end_def split: option.splits intro: ends_well_dead)
    next
      case (URLTestOutbound g)
      show ?thesis
      proof (cases "selected_of net g")
        case (Some d)
        then show ?thesis using URLTestOutbound \<open>gm_get w t = Some x\<close> Suc.prems(4) sub selected_choice by fastforce
      next
        case None
        have g: "gm_get w t = Some (URLTestOutbound g)" using URLTestOutbound \<open>gm_get w t = Some x\<close> by simp
        then obtain o' ex where sel: "Select_with (RealTag n w h net) (Network n w) h net g = Some (o', ex)"
          using None Suc.prems(4) by (auto split: option.splits)
        have "d \<in> choices w t" if "o' = Some d" for d
        proof -
          have "\<forall>c \<in> choices w t. RealTag n w h net c \<noteq> None \<and> Network n w c \<noteq> None"
            using RealTag_total [OF Suc.prems(1)] Network_total [OF Suc.prems(1)] Suc.prems(1-3) unfolding layered_def by fastforce
          then have "answers (RealTag n w h net) (Network n w) net (ug_outbounds g)"
            using g by (fastforce simp: answers_def choices_def)
          from Select_with_total [OF this, of h] None sel that show ?thesis using g by (auto simp: choices_def)
        qed
        moreover have "r = [] \<and> dead_end w net t" if "o' = None"
          using Select_with_None [of _ n w h net g ex] sel that None g Suc.prems(4) by (auto simp: dead_end_def)
        ultimately show ?thesis
          using sel None g Suc.prems(4) sub ends_well_dead by (cases o') auto
      qed
    qed
  qed
qed simp

text \<open>
  C17. Following groups ends. When the outbounds could be started, following the selections of groups from any of
  them, also through groups inside groups, ends after at most as many steps as there are outbounds: either in a
  server, an outbound that is no group and a member of the group, directly or through nested groups; or with the empty tag,
  and then only because it met a group that has nothing to select (a selector that was not started, or a URL test group without selection none
  of whose members carries the network).
\<close>

theorem group_selection_ends:
  assumes "distinct (tags obs)" "fst (startOutbounds S obs) = Ok ()" "groups_of obs w" "t \<in> set (tags obs)"
  shows "(\<exists>r. RealTag (length obs) w h net t = Some r \<and> r \<in> set (tags obs) \<and> \<not> is_group w r \<and> (t, r) \<in> (members w)\<^sup>*)
    \<or> RealTag (length obs) w h net t = Some [] \<and> (\<exists>g. (t, g) \<in> (members w)\<^sup>* \<and> dead_end w net g)"
proof -
  obtain ts where ts: "layered w ts" "set ts = set (tags obs)" "length ts = length obs" using started_layered [OF assms(1-3)] by blast
  have p: "t \<in> set ts" "pos ts t < length obs" using assms(4) pos_less [of t ts] ts by simp_all
  then obtain r where r: "RealTag (length obs) w h net t = Some r" using RealTag_total [OF ts(1)] by blast
  have inside: "r' \<in> set ts" if "(t, r') \<in> (members w)\<^sup>*" for r'
    using that p(1) by (induction rule: rtrancl_induct) (use ts(1) in \<open>auto simp: layered_def members_def\<close>)
  from RealTag_ends [OF ts(1) p r] r inside ts(2) show ?thesis by (auto simp: ends_well_def)
qed

text \<open>The delay known for what an outbound stands for.\<close>

definition delay_of :: "(string \<Rightarrow> string option) \<Rightarrow> history \<Rightarrow> string \<Rightarrow> 16 word option" where
  "delay_of real h d = (case real d of Some tag \<Rightarrow> map_option uh_Delay (LoadURLTestHistory h tag) | None \<Rightarrow> None)"

lemma measured_delay: "measured real nets h net d = Some y \<Longrightarrow> delay_of real h d = Some y"
  by (auto simp: measured_def delay_of_def split: option.splits if_splits)

lemma select_start_cases:
  assumes "sane h tolerance" "select_start real h sel = Some (m, mo)"
  shows "m = 0 \<and> mo = None \<and> (\<forall>s. sel = Some s \<longrightarrow> delay_of real h s = None) \<or> (\<exists>s. sel = Some s \<and> mo = Some s \<and> delay_of real h s = Some m \<and> m \<noteq> 0)"
  using assms by (auto simp: select_start_def delay_of_def sane_def split: option.splits)

lemma Select_with_settled:
  assumes "sane h (ug_tolerance g)" "answers real nets net (ug_outbounds g)" "\<forall>s. selected_of net g = Some s \<longrightarrow> real s \<noteq> None"
  obtains m mo m' mo' where "select_start real h (selected_of net g) = Some (m, mo)"
    "settled (measured real nets h net) (ug_tolerance g) (ug_outbounds g) m mo m' mo'"
    "Select_with real nets h net g = (case mo' of Some d \<Rightarrow> Some (Some d, True)
       | None \<Rightarrow> map_option (\<lambda>d. (d, False)) (first_supporting nets net (ug_outbounds g)))"
proof -
  obtain m mo where st: "select_start real h (selected_of net g) = Some (m, mo)" using select_start_total [OF assms(3)] by blast
  have "(m = 0) = (mo = None)" using select_start_cases [OF assms(1) st] by auto
  from select_loop_settled [OF assms(1,2) this] obtain m' mo' where
    "select_loop real nets h net (ug_tolerance g) (ug_outbounds g) m mo = Some (m', mo')"
    "settled (measured real nets h net) (ug_tolerance g) (ug_outbounds g) m mo m' mo'" by blast
  then show ?thesis using st by (intro that [of m mo m' mo']) (auto simp: Select_with_def split: option.splits)
qed

lemma Select_with_best:
  assumes "sane h (ug_tolerance g)" "answers real nets net (ug_outbounds g)" "\<forall>s. selected_of net g = Some s \<longrightarrow> real s \<noteq> None"
  shows "(\<exists>d x. Select_with real nets h net g = Some (Some d, True) \<and> delay_of real h d = Some x \<and>
      (\<forall>c \<in> set (ug_outbounds g). \<forall>y. measured real nets h net c = Some y \<longrightarrow> unat x \<le> unat y + unat (ug_tolerance g)) \<and>
      (\<forall>s xs. selected_of net g = Some s \<and> delay_of real h s = Some xs \<and> d \<noteq> s \<longrightarrow> unat x + unat (ug_tolerance g) < unat xs)) \<or>
    (\<exists>r. Select_with real nets h net g = Some (r, False) \<and> first_supporting nets net (ug_outbounds g) = Some r \<and>
      (\<forall>c \<in> set (ug_outbounds g). measured real nets h net c = None) \<and>
      (\<forall>s. selected_of net g = Some s \<longrightarrow> delay_of real h s = None))"
proof -
  obtain m mo m' mo' where r: "select_start real h (selected_of net g) = Some (m, mo)"
    "settled (measured real nets h net) (ug_tolerance g) (ug_outbounds g) m mo m' mo'"
    "Select_with real nets h net g = (case mo' of Some d \<Rightarrow> Some (Some d, True)
       | None \<Rightarrow> map_option (\<lambda>d. (d, False)) (first_supporting nets net (ug_outbounds g)))"
    using Select_with_settled [OF assms] by blast
  note st = select_start_cases [OF assms(1) r(1)]
  show ?thesis
  proof (cases mo')
    case None
    then have z: "m' = 0" "m = 0" "mo = None" using r(2) by (auto simp: settled_def)
    then have "\<forall>c \<in> set (ug_outbounds g). measured real nets h net c = None" using r(2) by (auto simp: settled_def)
    then show ?thesis using None r(3) st z first_supporting_total [OF assms(2)] by auto
  next
    case (Some d)
    have d: "delay_of real h d = Some m'" "m' \<noteq> 0" using r(2) st Some measured_delay by (auto simp: settled_def)
    moreover have "\<forall>c \<in> set (ug_outbounds g). \<forall>y. measured real nets h net c = Some y \<longrightarrow> unat m' \<le> unat y + unat (ug_tolerance g)"
      using r(2) by (auto simp: settled_def)
    moreover have "unat m' + unat (ug_tolerance g) < unat xs"
      if "selected_of net g = Some s" "delay_of real h s = Some xs" "d \<noteq> s" for s xs
      using r(2) st that Some by (auto simp: settled_def)
    ultimately show ?thesis using Some r(3) by auto
  qed
qed

lemma group_answers:
  assumes "layered w ts" "t \<in> set ts" "gm_get w t = Some (URLTestOutbound g)" "length ts \<le> n"
  shows "answers (RealTag n w h net) (Network n w) net (ug_outbounds g)" "\<forall>s. selected_of net g = Some s \<longrightarrow> RealTag n w h net s \<noteq> None"
proof -
  have "d \<in> set ts" "pos ts d < n" if "d \<in> choices w t" for d
    using assms that pos_less [of d ts] unfolding layered_def by fastforce+
  then have "RealTag n w h net d \<noteq> None" "Network n w d \<noteq> None" if "d \<in> choices w t" for d
    using RealTag_total [OF assms(1)] Network_total [OF assms(1)] that by blast+
  then show "answers (RealTag n w h net) (Network n w) net (ug_outbounds g)" "\<forall>s. selected_of net g = Some s \<longrightarrow> RealTag n w h net s \<noteq> None"
    using selected_choice [OF assms(3), of net] assms(3) by (fastforce simp: answers_def choices_def)+
qed

text \<open>
  C18. The choice of a URL test group, nested or not: if any member that supports the network has a measured delay,
  the chosen outbound has a delay within the tolerance of every measured member, and the group leaves its current
  outbound only for one that is faster by more than the tolerance. With no measured member it falls back to the
  first member that supports the network. This holds where every stored delay is at least a millisecond and adding the tolerance
  to it does not wrap around in 16 bits (\<open>sane\<close>); otherwise a slower outbound can win (\<open>zero_delay_loses\<close>, \<open>tolerance_wraps\<close>).
\<close>

theorem urltest_selects_within_tolerance:
  assumes "distinct (tags obs)" "fst (startOutbounds S obs) = Ok ()" "groups_of obs w"
    and "gm_get w t = Some (URLTestOutbound g)" "sane h (ug_tolerance g)" "n = length obs"
  shows "(\<exists>d x. Select n w h net g = Some (Some d, True) \<and> delay_of (RealTag n w h net) h d = Some x \<and>
      (\<forall>c \<in> set (ug_outbounds g). \<forall>y. measured (RealTag n w h net) (Network n w) h net c = Some y \<longrightarrow>
         unat x \<le> unat y + unat (ug_tolerance g)) \<and>
      (\<forall>s xs. selected_of net g = Some s \<and> delay_of (RealTag n w h net) h s = Some xs \<and> d \<noteq> s \<longrightarrow>
         unat x + unat (ug_tolerance g) < unat xs)) \<or>
    (\<exists>r. Select n w h net g = Some (r, False) \<and> first_supporting (Network n w) net (ug_outbounds g) = Some r \<and>
      (\<forall>c \<in> set (ug_outbounds g). measured (RealTag n w h net) (Network n w) h net c = None) \<and>
      (\<forall>s. selected_of net g = Some s \<longrightarrow> delay_of (RealTag n w h net) h s = None))"
proof -
  obtain ts where ts: "layered w ts" "set ts = set (tags obs)" "length ts = n" using started_layered [OF assms(1-3)] assms(6) by blast
  have "is_group w t" using assms(4) by (simp add: is_group_def)
  then have "t \<in> set ts" using assms(3) ts(2) by (auto simp: groups_of_def)
  note an = group_answers [OF ts(1) this assms(4), where n = n and h = h and net = net]
  show ?thesis unfolding Select_def using ts(3) by (intro Select_with_best assms(5) an) simp_all
qed


section \<open>Keeping the selection\<close>

lemma selected_set [simp]:
  "selected_of net' (set_selected net d g) = (if net' = net then Some d else selected_of net' g)"
  "ug_outbounds (set_selected net d g) = ug_outbounds g" "ug_tolerance (set_selected net d g) = ug_tolerance g"
  "ug_interruptGroup (set_selected net d g) = ug_interruptGroup g"
  "ug_interruptExternalConnections (set_selected net d g) = ug_interruptExternalConnections g"
  by (cases net; cases net'; simp add: selected_of_def set_selected_def)+

lemma selected_interrupt [simp]: "selected_of net (g\<lparr>ug_interruptGroup := c\<rparr>) = selected_of net g"
  by (cases net) (simp_all add: selected_of_def)

lemma Select_with_cong:
  "selected_of net g = selected_of net g' \<Longrightarrow> ug_outbounds g = ug_outbounds g' \<Longrightarrow> ug_tolerance g = ug_tolerance g' \<Longrightarrow>
    Select_with real nets h net g = Select_with real nets h net g'"
  by (simp only: Select_with_def)

lemma first_supporting_net: "first_supporting nets net ds = Some (Some d) \<Longrightarrow> \<exists>ns. nets d = Some ns \<and> net \<in> set ns"
  by (induction ds) (auto split: option.splits if_splits)

lemma select_loop_stays:
  assumes "answers real nets net ds" "m \<noteq> 0" "sane h tolerance"
    and "\<forall>c \<in> set ds. \<forall>y. measured real nets h net c = Some y \<longrightarrow> unat m \<le> unat y + unat tolerance"
  shows "select_loop real nets h net tolerance ds m mo = Some (m, mo)"
  using assms(1,4)
proof (induction ds)
  case (Cons d ds)
  have "answers real nets net ds" using Cons.prems(1) by (simp add: answers_def)
  then have IH: "select_loop real nets h net tolerance ds m mo = Some (m, mo)" using Cons by simp
  have "\<not> y + tolerance < m" if "measured real nets h net d = Some y" for y
    using Cons.prems(2) that measured_sane [OF assms(3) that] by (auto simp: word_less_nat_alt)
  then show ?case unfolding select_loop_measured [OF Cons.prems(1)] using IH assms(2) by (simp split: option.split)
qed simp

text \<open>A group is at rest when its selection is what a check would keep.\<close>

definition at_rest :: "nat \<Rightarrow> world \<Rightarrow> history \<Rightarrow> network \<Rightarrow> URLTestGroup \<Rightarrow> bool" where
  "at_rest n w h net g = (\<exists>r ex. Select n w h net g = Some (r, ex) \<and>
     (\<forall>d. r = Some d \<longrightarrow> selected_of net g \<noteq> None \<and> (ex \<longrightarrow> selected_of net g = Some d)))"

lemma at_rest_cong:
  "at_rest n w h net g \<Longrightarrow> selected_of net g = selected_of net g' \<Longrightarrow> ug_outbounds g = ug_outbounds g' \<Longrightarrow> ug_tolerance g = ug_tolerance g' \<Longrightarrow>
    at_rest n w h net g'"
  unfolding at_rest_def Select_def using Select_with_cong [of net g g'] by auto

lemma at_rest_update_one: "at_rest n w h net g \<Longrightarrow> update_one n w h net (g, u, s) = Some (g, u, s)"
  by (auto simp: at_rest_def update_one_def split: option.splits)

lemma update_one_rests:
  assumes "sane h (ug_tolerance g)" "answers (RealTag n w h net) (Network n w) net (ug_outbounds g)"
    "\<forall>s. selected_of net g = Some s \<longrightarrow> RealTag n w h net s \<noteq> None"
  shows "\<exists>g' u' s'. update_one n w h net (g, u, s) = Some (g', u', s') \<and> at_rest n w h net g' \<and>
    (g' = g \<or> (\<exists>d. g' = set_selected net d g \<and> d \<in> set (ug_outbounds g))) \<and>
    (u' \<longrightarrow> u \<or> selected_of net g \<noteq> None \<and> selected_of net g' \<noteq> selected_of net g)"
proof -
  let ?real = "RealTag n w h net" and ?nets = "Network n w"
  obtain r ex where sel: "Select n w h net g = Some (r, ex)" "\<forall>d. r = Some d \<longrightarrow> d \<in> set (ug_outbounds g) \<or> selected_of net g = Some d"
    using Select_with_total [OF assms(2,3), of h] unfolding Select_def by blast
  show ?thesis
  proof (cases "\<exists>d. r = Some d \<and> (selected_of net g = None \<or> ex \<and> selected_of net g \<noteq> Some d)")
    case False
    then have "at_rest n w h net g" using sel(1) by (auto simp: at_rest_def)
    then show ?thesis using at_rest_update_one by blast
  next
    case True
    then obtain d where d: "r = Some d" "selected_of net g = None \<or> ex \<and> selected_of net g \<noteq> Some d" by blast
    let ?g = "set_selected net d g"
    have mem: "d \<in> set (ug_outbounds g)" using sel(2) d by auto
    have "Select n w h net ?g = Some (Some d, ex)"
    proof (cases ex)
      case True
      obtain x where x: "delay_of ?real h d = Some x"
        "\<forall>c \<in> set (ug_outbounds g). \<forall>y. measured ?real ?nets h net c = Some y \<longrightarrow> unat x \<le> unat y + unat (ug_tolerance g)"
        using Select_with_best [OF assms] sel(1) d(1) True unfolding Select_def by auto
      then have st: "select_start ?real h (Some d) = Some (x, Some d)" by (auto simp: select_start_def delay_of_def split: option.splits)
      have "x \<noteq> 0" using x(1) assms(1) by (auto simp: delay_of_def sane_def split: option.splits)
      then have "select_loop ?real ?nets h net (ug_tolerance g) (ug_outbounds g) x (Some d) = Some (x, Some d)"
        by (rule select_loop_stays [OF assms(2) _ assms(1) x(2)])
      then show ?thesis using st True by (simp add: Select_def Select_with_def)
    next
      case False
      then have none: "selected_of net g = None" using d(2) by simp
      have fs: "first_supporting ?nets net (ug_outbounds g) = Some (Some d)"
        and un: "\<forall>c \<in> set (ug_outbounds g). measured ?real ?nets h net c = None"
        using Select_with_best [OF assms] sel(1) d(1) False unfolding Select_def by auto
      have "select_loop ?real ?nets h net (ug_tolerance g) (ug_outbounds g) 0 None = Some (0, None)"
        using Select_with_settled [OF assms] select_loop_settled [OF assms(1,2), of 0 None] un by (auto simp: settled_def)
      moreover have "net \<in> set ns" if "?nets d = Some ns" for ns
        using first_supporting_net [OF fs] that by auto
      then have "delay_of ?real h d = None" using un mem assms(2) by (fastforce simp: measured_def delay_of_def answers_def split: option.splits)
      then have "select_start ?real h (Some d) = Some (0, None)"
        using assms(2) mem \<open>\<And>ns. ?nets d = Some ns \<Longrightarrow> net \<in> set ns\<close> by (fastforce simp: select_start_def delay_of_def answers_def split: option.splits)
      ultimately show ?thesis using fs False by (simp add: Select_def Select_with_def)
    qed
    then have "at_rest n w h net ?g" by (auto simp: at_rest_def)
    moreover have "update_one n w h net (g, u, s) = Some (?g, u \<or> selected_of net g \<noteq> None, True)"
      using sel(1) d by (auto simp: update_one_def)
    ultimately show ?thesis using mem d by auto
  qed
qed

lemma select_loop_ext:
  "\<forall>d \<in> set ds. real d = real' d \<and> nets d = nets' d \<Longrightarrow>
    select_loop real nets h net tolerance ds m mo = select_loop real' nets' h net tolerance ds m mo"
  by (induction ds arbitrary: m mo) (auto split: option.splits)

lemma first_supporting_ext: "\<forall>d \<in> set ds. nets d = nets' d \<Longrightarrow> first_supporting nets net ds = first_supporting nets' net ds"
  by (induction ds) (auto split: option.splits)

lemma select_loop_member: "select_loop real nets h net tolerance ds m mo = Some (m', mo') \<Longrightarrow> mo' = mo \<or> mo' \<in> Some ` set ds"
  by (induction ds arbitrary: m mo) (fastforce split: option.splits if_splits)+

lemma first_supporting_member: "first_supporting nets net ds = Some (Some d) \<Longrightarrow> d \<in> set ds"
  by (induction ds) (auto split: option.splits if_splits)

lemma Select_with_member:
  assumes "Select_with real nets h net g = Some (Some c, ex)" "selected_of net g = None"
  shows "c \<in> set (ug_outbounds g)"
  using assms select_loop_member [of real nets h net "ug_tolerance g" "ug_outbounds g" 0 None] first_supporting_member [of nets net "ug_outbounds g" c]
  by (auto simp: Select_with_def select_start_def split: option.splits)

lemma Select_with_ext:
  assumes "\<forall>d \<in> set (ug_outbounds g). real d = real' d \<and> nets d = nets' d" "\<forall>s. selected_of net g = Some s \<longrightarrow> real s = real' s"
  shows "Select_with real nets h net g = Select_with real' nets' h net g"
proof -
  have "select_start real h (selected_of net g) = select_start real' h (selected_of net g)"
    using assms(2) by (auto simp: select_start_def split: option.splits)
  moreover have "first_supporting nets net (ug_outbounds g) = first_supporting nets' net (ug_outbounds g)"
    using assms(1) by (intro first_supporting_ext) blast
  ultimately show ?thesis unfolding Select_with_def by (simp only: select_loop_ext [OF assms(1)])
qed

text \<open>What a group is does not matter to the outbounds below it.\<close>

lemma Network_below:
  "layered w ts \<Longrightarrow> d \<in> set ts \<Longrightarrow> pos ts d < pos ts t \<Longrightarrow> Network n (gm_set t x w) d = Network n w d"
proof (induction n arbitrary: d)
  case (Suc n)
  have "Network n (gm_set t x w) c = Network n w c" if "c \<in> choices w d" for c
    using Suc that unfolding layered_def by fastforce
  moreover have "gm_get (gm_set t x w) d = gm_get w d" using Suc.prems(3) by (auto simp: gm_get_set)
  ultimately show ?case by (auto simp: choices_def split: option.splits detour.splits)
qed simp

lemma RealTag_below:
  "layered w ts \<Longrightarrow> d \<in> set ts \<Longrightarrow> pos ts d < pos ts t \<Longrightarrow> RealTag n (gm_set t x w) h net d = RealTag n w h net d"
proof (induction n arbitrary: d)
  case (Suc n)
  have below: "c \<in> set ts" "pos ts c < pos ts t" if "c \<in> choices w d" for c
    using Suc.prems that unfolding layered_def by fastforce+
  have IH: "RealTag n (gm_set t x w) h net c = RealTag n w h net c" "Network n (gm_set t x w) c = Network n w c" if "c \<in> choices w d" for c
    using Suc.IH [OF Suc.prems(1)] Network_below [OF Suc.prems(1)] below that by blast+
  have get: "gm_get (gm_set t x w) d = gm_get w d" using Suc.prems(3) by (auto simp: gm_get_set)
  show ?case
  proof (cases "\<exists>g. gm_get w d = Some (URLTestOutbound g)")
    case True
    then obtain g where g: "gm_get w d = Some (URLTestOutbound g)" by blast
    have mem: "c \<in> choices w d" if "c \<in> set (ug_outbounds g)" for c using g that by (simp add: choices_def)
    have sel: "c \<in> choices w d" if "selected_of net g = Some c" for c using selected_choice [OF g that] .
    have eq: "Select_with (RealTag n (gm_set t x w) h net) (Network n (gm_set t x w)) h net g = Select_with (RealTag n w h net) (Network n w) h net g"
      using IH mem sel by (intro Select_with_ext) blast+
    show ?thesis
    proof (cases "selected_of net g")
      case (Some c)
      then show ?thesis using g get IH sel by simp
    next
      case None
      have tag: "RealTag n (gm_set t x w) h net c = RealTag n w h net c"
        if "Select_with (RealTag n w h net) (Network n w) h net g = Some (Some c, ex)" for c ex
      proof -
        have "c \<in> set (ug_outbounds g)"
          using Select_with_member [OF that None] .
        then show ?thesis using IH mem by blast
      qed
      then show ?thesis using g get None eq by (auto split: option.splits)
    qed
  next
    case False
    then show ?thesis using get IH by (auto simp: choices_def split: option.splits detour.splits)
  qed
qed simp

lemma at_rest_below:
  assumes "at_rest n w h net g" "layered w ts" "t \<in> set ts" "gm_get w t = Some (URLTestOutbound g0)"
    and "ug_outbounds g = ug_outbounds g0" "\<forall>s. selected_of net g = Some s \<longrightarrow> s \<in> choices w t"
  shows "at_rest n (gm_set t x w) h net g"
proof -
  have below: "d \<in> set ts" "pos ts d < pos ts t" if "d \<in> choices w t" for d
    using assms(2,3) that unfolding layered_def by blast+
  have "Select n (gm_set t x w) h net g = Select n w h net g"
    unfolding Select_def using assms(4-6) below RealTag_below [OF assms(2)] Network_below [OF assms(2)]
    by (intro Select_with_ext) (auto simp: choices_def)
  then show ?thesis using assms(1) by (simp add: at_rest_def)
qed

lemma at_rest_check: "at_rest n w h TCP g \<Longrightarrow> at_rest n w h UDP g \<Longrightarrow> performUpdateCheck n w h g = Some (g, [], False)"
  by (simp add: performUpdateCheck_def at_rest_update_one)

lemma performUpdateCheck_rests:
  assumes "sane h (ug_tolerance g)"
    and an: "\<And>net. answers (RealTag n w h net) (Network n w) net (ug_outbounds g)"
      "\<And>net. \<forall>s. selected_of net g = Some s \<longrightarrow> RealTag n w h net s \<noteq> None"
  obtains g' closed notified where "performUpdateCheck n w h g = Some (g', closed, notified)" "\<And>net. at_rest n w h net g'"
    "ug_outbounds g' = ug_outbounds g" "ug_tolerance g' = ug_tolerance g"
    "\<And>net. selected_of net g' = selected_of net g \<or> selected_of net g' \<in> Some ` set (ug_outbounds g)"
    "closed \<noteq> [] \<Longrightarrow> \<exists>net. selected_of net g \<noteq> None \<and> selected_of net g' \<noteq> selected_of net g"
proof -
  obtain g1 u1 s1 where o1: "update_one n w h TCP (g, False, False) = Some (g1, u1, s1)" "at_rest n w h TCP g1"
    "g1 = g \<or> (\<exists>d. g1 = set_selected TCP d g \<and> d \<in> set (ug_outbounds g))"
    "u1 \<longrightarrow> selected_of TCP g \<noteq> None \<and> selected_of TCP g1 \<noteq> selected_of TCP g"
    using update_one_rests [OF assms(1) an, of TCP False False] by blast
  have g1: "ug_outbounds g1 = ug_outbounds g" "ug_tolerance g1 = ug_tolerance g" "selected_of UDP g1 = selected_of UDP g"
    using o1(3) by auto
  obtain g2 u2 s2 where o2: "update_one n w h UDP (g1, u1, s1) = Some (g2, u2, s2)" "at_rest n w h UDP g2"
    "g2 = g1 \<or> (\<exists>d. g2 = set_selected UDP d g1 \<and> d \<in> set (ug_outbounds g))"
    "u2 \<longrightarrow> u1 \<or> selected_of UDP g \<noteq> None \<and> selected_of UDP g2 \<noteq> selected_of UDP g"
    using update_one_rests [of h g1 n w UDP u1 s1] assms(1) an [of UDP] unfolding g1 by blast
  have g2: "ug_outbounds g2 = ug_outbounds g" "ug_tolerance g2 = ug_tolerance g" "selected_of TCP g2 = selected_of TCP g1"
    using o2(3) g1 by auto
  have rest: "at_rest n w h net g2" for net
    using at_rest_cong [OF o1(2), of g2] g1 g2 o2(2) by (cases net) simp_all
  define closed g' where c: "closed = (if u2 then fst (Interrupt (ug_interruptExternalConnections g2) (ug_interruptGroup g2)) else [])"
    and g': "g' = (if u2 then g2\<lparr>ug_interruptGroup := snd (Interrupt (ug_interruptExternalConnections g2) (ug_interruptGroup g2))\<rparr> else g2)"
  have eq: "performUpdateCheck n w h g = Some (g', closed, s2)" using o1(1) o2(1) by (simp add: performUpdateCheck_def c g' case_prod_beta)
  have sel: "selected_of net g' = selected_of net g2" "ug_outbounds g' = ug_outbounds g" "ug_tolerance g' = ug_tolerance g" for net
    using g2 by (simp_all add: g')
  have "selected_of net g' = selected_of net g \<or> selected_of net g' \<in> Some ` set (ug_outbounds g)" for net
    using o1(3) o2(3) unfolding sel(1) by (cases net) auto
  moreover have "\<exists>net. selected_of net g \<noteq> None \<and> selected_of net g' \<noteq> selected_of net g" if "closed \<noteq> []"
  proof -
    have "u2" using that by (simp add: c split: if_splits)
    then show ?thesis using o1(4) o2(4) g2(3) unfolding sel(1) by metis
  qed
  moreover have "at_rest n w h net g'" for net using at_rest_cong [OF rest [of net], of g'] sel g2 by simp
  ultimately show ?thesis using that [OF eq _ sel(2,3)] by blast
qed

lemma groups_of_update:
  assumes "groups_of obs w" "ob \<in> set obs" "ob_Tag ob = t" "choices (gm_set t x w) t \<subseteq> set (ob_Dependencies ob)"
  shows "groups_of obs (gm_set t x w)"
  unfolding groups_of_def
proof (intro allI impI)
  fix t' assume g: "is_group (gm_set t x w) t'"
  show "\<exists>ob \<in> set obs. ob_Tag ob = t' \<and> choices (gm_set t x w) t' \<subseteq> set (ob_Dependencies ob)"
  proof (cases "t' = t")
    case True
    then show ?thesis using assms(2-4) by blast
  next
    case False
    then have "is_group w t'" "choices (gm_set t x w) t' = choices w t'" using g by (simp_all add: is_group_def choices_def gm_get_set)
    then show ?thesis using assms(1) unfolding groups_of_def by simp
  qed
qed

text \<open>A check of a URL test group settles: it returns, the group then selects members or what it had selected before,
  a second check with the same measurements changes nothing and closes no connection, and connections are
  closed only when the selection of a network moved away from an outbound.
\<close>

theorem urltest_check_settles:
  assumes "distinct (tags obs)" "fst (startOutbounds S obs) = Ok ()" "groups_of obs w"
    and "gm_get w t = Some (URLTestOutbound g)" "sane h (ug_tolerance g)" "n = length obs"
  shows "\<exists>g' closed notified. performUpdateCheck n w h g = Some (g', closed, notified) \<and>
    groups_of obs (gm_set t (URLTestOutbound g') w) \<and>
    performUpdateCheck n (gm_set t (URLTestOutbound g') w) h g' = Some (g', [], False) \<and>
    (\<forall>net. selected_of net g' = selected_of net g \<or> selected_of net g' \<in> Some ` set (ug_outbounds g)) \<and>
    (closed \<noteq> [] \<longrightarrow> (\<exists>net. selected_of net g \<noteq> None \<and> selected_of net g' \<noteq> selected_of net g))"
proof -
  obtain ts where ts: "layered w ts" "set ts = set (tags obs)" "length ts = n" using started_layered [OF assms(1-3)] assms(6) by blast
  have "is_group w t" using assms(4) by (simp add: is_group_def)
  then obtain ob where ob: "ob \<in> set obs" "ob_Tag ob = t" "choices w t \<subseteq> set (ob_Dependencies ob)"
    using assms(3) unfolding groups_of_def by blast
  then have t: "t \<in> set ts" using ts(2) by auto
  note an = group_answers [OF ts(1) t assms(4), where n = n and h = h]
  obtain g' closed notified where c: "performUpdateCheck n w h g = Some (g', closed, notified)" "\<And>net. at_rest n w h net g'"
    "ug_outbounds g' = ug_outbounds g" "ug_tolerance g' = ug_tolerance g"
    "\<And>net. selected_of net g' = selected_of net g \<or> selected_of net g' \<in> Some ` set (ug_outbounds g)"
    "closed \<noteq> [] \<Longrightarrow> \<exists>net. selected_of net g \<noteq> None \<and> selected_of net g' \<noteq> selected_of net g"
    using performUpdateCheck_rests [OF assms(5) an] ts(3) by blast
  let ?w = "gm_set t (URLTestOutbound g') w"
  have sel: "s \<in> choices w t" if "selected_of net g' = Some s" for s net
    using c(5) [of net] that selected_choice [OF assms(4), of net s] assms(4) by (auto simp: choices_def)
  have "at_rest n ?w h net g'" for net
    using at_rest_below [OF c(2) ts(1) t assms(4) c(3)] sel by blast
  then have "performUpdateCheck n ?w h g' = Some (g', [], False)" by (intro at_rest_check)
  moreover have "choices ?w t \<subseteq> choices w t"
    using sel [of TCP] sel [of UDP] assms(4) c(3) by (auto simp: choices_def gm_get_set selected_of_def)
  then have "groups_of obs ?w" using groups_of_update [OF assms(3) ob(1,2)] ob(3) by blast
  ultimately show ?thesis using c(1,5,6) by blast
qed


section \<open>A round of measurements\<close>

declare RealTag.simps [simp del] Network.simps [simp del]

definition is_plain :: "world \<Rightarrow> string \<Rightarrow> bool" where
  "is_plain w d = (\<exists>ns. gm_get w d = Some (PlainOutbound ns))"

definition supports :: "world \<Rightarrow> network \<Rightarrow> string \<Rightarrow> bool" where
  "supports w net d = (\<exists>ns. gm_get w d = Some (PlainOutbound ns) \<and> net \<in> set ns)"

lemma plain_tags [simp]: "is_plain w d \<Longrightarrow> RealTag (Suc n) w h net d = Some d"
  by (auto simp: is_plain_def RealTag.simps)

lemma plain_measured:
  "is_plain w d \<Longrightarrow> measured (RealTag (Suc n) w h net) (Network (Suc n) w) h net d =
    (if supports w net d then map_option uh_Delay (LoadURLTestHistory h d) else None)"
  by (auto simp: measured_def is_plain_def supports_def RealTag.simps Network.simps)

lemma plain_answers: "\<forall>d \<in> set ds. is_plain w d \<Longrightarrow> answers (RealTag (Suc n) w h net) (Network (Suc n) w) net ds"
  by (fastforce simp: answers_def is_plain_def RealTag.simps Network.simps)

lemma test_plain:
  assumes "\<forall>d \<in> set ds. is_plain w d" "distinct ds" "set ds \<inter> set (tb_checked b) = {}"
  shows "tb_jobs (test w h now interval True ds b) = tb_jobs b @ map TestOutbound ds \<and> tb_groups (test w h now interval True ds b) = tb_groups b"
  using assms
proof (induction ds arbitrary: b)
  case (Cons d ds)
  let ?b = "b\<lparr>tb_checked := d # tb_checked b, tb_jobs := tb_jobs b @ [TestOutbound d]\<rparr>"
  have "test w h now interval True (d # ds) b = test w h now interval True ds ?b"
    using Cons.prems by (auto simp: is_plain_def)
  moreover have "set ds \<inter> set (tb_checked ?b) = {}" using Cons.prems by auto
  ultimately show ?case using Cons.IH [of ?b] Cons.prems by simp
qed simp

definition after_test :: "env \<Rightarrow> string set \<Rightarrow> history \<Rightarrow> string \<Rightarrow> URLTestHistory option" where
  "after_test env ds h d =
     (if d \<in> ds then map_option (\<lambda>x. \<lparr>uh_Time = en_now env, uh_Delay = x\<rparr>) (en_measure env d) else LoadURLTestHistory h d)"

lemma run_jobs_tests:
  assumes "jobs = map TestOutbound us" "\<not> en_cancelled env"
  shows "\<exists>h' result'. run_jobs nested env jobs (w, h, result) = Some (w, h', result') \<and>
    (\<forall>d. LoadURLTestHistory h' d = after_test env (set us) h d)"
  using assms(1)
proof (induction us arbitrary: h result jobs)
  case (Cons u us)
  obtain h1 r1 where t: "run_test env u (h, result) = (h1, r1)" by fastforce
  have h1: "LoadURLTestHistory h1 d = after_test env {u} h d" for d
    using t assms(2) by (auto simp: run_test_def after_test_def LoadURLTestHistory_def DeleteURLTestHistory_def StoreURLTestHistory_def
        gm_get_set gm_get_del split: option.splits)
  obtain h2 r2 where "run_jobs nested env (map TestOutbound us) (w, h1, r1) = Some (w, h2, r2)"
    "\<forall>d. LoadURLTestHistory h2 d = after_test env (set us) h1 d" using Cons.IH [OF refl] by blast
  then show ?case using Cons.prems t by (auto simp: h1 after_test_def)
qed (simp add: after_test_def)

lemma scheduled_tests:
  assumes "mset jobs = mset (map TestOutbound ds)"
  obtains us where "jobs = map TestOutbound us" "set us = set ds"
proof -
  define us where "us = map (\<lambda>j. case j of TestOutbound t \<Rightarrow> t | TestGroup t \<Rightarrow> t) jobs"
  have s: "set jobs = TestOutbound ` set ds" using mset_eq_setD [OF assms] by simp
  have "map TestOutbound us = jobs" unfolding us_def map_map using s by (intro map_idI) auto
  moreover have "set us = set ds" using s by (force simp: us_def)
  ultimately show ?thesis using that by blast
qed

text \<open>The selection of a group of servers at rest.\<close>

lemma rested_selection:
  assumes "at_rest (Suc n) w h net g" "sane h (ug_tolerance g)" "\<And>s. selected_of net g = Some s \<Longrightarrow> s \<in> set ds"
    and "\<forall>d \<in> set ds. is_plain w d" "ug_outbounds g = ds" "ug_tolerance g = tolerance"
    and "\<And>d. d \<in> set ds \<Longrightarrow> map_option uh_Delay (LoadURLTestHistory h d) = m d"
    and "\<exists>c \<in> set ds. supports w net c \<and> m c \<noteq> None"
  shows "\<exists>d x. selected_of net g = Some d \<and> d \<in> set ds \<and> m d = Some x \<and>
    (\<forall>c y. c \<in> set ds \<and> supports w net c \<and> m c = Some y \<longrightarrow> unat x \<le> unat y + unat tolerance)"
proof -
  have an: "answers (RealTag (Suc n) w h net) (Network (Suc n) w) net (ug_outbounds g)" using plain_answers [OF assms(4)] assms(5) by simp
  have rs: "\<forall>s. selected_of net g = Some s \<longrightarrow> RealTag (Suc n) w h net s \<noteq> None" using assms(3,4) by auto
  have ms: "measured (RealTag (Suc n) w h net) (Network (Suc n) w) h net c = (if supports w net c then m c else None)" if "c \<in> set ds" for c
    using plain_measured [of w c n h net] assms(4,7) that by simp
  obtain c where "c \<in> set ds" "measured (RealTag (Suc n) w h net) (Network (Suc n) w) h net c \<noteq> None" using assms(8) ms by auto
  then have "\<not> (\<forall>c \<in> set ds. measured (RealTag (Suc n) w h net) (Network (Suc n) w) h net c = None)" by auto
  then obtain d x where d: "Select (Suc n) w h net g = Some (Some d, True)" "delay_of (RealTag (Suc n) w h net) h d = Some x"
    "\<forall>c \<in> set ds. \<forall>y. measured (RealTag (Suc n) w h net) (Network (Suc n) w) h net c = Some y \<longrightarrow> unat x \<le> unat y + unat tolerance"
    using Select_with_best [OF assms(2) an rs] unfolding assms(5,6) Select_def by blast
  have s: "selected_of net g = Some d" using assms(1) d(1) by (auto simp: at_rest_def)
  then have ds: "d \<in> set ds" using assms(3) by blast
  then have "m d = Some x" using d(2) assms(4,7) by (simp add: delay_of_def)
  then show ?thesis using s ds d(3) ms by auto
qed

text \<open>
  C16. A forced check of a group whose members are servers, with its measurements run in any order, when no check is running and it is not
  cancelled: afterwards the history holds exactly what was measured for the members, and for each network that some answering member
  supports the group selects a member that answered, within the tolerance of the fastest one. Every delay, stored or measured, is at least a
  millisecond, and adding the tolerance to it does not wrap around in 16 bits (\<open>sane\<close>; \<open>zero_delay_loses\<close> and \<open>tolerance_wraps\<close> show
  what happens otherwise).
\<close>

theorem urltest_round:
  assumes "gm_get w t = Some (URLTestOutbound g)" "\<not> ug_checking g"
    and "\<forall>d \<in> set (ug_outbounds g). is_plain w d" "distinct (ug_outbounds g)" "t \<notin> set (ug_outbounds g)"
    and "\<forall>net s. selected_of net g = Some s \<longrightarrow> s \<in> set (ug_outbounds g)"
    and "\<not> en_cancelled env" "\<forall>jobs. mset (en_schedule env jobs) = mset jobs"
    and "sane h (ug_tolerance g)" "\<forall>d x. en_measure env d = Some x \<longrightarrow> x \<noteq> 0 \<and> unat x + unat (ug_tolerance g) < 2 ^ 16"
  shows "\<exists>w' h' result g'. urlTest (Suc k) (Suc n) env True t (w, h) = Some (w', h', result) \<and>
    gm_get w' t = Some (URLTestOutbound g') \<and> \<not> ug_checking g' \<and>
    (\<forall>d \<in> set (ug_outbounds g). map_option uh_Delay (LoadURLTestHistory h' d) = en_measure env d) \<and>
    (\<forall>net. (\<exists>c \<in> set (ug_outbounds g). supports w net c \<and> en_measure env c \<noteq> None) \<longrightarrow>
      (\<exists>d x. selected_of net g' = Some d \<and> d \<in> set (ug_outbounds g) \<and> en_measure env d = Some x \<and>
        (\<forall>c y. c \<in> set (ug_outbounds g) \<and> supports w net c \<and> en_measure env c = Some y \<longrightarrow> unat x \<le> unat y + unat (ug_tolerance g))))"
proof -
  let ?g = "g\<lparr>ug_checking := True\<rparr>" and ?ds = "ug_outbounds g"
  let ?w = "gm_set t (URLTestOutbound ?g) w"
  have pl: "\<forall>d \<in> set ?ds. is_plain ?w d" using assms(3,5) by (auto simp: is_plain_def gm_get_set)
  have sup: "supports ?w net d \<longleftrightarrow> supports w net d" if "d \<in> set ?ds" for net d
    using that assms(5) by (auto simp: supports_def gm_get_set)
  obtain us where us: "en_schedule env (map TestOutbound ?ds) = map TestOutbound us" "set us = set ?ds"
    using scheduled_tests [of "en_schedule env (map TestOutbound ?ds)" ?ds] assms(8) by blast
  obtain h' result where r: "run_jobs (urlTest k (Suc n) env True) env (map TestOutbound us) (?w, h, []) = Some (?w, h', result)"
    "\<forall>d. LoadURLTestHistory h' d = after_test env (set ?ds) h d"
    using run_jobs_tests [OF refl assms(7), of "urlTest k (Suc n) env True" us ?w h "[]"] us(2) by auto
  have out: "URLTestOutbounds (Suc n) (urlTest k (Suc n) env True) env ?ds (ug_interval g) True (?w, h) = Some (?w, h', result)"
    using test_plain [OF pl assms(4), of "\<lparr>tb_checked = [], tb_groups = [], tb_jobs = []\<rparr>" h "en_now env" "ug_interval g"] us(1) r(1)
    by (simp add: URLTestOutbounds_def Let_def)
  have sane: "sane h' (ug_tolerance ?g)" using assms(9,10) r(2) by (auto simp: sane_def after_test_def split: if_splits)
  have sel: "selected_of net ?g = selected_of net g" for net by (cases net) (simp_all add: selected_of_def)
  have an: "answers (RealTag (Suc n) ?w h' net) (Network (Suc n) ?w) net (ug_outbounds ?g)" for net using plain_answers [OF pl] by simp
  have rs: "\<forall>s. selected_of net ?g = Some s \<longrightarrow> RealTag (Suc n) ?w h' net s \<noteq> None" for net using assms(6) pl unfolding sel by auto
  obtain g' closed notified where c: "performUpdateCheck (Suc n) ?w h' ?g = Some (g', closed, notified)" "\<And>net. at_rest (Suc n) ?w h' net g'"
    "ug_outbounds g' = ?ds" "ug_tolerance g' = ug_tolerance g"
    "\<And>net. selected_of net g' = selected_of net ?g \<or> selected_of net g' \<in> Some ` set ?ds"
    using performUpdateCheck_rests [OF sane an rs] by (metis URLTestGroup.select_convs(1,2) URLTestGroup.surjective URLTestGroup.update_convs(4))
  let ?g' = "g'\<lparr>ug_checking := False\<rparr>"
  have run: "urlTest (Suc k) (Suc n) env True t (w, h) = Some (gm_set t (URLTestOutbound ?g') ?w, h', result)"
    using assms(1,2) out c(1) by (simp add: finish_test_def gm_get_set)
  have mem: "s \<in> set ?ds" if "selected_of net g' = Some s" for s net using c(5) [of net] that assms(6) unfolding sel by auto
  have hist: "map_option uh_Delay (LoadURLTestHistory h' d) = en_measure env d" if "d \<in> set ?ds" for d
    using r(2) that by (cases "en_measure env d") (simp_all add: after_test_def)
  have best: "\<exists>d x. selected_of net g' = Some d \<and> d \<in> set ?ds \<and> en_measure env d = Some x \<and>
        (\<forall>c y. c \<in> set ?ds \<and> supports w net c \<and> en_measure env c = Some y \<longrightarrow> unat x \<le> unat y + unat (ug_tolerance g))"
    if ex: "\<exists>c \<in> set ?ds. supports w net c \<and> en_measure env c \<noteq> None" for net
  proof -
    have "sane h' (ug_tolerance g')" "\<exists>c \<in> set ?ds. supports ?w net c \<and> en_measure env c \<noteq> None" using sane c(4) ex sup by auto
    then have "\<exists>d x. selected_of net g' = Some d \<and> d \<in> set ?ds \<and> en_measure env d = Some x \<and>
        (\<forall>c y. c \<in> set ?ds \<and> supports ?w net c \<and> en_measure env c = Some y \<longrightarrow> unat x \<le> unat y + unat (ug_tolerance g))"
      by (intro rested_selection [OF c(2) _ mem pl c(3,4) hist])
    then show ?thesis using sup by metis
  qed
  have sel': "selected_of net ?g' = selected_of net g'" for net by (cases net) (simp_all add: selected_of_def)
  have get: "gm_get (gm_set t (URLTestOutbound ?g') ?w) t = Some (URLTestOutbound ?g')" by (simp add: gm_get_set)
  have "\<not> ug_checking ?g'" by simp
  with run get hist best show ?thesis unfolding sel' [symmetric] by blast
qed


section \<open>Selections survive a restart\<close>

lemma find_members_Ok: "find_members loaded i ts = Ok ms \<Longrightarrow> ms = ts \<and> (\<forall>t \<in> set ts. loaded t)"
  by (induction loaded i ts arbitrary: ms rule: find_members.induct) (auto simp: res_bind_eq_Ok split: if_splits)

text \<open>A sequence of calls of \<open>SelectOutbound\<close> on a selector with a cache file that stores what it is given.\<close>

definition select_calls :: "string list \<Rightarrow> Selector \<Rightarrow> (string, string) gomap \<Rightarrow> Selector \<times> (string, string) gomap" where
  "select_calls calls s c = fold (\<lambda>tag (s, c). case SelectOutbound True tag (Some c) s of
     (_, s', Some c', _) \<Rightarrow> (s', c') | (_, s', None, _) \<Rightarrow> (s', c)) calls (s, c)"

text \<open>The selector a start with the cache would give selects the same outbound.\<close>

definition remembered :: "(string \<Rightarrow> bool) \<Rightarrow> Selector \<Rightarrow> Selector \<Rightarrow> (string, string) gomap \<Rightarrow> bool" where
  "remembered loaded s0 s c = (sl_Tag s = sl_Tag s0 \<and> sl_outbounds s = sl_tags s0 \<and>
     (\<exists>s1. SelectorStart loaded (Some c) s0 = (Ok s1 :: (unit group_error, Selector) res) \<and> sl_selected s1 = sl_selected s))"

lemma SelectorStart_frame:
  "SelectorStart loaded cacheFile s0 = Ok s \<Longrightarrow> sl_Tag s = sl_Tag s0 \<and> sl_outbounds s = sl_tags s0 \<and> (\<forall>t \<in> set (sl_tags s0). loaded t)"
  by (auto simp: SelectorStart_def res_bind_eq_Ok Let_def dest!: find_members_Ok split: option.splits if_splits)

lemma remembered_select:
  assumes "remembered loaded s0 s c" "sl_Tag s0 \<noteq> []" "[] \<notin> set (sl_tags s0)"
  shows "\<exists>b s' c' cl n. SelectOutbound True tag (Some c) s = (b, s', Some c', cl, n) \<and> remembered loaded s0 s' c'"
proof (cases "tag \<in> set (sl_outbounds s) \<and> sl_selected s \<noteq> Some tag")
  case True
  obtain s1 where s1: "SelectorStart loaded (Some c) s0 = (Ok s1 :: (unit group_error, Selector) res)" using assms(1) by (auto simp: remembered_def)
  then have "find_members loaded 0 (sl_tags s0) = (Ok (sl_tags s0) :: (unit group_error, string list) res)"
    by (auto simp: SelectorStart_def res_bind_eq_Ok dest: find_members_Ok)
  then have "SelectorStart loaded (Some (gm_set (sl_Tag s0) tag c)) s0 =
      (Ok (s0\<lparr>sl_outbounds := sl_tags s0, sl_selected := Some tag\<rparr>) :: (unit group_error, Selector) res)"
    using True assms by (auto simp: SelectorStart_def gm_get_set remembered_def)
  then show ?thesis using True assms(1,2)
    by (auto simp: SelectOutbound_def remembered_def case_prod_beta)
next
  case False
  then show ?thesis using assms(1) by (auto simp: SelectOutbound_def)
qed

text \<open>A selector with a tag and a cache file comes back as it was left: after any sequence of selections, of members and
  of tags that are not, starting a selector with the same options on the resulting cache selects the same
  outbound.
\<close>

theorem selector_survives_restart:
  assumes "SelectorStart loaded (Some c) s0 = (Ok s :: (unit group_error, Selector) res)" "sl_Tag s0 \<noteq> []" "[] \<notin> set (sl_tags s0)"
    and "select_calls calls s c = (s', c')"
  shows "\<exists>s''. SelectorStart loaded (Some c') s0 = (Ok s'' :: (unit group_error, Selector) res) \<and> sl_selected s'' = sl_selected s'"
proof -
  have "remembered loaded s0 s c" using assms(1) SelectorStart_frame [OF assms(1)] by (auto simp: remembered_def)
  then have "remembered loaded s0 (fst (select_calls calls s c)) (snd (select_calls calls s c))"
    unfolding select_calls_def
  proof (induction calls arbitrary: s c)
    case (Cons tag calls)
    obtain b s1 c1 cl n where "SelectOutbound True tag (Some c) s = (b, s1, Some c1, cl, n)" "remembered loaded s0 s1 c1"
      using remembered_select [OF Cons.prems assms(2,3)] by blast
    then show ?case using Cons.IH by simp
  qed simp
  then show ?thesis using assms(4) by (auto simp: remembered_def)
qed


section \<open>Limits of the comparison\<close>

definition example_world :: world where
  "example_world = [(''a'', PlainOutbound [TCP, UDP]), (''b'', PlainOutbound [TCP]), (''s'', SelectorOutbound \<lparr>sl_Tag = ''s'', sl_tags = [''a'', ''b''],
     sl_defaultTag = [], sl_outbounds = [''a'', ''b''], sl_selected = Some ''b'', sl_interruptGroup = [], sl_interruptExternalConnections = False\<rparr>)]"

definition example_group :: "16 word \<Rightarrow> URLTestGroup" where
  "example_group tolerance = \<lparr>ug_outbounds = [''a'', ''b''], ug_tolerance = tolerance, ug_interval = 180, ug_checking = False, ug_selectedTCP = None,
     ug_selectedUDP = None, ug_interruptGroup = [], ug_interruptExternalConnections = False\<rparr>"

definition example_history :: "16 word \<Rightarrow> 16 word \<Rightarrow> history" where
  "example_history x y = [(''a'', \<lparr>uh_Time = 0, uh_Delay = x\<rparr>), (''b'', \<lparr>uh_Time = 0, uh_Delay = y\<rparr>)]"

lemmas example_defs = example_world_def example_group_def example_history_def Select_def Select_with_def select_start_def selected_of_def
  RealTag.simps Network.simps LoadURLTestHistory_def

text \<open>With a tolerance of a minute the sum wraps around and a server of six seconds is taken over one of half a second.\<close>

lemma tolerance_wraps: "Select (Suc (Suc 0)) example_world (example_history 500 6000) TCP (example_group 60000) = Some (Some ''b'', True)"
  by (simp add: example_defs)

text \<open>A delay below a millisecond is 0, which stands for no delay: any other server is taken instead.\<close>

lemma zero_delay_loses: "Select (Suc (Suc 0)) example_world (example_history 0 3000) TCP (example_group 50) = Some (Some ''b'', True)"
  by (simp add: example_defs)

text \<open>A failed dial through a nested group forgets the history of the group, which has none, instead of that of the server.\<close>

lemma nested_failure_remembered:
  "URLTestDialContext 3 example_world (example_history 20 30) (\<lambda>_. Inl ()) (Some TCP) False
     (example_group 50\<lparr>ug_outbounds := [''s''], ug_selectedTCP := Some ''s''\<rparr>) =
   Some (Err (DialFailed ()), example_group 50\<lparr>ug_outbounds := [''s''], ug_selectedTCP := Some ''s''\<rparr>, example_history 20 30)"
  by (simp add: URLTestDialContext_def Selected_def DeleteURLTestHistory_def gm_del_def example_defs)


section \<open>Instances\<close>

text \<open>A URL test group over two servers and a selector over them.\<close>

abbreviation group_outbounds :: "outbound list" where
  "group_outbounds \<equiv>
     [\<lparr>ob_Tag = ''auto'', ob_Dependencies = [''a'', ''b''], ob_isEndpoint = False, ob_isLifecycle = True\<rparr>,
      \<lparr>ob_Tag = ''s'', ob_Dependencies = [''a'', ''b''], ob_isEndpoint = False, ob_isLifecycle = True\<rparr>,
      \<lparr>ob_Tag = ''a'', ob_Dependencies = [], ob_isEndpoint = False, ob_isLifecycle = False\<rparr>,
      \<lparr>ob_Tag = ''b'', ob_Dependencies = [], ob_isEndpoint = False, ob_isLifecycle = False\<rparr>]"

abbreviation group_world :: world where
  "group_world \<equiv> (''auto'', URLTestOutbound (example_group 50)) # example_world"

lemma group_started: "fst (startOutbounds (\<lambda>_ _. None :: unit option) group_outbounds) = Ok ()"
  by (simp add: startOutbounds_def start_rounds.simps is_started_def Let_def gm_set_def)

lemma group_world_ok: "groups_of group_outbounds group_world" "distinct (tags group_outbounds)"
  "gm_get group_world ''auto'' = Some (URLTestOutbound (example_group 50))" "sane (example_history 120 80) (ug_tolerance (example_group 50))"
  by (auto simp: groups_of_def is_group_def choices_def example_world_def example_group_def sane_def example_history_def LoadURLTestHistory_def
      split: if_splits)

text \<open>Witness of C17: the selector leads to the server it has selected.\<close>

theorem group_selection_ends_witness: "RealTag 4 group_world [] TCP ''s'' = Some ''b'' \<and> \<not> is_group group_world ''b''"
proof -
  have c: "choices group_world ''s'' = {''b''}" "choices group_world ''b'' = {}"
    by (simp_all add: choices_def example_world_def)
  have star: "x = ''s'' \<or> x = ''b''" if "(''s'', x) \<in> (members group_world)\<^sup>*" for x
    using that by (induction rule: rtrancl_induct) (auto simp: members_def c)
  have "\<not> dead_end group_world TCP ''s''" "\<not> dead_end group_world TCP ''b''" "is_group group_world ''s''"
    by (simp_all add: dead_end_def is_group_def example_world_def)
  with group_selection_ends [OF group_world_ok(2) group_started group_world_ok(1), of "''s''" "[]" TCP] star show ?thesis
    by (auto simp: eval_nat_numeral)
qed

text \<open>A URL test group claims both networks, so an outer group selects it for UDP although none of its members carries it: the
  selection ends in nothing.\<close>

definition nested_world :: world where
  "nested_world = [(''b'', PlainOutbound [TCP]), (''inner'', URLTestOutbound (example_group 50\<lparr>ug_outbounds := [''b'']\<rparr>)),
     (''outer'', URLTestOutbound (example_group 50\<lparr>ug_outbounds := [''inner'', ''a'']\<rparr>)), (''a'', PlainOutbound [TCP, UDP])]"

lemma nested_group_without_udp:
  "RealTag 4 nested_world [] UDP ''outer'' = Some []" "dead_end nested_world UDP ''inner''"
proof -
  have "\<not> carries nested_world UDP ''b''" by (subst carries.simps) (simp add: nested_world_def)
  then show "dead_end nested_world UDP ''inner''"
    by (simp add: dead_end_def) (simp add: nested_world_def example_group_def selected_of_def)
qed code_simp

text \<open>Witness of C18: 120 and 80 milliseconds are within the tolerance, so either may be chosen, and one is.\<close>

theorem urltest_selects_within_tolerance_witness:
  "\<exists>d x. Select 4 group_world (example_history 120 80) TCP (example_group 50) = Some (Some d, True) \<and>
     delay_of (RealTag 4 group_world (example_history 120 80) TCP) (example_history 120 80) d = Some x \<and> unat x \<le> 130"
proof -
  let ?h = "example_history 120 80"
  have m: "measured (RealTag 4 group_world ?h TCP) (Network 4 group_world) ?h TCP ''b'' = Some 80"
    by (simp add: measured_def example_defs eval_nat_numeral)
  have b: "''b'' \<in> set (ug_outbounds (example_group 50))" "unat (ug_tolerance (example_group 50)) = 50" by (simp_all add: example_group_def)
  have n: "4 = length group_outbounds" by simp
  from urltest_selects_within_tolerance [OF group_world_ok(2) group_started group_world_ok(1,3,4) n, of TCP]
  show ?thesis using m b by fastforce
qed

text \<open>An instance: the check of the same group.\<close>

theorem urltest_check_settles_witness:
  "\<exists>g' closed notified. performUpdateCheck 4 group_world (example_history 120 80) (example_group 50) = Some (g', closed, notified) \<and>
    performUpdateCheck 4 (gm_set ''auto'' (URLTestOutbound g') group_world) (example_history 120 80) g' = Some (g', [], False)"
proof -
  have n: "4 = length group_outbounds" by simp
  show ?thesis using urltest_check_settles [OF group_world_ok(2) group_started group_world_ok(1,3,4) n] by blast
qed

text \<open>Witness of C16: only the second server answers, and is selected.\<close>

theorem urltest_round_witness:
  "\<exists>w' h' result g'. urlTest (Suc 0) (Suc 0) \<lparr>en_measure = [''b'' \<mapsto> 40], en_now = 7, en_cancelled = False, en_schedule = rev\<rparr> True ''auto''
      (group_world, []) = Some (w', h', result) \<and> gm_get w' ''auto'' = Some (URLTestOutbound g') \<and> selected_of TCP g' = Some ''b''"
proof -
  let ?env = "\<lparr>en_measure = [''b'' \<mapsto> 40], en_now = 7, en_cancelled = False, en_schedule = rev\<rparr> :: env" and ?g = "example_group 50"
  have p: "\<forall>d \<in> set (ug_outbounds ?g). is_plain group_world d" "distinct (ug_outbounds ?g)" "''auto'' \<notin> set (ug_outbounds ?g)" "\<not> ug_checking ?g"
    "\<forall>net s. selected_of net ?g = Some s \<longrightarrow> s \<in> set (ug_outbounds ?g)"
    by (auto simp: example_group_def is_plain_def example_world_def selected_of_def split: network.splits)
  have e: "\<not> en_cancelled ?env" "\<forall>jobs. mset (en_schedule ?env jobs) = mset jobs" "sane [] (ug_tolerance ?g)"
    "\<forall>d x. en_measure ?env d = Some x \<longrightarrow> x \<noteq> 0 \<and> unat x + unat (ug_tolerance ?g) < 2 ^ 16"
    by (auto simp: sane_def LoadURLTestHistory_def example_group_def split: if_splits)
  have s: "''b'' \<in> set (ug_outbounds ?g)" "supports group_world TCP ''b''" "en_measure ?env ''b'' \<noteq> None"
    by (simp_all add: example_group_def supports_def example_world_def)
  obtain w' h' result g' where r: "urlTest (Suc 0) (Suc 0) ?env True ''auto'' (group_world, []) = Some (w', h', result)"
    "gm_get w' ''auto'' = Some (URLTestOutbound g')" "\<exists>d x. selected_of TCP g' = Some d \<and> en_measure ?env d = Some x"
    using urltest_round [OF group_world_ok(3) p(4,1,2,3,5) e, of 0 0] s by blast
  then have "selected_of TCP g' = Some ''b''" by (auto split: if_splits)
  then show ?thesis using r(1,2) by blast
qed

text \<open>An instance: a selection other than the default.\<close>

theorem selector_survives_restart_witness:
  "\<exists>s''. SelectorStart (\<lambda>_. True) (Some [(''s'', ''b'')]) \<lparr>sl_Tag = ''s'', sl_tags = [''a'', ''b''], sl_defaultTag = [], sl_outbounds = [], sl_selected = None,
      sl_interruptGroup = [], sl_interruptExternalConnections = False\<rparr> = (Ok s'' :: (unit group_error, Selector) res) \<and> sl_selected s'' = Some ''b''"
proof -
  let ?init = "\<lparr>sl_Tag = ''s'', sl_tags = [''a'', ''b''], sl_defaultTag = [], sl_outbounds = [], sl_selected = None,
      sl_interruptGroup = [], sl_interruptExternalConnections = False\<rparr> :: Selector"
  let ?s = "?init\<lparr>sl_outbounds := [''a'', ''b''], sl_selected := Some ''a''\<rparr>"
  have st: "SelectorStart (\<lambda>_. True) (Some []) ?init = (Ok ?s :: (unit group_error, Selector) res)" by (simp add: SelectorStart_def)
  have c: "select_calls [''b'', ''x''] ?s [] = (?s\<lparr>sl_selected := Some ''b''\<rparr>, [(''s'', ''b'')])"
    by (simp add: select_calls_def SelectOutbound_def Interrupt_def gm_set_def)
  from selector_survives_restart [OF st _ _ c] show ?thesis by simp
qed

end
