(* ===== verification/Sniffers.thy ===== *)
theory Sniffers
  imports Go_Binary "HOL-Library.Sublist"
begin

unbundle bit_operations_syntax

text \<open>
  Protocol sniffing, \<^verbatim>\<open>common/sniff\<close>: the loops \<open>PeekStream\<close> and \<open>PeekPacket\<close> and the sniffers that parse bytes
  themselves. A sniffer returns \<open>Ok\<close> (a nil error), asks for more data, or refuses; index and slice expressions
  panic out of range. A stream reader is an \<open>io.MultiReader\<close> over buffers, a list of byte lists: \<open>binary.Read\<close>
  reads across buffers, a plain \<open>Read\<close> does not. The two readers of the sing library and the DNS message parser
  are parameters; the sniffers of HTTP, TLS and QUIC run parsers of other packages and are not modelled.
\<close>

section \<open>Verdicts\<close>

datatype sniff_error = NeedMoreData | ErrInvalid | OtherError

record sniffed =
  sd_Protocol :: "string option"
  sd_Client :: "string option"

type_synonym verdict = "(sniff_error, sniffed) res"

definition found :: "string \<Rightarrow> verdict" where
  "found protocol = Ok \<lparr>sd_Protocol = Some protocol, sd_Client = None\<rparr>"

text \<open>What an unpacked DNS message says: whether it is a response, and how many questions, answers and authorities it has.\<close>

record sniff_lib =
  lb_SkipN :: "nat \<Rightarrow> byte list \<Rightarrow> byte list option"
  lb_ReadFullFrom :: "nat \<Rightarrow> byte list \<Rightarrow> byte list \<times> bool"
  lb_Unpack :: "byte list \<Rightarrow> (bool \<times> nat \<times> nat \<times> nat) option"

text \<open>\<open>binary.Read\<close> of a byte and of a big-endian word; a failure becomes \<open>ErrNeedMoreData\<close>.\<close>

definition read8 :: "byte list \<Rightarrow> (sniff_error, byte \<times> byte list) res" where
  "read8 bs = (case bs of [] \<Rightarrow> Err NeedMoreData | b # rest \<Rightarrow> Ok (b, rest))"

definition read16 :: "byte list \<Rightarrow> (sniff_error, nat \<times> byte list) res" where
  "read16 bs = (if length bs < 2 then Err NeedMoreData else Ok (be_value (take 2 bs), drop 2 bs))"

definition expect8 :: "byte \<Rightarrow> byte list \<Rightarrow> (sniff_error, byte list) res" where
  "expect8 x bs = res_bind (read8 bs) (\<lambda>(b, rest). if b \<noteq> x then Err ErrInvalid else Ok rest)"

definition expect16 :: "nat \<Rightarrow> byte list \<Rightarrow> (sniff_error, byte list) res" where
  "expect16 x bs = res_bind (read16 bs) (\<lambda>(v, rest). if v \<noteq> x then Err ErrInvalid else Ok rest)"


section \<open>Stream sniffers\<close>

definition RDP :: "sniff_lib \<Rightarrow> byte list list \<Rightarrow> verdict" where
  "RDP L chunks =
     res_bind (expect8 0x03 (concat chunks)) (\<lambda>r1.
     res_bind (expect8 0x00 r1) (\<lambda>r2.
     res_bind (expect16 19 r2) (\<lambda>r3.
     res_bind (expect8 14 r3) (\<lambda>r4.
     res_bind (expect8 0xE0 r4) (\<lambda>r5.
     res_bind (case lb_SkipN L 5 r5 of None \<Rightarrow> Err NeedMoreData | Some r \<Rightarrow> Ok r) (\<lambda>r6.
     res_bind (expect8 0x01 r6) (\<lambda>r7.
     res_bind (read8 r7) (\<lambda>(rdpFlags, r8).
     res_bind (expect8 8 r8) (\<lambda>_. found ''rdp'')))))))))"

text \<open>\<open>Read\<close> of a multi-reader: from the first buffer that is not empty.\<close>

fun multi_read :: "nat \<Rightarrow> byte list list \<Rightarrow> byte list option" where
  "multi_read n [] = None"
| "multi_read n (c # cs) = (if c = [] then multi_read n cs else Some (take n c))"

fun drop_first :: "byte list list \<Rightarrow> byte list list" where
  "drop_first [] = []"
| "drop_first (c # cs) = (if c = [] then drop_first cs else tl c # cs)"

text \<open>The comparison \<open>got[:n] != header[:n]\<close> of what was read with the start of a header.\<close>

definition mismatch :: "byte list \<Rightarrow> byte list \<Rightarrow> bool" where
  "mismatch got header = (got \<noteq> take (length got) header)"

definition bittorrent_header :: "byte list" where
  "bittorrent_header = bytes_of ''BitTorrent protocol''"

definition BitTorrent :: "byte list list \<Rightarrow> verdict" where
  "BitTorrent chunks =
     res_bind (expect8 19 (concat chunks)) (\<lambda>_.
       (case multi_read 19 (drop_first chunks) of
          None \<Rightarrow> Err NeedMoreData
        | Some protocol \<Rightarrow>
            if mismatch protocol bittorrent_header then Err ErrInvalid
            else if length protocol < 19 then Err NeedMoreData
            else found ''bittorrent''))"

text \<open>A message that does not look like a query makes the function return the nil error of \<open>Unpack\<close>.\<close>

definition DomainNameQuery :: "sniff_lib \<Rightarrow> byte list \<Rightarrow> verdict" where
  "DomainNameQuery L packet = (case lb_Unpack L packet of
     None \<Rightarrow> Err OtherError
   | Some (response, questions, answers, authorities) \<Rightarrow>
       if response \<or> questions = 0 \<or> 0 < answers \<or> 0 < authorities then Ok \<lparr>sd_Protocol = None, sd_Client = None\<rparr>
       else found ''dns'')"

definition guarded :: "byte list \<Rightarrow> nat \<Rightarrow> (byte \<Rightarrow> bool) \<Rightarrow> (sniff_error, bool) res" where
  "guarded packet i P = (if i < length packet then res_bind (index packet i) (\<lambda>b. Ok (P b)) else Ok False)"

fun counts_set :: "byte list \<Rightarrow> nat list \<Rightarrow> (sniff_error, bool) res" where
  "counts_set packet [] = Ok False"
| "counts_set packet (i # is) = res_bind (guarded packet i (\<lambda>b. b \<noteq> 0)) (\<lambda>bad. if bad then Ok True else counts_set packet is)"

definition StreamDomainNameQuery :: "sniff_lib \<Rightarrow> byte list list \<Rightarrow> verdict" where
  "StreamDomainNameQuery L chunks =
     res_bind (read16 (concat chunks)) (\<lambda>(length', rest).
       if length' < 12 then Err ErrInvalid
       else (case lb_ReadFullFrom L length' rest of (packet, complete) \<Rightarrow>
         res_bind (guarded packet 2 (\<lambda>b. b AND 0x80 \<noteq> 0)) (\<lambda>response.
           if response then Err ErrInvalid
           else res_bind (if 5 < length packet then res_bind (index packet 4) (\<lambda>a. res_bind (index packet 5) (\<lambda>b. Ok (a = 0 \<and> b = 0))) else Ok False) (\<lambda>none.
             if none then Err ErrInvalid
             else res_bind (counts_set packet [6..<10]) (\<lambda>bad.
               if bad then Err ErrInvalid
               else if \<not> complete then Err NeedMoreData
               else DomainNameQuery L packet)))))"

definition ssh_prefix :: "byte list" where
  "ssh_prefix = bytes_of ''SSH-2.0-''"

text \<open>\<open>bufio.Reader.ReadLine\<close> with the default buffer of 4096 bytes: without the line end when there is one.\<close>

definition read_line :: "byte list \<Rightarrow> byte list" where
  "read_line bs =
     (let line = takeWhile (\<lambda>b. b \<noteq> 10) (take 4096 bs)
      in if length line < length (take 4096 bs)
         then (if line \<noteq> [] \<and> last line = 13 then butlast line else line)
         else if length line = 4096 \<and> last line = 13 then butlast line
         else line)"

definition SSH :: "byte list list \<Rightarrow> verdict" where
  "SSH chunks =
     (let bs = concat chunks
      in if mismatch (take 8 bs) ssh_prefix then Err ErrInvalid
         else if length bs < 8 then Err NeedMoreData
         else res_bind (slice (read_line bs) 8 (length (read_line bs))) (\<lambda>client.
                Ok \<lparr>sd_Protocol = Some ''ssh'', sd_Client = Some (string_of client)\<rparr>))"


section \<open>Packet sniffers\<close>

definition invalid_unless :: "bool \<Rightarrow> verdict \<Rightarrow> verdict" where
  "invalid_unless ok v = (if ok then v else Err ErrInvalid)"

definition be_at :: "byte list \<Rightarrow> nat \<Rightarrow> nat \<Rightarrow> (sniff_error, nat) res" where
  "be_at packet i j = res_bind (slice packet i j) (\<lambda>bs. Ok (be_value bs))"

definition STUNMessage :: "byte list \<Rightarrow> verdict" where
  "STUNMessage packet =
     invalid_unless (20 \<le> length packet)
       (res_bind (be_at packet 4 8) (\<lambda>cookie. invalid_unless (cookie = 0x2112A442)
         (res_bind (be_at packet 2 4) (\<lambda>len. invalid_unless (20 + len \<le> length packet) (found ''stun'')))))"

text \<open>The loop over the extensions of a uTP packet. \<open>Seek\<close> may go past the end.\<close>

fun utp_extensions :: "byte \<Rightarrow> byte list \<Rightarrow> verdict" where
  "utp_extensions extension bs =
     (if extension = 0 then found ''bittorrent''
      else (case bs of
        [] \<Rightarrow> Err OtherError
      | extension' # bs' \<Rightarrow>
          if 4 < extension' then Err ErrInvalid
          else (case bs' of [] \<Rightarrow> Err OtherError | len # rest \<Rightarrow> utp_extensions extension' (drop (unat len) rest))))"

declare utp_extensions.simps [simp del]

definition UTP :: "byte list \<Rightarrow> verdict" where
  "UTP packet =
     invalid_unless (20 \<le> length packet)
       (res_bind (index packet 0) (\<lambda>b. invalid_unless (b AND 0x0F = 1 \<and> drop_bit 4 b \<le> 4)
         (res_bind (index packet 1) (\<lambda>extension.
          res_bind (slice packet 20 (length packet)) (utp_extensions extension)))))"

definition UDPTracker :: "byte list \<Rightarrow> verdict" where
  "UDPTracker packet =
     invalid_unless (16 \<le> length packet)
       (res_bind (be_at packet 0 8) (\<lambda>protocolID. invalid_unless (protocolID = 0x41727101980)
         (res_bind (be_at packet 8 12) (\<lambda>action. invalid_unless (action = 0) (found ''bittorrent'')))))"

definition DTLSRecord :: "byte list \<Rightarrow> verdict" where
  "DTLSRecord packet =
     invalid_unless (13 \<le> length packet)
       (res_bind (index packet 0) (\<lambda>contentType. invalid_unless (contentType \<in> {20, 21, 22, 23, 25})
         (res_bind (index packet 1) (\<lambda>versionMajor. invalid_unless (versionMajor = 0xfe)
           (res_bind (index packet 2) (\<lambda>versionMinor. invalid_unless (versionMinor = 0xff \<or> versionMinor = 0xfd) (found ''dtls'')))))))"

text \<open>Root delay and dispersion are at most 16 seconds in units of \<open>2\<^sup>-\<^sup>1\<^sup>6\<close> seconds; the floating point
  division by a power of two is exact.\<close>

definition NTP :: "byte list \<Rightarrow> verdict" where
  "NTP packet =
     invalid_unless (48 \<le> length packet)
       (res_bind (index packet 0) (\<lambda>firstByte.
         let li = drop_bit 6 firstByte AND 0x03; vn = drop_bit 3 firstByte AND 0x07; mode = firstByte AND 0x07
         in invalid_unless (li \<le> 3 \<and> (vn = 3 \<or> vn = 4) \<and> mode = 3)
           (res_bind (be_at packet 4 8) (\<lambda>rootDelay.
            res_bind (be_at packet 8 12) (\<lambda>rootDispersion.
              invalid_unless (rootDelay \<le> 16 * 65536 \<and> rootDispersion \<le> 16 * 65536) (found ''ntp''))))))"

definition Skip :: "nat \<Rightarrow> bool" where
  "Skip port = (port \<in> {25, 465, 587} \<union> {143, 993} \<union> {110, 995})"


section \<open>Peeking\<close>

text \<open>Sniffers in order: the first that returns a nil error, else the errors of all; no errors, when there are no
  sniffers, are the nil error. \<open>errors.Is\<close> looks into every error
  that \<open>E.Errors\<close> collected.\<close>

fun try_sniffers :: "('d \<Rightarrow> verdict) list \<Rightarrow> 'd \<Rightarrow> sniff_error list \<Rightarrow> (sniff_error list, sniffed) res" where
  "try_sniffers [] data errs = Err errs"
| "try_sniffers (f # fs) data errs = (case f data of
     Ok sd \<Rightarrow> Ok sd
   | Err e \<Rightarrow> try_sniffers fs data (errs @ [e])
   | Panic \<Rightarrow> Panic)"

definition PeekPacket :: "byte list \<Rightarrow> (byte list \<Rightarrow> verdict) list \<Rightarrow> (sniff_error list, sniffed) res" where
  "PeekPacket packet sniffers = try_sniffers sniffers packet []"

datatype peek_error = ReadPayload | SniffErrors "sniff_error list"

text \<open>The loop of \<open>PeekStream\<close> over what the connection delivers before the deadline; nothing more is a failed read.\<close>

fun peek_loop :: "(byte list list \<Rightarrow> verdict) list \<Rightarrow> byte list list \<Rightarrow> nat \<Rightarrow> byte list \<Rightarrow> byte list list \<Rightarrow> sniff_error list \<Rightarrow>
    (peek_error, sniffed) res" where
  "peek_loop sniffers buffers i buffer [] sniffError = (if 0 < i then Err (SniffErrors sniffError) else Err ReadPayload)"
| "peek_loop sniffers buffers i buffer (piece # pieces) sniffError =
     (let buffer' = buffer @ piece in
      case try_sniffers sniffers (buffers @ [buffer']) [] of
        Ok sd \<Rightarrow> Ok sd
      | Panic \<Rightarrow> Panic
      | Err errs \<Rightarrow>
          if NeedMoreData \<in> set errs then peek_loop sniffers buffers (Suc i) buffer' pieces errs
          else Err (SniffErrors errs))"

definition PeekStream :: "byte list list \<Rightarrow> byte list \<Rightarrow> byte list list \<Rightarrow> (byte list list \<Rightarrow> verdict) list \<Rightarrow> (peek_error, sniffed) res" where
  "PeekStream buffers buffer pieces sniffers = peek_loop sniffers buffers 0 buffer pieces []"


section \<open>Verdicts are final\<close>

text \<open>Two verdicts that decide the same way; the name of an SSH client may grow with the data.\<close>

definition same_verdict :: "verdict \<Rightarrow> verdict \<Rightarrow> bool" where
  "same_verdict v v' = (case v of
     Ok a \<Rightarrow> (\<exists>b. v' = Ok b \<and> sd_Protocol b = sd_Protocol a)
   | Err e \<Rightarrow> v' = Err e
   | Panic \<Rightarrow> v' = Panic)"

lemma same_verdict_refl [simp]: "same_verdict v v"
  by (cases v) (simp_all add: same_verdict_def)

definition final :: "(byte list \<Rightarrow> verdict) \<Rightarrow> bool" where
  "final f = (\<forall>bs more. f bs \<noteq> Err NeedMoreData \<longrightarrow> same_verdict (f bs) (f (bs @ more)))"

text \<open>A reader that consumes from the front: more data does not change what it has read.\<close>

definition incremental :: "(byte list \<Rightarrow> (sniff_error, byte list) res) \<Rightarrow> bool" where
  "incremental r = (\<forall>bs more. case r bs of
     Ok rest \<Rightarrow> r (bs @ more) = Ok (rest @ more)
   | Err e \<Rightarrow> e = NeedMoreData \<or> r (bs @ more) = Err e
   | Panic \<Rightarrow> False)"

lemma final_bind:
  assumes "incremental r" "final k"
  shows "final (\<lambda>bs. res_bind (r bs) k)"
  unfolding final_def
proof (intro allI impI)
  fix bs more assume n: "res_bind (r bs) k \<noteq> Err NeedMoreData"
  show "same_verdict (res_bind (r bs) k) (res_bind (r (bs @ more)) k)"
  proof (cases "r bs")
    case (Ok rest)
    then have "r (bs @ more) = Ok (rest @ more)" using assms(1) by (auto simp: incremental_def split: res.splits)
    then show ?thesis using Ok assms(2) n by (simp add: final_def)
  next
    case (Err e)
    then have "e \<noteq> NeedMoreData" using n by simp
    then have "r (bs @ more) = Err e" using assms(1) Err unfolding incremental_def by (auto split: res.splits)
    then show ?thesis using Err by simp
  next
    case Panic
    then show ?thesis using assms(1) unfolding incremental_def by (auto split: res.splits)
  qed
qed

lemma final_const [intro]: "final (\<lambda>_. v)"
  by (simp add: final_def)

lemma incremental_expect8 [intro]: "incremental (expect8 x)"
  by (auto simp: incremental_def expect8_def read8_def split: list.splits)

lemma incremental_read8 [intro]: "incremental (\<lambda>bs. res_bind (read8 bs) (\<lambda>(b, r). Ok r))"
  by (auto simp: incremental_def read8_def split: list.splits)

lemma incremental_expect16 [intro]: "incremental (expect16 x)"
  by (auto simp: incremental_def expect16_def read16_def split: res.splits)

lemma bind_Panic: "res_bind r k = Panic \<longleftrightarrow> r = Panic \<or> (\<exists>a. r = Ok a \<and> k a = Panic)"
  by (cases r) auto

lemma readers_no_panic: "expect8 x bs \<noteq> Panic" "expect16 y bs \<noteq> Panic" "read8 bs \<noteq> Panic" "read16 bs \<noteq> Panic" "found p \<noteq> Panic"
  by (auto simp: expect8_def expect16_def read8_def read16_def found_def split: list.splits)

lemma mismatch_prefix: "mismatch got header \<longleftrightarrow> \<not> prefix got header"
  unfolding mismatch_def by (metis append_eq_conv_conj prefix_def take_is_prefix)

lemma mismatch_append: "mismatch (take n r) h \<Longrightarrow> mismatch (take n (r @ s)) h"
  unfolding mismatch_prefix by (metis prefix_order.trans take_append prefixI)

lemma match_full: "\<not> mismatch got h \<Longrightarrow> length got = length h \<Longrightarrow> got = h"
  by (simp add: mismatch_def)

text \<open>The readers of the sing library: \<open>SkipN\<close> fails when there is less to skip, \<open>ReadFullFrom\<close> keeps what it could read.\<close>

locale sniff_laws =
  fixes L :: sniff_lib
  assumes SkipN: "lb_SkipN L n bs = (if n \<le> length bs then Some (drop n bs) else None)"
    and ReadFullFrom: "lb_ReadFullFrom L n bs = (take n bs, n \<le> length bs)"
begin

lemma incremental_skip: "incremental (\<lambda>bs. case lb_SkipN L n bs of None \<Rightarrow> Err NeedMoreData | Some r \<Rightarrow> Ok r)"
  by (auto simp: incremental_def SkipN split: res.splits)

lemma RDP_single:
  "RDP L [bs] =
     res_bind (expect8 0x03 bs) (\<lambda>r1. res_bind (expect8 0x00 r1) (\<lambda>r2. res_bind (expect16 19 r2) (\<lambda>r3.
     res_bind (expect8 14 r3) (\<lambda>r4. res_bind (expect8 0xE0 r4) (\<lambda>r5.
     res_bind (case lb_SkipN L 5 r5 of None \<Rightarrow> Err NeedMoreData | Some r \<Rightarrow> Ok r) (\<lambda>r6.
     res_bind (expect8 0x01 r6) (\<lambda>r7. res_bind (res_bind (read8 r7) (\<lambda>(b, r). Ok r)) (\<lambda>r8.
     res_bind (expect8 8 r8) (\<lambda>_. found ''rdp'')))))))))"
proof -
  have "res_bind (read8 r) (\<lambda>(b, r). res_bind (expect8 8 r) (\<lambda>_. found ''rdp'')) =
      res_bind (res_bind (read8 r) (\<lambda>(b, r). Ok r)) (\<lambda>r. res_bind (expect8 8 r) (\<lambda>_. found ''rdp''))" for r
    by (cases "read8 r") auto
  then show ?thesis by (simp add: RDP_def)
qed

lemma RDP_final: "final (\<lambda>bs. RDP L [bs])"
  unfolding RDP_single
  by (intro final_bind incremental_expect8 incremental_expect16 incremental_read8 incremental_skip final_const)

end

lemma concat_multi_read: "multi_read n [bs] = (if bs = [] then None else Some (take n bs))"
  by simp

lemma BitTorrent_final: "final (\<lambda>bs. BitTorrent [bs])"
proof -
  define k :: "byte list \<Rightarrow> verdict" where "k = (\<lambda>r. if r = [] then Err NeedMoreData
       else if mismatch (take 19 r) bittorrent_header then Err ErrInvalid
       else if length r < 19 then Err NeedMoreData else found ''bittorrent'')"
  have eq: "BitTorrent [bs] = res_bind (expect8 19 bs) k" for bs
    by (cases bs) (auto simp: BitTorrent_def expect8_def read8_def k_def)
  have "final k"
    unfolding final_def
  proof (intro allI impI)
    fix r more assume n: "k r \<noteq> Err NeedMoreData"
    then have "r \<noteq> []" by (auto simp: k_def)
    show "same_verdict (k r) (k (r @ more))"
    proof (cases "mismatch (take 19 r) bittorrent_header")
      case True
      then show ?thesis using mismatch_append [OF True, of more] \<open>r \<noteq> []\<close> unfolding k_def by simp
    next
      case False
      then have "\<not> length r < 19" using n \<open>r \<noteq> []\<close> by (auto simp: k_def)
      then show ?thesis using False \<open>r \<noteq> []\<close> by (simp add: k_def)
    qed
  qed
  then show ?thesis unfolding eq by (intro final_bind incremental_expect8)
qed

text \<open>The line is never shorter than the prefix.\<close>

lemma ssh_line:
  assumes "take 8 bs = ssh_prefix"
  shows "\<exists>client. slice (read_line bs) 8 (length (read_line bs)) = (Ok client :: (sniff_error, byte list) res)"
proof -
  obtain t where bs: "bs = ssh_prefix @ t" using assms by (metis append_take_drop_id)
  have no: "10 \<notin> set ssh_prefix" "13 \<notin> set ssh_prefix" by (simp_all add: ssh_prefix_def byte_of_def)
  let ?l = "takeWhile (\<lambda>b. b \<noteq> 10) (take 4096 bs)"
  have tk: "take 4096 bs = ssh_prefix @ take 4088 t" by (simp add: bs ssh_prefix_def)
  have l: "?l = ssh_prefix @ takeWhile (\<lambda>b. b \<noteq> 10) (take 4088 t)" unfolding tk using no(1) by (intro takeWhile_append2) auto
  have "8 \<le> length (butlast ?l)" if "last ?l = 13"
  proof (cases "takeWhile (\<lambda>b. b \<noteq> 10) (take 4088 t)" rule: rev_cases)
    case Nil
    then have "last ssh_prefix = 13" using that l by simp
    then show ?thesis using no(2) last_in_set [of ssh_prefix] by (simp add: ssh_prefix_def)
  next
    case (snoc ys y)
    then show ?thesis unfolding l by (simp add: butlast_append ssh_prefix_def)
  qed
  moreover have "8 \<le> length ?l" unfolding l by (simp add: ssh_prefix_def)
  ultimately have "8 \<le> length (read_line bs)" by (auto simp: read_line_def Let_def)
  then show ?thesis by (simp add: slice_def)
qed

lemma SSH_verdict:
  "SSH chunks = (let bs = concat chunks in
     if mismatch (take 8 bs) ssh_prefix then Err ErrInvalid
     else if length bs < 8 then Err NeedMoreData
     else Ok \<lparr>sd_Protocol = Some ''ssh'', sd_Client = Some (string_of (drop 8 (read_line bs)))\<rparr>)"
proof -
  have len: "length ssh_prefix = 8" by (simp add: ssh_prefix_def)
  have "slice (read_line bs) 8 (length (read_line bs)) = (Ok (drop 8 (read_line bs)) :: (sniff_error, byte list) res)"
    if "\<not> mismatch (take 8 bs) ssh_prefix" "\<not> length bs < 8" for bs
    using ssh_line [OF match_full [OF that(1)]] that(2) len by (simp add: slice_def split: if_splits)
  then show ?thesis by (simp add: SSH_def Let_def)
qed

lemma SSH_final: "final (\<lambda>bs. SSH [bs])"
  unfolding final_def
proof (intro allI impI)
  fix bs more assume n: "SSH [bs] \<noteq> Err NeedMoreData"
  show "same_verdict (SSH [bs]) (SSH [bs @ more])"
  proof (cases "mismatch (take 8 bs) ssh_prefix")
    case True
    then show ?thesis using mismatch_append [OF True, of more] by (simp add: SSH_verdict Let_def del: take_append)
  next
    case False
    then have "\<not> length bs < 8" using n by (auto simp: SSH_verdict Let_def)
    then show ?thesis using False by (simp add: SSH_verdict Let_def same_verdict_def)
  qed
qed

text \<open>The header checks of a DNS message, on as much of it as there is.\<close>

definition dns_reject :: "byte list \<Rightarrow> bool" where
  "dns_reject p = (2 < length p \<and> p ! 2 AND 0x80 \<noteq> 0 \<or> 5 < length p \<and> p ! 4 = 0 \<and> p ! 5 = 0 \<or>
     (\<exists>i \<in> {6, 7, 8, 9}. i < length p \<and> p ! i \<noteq> 0))"

lemma dns_reject_append: "dns_reject p \<Longrightarrow> dns_reject (p @ q)"
  by (auto simp: dns_reject_def nth_append)

lemma counts_set_Ok: "counts_set p is = Ok (\<exists>i \<in> set is. i < length p \<and> p ! i \<noteq> 0)"
  by (induction "is") (auto simp: guarded_def index_def)

context sniff_laws
begin

lemma StreamDomainNameQuery_single:
  "StreamDomainNameQuery L chunks = res_bind (read16 (concat chunks)) (\<lambda>(n, rest).
     if n < 12 \<or> dns_reject (take n rest) then Err ErrInvalid
     else if length rest < n then Err NeedMoreData
     else DomainNameQuery L (take n rest))"
proof -
  have up: "[6..<10] = [6, 7, 8, 9 :: nat]" by (simp add: upt_rec)
  show ?thesis
    unfolding StreamDomainNameQuery_def ReadFullFrom counts_set_Ok up
    by (rule arg_cong [where f = "res_bind (read16 (concat chunks))"])
      (auto simp: fun_eq_iff guarded_def index_def dns_reject_def not_le)
qed

lemma StreamDomainNameQuery_final: "final (\<lambda>bs. StreamDomainNameQuery L [bs])"
  unfolding final_def
proof (intro allI impI)
  fix bs more assume n: "StreamDomainNameQuery L [bs] \<noteq> Err NeedMoreData"
  have l2: "\<not> length bs < 2" using n by (auto simp: StreamDomainNameQuery_single read16_def)
  let ?n = "be_value (take 2 bs)" and ?r = "drop 2 bs"
  have r: "read16 bs = Ok (?n, ?r)" "read16 (bs @ more) = Ok (?n, ?r @ more)" using l2 by (simp_all add: read16_def)
  have rej: "dns_reject (take ?n ?r) \<Longrightarrow> dns_reject (take ?n (?r @ more))" using dns_reject_append by (auto simp: take_append)
  show "same_verdict (StreamDomainNameQuery L [bs]) (StreamDomainNameQuery L [bs @ more])"
    using n rej r by (auto simp: StreamDomainNameQuery_single)
qed

text \<open>None of the sniffers that read streams panics.\<close>

lemma stream_no_panic: "RDP L chunks \<noteq> Panic" "StreamDomainNameQuery L chunks \<noteq> Panic"
  by (simp_all add: RDP_def StreamDomainNameQuery_single DomainNameQuery_def bind_Panic readers_no_panic split: option.splits)

end

lemma BitTorrent_no_panic: "BitTorrent chunks \<noteq> Panic"
  by (simp add: BitTorrent_def bind_Panic readers_no_panic split: option.splits)

lemma SSH_no_panic: "SSH chunks \<noteq> Panic"
  by (simp add: SSH_verdict Let_def)

text \<open>Four of the six stream sniffers; those of TLS and HTTP run parsers of other packages and are not in the model.\<close>

definition own_stream_sniffers :: "sniff_lib \<Rightarrow> (byte list list \<Rightarrow> verdict) set" where
  "own_stream_sniffers L = {RDP L, BitTorrent, SSH, StreamDomainNameQuery L}"

lemma sniffers_final:
  assumes "sniff_laws L" "f \<in> own_stream_sniffers L"
  shows "final (\<lambda>bs. f [bs])" "f chunks \<noteq> Panic"
  using assms sniff_laws.RDP_final sniff_laws.StreamDomainNameQuery_final BitTorrent_final SSH_final
    sniff_laws.stream_no_panic BitTorrent_no_panic SSH_no_panic
  by (auto simp: own_stream_sniffers_def)

lemma try_sniffers_Ok: "\<forall>f \<in> set fs. f d \<noteq> Panic \<Longrightarrow> (\<exists>sd. try_sniffers fs d errs = Ok sd) \<longleftrightarrow> (\<exists>f \<in> set fs. \<exists>sd. f d = Ok sd)"
  by (induction fs arbitrary: errs) (auto split: res.splits)

lemma try_sniffers_Err:
  "try_sniffers fs d errs = Err es \<Longrightarrow> set es = set errs \<union> {e. \<exists>f \<in> set fs. f d = Err e} \<and> (\<forall>f \<in> set fs. \<exists>e. f d = Err e)"
  by (induction fs arbitrary: errs) (auto split: res.splits)

lemma try_sniffers_Panic: "\<forall>f \<in> set fs. f d \<noteq> Panic \<Longrightarrow> try_sniffers fs d errs \<noteq> Panic"
  by (induction fs arbitrary: errs) (auto split: res.splits)

lemma peek_loop_whole:
  assumes "\<forall>f \<in> set fs. final (\<lambda>bs. f [bs]) \<and> (\<forall>d. f d \<noteq> Panic)" "pieces \<noteq> []"
  shows "(\<exists>sd. peek_loop fs [] i buffer pieces e = Ok sd) \<longleftrightarrow> (\<exists>sd. try_sniffers fs [buffer @ concat pieces] [] = Ok sd)"
  using assms(2)
proof (induction pieces arbitrary: i buffer e)
  case (Cons piece pieces)
  let ?b = "buffer @ piece" and ?d = "buffer @ concat (piece # pieces)"
  have np: "\<forall>f \<in> set fs. f x \<noteq> Panic" for x using assms(1) by blast
  have fin: "same_verdict (f [?b]) (f [?d])" if "f \<in> set fs" "f [?b] \<noteq> Err NeedMoreData" for f
  proof -
    have "final (\<lambda>bs. f [bs])" using assms(1) that(1) by blast
    then have "same_verdict (f [?b]) (f [?b @ concat pieces])" using that(2) unfolding final_def by blast
    then show ?thesis by simp
  qed
  show ?case
  proof (cases "try_sniffers fs [?b] []")
    case (Ok sd)
    then obtain f sd' where f: "f \<in> set fs" "f [?b] = Ok sd'" using try_sniffers_Ok [OF np, of "[?b]" "[]"] by blast
    then have "\<exists>sd. f [?d] = Ok sd" using fin [of f] by (auto simp: same_verdict_def)
    then have "\<exists>sd. try_sniffers fs [?d] [] = Ok sd" using f(1) try_sniffers_Ok [OF np] by blast
    then show ?thesis using Ok by simp
  next
    case (Err errs)
    note es = try_sniffers_Err [OF Err]
    show ?thesis
    proof (cases "NeedMoreData \<in> set errs")
      case True
      show ?thesis
      proof (cases "pieces = []")
        case nil: True
        then show ?thesis using Err True by simp
      next
        case False
        then show ?thesis using Cons.IH [OF False, of "Suc i" ?b errs] Err True by simp
      qed
    next
      case False
      then have ne: "\<forall>f \<in> set fs. \<exists>e. f [?b] = Err e \<and> e \<noteq> NeedMoreData" using es by fastforce
      then have "\<forall>f \<in> set fs. \<exists>e. f [?d] = Err e" using fin by (fastforce simp: same_verdict_def)
      then have "\<not> (\<exists>f \<in> set fs. \<exists>sd. f [?d] = Ok sd)" by (metis res.distinct(1))
      then have "\<not> (\<exists>sd. try_sniffers fs [?d] [] = Ok sd)" unfolding try_sniffers_Ok [OF np] .
      then show ?thesis using Err False by simp
    qed
  next
    case Panic
    then show ?thesis using try_sniffers_Panic [OF np] by blast
  qed
qed simp

text \<open>
  C38. Sniffing does not depend on how a stream is cut, for the sniffers of RDP, BitTorrent, SSH and DNS over TCP (those of TLS and HTTP,
  which run parsers of other packages, are not in the model) and a connection that has not been sniffed before: with any selection of
  the four, in any order, a stream that arrives in pieces is recognised exactly when the whole of it, seen at once, is. With buffers of an earlier sniffing
  in front this fails, as \<open>bittorrent_in_two_buffers\<close> shows.
\<close>

theorem sniffing_in_pieces:
  assumes "sniff_laws L" "set fs \<subseteq> own_stream_sniffers L" "pieces \<noteq> []"
  shows "(\<exists>sd. PeekStream [] [] pieces fs = Ok sd) \<longleftrightarrow> (\<exists>sd. PeekStream [] [] [concat pieces] fs = Ok sd)"
proof -
  have f: "\<forall>f \<in> set fs. final (\<lambda>bs. f [bs]) \<and> (\<forall>d. f d \<noteq> Panic)" using sniffers_final [OF assms(1)] assms(2) by blast
  show ?thesis unfolding PeekStream_def
    using peek_loop_whole [OF f assms(3), of 0 "[]" "[]"] peek_loop_whole [OF f, of "[concat pieces]" 0 "[]" "[]"] by simp
qed

lemma utp_extensions_no_panic: "utp_extensions x bs \<noteq> Panic"
proof (induction x bs rule: utp_extensions.induct)
  case (1 x bs)
  then show ?case by (subst utp_extensions.simps) (simp add: found_def split: list.splits)
qed

text \<open>No sniffer panics, on any stream in any buffers and on any packet.
\<close>

theorem sniffers_never_panic:
  assumes "sniff_laws L"
  shows "(\<forall>f \<in> own_stream_sniffers L. f chunks \<noteq> Panic) \<and>
    (\<forall>f \<in> {DomainNameQuery L, STUNMessage, UTP, UDPTracker, DTLSRecord, NTP}. f packet \<noteq> Panic)"
proof -
  have "STUNMessage packet \<noteq> Panic" "UDPTracker packet \<noteq> Panic"
    by (simp_all add: STUNMessage_def UDPTracker_def invalid_unless_def be_at_def slice_def found_def)
  moreover have "UTP packet \<noteq> Panic" "DTLSRecord packet \<noteq> Panic"
    using utp_extensions_no_panic by (simp_all add: UTP_def DTLSRecord_def invalid_unless_def index_def slice_def found_def)
  moreover have "NTP packet \<noteq> Panic"
    by (simp add: NTP_def invalid_unless_def index_def be_at_def slice_def found_def Let_def)
  moreover have "DomainNameQuery L packet \<noteq> Panic"
    by (simp add: DomainNameQuery_def found_def split: option.splits prod.splits)
  ultimately show ?thesis using sniffers_final(2) [OF assms] by simp
qed


section \<open>Instances and limits\<close>

text \<open>The readers as documented, and the header of a DNS message.\<close>

definition std_lib :: sniff_lib where
  "std_lib = \<lparr>lb_SkipN = (\<lambda>n bs. if n \<le> length bs then Some (drop n bs) else None),
     lb_ReadFullFrom = (\<lambda>n bs. (take n bs, n \<le> length bs)),
     lb_Unpack = (\<lambda>p. if length p < 12 then None
       else Some (p ! 2 AND 0x80 \<noteq> 0, be_value (take 2 (drop 4 p)), be_value (take 2 (drop 6 p)), be_value (take 2 (drop 8 p))))\<rparr>"

interpretation std_sniff: sniff_laws std_lib
  by unfold_locales (simp_all add: std_lib_def)

text \<open>Witness of C38: an SSH banner in three pieces.\<close>

theorem sniffing_in_pieces_witness:
  "\<exists>sd. PeekStream [] [] [bytes_of ''SS'', bytes_of ''H-2.0'', bytes_of ''-Go''] [RDP std_lib, SSH] = Ok sd"
proof -
  have "\<exists>sd. PeekStream [] [] [concat [bytes_of ''SS'', bytes_of ''H-2.0'', bytes_of ''-Go'']] [RDP std_lib, SSH] = Ok sd"
    by (simp add: PeekStream_def RDP_def expect8_def read8_def SSH_verdict Let_def mismatch_def ssh_prefix_def byte_of_def)
  then show ?thesis
    using sniffing_in_pieces [OF std_sniff.sniff_laws_axioms, of "[RDP std_lib, SSH]" "[bytes_of ''SS'', bytes_of ''H-2.0'', bytes_of ''-Go'']"]
    by (simp add: own_stream_sniffers_def)
qed

text \<open>An instance.\<close>

theorem sniffers_never_panic_witness: "SSH [[83]] \<noteq> Panic \<and> STUNMessage [] \<noteq> Panic"
  using sniffers_never_panic [OF std_sniff.sniff_laws_axioms, of "[[83]]" "[]"] by (simp add: own_stream_sniffers_def)

text \<open>A DNS response in a packet is a nil error without a protocol, and no later sniffer is asked.\<close>

lemma dns_response_stops_sniffing:
  assumes "lb_Unpack L packet = Some (True, q, a, n)"
  shows "PeekPacket packet (DomainNameQuery L # sniffers) = Ok \<lparr>sd_Protocol = None, sd_Client = None\<rparr>"
  using assms by (simp add: PeekPacket_def DomainNameQuery_def)

text \<open>A BitTorrent handshake whose header lies in two buffers asks for more data for ever.\<close>

lemma bittorrent_in_two_buffers:
  assumes "xs \<noteq> []" "length xs < 19" "xs @ ys = bittorrent_header"
  shows "BitTorrent [19 # xs, ys @ zs] = Err NeedMoreData" "BitTorrent [19 # xs @ ys @ zs] = found ''bittorrent''"
proof -
  have len: "length bittorrent_header = 19" by (simp add: bittorrent_header_def)
  have "\<not> mismatch xs bittorrent_header" using assms(3) unfolding mismatch_prefix by (metis prefixI)
  then show "BitTorrent [19 # xs, ys @ zs] = Err NeedMoreData"
    using assms(1,2) by (simp add: BitTorrent_def expect8_def read8_def)
  have "take 19 (xs @ ys @ zs) = bittorrent_header" using len assms(3) by (metis append.assoc append_eq_conv_conj)
  then show "BitTorrent [19 # xs @ ys @ zs] = found ''bittorrent''"
    using assms(1) len by (auto simp: BitTorrent_def expect8_def read8_def mismatch_def)
qed

end
