(* ===== verification/DNS_Client.thy ===== *)
theory DNS_Client
  imports DNS_Messages Go_Float "HOL-Library.Multiset"
begin

unbundle bit_operations_syntax

text \<open>
  The DNS client, \<^verbatim>\<open>dns/client.go\<close>: what a query is cached under, the cache in memory and on disk, the lock
  that makes equal queries wait for one another, the exchange itself, refreshes in the background and
  lookups of addresses. An exchange is cut where it blocks: \<open>begin_first\<close> up to the wait for another query,
  \<open>begin_resume\<close> after it, \<open>finishExchange\<close> once the server has answered. Between these steps other goroutines
  may run. The cache of the sing library, the stores of the cache file and the methods of \<^verbatim>\<open>miekg/dns\<close> are
  parameters; times are nanoseconds.
\<close>

section \<open>Options, keys and results\<close>

datatype DomainStrategy = AsIS | PreferIPv4 | PreferIPv6 | IPv4Only | IPv6Only

record DNSQueryOptions =
  o_Strategy :: DomainStrategy
  o_LookupStrategy :: DomainStrategy
  o_DisableCache :: bool
  o_DisableOptimisticCache :: bool
  o_RewriteTTL :: "uint32 option"
  o_Timeout :: int
  o_ClientSubnet :: prefix
  o_RemoveClientSubnet :: bool

record dnsCacheKey =
  k_Question :: question
  k_transportTag :: string
  k_clientSubnet :: prefix
  k_environment :: uint64

type_synonym dnsExchangeKey = "dnsCacheKey \<times> int"

datatype dns_error =
    ContextError | ErrNotCached | ErrResponseRejected | ErrResponseRejectedCached
  | QueryLoopback string | RcodeError int | TransportError string

text \<open>A server; \<open>Environment\<close> for those that implement \<open>DNSTransportWithEnvironment\<close>.\<close>

record DNSTransport =
  tr_Tag :: string
  tr_Environment :: "string list option"

text \<open>What a step reads of the outside: the clock, the network environment, \<open>ctx.Err()\<close> and the transport tag
  in the context.\<close>

record moment =
  mo_now :: int
  mo_NetworkEnvironment :: uint64
  mo_Err :: "dns_error option"
  mo_TransportTag :: "string option"

type_synonym checker = "(Msg \<Rightarrow> bool) option"

record refresh_job =
  rj_transport :: DNSTransport
  rj_key :: dnsCacheKey
  rj_message :: Msg
  rj_options :: DNSQueryOptions
  rj_responseChecker :: checker

record 's Client =
  c_timeout :: int
  c_disableCache :: bool
  c_disableExpire :: bool
  c_optimisticTimeout :: int
  c_clientSubnet :: prefix
  c_networkManager :: bool       \<comment> \<open>not nil\<close>
  c_rdrc :: bool
  c_dnsCache :: bool
  c_cache :: bool
  c_store :: 's                  \<comment> \<open>contents of \<open>cache\<close>, \<open>dnsCache\<close> and \<open>rdrc\<close>\<close>
  c_cacheLock :: "dnsExchangeKey list"
  c_backgroundRefresh :: "dnsCacheKey list"
  c_jobs :: "refresh_job list"   \<comment> \<open>refreshes that have been started and not finished\<close>

record 's client_lib =
  lr_Get :: "dnsCacheKey \<Rightarrow> 's \<Rightarrow> Msg option \<times> 's"
  lr_GetWithLifetimeNoExpire :: "dnsCacheKey \<Rightarrow> 's \<Rightarrow> (Msg \<times> int) option \<times> 's"
  lr_Add :: "dnsCacheKey \<Rightarrow> Msg \<Rightarrow> 's \<Rightarrow> 's"
  lr_AddWithLifetime :: "int \<Rightarrow> dnsCacheKey \<Rightarrow> Msg \<Rightarrow> int \<Rightarrow> 's \<Rightarrow> 's"   \<comment> \<open>the clock first\<close>
  lr_Remove :: "dnsCacheKey \<Rightarrow> 's \<Rightarrow> 's"
  lr_Purge :: "'s \<Rightarrow> 's"
  ps_LoadDNSCache :: "string \<Rightarrow> string \<Rightarrow> uint16 \<Rightarrow> 's \<Rightarrow> (byte list \<times> int) option"
  ps_SaveDNSCacheAsync :: "string \<Rightarrow> string \<Rightarrow> uint16 \<Rightarrow> byte list \<Rightarrow> int \<Rightarrow> 's \<Rightarrow> 's"
  ps_ClearDNSCache :: "'s \<Rightarrow> 's"
  rd_LoadRDRC :: "string \<Rightarrow> string \<Rightarrow> uint16 \<Rightarrow> 's \<Rightarrow> bool"
  rd_SaveRDRCAsync :: "string \<Rightarrow> string \<Rightarrow> uint16 \<Rightarrow> 's \<Rightarrow> 's"
  md_Pack :: "Msg \<Rightarrow> byte list option"
  md_Unpack :: "byte list \<Rightarrow> Msg option"
  md_IsEdns0 :: "Msg \<Rightarrow> rr option"
  md_Version :: "rr \<Rightarrow> nat"
  md_SetEdns0 :: "rr \<Rightarrow> Msg \<Rightarrow> Msg"          \<comment> \<open>with \<open>UDPSize()\<close> and \<open>Do()\<close> of the record\<close>
  md_Fqdn :: "string \<Rightarrow> string"
  md_IsFqdn :: "string \<Rightarrow> bool"
  np_String :: "prefix \<Rightarrow> string"             \<comment> \<open>\<open>netip.Prefix.String\<close>\<close>
  ad_env :: route_env

abbreviation Second :: int where
  "Second \<equiv> 1000000000"


section \<open>Construction\<close>

definition DNSTimeout :: int where
  "DNSTimeout = 10 * Second"

definition initializeMemoryCache :: "'s Client \<Rightarrow> 's Client" where
  "initializeMemoryCache c = (if c_disableCache c \<or> c_cache c then c else c\<lparr>c_cache := True\<rparr>)"

text \<open>\<open>initDNSCacheFunc\<close> is given or nil.\<close>

definition NewClient :: "int \<Rightarrow> bool \<Rightarrow> bool \<Rightarrow> int \<Rightarrow> prefix \<Rightarrow> bool \<Rightarrow> 's \<Rightarrow> 's Client" where
  "NewClient timeout disableCache disableExpire optimisticTimeout clientSubnet initDNSCache empty_store =
     (let client = \<lparr>c_timeout = (if timeout = 0 then DNSTimeout else timeout), c_disableCache = disableCache,
            c_disableExpire = disableExpire, c_optimisticTimeout = optimisticTimeout, c_clientSubnet = clientSubnet,
            c_networkManager = False, c_rdrc = False, c_dnsCache = False, c_cache = False, c_store = empty_store,
            c_cacheLock = [], c_backgroundRefresh = [], c_jobs = []\<rparr>
      in if \<not> disableCache \<and> \<not> initDNSCache then initializeMemoryCache client else client)"

text \<open>\<open>Start\<close>: the network manager, and what the two init functions return, where they are given.\<close>

definition Start :: "bool \<Rightarrow> bool option \<Rightarrow> bool option \<Rightarrow> 's Client \<Rightarrow> 's Client" where
  "Start networkManager initRDRC initDNSCache c =
     (let c1 = c\<lparr>c_networkManager := networkManager\<rparr>;
          c2 = (case initRDRC of Some r \<Rightarrow> c1\<lparr>c_rdrc := r\<rparr> | None \<Rightarrow> c1);
          c3 = (case initDNSCache of Some d \<Rightarrow> c2\<lparr>c_dnsCache := d\<rparr> | None \<Rightarrow> c2)
      in if \<not> c_dnsCache c3 then initializeMemoryCache c3 else c3)"


section \<open>Cache keys\<close>

text \<open>The FNV-1a hash of \<^verbatim>\<open>hash/fnv\<close>.\<close>

definition fnv1a :: "uint64 \<Rightarrow> byte list \<Rightarrow> uint64" where
  "fnv1a h bs = foldl (\<lambda>h b. (h XOR ucast b) * 1099511628211) h bs"

definition fnv_offset :: uint64 where
  "fnv_offset = 14695981039346656037"

definition environmentHash :: "'s Client \<Rightarrow> DNSTransport \<Rightarrow> moment \<Rightarrow> uint64" where
  "environmentHash c transport mo = (case tr_Environment transport of
     None \<Rightarrow> 0
   | Some environment \<Rightarrow>
       (let networkEnvironment = (if c_networkManager c then mo_NetworkEnvironment mo else 0)
        in if environment = [] then networkEnvironment
           else fnv1a (foldl (\<lambda>h entry. fnv1a (fnv1a h (bytes_of entry)) [0]) fnv_offset environment)
                  (be_bytes 8 (unat networkEnvironment))))"

definition newCacheKey :: "'s Client \<Rightarrow> DNSTransport \<Rightarrow> moment \<Rightarrow> question \<Rightarrow> Msg \<Rightarrow> DNSQueryOptions \<Rightarrow> dnsCacheKey" where
  "newCacheKey c transport mo question message options =
     \<lparr>k_Question = question, k_transportTag = tr_Tag transport,
      k_clientSubnet =
        (if o_RemoveClientSubnet options then zero_prefix
         else if prefix_IsValid (o_ClientSubnet options) then o_ClientSubnet options
         else if prefix_IsValid (c_clientSubnet c) then c_clientSubnet c
         else clientSubnetFromMessage message),
      k_environment = environmentHash c transport mo\<rparr>"

definition finishCacheKey :: "'s Client \<Rightarrow> DNSTransport \<Rightarrow> moment \<Rightarrow> dnsCacheKey \<Rightarrow> dnsCacheKey \<times> bool" where
  "finishCacheKey c transport mo key =
     (let environment = environmentHash c transport mo
      in if environment = k_environment key \<or> k_environment key = 0 then (key\<lparr>k_environment := environment\<rparr>, True)
         else (key, False))"

definition digit36 :: "nat \<Rightarrow> char" where
  "digit36 d = (if d < 10 then char_of (48 + d) else char_of (87 + d))"

fun FormatUint36 :: "nat \<Rightarrow> string" where
  "FormatUint36 n = (if n < 36 then [digit36 n] else FormatUint36 (n div 36) @ [digit36 (n mod 36)])"

declare FormatUint36.simps [simp del]

definition persistentName :: "'s client_lib \<Rightarrow> dnsCacheKey \<Rightarrow> string" where
  "persistentName L k = k_transportTag k
     @ (if prefix_IsValid (k_clientSubnet k) then CHR 0x00 # np_String L (k_clientSubnet k) else [])
     @ (if k_environment k \<noteq> 0 then CHR 0x01 # FormatUint36 (unat (k_environment k)) else [])"


section \<open>The cache\<close>

text \<open>\<open>int(d.Seconds())\<close>, not below zero.\<close>

definition now_ttl :: "int \<Rightarrow> int" where
  "now_ttl d = max (f64_trunc (Seconds d)) 0"

text \<open>A loaded response with its remaining time and whether it is stale.\<close>

type_synonym loaded = "(Msg \<times> int \<times> bool) option"

definition aged :: "'s Client \<Rightarrow> int \<Rightarrow> Msg \<Rightarrow> int \<Rightarrow> loaded" where
  "aged c timeNow response expireAt =
     (if expireAt < timeNow
      then (if 0 < c_optimisticTimeout c \<and> timeNow < expireAt + c_optimisticTimeout c
            then Some (normalizeTTL response 1, 0, True) else None)
      else (let nowTTL = now_ttl (expireAt - timeNow)
            in Some (normalizeTTL response (word_of_int nowTTL), nowTTL, False)))"

definition loadPersistentResponse :: "'s client_lib \<Rightarrow> moment \<Rightarrow> dnsCacheKey \<Rightarrow> 's Client \<Rightarrow> loaded" where
  "loadPersistentResponse L mo key c =
     (case ps_LoadDNSCache L (persistentName L key) (q_Name (k_Question key)) (q_Qtype (k_Question key)) (c_store c) of
        None \<Rightarrow> None
      | Some (rawMessage, expireAt) \<Rightarrow> (case md_Unpack L rawMessage of
          None \<Rightarrow> None
        | Some response \<Rightarrow>
            if c_disableExpire c then Some (response, 0, False) else aged c (mo_now mo) response expireAt))"

definition loadResponse :: "'s client_lib \<Rightarrow> moment \<Rightarrow> dnsCacheKey \<Rightarrow> 's Client \<Rightarrow> loaded \<times> 's Client" where
  "loadResponse L mo key c =
     (if c_dnsCache c then (loadPersistentResponse L mo key c, c)
      else if \<not> c_cache c then (None, c)
      else if c_disableExpire c then (case lr_Get L key (c_store c) of (r, s) \<Rightarrow>
        ((case r of None \<Rightarrow> None | Some response \<Rightarrow> Some (response, 0, False)), c\<lparr>c_store := s\<rparr>))
      else (case lr_GetWithLifetimeNoExpire L key (c_store c) of
          (None, s) \<Rightarrow> (None, c\<lparr>c_store := s\<rparr>)
        | (Some (response, expireAt), s) \<Rightarrow> (case aged c (mo_now mo) response expireAt of
            None \<Rightarrow> (None, c\<lparr>c_store := lr_Remove L key s\<rparr>)
          | Some x \<Rightarrow> (Some x, c\<lparr>c_store := s\<rparr>))))"

definition storeCache :: "'s client_lib \<Rightarrow> moment \<Rightarrow> dnsCacheKey \<Rightarrow> Msg \<Rightarrow> uint32 \<Rightarrow> 's Client \<Rightarrow> 's Client" where
  "storeCache L mo key message timeToLive c =
     (if timeToLive = 0 then c
      else if c_dnsCache c then (case md_Pack L message of
          None \<Rightarrow> c
        | Some packed \<Rightarrow> c\<lparr>c_store := ps_SaveDNSCacheAsync L (persistentName L key) (q_Name (k_Question key)) (q_Qtype (k_Question key))
            packed (mo_now mo + Second * uint timeToLive) (c_store c)\<rparr>)
      else if \<not> c_cache c then c
      else if c_disableExpire c then c\<lparr>c_store := lr_Add L key message (c_store c)\<rparr>
      else c\<lparr>c_store := lr_AddWithLifetime L (mo_now mo) key message (Second * uint timeToLive) (c_store c)\<rparr>)"

definition ClearCache :: "'s client_lib \<Rightarrow> 's Client \<Rightarrow> 's Client" where
  "ClearCache L c =
     (let c1 = (if c_cache c then c\<lparr>c_store := lr_Purge L (c_store c)\<rparr> else c)
      in if c_dnsCache c1 then c1\<lparr>c_store := ps_ClearDNSCache L (c_store c1)\<rparr> else c1)"


section \<open>Exchange\<close>

definition prepareExchangeMessage :: "'s Client \<Rightarrow> Msg \<Rightarrow> DNSQueryOptions \<Rightarrow> Msg" where
  "prepareExchangeMessage c message options =
     (if o_RemoveClientSubnet options then removeClientSubnet message
      else (let clientSubnet = (if prefix_IsValid (o_ClientSubnet options) then o_ClientSubnet options else c_clientSubnet c)
            in if prefix_IsValid clientSubnet then SetClientSubnet message clientSubnet else message))"

text \<open>\<open>isSimpleRequest\<close>; the type assertion on a record of type OPT may panic.\<close>

definition isSimpleRequest :: "Msg \<Rightarrow> (dns_error, bool) res" where
  "isSimpleRequest message =
     (if length (m_Question message) \<noteq> 1 \<or> m_Ns message \<noteq> [] then Ok False
      else (case m_Extra message of
          [] \<Rightarrow> Ok True
        | [r] \<Rightarrow> if hd_Rrtype r = TypeOPT \<and> 0 < hd_Class r \<and> hd_Ttl r = 0
            then (case rr_Data r of RD_OPT os \<Rightarrow> Ok (list_all (\<lambda>e. edns0_Option e = 8) os) | _ \<Rightarrow> Panic)
            else Ok False
        | _ \<Rightarrow> Ok False))"

record exchangeOperation =
  op_message :: Msg
  op_question :: question
  op_messageId :: uint16
  op_options :: DNSQueryOptions
  op_responseChecker :: checker
  op_disableCache :: bool
  op_cacheKey :: dnsCacheKey
  op_releaseCond :: "dnsExchangeKey option"

definition release :: "exchangeOperation \<Rightarrow> 's Client \<Rightarrow> 's Client" where
  "release op c = (case op_releaseCond op of None \<Rightarrow> c | Some k \<Rightarrow> c\<lparr>c_cacheLock := remove1 k (c_cacheLock c)\<rparr>)"

datatype begin_result =
    exchangeReady exchangeOperation
  | exchangeDone "Msg option" "dns_error option"
  | exchangeWait exchangeOperation
  | exchangePanic

text \<open>\<open>backgroundRefreshDNS\<close> starts a goroutine, a job here, unless one is under way for the key.\<close>

definition backgroundRefreshDNS :: "DNSTransport \<Rightarrow> dnsCacheKey \<Rightarrow> Msg \<Rightarrow> DNSQueryOptions \<Rightarrow> checker \<Rightarrow> 's Client \<Rightarrow> 's Client" where
  "backgroundRefreshDNS transport key message options chk c =
     (if key \<in> set (c_backgroundRefresh c) then c
      else c\<lparr>c_backgroundRefresh := key # c_backgroundRefresh c,
             c_jobs := c_jobs c @ [\<lparr>rj_transport = transport, rj_key = key, rj_message = message, rj_options = options, rj_responseChecker = chk\<rparr>]\<rparr>)"

definition accepts :: "checker \<Rightarrow> Msg \<Rightarrow> bool" where
  "accepts chk response = (case chk of None \<Rightarrow> True | Some f \<Rightarrow> f response)"

text \<open>One turn of the loop over the cache: an answer from it, or none.\<close>

definition try_cache :: "'s client_lib \<Rightarrow> DNSTransport \<Rightarrow> moment \<Rightarrow> exchangeOperation \<Rightarrow> 's Client \<Rightarrow> begin_result option \<times> 's Client" where
  "try_cache L transport mo op c = (case loadResponse L mo (op_cacheKey op) c of
     (Some (response, ttl, isStale), c1) \<Rightarrow>
       if \<not> isStale \<or> \<not> o_DisableOptimisticCache (op_options op)
       then (let c2 = release op c1;
                 c3 = (if isStale then backgroundRefreshDNS transport (op_cacheKey op) (op_message op) (op_options op) (op_responseChecker op) c2 else c2)
             in if \<not> accepts (op_responseChecker op) response then (Some (exchangeDone None (Some ErrResponseRejectedCached)), c3)
                else (Some (exchangeDone (Some (response\<lparr>m_Id := op_messageId op\<rparr>)) None), c3))
       else (None, c1)
   | (None, c1) \<Rightarrow> (None, c1))"

text \<open>What follows the loop: the query loop check and the responses known to be rejected.\<close>

definition begin_ready :: "'s client_lib \<Rightarrow> DNSTransport \<Rightarrow> moment \<Rightarrow> exchangeOperation \<Rightarrow> 's Client \<Rightarrow> begin_result \<times> 's Client" where
  "begin_ready L transport mo op c =
     (if mo_TransportTag mo = Some (tr_Tag transport) then (exchangeDone None (Some (QueryLoopback (tr_Tag transport))), release op c)
      else if \<not> op_disableCache op \<and> op_responseChecker op \<noteq> None \<and> c_rdrc c
              \<and> rd_LoadRDRC L (tr_Tag transport) (q_Name (op_question op)) (q_Qtype (op_question op)) (c_store c)
      then (exchangeDone None (Some ErrResponseRejectedCached), release op c)
      else (exchangeReady op, c))"

definition zero_key :: dnsCacheKey where
  "zero_key = \<lparr>k_Question = \<lparr>q_Name = [], q_Qtype = 0, q_Qclass = 0\<rparr>, k_transportTag = [], k_clientSubnet = zero_prefix, k_environment = 0\<rparr>"

definition strategy_rejects :: "uint16 \<Rightarrow> DomainStrategy \<Rightarrow> bool" where
  "strategy_rejects qtype strategy = (qtype = TypeA \<and> strategy = IPv6Only \<or> qtype = TypeAAAA \<and> strategy = IPv4Only)"

definition begin_first :: "'s client_lib \<Rightarrow> DNSTransport \<Rightarrow> moment \<Rightarrow> Msg \<Rightarrow> DNSQueryOptions \<Rightarrow> checker \<Rightarrow> 's Client \<Rightarrow> begin_result \<times> 's Client" where
  "begin_first L transport mo message0 options chk c =
     (case mo_Err mo of Some err \<Rightarrow> (exchangeDone None (Some err), c) | None \<Rightarrow>
      (case m_Question message0 of
        [] \<Rightarrow> (exchangeDone (Some (FixedResponseStatus message0 1)) None, c)
      | question # _ \<Rightarrow>
          if strategy_rejects (q_Qtype question) (o_Strategy options)
          then (exchangeDone (Some (FixedResponseStatus message0 0)) None, c)
          else (case isSimpleRequest message0 of
              Panic \<Rightarrow> (exchangePanic, c)
            | Err e \<Rightarrow> (exchangeDone None (Some e), c)
            | Ok simple \<Rightarrow>
                (let message = prepareExchangeMessage c message0 options;
                     disable = (\<not> simple \<or> c_disableCache c \<or> o_DisableCache options);
                     op0 = \<lparr>op_message = message, op_question = question, op_messageId = m_Id message, op_options = options,
                        op_responseChecker = chk, op_disableCache = disable, op_cacheKey = zero_key, op_releaseCond = None\<rparr>
                 in if disable then begin_ready L transport mo op0 c
                    else (let key = newCacheKey c transport mo question message options;
                              lock = (key, o_Timeout options);
                              loaded = (lock \<in> set (c_cacheLock c));
                              op1 = op0\<lparr>op_cacheKey := key, op_releaseCond := (if loaded then None else Some lock)\<rparr>;
                              c1 = (if loaded then c else c\<lparr>c_cacheLock := lock # c_cacheLock c\<rparr>)
                          in (case try_cache L transport mo op1 c1 of
                                (Some r, c2) \<Rightarrow> (r, c2)
                              | (None, c2) \<Rightarrow> if \<not> loaded then begin_ready L transport mo op1 c2 else (exchangeWait op1, c2)))))))"

definition begin_resume :: "'s client_lib \<Rightarrow> DNSTransport \<Rightarrow> moment \<Rightarrow> exchangeOperation \<Rightarrow> 's Client \<Rightarrow> begin_result \<times> 's Client" where
  "begin_resume L transport mo op c = (case mo_Err mo of
     Some err \<Rightarrow> (exchangeDone None (Some err), c)
   | None \<Rightarrow>
       (let op1 = op\<lparr>op_cacheKey := newCacheKey c transport mo (op_question op) (op_message op) (op_options op)\<rparr>
        in (case try_cache L transport mo op1 c of
              (Some r, c1) \<Rightarrow> (r, c1)
            | (None, c1) \<Rightarrow> begin_ready L transport mo op1 c1)))"

definition drop_hints :: "DomainStrategy \<Rightarrow> rr \<Rightarrow> rr" where
  "drop_hints strategy r = (case rr_Data r of
     RD_HTTPS vs \<Rightarrow> r\<lparr>rr_Data := RD_HTTPS (filter (\<lambda>v. case v of
        SVCBIPv4Hint _ \<Rightarrow> strategy = IPv4Only | SVCBIPv6Hint _ \<Rightarrow> strategy \<noteq> IPv4Only | SVCBOther _ \<Rightarrow> True) vs)\<rparr>
   | _ \<Rightarrow> r)"

definition applyResponseOptions :: "question \<Rightarrow> Msg \<Rightarrow> DNSQueryOptions \<Rightarrow> Msg \<times> uint32" where
  "applyResponseOptions question response options =
     (let r1 = (if q_Qtype question = TypeHTTPS \<and> o_Strategy options \<in> {IPv4Only, IPv6Only}
                then response\<lparr>m_Answer := map (drop_hints (o_Strategy options)) (m_Answer response)\<rparr> else response);
          timeToLive = (case o_RewriteTTL options of Some t \<Rightarrow> t | None \<Rightarrow> computeTimeToLive r1)
      in (normalizeTTL r1 timeToLive, timeToLive))"

definition ok_rcode :: "Msg \<Rightarrow> bool" where
  "ok_rcode response = (m_Rcode response = 0 \<or> m_Rcode response = 3)"

definition rejected :: "checker \<Rightarrow> Msg \<Rightarrow> bool" where
  "rejected chk response = (chk \<noteq> None \<and> (\<not> ok_rcode response \<or> \<not> accepts chk response))"

text \<open>The OPT record of the response for a client that does not speak EDNS, or an older version of it.\<close>

definition fit_edns :: "'s client_lib \<Rightarrow> Msg \<Rightarrow> Msg \<Rightarrow> Msg" where
  "fit_edns L request response = (case md_IsEdns0 L response of
     None \<Rightarrow> response
   | Some responseOpt \<Rightarrow>
       (let bare = response\<lparr>m_Extra := filter (\<lambda>r. hd_Rrtype r \<noteq> TypeOPT) (m_Extra response)\<rparr>
        in (case md_IsEdns0 L request of
              None \<Rightarrow> bare
            | Some requestOpt \<Rightarrow>
                if md_Version L requestOpt < md_Version L responseOpt then md_SetEdns0 L responseOpt bare else response)))"

definition finishExchange :: "'s client_lib \<Rightarrow> DNSTransport \<Rightarrow> moment \<Rightarrow> exchangeOperation \<Rightarrow> Msg \<Rightarrow> 's Client \<Rightarrow>
    (Msg option \<times> dns_error option) \<times> 's Client" where
  "finishExchange L transport mo op response c =
     (let disable = (op_disableCache op \<or> \<not> ok_rcode response)
      in if rejected (op_responseChecker op) response
         then ((Some response, Some ErrResponseRejected),
               if \<not> disable \<and> c_rdrc c
               then c\<lparr>c_store := rd_SaveRDRCAsync L (tr_Tag transport) (q_Name (op_question op)) (q_Qtype (op_question op)) (c_store c)\<rparr> else c)
         else (case applyResponseOptions (op_question op) response (op_options op) of (response1, timeToLive) \<Rightarrow>
           (let c1 = (if disable then c
                      else (case finishCacheKey c transport mo (op_cacheKey op) of (key, storable) \<Rightarrow>
                        if storable then storeCache L mo key response1 timeToLive c else c))
            in ((Some (fit_edns L (op_message op) (response1\<lparr>m_Id := op_messageId op\<rparr>)), None), c1))))"

text \<open>The answer of a server; an \<open>RcodeError\<close> becomes a response.\<close>

definition exchangeToTransport :: "Msg \<Rightarrow> dns_error + Msg \<Rightarrow> dns_error + Msg" where
  "exchangeToTransport message answer = (case answer of
     Inr response \<Rightarrow> Inr (stripDNSPadding response)
   | Inl (RcodeError rcode) \<Rightarrow> Inr (FixedResponseStatus message rcode)
   | Inl err \<Rightarrow> Inl err)"

text \<open>While an exchange waits for another one or for the server, the rest of the program runs: what it leaves is a parameter.\<close>

record 's world =
  w_wait :: "'s Client \<Rightarrow> moment \<times> 's Client"
  w_spawn :: "'s Client \<Rightarrow> moment \<times> 's Client"     \<comment> \<open>until a started goroutine runs\<close>
  w_Exchange :: "DNSTransport \<Rightarrow> Msg \<Rightarrow> 's Client \<Rightarrow> (dns_error + Msg) \<times> moment \<times> 's Client"

definition with_timeout :: "'s Client \<Rightarrow> DNSQueryOptions \<Rightarrow> DNSQueryOptions" where
  "with_timeout c options = (if o_Timeout options = 0 then options\<lparr>o_Timeout := c_timeout c\<rparr> else options)"

definition run_operation :: "'s client_lib \<Rightarrow> 's world \<Rightarrow> DNSTransport \<Rightarrow> exchangeOperation \<Rightarrow> 's Client \<Rightarrow>
    (Msg option \<times> dns_error option) \<times> 's Client" where
  "run_operation L w transport op c = (case w_Exchange w transport (op_message op) c of (answer, mo, c1) \<Rightarrow>
     (case exchangeToTransport (op_message op) answer of
        Inl err \<Rightarrow> ((None, Some err), release op c1)
      | Inr response \<Rightarrow> (case finishExchange L transport mo op response c1 of (r, c2) \<Rightarrow> (r, release op c2))))"

definition Exchange :: "'s client_lib \<Rightarrow> 's world \<Rightarrow> DNSTransport \<Rightarrow> moment \<Rightarrow> Msg \<Rightarrow> DNSQueryOptions \<Rightarrow> checker \<Rightarrow> 's Client \<Rightarrow>
    (dns_error, Msg option \<times> dns_error option) res \<times> 's Client" where
  "Exchange L w transport mo message options0 chk c =
     (let options = with_timeout c options0;
          resume = (\<lambda>(r, c1). case r of
              exchangeReady op \<Rightarrow> (case run_operation L w transport op c1 of (x, c2) \<Rightarrow> (Ok x, c2))
            | exchangeDone m e \<Rightarrow> (Ok (m, e), c1)
            | exchangeWait op \<Rightarrow> (Panic, c1)
            | exchangePanic \<Rightarrow> (Panic, c1))
      in (case begin_first L transport mo message options chk c of
            (exchangeWait op, c1) \<Rightarrow> (case w_wait w c1 of (mo1, c2) \<Rightarrow> resume (begin_resume L transport mo1 op c2))
          | r \<Rightarrow> resume r))"

text \<open>The arguments of the callback of \<open>ExchangeAsync\<close>; a query that would wait is exchanged anew in a goroutine.\<close>

definition ExchangeAsync :: "'s client_lib \<Rightarrow> 's world \<Rightarrow> DNSTransport \<Rightarrow> moment \<Rightarrow> Msg \<Rightarrow> DNSQueryOptions \<Rightarrow> checker \<Rightarrow> 's Client \<Rightarrow>
    (dns_error, Msg option \<times> dns_error option) res \<times> 's Client" where
  "ExchangeAsync L w transport mo message options0 chk c =
     (let options = with_timeout c options0
      in (case begin_first L transport mo message options chk c of
            (exchangeDone m e, c1) \<Rightarrow> (Ok (m, e), c1)
          | (exchangeWait op, c1) \<Rightarrow> (case w_spawn w c1 of (mo1, c2) \<Rightarrow> Exchange L w transport mo1 message options chk c2)
          | (exchangeReady op, c1) \<Rightarrow> (case run_operation L w transport op c1 of (x, c2) \<Rightarrow> (Ok x, c2))
          | (exchangePanic, c1) \<Rightarrow> (Panic, c1)))"

text \<open>The goroutine of \<open>backgroundRefreshDNS\<close>.\<close>

definition finish_refresh :: "'s client_lib \<Rightarrow> moment \<Rightarrow> refresh_job \<Rightarrow> dns_error + Msg \<Rightarrow> 's Client \<Rightarrow> 's Client" where
  "finish_refresh L mo job answer c =
     (let finished = (\<lambda>c. c\<lparr>c_backgroundRefresh := remove1 (rj_key job) (c_backgroundRefresh c)\<rparr>);
          question = k_Question (rj_key job); tag = tr_Tag (rj_transport job)
      in (case exchangeToTransport (rj_message job) answer of
            Inl _ \<Rightarrow> finished c
          | Inr response \<Rightarrow>
              if rejected (rj_responseChecker job) response
              then finished (if c_rdrc c then c\<lparr>c_store := rd_SaveRDRCAsync L tag (q_Name question) (q_Qtype question) (c_store c)\<rparr> else c)
              else if rj_responseChecker job = None \<and> \<not> ok_rcode response then finished c
              else (case finishCacheKey c (rj_transport job) mo (rj_key job) of (storeKey, storable) \<Rightarrow>
                if \<not> storable then finished c
                else (case applyResponseOptions question response (rj_options job) of (response1, timeToLive) \<Rightarrow>
                  finished (storeCache L mo storeKey response1 timeToLive c)))))"


section \<open>Lookups of addresses\<close>

definition lookup_message :: "string \<Rightarrow> uint16 \<Rightarrow> Msg" where
  "lookup_message name qType =
     \<lparr>m_Id = 0, m_Response = False, m_Authoritative = False, m_RecursionDesired = True, m_RecursionAvailable = False, m_Rcode = 0,
      m_Question = [\<lparr>q_Name = name, q_Qtype = qType, q_Qclass = ClassINET\<rparr>], m_Answer = [], m_Ns = [], m_Extra = []\<rparr>"

definition questionCache :: "'s client_lib \<Rightarrow> DNSTransport \<Rightarrow> moment \<Rightarrow> Msg \<Rightarrow> question \<Rightarrow> DNSQueryOptions \<Rightarrow> checker \<Rightarrow> 's Client \<Rightarrow>
    (dns_error + addr list) \<times> 's Client" where
  "questionCache L transport mo message question options chk c =
     (let key = newCacheKey c transport mo question message options
      in (case loadResponse L mo key c of
            (None, c1) \<Rightarrow> (Inl ErrNotCached, c1)
          | (Some (response, ttl, isStale), c1) \<Rightarrow>
              if isStale \<and> o_DisableOptimisticCache options then (Inl ErrNotCached, c1)
              else (let c2 = (if isStale then backgroundRefreshDNS transport key (prepareExchangeMessage c1 message options) options chk c1 else c1)
                    in if \<not> accepts chk response then (Inl ErrResponseRejectedCached, c2)
                       else if m_Rcode response \<noteq> 0 then (Inl (RcodeError (m_Rcode response)), c2)
                       else (Inr (MessageToAddresses (ad_env L) response), c2))))"

definition lookupToExchange :: "'s client_lib \<Rightarrow> 's world \<Rightarrow> DNSTransport \<Rightarrow> moment \<Rightarrow> string \<Rightarrow> uint16 \<Rightarrow> DNSQueryOptions \<Rightarrow> checker \<Rightarrow> 's Client \<Rightarrow>
    (dns_error, dns_error + addr list) res \<times> 's Client" where
  "lookupToExchange L w transport mo name qType options chk c =
     (let question = \<lparr>q_Name = name, q_Qtype = qType, q_Qclass = ClassINET\<rparr>;
          message = lookup_message name qType;
          ask = (\<lambda>c. case Exchange L w transport mo message options chk c of
              (Ok (m, Some err), c1) \<Rightarrow> (Ok (Inl err), c1)
            | (Ok (None, None), c1) \<Rightarrow> (Panic, c1)
            | (Ok (Some response, None), c1) \<Rightarrow>
                (Ok (if m_Rcode response \<noteq> 0 then Inl (RcodeError (m_Rcode response)) else Inr (MessageToAddresses (ad_env L) response)), c1)
            | (Err e, c1) \<Rightarrow> (Err e, c1)
            | (Panic, c1) \<Rightarrow> (Panic, c1))
      in if c_disableCache c \<or> o_DisableCache options then ask c
         else (case questionCache L transport mo message question options chk c of
             (Inl err, c1) \<Rightarrow> if err = ErrNotCached then ask c1 else (Ok (Inl err), c1)
           | (r, c1) \<Rightarrow> (Ok r, c1)))"

definition sortAddresses :: "addr list \<Rightarrow> addr list \<Rightarrow> DomainStrategy \<Rightarrow> addr list" where
  "sortAddresses response4 response6 strategy = (if strategy = PreferIPv6 then response6 @ response4 else response4 @ response6)"

text \<open>Both lookups run in a task group of the sing library, whose error is a parameter of the two results. The second starts
  here when the first has ended; what they do to the client while waiting is part of the world.\<close>

definition Lookup :: "'s client_lib \<Rightarrow> 's world \<Rightarrow> (dns_error option \<Rightarrow> dns_error option \<Rightarrow> dns_error option) \<Rightarrow> DNSTransport \<Rightarrow> moment \<Rightarrow>
    string \<Rightarrow> DNSQueryOptions \<Rightarrow> checker \<Rightarrow> 's Client \<Rightarrow> (dns_error, addr list \<times> dns_error option) res \<times> 's Client" where
  "Lookup L w group_error transport mo domain options chk c =
     (let dnsName = md_Fqdn L (FqdnToDomain (md_IsFqdn L) domain);
          strategy = (if o_LookupStrategy options \<noteq> AsIS then o_LookupStrategy options else o_Strategy options);
          lookupOptions = (if o_LookupStrategy options \<noteq> AsIS then options\<lparr>o_Strategy := strategy\<rparr> else options);
          single = (\<lambda>(r, c1). (res_bind r (\<lambda>x. Ok (case x of Inl err \<Rightarrow> ([], Some err) | Inr as \<Rightarrow> (as, None))), c1))
      in if strategy = IPv4Only then single (lookupToExchange L w transport mo dnsName TypeA lookupOptions chk c)
         else if strategy = IPv6Only then single (lookupToExchange L w transport mo dnsName TypeAAAA lookupOptions chk c)
         else (case single (lookupToExchange L w transport mo dnsName TypeA lookupOptions chk c) of (r4, c1) \<Rightarrow>
               (case single (lookupToExchange L w transport mo dnsName TypeAAAA lookupOptions chk c1) of (r6, c2) \<Rightarrow>
                 (res_bind r4 (\<lambda>(response4, err4). res_bind r6 (\<lambda>(response6, err6).
                    if response4 = [] \<and> response6 = [] then Ok ([], group_error err4 err6)
                    else Ok (sortAddresses response4 response6 strategy, None))), c2))))"


section \<open>What the stores promise\<close>

text \<open>The cache of the sing library holds messages, with or without a time of expiry. It may forget entries when it adds one,
  and the time of expiry is that of the added lifetime up to a resolution.\<close>

type_synonym contents = "dnsCacheKey \<Rightarrow> (Msg \<times> int option) option"

definition shrinks :: "contents \<Rightarrow> contents \<Rightarrow> bool" where
  "shrinks v v' = (\<forall>k. v' k = None \<or> v' k = v k)"

lemma shrinks_refl [simp, intro]: "shrinks v v"
  by (simp add: shrinks_def)

lemma shrinks_trans: "shrinks v v' \<Longrightarrow> shrinks v' v'' \<Longrightarrow> shrinks v v''"
  unfolding shrinks_def by metis

locale dns_store =
  fixes L :: "'s client_lib" and view :: "'s \<Rightarrow> contents" and resolution :: int
  assumes Get: "fst (lr_Get L k s) = Some m \<longleftrightarrow> view s k = Some (m, None)"
    and Get_view: "view (snd (lr_Get L k s)) = view s"
    and GetNX: "fst (lr_GetWithLifetimeNoExpire L k s) = Some (m, e) \<longleftrightarrow> view s k = Some (m, Some e)"
    and GetNX_view: "view (snd (lr_GetWithLifetimeNoExpire L k s)) = view s"
    and Add: "view (lr_Add L k m s) k = Some (m, None)" "k' \<noteq> k \<Longrightarrow> view (lr_Add L k m s) k' \<in> {None, view s k'}"
    and AddLife: "0 < d \<Longrightarrow> \<exists>e. view (lr_AddWithLifetime L now k m d s) k = Some (m, Some e) \<and> now + d - resolution \<le> e \<and> e \<le> now + d"
      "k' \<noteq> k \<Longrightarrow> view (lr_AddWithLifetime L now k m d s) k' \<in> {None, view s k'}"
    and Remove: "shrinks (view s) (view (lr_Remove L k s))"
    and Purge: "view (lr_Purge L s) k = None"
    and others: "view (ps_SaveDNSCacheAsync L n q t raw e s) = view s" "view (ps_ClearDNSCache L s) = view s" "view (rd_SaveRDRCAsync L n q t s) = view s"
begin

lemma loadResponse_effect:
  assumes "loadResponse L mo key c = (r, c')"
  shows "\<exists>s'. c' = c\<lparr>c_store := s'\<rparr> \<and> shrinks (view (c_store c)) (view s')"
proof -
  have g: "view s' = view s" if "lr_Get L k s = (x, s')" for k s x s' using Get_view [of k s] that by simp
  have x: "view s' = view s" if "lr_GetWithLifetimeNoExpire L k s = (x, s')" for k s x s' using GetNX_view [of k s] that by simp
  have rm: "shrinks (view (c_store c)) (view (lr_Remove L key s'))" if "view s' = view (c_store c)" for s' using Remove [of s' key] that by simp
  have id: "\<exists>s'. c = c\<lparr>c_store := s'\<rparr> \<and> shrinks (view (c_store c)) (view s')" by (intro exI [of _ "c_store c"]) simp
  show ?thesis
    using assms id rm by (auto simp: loadResponse_def dest!: g x split: if_splits prod.splits option.splits)
qed

end


section \<open>Effects of the steps\<close>

text \<open>No step changes the configuration of a client.\<close>

definition keeps :: "'s Client \<Rightarrow> 's Client \<Rightarrow> bool" where
  "keeps c c' = (c_timeout c' = c_timeout c \<and> c_disableCache c' = c_disableCache c \<and> c_disableExpire c' = c_disableExpire c \<and>
     c_optimisticTimeout c' = c_optimisticTimeout c \<and> c_clientSubnet c' = c_clientSubnet c \<and> c_networkManager c' = c_networkManager c \<and>
     c_rdrc c' = c_rdrc c \<and> c_dnsCache c' = c_dnsCache c \<and> c_cache c' = c_cache c)"

lemma keeps_refl [simp]: "keeps c c"
  by (simp add: keeps_def)

lemma keeps_upd [simp]:
  "keeps c (c\<lparr>c_store := s\<rparr>)" "keeps c (c\<lparr>c_cacheLock := l\<rparr>)" "keeps c (c\<lparr>c_backgroundRefresh := r, c_jobs := j\<rparr>)"
  "keeps c (c\<lparr>c_backgroundRefresh := r\<rparr>)" "keeps c (c\<lparr>c_jobs := j\<rparr>)"
  by (simp_all add: keeps_def)

lemma keeps_trans: "keeps c c' \<Longrightarrow> keeps c' c'' \<Longrightarrow> keeps c c''"
  by (simp add: keeps_def)

definition release_locks :: "exchangeOperation \<Rightarrow> dnsExchangeKey list \<Rightarrow> dnsExchangeKey list" where
  "release_locks op l = (case op_releaseCond op of None \<Rightarrow> l | Some k \<Rightarrow> remove1 k l)"

lemma release_effect [simp]:
  "c_cacheLock (release op c) = release_locks op (c_cacheLock c)" "c_store (release op c) = c_store c"
  "c_jobs (release op c) = c_jobs c" "c_backgroundRefresh (release op c) = c_backgroundRefresh c" "keeps c (release op c)"
  by (auto simp: release_def release_locks_def split: option.splits)

definition job_of :: "DNSTransport \<Rightarrow> exchangeOperation \<Rightarrow> refresh_job" where
  "job_of tr op = \<lparr>rj_transport = tr, rj_key = op_cacheKey op, rj_message = op_message op, rj_options = op_options op, rj_responseChecker = op_responseChecker op\<rparr>"

lemma backgroundRefreshDNS_effect:
  "keeps c (backgroundRefreshDNS tr key m os chk c)" "c_store (backgroundRefreshDNS tr key m os chk c) = c_store c"
  "c_cacheLock (backgroundRefreshDNS tr key m os chk c) = c_cacheLock c"
  "set (c_jobs (backgroundRefreshDNS tr key m os chk c)) \<subseteq> insert \<lparr>rj_transport = tr, rj_key = key, rj_message = m, rj_options = os, rj_responseChecker = chk\<rparr> (set (c_jobs c))"
  by (auto simp: backgroundRefreshDNS_def)

lemma begin_ready_effect:
  "begin_ready L tr mo op c = (r, c') \<Longrightarrow> r = exchangeReady op \<and> c' = c \<or> (\<exists>m e. r = exchangeDone m e) \<and> c' = release op c"
  by (auto simp: begin_ready_def split: if_splits)

text \<open>How a begun exchange ends: with the operation, which then holds its lock, or with an answer, the lock released.\<close>

definition settles :: "exchangeOperation \<Rightarrow> dnsExchangeKey list \<Rightarrow> begin_result \<Rightarrow> dnsExchangeKey list \<Rightarrow> bool" where
  "settles op l r l' = (r = exchangeReady op \<and> l' = l \<or> (\<exists>m e. r = exchangeDone m e) \<and> l' = release_locks op l)"

context dns_store
begin

lemma try_cache_effect:
  assumes "try_cache L tr mo op c = (r, c')"
  shows "keeps c c' \<and> shrinks (view (c_store c)) (view (c_store c')) \<and> set (c_jobs c') \<subseteq> insert (job_of tr op) (set (c_jobs c))
    \<and> (case r of None \<Rightarrow> c_cacheLock c' = c_cacheLock c | Some x \<Rightarrow> (\<exists>m e. x = exchangeDone m e) \<and> c_cacheLock c' = release_locks op (c_cacheLock c))"
proof (cases "loadResponse L mo (op_cacheKey op) c")
  case (Pair x c1)
  from loadResponse_effect [OF this] obtain s where c1: "c1 = c\<lparr>c_store := s\<rparr>" and s: "shrinks (view (c_store c)) (view s)" by blast
  define c2 where "c2 = release op c1"
  define b where "b = backgroundRefreshDNS tr (op_cacheKey op) (op_message op) (op_options op) (op_responseChecker op) c2"
  have k1: "keeps c c1" "c_store c1 = s" "c_cacheLock c1 = c_cacheLock c" "c_jobs c1 = c_jobs c" by (simp_all add: c1)
  have k2: "keeps c c2" "c_store c2 = s" "c_cacheLock c2 = release_locks op (c_cacheLock c)" "c_jobs c2 = c_jobs c"
    unfolding c2_def using k1 keeps_trans [OF _ release_effect(5)] by simp_all
  have b: "keeps c b" "c_store b = s" "c_cacheLock b = release_locks op (c_cacheLock c)" "set (c_jobs b) \<subseteq> insert (job_of tr op) (set (c_jobs c))"
    unfolding b_def using k2 keeps_trans [OF k2(1) backgroundRefreshDNS_effect(1)] backgroundRefreshDNS_effect(2-4) [of tr _ _ _ _ c2]
    by (simp_all add: job_of_def)
  have "r = None \<and> c' = c1 \<or> (\<exists>m e. r = Some (exchangeDone m e)) \<and> (c' = c2 \<or> c' = b)"
    using assms Pair by (auto simp: try_cache_def Let_def c2_def b_def split: option.splits if_splits)
  then show ?thesis using k1 k2 b s by auto
qed

lemma cached_or_ready_effect:
  assumes "(case try_cache L tr mo op c of (Some r, c2) \<Rightarrow> (r, c2) | (None, c2) \<Rightarrow> begin_ready L tr mo op c2) = (r, c')"
  shows "keeps c c'" "shrinks (view (c_store c)) (view (c_store c'))" "set (c_jobs c') \<subseteq> insert (job_of tr op) (set (c_jobs c))"
    "settles op (c_cacheLock c) r (c_cacheLock c')"
proof -
  obtain x c2 where t: "try_cache L tr mo op c = (x, c2)" by fastforce
  note e = try_cache_effect [OF t]
  have "keeps c c' \<and> shrinks (view (c_store c)) (view (c_store c')) \<and> set (c_jobs c') \<subseteq> insert (job_of tr op) (set (c_jobs c))
    \<and> settles op (c_cacheLock c) r (c_cacheLock c')"
  proof (cases x)
    case None
    then have "begin_ready L tr mo op c2 = (r, c')" using assms t by simp
    from begin_ready_effect [OF this] show ?thesis
      using e None keeps_trans [OF _ release_effect(5)] by (auto simp: settles_def)
  next
    case (Some y)
    then show ?thesis using e assms t by (auto simp: settles_def)
  qed
  then show "keeps c c'" "shrinks (view (c_store c)) (view (c_store c'))" "set (c_jobs c') \<subseteq> insert (job_of tr op) (set (c_jobs c))"
    "settles op (c_cacheLock c) r (c_cacheLock c')" by blast+
qed

end


text \<open>A cache key that belongs to a message: its question, its client subnet and the server.\<close>

definition key_matches :: "dnsCacheKey \<Rightarrow> DNSTransport \<Rightarrow> Msg \<Rightarrow> bool" where
  "key_matches key tr m = (k_transportTag key = tr_Tag tr \<and> (\<exists>rest. m_Question m = k_Question key # rest) \<and> k_clientSubnet key = clientSubnetFromMessage m)"

text \<open>Configured subnets are plain: no zone, and IPv4 not written as IPv6.\<close>

definition plain_subnet :: "prefix \<Rightarrow> bool" where
  "plain_subnet p = (addr_zone (pf_Addr p) = [] \<and> addr_Unmap (pf_Addr p) = pf_Addr p)"

lemma prepare_keeps [simp]:
  "m_Question (prepareExchangeMessage c m os) = m_Question m" "m_Id (prepareExchangeMessage c m os) = m_Id m"
  by (auto simp: prepareExchangeMessage_def Let_def)

lemma newCacheKey_matches:
  assumes "plain_subnet (c_clientSubnet c)" "plain_subnet (o_ClientSubnet os)" "m_Question m = q # rest"
    and "x = m \<or> x = prepareExchangeMessage c m os"
  shows "key_matches (newCacheKey c tr mo q x os) tr (prepareExchangeMessage c m os)"
proof -
  let ?p = "if prefix_IsValid (o_ClientSubnet os) then o_ClientSubnet os else c_clientSubnet c"
  have "plain_subnet ?p" using assms(1,2) by simp
  then have set: "prefix_IsValid ?p \<Longrightarrow> clientSubnetFromMessage (SetClientSubnet m ?p) = ?p" by (intro subnet_set_get) (simp_all only: plain_subnet_def)
  have "k_clientSubnet (newCacheKey c tr mo q x os) = clientSubnetFromMessage (prepareExchangeMessage c m os)"
  proof (cases "o_RemoveClientSubnet os")
    case True
    then show ?thesis by (simp add: newCacheKey_def prepareExchangeMessage_def subnet_removed)
  next
    case False
    show ?thesis
    proof (cases "prefix_IsValid ?p")
      case True
      then have "k_clientSubnet (newCacheKey c tr mo q x os) = ?p" using False by (auto simp: newCacheKey_def split: if_splits)
      then show ?thesis using set [OF True] True False by (simp only: prepareExchangeMessage_def Let_def if_True if_False)
    next
      case inv: False
      then have "prepareExchangeMessage c m os = m" using False by (simp only: prepareExchangeMessage_def Let_def if_False)
      then show ?thesis using inv False assms(4) by (auto simp: newCacheKey_def split: if_splits)
    qed
  qed
  moreover have "k_transportTag (newCacheKey c tr mo q x os) = tr_Tag tr" "k_Question (newCacheKey c tr mo q x os) = q" by (simp_all add: newCacheKey_def)
  ultimately show ?thesis unfolding key_matches_def using assms(3) by (simp only: prepare_keeps) blast
qed

definition well_op :: "'s Client \<Rightarrow> DNSTransport \<Rightarrow> exchangeOperation \<Rightarrow> bool" where
  "well_op c tr op = ((\<exists>m rest. m_Question m = op_question op # rest \<and> op_message op = prepareExchangeMessage c m (op_options op)) \<and>
     plain_subnet (o_ClientSubnet (op_options op)) \<and> (op_disableCache op \<or> key_matches (op_cacheKey op) tr (op_message op)) \<and>
     (\<not> op_disableCache op \<longrightarrow> k_Question (op_cacheKey op) = op_question op))"

definition well_job :: "refresh_job \<Rightarrow> bool" where
  "well_job j = key_matches (rj_key j) (rj_transport j) (rj_message j)"

definition op_locks :: "exchangeOperation \<Rightarrow> dnsExchangeKey list" where
  "op_locks op = (case op_releaseCond op of None \<Rightarrow> [] | Some k \<Rightarrow> [k])"

definition ready :: "DNSTransport \<Rightarrow> begin_result \<Rightarrow> (DNSTransport \<times> exchangeOperation) list" where
  "ready tr r = (case r of exchangeReady op \<Rightarrow> [(tr, op)] | _ \<Rightarrow> [])"

definition waiting :: "DNSTransport \<Rightarrow> begin_result \<Rightarrow> (DNSTransport \<times> exchangeOperation) list" where
  "waiting tr r = (case r of exchangeWait op \<Rightarrow> [(tr, op)] | _ \<Rightarrow> [])"

definition held :: "(DNSTransport \<times> exchangeOperation) list \<Rightarrow> dnsExchangeKey list" where
  "held ops = concat (map (op_locks \<circ> snd) ops)"

lemma held_simps [simp]: "held [] = []" "held ((tr, op) # ops) = op_locks op @ held ops" "held (a @ b) = held a @ held b"
  by (simp_all add: held_def)

lemma well_op_keeps: "keeps c c' \<Longrightarrow> well_op c tr op \<Longrightarrow> well_op c' tr op"
proof -
  assume "keeps c c'" "well_op c tr op"
  from this(1) have eq: "prepareExchangeMessage c' = prepareExchangeMessage c" by (simp add: fun_eq_iff keeps_def prepareExchangeMessage_def)
  show ?thesis using \<open>well_op c tr op\<close> unfolding well_op_def eq .
qed

lemma settles_locks:
  assumes "settles op (op_locks op @ l) r l'"
  shows "l' = held (ready tr r) @ l" "waiting tr r = []" "ready tr r = [] \<or> ready tr r = [(tr, op)]"
  using assms by (auto simp: settles_def ready_def waiting_def op_locks_def release_locks_def split: option.splits)

context dns_store
begin

lemma begin_first_effect:
  assumes "begin_first L tr mo m os chk c = (r, c')" "plain_subnet (c_clientSubnet c)" "plain_subnet (o_ClientSubnet os)"
  shows "keeps c c' \<and> shrinks (view (c_store c)) (view (c_store c')) \<and> (\<forall>j \<in> set (c_jobs c'). j \<in> set (c_jobs c) \<or> well_job j) \<and>
    c_cacheLock c' = held (ready tr r) @ c_cacheLock c \<and> (distinct (c_cacheLock c) \<longrightarrow> distinct (c_cacheLock c')) \<and>
    (\<forall>(t, op) \<in> set (ready tr r @ waiting tr r). t = tr \<and> well_op c tr op) \<and> (\<forall>(t, op) \<in> set (waiting tr r). op_releaseCond op = None \<and> \<not> op_disableCache op)"
    (is "?effect r c'")
proof -
  have stay: "?effect r c" if "ready tr r = []" "waiting tr r = []" for r using that by simp
  show ?thesis
  proof (cases "mo_Err mo")
    case (Some e)
    then show ?thesis using assms(1) stay by (auto simp: begin_first_def ready_def waiting_def)
  next
    case no: None
    show ?thesis
    proof (cases "m_Question m")
      case Nil
      then show ?thesis using assms(1) no stay by (auto simp: begin_first_def ready_def waiting_def)
    next
      case (Cons q rest)
      let ?m = "prepareExchangeMessage c m os" and ?k = "newCacheKey c tr mo q (prepareExchangeMessage c m os) os"
      let ?lock = "(?k, o_Timeout os)"
      define op where "op = (\<lambda>dis key rel. \<lparr>op_message = ?m, op_question = q, op_messageId = m_Id m, op_options = os,
        op_responseChecker = chk, op_disableCache = dis, op_cacheKey = key, op_releaseCond = rel\<rparr>)"
      have km: "key_matches ?k tr ?m" by (rule newCacheKey_matches [OF assms(2,3) Cons]) simp
      have w: "well_op c tr (op dis key rel)" if "dis \<or> key = ?k" for dis key rel
        using that km assms(3) Cons by (auto simp: well_op_def op_def newCacheKey_def)
      have wj: "well_job (job_of tr (op dis ?k rel))" for dis rel using km by (simp add: well_job_def job_of_def op_def)
      show ?thesis
      proof (cases "strategy_rejects (q_Qtype q) (o_Strategy os) \<or> (\<forall>b. isSimpleRequest m \<noteq> Ok b)")
        case True
        then show ?thesis using assms(1) no Cons stay by (auto simp: begin_first_def ready_def waiting_def split: if_splits res.splits)
      next
        case False
        then obtain simple where si: "isSimpleRequest m = Ok simple" by auto
        let ?dis = "\<not> simple \<or> c_disableCache c \<or> o_DisableCache os"
        show ?thesis
        proof (cases ?dis)
          case True
          then have "begin_ready L tr mo (op True zero_key None) c = (r, c')"
            using assms(1) no Cons si False by (auto simp: begin_first_def op_def Let_def split: if_splits)
          from begin_ready_effect [OF this] show ?thesis
            using w [of True] by (auto simp: ready_def waiting_def op_locks_def op_def release_def)
        next
          case en: False
          note red = assms(1) no Cons si False en
          show ?thesis
          proof (cases "?lock \<in> set (c_cacheLock c)")
            case True
            obtain x c2 where t: "try_cache L tr mo (op False ?k None) c = (x, c2)" by fastforce
            have "(case x of Some r' \<Rightarrow> r = r' \<and> c' = c2 | None \<Rightarrow> r = exchangeWait (op False ?k None) \<and> c' = c2)"
              using red True t by (auto simp: begin_first_def op_def Let_def split: option.splits)
            then show ?thesis
              using try_cache_effect [OF t] w [of False ?k None] wj [of False None]
              by (auto simp: ready_def waiting_def op_locks_def op_def release_locks_def split: option.splits)
          next
            case lock: False
            let ?op = "op False ?k (Some ?lock)" and ?c1 = "c\<lparr>c_cacheLock := ?lock # c_cacheLock c\<rparr>"
            have "(case try_cache L tr mo ?op ?c1 of (Some r, c2) \<Rightarrow> (r, c2) | (None, c2) \<Rightarrow> begin_ready L tr mo ?op c2) = (r, c')"
              using red lock by (auto simp: begin_first_def op_def Let_def split: option.splits prod.splits)
            note e = cached_or_ready_effect [OF this]
            have "settles ?op (op_locks ?op @ c_cacheLock c) r (c_cacheLock c')" using e(4) by (simp add: op_locks_def op_def)
            note l = settles_locks [OF this, of tr]
            have "keeps c c'" using keeps_trans [OF keeps_upd(2) e(1)] .
            then show ?thesis
              using e(2,3) l lock w [of False ?k "Some ?lock"] wj [of False "Some ?lock"] by (auto simp: op_locks_def op_def)
          qed
        qed
      qed
    qed
  qed
qed

lemma begin_resume_effect:
  assumes "begin_resume L tr mo op c = (r, c')" "plain_subnet (c_clientSubnet c)" "well_op c tr op" "op_releaseCond op = None" "\<not> op_disableCache op"
  shows "keeps c c' \<and> shrinks (view (c_store c)) (view (c_store c')) \<and> (\<forall>j \<in> set (c_jobs c'). j \<in> set (c_jobs c) \<or> well_job j) \<and>
    c_cacheLock c' = c_cacheLock c \<and> held (ready tr r) = [] \<and> (\<forall>(t, op) \<in> set (ready tr r). t = tr \<and> well_op c tr op)"
proof (cases "mo_Err mo")
  case (Some e)
  then show ?thesis using assms(1) by (auto simp: begin_resume_def ready_def)
next
  case None
  let ?k = "newCacheKey c tr mo (op_question op) (op_message op) (op_options op)"
  let ?op = "op\<lparr>op_cacheKey := ?k\<rparr>"
  from assms(3) obtain m rest where m: "m_Question m = op_question op # rest" "op_message op = prepareExchangeMessage c m (op_options op)"
    and p: "plain_subnet (o_ClientSubnet (op_options op))" by (auto simp: well_op_def)
  have km: "key_matches ?k tr (op_message op)" unfolding m(2) by (rule newCacheKey_matches [OF assms(2) p m(1)]) simp
  then have w: "well_op c tr ?op" and wj: "well_job (job_of tr ?op)"
    using m p by (auto simp: well_op_def well_job_def job_of_def newCacheKey_def)
  have "(case try_cache L tr mo ?op c of (Some r, c2) \<Rightarrow> (r, c2) | (None, c2) \<Rightarrow> begin_ready L tr mo ?op c2) = (r, c')"
    using assms(1) None by (simp add: begin_resume_def Let_def)
  note e = cached_or_ready_effect [OF this]
  have "settles ?op (op_locks ?op @ c_cacheLock c) r (c_cacheLock c')" using e(4) assms(4) by (simp add: op_locks_def)
  note l = settles_locks [OF this, of tr]
  then have "held (ready tr r) = []" using assms(4) by (auto simp: op_locks_def)
  then show ?thesis using e l w wj assms(4) by auto
qed

lemma questionCache_effect:
  assumes "questionCache L tr mo m q os chk c = (r, c')" "m_Question m = q # rest" "plain_subnet (c_clientSubnet c)" "plain_subnet (o_ClientSubnet os)"
  shows "keeps c c' \<and> shrinks (view (c_store c)) (view (c_store c')) \<and> (\<forall>j \<in> set (c_jobs c'). j \<in> set (c_jobs c) \<or> well_job j) \<and>
    c_cacheLock c' = c_cacheLock c"
proof -
  let ?k = "newCacheKey c tr mo q m os"
  obtain x c1 where l: "loadResponse L mo ?k c = (x, c1)" by fastforce
  from loadResponse_effect [OF l] obtain s where c1: "c1 = c\<lparr>c_store := s\<rparr>" and s: "shrinks (view (c_store c)) (view s)" by blast
  have pm: "prepareExchangeMessage c1 m os = prepareExchangeMessage c m os" by (simp add: prepareExchangeMessage_def c1)
  have km: "key_matches ?k tr (prepareExchangeMessage c m os)" by (rule newCacheKey_matches [OF assms(3,4,2)]) simp
  let ?b = "backgroundRefreshDNS tr ?k (prepareExchangeMessage c m os) os chk c1"
  have "c' = c1 \<or> c' = ?b"
    using assms(1) l by (auto simp: questionCache_def Let_def pm split: option.splits if_splits)
  moreover have "keeps c ?b" by (rule keeps_trans [OF _ backgroundRefreshDNS_effect(1)]) (simp add: c1)
  ultimately show ?thesis
    using km s backgroundRefreshDNS_effect(2-4) [of tr ?k "prepareExchangeMessage c m os" os chk c1] by (auto simp: c1 well_job_def)
qed

end


section \<open>Interleaved exchanges\<close>

text \<open>An answer of a server, as the exchange or the refresh that asked for it saw it.\<close>

record origin =
  og_transport :: DNSTransport
  og_message :: Msg
  og_time :: int
  og_environment :: uint64
  og_response :: Msg
  og_options :: DNSQueryOptions

definition origin_of :: "'s Client \<Rightarrow> DNSTransport \<Rightarrow> Msg \<Rightarrow> moment \<Rightarrow> Msg \<Rightarrow> DNSQueryOptions \<Rightarrow> origin" where
  "origin_of c tr m mo response os = \<lparr>og_transport = tr, og_message = m, og_time = mo_now mo, og_environment = environmentHash c tr mo,
     og_response = response, og_options = os\<rparr>"

text \<open>The runs of a client: any number of exchanges, lookups and refreshes in any interleaving of their steps. The run has the
  operations that wait for a server, those that wait for another query, and the answers so far.\<close>

type_synonym operations = "(DNSTransport \<times> exchangeOperation) list"

inductive client_run :: "'s client_lib \<Rightarrow> 's Client \<Rightarrow> 's Client \<Rightarrow> operations \<Rightarrow> operations \<Rightarrow> origin list \<Rightarrow> bool" for L c0 where
  start: "client_run L c0 c0 [] [] []"
| begins: "client_run L c0 c ops ws H \<Longrightarrow> plain_subnet (o_ClientSubnet os) \<Longrightarrow> begin_first L tr mo m os chk c = (r, c') \<Longrightarrow>
    client_run L c0 c' (ready tr r @ ops) (waiting tr r @ ws) H"
| resumes: "client_run L c0 c ops ws H \<Longrightarrow> (tr, op) \<in> set ws \<Longrightarrow> begin_resume L tr mo op c = (r, c') \<Longrightarrow>
    client_run L c0 c' (ready tr r @ ops) (remove1 (tr, op) ws) H"
| finishes: "client_run L c0 c ops ws H \<Longrightarrow> (tr, op) \<in> set ops \<Longrightarrow> exchangeToTransport (op_message op) answer = Inr response \<Longrightarrow>
    finishExchange L tr mo op response c = (r, c') \<Longrightarrow>
    client_run L c0 (release op c') (remove1 (tr, op) ops) ws (origin_of c tr (op_message op) mo response (op_options op) # H)"
| fails: "client_run L c0 c ops ws H \<Longrightarrow> (tr, op) \<in> set ops \<Longrightarrow> exchangeToTransport (op_message op) answer = Inl err \<Longrightarrow>
    client_run L c0 (release op c) (remove1 (tr, op) ops) ws H"
| refreshes: "client_run L c0 c ops ws H \<Longrightarrow> j \<in> set (c_jobs c) \<Longrightarrow> exchangeToTransport (rj_message j) answer = Inr response \<Longrightarrow>
    client_run L c0 (finish_refresh L mo j answer (c\<lparr>c_jobs := remove1 j (c_jobs c)\<rparr>)) ops ws
      (origin_of c (rj_transport j) (rj_message j) mo response (rj_options j) # H)"
| refresh_fails: "client_run L c0 c ops ws H \<Longrightarrow> j \<in> set (c_jobs c) \<Longrightarrow> exchangeToTransport (rj_message j) answer = Inl err \<Longrightarrow>
    client_run L c0 (finish_refresh L mo j answer (c\<lparr>c_jobs := remove1 j (c_jobs c)\<rparr>)) ops ws H"
| looks_up: "client_run L c0 c ops ws H \<Longrightarrow> plain_subnet (o_ClientSubnet os) \<Longrightarrow> m_Question m = q # rest \<Longrightarrow>
    questionCache L tr mo m q os chk c = (x, c') \<Longrightarrow> client_run L c0 c' ops ws H"
| clears: "client_run L c0 c ops ws H \<Longrightarrow> client_run L c0 (ClearCache L c) ops ws H"

text \<open>A cached message is what the options made of an answer of the server of its key, to a message with the question and the
  client subnet of the key, in the environment of the key; it expires with the time to live of the answer.\<close>

definition from_origin :: "origin list \<Rightarrow> dnsCacheKey \<Rightarrow> Msg \<Rightarrow> int option \<Rightarrow> bool" where
  "from_origin H k m e = (\<exists>g \<in> set H. key_matches k (og_transport g) (og_message g) \<and> k_environment k = og_environment g \<and>
     ok_rcode (og_response g) \<and> m = fst (applyResponseOptions (k_Question k) (og_response g) (og_options g)) \<and>
     (\<forall>x. e = Some x \<longrightarrow> x \<le> og_time g + Second * uint (snd (applyResponseOptions (k_Question k) (og_response g) (og_options g)))))"

lemma from_origin_Cons: "from_origin H k m e \<Longrightarrow> from_origin (g # H) k m e"
  unfolding from_origin_def by (metis list.set_intros(2))

lemma finishCacheKey_matches:
  assumes "key_matches key tr m" "finishCacheKey c tr mo key = (key', True)"
  shows "key_matches key' tr m" "k_environment key' = environmentHash c tr mo" "k_Question key' = k_Question key"
  using assms by (auto simp: finishCacheKey_def key_matches_def Let_def split: if_splits)

context dns_store
begin

lemma storeCache_effect:
  "keeps c (storeCache L mo key m ttl c)" "c_cacheLock (storeCache L mo key m ttl c) = c_cacheLock c" "c_jobs (storeCache L mo key m ttl c) = c_jobs c"
  by (auto simp: storeCache_def split: option.splits)

lemma storeCache_view:
  assumes "view (c_store (storeCache L mo key m ttl c)) k = Some (m', e)"
  shows "view (c_store c) k = Some (m', e) \<or> k = key \<and> m' = m \<and> (\<forall>x. e = Some x \<longrightarrow> x \<le> mo_now mo + Second * uint ttl)"
proof -
  let ?s = "c_store c" and ?d = "Second * uint ttl"
  have d: "0 < ?d" if "ttl \<noteq> 0" using that by (simp add: word_neq_0_conv [symmetric] uint_0_iff order_less_le)
  have add: "view ?s k = Some (m', e) \<or> k = key \<and> m' = m \<and> e = None" if "view (lr_Add L key m ?s) k = Some (m', e)"
    using that Add(1) [of key m ?s] Add(2) [of k key m ?s] by (cases "k = key") auto
  have life: "view ?s k = Some (m', e) \<or> k = key \<and> m' = m \<and> (\<forall>x. e = Some x \<longrightarrow> x \<le> mo_now mo + ?d)"
    if "ttl \<noteq> 0" "view (lr_AddWithLifetime L (mo_now mo) key m ?d ?s) k = Some (m', e)"
    using that(2) AddLife(1) [OF d [OF that(1)], of "mo_now mo" key m ?s] AddLife(2) [of k key "mo_now mo" m ?d ?s] by (cases "k = key") auto
  show ?thesis using assms add life by (auto simp: storeCache_def others split: if_splits option.splits)
qed

lemma finishExchange_effect:
  assumes "finishExchange L tr mo op response c = (r, c')" "well_op c tr op"
  shows "keeps c c' \<and> c_cacheLock c' = c_cacheLock c \<and> c_jobs c' = c_jobs c \<and>
    (\<forall>k m e. view (c_store c') k = Some (m, e) \<longrightarrow> view (c_store c) k = Some (m, e) \<or> from_origin [origin_of c tr (op_message op) mo response (op_options op)] k m e)"
proof (cases "rejected (op_responseChecker op) response \<or> op_disableCache op \<or> \<not> ok_rcode response \<or> \<not> snd (finishCacheKey c tr mo (op_cacheKey op))")
  case True
  then show ?thesis using assms(1) others(3)
    by (auto simp: finishExchange_def Let_def split: if_splits prod.splits)
next
  case False
  then obtain key where key: "finishCacheKey c tr mo (op_cacheKey op) = (key, True)" by (metis (full_types) prod.collapse)
  obtain response1 ttl where a: "applyResponseOptions (op_question op) response (op_options op) = (response1, ttl)" by fastforce
  have c': "c' = storeCache L mo key response1 ttl c" using assms(1) False key a by (auto simp: finishExchange_def Let_def)
  have km: "key_matches (op_cacheKey op) tr (op_message op)" "k_Question (op_cacheKey op) = op_question op" using assms(2) False by (auto simp: well_op_def)
  note mk = finishCacheKey_matches [OF km(1) key]
  have fr: "from_origin [origin_of c tr (op_message op) mo response (op_options op)] key response1 e"
    if "\<forall>x. e = Some x \<longrightarrow> x \<le> mo_now mo + Second * uint ttl" for e
    using that mk km(2) False a by (auto simp: from_origin_def origin_of_def)
  have "view (c_store c) k = Some (m, e) \<or> from_origin [origin_of c tr (op_message op) mo response (op_options op)] k m e"
    if "view (c_store c') k = Some (m, e)" for k m e
    using storeCache_view [OF that [unfolded c']] fr by auto
  then show ?thesis using storeCache_effect unfolding c' by simp
qed

lemma finish_refresh_effect:
  assumes "well_job j" and c': "c' = finish_refresh L mo j answer c"
  shows "keeps c c' \<and> c_cacheLock c' = c_cacheLock c \<and> c_jobs c' = c_jobs c \<and>
    (\<forall>k m e. view (c_store c') k = Some (m, e) \<longrightarrow> view (c_store c) k = Some (m, e) \<or>
      (\<exists>response. exchangeToTransport (rj_message j) answer = Inr response \<and>
        from_origin [origin_of c (rj_transport j) (rj_message j) mo response (rj_options j)] k m e))"
proof (cases "exchangeToTransport (rj_message j) answer")
  case (Inl err)
  then show ?thesis by (simp add: c' finish_refresh_def)
next
  case (Inr response)
  show ?thesis
  proof (cases "rejected (rj_responseChecker j) response \<or> \<not> ok_rcode response \<or> \<not> snd (finishCacheKey c (rj_transport j) mo (rj_key j))")
    case True
    then show ?thesis using Inr others(3)
      by (auto simp: c' finish_refresh_def rejected_def Let_def keeps_def split: if_splits prod.splits)
  next
    case False
    then obtain key where key: "finishCacheKey c (rj_transport j) mo (rj_key j) = (key, True)" by (metis (full_types) prod.collapse)
    obtain response1 ttl where a: "applyResponseOptions (k_Question (rj_key j)) response (rj_options j) = (response1, ttl)" by fastforce
    let ?c1 = "storeCache L mo key response1 ttl c"
    have c1: "c' = ?c1\<lparr>c_backgroundRefresh := remove1 (rj_key j) (c_backgroundRefresh ?c1)\<rparr>"
      using Inr False key a by (auto simp: c' finish_refresh_def Let_def)
    note mk = finishCacheKey_matches [OF assms(1) [unfolded well_job_def] key]
    have "from_origin [origin_of c (rj_transport j) (rj_message j) mo response (rj_options j)] key response1 e"
      if "\<forall>x. e = Some x \<longrightarrow> x \<le> mo_now mo + Second * uint ttl" for e
      using that mk False a by (auto simp: from_origin_def origin_of_def)
    moreover have "keeps c c'" unfolding c1 by (rule keeps_trans [OF storeCache_effect(1) keeps_upd(4)])
    ultimately show ?thesis
      using Inr storeCache_effect(2,3) [of mo key response1 ttl c] storeCache_view [of mo key response1 ttl c] by (simp add: c1) blast
  qed
qed

end


definition client_inv :: "('s \<Rightarrow> contents) \<Rightarrow> 's Client \<Rightarrow> operations \<Rightarrow> operations \<Rightarrow> origin list \<Rightarrow> bool" where
  "client_inv view c ops ws H = (plain_subnet (c_clientSubnet c) \<and>
     (\<forall>(tr, op) \<in> set ops. well_op c tr op) \<and>
     (\<forall>(tr, op) \<in> set ws. well_op c tr op \<and> op_releaseCond op = None \<and> \<not> op_disableCache op) \<and>
     (\<forall>j \<in> set (c_jobs c). well_job j) \<and>
     (\<forall>k m e. view (c_store c) k = Some (m, e) \<longrightarrow> from_origin H k m e) \<and>
     mset (held ops) = mset (c_cacheLock c) \<and> distinct (c_cacheLock c))"

lemma client_invI:
  assumes "client_inv view c ops ws H" "keeps c c'"
    and "\<And>t op. (t, op) \<in> set ops' \<Longrightarrow> (t, op) \<in> set ops \<or> well_op c t op"
    and "\<And>t op. (t, op) \<in> set ws' \<Longrightarrow> (t, op) \<in> set ws \<or> well_op c t op \<and> op_releaseCond op = None \<and> \<not> op_disableCache op"
    and "\<And>j. j \<in> set (c_jobs c') \<Longrightarrow> j \<in> set (c_jobs c) \<or> well_job j"
    and "\<And>k m e. view (c_store c') k = Some (m, e) \<Longrightarrow> view (c_store c) k = Some (m, e) \<and> H' = H \<or> from_origin H' k m e"
    and "mset (held ops') = mset (c_cacheLock c')" "distinct (c_cacheLock c')"
  shows "client_inv view c' ops' ws' H'"
proof -
  have "c_clientSubnet c' = c_clientSubnet c" using assms(2) by (simp add: keeps_def)
  moreover have "well_op c' t op" if "(t, op) \<in> set ops'" for t op
    using assms(1) assms(3) [OF that] well_op_keeps [OF assms(2)] by (auto simp: client_inv_def)
  moreover have "well_op c' t op \<and> op_releaseCond op = None \<and> \<not> op_disableCache op" if "(t, op) \<in> set ws'" for t op
    using assms(1) assms(4) [OF that] well_op_keeps [OF assms(2)] by (auto simp: client_inv_def)
  moreover have "well_job j" if "j \<in> set (c_jobs c')" for j using assms(1) assms(5) [OF that] by (auto simp: client_inv_def)
  moreover have "from_origin H' k m e" if "view (c_store c') k = Some (m, e)" for k m e using assms(1) assms(6) [OF that] by (auto simp: client_inv_def)
  ultimately show ?thesis using assms(1,7,8) unfolding client_inv_def by auto
qed

lemma mset_held_remove1: "x \<in> set ops \<Longrightarrow> mset (held (remove1 x ops)) + mset (op_locks (snd x)) = mset (held ops)"
  by (induction ops) (auto simp: held_def add.assoc add.commute add.left_commute)

lemma release_locks_mset: "mset (release_locks op l) = mset l - mset (op_locks op)"
  by (auto simp: release_locks_def op_locks_def split: option.splits)

lemma release_locks_distinct: "distinct l \<Longrightarrow> distinct (release_locks op l)"
  by (auto simp: release_locks_def split: option.splits)

context dns_store
begin

lemma shrinks_view: "shrinks (view s) (view s') \<Longrightarrow> view s' k = Some x \<Longrightarrow> view s k = Some x"
  unfolding shrinks_def by (metis option.distinct(1))

lemma begins_inv:
  assumes "client_inv view c ops ws H" "plain_subnet (o_ClientSubnet os)" "begin_first L tr mo m os chk c = (r, c')"
  shows "client_inv view c' (ready tr r @ ops) (waiting tr r @ ws) H"
proof (rule client_invI [OF assms(1)])
  have i: "plain_subnet (c_clientSubnet c)" "mset (held ops) = mset (c_cacheLock c)" "distinct (c_cacheLock c)" using assms(1) by (simp_all add: client_inv_def)
  note e = begin_first_effect [OF assms(3) i(1) assms(2)]
  show "keeps c c'" using e by blast
  show "mset (held (ready tr r @ ops)) = mset (c_cacheLock c')" "distinct (c_cacheLock c')" using e i by auto
  show "j \<in> set (c_jobs c) \<or> well_job j" if "j \<in> set (c_jobs c')" for j using e that by blast
  show "view (c_store c) k = Some (m, e) \<and> H = H \<or> from_origin H k m e" if "view (c_store c') k = Some (m, e)" for k m e
    using e that shrinks_view by blast
  show "(t, op) \<in> set ops \<or> well_op c t op" if "(t, op) \<in> set (ready tr r @ ops)" for t op using e that by auto
  show "(t, op) \<in> set ws \<or> well_op c t op \<and> op_releaseCond op = None \<and> \<not> op_disableCache op" if "(t, op) \<in> set (waiting tr r @ ws)" for t op
    using e that by auto
qed

lemma resumes_inv:
  assumes "client_inv view c ops ws H" "(tr, op) \<in> set ws" "begin_resume L tr mo op c = (r, c')"
  shows "client_inv view c' (ready tr r @ ops) (remove1 (tr, op) ws) H"
proof (rule client_invI [OF assms(1)])
  have i: "plain_subnet (c_clientSubnet c)" "mset (held ops) = mset (c_cacheLock c)" "distinct (c_cacheLock c)"
    "well_op c tr op" "op_releaseCond op = None" "\<not> op_disableCache op" using assms(1,2) by (auto simp: client_inv_def)
  note e = begin_resume_effect [OF assms(3) i(1,4,5,6)]
  show "keeps c c'" using e by blast
  show "mset (held (ready tr r @ ops)) = mset (c_cacheLock c')" "distinct (c_cacheLock c')" using e i by auto
  show "j \<in> set (c_jobs c) \<or> well_job j" if "j \<in> set (c_jobs c')" for j using e that by blast
  show "view (c_store c) k = Some (m, e) \<and> H = H \<or> from_origin H k m e" if "view (c_store c') k = Some (m, e)" for k m e
    using e that shrinks_view by blast
  show "(t, op) \<in> set ops \<or> well_op c t op" if "(t, op) \<in> set (ready tr r @ ops)" for t op using e that by auto
  show "(t, op') \<in> set ws \<or> well_op c t op' \<and> op_releaseCond op' = None \<and> \<not> op_disableCache op'" if "(t, op') \<in> set (remove1 (tr, op) ws)" for t op'
    using that set_remove1_subset by fast
qed

lemma released_inv:
  assumes "client_inv view c ops ws H" "(tr, op) \<in> set ops" "keeps c c'" "c_cacheLock c' = c_cacheLock c" "c_jobs c' = c_jobs c"
    and "\<And>k m e. view (c_store c') k = Some (m, e) \<Longrightarrow> view (c_store c) k = Some (m, e) \<and> H' = H \<or> from_origin H' k m e"
  shows "client_inv view (release op c') (remove1 (tr, op) ops) ws H'"
proof (rule client_invI [OF assms(1)])
  have i: "mset (held ops) = mset (c_cacheLock c)" "distinct (c_cacheLock c)" using assms(1) by (simp_all add: client_inv_def)
  show "keeps c (release op c')" using assms(3) release_effect(5) by (rule keeps_trans)
  show "mset (held (remove1 (tr, op) ops)) = mset (c_cacheLock (release op c'))"
    using mset_held_remove1 [OF assms(2)] i assms(4) by (simp add: release_locks_mset) (metis add_diff_cancel_right')
  show "distinct (c_cacheLock (release op c'))" using i assms(4) by (simp add: release_locks_distinct)
  show "(t, op') \<in> set ops \<or> well_op c t op'" if "(t, op') \<in> set (remove1 (tr, op) ops)" for t op' using that set_remove1_subset by fast
qed (use assms in auto)

lemma refreshed_inv:
  assumes "client_inv view c ops ws H" "j \<in> set (c_jobs c)"
    and "H' = (case exchangeToTransport (rj_message j) answer of Inl _ \<Rightarrow> H | Inr response \<Rightarrow> origin_of c (rj_transport j) (rj_message j) mo response (rj_options j) # H)"
  shows "client_inv view (finish_refresh L mo j answer (c\<lparr>c_jobs := remove1 j (c_jobs c)\<rparr>)) ops ws H'"
proof -
  let ?c1 = "c\<lparr>c_jobs := remove1 j (c_jobs c)\<rparr>"
  define c' where "c' = finish_refresh L mo j answer ?c1"
  have wj: "well_job j" using assms(1,2) by (simp add: client_inv_def)
  note e = finish_refresh_effect [OF wj c'_def]
  have og: "origin_of ?c1 tr m mo r os = origin_of c tr m mo r os" for tr m r os by (simp add: origin_of_def environmentHash_def)
  have v: "view (c_store c) k = Some (m, x) \<and> H' = H \<or> from_origin H' k m x" if "view (c_store c') k = Some (m, x)" for k m x
  proof -
    have o: "view (c_store c) k = Some (m, x) \<Longrightarrow> from_origin H k m x" using assms(1) by (simp add: client_inv_def)
    have sub: "from_origin [g] k m x \<Longrightarrow> from_origin (g # H) k m x" for g by (simp add: from_origin_def)
    from e that have "view (c_store c) k = Some (m, x) \<or> (\<exists>response. exchangeToTransport (rj_message j) answer = Inr response \<and>
        from_origin [origin_of c (rj_transport j) (rj_message j) mo response (rj_options j)] k m x)" unfolding og by simp
    then show ?thesis using assms(3) o sub from_origin_Cons by (cases "exchangeToTransport (rj_message j) answer") auto
  qed
  have "client_inv view c' ops ws H'"
    using assms(1) e v keeps_trans [OF keeps_upd(5)] by (intro client_invI [OF assms(1)]) (auto simp: client_inv_def dest: in_set_remove1)
  then show ?thesis by (simp add: c'_def)
qed

lemma unchanged_inv:
  assumes i: "client_inv view c ops ws H" and "keeps c c'" "c_cacheLock c' = c_cacheLock c"
    and "\<And>j. j \<in> set (c_jobs c') \<Longrightarrow> j \<in> set (c_jobs c) \<or> well_job j"
    and "\<And>k x. view (c_store c') k = Some x \<Longrightarrow> view (c_store c) k = Some x"
  shows "client_inv view c' ops ws H"
proof (rule client_invI [OF i assms(2)])
  show "mset (held ops) = mset (c_cacheLock c')" "distinct (c_cacheLock c')" using i assms(3) by (simp_all add: client_inv_def)
qed (use assms(4,5) in auto)

lemma client_run_inv:
  assumes "client_run L c0 c ops ws H" "client_inv view c0 [] [] []"
  shows "client_inv view c ops ws H"
  using assms
proof (induction rule: client_run.induct)
  case (begins c ops ws H os tr mo m chk r c')
  then show ?case by (intro begins_inv) auto
next
  case (resumes c ops ws H tr op mo r c')
  then show ?case by (intro resumes_inv) auto
next
  case (finishes c ops ws H tr op answer response mo r c')
  then have i: "client_inv view c ops ws H" by blast
  have w: "well_op c tr op" using i finishes.hyps(2) by (auto simp: client_inv_def)
  note e = finishExchange_effect [OF finishes.hyps(4) w]
  let ?g = "origin_of c tr (op_message op) mo response (op_options op)"
  have sub: "from_origin [?g] k m x \<Longrightarrow> from_origin (?g # H) k m x" for k m x by (simp add: from_origin_def)
  have "from_origin (?g # H) k m x" if "view (c_store c') k = Some (m, x)" for k m x
    using e that i sub from_origin_Cons unfolding client_inv_def by blast
  then show ?case using i finishes.hyps(2) e by (intro released_inv) auto
next
  case (fails c ops ws H tr op answer err)
  then show ?case by (intro released_inv) auto
next
  case (refreshes c ops ws H j answer response mo)
  then show ?case by (intro refreshed_inv) auto
next
  case (refresh_fails c ops ws H j answer err mo)
  then show ?case by (intro refreshed_inv) auto
next
  case (looks_up c ops ws H os m q rest tr mo chk x c')
  then have i: "client_inv view c ops ws H" by blast
  then have p: "plain_subnet (c_clientSubnet c)" by (simp add: client_inv_def)
  note e = questionCache_effect [OF looks_up.hyps(4,3) p looks_up.hyps(2)]
  show ?case
  proof (rule unchanged_inv [OF i])
    show "keeps c c'" "c_cacheLock c' = c_cacheLock c" using e by blast+
    show "j \<in> set (c_jobs c) \<or> well_job j" if "j \<in> set (c_jobs c')" for j using e that by blast
    show "view (c_store c) k = Some x" if "view (c_store c') k = Some x" for k x using e that shrinks_view by blast
  qed
next
  case (clears c ops ws H)
  then have i: "client_inv view c ops ws H" by blast
  have "view (c_store (ClearCache L c)) k = Some x \<Longrightarrow> view (c_store c) k = Some x" for k x
    using Purge [of "c_store c" k] others(2) by (auto simp: ClearCache_def Let_def split: if_splits)
  then show ?case by (rule unchanged_inv [OF i, rotated 3]) (auto simp: ClearCache_def Let_def keeps_def split: if_splits)
qed

end


section \<open>Properties of the client\<close>

lemma normalizeTTL_twice [simp]: "normalizeTTL (normalizeTTL m t) t' = normalizeTTL m t'"
  by (auto simp: normalizeTTL_def set_ttl_def)

lemma applyResponseOptions_normal: "applyResponseOptions q m os = (m', t) \<Longrightarrow> normalizeTTL m' t = m'"
  by (auto simp: applyResponseOptions_def Let_def)

lemma new_client_inv:
  assumes "\<forall>k. view s k = None" "plain_subnet subnet"
  shows "client_inv view (Start nm rd dc (NewClient t dis ex opt subnet ini s)) [] [] []"
  using assms by (auto simp: client_inv_def Start_def NewClient_def initializeMemoryCache_def Let_def split: option.splits)

text \<open>The time to live of a cached answer that has not expired.\<close>

lemma now_ttl_bounds:
  assumes "0 \<le> d" "d \<le> Second * int n" "n < 2 ^ 32"
  shows "int (nat (now_ttl d)) = now_ttl d" "now_ttl d \<le> int n" "d div Second \<le> now_ttl d" "now_ttl d * Second < d + Second"
    "uint (word_of_int (now_ttl d) :: uint32) = now_ttl d"
proof -
  have "int n < 2 ^ 52" using assms(3) by (simp add: order_less_trans)
  then have "d < 2 ^ 52 * 1000000000" using assms(2) by linarith
  note b = Seconds_bounds [OF assms(1) this]
  have "0 \<le> d div Second" using assms(1) by simp
  then have n: "now_ttl d = f64_trunc (Seconds d)" using b by (simp add: now_ttl_def)
  have "(d + 999999999) div Second \<le> (Second * int n + 999999999) div Second" using assms(2) by (intro zdiv_mono1) simp_all
  also have "\<dots> = int n" by simp
  finally show u: "now_ttl d \<le> int n" using b n by simp
  show l: "d div Second \<le> now_ttl d" using b n by simp
  have "(d + 999999999) div Second * Second \<le> d + 999999999" using pos_mod_sign [of Second "d + 999999999"] mult_div_mod_eq [of Second "d + 999999999"] by linarith
  then show "now_ttl d * Second < d + Second" using b n by linarith
  show "int (nat (now_ttl d)) = now_ttl d" using l \<open>0 \<le> d div Second\<close> by simp
  have "int n < 2 ^ 32" using assms(3) by simp
  then have "now_ttl d < 2 ^ 32" using u by linarith
  then show "uint (word_of_int (now_ttl d) :: uint32) = now_ttl d" using l \<open>0 \<le> d div Second\<close> by (simp add: uint_word_of_int)
qed

text \<open>
  C33. What the memory cache of a client without a disk cache serves: in every interleaving of exchanges, lookups and refreshes, a response loaded for a key is
  an answer that the key's server gave to the same question with the same client subnet, in the same network environment, with a return code
  that may be cached. Unless expiry is disabled, when an answer may have any age, a response that is not marked stale is served within the time to live of the answer, with
  a time that is not longer than what was left; one that is marked stale is served after it, less than the optimistic timeout after it ran out, with
  a time to live of one second. A cache on disk is not covered: its names leave out the class of the question (\<open>disk_ignores_class\<close>).
\<close>

theorem dns_cache_origin:
  assumes "dns_store L view resolution" "\<forall>k. view s k = None" "plain_subnet subnet"
    and run: "client_run L (Start nm rd dc (NewClient timeout dis ex opt subnet ini s)) c ops ws H"
    and load: "loadResponse L mo key c = (Some (response, ttl, isStale), c')" and mem: "\<not> c_dnsCache c"
  shows "\<exists>g \<in> set H. key_matches key (og_transport g) (og_message g) \<and> k_environment key = og_environment g \<and> ok_rcode (og_response g) \<and>
    (\<exists>answer life t. applyResponseOptions (k_Question key) (og_response g) (og_options g) = (answer, life) \<and> response = normalizeTTL answer t \<and>
      (\<not> c_disableExpire c \<longrightarrow>
        (if isStale then mo_now mo < og_time g + Second * uint life + c_optimisticTimeout c \<and> t = 1
         else mo_now mo \<le> og_time g + Second * uint life \<and>
           (og_time g \<le> mo_now mo \<longrightarrow> uint t \<le> uint life \<and> Second * uint t < og_time g + Second * uint life - mo_now mo + Second))))"
proof -
  have "client_inv view c ops ws H" 
    using dns_store.client_run_inv [OF assms(1) run] new_client_inv [where view = view and s = s, OF assms(2,3)] by blast
  then have fr: "view (c_store c) k = Some (m, e) \<Longrightarrow> from_origin H k m e" for k m e by (simp add: client_inv_def)
  show ?thesis
  proof (cases "c_disableExpire c")
    case True
    obtain s' where "lr_Get L key (c_store c) = (Some response, s')" using load mem True by (auto simp: loadResponse_def split: if_splits prod.splits option.splits)
    then have "view (c_store c) key = Some (response, None)" using dns_store.Get [OF assms(1), of key "c_store c" response] by simp
    from fr [OF this] show ?thesis using True applyResponseOptions_normal unfolding from_origin_def by (metis prod.collapse)
  next
    case False
    obtain m e s' where g: "lr_GetWithLifetimeNoExpire L key (c_store c) = (Some (m, e), s')" and a: "aged c (mo_now mo) m e = Some (response, ttl, isStale)"
      using load mem False by (auto simp: loadResponse_def split: if_splits prod.splits option.splits)
    then have "view (c_store c) key = Some (m, Some e)" using dns_store.GetNX [OF assms(1), of key "c_store c" m e] by simp
    from fr [OF this] obtain g answer life where o: "g \<in> set H" "key_matches key (og_transport g) (og_message g)" "k_environment key = og_environment g"
      "ok_rcode (og_response g)" "applyResponseOptions (k_Question key) (og_response g) (og_options g) = (answer, life)" "m = answer"
      "e \<le> og_time g + Second * uint life" unfolding from_origin_def by (metis prod.collapse)
    have st: "mo_now mo < og_time g + Second * uint life + c_optimisticTimeout c \<and> response = normalizeTTL answer 1" if isStale
      using a o(6,7) that by (auto simp: aged_def Let_def split: if_splits)
    have ns: "mo_now mo \<le> og_time g + Second * uint life \<and> response = normalizeTTL answer (word_of_int (now_ttl (e - mo_now mo))) \<and>
        (og_time g \<le> mo_now mo \<longrightarrow> uint (word_of_int (now_ttl (e - mo_now mo)) :: uint32) \<le> uint life \<and>
          Second * uint (word_of_int (now_ttl (e - mo_now mo)) :: uint32) < og_time g + Second * uint life - mo_now mo + Second)" if "\<not> isStale"
    proof -
      have e: "mo_now mo \<le> e" "response = normalizeTTL answer (word_of_int (now_ttl (e - mo_now mo)))"
        using a o(6) that by (auto simp: aged_def Let_def split: if_splits)
      have "uint t \<le> uint life \<and> Second * uint t < og_time g + Second * uint life - mo_now mo + Second"
        if "og_time g \<le> mo_now mo" "t = (word_of_int (now_ttl (e - mo_now mo)) :: uint32)" for t
      proof -
        have "e - mo_now mo \<le> Second * int (unat life)" "unat life < 2 ^ 32" using o(7) that(1) unsigned_less [of life, where 'a = nat] by simp_all
        note b = now_ttl_bounds [OF _ this]
        show ?thesis using b(2,4,5) e(1) o(7) that(2) by (simp add: mult.commute)
      qed
      then show ?thesis using e o(7) by simp
    qed
    show ?thesis using o st ns False by (cases isStale) auto
  qed
qed


lemma begin_first_waits:
  assumes "begin_first L tr mo m os chk c = (exchangeWait op, c')"
  shows "(op_cacheKey op, o_Timeout (op_options op)) \<in> set (c_cacheLock c)"
proof -
  have t: "try_cache L tr mo op' c1 \<noteq> (Some (exchangeWait op), c2)" for op' c1 c2 by (auto simp: try_cache_def Let_def split: option.splits if_splits prod.splits)
  have b: "begin_ready L tr mo op' c1 \<noteq> (exchangeWait op, c2)" for op' c1 c2 by (auto simp: begin_ready_def)
  show ?thesis using assms t b by (auto simp: begin_first_def Let_def split: option.splits list.splits if_splits res.splits prod.splits)
qed

text \<open>A query that starts to ask a server at once and may use the cache took the lock of its key, which nobody held; a query that waited asks
  without a lock.\<close>

lemma begin_ready_same: "begin_ready L tr mo op c = (exchangeReady op', c') \<Longrightarrow> op' = op"
  by (auto simp: begin_ready_def split: if_splits)

lemma try_cache_not_ready: "try_cache L tr mo op c \<noteq> (Some (exchangeReady op'), c')"
  by (auto simp: try_cache_def Let_def split: option.splits if_splits prod.splits)

lemma begin_first_asks:
  assumes "begin_first L tr mo m os chk c = (exchangeReady op, c')" "\<not> op_disableCache op"
  shows "(op_cacheKey op, o_Timeout (op_options op)) \<notin> set (c_cacheLock c) \<and> op_releaseCond op = Some (op_cacheKey op, o_Timeout (op_options op))"
  using assms by (auto simp: begin_first_def Let_def try_cache_not_ready dest!: begin_ready_same split: option.splits list.splits if_splits res.splits prod.splits)

lemma begin_resume_asks:
  assumes "begin_resume L tr mo op c = (exchangeReady op', c')"
  shows "op_releaseCond op' = op_releaseCond op"
  using assms by (auto simp: begin_resume_def Let_def try_cache_not_ready dest!: begin_ready_same split: option.splits prod.splits)

lemma held_iff: "k \<in> set (held ops) \<longleftrightarrow> (\<exists>(tr, op) \<in> set ops. op_releaseCond op = Some k)"
  by (induction ops) (auto simp: op_locks_def split: option.splits)

text \<open>
  C35. The locks on queries: in every interleaving the locks of a client are exactly those of the operations that wait for a server, each held by one operation, so
  none is left when nothing is in flight. A new query that may use the cache asks a server at once only when no operation in flight holds the lock of its key and timeout, which it then holds,
  and a query has to wait only when an operation in flight holds that lock. A query that has waited asks without a lock, so this does not mean that equal queries
  are never in flight together (\<open>woken_queries_ask_together\<close>).
\<close>

theorem dns_exchange_locks:
  assumes "dns_store L view resolution" "\<forall>k. view s k = None" "plain_subnet subnet"
    and run: "client_run L (Start nm rd dc (NewClient timeout dis ex opt subnet ini s)) c ops ws H"
  shows "distinct (held ops) \<and> mset (held ops) = mset (c_cacheLock c) \<and>
    (\<forall>tr mo m os chk op c'. begin_first L tr mo m os chk c = (exchangeReady op, c') \<longrightarrow> op_disableCache op \<or>
      op_releaseCond op = Some (op_cacheKey op, o_Timeout (op_options op)) \<and> (\<forall>(tr', op') \<in> set ops. op_releaseCond op' \<noteq> op_releaseCond op)) \<and>
    (\<forall>tr mo m os chk op c'. begin_first L tr mo m os chk c = (exchangeWait op, c') \<longrightarrow>
      (\<exists>(tr', op') \<in> set ops. op_releaseCond op' = Some (op_cacheKey op, o_Timeout (op_options op)))) \<and>
    (\<forall>(tr, op) \<in> set ws. \<forall>mo op' c'. begin_resume L tr mo op c = (exchangeReady op', c') \<longrightarrow> op_releaseCond op' = None)"
proof -
  have inv: "client_inv view c ops ws H"
    using dns_store.client_run_inv [OF assms(1) run] new_client_inv [where view = view and s = s, OF assms(2,3)] by blast
  then have l: "mset (held ops) = mset (c_cacheLock c)" "distinct (c_cacheLock c)" by (simp_all add: client_inv_def)
  have set: "set (c_cacheLock c) = set (held ops)" using l(1) by (metis set_mset_mset)
  have d: "distinct (held ops)" using l by (metis mset_eq_imp_distinct_iff)
  have asks: "op_disableCache op \<or> op_releaseCond op = Some (op_cacheKey op, o_Timeout (op_options op)) \<and> (\<forall>(tr', op') \<in> set ops. op_releaseCond op' \<noteq> op_releaseCond op)"
    if "begin_first L tr mo m os chk c = (exchangeReady op, c')" for tr mo m os chk op c'
    using begin_first_asks [OF that] set held_iff [of "(op_cacheKey op, o_Timeout (op_options op))" ops] by fastforce
  have waits: "\<exists>(tr', op') \<in> set ops. op_releaseCond op' = Some (op_cacheKey op, o_Timeout (op_options op))"
    if "begin_first L tr mo m os chk c = (exchangeWait op, c')" for tr mo m os chk op c'
    using begin_first_waits [OF that] set held_iff by simp
  have woken: "op_releaseCond op' = None" if "(tr, op) \<in> set ws" "begin_resume L tr mo op c = (exchangeReady op', c')" for tr op mo op' c'
    using begin_resume_asks [OF that(2)] inv that(1) by (auto simp: client_inv_def)
  show ?thesis using d l(1) asks waits woken by blast
qed

text \<open>The world leaves a client as some run could have left it, with the operations that were waiting still waiting.\<close>

definition world_runs :: "'s client_lib \<Rightarrow> 's Client \<Rightarrow> 's world \<Rightarrow> bool" where
  "world_runs L c0 w = (\<forall>c ops ws H. client_run L c0 c ops ws H \<longrightarrow>
     (\<exists>ops' ws' H'. client_run L c0 (snd (w_wait w c)) ops' ws' H' \<and> set ops \<subseteq> set ops' \<and> set ws \<subseteq> set ws') \<and>
     (\<forall>tr m. \<exists>ops' ws' H'. client_run L c0 (snd (snd (w_Exchange w tr m c))) ops' ws' H' \<and> set ops \<subseteq> set ops' \<and> set ws \<subseteq> set ws'))"

lemma run_operation_runs:
  assumes "world_runs L c0 w" "client_run L c0 c ops ws H" "(tr, op) \<in> set ops"
  shows "\<exists>ops' ws' H'. client_run L c0 (snd (run_operation L w tr op c)) ops' ws' H'"
proof -
  obtain answer mo c1 where w: "w_Exchange w tr (op_message op) c = (answer, mo, c1)" by (metis prod_cases3)
  from assms(1,2) have "\<exists>ops' ws' H'. client_run L c0 (snd (snd (w_Exchange w tr (op_message op) c))) ops' ws' H' \<and> set ops \<subseteq> set ops' \<and> set ws \<subseteq> set ws'"
    unfolding world_runs_def by blast
  then obtain ops1 ws1 H1 where r: "client_run L c0 c1 ops1 ws1 H1" "(tr, op) \<in> set ops1" using w assms(3) by auto
  show ?thesis
  proof (cases "exchangeToTransport (op_message op) answer")
    case (Inl err)
    then have "snd (run_operation L w tr op c) = release op c1" using w by (simp add: run_operation_def)
    then show ?thesis using client_run.fails [OF r Inl] by metis
  next
    case (Inr response)
    obtain y c2 where f: "finishExchange L tr mo op response c1 = (y, c2)" by fastforce
    then have "snd (run_operation L w tr op c) = release op c2" using w Inr by (simp add: run_operation_def)
    then show ?thesis using client_run.finishes [OF r Inr f] by metis
  qed
qed

text \<open>A whole \<open>Exchange\<close>, from its first step to its result, is a part of a run: what holds of runs holds of it.\<close>

lemma Exchange_runs:
  assumes "world_runs L c0 w" "client_run L c0 c ops ws H" "plain_subnet (o_ClientSubnet os)" "Exchange L w tr mo m os chk c = (x, c')"
  shows "\<exists>ops' ws' H'. client_run L c0 c' ops' ws' H'"
proof -
  let ?os = "with_timeout c os"
  have p: "plain_subnet (o_ClientSubnet ?os)" using assms(3) by (simp add: with_timeout_def)
  obtain r c1 where b: "begin_first L tr mo m ?os chk c = (r, c1)" by fastforce
  note r1 = client_run.begins [OF assms(2) p b]
  have ends: "\<exists>ops' ws' H'. client_run L c0 c'' ops' ws' H'"
    if "client_run L c0 c2 (ready tr r' @ ops2) ws2 H2" "(case r' of exchangeReady op \<Rightarrow> c'' = snd (run_operation L w tr op c2) | _ \<Rightarrow> c'' = c2)"
    for r' c2 ops2 ws2 H2 c''
    using that run_operation_runs [OF assms(1) that(1)] by (cases r') (auto simp: ready_def)
  show ?thesis
  proof (cases "\<exists>op. r = exchangeWait op")
    case True
    then obtain op where op: "r = exchangeWait op" ..
    obtain mo1 c2 where ww: "w_wait w c1 = (mo1, c2)" by fastforce
    have "\<exists>ops2 ws2 H2. client_run L c0 (snd (w_wait w c1)) ops2 ws2 H2 \<and> set (ready tr r @ ops) \<subseteq> set ops2 \<and> set (waiting tr r @ ws) \<subseteq> set ws2"
      using assms(1) r1 unfolding world_runs_def by blast
    then obtain ops2 ws2 H2 where r2: "client_run L c0 c2 ops2 ws2 H2" "(tr, op) \<in> set ws2" using ww op by (auto simp: waiting_def)
    obtain r3 c3 where r3: "begin_resume L tr mo1 op c2 = (r3, c3)" by fastforce
    show ?thesis
      using ends [OF client_run.resumes [OF r2 r3], of c'] assms(4) b op ww r3
      by (auto simp: Exchange_def Let_def split: begin_result.splits prod.splits)
  next
    case False
    then show ?thesis using ends [OF r1, of c'] assms(4) b
      by (auto simp: Exchange_def Let_def split: begin_result.splits prod.splits)
  qed
qed


text \<open>
  C34. An answer is reused: once an exchange has stored an answer in memory, an equal query during its time to live gets it
  from the cache at once, with its own identifier and the time that is left, and no server is asked.
\<close>

theorem dns_answer_reused:
  assumes store: "dns_store L view resolution" "0 \<le> resolution"
    and fin: "finishExchange L tr mo op response c = (x, c1)" "\<not> rejected (op_responseChecker op) response" "\<not> op_disableCache op" "ok_rcode response"
    and key: "finishCacheKey c tr mo (op_cacheKey op) = (key, True)"
    and ans: "applyResponseOptions (op_question op) response (op_options op) = (answer, life)" "life \<noteq> 0"
    and mem: "\<not> c_dnsCache c" "c_cache c" "\<not> c_disableExpire c" "\<not> c_disableCache c"
    and query: "mo_Err mo' = None" "m_Question m = q # rest" "\<not> strategy_rejects (q_Qtype q) (o_Strategy os)" "isSimpleRequest m = Ok True"
      "\<not> o_DisableCache os" "newCacheKey c1 tr' mo' q (prepareExchangeMessage c1 m os) os = key"
    and time: "mo_now mo \<le> mo_now mo'" "mo_now mo' \<le> mo_now mo + Second * uint life - resolution"
    and acc: "\<And>t. accepts chk (normalizeTTL answer t)"
  shows "\<exists>t c2. begin_first L tr' mo' m os chk c1 = (exchangeDone (Some ((normalizeTTL answer t)\<lparr>m_Id := m_Id m\<rparr>)) None, c2) \<and> uint t \<le> uint life \<and>
    mo_now mo + Second * uint life - resolution - mo_now mo' < Second * uint t + Second \<and> c_cacheLock c2 = c_cacheLock c1"
proof -
  have c1: "c1 = storeCache L mo key answer life c" using fin key ans by (auto simp: finishExchange_def Let_def)
  have d: "0 < Second * uint life" using ans(2) by (simp add: uint_0_iff order_less_le)
  from dns_store.AddLife(1) [OF store(1) d] obtain e where
    v: "view (lr_AddWithLifetime L (mo_now mo) key answer (Second * uint life) (c_store c)) key = Some (answer, Some e)"
    and e: "mo_now mo + Second * uint life - resolution \<le> e" "e \<le> mo_now mo + Second * uint life" by blast
  have st: "c1 = c\<lparr>c_store := lr_AddWithLifetime L (mo_now mo) key answer (Second * uint life) (c_store c)\<rparr>" using c1 mem ans(2) by (simp add: storeCache_def)
  define t where "t = (word_of_int (now_ttl (e - mo_now mo')) :: uint32)"
  have b: "0 \<le> e - mo_now mo'" "e - mo_now mo' \<le> Second * int (unat life)" "unat life < 2 ^ 32"
    using e time unsigned_less [of life, where 'a = nat] by simp_all
  note tb = now_ttl_bounds [OF this]
  have ag: "aged c'' (mo_now mo') answer e = Some (normalizeTTL answer t, now_ttl (e - mo_now mo'), False)" for c'' :: "'a Client"
    using e time by (simp add: aged_def Let_def t_def)
  have load: "\<exists>s'. loadResponse L mo' key c'' = (Some (normalizeTTL answer t, now_ttl (e - mo_now mo'), False), c''\<lparr>c_store := s'\<rparr>)"
    if "c_store c'' = c_store c1" "keeps c c''" for c''
  proof -
    have "fst (lr_GetWithLifetimeNoExpire L key (c_store c'')) = Some (answer, e)" using dns_store.GetNX [OF store(1)] v that(1) by (simp add: st)
    then obtain s' where "lr_GetWithLifetimeNoExpire L key (c_store c'') = (Some (answer, e), s')" by (metis fst_conv surj_pair)
    then show ?thesis using mem that(2) ag by (auto simp: loadResponse_def keeps_def)
  qed
  let ?lock = "(key, o_Timeout os)"
  define opr where "opr = (\<lambda>rel. \<lparr>op_message = prepareExchangeMessage c1 m os, op_question = q, op_messageId = m_Id m, op_options = os,
        op_responseChecker = chk, op_disableCache = False, op_cacheKey = key, op_releaseCond = rel\<rparr>)"
  have tc: "\<exists>c2. try_cache L tr' mo' (opr rel) c'' = (Some (exchangeDone (Some ((normalizeTTL answer t)\<lparr>m_Id := m_Id m\<rparr>)) None), c2) \<and>
      c_cacheLock c2 = release_locks (opr rel) (c_cacheLock c'')" if "c_store c'' = c_store c1" "keeps c c''" for c'' rel
    using load [OF that] acc by (auto simp: try_cache_def opr_def Let_def)
  have k1: "keeps c c1" "\<not> c_disableCache c1" using mem by (simp_all add: st)
  have k2: "keeps c (c1\<lparr>c_cacheLock := l\<rparr>)" for l by (rule keeps_trans [OF k1(1) keeps_upd(2)])
  have "\<exists>c2. begin_first L tr' mo' m os chk c1 = (exchangeDone (Some ((normalizeTTL answer t)\<lparr>m_Id := m_Id m\<rparr>)) None, c2) \<and> c_cacheLock c2 = c_cacheLock c1"
  proof (cases "?lock \<in> set (c_cacheLock c1)")
    case True
    with tc [of c1 None] k1(1) obtain c2 where "try_cache L tr' mo' (opr None) c1 = (Some (exchangeDone (Some ((normalizeTTL answer t)\<lparr>m_Id := m_Id m\<rparr>)) None), c2)"
      "c_cacheLock c2 = c_cacheLock c1" by (auto simp: opr_def release_locks_def)
    then show ?thesis using query True k1(2) by (simp add: begin_first_def opr_def Let_def)
  next
    case False
    with tc [of "c1\<lparr>c_cacheLock := ?lock # c_cacheLock c1\<rparr>" "Some ?lock"] k2 obtain c2 where
      "try_cache L tr' mo' (opr (Some ?lock)) (c1\<lparr>c_cacheLock := ?lock # c_cacheLock c1\<rparr>) = (Some (exchangeDone (Some ((normalizeTTL answer t)\<lparr>m_Id := m_Id m\<rparr>)) None), c2)"
      "c_cacheLock c2 = c_cacheLock c1" by (auto simp: opr_def release_locks_def)
    then show ?thesis using query False k1(2) by (simp add: begin_first_def opr_def Let_def)
  qed
  moreover have "uint t \<le> uint life" using tb(2,5) by (simp add: t_def)
  moreover have "mo_now mo + Second * uint life - resolution - mo_now mo' < Second * uint t + Second"
  proof -
    have "e - mo_now mo' < (e - mo_now mo') div Second * Second + Second"
      using mult_div_mod_eq [of Second "e - mo_now mo'"] pos_mod_bound [of Second "e - mo_now mo'"] by linarith
    then have "e - mo_now mo' < Second * uint t + Second" using tb(3,5) by (simp add: t_def)
    then show ?thesis using e by linarith
  qed
  ultimately show ?thesis by blast
qed


section \<open>Names on disk\<close>

definition digit36_value :: "char \<Rightarrow> nat" where
  "digit36_value ch = (if of_char ch < (97 :: nat) then of_char ch - 48 else of_char ch - 87)"

lemma digit36_value: "d < 36 \<Longrightarrow> digit36_value (digit36 d) = d"
  by (simp add: digit36_value_def digit36_def)

lemma FormatUint36_value: "foldl (\<lambda>a ch. a * 36 + digit36_value ch) 0 (FormatUint36 n) = n"
proof (induction n rule: FormatUint36.induct)
  case (1 n)
  then show ?case by (subst FormatUint36.simps) (auto simp: digit36_value)
qed

lemma FormatUint36_inj: "FormatUint36 n = FormatUint36 n' \<Longrightarrow> n = n'"
  by (metis FormatUint36_value)

lemma split_at:
  assumes "x \<notin> set a" "x \<notin> set a'" "a @ b = a' @ b'" "b = [] \<or> (\<exists>t. b = x # t)" "b' = [] \<or> (\<exists>t. b' = x # t)"
  shows "a = a' \<and> b = b'"
proof -
  have "takeWhile (\<lambda>c. c \<noteq> x) (u @ v) = u" "dropWhile (\<lambda>c. c \<noteq> x) (u @ v) = v" if "x \<notin> set u" "v = [] \<or> (\<exists>t. v = x # t)" for u v
    using that by (auto simp: takeWhile_append dropWhile_append takeWhile_eq_all_conv dropWhile_eq_Nil_conv split: if_splits)
  then show ?thesis using assms by metis
qed

text \<open>The name under which an answer is kept on disk tells its key apart: two keys with the same name have the same server and
  environment, and the same client subnet unless neither has a valid one. The hypotheses say what \<open>Prefix.String\<close> promises, that
  prefixes have no zone, and that server tags contain no zero or one byte.
\<close>

theorem persistentName_inj:
  assumes str: "\<And>p p'. prefix_IsValid p \<Longrightarrow> prefix_IsValid p' \<Longrightarrow> addr_zone (pf_Addr p) = [] \<Longrightarrow> addr_zone (pf_Addr p') = [] \<Longrightarrow> np_String L p = np_String L p' \<Longrightarrow> p = p'"
      "\<And>p. CHR 0x01 \<notin> set (np_String L p)"
    and zones: "addr_zone (pf_Addr (k_clientSubnet k)) = []" "addr_zone (pf_Addr (k_clientSubnet k')) = []"
    and tags: "{CHR 0x00, CHR 0x01} \<inter> set (k_transportTag k) = {}" "{CHR 0x00, CHR 0x01} \<inter> set (k_transportTag k') = {}"
    and eq: "persistentName L k = persistentName L k'"
  shows "k_transportTag k = k_transportTag k' \<and> k_environment k = k_environment k' \<and>
    (k_clientSubnet k = k_clientSubnet k' \<or> \<not> prefix_IsValid (k_clientSubnet k) \<and> \<not> prefix_IsValid (k_clientSubnet k'))"
proof -
  define net where "net = (\<lambda>k :: dnsCacheKey. if prefix_IsValid (k_clientSubnet k) then CHR 0x00 # np_String L (k_clientSubnet k) else [])"
  define env where "env = (\<lambda>k :: dnsCacheKey. if k_environment k \<noteq> 0 then CHR 0x01 # FormatUint36 (unat (k_environment k)) else [])"
  have n: "persistentName L x = (k_transportTag x @ net x) @ env x" for x by (simp add: persistentName_def net_def env_def)
  have "(k_transportTag k @ net k) @ env k = (k_transportTag k' @ net k') @ env k'" using eq unfolding n .
  then have 1: "k_transportTag k @ net k = k_transportTag k' @ net k' \<and> env k = env k'"
    using tags str(2) by (intro split_at [of "CHR 0x01"]) (auto simp: net_def env_def)
  then have 2: "k_transportTag k = k_transportTag k' \<and> net k = net k'"
    using tags by (intro split_at [of "CHR 0x00"]) (auto simp: net_def)
  have "k_environment k = k_environment k'" using 1 unfolding env_def by (auto split: if_splits dest!: FormatUint36_inj simp: word_unat_eq_iff)
  moreover have "k_clientSubnet k = k_clientSubnet k' \<or> \<not> prefix_IsValid (k_clientSubnet k) \<and> \<not> prefix_IsValid (k_clientSubnet k')"
    using 2 str(1) [OF _ _ zones] unfolding net_def by (auto split: if_splits)
  ultimately show ?thesis using 2 by blast
qed

text \<open>The class of the question is no part of the name: on disk a query of another class gets the answer of the class IN.\<close>

lemma disk_ignores_class:
  "loadPersistentResponse L mo (key\<lparr>k_Question := (k_Question key)\<lparr>q_Qclass := cl\<rparr>\<rparr>) c = loadPersistentResponse L mo key c"
  by (simp add: loadPersistentResponse_def persistentName_def)


section \<open>An instance\<close>

text \<open>A cache of 1024 entries that forgets the oldest, and stores on disk as lists.\<close>

record std_store =
  sd_cache :: "(dnsCacheKey \<times> Msg \<times> int option) list"
  sd_disk :: "((string \<times> string \<times> uint16) \<times> byte list \<times> int) list"
  sd_rdrc :: "(string \<times> string \<times> uint16) list"

definition std_add :: "dnsCacheKey \<Rightarrow> Msg \<Rightarrow> int option \<Rightarrow> std_store \<Rightarrow> std_store" where
  "std_add k m e s = s\<lparr>sd_cache := take 1024 ((k, m, e) # filter (\<lambda>(k', _). k' \<noteq> k) (sd_cache s))\<rparr>"

definition std_String :: "prefix \<Rightarrow> string" where
  "std_String p = (if addr_BitLen (pf_Addr p) = 32 then CHR ''4'' else CHR ''6'') # FormatUint36 (addr_bits (pf_Addr p) * 256 + nat (pf_Bits p))"

lemma FormatUint36_chars: "CHR 0x01 \<notin> set (FormatUint36 n)"
proof (induction n rule: FormatUint36.induct)
  case (1 n)
  have "CHR 0x01 \<noteq> digit36 d" if "d < 36" for d
  proof
    assume "CHR 0x01 = digit36 d"
    from arg_cong [OF this, of "of_char :: char \<Rightarrow> nat"] show False using that by (auto simp: digit36_def split: if_splits)
  qed
  from this [of n] this [of "n mod 36"] show ?case using 1 by (subst FormatUint36.simps) auto
qed

lemma std_String_laws:
  "prefix_IsValid p \<Longrightarrow> prefix_IsValid p' \<Longrightarrow> addr_zone (pf_Addr p) = [] \<Longrightarrow> addr_zone (pf_Addr p') = [] \<Longrightarrow> std_String p = std_String p' \<Longrightarrow> p = p'"
  "CHR 0x01 \<notin> set (std_String p)"
proof -
  show "CHR 0x01 \<notin> set (std_String p)" using FormatUint36_chars by (simp add: std_String_def)
  assume v: "prefix_IsValid p" "prefix_IsValid p'" and z: "addr_zone (pf_Addr p) = []" "addr_zone (pf_Addr p') = []" and eq: "std_String p = std_String p'"
  have b: "0 \<le> pf_Bits p" "pf_Bits p < 256" "0 \<le> pf_Bits p'" "pf_Bits p' < 256"
    using v by (auto simp: prefix_IsValid_def addr_BitLen_def split: addr.splits)
  have n: "addr_bits (pf_Addr p) * 256 + nat (pf_Bits p) = addr_bits (pf_Addr p') * 256 + nat (pf_Bits p')"
    using eq by (auto simp: std_String_def dest: FormatUint36_inj)
  have "(addr_bits (pf_Addr p) * 256 + nat (pf_Bits p)) div 256 = (addr_bits (pf_Addr p') * 256 + nat (pf_Bits p')) div 256"
    "(addr_bits (pf_Addr p) * 256 + nat (pf_Bits p)) mod 256 = (addr_bits (pf_Addr p') * 256 + nat (pf_Bits p')) mod 256" unfolding n by simp_all
  then have ab: "addr_bits (pf_Addr p) = addr_bits (pf_Addr p')" "pf_Bits p = pf_Bits p'" using b by (simp_all add: nat_less_iff)
  have "addr_BitLen (pf_Addr p) = 32 \<longleftrightarrow> addr_BitLen (pf_Addr p') = 32" using eq by (auto simp: std_String_def split: if_splits)
  then have "pf_Addr p = pf_Addr p'"
    using ab(1) v z by (cases "pf_Addr p"; cases "pf_Addr p'") (auto simp: addr_BitLen_def addr_bits_def addr_zone_def prefix_IsValid_def word_unat_eq_iff)
  then show "p = p'" using ab(2) by (cases p, cases p') simp
qed

definition std_client_lib :: "route_env \<Rightarrow> std_store client_lib" where
  "std_client_lib ev = \<lparr>
     lr_Get = (\<lambda>k s. (case map_of (sd_cache s) k of Some (m, None) \<Rightarrow> Some m | _ \<Rightarrow> None, s)),
     lr_GetWithLifetimeNoExpire = (\<lambda>k s. (case map_of (sd_cache s) k of Some (m, Some e) \<Rightarrow> Some (m, e) | _ \<Rightarrow> None, s)),
     lr_Add = (\<lambda>k m. std_add k m None),
     lr_AddWithLifetime = (\<lambda>now k m d. std_add k m (Some (now + d))),
     lr_Remove = (\<lambda>k s. s\<lparr>sd_cache := filter (\<lambda>(k', _). k' \<noteq> k) (sd_cache s)\<rparr>),
     lr_Purge = (\<lambda>s. s\<lparr>sd_cache := []\<rparr>),
     ps_LoadDNSCache = (\<lambda>n q t s. map_of (sd_disk s) (n, q, t)),
     ps_SaveDNSCacheAsync = (\<lambda>n q t raw e s. s\<lparr>sd_disk := ((n, q, t), raw, e) # sd_disk s\<rparr>),
     ps_ClearDNSCache = (\<lambda>s. s\<lparr>sd_disk := []\<rparr>),
     rd_LoadRDRC = (\<lambda>n q t s. (n, q, t) \<in> set (sd_rdrc s)),
     rd_SaveRDRCAsync = (\<lambda>n q t s. s\<lparr>sd_rdrc := (n, q, t) # sd_rdrc s\<rparr>),
     md_Pack = (\<lambda>m. None), md_Unpack = (\<lambda>bs. None),
     md_IsEdns0 = (\<lambda>m. List.find (\<lambda>r. hd_Rrtype r = TypeOPT) (rev (m_Extra m))),
     md_Version = (\<lambda>r. 0), md_SetEdns0 = (\<lambda>r m. m), md_Fqdn = (\<lambda>n. n), md_IsFqdn = (\<lambda>n. False),
     np_String = std_String, ad_env = ev\<rparr>"

definition std_view :: "std_store \<Rightarrow> contents" where
  "std_view s = map_of (sd_cache s)"

lemma map_of_take: "map_of (take n xs) k \<in> {None, map_of xs k}"
  by (induction xs arbitrary: n) (auto simp: take_Cons' split: if_splits)

lemma map_of_filter_key: "map_of (filter (\<lambda>(k', _). k' \<noteq> k) xs) j = (if j = k then None else map_of xs j)"
  by (induction xs) auto

lemma std_add_view: "std_view (std_add k m e s) k = Some (m, e)" "k' \<noteq> k \<Longrightarrow> std_view (std_add k m e s) k' \<in> {None, std_view s k'}"
proof -
  show "std_view (std_add k m e s) k = Some (m, e)" by (simp add: std_view_def std_add_def)
  assume "k' \<noteq> k"
  then show "std_view (std_add k m e s) k' \<in> {None, std_view s k'}"
    using map_of_take [of 1023 "filter (\<lambda>(k', _). k' \<noteq> k) (sd_cache s)" k'] by (simp add: std_view_def std_add_def map_of_filter_key)
qed

interpretation std_dns: dns_store "std_client_lib ev" std_view 0 for ev
proof unfold_locales
  fix k s m e
  show "(fst (lr_Get (std_client_lib ev) k s) = Some m) = (std_view s k = Some (m, None))"
    "(fst (lr_GetWithLifetimeNoExpire (std_client_lib ev) k s) = Some (m, e)) = (std_view s k = Some (m, Some e))"
    by (auto simp: std_client_lib_def std_view_def split: option.splits)
  show "std_view (lr_Add (std_client_lib ev) k m s) k = Some (m, None)" using std_add_view(1) by (simp add: std_client_lib_def)
next
  fix d now k m s assume "0 < (d :: int)"
  then show "\<exists>e. std_view (lr_AddWithLifetime (std_client_lib ev) now k m d s) k = Some (m, Some e) \<and> now + d - 0 \<le> e \<and> e \<le> now + d"
    using std_add_view(1) by (simp add: std_client_lib_def)
next
  fix k' k :: dnsCacheKey and m s now d assume "k' \<noteq> k"
  then show "std_view (lr_Add (std_client_lib ev) k m s) k' \<in> {None, std_view s k'}"
    "std_view (lr_AddWithLifetime (std_client_lib ev) now k m d s) k' \<in> {None, std_view s k'}"
    using std_add_view(2) [of k' k] by (simp_all add: std_client_lib_def)
next
  fix s k
  show "shrinks (std_view s) (std_view (lr_Remove (std_client_lib ev) k s))"
    by (auto simp: shrinks_def std_client_lib_def std_view_def map_of_filter_key)
qed (simp_all add: std_client_lib_def std_view_def)


definition example_dns_env :: route_env where
  "example_dns_env = \<lparr>re_unicode = \<lparr>uni_lower = id, uni_trim = id, uni_fold = (=)\<rparr>, re_IsIP = (\<lambda>s. sa_Addr s \<noteq> ZeroAddr),
     re_IsIPv6 = (\<lambda>s. addr_BitLen (sa_Addr s) = 128), re_IsPublicAddr = (\<lambda>_. True),
     re_AddrFromIP = (\<lambda>bs. case AddrFromSlice bs of None \<Rightarrow> ZeroAddr | Some a \<Rightarrow> a), re_IsDuplicate = (=),
     re_CanonicalName = id, re_clashMode = None, re_IsAndroid = False, re_defaultInterface = None,
     re_networkInterfaces = [], re_finderInterfaces = [], re_myInterfaces = [], re_monitorInterface = None,
     re_SSID = [], re_BSSID = []\<rparr>"

text \<open>A client with a cache in memory that asks for the address of \<open>a.\<close> and gets an answer that lives for 300 seconds.\<close>

definition example_client :: "std_store Client" where
  "example_client = Start False None None (NewClient 0 False False 0 zero_prefix False \<lparr>sd_cache = [], sd_disk = [], sd_rdrc = []\<rparr>)"

definition example_query_options :: DNSQueryOptions where
  "example_query_options = \<lparr>o_Strategy = AsIS, o_LookupStrategy = AsIS, o_DisableCache = False, o_DisableOptimisticCache = False, o_RewriteTTL = None,
     o_Timeout = DNSTimeout, o_ClientSubnet = zero_prefix, o_RemoveClientSubnet = False\<rparr>"

definition example_server :: DNSTransport where
  "example_server = \<lparr>tr_Tag = ''dns'', tr_Environment = None\<rparr>"

definition example_moment :: "int \<Rightarrow> moment" where
  "example_moment t = \<lparr>mo_now = t, mo_NetworkEnvironment = 0, mo_Err = None, mo_TransportTag = None\<rparr>"

definition example_question :: question where
  "example_question = \<lparr>q_Name = ''a.'', q_Qtype = TypeA, q_Qclass = ClassINET\<rparr>"

definition example_key :: dnsCacheKey where
  "example_key = \<lparr>k_Question = example_question, k_transportTag = ''dns'', k_clientSubnet = zero_prefix, k_environment = 0\<rparr>"

definition example_operation :: exchangeOperation where
  "example_operation = \<lparr>op_message = lookup_message ''a.'' TypeA, op_question = example_question, op_messageId = 0, op_options = example_query_options,
     op_responseChecker = None, op_disableCache = False, op_cacheKey = example_key, op_releaseCond = Some (example_key, DNSTimeout)\<rparr>"

definition example_answer :: Msg where
  "example_answer = FixedResponse 0 example_question [IPv4 0x01020304] 300"

lemmas example_defs = example_client_def example_query_options_def example_server_def example_moment_def example_key_def
  example_question_def example_operation_def Start_def NewClient_def initializeMemoryCache_def

lemma invalid_zero_prefix [simp]: "\<not> prefix_IsValid zero_prefix"
  by (simp add: prefix_IsValid_def zero_prefix_def)

lemma example_key_of_query: "newCacheKey c example_server mo example_question (lookup_message ''a.'' TypeA) example_query_options =
    example_key\<lparr>k_clientSubnet := if prefix_IsValid (c_clientSubnet c) then c_clientSubnet c else zero_prefix\<rparr>"
  by (simp add: newCacheKey_def example_defs lookup_message_def environmentHash_def prefix_IsValid_def zero_prefix_def clientSubnetFromMessage_def)

lemma example_prepare: "\<not> prefix_IsValid (c_clientSubnet c) \<Longrightarrow> prepareExchangeMessage c m example_query_options = m"
  by (simp add: prepareExchangeMessage_def example_query_options_def Let_def)

lemma example_client_fields: "c_disableCache example_client = False" "c_dnsCache example_client = False" "c_cache example_client = True"
  "c_disableExpire example_client = False" "c_cacheLock example_client = []" "c_rdrc example_client = False" "c_clientSubnet example_client = zero_prefix"
  "sd_cache (c_store example_client) = []"
  by (simp_all add: example_client_def Start_def NewClient_def initializeMemoryCache_def)

lemma example_begin:
  "begin_first (std_client_lib ev) example_server (example_moment 0) (lookup_message ''a.'' TypeA) example_query_options None example_client =
     (exchangeReady example_operation, example_client\<lparr>c_cacheLock := [(example_key, DNSTimeout)]\<rparr>)"
proof -
  let ?c = "example_client\<lparr>c_cacheLock := [(example_key, DNSTimeout)]\<rparr>"
  have q: "m_Question (lookup_message ''a.'' TypeA) = [example_question]" "isSimpleRequest (lookup_message ''a.'' TypeA) = Ok True" "m_Id (lookup_message ''a.'' TypeA) = 0"
    by (simp_all add: lookup_message_def example_question_def isSimpleRequest_def)
  have k: "newCacheKey example_client example_server (example_moment 0) example_question (lookup_message ''a.'' TypeA) example_query_options = example_key"
    by (simp add: example_key_of_query example_client_fields) (simp add: example_key_def)
  have l: "loadResponse (std_client_lib ev) (example_moment 0) example_key ?c = (None, ?c)"
    by (simp add: loadResponse_def example_client_fields std_client_lib_def)
  have t: "try_cache (std_client_lib ev) example_server (example_moment 0) example_operation ?c = (None, ?c)"
    using l by (simp add: try_cache_def example_operation_def)
  have b: "begin_ready (std_client_lib ev) example_server (example_moment 0) example_operation ?c = (exchangeReady example_operation, ?c)"
    by (simp add: begin_ready_def example_moment_def example_operation_def)
  have p: "prepareExchangeMessage example_client (lookup_message ''a.'' TypeA) example_query_options = lookup_message ''a.'' TypeA"
    by (rule example_prepare) (simp add: example_client_fields)
  have o: "o_Timeout example_query_options = DNSTimeout" "\<not> o_DisableCache example_query_options" "o_Strategy example_query_options = AsIS" "mo_Err (example_moment 0) = None"
    by (simp_all add: example_query_options_def example_moment_def)
  show ?thesis
    using t b by (simp add: begin_first_def q k p o strategy_rejects_def example_client_fields example_operation_def Let_def)
qed

lemma example_apply: "applyResponseOptions example_question example_answer example_query_options = (example_answer, 300)"
  by (simp add: applyResponseOptions_def example_answer_def FixedResponse_def fixed_def address_record_def computeTimeToLive_def sections_def
      normalizeTTL_def set_ttl_def example_query_options_def example_question_def dns_types)

definition example_cached :: "std_store Client" where
  "example_cached = example_client\<lparr>c_cacheLock := [(example_key, DNSTimeout)],
     c_store := std_add example_key example_answer (Some (Second * 300)) (c_store example_client)\<rparr>"

lemma example_finish_key: "finishCacheKey c example_server mo example_key = (example_key, True)"
  by (simp add: finishCacheKey_def environmentHash_def example_server_def example_key_def)

lemma example_finish:
  "\<exists>x. finishExchange (std_client_lib ev) example_server (example_moment 0) example_operation example_answer
     (example_client\<lparr>c_cacheLock := [(example_key, DNSTimeout)]\<rparr>) = (x, example_cached)"
proof -
  have ok: "ok_rcode example_answer" "\<not> rejected None example_answer" by (simp_all add: ok_rcode_def rejected_def example_answer_def FixedResponse_def fixed_def)
  have o: "op_responseChecker example_operation = None" "op_question example_operation = example_question" "op_options example_operation = example_query_options"
    "op_disableCache example_operation = False" "op_cacheKey example_operation = example_key" by (simp_all add: example_operation_def)
  show ?thesis
    by (simp add: finishExchange_def o ok example_apply example_finish_key storeCache_def example_client_fields example_cached_def std_client_lib_def example_moment_def)
qed

lemma example_run:
  "\<exists>H. client_run (std_client_lib ev) example_client (release example_operation example_cached) [] [] H"
proof -
  have s1: "client_run (std_client_lib ev) example_client (example_client\<lparr>c_cacheLock := [(example_key, DNSTimeout)]\<rparr>) [(example_server, example_operation)] [] []"
    using client_run.begins [OF client_run.start _ example_begin]
    by (simp add: ready_def waiting_def plain_subnet_def example_query_options_def zero_prefix_def addr_zone_def addr_Unmap_def)
  have "exchangeToTransport (op_message example_operation) (Inr example_answer) = Inr example_answer"
    by (simp add: exchangeToTransport_def stripDNSPadding_def example_answer_def FixedResponse_def fixed_def)
  from client_run.finishes [OF s1 _ this] example_finish show ?thesis by fastforce
qed

lemma example_load:
  "\<exists>x c'. loadResponse (std_client_lib ev) (example_moment Second) example_key (release example_operation example_cached) = (Some x, c')"
proof -
  have "c_store (release example_operation example_cached) = std_add example_key example_answer (Some (Second * 300)) (c_store example_client)"
    "\<not> c_dnsCache (release example_operation example_cached)" "c_cache (release example_operation example_cached)" "\<not> c_disableExpire (release example_operation example_cached)"
    by (simp_all add: release_def example_operation_def example_cached_def example_client_fields)
  then show ?thesis
    by (simp add: loadResponse_def std_client_lib_def std_add_def aged_def Let_def example_moment_def) (rule exI [of _ False], simp)
qed

text \<open>Witness of C33: the answer is in the cache a second later.\<close>

theorem dns_cache_origin_witness:
  "\<exists>H g x c'. g \<in> set H \<and> client_run (std_client_lib example_dns_env) example_client (release example_operation example_cached) [] [] H \<and>
    loadResponse (std_client_lib example_dns_env) (example_moment Second) example_key (release example_operation example_cached) = (Some x, c') \<and>
    key_matches example_key (og_transport g) (og_message g)"
proof -
  obtain H where r: "client_run (std_client_lib example_dns_env) example_client (release example_operation example_cached) [] [] H" using example_run by blast
  obtain x c' where l: "loadResponse (std_client_lib example_dns_env) (example_moment Second) example_key (release example_operation example_cached) = (Some x, c')"
    using example_load by blast
  obtain response ttl isStale where x: "x = (response, ttl, isStale)" by (metis prod_cases3)
  have "\<forall>k. std_view \<lparr>sd_cache = [], sd_disk = [], sd_rdrc = []\<rparr> k = None" "plain_subnet zero_prefix"
    "\<not> c_dnsCache (release example_operation example_cached)"
    by (simp_all add: std_view_def plain_subnet_def zero_prefix_def addr_zone_def addr_Unmap_def release_def example_operation_def example_cached_def example_client_fields)
  from dns_cache_origin [OF std_dns.dns_store_axioms this(1,2) r [unfolded example_client_def] l [unfolded x] this(3)]
  show ?thesis using r l by blast
qed

text \<open>While a query is in flight an equal one waits. When the first fails, those that waited ask together, each without a lock.\<close>

definition example_asked :: "std_store Client" where
  "example_asked = example_client\<lparr>c_cacheLock := [(example_key, DNSTimeout)]\<rparr>"

definition example_waiter :: exchangeOperation where
  "example_waiter = example_operation\<lparr>op_releaseCond := None\<rparr>"

lemma example_loads_nothing: "sd_cache (c_store c) = [] \<Longrightarrow> \<not> c_dnsCache c \<Longrightarrow> loadResponse (std_client_lib ev) mo key c = (None, c)"
  by (auto simp: loadResponse_def std_client_lib_def)

lemma example_fields: "op_cacheKey example_waiter = example_key" "op_question example_waiter = example_question" "op_options example_waiter = example_query_options"
  "op_message example_waiter = lookup_message ''a.'' TypeA" "op_disableCache example_waiter = False" "op_responseChecker example_waiter = None"
  "mo_Err (example_moment t) = None" "mo_TransportTag (example_moment t) = None"
  by (simp_all add: example_waiter_def example_operation_def example_moment_def)

lemma example_key_again: "c_clientSubnet c = zero_prefix \<Longrightarrow>
    newCacheKey c example_server mo example_question (lookup_message ''a.'' TypeA) example_query_options = example_key"
  by (simp add: example_key_of_query) (simp add: example_key_def)

lemma example_waits:
  "begin_first (std_client_lib ev) example_server (example_moment 0) (lookup_message ''a.'' TypeA) example_query_options None example_asked =
     (exchangeWait example_waiter, example_asked)"
proof -
  have q: "m_Question (lookup_message ''a.'' TypeA) = [example_question]" "isSimpleRequest (lookup_message ''a.'' TypeA) = Ok True" "m_Id (lookup_message ''a.'' TypeA) = 0"
    by (simp_all add: lookup_message_def example_question_def isSimpleRequest_def)
  have f: "c_disableCache example_asked = False" "c_cacheLock example_asked = [(example_key, DNSTimeout)]" "c_clientSubnet example_asked = zero_prefix"
    by (simp_all add: example_asked_def example_client_fields)
  have p: "prepareExchangeMessage example_asked (lookup_message ''a.'' TypeA) example_query_options = lookup_message ''a.'' TypeA"
    by (rule example_prepare) (simp add: f)
  have t: "try_cache (std_client_lib ev) example_server (example_moment 0) example_waiter example_asked = (None, example_asked)"
    by (simp add: try_cache_def example_loads_nothing example_asked_def example_client_fields)
  have o: "o_Timeout example_query_options = DNSTimeout" "\<not> o_DisableCache example_query_options" "o_Strategy example_query_options = AsIS"
    by (simp_all add: example_query_options_def)
  show ?thesis
    using t by (simp add: begin_first_def q example_key_again f p o strategy_rejects_def example_fields Let_def example_waiter_def example_operation_def)
qed

lemma example_resumes:
  "begin_resume (std_client_lib ev) example_server (example_moment 0) example_waiter example_client = (exchangeReady example_waiter, example_client)"
proof -
  have w: "example_waiter\<lparr>op_cacheKey := example_key\<rparr> = example_waiter" by (simp add: example_waiter_def example_operation_def)
  show ?thesis
    by (simp add: begin_resume_def example_fields example_key_again example_client_fields w try_cache_def example_loads_nothing begin_ready_def)
qed

lemma example_in_flight:
  "client_run (std_client_lib ev) example_client example_asked [(example_server, example_operation)] [] []"
  using client_run.begins [OF client_run.start _ example_begin]
  by (simp add: ready_def waiting_def plain_subnet_def example_query_options_def zero_prefix_def addr_zone_def addr_Unmap_def example_asked_def)

theorem woken_queries_ask_together:
  "client_run (std_client_lib ev) example_client example_client [(example_server, example_waiter), (example_server, example_waiter)] [] []"
proof -
  have plain: "plain_subnet (o_ClientSubnet example_query_options)"
    by (simp add: plain_subnet_def example_query_options_def zero_prefix_def addr_zone_def addr_Unmap_def)
  have two: "client_run (std_client_lib ev) example_client example_asked [(example_server, example_operation)] [(example_server, example_waiter), (example_server, example_waiter)] []"
    using client_run.begins [OF client_run.begins [OF example_in_flight plain example_waits] plain example_waits] by (simp add: ready_def waiting_def)
  have "exchangeToTransport (op_message example_operation) (Inl ContextError) = Inl ContextError" by (simp add: exchangeToTransport_def)
  then have failed: "client_run (std_client_lib ev) example_client example_client [] [(example_server, example_waiter), (example_server, example_waiter)] []"
    using client_run.fails [OF two, of example_server example_operation] by (simp add: release_def example_operation_def example_asked_def example_client_def Start_def NewClient_def initializeMemoryCache_def)
  from client_run.resumes [OF failed _ example_resumes]
  have "client_run (std_client_lib ev) example_client example_client [(example_server, example_waiter)] [(example_server, example_waiter)] []"
    by (simp add: ready_def)
  from client_run.resumes [OF this _ example_resumes] show ?thesis by (simp add: ready_def)
qed

text \<open>Witness of C35: one query is in flight with the lock and an equal one waits for it.\<close>

theorem dns_exchange_locks_witness:
  "client_run (std_client_lib example_dns_env) example_client example_asked [(example_server, example_operation)] [] [] \<and>
   begin_first (std_client_lib example_dns_env) example_server (example_moment 0) (lookup_message ''a.'' TypeA) example_query_options None example_asked =
     (exchangeWait example_waiter, example_asked) \<and>
   (\<exists>(tr', op') \<in> set [(example_server, example_operation)]. op_releaseCond op' = Some (op_cacheKey example_waiter, o_Timeout (op_options example_waiter)))"
proof -
  have "\<forall>k. std_view \<lparr>sd_cache = [], sd_disk = [], sd_rdrc = []\<rparr> k = None" "plain_subnet zero_prefix"
    by (simp_all add: std_view_def plain_subnet_def zero_prefix_def addr_zone_def addr_Unmap_def)
  note locks = dns_exchange_locks [OF std_dns.dns_store_axioms this example_in_flight [of example_dns_env, unfolded example_client_def]]
  note waits = locks [THEN conjunct2, THEN conjunct2, THEN conjunct2, THEN conjunct1, rule_format, OF example_waits]
  show ?thesis using example_in_flight example_waits waits by (intro conjI)
qed


text \<open>Witness of C34: the same query a second later.\<close>

theorem dns_answer_reused_witness:
  "\<exists>t c2. begin_first (std_client_lib example_dns_env) example_server (example_moment Second) (lookup_message ''a.'' TypeA) example_query_options None example_cached =
     (exchangeDone (Some ((normalizeTTL example_answer t)\<lparr>m_Id := 0\<rparr>)) None, c2) \<and> uint t \<le> 300"
proof -
  obtain x where f: "finishExchange (std_client_lib example_dns_env) example_server (example_moment 0) example_operation example_answer
     (example_client\<lparr>c_cacheLock := [(example_key, DNSTimeout)]\<rparr>) = (x, example_cached)" using example_finish by blast
  let ?c = "example_client\<lparr>c_cacheLock := [(example_key, DNSTimeout)]\<rparr>"
  have op: "\<not> rejected (op_responseChecker example_operation) example_answer" "\<not> op_disableCache example_operation" "ok_rcode example_answer"
    "finishCacheKey ?c example_server (example_moment 0) (op_cacheKey example_operation) = (example_key, True)"
    "applyResponseOptions (op_question example_operation) example_answer (op_options example_operation) = (example_answer, 300)"
    using example_finish_key example_apply by (simp_all add: example_operation_def rejected_def ok_rcode_def example_answer_def FixedResponse_def fixed_def)
  have cl: "\<not> c_dnsCache ?c" "c_cache ?c" "\<not> c_disableExpire ?c" "\<not> c_disableCache ?c" by (simp_all add: example_client_fields)
  have q: "mo_Err (example_moment Second) = None" "m_Question (lookup_message ''a.'' TypeA) = [example_question]"
    "\<not> strategy_rejects (q_Qtype example_question) (o_Strategy example_query_options)" "isSimpleRequest (lookup_message ''a.'' TypeA) = Ok True"
    "\<not> o_DisableCache example_query_options"
    by (simp_all add: example_moment_def lookup_message_def example_question_def isSimpleRequest_def strategy_rejects_def example_query_options_def)
  have "prepareExchangeMessage example_cached (lookup_message ''a.'' TypeA) example_query_options = lookup_message ''a.'' TypeA"
    by (rule example_prepare) (simp add: example_cached_def example_client_fields)
  then have k: "newCacheKey example_cached example_server (example_moment Second) example_question
      (prepareExchangeMessage example_cached (lookup_message ''a.'' TypeA) example_query_options) example_query_options = example_key"
    by (simp add: example_key_of_query) (simp add: example_key_def example_cached_def example_client_fields)
  have n: "(0 :: int) \<le> 0" "(300 :: uint32) \<noteq> 0" "mo_now (example_moment 0) \<le> mo_now (example_moment Second)"
    "mo_now (example_moment Second) \<le> mo_now (example_moment 0) + Second * uint (300 :: uint32) - 0" "\<And>t. accepts None (normalizeTTL example_answer t)"
    by (simp_all add: example_moment_def accepts_def)
  from dns_answer_reused [OF std_dns.dns_store_axioms n(1) f op(1-5) n(2) cl q k n(3-5)]
  obtain t c2 where "begin_first (std_client_lib example_dns_env) example_server (example_moment Second) (lookup_message ''a.'' TypeA) example_query_options None example_cached =
     (exchangeDone (Some ((normalizeTTL example_answer t)\<lparr>m_Id := m_Id (lookup_message ''a.'' TypeA)\<rparr>)) None, c2)" "uint t \<le> uint (300 :: uint32)" by blast
  moreover have "m_Id (lookup_message ''a.'' TypeA) = 0" "uint (300 :: uint32) = 300" by (simp_all add: lookup_message_def)
  ultimately show ?thesis by metis
qed

text \<open>An instance: two keys that differ in their environment.\<close>

theorem persistentName_inj_witness:
  "persistentName (std_client_lib example_dns_env) example_key \<noteq> persistentName (std_client_lib example_dns_env) (example_key\<lparr>k_environment := 1\<rparr>)"
proof
  assume eq: "persistentName (std_client_lib example_dns_env) example_key = persistentName (std_client_lib example_dns_env) (example_key\<lparr>k_environment := 1\<rparr>)"
  let ?k = "example_key\<lparr>k_environment := 1\<rparr>"
  have np: "np_String (std_client_lib example_dns_env) = std_String" by (simp add: std_client_lib_def)
  have z: "addr_zone (pf_Addr (k_clientSubnet example_key)) = []" "addr_zone (pf_Addr (k_clientSubnet ?k)) = []"
    "{CHR 0x00, CHR 0x01} \<inter> set (k_transportTag example_key) = {}" "{CHR 0x00, CHR 0x01} \<inter> set (k_transportTag ?k) = {}"
    by (simp_all add: example_key_def zero_prefix_def addr_zone_def)
  have s1: "p = p'" if "prefix_IsValid p" "prefix_IsValid p'" "addr_zone (pf_Addr p) = []" "addr_zone (pf_Addr p') = []"
    "np_String (std_client_lib example_dns_env) p = np_String (std_client_lib example_dns_env) p'" for p p'
    using std_String_laws(1) [OF that(1-4)] that(5) unfolding np by blast
  have s2: "CHR 0x01 \<notin> set (np_String (std_client_lib example_dns_env) p)" for p unfolding np by (rule std_String_laws(2))
  have "k_environment example_key = k_environment ?k" using persistentName_inj [OF s1 s2 z eq] by blast
  then show False by (simp add: example_key_def)
qed

end
