(* ===== verification/DNS_Router.thy ===== *)
theory DNS_Router
  imports DNS_Client
begin

text \<open>
  The rule walk of the DNS router, \<^verbatim>\<open>dns/router.go\<close>: \<open>walkDNSRules\<close>, \<open>resumeExchangeWithRules\<close> and what they call. Rules are
  walked in order. An evaluate action sends a query whose answer is a future; a rule that looks at an answer waits for it; a
  rule with \<open>race\<close> is armed instead and may decide as soon as its answers are there. The walk is cut into steps where it reads
  whether a future is done, since answers arrive in between. The rules are given through the interface \<open>adapter.DNSRule\<close>, the
  answers of the servers by a function of server and options. A cancelled context, which ends the walk with its error, is left out.
\<close>

section \<open>Rules, actions and results\<close>

record RuleActionDNSRouteOptions =
  ro_Strategy :: DomainStrategy
  ro_Timeout :: int
  ro_DisableCache :: bool
  ro_DisableOptimisticCache :: bool
  ro_RewriteTTL :: "uint32 option"
  ro_ClientSubnet :: prefix
  ro_RemoveClientSubnet :: bool

datatype reject_method = RejectDefault | RejectDrop | RejectReply

text \<open>\<open>R.RuleActionPredefined\<close> and the response it makes; the message has a question.\<close>

record RuleActionPredefined =
  pd_Rcode :: int
  pd_Answer :: "rr list"
  pd_Ns :: "rr list"
  pd_Extra :: "rr list"

definition HasPrefix :: "string \<Rightarrow> string \<Rightarrow> bool" where
  "HasPrefix s p = (take (length p) s = p)"

definition HasSuffix :: "string \<Rightarrow> string \<Rightarrow> bool" where
  "HasSuffix s t = (length t \<le> length s \<and> drop (length s - length t) s = t)"

definition rewriteRecords :: "rr list \<Rightarrow> question \<Rightarrow> rr list" where
  "rewriteRecords records q = map (\<lambda>it. if HasPrefix (hd_Name it) ''*'' \<and> HasSuffix (q_Name q) (drop 1 (hd_Name it)) then it\<lparr>hd_Name := q_Name q\<rparr> else it) records"

definition predefined_Response :: "RuleActionPredefined \<Rightarrow> Msg \<Rightarrow> Msg" where
  "predefined_Response r request = (let q = hd (m_Question request) in
     \<lparr>m_Id = m_Id request, m_Response = True, m_Authoritative = True, m_RecursionDesired = True, m_RecursionAvailable = True, m_Rcode = pd_Rcode r,
      m_Question = m_Question request, m_Answer = rewriteRecords (pd_Answer r) q, m_Ns = rewriteRecords (pd_Ns r) q, m_Extra = rewriteRecords (pd_Extra r) q\<rparr>)"

datatype RuleAction =
    ActionRouteOptions RuleActionDNSRouteOptions
  | ActionEvaluate string RuleActionDNSRouteOptions bool string   \<comment> \<open>server, options, speculative, tag\<close>
  | ActionRespond
  | ActionRoute string RuleActionDNSRouteOptions bool
  | ActionReject reject_method
  | ActionPredefined RuleActionPredefined
  | ActionOther

text \<open>\<open>adapter.DNSRule\<close>: a rule matches in view of the anonymous response and the named ones.\<close>

record DNSRule =
  dr_MatchResponseTags :: "string list"
  dr_MatchResponseAnonymous :: bool
  dr_MatchResponseTag :: string
  dr_Race :: bool
  dr_Match :: "Msg option \<Rightarrow> (string \<Rightarrow> Msg option) \<Rightarrow> bool"
  dr_Action :: RuleAction

definition hasBindings :: "DNSRule \<Rightarrow> bool" where
  "hasBindings r = (dr_MatchResponseTags r \<noteq> [] \<or> dr_MatchResponseAnonymous r)"

datatype router_error = ClientError dns_error | RespondMissing | ErrDrop | RouterClosed | EmptyResult

record exchangeWithRulesResult =
  er_response :: "Msg option"
  er_transport :: "DNSTransport option"
  er_rejectAction :: "reject_method option"
  er_err :: "router_error option"

type_synonym answer = "Msg option \<times> dns_error option"

record dnsEvaluatedFuture =
  fu_tag :: string
  fu_terminal :: bool
  fu_transport :: DNSTransport
  fu_options :: DNSQueryOptions
  fu_done :: "answer option"          \<comment> \<open>\<open>done\<close> closed, \<open>response\<close> and \<open>err\<close>\<close>
  fu_settled :: bool

record dnsArmedRule =
  ar_rule :: DNSRule
  ar_futures :: "nat list"
  ar_anonymousFuture :: "nat option"
  ar_bindsAnonymous :: bool
  ar_options :: DNSQueryOptions

text \<open>A future is its position in \<open>futures\<close>.\<close>

record dnsRuleWalkState =
  ws_ruleIndex :: nat
  ws_effectiveOptions :: DNSQueryOptions
  ws_anonymousFuture :: "nat option"
  ws_namedFutures :: "(string, nat) gomap"
  ws_namedResponses :: "(string, Msg option) gomap"
  ws_namedTransports :: "(string, DNSTransport) gomap"
  ws_futures :: "dnsEvaluatedFuture list"
  ws_armedRules :: "dnsArmedRule list"
  ws_terminalFuture :: "nat option"
  ws_terminalIndex :: nat
  ws_wake :: bool

record dnsPendingExchange =
  pe_transport :: DNSTransport
  pe_options :: DNSQueryOptions
  pe_future :: "nat option"

datatype dnsWalkSuspension = Await nat | Drain | Pending dnsPendingExchange

text \<open>The transport manager: a server with whether it is of type fakeip, and the default server.\<close>

record dns_router =
  rt_Transport :: "string \<Rightarrow> (DNSTransport \<times> bool) option"
  rt_Default :: DNSTransport
  rt_defaultDomainStrategy :: DomainStrategy

text \<open>The zero value \<open>adapter.DNSQueryOptions{}\<close>.\<close>

definition zero_options :: DNSQueryOptions where
  "zero_options = \<lparr>o_Strategy = AsIS, o_LookupStrategy = AsIS, o_DisableCache = False, o_DisableOptimisticCache = False, o_RewriteTTL = None, o_Timeout = 0,
     o_ClientSubnet = zero_prefix, o_RemoveClientSubnet = False\<rparr>"

definition finalizeExchangeOptions :: "dns_router \<Rightarrow> DNSQueryOptions \<Rightarrow> DNSQueryOptions" where
  "finalizeExchangeOptions R options = (if o_Strategy options = AsIS then options\<lparr>o_Strategy := rt_defaultDomainStrategy R\<rparr> else options)"

definition applyDNSRouteOptions :: "DNSQueryOptions \<Rightarrow> RuleActionDNSRouteOptions \<Rightarrow> DNSQueryOptions" where
  "applyDNSRouteOptions options ro =
     (let o1 = (if ro_DisableCache ro then options\<lparr>o_DisableCache := True\<rparr> else options);
          o2 = (if ro_DisableOptimisticCache ro then o1\<lparr>o_DisableOptimisticCache := True\<rparr> else o1);
          o3 = (if ro_RewriteTTL ro \<noteq> None then o2\<lparr>o_RewriteTTL := ro_RewriteTTL ro\<rparr> else o2);
          o4 = (if 0 < ro_Timeout ro then o3\<lparr>o_Timeout := ro_Timeout ro\<rparr> else o3);
          o5 = (if prefix_IsValid (ro_ClientSubnet ro) then o4\<lparr>o_ClientSubnet := ro_ClientSubnet ro, o_RemoveClientSubnet := False\<rparr> else o4)
      in if ro_RemoveClientSubnet ro then o5\<lparr>o_ClientSubnet := zero_prefix, o_RemoveClientSubnet := True\<rparr> else o5)"

datatype dnsRouteStatus = Missing | Skipped | Resolved DNSTransport DNSQueryOptions

definition resolveDNSRoute :: "dns_router \<Rightarrow> string \<Rightarrow> RuleActionDNSRouteOptions \<Rightarrow> bool \<Rightarrow> DNSQueryOptions \<Rightarrow> dnsRouteStatus" where
  "resolveDNSRoute R server ro allowFakeIP options = (case rt_Transport R server of
     None \<Rightarrow> Missing
   | Some (transport, isFakeIP) \<Rightarrow>
       if isFakeIP \<and> \<not> allowFakeIP then Skipped
       else (let o1 = applyDNSRouteOptions options ro
             in Resolved transport (if isFakeIP then o1\<lparr>o_DisableCache := True\<rparr> else o1)))"

text \<open>\<open>message.Question\<close> has exactly one question here.\<close>

definition dnsRefusedResponse :: "Msg \<Rightarrow> Msg" where
  "dnsRefusedResponse message =
     \<lparr>m_Id = m_Id message, m_Response = True, m_Authoritative = False, m_RecursionDesired = False, m_RecursionAvailable = False,
      m_Rcode = 5, m_Question = take 1 (m_Question message), m_Answer = [], m_Ns = [], m_Extra = []\<rparr>"

definition no_result :: exchangeWithRulesResult where
  "no_result = \<lparr>er_response = None, er_transport = None, er_rejectAction = None, er_err = None\<rparr>"

definition reject_result :: "Msg \<Rightarrow> reject_method \<Rightarrow> exchangeWithRulesResult option" where
  "reject_result message method = (case method of
     RejectDefault \<Rightarrow> Some (no_result\<lparr>er_response := Some (dnsRefusedResponse message), er_rejectAction := Some method\<rparr>)
   | RejectDrop \<Rightarrow> Some (no_result\<lparr>er_rejectAction := Some method, er_err := Some ErrDrop\<rparr>)
   | RejectReply \<Rightarrow> None)"

definition respond_result :: "Msg option \<Rightarrow> DNSTransport option \<Rightarrow> exchangeWithRulesResult" where
  "respond_result response transport = (case response of
     None \<Rightarrow> no_result\<lparr>er_err := Some RespondMissing\<rparr>
   | Some m \<Rightarrow> no_result\<lparr>er_response := Some m, er_transport := transport\<rparr>)"

definition exchange_result :: "DNSTransport \<Rightarrow> answer \<Rightarrow> exchangeWithRulesResult" where
  "exchange_result transport a = \<lparr>er_response = fst a, er_transport = Some transport, er_rejectAction = None, er_err = map_option ClientError (snd a)\<rparr>"


section \<open>Futures\<close>

definition future_resolved :: "dnsRuleWalkState \<Rightarrow> nat \<Rightarrow> bool" where
  "future_resolved st i = (fu_done (ws_futures st ! i) \<noteq> None)"

definition answer_view :: "answer \<Rightarrow> Msg option" where
  "answer_view a = (if snd a \<noteq> None then None else fst a)"

definition future_view :: "dnsRuleWalkState \<Rightarrow> nat \<Rightarrow> Msg option" where
  "future_view st i = (case fu_done (ws_futures st ! i) of None \<Rightarrow> None | Some a \<Rightarrow> answer_view a)"

definition anonymousResponse :: "dnsRuleWalkState \<Rightarrow> Msg option" where
  "anonymousResponse st = (case ws_anonymousFuture st of None \<Rightarrow> None | Some i \<Rightarrow> future_view st i)"

definition named_response :: "dnsRuleWalkState \<Rightarrow> string \<Rightarrow> Msg option" where
  "named_response st t = (case map_of (ws_namedResponses st) t of None \<Rightarrow> None | Some r \<Rightarrow> r)"

definition settle_one :: "dnsRuleWalkState \<Rightarrow> nat \<Rightarrow> dnsRuleWalkState" where
  "settle_one st i =
     (let f = ws_futures st ! i
      in if fu_settled f \<or> \<not> future_resolved st i then st
         else (let st1 = st\<lparr>ws_futures := (ws_futures st)[i := f\<lparr>fu_settled := True\<rparr>]\<rparr>
               in if fu_tag f = [] then st1
                  else st1\<lparr>ws_namedResponses := gm_set (fu_tag f) (future_view st i) (ws_namedResponses st),
                           ws_namedTransports := gm_set (fu_tag f) (fu_transport f) (ws_namedTransports st)\<rparr>))"

definition settleDNSFutures :: "dnsRuleWalkState \<Rightarrow> dnsRuleWalkState" where
  "settleDNSFutures st = foldl settle_one st [0..<length (ws_futures st)]"

text \<open>The new future is the last.\<close>

definition launchDNSEvaluate :: "dns_router \<Rightarrow> dnsRuleWalkState \<Rightarrow> string \<Rightarrow> DNSTransport \<Rightarrow> DNSQueryOptions \<Rightarrow> dnsRuleWalkState" where
  "launchDNSEvaluate R st tag transport options = st\<lparr>ws_futures := ws_futures st @
     [\<lparr>fu_tag = tag, fu_terminal = False, fu_transport = transport, fu_options = finalizeExchangeOptions R options, fu_done = None, fu_settled = False\<rparr>]\<rparr>"

text \<open>A server answers: the callback stores the answer, closes \<open>done\<close> and wakes the walk.\<close>

definition resolve :: "(DNSTransport \<Rightarrow> DNSQueryOptions \<Rightarrow> answer) \<Rightarrow> nat \<Rightarrow> dnsRuleWalkState \<Rightarrow> dnsRuleWalkState" where
  "resolve ask i st =
     (let f = ws_futures st ! i
      in st\<lparr>ws_futures := (ws_futures st)[i := f\<lparr>fu_done := Some (ask (fu_transport f) (fu_options f))\<rparr>], ws_wake := True\<rparr>)"


section \<open>Armed rules\<close>

datatype commit = CommitResult exchangeWithRulesResult | CommitPending dnsPendingExchange

definition armed_match :: "dnsRuleWalkState \<Rightarrow> dnsArmedRule \<Rightarrow> bool" where
  "armed_match st a = dr_Match (ar_rule a)
     (if ar_bindsAnonymous a then (case ar_anonymousFuture a of None \<Rightarrow> None | Some i \<Rightarrow> future_view st i) else anonymousResponse st)
     (named_response st)"

definition armed_respond :: "dnsRuleWalkState \<Rightarrow> dnsArmedRule \<Rightarrow> exchangeWithRulesResult" where
  "armed_respond st a =
     (let tag = dr_MatchResponseTag (ar_rule a)
      in if tag \<noteq> [] then respond_result (named_response st tag) (map_of (ws_namedTransports st) tag)
         else (case ar_anonymousFuture a of
             Some i \<Rightarrow> respond_result (future_view st i) (Some (fu_transport (ws_futures st ! i)))
           | None \<Rightarrow> (case ws_anonymousFuture st of
               Some i \<Rightarrow> respond_result (future_view st i) (Some (fu_transport (ws_futures st ! i)))
             | None \<Rightarrow> respond_result None None)))"

definition armed_act :: "dns_router \<Rightarrow> Msg \<Rightarrow> bool \<Rightarrow> dnsRuleWalkState \<Rightarrow> dnsArmedRule \<Rightarrow> commit option" where
  "armed_act R message allowFakeIP st a = (case dr_Action (ar_rule a) of
     ActionRespond \<Rightarrow> Some (CommitResult (armed_respond st a))
   | ActionRoute server ro _ \<Rightarrow> (case resolveDNSRoute R server ro allowFakeIP (ar_options a) of
       Resolved transport options \<Rightarrow> Some (CommitPending \<lparr>pe_transport = transport, pe_options = options, pe_future = None\<rparr>)
     | _ \<Rightarrow> None)
   | ActionReject method \<Rightarrow> map_option CommitResult (reject_result message method)
   | ActionPredefined f \<Rightarrow> Some (CommitResult (no_result\<lparr>er_response := Some (predefined_Response f message)\<rparr>))
   | _ \<Rightarrow> None)"

fun sweep_from :: "dns_router \<Rightarrow> Msg \<Rightarrow> bool \<Rightarrow> dnsRuleWalkState \<Rightarrow> dnsArmedRule list \<Rightarrow> dnsArmedRule list \<Rightarrow> commit option \<times> dnsRuleWalkState" where
  "sweep_from R message allowFakeIP st kept [] = (None, st\<lparr>ws_armedRules := kept\<rparr>)"
| "sweep_from R message allowFakeIP st kept (a # as) =
     (if \<not> list_all (future_resolved st) (ar_futures a) then sweep_from R message allowFakeIP st (kept @ [a]) as
      else if \<not> armed_match st a then sweep_from R message allowFakeIP st kept as
      else (case armed_act R message allowFakeIP st a of
          Some c \<Rightarrow> (Some c, st\<lparr>ws_armedRules := kept @ as\<rparr>)
        | None \<Rightarrow> sweep_from R message allowFakeIP st kept as))"

definition sweepArmedDNSRules :: "dns_router \<Rightarrow> Msg \<Rightarrow> bool \<Rightarrow> dnsRuleWalkState \<Rightarrow> commit option \<times> dnsRuleWalkState" where
  "sweepArmedDNSRules R message allowFakeIP st = sweep_from R message allowFakeIP st [] (ws_armedRules st)"


section \<open>The walk\<close>

text \<open>Where a walk can be interrupted: before a rule; after the futures were settled for a rule that looks at
  answers; at the top of the loop of \<open>resumeExchangeWithRules\<close>; after settling there; waiting to be woken; waiting for the query of
  a pending exchange; at the end.\<close>

datatype config =
    Walk dnsRuleWalkState
  | Bind dnsRuleWalkState
  | Resume dnsRuleWalkState dnsWalkSuspension
  | Sweep dnsRuleWalkState dnsWalkSuspension
  | Waiting dnsRuleWalkState dnsWalkSuspension
  | Finishing dnsRuleWalkState dnsPendingExchange
  | Finished exchangeWithRulesResult

definition next_rule :: "dnsRuleWalkState \<Rightarrow> dnsRuleWalkState" where
  "next_rule st = st\<lparr>ws_ruleIndex := Suc (ws_ruleIndex st)\<rparr>"

definition walk_evaluate :: "dns_router \<Rightarrow> dnsRuleWalkState \<Rightarrow> string \<Rightarrow> RuleActionDNSRouteOptions \<Rightarrow> bool \<Rightarrow> string \<Rightarrow> config" where
  "walk_evaluate R st server ro speculative tag = (case rt_Transport R server of
     None \<Rightarrow> Walk (next_rule (if tag = [] then st\<lparr>ws_anonymousFuture := None\<rparr> else st))
   | Some (transport, _) \<Rightarrow>
       if \<not> speculative \<and> ws_armedRules st \<noteq> [] then Resume st Drain
       else (let i = length (ws_futures st);
                 st1 = launchDNSEvaluate R st tag transport (applyDNSRouteOptions (ws_effectiveOptions st) ro)
             in Walk (next_rule (if tag = [] then st1\<lparr>ws_anonymousFuture := Some i\<rparr>
                  else st1\<lparr>ws_namedFutures := gm_set tag i (ws_namedFutures st1)\<rparr>))))"

definition walk_respond :: "dnsRuleWalkState \<Rightarrow> DNSRule \<Rightarrow> config" where
  "walk_respond st r =
     (if ws_armedRules st \<noteq> [] then Resume st Drain
      else if dr_MatchResponseTag r \<noteq> []
      then Finished (respond_result (named_response st (dr_MatchResponseTag r)) (map_of (ws_namedTransports st) (dr_MatchResponseTag r)))
      else (case ws_anonymousFuture st of
          None \<Rightarrow> Finished (respond_result None None)
        | Some i \<Rightarrow> if \<not> hasBindings r \<and> \<not> future_resolved st i then Resume st (Await i)
            else Finished (respond_result (future_view st i) (Some (fu_transport (ws_futures st ! i))))))"

definition walk_route :: "dns_router \<Rightarrow> bool \<Rightarrow> dnsRuleWalkState \<Rightarrow> string \<Rightarrow> RuleActionDNSRouteOptions \<Rightarrow> bool \<Rightarrow> config" where
  "walk_route R allowFakeIP st server ro speculative = (case resolveDNSRoute R server ro allowFakeIP (ws_effectiveOptions st) of
     Resolved transport options \<Rightarrow>
       if ws_armedRules st \<noteq> []
       then (if speculative \<and> ws_terminalFuture st = None
             then (let i = length (ws_futures st); st1 = launchDNSEvaluate R st [] transport options
                   in Resume (st1\<lparr>ws_futures := (ws_futures st1)[i := (ws_futures st1 ! i)\<lparr>fu_terminal := True\<rparr>],
                        ws_terminalFuture := Some i, ws_terminalIndex := ws_ruleIndex st\<rparr>) Drain)
             else Resume st Drain)
       else (case ws_terminalFuture st of
           Some i \<Rightarrow> if ws_terminalIndex st = ws_ruleIndex st
             then Resume st (Pending \<lparr>pe_transport = fu_transport (ws_futures st ! i), pe_options = zero_options, pe_future = Some i\<rparr>)
             else Resume st (Pending \<lparr>pe_transport = transport, pe_options = options, pe_future = None\<rparr>)
         | None \<Rightarrow> Resume st (Pending \<lparr>pe_transport = transport, pe_options = options, pe_future = None\<rparr>))
   | _ \<Rightarrow> Walk (next_rule st))"

definition drained :: "dnsRuleWalkState \<Rightarrow> config \<Rightarrow> config" where
  "drained st k = (if ws_armedRules st \<noteq> [] then Resume st Drain else k)"

text \<open>The second half of the loop body: match the rule and act.\<close>

definition walk_match :: "dns_router \<Rightarrow> Msg \<Rightarrow> bool \<Rightarrow> dnsRuleWalkState \<Rightarrow> DNSRule \<Rightarrow> config" where
  "walk_match R message allowFakeIP st r =
     (if \<not> dr_Match r (anonymousResponse st) (named_response st) then Walk (next_rule st)
      else (case dr_Action r of
          ActionRouteOptions ro \<Rightarrow> Walk (next_rule (st\<lparr>ws_effectiveOptions := applyDNSRouteOptions (ws_effectiveOptions st) ro\<rparr>))
        | ActionEvaluate server ro speculative tag \<Rightarrow> walk_evaluate R st server ro speculative tag
        | ActionRespond \<Rightarrow> walk_respond st r
        | ActionRoute server ro speculative \<Rightarrow> walk_route R allowFakeIP st server ro speculative
        | ActionReject method \<Rightarrow> drained st (case reject_result message method of Some x \<Rightarrow> Finished x | None \<Rightarrow> Walk (next_rule st))
        | ActionPredefined f \<Rightarrow> drained st (Finished (no_result\<lparr>er_response := Some (predefined_Response f message)\<rparr>))
        | ActionOther \<Rightarrow> Walk (next_rule st)))"

definition unresolved_tags :: "dnsRuleWalkState \<Rightarrow> DNSRule \<Rightarrow> nat list" where
  "unresolved_tags st r = filter (\<lambda>i. \<not> future_resolved st i)
     (concat (map (\<lambda>t. case map_of (ws_namedFutures st) t of None \<Rightarrow> [] | Some i \<Rightarrow> [i]) (dr_MatchResponseTags r)))"

definition unresolved_anonymous :: "dnsRuleWalkState \<Rightarrow> DNSRule \<Rightarrow> nat list" where
  "unresolved_anonymous st r = (if dr_MatchResponseAnonymous r then (case ws_anonymousFuture st of
      Some i \<Rightarrow> if future_resolved st i then [] else [i] | None \<Rightarrow> []) else [])"

definition walk_race :: "dns_router \<Rightarrow> Msg \<Rightarrow> bool \<Rightarrow> dnsRuleWalkState \<Rightarrow> DNSRule \<Rightarrow> config" where
  "walk_race R message allowFakeIP st r =
     (let pending = unresolved_tags st r @ unresolved_anonymous st r;
          armed = \<lparr>ar_rule = r, ar_futures = pending,
            ar_anonymousFuture = (if dr_MatchResponseAnonymous r then ws_anonymousFuture st else None),
            ar_bindsAnonymous = dr_MatchResponseAnonymous r, ar_options = ws_effectiveOptions st\<rparr>;
          st1 = st\<lparr>ws_armedRules := ws_armedRules st @ [armed]\<rparr>
      in if pending \<noteq> [] then Walk (next_rule st1)
         else (case sweepArmedDNSRules R message allowFakeIP st1 of
             (Some (CommitResult x), st2) \<Rightarrow> Finished x
           | (Some (CommitPending p), st2) \<Rightarrow> Resume (st2\<lparr>ws_armedRules := []\<rparr>) (Pending p)
           | (None, st2) \<Rightarrow> Walk (next_rule st2)))"

text \<open>The first half, for a rule that looks at answers: arm it, wait for an answer, or match.\<close>

definition walk_bind :: "dns_router \<Rightarrow> Msg \<Rightarrow> bool \<Rightarrow> dnsRuleWalkState \<Rightarrow> DNSRule \<Rightarrow> config" where
  "walk_bind R message allowFakeIP st r =
     (if dr_Race r then walk_race R message allowFakeIP st r
      else (case unresolved_tags st r @ unresolved_anonymous st r of
          i # _ \<Rightarrow> Resume st (Await i)
        | [] \<Rightarrow> walk_match R message allowFakeIP st r))"

definition walk_end :: "dns_router \<Rightarrow> dnsRuleWalkState \<Rightarrow> config" where
  "walk_end R st = drained st (Resume st (Pending \<lparr>pe_transport = rt_Default R, pe_options = ws_effectiveOptions st, pe_future = None\<rparr>))"

text \<open>One turn of the loop of \<open>resumeExchangeWithRules\<close> after the futures were settled.\<close>

definition resume_sweep :: "dns_router \<Rightarrow> Msg \<Rightarrow> bool \<Rightarrow> dnsRuleWalkState \<Rightarrow> dnsWalkSuspension \<Rightarrow> config" where
  "resume_sweep R message allowFakeIP st suspension = (case sweepArmedDNSRules R message allowFakeIP st of
     (Some (CommitResult x), st1) \<Rightarrow> Finished x
   | (Some (CommitPending p), st1) \<Rightarrow> Finishing st1 p
   | (None, st1) \<Rightarrow> (case suspension of
       Pending p \<Rightarrow> Finishing st1 p
     | Await i \<Rightarrow> if \<not> future_resolved st1 i then Waiting st1 suspension else Walk st1
     | Drain \<Rightarrow> if ws_armedRules st1 \<noteq> [] then Waiting st1 suspension else Walk st1))"

definition finishPendingExchange :: "(DNSTransport \<Rightarrow> DNSQueryOptions \<Rightarrow> answer) \<Rightarrow> dns_router \<Rightarrow> dnsRuleWalkState \<Rightarrow> dnsPendingExchange \<Rightarrow> exchangeWithRulesResult option" where
  "finishPendingExchange ask R st p = (case pe_future p of
     Some i \<Rightarrow> map_option (\<lambda>a. exchange_result (pe_transport p) (answer_view a, snd a)) (fu_done (ws_futures st ! i))
   | None \<Rightarrow> Some (exchange_result (pe_transport p) (ask (pe_transport p) (finalizeExchangeOptions R (pe_options p)))))"

definition new_walk :: "DNSQueryOptions \<Rightarrow> dnsRuleWalkState" where
  "new_walk options = \<lparr>ws_ruleIndex = 0, ws_effectiveOptions = options, ws_anonymousFuture = None, ws_namedFutures = [], ws_namedResponses = [],
     ws_namedTransports = [], ws_futures = [], ws_armedRules = [], ws_terminalFuture = None, ws_terminalIndex = 0, ws_wake = False\<rparr>"

text \<open>The steps. With \<open>late\<close> an answer may also arrive between settling the futures and reading which of them are done.\<close>

inductive walk_step :: "(DNSTransport \<Rightarrow> DNSQueryOptions \<Rightarrow> answer) \<Rightarrow> dns_router \<Rightarrow> Msg \<Rightarrow> bool \<Rightarrow> DNSRule list \<Rightarrow> bool \<Rightarrow> config \<Rightarrow> config \<Rightarrow> bool"
  for ask R message allowFakeIP rules late where
  plain: "ws_ruleIndex st < length rules \<Longrightarrow> \<not> hasBindings (rules ! ws_ruleIndex st) \<Longrightarrow>
    walk_step ask R message allowFakeIP rules late (Walk st) (walk_match R message allowFakeIP st (rules ! ws_ruleIndex st))"
| settle: "ws_ruleIndex st < length rules \<Longrightarrow> hasBindings (rules ! ws_ruleIndex st) \<Longrightarrow>
    walk_step ask R message allowFakeIP rules late (Walk st) (Bind (settleDNSFutures st))"
| binds: "walk_step ask R message allowFakeIP rules late (Bind st) (walk_bind R message allowFakeIP st (rules ! ws_ruleIndex st))"
| ends: "length rules \<le> ws_ruleIndex st \<Longrightarrow> walk_step ask R message allowFakeIP rules late (Walk st) (walk_end R st)"
| resumed: "walk_step ask R message allowFakeIP rules late (Resume st sus) (Sweep (settleDNSFutures st) sus)"
| swept: "walk_step ask R message allowFakeIP rules late (Sweep st sus) (resume_sweep R message allowFakeIP st sus)"
| woken: "ws_wake st \<Longrightarrow> walk_step ask R message allowFakeIP rules late (Waiting st sus) (Resume (st\<lparr>ws_wake := False\<rparr>) sus)"
| finished: "finishPendingExchange ask R st p = Some x \<Longrightarrow> walk_step ask R message allowFakeIP rules late (Finishing st p) (Finished x)"
| answers: "i < length (ws_futures st) \<Longrightarrow> \<not> future_resolved st i \<Longrightarrow> k \<in> {Walk, \<lambda>st. Resume st sus, \<lambda>st. Waiting st sus, \<lambda>st. Finishing st p} \<Longrightarrow>
    walk_step ask R message allowFakeIP rules late (k st) (k (resolve ask i st))"
| late_answers: "late \<Longrightarrow> i < length (ws_futures st) \<Longrightarrow> \<not> future_resolved st i \<Longrightarrow> k \<in> {Bind, \<lambda>st. Sweep st sus} \<Longrightarrow>
    walk_step ask R message allowFakeIP rules late (k st) (k (resolve ask i st))"



section \<open>What the walk means\<close>

text \<open>The reference: rules one after the other, each evaluate action asking its server at once.\<close>

type_synonym evaluated = "DNSTransport \<times> answer"

definition evaluated_view :: "evaluated option \<Rightarrow> Msg option" where
  "evaluated_view e = (case e of None \<Rightarrow> None | Some (_, a) \<Rightarrow> answer_view a)"

fun walk_in_order :: "(DNSTransport \<Rightarrow> DNSQueryOptions \<Rightarrow> answer) \<Rightarrow> dns_router \<Rightarrow> Msg \<Rightarrow> bool \<Rightarrow> DNSRule list \<Rightarrow> DNSQueryOptions \<Rightarrow>
    evaluated option \<Rightarrow> (string \<Rightarrow> evaluated option) \<Rightarrow> exchangeWithRulesResult" where
  "walk_in_order ask R message allowFakeIP [] options anon named = exchange_result (rt_Default R) (ask (rt_Default R) (finalizeExchangeOptions R options))"
| "walk_in_order ask R message allowFakeIP (r # rs) options anon named =
     (if \<not> dr_Match r (evaluated_view anon) (\<lambda>t. evaluated_view (named t)) then walk_in_order ask R message allowFakeIP rs options anon named
      else (case dr_Action r of
          ActionRouteOptions ro \<Rightarrow> walk_in_order ask R message allowFakeIP rs (applyDNSRouteOptions options ro) anon named
        | ActionEvaluate server ro _ tag \<Rightarrow> (case rt_Transport R server of
            None \<Rightarrow> walk_in_order ask R message allowFakeIP rs options (if tag = [] then None else anon) named
          | Some (transport, _) \<Rightarrow>
              (let e = (transport, ask transport (finalizeExchangeOptions R (applyDNSRouteOptions options ro)))
               in if tag = [] then walk_in_order ask R message allowFakeIP rs options (Some e) named
                  else walk_in_order ask R message allowFakeIP rs options anon (named(tag := Some e))))
        | ActionRespond \<Rightarrow>
            (let e = (if dr_MatchResponseTag r \<noteq> [] then named (dr_MatchResponseTag r) else anon)
             in respond_result (evaluated_view e) (map_option fst e))
        | ActionRoute server ro _ \<Rightarrow> (case resolveDNSRoute R server ro allowFakeIP options of
            Resolved transport options' \<Rightarrow> exchange_result transport (ask transport (finalizeExchangeOptions R options'))
          | _ \<Rightarrow> walk_in_order ask R message allowFakeIP rs options anon named)
        | ActionReject method \<Rightarrow> (case reject_result message method of
            Some x \<Rightarrow> x | None \<Rightarrow> walk_in_order ask R message allowFakeIP rs options anon named)
        | ActionPredefined f \<Rightarrow> no_result\<lparr>er_response := Some (predefined_Response f message)\<rparr>
        | ActionOther \<Rightarrow> walk_in_order ask R message allowFakeIP rs options anon named))"

text \<open>A rule looks at the answers it binds and at no others; a rule that responds binds the answer it gives.\<close>

definition well_bound :: "DNSRule \<Rightarrow> bool" where
  "well_bound r = ((\<forall>a a' n n'. (dr_MatchResponseAnonymous r \<longrightarrow> a = a') \<longrightarrow> (\<forall>t \<in> set (dr_MatchResponseTags r). n t = n' t) \<longrightarrow> dr_Match r a n = dr_Match r a' n') \<and>
     (dr_Action r = ActionRespond \<longrightarrow>
        (if dr_MatchResponseTag r \<noteq> [] then dr_MatchResponseTag r \<in> set (dr_MatchResponseTags r) else dr_MatchResponseTags r = [])))"

definition rule_tags :: "DNSRule \<Rightarrow> string list" where
  "rule_tags r = (case dr_Action r of ActionEvaluate _ _ _ tag \<Rightarrow> if tag = [] then [] else [tag] | _ \<Rightarrow> [])"

definition evaluate_tags :: "DNSRule list \<Rightarrow> string list" where
  "evaluate_tags rules = concat (map rule_tags rules)"


section \<open>The walk follows the reference\<close>

definition promised :: "(DNSTransport \<Rightarrow> DNSQueryOptions \<Rightarrow> answer) \<Rightarrow> dnsEvaluatedFuture \<Rightarrow> evaluated" where
  "promised ask f = (fu_transport f, ask (fu_transport f) (fu_options f))"

definition settled_of :: "dnsRuleWalkState \<Rightarrow> string \<Rightarrow> nat option" where
  "settled_of st t = (case map_of (ws_namedFutures st) t of Some i \<Rightarrow> if fu_settled (ws_futures st ! i) then Some i else None | None \<Rightarrow> None)"

definition sim :: "(DNSTransport \<Rightarrow> DNSQueryOptions \<Rightarrow> answer) \<Rightarrow> dnsRuleWalkState \<Rightarrow> evaluated option \<Rightarrow> (string \<Rightarrow> evaluated option) \<Rightarrow> bool" where
  "sim ask st anon named = (let fs = ws_futures st in
     ws_armedRules st = [] \<and> ws_terminalFuture st = None \<and>
     anon = map_option (\<lambda>i. promised ask (fs ! i)) (ws_anonymousFuture st) \<and> (\<forall>i. ws_anonymousFuture st = Some i \<longrightarrow> i < length fs) \<and>
     (\<forall>t. named t = map_option (\<lambda>i. promised ask (fs ! i)) (map_of (ws_namedFutures st) t)) \<and>
     (\<forall>t i. map_of (ws_namedFutures st) t = Some i \<longrightarrow> i < length fs \<and> fu_tag (fs ! i) = t \<and> t \<noteq> []) \<and>
     (\<forall>i < length fs. fu_tag (fs ! i) \<noteq> [] \<longrightarrow> map_of (ws_namedFutures st) (fu_tag (fs ! i)) = Some i) \<and>
     (\<forall>i < length fs. fu_done (fs ! i) \<in> {None, Some (snd (promised ask (fs ! i)))} \<and> (fu_settled (fs ! i) \<longrightarrow> fu_done (fs ! i) \<noteq> None)) \<and>
     (\<forall>t. map_of (ws_namedResponses st) t = map_option (future_view st) (settled_of st t)) \<and>
     (\<forall>t. map_of (ws_namedTransports st) t = map_option (\<lambda>i. fu_transport (fs ! i)) (settled_of st t)))"

text \<open>Settling and answering change nothing but whether futures are done and settled.\<close>

definition same_walk :: "dnsRuleWalkState \<Rightarrow> dnsRuleWalkState \<Rightarrow> bool" where
  "same_walk st st' = (ws_ruleIndex st' = ws_ruleIndex st \<and> ws_effectiveOptions st' = ws_effectiveOptions st \<and> ws_anonymousFuture st' = ws_anonymousFuture st \<and>
     ws_namedFutures st' = ws_namedFutures st \<and> ws_armedRules st' = ws_armedRules st \<and> length (ws_futures st') = length (ws_futures st) \<and>
     (\<forall>i. future_resolved st i \<longrightarrow> i < length (ws_futures st) \<longrightarrow> future_resolved st' i))"

lemma same_walk_refl [simp]: "same_walk st st"
  by (simp add: same_walk_def)

lemma same_walk_trans: "same_walk a b \<Longrightarrow> same_walk b c \<Longrightarrow> same_walk a c"
  by (simp add: same_walk_def)

lemma map_of_gm_set [simp]: "map_of (gm_set k v m) k' = (if k' = k then Some v else map_of m k')"
  by (simp add: gm_set_def update_conv')

lemma promised_upd [simp]: "promised ask (f\<lparr>fu_settled := b\<rparr>) = promised ask f" "promised ask (f\<lparr>fu_done := d\<rparr>) = promised ask f"
  by (simp_all add: promised_def)

lemma settle_one_futures:
  assumes "i < length (ws_futures st)"
  shows "length (ws_futures (settle_one st i)) = length (ws_futures st)"
    "ws_futures (settle_one st i) ! j = (if j = i \<and> future_resolved st i then (ws_futures st ! i)\<lparr>fu_settled := True\<rparr> else ws_futures st ! j)"
  using assms by (auto simp: settle_one_def Let_def)

lemma settle_one_done:
  assumes "i < length (ws_futures st)"
  shows "future_resolved (settle_one st i) j = future_resolved st j" "future_view (settle_one st i) j = future_view st j"
    "fu_tag (ws_futures (settle_one st i) ! j) = fu_tag (ws_futures st ! j)" "promised ask (ws_futures (settle_one st i) ! j) = promised ask (ws_futures st ! j)"
    "fu_transport (ws_futures (settle_one st i) ! j) = fu_transport (ws_futures st ! j)" "fu_done (ws_futures (settle_one st i) ! j) = fu_done (ws_futures st ! j)"
    "fu_settled (ws_futures (settle_one st i) ! j) = (fu_settled (ws_futures st ! j) \<or> j = i \<and> future_resolved st i)"
  using settle_one_futures(2) [OF assms] by (auto simp: future_resolved_def future_view_def)

lemma settle_one_keeps [simp]:
  "ws_armedRules (settle_one st i) = ws_armedRules st" "ws_terminalFuture (settle_one st i) = ws_terminalFuture st"
  "ws_anonymousFuture (settle_one st i) = ws_anonymousFuture st" "ws_namedFutures (settle_one st i) = ws_namedFutures st"
  "ws_ruleIndex (settle_one st i) = ws_ruleIndex st" "ws_effectiveOptions (settle_one st i) = ws_effectiveOptions st" "ws_wake (settle_one st i) = ws_wake st"
  by (simp_all add: settle_one_def Let_def)

lemma simD:
  assumes "sim ask st anon named"
  shows "map_of (ws_namedFutures st) t = Some i \<Longrightarrow> i < length (ws_futures st) \<and> fu_tag (ws_futures st ! i) = t \<and> t \<noteq> []"
    "j < length (ws_futures st) \<Longrightarrow> fu_tag (ws_futures st ! j) \<noteq> [] \<Longrightarrow> map_of (ws_namedFutures st) (fu_tag (ws_futures st ! j)) = Some j"
    "j < length (ws_futures st) \<Longrightarrow> fu_done (ws_futures st ! j) \<in> {None, Some (snd (promised ask (ws_futures st ! j)))}"
    "j < length (ws_futures st) \<Longrightarrow> fu_settled (ws_futures st ! j) \<Longrightarrow> fu_done (ws_futures st ! j) \<noteq> None"
    "map_of (ws_namedResponses st) t = map_option (future_view st) (settled_of st t)"
    "map_of (ws_namedTransports st) t = map_option (\<lambda>i. fu_transport (ws_futures st ! i)) (settled_of st t)"
    "ws_armedRules st = []" "ws_terminalFuture st = None" "anon = map_option (\<lambda>i. promised ask (ws_futures st ! i)) (ws_anonymousFuture st)"
    "ws_anonymousFuture st = Some i \<Longrightarrow> i < length (ws_futures st)" "named t = map_option (\<lambda>i. promised ask (ws_futures st ! i)) (map_of (ws_namedFutures st) t)"
  using assms unfolding sim_def Let_def by auto

lemma simI:
  assumes "ws_armedRules st = []" "ws_terminalFuture st = None" "anon = map_option (\<lambda>i. promised ask (ws_futures st ! i)) (ws_anonymousFuture st)"
    "\<And>i. ws_anonymousFuture st = Some i \<Longrightarrow> i < length (ws_futures st)" "\<And>t. named t = map_option (\<lambda>i. promised ask (ws_futures st ! i)) (map_of (ws_namedFutures st) t)"
    "\<And>t i. map_of (ws_namedFutures st) t = Some i \<Longrightarrow> i < length (ws_futures st) \<and> fu_tag (ws_futures st ! i) = t \<and> t \<noteq> []"
    "\<And>j. j < length (ws_futures st) \<Longrightarrow> fu_tag (ws_futures st ! j) \<noteq> [] \<Longrightarrow> map_of (ws_namedFutures st) (fu_tag (ws_futures st ! j)) = Some j"
    "\<And>j. j < length (ws_futures st) \<Longrightarrow> fu_done (ws_futures st ! j) \<in> {None, Some (snd (promised ask (ws_futures st ! j)))} \<and> (fu_settled (ws_futures st ! j) \<longrightarrow> fu_done (ws_futures st ! j) \<noteq> None)"
    "\<And>t. map_of (ws_namedResponses st) t = map_option (future_view st) (settled_of st t)"
    "\<And>t. map_of (ws_namedTransports st) t = map_option (\<lambda>i. fu_transport (ws_futures st ! i)) (settled_of st t)"
  shows "sim ask st anon named"
  using assms unfolding sim_def Let_def by auto

lemma settle_one_sim:
  assumes "sim ask st anon named" "i < length (ws_futures st)"
  shows "sim ask (settle_one st i) anon named"
proof (cases "fu_settled (ws_futures st ! i) \<or> \<not> future_resolved st i")
  case True
  then show ?thesis using assms(1) by (simp add: settle_one_def Let_def)
next
  case False
  let ?f = "ws_futures st ! i" and ?st = "settle_one st i"
  note s = simD [OF assms(1)] and d = settle_one_done [OF assms(2)]
  have so: "settled_of ?st t = (if map_of (ws_namedFutures st) t = Some i then Some i else settled_of st t)" for t
    using False by (auto simp: settled_of_def d split: option.splits)
  have tag: "map_of (ws_namedFutures st) t = Some i \<longleftrightarrow> fu_tag ?f \<noteq> [] \<and> t = fu_tag ?f" for t using s(1) [of t i] s(2) [OF assms(2)] by auto
  have nr: "map_of (ws_namedResponses ?st) t = (if fu_tag ?f \<noteq> [] \<and> t = fu_tag ?f then Some (future_view st i) else map_of (ws_namedResponses st) t)"
    "map_of (ws_namedTransports ?st) t = (if fu_tag ?f \<noteq> [] \<and> t = fu_tag ?f then Some (fu_transport ?f) else map_of (ws_namedTransports st) t)" for t
    using False by (auto simp: settle_one_def Let_def)
  show ?thesis
  proof (rule simI)
    show "map_of (ws_namedResponses ?st) t = map_option (future_view ?st) (settled_of ?st t)" for t
      using s(5) [of t] tag [of t] by (simp add: nr so d cong: option.map_cong)
    show "map_of (ws_namedTransports ?st) t = map_option (\<lambda>j. fu_transport (ws_futures ?st ! j)) (settled_of ?st t)" for t
      using s(6) [of t] tag [of t] by (simp add: nr so d cong: option.map_cong)
    show "j < length (ws_futures ?st) \<Longrightarrow> fu_done (ws_futures ?st ! j) \<in> {None, Some (snd (promised ask (ws_futures ?st ! j)))} \<and> (fu_settled (ws_futures ?st ! j) \<longrightarrow> fu_done (ws_futures ?st ! j) \<noteq> None)" for j
      using s(3,4) [of j] by (auto simp: d settle_one_futures(1) [OF assms(2)] future_resolved_def)
  qed (use s in \<open>auto simp: d settle_one_futures(1) [OF assms(2)]\<close>)
qed

lemma settle_sim:
  assumes "sim ask st anon named"
  shows "sim ask (settleDNSFutures st) anon named \<and> same_walk st (settleDNSFutures st) \<and> ws_wake (settleDNSFutures st) = ws_wake st \<and>
    (\<forall>j < length (ws_futures st). future_resolved (settleDNSFutures st) j = future_resolved st j \<and> (future_resolved st j \<longrightarrow> fu_settled (ws_futures (settleDNSFutures st) ! j)))"
proof -
  have "n \<le> length (ws_futures st) \<Longrightarrow> sim ask (foldl settle_one st [0..<n]) anon named \<and> same_walk st (foldl settle_one st [0..<n]) \<and> ws_wake (foldl settle_one st [0..<n]) = ws_wake st \<and>
    (\<forall>j. future_resolved (foldl settle_one st [0..<n]) j = future_resolved st j) \<and> (\<forall>j < n. future_resolved st j \<longrightarrow> fu_settled (ws_futures (foldl settle_one st [0..<n]) ! j))" for n
  proof (induction n)
    case 0
    then show ?case using assms by simp
  next
    case (Suc n)
    define st' where "st' = foldl settle_one st [0..<n]"
    have ih: "sim ask st' anon named" "same_walk st st'" "ws_wake st' = ws_wake st" "\<And>j. future_resolved st' j = future_resolved st j"
      "\<And>j. j < n \<Longrightarrow> future_resolved st j \<Longrightarrow> fu_settled (ws_futures st' ! j)" using Suc by (auto simp: st'_def)
    have n: "n < length (ws_futures st')" using Suc.prems ih(2) by (simp add: same_walk_def)
    note d = settle_one_done [OF n]
    have "same_walk st' (settle_one st' n)" using d settle_one_futures(1) [OF n] by (simp add: same_walk_def)
    then have "same_walk st (settle_one st' n)" using ih(2) same_walk_trans by blast
    moreover have "fu_settled (ws_futures (settle_one st' n) ! j)" if "j < Suc n" "future_resolved st j" for j
      using that ih(4,5) by (auto simp: d less_Suc_eq)
    ultimately show ?case using settle_one_sim [OF ih(1) n] ih d by (simp add: st'_def [symmetric])
  qed
  from this [of "length (ws_futures st)"] show ?thesis by (simp add: settleDNSFutures_def)
qed

lemma resolve_sim:
  assumes "sim ask st anon named" "i < length (ws_futures st)" "\<not> future_resolved st i"
  shows "sim ask (resolve ask i st) anon named" "same_walk st (resolve ask i st)"
proof -
  let ?st = "resolve ask i st"
  note s = simD [OF assms(1)]
  have f: "length (ws_futures ?st) = length (ws_futures st)"
    "\<And>j. ws_futures ?st ! j = (if j = i then (ws_futures st ! i)\<lparr>fu_done := Some (snd (promised ask (ws_futures st ! i)))\<rparr> else ws_futures st ! j)"
    using assms(2) by (auto simp: resolve_def Let_def promised_def)
  have k: "ws_armedRules ?st = ws_armedRules st" "ws_terminalFuture ?st = ws_terminalFuture st" "ws_anonymousFuture ?st = ws_anonymousFuture st"
    "ws_namedFutures ?st = ws_namedFutures st" "ws_namedResponses ?st = ws_namedResponses st" "ws_namedTransports ?st = ws_namedTransports st"
    "ws_ruleIndex ?st = ws_ruleIndex st" "ws_effectiveOptions ?st = ws_effectiveOptions st"
    by (simp_all add: resolve_def Let_def)
  have so: "settled_of ?st t = settled_of st t" for t by (simp add: settled_of_def k f split: option.split)
  have ne: "settled_of st t \<noteq> Some i" for t
    using s(1) [of t] s(4) [of i] assms(2,3) by (auto simp: settled_of_def future_resolved_def split: option.splits)
  have fv: "j \<noteq> i \<Longrightarrow> future_view ?st j = future_view st j" for j by (simp add: future_view_def f)
  show "sim ask ?st anon named"
  proof (rule simI)
    show "map_of (ws_namedResponses ?st) t = map_option (future_view ?st) (settled_of ?st t)" for t
      using s(5) [of t] ne [of t] fv by (cases "settled_of st t") (auto simp: k so)
    show "map_of (ws_namedTransports ?st) t = map_option (\<lambda>j. fu_transport (ws_futures ?st ! j)) (settled_of ?st t)" for t
      using s(6) [of t] ne [of t] by (cases "settled_of st t") (auto simp: k so f)
    show "j < length (ws_futures ?st) \<Longrightarrow> fu_done (ws_futures ?st ! j) \<in> {None, Some (snd (promised ask (ws_futures ?st ! j)))} \<and> (fu_settled (ws_futures ?st ! j) \<longrightarrow> fu_done (ws_futures ?st ! j) \<noteq> None)" for j
      using s(3,4) [of j] by (auto simp: f)
  qed (use s in \<open>auto simp: k f intro!: option.map_cong\<close>)
  show "same_walk st ?st" by (auto simp: same_walk_def k f future_resolved_def)
qed

text \<open>The state of a walk stands for what is left of the reference: the result \<open>x\<close> the rest of the rules would give.\<close>

definition walk_ok :: "(DNSTransport \<Rightarrow> DNSQueryOptions \<Rightarrow> answer) \<Rightarrow> dns_router \<Rightarrow> Msg \<Rightarrow> bool \<Rightarrow> DNSRule list \<Rightarrow> exchangeWithRulesResult \<Rightarrow> dnsRuleWalkState \<Rightarrow> bool" where
  "walk_ok ask R message allow rules x st = (\<exists>anon named. sim ask st anon named \<and>
     walk_in_order ask R message allow (drop (ws_ruleIndex st) rules) (ws_effectiveOptions st) anon named = x \<and>
     distinct (evaluate_tags (drop (ws_ruleIndex st) rules)) \<and>
     (\<forall>t \<in> set (evaluate_tags (drop (ws_ruleIndex st) rules)). map_of (ws_namedFutures st) t = None))"

definition ready :: "dnsRuleWalkState \<Rightarrow> DNSRule \<Rightarrow> bool" where
  "ready st r = ((dr_MatchResponseAnonymous r \<longrightarrow> (\<forall>i. ws_anonymousFuture st = Some i \<longrightarrow> future_resolved st i)) \<and>
     (\<forall>t \<in> set (dr_MatchResponseTags r). \<forall>i. map_of (ws_namedFutures st) t = Some i \<longrightarrow> fu_settled (ws_futures st ! i)))"

definition pending_ok :: "(DNSTransport \<Rightarrow> DNSQueryOptions \<Rightarrow> answer) \<Rightarrow> dns_router \<Rightarrow> exchangeWithRulesResult \<Rightarrow> dnsPendingExchange \<Rightarrow> bool" where
  "pending_ok ask R x p = (pe_future p = None \<and> exchange_result (pe_transport p) (ask (pe_transport p) (finalizeExchangeOptions R (pe_options p))) = x)"

definition suspension_ok :: "(DNSTransport \<Rightarrow> DNSQueryOptions \<Rightarrow> answer) \<Rightarrow> dns_router \<Rightarrow> exchangeWithRulesResult \<Rightarrow> dnsRuleWalkState \<Rightarrow> dnsWalkSuspension \<Rightarrow> bool" where
  "suspension_ok ask R x st sus = (case sus of Await i \<Rightarrow> i < length (ws_futures st) | Drain \<Rightarrow> False | Pending p \<Rightarrow> pending_ok ask R x p)"

definition tags_settled :: "dnsRuleWalkState \<Rightarrow> DNSRule \<Rightarrow> bool" where
  "tags_settled st r = (\<forall>t \<in> set (dr_MatchResponseTags r). \<forall>i. map_of (ws_namedFutures st) t = Some i \<longrightarrow> future_resolved st i \<longrightarrow> fu_settled (ws_futures st ! i))"

definition config_ok :: "(DNSTransport \<Rightarrow> DNSQueryOptions \<Rightarrow> answer) \<Rightarrow> dns_router \<Rightarrow> Msg \<Rightarrow> bool \<Rightarrow> DNSRule list \<Rightarrow> exchangeWithRulesResult \<Rightarrow> config \<Rightarrow> bool" where
  "config_ok ask R message allow rules x c = (case c of
     Walk st \<Rightarrow> walk_ok ask R message allow rules x st
   | Bind st \<Rightarrow> walk_ok ask R message allow rules x st \<and> ws_ruleIndex st < length rules \<and> tags_settled st (rules ! ws_ruleIndex st)
   | Resume st sus \<Rightarrow> walk_ok ask R message allow rules x st \<and> suspension_ok ask R x st sus
   | Sweep st sus \<Rightarrow> walk_ok ask R message allow rules x st \<and> suspension_ok ask R x st sus
   | Waiting st sus \<Rightarrow> walk_ok ask R message allow rules x st \<and> suspension_ok ask R x st sus \<and> (\<exists>i. sus = Await i \<and> (\<not> future_resolved st i \<or> ws_wake st))
   | Finishing st p \<Rightarrow> pending_ok ask R x p
   | Finished y \<Rightarrow> y = x)"

lemma promised_view:
  assumes "sim ask st anon named" "j < length (ws_futures st)" "future_resolved st j"
  shows "answer_view (snd (promised ask (ws_futures st ! j))) = future_view st j"
  using simD(3) [OF assms(1,2)] assms(3) by (auto simp: future_view_def future_resolved_def)

lemma sim_anonymous:
  assumes "sim ask st anon named" "\<forall>i. ws_anonymousFuture st = Some i \<longrightarrow> future_resolved st i"
  shows "evaluated_view anon = anonymousResponse st"
  using simD(9,10) [OF assms(1)] assms(2) promised_view [OF assms(1)]
  by (cases "ws_anonymousFuture st") (auto simp: evaluated_view_def anonymousResponse_def promised_def)

lemma sim_named:
  assumes "sim ask st anon named" "\<forall>i. map_of (ws_namedFutures st) t = Some i \<longrightarrow> fu_settled (ws_futures st ! i)"
  shows "evaluated_view (named t) = named_response st t" "map_option fst (named t) = map_of (ws_namedTransports st) t"
proof -
  note s = simD [OF assms(1)]
  have "evaluated_view (named t) = named_response st t \<and> map_option fst (named t) = map_of (ws_namedTransports st) t"
  proof (cases "map_of (ws_namedFutures st) t")
    case None
    then show ?thesis using s(5,6,11) [of t] by (simp add: evaluated_view_def named_response_def settled_of_def)
  next
    case (Some i)
    have i: "i < length (ws_futures st)" "fu_settled (ws_futures st ! i)" using s(1) [OF Some] assms(2) Some by auto
    then have "future_resolved st i" using s(4) by (simp add: future_resolved_def)
    then show ?thesis using s(5,6,11) [of t] Some i promised_view [OF assms(1) i(1)]
      by (simp add: evaluated_view_def named_response_def settled_of_def promised_def)
  qed
  then show "evaluated_view (named t) = named_response st t" "map_option fst (named t) = map_of (ws_namedTransports st) t" by simp_all
qed

lemma sim_match:
  assumes "sim ask st anon named" "ready st r" "well_bound r"
  shows "dr_Match r (evaluated_view anon) (\<lambda>t. evaluated_view (named t)) = dr_Match r (anonymousResponse st) (named_response st)"
  using assms(3) sim_anonymous [OF assms(1)] sim_named(1) [OF assms(1)] assms(2) unfolding well_bound_def ready_def by metis

lemma sim_append:
  assumes "sim ask st anon named" "fu_done f = None" "\<not> fu_settled f" "ws_futures st' = ws_futures st @ [f]"
    "ws_armedRules st' = []" "ws_terminalFuture st' = None" "ws_namedResponses st' = ws_namedResponses st" "ws_namedTransports st' = ws_namedTransports st"
    "fu_tag f = [] \<longrightarrow> ws_namedFutures st' = ws_namedFutures st \<and> named' = named"
    "fu_tag f \<noteq> [] \<longrightarrow> map_of (ws_namedFutures st) (fu_tag f) = None \<and> ws_namedFutures st' = gm_set (fu_tag f) (length (ws_futures st)) (ws_namedFutures st) \<and>
       named' = named(fu_tag f := Some (promised ask f))"
    "anon' = map_option (\<lambda>i. promised ask (ws_futures st' ! i)) (ws_anonymousFuture st')" "\<forall>i. ws_anonymousFuture st' = Some i \<longrightarrow> i < length (ws_futures st')"
  shows "sim ask st' anon' named'"
proof -
  note s = simD [OF assms(1)]
  have nth: "j < length (ws_futures st) \<Longrightarrow> ws_futures st' ! j = ws_futures st ! j" "ws_futures st' ! length (ws_futures st) = f" for j
    by (simp_all add: assms(4) nth_append)
  have fv: "j < length (ws_futures st) \<Longrightarrow> future_view st' j = future_view st j" for j by (simp add: future_view_def nth)
  have nf: "map_of (ws_namedFutures st') t = (if fu_tag f \<noteq> [] \<and> t = fu_tag f then Some (length (ws_futures st)) else map_of (ws_namedFutures st) t)" for t
    using assms(9,10) by auto
  have so: "settled_of st' t = settled_of st t" for t
    using s(1) [of t] assms(3,9,10) by (auto simp: settled_of_def nf nth split: option.split)
  have lt: "settled_of st t = Some j \<Longrightarrow> j < length (ws_futures st)" for t j
    using s(1) [of t] by (auto simp: settled_of_def split: option.splits if_splits)
  show ?thesis
  proof (rule simI)
    show "map_of (ws_namedResponses st') t = map_option (future_view st') (settled_of st' t)" for t
      using s(5) [of t] lt [of t] by (cases "settled_of st t") (auto simp: assms(7) so fv)
    show "map_of (ws_namedTransports st') t = map_option (\<lambda>j. fu_transport (ws_futures st' ! j)) (settled_of st' t)" for t
      using s(6) [of t] lt [of t] by (cases "settled_of st t") (auto simp: assms(8) so nth)
    show "named' t = map_option (\<lambda>i. promised ask (ws_futures st' ! i)) (map_of (ws_namedFutures st') t)" for t
    proof (cases "fu_tag f \<noteq> [] \<and> t = fu_tag f")
      case True
      then show ?thesis using assms(10) by (simp add: nf nth)
    next
      case False
      then have "named' t = named t" using assms(9,10) by (cases "fu_tag f = []") auto
      then show ?thesis using False s(1) [of t] s(11) [of t] by (cases "map_of (ws_namedFutures st) t") (auto simp: nf nth)
    qed
    show "map_of (ws_namedFutures st') t = Some i \<Longrightarrow> i < length (ws_futures st') \<and> fu_tag (ws_futures st' ! i) = t \<and> t \<noteq> []" for t i
      using s(1) [of t i] by (auto simp: nf nth assms(4) nth_append split: if_splits)
    show "j < length (ws_futures st') \<Longrightarrow> fu_tag (ws_futures st' ! j) \<noteq> [] \<Longrightarrow> map_of (ws_namedFutures st') (fu_tag (ws_futures st' ! j)) = Some j" for j
      using s(2) [of j] assms(10) by (cases "j < length (ws_futures st)") (auto simp: nf assms(4) nth_append less_Suc_eq)
    show "j < length (ws_futures st') \<Longrightarrow> fu_done (ws_futures st' ! j) \<in> {None, Some (snd (promised ask (ws_futures st' ! j)))} \<and> (fu_settled (ws_futures st' ! j) \<longrightarrow> fu_done (ws_futures st' ! j) \<noteq> None)" for j
      using s(3,4) [of j] assms(2,3) by (cases "j < length (ws_futures st)") (auto simp: assms(4) nth_append less_Suc_eq)
  qed (use assms(5,6,11,12) in auto)
qed

lemma sim_launch:
  assumes "sim ask st anon named" "e = (transport, ask transport (finalizeExchangeOptions R options))"
  shows "sim ask ((launchDNSEvaluate R st [] transport options)\<lparr>ws_anonymousFuture := Some (length (ws_futures st))\<rparr>) (Some e) named"
    "tag \<noteq> [] \<Longrightarrow> map_of (ws_namedFutures st) tag = None \<Longrightarrow>
      sim ask ((launchDNSEvaluate R st tag transport options)\<lparr>ws_namedFutures := gm_set tag (length (ws_futures st)) (ws_namedFutures st)\<rparr>) anon (named(tag := Some e))"
proof -
  let ?f = "\<lambda>tag. \<lparr>fu_tag = tag, fu_terminal = False, fu_transport = transport, fu_options = finalizeExchangeOptions R options, fu_done = None, fu_settled = False\<rparr>"
  have e: "promised ask (?f tag) = e" for tag by (simp add: promised_def assms(2))
  note s = simD [OF assms(1)]
  show "sim ask ((launchDNSEvaluate R st [] transport options)\<lparr>ws_anonymousFuture := Some (length (ws_futures st))\<rparr>) (Some e) named"
    by (rule sim_append [OF assms(1), of "?f []"]) (simp_all add: launchDNSEvaluate_def e s(7,8))
  assume "tag \<noteq> []" "map_of (ws_namedFutures st) tag = None"
  then show "sim ask ((launchDNSEvaluate R st tag transport options)\<lparr>ws_namedFutures := gm_set tag (length (ws_futures st)) (ws_namedFutures st)\<rparr>) anon (named(tag := Some e))"
    using s(9) by (intro sim_append [OF assms(1), of "?f tag"]) (auto simp: launchDNSEvaluate_def e s(7,8,10) nth_append less_SucI intro!: option.map_cong)
qed

lemma sim_skip:
  assumes "sim ask st anon named"
  shows "sim ask (next_rule st) anon named" "sim ask (st\<lparr>ws_effectiveOptions := opts\<rparr>) anon named" "sim ask (st\<lparr>ws_anonymousFuture := None\<rparr>) None named"
    "sim ask (st\<lparr>ws_wake := b\<rparr>) anon named"
proof -
  have so: "settled_of (next_rule st) = settled_of st" "settled_of (st\<lparr>ws_effectiveOptions := opts\<rparr>) = settled_of st" "settled_of (st\<lparr>ws_anonymousFuture := None\<rparr>) = settled_of st"
    "settled_of (st\<lparr>ws_wake := b\<rparr>) = settled_of st" by (simp_all add: fun_eq_iff settled_of_def next_rule_def split: option.split)
  have fv: "future_view (next_rule st) = future_view st" "future_view (st\<lparr>ws_effectiveOptions := opts\<rparr>) = future_view st" "future_view (st\<lparr>ws_anonymousFuture := None\<rparr>) = future_view st"
    "future_view (st\<lparr>ws_wake := b\<rparr>) = future_view st" by (simp_all add: fun_eq_iff future_view_def next_rule_def)
  note s = assms [unfolded sim_def Let_def]
  show "sim ask (next_rule st) anon named" "sim ask (st\<lparr>ws_effectiveOptions := opts\<rparr>) anon named" "sim ask (st\<lparr>ws_anonymousFuture := None\<rparr>) None named"
    "sim ask (st\<lparr>ws_wake := b\<rparr>) anon named"
    using s unfolding sim_def Let_def so fv by (simp_all add: next_rule_def)
qed

lemma walk_ok_same:
  assumes "walk_ok ask R message allow rules x st" "\<And>anon named. sim ask st anon named \<Longrightarrow> sim ask st' anon named \<and> same_walk st st'"
  shows "walk_ok ask R message allow rules x st'"
  using assms unfolding walk_ok_def same_walk_def by metis

lemma walk_okI:
  assumes "sim ask st anon named" "drop (ws_ruleIndex st) rules = r # rest"
    "walk_in_order ask R message allow rest (ws_effectiveOptions st) anon named = x"
    "distinct (evaluate_tags rest)" "\<forall>t \<in> set (evaluate_tags rest). map_of (ws_namedFutures st) t = None"
  shows "config_ok ask R message allow rules x (Walk (next_rule st))"
proof -
  have "drop (Suc (ws_ruleIndex st)) rules = rest" using assms(2) by (metis drop_Suc tl_drop list.sel(3))
  then show ?thesis using sim_skip(1) [OF assms(1)] assms(3-5) unfolding config_ok_def walk_ok_def config.case
    by (intro exI [of _ anon] exI [of _ named]) (simp add: next_rule_def)
qed

lemma evaluate_tags_Cons [simp]: "evaluate_tags (r # rs) = rule_tags r @ evaluate_tags rs"
  by (simp add: evaluate_tags_def)

lemma walk_evaluate_ok:
  assumes "sim ask st anon named" "drop (ws_ruleIndex st) rules = r # rest" "dr_Action r = ActionEvaluate server ro speculative tag"
    "(case rt_Transport R server of None \<Rightarrow> walk_in_order ask R message allow rest (ws_effectiveOptions st) (if tag = [] then None else anon) named
      | Some (transport, _) \<Rightarrow>
          (let e = (transport, ask transport (finalizeExchangeOptions R (applyDNSRouteOptions (ws_effectiveOptions st) ro)))
           in if tag = [] then walk_in_order ask R message allow rest (ws_effectiveOptions st) (Some e) named
              else walk_in_order ask R message allow rest (ws_effectiveOptions st) anon (named(tag := Some e)))) = x"
    "distinct (evaluate_tags (r # rest))" "\<forall>t \<in> set (evaluate_tags (r # rest)). map_of (ws_namedFutures st) t = None"
  shows "config_ok ask R message allow rules x (walk_evaluate R st server ro speculative tag)"
proof (cases "rt_Transport R server")
  case None
  then show ?thesis using assms sim_skip(3) [OF assms(1)]
    by (auto simp: walk_evaluate_def intro!: walk_okI [where r = r and rest = rest])
next
  case (Some p)
  obtain transport fake where p: "p = (transport, fake)" by (cases p)
  have a: "ws_armedRules st = []" by (rule simD(7) [OF assms(1)])
  let ?o = "applyDNSRouteOptions (ws_effectiveOptions st) ro"
  have l: "ws_ruleIndex (launchDNSEvaluate R st tag transport ?o) = ws_ruleIndex st" "ws_effectiveOptions (launchDNSEvaluate R st tag transport ?o) = ws_effectiveOptions st"
    "ws_namedFutures (launchDNSEvaluate R st tag transport ?o) = ws_namedFutures st" by (simp_all add: launchDNSEvaluate_def)
  show ?thesis
  proof (cases "tag = []")
    case True
    then show ?thesis using assms Some p a l sim_launch(1) [OF assms(1) refl, where transport = transport and R = R and options = ?o]
      by (auto simp: walk_evaluate_def Let_def intro!: walk_okI [where r = r and rest = rest])
  next
    case False
    then have "tag \<in> set (evaluate_tags (r # rest))" "tag \<notin> set (evaluate_tags rest)" using assms(3,5) by (auto simp: rule_tags_def)
    then show ?thesis using assms Some p a l False sim_launch(2) [OF assms(1) refl False, where transport = transport and R = R and options = ?o]
      by (auto simp: walk_evaluate_def Let_def intro!: walk_okI [where r = r and rest = rest])
  qed
qed

lemma walk_respond_ok:
  assumes "sim ask st anon named" "walk_ok ask R message allow rules x st" "ready st r" "well_bound r" "dr_Action r = ActionRespond"
    "(let e = (if dr_MatchResponseTag r \<noteq> [] then named (dr_MatchResponseTag r) else anon) in respond_result (evaluated_view e) (map_option fst e)) = x"
  shows "config_ok ask R message allow rules x (walk_respond st r)"
proof (cases "dr_MatchResponseTag r = []")
  case False
  then have "dr_MatchResponseTag r \<in> set (dr_MatchResponseTags r)" using assms(4,5) by (simp add: well_bound_def)
  then have "\<forall>i. map_of (ws_namedFutures st) (dr_MatchResponseTag r) = Some i \<longrightarrow> fu_settled (ws_futures st ! i)" using assms(3) unfolding ready_def by blast
  then show ?thesis using sim_named [OF assms(1)] assms(6) False simD(7) [OF assms(1)] by (simp add: walk_respond_def config_ok_def)
next
  case True
  note s = simD [OF assms(1)]
  show ?thesis
  proof (cases "ws_anonymousFuture st")
    case None
    then show ?thesis using True s(7,9) assms(6) by (simp add: walk_respond_def config_ok_def evaluated_view_def)
  next
    case (Some i)
    note i = s(10) [OF Some]
    show ?thesis
    proof (cases "future_resolved st i")
      case True
      then show ?thesis using \<open>dr_MatchResponseTag r = []\<close> Some s(7,9) assms(6) sim_anonymous [OF assms(1)]
        by (simp add: walk_respond_def config_ok_def anonymousResponse_def promised_def)
    next
      case False
      then have "\<not> dr_MatchResponseAnonymous r" using assms(3) Some by (auto simp: ready_def)
      then have "\<not> hasBindings r" using assms(4,5) True by (auto simp: well_bound_def hasBindings_def)
      then show ?thesis using True Some False i s(7) assms(2) by (simp add: walk_respond_def config_ok_def suspension_ok_def)
    qed
  qed
qed

lemma walk_match_ok:
  assumes "walk_ok ask R message allow rules x st" "ws_ruleIndex st < length rules" "r = rules ! ws_ruleIndex st" "ready st r" "well_bound r"
  shows "config_ok ask R message allow rules x (walk_match R message allow st r)"
proof -
  obtain anon named rest where sim: "sim ask st anon named" and rest: "drop (ws_ruleIndex st) rules = r # rest"
    and x: "walk_in_order ask R message allow (r # rest) (ws_effectiveOptions st) anon named = x"
    and tags: "distinct (evaluate_tags (r # rest))" "\<forall>t \<in> set (evaluate_tags (r # rest)). map_of (ws_namedFutures st) t = None"
    using assms(1-3) unfolding walk_ok_def by (metis Cons_nth_drop_Suc)
  have tags': "distinct (evaluate_tags rest)" "\<forall>t \<in> set (evaluate_tags rest). map_of (ws_namedFutures st) t = None" using tags by simp_all
  note skip = walk_okI [OF sim rest _ tags', where R = R and message = message and allow = allow and x = x]
  note m = sim_match [OF sim assms(4,5)] and a = simD(7) [OF sim] and tf = simD(8) [OF sim]
  show ?thesis
  proof (cases "dr_Match r (anonymousResponse st) (named_response st)")
    case False
    then show ?thesis using skip x m by (simp add: walk_match_def)
  next
    case True
    show ?thesis
    proof (cases "dr_Action r")
      case (ActionRouteOptions ro)
      have "config_ok ask R message allow rules x (Walk (next_rule (st\<lparr>ws_effectiveOptions := applyDNSRouteOptions (ws_effectiveOptions st) ro\<rparr>)))"
        using sim_skip(2) [OF sim] rest tags' x True m ActionRouteOptions by (intro walk_okI [where r = r and rest = rest]) auto
      then show ?thesis using True ActionRouteOptions by (simp add: walk_match_def)
    next
      case (ActionEvaluate server ro speculative tag)
      then show ?thesis using True x m walk_evaluate_ok [OF sim rest ActionEvaluate _ tags, where R = R and message = message and allow = allow and x = x] by (simp add: walk_match_def)
    next
      case ActionRespond
      then show ?thesis using True x m walk_respond_ok [OF sim assms(1,4,5) ActionRespond] by (simp add: walk_match_def)
    next
      case (ActionRoute server ro speculative)
      then show ?thesis using True x m skip a tf assms(1)
        by (cases "resolveDNSRoute R server ro allow (ws_effectiveOptions st)") (simp_all add: walk_match_def walk_route_def, simp add: config_ok_def suspension_ok_def pending_ok_def)
    next
      case (ActionReject how)
      then show ?thesis using True x m skip a by (cases "reject_result message how") (simp_all add: walk_match_def drained_def, simp add: config_ok_def)
    next
      case (ActionPredefined f)
      then show ?thesis using True x m a by (simp add: walk_match_def drained_def config_ok_def)
    next
      case ActionOther
      then show ?thesis using True x m skip by (simp add: walk_match_def)
    qed
  qed
qed

lemma settle_ok:
  assumes "walk_ok ask R message allow rules x st"
  shows "walk_ok ask R message allow rules x (settleDNSFutures st)" "tags_settled (settleDNSFutures st) r" "ws_ruleIndex (settleDNSFutures st) = ws_ruleIndex st"
    "length (ws_futures (settleDNSFutures st)) = length (ws_futures st)"
proof -
  obtain anon named where sim: "sim ask st anon named" using assms by (auto simp: walk_ok_def)
  note s = settle_sim [OF sim]
  then have s': "ws_namedFutures (settleDNSFutures st) = ws_namedFutures st" by (simp add: same_walk_def)
  show "walk_ok ask R message allow rules x (settleDNSFutures st)" using walk_ok_same [OF assms] settle_sim by blast
  show "tags_settled (settleDNSFutures st) r" using s simD(1) [OF sim] unfolding tags_settled_def s' by blast
  show "ws_ruleIndex (settleDNSFutures st) = ws_ruleIndex st" "length (ws_futures (settleDNSFutures st)) = length (ws_futures st)" using s by (simp_all add: same_walk_def)
qed

lemma pending_member:
  "i \<in> set (unresolved_tags st r) \<longleftrightarrow> \<not> future_resolved st i \<and> (\<exists>t \<in> set (dr_MatchResponseTags r). map_of (ws_namedFutures st) t = Some i)"
  "i \<in> set (unresolved_anonymous st r) \<longleftrightarrow> \<not> future_resolved st i \<and> dr_MatchResponseAnonymous r \<and> ws_anonymousFuture st = Some i"
proof -
  have "i \<in> set (case v of None \<Rightarrow> [] | Some j \<Rightarrow> [j]) \<longleftrightarrow> v = Some i" for v by (cases v) auto
  then show "i \<in> set (unresolved_tags st r) \<longleftrightarrow> \<not> future_resolved st i \<and> (\<exists>t \<in> set (dr_MatchResponseTags r). map_of (ws_namedFutures st) t = Some i)"
    by (auto simp: unresolved_tags_def)
  show "i \<in> set (unresolved_anonymous st r) \<longleftrightarrow> \<not> future_resolved st i \<and> dr_MatchResponseAnonymous r \<and> ws_anonymousFuture st = Some i"
    by (cases "ws_anonymousFuture st"; cases "dr_MatchResponseAnonymous r") (simp_all add: unresolved_anonymous_def, metis)
qed

lemma walk_bind_ok:
  assumes "walk_ok ask R message allow rules x st" "ws_ruleIndex st < length rules" "r = rules ! ws_ruleIndex st" "tags_settled st r" "well_bound r" "\<not> dr_Race r"
  shows "config_ok ask R message allow rules x (walk_bind R message allow st r)"
proof -
  obtain anon named where sim: "sim ask st anon named" using assms(1) by (auto simp: walk_ok_def)
  show ?thesis
  proof (cases "unresolved_tags st r @ unresolved_anonymous st r")
    case Nil
    then have "ready st r" using assms(4) pending_member [where st = st and r = r] unfolding ready_def tags_settled_def append_is_Nil_conv by (metis empty_iff list.set(1))
    then show ?thesis using walk_match_ok [OF assms(1-3) _ assms(5)] Nil assms(6) by (simp add: walk_bind_def)
  next
    case (Cons i js)
    then have "i \<in> set (unresolved_tags st r) \<or> i \<in> set (unresolved_anonymous st r)" by (metis list.set_intros(1) Un_iff set_append)
    then have "i < length (ws_futures st)" using simD(1,10) [OF sim] unfolding pending_member by blast
    then show ?thesis using Cons assms(1,6) by (simp add: walk_bind_def config_ok_def suspension_ok_def)
  qed
qed

lemma resume_sweep_ok:
  assumes "walk_ok ask R message allow rules x st" "suspension_ok ask R x st sus"
  shows "config_ok ask R message allow rules x (resume_sweep R message allow st sus)"
proof -
  have "ws_armedRules st = []" using assms(1) simD(7) by (auto simp: walk_ok_def)
  then have "sweepArmedDNSRules R message allow st = (None, st)" by (simp add: sweepArmedDNSRules_def)
  then show ?thesis using assms by (cases sus) (auto simp: resume_sweep_def config_ok_def suspension_ok_def)
qed

lemma resolve_ok:
  assumes "walk_ok ask R message allow rules x st" "i < length (ws_futures st)" "\<not> future_resolved st i"
  shows "walk_ok ask R message allow rules x (resolve ask i st)" "ws_ruleIndex (resolve ask i st) = ws_ruleIndex st"
    "suspension_ok ask R x (resolve ask i st) sus = suspension_ok ask R x st sus" "ws_wake (resolve ask i st)"
  using walk_ok_same [OF assms(1)] resolve_sim [OF _ assms(2,3)] by (auto simp: resolve_def Let_def suspension_ok_def split: dnsWalkSuspension.split)

lemma walk_step_ok:
  assumes "walk_step ask R message allow rules late c c'" "config_ok ask R message allow rules x c"
    "\<forall>r \<in> set rules. well_bound r \<and> \<not> dr_Race r \<and> (late \<longrightarrow> dr_MatchResponseTags r = [])"
  shows "config_ok ask R message allow rules x c'"
  using assms(1,2)
proof cases
  case (plain st)
  then show ?thesis using walk_match_ok assms(2,3) by (auto simp: config_ok_def [of _ _ _ _ _ _ "Walk st"] ready_def hasBindings_def)
next
  case (settle st)
  then show ?thesis using settle_ok assms(2) by (simp add: config_ok_def)
next
  case (binds st)
  then show ?thesis using walk_bind_ok assms(2,3) by (auto simp: config_ok_def [of _ _ _ _ _ _ "Bind st"])
next
  case (ends st)
  then have "walk_ok ask R message allow rules x st" using assms(2) by (simp add: config_ok_def)
  moreover from this obtain anon named where "sim ask st anon named" "walk_in_order ask R message allow [] (ws_effectiveOptions st) anon named = x"
    using ends by (auto simp: walk_ok_def)
  ultimately show ?thesis using ends simD(7) by (auto simp: walk_end_def drained_def config_ok_def suspension_ok_def pending_ok_def)
next
  case (resumed st sus)
  then have "suspension_ok ask R x (settleDNSFutures st) sus" using assms(2) settle_ok(4) by (auto simp: config_ok_def suspension_ok_def split: dnsWalkSuspension.splits)
  then show ?thesis using resumed settle_ok(1) assms(2) by (simp add: config_ok_def)
next
  case (swept st sus)
  then show ?thesis using resume_sweep_ok assms(2) by (simp add: config_ok_def [of _ _ _ _ _ _ "Sweep st sus"])
next
  case (woken st sus)
  then have "walk_ok ask R message allow rules x (st\<lparr>ws_wake := False\<rparr>)" using assms(2) walk_ok_same [where st' = "st\<lparr>ws_wake := False\<rparr>"] sim_skip(4)
    by (auto simp: config_ok_def same_walk_def future_resolved_def)
  then show ?thesis using woken assms(2) by (auto simp: config_ok_def suspension_ok_def)
next
  case (finished st p y)
  then show ?thesis using assms(2) by (simp add: config_ok_def pending_ok_def finishPendingExchange_def)
next
  case (answers i st k sus p)
  then show ?thesis using assms(2) resolve_ok [OF _ answers(3,4)] by (auto simp: config_ok_def)
next
  case (late_answers i st k sus)
  then have "ws_ruleIndex st < length rules \<Longrightarrow> tags_settled st' (rules ! ws_ruleIndex st)" for st' using assms(3) by (simp add: tags_settled_def)
  then show ?thesis using late_answers assms(2) resolve_ok [OF _ late_answers(4,5)] by (auto simp: config_ok_def)
qed


section \<open>The walk comes to an end\<close>

text \<open>Every future a walk refers to is one of its futures.\<close>

definition in_walk :: "dnsRuleWalkState \<Rightarrow> bool" where
  "in_walk st = ((\<forall>i. ws_anonymousFuture st = Some i \<longrightarrow> i < length (ws_futures st)) \<and> (\<forall>t i. map_of (ws_namedFutures st) t = Some i \<longrightarrow> i < length (ws_futures st)) \<and>
     (\<forall>a \<in> set (ws_armedRules st). \<forall>i \<in> set (ar_futures a). i < length (ws_futures st)) \<and> (\<forall>i. ws_terminalFuture st = Some i \<longrightarrow> i < length (ws_futures st)))"

definition pending_in :: "dnsRuleWalkState \<Rightarrow> dnsPendingExchange \<Rightarrow> bool" where
  "pending_in st p = (\<forall>i. pe_future p = Some i \<longrightarrow> i < length (ws_futures st))"

definition suspension_in :: "dnsRuleWalkState \<Rightarrow> dnsWalkSuspension \<Rightarrow> bool" where
  "suspension_in st sus = (case sus of Await i \<Rightarrow> i < length (ws_futures st) | Drain \<Rightarrow> True | Pending p \<Rightarrow> pending_in st p)"

definition quiet :: "dnsRuleWalkState \<Rightarrow> bool" where
  "quiet st = (\<forall>i < length (ws_futures st). future_resolved st i)"

definition live :: "DNSRule list \<Rightarrow> config \<Rightarrow> bool" where
  "live rules c = (case c of
     Walk st \<Rightarrow> in_walk st
   | Bind st \<Rightarrow> in_walk st \<and> ws_ruleIndex st < length rules
   | Resume st sus \<Rightarrow> in_walk st \<and> suspension_in st sus
   | Sweep st sus \<Rightarrow> in_walk st \<and> suspension_in st sus
   | Waiting st sus \<Rightarrow> in_walk st \<and> suspension_in st sus \<and> (ws_wake st \<or> \<not> quiet st)
   | Finishing st p \<Rightarrow> pending_in st p
   | Finished y \<Rightarrow> True)"

text \<open>What one turn of the loop over the rules can lead to.\<close>

definition outcome :: "dnsRuleWalkState \<Rightarrow> config \<Rightarrow> bool" where
  "outcome st c = (case c of
     Walk st' \<Rightarrow> in_walk st' \<and> ws_ruleIndex st' = Suc (ws_ruleIndex st)
   | Resume st' sus \<Rightarrow> in_walk st' \<and> suspension_in st' sus \<and> ws_ruleIndex st' = ws_ruleIndex st \<and>
       (case sus of Await i \<Rightarrow> \<not> future_resolved st i \<and> i < length (ws_futures st) | Drain \<Rightarrow> ws_armedRules st \<noteq> [] | Pending p \<Rightarrow> True)
   | Finished x \<Rightarrow> True
   | _ \<Rightarrow> False)"

lemma sweep_from_none:
  "sweep_from R message allow st kept as = (None, st') \<Longrightarrow> st' = st\<lparr>ws_armedRules := kept @ filter (\<lambda>a. \<not> list_all (future_resolved st) (ar_futures a)) as\<rparr>"
  by (induction R message allow st kept as rule: sweep_from.induct) (auto split: if_splits option.splits)

lemma sweep_from_some:
  "sweep_from R message allow st kept as = (Some c, st') \<Longrightarrow>
    (\<exists>ar. st' = st\<lparr>ws_armedRules := ar\<rparr> \<and> set ar \<subseteq> set kept \<union> set as) \<and> (\<forall>p. c = CommitPending p \<longrightarrow> pe_future p = None)"
proof (induction as arbitrary: kept)
  case (Cons a as)
  have act: "armed_act R message allow st a = Some (CommitPending p) \<Longrightarrow> pe_future p = None" for p
    by (auto simp: armed_act_def split: RuleAction.splits dnsRouteStatus.splits)
  consider "sweep_from R message allow st (kept @ [a]) as = (Some c, st')" | "sweep_from R message allow st kept as = (Some c, st')"
    | "armed_act R message allow st a = Some c" "st' = st\<lparr>ws_armedRules := kept @ as\<rparr>"
    using Cons.prems by (auto split: if_splits option.splits)
  then show ?case
  proof cases
    case 1
    from Cons.IH [OF this] show ?thesis by auto
  next
    case 2
    from Cons.IH [OF this] show ?thesis by auto
  next
    case 3
    then show ?thesis using act by auto
  qed
qed simp

lemma in_walk_armed: "in_walk st \<Longrightarrow> set ar \<subseteq> set (ws_armedRules st) \<Longrightarrow> in_walk (st\<lparr>ws_armedRules := ar\<rparr>)"
  unfolding in_walk_def by auto

lemma in_walk_skip [simp]: "in_walk (next_rule st) = in_walk st" "in_walk (st\<lparr>ws_effectiveOptions := e\<rparr>) = in_walk st" "in_walk (st\<lparr>ws_wake := b\<rparr>) = in_walk st"
  by (simp_all add: in_walk_def next_rule_def)

lemma launch_fields [simp]:
  "length (ws_futures (launchDNSEvaluate R st tag t e)) = Suc (length (ws_futures st))" "ws_ruleIndex (launchDNSEvaluate R st tag t e) = ws_ruleIndex st"
  "ws_armedRules (launchDNSEvaluate R st tag t e) = ws_armedRules st" "ws_namedFutures (launchDNSEvaluate R st tag t e) = ws_namedFutures st"
  "ws_anonymousFuture (launchDNSEvaluate R st tag t e) = ws_anonymousFuture st" "ws_terminalFuture (launchDNSEvaluate R st tag t e) = ws_terminalFuture st"
  by (simp_all add: launchDNSEvaluate_def)

lemma walk_evaluate_outcome: "in_walk st \<Longrightarrow> outcome st (walk_evaluate R st server ro speculative tag)"
  by (auto simp: walk_evaluate_def outcome_def Let_def suspension_in_def next_rule_def in_walk_def less_Suc_eq split: option.split)

lemma walk_respond_outcome: "in_walk st \<Longrightarrow> outcome st (walk_respond st r)"
  by (auto simp: walk_respond_def outcome_def suspension_in_def in_walk_def split: option.split)

lemma walk_route_outcome: "in_walk st \<Longrightarrow> outcome st (walk_route R allow st server ro speculative)"
  by (auto simp: walk_route_def outcome_def Let_def suspension_in_def pending_in_def next_rule_def in_walk_def less_Suc_eq split: option.split dnsRouteStatus.split)

lemma walk_match_outcome:
  assumes "in_walk st"
  shows "outcome st (walk_match R message allow st r)"
proof (cases "dr_Match r (anonymousResponse st) (named_response st)")
  case False
  then show ?thesis using assms by (simp add: walk_match_def outcome_def) (simp add: next_rule_def)
next
  case True
  then show ?thesis using assms walk_evaluate_outcome walk_respond_outcome walk_route_outcome
    by (cases "dr_Action r") (auto simp: walk_match_def drained_def outcome_def suspension_in_def next_rule_def in_walk_def split: option.split)
qed

lemma pending_in_walk:
  assumes "in_walk st" "i \<in> set (unresolved_tags st r @ unresolved_anonymous st r)"
  shows "i < length (ws_futures st)" "\<not> future_resolved st i"
  using assms pending_member [of i st r] unfolding in_walk_def set_append Un_iff by blast+

lemma walk_race_outcome:
  assumes "in_walk st"
  shows "outcome st (walk_race R message allow st r)"
proof -
  let ?p = "unresolved_tags st r @ unresolved_anonymous st r"
  define a where "a = \<lparr>ar_rule = r, ar_futures = ?p, ar_anonymousFuture = (if dr_MatchResponseAnonymous r then ws_anonymousFuture st else None),
    ar_bindsAnonymous = dr_MatchResponseAnonymous r, ar_options = ws_effectiveOptions st\<rparr>"
  define st1 where "st1 = st\<lparr>ws_armedRules := ws_armedRules st @ [a]\<rparr>"
  have "\<forall>i \<in> set ?p. i < length (ws_futures st)" using pending_in_walk(1) [OF assms] by blast
  then have st1: "in_walk st1" "ws_ruleIndex st1 = ws_ruleIndex st" using assms by (auto simp: in_walk_def st1_def a_def)
  obtain c st2 where sw: "sweep_from R message allow st1 [] (ws_armedRules st1) = (c, st2)" by fastforce
  have race: "walk_race R message allow st r = (if ?p \<noteq> [] then Walk (next_rule st1) else (case c of
      Some (CommitResult x) \<Rightarrow> Finished x
    | Some (CommitPending p) \<Rightarrow> Resume (st2\<lparr>ws_armedRules := []\<rparr>) (Pending p)
    | None \<Rightarrow> Walk (next_rule st2)))"
    unfolding walk_race_def Let_def a_def [symmetric] st1_def [symmetric] sweepArmedDNSRules_def sw by (simp split: option.split commit.split)
  have in2: "in_walk st2 \<and> in_walk (st2\<lparr>ws_armedRules := []\<rparr>) \<and> ws_ruleIndex st2 = ws_ruleIndex st" if "st2 = st1\<lparr>ws_armedRules := ar\<rparr>" "set ar \<subseteq> set (ws_armedRules st1)" for ar
    using in_walk_armed [OF st1(1) that(2)] in_walk_armed [OF st1(1), of "[]"] that(1) st1(2) by simp
  show ?thesis
  proof (cases c)
    case None
    have "in_walk st2 \<and> in_walk (st2\<lparr>ws_armedRules := []\<rparr>) \<and> ws_ruleIndex st2 = ws_ruleIndex st"
      by (rule in2, rule sweep_from_none [OF sw [unfolded None]]) auto
    then show ?thesis unfolding race using st1 None by (simp add: outcome_def) (simp add: next_rule_def)
  next
    case (Some d)
    obtain ar where "st2 = st1\<lparr>ws_armedRules := ar\<rparr>" "set ar \<subseteq> set (ws_armedRules st1)" "\<And>p. d = CommitPending p \<Longrightarrow> pe_future p = None"
      using sweep_from_some [OF sw [unfolded Some]] by auto
    then show ?thesis unfolding race using in2 st1 Some
      by (cases d) (simp_all add: outcome_def suspension_in_def pending_in_def, simp_all add: next_rule_def)
  qed
qed

lemma walk_bind_outcome:
  assumes "in_walk st"
  shows "outcome st (walk_bind R message allow st r)"
proof (cases "unresolved_tags st r @ unresolved_anonymous st r")
  case Nil
  then show ?thesis using assms walk_match_outcome walk_race_outcome by (simp add: walk_bind_def)
next
  case (Cons i js)
  then have "i < length (ws_futures st)" "\<not> future_resolved st i" using pending_in_walk [OF assms, of i r] by simp_all
  then show ?thesis using assms Cons walk_race_outcome by (simp add: walk_bind_def) (simp add: outcome_def suspension_in_def)
qed

lemma settle_frame:
  "length (ws_futures (settleDNSFutures st)) = length (ws_futures st) \<and> future_resolved (settleDNSFutures st) = future_resolved st \<and>
    ws_anonymousFuture (settleDNSFutures st) = ws_anonymousFuture st \<and> ws_namedFutures (settleDNSFutures st) = ws_namedFutures st \<and>
    ws_armedRules (settleDNSFutures st) = ws_armedRules st \<and> ws_terminalFuture (settleDNSFutures st) = ws_terminalFuture st \<and> ws_ruleIndex (settleDNSFutures st) = ws_ruleIndex st"
proof -
  have "n \<le> length (ws_futures st) \<Longrightarrow> length (ws_futures (foldl settle_one st [0..<n])) = length (ws_futures st) \<and> future_resolved (foldl settle_one st [0..<n]) = future_resolved st \<and>
    ws_anonymousFuture (foldl settle_one st [0..<n]) = ws_anonymousFuture st \<and> ws_namedFutures (foldl settle_one st [0..<n]) = ws_namedFutures st \<and>
    ws_armedRules (foldl settle_one st [0..<n]) = ws_armedRules st \<and> ws_terminalFuture (foldl settle_one st [0..<n]) = ws_terminalFuture st \<and>
    ws_ruleIndex (foldl settle_one st [0..<n]) = ws_ruleIndex st" for n
    by (induction n) (simp_all add: settle_one_futures(1) settle_one_done(1) fun_eq_iff)
  from this [of "length (ws_futures st)"] show ?thesis by (simp add: settleDNSFutures_def)
qed

lemma settle_in_walk [simp]:
  "in_walk (settleDNSFutures st) = in_walk st" "quiet (settleDNSFutures st) = quiet st" "suspension_in (settleDNSFutures st) sus = suspension_in st sus"
  using settle_frame [of st] by (simp_all add: in_walk_def quiet_def suspension_in_def pending_in_def split: dnsWalkSuspension.split)

lemma resolve_frame [simp]:
  "length (ws_futures (resolve ask i st)) = length (ws_futures st)" "ws_ruleIndex (resolve ask i st) = ws_ruleIndex st" "ws_armedRules (resolve ask i st) = ws_armedRules st"
  "in_walk (resolve ask i st) = in_walk st" "suspension_in (resolve ask i st) sus = suspension_in st sus" "pending_in (resolve ask i st) p = pending_in st p" "ws_wake (resolve ask i st)"
  by (simp_all add: resolve_def Let_def in_walk_def suspension_in_def pending_in_def split: dnsWalkSuspension.split)

lemma resolve_resolved: "i < length (ws_futures st) \<Longrightarrow> future_resolved (resolve ask i st) j = (future_resolved st j \<or> j = i)"
  by (auto simp: resolve_def Let_def future_resolved_def nth_list_update)

text \<open>All answers that are still missing can arrive.\<close>

lemma answer_all:
  assumes "k \<in> {Walk, \<lambda>st. Resume st sus, \<lambda>st. Waiting st sus, \<lambda>st. Finishing st p}"
  shows "\<exists>st'. (walk_step ask R message allow rules late)\<^sup>*\<^sup>* (k st) (k st') \<and> quiet st' \<and> length (ws_futures st') = length (ws_futures st) \<and>
    ws_ruleIndex st' = ws_ruleIndex st \<and> ws_armedRules st' = ws_armedRules st \<and> (in_walk st \<longrightarrow> in_walk st') \<and> (\<not> quiet st \<longrightarrow> ws_wake st') \<and> (ws_wake st \<longrightarrow> ws_wake st')"
proof (induction "card {i. i < length (ws_futures st) \<and> \<not> future_resolved st i}" arbitrary: st rule: less_induct)
  case less
  show ?case
  proof (cases "quiet st")
    case False
    then obtain i where i: "i < length (ws_futures st)" "\<not> future_resolved st i" by (auto simp: quiet_def)
    let ?st = "resolve ask i st"
    have "{j. j < length (ws_futures ?st) \<and> \<not> future_resolved ?st j} \<subset> {j. j < length (ws_futures st) \<and> \<not> future_resolved st j}" using i by (auto simp: resolve_resolved)
    then have "card {j. j < length (ws_futures ?st) \<and> \<not> future_resolved ?st j} < card {j. j < length (ws_futures st) \<and> \<not> future_resolved st j}"
      by (rule psubset_card_mono [rotated]) simp
    from less [OF this] obtain st' where st': "(walk_step ask R message allow rules late)\<^sup>*\<^sup>* (k ?st) (k st')" "quiet st'" "length (ws_futures st') = length (ws_futures st)"
      "ws_ruleIndex st' = ws_ruleIndex st" "ws_armedRules st' = ws_armedRules st" "in_walk st \<longrightarrow> in_walk st'" "ws_wake st'" by auto
    have "walk_step ask R message allow rules late (k st) (k ?st)" by (rule walk_step.answers [OF i assms])
    then have "(walk_step ask R message allow rules late)\<^sup>*\<^sup>* (k st) (k st')" using st'(1) by (rule converse_rtranclp_into_rtranclp)
    then show ?thesis using st'(2-) by blast
  qed blast
qed

lemma step_then: "walk_step ask R message allow rules late c c' \<Longrightarrow> \<exists>x. (walk_step ask R message allow rules late)\<^sup>*\<^sup>* c' (Finished x) \<Longrightarrow>
    \<exists>x. (walk_step ask R message allow rules late)\<^sup>*\<^sup>* c (Finished x)"
  by (meson converse_rtranclp_into_rtranclp)

lemma steps_then: "(walk_step ask R message allow rules late)\<^sup>*\<^sup>* c c' \<Longrightarrow> \<exists>x. (walk_step ask R message allow rules late)\<^sup>*\<^sup>* c' (Finished x) \<Longrightarrow>
    \<exists>x. (walk_step ask R message allow rules late)\<^sup>*\<^sup>* c (Finished x)"
  by (meson rtranclp_trans)

lemma finishing_ends:
  assumes "pending_in st p"
  shows "\<exists>x. (walk_step ask R message allow rules late)\<^sup>*\<^sup>* (Finishing st p) (Finished x)"
proof -
  obtain st' where st': "(walk_step ask R message allow rules late)\<^sup>*\<^sup>* (Finishing st p) (Finishing st' p)" "quiet st'" "length (ws_futures st') = length (ws_futures st)"
    using answer_all [of "\<lambda>st. Finishing st p" _ p] by blast
  have "\<exists>x. finishPendingExchange ask R st' p = Some x"
    using assms st'(2,3) by (cases "pe_future p") (auto simp: finishPendingExchange_def pending_in_def quiet_def future_resolved_def)
  then show ?thesis using steps_then [OF st'(1)] walk_step.finished by blast
qed

text \<open>A suspended walk whose answers are all there ends or goes on with no rule left armed.\<close>

lemma sweep_ends:
  assumes "in_walk st" "suspension_in st sus" "quiet st \<or> (\<exists>p. sus = Pending p)"
  shows "(\<exists>x. (walk_step ask R message allow rules late)\<^sup>*\<^sup>* (Sweep st sus) (Finished x)) \<or>
    (\<nexists>p. sus = Pending p) \<and>
    (\<exists>st1. walk_step ask R message allow rules late (Sweep st sus) (Walk st1) \<and> in_walk st1 \<and> quiet st1 \<and> ws_armedRules st1 = [] \<and> ws_ruleIndex st1 = ws_ruleIndex st)"
proof -
  obtain c st1 where sw: "sweep_from R message allow st [] (ws_armedRules st) = (c, st1)" by fastforce
  note step = walk_step.swept [of ask R message allow rules late st sus]
  note sr = resume_sweep_def [of R message allow st sus, unfolded sweepArmedDNSRules_def sw]
  show ?thesis
  proof (cases c)
    case None
    have st1: "st1 = st\<lparr>ws_armedRules := filter (\<lambda>a. \<not> list_all (future_resolved st) (ar_futures a)) (ws_armedRules st)\<rparr>"
      using sweep_from_none [OF sw [unfolded None]] by simp
    show ?thesis
    proof (cases "\<exists>p. sus = Pending p")
      case True
      then obtain p where p: "sus = Pending p" by blast
      then have "resume_sweep R message allow st sus = Finishing st1 p" using sr None by simp
      moreover have "pending_in st1 p" using assms(2) p st1 by (simp add: suspension_in_def pending_in_def)
      ultimately show ?thesis using step step_then finishing_ends by metis
    next
      case False
      then have q: "quiet st" using assms(3) by blast
      then have "\<forall>a \<in> set (ws_armedRules st). list_all (future_resolved st) (ar_futures a)" using assms(1) by (auto simp: in_walk_def quiet_def list_all_iff)
      then have e: "ws_armedRules st1 = []" using st1 by (simp add: filter_empty_conv)
      have f: "in_walk st1" "quiet st1" "ws_ruleIndex st1 = ws_ruleIndex st" "future_resolved st1 = future_resolved st"
        using st1 q in_walk_armed [OF assms(1)] by (auto simp: quiet_def future_resolved_def fun_eq_iff)
      have "resume_sweep R message allow st sus = Walk st1" using sr None False e f(4) assms(2) q
        by (cases sus) (auto simp: suspension_in_def quiet_def)
      then show ?thesis using step e f False by auto
    qed
  next
    case (Some d)
    obtain ar where d: "st1 = st\<lparr>ws_armedRules := ar\<rparr>" "\<And>p. d = CommitPending p \<Longrightarrow> pe_future p = None" using sweep_from_some [OF sw [unfolded Some]] by auto
    show ?thesis
    proof (cases d)
      case (CommitResult x)
      then have "resume_sweep R message allow st sus = Finished x" using sr Some by simp
      then show ?thesis using step by auto
    next
      case (CommitPending p)
      then have "resume_sweep R message allow st sus = Finishing st1 p" "pending_in st1 p" using sr Some d(2) by (simp_all add: pending_in_def)
      then show ?thesis using step step_then finishing_ends by metis
    qed
  qed
qed

lemma outcome_frame:
  "ws_ruleIndex st' = ws_ruleIndex st \<Longrightarrow> future_resolved st' = future_resolved st \<Longrightarrow> length (ws_futures st') = length (ws_futures st) \<Longrightarrow>
    ws_armedRules st' = ws_armedRules st \<Longrightarrow> outcome st' c = outcome st c"
  unfolding outcome_def by (simp split: config.split dnsWalkSuspension.split)

lemma walk_turn:
  assumes "in_walk st"
  shows "\<exists>c. (walk_step ask R message allow rules late)\<^sup>*\<^sup>* (Walk st) c \<and> outcome st c \<and> (length rules \<le> ws_ruleIndex st \<longrightarrow> (\<forall>st'. c \<noteq> Walk st'))"
proof (cases "ws_ruleIndex st < length rules")
  case True
  let ?r = "rules ! ws_ruleIndex st"
  show ?thesis
  proof (cases "hasBindings ?r")
    case False
    then have "walk_step ask R message allow rules late (Walk st) (walk_match R message allow st ?r)" by (rule walk_step.plain [OF True])
    moreover have "outcome st (walk_match R message allow st ?r)" by (rule walk_match_outcome [OF assms])
    ultimately show ?thesis using True by (intro exI [of _ "walk_match R message allow st ?r"]) (simp add: r_into_rtranclp)
  next
    case bs: True
    let ?st = "settleDNSFutures st"
    have fr: "ws_ruleIndex ?st = ws_ruleIndex st" and o: "outcome ?st c = outcome st c" for c using settle_frame [of st] outcome_frame [of ?st st] by simp_all
    have "outcome st (walk_bind R message allow ?st ?r)" using walk_bind_outcome [of ?st] assms o by simp
    moreover have "(walk_step ask R message allow rules late)\<^sup>*\<^sup>* (Walk st) (walk_bind R message allow ?st ?r)"
      by (rule converse_rtranclp_into_rtranclp, rule walk_step.settle [OF True bs], rule r_into_rtranclp, rule walk_step.binds [of _ _ _ _ _ _ ?st, unfolded fr])
    ultimately show ?thesis using True by (intro exI [of _ "walk_bind R message allow ?st ?r"]) simp
  qed
next
  case False
  then have "walk_step ask R message allow rules late (Walk st) (walk_end R st)" by (simp add: walk_step.ends)
  moreover have "outcome st (walk_end R st)" "\<forall>st'. walk_end R st \<noteq> Walk st'"
    using assms by (simp_all add: walk_end_def drained_def outcome_def suspension_in_def pending_in_def)
  ultimately show ?thesis by blast
qed

lemma resume_pending_ends:
  assumes "in_walk st" "pending_in st p"
  shows "\<exists>x. (walk_step ask R message allow rules late)\<^sup>*\<^sup>* (Resume st (Pending p)) (Finished x)"
proof -
  have "suspension_in (settleDNSFutures st) (Pending p)" "in_walk (settleDNSFutures st)" using assms by (simp_all add: suspension_in_def [of st])
  then have "\<exists>x. (walk_step ask R message allow rules late)\<^sup>*\<^sup>* (Sweep (settleDNSFutures st) (Pending p)) (Finished x)"
    using sweep_ends [where sus = "Pending p"] by blast
  then show ?thesis by (rule step_then [OF walk_step.resumed])
qed

lemma quiet_turn_ends:
  assumes "in_walk st" "quiet st" "ws_armedRules st = []"
    "\<And>st'. in_walk st' \<Longrightarrow> ws_ruleIndex st' = Suc (ws_ruleIndex st) \<Longrightarrow> ws_ruleIndex st < length rules \<Longrightarrow> \<exists>x. (walk_step ask R message allow rules late)\<^sup>*\<^sup>* (Walk st') (Finished x)"
  shows "\<exists>x. (walk_step ask R message allow rules late)\<^sup>*\<^sup>* (Walk st) (Finished x)"
proof -
  obtain c where c: "(walk_step ask R message allow rules late)\<^sup>*\<^sup>* (Walk st) c" "outcome st c" "length rules \<le> ws_ruleIndex st \<longrightarrow> (\<forall>st'. c \<noteq> Walk st')"
    using walk_turn [OF assms(1)] by blast
  have "\<exists>x. (walk_step ask R message allow rules late)\<^sup>*\<^sup>* c (Finished x)"
  proof (cases c)
    case (Walk st')
    then show ?thesis using assms(4) c(2,3) by (auto simp: outcome_def)
  next
    case (Resume st' sus)
    then obtain p where "sus = Pending p" "in_walk st'" "pending_in st' p" using c(2) assms(2,3)
      by (cases sus) (auto simp: outcome_def quiet_def suspension_in_def)
    then show ?thesis using Resume resume_pending_ends by blast
  qed (use c(2) in \<open>auto simp: outcome_def\<close>)
  then show ?thesis by (rule steps_then [OF c(1)])
qed

lemma resume_quiet_ends:
  assumes "in_walk st" "suspension_in st sus" "quiet st"
    "\<And>st'. in_walk st' \<Longrightarrow> quiet st' \<Longrightarrow> ws_armedRules st' = [] \<Longrightarrow> ws_ruleIndex st' = ws_ruleIndex st \<Longrightarrow> \<exists>x. (walk_step ask R message allow rules late)\<^sup>*\<^sup>* (Walk st') (Finished x)"
  shows "\<exists>x. (walk_step ask R message allow rules late)\<^sup>*\<^sup>* (Resume st sus) (Finished x)"
proof -
  let ?st = "settleDNSFutures st"
  have idx: "ws_ruleIndex ?st = ws_ruleIndex st" using settle_frame [of st] by simp
  have "in_walk ?st" "suspension_in ?st sus" "quiet ?st \<or> (\<exists>p. sus = Pending p)" using assms by simp_all
  from sweep_ends [OF this, of ask R message allow rules late]
  have "\<exists>x. (walk_step ask R message allow rules late)\<^sup>*\<^sup>* (Sweep ?st sus) (Finished x)"
  proof (elim disjE conjE exE)
    fix st1 assume st1: "walk_step ask R message allow rules late (Sweep ?st sus) (Walk st1)" "in_walk st1" "quiet st1" "ws_armedRules st1 = []" "ws_ruleIndex st1 = ws_ruleIndex ?st"
    show ?thesis by (rule step_then [OF st1(1) assms(4) [OF st1(2-5) [unfolded idx]]])
  qed blast
  then show ?thesis by (rule step_then [OF walk_step.resumed])
qed

lemma resume_ends:
  assumes "in_walk st" "suspension_in st sus"
    "\<And>st'. in_walk st' \<Longrightarrow> quiet st' \<Longrightarrow> ws_armedRules st' = [] \<Longrightarrow> ws_ruleIndex st' = ws_ruleIndex st \<Longrightarrow> \<exists>x. (walk_step ask R message allow rules late)\<^sup>*\<^sup>* (Walk st') (Finished x)"
  shows "\<exists>x. (walk_step ask R message allow rules late)\<^sup>*\<^sup>* (Resume st sus) (Finished x)"
proof -
  obtain st' where st': "(walk_step ask R message allow rules late)\<^sup>*\<^sup>* (Resume st sus) (Resume st' sus)" "quiet st'" "length (ws_futures st') = length (ws_futures st)"
    "ws_ruleIndex st' = ws_ruleIndex st" "in_walk st'" using answer_all [of "\<lambda>st. Resume st sus" sus _ ask R message allow rules late st] assms(1) by auto
  have "suspension_in st' sus" using assms(2) st'(3) by (simp add: suspension_in_def pending_in_def split: dnsWalkSuspension.splits)
  then have "\<exists>x. (walk_step ask R message allow rules late)\<^sup>*\<^sup>* (Resume st' sus) (Finished x)" using resume_quiet_ends [OF st'(5) _ st'(2)] assms(3) st'(4) by metis
  then show ?thesis by (rule steps_then [OF st'(1)])
qed

lemma walk_ends:
  assumes "in_walk st"
  shows "\<exists>x. (walk_step ask R message allow rules late)\<^sup>*\<^sup>* (Walk st) (Finished x)"
  using assms
proof (induction "length rules - ws_ruleIndex st" arbitrary: st rule: less_induct)
  case less
  have next_ends: "\<exists>x. (walk_step ask R message allow rules late)\<^sup>*\<^sup>* (Walk st') (Finished x)"
    if "in_walk st'" "ws_ruleIndex st' = Suc (ws_ruleIndex st)" "ws_ruleIndex st < length rules" for st' using less(1) [of st'] that by simp
  have quiet_ends: "\<exists>x. (walk_step ask R message allow rules late)\<^sup>*\<^sup>* (Walk st') (Finished x)"
    if "in_walk st'" "quiet st'" "ws_armedRules st' = []" "ws_ruleIndex st' = ws_ruleIndex st" for st'
    using quiet_turn_ends [OF that(1-3)] next_ends that(4) by metis
  obtain st' where st': "(walk_step ask R message allow rules late)\<^sup>*\<^sup>* (Walk st) (Walk st')" "quiet st'" "ws_ruleIndex st' = ws_ruleIndex st" "in_walk st'"
    using answer_all [of Walk] less(2) by blast
  obtain c where c: "(walk_step ask R message allow rules late)\<^sup>*\<^sup>* (Walk st') c" "outcome st' c" "length rules \<le> ws_ruleIndex st' \<longrightarrow> (\<forall>st'. c \<noteq> Walk st')"
    using walk_turn [OF st'(4)] by blast
  have "\<exists>x. (walk_step ask R message allow rules late)\<^sup>*\<^sup>* c (Finished x)"
  proof (cases c)
    case (Walk st2)
    then show ?thesis using next_ends c(2,3) st'(3) by (auto simp: outcome_def)
  next
    case (Resume st2 sus)
    then have st2: "in_walk st2" "suspension_in st2 sus" "ws_ruleIndex st2 = ws_ruleIndex st" using c(2) st'(3) by (simp_all add: outcome_def)
    have "\<exists>x. (walk_step ask R message allow rules late)\<^sup>*\<^sup>* (Resume st2 sus) (Finished x)" using resume_ends [OF st2(1,2)] quiet_ends st2(3) by metis
    then show ?thesis using Resume by blast
  qed (use c(2) in \<open>auto simp: outcome_def\<close>)
  then show ?case using steps_then [OF c(1)] steps_then [OF st'(1)] by blast
qed

lemma outcome_live: "outcome st c \<Longrightarrow> live rules c"
  by (cases c) (simp_all add: outcome_def live_def)

lemma resume_sweep_live:
  assumes "in_walk st" "suspension_in st sus"
  shows "live rules (resume_sweep R message allow st sus)"
proof -
  obtain c st1 where sw: "sweep_from R message allow st [] (ws_armedRules st) = (c, st1)" by fastforce
  note sr = resume_sweep_def [of R message allow st sus, unfolded sweepArmedDNSRules_def sw]
  show ?thesis
  proof (cases c)
    case None
    let ?ar = "filter (\<lambda>a. \<not> list_all (future_resolved st) (ar_futures a)) (ws_armedRules st)"
    have st1: "st1 = st\<lparr>ws_armedRules := ?ar\<rparr>" using sweep_from_none [OF sw [unfolded None]] by simp
    have f: "in_walk st1" "future_resolved st1 = future_resolved st" "quiet st1 = quiet st" "suspension_in st1 sus"
      using in_walk_armed [OF assms(1), of ?ar] assms(2) by (auto simp: st1 future_resolved_def quiet_def fun_eq_iff suspension_in_def pending_in_def split: dnsWalkSuspension.splits)
    have nq: "\<not> quiet st" if "?ar \<noteq> []"
      using that assms(1) unfolding filter_empty_conv in_walk_def quiet_def list_all_iff by blast
    show ?thesis
    proof (cases sus)
      case (Await i)
      then have "\<not> future_resolved st i \<Longrightarrow> \<not> quiet st" using assms(2) by (auto simp: quiet_def suspension_in_def)
      then show ?thesis using sr None Await f by (simp add: live_def)
    next
      case Drain
      have "ws_armedRules st1 = ?ar" by (simp add: st1)
      then show ?thesis using sr None Drain f nq by (simp add: live_def)
    next
      case (Pending p)
      then show ?thesis using sr None f(4) by (simp add: live_def suspension_in_def)
    qed
  next
    case (Some d)
    then show ?thesis using sr sweep_from_some [OF sw [unfolded Some]] by (cases d) (simp_all add: live_def pending_in_def)
  qed
qed

lemma live_step:
  assumes "walk_step ask R message allow rules late c c'" "live rules c"
  shows "live rules c'"
  using assms
proof cases
  case (plain st)
  then show ?thesis using outcome_live [OF walk_match_outcome] assms(2) by (simp add: live_def [of _ "Walk st"])
next
  case (settle st)
  then show ?thesis using assms(2) settle_frame [of st] by (simp add: live_def)
next
  case (binds st)
  then show ?thesis using outcome_live [OF walk_bind_outcome] assms(2) by (simp add: live_def [of _ "Bind st"])
next
  case (ends st)
  then have "outcome st (walk_end R st)" using assms(2) by (simp add: live_def walk_end_def drained_def outcome_def suspension_in_def pending_in_def)
  then show ?thesis using ends outcome_live by blast
next
  case (resumed st sus)
  then show ?thesis using assms(2) by (simp add: live_def)
next
  case (swept st sus)
  then show ?thesis using resume_sweep_live assms(2) by (simp add: live_def [of rules "Sweep st sus"])
next
  case (woken st sus)
  then show ?thesis using assms(2) by (simp add: live_def suspension_in_def pending_in_def split: dnsWalkSuspension.splits)
next
  case (finished st p y)
  then show ?thesis by (simp add: live_def)
next
  case (answers i st k sus p)
  then show ?thesis using assms(2) by (auto simp: live_def)
next
  case (late_answers i st k sus)
  then show ?thesis using assms(2) by (auto simp: live_def)
qed

lemma live_ends:
  assumes "live rules c"
  shows "\<exists>x. (walk_step ask R message allow rules late)\<^sup>*\<^sup>* c (Finished x)"
proof -
  have resume: "\<exists>x. (walk_step ask R message allow rules late)\<^sup>*\<^sup>* (Resume st sus) (Finished x)" if "in_walk st" "suspension_in st sus" for st sus
    using resume_ends [OF that] walk_ends by blast
  have out: "\<exists>x. (walk_step ask R message allow rules late)\<^sup>*\<^sup>* c (Finished x)" if "outcome st c" for st c
    using that walk_ends resume by (cases c) (auto simp: outcome_def)
  have waiting: "\<exists>x. (walk_step ask R message allow rules late)\<^sup>*\<^sup>* (Waiting st sus) (Finished x)" if "live rules (Waiting st sus)" for st sus
  proof -
    have st: "in_walk st" "suspension_in st sus" "ws_wake st \<or> \<not> quiet st" using that by (simp_all add: live_def)
    obtain st' where st': "(walk_step ask R message allow rules late)\<^sup>*\<^sup>* (Waiting st sus) (Waiting st' sus)" "length (ws_futures st') = length (ws_futures st)" "in_walk st'" "ws_wake st'"
      using answer_all [of "\<lambda>st. Waiting st sus" sus _ ask R message allow rules late st] st by auto
    have "in_walk (st'\<lparr>ws_wake := False\<rparr>)" "suspension_in (st'\<lparr>ws_wake := False\<rparr>) sus" using st(2) st'(2,3)
      by (simp_all add: suspension_in_def pending_in_def split: dnsWalkSuspension.splits)
    then have "\<exists>x. (walk_step ask R message allow rules late)\<^sup>*\<^sup>* (Resume (st'\<lparr>ws_wake := False\<rparr>) sus) (Finished x)" by (rule resume)
    then show ?thesis using steps_then [OF st'(1)] step_then [OF walk_step.woken [OF st'(4)]] by metis
  qed
  show ?thesis
  proof (cases c)
    case (Bind st)
    then have "outcome st (walk_bind R message allow st (rules ! ws_ruleIndex st))" using assms walk_bind_outcome by (simp add: live_def)
    then show ?thesis unfolding Bind by (rule step_then [OF walk_step.binds out])
  next
    case (Sweep st sus)
    let ?c = "resume_sweep R message allow st sus"
    have l: "live rules ?c" using assms Sweep resume_sweep_live by (simp add: live_def [of _ "Sweep st sus"])
    have "\<exists>x. (walk_step ask R message allow rules late)\<^sup>*\<^sup>* ?c (Finished x)"
    proof (cases ?c)
      case (Walk st')
      then show ?thesis using l walk_ends by (simp add: live_def)
    next
      case (Waiting st' sus')
      then show ?thesis using l waiting by simp
    next
      case (Finishing st' p)
      then show ?thesis using l finishing_ends by (simp add: live_def)
    qed (auto simp: resume_sweep_def split: prod.splits option.splits commit.splits dnsWalkSuspension.splits if_splits)
    then show ?thesis unfolding Sweep by (rule step_then [OF walk_step.swept])
  qed (use assms walk_ends resume waiting finishing_ends in \<open>auto simp: live_def\<close>)
qed

lemma new_walk_live: "live rules (Walk (new_walk options))"
  by (simp add: live_def in_walk_def new_walk_def)

lemma new_walk_ok:
  assumes "distinct (evaluate_tags rules)"
  shows "config_ok ask R message allow rules (walk_in_order ask R message allow rules options None (\<lambda>_. None)) (Walk (new_walk options))"
proof -
  have "sim ask (new_walk options) None (\<lambda>_. None)" by (rule simI) (simp_all add: new_walk_def settled_of_def)
  then show ?thesis using assms unfolding config_ok_def walk_ok_def config.case
    by (intro exI [of _ None] exI [of _ "\<lambda>_. None"]) (simp add: new_walk_def)
qed

lemma live_run: "(walk_step ask R message allow rules late)\<^sup>*\<^sup>* c c' \<Longrightarrow> live rules c \<Longrightarrow> live rules c'"
  by (induction rule: rtranclp_induct) (auto intro: live_step)

lemma walk_run_in_order:
  assumes "\<forall>r \<in> set rules. well_bound r \<and> \<not> dr_Race r \<and> (late \<longrightarrow> dr_MatchResponseTags r = [])" "distinct (evaluate_tags rules)"
    "(walk_step ask R message allow rules late)\<^sup>*\<^sup>* (Walk (new_walk options)) c"
  shows "config_ok ask R message allow rules (walk_in_order ask R message allow rules options None (\<lambda>_. None)) c"
  using assms(3) by (induction rule: rtranclp_induct) (use new_walk_ok [OF assms(2)] walk_step_ok assms(1) in blast)+

text \<open>C29. The walk never hangs: whatever rules, races and speculative queries it has, in whatever order the answers came so far, it can
  come to a result once the servers it asked answer.\<close>

theorem dns_walk_ends:
  assumes "(walk_step ask R message allow rules late)\<^sup>*\<^sup>* (Walk (new_walk options)) c"
  shows "\<exists>x. (walk_step ask R message allow rules late)\<^sup>*\<^sup>* c (Finished x)"
  using live_ends [OF live_run [OF assms new_walk_live]] .

text \<open>Two rules: ask server \<open>s\<close> under the tag \<open>a\<close>; respond with that answer if there is one.\<close>

definition ex_route_options :: RuleActionDNSRouteOptions where
  "ex_route_options = \<lparr>ro_Strategy = AsIS, ro_Timeout = 0, ro_DisableCache = False, ro_DisableOptimisticCache = False, ro_RewriteTTL = None,
     ro_ClientSubnet = zero_prefix, ro_RemoveClientSubnet = False\<rparr>"

definition ex_rules :: "DNSRule list" where
  "ex_rules = [\<lparr>dr_MatchResponseTags = [], dr_MatchResponseAnonymous = False, dr_MatchResponseTag = [], dr_Race = False, dr_Match = (\<lambda>a n. True),
       dr_Action = ActionEvaluate ''s'' ex_route_options False ''a''\<rparr>,
     \<lparr>dr_MatchResponseTags = [''a''], dr_MatchResponseAnonymous = False, dr_MatchResponseTag = ''a'', dr_Race = False, dr_Match = (\<lambda>a n. n ''a'' \<noteq> None),
       dr_Action = ActionRespond\<rparr>]"

definition ex_server :: "string \<Rightarrow> DNSTransport" where
  "ex_server t = \<lparr>tr_Tag = t, tr_Environment = None\<rparr>"

definition ex_router :: dns_router where
  "ex_router = \<lparr>rt_Transport = (\<lambda>t. if t = ''s'' then Some (ex_server ''s'', False) else None), rt_Default = ex_server ''d'', rt_defaultDomainStrategy = AsIS\<rparr>"

definition ex_message :: "int \<Rightarrow> Msg" where
  "ex_message rcode = \<lparr>m_Id = 1, m_Response = False, m_Authoritative = False, m_RecursionDesired = True, m_RecursionAvailable = False, m_Rcode = rcode,
     m_Question = [], m_Answer = [], m_Ns = [], m_Extra = []\<rparr>"

definition ex_ask :: "DNSTransport \<Rightarrow> DNSQueryOptions \<Rightarrow> answer" where
  "ex_ask t options = (Some (ex_message (if t = ex_server ''s'' then 3 else 0)), None)"

lemmas ex_defs = ex_route_options_def zero_options_def ex_rules_def ex_server_def ex_router_def ex_message_def ex_ask_def

text \<open>Witness of C29: the example above.\<close>

lemma dns_walk_ends_witness:
  "\<exists>x. (walk_step ex_ask ex_router (ex_message 0) True ex_rules True)\<^sup>*\<^sup>* (Walk (new_walk zero_options)) (Finished x)"
  by (rule dns_walk_ends [OF rtranclp.rtrancl_refl])

lemma ex_in_order: "walk_in_order ex_ask ex_router (ex_message 0) True ex_rules zero_options None (\<lambda>_. None) =
    no_result\<lparr>er_response := Some (ex_message 3), er_transport := Some (ex_server ''s'')\<rparr>"
  by (simp add: ex_defs evaluated_view_def answer_view_def respond_result_def)

text \<open>When the answer arrives after the futures were settled and before the rule is looked at, the rule does not wait for it any more
  and does not see it either: the query goes to the default server.\<close>

lemma late_answer_is_missed:
  "(walk_step ex_ask ex_router (ex_message 0) True ex_rules True)\<^sup>*\<^sup>* (Walk (new_walk zero_options))
     (Finished (no_result\<lparr>er_response := Some (ex_message 0), er_transport := Some (ex_server ''d'')\<rparr>))"
proof -
  let ?S = "walk_step ex_ask ex_router (ex_message 0) True ex_rules True"
  define o1 where "o1 = finalizeExchangeOptions ex_router (applyDNSRouteOptions zero_options ex_route_options)"
  define f where "f = \<lparr>fu_tag = ''a'', fu_terminal = False, fu_transport = ex_server ''s'', fu_options = o1, fu_done = None, fu_settled = False\<rparr>"
  define st where "st = (new_walk zero_options)\<lparr>ws_ruleIndex := 1, ws_futures := [f], ws_namedFutures := [(''a'', 0)]\<rparr>"
  define st' where "st' = st\<lparr>ws_futures := [f\<lparr>fu_done := Some (ex_ask (ex_server ''s'') o1)\<rparr>], ws_wake := True\<rparr>"
  define p where "p = \<lparr>pe_transport = ex_server ''d'', pe_options = zero_options, pe_future = None\<rparr>"
  note d = new_walk_def f_def st_def st'_def ex_rules_def hasBindings_def future_resolved_def
  have "?S (Walk (new_walk zero_options)) (walk_match ex_router (ex_message 0) True (new_walk zero_options) (ex_rules ! ws_ruleIndex (new_walk zero_options)))"
    by (rule walk_step.plain) (simp_all add: d)
  moreover have "walk_match ex_router (ex_message 0) True (new_walk zero_options) (ex_rules ! ws_ruleIndex (new_walk zero_options)) = Walk st"
    by (simp add: d o1_def walk_match_def walk_evaluate_def next_rule_def launchDNSEvaluate_def gm_set_def ex_router_def Let_def)
  ultimately have 1: "?S (Walk (new_walk zero_options)) (Walk st)" by simp
  have "settleDNSFutures st = st" by (simp add: settleDNSFutures_def settle_one_def d)
  then have 2: "?S (Walk st) (Bind st)" using walk_step.settle [of st ex_rules] by (simp add: d)
  have "resolve ex_ask 0 st = st'" by (simp add: resolve_def d)
  moreover have "?S (Bind st) (Bind (resolve ex_ask 0 st))" by (rule walk_step.late_answers [where sus = Drain]) (simp_all add: d)
  ultimately have 3: "?S (Bind st) (Bind st')" by simp
  have "walk_bind ex_router (ex_message 0) True st' (ex_rules ! ws_ruleIndex st') = Walk (next_rule st')"
    by (simp add: walk_bind_def unresolved_tags_def unresolved_anonymous_def walk_match_def named_response_def d)
  then have 4: "?S (Bind st') (Walk (next_rule st'))" using walk_step.binds [of ex_ask ex_router "ex_message 0" True ex_rules True st'] by simp
  have "walk_end ex_router (next_rule st') = Resume (next_rule st') (Pending p)" by (simp add: walk_end_def drained_def p_def next_rule_def d ex_router_def)
  then have 5: "?S (Walk (next_rule st')) (Resume (next_rule st') (Pending p))"
    using walk_step.ends [of ex_rules "next_rule st'" ex_ask ex_router "ex_message 0" True True] by (simp add: next_rule_def d)
  let ?s = "settleDNSFutures (next_rule st')"
  have 6: "?S (Resume (next_rule st') (Pending p)) (Sweep ?s (Pending p))" by (rule walk_step.resumed)
  have ar: "ws_armedRules ?s = []" using settle_frame [of "next_rule st'"] by (simp add: next_rule_def d)
  obtain s2 where "resume_sweep ex_router (ex_message 0) True ?s (Pending p) = Finishing s2 p"
    by (simp add: resume_sweep_def sweepArmedDNSRules_def ar)
  then have 7: "?S (Sweep ?s (Pending p)) (Finishing s2 p)" using walk_step.swept [of ex_ask ex_router "ex_message 0" True ex_rules True ?s "Pending p"] by simp
  have 8: "?S (Finishing s2 p) (Finished (no_result\<lparr>er_response := Some (ex_message 0), er_transport := Some (ex_server ''d'')\<rparr>))"
    by (rule walk_step.finished) (simp add: finishPendingExchange_def p_def exchange_result_def ex_ask_def ex_server_def no_result_def)
  show ?thesis using 1 2 3 4 5 6 7 8 by (meson converse_rtranclp_into_rtranclp rtranclp.rtrancl_refl)
qed

end
