(* ===== verification/DNS_Rule_Mode.thy ===== *)
theory DNS_Rule_Mode
  imports DNS_Router Rule_Options
begin

text \<open>
  From the options of DNS rules to the rules of the router: \<^verbatim>\<open>option/rule_dns.go\<close>, \<^verbatim>\<open>route/rule/rule_dns.go\<close> and
  \<open>buildRules\<close> in \<^verbatim>\<open>dns/router.go\<close>. The options decide between the legacy mode and the rule walk; for the walk they are
  validated. The conditions of a default rule are given by the response they may look at; what they match is the matter of the
  rule engine.
\<close>

section \<open>Options\<close>

record AbstractDNSRouteActionOptions =
  ao_Timeout :: int
  ao_Strategy :: DomainStrategy
  ao_DisableCache :: bool
  ao_DisableOptimisticCache :: bool
  ao_RewriteTTL :: "uint32 option"
  ao_ClientSubnet :: "prefix option"
  ao_RemoveClientSubnet :: bool

record DNSRouteActionOptions =
  rao_Server :: string
  rao_Speculative :: bool
  rao_Options :: AbstractDNSRouteActionOptions

record DNSEvaluateActionOptions =
  eo_Server :: string
  eo_Tag :: string
  eo_Speculative :: bool
  eo_Options :: AbstractDNSRouteActionOptions

record DNSRuleAction =
  da_Action :: string
  da_Race :: bool
  da_RouteOptions :: DNSRouteActionOptions
  da_EvaluateOptions :: DNSEvaluateActionOptions
  da_RouteOptionsOptions :: AbstractDNSRouteActionOptions
  da_RejectMethod :: string
  da_PredefinedOptions :: RuleActionPredefined

text \<open>\<open>*DNSRuleMatchResponse\<close>: nil, or enabled and a tag.\<close>

type_synonym DNSRuleMatchResponse = "(bool \<times> string) option"

definition IsEnabled :: "DNSRuleMatchResponse \<Rightarrow> bool" where
  "IsEnabled m = (case m of None \<Rightarrow> False | Some (enabled, _) \<Rightarrow> enabled)"

definition ResponseTag :: "DNSRuleMatchResponse \<Rightarrow> string" where
  "ResponseTag m = (case m of None \<Rightarrow> [] | Some (_, tag) \<Rightarrow> tag)"

datatype mode_error =
    RouterNotFound | RuleSetNotFound string | LegacyStrategy | ResponseFieldsNeedMatchResponse | LegacyAddressFilter | AcceptEmptyRemoved
  | RespondOnLogical | NoEvaluateBefore | NoAnonymousEvaluateBefore | UndefinedTag string | DuplicateTag string | EvaluateFakeIP string
  | NestedAction | MissingConditions | EvaluateNested | MissingServer | UnknownMode | UnknownType | ReplyUnsupported | SubnetExclusive
  | RaceNotFinal | RaceSpeculative | RaceNeedsMatchResponse | BadCondition string | InRule nat mode_error

text \<open>The fields the functions here read. \<open>dd_conditions\<close> stands for the items \<open>NewDefaultDNSRule\<close> makes of the condition fields, in
  the legacy mode or not, with the inversion: an error, or whether they match without a response and given one. \<open>dd_has_conditions\<close>
  is whether any field but \<open>Invert\<close> and the action is set.\<close>

record DefaultDNSRule =
  dd_IPVersion :: int
  dd_QueryType :: "uint16 list"
  dd_RuleSet :: "string list"
  dd_RuleSetIPCIDRMatchSource :: bool
  dd_MatchResponse :: DNSRuleMatchResponse
  dd_IPCIDR :: "string list"
  dd_IPIsPrivate :: bool
  dd_IPAcceptAny :: bool
  dd_ResponseRcode :: "int option"
  dd_ResponseAnswer :: "rr list"
  dd_ResponseNs :: "rr list"
  dd_ResponseExtra :: "rr list"
  dd_Invert :: bool
  dd_RuleSetIPCIDRAcceptEmpty :: bool
  dd_has_conditions :: bool
  dd_conditions :: "bool \<Rightarrow> (mode_error, Msg option \<Rightarrow> bool) res"
  dd_Action :: DNSRuleAction

text \<open>\<open>option.DNSRule\<close>: the type, the options of a default rule, and mode, rules, inversion and action of a logical one.\<close>

datatype DNSRuleOptions = DNSRuleOptions (or_Type: string) (or_Default: DefaultDNSRule) (or_Mode: string) (or_Rules: "DNSRuleOptions list") (or_Invert: bool) (or_Action: DNSRuleAction)

definition is_default :: "string \<Rightarrow> bool" where
  "is_default t = (t = [] \<or> t = ''default'')"

definition is_logical :: "string \<Rightarrow> bool" where
  "is_logical t = (t = ''logical'')"

lemma types_differ [simp]: "is_logical t \<Longrightarrow> \<not> is_default t"
  by (auto simp: is_default_def is_logical_def)

text \<open>The action of either kind; other types have none.\<close>

definition rule_action :: "DNSRuleOptions \<Rightarrow> DNSRuleAction option" where
  "rule_action r = (if is_default (or_Type r) then Some (dd_Action (or_Default r)) else if is_logical (or_Type r) then Some (or_Action r) else None)"

definition dnsRuleActionType :: "DNSRuleOptions \<Rightarrow> string" where
  "dnsRuleActionType r = (case rule_action r of None \<Rightarrow> [] | Some a \<Rightarrow> if da_Action a = [] then ''route'' else da_Action a)"

definition dnsRuleActionServer :: "DNSRuleOptions \<Rightarrow> string" where
  "dnsRuleActionServer r = (case rule_action r of None \<Rightarrow> []
   | Some a \<Rightarrow> if dnsRuleActionType r = ''evaluate'' then eo_Server (da_EvaluateOptions a) else rao_Server (da_RouteOptions a))"

definition dnsRuleActionEvaluateTag :: "DNSRuleOptions \<Rightarrow> string" where
  "dnsRuleActionEvaluateTag r = (case rule_action r of None \<Rightarrow> [] | Some a \<Rightarrow> eo_Tag (da_EvaluateOptions a))"

definition dnsRuleActionSpeculative :: "DNSRuleOptions \<Rightarrow> bool" where
  "dnsRuleActionSpeculative r = (case rule_action r of None \<Rightarrow> False
   | Some a \<Rightarrow> if dnsRuleActionType r = ''evaluate'' then eo_Speculative (da_EvaluateOptions a) else rao_Speculative (da_RouteOptions a))"

definition dnsRuleRace :: "DNSRuleOptions \<Rightarrow> bool" where
  "dnsRuleRace r = (case rule_action r of None \<Rightarrow> False | Some a \<Rightarrow> da_Race a)"


section \<open>The mode\<close>

record RuleSetMetadata =
  ms_ContainsIPCIDRRule :: bool
  ms_ContainsNonIPCIDRRule :: bool
  ms_ContainsDNSQueryTypeRule :: bool

text \<open>A nil router is \<open>None\<close>; \<open>router.RuleSet\<close> on it panics.\<close>

type_synonym router_sets = "(string \<Rightarrow> RuleSetMetadata option) option"

definition lookupDNSRuleSetMetadata :: "router_sets \<Rightarrow> string \<Rightarrow> (string, RuleSetMetadata) gomap \<Rightarrow> (mode_error, RuleSetMetadata) res" where
  "lookupDNSRuleSetMetadata router tag overrides = (case gm_get overrides tag of
     Some metadata \<Rightarrow> Ok metadata
   | None \<Rightarrow> (case router of None \<Rightarrow> Panic
     | Some sets \<Rightarrow> (case sets tag of None \<Rightarrow> Err (RuleSetNotFound tag) | Some metadata \<Rightarrow> Ok metadata)))"

definition defaultRuleNeedsLegacyDNSModeFromAddressFilter :: "DefaultDNSRule \<Rightarrow> bool" where
  "defaultRuleNeedsLegacyDNSModeFromAddressFilter r =
     (dd_RuleSetIPCIDRAcceptEmpty r \<or> \<not> IsEnabled (dd_MatchResponse r) \<and> (dd_IPAcceptAny r \<or> dd_IPCIDR r \<noteq> [] \<or> dd_IPIsPrivate r))"

definition hasResponseMatchFields :: "DefaultDNSRule \<Rightarrow> bool" where
  "hasResponseMatchFields r = (dd_ResponseRcode r \<noteq> None \<or> dd_ResponseAnswer r \<noteq> [] \<or> dd_ResponseNs r \<noteq> [] \<or> dd_ResponseExtra r \<noteq> [])"

definition defaultRuleDisablesLegacyDNSMode :: "DefaultDNSRule \<Rightarrow> bool" where
  "defaultRuleDisablesLegacyDNSMode r = (IsEnabled (dd_MatchResponse r) \<or> hasResponseMatchFields r \<or> da_Action (dd_Action r) = ''evaluate'' \<or>
     da_Action (dd_Action r) = ''respond'' \<or> 0 < dd_IPVersion r \<or> dd_QueryType r \<noteq> [])"

definition dnsRuleActionDisablesLegacyDNSMode :: "DNSRuleAction \<Rightarrow> bool" where
  "dnsRuleActionDisablesLegacyDNSMode a =
     (if da_Race a then True
      else if da_Action a = [] \<or> da_Action a = ''route'' then ao_DisableOptimisticCache (rao_Options (da_RouteOptions a)) \<or> rao_Speculative (da_RouteOptions a)
      else if da_Action a = ''evaluate'' then ao_DisableOptimisticCache (eo_Options (da_EvaluateOptions a)) \<or> eo_Speculative (da_EvaluateOptions a)
      else if da_Action a = ''route-options'' then ao_DisableOptimisticCache (da_RouteOptionsOptions a)
      else False)"

definition dnsRuleActionHasStrategy :: "DNSRuleAction \<Rightarrow> bool" where
  "dnsRuleActionHasStrategy a =
     (if da_Action a = [] \<or> da_Action a = ''route'' then ao_Strategy (rao_Options (da_RouteOptions a)) \<noteq> AsIS
      else if da_Action a = ''evaluate'' then ao_Strategy (eo_Options (da_EvaluateOptions a)) \<noteq> AsIS
      else if da_Action a = ''route-options'' then ao_Strategy (da_RouteOptionsOptions a) \<noteq> AsIS
      else False)"

record dnsRuleModeFlags =
  fl_disabled :: bool
  fl_needed :: bool
  fl_neededFromStrategy :: bool

definition no_flags :: dnsRuleModeFlags where
  "no_flags = \<lparr>fl_disabled = False, fl_needed = False, fl_neededFromStrategy = False\<rparr>"

definition merge :: "dnsRuleModeFlags \<Rightarrow> dnsRuleModeFlags \<Rightarrow> dnsRuleModeFlags" where
  "merge f other = \<lparr>fl_disabled = (fl_disabled f \<or> fl_disabled other), fl_needed = (fl_needed f \<or> fl_needed other),
     fl_neededFromStrategy = (fl_neededFromStrategy f \<or> fl_neededFromStrategy other)\<rparr>"

fun rule_set_flags :: "router_sets \<Rightarrow> (string, RuleSetMetadata) gomap \<Rightarrow> bool \<Rightarrow> string list \<Rightarrow> dnsRuleModeFlags \<Rightarrow> (mode_error, dnsRuleModeFlags) res" where
  "rule_set_flags router overrides matchSource [] flags = Ok flags"
| "rule_set_flags router overrides matchSource (tag # tags) flags =
     res_bind (lookupDNSRuleSetMetadata router tag overrides) (\<lambda>metadata.
       rule_set_flags router overrides matchSource tags
         (flags\<lparr>fl_disabled := fl_disabled flags \<or> ms_ContainsDNSQueryTypeRule metadata,
                fl_needed := fl_needed flags \<or> \<not> matchSource \<and> ms_ContainsIPCIDRRule metadata\<rparr>))"

definition dnsRuleModeRequirementsInDefaultRule :: "router_sets \<Rightarrow> DefaultDNSRule \<Rightarrow> (string, RuleSetMetadata) gomap \<Rightarrow> (mode_error, dnsRuleModeFlags) res" where
  "dnsRuleModeRequirementsInDefaultRule router r overrides =
     (let strategy = dnsRuleActionHasStrategy (dd_Action r);
          flags = \<lparr>fl_disabled = (defaultRuleDisablesLegacyDNSMode r \<or> dnsRuleActionDisablesLegacyDNSMode (dd_Action r)),
            fl_needed = (defaultRuleNeedsLegacyDNSModeFromAddressFilter r \<or> strategy), fl_neededFromStrategy = strategy\<rparr>
      in if dd_RuleSet r = [] then Ok flags
         else if router = None then Err RouterNotFound
         else rule_set_flags router overrides (dd_RuleSetIPCIDRMatchSource r) (dd_RuleSet r) flags)"

text \<open>Merging the flags of a list of rules, with the index in an error.\<close>

fun merge_all :: "nat \<Rightarrow> (mode_error, dnsRuleModeFlags) res list \<Rightarrow> dnsRuleModeFlags \<Rightarrow> (mode_error, dnsRuleModeFlags) res" where
  "merge_all i [] flags = Ok flags"
| "merge_all i (x # xs) flags = (case x of Ok f \<Rightarrow> merge_all (Suc i) xs (merge flags f) | Err e \<Rightarrow> Err (InRule i e) | Panic \<Rightarrow> Panic)"

fun dnsRuleModeRequirementsInRule :: "router_sets \<Rightarrow> (string, RuleSetMetadata) gomap \<Rightarrow> DNSRuleOptions \<Rightarrow> (mode_error, dnsRuleModeFlags) res" where
  "dnsRuleModeRequirementsInRule router overrides (DNSRuleOptions t d mode rules neg a) =
     (if is_default t then dnsRuleModeRequirementsInDefaultRule router d overrides
      else if is_logical t
      then merge_all 0 (map (dnsRuleModeRequirementsInRule router overrides) rules)
             \<lparr>fl_disabled = (da_Action a = ''evaluate'' \<or> da_Action a = ''respond'' \<or> dnsRuleActionDisablesLegacyDNSMode a),
              fl_needed = dnsRuleActionHasStrategy a, fl_neededFromStrategy = dnsRuleActionHasStrategy a\<rparr>
      else Ok no_flags)"

definition dnsRuleModeRequirements :: "router_sets \<Rightarrow> DNSRuleOptions list \<Rightarrow> (string, RuleSetMetadata) gomap \<Rightarrow> (mode_error, dnsRuleModeFlags) res" where
  "dnsRuleModeRequirements router rules overrides = merge_all 0 (map (dnsRuleModeRequirementsInRule router overrides) rules) no_flags"

definition resolveLegacyDNSMode :: "router_sets \<Rightarrow> DNSRuleOptions list \<Rightarrow> (string, RuleSetMetadata) gomap \<Rightarrow> (mode_error, bool \<times> dnsRuleModeFlags) res" where
  "resolveLegacyDNSMode router rules overrides = res_bind (dnsRuleModeRequirements router rules overrides) (\<lambda>flags.
     if fl_disabled flags \<and> fl_neededFromStrategy flags then Err LegacyStrategy
     else if fl_disabled flags then Ok (False, flags)
     else Ok (fl_needed flags, flags))"


section \<open>Validation for the rule walk\<close>

record dnsRuleResponseUse =
  us_needsAnonymous :: bool
  us_referencedTags :: "string list"

fun check_pure_ip :: "router_sets \<Rightarrow> (string, RuleSetMetadata) gomap \<Rightarrow> string list \<Rightarrow> (mode_error, unit) res" where
  "check_pure_ip router overrides [] = Ok ()"
| "check_pure_ip router overrides (tag # tags) =
     res_bind (lookupDNSRuleSetMetadata router tag overrides) (\<lambda>metadata.
       if ms_ContainsIPCIDRRule metadata \<and> \<not> ms_ContainsNonIPCIDRRule metadata then Err LegacyAddressFilter
       else check_pure_ip router overrides tags)"

definition default_use :: "DefaultDNSRule \<Rightarrow> dnsRuleResponseUse" where
  "default_use r =
     (let tag = ResponseTag (dd_MatchResponse r); enabled = IsEnabled (dd_MatchResponse r)
      in \<lparr>us_needsAnonymous = (enabled \<and> tag = [] \<or> da_Action (dd_Action r) = ''respond'' \<and> tag = []),
          us_referencedTags = (if enabled \<and> tag \<noteq> [] then [tag] else [])\<rparr>)"

definition validateLegacyDNSModeDisabledDefaultRule :: "router_sets \<Rightarrow> DefaultDNSRule \<Rightarrow> (string, RuleSetMetadata) gomap \<Rightarrow> (mode_error, dnsRuleResponseUse) res" where
  "validateLegacyDNSModeDisabledDefaultRule router r overrides =
     (if (hasResponseMatchFields r \<or> dd_IPCIDR r \<noteq> [] \<or> dd_IPIsPrivate r \<or> dd_IPAcceptAny r) \<and> \<not> IsEnabled (dd_MatchResponse r) then Err ResponseFieldsNeedMatchResponse
      else res_bind (if IsEnabled (dd_MatchResponse r) then Ok () else check_pure_ip router overrides (dd_RuleSet r)) (\<lambda>_.
        if dd_RuleSetIPCIDRAcceptEmpty r then Err AcceptEmptyRemoved
        else Ok (default_use r)))"

fun use_all :: "nat \<Rightarrow> (mode_error, dnsRuleResponseUse) res list \<Rightarrow> dnsRuleResponseUse \<Rightarrow> (mode_error, dnsRuleResponseUse) res" where
  "use_all i [] u = Ok u"
| "use_all i (x # xs) u = (case x of
     Ok v \<Rightarrow> use_all (Suc i) xs \<lparr>us_needsAnonymous = (us_needsAnonymous u \<or> us_needsAnonymous v), us_referencedTags = us_referencedTags u @ us_referencedTags v\<rparr>
   | Err e \<Rightarrow> Err (InRule i e) | Panic \<Rightarrow> Panic)"

definition no_use :: dnsRuleResponseUse where
  "no_use = \<lparr>us_needsAnonymous = False, us_referencedTags = []\<rparr>"

fun validateLegacyDNSModeDisabledRuleTree :: "router_sets \<Rightarrow> (string, RuleSetMetadata) gomap \<Rightarrow> DNSRuleOptions \<Rightarrow> (mode_error, dnsRuleResponseUse) res" where
  "validateLegacyDNSModeDisabledRuleTree router overrides (DNSRuleOptions t d mode rules neg a) =
     (if is_default t then validateLegacyDNSModeDisabledDefaultRule router d overrides
      else if is_logical t
      then res_bind (use_all 0 (map (validateLegacyDNSModeDisabledRuleTree router overrides) rules) no_use) (\<lambda>u.
        if da_Action a = ''respond'' then (if us_referencedTags u \<noteq> [] then Err RespondOnLogical else Ok (u\<lparr>us_needsAnonymous := True\<rparr>))
        else Ok u)
      else Ok no_use)"

datatype mode_warning = SpeculativeNoEffect nat | Overwritten nat nat | NeverReferenced string

record validation =
  va_warnings :: "mode_warning list"
  va_seenAnonymousEvaluate :: bool
  va_seenRace :: bool
  va_definedTagOrder :: "string list"     \<comment> \<open>\<open>definedTags\<close> has the same tags\<close>
  va_referencedTags :: "string list"
  va_lastAnonymousEvaluate :: "nat option"
  va_anonymousReadSinceLast :: bool

definition first_validation :: validation where
  "first_validation = \<lparr>va_warnings = [], va_seenAnonymousEvaluate = False, va_seenRace = False, va_definedTagOrder = [], va_referencedTags = [],
     va_lastAnonymousEvaluate = None, va_anonymousReadSinceLast = False\<rparr>"

definition undefined_tags :: "validation \<Rightarrow> dnsRuleResponseUse \<Rightarrow> string list" where
  "undefined_tags v u = filter (\<lambda>t. t \<notin> set (va_definedTagOrder v)) (us_referencedTags u)"

text \<open>The end of the loop body: an evaluate action defines its tag or the anonymous response.\<close>

definition validate_evaluate :: "nat \<Rightarrow> DNSRuleOptions \<Rightarrow> validation \<Rightarrow> (mode_error, validation) res" where
  "validate_evaluate i r v =
     (if dnsRuleActionType r \<noteq> ''evaluate'' then Ok v
      else (let tag = dnsRuleActionEvaluateTag r
            in if tag = []
               then Ok (v\<lparr>va_warnings := va_warnings v @ (case va_lastAnonymousEvaluate v of None \<Rightarrow> [] | Some j \<Rightarrow> if va_anonymousReadSinceLast v then [] else [Overwritten j i]),
                      va_seenAnonymousEvaluate := True, va_lastAnonymousEvaluate := Some i, va_anonymousReadSinceLast := False\<rparr>)
               else if tag \<in> set (va_definedTagOrder v) then Err (DuplicateTag tag)
               else Ok (v\<lparr>va_definedTagOrder := va_definedTagOrder v @ [tag]\<rparr>)))"

definition validate_one :: "nat \<Rightarrow> DNSRuleOptions \<Rightarrow> dnsRuleResponseUse \<Rightarrow> validation \<Rightarrow> (mode_error, validation) res" where
  "validate_one i r u v =
     (let v1 = v\<lparr>va_warnings := va_warnings v @ (if dnsRuleActionSpeculative r \<and> \<not> va_seenRace v then [SpeculativeNoEffect i] else []),
                 va_seenRace := va_seenRace v \<or> dnsRuleRace r\<rparr>
      in if us_needsAnonymous u \<and> \<not> va_seenAnonymousEvaluate v1
         then Err (if va_definedTagOrder v1 \<noteq> [] then NoAnonymousEvaluateBefore else NoEvaluateBefore)
         else (let v2 = (if us_needsAnonymous u then v1\<lparr>va_anonymousReadSinceLast := True\<rparr> else v1)
               in case undefined_tags v2 u of
                    t # _ \<Rightarrow> Err (UndefinedTag t)
                  | [] \<Rightarrow> validate_evaluate i r (v2\<lparr>va_referencedTags := va_referencedTags v2 @ us_referencedTags u\<rparr>)))"

fun validate_from :: "router_sets \<Rightarrow> (string, RuleSetMetadata) gomap \<Rightarrow> nat \<Rightarrow> DNSRuleOptions list \<Rightarrow> validation \<Rightarrow> (mode_error, validation) res" where
  "validate_from router overrides i [] v = Ok v"
| "validate_from router overrides i (r # rs) v = (case validateLegacyDNSModeDisabledRuleTree router overrides r of
     Ok u \<Rightarrow> (case validate_one i r u v of
         Ok v' \<Rightarrow> validate_from router overrides (Suc i) rs v' | Err e \<Rightarrow> Err (InRule i e) | Panic \<Rightarrow> Panic)
   | Err e \<Rightarrow> Err (InRule i e) | Panic \<Rightarrow> Panic)"

definition validateLegacyDNSModeDisabledRules :: "router_sets \<Rightarrow> DNSRuleOptions list \<Rightarrow> (string, RuleSetMetadata) gomap \<Rightarrow> (mode_error, mode_warning list) res" where
  "validateLegacyDNSModeDisabledRules router rules overrides = res_bind (validate_from router overrides 0 rules first_validation) (\<lambda>v.
     Ok (va_warnings v @ map NeverReferenced (filter (\<lambda>t. t \<notin> set (va_referencedTags v)) (va_definedTagOrder v))))"

fun validate_fakeip_from :: "(string \<Rightarrow> (DNSTransport \<times> bool) option) \<Rightarrow> nat \<Rightarrow> DNSRuleOptions list \<Rightarrow> mode_error option" where
  "validate_fakeip_from transports i [] = None"
| "validate_fakeip_from transports i (r # rs) =
     (if dnsRuleActionType r = ''evaluate'' \<and> dnsRuleActionServer r \<noteq> [] \<and> (\<exists>t. transports (dnsRuleActionServer r) = Some (t, True))
      then Some (InRule i (EvaluateFakeIP (dnsRuleActionServer r)))
      else validate_fakeip_from transports (Suc i) rs)"

definition validateEvaluateFakeIPRules :: "DNSRuleOptions list \<Rightarrow> (string \<Rightarrow> (DNSTransport \<times> bool) option) option \<Rightarrow> mode_error option" where
  "validateEvaluateFakeIPRules rules transportManager = (case transportManager of None \<Rightarrow> None | Some transports \<Rightarrow> validate_fakeip_from transports 0 rules)"


section \<open>Making the rules\<close>

definition zero_abstract_options :: AbstractDNSRouteActionOptions where
  "zero_abstract_options = \<lparr>ao_Timeout = 0, ao_Strategy = AsIS, ao_DisableCache = False, ao_DisableOptimisticCache = False, ao_RewriteTTL = None,
     ao_ClientSubnet = None, ao_RemoveClientSubnet = False\<rparr>"

definition zero_action :: DNSRuleAction where
  "zero_action = \<lparr>da_Action = [], da_Race = False, da_RouteOptions = \<lparr>rao_Server = [], rao_Speculative = False, rao_Options = zero_abstract_options\<rparr>,
     da_EvaluateOptions = \<lparr>eo_Server = [], eo_Tag = [], eo_Speculative = False, eo_Options = zero_abstract_options\<rparr>,
     da_RouteOptionsOptions = zero_abstract_options, da_RejectMethod = [], da_PredefinedOptions = \<lparr>pd_Rcode = 0, pd_Answer = [], pd_Ns = [], pd_Extra = []\<rparr>\<rparr>"

definition dnsRuleHasConfiguredAction :: "DNSRuleOptions \<Rightarrow> bool" where
  "dnsRuleHasConfiguredAction r = (case rule_action r of None \<Rightarrow> False | Some a \<Rightarrow> a \<noteq> zero_action)"

fun first_error :: "nat \<Rightarrow> mode_error option list \<Rightarrow> mode_error option" where
  "first_error i [] = None"
| "first_error i (x # xs) = (case x of Some e \<Rightarrow> Some (InRule i e) | None \<Rightarrow> first_error (Suc i) xs)"

fun validateNoNestedDNSRuleActions :: "bool \<Rightarrow> DNSRuleOptions \<Rightarrow> mode_error option" where
  "validateNoNestedDNSRuleActions nested (DNSRuleOptions t d mode rules neg a) =
     (if nested \<and> dnsRuleHasConfiguredAction (DNSRuleOptions t d mode rules neg a) then Some NestedAction
      else if \<not> is_logical t then None
      else first_error 0 (map (validateNoNestedDNSRuleActions True) rules))"

definition action_route_options :: "DNSRuleAction \<Rightarrow> AbstractDNSRouteActionOptions" where
  "action_route_options a =
     (if da_Action a = [] \<or> da_Action a = ''route'' then rao_Options (da_RouteOptions a)
      else if da_Action a = ''evaluate'' then eo_Options (da_EvaluateOptions a)
      else if da_Action a = ''route-options'' then da_RouteOptionsOptions a
      else zero_abstract_options)"

definition validateDNSRuleAction :: "DNSRuleAction \<Rightarrow> mode_error option" where
  "validateDNSRuleAction a =
     (if da_Action a = ''reject'' \<and> da_RejectMethod a = ''reply'' then Some ReplyUnsupported
      else if ao_RemoveClientSubnet (action_route_options a) \<and> ao_ClientSubnet (action_route_options a) \<noteq> None then Some SubnetExclusive
      else if da_Race a
      then (if da_Action a \<notin> {[], ''route'', ''respond'', ''reject'', ''predefined''} then Some RaceNotFinal
            else if rao_Speculative (da_RouteOptions a) then Some RaceSpeculative else None)
      else None)"

definition route_options_of :: "AbstractDNSRouteActionOptions \<Rightarrow> RuleActionDNSRouteOptions" where
  "route_options_of ao = \<lparr>ro_Strategy = ao_Strategy ao, ro_Timeout = ao_Timeout ao, ro_DisableCache = ao_DisableCache ao,
     ro_DisableOptimisticCache = ao_DisableOptimisticCache ao, ro_RewriteTTL = ao_RewriteTTL ao,
     ro_ClientSubnet = (case ao_ClientSubnet ao of None \<Rightarrow> zero_prefix | Some p \<Rightarrow> p), ro_RemoveClientSubnet = ao_RemoveClientSubnet ao\<rparr>"

text \<open>\<open>NewDNSRuleAction\<close>: no action gives nil, an unknown one panics. The unmarshaller of the reject options allows the
  methods default, drop and reply only.\<close>

definition NewDNSRuleAction :: "DNSRuleAction \<Rightarrow> (mode_error, RuleAction) res" where
  "NewDNSRuleAction a =
     (if da_Action a = [] then Ok ActionOther
      else if da_Action a = ''route'' then Ok (ActionRoute (rao_Server (da_RouteOptions a)) (route_options_of (rao_Options (da_RouteOptions a))) (rao_Speculative (da_RouteOptions a)))
      else if da_Action a = ''evaluate'' then Ok (ActionEvaluate (eo_Server (da_EvaluateOptions a)) (route_options_of (eo_Options (da_EvaluateOptions a)))
        (eo_Speculative (da_EvaluateOptions a)) (eo_Tag (da_EvaluateOptions a)))
      else if da_Action a = ''respond'' then Ok ActionRespond
      else if da_Action a = ''route-options'' then Ok (ActionRouteOptions (route_options_of (da_RouteOptionsOptions a)))
      else if da_Action a = ''reject'' then Ok (ActionReject (if da_RejectMethod a = ''default'' then RejectDefault else if da_RejectMethod a = ''drop'' then RejectDrop else RejectReply))
      else if da_Action a = ''predefined'' then Ok (ActionPredefined (da_PredefinedOptions a))
      else Panic)"

definition default_dns_IsValid :: "DefaultDNSRule \<Rightarrow> bool" where
  "default_dns_IsValid d = (dd_has_conditions d \<or> dd_Action d \<noteq> zero_action)"

text \<open>\<open>DNSRule.IsValid\<close> panics on an unknown type and on the empty one, here \<open>None\<close>.\<close>

fun dns_IsValid :: "DNSRuleOptions \<Rightarrow> bool option" where
  "dns_IsValid (DNSRuleOptions t d mode rules neg a) =
     (if t = ''default'' then Some (default_dns_IsValid d)
      else if t = ''logical'' then (if rules = [] then Some False else all_valid (map dns_IsValid rules))
      else None)"

text \<open>\<open>DefaultDNSRule.Match\<close>.\<close>

definition default_dns_Match :: "DNSRuleMatchResponse \<Rightarrow> bool \<Rightarrow> (Msg option \<Rightarrow> bool) \<Rightarrow> Msg option \<Rightarrow> (string \<Rightarrow> Msg option) \<Rightarrow> bool" where
  "default_dns_Match mr neg cond anonymous named =
     (if IsEnabled mr then (case (if ResponseTag mr \<noteq> [] then named (ResponseTag mr) else anonymous) of None \<Rightarrow> neg | Some m \<Rightarrow> cond (Some m))
      else cond None)"

definition NewDefaultDNSRule :: "bool \<Rightarrow> DefaultDNSRule \<Rightarrow> (mode_error, DNSRule) res" where
  "NewDefaultDNSRule legacyDNSMode d = res_bind (NewDNSRuleAction (dd_Action d)) (\<lambda>action. res_bind (dd_conditions d legacyDNSMode) (\<lambda>cond.
     let tag = ResponseTag (dd_MatchResponse d) in
     Ok \<lparr>dr_MatchResponseTags = (if tag = [] then [] else [tag]), dr_MatchResponseAnonymous = (IsEnabled (dd_MatchResponse d) \<and> tag = []),
         dr_MatchResponseTag = tag, dr_Race = da_Race (dd_Action d), dr_Match = default_dns_Match (dd_MatchResponse d) (dd_Invert d) cond, dr_Action = action\<rparr>))"

text \<open>Outside the legacy mode no rule defers a match, so that a logical rule is the conjunction or disjunction of its rules.\<close>

definition logical_dns_Match :: "string \<Rightarrow> bool \<Rightarrow> DNSRule list \<Rightarrow> Msg option \<Rightarrow> (string \<Rightarrow> Msg option) \<Rightarrow> bool" where
  "logical_dns_Match mode neg rules anonymous named =
     (neg \<noteq> (if mode = ''and'' then list_all (\<lambda>r. dr_Match r anonymous named) rules else list_ex (\<lambda>r. dr_Match r anonymous named) rules))"

fun collect_rules :: "nat \<Rightarrow> (mode_error, 'r) res list \<Rightarrow> (mode_error, 'r list) res" where
  "collect_rules i [] = Ok []"
| "collect_rules i (x # xs) = (case x of Ok r \<Rightarrow> res_bind (collect_rules (Suc i) xs) (\<lambda>rs. Ok (r # rs)) | Err e \<Rightarrow> Err (InRule i e) | Panic \<Rightarrow> Panic)"

text \<open>\<open>common.Uniq\<close> keeps the first of equal elements.\<close>

definition Uniq :: "'a list \<Rightarrow> 'a list" where
  "Uniq xs = rev (remdups (rev xs))"

lemma set_Uniq [simp]: "set (Uniq xs) = set xs"
  by (simp add: Uniq_def)

definition NewLogicalDNSRule :: "string \<Rightarrow> bool \<Rightarrow> DNSRuleAction \<Rightarrow> (mode_error, DNSRule) res list \<Rightarrow> (mode_error, DNSRule) res" where
  "NewLogicalDNSRule mode neg a subRules = res_bind (NewDNSRuleAction a) (\<lambda>action.
     if mode \<noteq> ''and'' \<and> mode \<noteq> ''or'' then Err UnknownMode
     else res_bind (collect_rules 0 subRules) (\<lambda>rules.
       let tags = Uniq (concat (map dr_MatchResponseTags rules)); anonymous = list_ex dr_MatchResponseAnonymous rules in
       if da_Race a \<and> tags = [] \<and> \<not> anonymous then Err RaceNeedsMatchResponse
       else Ok \<lparr>dr_MatchResponseTags = tags, dr_MatchResponseAnonymous = anonymous, dr_MatchResponseTag = [], dr_Race = da_Race a,
                dr_Match = logical_dns_Match mode neg rules, dr_Action = action\<rparr>))"

definition missing_server :: "bool \<Rightarrow> DNSRuleAction \<Rightarrow> bool" where
  "missing_server checkServer a = (checkServer \<and>
     (if da_Action a = [] \<or> da_Action a = ''route'' then rao_Server (da_RouteOptions a) = []
      else da_Action a = ''evaluate'' \<and> eo_Server (da_EvaluateOptions a) = []))"

text \<open>The checks of \<open>NewDNSRule\<close> before a rule is made; \<open>valid\<close> is \<open>IsValid\<close> of its options.\<close>

definition check_dns_rule :: "bool \<Rightarrow> bool option \<Rightarrow> DNSRuleAction \<Rightarrow> bool \<Rightarrow> (mode_error, unit) res" where
  "check_dns_rule checkServer valid a raceOk = (case valid of None \<Rightarrow> Panic | Some False \<Rightarrow> Err MissingConditions | Some True \<Rightarrow>
     if \<not> checkServer \<and> da_Action a = ''evaluate'' then Err EvaluateNested
     else (case validateDNSRuleAction a of Some e \<Rightarrow> Err e | None \<Rightarrow>
       if da_Race a \<and> \<not> raceOk then Err RaceNeedsMatchResponse
       else if missing_server checkServer a then Err MissingServer else Ok ()))"

fun NewDNSRule :: "bool \<Rightarrow> bool \<Rightarrow> DNSRuleOptions \<Rightarrow> (mode_error, DNSRule) res" where
  "NewDNSRule legacyDNSMode checkServer (DNSRuleOptions t d mode rules neg a) =
     (if is_default t
      then res_bind (check_dns_rule checkServer (Some (default_dns_IsValid d)) (dd_Action d) (IsEnabled (dd_MatchResponse d))) (\<lambda>_. NewDefaultDNSRule legacyDNSMode d)
      else if is_logical t
      then res_bind (check_dns_rule checkServer (if rules = [] then Some False else all_valid (map dns_IsValid rules)) a True) (\<lambda>_.
        NewLogicalDNSRule mode neg a (map (\<lambda>r. case validateNoNestedDNSRuleActions True r of Some e \<Rightarrow> Err e | None \<Rightarrow> NewDNSRule legacyDNSMode False r) rules))
      else Err UnknownType)"

text \<open>\<open>buildRules\<close> up to the start of the rules, which opens their rule sets.\<close>

definition buildRules :: "router_sets \<Rightarrow> (string \<Rightarrow> (DNSTransport \<times> bool) option) option \<Rightarrow> DNSRuleOptions list \<Rightarrow>
    (mode_error, DNSRule list \<times> bool \<times> dnsRuleModeFlags) res" where
  "buildRules router transports rawRules =
     (case first_error 0 (map (validateNoNestedDNSRuleActions False) rawRules) of Some e \<Rightarrow> Err e | None \<Rightarrow>
        res_bind (resolveLegacyDNSMode router rawRules []) (\<lambda>(legacyDNSMode, modeFlags).
        res_bind (if legacyDNSMode then Ok [] else validateLegacyDNSModeDisabledRules router rawRules []) (\<lambda>warnings.
        (case validateEvaluateFakeIPRules rawRules transports of Some e \<Rightarrow> Err e | None \<Rightarrow>
           res_bind (collect_rules 0 (map (NewDNSRule legacyDNSMode True) rawRules)) (\<lambda>rules. Ok (rules, legacyDNSMode, modeFlags))))))"

text \<open>\<open>ValidateRuleSetMetadataUpdate\<close>: whether a rule set may change its metadata while the router runs.\<close>

record rule_router =
  rr_rawRules :: "DNSRuleOptions list"
  rr_started :: bool
  rr_legacyDNSMode :: bool
  rr_closing :: bool

definition ValidateRuleSetMetadataUpdate :: "router_sets \<Rightarrow> rule_router \<Rightarrow> string \<Rightarrow> RuleSetMetadata \<Rightarrow> (mode_error, unit) res" where
  "ValidateRuleSetMetadataUpdate router r tag metadata =
     (let overrides = [(tag, metadata)]; validate = res_bind (validateLegacyDNSModeDisabledRules router (rr_rawRules r) overrides) (\<lambda>_. Ok ()) in
      if rr_rawRules r = [] then Ok ()
      else if router = None then Err RouterNotFound
      else if rr_closing r then Ok ()
      else res_bind (resolveLegacyDNSMode router (rr_rawRules r) overrides) (\<lambda>(candidate, flags).
        if \<not> rr_started r then (if candidate then Ok () else validate)
        else if rr_legacyDNSMode r
        then (if \<not> candidate \<and> fl_disabled flags then res_bind validate (\<lambda>_. Err LegacyAddressFilter) else Ok ())
        else if candidate then Err LegacyAddressFilter
        else validate))"


section \<open>What the mode says\<close>

lemma merge_all_flags:
  "merge_all i xs f = Ok g \<Longrightarrow> (fl_neededFromStrategy g \<longleftrightarrow> fl_neededFromStrategy f \<or> (\<exists>h. Ok h \<in> set xs \<and> fl_neededFromStrategy h)) \<and>
    (fl_needed g \<longleftrightarrow> fl_needed f \<or> (\<exists>h. Ok h \<in> set xs \<and> fl_needed h)) \<and> (fl_disabled g \<longleftrightarrow> fl_disabled f \<or> (\<exists>h. Ok h \<in> set xs \<and> fl_disabled h)) \<and> (\<forall>x \<in> set xs. \<exists>h. x = Ok h)"
  by (induction i xs f rule: merge_all.induct) (auto simp: merge_def split: res.splits)

lemma rule_set_flags_strategy:
  "rule_set_flags router overrides src tags f = Ok g \<Longrightarrow> fl_neededFromStrategy g = fl_neededFromStrategy f \<and> (fl_needed f \<longrightarrow> fl_needed g)"
proof (induction tags arbitrary: f)
  case (Cons tag tags)
  from Cons.prems obtain m :: RuleSetMetadata where "rule_set_flags router overrides src tags
      (f\<lparr>fl_disabled := fl_disabled f \<or> ms_ContainsDNSQueryTypeRule m, fl_needed := fl_needed f \<or> \<not> src \<and> ms_ContainsIPCIDRRule m\<rparr>) = Ok g"
    unfolding rule_set_flags.simps res_bind_eq_Ok by blast
  from Cons.IH [OF this] show ?case by simp
qed simp

lemma requirements_strategy:
  "dnsRuleModeRequirementsInRule router overrides r = Ok g \<Longrightarrow>
    (fl_neededFromStrategy g \<longrightarrow> fl_needed g) \<and> (\<forall>a. rule_action r = Some a \<longrightarrow> dnsRuleActionHasStrategy a \<longrightarrow> fl_neededFromStrategy g)"
proof (induction router overrides r arbitrary: g rule: dnsRuleModeRequirementsInRule.induct)
  case (1 router overrides t d mode rules neg a)
  show ?case
  proof (cases "is_default t")
    case True
    then show ?thesis using 1(2) rule_set_flags_strategy [of router overrides "dd_RuleSetIPCIDRMatchSource d" "dd_RuleSet d" _ g]
      by (auto simp: dnsRuleModeRequirementsInDefaultRule_def Let_def rule_action_def split: if_splits)
  next
    case False
    show ?thesis
    proof (cases "is_logical t")
      case True
      then have "merge_all 0 (map (dnsRuleModeRequirementsInRule router overrides) rules)
             \<lparr>fl_disabled = (da_Action a = ''evaluate'' \<or> da_Action a = ''respond'' \<or> dnsRuleActionDisablesLegacyDNSMode a),
              fl_needed = dnsRuleActionHasStrategy a, fl_neededFromStrategy = dnsRuleActionHasStrategy a\<rparr> = Ok g" using 1(2) False by simp
      note m = merge_all_flags [OF this]
      have sub: "fl_neededFromStrategy h \<longrightarrow> fl_needed h" if "Ok h \<in> set (map (dnsRuleModeRequirementsInRule router overrides) rules)" for h
        using that 1(1) [OF False True] by auto
      have "rule_action (DNSRuleOptions t d mode rules neg a) = Some a" using False True by (simp add: rule_action_def)
      then show ?thesis using m sub by auto
    next
      case not_logical: False
      then show ?thesis using 1(2) False by (auto simp: no_flags_def rule_action_def)
    qed
  qed
qed

lemma mode_no_strategy:
  assumes "resolveLegacyDNSMode router rules overrides = Ok (False, flags)" "r \<in> set rules" "rule_action r = Some a"
  shows "\<not> dnsRuleActionHasStrategy a"
proof -
  have m: "merge_all 0 (map (dnsRuleModeRequirementsInRule router overrides) rules) no_flags = Ok flags" "\<not> (fl_disabled flags \<and> fl_neededFromStrategy flags)"
    "fl_disabled flags \<or> \<not> fl_needed flags"
    using assms(1) by (auto simp: resolveLegacyDNSMode_def dnsRuleModeRequirements_def res_bind_eq_Ok split: if_splits)
  note f = merge_all_flags [OF m(1)]
  then obtain h where h: "dnsRuleModeRequirementsInRule router overrides r = Ok h" using assms(2) by auto
  have mem: "Ok h \<in> set (map (dnsRuleModeRequirementsInRule router overrides) rules)" using h assms(2) by (metis image_eqI set_map)
  show ?thesis
  proof
    assume "dnsRuleActionHasStrategy a"
    then have "fl_neededFromStrategy h" "fl_needed h" using requirements_strategy [OF h] assms(3) by auto
    then have "fl_neededFromStrategy flags" "fl_needed flags" using f mem by blast+
    then show False using m(2,3) by blast
  qed
qed

lemma collect_rules_Ok: "collect_rules i xs = Ok rs \<longleftrightarrow> xs = map Ok rs"
  by (induction i xs arbitrary: rs rule: collect_rules.induct) (auto simp: res_bind_eq_Ok split: res.splits)

lemma new_rule_action:
  assumes "NewDNSRule legacy check r = Ok rule"
  shows "\<exists>a. rule_action r = Some a \<and> NewDNSRuleAction a = Ok (dr_Action rule) \<and> dr_Race rule = da_Race a"
  using assms by (cases r) (auto simp: NewDefaultDNSRule_def NewLogicalDNSRule_def res_bind_eq_Ok Let_def rule_action_def split: if_splits)

lemma action_strategy:
  assumes "NewDNSRuleAction a = Ok action" "\<not> dnsRuleActionHasStrategy a"
  shows "(\<forall>server ro s. action = ActionRoute server ro s \<longrightarrow> ro_Strategy ro = AsIS) \<and> (\<forall>server ro s tag. action = ActionEvaluate server ro s tag \<longrightarrow> ro_Strategy ro = AsIS) \<and>
    (\<forall>ro. action = ActionRouteOptions ro \<longrightarrow> ro_Strategy ro = AsIS)"
  using assms by (auto simp: NewDNSRuleAction_def dnsRuleActionHasStrategy_def route_options_of_def split: if_splits)

lemma buildRules_Ok:
  assumes "buildRules router transports opts = Ok (rules, False, flags)"
  shows "resolveLegacyDNSMode router opts [] = Ok (False, flags)" "\<exists>ws. validateLegacyDNSModeDisabledRules router opts [] = Ok ws"
    "list_all2 (\<lambda>o' r. NewDNSRule False True o' = Ok r) opts rules"
proof -
  obtain ws where w: "resolveLegacyDNSMode router opts [] = Ok (False, flags)" "validateLegacyDNSModeDisabledRules router opts [] = Ok ws"
    "collect_rules 0 (map (NewDNSRule False True) opts) = Ok rules"
    using assms by (auto simp: buildRules_def res_bind_eq_Ok split: option.splits if_splits)
  then have "map (NewDNSRule False True) opts = map Ok rules" by (simp add: collect_rules_Ok)
  then show "list_all2 (\<lambda>o' r. NewDNSRule False True o' = Ok r) opts rules" unfolding list_all2_conv_all_nth by (metis length_map nth_map)
  show "resolveLegacyDNSMode router opts [] = Ok (False, flags)" "\<exists>ws. validateLegacyDNSModeDisabledRules router opts [] = Ok ws" using w by auto
qed


section \<open>Built rules look at what they bind\<close>

text \<open>\<open>DNSRuleMatchResponse.UnmarshalJSON\<close> gives a tag only to an enabled \<open>match_response\<close>.\<close>

fun parsed :: "DNSRuleOptions \<Rightarrow> bool" where
  "parsed (DNSRuleOptions t d mode rules neg a) =
     ((\<forall>e tag. dd_MatchResponse d = Some (e, tag) \<longrightarrow> tag \<noteq> [] \<longrightarrow> e) \<and> list_all parsed rules)"

definition binds_what_it_reads :: "DNSRule \<Rightarrow> bool" where
  "binds_what_it_reads r = (\<forall>a a' n n'. (dr_MatchResponseAnonymous r \<longrightarrow> a = a') \<longrightarrow> (\<forall>t \<in> set (dr_MatchResponseTags r). n t = n' t) \<longrightarrow> dr_Match r a n = dr_Match r a' n')"

lemma default_binds:
  assumes "NewDefaultDNSRule legacy d = Ok r"
  shows "binds_what_it_reads r" "set (dr_MatchResponseTags r) = {t. t = ResponseTag (dd_MatchResponse d) \<and> t \<noteq> []}" "dr_MatchResponseTag r = ResponseTag (dd_MatchResponse d)"
  using assms by (auto simp: NewDefaultDNSRule_def res_bind_eq_Ok Let_def binds_what_it_reads_def default_dns_Match_def split: if_splits)

lemma logical_binds:
  assumes "NewLogicalDNSRule mode neg a (map Ok rules) = Ok r" "\<forall>q \<in> set rules. binds_what_it_reads q"
  shows "binds_what_it_reads r"
proof -
  have r: "set (dr_MatchResponseTags r) = (\<Union>q \<in> set rules. set (dr_MatchResponseTags q))" "dr_MatchResponseAnonymous r = list_ex dr_MatchResponseAnonymous rules"
    "dr_Match r = logical_dns_Match mode neg rules"
    using assms(1) by (auto simp: NewLogicalDNSRule_def res_bind_eq_Ok collect_rules_Ok Let_def inj_map_eq_map inj_on_def split: if_splits)
  show ?thesis
    unfolding binds_what_it_reads_def
  proof (intro allI impI)
    fix a a' :: "Msg option" and n n' :: "string \<Rightarrow> Msg option"
    assume h: "dr_MatchResponseAnonymous r \<longrightarrow> a = a'" "\<forall>t \<in> set (dr_MatchResponseTags r). n t = n' t"
    have "dr_Match q a n = dr_Match q a' n'" if "q \<in> set rules" for q
      using assms(2) that h r(1,2) unfolding binds_what_it_reads_def by (metis UN_I list_ex_iff)
    then show "dr_Match r a n = dr_Match r a' n'" unfolding r(3) logical_dns_Match_def by (simp add: list_all_iff list_ex_iff cong: ball_cong bex_cong)
  qed
qed

lemma nested_Ok:
  assumes "NewLogicalDNSRule mode neg a (map (\<lambda>r. case validateNoNestedDNSRuleActions True r of Some e \<Rightarrow> Err e | None \<Rightarrow> NewDNSRule legacy False r) rules) = Ok rule"
  obtains qs where "NewLogicalDNSRule mode neg a (map Ok qs) = Ok rule" "list_all2 (\<lambda>r q. validateNoNestedDNSRuleActions True r = None \<and> NewDNSRule legacy False r = Ok q) rules qs"
proof -
  let ?f = "\<lambda>r. case validateNoNestedDNSRuleActions True r of Some e \<Rightarrow> Err e | None \<Rightarrow> NewDNSRule legacy False r"
  obtain qs where qs: "map ?f rules = map Ok qs" using assms by (auto simp: NewLogicalDNSRule_def res_bind_eq_Ok collect_rules_Ok split: if_splits)
  have f: "?f r = Ok q \<Longrightarrow> validateNoNestedDNSRuleActions True r = None \<and> NewDNSRule legacy False r = Ok q" for r q by (cases "validateNoNestedDNSRuleActions True r") simp_all
  have "list_all2 (\<lambda>r q. validateNoNestedDNSRuleActions True r = None \<and> NewDNSRule legacy False r = Ok q) rules qs" unfolding list_all2_conv_all_nth
  proof (intro conjI allI impI)
    show len: "length rules = length qs" using qs by (metis length_map)
    fix i assume "i < length rules"
    then have "?f (rules ! i) = Ok (qs ! i)" using qs len by (metis (no_types, lifting) nth_map)
    from f [OF this] show "validateNoNestedDNSRuleActions True (rules ! i) = None" "NewDNSRule legacy False (rules ! i) = Ok (qs ! i)" by simp_all
  qed
  then show thesis using that assms qs by simp
qed

lemma list_all2_right:
  assumes "list_all2 P xs ys" "y \<in> set ys"
  obtains x where "x \<in> set xs" "P x y"
  using assms unfolding list_all2_conv_all_nth in_set_conv_nth [of y] by (metis nth_mem)

lemma new_rule_binds: "NewDNSRule legacy check r = Ok rule \<Longrightarrow> binds_what_it_reads rule"
proof (induction legacy check r arbitrary: rule rule: NewDNSRule.induct)
  case (1 legacy check t d mode rules neg a)
  show ?case
  proof (cases "is_default t")
    case True
    then have "NewDefaultDNSRule legacy d = Ok rule" using 1(2) by (auto simp: res_bind_eq_Ok)
    then show ?thesis by (rule default_binds(1))
  next
    case False
    then have l: "is_logical t" and n: "NewLogicalDNSRule mode neg a (map (\<lambda>r. case validateNoNestedDNSRuleActions True r of Some e \<Rightarrow> Err e | None \<Rightarrow> NewDNSRule legacy False r) rules) = Ok rule"
      using 1(2) by (auto simp: res_bind_eq_Ok split: if_splits)
    obtain qs where qs: "NewLogicalDNSRule mode neg a (map Ok qs) = Ok rule" "list_all2 (\<lambda>r q. validateNoNestedDNSRuleActions True r = None \<and> NewDNSRule legacy False r = Ok q) rules qs" by (rule nested_Ok [OF n])
    have "\<forall>q \<in> set qs. binds_what_it_reads q"
    proof
      fix q assume "q \<in> set qs"
      then obtain r where r: "r \<in> set rules" "validateNoNestedDNSRuleActions True r = None" "NewDNSRule legacy False r = Ok q"
        using list_all2_right [OF qs(2)] by blast
      show "binds_what_it_reads q" by (rule 1(1) [OF False l r])
    qed
    then show ?thesis using logical_binds [OF qs(1)] by blast
  qed
qed

text \<open>A rule that binds no tag in the options refers to none.\<close>

lemma use_all_tags: "use_all i xs u = Ok v \<Longrightarrow> us_referencedTags v = [] \<Longrightarrow> us_referencedTags u = [] \<and> (\<forall>x \<in> set xs. \<exists>w. x = Ok w \<and> us_referencedTags w = [])"
  by (induction i xs u rule: use_all.induct) (auto split: res.splits)

lemma unreferenced_tags:
  "NewDNSRule legacy check r = Ok rule \<Longrightarrow> parsed r \<Longrightarrow> validateLegacyDNSModeDisabledRuleTree router overrides r = Ok u \<Longrightarrow> us_referencedTags u = [] \<Longrightarrow> dr_MatchResponseTags rule = []"
proof (induction legacy check r arbitrary: rule u rule: NewDNSRule.induct)
  case (1 legacy check t d mode rules neg a)
  show ?case
  proof (cases "is_default t")
    case True
    then have n: "NewDefaultDNSRule legacy d = Ok rule" and "u = default_use d" using 1(2,4)
      by (auto simp: res_bind_eq_Ok validateLegacyDNSModeDisabledDefaultRule_def split: if_splits)
    then have "\<not> (IsEnabled (dd_MatchResponse d) \<and> ResponseTag (dd_MatchResponse d) \<noteq> [])" using 1(5) by (simp add: default_use_def Let_def split: if_splits)
    then have "ResponseTag (dd_MatchResponse d) = []" using 1(3) by (auto simp: ResponseTag_def IsEnabled_def split: option.splits prod.splits)
    then show ?thesis using n by (auto simp: NewDefaultDNSRule_def res_bind_eq_Ok Let_def)
  next
    case False
    then have l: "is_logical t" and n: "NewLogicalDNSRule mode neg a (map (\<lambda>r. case validateNoNestedDNSRuleActions True r of Some e \<Rightarrow> Err e | None \<Rightarrow> NewDNSRule legacy False r) rules) = Ok rule"
      using 1(2) by (auto simp: res_bind_eq_Ok split: if_splits)
    obtain qs where qs: "NewLogicalDNSRule mode neg a (map Ok qs) = Ok rule" "list_all2 (\<lambda>r q. validateNoNestedDNSRuleActions True r = None \<and> NewDNSRule legacy False r = Ok q) rules qs"
      by (rule nested_Ok [OF n])
    obtain v where v: "use_all 0 (map (validateLegacyDNSModeDisabledRuleTree router overrides) rules) no_use = Ok v" "us_referencedTags v = []"
      using 1(4,5) False l by (auto simp: res_bind_eq_Ok split: if_splits)
    have "dr_MatchResponseTags q = []" if q: "q \<in> set qs" for q
    proof -
      obtain r where r: "r \<in> set rules" "validateNoNestedDNSRuleActions True r = None" "NewDNSRule legacy False r = Ok q"
        using list_all2_right [OF qs(2) q] by blast
      obtain w where w: "validateLegacyDNSModeDisabledRuleTree router overrides r = Ok w" "us_referencedTags w = []" using use_all_tags [OF v] r(1) by auto
      have "parsed r" using 1(3) r(1) by (simp add: list_all_iff)
      then show ?thesis by (rule 1(1) [OF False l r _ w])
    qed
    then show ?thesis using qs(1) by (auto simp: NewLogicalDNSRule_def res_bind_eq_Ok collect_rules_Ok Let_def inj_map_eq_map inj_on_def Uniq_def split: if_splits)
  qed
qed

lemma built_well_bound:
  assumes "NewDNSRule False True r = Ok rule" "parsed r" "validateLegacyDNSModeDisabledRuleTree router overrides r = Ok u"
  shows "well_bound rule"
proof -
  obtain t d mode rules neg a where r: "r = DNSRuleOptions t d mode rules neg a" by (cases r)
  have "if dr_MatchResponseTag rule \<noteq> [] then dr_MatchResponseTag rule \<in> set (dr_MatchResponseTags rule) else dr_MatchResponseTags rule = []" if act: "dr_Action rule = ActionRespond"
  proof (cases "is_default t")
    case True
    then have n: "NewDefaultDNSRule False d = Ok rule" using assms(1) by (auto simp: r res_bind_eq_Ok)
    have tags: "dr_MatchResponseTags rule = (if dr_MatchResponseTag rule = [] then [] else [dr_MatchResponseTag rule])"
      using n by (auto simp: NewDefaultDNSRule_def res_bind_eq_Ok Let_def)
    show ?thesis unfolding tags by simp
  next
    case False
    then have l: "is_logical t" and n: "NewLogicalDNSRule mode neg a (map (\<lambda>r. case validateNoNestedDNSRuleActions True r of Some e \<Rightarrow> Err e | None \<Rightarrow> NewDNSRule False False r) rules) = Ok rule"
      using assms(1) by (auto simp: r res_bind_eq_Ok split: if_splits)
    have "dr_MatchResponseTag rule = []" "NewDNSRuleAction a = Ok ActionRespond" using n act by (auto simp: NewLogicalDNSRule_def res_bind_eq_Ok Let_def split: if_splits)
    then have "da_Action a = ''respond''" by (auto simp: NewDNSRuleAction_def split: if_splits)
    then have "us_referencedTags u = []" using assms(3) False l by (auto simp: r res_bind_eq_Ok split: if_splits)
    then show ?thesis using unreferenced_tags [OF assms] \<open>dr_MatchResponseTag rule = []\<close> by simp
  qed
  then show ?thesis using new_rule_binds [OF assms(1)] unfolding well_bound_def binds_what_it_reads_def by simp
qed

definition opt_tags :: "DNSRuleOptions \<Rightarrow> string list" where
  "opt_tags r = (if dnsRuleActionType r = ''evaluate'' \<and> dnsRuleActionEvaluateTag r \<noteq> [] then [dnsRuleActionEvaluateTag r] else [])"

lemma validate_one_tags:
  assumes "validate_one i r u v = Ok v'" "distinct (va_definedTagOrder v)"
  shows "distinct (va_definedTagOrder v') \<and> va_definedTagOrder v' = va_definedTagOrder v @ opt_tags r \<and> set (us_referencedTags u) \<subseteq> set (va_definedTagOrder v) \<and>
    (us_needsAnonymous u \<longrightarrow> va_seenAnonymousEvaluate v)"
proof -
  define v1 where "v1 = v\<lparr>va_warnings := va_warnings v @ (if dnsRuleActionSpeculative r \<and> \<not> va_seenRace v then [SpeculativeNoEffect i] else []),
    va_seenRace := va_seenRace v \<or> dnsRuleRace r\<rparr>"
  define v2 where "v2 = (if us_needsAnonymous u then v1\<lparr>va_anonymousReadSinceLast := True\<rparr> else v1)"
  define w where "w = v2\<lparr>va_referencedTags := va_referencedTags v2 @ us_referencedTags u\<rparr>"
  have f: "va_definedTagOrder v2 = va_definedTagOrder v" "va_definedTagOrder w = va_definedTagOrder v" "va_seenAnonymousEvaluate v1 = va_seenAnonymousEvaluate v"
    by (simp_all add: v1_def v2_def w_def)
  have "validate_one i r u v = (if us_needsAnonymous u \<and> \<not> va_seenAnonymousEvaluate v1 then Err (if va_definedTagOrder v1 \<noteq> [] then NoAnonymousEvaluateBefore else NoEvaluateBefore)
      else (case undefined_tags v2 u of t # _ \<Rightarrow> Err (UndefinedTag t) | [] \<Rightarrow> validate_evaluate i r w))"
    unfolding validate_one_def Let_def v1_def [symmetric] v2_def [symmetric] w_def [symmetric] ..
  then have e: "us_needsAnonymous u \<longrightarrow> va_seenAnonymousEvaluate v" "undefined_tags v u = []" "validate_evaluate i r w = Ok v'"
    using assms(1) f by (auto simp: undefined_tags_def split: if_splits list.splits)
  have "va_definedTagOrder v' = va_definedTagOrder v @ opt_tags r \<and> distinct (va_definedTagOrder v')"
    using e(3) f(2) assms(2) by (auto simp: validate_evaluate_def opt_tags_def Let_def split: if_splits)
  then show ?thesis using e(1,2) by (auto simp: undefined_tags_def filter_empty_conv)
qed

lemma validate_from_tags:
  "validate_from router overrides i rs v = Ok v' \<Longrightarrow> distinct (va_definedTagOrder v) \<Longrightarrow>
    distinct (va_definedTagOrder v') \<and> va_definedTagOrder v' = va_definedTagOrder v @ concat (map opt_tags rs) \<and> (\<forall>r \<in> set rs. \<exists>u. validateLegacyDNSModeDisabledRuleTree router overrides r = Ok u)"
proof (induction rs arbitrary: i v)
  case (Cons r rs)
  then obtain u w where u: "validateLegacyDNSModeDisabledRuleTree router overrides r = Ok u" "validate_one i r u v = Ok w" "validate_from router overrides (Suc i) rs w = Ok v'"
    by (auto split: res.splits)
  note o = validate_one_tags [OF u(2) Cons.prems(2)]
  have "distinct (va_definedTagOrder w)" using o by blast
  note ih = Cons.IH [OF u(3) this]
  have "va_definedTagOrder v' = va_definedTagOrder v @ concat (map opt_tags (r # rs))" using ih o by simp
  then show ?case using ih u(1) by (metis set_ConsD)
qed simp

lemma built_tags:
  assumes "NewDNSRule False True r = Ok rule"
  shows "rule_tags rule = opt_tags r"
proof -
  obtain a where a: "rule_action r = Some a" "NewDNSRuleAction a = Ok (dr_Action rule)" using new_rule_action [OF assms] by blast
  then show ?thesis by (auto simp: rule_tags_def opt_tags_def dnsRuleActionType_def dnsRuleActionEvaluateTag_def NewDNSRuleAction_def split: if_splits RuleAction.split)
qed

text \<open>The rules the router builds for the walk are the ones the walk needs.\<close>

lemma built_for_walk:
  assumes "buildRules router transports opts = Ok (rules, False, flags)" "\<forall>r \<in> set opts. parsed r"
  shows "\<forall>r \<in> set rules. well_bound r" "distinct (evaluate_tags rules)" "\<forall>r \<in> set rules. \<exists>r' \<in> set opts. dr_Race r = dnsRuleRace r'"
proof -
  note b = buildRules_Ok [OF assms(1)]
  obtain v where v: "validate_from router [] 0 opts first_validation = Ok v" using b(2) by (auto simp: validateLegacyDNSModeDisabledRules_def res_bind_eq_Ok)
  have t: "distinct (concat (map opt_tags opts))" "\<forall>r \<in> set opts. \<exists>u. validateLegacyDNSModeDisabledRuleTree router [] r = Ok u"
    using validate_from_tags [OF v] by (auto simp: first_validation_def)
  have "evaluate_tags rules = concat (map opt_tags opts)" using b(3) unfolding evaluate_tags_def by (induction rule: list_all2_induct) (simp_all add: built_tags)
  then show "distinct (evaluate_tags rules)" using t(1) by simp
  show "\<forall>r \<in> set rules. well_bound r"
  proof
    fix r assume "r \<in> set rules"
    then obtain r' where r': "r' \<in> set opts" "NewDNSRule False True r' = Ok r" by (rule list_all2_right [OF b(3)])
    then show "well_bound r" using built_well_bound assms(2) t(2) by blast
  qed
  show "\<forall>r \<in> set rules. \<exists>r' \<in> set opts. dr_Race r = dnsRuleRace r'"
  proof
    fix r assume "r \<in> set rules"
    then obtain r' where r': "r' \<in> set opts" "NewDNSRule False True r' = Ok r" by (rule list_all2_right [OF b(3)])
    obtain a where "rule_action r' = Some a" "dr_Race r = da_Race a" using new_rule_action [OF r'(2)] by blast
    then have "dr_Race r = dnsRuleRace r'" by (simp add: dnsRuleRace_def)
    then show "\<exists>r' \<in> set opts. dr_Race r = dnsRuleRace r'" using r'(1) by blast
  qed
qed

text \<open>C28. Rules the router builds for the walk, none of them a race: whenever the walk ends, in whatever order the answers came, its result is
  the one of the rules taken one after the other with each evaluate action answered on the spot. When a rule refers to an answer by its tag, this is
  for walks in which no answer arrives between the moment a rule settles the futures and the moment it reads them; such an answer is missed
  (\<open>late_answer_is_missed\<close>). When no rule refers to a tag, answers may arrive there too.\<close>

theorem dns_walk_in_order:
  assumes "buildRules router transports opts = Ok (rules, False, flags)" "\<forall>r \<in> set opts. parsed r \<and> \<not> dnsRuleRace r" "late \<longrightarrow> (\<forall>r \<in> set rules. dr_MatchResponseTags r = [])"
    "(walk_step ask R message allow rules late)\<^sup>*\<^sup>* (Walk (new_walk options)) (Finished x)"
  shows "x = walk_in_order ask R message allow rules options None (\<lambda>_. None)"
proof -
  have p: "\<forall>r \<in> set opts. parsed r" using assms(2) by blast
  note b = built_for_walk [OF assms(1) p]
  have "\<forall>r \<in> set rules. well_bound r \<and> \<not> dr_Race r \<and> (late \<longrightarrow> dr_MatchResponseTags r = [])" using b(1,3) assms(2,3) by auto
  from walk_run_in_order [OF this b(2) assms(4)] show ?thesis by (simp add: config_ok_def)
qed

text \<open>Outside the legacy mode no action of a rule has a strategy, which is why the walk may leave it out of the options it passes on.\<close>

theorem walk_without_strategy:
  assumes "buildRules router transports opts = Ok (rules, False, flags)" "r \<in> set rules"
  shows "(\<forall>server ro s. dr_Action r = ActionRoute server ro s \<longrightarrow> ro_Strategy ro = AsIS) \<and> (\<forall>server ro s tag. dr_Action r = ActionEvaluate server ro s tag \<longrightarrow> ro_Strategy ro = AsIS) \<and>
    (\<forall>ro. dr_Action r = ActionRouteOptions ro \<longrightarrow> ro_Strategy ro = AsIS)"
proof -
  note b = buildRules_Ok [OF assms(1)]
  obtain r' where r': "r' \<in> set opts" "NewDNSRule False True r' = Ok r" by (rule list_all2_right [OF b(3) assms(2)])
  obtain a where a: "rule_action r' = Some a" "NewDNSRuleAction a = Ok (dr_Action r)" using new_rule_action [OF r'(2)] by blast
  show ?thesis by (rule action_strategy [OF a(2) mode_no_strategy [OF b(1) r'(1) a(1)]])
qed


section \<open>Rule sets that change\<close>

text \<open>Mode and validation depend on what looking up a set gives.\<close>

definition same_sets :: "router_sets \<Rightarrow> (string, RuleSetMetadata) gomap \<Rightarrow> router_sets \<Rightarrow> (string, RuleSetMetadata) gomap \<Rightarrow> bool" where
  "same_sets r1 o1 r2 o2 = ((r1 = None) = (r2 = None) \<and> (\<forall>t. lookupDNSRuleSetMetadata r1 t o1 = lookupDNSRuleSetMetadata r2 t o2))"

lemma same_sets_default:
  assumes "same_sets r1 o1 r2 o2"
  shows "dnsRuleModeRequirementsInDefaultRule r1 d o1 = dnsRuleModeRequirementsInDefaultRule r2 d o2"
    "validateLegacyDNSModeDisabledDefaultRule r1 d o1 = validateLegacyDNSModeDisabledDefaultRule r2 d o2"
proof -
  have l: "(r1 = None) = (r2 = None)" "\<And>t. lookupDNSRuleSetMetadata r1 t o1 = lookupDNSRuleSetMetadata r2 t o2" using assms by (simp_all add: same_sets_def)
  have "rule_set_flags r1 o1 src ts f = rule_set_flags r2 o2 src ts f" for src ts f by (induction ts arbitrary: f) (simp_all add: l)
  then show "dnsRuleModeRequirementsInDefaultRule r1 d o1 = dnsRuleModeRequirementsInDefaultRule r2 d o2"
    unfolding dnsRuleModeRequirementsInDefaultRule_def Let_def l(1) by simp
  have "check_pure_ip r1 o1 ts = check_pure_ip r2 o2 ts" for ts
  proof (induction ts)
    case (Cons t ts)
    show ?case unfolding check_pure_ip.simps l(2) Cons.IH ..
  qed simp
  then show "validateLegacyDNSModeDisabledDefaultRule r1 d o1 = validateLegacyDNSModeDisabledDefaultRule r2 d o2"
    unfolding validateLegacyDNSModeDisabledDefaultRule_def by simp
qed

lemma same_sets_rule:
  assumes "same_sets r1 o1 r2 o2"
  shows "dnsRuleModeRequirementsInRule r1 o1 r = dnsRuleModeRequirementsInRule r2 o2 r"
    "validateLegacyDNSModeDisabledRuleTree r1 o1 r = validateLegacyDNSModeDisabledRuleTree r2 o2 r"
proof (induction r)
  case (DNSRuleOptions t d mode rules neg a)
  {
    case 1
    have m: "map (dnsRuleModeRequirementsInRule r1 o1) rules = map (dnsRuleModeRequirementsInRule r2 o2) rules" using DNSRuleOptions by simp
    show ?case unfolding dnsRuleModeRequirementsInRule.simps same_sets_default [OF assms] m ..
  next
    case 2
    have m: "map (validateLegacyDNSModeDisabledRuleTree r1 o1) rules = map (validateLegacyDNSModeDisabledRuleTree r2 o2) rules" using DNSRuleOptions by simp
    show ?case unfolding validateLegacyDNSModeDisabledRuleTree.simps same_sets_default [OF assms] m ..
  }
qed

lemma same_sets_rules:
  assumes "same_sets r1 o1 r2 o2"
  shows "resolveLegacyDNSMode r1 rules o1 = resolveLegacyDNSMode r2 rules o2" "validateLegacyDNSModeDisabledRules r1 rules o1 = validateLegacyDNSModeDisabledRules r2 rules o2"
proof -
  have "dnsRuleModeRequirementsInRule r1 o1 = dnsRuleModeRequirementsInRule r2 o2" using same_sets_rule(1) [OF assms] by blast
  then show "resolveLegacyDNSMode r1 rules o1 = resolveLegacyDNSMode r2 rules o2" unfolding resolveLegacyDNSMode_def dnsRuleModeRequirements_def by simp
  have "validate_from r1 o1 i rules v = validate_from r2 o2 i rules v" for i v
  proof (induction rules arbitrary: i v)
    case (Cons r rules)
    show ?case unfolding validate_from.simps same_sets_rule(2) [OF assms] Cons.IH ..
  qed simp
  then show "validateLegacyDNSModeDisabledRules r1 rules o1 = validateLegacyDNSModeDisabledRules r2 rules o2" unfolding validateLegacyDNSModeDisabledRules_def by simp
qed

text \<open>Overriding the metadata of a set is replacing the set in the router.\<close>

lemma override_sets: "same_sets (Some sets) [(tag, md)] (Some (sets(tag := Some md))) []"
  by (simp add: same_sets_def lookupDNSRuleSetMetadata_def)

lemmas override_rules = same_sets_rules [OF override_sets]

lemma candidate_not_disabled: "resolveLegacyDNSMode router rules overrides = Ok (True, flags) \<Longrightarrow> \<not> fl_disabled flags"
  by (auto simp: resolveLegacyDNSMode_def res_bind_eq_Ok split: if_splits)

text \<open>C31. A change of a rule set that a running router accepts keeps its rules fit for the mode it runs in: with the set replaced, a router in
  the legacy mode has no rule that rules this mode out, and a router that walks its rules still resolves to the walk with valid rules.\<close>

theorem accepted_update_keeps_mode:
  assumes "ValidateRuleSetMetadataUpdate (Some sets) r tag md = Ok ()" "rr_started r" "\<not> rr_closing r" "rr_rawRules r \<noteq> []"
  shows "\<exists>candidate flags. resolveLegacyDNSMode (Some (sets(tag := Some md))) (rr_rawRules r) [] = Ok (candidate, flags) \<and>
    (if rr_legacyDNSMode r then \<not> fl_disabled flags
     else \<not> candidate \<and> (\<exists>ws. validateLegacyDNSModeDisabledRules (Some (sets(tag := Some md))) (rr_rawRules r) [] = Ok ws))"
proof -
  obtain candidate flags where res: "resolveLegacyDNSMode (Some (sets(tag := Some md))) (rr_rawRules r) [] = Ok (candidate, flags)"
    and ok: "(if rr_legacyDNSMode r then \<not> (\<not> candidate \<and> fl_disabled flags)
      else \<not> candidate \<and> (\<exists>ws. validateLegacyDNSModeDisabledRules (Some (sets(tag := Some md))) (rr_rawRules r) [] = Ok ws))"
    using assms by (auto simp: ValidateRuleSetMetadataUpdate_def Let_def override_rules res_bind_eq_Ok split: if_splits)
  have "candidate \<Longrightarrow> \<not> fl_disabled flags" using candidate_not_disabled res by (cases candidate) auto
  then show ?thesis using res ok by (cases "rr_legacyDNSMode r") (auto split: if_splits)
qed


section \<open>Examples\<close>

definition ex_default :: "DNSRuleMatchResponse \<Rightarrow> string list \<Rightarrow> DNSRuleAction \<Rightarrow> DefaultDNSRule" where
  "ex_default mr sets a = \<lparr>dd_IPVersion = 0, dd_QueryType = [], dd_RuleSet = sets, dd_RuleSetIPCIDRMatchSource = False, dd_MatchResponse = mr, dd_IPCIDR = [], dd_IPIsPrivate = False,
     dd_IPAcceptAny = False, dd_ResponseRcode = None, dd_ResponseAnswer = [], dd_ResponseNs = [], dd_ResponseExtra = [], dd_Invert = False, dd_RuleSetIPCIDRAcceptEmpty = False,
     dd_has_conditions = True, dd_conditions = (\<lambda>_. Ok (\<lambda>_. True)), dd_Action = a\<rparr>"

definition ex_opts :: "DNSRuleOptions list" where
  "ex_opts = [DNSRuleOptions ''default'' (ex_default None [''x''] (zero_action\<lparr>da_Action := ''evaluate'',
       da_EvaluateOptions := \<lparr>eo_Server = ''s'', eo_Tag = ''a'', eo_Speculative = False, eo_Options = zero_abstract_options\<rparr>\<rparr>)) [] [] False zero_action,
     DNSRuleOptions ''default'' (ex_default (Some (True, ''a'')) [] (zero_action\<lparr>da_Action := ''respond''\<rparr>)) [] [] False zero_action]"

definition ex_sets :: "string \<Rightarrow> RuleSetMetadata option" where
  "ex_sets t = (if t = ''x'' then Some \<lparr>ms_ContainsIPCIDRRule = False, ms_ContainsNonIPCIDRRule = True, ms_ContainsDNSQueryTypeRule = False\<rparr> else None)"

definition ex_built :: "DNSRule list" where
  "ex_built = [\<lparr>dr_MatchResponseTags = [], dr_MatchResponseAnonymous = False, dr_MatchResponseTag = [], dr_Race = False,
       dr_Match = default_dns_Match None False (\<lambda>_. True), dr_Action = ActionEvaluate ''s'' (route_options_of zero_abstract_options) False ''a''\<rparr>,
     \<lparr>dr_MatchResponseTags = [''a''], dr_MatchResponseAnonymous = False, dr_MatchResponseTag = ''a'', dr_Race = False,
       dr_Match = default_dns_Match (Some (True, ''a'')) False (\<lambda>_. True), dr_Action = ActionRespond\<rparr>]"

definition ex_flags :: dnsRuleModeFlags where
  "ex_flags = \<lparr>fl_disabled = True, fl_needed = False, fl_neededFromStrategy = False\<rparr>"

lemmas ex_opts_defs = ex_default_def ex_opts_def ex_sets_def zero_action_def zero_abstract_options_def is_default_def is_logical_def rule_action_def IsEnabled_def ResponseTag_def

lemma ex_mode: "resolveLegacyDNSMode (Some ex_sets) ex_opts [] = Ok (False, ex_flags)"
  by (simp add: resolveLegacyDNSMode_def dnsRuleModeRequirements_def dnsRuleModeRequirementsInDefaultRule_def ex_opts_defs dnsRuleActionHasStrategy_def
      defaultRuleDisablesLegacyDNSMode_def dnsRuleActionDisablesLegacyDNSMode_def defaultRuleNeedsLegacyDNSModeFromAddressFilter_def hasResponseMatchFields_def
      lookupDNSRuleSetMetadata_def merge_def no_flags_def ex_flags_def)

lemma ex_valid: "validateLegacyDNSModeDisabledRules (Some ex_sets) ex_opts [] = Ok []"
  by (simp add: validateLegacyDNSModeDisabledRules_def validateLegacyDNSModeDisabledDefaultRule_def ex_opts_defs hasResponseMatchFields_def lookupDNSRuleSetMetadata_def
      default_use_def validate_one_def validate_evaluate_def first_validation_def undefined_tags_def dnsRuleActionSpeculative_def dnsRuleRace_def dnsRuleActionType_def
      dnsRuleActionEvaluateTag_def Let_def)

lemma ex_build: "buildRules (Some ex_sets) (Some (rt_Transport ex_router)) ex_opts = Ok (ex_built, False, ex_flags)"
proof -
  have new: "map (NewDNSRule False True) ex_opts = map Ok ex_built"
    by (simp add: ex_opts_defs ex_built_def check_dns_rule_def default_dns_IsValid_def validateDNSRuleAction_def action_route_options_def missing_server_def
        NewDefaultDNSRule_def NewDNSRuleAction_def Let_def)
  have nested: "first_error 0 (map (validateNoNestedDNSRuleActions False) ex_opts) = None" by (simp add: ex_opts_defs)
  have fake: "validateEvaluateFakeIPRules ex_opts (Some (rt_Transport ex_router)) = None"
    by (simp add: validateEvaluateFakeIPRules_def ex_opts_defs ex_router_def ex_server_def dnsRuleActionType_def dnsRuleActionServer_def)
  have "collect_rules 0 (map Ok ex_built) = Ok ex_built" by (simp add: collect_rules_Ok)
  then show ?thesis by (simp add: buildRules_def nested ex_mode new ex_valid fake)
qed

text \<open>Witness of C28: the example above.\<close>

lemma dns_walk_in_order_witness:
  "\<exists>x. (walk_step ex_ask ex_router (ex_message 0) True ex_built False)\<^sup>*\<^sup>* (Walk (new_walk zero_options)) (Finished x) \<and>
    x = no_result\<lparr>er_response := Some (ex_message 3), er_transport := Some (ex_server ''s'')\<rparr>"
proof -
  obtain x where x: "(walk_step ex_ask ex_router (ex_message 0) True ex_built False)\<^sup>*\<^sup>* (Walk (new_walk zero_options)) (Finished x)"
    using live_ends [OF new_walk_live] by blast
  have "\<forall>r \<in> set ex_opts. parsed r \<and> \<not> dnsRuleRace r" by (simp add: ex_opts_defs dnsRuleRace_def)
  from dns_walk_in_order [OF ex_build this _ x]
  have "x = walk_in_order ex_ask ex_router (ex_message 0) True ex_built zero_options None (\<lambda>_. None)" by simp
  also have "\<dots> = no_result\<lparr>er_response := Some (ex_message 3), er_transport := Some (ex_server ''s'')\<rparr>"
    by (simp add: ex_built_def default_dns_Match_def IsEnabled_def ResponseTag_def ex_router_def ex_ask_def evaluated_view_def answer_view_def respond_result_def)
  finally show ?thesis using x by blast
qed

text \<open>An instance: the example above.\<close>

lemma walk_without_strategy_witness: "ro_Strategy (route_options_of zero_abstract_options) = AsIS"
  using walk_without_strategy [OF ex_build, of "ex_built ! 0"] by (auto simp: ex_built_def)

text \<open>The rule set is updated to one with addresses besides domains.\<close>

definition ex_update :: RuleSetMetadata where
  "ex_update = \<lparr>ms_ContainsIPCIDRRule = True, ms_ContainsNonIPCIDRRule = True, ms_ContainsDNSQueryTypeRule = False\<rparr>"

definition ex_running :: rule_router where
  "ex_running = \<lparr>rr_rawRules = ex_opts, rr_started = True, rr_legacyDNSMode = False, rr_closing = False\<rparr>"

lemma ex_accepted: "ValidateRuleSetMetadataUpdate (Some ex_sets) ex_running ''x'' ex_update = Ok ()"
proof -
  have "resolveLegacyDNSMode (Some ex_sets) ex_opts [(''x'', ex_update)] = Ok (False, ex_flags\<lparr>fl_needed := True\<rparr>)"
    by (simp add: resolveLegacyDNSMode_def dnsRuleModeRequirements_def dnsRuleModeRequirementsInDefaultRule_def ex_opts_defs dnsRuleActionHasStrategy_def
        defaultRuleDisablesLegacyDNSMode_def dnsRuleActionDisablesLegacyDNSMode_def defaultRuleNeedsLegacyDNSModeFromAddressFilter_def hasResponseMatchFields_def
        lookupDNSRuleSetMetadata_def merge_def no_flags_def ex_flags_def ex_update_def)
  moreover have "validateLegacyDNSModeDisabledRules (Some ex_sets) ex_opts [(''x'', ex_update)] = Ok []"
    by (simp add: validateLegacyDNSModeDisabledRules_def validateLegacyDNSModeDisabledDefaultRule_def ex_opts_defs hasResponseMatchFields_def lookupDNSRuleSetMetadata_def
        default_use_def validate_one_def validate_evaluate_def first_validation_def undefined_tags_def dnsRuleActionSpeculative_def dnsRuleRace_def dnsRuleActionType_def
        dnsRuleActionEvaluateTag_def Let_def ex_update_def)
  moreover have "ex_opts \<noteq> []" by (simp add: ex_opts_def)
  ultimately show ?thesis by (simp add: ValidateRuleSetMetadataUpdate_def ex_running_def Let_def)
qed

text \<open>Witness of C31: the example above.\<close>

lemma accepted_update_keeps_mode_witness:
  "\<exists>ws. validateLegacyDNSModeDisabledRules (Some (ex_sets(''x'' := Some ex_update))) ex_opts [] = Ok ws"
proof -
  have "ex_opts \<noteq> []" by (simp add: ex_opts_def)
  then show ?thesis using accepted_update_keeps_mode [OF ex_accepted] by (auto simp: ex_running_def)
qed

end
