(* ===== verification/DNS_Exchange.thy ===== *)
theory DNS_Exchange
  imports DNS_Rule_Mode
begin

text \<open>
  The queries of the DNS router, \<^verbatim>\<open>dns/router.go\<close>: \<open>matchDNS\<close> and \<open>exchangeLegacy\<close> of the legacy mode, \<open>Exchange\<close> with the
  responses it makes itself and the reverse mapping, and the lookups of addresses. The DNS client is an argument that gives the answer
  to a query; the argument before it is the attempt, so that equal queries may be answered differently.
\<close>

section \<open>The legacy mode\<close>

text \<open>What the legacy mode calls on a rule: \<open>WithAddressLimit\<close>, \<open>LegacyPreMatch\<close> on the metadata of the query, \<open>MatchAddressLimit\<close>.\<close>

record LegacyDNSRule = DNSRule +
  lr_WithAddressLimit :: bool
  lr_LegacyPreMatch :: bool
  lr_MatchAddressLimit :: "Msg \<Rightarrow> bool"

definition legacy_options :: "DNSQueryOptions \<Rightarrow> RuleActionDNSRouteOptions \<Rightarrow> bool \<Rightarrow> DNSQueryOptions" where
  "legacy_options options ro isFakeIP =
     (let o1 = (if ro_Strategy ro \<noteq> AsIS then options\<lparr>o_Strategy := ro_Strategy ro\<rparr> else options);
          o2 = (if isFakeIP \<or> ro_DisableCache ro then o1\<lparr>o_DisableCache := True\<rparr> else o1);
          o3 = (if ro_RewriteTTL ro \<noteq> None then o2\<lparr>o_RewriteTTL := ro_RewriteTTL ro\<rparr> else o2);
          o4 = (if 0 < ro_Timeout ro then o3\<lparr>o_Timeout := ro_Timeout ro\<rparr> else o3);
          o5 = (if prefix_IsValid (ro_ClientSubnet ro) then o4\<lparr>o_ClientSubnet := ro_ClientSubnet ro, o_RemoveClientSubnet := False\<rparr> else o4)
      in if ro_RemoveClientSubnet ro then o5\<lparr>o_ClientSubnet := zero_prefix, o_RemoveClientSubnet := True\<rparr> else o5)"

type_synonym legacy_match = "DNSTransport option \<times> (LegacyDNSRule \<times> nat) option \<times> DNSQueryOptions"

fun matchDNS_from :: "dns_router \<Rightarrow> bool \<Rightarrow> bool \<Rightarrow> nat \<Rightarrow> LegacyDNSRule list \<Rightarrow> DNSQueryOptions \<Rightarrow> legacy_match" where
  "matchDNS_from R allowFakeIP isAddressQuery i [] options = (Some (rt_Default R), None, options)"
| "matchDNS_from R allowFakeIP isAddressQuery i (r # rs) options =
     (if lr_WithAddressLimit r \<and> \<not> isAddressQuery \<or> \<not> lr_LegacyPreMatch r then matchDNS_from R allowFakeIP isAddressQuery (Suc i) rs options
      else (case dr_Action r of
          ActionRoute server ro _ \<Rightarrow> (case rt_Transport R server of
            None \<Rightarrow> matchDNS_from R allowFakeIP isAddressQuery (Suc i) rs options
          | Some (transport, isFakeIP) \<Rightarrow>
              if isFakeIP \<and> \<not> allowFakeIP then matchDNS_from R allowFakeIP isAddressQuery (Suc i) rs options
              else (Some transport, Some (r, i), legacy_options options ro isFakeIP))
        | ActionRouteOptions ro \<Rightarrow> matchDNS_from R allowFakeIP isAddressQuery (Suc i) rs (legacy_options options ro False)
        | ActionReject _ \<Rightarrow> (None, Some (r, i), options)
        | ActionPredefined _ \<Rightarrow> (None, Some (r, i), options)
        | _ \<Rightarrow> matchDNS_from R allowFakeIP isAddressQuery (Suc i) rs options))"

text \<open>The index -1 is \<open>None\<close>.\<close>

definition next_index :: "nat option \<Rightarrow> nat" where
  "next_index ruleIndex = (case ruleIndex of None \<Rightarrow> 0 | Some i \<Rightarrow> Suc i)"

definition matchDNS :: "dns_router \<Rightarrow> LegacyDNSRule list \<Rightarrow> bool \<Rightarrow> nat option \<Rightarrow> bool \<Rightarrow> DNSQueryOptions \<Rightarrow> legacy_match" where
  "matchDNS R rules allowFakeIP ruleIndex isAddressQuery options =
     matchDNS_from R allowFakeIP isAddressQuery (next_index ruleIndex) (drop (next_index ruleIndex) rules) options"

definition isAddressQuery :: "Msg \<Rightarrow> bool" where
  "isAddressQuery message = list_ex (\<lambda>q. q_Qtype q = TypeA \<or> q_Qtype q = TypeAAAA \<or> q_Qtype q = TypeHTTPS) (m_Question message)"

definition addressLimitResponseCheck :: "LegacyDNSRule \<Rightarrow> checker" where
  "addressLimitResponseCheck r = (if lr_WithAddressLimit r then Some (lr_MatchAddressLimit r) else None)"

definition is_rejected :: "dns_error option \<Rightarrow> bool" where
  "is_rejected err = (err = Some ErrResponseRejectedCached \<or> err = Some ErrResponseRejected)"

text \<open>Response, transport and error; a nil transport makes the client panic.\<close>

type_synonym exchanged = "(unit, Msg option \<times> DNSTransport option \<times> router_error option) res"
type_synonym client_answer = "nat \<Rightarrow> DNSTransport \<Rightarrow> DNSQueryOptions \<Rightarrow> checker \<Rightarrow> answer"

definition sent :: "DNSTransport \<Rightarrow> answer \<Rightarrow> exchanged" where
  "sent t a = Ok (fst a, Some t, map_option ClientError (snd a))"

definition legacy_action :: "Msg \<Rightarrow> RuleAction \<Rightarrow> exchanged option" where
  "legacy_action message action = (case action of
     ActionReject RejectDefault \<Rightarrow> Some (Ok (Some (dnsRefusedResponse message), None, None))
   | ActionReject RejectDrop \<Rightarrow> Some (Ok (None, None, Some ErrDrop))
   | ActionPredefined p \<Rightarrow> Some (Ok (Some (predefined_Response p message), None, None))
   | _ \<Rightarrow> None)"

lemma matchDNS_from_rule: "matchDNS_from R allow isa i rs options = (t, Some (r, j), o') \<Longrightarrow> i \<le> j \<and> j < i + length rs \<and> r = rs ! (j - i)"
proof (induction rs arbitrary: i options)
  case (Cons a rs)
  consider "r = a" "j = i" | options' where "matchDNS_from R allow isa (Suc i) rs options' = (t, Some (r, j), o')"
    using Cons.prems by (auto split: if_splits RuleAction.splits option.splits)
  then show ?case
  proof cases
    case 2
    from Cons.IH [OF this] show ?thesis by (auto simp: nth_Cons' split: if_splits)
  qed simp
qed simp

text \<open>The rule found is behind the index, which is what the termination of the loops rests on.\<close>

lemma matchDNS_later: "(t, Some (r, i), o') = matchDNS R rules allow ruleIndex isa options \<Longrightarrow> length rules - next_index (Some i) < length rules - next_index ruleIndex"
  using matchDNS_from_rule [of R allow isa "next_index ruleIndex" "drop (next_index ruleIndex) rules" options t r i o'] by (auto simp: matchDNS_def next_index_def [of "Some i"])

function exchangeLegacy :: "dns_router \<Rightarrow> client_answer \<Rightarrow> LegacyDNSRule list \<Rightarrow> Msg \<Rightarrow> DNSQueryOptions \<Rightarrow> nat option \<Rightarrow> exchanged" where
  "exchangeLegacy R ask rules message options ruleIndex =
     (case matchDNS R rules True ruleIndex (isAddressQuery message) options of
        (transport, None, dnsOptions) \<Rightarrow> (case transport of None \<Rightarrow> Panic
          | Some t \<Rightarrow> sent t (ask (next_index ruleIndex) t (finalizeExchangeOptions R dnsOptions) None))
      | (transport, Some (r, i), dnsOptions) \<Rightarrow> (case legacy_action message (dr_Action r) of
            Some x \<Rightarrow> x
          | None \<Rightarrow> (case transport of None \<Rightarrow> Panic
              | Some t \<Rightarrow>
                  (let chk = addressLimitResponseCheck r; a = ask (next_index ruleIndex) t (finalizeExchangeOptions R dnsOptions) chk
                   in if chk \<noteq> None \<and> is_rejected (snd a) then exchangeLegacy R ask rules message options (Some i)
                      else sent t a))))"
  by pat_completeness auto
termination
  by (relation "measure (\<lambda>(R, ask, rules, message, options, ruleIndex). length rules - next_index ruleIndex)") (auto dest: matchDNS_later)

declare exchangeLegacy.simps [simp del]

text \<open>The same as one pass over the rules. \<open>cur\<close> are the options so far, \<open>start\<close> is where the current attempt began: a rejected
  response starts a new attempt with the original options.\<close>

fun legacy_in_order :: "dns_router \<Rightarrow> client_answer \<Rightarrow> Msg \<Rightarrow> DNSQueryOptions \<Rightarrow> nat \<Rightarrow> nat \<Rightarrow> DNSQueryOptions \<Rightarrow> LegacyDNSRule list \<Rightarrow> exchanged" where
  "legacy_in_order R ask message options start i cur [] = sent (rt_Default R) (ask start (rt_Default R) (finalizeExchangeOptions R cur) None)"
| "legacy_in_order R ask message options start i cur (r # rs) =
     (if lr_WithAddressLimit r \<and> \<not> isAddressQuery message \<or> \<not> lr_LegacyPreMatch r then legacy_in_order R ask message options start (Suc i) cur rs
      else (case dr_Action r of
          ActionRoute server ro _ \<Rightarrow> (case rt_Transport R server of
            None \<Rightarrow> legacy_in_order R ask message options start (Suc i) cur rs
          | Some (t, isFakeIP) \<Rightarrow>
              (let chk = addressLimitResponseCheck r; a = ask start t (finalizeExchangeOptions R (legacy_options cur ro isFakeIP)) chk
               in if chk \<noteq> None \<and> is_rejected (snd a) then legacy_in_order R ask message options (Suc i) (Suc i) options rs else sent t a))
        | ActionRouteOptions ro \<Rightarrow> legacy_in_order R ask message options start (Suc i) (legacy_options cur ro False) rs
        | ActionReject RejectDefault \<Rightarrow> Ok (Some (dnsRefusedResponse message), None, None)
        | ActionReject RejectDrop \<Rightarrow> Ok (None, None, Some ErrDrop)
        | ActionReject RejectReply \<Rightarrow> Panic
        | ActionPredefined p \<Rightarrow> Ok (Some (predefined_Response p message), None, None)
        | _ \<Rightarrow> legacy_in_order R ask message options start (Suc i) cur rs))"

text \<open>What is done with the rule that \<open>matchDNS\<close> found.\<close>

definition legacy_decide :: "dns_router \<Rightarrow> client_answer \<Rightarrow> Msg \<Rightarrow> nat \<Rightarrow> (nat \<Rightarrow> exchanged) \<Rightarrow> legacy_match \<Rightarrow> exchanged" where
  "legacy_decide R ask message start again m = (case m of
     (transport, None, o') \<Rightarrow> (case transport of None \<Rightarrow> Panic | Some t \<Rightarrow> sent t (ask start t (finalizeExchangeOptions R o') None))
   | (transport, Some (r, i), o') \<Rightarrow> (case legacy_action message (dr_Action r) of
         Some x \<Rightarrow> x
       | None \<Rightarrow> (case transport of None \<Rightarrow> Panic
           | Some t \<Rightarrow>
               (let chk = addressLimitResponseCheck r; a = ask start t (finalizeExchangeOptions R o') chk
                in if chk \<noteq> None \<and> is_rejected (snd a) then again i else sent t a))))"

lemma exchangeLegacy_decide:
  "exchangeLegacy R ask rules message options ruleIndex =
     legacy_decide R ask message (next_index ruleIndex) (\<lambda>i. exchangeLegacy R ask rules message options (Some i)) (matchDNS R rules True ruleIndex (isAddressQuery message) options)"
  unfolding exchangeLegacy.simps [of R ask rules message options ruleIndex] legacy_decide_def ..

lemma in_order_decide:
  assumes "\<And>j. i \<le> j \<Longrightarrow> j < i + length rs \<Longrightarrow> again j = legacy_in_order R ask message options (Suc j) (Suc j) options (drop (Suc j - i) rs)"
  shows "legacy_decide R ask message start again (matchDNS_from R True (isAddressQuery message) i rs cur) = legacy_in_order R ask message options start i cur rs"
  using assms
proof (induction rs arbitrary: i cur)
  case Nil
  then show ?case by (simp add: legacy_decide_def)
next
  case (Cons r rs)
  have skip: "legacy_decide R ask message start again (matchDNS_from R True (isAddressQuery message) (Suc i) rs c) = legacy_in_order R ask message options start (Suc i) c rs" for c
  proof (rule Cons.IH)
    fix j assume "Suc i \<le> j" "j < Suc i + length rs"
    moreover from this obtain k where "j = Suc i + k" using le_Suc_ex by blast
    ultimately show "again j = legacy_in_order R ask message options (Suc j) (Suc j) options (drop (Suc j - Suc i) rs)" using Cons.prems [of j] by simp
  qed
  have again: "again i = legacy_in_order R ask message options (Suc i) (Suc i) options rs" using Cons.prems [of i] by simp
  show ?case
  proof (cases "lr_WithAddressLimit r \<and> \<not> isAddressQuery message \<or> \<not> lr_LegacyPreMatch r")
    case True
    then show ?thesis using skip by auto
  next
    case False
    show ?thesis
    proof (cases "dr_Action r")
      case (ActionRoute server ro s)
      then show ?thesis using False skip again by (cases "rt_Transport R server") (auto simp: legacy_decide_def legacy_action_def Let_def)
    next
      case (ActionReject how)
      then show ?thesis using False by (cases how) (auto simp: legacy_decide_def legacy_action_def)
    next
      case (ActionPredefined p)
      then show ?thesis using False by (auto simp: legacy_decide_def legacy_action_def)
    qed (use False skip in auto)
  qed
qed

lemma exchangeLegacy_from:
  "exchangeLegacy R ask rules message options ruleIndex =
     legacy_in_order R ask message options (next_index ruleIndex) (next_index ruleIndex) options (drop (next_index ruleIndex) rules)"
proof (induction "length rules - next_index ruleIndex" arbitrary: ruleIndex rule: less_induct)
  case less
  have "exchangeLegacy R ask rules message options (Some j) = legacy_in_order R ask message options (Suc j) (Suc j) options (drop (Suc j - next_index ruleIndex) (drop (next_index ruleIndex) rules))"
    if "next_index ruleIndex \<le> j" "j < next_index ruleIndex + length (drop (next_index ruleIndex) rules)" for j
    using less [of "Some j"] that by (simp add: next_index_def [of "Some j"])
  then show ?case unfolding exchangeLegacy_decide [of R ask rules message options ruleIndex] matchDNS_def by (rule in_order_decide)
qed

text \<open>C30. The legacy mode, which starts \<open>matchDNS\<close> again after each rejected response, is one pass over the rules that consults each rule
  at most once and always comes to a result.\<close>

theorem exchangeLegacy_in_order:
  "exchangeLegacy R ask rules message options None = legacy_in_order R ask message options 0 0 options rules"
  using exchangeLegacy_from [of R ask rules message options None] by (simp add: next_index_def)

text \<open>Options set by a \<open>route-options\<close> rule are lost once a response is rejected: the cache is disabled for the first server only.\<close>

definition ex_legacy_rules :: "LegacyDNSRule list" where
  "ex_legacy_rules = (let rule = (\<lambda>action limit. \<lparr>dr_MatchResponseTags = [], dr_MatchResponseAnonymous = False, dr_MatchResponseTag = [], dr_Race = False,
       dr_Match = (\<lambda>a n. True), dr_Action = action, lr_WithAddressLimit = limit, lr_LegacyPreMatch = True, lr_MatchAddressLimit = (\<lambda>m. False)\<rparr>)
     in [rule (ActionRouteOptions (ex_route_options\<lparr>ro_DisableCache := True\<rparr>)) False, rule (ActionRoute ''s'' ex_route_options False) True,
         rule (ActionRoute ''t'' ex_route_options False) False])"

definition ex_two_servers :: dns_router where
  "ex_two_servers = \<lparr>rt_Transport = (\<lambda>t. Some (ex_server t, False)), rt_Default = ex_server ''d'', rt_defaultDomainStrategy = AsIS\<rparr>"

definition ex_question :: Msg where
  "ex_question = (ex_message 0)\<lparr>m_Question := [\<lparr>q_Name = ''a.'', q_Qtype = TypeA, q_Qclass = ClassINET\<rparr>]\<rparr>"

lemma rejection_forgets_options:
  assumes "snd (ask 0 (ex_server ''s'') (zero_options\<lparr>o_DisableCache := True\<rparr>) (Some (\<lambda>m. False))) = Some ErrResponseRejected"
  shows "exchangeLegacy ex_two_servers ask ex_legacy_rules ex_question zero_options None = sent (ex_server ''t'') (ask 2 (ex_server ''t'') zero_options None)"
  unfolding exchangeLegacy_from [of _ _ _ _ _ None] using assms
  by (simp add: next_index_def ex_legacy_rules_def Let_def ex_two_servers_def ex_question_def isAddressQuery_def addressLimitResponseCheck_def legacy_options_def
      ex_route_options_def zero_options_def zero_prefix_def prefix_IsValid_def finalizeExchangeOptions_def is_rejected_def numeral_2_eq_2)


section \<open>Exchange\<close>

definition TypeSVCB :: uint16 where
  "TypeSVCB = 64"

definition isResolverDiscoveryQuery :: "unicode \<Rightarrow> question \<Rightarrow> bool" where
  "isResolverDiscoveryQuery u q = (q_Qtype q = TypeSVCB \<and> 5 < length (q_Name q) \<and> equalFold u (take 5 (q_Name q)) ''_dns.'')"

text \<open>What \<open>prepareExchange\<close> sets in the metadata for the rules; \<open>isDo\<close> is the DNSSEC bit of the OPT record, as \<^verbatim>\<open>miekg/dns\<close> reads
  it. The counter of the power manager is left out.\<close>

record dns_metadata =
  md_QueryType :: uint16
  md_IPVersion :: nat          \<comment> \<open>0 where it is left as it was\<close>
  md_Domain :: string
  md_QueryClientSubnet :: prefix
  md_QueryDNSSEC :: bool

datatype prepared = Early Msg | Closed | Prepared dns_metadata

definition fixed_reply :: "Msg \<Rightarrow> int \<Rightarrow> bool \<Rightarrow> bool \<Rightarrow> Msg" where
  "fixed_reply message rcode rd ra = \<lparr>m_Id = m_Id message, m_Response = True, m_Authoritative = False, m_RecursionDesired = rd, m_RecursionAvailable = ra, m_Rcode = rcode,
     m_Question = m_Question message, m_Answer = [], m_Ns = [], m_Extra = []\<rparr>"

definition prepareExchange :: "unicode \<Rightarrow> (string \<Rightarrow> bool) \<Rightarrow> (Msg \<Rightarrow> bool) \<Rightarrow> bool \<Rightarrow> Msg \<Rightarrow> prepared" where
  "prepareExchange u IsFqdn isDo closing message = (case m_Question message of
     [q] \<Rightarrow>
       if isResolverDiscoveryQuery u q then Early (fixed_reply message 0 (m_RecursionDesired message) True)
       else if closing then Closed
       else Prepared \<lparr>md_QueryType = q_Qtype q, md_IPVersion = (if q_Qtype q = TypeA then 4 else if q_Qtype q = TypeAAAA then 6 else 0),
         md_Domain = FqdnToDomain IsFqdn (q_Name q), md_QueryClientSubnet = clientSubnetFromMessage message,
         md_QueryDNSSEC = isDo message\<rparr>
   | _ \<Rightarrow> Early (fixed_reply message 1 False False))"

text \<open>The reverse mapping is a cache of the sing library; \<open>recordReverseMapping\<close> gives the calls of \<open>AddWithLifetime\<close> with address, domain and
  nanoseconds. The flag of a transport is whether its type is fakeip.\<close>

definition reverse_record :: "route_env \<Rightarrow> (string \<Rightarrow> bool) \<Rightarrow> rr \<Rightarrow> (addr \<times> string \<times> int) list" where
  "reverse_record ev IsFqdn r = (let entry = (\<lambda>ip. [(re_AddrFromIP ev ip, FqdnToDomain IsFqdn (hd_Name r), uint (hd_Ttl r) * 1000000000)])
     in case rr_Data r of RD_A ip \<Rightarrow> entry ip | RD_AAAA ip \<Rightarrow> entry ip | _ \<Rightarrow> [])"

definition recordReverseMapping :: "route_env \<Rightarrow> (string \<Rightarrow> bool) \<Rightarrow> bool \<Rightarrow> Msg \<Rightarrow> Msg option \<Rightarrow> bool option \<Rightarrow> (addr \<times> string \<times> int) list" where
  "recordReverseMapping ev IsFqdn enabled message response isFakeIP = (case response of
     Some m \<Rightarrow> if enabled \<and> m_Question message \<noteq> [] \<and> m_Answer m \<noteq> [] \<and> isFakeIP \<noteq> Some True
               then concat (map (reverse_record ev IsFqdn) (m_Answer m)) else []
   | None \<Rightarrow> [])"

text \<open>\<open>Router.Exchange\<close>: \<open>explicit\<close> is \<open>options.Transport\<close>, \<open>walk\<close> the result of the rule walk. It returns response and error and the entries of
  the reverse mapping.\<close>

record exchange_router =
  xr_router :: dns_router
  xr_rules :: "LegacyDNSRule list"
  xr_legacyDNSMode :: bool
  xr_closing :: bool
  xr_reverseMapping :: bool
  xr_isFakeIP :: "DNSTransport \<Rightarrow> bool"

definition route_exchange :: "exchange_router \<Rightarrow> client_answer \<Rightarrow> exchangeWithRulesResult \<Rightarrow> DNSTransport option \<Rightarrow> Msg \<Rightarrow> DNSQueryOptions \<Rightarrow> exchanged" where
  "route_exchange X ask walk explicit message options = (case explicit of
     Some t \<Rightarrow> sent t (ask 0 t (finalizeExchangeOptions (xr_router X) options) None)
   | None \<Rightarrow> if \<not> xr_legacyDNSMode X then Ok (er_response walk, er_transport walk, er_err walk)
             else exchangeLegacy (xr_router X) ask (xr_rules X) message options None)"

definition router_Exchange :: "route_env \<Rightarrow> (string \<Rightarrow> bool) \<Rightarrow> (Msg \<Rightarrow> bool) \<Rightarrow> exchange_router \<Rightarrow> client_answer \<Rightarrow> exchangeWithRulesResult \<Rightarrow> DNSTransport option \<Rightarrow> Msg \<Rightarrow>
    DNSQueryOptions \<Rightarrow> (unit, (Msg option \<times> router_error option) \<times> (addr \<times> string \<times> int) list) res" where
  "router_Exchange ev IsFqdn isDo X ask walk explicit message options = (case prepareExchange (re_unicode ev) IsFqdn isDo (xr_closing X) message of
     Early m \<Rightarrow> Ok ((Some m, None), [])
   | Closed \<Rightarrow> Ok ((None, Some RouterClosed), [])
   | Prepared _ \<Rightarrow> res_bind (route_exchange X ask walk explicit message options) (\<lambda>(response, transport, err).
       if err \<noteq> None then Ok ((None, err), [])
       else Ok ((response, None), recordReverseMapping ev IsFqdn (xr_reverseMapping X) message response (map_option (xr_isFakeIP X) transport))))"


section \<open>Lookups\<close>

definition resolveLookupStrategy :: "dns_router \<Rightarrow> DNSQueryOptions \<Rightarrow> DomainStrategy" where
  "resolveLookupStrategy R options =
     (if o_LookupStrategy options \<noteq> AsIS then o_LookupStrategy options else if o_Strategy options \<noteq> AsIS then o_Strategy options else rt_defaultDomainStrategy R)"

definition Is4 :: "addr \<Rightarrow> bool" where
  "Is4 a = (case a of IPv4 _ \<Rightarrow> True | _ \<Rightarrow> False)"

definition Is6 :: "addr \<Rightarrow> bool" where
  "Is6 a = (case a of IPv6 _ _ \<Rightarrow> True | _ \<Rightarrow> False)"

definition filterAddressesByQueryType :: "addr list \<Rightarrow> uint16 \<Rightarrow> addr list" where
  "filterAddressesByQueryType addresses qType =
     (if qType = TypeA then filter Is4 addresses else if qType = TypeAAAA then filter Is6 addresses else addresses)"

text \<open>\<open>RuleActionReject.Error\<close>: rejections of the last 30 seconds are counted and a flood is dropped. Times are nanoseconds.\<close>

datatype lookup_error = RejectedReset | RejectedDrop | Rejected "lookup_error option" | LookupError router_error | LookupRcode int

definition reject_Error :: "reject_method \<Rightarrow> bool \<Rightarrow> int \<Rightarrow> int list \<Rightarrow> lookup_error option \<times> int list" where
  "reject_Error method noDrop now counter = (case method of
     RejectDrop \<Rightarrow> (Some RejectedDrop, counter)
   | RejectReply \<Rightarrow> (None, counter)
   | RejectDefault \<Rightarrow>
       if noDrop then (Some RejectedReset, counter)
       else (let counter1 = filter (\<lambda>t. now - t \<le> 30 * 1000000000) counter @ [now]
             in (if 50 < length counter1 then Some RejectedDrop else Some RejectedReset, counter1)))"

text \<open>The query is \<open>lookup_message\<close> with the full name; \<open>rejectError\<close> is what \<open>rejectAction.Error\<close> returned.\<close>

definition lookupWithRulesType :: "route_env \<Rightarrow> (Msg \<Rightarrow> DNSQueryOptions \<Rightarrow> exchangeWithRulesResult) \<Rightarrow> lookup_error option \<Rightarrow> string \<Rightarrow> uint16 \<Rightarrow> DNSQueryOptions \<Rightarrow>
    (unit, addr list \<times> lookup_error option) res" where
  "lookupWithRulesType ev walk rejectError fqdn qType options =
     (let x = walk (lookup_message fqdn qType) options
      in if er_rejectAction x \<noteq> None then Ok ([], rejectError)
         else (case er_err x of Some e \<Rightarrow> Ok ([], Some (LookupError e))
           | None \<Rightarrow> (case er_response x of None \<Rightarrow> Panic
             | Some m \<Rightarrow> if m_Rcode m \<noteq> 0 then Ok ([], Some (LookupRcode (m_Rcode m)))
                         else Ok (filterAddressesByQueryType (MessageToAddresses ev m) qType, None))))"

text \<open>Both lookups run in a task group of the sing library, whose error is a parameter of the two results.\<close>

definition lookupWithRules :: "route_env \<Rightarrow> dns_router \<Rightarrow> (Msg \<Rightarrow> DNSQueryOptions \<Rightarrow> exchangeWithRulesResult) \<Rightarrow> lookup_error option \<Rightarrow>
    (lookup_error option \<Rightarrow> lookup_error option \<Rightarrow> lookup_error option) \<Rightarrow> string \<Rightarrow> DNSQueryOptions \<Rightarrow> (unit, addr list \<times> lookup_error option) res" where
  "lookupWithRules ev R walk rejectError group_error fqdn options =
     (let strategy = resolveLookupStrategy R options;
          lookupOptions = (if strategy \<noteq> AsIS then options\<lparr>o_Strategy := strategy\<rparr> else options)
      in if strategy = IPv4Only then lookupWithRulesType ev walk rejectError fqdn TypeA lookupOptions
         else if strategy = IPv6Only then lookupWithRulesType ev walk rejectError fqdn TypeAAAA lookupOptions
         else res_bind (lookupWithRulesType ev walk rejectError fqdn TypeA lookupOptions) (\<lambda>(response4, err4).
              res_bind (lookupWithRulesType ev walk rejectError fqdn TypeAAAA lookupOptions) (\<lambda>(response6, err6).
                if response4 = [] \<and> response6 = [] then Ok ([], group_error err4 err6)
                else Ok (sortAddresses response4 response6 strategy, None))))"

text \<open>The lookup of the legacy mode: any error starts the next rule when the rule has an address limit.\<close>

type_synonym client_lookup = "nat \<Rightarrow> DNSTransport \<Rightarrow> DNSQueryOptions \<Rightarrow> checker \<Rightarrow> addr list \<times> dns_error option"

definition predefined_addresses :: "route_env \<Rightarrow> RuleActionPredefined \<Rightarrow> addr list \<times> lookup_error option" where
  "predefined_addresses ev p =
     (if pd_Rcode p \<noteq> 0 then ([], Some (LookupRcode (pd_Rcode p)))
      else (concat (map (\<lambda>r. case rr_Data r of RD_A ip \<Rightarrow> [re_AddrFromIP ev ip] | RD_AAAA ip \<Rightarrow> [re_AddrFromIP ev ip] | _ \<Rightarrow> []) (pd_Answer p)), None))"

function lookupLegacy :: "route_env \<Rightarrow> dns_router \<Rightarrow> client_lookup \<Rightarrow> lookup_error option \<Rightarrow> LegacyDNSRule list \<Rightarrow> DNSQueryOptions \<Rightarrow> nat option \<Rightarrow>
    (unit, addr list \<times> lookup_error option) res" where
  "lookupLegacy ev R look rejectError rules options ruleIndex =
     (case matchDNS R rules False ruleIndex True options of
        (transport, None, dnsOptions) \<Rightarrow> (case transport of None \<Rightarrow> Panic
          | Some t \<Rightarrow> (case look (next_index ruleIndex) t (finalizeExchangeOptions R dnsOptions) None of (as, err) \<Rightarrow> Ok (as, map_option (LookupError \<circ> ClientError) err)))
      | (transport, Some (r, i), dnsOptions) \<Rightarrow> (case dr_Action r of
            ActionReject _ \<Rightarrow> Ok ([], Some (Rejected rejectError))
          | ActionPredefined p \<Rightarrow> Ok (predefined_addresses ev p)
          | _ \<Rightarrow> (case transport of None \<Rightarrow> Panic
              | Some t \<Rightarrow> (case look (next_index ruleIndex) t (finalizeExchangeOptions R dnsOptions) (addressLimitResponseCheck r) of (as, err) \<Rightarrow>
                  if addressLimitResponseCheck r = None \<or> err = None then Ok (as, map_option (LookupError \<circ> ClientError) err)
                  else lookupLegacy ev R look rejectError rules options (Some i)))))"
  by pat_completeness auto
termination
  by (relation "measure (\<lambda>(ev, R, look, rejectError, rules, options, ruleIndex). length rules - next_index ruleIndex)") (auto dest: matchDNS_later)

declare lookupLegacy.simps [simp del]

text \<open>\<open>Router.Lookup\<close>; \<open>printResult\<close> turns a success without addresses into an error.\<close>

definition printResult :: "addr list \<times> lookup_error option \<Rightarrow> addr list \<times> lookup_error option" where
  "printResult r = (if snd r = None \<and> fst r = [] then ([], Some (LookupError EmptyResult)) else r)"

definition router_Lookup :: "route_env \<Rightarrow> exchange_router \<Rightarrow> client_lookup \<Rightarrow> (Msg \<Rightarrow> DNSQueryOptions \<Rightarrow> exchangeWithRulesResult) \<Rightarrow> lookup_error option \<Rightarrow>
    (lookup_error option \<Rightarrow> lookup_error option \<Rightarrow> lookup_error option) \<Rightarrow> DNSTransport option \<Rightarrow> string \<Rightarrow> DNSQueryOptions \<Rightarrow> (unit, addr list \<times> lookup_error option) res" where
  "router_Lookup ev X look walk rejectError group_error explicit fqdn options =
     (if xr_closing X then Ok ([], Some (LookupError RouterClosed))
      else res_bind (case explicit of
          Some t \<Rightarrow> (case look 0 t (finalizeExchangeOptions (xr_router X) options) None of (as, err) \<Rightarrow> Ok (as, map_option (LookupError \<circ> ClientError) err))
        | None \<Rightarrow> if \<not> xr_legacyDNSMode X then lookupWithRules ev (xr_router X) walk rejectError group_error fqdn options
                  else lookupLegacy ev (xr_router X) look rejectError (xr_rules X) options None)
        (\<lambda>r. Ok (printResult r)))"


section \<open>What exchanges and lookups give\<close>

text \<open>The reverse mapping learns from answers that were returned, one entry per address record, and never from a fakeip server.\<close>

lemma reverse_mapping_sound:
  assumes "router_Exchange ev IsFqdn isDo X ask walk explicit message options = Ok ((response, err), adds)" "(a, domain, ttl) \<in> set adds"
  shows "err = None \<and> (\<exists>m r ip t. response = Some m \<and> r \<in> set (m_Answer m) \<and> (rr_Data r = RD_A ip \<or> rr_Data r = RD_AAAA ip) \<and> a = re_AddrFromIP ev ip \<and>
    domain = FqdnToDomain IsFqdn (hd_Name r) \<and> ttl = uint (hd_Ttl r) * 1000000000 \<and>
    route_exchange X ask walk explicit message options = Ok (response, t, None) \<and> (\<forall>t'. t = Some t' \<longrightarrow> \<not> xr_isFakeIP X t'))"
proof -
  obtain t where t: "route_exchange X ask walk explicit message options = Ok (response, t, None)" "err = None"
    "adds = recordReverseMapping ev IsFqdn (xr_reverseMapping X) message response (map_option (xr_isFakeIP X) t)"
    using assms by (auto simp: router_Exchange_def res_bind_eq_Ok split: prepared.splits if_splits)
  have "\<exists>m r. response = Some m \<and> r \<in> set (m_Answer m) \<and> (a, domain, ttl) \<in> set (reverse_record ev IsFqdn r) \<and> map_option (xr_isFakeIP X) t \<noteq> Some True"
    using assms(2) by (auto simp: t(3) recordReverseMapping_def split: option.splits if_splits)
  then obtain m r where m: "response = Some m" "r \<in> set (m_Answer m)" "(a, domain, ttl) \<in> set (reverse_record ev IsFqdn r)" "map_option (xr_isFakeIP X) t \<noteq> Some True" by blast
  from m(3) obtain ip where "rr_Data r = RD_A ip \<or> rr_Data r = RD_AAAA ip" "a = re_AddrFromIP ev ip" "domain = FqdnToDomain IsFqdn (hd_Name r)" "ttl = uint (hd_Ttl r) * 1000000000"
    by (auto simp: reverse_record_def Let_def split: rdata.splits)
  then show ?thesis using t(1,2) m(1,2,4) by auto
qed

text \<open>The query types a strategy asks for, in the order of preference, and the options they are asked with.\<close>

definition asked_types :: "DomainStrategy \<Rightarrow> uint16 list" where
  "asked_types strategy = (case strategy of
     IPv4Only \<Rightarrow> [TypeA] | IPv6Only \<Rightarrow> [TypeAAAA] | PreferIPv6 \<Rightarrow> [TypeAAAA, TypeA] | _ \<Rightarrow> [TypeA, TypeAAAA])"

definition asked_options :: "DomainStrategy \<Rightarrow> DNSQueryOptions \<Rightarrow> DNSQueryOptions" where
  "asked_options strategy options = (if strategy = AsIS then options else options\<lparr>o_Strategy := strategy\<rparr>)"

text \<open>What one query contributes: the addresses of its family in the response, when the rules gave a successful one.\<close>

definition successful :: "exchangeWithRulesResult \<Rightarrow> Msg option" where
  "successful x = (if er_rejectAction x = None \<and> er_err x = None then (case er_response x of Some m \<Rightarrow> if m_Rcode m = 0 then Some m else None | None \<Rightarrow> None) else None)"

definition contributed :: "route_env \<Rightarrow> (Msg \<Rightarrow> DNSQueryOptions \<Rightarrow> exchangeWithRulesResult) \<Rightarrow> string \<Rightarrow> DNSQueryOptions \<Rightarrow> uint16 \<Rightarrow> addr list" where
  "contributed ev walk fqdn options qType = (case successful (walk (lookup_message fqdn qType) options) of
     Some m \<Rightarrow> filter (if qType = TypeA then Is4 else Is6) (MessageToAddresses ev m) | None \<Rightarrow> [])"

definition concludes :: "exchangeWithRulesResult \<Rightarrow> bool" where
  "concludes x = (er_rejectAction x \<noteq> None \<or> er_err x \<noteq> None \<or> er_response x \<noteq> None)"

lemma type_lookup:
  assumes "concludes (walk (lookup_message fqdn qType) options)" "qType = TypeA \<or> qType = TypeAAAA"
  shows "\<exists>err. lookupWithRulesType ev walk rejectError fqdn qType options = Ok (contributed ev walk fqdn options qType, err) \<and>
    (contributed ev walk fqdn options qType \<noteq> [] \<longrightarrow> err = None)"
  using assms
  by (auto simp: lookupWithRulesType_def contributed_def successful_def concludes_def Let_def filterAddressesByQueryType_def dns_types split: if_splits option.splits)

lemma rules_lookup:
  assumes "\<forall>q. concludes (walk (lookup_message fqdn q) (asked_options strategy options))" "strategy = resolveLookupStrategy R options"
  shows "\<exists>err. lookupWithRules ev R walk rejectError group_error fqdn options =
      Ok (concat (map (contributed ev walk fqdn (asked_options strategy options)) (asked_types strategy)), err) \<and>
    (concat (map (contributed ev walk fqdn (asked_options strategy options)) (asked_types strategy)) \<noteq> [] \<longrightarrow> err = None)"
proof -
  define lo where "lo = (if strategy \<noteq> AsIS then options\<lparr>o_Strategy := strategy\<rparr> else options)"
  note d = lookupWithRules_def [of ev R walk rejectError group_error fqdn options, unfolded Let_def assms(2) [symmetric] lo_def [symmetric]]
  have lo: "asked_options strategy options = lo" by (simp add: asked_options_def lo_def)
  obtain e4 where e4: "lookupWithRulesType ev walk rejectError fqdn TypeA lo = Ok (contributed ev walk fqdn lo TypeA, e4)"
      "contributed ev walk fqdn lo TypeA \<noteq> [] \<longrightarrow> e4 = None"
    using type_lookup [of walk fqdn TypeA lo ev rejectError] assms(1) unfolding lo by blast
  obtain e6 where e6: "lookupWithRulesType ev walk rejectError fqdn TypeAAAA lo = Ok (contributed ev walk fqdn lo TypeAAAA, e6)"
      "contributed ev walk fqdn lo TypeAAAA \<noteq> [] \<longrightarrow> e6 = None"
    using type_lookup [of walk fqdn TypeAAAA lo ev rejectError] assms(1) unfolding lo by blast
  show ?thesis
    unfolding lo using e4 e6 by (cases strategy) (auto simp: d asked_types_def sortAddresses_def)
qed

text \<open>C32. A lookup of a running router outside of the legacy mode, with no server named by the caller, when the rule walk ends each query in a response, an
  error or a rejection: it asks for A, for AAAA, or for both, as the strategy says (that of the lookup, of the query, or the default of the router), and what it returns is exactly
  the addresses of the asked family in each successful response, those of the preferred family first. A query that fails loses none of the addresses of
  the other, and the lookup fails just when there is no address at all.\<close>

theorem lookup_follows_strategy:
  assumes "\<not> xr_closing X" "\<not> xr_legacyDNSMode X" "strategy = resolveLookupStrategy (xr_router X) options"
    "\<forall>q. concludes (walk (lookup_message fqdn q) (asked_options strategy options))"
  shows "\<exists>as err. router_Lookup ev X look walk rejectError group_error None fqdn options = Ok (as, err) \<and>
    as = concat (map (contributed ev walk fqdn (asked_options strategy options)) (asked_types strategy)) \<and> (err = None) = (as \<noteq> [])"
  using rules_lookup [where walk = walk and fqdn = fqdn and ev = ev and rejectError = rejectError and group_error = group_error, OF _ assms(3)] assms(1,2,4)
  by (auto simp: router_Lookup_def printResult_def)

text \<open>A name with one address of each family, which is also answered with the other one, and a name whose AAAA query fails.\<close>

definition ex_both :: "Msg \<Rightarrow> DNSQueryOptions \<Rightarrow> exchangeWithRulesResult" where
  "ex_both m options = (if m = lookup_message ''b.'' TypeAAAA then no_result\<lparr>er_response := Some ((ex_message 0)\<lparr>m_Rcode := 2\<rparr>)\<rparr>
     else no_result\<lparr>er_response := Some ((ex_message 0)\<lparr>m_Answer :=
     [\<lparr>hd_Name = ''a.'', hd_Rrtype = 1, hd_Class = 1, hd_Ttl = 60, rr_Data = RD_A [10, 0, 0, 1]\<rparr>,
      \<lparr>hd_Name = ''a.'', hd_Rrtype = 28, hd_Class = 1, hd_Ttl = 60, rr_Data = RD_AAAA []\<rparr>]\<rparr>)\<rparr>)"

definition ex_addr_env :: "route_env \<Rightarrow> route_env" where
  "ex_addr_env ev = ev\<lparr>re_AddrFromIP := (\<lambda>ip. if length ip = 4 then IPv4 1 else IPv6 1 [])\<rparr>"

definition ex_exchange_router :: exchange_router where
  "ex_exchange_router = \<lparr>xr_router = ex_router, xr_rules = [], xr_legacyDNSMode = False, xr_closing = False, xr_reverseMapping = False, xr_isFakeIP = (\<lambda>_. False)\<rparr>"

lemma ex_both_concludes: "concludes (ex_both m options)"
  by (simp add: ex_both_def concludes_def)

lemma ex_contributed:
  "contributed (ex_addr_env ev) ex_both ''a.'' options TypeA = [IPv4 1]" "contributed (ex_addr_env ev) ex_both ''a.'' options TypeAAAA = [IPv6 1 []]"
  "contributed (ex_addr_env ev) ex_both ''b.'' options TypeA = [IPv4 1]" "contributed (ex_addr_env ev) ex_both ''b.'' options TypeAAAA = []"
  by (simp_all add: contributed_def successful_def ex_both_def no_result_def lookup_message_def ex_message_def MessageToAddresses_def
      DNSResponseAddresses_def msg_view_def rr_view_def rr_addresses_def ex_addr_env_def addr_IsValid_def dns_types Is4_def Is6_def)

text \<open>Witness of C32: with IPv6 preferred, the first name gives both addresses, the IPv6 one first, and the second its IPv4 address without an error.\<close>

lemma lookup_follows_strategy_witness:
  "router_Lookup (ex_addr_env example_dns_env) ex_exchange_router (\<lambda>_ _ _ _. ([], None)) ex_both None (\<lambda>a b. a) None ''a.'' (zero_options\<lparr>o_Strategy := PreferIPv6\<rparr>) =
      Ok ([IPv6 1 [], IPv4 1], None) \<and>
    router_Lookup (ex_addr_env example_dns_env) ex_exchange_router (\<lambda>_ _ _ _. ([], None)) ex_both None (\<lambda>a b. a) None ''b.'' (zero_options\<lparr>o_Strategy := PreferIPv6\<rparr>) =
      Ok ([IPv4 1], None)"
proof -
  have s: "PreferIPv6 = resolveLookupStrategy (xr_router ex_exchange_router) (zero_options\<lparr>o_Strategy := PreferIPv6\<rparr>)"
    by (simp add: resolveLookupStrategy_def zero_options_def)
  show ?thesis
    using lookup_follows_strategy [OF _ _ s, of ex_both "''a.''" "ex_addr_env example_dns_env" "\<lambda>_ _ _ _. ([], None)" None "\<lambda>a b. a"]
      lookup_follows_strategy [OF _ _ s, of ex_both "''b.''" "ex_addr_env example_dns_env" "\<lambda>_ _ _ _. ([], None)" None "\<lambda>a b. a"]
    by (simp add: ex_exchange_router_def ex_both_concludes ex_contributed asked_types_def)
qed

end
