(* ===== verification/Spec2Isabelle.thy ===== *)
theory Spec2Isabelle
  imports SSPanel_Client Controller_Interleaving Inbound_Ops Lockfree_Queue Periodic_Task Panel_Runtime Traffic_Routing
    Geosite Rule_Set_Binary TLS_Fragment FakeIP Outbound_Groups Sniffers DNS_Exchange
begin

text \<open>
  SingR is a fork of sing-box, a universal proxy, that takes its users, limits and settings from an SSPanel
  server. This development models the core of the program, file by file under \<^verbatim>\<open>src/\<close>, and proves what makes
  it correct.

  \<^bold>\<open>The program.\<close> The panel service (\<^verbatim>\<open>poet\<close>) starts one controller for each configured node. A controller asks
  the panel for the node and its users, keeps an authenticator of live accounts, pushes user deltas and node
  changes into a running inbound (naive, hysteria2 or anytls), and reports traffic, online users and audit hits on
  two periodic tasks. The router asks the service to wrap every connection, which counts its bytes for the
  user and holds it to the rate limit. Around this is the proxy: rules decide where a connection or a DNS query
  goes, rule sets and geosite lists are read from compact binary files, outbounds form groups that select among
  their members and are started in the order of their dependencies, the fakeip server invents addresses for domains,
  a client hello can be cut into fragments, and sniffers guess the protocol of a connection from its first bytes.

  \<^bold>\<open>Conventions.\<close> A definition has the name of the function, method or type it models, with a suffix or a qualifier where the name
  is taken. State is a record, passed explicitly. A call that returns an error or may panic returns \<open>res\<close>
  (\<open>Ok\<close>, \<open>Err\<close> or \<open>Panic\<close>); index and slice expressions panic out of range. Go's maps are association lists
  (\<open>gomap\<close>) behind the locale \<open>go_map\<close>. Integers are words where their width matters, a \<open>float64\<close> is a mantissa and an exponent
  with the rounding of the operations used. Where goroutines meet (\<open>Controller_Interleaving\<close>, \<open>Lockfree_Queue\<close>, \<open>Periodic_Task\<close>, \<open>DNS_Client\<close>, \<open>DNS_Router\<close>), a critical
  section or an atomic operation is a step, and the steps interleave in any order; the other theories take a call as a whole. Code outside the repository (the HTTP client, QUIC and TLS services, domain matchers, zlib, the
  token bucket, the public suffix list, clocks, random numbers, sockets) is a parameter, with laws, where a
  theorem needs them, as hypotheses or as the assumptions of a locale that is interpreted on an instance.

  \<^bold>\<open>Theories.\<close>
  \<^item> \<open>Go_Prelude\<close>, \<open>Go_Strings\<close>, \<open>Go_Float\<close>, \<open>Go_Binary\<close>: what the sources use of Go and its standard library.
  \<^item> \<open>Panel_Api\<close> (\<^verbatim>\<open>poet/api\<close>), \<open>SSPanel_Parse\<close> and \<open>SSPanel_Client\<close> (\<^verbatim>\<open>poet/api/sspanel\<close>): the panel protocol, its parsers
    and its calls with ETags.
  \<^item> \<open>User_Account\<close>, \<open>Authenticator\<close> (\<^verbatim>\<open>poet/controller/user.go\<close>): counters, device limit and limiter of an account; users and
    aliases over a heap of accounts.
  \<^item> \<open>Inbound_Users\<close> (\<^verbatim>\<open>protocol/{naive,hysteria2,anytls}\<close>): user tables behind the locale \<open>user_runtime\<close>; \<open>Inbound_Reload\<close>: start, close
    and hot reload over a world of sockets and TLS configurations; \<open>Inbound_Ops\<close>: both as the controller sees them.
  \<^item> \<open>Controller_Sync\<close>, \<open>Controller_Monitor\<close> (\<^verbatim>\<open>poet/controller\<close>): the synchronisation of users, the monitors and the audit;
    \<open>Controller_Interleaving\<close>: the commit of a user list as single accesses to the shared tables and the collection of traffic as atomic swaps, with
    connections and the other monitor in between.
  \<^item> \<open>Periodic_Task\<close> (\<^verbatim>\<open>poet/common/task\<close>), \<open>Lockfree_Queue\<close> (\<^verbatim>\<open>poet/common/queue\<close>): interleaved goroutines.
  \<^item> \<open>Panel_Runtime\<close> (\<^verbatim>\<open>poet/panel\<close>, \<^verbatim>\<open>poet/shortcuts\<close>, \<^verbatim>\<open>cmd/sing-box/cmd_run.go\<close>), \<open>Traffic_Routing\<close> (\<^verbatim>\<open>poet/poet.go\<close>).
  \<^item> \<open>Route_Items\<close>, \<open>Route_Rules\<close>, \<open>Rule_Options\<close> (\<^verbatim>\<open>route/rule\<close>, \<^verbatim>\<open>option/rule_set.go\<close>): conditions, the rule engine with its
    deferred address state, and headless rules.
  \<^item> \<open>Geosite\<close> (\<^verbatim>\<open>common/geosite\<close>), \<open>Rule_Set_Binary\<close> (\<^verbatim>\<open>common/srs\<close>): the two binary formats.
  \<^item> \<open>Outbound_Manager\<close> (\<^verbatim>\<open>adapter/outbound\<close>, \<^verbatim>\<open>dns/transport_manager.go\<close>), \<open>Outbound_Groups\<close> (\<^verbatim>\<open>protocol/group\<close>,
    \<^verbatim>\<open>common/urltest\<close>, \<^verbatim>\<open>common/interrupt\<close>): dependencies and groups.
  \<^item> \<open>DNS_Messages\<close>, \<open>DNS_Client\<close> (\<^verbatim>\<open>dns/client.go\<close>, \<^verbatim>\<open>dns/extension_edns0_subnet.go\<close>): messages and their times to live; the
    client with its caches behind the locale \<open>dns_store\<close>, cut into atomic steps.
  \<^item> \<open>DNS_Router\<close>, \<open>DNS_Rule_Mode\<close>, \<open>DNS_Exchange\<close> (\<^verbatim>\<open>dns/router.go\<close>, \<^verbatim>\<open>route/rule/rule_dns.go\<close>): the walk over DNS rules as steps
    that interleave with the answers; the options of rules, their validation and the rules made from them; the legacy
    mode, exchanges and lookups.
  \<^item> \<open>FakeIP\<close> (\<^verbatim>\<open>dns/transport/fakeip\<close>), behind the locale \<open>fakeip_storage\<close>, and \<open>TLS_Fragment\<close> (\<^verbatim>\<open>common/tlsfragment\<close>).
  \<^item> \<open>Sniffers\<close> (\<^verbatim>\<open>common/sniff\<close>): the protocol sniffers that parse bytes themselves and the loops that feed them.

  \<^bold>\<open>What is shown.\<close> Users: a synchronisation keeps
  authenticator, aliases and runtime consistent for every answer of the panel and every outcome of the inbound,
  and after it a naive node authenticates exactly the panel's users. At every moment between two accesses of a commit, an account is loaded only for a user of the list
  being replaced or being installed, and when no commit runs exactly for a current user. Traffic: over any interleaving of connections, collections and
  reports, what the panel accepted, what failed reports and closed accounts gave up, and what is pending add up to what was counted. The mirror of
  hysteria2 agrees with its service as long as passwords are unique. Reload: a hot reload commits or leaves everything as it was. Rules: the engine,
  with merged rule sets, deferral and inversion, decides every connection as the documented formula does, but for logical rules inside flagged rule sets, and the
  check before a DNS lookup drops no rule that a response could satisfy, if the rule keeps domains and addresses apart. Formats: what is written is read back,
  every input is read without a panic, and a compiled rule set gives the rules of its source, unless that has empty slices that are not nil. Outbounds: they are started once, after
  what they need, and a failure names a real cause; following nested groups then always ends, in a server or at a group that has nothing to select; a URL test group
  selects within its tolerance and settles, where delays and tolerance fit in 16 bits. DNS: a response of the memory cache is an
  answer of the same server to the same question, within its time to live or, marked stale, within the optimistic timeout; each lock on a query is held by one operation
  in flight, and none is lost; the walk over the rules a router
  builds, without races and without answers that come between settling and reading, gives the result of the rules taken in order, whatever the order of the answers, and every walk can come to an end; the legacy mode
  is one pass over the rules; a rule set may change only where the rules stay valid in the running mode; a lookup returns exactly the addresses of
  the families its strategy asks for. Fake addresses of a range with room stay with their domain for a full cycle of it. Fragments carry
  the bytes of the packet. A stream is recognised by the four stream sniffers of the model however it is cut into pieces, when nothing was sniffed before, and no sniffer of the model panics. The queue is first-in
  first-out in every interleaving, and a periodic task that is started once never
  overlaps itself. Where the code does something else than it means to, a lemma shows the behaviour.

  \<^bold>\<open>Bounds and fuel.\<close> Every loop that follows data is a terminating function. The reader of a binary rule has as fuel one more than the
  bytes left, each item taking at least one, and readers of nested rules take the depth limit of the code plus one;
  the theorems show that the fuel is never what ends them. \<open>RealTag\<close>, \<open>Select\<close> and \<open>Network\<close> take the number of outbounds,
  which \<open>group_selection_ends\<close> shows to be enough; \<open>urlTest\<close> takes one unit for each level of nested URL test groups. The
  loop over TLS extensions is a partial function, as it need not end; it does for packets below 64 KiB. Waiting in the rate limiter
  and the retry loops of the queue are bounded by the theorems about them. The legacy loops of the DNS router terminate by the index of the
  rule, the walk over DNS rules is a relation whose end \<open>dns_walk_ends\<close> shows to be reachable from every state.

  \<^bold>\<open>Not modelled.\<close> The copying of connections, sockets, dialers and TLS; the proxy protocols and transports beyond the
  panel's view of three inbounds; the DNS transports beyond fakeip; the network manager and platform code; JSON
  decoding of options; the clients, control APIs and services; the cache file, whose buckets are parameters of what uses them; embedded
  certificate lists and generated code. They are I/O, cryptography in other repositories, or data. Of modelled components are left
  out the ticker that repeats the checks of a URL test group, the loading of rule sets from files and URLs, the items that the constructors
  of route and DNS rules make (those of headless rules are modelled), starting and closing the DNS router and its asynchronous entry
  points, a cancelled context in the walk, and the sniffers of HTTP, TLS and QUIC, which run parsers of other packages.
\<close>

section \<open>Properties that span components\<close>

lemma nodeInfoMonitor_error:
  assumes "fst (nodeInfoMonitor d now c) = Err e"
  shows "e = ServerPortZero"
proof -
  have lg: "fst (logged c' k) = Err e \<Longrightarrow> fst k = Err e" for c' k and e :: api_error
    by (auto simp: logged_def split: option.splits)
  have en: "fst (node_tick_end d b p ni c') \<noteq> Err e" for b p ni c' and e
    by (auto simp: node_tick_end_def Let_def split: prod.splits res.splits option.splits)
  have "fst (node_tick d b ni c') = Err e \<Longrightarrow> e = ServerPortZero" for b ni c' and e
    using en by (auto simp: node_tick_def Let_def dest!: lg split: if_splits prod.splits res.splits)
  then show ?thesis using assms
    by (auto simp: nodeInfoMonitor_def Let_def dest!: lg split: if_splits prod.splits res.splits option.splits)
qed

text \<open>C39. The node monitor survives every failure of the panel but one: when the panel reports port 0 the
  tick returns an error, which is the only error it can return, and \<open>task.Periodic\<close> then never runs it
  again: until the process restarts, the node follows neither its users nor its settings.\<close>

theorem port_zero_ends_node_monitor:
  assumes "started_long_ago now c" and "GetNodeInfo (d_api d) (c_api c) = (Ok ni, w)" and "ni_Port ni = 0"
    and "starts es \<le> 1" and "g \<in> set (executing (task_run es))" and "task_event.Start \<notin> set es'"
  shows "fst (nodeInfoMonitor d now c) = Err ServerPortZero
    \<and> (fst (nodeInfoMonitor d now' c') = Err e \<longrightarrow> e = ServerPortZero)
    \<and> executions es' (task_run (es @ [Go g (Some ServerPortZero)])) = 0"
  using assms nodeInfoMonitor_error[of d now' c' e] ended_no_executions[OF failed_execution_ends[OF assms(4,5)] assms(6)]
  by (auto simp: nodeInfoMonitor_def node_tick_def)

text \<open>Witness of C39: the first tick of a running node meets a node information without a port.\<close>

theorem port_zero_ends_node_monitor_witness:
  "executions [Go 0 None, Go 0 None] (task_run ([task_event.Start, Go 0 None] @ [Go 0 (Some ServerPortZero)])) = 0"
proof -
  let ?c = "running_node False [Ok (zero_node_info)] []"
  have st: "started_long_ago hour ?c" by (simp add: started_long_ago_def running_node_def example_config_def NewController_def)
  have gi: "GetNodeInfo (d_api (reload_deps True)) (c_api ?c) = (Ok zero_node_info, ([], []))"
    by (simp add: reload_deps_def node_api_def running_node_def NewController_def)
  have z: "ni_Port zero_node_info = 0" by (simp add: zero_node_info_def)
  have ex: "starts [task_event.Start, Go 0 (None :: api_error option)] \<le> 1" "0 \<in> set (executing (task_run [task_event.Start, Go 0 (None :: api_error option)]))"
    by (simp_all add: starts_def executing_def task_run_def new_task_def task_defs)
  have ns: "task_event.Start \<notin> set [Go 0 None, Go 0 (None :: api_error option)]" by simp
  show ?thesis using port_zero_ends_node_monitor[OF st gi z ex ns] by blast
qed

end
